(* ===== verification/Kudos_Prelude.thy ===== *)
theory Kudos_Prelude
  imports Main "HOL-Library.Word"
begin

text \<open>
  What every component of the development shares: the machine types, the outcome type of
  kernel code (\<open>res\<close>: a kernel error or a value), sequencing (\<open>rbind\<close>), checked access to
  arrays (tables as partial maps, buffers as lists), the signed 32-bit reading of an integer,
  and the generic lemmas the component proofs use by \<open>simp\<close> and \<open>auto\<close>.
\<close>

unbundle bit_operations_syntax

named_theorems res_simps \<open>evaluation of sequencing and checked access\<close>

section \<open>Machine types\<close>

type_synonym byte = "8 word"
type_synonym u16 = "16 word"
type_synonym u32 = "32 word"
type_synonym u64 = "64 word"

text \<open>The value of an integer after it is stored in a C \<open>int\<close> (two's complement, 32 bits).\<close>

definition c_int :: "int \<Rightarrow> int" where
  "c_int x = sint (word_of_int x :: u32)"

text \<open>The byte order of the build: x86_64 is compiled with SMALL_ENDIAN, mips32 is not.\<close>

datatype endian = Little | Big

section \<open>Outcomes of kernel code\<close>

text \<open>
  \<open>Panic\<close>: a KERNEL_ASSERT or KERNEL_PANIC stops the machine. \<open>OutOfBounds\<close>: an access
  outside an array or object, undefined in C. \<open>NullDeref\<close>: a null pointer is followed.
  \<open>Spin\<close>: a spinlock that is already taken is acquired, so the CPU spins. \<open>Blocked\<close>: the
  caller goes to sleep on a semaphore whose value is used up. \<open>Diverges\<close>: a pointer-chasing
  loop has taken more steps than an acyclic chain allows.
\<close>

datatype kerror = Panic | OutOfBounds | NullDeref | Spin | Blocked | Diverges

type_synonym 'a res = "kerror + 'a"

definition rbind :: "'a res \<Rightarrow> ('a \<Rightarrow> 'b res) \<Rightarrow> 'b res" where
  "rbind m f = (case m of Inl e \<Rightarrow> Inl e | Inr x \<Rightarrow> f x)"

definition kassert :: "bool \<Rightarrow> unit res" where
  "kassert b = (if b then Inr () else Inl Panic)"

lemma rbind_Inl [simp, res_simps]: "rbind (Inl e) f = Inl e"
  by (simp add: rbind_def)

lemma rbind_Inr [simp, res_simps]: "rbind (Inr x) f = f x"
  by (simp add: rbind_def)

lemma rbind_assoc: "rbind (rbind m f) g = rbind m (\<lambda>x. rbind (f x) g)"
  by (simp add: rbind_def split: sum.split)

lemma rbind_eq_Inr: "rbind m f = Inr y \<longleftrightarrow> (\<exists>x. m = Inr x \<and> f x = Inr y)"
  by (simp add: rbind_def split: sum.split)

lemma rbind_eq_Inl: "rbind m f = Inl e \<longleftrightarrow> m = Inl e \<or> (\<exists>x. m = Inr x \<and> f x = Inl e)"
  by (auto simp: rbind_def split: sum.split)

lemma rbind_cong [fundef_cong]:
  "m = m' \<Longrightarrow> (\<And>x. m' = Inr x \<Longrightarrow> f x = f' x) \<Longrightarrow> rbind m f = rbind m' f'"
  by (simp add: rbind_def split: sum.split)

lemma kassert_True [simp, res_simps]: "kassert True = Inr ()"
  by (simp add: kassert_def)

lemma kassert_False [simp, res_simps]: "kassert False = Inl Panic"
  by (simp add: kassert_def)

lemma kassert_eq_Inr [simp]: "kassert b = Inr u \<longleftrightarrow> b"
  by (simp add: kassert_def)

section \<open>Checked access\<close>

text \<open>
  A table of structures is a partial map from index to entry whose domain is the index range
  of the C array; a buffer is a list. Reading or writing outside is \<open>OutOfBounds\<close>.
\<close>

definition aget :: "(int \<rightharpoonup> 'a) \<Rightarrow> int \<Rightarrow> 'a res" where
  "aget m i = (case m i of None \<Rightarrow> Inl OutOfBounds | Some x \<Rightarrow> Inr x)"

definition aset :: "(int \<rightharpoonup> 'a) \<Rightarrow> int \<Rightarrow> 'a \<Rightarrow> (int \<rightharpoonup> 'a) res" where
  "aset m i x = (case m i of None \<Rightarrow> Inl OutOfBounds | Some _ \<Rightarrow> Inr (m(i \<mapsto> x)))"

definition lget :: "'a list \<Rightarrow> int \<Rightarrow> 'a res" where
  "lget xs i = (if 0 \<le> i \<and> i < int (length xs) then Inr (xs ! nat i) else Inl OutOfBounds)"

definition lset :: "'a list \<Rightarrow> int \<Rightarrow> 'a \<Rightarrow> 'a list res" where
  "lset xs i v = (if 0 \<le> i \<and> i < int (length xs) then Inr (xs[nat i := v]) else Inl OutOfBounds)"

text \<open>What the loop \<open>for (i = lo; i < hi; i++) m[i] = v\<close> leaves in an array.\<close>

definition afill :: "(int \<rightharpoonup> 'a) \<Rightarrow> int \<Rightarrow> int \<Rightarrow> 'a \<Rightarrow> (int \<rightharpoonup> 'a)" where
  "afill m lo hi v = (\<lambda>i. if lo \<le> i \<and> i < hi then Some v else m i)"

lemma dom_afill [simp]: "dom (afill m lo hi v) = dom m \<union> {lo..<hi}"
  by (auto simp: afill_def)

lemma afill_in [simp]: "lo \<le> i \<Longrightarrow> i < hi \<Longrightarrow> afill m lo hi v i = Some v"
  by (simp add: afill_def)

lemma aget_Some [simp, res_simps]: "m i = Some x \<Longrightarrow> aget m i = Inr x"
  by (simp add: aget_def)

lemma aget_None [simp, res_simps]: "m i = None \<Longrightarrow> aget m i = Inl OutOfBounds"
  by (simp add: aget_def)

lemma aget_eq_Inr: "aget m i = Inr x \<longleftrightarrow> m i = Some x"
  by (simp add: aget_def split: option.split)

lemma aset_Some [simp, res_simps]: "m i = Some y \<Longrightarrow> aset m i x = Inr (m(i \<mapsto> x))"
  by (simp add: aset_def)

lemma aset_None [simp, res_simps]: "m i = None \<Longrightarrow> aset m i x = Inl OutOfBounds"
  by (simp add: aset_def)

lemma lget_in [simp, res_simps]:
  "0 \<le> i \<Longrightarrow> i < int (length xs) \<Longrightarrow> lget xs i = Inr (xs ! nat i)"
  by (simp add: lget_def)

lemma lget_nat [simp, res_simps]: "n < length xs \<Longrightarrow> lget xs (int n) = Inr (xs ! n)"
  by (simp add: lget_def)

lemma lget_0_Cons [simp, res_simps]: "lget (x # xs) 0 = Inr x"
  by (simp add: lget_def)

lemma lset_in [simp, res_simps]:
  "0 \<le> i \<Longrightarrow> i < int (length xs) \<Longrightarrow> lset xs i v = Inr (xs[nat i := v])"
  by (simp add: lset_def)

lemma lset_nat [simp, res_simps]: "n < length xs \<Longrightarrow> lset xs (int n) v = Inr (xs[n := v])"
  by (simp add: lset_def)

section \<open>Signed 32-bit integers\<close>

lemma c_int_id: "- (2 ^ 31) \<le> x \<Longrightarrow> x < 2 ^ 31 \<Longrightarrow> c_int x = x"
  by (simp add: c_int_def signed_of_int signed_take_bit_int_eq_self)

lemma c_int_range: "- (2 ^ 31) \<le> c_int x \<and> c_int x < 2 ^ 31"
  using sint_range_size [of "word_of_int x :: u32"] by (simp add: c_int_def word_size)

text \<open>C division and remainder truncate towards zero.\<close>

definition c_div :: "int \<Rightarrow> int \<Rightarrow> int" where
  "c_div a b = sgn a * sgn b * (\<bar>a\<bar> div \<bar>b\<bar>)"

definition c_mod :: "int \<Rightarrow> int \<Rightarrow> int" where
  "c_mod a b = a - c_div a b * b"

lemma c_div_nonneg [simp]: "0 \<le> a \<Longrightarrow> 0 < b \<Longrightarrow> c_div a b = a div b"
  by (cases "a = 0") (simp_all add: c_div_def)

lemma c_mod_nonneg [simp]: "0 \<le> a \<Longrightarrow> 0 < b \<Longrightarrow> c_mod a b = a mod b"
  by (simp add: c_mod_def minus_div_mult_eq_mod)

section \<open>C strings in byte buffers\<close>

text \<open>A buffer holds a C string when it holds a zero byte; the string is what comes before.\<close>

definition terminated :: "byte list \<Rightarrow> bool" where
  "terminated bs \<longleftrightarrow> 0 \<in> set bs"

definition cstr :: "byte list \<Rightarrow> byte list" where
  "cstr bs = takeWhile (\<lambda>b. b \<noteq> 0) bs"

lemma terminated_Nil [simp]: "\<not> terminated []"
  by (simp add: terminated_def)

lemma terminated_Cons [simp]: "terminated (b # bs) \<longleftrightarrow> b = 0 \<or> terminated bs"
  by (auto simp: terminated_def)

lemma cstr_Nil [simp]: "cstr [] = []"
  by (simp add: cstr_def)

lemma cstr_Cons [simp]: "cstr (b # bs) = (if b = 0 then [] else b # cstr bs)"
  by (simp add: cstr_def)

lemma cstr_nonzero: "b \<in> set (cstr bs) \<Longrightarrow> b \<noteq> 0"
  by (auto simp: cstr_def dest: set_takeWhileD)

lemma terminated_append [simp]: "terminated (xs @ ys) \<longleftrightarrow> terminated xs \<or> terminated ys"
  by (auto simp: terminated_def)

lemma cstr_append_zero: "0 \<notin> set xs \<Longrightarrow> cstr (xs @ 0 # ys) = xs"
  by (induction xs) auto

lemma cstr_append: "terminated xs \<Longrightarrow> cstr (xs @ ys) = cstr xs"
  by (induction xs) auto

lemma terminated_decomp: "terminated bs \<Longrightarrow> \<exists>rest. bs = cstr bs @ 0 # rest"
  by (induction bs) auto

lemma cstr_length_less: "terminated bs \<Longrightarrow> length (cstr bs) < length bs"
  by (induction bs) auto

lemma cstr_nth: "i < length (cstr bs) \<Longrightarrow> bs ! i = cstr bs ! i"
  by (simp add: cstr_def takeWhile_nth)

lemma cstr_nth_end: "terminated bs \<Longrightarrow> bs ! length (cstr bs) = 0"
  by (induction bs) auto

lemma takeWhile_shorter: "x \<in> set xs \<Longrightarrow> \<not> P x \<Longrightarrow> length (takeWhile P xs) < length xs"
  by (induction xs) auto

section \<open>Pages\<close>

lemma ceil_div_page: "((x :: nat) + 4095) div 4096 = x div 4096 + (if x mod 4096 = 0 then 0 else 1)"
proof -
  have "x + 4095 = (x mod 4096 + 4095) + 4096 * (x div 4096)" by simp
  then have "(x + 4095) div 4096 = x div 4096 + (x mod 4096 + 4095) div 4096"
    by (metis div_mult_self2 zero_neq_numeral)
  moreover have "(x mod 4096 + 4095) div 4096 = (if x mod 4096 = 0 then 0 else 1)"
  proof (cases "x mod 4096 = 0")
    case False
    then show ?thesis using mod_less_divisor [of 4096 x] by (simp add: div_nat_eqI del: mod_less_divisor)
  qed simp
  ultimately show ?thesis by simp
qed

end
