(* ===== verification/Kernel_State.thy ===== *)
theory Kernel_State
  imports Kudos_Prelude
begin

text \<open>
  The state of the thread subsystem: the thread table (\<^verbatim>\<open>src/kudos/kernel/thread.h\<close>), the
  scheduler's ready list and current-thread table, the sleep queue hash table, the semaphore
  table, spinlocks and the interrupt flag of each CPU. The ready list and every sleep queue
  are singly linked through the \<open>next\<close> field of the thread table entries, so the theory also
  has the predicate \<open>chain\<close> (a list of threads linked from a head to the end mark) and its
  update lemmas.
\<close>

type_synonym tid = int

abbreviation (input) CONFIG_MAX_THREADS :: int where "CONFIG_MAX_THREADS \<equiv> 32"
abbreviation (input) CONFIG_THREAD_STACKSIZE :: int where "CONFIG_THREAD_STACKSIZE \<equiv> 4096"
abbreviation (input) CONFIG_MAX_CPUS :: int where "CONFIG_MAX_CPUS \<equiv> 4"
abbreviation (input) CONFIG_SCHEDULER_TIMESLICE :: u32 where "CONFIG_SCHEDULER_TIMESLICE \<equiv> 750"
abbreviation (input) CONFIG_MAX_SEMAPHORES :: int where "CONFIG_MAX_SEMAPHORES \<equiv> 128"
abbreviation (input) SLEEPQ_HASHTABLE_SIZE :: int where "SLEEPQ_HASHTABLE_SIZE \<equiv> 127"
abbreviation (input) IDLE_THREAD_TID :: tid where "IDLE_THREAD_TID \<equiv> 0"

section \<open>Data\<close>

datatype thread_state =
  THREAD_FREE | THREAD_RUNNING | THREAD_READY | THREAD_SLEEPING | THREAD_NONREADY | THREAD_DYING

text \<open>Pointers are addresses, \<open>0\<close> for NULL. The fields \<open>next\<close> and \<open>context\<close> are called \<open>nxt\<close> and \<open>kcontext\<close>.\<close>

record thread_entry =
  kcontext :: u64
  user_context :: u64
  state :: thread_state
  sleeps_on :: u32
  pagetable :: u64
  process_id :: int
  nxt :: tid
  attribs :: u32

record semaphore =
  sem_value :: int
  sem_creator :: tid

datatype lockid =
  Thread_table_slock | Sleepq_slock | Semaphore_table_slock | Sem_slock int

text \<open>Addresses the linker chooses, and the kernel's top-level page table.\<close>

record layout =
  thread_stack_areas :: u64
  thread_finish_addr :: u64
  idle_loop_addr :: u64
  semaphore_table_addr :: u64
  kernel_pml4_addr :: u64

text \<open>\<open>kmem\<close> is memory by 64-bit stores; \<open>timer\<close> the last argument of \<open>timer_set_ticks\<close>;
  \<open>tss_rsp0\<close> the ring-0 stack pointer of each task state segment.\<close>

record kstate =
  thread_table :: "int \<rightharpoonup> thread_entry"
  next_tid :: tid
  scheduler_current_thread :: "int \<rightharpoonup> tid"
  ready_head :: tid
  ready_tail :: tid
  sleepq_hashtable :: "int \<rightharpoonup> tid"
  semaphore_table :: "int \<rightharpoonup> semaphore"
  sem_next :: int
  slocks :: "lockid \<Rightarrow> int"
  intr_enabled :: "int \<Rightarrow> bool"
  timer :: u32
  kmem :: "u64 \<Rightarrow> u64"
  tss_rsp0 :: "int \<rightharpoonup> u64"
  link :: layout

section \<open>Interrupts and spinlocks\<close>

definition interrupt_disable :: "int \<Rightarrow> kstate \<Rightarrow> bool \<times> kstate" where
  "interrupt_disable cpu s =
     (intr_enabled s cpu, s\<lparr>intr_enabled := (intr_enabled s)(cpu := False)\<rparr>)"

definition interrupt_enable :: "int \<Rightarrow> kstate \<Rightarrow> bool \<times> kstate" where
  "interrupt_enable cpu s =
     (intr_enabled s cpu, s\<lparr>intr_enabled := (intr_enabled s)(cpu := True)\<rparr>)"

definition interrupt_set_state :: "int \<Rightarrow> bool \<Rightarrow> kstate \<Rightarrow> kstate" where
  "interrupt_set_state cpu stat s =
     (if stat then snd (interrupt_enable cpu s) else snd (interrupt_disable cpu s))"

definition interrupt_is_disabled :: "int \<Rightarrow> kstate \<Rightarrow> bool" where
  "interrupt_is_disabled cpu s \<longleftrightarrow> \<not> intr_enabled s cpu"

definition spinlock_acquire :: "lockid \<Rightarrow> kstate \<Rightarrow> kstate res" where
  "spinlock_acquire l s =
     (if slocks s l = 0 then Inr (s\<lparr>slocks := (slocks s)(l := 1)\<rparr>) else Inl Spin)"

definition spinlock_release :: "lockid \<Rightarrow> kstate \<Rightarrow> kstate" where
  "spinlock_release l s = s\<lparr>slocks := (slocks s)(l := 0)\<rparr>"

definition spinlock_reset :: "lockid \<Rightarrow> kstate \<Rightarrow> kstate" where
  "spinlock_reset l s = s\<lparr>slocks := (slocks s)(l := 0)\<rparr>"

lemmas interrupt_defs = interrupt_disable_def interrupt_enable_def interrupt_set_state_def
  interrupt_is_disabled_def

lemmas spinlock_defs = spinlock_acquire_def spinlock_release_def spinlock_reset_def

section \<open>Access to the thread table\<close>

definition get_thread :: "tid \<Rightarrow> kstate \<Rightarrow> thread_entry res" where
  "get_thread t s = aget (thread_table s) t"

definition upd_thread :: "tid \<Rightarrow> (thread_entry \<Rightarrow> thread_entry) \<Rightarrow> kstate \<Rightarrow> kstate res" where
  "upd_thread t f s =
     rbind (aget (thread_table s) t) (\<lambda>e.
     Inr (s\<lparr>thread_table := (thread_table s)(t \<mapsto> f e)\<rparr>))"

text \<open>The thread the CPU runs (\<^verbatim>\<open>thread_get_current_thread\<close>, \<^verbatim>\<open>src/kudos/kernel/thread.c\<close>).\<close>

definition thread_get_current_thread :: "int \<Rightarrow> kstate \<Rightarrow> (tid \<times> kstate) res" where
  "thread_get_current_thread cpu s =
     (let (intr_status, s) = interrupt_disable cpu s in
      rbind (aget (scheduler_current_thread s) cpu) (\<lambda>t.
      Inr (t, interrupt_set_state cpu intr_status s)))"

lemma interrupt_restore [simp]:
  "interrupt_set_state cpu (intr_enabled s cpu) (s'\<lparr>intr_enabled := (intr_enabled s)(cpu := b)\<rparr>) =
   s'\<lparr>intr_enabled := intr_enabled s\<rparr>"
  by (simp add: interrupt_defs fun_upd_idem)

lemma current_thread_eq [simp]:
  "scheduler_current_thread s cpu = Some t \<Longrightarrow> thread_get_current_thread cpu s = Inr (t, s)"
  by (simp add: thread_get_current_thread_def interrupt_disable_def)

lemma get_thread_Some [simp]: "thread_table s t = Some e \<Longrightarrow> get_thread t s = Inr e"
  by (simp add: get_thread_def)

lemma upd_thread_Some [simp]:
  "thread_table s t = Some e \<Longrightarrow>
   upd_thread t f s = Inr (s\<lparr>thread_table := (thread_table s)(t \<mapsto> f e)\<rparr>)"
  by (simp add: upd_thread_def)

section \<open>Linked lists in the thread table\<close>

type_synonym ttable = "int \<rightharpoonup> thread_entry"

text \<open>
  \<open>chain tt x ts\<close>: following \<open>nxt\<close> from \<open>x\<close> visits exactly \<open>ts\<close> and ends at \<open>-1\<close>.
  \<open>seg tt x ts y\<close>: the same up to \<open>y\<close>, which is not visited.
\<close>

fun chain :: "ttable \<Rightarrow> tid \<Rightarrow> tid list \<Rightarrow> bool" where
  "chain tt x [] \<longleftrightarrow> x = - 1"
| "chain tt x (t # ts) \<longleftrightarrow> x = t \<and> 0 < t \<and> (\<exists>e. tt t = Some e \<and> chain tt (nxt e) ts)"

fun seg :: "ttable \<Rightarrow> tid \<Rightarrow> tid list \<Rightarrow> tid \<Rightarrow> bool" where
  "seg tt x [] y \<longleftrightarrow> x = y"
| "seg tt x (t # ts) y \<longleftrightarrow> x = t \<and> 0 < t \<and> (\<exists>e. tt t = Some e \<and> seg tt (nxt e) ts y)"

lemma chain_append: "chain tt x (xs @ ys) \<longleftrightarrow> (\<exists>y. seg tt x xs y \<and> chain tt y ys)"
  by (induction xs arbitrary: x) auto

lemma seg_append: "seg tt x (xs @ ys) z \<longleftrightarrow> (\<exists>y. seg tt x xs y \<and> seg tt y ys z)"
  by (induction xs arbitrary: x) auto

lemma chain_cong:
  "\<forall>t \<in> set ts. map_option nxt (tt t) = map_option nxt (tt' t) \<Longrightarrow> chain tt x ts = chain tt' x ts"
proof (induction ts arbitrary: x)
  case (Cons t ts)
  then have "map_option nxt (tt t) = map_option nxt (tt' t)" by simp
  then show ?case
    using Cons by (cases "tt t"; cases "tt' t") auto
qed simp

lemma seg_cong:
  "\<forall>t \<in> set ts. map_option nxt (tt t) = map_option nxt (tt' t) \<Longrightarrow> seg tt x ts y = seg tt' x ts y"
proof (induction ts arbitrary: x)
  case (Cons t ts)
  then have "map_option nxt (tt t) = map_option nxt (tt' t)" by simp
  then show ?case
    using Cons by (cases "tt t"; cases "tt' t") auto
qed simp

lemma chain_upd_notin [simp]: "t \<notin> set ts \<Longrightarrow> chain (tt(t \<mapsto> e)) x ts = chain tt x ts"
  by (rule chain_cong) auto

lemma chain_upd_same:
  "tt t = Some e \<Longrightarrow> nxt e' = nxt e \<Longrightarrow> chain (tt(t \<mapsto> e')) x ts = chain tt x ts"
  by (rule chain_cong) auto

lemma seg_upd_notin [simp]: "t \<notin> set ts \<Longrightarrow> seg (tt(t \<mapsto> e)) x ts y = seg tt x ts y"
  by (rule seg_cong) auto

lemma chain_unique: "chain tt x ts \<Longrightarrow> chain tt x ts' \<Longrightarrow> ts = ts'"
proof (induction ts arbitrary: x ts')
  case Nil
  then show ?case by (cases ts') auto
next
  case (Cons t ts)
  then show ?case by (cases ts') auto
qed

lemma chain_distinct: "chain tt x ts \<Longrightarrow> distinct ts"
proof (induction ts arbitrary: x)
  case (Cons t ts)
  have "t \<notin> set ts"
  proof
    assume "t \<in> set ts"
    then obtain as bs where ts: "ts = as @ t # bs" by (meson split_list)
    obtain e where e: "tt t = Some e" "chain tt (nxt e) ts" using Cons.prems by auto
    then have "chain tt (nxt e) bs" using ts by (auto simp: chain_append)
    then have "ts = bs" using e(2) chain_unique by blast
    then show False using ts by (metis append_eq_Cons_conv length_Cons length_append
          not_add_less2 plus_1_eq_Suc lessI)
  qed
  then show ?case using Cons by auto
qed simp

lemma chain_pos: "chain tt x ts \<Longrightarrow> t \<in> set ts \<Longrightarrow> 0 < t"
  by (induction ts arbitrary: x) auto

lemma chain_dom: "chain tt x ts \<Longrightarrow> set ts \<subseteq> dom tt"
  by (induction ts arbitrary: x) auto

lemma chain_head: "chain tt x ts \<Longrightarrow> x = (case ts of [] \<Rightarrow> - 1 | t # _ \<Rightarrow> t)"
  by (cases ts) auto

lemma chain_empty_iff: "chain tt x ts \<Longrightarrow> x \<le> 0 \<longleftrightarrow> ts = []"
  by (cases ts) auto

lemma chain_neg_iff: "chain tt x ts \<Longrightarrow> x < 0 \<longleftrightarrow> ts = []"
  by (cases ts) auto

lemma chain_singleton: "0 < t \<Longrightarrow> chain (tt(t \<mapsto> e\<lparr>nxt := - 1\<rparr>)) t [t]"
  by simp

text \<open>Appending: the old last entry points to the new one, which ends the list.\<close>

lemma chain_snoc:
  assumes "chain tt x (ts @ [l])" and "tt l = Some e" and "0 < t" and "t \<notin> set ts" and "t \<noteq> l"
  shows "chain (tt(l \<mapsto> e\<lparr>nxt := t\<rparr>, t \<mapsto> e'\<lparr>nxt := - 1\<rparr>)) x (ts @ [l, t])"
proof -
  have d: "l \<notin> set ts" "0 < l" "seg tt x ts l"
    using assms(1) chain_distinct [OF assms(1)] by (auto simp: chain_append)
  then show ?thesis using assms by (auto simp: chain_append)
qed

text \<open>Removing an inner entry: its predecessor takes over its link.\<close>

lemma chain_remove:
  assumes "chain tt x (ts @ p # t # us)" and "tt p = Some ep" and "tt t = Some et"
  shows "chain (tt(p \<mapsto> ep\<lparr>nxt := nxt et\<rparr>)) x (ts @ p # us)"
proof -
  have "distinct (ts @ p # t # us)" using chain_distinct [OF assms(1)] .
  moreover obtain y where "seg tt x ts y" "chain tt y (p # t # us)"
    using assms(1) by (auto simp: chain_append)
  ultimately show ?thesis using assms by (auto simp: chain_append)
qed

lemma chain_remove_head:
  "chain tt x (t # us) \<Longrightarrow> tt t = Some et \<Longrightarrow> chain tt (nxt et) us"
  by auto

end
