(* ===== verification/Scheduler.thy ===== *)
theory Scheduler
  imports Kernel_State
begin

text \<open>
  The scheduler (\<^verbatim>\<open>src/kudos/kernel/scheduler.c\<close>): the ready list as a linked queue and the
  round-robin \<open>scheduler_schedule\<close>. \<open>cpu\<close> is the executing CPU (\<open>_interrupt_getcpu\<close>), \<open>rnd\<close>
  the number \<open>_get_rand\<close> returns. The well-formedness invariant \<open>kinv s rq sq\<close> of the whole
  thread subsystem is here too: it relates a state to the threads of the ready list (\<open>rq\<close>) and
  of every sleep queue (\<open>sq\<close>), and the later theories show that each operation acts on \<open>rq\<close>
  and \<open>sq\<close> as on plain queues.
\<close>

section \<open>Operations\<close>

definition scheduler_init :: "kstate \<Rightarrow> kstate" where
  "scheduler_init s =
     s\<lparr>scheduler_current_thread := afill (scheduler_current_thread s) 0 CONFIG_MAX_CPUS 0\<rparr>"

definition scheduler_add_to_ready_list :: "tid \<Rightarrow> kstate \<Rightarrow> kstate res" where
  "scheduler_add_to_ready_list t s =
     rbind (kassert (t \<noteq> IDLE_THREAD_TID)) (\<lambda>_.
     rbind (kassert (t \<ge> 0 \<and> t < CONFIG_MAX_THREADS)) (\<lambda>_.
     if ready_tail s < 0 then
       upd_thread t (\<lambda>e. e\<lparr>nxt := - 1\<rparr>) (s\<lparr>ready_head := t, ready_tail := t\<rparr>)
     else
       rbind (upd_thread (ready_tail s) (\<lambda>e. e\<lparr>nxt := t\<rparr>) s) (\<lambda>s.
       rbind (upd_thread t (\<lambda>e. e\<lparr>nxt := - 1\<rparr>) s) (\<lambda>s.
       Inr (s\<lparr>ready_tail := t\<rparr>)))))"

definition scheduler_remove_first_ready :: "kstate \<Rightarrow> (tid \<times> kstate) res" where
  "scheduler_remove_first_ready s =
     (let t = ready_head s in
      rbind (kassert (t \<noteq> IDLE_THREAD_TID)) (\<lambda>_.
      if t \<ge> 0 then
        rbind (get_thread t s) (\<lambda>e.
        rbind (kassert (state e = THREAD_READY)) (\<lambda>_.
        let s = (if ready_tail s = t then s\<lparr>ready_tail := - 1\<rparr> else s) in
        rbind (get_thread (ready_head s) s) (\<lambda>e.
        Inr (t, s\<lparr>ready_head := nxt e\<rparr>))))
      else Inr (IDLE_THREAD_TID, s)))"

definition scheduler_add_ready :: "int \<Rightarrow> tid \<Rightarrow> kstate \<Rightarrow> kstate res" where
  "scheduler_add_ready cpu t s =
     (let (intr_status, s) = interrupt_disable cpu s in
      rbind (spinlock_acquire Thread_table_slock s) (\<lambda>s.
      rbind (scheduler_add_to_ready_list t s) (\<lambda>s.
      rbind (upd_thread t (\<lambda>e. e\<lparr>state := THREAD_READY\<rparr>) s) (\<lambda>s.
      Inr (interrupt_set_state cpu intr_status (spinlock_release Thread_table_slock s))))))"

text \<open>\<open>timer_set_ticks\<close> (\<^verbatim>\<open>src/kudos/drivers/timer.c\<close>).\<close>

definition timer_set_ticks :: "int \<Rightarrow> u32 \<Rightarrow> kstate \<Rightarrow> kstate" where
  "timer_set_ticks cpu ticks s =
     (let (intr_status, s) = interrupt_disable cpu s
      in interrupt_set_state cpu intr_status (s\<lparr>timer := ticks\<rparr>))"

text \<open>The first half of \<open>scheduler_schedule\<close>: the running thread leaves the CPU.\<close>

definition schedule_retire :: "tid \<Rightarrow> kstate \<Rightarrow> kstate res" where
  "schedule_retire cur s =
     rbind (get_thread cur s) (\<lambda>e.
     if state e = THREAD_DYING then upd_thread cur (\<lambda>e. e\<lparr>state := THREAD_FREE\<rparr>) s
     else if sleeps_on e \<noteq> 0 then upd_thread cur (\<lambda>e. e\<lparr>state := THREAD_SLEEPING\<rparr>) s
     else rbind (if cur \<noteq> IDLE_THREAD_TID then scheduler_add_to_ready_list cur s else Inr s)
            (\<lambda>s. upd_thread cur (\<lambda>e. e\<lparr>state := THREAD_READY\<rparr>) s))"

definition scheduler_schedule :: "int \<Rightarrow> u32 \<Rightarrow> kstate \<Rightarrow> kstate res" where
  "scheduler_schedule cpu rnd s =
     rbind (spinlock_acquire Thread_table_slock s) (\<lambda>s.
     rbind (aget (scheduler_current_thread s) cpu) (\<lambda>cur.
     rbind (schedule_retire cur s) (\<lambda>s.
     rbind (scheduler_remove_first_ready s) (\<lambda>(t, s).
     rbind (upd_thread t (\<lambda>e. e\<lparr>state := THREAD_RUNNING\<rparr>) s) (\<lambda>s.
     let s = spinlock_release Thread_table_slock s in
     rbind (aset (scheduler_current_thread s) cpu t) (\<lambda>cs.
     Inr (timer_set_ticks cpu (rnd + CONFIG_SCHEDULER_TIMESLICE div 2)
            (s\<lparr>scheduler_current_thread := cs\<rparr>))))))))"

section \<open>The invariant of the thread subsystem\<close>

definition tables_ok :: "kstate \<Rightarrow> bool" where
  "tables_ok s \<longleftrightarrow>
     dom (thread_table s) = {0..<CONFIG_MAX_THREADS} \<and>
     dom (scheduler_current_thread s) = {0..<CONFIG_MAX_CPUS} \<and>
     dom (sleepq_hashtable s) = {0..<SLEEPQ_HASHTABLE_SIZE}"

text \<open>Where a thread is, and what its entry says.\<close>

definition thread_ok :: "bool \<Rightarrow> bool \<Rightarrow> (int \<Rightarrow> bool) \<Rightarrow> thread_entry \<Rightarrow> bool" where
  "thread_ok runs ready sleeps e \<longleftrightarrow>
     (state e = THREAD_READY \<longleftrightarrow> ready) \<and>
     (\<forall>h. sleeps h \<longleftrightarrow> sleeps_on e \<noteq> 0 \<and> h = uint (sleeps_on e) mod SLEEPQ_HASHTABLE_SIZE) \<and>
     (state e \<in> {THREAD_RUNNING, THREAD_DYING} \<longleftrightarrow> runs) \<and>
     (state e = THREAD_SLEEPING \<longrightarrow> sleeps_on e \<noteq> 0) \<and>
     (sleeps_on e \<noteq> 0 \<longrightarrow> state e \<in> {THREAD_RUNNING, THREAD_SLEEPING})"

definition runs_on :: "(int \<rightharpoonup> tid) \<Rightarrow> tid \<Rightarrow> bool" where
  "runs_on C t \<longleftrightarrow> (\<exists>c. C c = Some t)"

definition idle_ok :: "thread_entry \<Rightarrow> bool" where
  "idle_ok e \<longleftrightarrow> sleeps_on e = 0 \<and> state e \<in> {THREAD_READY, THREAD_RUNNING}"

definition ready_ok :: "kstate \<Rightarrow> tid list \<Rightarrow> bool" where
  "ready_ok s rq \<longleftrightarrow>
     chain (thread_table s) (ready_head s) rq \<and>
     ready_tail s = (if rq = [] then - 1 else last rq)"

definition queues_ok :: "kstate \<Rightarrow> (int \<Rightarrow> tid list) \<Rightarrow> bool" where
  "queues_ok s sq \<longleftrightarrow>
     (\<forall>h x. sleepq_hashtable s h = Some x \<longrightarrow> chain (thread_table s) x (sq h)) \<and>
     (\<forall>h. sleepq_hashtable s h = None \<longrightarrow> sq h = [])"

definition current_ok :: "kstate \<Rightarrow> bool" where
  "current_ok s \<longleftrightarrow>
     (\<forall>c t. scheduler_current_thread s c = Some t \<longrightarrow> t \<in> dom (thread_table s)) \<and>
     (\<forall>c c' t. scheduler_current_thread s c = Some t \<and> scheduler_current_thread s c' = Some t \<and>
        t \<noteq> IDLE_THREAD_TID \<longrightarrow> c = c')"

definition threads_ok :: "kstate \<Rightarrow> tid list \<Rightarrow> (int \<Rightarrow> tid list) \<Rightarrow> bool" where
  "threads_ok s rq sq \<longleftrightarrow>
     (\<forall>t e. thread_table s t = Some e \<longrightarrow>
        (if t = IDLE_THREAD_TID then idle_ok e
         else thread_ok (runs_on (scheduler_current_thread s) t) (t \<in> set rq) (\<lambda>h. t \<in> set (sq h)) e))"

definition kinv :: "kstate \<Rightarrow> tid list \<Rightarrow> (int \<Rightarrow> tid list) \<Rightarrow> bool" where
  "kinv s rq sq \<longleftrightarrow>
     tables_ok s \<and> ready_ok s rq \<and> queues_ok s sq \<and> current_ok s \<and> threads_ok s rq sq"

section \<open>The ready list as a queue\<close>

text \<open>Two tables that differ in \<open>nxt\<close> fields only, and only inside \<open>U\<close>.\<close>

definition relinked :: "tid set \<Rightarrow> ttable \<Rightarrow> ttable \<Rightarrow> bool" where
  "relinked U tt tt' \<longleftrightarrow>
     (\<forall>u. rel_option (\<lambda>e e'. \<exists>n. e' = e\<lparr>nxt := n\<rparr>) (tt u) (tt' u)) \<and>
     (\<forall>u. u \<notin> U \<longrightarrow> tt' u = tt u)"

lemma relinked_refl [simp]: "rel_option (\<lambda>e e'. \<exists>n. e' = e\<lparr>nxt := n\<rparr>) (x :: thread_entry option) x"
  by (rule option.rel_refl) (metis thread_entry.surjective thread_entry.update_convs(7))

lemma relinked_Some:
  "relinked U tt tt' \<Longrightarrow> tt u = Some e \<Longrightarrow> \<exists>n. tt' u = Some (e\<lparr>nxt := n\<rparr>)"
  unfolding relinked_def by (drule conjunct1, drule spec [of _ u]) (auto simp: option_rel_Some1)

lemma relinked_Some_rev:
  "relinked U tt tt' \<Longrightarrow> tt' u = Some e' \<Longrightarrow> \<exists>e n. tt u = Some e \<and> e' = e\<lparr>nxt := n\<rparr>"
  unfolding relinked_def by (drule conjunct1, drule spec [of _ u]) (auto simp: option_rel_Some2)

lemma relinked_upd:
  "tt t = Some e \<Longrightarrow> t \<in> U \<Longrightarrow> relinked U tt (tt(t \<mapsto> e\<lparr>nxt := n\<rparr>))"
  by (auto simp: relinked_def)

lemma relinked_dom:
  assumes "relinked U tt tt'"
  shows "dom tt' = dom tt"
proof (rule set_eqI)
  fix u
  show "u \<in> dom tt' \<longleftrightarrow> u \<in> dom tt"
    using relinked_Some [OF assms, of u] relinked_Some_rev [OF assms, of u] by blast
qed

lemma relinked_trans:
  assumes "relinked U tt tt'" and "relinked U tt' tt''"
  shows "relinked U tt tt''"
  unfolding relinked_def
proof (intro conjI allI impI)
  fix u
  show "rel_option (\<lambda>e e'. \<exists>n. e' = e\<lparr>nxt := n\<rparr>) (tt u) (tt'' u)"
  proof (cases "tt u")
    case None
    then have "tt'' u = None" using assms [THEN relinked_dom] by (metis domIff)
    then show ?thesis using None by simp
  next
    case (Some e)
    then obtain n where "tt' u = Some (e\<lparr>nxt := n\<rparr>)" using relinked_Some [OF assms(1)] by blast
    then obtain m where "tt'' u = Some (e\<lparr>nxt := m\<rparr>)" using relinked_Some [OF assms(2)] by fastforce
    then show ?thesis using Some by auto
  qed
qed (use assms in \<open>simp add: relinked_def\<close>)

lemma relinked_chain: "relinked U tt tt' \<Longrightarrow> U \<inter> set ts = {} \<Longrightarrow> chain tt' x ts = chain tt x ts"
  by (rule chain_cong) (auto simp: relinked_def)

lemma add_to_ready_list_spec:
  assumes rq: "ready_ok s rq" and t: "0 < t" "t < CONFIG_MAX_THREADS" "t \<notin> set rq"
    and e: "thread_table s t = Some e"
  shows "\<exists>tt hd. scheduler_add_to_ready_list t s =
      Inr (s\<lparr>thread_table := tt, ready_head := hd, ready_tail := t\<rparr>) \<and>
    chain tt hd (rq @ [t]) \<and> relinked (insert t (set rq)) (thread_table s) tt"
proof (cases rq rule: rev_cases)
  case Nil
  then have "scheduler_add_to_ready_list t s =
      Inr (s\<lparr>thread_table := (thread_table s)(t \<mapsto> e\<lparr>nxt := - 1\<rparr>), ready_head := t, ready_tail := t\<rparr>)"
    using rq t e by (simp add: ready_ok_def scheduler_add_to_ready_list_def)
  moreover have "chain ((thread_table s)(t \<mapsto> e\<lparr>nxt := - 1\<rparr>)) t (rq @ [t])"
    using Nil t by simp
  moreover have "relinked (insert t (set rq)) (thread_table s) ((thread_table s)(t \<mapsto> e\<lparr>nxt := - 1\<rparr>))"
    using e by (auto simp: relinked_def relinked_refl intro: exI [of _ "- 1"])
  ultimately show ?thesis by blast
next
  case (snoc ts l)
  have ch: "chain (thread_table s) (ready_head s) (ts @ [l])"
    using rq snoc by (simp add: ready_ok_def)
  then obtain el where el: "thread_table s l = Some el" "0 < l"
    by (auto simp: chain_append)
  let ?tt = "(thread_table s)(l \<mapsto> el\<lparr>nxt := t\<rparr>, t \<mapsto> e\<lparr>nxt := - 1\<rparr>)"
  have "scheduler_add_to_ready_list t s =
      Inr (s\<lparr>thread_table := ?tt, ready_head := ready_head s, ready_tail := t\<rparr>)"
    using rq t e el snoc by (auto simp: ready_ok_def scheduler_add_to_ready_list_def)
  moreover have "chain ?tt (ready_head s) (rq @ [t])"
    using chain_snoc [OF ch el(1) t(1), of e] t snoc by simp
  moreover have "relinked (insert t (set rq)) (thread_table s) ?tt"
    using e el t snoc by (auto simp: relinked_def relinked_refl)
  ultimately show ?thesis by blast
qed

lemma remove_first_ready_Nil:
  "ready_ok s [] \<Longrightarrow> scheduler_remove_first_ready s = Inr (IDLE_THREAD_TID, s)"
  by (simp add: ready_ok_def scheduler_remove_first_ready_def)

lemma remove_first_ready_Cons:
  assumes "ready_ok s (t # rq)" and "thread_table s t = Some e" and "state e = THREAD_READY"
  shows "scheduler_remove_first_ready s =
      Inr (t, s\<lparr>ready_head := nxt e, ready_tail := (if rq = [] then - 1 else last rq)\<rparr>)"
    and "chain (thread_table s) (nxt e) rq"
proof -
  have "distinct (t # rq)" using chain_distinct assms(1) unfolding ready_ok_def by blast
  then have "t \<notin> set rq" by simp
  then have "rq = [] \<or> last rq \<noteq> t" by auto
  then show "scheduler_remove_first_ready s =
      Inr (t, s\<lparr>ready_head := nxt e, ready_tail := (if rq = [] then - 1 else last rq)\<rparr>)"
    using assms by (auto simp: ready_ok_def scheduler_remove_first_ready_def Let_def)
  show "chain (thread_table s) (nxt e) rq" using assms by (auto simp: ready_ok_def)
qed

section \<open>What \<open>scheduler_schedule\<close> does to the queues\<close>

text \<open>A thread entry with another \<open>nxt\<close> is as well placed as before.\<close>

lemma thread_ok_nxt [simp]: "thread_ok r q sl (e\<lparr>nxt := n\<rparr>) = thread_ok r q sl e"
  by (simp add: thread_ok_def)

lemma idle_ok_nxt [simp]: "idle_ok (e\<lparr>nxt := n\<rparr>) = idle_ok e"
  by (simp add: idle_ok_def)

lemma kinv_thread_ok:
  "kinv s rq sq \<Longrightarrow> thread_table s t = Some e \<Longrightarrow> t \<noteq> 0 \<Longrightarrow>
   thread_ok (runs_on (scheduler_current_thread s) t) (t \<in> set rq) (\<lambda>h. t \<in> set (sq h)) e"
  by (auto simp: kinv_def threads_ok_def)

lemma kinv_idle_ok: "kinv s rq sq \<Longrightarrow> thread_table s 0 = Some e \<Longrightarrow> idle_ok e"
  by (auto simp: kinv_def threads_ok_def)

lemma kinv_thread_ex:
  "kinv s rq sq \<Longrightarrow> 0 \<le> t \<Longrightarrow> t < CONFIG_MAX_THREADS \<Longrightarrow> \<exists>e. thread_table s t = Some e"
  by (auto simp: kinv_def tables_ok_def dom_def set_eq_iff)

lemma kinv_thread_range:
  "kinv s rq sq \<Longrightarrow> thread_table s t = Some e \<Longrightarrow> 0 \<le> t \<and> t < CONFIG_MAX_THREADS"
  by (auto simp: kinv_def tables_ok_def dom_def set_eq_iff)

lemma kinv_current_ex:
  assumes "kinv s rq sq" and "0 \<le> c" and "c < CONFIG_MAX_CPUS"
  shows "\<exists>t e. scheduler_current_thread s c = Some t \<and> thread_table s t = Some e"
proof -
  have "c \<in> dom (scheduler_current_thread s)" using assms by (simp add: kinv_def tables_ok_def)
  then obtain t where t: "scheduler_current_thread s c = Some t" by blast
  then have "t \<in> dom (thread_table s)" using assms(1) by (auto simp: kinv_def current_ok_def)
  with t show ?thesis by blast
qed

lemma kinv_ready_member:
  "kinv s rq sq \<Longrightarrow> t \<in> set rq \<Longrightarrow>
   0 < t \<and> (\<exists>e. thread_table s t = Some e \<and> state e = THREAD_READY \<and> sleeps_on e = 0)"
proof -
  assume k: "kinv s rq sq" and t: "t \<in> set rq"
  have ch: "chain (thread_table s) (ready_head s) rq" using k by (simp add: kinv_def ready_ok_def)
  have pos: "0 < t" using chain_pos [OF ch t] .
  obtain e where e: "thread_table s t = Some e" using chain_dom [OF ch] t by blast
  have "thread_ok (runs_on (scheduler_current_thread s) t) (t \<in> set rq) (\<lambda>h. t \<in> set (sq h)) e"
    using kinv_thread_ok [OF k e] pos by simp
  then show ?thesis using pos e t by (auto simp: thread_ok_def)
qed

lemma kinv_sleep_member:
  "kinv s rq sq \<Longrightarrow> t \<in> set (sq h) \<Longrightarrow>
   0 < t \<and> (\<exists>e. thread_table s t = Some e \<and> sleeps_on e \<noteq> 0 \<and>
      h = uint (sleeps_on e) mod SLEEPQ_HASHTABLE_SIZE \<and> state e \<in> {THREAD_RUNNING, THREAD_SLEEPING})"
proof -
  assume k: "kinv s rq sq" and t: "t \<in> set (sq h)"
  have q: "queues_ok s sq" using k by (simp add: kinv_def)
  have "sleepq_hashtable s h \<noteq> None"
  proof
    assume "sleepq_hashtable s h = None"
    then have "sq h = []" using q by (simp add: queues_ok_def)
    then show False using t by simp
  qed
  then obtain x where ch: "chain (thread_table s) x (sq h)"
    using q by (auto simp: queues_ok_def)
  have pos: "0 < t" using chain_pos [OF ch t] .
  obtain e where e: "thread_table s t = Some e" using chain_dom [OF ch] t by blast
  have "thread_ok (runs_on (scheduler_current_thread s) t) (t \<in> set rq) (\<lambda>h. t \<in> set (sq h)) e"
    using kinv_thread_ok [OF k e] pos by simp
  then show ?thesis using pos e t by (auto simp: thread_ok_def)
qed

lemma queues_ok_cong:
  assumes "queues_ok s sq" and "sleepq_hashtable s' = sleepq_hashtable s"
    and "\<And>h x. chain (thread_table s') x (sq h) = chain (thread_table s) x (sq h)"
  shows "queues_ok s' sq"
  using assms by (auto simp: queues_ok_def)

text \<open>Who runs after CPU \<open>cpu\<close> gives up its thread, and after it takes another.\<close>

lemma running_retired:
  assumes "current_ok s" and "scheduler_current_thread s cpu = Some cur" and "u \<noteq> 0"
  shows "runs_on ((scheduler_current_thread s)(cpu \<mapsto> 0)) u \<longleftrightarrow>
    u \<noteq> cur \<and> runs_on (scheduler_current_thread s) u"
proof -
  have "c = cpu" if "scheduler_current_thread s c = Some u" and "u = cur" for c
    using assms that unfolding current_ok_def by blast
  then have "((scheduler_current_thread s)(cpu \<mapsto> 0)) c = Some u \<longleftrightarrow>
      u \<noteq> cur \<and> scheduler_current_thread s c = Some u" for c
    using assms(2,3) by auto
  then show ?thesis by (auto simp: runs_on_def)
qed

lemma running_dispatched:
  assumes "C cpu = Some 0" and "u \<noteq> 0"
  shows "runs_on (C(cpu \<mapsto> t)) u \<longleftrightarrow> u = t \<or> runs_on C u"
proof -
  have "(C(cpu \<mapsto> t)) c = Some u \<longleftrightarrow> (if c = cpu then u = t else C c = Some u)" for c
    by auto
  moreover have "c \<noteq> cpu" if "C c = Some u" for c using assms that by auto
  ultimately show ?thesis unfolding runs_on_def by metis
qed

lemma current_ok_retired:
  assumes "current_ok s" and "0 \<in> dom (thread_table s)" and "dom (thread_table s') = dom (thread_table s)"
    and "scheduler_current_thread s' = (scheduler_current_thread s)(cpu \<mapsto> 0)"
  shows "current_ok s'"
  using assms unfolding current_ok_def by (auto split: if_splits)

text \<open>
  After the first half the state is as if CPU \<open>cpu\<close> ran the idle thread. The ready list has
  the old thread at its end if that thread can go on.
\<close>

definition retired_queue :: "tid \<Rightarrow> thread_entry \<Rightarrow> tid list \<Rightarrow> tid list" where
  "retired_queue cur e rq =
     (if state e = THREAD_DYING \<or> sleeps_on e \<noteq> 0 \<or> cur = IDLE_THREAD_TID then rq else rq @ [cur])"

lemma schedule_retire_stop:
  assumes k: "kinv s rq sq" and cur: "scheduler_current_thread s cpu = Some cur"
    and e: "thread_table s cur = Some e"
    and st: "st \<noteq> THREAD_RUNNING" "st \<noteq> THREAD_DYING"
    and idle: "cur = 0 \<Longrightarrow> st = THREAD_READY"
    and other: "cur \<noteq> 0 \<Longrightarrow> st = (if sleeps_on e \<noteq> 0 then THREAD_SLEEPING else THREAD_FREE)"
  shows "kinv (s\<lparr>thread_table := (thread_table s)(cur \<mapsto> e\<lparr>state := st\<rparr>),
      scheduler_current_thread := (scheduler_current_thread s)(cpu \<mapsto> 0)\<rparr>) rq sq"
proof -
  let ?tt = "(thread_table s)(cur \<mapsto> e\<lparr>state := st\<rparr>)"
  let ?s = "s\<lparr>thread_table := ?tt, scheduler_current_thread := (scheduler_current_thread s)(cpu \<mapsto> 0)\<rparr>"
  have parts: "tables_ok s" "ready_ok s rq" "queues_ok s sq" "current_ok s" "threads_ok s rq sq"
    using k by (auto simp: kinv_def)
  have ch: "chain ?tt x ts = chain (thread_table s) x ts" for x ts
    using e by (rule chain_upd_same [where e' = "e\<lparr>state := st\<rparr>"]) simp
  have dom: "dom ?tt = dom (thread_table s)" using e by auto
  have cpu: "cpu \<in> dom (scheduler_current_thread s)" using cur by blast
  have "tables_ok ?s" using parts(1) dom cpu by (auto simp: tables_ok_def)
  moreover have "ready_ok ?s rq" using parts(2) ch by (simp add: ready_ok_def)
  moreover have "queues_ok ?s sq" using parts(3) by (rule queues_ok_cong) (simp_all add: ch)
  moreover have "current_ok ?s"
    using parts(1) dom by (intro current_ok_retired [OF parts(4)]) (auto simp: tables_ok_def)
  moreover have "threads_ok ?s rq sq"
    unfolding threads_ok_def
  proof (intro allI impI)
    fix t f
    assume f: "thread_table ?s t = Some f"
    show "if t = 0 then idle_ok f else
        thread_ok (runs_on (scheduler_current_thread ?s) t) (t \<in> set rq) (\<lambda>h. t \<in> set (sq h)) f"
    proof (cases "t = cur")
      case False
      then show ?thesis
        using f parts(5) running_retired [OF parts(4) cur, of t]
        by (simp add: threads_ok_def del: fun_upd_apply) (simp add: fun_upd_def)
    next
      case True
      then have f': "f = e\<lparr>state := st\<rparr>" using f by simp
      show ?thesis
      proof (cases "cur = 0")
        case True
        then show ?thesis
          using \<open>t = cur\<close> f' idle kinv_idle_ok [OF k] e by (simp add: idle_ok_def)
      next
        case False
        have "runs_on (scheduler_current_thread s) cur" using cur by (auto simp: runs_on_def)
        then show ?thesis
          using kinv_thread_ok [OF k e False] False \<open>t = cur\<close> f' other [OF False]
            running_retired [OF parts(4) cur, of t] st
          by (auto simp: thread_ok_def simp del: fun_upd_apply)
      qed
    qed
  qed
  ultimately show ?thesis by (simp add: kinv_def)
qed

text \<open>The invariant does not look at locks, interrupt flags, the timer, semaphores or the heap.\<close>

lemmas kinv_parts_def = tables_ok_def ready_ok_def queues_ok_def current_ok_def threads_ok_def

lemma kinv_frame [simp]:
  "kinv (s\<lparr>slocks := l\<rparr>) rq sq = kinv s rq sq"
  "kinv (s\<lparr>intr_enabled := i\<rparr>) rq sq = kinv s rq sq"
  "kinv (s\<lparr>timer := ti\<rparr>) rq sq = kinv s rq sq"
  "kinv (s\<lparr>kmem := m\<rparr>) rq sq = kinv s rq sq"
  "kinv (s\<lparr>tss_rsp0 := ts\<rparr>) rq sq = kinv s rq sq"
  "kinv (s\<lparr>next_tid := n\<rparr>) rq sq = kinv s rq sq"
  "kinv (s\<lparr>sem_next := n\<rparr>) rq sq = kinv s rq sq"
  "kinv (s\<lparr>semaphore_table := st\<rparr>) rq sq = kinv s rq sq"
  by (simp_all add: kinv_def kinv_parts_def)

lemma kinv_frameI:
  assumes "kinv s rq sq" and "thread_table s' = thread_table s"
    and "scheduler_current_thread s' = scheduler_current_thread s"
    and "ready_head s' = ready_head s" and "ready_tail s' = ready_tail s"
    and "sleepq_hashtable s' = sleepq_hashtable s"
  shows "kinv s' rq sq"
  using assms(1) unfolding kinv_def kinv_parts_def assms(2-) .

text \<open>
  A state in which thread \<open>t\<close> is in no queue and the other threads are in order; \<open>kinv_off\<close>:
  \<open>t\<close> is on no CPU either.
\<close>

definition kinv_but :: "tid \<Rightarrow> kstate \<Rightarrow> tid list \<Rightarrow> (int \<Rightarrow> tid list) \<Rightarrow> bool" where
  "kinv_but t s rq sq \<longleftrightarrow>
     tables_ok s \<and> ready_ok s rq \<and> queues_ok s sq \<and> current_ok s \<and>
     0 < t \<and> t < CONFIG_MAX_THREADS \<and> t \<notin> set rq \<and> (\<forall>h. t \<notin> set (sq h)) \<and>
     (\<forall>u e. u \<noteq> t \<and> thread_table s u = Some e \<longrightarrow>
        (if u = IDLE_THREAD_TID then idle_ok e
         else thread_ok (runs_on (scheduler_current_thread s) u) (u \<in> set rq) (\<lambda>h. u \<in> set (sq h)) e))"

definition kinv_off :: "tid \<Rightarrow> kstate \<Rightarrow> tid list \<Rightarrow> (int \<Rightarrow> tid list) \<Rightarrow> bool" where
  "kinv_off t s rq sq \<longleftrightarrow> kinv_but t s rq sq \<and> \<not> runs_on (scheduler_current_thread s) t"

lemmas kinv_off_defs = kinv_off_def kinv_but_def

lemma kinv_butD:
  assumes "kinv_but t s rq sq" and "thread_table s t = Some e"
    and "thread_ok (runs_on (scheduler_current_thread s) t) False (\<lambda>h. False) e"
  shows "kinv s rq sq"
proof -
  have "threads_ok s rq sq"
    unfolding threads_ok_def
  proof (intro allI impI)
    fix u f
    assume "thread_table s u = Some f"
    then show "if u = 0 then idle_ok f
      else thread_ok (runs_on (scheduler_current_thread s) u) (u \<in> set rq) (\<lambda>h. u \<in> set (sq h)) f"
      using assms by (cases "u = t") (simp_all add: kinv_but_def)
  qed
  then show ?thesis using assms(1) by (simp add: kinv_but_def kinv_def)
qed

text \<open>Such a thread becomes ready by going to the end of the ready list.\<close>

lemma kinv_make_ready:
  assumes off: "kinv_off t s rq sq" and disj: "\<And>h. set rq \<inter> set (sq h) = {}"
    and ch: "chain tt h0 (rq @ [t])" and rel: "relinked (insert t (set rq)) (thread_table s) tt"
    and e: "tt t = Some e" "sleeps_on e = 0"
  shows "kinv (s\<lparr>thread_table := tt(t \<mapsto> e\<lparr>state := THREAD_READY\<rparr>), ready_head := h0,
      ready_tail := t\<rparr>) (rq @ [t]) sq"
proof -
  let ?tt = "tt(t \<mapsto> e\<lparr>state := THREAD_READY\<rparr>)"
  let ?s = "s\<lparr>thread_table := ?tt, ready_head := h0, ready_tail := t\<rparr>"
  have ch': "chain ?tt x ts = chain tt x ts" for x ts
    using e(1) by (rule chain_upd_same) simp
  have dom: "dom ?tt = dom (thread_table s)"
    using relinked_dom [OF rel] e(1) by auto
  have "tables_ok ?s" using off dom by (simp add: kinv_off_defs tables_ok_def)
  moreover have "ready_ok ?s (rq @ [t])" using ch ch' by (simp add: ready_ok_def)
  moreover have "queues_ok ?s sq"
  proof (rule queues_ok_cong [of s])
    show "queues_ok s sq" using off by (simp add: kinv_off_defs)
    have "insert t (set rq) \<inter> set (sq h) = {}" for h
      using disj off by (auto simp: kinv_off_defs)
    then show "chain (thread_table ?s) x (sq h) = chain (thread_table s) x (sq h)" for h x
      using relinked_chain [OF rel] ch' by simp
  qed simp
  moreover have "current_ok ?s" using off dom by (simp add: kinv_off_defs current_ok_def)
  moreover have "threads_ok ?s (rq @ [t]) sq"
    unfolding threads_ok_def
  proof (intro allI impI)
    fix u f
    assume f: "thread_table ?s u = Some f"
    show "if u = 0 then idle_ok f else thread_ok (runs_on (scheduler_current_thread ?s) u)
        (u \<in> set (rq @ [t])) (\<lambda>h. u \<in> set (sq h)) f"
    proof (cases "u = t")
      case True
      then show ?thesis using f off e by (auto simp: kinv_off_defs thread_ok_def)
    next
      case False
      then obtain g n where g: "thread_table s u = Some g" "f = g\<lparr>nxt := n\<rparr>"
        using f relinked_Some_rev [OF rel, of u f] by auto
      then show ?thesis using False off by (auto simp: kinv_off_defs)
    qed
  qed
  ultimately show ?thesis by (simp add: kinv_def)
qed

lemma kinv_disjoint: "kinv s rq sq \<Longrightarrow> set rq \<inter> set (sq h) = {}"
  using kinv_ready_member kinv_sleep_member by fastforce

text \<open>Dispatching: CPU \<open>cpu\<close>, idle so far, takes the first ready thread or stays idle.\<close>

lemma kinv_dispatch:
  assumes k: "kinv s (t # rq) sq" and c: "scheduler_current_thread s cpu = Some 0"
    and e: "thread_table s t = Some e"
  shows "kinv (s\<lparr>thread_table := (thread_table s)(t \<mapsto> e\<lparr>state := THREAD_RUNNING\<rparr>),
      scheduler_current_thread := (scheduler_current_thread s)(cpu \<mapsto> t), ready_head := nxt e,
      ready_tail := (if rq = [] then - 1 else last rq)\<rparr>) rq sq"
proof -
  let ?tt = "(thread_table s)(t \<mapsto> e\<lparr>state := THREAD_RUNNING\<rparr>)"
  let ?s = "s\<lparr>thread_table := ?tt, scheduler_current_thread := (scheduler_current_thread s)(cpu \<mapsto> t),
      ready_head := nxt e, ready_tail := (if rq = [] then - 1 else last rq)\<rparr>"
  have parts: "tables_ok s" "ready_ok s (t # rq)" "queues_ok s sq" "current_ok s"
      "threads_ok s (t # rq) sq"
    using k by (auto simp: kinv_def)
  have ch: "chain ?tt x ts = chain (thread_table s) x ts" for x ts
    using e by (rule chain_upd_same) simp
  have pos: "0 < t" and st: "state e = THREAD_READY" "sleeps_on e = 0"
    using kinv_ready_member [OF k, of t] e by auto
  have te: "thread_ok (runs_on (scheduler_current_thread s) t) True (\<lambda>h. t \<in> set (sq h)) e"
    using kinv_thread_ok [OF k e] pos by simp
  have nr: "\<not> runs_on (scheduler_current_thread s) t" using te st by (simp add: thread_ok_def)
  have dom: "dom ?tt = dom (thread_table s)" using e by auto
  have rq: "t \<notin> set rq" "chain (thread_table s) (nxt e) rq"
    using parts(2) chain_distinct e unfolding ready_ok_def by fastforce+
  have "tables_ok ?s" using parts(1) dom c by (auto simp: tables_ok_def)
  moreover have "ready_ok ?s rq" using ch rq by (simp add: ready_ok_def)
  moreover have "queues_ok ?s sq" using parts(3) by (rule queues_ok_cong) (simp_all add: ch)
  moreover have "current_ok ?s"
    using parts(4) nr e unfolding current_ok_def runs_on_def by auto
  moreover have "threads_ok ?s rq sq"
    unfolding threads_ok_def
  proof (intro allI impI)
    fix u f
    assume f: "thread_table ?s u = Some f"
    show "if u = 0 then idle_ok f else thread_ok (runs_on (scheduler_current_thread ?s) u)
        (u \<in> set rq) (\<lambda>h. u \<in> set (sq h)) f"
    proof (cases "u = t")
      case True
      then have "f = e\<lparr>state := THREAD_RUNNING\<rparr>" using f by simp
      then show ?thesis
        using True pos te st rq(1) running_dispatched [of "scheduler_current_thread s" cpu u t, OF c]
        by (simp add: thread_ok_def)
    next
      case False
      then show ?thesis
        using f running_dispatched [of "scheduler_current_thread s" cpu u t, OF c]
          kinv_thread_ok [OF k, of u f] kinv_idle_ok [OF k] by auto
    qed
  qed
  ultimately show ?thesis by (simp add: kinv_def)
qed

lemma kinv_dispatch_idle:
  assumes k: "kinv s rq sq" and c: "scheduler_current_thread s cpu = Some 0"
    and e: "thread_table s 0 = Some e"
  shows "kinv (s\<lparr>thread_table := (thread_table s)(0 \<mapsto> e\<lparr>state := THREAD_RUNNING\<rparr>)\<rparr>) rq sq"
proof -
  let ?tt = "(thread_table s)(0 \<mapsto> e\<lparr>state := THREAD_RUNNING\<rparr>)"
  have ch: "chain ?tt x ts = chain (thread_table s) x ts" for x ts
    using e by (rule chain_upd_same) simp
  have dom: "dom ?tt = dom (thread_table s)" using e by auto
  have "idle_ok e" using kinv_idle_ok [OF k e] .
  then have "threads_ok (s\<lparr>thread_table := ?tt\<rparr>) rq sq"
    using k by (simp add: kinv_def threads_ok_def idle_ok_def)
  moreover have "current_ok (s\<lparr>thread_table := ?tt\<rparr>)"
    using k unfolding kinv_def current_ok_def by (simp del: dom_fun_upd add: dom)
  ultimately show ?thesis using k ch dom by (simp add: kinv_def tables_ok_def ready_ok_def queues_ok_def)
qed

text \<open>The first half of \<open>scheduler_schedule\<close> never fails, and CPU \<open>cpu\<close> is free after it.\<close>

lemma schedule_retire_spec:
  assumes k: "kinv s rq sq" and cur: "scheduler_current_thread s cpu = Some cur"
    and e: "thread_table s cur = Some e"
  shows "\<exists>tt h0 tl. schedule_retire cur s = Inr (s\<lparr>thread_table := tt, ready_head := h0, ready_tail := tl\<rparr>) \<and>
    kinv (s\<lparr>thread_table := tt, ready_head := h0, ready_tail := tl,
        scheduler_current_thread := (scheduler_current_thread s)(cpu \<mapsto> 0)\<rparr>)
      (retired_queue cur e rq) sq"
proof (cases "state e = THREAD_DYING \<or> sleeps_on e \<noteq> 0 \<or> cur = IDLE_THREAD_TID")
  case True
  define st where "st = (if state e = THREAD_DYING then THREAD_FREE
    else if sleeps_on e \<noteq> 0 then THREAD_SLEEPING else THREAD_READY)"
  let ?tt = "(thread_table s)(cur \<mapsto> e\<lparr>state := st\<rparr>)"
  have "cur = 0 \<Longrightarrow> idle_ok e" using kinv_idle_ok [OF k] e by simp
  moreover have "cur \<noteq> 0 \<Longrightarrow> state e = THREAD_DYING \<Longrightarrow> sleeps_on e = 0"
    using kinv_thread_ok [OF k e] by (auto simp: thread_ok_def)
  ultimately have "kinv (s\<lparr>thread_table := ?tt,
      scheduler_current_thread := (scheduler_current_thread s)(cpu \<mapsto> 0)\<rparr>) rq sq"
    using True by (intro schedule_retire_stop [OF k cur e]) (auto simp: st_def idle_ok_def)
  moreover have "schedule_retire cur s = Inr (s\<lparr>thread_table := ?tt, ready_head := ready_head s,
      ready_tail := ready_tail s\<rparr>)"
    using True e by (auto simp: schedule_retire_def st_def)
  ultimately show ?thesis
    using True by (intro exI [of _ ?tt] exI [of _ "ready_head s"] exI [of _ "ready_tail s"])
      (simp add: retired_queue_def)
next
  case False
  let ?C = "(scheduler_current_thread s)(cpu \<mapsto> 0)"
  let ?s = "s\<lparr>scheduler_current_thread := ?C\<rparr>"
  have r: "0 \<le> cur" "cur < CONFIG_MAX_THREADS" using kinv_thread_range [OF k e] by auto
  have run: "runs_on (scheduler_current_thread s) cur" using cur by (auto simp: runs_on_def)
  have te: "thread_ok True (cur \<in> set rq) (\<lambda>h. cur \<in> set (sq h)) e"
    using kinv_thread_ok [OF k e] False run by simp
  have "cur \<notin> set rq" "\<forall>h. cur \<notin> set (sq h)"
    using te False by (auto simp: thread_ok_def)
  moreover have "current_ok ?s"
    by (rule current_ok_retired [of s _ cpu]) (use k in \<open>auto simp: kinv_def tables_ok_def\<close>)
  moreover have "runs_on ?C u \<longleftrightarrow> u \<noteq> cur \<and> runs_on (scheduler_current_thread s) u" if "u \<noteq> 0" for u
    using k that by (intro running_retired [OF _ cur]) (simp_all add: kinv_def)
  moreover have "tables_ok ?s" "ready_ok ?s rq" "queues_ok ?s sq"
    using k cur by (auto simp: kinv_def tables_ok_def ready_ok_def queues_ok_def)
  moreover have "idle_ok f" if "thread_table s 0 = Some f" for f using kinv_idle_ok [OF k that] .
  ultimately have off: "kinv_off cur ?s rq sq"
    using kinv_thread_ok [OF k] False r by (simp add: kinv_off_defs)
  obtain tt h0 where a: "scheduler_add_to_ready_list cur s =
        Inr (s\<lparr>thread_table := tt, ready_head := h0, ready_tail := cur\<rparr>)"
      "chain tt h0 (rq @ [cur])" "relinked (insert cur (set rq)) (thread_table s) tt"
    using add_to_ready_list_spec [of s rq cur e] off e
    by (auto simp: kinv_off_defs ready_ok_def)
  obtain n where n: "tt cur = Some (e\<lparr>nxt := n\<rparr>)" using relinked_Some [OF a(3) e] by blast
  have "kinv (?s\<lparr>thread_table := tt(cur \<mapsto> e\<lparr>nxt := n, state := THREAD_READY\<rparr>), ready_head := h0,
      ready_tail := cur\<rparr>) (rq @ [cur]) sq"
    using kinv_make_ready [OF off kinv_disjoint [OF k] a(2), of "e\<lparr>nxt := n\<rparr>"] a(3) n False by simp
  moreover have "schedule_retire cur s = Inr (s\<lparr>thread_table := tt(cur \<mapsto> e\<lparr>nxt := n, state := THREAD_READY\<rparr>),
      ready_head := h0, ready_tail := cur\<rparr>)"
    using False e a(1) n by (simp add: schedule_retire_def)
  ultimately show ?thesis
    using False
    by (intro exI [of _ "tt(cur \<mapsto> e\<lparr>nxt := n, state := THREAD_READY\<rparr>)"] exI [of _ h0]
        exI [of _ cur] conjI) (auto simp: retired_queue_def elim: kinv_frameI)
qed

text \<open>
  \<open>scheduler_schedule\<close> succeeds in every well-formed state whose thread table lock is free. It
  leaves the lock free and the interrupt flags alone, and acts on the ready queue as round
  robin: the old thread goes to the end if it can run, the first one gets the CPU.
\<close>

definition next_thread :: "tid list \<Rightarrow> tid" where
  "next_thread rq = (case rq of [] \<Rightarrow> IDLE_THREAD_TID | t # _ \<Rightarrow> t)"

lemma timer_set_ticks_eq: "timer_set_ticks cpu n s = s\<lparr>timer := n\<rparr>"
  by (simp add: timer_set_ticks_def interrupt_defs fun_upd_idem)

lemma schedule_spec:
  assumes k: "kinv s rq sq" and c: "0 \<le> cpu" "cpu < CONFIG_MAX_CPUS"
    and l: "slocks s Thread_table_slock = 0"
    and cur: "scheduler_current_thread s cpu = Some cur" and e: "thread_table s cur = Some e"
  shows "\<exists>s'. scheduler_schedule cpu rnd s = Inr s' \<and>
    kinv s' (tl (retired_queue cur e rq)) sq \<and>
    scheduler_current_thread s' =
      (scheduler_current_thread s)(cpu \<mapsto> next_thread (retired_queue cur e rq)) \<and>
    slocks s' = slocks s \<and> intr_enabled s' = intr_enabled s \<and>
    semaphore_table s' = semaphore_table s \<and> timer s' = rnd + 375"
proof -
  let ?rq = "retired_queue cur e rq"
  let ?L = "(slocks s)(Thread_table_slock := 1)"
  let ?s1 = "s\<lparr>slocks := ?L\<rparr>"
  obtain tt h0 tl0 where r: "schedule_retire cur ?s1 =
        Inr (?s1\<lparr>thread_table := tt, ready_head := h0, ready_tail := tl0\<rparr>)"
    and k2: "kinv (?s1\<lparr>thread_table := tt, ready_head := h0, ready_tail := tl0,
        scheduler_current_thread := (scheduler_current_thread s)(cpu \<mapsto> 0)\<rparr>) ?rq sq"
    using schedule_retire_spec [of ?s1 rq sq cpu cur e] k cur e by auto
  let ?s2 = "?s1\<lparr>thread_table := tt, ready_head := h0, ready_tail := tl0\<rparr>"
  let ?s2' = "?s2\<lparr>scheduler_current_thread := (scheduler_current_thread s)(cpu \<mapsto> 0)\<rparr>"
  have unl: "(slocks s)(Thread_table_slock := 0) = slocks s" using l by (simp add: fun_upd_idem)
  have rdy: "ready_ok ?s2 ?rq" using k2 by (simp add: kinv_def ready_ok_def)
  show ?thesis
  proof (cases ?rq)
    case Nil
    obtain f where f: "tt 0 = Some f" using kinv_thread_ex [OF k2, of 0] by auto
    have "scheduler_remove_first_ready ?s2 = Inr (0, ?s2)"
      using remove_first_ready_Nil rdy Nil by simp
    moreover have "kinv (?s2'\<lparr>thread_table := tt(0 \<mapsto> f\<lparr>state := THREAD_RUNNING\<rparr>)\<rparr>) [] sq"
      using kinv_dispatch_idle [of ?s2' "[]" sq cpu f] k2 f Nil by simp
    ultimately show ?thesis
      using l r f cur unl Nil
      by (auto simp: scheduler_schedule_def spinlock_defs timer_set_ticks_eq next_thread_def
          elim: kinv_frameI)
  next
    case (Cons t ts)
    obtain f where f: "tt t = Some f" "state f = THREAD_READY"
      using kinv_ready_member [OF k2, of t] Cons by auto
    have "scheduler_remove_first_ready ?s2 =
        Inr (t, ?s2\<lparr>ready_head := nxt f, ready_tail := (if ts = [] then - 1 else last ts)\<rparr>)"
      using remove_first_ready_Cons(1) [of ?s2 t ts f] rdy Cons f by simp
    moreover have "kinv (?s2'\<lparr>thread_table := tt(t \<mapsto> f\<lparr>state := THREAD_RUNNING\<rparr>),
        scheduler_current_thread := (scheduler_current_thread s)(cpu \<mapsto> t), ready_head := nxt f,
        ready_tail := (if ts = [] then - 1 else last ts)\<rparr>) ts sq"
      using kinv_dispatch [of ?s2' t ts sq cpu f] k2 f Cons by simp
    ultimately show ?thesis
      using l r f cur unl Cons
      by (auto simp: scheduler_schedule_def spinlock_defs timer_set_ticks_eq next_thread_def
          elim: kinv_frameI)
  qed
qed

end
