(* ===== verification/Sleepq.thy ===== *)
theory Sleepq
  imports Scheduler
begin

text \<open>
  The sleep queues (\<^verbatim>\<open>src/kudos/kernel/sleepq.c\<close>): a hash table of linked lists of threads that
  wait for a resource. A resource is a 64-bit address; a thread entry keeps only the low 32
  bits of it in \<open>sleeps_on\<close>. The loops that follow \<open>next\<close> links carry a step bound of 32, one
  more than the number of threads a list can hold, and return \<open>Diverges\<close> beyond it; the lemmas
  show that they end within it. \<open>sleepq_add\<close>, \<open>sleepq_wake\<close> and \<open>sleepq_wake_all\<close> are shown to
  append to, take the first waiter from, and filter the queue of the resource's hash slot.
\<close>

section \<open>Operations\<close>

definition sleepq_hash :: "u64 \<Rightarrow> int" where
  "sleepq_hash r = uint r mod SLEEPQ_HASHTABLE_SIZE"

definition sleepq_init :: "kstate \<Rightarrow> kstate" where
  "sleepq_init s =
     spinlock_reset Sleepq_slock
       (s\<lparr>sleepq_hashtable := afill (sleepq_hashtable s) 0 SLEEPQ_HASHTABLE_SIZE (- 1)\<rparr>)"

text \<open>The walk to the end of a list in \<open>sleepq_add\<close>.\<close>

fun sleepq_last :: "nat \<Rightarrow> tid \<Rightarrow> kstate \<Rightarrow> tid res" where
  "sleepq_last 0 prev s = Inl Diverges"
| "sleepq_last (Suc n) prev s =
     rbind (get_thread prev s) (\<lambda>e.
     if nxt e > 0 then sleepq_last n (nxt e) s else Inr prev)"

definition sleepq_add :: "int \<Rightarrow> u64 \<Rightarrow> kstate \<Rightarrow> kstate res" where
  "sleepq_add cpu resource s =
     (if \<not> interrupt_is_disabled cpu s then Inr s else
      let hash = sleepq_hash resource in
      rbind (thread_get_current_thread cpu s) (\<lambda>(my_tid, s).
      rbind (upd_thread my_tid (\<lambda>e. e\<lparr>nxt := - 1, sleeps_on := ucast resource\<rparr>) s) (\<lambda>s.
      rbind (kassert (my_tid \<noteq> IDLE_THREAD_TID)) (\<lambda>_.
      rbind (spinlock_acquire Sleepq_slock s) (\<lambda>s.
      rbind (aget (sleepq_hashtable s) hash) (\<lambda>first.
      rbind
        (if first \<le> 0 then
           rbind (aset (sleepq_hashtable s) hash my_tid) (\<lambda>ht. Inr (s\<lparr>sleepq_hashtable := ht\<rparr>))
         else
           rbind (sleepq_last 32 first s) (\<lambda>prev. upd_thread prev (\<lambda>e. e\<lparr>nxt := my_tid\<rparr>) s))
        (\<lambda>s. Inr (spinlock_release Sleepq_slock s))))))))"

text \<open>The search for the next waiter; the result is the pair \<open>prev\<close>, \<open>first\<close>.\<close>

fun sleepq_find :: "nat \<Rightarrow> u64 \<Rightarrow> tid \<Rightarrow> tid \<Rightarrow> kstate \<Rightarrow> (tid \<times> tid) res" where
  "sleepq_find 0 resource prev first s = Inl Diverges"
| "sleepq_find (Suc n) resource prev first s =
     (if first > 0 then
        rbind (get_thread first s) (\<lambda>e.
        if (ucast (sleeps_on e) :: u64) \<noteq> resource then sleepq_find n resource first (nxt e) s
        else Inr (prev, first))
      else Inr (prev, first))"

text \<open>Taking a found waiter out of its list; the result is the entry that followed it.\<close>

definition sleepq_unlink :: "int \<Rightarrow> tid \<Rightarrow> tid \<Rightarrow> kstate \<Rightarrow> (tid \<times> kstate) res" where
  "sleepq_unlink hash prev wake s =
     rbind (get_thread wake s) (\<lambda>e.
     if prev \<le> 0 then
       rbind (aset (sleepq_hashtable s) hash (nxt e)) (\<lambda>ht. Inr (nxt e, s\<lparr>sleepq_hashtable := ht\<rparr>))
     else
       rbind (upd_thread prev (\<lambda>p. p\<lparr>nxt := nxt e\<rparr>) s) (\<lambda>s. Inr (nxt e, s)))"

text \<open>Clearing \<open>sleeps_on\<close> and making the thread ready if it had gone to sleep.\<close>

definition sleepq_make_ready :: "tid \<Rightarrow> kstate \<Rightarrow> kstate res" where
  "sleepq_make_ready t s =
     rbind (spinlock_acquire Thread_table_slock s) (\<lambda>s.
     rbind (upd_thread t (\<lambda>e. e\<lparr>sleeps_on := 0, nxt := - 1\<rparr>) s) (\<lambda>s.
     rbind (get_thread t s) (\<lambda>e.
     rbind
       (if state e = THREAD_SLEEPING then
          rbind (upd_thread t (\<lambda>e. e\<lparr>state := THREAD_READY\<rparr>) s) (scheduler_add_to_ready_list t)
        else Inr s)
       (\<lambda>s. Inr (spinlock_release Thread_table_slock s)))))"

definition sleepq_wake :: "int \<Rightarrow> u64 \<Rightarrow> kstate \<Rightarrow> kstate res" where
  "sleepq_wake cpu resource s =
     (let hash = sleepq_hash resource;
          (intr_state, s) = interrupt_disable cpu s in
      rbind (spinlock_acquire Sleepq_slock s) (\<lambda>s.
      rbind (aget (sleepq_hashtable s) hash) (\<lambda>first.
      rbind (sleepq_find 32 resource (- 1) first s) (\<lambda>(prev, first).
      rbind
        (if first > 0 then
           rbind (sleepq_unlink hash prev first s) (\<lambda>(_, s). sleepq_make_ready first s)
         else Inr s)
        (\<lambda>s. Inr (interrupt_set_state cpu intr_state (spinlock_release Sleepq_slock s)))))))"

fun sleepq_wake_loop :: "nat \<Rightarrow> int \<Rightarrow> u64 \<Rightarrow> tid \<Rightarrow> tid \<Rightarrow> kstate \<Rightarrow> kstate res" where
  "sleepq_wake_loop 0 hash resource prev first s = Inl Diverges"
| "sleepq_wake_loop (Suc n) hash resource prev first s =
     (if first > 0 then
        rbind (sleepq_find 32 resource prev first s) (\<lambda>(prev, first).
        if first > 0 then
          rbind (sleepq_unlink hash prev first s) (\<lambda>(after, s).
          rbind (sleepq_make_ready first s) (\<lambda>s.
          sleepq_wake_loop n hash resource prev after s))
        else sleepq_wake_loop n hash resource prev first s)
      else Inr s)"

definition sleepq_wake_all :: "int \<Rightarrow> u64 \<Rightarrow> kstate \<Rightarrow> kstate res" where
  "sleepq_wake_all cpu resource s =
     (let hash = sleepq_hash resource;
          (intr_state, s) = interrupt_disable cpu s in
      rbind (spinlock_acquire Sleepq_slock s) (\<lambda>s.
      rbind (aget (sleepq_hashtable s) hash) (\<lambda>first.
      rbind (sleepq_wake_loop 34 hash resource (- 1) first s) (\<lambda>s.
      Inr (interrupt_set_state cpu intr_state (spinlock_release Sleepq_slock s))))))"

section \<open>Walking a list\<close>

lemma sleepq_last_eq:
  "chain (thread_table s) x ts \<Longrightarrow> ts \<noteq> [] \<Longrightarrow> length ts \<le> n \<Longrightarrow> sleepq_last n x s = Inr (last ts)"
proof (induction n arbitrary: x ts)
  case (Suc n)
  obtain t us e where ts: "ts = t # us" "x = t" "thread_table s t = Some e" "chain (thread_table s) (nxt e) us"
    using Suc.prems by (cases ts) auto
  then show ?case
    using Suc.IH [of "nxt e" us] Suc.prems chain_empty_iff [of "thread_table s" "nxt e" us]
    by (cases us) auto
qed simp

text \<open>The threads that wait for a resource, as the code compares.\<close>

definition waits_for :: "kstate \<Rightarrow> u64 \<Rightarrow> tid \<Rightarrow> bool" where
  "waits_for s resource t =
     (case thread_table s t of Some e \<Rightarrow> (ucast (sleeps_on e) :: u64) = resource | None \<Rightarrow> False)"

lemma sleepq_find_eq:
  "chain (thread_table s) x (pre @ post) \<Longrightarrow> length pre < n \<Longrightarrow> \<forall>t \<in> set pre. \<not> waits_for s r t \<Longrightarrow>
   post = [] \<or> waits_for s r (hd post) \<Longrightarrow>
   sleepq_find n r prev x s = Inr (last (prev # pre), (if post = [] then - 1 else hd post))"
proof (induction n arbitrary: x pre prev)
  case (Suc n)
  show ?case
  proof (cases pre)
    case Nil
    then show ?thesis using Suc.prems by (cases post) (auto simp: waits_for_def)
  next
    case (Cons t us)
    then obtain e where "x = t" "0 < t" "thread_table s t = Some e"
        "chain (thread_table s) (nxt e) (us @ post)"
      using Suc.prems by auto
    then show ?thesis
      using Suc.IH [of "nxt e" us t] Suc.prems Cons by (auto simp: waits_for_def)
  qed
qed simp

lemma chain_length:
  assumes "kinv s rq sq" and "chain (thread_table s) x ts"
  shows "length ts \<le> 31"
proof -
  have "set ts \<subseteq> {1..<32}"
  proof
    fix t
    assume t: "t \<in> set ts"
    have "t \<in> dom (thread_table s)" using chain_dom [OF assms(2)] t by blast
    then have "t < 32" using assms(1) by (simp add: kinv_def tables_ok_def)
    then show "t \<in> {1..<32}" using chain_pos [OF assms(2) t] by simp
  qed
  then have "card (set ts) \<le> card {1..<32 :: int}" by (intro card_mono) auto
  then show ?thesis using distinct_card [OF chain_distinct [OF assms(2)]] by simp
qed

section \<open>Joining a sleep queue\<close>

lemma kinv_sleep_unique: "kinv s rq sq \<Longrightarrow> t \<in> set (sq h) \<Longrightarrow> t \<in> set (sq h') \<Longrightarrow> h' = h"
  using kinv_sleep_member [of s rq sq t h] kinv_sleep_member [of s rq sq t h'] by auto

lemma kinv_to_but:
  assumes k: "kinv s rq sq" and t: "0 < t" and e: "thread_table s t = Some e"
    and off: "t \<notin> set rq" "\<And>h. t \<notin> set (sq h)"
  shows "kinv_but t (s\<lparr>thread_table := (thread_table s)(t \<mapsto> e')\<rparr>) rq sq"
proof -
  have dom: "dom ((thread_table s)(t \<mapsto> e')) = dom (thread_table s)" using e by auto
  have "current_ok (s\<lparr>thread_table := (thread_table s)(t \<mapsto> e')\<rparr>)"
    using k unfolding kinv_def current_ok_def by (simp del: dom_fun_upd add: dom)
  then show ?thesis
    using k t off dom kinv_thread_range [OF k e]
    by (simp add: kinv_but_def kinv_def tables_ok_def ready_ok_def queues_ok_def threads_ok_def)
qed

lemma kinv_but_entry:
  assumes b: "kinv_but t s rq sq" and tt: "thread_table s' = (thread_table s)(t \<mapsto> e)"
    and f: "scheduler_current_thread s' = scheduler_current_thread s" "ready_head s' = ready_head s"
      "ready_tail s' = ready_tail s" "sleepq_hashtable s' = sleepq_hashtable s"
  shows "kinv_but t s' rq sq"
proof -
  have "dom (thread_table s') = dom (thread_table s)"
    using b tt by (auto simp: kinv_but_def tables_ok_def)
  moreover have "chain (thread_table s') x rq = chain (thread_table s) x rq"
      "chain (thread_table s') x (sq h) = chain (thread_table s) x (sq h)" for x h
    using b tt by (simp_all add: kinv_but_def)
  ultimately have "tables_ok s'" "ready_ok s' rq" "queues_ok s' sq" "current_ok s'"
    using b unfolding kinv_but_def tables_ok_def ready_ok_def queues_ok_def current_ok_def f by auto
  moreover have "u \<noteq> t \<and> thread_table s' u = Some g \<longleftrightarrow> u \<noteq> t \<and> thread_table s u = Some g" for u g
    using tt by auto
  ultimately show ?thesis using b unfolding kinv_but_def f by (simp only:) blast
qed

text \<open>A running thread that is in no queue joins the queue of slot \<open>h\<close> at its end.\<close>

lemma kinv_enqueue:
  assumes but: "kinv_but t s rq sq" and run: "runs_on (scheduler_current_thread s) t"
    and rel: "relinked (insert t (set (sq h))) (thread_table s) tt"
    and ch: "chain tt x (sq h @ [t])"
    and e: "tt t = Some e" "state e = THREAD_RUNNING" "sleeps_on e \<noteq> 0" "h = uint (sleeps_on e) mod 127"
    and disj: "set rq \<inter> set (sq h) = {}" "\<And>h'. h' \<noteq> h \<Longrightarrow> set (sq h) \<inter> set (sq h') = {}"
  shows "kinv (s\<lparr>thread_table := tt, sleepq_hashtable := (sleepq_hashtable s)(h \<mapsto> x)\<rparr>) rq
      (sq(h := sq h @ [t]))"
proof -
  let ?s = "s\<lparr>thread_table := tt, sleepq_hashtable := (sleepq_hashtable s)(h \<mapsto> x)\<rparr>"
  have dom: "dom tt = dom (thread_table s)" using relinked_dom [OF rel] .
  have other: "chain tt y (sq h') = chain (thread_table s) y (sq h')" if "h' \<noteq> h" for y h'
    using disj(2) [OF that] but by (intro relinked_chain [OF rel]) (auto simp: kinv_but_def)
  have rdy: "chain tt y rq = chain (thread_table s) y rq" for y
    using disj(1) but by (intro relinked_chain [OF rel]) (auto simp: kinv_but_def)
  have "0 \<le> h" "h < 127" using e(4) by simp_all
  then have "tables_ok ?s" using but dom by (auto simp: kinv_but_def tables_ok_def)
  moreover have "ready_ok ?s rq" using but rdy by (simp add: kinv_but_def ready_ok_def)
  moreover have "queues_ok ?s (sq(h := sq h @ [t]))"
    using but other ch by (simp add: kinv_but_def queues_ok_def)
  moreover have "current_ok ?s" using but dom by (simp add: kinv_but_def current_ok_def)
  moreover have "threads_ok ?s rq (sq(h := sq h @ [t]))"
    unfolding threads_ok_def
  proof (intro allI impI)
    fix u f
    assume f: "thread_table ?s u = Some f"
    show "if u = 0 then idle_ok f else thread_ok (runs_on (scheduler_current_thread ?s) u)
        (u \<in> set rq) (\<lambda>h'. u \<in> set ((sq(h := sq h @ [t])) h')) f"
    proof (cases "u = t")
      case True
      then show ?thesis using f but e run by (auto simp: kinv_but_def thread_ok_def)
    next
      case False
      then obtain g n where g: "thread_table s u = Some g" "f = g\<lparr>nxt := n\<rparr>"
        using f relinked_Some_rev [OF rel, of u f] by auto
      have "(\<lambda>h'. u \<in> set ((sq(h := sq h @ [t])) h')) = (\<lambda>h'. u \<in> set (sq h'))"
        using False by auto
      then show ?thesis using False but g by (simp add: kinv_but_def)
    qed
  qed
  ultimately show ?thesis by (simp add: kinv_def)
qed

lemma resource_cast:
  fixes r :: u64
  assumes "r \<noteq> 0" and "uint r < 2 ^ 32"
  shows "(ucast r :: u32) \<noteq> 0" and "uint (ucast r :: u32) = uint r" and "ucast (ucast r :: u32) = r"
proof -
  have m: "uint r mod 2 ^ 32 = uint r" using assms(2) by (intro mod_pos_pos_trivial) auto
  then show u: "uint (ucast r :: u32) = uint r" by (simp add: uint_word_ariths unsigned_ucast_eq take_bit_eq_mod)
  then show "(ucast r :: u32) \<noteq> 0" using assms(1) by (metis unsigned_0 unsigned_eq_0_iff)
  show "ucast (ucast r :: u32) = r"
  proof (rule word_uint_eqI)
    have "uint (ucast (ucast r :: u32) :: u64) = uint (take_bit 32 r)"
      by (simp only: unsigned_ucast_eq) simp
    also have "\<dots> = uint r mod 2 ^ 32" 
      by (subst unsigned_take_bit_eq) (simp_all add: take_bit_eq_mod)
    finally show "uint (ucast (ucast r :: u32) :: u64) = uint r" using m by simp
  qed
qed

text \<open>
  \<open>sleepq_add\<close> appends the calling thread to the queue of the resource's slot. The resource
  must be non-null and below \<open>2^32\<close>, since only 32 bits of it are kept.
\<close>

lemma sleepq_hash_range [simp]: "0 \<le> sleepq_hash r" "sleepq_hash r < 127"
  by (simp_all add: sleepq_hash_def)

lemma kinv_slot:
  assumes "kinv s rq sq" and "0 \<le> h" and "h < 127"
  shows "\<exists>x. sleepq_hashtable s h = Some x \<and> chain (thread_table s) x (sq h)"
proof -
  have "h \<in> dom (sleepq_hashtable s)" using assms by (simp add: kinv_def tables_ok_def)
  then obtain x where "sleepq_hashtable s h = Some x" by blast
  then show ?thesis using assms(1) by (auto simp: kinv_def queues_ok_def)
qed

text \<open>What joining a sleep queue does to the thread table and to the slot's head.\<close>

lemma sleepq_append:
  assumes ch: "chain tt x ts" and t: "0 < t" "t \<notin> set ts" and e: "tt t = Some (e\<lparr>nxt := - 1\<rparr>)"
  shows "\<exists>tt' x'. chain tt' x' (ts @ [t]) \<and> relinked (insert t (set ts)) tt tt' \<and>
    tt' t = Some (e\<lparr>nxt := - 1\<rparr>) \<and>
    (if x \<le> 0 then tt' = tt \<and> x' = t
     else x' = x \<and> (\<exists>l. tt (last ts) = Some l \<and> tt' = tt(last ts \<mapsto> l\<lparr>nxt := t\<rparr>)))"
proof (cases ts rule: rev_cases)
  case Nil
  then show ?thesis
    using ch t e by (intro exI [of _ tt] exI [of _ t]) (auto simp: relinked_def)
next
  case (snoc us l)
  then obtain el where el: "tt l = Some el" "0 < l" using ch by (auto simp: chain_append)
  have l: "l \<noteq> t" using snoc t by auto
  have x: "0 < x" using chain_empty_iff [OF ch] snoc by auto
  let ?tt = "tt(l \<mapsto> el\<lparr>nxt := t\<rparr>)"
  have "tt(l \<mapsto> el\<lparr>nxt := t\<rparr>, t \<mapsto> e\<lparr>nxt := - 1\<rparr>) = ?tt" using e l by auto
  then have "chain ?tt x (ts @ [t])"
    using chain_snoc [of tt x us l el t e] ch el t snoc by auto
  moreover have "relinked (insert t (set ts)) tt ?tt"
    using el snoc by (auto simp: relinked_def)
  ultimately show ?thesis
    using x l el e snoc by (intro exI [of _ ?tt] exI [of _ x]) auto
qed

lemma sleepq_add_spec:
  assumes k: "kinv s rq sq" and intr: "\<not> intr_enabled s cpu" and l: "slocks s Sleepq_slock = 0"
    and cur: "scheduler_current_thread s cpu = Some t" "t \<noteq> 0"
    and e: "thread_table s t = Some e" "state e = THREAD_RUNNING" "sleeps_on e = 0"
    and r: "r \<noteq> 0" "uint r < 2 ^ 32"
  shows "\<exists>tt ht. sleepq_add cpu r s = Inr (s\<lparr>thread_table := tt, sleepq_hashtable := ht\<rparr>) \<and>
    kinv (s\<lparr>thread_table := tt, sleepq_hashtable := ht\<rparr>) rq
      (sq(sleepq_hash r := sq (sleepq_hash r) @ [t])) \<and>
    relinked (insert t (set (sq (sleepq_hash r))))
      ((thread_table s)(t \<mapsto> e\<lparr>sleeps_on := ucast r\<rparr>)) tt"
proof -
  let ?h = "sleepq_hash r" and ?e = "e\<lparr>nxt := - 1, sleeps_on := ucast r\<rparr>"
  let ?tt = "(thread_table s)(t \<mapsto> ?e)"
  have pos: "0 < t" using kinv_thread_range [OF k e(1)] cur by simp
  have run: "runs_on (scheduler_current_thread s) t" using cur by (auto simp: runs_on_def)
  have "thread_ok True (t \<in> set rq) (\<lambda>h. t \<in> set (sq h)) e"
    using kinv_thread_ok [OF k e(1)] cur run by simp
  then have off: "t \<notin> set rq" "t \<notin> set (sq h)" for h using e by (auto simp: thread_ok_def)
  obtain x where x: "sleepq_hashtable s ?h = Some x" "chain (thread_table s) x (sq ?h)"
    using kinv_slot [OF k, of ?h] by auto
  have chx: "chain ?tt x (sq ?h)" using x(2) off by simp
  obtain tt x' where a: "chain tt x' (sq ?h @ [t])" "relinked (insert t (set (sq ?h))) ?tt tt"
      "tt t = Some ?e"
    and upd: "if x \<le> 0 then tt = ?tt \<and> x' = t
       else x' = x \<and> (\<exists>l. ?tt (last (sq ?h)) = Some l \<and> tt = ?tt(last (sq ?h) \<mapsto> l\<lparr>nxt := t\<rparr>))"
    using sleepq_append [OF chx pos off(2), of "e\<lparr>sleeps_on := ucast r\<rparr>"] by auto
  have "kinv (s\<lparr>thread_table := tt, sleepq_hashtable := (sleepq_hashtable s)(?h \<mapsto> x')\<rparr>) rq
      (sq(?h := sq ?h @ [t]))"
  proof -
    have but: "kinv_but t (s\<lparr>thread_table := ?tt\<rparr>) rq sq"
      using kinv_to_but [OF k pos e(1) off] .
    have "kinv ((s\<lparr>thread_table := ?tt\<rparr>)\<lparr>thread_table := tt,
        sleepq_hashtable := (sleepq_hashtable (s\<lparr>thread_table := ?tt\<rparr>))(?h \<mapsto> x')\<rparr>) rq
        (sq(?h := sq ?h @ [t]))"
    proof (rule kinv_enqueue [OF but _ _ a(1) a(3)])
      show "sleepq_hash r = uint (sleeps_on ?e) mod 127"
        using resource_cast(2) [OF r] by (simp add: sleepq_hash_def)
      show "set (sq ?h) \<inter> set (sq h') = {}" if "h' \<noteq> ?h" for h'
        using kinv_sleep_unique [OF k] that by blast
    qed (use run a(2) e resource_cast(1) [OF r] kinv_disjoint [OF k] in auto)
    then show ?thesis by simp
  qed
  moreover have "sleepq_add cpu r s =
      Inr (s\<lparr>thread_table := tt, sleepq_hashtable := (sleepq_hashtable s)(?h \<mapsto> x')\<rparr>)"
  proof (cases "x \<le> 0")
    case True
    then show ?thesis using upd x e cur intr l
      by (simp add: sleepq_add_def interrupt_defs spinlock_defs fun_upd_idem)
  next
    case False
    have "length (sq ?h) \<le> 31" "sq ?h \<noteq> []"
      using chain_length [OF k x(2)] chain_empty_iff [OF x(2)] False by auto
    then show ?thesis using upd x e cur intr l False chx
      by (auto simp: sleepq_add_def interrupt_defs spinlock_defs fun_upd_idem
          sleepq_last_eq [where ts = "sq ?h"])
  qed
  moreover have "relinked (insert t (set (sq ?h))) ((thread_table s)(t \<mapsto> e\<lparr>sleeps_on := ucast r\<rparr>)) tt"
    by (rule relinked_trans [OF _ a(2)])
      (auto simp: relinked_def intro!: exI [of _ "- 1"])
  ultimately show ?thesis by blast
qed

section \<open>Leaving a sleep queue\<close>

lemma kinv_but_dequeued:
  assumes k: "kinv s rq sq" and sq: "sq h = pre @ t # post"
    and rel: "relinked (set pre) (thread_table s) tt" and ch: "chain tt x (pre @ post)"
    and e: "tt t = Some e"
  shows "kinv_but t (s\<lparr>thread_table := tt(t \<mapsto> e'), sleepq_hashtable := (sleepq_hashtable s)(h \<mapsto> x)\<rparr>)
      rq (sq(h := pre @ post))"
proof -
  let ?s = "s\<lparr>thread_table := tt(t \<mapsto> e'), sleepq_hashtable := (sleepq_hashtable s)(h \<mapsto> x)\<rparr>"
  let ?sq = "sq(h := pre @ post)"
  have inh: "t \<in> set (sq h)" using sq by simp
  obtain g where m: "0 < t" "thread_table s t = Some g" "0 \<le> h" "h < 127"
    using kinv_sleep_member [OF k inh] by auto
  obtain y where "chain (thread_table s) y (sq h)" using kinv_slot [OF k m(3,4)] by auto
  then have dist: "t \<notin> set pre" "t \<notin> set post" using chain_distinct sq by fastforce+
  have dom: "dom (tt(t \<mapsto> e')) = dom (thread_table s)" using relinked_dom [OF rel] m by auto
  have nrq: "t \<notin> set rq" "set pre \<inter> set rq = {}" using kinv_disjoint [OF k, of h] sq by auto
  have nsq: "t \<notin> set (sq h')" "set pre \<inter> set (sq h') = {}" if "h' \<noteq> h" for h'
    using kinv_sleep_unique [OF k, of _ h h'] sq that by auto
  have ready: "chain (tt(t \<mapsto> e')) z rq = chain (thread_table s) z rq" for z
    using nrq relinked_chain [OF rel, of rq] by simp
  have others: "chain (tt(t \<mapsto> e')) z (sq h') = chain (thread_table s) z (sq h')" if "h' \<noteq> h" for z h'
    using nsq [OF that] relinked_chain [OF rel, of "sq h'"] by simp
  have "tables_ok ?s" using k dom m by (auto simp: kinv_def tables_ok_def)
  moreover have "ready_ok ?s rq" using k ready by (simp add: kinv_def ready_ok_def)
  moreover have "queues_ok ?s ?sq"
    using k others ch dist by (simp add: kinv_def queues_ok_def)
  moreover have "current_ok ?s" using k dom by (simp add: kinv_def current_ok_def)
  moreover have "\<forall>u f. u \<noteq> t \<and> thread_table ?s u = Some f \<longrightarrow> (if u = 0 then idle_ok f
      else thread_ok (runs_on (scheduler_current_thread ?s) u) (u \<in> set rq) (\<lambda>h. u \<in> set (?sq h)) f)"
  proof (intro allI impI)
    fix u f
    assume "u \<noteq> t \<and> thread_table ?s u = Some f"
    then have u: "u \<noteq> t" "tt u = Some f" by auto
    obtain g n where g: "thread_table s u = Some g" "f = g\<lparr>nxt := n\<rparr>"
      using relinked_Some_rev [OF rel u(2)] by auto
    have "(\<lambda>h. u \<in> set (?sq h)) = (\<lambda>h. u \<in> set (sq h))" using u sq by auto
    then show "if u = 0 then idle_ok f
      else thread_ok (runs_on (scheduler_current_thread ?s) u) (u \<in> set rq) (\<lambda>h. u \<in> set (?sq h)) f"
      using kinv_thread_ok [OF k g(1)] kinv_idle_ok [OF k] g by auto
  qed
  moreover have "\<forall>h'. t \<notin> set (?sq h')" using nsq(1) dist by simp
  ultimately show ?thesis
    unfolding kinv_but_def using m(1) nrq(1) kinv_thread_range [OF k m(2)] by blast
qed

text \<open>
  Thread \<open>t\<close> leaves slot \<open>h\<close>: its predecessor, or the slot's head, takes over its link. The
  other threads of the system do not change except for that link.
\<close>

lemma kinv_dequeue:
  assumes k: "kinv s rq sq" and sq: "sq h = pre @ t # post" and e: "thread_table s t = Some e"
  shows "\<exists>tt ht. sleepq_unlink h (last (- 1 # pre)) t s =
      Inr (nxt e, s\<lparr>thread_table := tt, sleepq_hashtable := ht\<rparr>) \<and>
    relinked (set pre) (thread_table s) tt \<and>
    kinv_but t (s\<lparr>thread_table := tt(t \<mapsto> e'), sleepq_hashtable := ht\<rparr>) rq (sq(h := pre @ post))"
proof -
  have h: "0 \<le> h" "h < 127" and t: "0 < t"
    using kinv_sleep_member [OF k, of t h] sq by auto
  obtain x where x: "sleepq_hashtable s h = Some x" "chain (thread_table s) x (pre @ t # post)"
    using kinv_slot [OF k h] sq by auto
  have dist: "distinct (pre @ t # post)" using chain_distinct [OF x(2)] .
  have "\<exists>tt x'. sleepq_unlink h (last (- 1 # pre)) t s =
      Inr (nxt e, s\<lparr>thread_table := tt, sleepq_hashtable := (sleepq_hashtable s)(h \<mapsto> x')\<rparr>) \<and>
    relinked (set pre) (thread_table s) tt \<and> chain tt x' (pre @ post) \<and> tt t = Some e"
  proof (cases pre rule: rev_cases)
    case Nil
    then show ?thesis
      using x e by (intro exI [of _ "thread_table s"] exI [of _ "nxt e"])
        (auto simp: sleepq_unlink_def relinked_def)
  next
    case (snoc us p)
    then obtain ep where p: "thread_table s p = Some ep" "0 < p"
      using x(2) by (auto simp: chain_append)
    let ?tt = "(thread_table s)(p \<mapsto> ep\<lparr>nxt := nxt e\<rparr>)"
    have "chain ?tt x (pre @ post)"
      using chain_remove [of "thread_table s" x us p t post ep e] x(2) p e snoc by simp
    then show ?thesis
      using x e p snoc dist
      by (intro exI [of _ ?tt] exI [of _ x])
        (auto simp: sleepq_unlink_def fun_upd_idem relinked_upd)
  qed
  then obtain tt x' where a: "sleepq_unlink h (last (- 1 # pre)) t s =
        Inr (nxt e, s\<lparr>thread_table := tt, sleepq_hashtable := (sleepq_hashtable s)(h \<mapsto> x')\<rparr>)"
      "relinked (set pre) (thread_table s) tt" "chain tt x' (pre @ post)" "tt t = Some e"
    by blast
  let ?s = "s\<lparr>thread_table := tt(t \<mapsto> e'), sleepq_hashtable := (sleepq_hashtable s)(h \<mapsto> x')\<rparr>"
  have "kinv_but t ?s rq (sq(h := pre @ post))"
    using kinv_but_dequeued [OF k sq a(2,3,4)] .
  then show ?thesis using a(1,2) by blast
qed

text \<open>
  \<open>sleepq_make_ready\<close> puts a thread that has gone to sleep at the end of the ready list. A
  thread that is still running, because it has not switched away yet, only loses its
  \<open>sleeps_on\<close>: the scheduler will not put it to sleep, so the wake-up is not lost.
\<close>

definition woken :: "thread_entry \<Rightarrow> thread_entry" where
  "woken e = e\<lparr>sleeps_on := 0,
     state := (if state e = THREAD_SLEEPING then THREAD_READY else state e)\<rparr>"

lemma sleepq_make_ready_spec:
  assumes e: "thread_table s t = Some e" and l: "slocks s Thread_table_slock = 0"
    and but: "kinv_but t (s\<lparr>thread_table := (thread_table s)(t \<mapsto> e\<lparr>sleeps_on := 0, nxt := - 1\<rparr>)\<rparr>) rq sq"
    and disj: "\<And>h. set rq \<inter> set (sq h) = {}"
    and st: "state e = (if runs_on (scheduler_current_thread s) t then THREAD_RUNNING else THREAD_SLEEPING)"
  shows "\<exists>tt h0 tl0. sleepq_make_ready t s =
      Inr (s\<lparr>thread_table := tt, ready_head := h0, ready_tail := tl0\<rparr>) \<and>
    kinv (s\<lparr>thread_table := tt, ready_head := h0, ready_tail := tl0\<rparr>)
      (if state e = THREAD_SLEEPING then rq @ [t] else rq) sq \<and>
    relinked (insert t (set rq)) ((thread_table s)(t \<mapsto> woken e)) tt"
proof -
  let ?e = "e\<lparr>sleeps_on := 0, nxt := - 1\<rparr>"
  let ?tt = "(thread_table s)(t \<mapsto> ?e)"
  have unl: "(slocks s)(Thread_table_slock := 0) = slocks s" using l by (simp add: fun_upd_idem)
  have t: "0 < t" "t < 32" "t \<notin> set rq" using but by (simp_all add: kinv_but_def)
  show ?thesis
  proof (cases "runs_on (scheduler_current_thread s) t")
    case True
    then have "thread_ok True False (\<lambda>h. False) ?e" using st by (simp add: thread_ok_def)
    then have "kinv (s\<lparr>thread_table := ?tt\<rparr>) rq sq"
      using kinv_butD [OF but, of ?e] True by simp
    moreover have "relinked (insert t (set rq)) ((thread_table s)(t \<mapsto> woken e)) ?tt"
      using True st by (auto simp: relinked_def woken_def intro!: exI [of _ "- 1"])
    ultimately show ?thesis
      using True st e l unl
      by (intro exI [of _ ?tt] exI [of _ "ready_head s"] exI [of _ "ready_tail s"])
        (simp add: sleepq_make_ready_def spinlock_defs)
  next
    case False
    let ?e2 = "?e\<lparr>state := THREAD_READY\<rparr>"
    let ?s = "s\<lparr>slocks := (slocks s)(Thread_table_slock := 1),
        thread_table := (thread_table s)(t \<mapsto> ?e2)\<rparr>"
    have off: "kinv_off t ?s rq sq"
      using False by (auto simp: kinv_off_def intro: kinv_but_entry [OF but])
    obtain tt h0 where a: "scheduler_add_to_ready_list t ?s =
          Inr (?s\<lparr>thread_table := tt, ready_head := h0, ready_tail := t\<rparr>)"
        "chain tt h0 (rq @ [t])" "relinked (insert t (set rq)) (thread_table ?s) tt"
      using add_to_ready_list_spec [of ?s rq t ?e2] off t by (auto simp: kinv_off_defs)
    obtain n where n: "tt t = Some (?e2\<lparr>nxt := n\<rparr>)"
      using relinked_Some [OF a(3), of t ?e2] by auto
    have "kinv (?s\<lparr>thread_table := tt, ready_head := h0, ready_tail := t\<rparr>) (rq @ [t]) sq"
      using kinv_make_ready [OF off disj a(2) a(3) n] n by (simp add: fun_upd_idem)
    then have "kinv (s\<lparr>thread_table := tt, ready_head := h0, ready_tail := t\<rparr>) (rq @ [t]) sq"
      by (rule kinv_frameI) simp_all
    moreover have "relinked (insert t (set rq)) ((thread_table s)(t \<mapsto> woken e)) tt"
      using False st by (intro relinked_trans [OF _ a(3)])
        (auto simp: relinked_def woken_def intro!: exI [of _ "- 1"])
    ultimately show ?thesis
      using False st e l unl a(1)
      by (intro exI [of _ tt] exI [of _ h0] exI [of _ t])
        (simp add: sleepq_make_ready_def spinlock_defs)
  qed
qed

text \<open>One waiter taken out of slot \<open>h\<close> and made ready.\<close>

definition put_ready :: "thread_entry \<Rightarrow> tid \<Rightarrow> tid list \<Rightarrow> tid list" where
  "put_ready e t rq = (if state e = THREAD_SLEEPING then rq @ [t] else rq)"

lemma sleepq_detach_spec:
  assumes k: "kinv s rq sq" and sq: "sq h = pre @ t # post" and e: "thread_table s t = Some e"
    and l: "slocks s Thread_table_slock = 0"
  shows "\<exists>s1 tt h0 tl0 ht. sleepq_unlink h (last (- 1 # pre)) t s = Inr (nxt e, s1) \<and>
    sleepq_make_ready t s1 =
      Inr (s\<lparr>thread_table := tt, ready_head := h0, ready_tail := tl0, sleepq_hashtable := ht\<rparr>) \<and>
    kinv (s\<lparr>thread_table := tt, ready_head := h0, ready_tail := tl0, sleepq_hashtable := ht\<rparr>)
      (put_ready e t rq) (sq(h := pre @ post)) \<and>
    relinked (insert t (set rq) \<union> set pre) ((thread_table s)(t \<mapsto> woken e)) tt"
proof -
  have inh: "t \<in> set (sq h)" using sq by simp
  have t: "t \<noteq> 0" "state e = THREAD_RUNNING \<or> state e = THREAD_SLEEPING"
    using kinv_sleep_member [OF k inh] e by auto
  obtain tt ht where a: "sleepq_unlink h (last (- 1 # pre)) t s =
        Inr (nxt e, s\<lparr>thread_table := tt, sleepq_hashtable := ht\<rparr>)"
      "relinked (set pre) (thread_table s) tt"
      "kinv_but t (s\<lparr>thread_table := tt(t \<mapsto> e\<lparr>sleeps_on := 0, nxt := - 1\<rparr>), sleepq_hashtable := ht\<rparr>)
        rq (sq(h := pre @ post))"
    using kinv_dequeue [OF k sq e, of "e\<lparr>sleeps_on := 0, nxt := - 1\<rparr>"] by auto
  let ?s1 = "s\<lparr>thread_table := tt, sleepq_hashtable := ht\<rparr>"
  obtain x where "chain (thread_table s) x (sq h)"
    using kinv_slot [OF k, of h] kinv_sleep_member [OF k inh] by auto
  then have "t \<notin> set pre" using chain_distinct sq by fastforce
  then have te: "tt t = Some e" using a(2) e by (simp add: relinked_def)
  have st: "state e = (if runs_on (scheduler_current_thread ?s1) t then THREAD_RUNNING else THREAD_SLEEPING)"
    using kinv_thread_ok [OF k e t(1)] t(2) by (auto simp: thread_ok_def)
  have disj: "set rq \<inter> set ((sq(h := pre @ post)) h') = {}" for h'
    using kinv_disjoint [OF k, of h'] kinv_disjoint [OF k, of h] sq by auto
  have but: "kinv_but t (?s1\<lparr>thread_table := (thread_table ?s1)(t \<mapsto> e\<lparr>sleeps_on := 0, nxt := - 1\<rparr>)\<rparr>)
      rq (sq(h := pre @ post))"
    by (rule kinv_but_entry [OF a(3)]) simp_all
  have te1: "thread_table ?s1 t = Some e" and l1: "slocks ?s1 Thread_table_slock = 0"
    using te l by simp_all
  obtain tt' h0 tl0 where b: "sleepq_make_ready t ?s1 =
        Inr (?s1\<lparr>thread_table := tt', ready_head := h0, ready_tail := tl0\<rparr>)"
      "kinv (?s1\<lparr>thread_table := tt', ready_head := h0, ready_tail := tl0\<rparr>)
        (put_ready e t rq) (sq(h := pre @ post))"
      "relinked (insert t (set rq)) ((thread_table ?s1)(t \<mapsto> woken e)) tt'"
    using sleepq_make_ready_spec [OF te1 l1 but disj st] unfolding put_ready_def by blast
  have eq: "?s1\<lparr>thread_table := tt', ready_head := h0, ready_tail := tl0\<rparr> =
      s\<lparr>thread_table := tt', ready_head := h0, ready_tail := tl0, sleepq_hashtable := ht\<rparr>"
    by simp
  have "relinked (insert t (set rq) \<union> set pre) ((thread_table s)(t \<mapsto> woken e)) tt'"
  proof (rule relinked_trans)
    show "relinked (insert t (set rq) \<union> set pre) ((thread_table s)(t \<mapsto> woken e)) (tt(t \<mapsto> woken e))"
      using a(2) by (auto simp: relinked_def)
    show "relinked (insert t (set rq) \<union> set pre) (tt(t \<mapsto> woken e)) tt'"
      using b(3) by (auto simp: relinked_def)
  qed
  then show ?thesis using a(1) b(1,2) unfolding eq by blast
qed

section \<open>\<open>sleepq_wake\<close> and \<open>sleepq_wake_all\<close>\<close>

lemma sleepq_wake_none:
  assumes k: "kinv s rq sq" and l: "slocks s Sleepq_slock = 0"
    and w: "\<forall>t \<in> set (sq (sleepq_hash r)). \<not> waits_for s r t"
  shows "sleepq_wake cpu r s = Inr s"
proof -
  let ?h = "sleepq_hash r"
  let ?s = "s\<lparr>intr_enabled := (intr_enabled s)(cpu := False), slocks := (slocks s)(Sleepq_slock := 1)\<rparr>"
  obtain x where x: "sleepq_hashtable s ?h = Some x" "chain (thread_table s) x (sq ?h)"
    using kinv_slot [OF k, of ?h] by auto
  have "\<forall>t \<in> set (sq ?h). \<not> waits_for ?s r t" using w by (simp add: waits_for_def)
  then have "sleepq_find 32 r (- 1) x ?s = Inr (last (- 1 # sq ?h), - 1)"
    using sleepq_find_eq [of ?s x "sq ?h" "[]" 32 r "- 1"] x chain_length [OF k x(2)] by simp
  then show ?thesis
    using x(1) l
    by (simp add: sleepq_wake_def interrupt_defs spinlock_defs fun_upd_idem del: last.simps)
qed

text \<open>
  With a waiter, the first one in queue order leaves the queue. The result is the state after
  that alone: locks and interrupt flags are as before the call.
\<close>

lemma sleepq_wake_first:
  assumes k: "kinv s rq sq" and l: "slocks s Sleepq_slock = 0" "slocks s Thread_table_slock = 0"
    and sq: "sq (sleepq_hash r) = pre @ t # post"
    and w: "\<forall>u \<in> set pre. \<not> waits_for s r u" "waits_for s r t"
    and e: "thread_table s t = Some e"
  shows "\<exists>tt h0 tl0 ht. sleepq_wake cpu r s =
      Inr (s\<lparr>thread_table := tt, ready_head := h0, ready_tail := tl0, sleepq_hashtable := ht\<rparr>) \<and>
    kinv (s\<lparr>thread_table := tt, ready_head := h0, ready_tail := tl0, sleepq_hashtable := ht\<rparr>)
      (put_ready e t rq) (sq(sleepq_hash r := pre @ post)) \<and>
    (\<exists>U. relinked U ((thread_table s)(t \<mapsto> woken e)) tt)"
proof -
  let ?h = "sleepq_hash r"
  let ?s = "s\<lparr>intr_enabled := (intr_enabled s)(cpu := False), slocks := (slocks s)(Sleepq_slock := 1)\<rparr>"
  have k': "kinv ?s rq sq" and e': "thread_table ?s t = Some e" and l': "slocks ?s Thread_table_slock = 0"
    using k e l by simp_all
  obtain x where x: "sleepq_hashtable s ?h = Some x" "chain (thread_table s) x (sq ?h)"
    using kinv_slot [OF k, of ?h] by auto
  have t: "0 < t" using chain_pos [OF x(2)] sq by simp
  have w': "\<forall>u \<in> set pre. \<not> waits_for ?s r u" "waits_for ?s r t" using w by (simp_all add: waits_for_def)
  have f: "sleepq_find 32 r (- 1) x ?s = Inr (last (- 1 # pre), t)"
    using sleepq_find_eq [of ?s x pre "t # post" 32 r "- 1"] x(2) chain_length [OF k x(2)] w' sq by simp
  obtain s1 tt h0 tl0 ht where d: "sleepq_unlink ?h (last (- 1 # pre)) t ?s = Inr (nxt e, s1)"
      "sleepq_make_ready t s1 =
        Inr (?s\<lparr>thread_table := tt, ready_head := h0, ready_tail := tl0, sleepq_hashtable := ht\<rparr>)"
      "kinv (?s\<lparr>thread_table := tt, ready_head := h0, ready_tail := tl0, sleepq_hashtable := ht\<rparr>)
        (put_ready e t rq) (sq(?h := pre @ post))"
      "\<exists>U. relinked U ((thread_table ?s)(t \<mapsto> woken e)) tt"
    using sleepq_detach_spec [OF k' sq e' l'] by blast
  have "sleepq_wake cpu r s =
      Inr (s\<lparr>thread_table := tt, ready_head := h0, ready_tail := tl0, sleepq_hashtable := ht\<rparr>)"
    using x(1) l f t d(1,2)
    by (simp add: sleepq_wake_def interrupt_defs spinlock_defs fun_upd_idem del: last.simps)
  moreover have "kinv (s\<lparr>thread_table := tt, ready_head := h0, ready_tail := tl0, sleepq_hashtable := ht\<rparr>)
      (put_ready e t rq) (sq(?h := pre @ post))"
    using d(3) by (rule kinv_frameI) simp_all
  ultimately show ?thesis using d(4) by fastforce
qed

text \<open>Waking one thread leaves the state and the resource of the others alone.\<close>

definition asleep :: "kstate \<Rightarrow> tid \<Rightarrow> bool" where
  "asleep s t = (case thread_table s t of Some e \<Rightarrow> state e = THREAD_SLEEPING | None \<Rightarrow> False)"

lemma relinked_views:
  assumes "relinked U ((thread_table s)(t \<mapsto> woken e)) (thread_table s')" and "u \<noteq> t"
  shows "waits_for s' r u = waits_for s r u" and "asleep s' u = asleep s u"
proof -
  have "rel_option (\<lambda>e e'. \<exists>n. e' = e\<lparr>nxt := n\<rparr>) (thread_table s u) (thread_table s' u)"
    using assms by (auto simp: relinked_def dest: spec [of _ u])
  then show "waits_for s' r u = waits_for s r u" "asleep s' u = asleep s u"
    by (auto simp: waits_for_def asleep_def elim: option.rel_cases split: option.splits)
qed

text \<open>Nor does it change who waits for another resource.\<close>

lemma waits_for_woken:
  assumes "relinked U ((thread_table s)(t \<mapsto> woken e)) (thread_table s')"
    and "thread_table s t = Some e" and "waits_for s r t" and "r' \<noteq> r" and "r' \<noteq> 0"
  shows "waits_for s' r' = waits_for s r'"
proof
  fix u
  show "waits_for s' r' u = waits_for s r' u"
  proof (cases "u = t")
    case True
    obtain n where "thread_table s' t = Some ((woken e)\<lparr>nxt := n\<rparr>)"
      using relinked_Some [OF assms(1), of t "woken e"] by auto
    then show ?thesis using assms(2-) True by (auto simp: waits_for_def woken_def)
  next
    case False
    then show ?thesis using relinked_views(1) [OF assms(1)] by blast
  qed
qed

lemma last_last_append: "last (last (x # xs) # ys) = last (x # xs @ ys)"
  by (cases ys rule: rev_cases) auto

lemma sleepq_wake_loop_spec:
  "kinv s rq sq \<Longrightarrow> sq h = pre @ ts \<Longrightarrow> chain (thread_table s) x ts \<Longrightarrow>
   \<forall>u \<in> set pre. \<not> waits_for s r u \<Longrightarrow> length ts + 1 < n \<Longrightarrow> slocks s Thread_table_slock = 0 \<Longrightarrow>
   \<exists>tt h0 tl0 ht. sleepq_wake_loop n h r (last (- 1 # pre)) x s =
      Inr (s\<lparr>thread_table := tt, ready_head := h0, ready_tail := tl0, sleepq_hashtable := ht\<rparr>) \<and>
    kinv (s\<lparr>thread_table := tt, ready_head := h0, ready_tail := tl0, sleepq_hashtable := ht\<rparr>)
      (rq @ filter (\<lambda>t. waits_for s r t \<and> asleep s t) ts)
      (sq(h := pre @ filter (\<lambda>t. \<not> waits_for s r t) ts)) \<and>
    (\<forall>r'. r' \<noteq> r \<longrightarrow> r' \<noteq> 0 \<longrightarrow> waits_for (s\<lparr>thread_table := tt\<rparr>) r' = waits_for s r')"
proof (induction n arbitrary: s rq sq pre ts x)
  case (Suc n)
  note k = Suc.prems(1) and sq = Suc.prems(2) and ch = Suc.prems(3) and pre = Suc.prems(4)
  define mid rest where "mid = takeWhile (\<lambda>t. \<not> waits_for s r t) ts"
    and "rest = dropWhile (\<lambda>t. \<not> waits_for s r t) ts"
  have ts: "ts = mid @ rest" by (simp add: mid_def rest_def)
  have mid: "\<forall>u \<in> set mid. \<not> waits_for s r u" by (auto simp: mid_def dest: set_takeWhileD)
  have rest: "rest = [] \<or> waits_for s r (hd rest)"
    using hd_dropWhile [of "\<lambda>t. \<not> waits_for s r t" ts] by (auto simp: rest_def)
  have fil: "filter (\<lambda>t. \<not> waits_for s r t) mid = mid" "filter (\<lambda>t. waits_for s r t \<and> asleep s t) mid = []"
    using mid by (auto simp: filter_empty_conv)
  have find: "sleepq_find 32 r (last (- 1 # pre)) x s =
      Inr (last (- 1 # pre @ mid), (if rest = [] then - 1 else hd rest))"
    using sleepq_find_eq [of s x mid rest 32 r "last (- 1 # pre)"] ch chain_length [OF k ch] mid rest ts
    by (simp add: last_last_append del: last.simps)
  show ?case
  proof (cases rest)
    case Nil
    have "sleepq_wake_loop (Suc n) h r (last (- 1 # pre)) x s = Inr s"
      using find Nil Suc.prems(5) by (cases n) (auto simp del: last.simps)
    moreover have "sq(h := pre @ filter (\<lambda>t. \<not> waits_for s r t) ts) = sq"
      using sq ts Nil fil by auto
    ultimately show ?thesis
      using k fil ts Nil
      by (intro exI [of _ "thread_table s"] exI [of _ "ready_head s"] exI [of _ "ready_tail s"]
          exI [of _ "sleepq_hashtable s"]) (simp del: last.simps)
  next
    case (Cons t post)
    have sq': "sq h = (pre @ mid) @ t # post" using sq ts Cons by simp
    have t: "0 < t" using chain_pos [OF ch, of t] ts Cons by simp
    have x: "0 < x" using chain_empty_iff [OF ch] ts Cons by force
    obtain e where e: "thread_table s t = Some e" using chain_dom [OF ch] ts Cons by auto
    obtain s1 tt h0 tl0 ht where d: "sleepq_unlink h (last (- 1 # pre @ mid)) t s = Inr (nxt e, s1)"
        "sleepq_make_ready t s1 =
          Inr (s\<lparr>thread_table := tt, ready_head := h0, ready_tail := tl0, sleepq_hashtable := ht\<rparr>)"
        "kinv (s\<lparr>thread_table := tt, ready_head := h0, ready_tail := tl0, sleepq_hashtable := ht\<rparr>)
          (put_ready e t rq) (sq(h := (pre @ mid) @ post))"
        "relinked (insert t (set rq) \<union> set (pre @ mid)) ((thread_table s)(t \<mapsto> woken e)) tt"
      using sleepq_detach_spec [OF k sq' e Suc.prems(6)] by blast
    let ?s = "s\<lparr>thread_table := tt, ready_head := h0, ready_tail := tl0, sleepq_hashtable := ht\<rparr>"
    obtain y where "chain (thread_table s) y (sq h)"
      using kinv_slot [OF k, of h] kinv_sleep_member [OF k, of t h] sq' by auto
    then have dist: "distinct ((pre @ mid) @ t # post)" using chain_distinct sq' by metis
    have chp: "chain (thread_table s) (nxt e) post"
      using ch ts Cons e by (auto simp: chain_append)
    have chp': "chain tt (nxt e) post"
      using chp dist kinv_disjoint [OF k, of h] sq'
      by (subst relinked_chain [OF d(4)]) auto
    have views: "waits_for ?s r u = waits_for s r u" "asleep ?s u = asleep s u" if "u \<noteq> t" for u
      using d(4) that by (auto intro!: relinked_views)
    have tn: "t \<notin> set post" "t \<notin> set pre" "t \<notin> set mid" using dist by auto
    have vp: "waits_for ?s r u = waits_for s r u" "asleep ?s u = asleep s u" if "u \<in> set post" for u
      by (rule views; use that tn(1) in blast)+
    have fl: "filter (\<lambda>u. waits_for ?s r u \<and> asleep ?s u) post = filter (\<lambda>u. waits_for s r u \<and> asleep s u) post"
        "filter (\<lambda>u. \<not> waits_for ?s r u) post = filter (\<lambda>u. \<not> waits_for s r u) post"
      by (simp_all add: vp cong: filter_cong)
    have pre': "\<forall>u \<in> set (pre @ mid). \<not> waits_for ?s r u"
      using pre mid tn views by (metis Un_iff set_append)
    have len: "length post + 1 < n" using Suc.prems(5) ts Cons by simp
    have sqp: "(sq(h := (pre @ mid) @ post)) h = (pre @ mid) @ post"
        and chs: "chain (thread_table ?s) (nxt e) post" and ls: "slocks ?s Thread_table_slock = 0"
      using chp' Suc.prems(6) by simp_all
    have IH: "\<exists>tt h0 tl0 ht. sleepq_wake_loop n h r (last (- 1 # pre @ mid)) (nxt e) ?s =
        Inr (?s\<lparr>thread_table := tt, ready_head := h0, ready_tail := tl0, sleepq_hashtable := ht\<rparr>) \<and>
      kinv (?s\<lparr>thread_table := tt, ready_head := h0, ready_tail := tl0, sleepq_hashtable := ht\<rparr>)
        (put_ready e t rq @ filter (\<lambda>t. waits_for s r t \<and> asleep s t) post)
        ((sq(h := (pre @ mid) @ post))(h := (pre @ mid) @ filter (\<lambda>t. \<not> waits_for s r t) post)) \<and>
      (\<forall>r'. r' \<noteq> r \<longrightarrow> r' \<noteq> 0 \<longrightarrow> waits_for (?s\<lparr>thread_table := tt\<rparr>) r' = waits_for ?s r')"
      using Suc.IH [OF d(3) sqp chs pre' len ls] unfolding fl .
    have "waits_for s r t" "asleep s t \<longleftrightarrow> state e = THREAD_SLEEPING"
      using rest Cons e by (auto simp: asleep_def)
    then have "put_ready e t rq @ filter (\<lambda>t. waits_for s r t \<and> asleep s t) post =
        rq @ filter (\<lambda>t. waits_for s r t \<and> asleep s t) ts"
      "(pre @ mid) @ filter (\<lambda>t. \<not> waits_for s r t) post = pre @ filter (\<lambda>t. \<not> waits_for s r t) ts"
      using ts Cons fil by (auto simp: put_ready_def)
    moreover have "waits_for ?s r' = waits_for s r'" if "r' \<noteq> r" "r' \<noteq> 0" for r'
      using d(4) rest Cons e that by (intro waits_for_woken [of _ s t e]) auto
    moreover have "waits_for (?s\<lparr>thread_table := tt'\<rparr>) r' = waits_for (s\<lparr>thread_table := tt'\<rparr>) r'" for tt' r'
      by (simp add: waits_for_def [abs_def])
    ultimately show ?thesis
      using IH x t find Cons d(1,2) by (simp del: last.simps fun_upd_apply)
  qed
qed simp

lemma sleepq_wake_all_spec:
  assumes k: "kinv s rq sq" and l: "slocks s Sleepq_slock = 0" "slocks s Thread_table_slock = 0"
  shows "\<exists>tt h0 tl0 ht. sleepq_wake_all cpu r s =
      Inr (s\<lparr>thread_table := tt, ready_head := h0, ready_tail := tl0, sleepq_hashtable := ht\<rparr>) \<and>
    kinv (s\<lparr>thread_table := tt, ready_head := h0, ready_tail := tl0, sleepq_hashtable := ht\<rparr>)
      (rq @ filter (\<lambda>t. waits_for s r t \<and> asleep s t) (sq (sleepq_hash r)))
      (sq(sleepq_hash r := filter (\<lambda>t. \<not> waits_for s r t) (sq (sleepq_hash r)))) \<and>
    (\<forall>r'. r' \<noteq> r \<longrightarrow> r' \<noteq> 0 \<longrightarrow> waits_for (s\<lparr>thread_table := tt\<rparr>) r' = waits_for s r')"
proof -
  let ?h = "sleepq_hash r"
  let ?s = "s\<lparr>intr_enabled := (intr_enabled s)(cpu := False), slocks := (slocks s)(Sleepq_slock := 1)\<rparr>"
  have k': "kinv ?s rq sq" and l': "slocks ?s Thread_table_slock = 0" using k l by simp_all
  obtain x where x: "sleepq_hashtable s ?h = Some x" "chain (thread_table ?s) x (sq ?h)"
    using kinv_slot [OF k, of ?h] by auto
  have len: "length (sq ?h) + 1 < 34" using chain_length [OF k' x(2)] by simp
  have v: "waits_for ?s r u = waits_for s r u" "asleep ?s u = asleep s u" for u
    by (simp_all add: waits_for_def asleep_def)
  obtain tt h0 tl0 ht where w: "sleepq_wake_loop 34 ?h r (- 1) x ?s =
        Inr (?s\<lparr>thread_table := tt, ready_head := h0, ready_tail := tl0, sleepq_hashtable := ht\<rparr>)"
      "kinv (?s\<lparr>thread_table := tt, ready_head := h0, ready_tail := tl0, sleepq_hashtable := ht\<rparr>)
        (rq @ filter (\<lambda>t. waits_for s r t \<and> asleep s t) (sq ?h))
        (sq(?h := filter (\<lambda>t. \<not> waits_for s r t) (sq ?h)))"
      "\<forall>r'. r' \<noteq> r \<longrightarrow> r' \<noteq> 0 \<longrightarrow> waits_for (?s\<lparr>thread_table := tt\<rparr>) r' = waits_for ?s r'"
    using sleepq_wake_loop_spec [OF k' _ x(2) _ len l', of ?h "[]" r] unfolding v by auto
  have "sleepq_wake_all cpu r s =
      Inr (s\<lparr>thread_table := tt, ready_head := h0, ready_tail := tl0, sleepq_hashtable := ht\<rparr>)"
    using x(1) l w(1)
    by (simp add: sleepq_wake_all_def interrupt_defs spinlock_defs fun_upd_idem del: last.simps)
  moreover have "kinv (s\<lparr>thread_table := tt, ready_head := h0, ready_tail := tl0, sleepq_hashtable := ht\<rparr>)
      (rq @ filter (\<lambda>t. waits_for s r t \<and> asleep s t) (sq ?h))
      (sq(?h := filter (\<lambda>t. \<not> waits_for s r t) (sq ?h)))"
    using w(2) by (rule kinv_frameI) simp_all
  moreover have "waits_for (s\<lparr>thread_table := tt\<rparr>) r' = waits_for s r'" if "r' \<noteq> r" "r' \<noteq> 0" for r'
    using w(3) that by (simp add: waits_for_def [abs_def])
  ultimately show ?thesis by blast
qed

end
