(* ===== verification/Thread.thy ===== *)
theory Thread
  imports Sleepq
begin

text \<open>
  Threads (\<^verbatim>\<open>src/kudos/kernel/thread.c\<close>) on x86_64, with the context set-up and the task switch
  of \<^verbatim>\<open>src/kudos/kernel/x86_64/cswitch.c\<close>. A context lies at the top of its thread's stack
  area; its fields \<open>stack\<close>, \<open>rip\<close>, \<open>flags\<close>, \<open>pml4\<close>, \<open>virt_memory\<close>, \<open>prev_context\<close> are the 64-bit
  words at offsets 0, 8, 16, 24, 32, 40. The lemmas: start-up establishes the invariant, and
  creating, running and finishing a thread keep it.
\<close>

section \<open>Contexts\<close>

abbreviation (input) sizeof_context :: u64 where "sizeof_context \<equiv> 48"

definition context_of :: "layout \<Rightarrow> tid \<Rightarrow> u64" where
  "context_of l t = thread_stack_areas l + word_of_int (CONFIG_THREAD_STACKSIZE * t)
     + word_of_int CONFIG_THREAD_STACKSIZE - sizeof_context"

text \<open>\<open>*(rsp--) = v\<close>\<close>

definition push :: "u64 \<times> (u64 \<Rightarrow> u64) \<Rightarrow> u64 \<Rightarrow> u64 \<times> (u64 \<Rightarrow> u64)" where
  "push rm v = (case rm of (rsp, m) \<Rightarrow> (rsp - 8, m(rsp := v)))"

definition align_stack :: "u64 \<Rightarrow> u64" where
  "align_stack stack = (if stack AND 0xF \<noteq> 0 then (stack AND 0xFFFFFFFFFFFFFFF0) + 0x10 else stack)"

definition context_init ::
  "u64 \<Rightarrow> u64 \<Rightarrow> u64 \<Rightarrow> u64 \<Rightarrow> u32 \<Rightarrow> u64 \<Rightarrow> (u64 \<Rightarrow> u64) \<Rightarrow> (u64 \<Rightarrow> u64)" where
  "context_init cxt entry endentry stack args pml4 m =
     (let stack = align_stack stack;
          (rbp, m) = foldl push (stack, m) [endentry, 0x10, stack, 0x200202, 0x8, entry];
          (rsp, m) = foldl push (rbp, m) [0, 0, 0, 0, 0, 0, 0, 0, ucast args, 0, rbp, 0, 0, 0, 0];
          m = m(rsp := 0)
      in m(cxt := rsp, cxt + 24 := pml4, cxt + 32 := pml4, cxt + 16 := 0))"

definition context_set_ip :: "u64 \<Rightarrow> u64 \<Rightarrow> (u64 \<Rightarrow> u64) \<Rightarrow> (u64 \<Rightarrow> u64)" where
  "context_set_ip cxt ip m = m(cxt + 8 := ip)"

definition context_set_sp :: "u64 \<Rightarrow> u64 \<Rightarrow> (u64 \<Rightarrow> u64) \<Rightarrow> (u64 \<Rightarrow> u64)" where
  "context_set_sp cxt sp m = m(cxt := sp)"

definition context_enable_ints :: "u64 \<Rightarrow> u64 \<Rightarrow> (u64 \<Rightarrow> u64) \<Rightarrow> (u64 \<Rightarrow> u64)" where
  "context_enable_ints cxt pml4 m =
     m(cxt + 16 := m (cxt + 16) OR 0x200, cxt + 24 := pml4, cxt + 32 := pml4, cxt + 16 := 0)"

section \<open>Operations\<close>

definition thread_table_init :: "kstate \<Rightarrow> kstate" where
  "thread_table_init s =
     (let s = spinlock_reset Thread_table_slock s;
          l = link s;
          tt = (\<lambda>i. if 0 \<le> i \<and> i < CONFIG_MAX_THREADS then
                 Some \<lparr>kcontext = context_of l i, user_context = 0, state = THREAD_FREE, sleeps_on = 0,
                   pagetable = 0, process_id = - 1, nxt = - 1, attribs = 0\<rparr>
               else thread_table s i);
          idle = context_of l IDLE_THREAD_TID;
          m = context_set_ip idle (idle_loop_addr l) (kmem s);
          m = context_set_sp idle (thread_stack_areas l + word_of_int CONFIG_THREAD_STACKSIZE - 4 - sizeof_context) m;
          m = context_enable_ints idle (kernel_pml4_addr l) m;
          tt = tt(IDLE_THREAD_TID := map_option (\<lambda>e. e\<lparr>state := THREAD_READY\<rparr>) (tt IDLE_THREAD_TID))
      in s\<lparr>thread_table := tt, kmem := m(idle + 40 := idle)\<rparr>)"

text \<open>The search for a free entry: \<open>n\<close> rounds are left, the loop counter is \<open>i\<close>.\<close>

fun thread_find_free :: "nat \<Rightarrow> int \<Rightarrow> kstate \<Rightarrow> tid res" where
  "thread_find_free 0 i s = Inr (- 1)"
| "thread_find_free (Suc n) i s =
     (let t = c_mod (i + next_tid s) CONFIG_MAX_THREADS in
      if t = IDLE_THREAD_TID then thread_find_free n (i + 1) s
      else rbind (get_thread t s) (\<lambda>e.
        if state e = THREAD_FREE then Inr t else thread_find_free n (i + 1) s))"

text \<open>The loop that zeroes the context: \<open>sizeof(context_t)/4\<close> words of eight bytes.\<close>

fun zero_words :: "nat \<Rightarrow> u64 \<Rightarrow> (u64 \<Rightarrow> u64) \<Rightarrow> (u64 \<Rightarrow> u64)" where
  "zero_words 0 a m = m"
| "zero_words (Suc n) a m = zero_words n (a + 8) (m(a := 0))"

definition thread_setup :: "tid \<Rightarrow> u64 \<Rightarrow> u32 \<Rightarrow> kstate \<Rightarrow> kstate res" where
  "thread_setup tid func arg s =
     (let l = link s; cxt = context_of l tid in
      rbind (upd_thread tid (\<lambda>e. e\<lparr>kcontext := cxt, user_context := 0, pagetable := 0, sleeps_on := 0,
          attribs := 0, process_id := - 1, nxt := - 1\<rparr>) s) (\<lambda>s.
      let m = zero_words (nat (uint sizeof_context div 4)) cxt (kmem s);
          m = m(cxt + 40 := cxt)
      in Inr (s\<lparr>kmem := context_init cxt func (thread_finish_addr l)
           (thread_stack_areas l + word_of_int (CONFIG_THREAD_STACKSIZE * tid)
             + word_of_int CONFIG_THREAD_STACKSIZE - 4 - sizeof_context) arg (kernel_pml4_addr l) m\<rparr>)))"

definition thread_create :: "int \<Rightarrow> u64 \<Rightarrow> u32 \<Rightarrow> kstate \<Rightarrow> (tid \<times> kstate) res" where
  "thread_create cpu func arg s =
     (let (intr_status, s) = interrupt_disable cpu s in
      rbind (spinlock_acquire Thread_table_slock s) (\<lambda>s.
      rbind (thread_find_free 32 0 s) (\<lambda>tid.
      if tid < 0 then
        Inr (tid, interrupt_set_state cpu intr_status (spinlock_release Thread_table_slock s))
      else
        rbind (upd_thread tid (\<lambda>e. e\<lparr>state := THREAD_NONREADY\<rparr>)
            (s\<lparr>next_tid := c_mod (tid + 1) CONFIG_MAX_THREADS\<rparr>)) (\<lambda>s.
        let s = interrupt_set_state cpu intr_status (spinlock_release Thread_table_slock s) in
        rbind (thread_setup tid func arg s) (\<lambda>s. Inr (tid, s))))))"

definition thread_run :: "int \<Rightarrow> tid \<Rightarrow> kstate \<Rightarrow> kstate res" where
  "thread_run cpu t s = scheduler_add_ready cpu t s"

definition thread_get_current_thread_entry :: "int \<Rightarrow> kstate \<Rightarrow> (thread_entry \<times> kstate) res" where
  "thread_get_current_thread_entry cpu s =
     rbind (thread_get_current_thread cpu s) (\<lambda>(t, s).
     rbind (get_thread t s) (\<lambda>e. Inr (e, s)))"

text \<open>\<open>thread_finish\<close> up to the yield, from which the thread does not return.\<close>

definition thread_finish :: "int \<Rightarrow> kstate \<Rightarrow> kstate res" where
  "thread_finish cpu s =
     rbind (thread_get_current_thread cpu s) (\<lambda>(my_tid, s).
     let s = snd (interrupt_disable cpu s) in
     rbind (get_thread my_tid s) (\<lambda>e.
     rbind (kassert (pagetable e = 0)) (\<lambda>_.
     rbind (spinlock_acquire Thread_table_slock s) (\<lambda>s.
     rbind (upd_thread my_tid (\<lambda>e. e\<lparr>state := THREAD_DYING\<rparr>) s) (\<lambda>s.
     Inr (snd (interrupt_enable cpu (spinlock_release Thread_table_slock s))))))))"

text \<open>
  The handler of the yield and timer interrupts, \<open>task_switch\<close>: save the stack pointer in the
  context in use, schedule, and return the new stack pointer and page table. The task state
  segment is always that of CPU 0.
\<close>

definition task_switch :: "int \<Rightarrow> u32 \<Rightarrow> u64 \<Rightarrow> kstate \<Rightarrow> ((u64 \<times> u64) \<times> kstate) res" where
  "task_switch cpu rnd stack s =
     rbind (thread_get_current_thread_entry cpu s) (\<lambda>(task, s).
     let cxt = (if attribs task AND 1 \<noteq> 0 then user_context task else kcontext task);
         s = s\<lparr>kmem := (kmem s)(cxt := stack)\<rparr> in
     rbind (scheduler_schedule cpu rnd s) (\<lambda>s.
     rbind (thread_get_current_thread cpu s) (\<lambda>(t, s).
     rbind (get_thread t s) (\<lambda>task.
     rbind (aset (tss_rsp0 s) 0 (kmem s (kcontext task))) (\<lambda>ts.
     let s = s\<lparr>tss_rsp0 := ts\<rparr> in
     rbind (if attribs task AND 2 \<noteq> 0
            then upd_thread t (\<lambda>e. e\<lparr>attribs := (attribs e AND NOT 2) OR 1\<rparr>) s else Inr s) (\<lambda>s.
     rbind (get_thread t s) (\<lambda>task.
     let new_stack = (if attribs task AND 1 \<noteq> 0 then kmem s (user_context task) else kmem s (kcontext task))
     in Inr ((new_stack, kmem s (kcontext task + 24)), s))))))))"

section \<open>Finding a free entry\<close>

definition is_free :: "kstate \<Rightarrow> tid \<Rightarrow> bool" where
  "is_free s t = (t \<noteq> IDLE_THREAD_TID \<and>
     (case thread_table s t of Some e \<Rightarrow> state e = THREAD_FREE | None \<Rightarrow> False))"

lemma thread_find_free_spec:
  assumes dom: "dom (thread_table s) = {0..<32}" and n: "0 \<le> next_tid s" and i: "0 \<le> i"
  shows "\<exists>t. thread_find_free k i s = Inr t \<and> (t = - 1 \<or> is_free s t) \<and>
    (t = - 1 \<longrightarrow> (\<forall>j. i \<le> j \<and> j < i + int k \<longrightarrow> \<not> is_free s ((j + next_tid s) mod 32)))"
  using i
proof (induction k arbitrary: i)
  case (Suc k)
  let ?t = "(i + next_tid s) mod 32"
  have "?t \<in> dom (thread_table s)" using dom by simp
  then obtain e where e: "thread_table s ?t = Some e" by blast
  have t: "c_mod (i + next_tid s) 32 = ?t" using Suc.prems n by simp
  show ?case
  proof (cases "is_free s ?t")
    case True
    then show ?thesis using t e by (simp add: is_free_def)
  next
    case False
    then have "thread_find_free (Suc k) i s = thread_find_free k (i + 1) s"
      using t e by (auto simp: is_free_def Let_def)
    moreover obtain u where u: "thread_find_free k (i + 1) s = Inr u" "u = - 1 \<or> is_free s u"
        "u = - 1 \<longrightarrow> (\<forall>j. i + 1 \<le> j \<and> j < i + 1 + int k \<longrightarrow> \<not> is_free s ((j + next_tid s) mod 32))"
      using Suc.IH [of "i + 1"] Suc.prems by auto
    moreover have "\<not> is_free s ((j + next_tid s) mod 32)"
      if "u = - 1" "i \<le> j" "j < i + int (Suc k)" for j
      using False u(3) that by (cases "j = i") auto
    ultimately show ?thesis by auto
  qed
qed auto

text \<open>The search looks at every entry, so it fails only when no entry is free.\<close>

lemma thread_find_free_32:
  assumes k: "kinv s rq sq" and n: "0 \<le> next_tid s"
  shows "\<exists>t. thread_find_free 32 0 s = Inr t \<and>
    (is_free s t \<or> t = - 1 \<and> (\<forall>u. \<not> is_free s u))"
proof -
  have dom: "dom (thread_table s) = {0..<32}" using k by (simp add: kinv_def tables_ok_def)
  obtain t where t: "thread_find_free 32 0 s = Inr t" "t = - 1 \<or> is_free s t"
      "t = - 1 \<longrightarrow> (\<forall>j. 0 \<le> j \<and> j < 32 \<longrightarrow> \<not> is_free s ((j + next_tid s) mod 32))"
    using thread_find_free_spec [OF dom n, of 0 32] by auto
  have "\<not> is_free s u" if "t = - 1" for u
  proof (cases "u \<in> {0..<32}")
    case True
    have "((u - next_tid s) mod 32 + next_tid s) mod 32 = u" using True by (simp add: mod_simps)
    then show ?thesis using t(3) that by (metis pos_mod_bound pos_mod_sign zero_less_numeral)
  next
    case False
    then show ?thesis using dom by (auto simp: is_free_def split: option.split)
  qed
  then show ?thesis using t(1,2) by blast
qed

section \<open>The invariant under thread operations\<close>

text \<open>A thread whose entry is free or not ready yet is in no queue and on no CPU.\<close>

lemma kinv_parked:
  assumes k: "kinv s rq sq" and e: "thread_table s t = Some e" "t \<noteq> 0"
    and st: "state e = THREAD_FREE \<or> state e = THREAD_NONREADY"
  shows "t \<notin> set rq" and "\<And>h. t \<notin> set (sq h)" and "\<not> runs_on (scheduler_current_thread s) t"
    and "sleeps_on e = 0" and "0 < t"
  using kinv_thread_ok [OF k e] kinv_thread_range [OF k e(1)] st e(2)
  by (auto simp: thread_ok_def)

lemma kinv_park:
  assumes k: "kinv s rq sq" and e: "thread_table s t = Some e" "t \<noteq> 0"
    and st: "state e = THREAD_FREE \<or> state e = THREAD_NONREADY"
    and e': "sleeps_on e' = 0" "state e' = THREAD_FREE \<or> state e' = THREAD_NONREADY"
  shows "kinv (s\<lparr>thread_table := (thread_table s)(t \<mapsto> e')\<rparr>) rq sq"
proof (rule kinv_butD)
  show "kinv_but t (s\<lparr>thread_table := (thread_table s)(t \<mapsto> e')\<rparr>) rq sq"
    using kinv_to_but [OF k _ e(1)] kinv_parked [OF k e st] by blast
qed (use kinv_parked(3) [OF k e st] e' in \<open>auto simp: thread_ok_def\<close>)

lemma add_ready_spec:
  assumes k: "kinv s rq sq" and e: "thread_table s t = Some e" "t \<noteq> 0" "state e = THREAD_NONREADY"
    and l: "slocks s Thread_table_slock = 0"
  shows "\<exists>tt h0. scheduler_add_ready cpu t s =
      Inr (s\<lparr>thread_table := tt, ready_head := h0, ready_tail := t\<rparr>) \<and>
    kinv (s\<lparr>thread_table := tt, ready_head := h0, ready_tail := t\<rparr>) (rq @ [t]) sq"
proof -
  let ?s = "s\<lparr>intr_enabled := (intr_enabled s)(cpu := False), slocks := (slocks s)(Thread_table_slock := 1)\<rparr>"
  have p: "t \<notin> set rq" "\<And>h. t \<notin> set (sq h)" "\<not> runs_on (scheduler_current_thread s) t"
      "sleeps_on e = 0" "0 < t"
    using kinv_parked [OF k e(1,2)] e(3) by blast+
  have "kinv_but t (s\<lparr>thread_table := (thread_table s)(t \<mapsto> e)\<rparr>) rq sq"
    using kinv_to_but [OF k p(5) e(1) p(1,2)] .
  then have "kinv_but t ?s rq sq"
    by (rule kinv_but_entry [where e = e]) (use e(1) in \<open>simp_all add: fun_upd_idem\<close>)
  then have off: "kinv_off t ?s rq sq" using p(3) by (simp add: kinv_off_def)
  obtain tt h0 where a: "scheduler_add_to_ready_list t ?s =
        Inr (?s\<lparr>thread_table := tt, ready_head := h0, ready_tail := t\<rparr>)"
      "chain tt h0 (rq @ [t])" "relinked (insert t (set rq)) (thread_table ?s) tt"
    using add_to_ready_list_spec [of ?s rq t e] off e(1) by (auto simp: kinv_off_defs)
  obtain n where n: "tt t = Some (e\<lparr>nxt := n\<rparr>)"
    using relinked_Some [OF a(3), of t e] e(1) by auto
  have "sleeps_on (e\<lparr>nxt := n\<rparr>) = 0" using p(4) by simp
  then have "kinv (?s\<lparr>thread_table := tt(t \<mapsto> e\<lparr>nxt := n, state := THREAD_READY\<rparr>), ready_head := h0,
      ready_tail := t\<rparr>) (rq @ [t]) sq"
    using kinv_make_ready [OF off kinv_disjoint [OF k] a(2,3) n] by simp
  then have "kinv (s\<lparr>thread_table := tt(t \<mapsto> e\<lparr>nxt := n, state := THREAD_READY\<rparr>), ready_head := h0,
      ready_tail := t\<rparr>) (rq @ [t]) sq"
    by (rule kinv_frameI) simp_all
  moreover have "scheduler_add_ready cpu t s =
      Inr (s\<lparr>thread_table := tt(t \<mapsto> e\<lparr>nxt := n, state := THREAD_READY\<rparr>), ready_head := h0, ready_tail := t\<rparr>)"
    using a(1) n l
    by (simp add: scheduler_add_ready_def interrupt_defs spinlock_defs fun_upd_idem)
  ultimately show ?thesis by blast
qed

text \<open>
  \<open>thread_create\<close> gives out a free entry whenever there is one, leaves it not ready, and changes
  no queue, no lock and no interrupt flag.
\<close>

lemma thread_create_none:
  assumes k: "kinv s rq sq" and n: "0 \<le> next_tid s" and l: "slocks s Thread_table_slock = 0"
    and full: "\<forall>t. \<not> is_free s t"
  shows "thread_create cpu func arg s = Inr (- 1, s)"
proof -
  let ?s = "s\<lparr>intr_enabled := (intr_enabled s)(cpu := False), slocks := (slocks s)(Thread_table_slock := 1)\<rparr>"
  have "kinv ?s rq sq" "0 \<le> next_tid ?s" "\<forall>t. \<not> is_free ?s t"
    using k n full by (simp_all add: is_free_def)
  then have "thread_find_free 32 0 ?s = Inr (- 1)" using thread_find_free_32 by blast
  then show ?thesis
    using l by (simp add: thread_create_def interrupt_defs spinlock_defs fun_upd_idem)
qed

lemma thread_setup_eq:
  "thread_table s t = Some e \<Longrightarrow> \<exists>m. thread_setup t func arg s =
     Inr (s\<lparr>thread_table := (thread_table s)(t \<mapsto> e\<lparr>kcontext := context_of (link s) t, user_context := 0,
       pagetable := 0, sleeps_on := 0, attribs := 0, process_id := - 1, nxt := - 1\<rparr>), kmem := m\<rparr>)"
  unfolding thread_setup_def Let_def by (subst upd_thread_Some) (assumption, unfold rbind_Inr, blast)

lemma thread_create_some:
  assumes k: "kinv s rq sq" and n: "0 \<le> next_tid s" and l: "slocks s Thread_table_slock = 0"
    and some: "is_free s u"
  shows "\<exists>t e e' m. is_free s t \<and> thread_table s t = Some e \<and> 0 < t \<and> t < 32 \<and>
    thread_create cpu func arg s = Inr (t, s\<lparr>next_tid := (t + 1) mod 32,
      thread_table := (thread_table s)(t \<mapsto> e'), kmem := m\<rparr>) \<and>
    state e' = THREAD_NONREADY \<and> sleeps_on e' = 0 \<and> kcontext e' = context_of (link s) t \<and>
    pagetable e' = 0 \<and>
    kinv (s\<lparr>next_tid := (t + 1) mod 32, thread_table := (thread_table s)(t \<mapsto> e'), kmem := m\<rparr>) rq sq"
proof -
  let ?s = "s\<lparr>intr_enabled := (intr_enabled s)(cpu := False), slocks := (slocks s)(Thread_table_slock := 1)\<rparr>"
  have "kinv ?s rq sq" "0 \<le> next_tid ?s" "is_free ?s u"
    using k n some by (simp_all add: is_free_def)
  then obtain t where t: "thread_find_free 32 0 ?s = Inr t" "is_free ?s t"
    using thread_find_free_32 by metis
  then obtain e where e: "thread_table s t = Some e" "t \<noteq> 0" "state e = THREAD_FREE"
    by (auto simp: is_free_def split: option.splits)
  have r: "0 < t" "t < 32" using kinv_thread_range [OF k e(1)] e(2) by auto
  define e' where "e' = e\<lparr>state := THREAD_NONREADY, kcontext := context_of (link s) t, user_context := 0,
    pagetable := 0, sleeps_on := 0, attribs := 0, process_id := - 1, nxt := - 1\<rparr>"
  have mod: "c_mod (t + 1) 32 = (t + 1) mod 32" using r by simp
  let ?s2 = "s\<lparr>next_tid := (t + 1) mod 32, thread_table := (thread_table s)(t \<mapsto> e\<lparr>state := THREAD_NONREADY\<rparr>)\<rparr>"
  obtain m where m: "thread_setup t func arg ?s2 = Inr (s\<lparr>next_tid := (t + 1) mod 32,
      thread_table := (thread_table s)(t \<mapsto> e'), kmem := m\<rparr>)"
    using thread_setup_eq [of ?s2 t "e\<lparr>state := THREAD_NONREADY\<rparr>" func arg] by (auto simp: e'_def)
  have "thread_create cpu func arg s = rbind (thread_setup t func arg ?s2) (\<lambda>s. Inr (t, s))"
    using t(1) e r l mod by (simp add: thread_create_def interrupt_defs spinlock_defs fun_upd_idem)
  then have "thread_create cpu func arg s = Inr (t, s\<lparr>next_tid := (t + 1) mod 32,
      thread_table := (thread_table s)(t \<mapsto> e'), kmem := m\<rparr>)"
    using m by simp
  moreover have "kinv (s\<lparr>next_tid := (t + 1) mod 32, thread_table := (thread_table s)(t \<mapsto> e'),
      kmem := m\<rparr>) rq sq"
    by (rule kinv_frameI, rule kinv_park [OF k e(1,2), of e']) (simp_all add: e(3) e'_def)
  ultimately show ?thesis
    using t(2) e(1) r by (intro exI [of _ t] exI [of _ e] exI [of _ e'] exI [of _ m])
      (simp add: is_free_def e'_def)
qed

text \<open>\<open>thread_finish\<close>: the calling thread, which waits for nothing, becomes a dying one.\<close>

lemma kinv_dying:
  assumes k: "kinv s rq sq" and e: "thread_table s t = Some e" "t \<noteq> 0"
    and st: "state e = THREAD_RUNNING" "sleeps_on e = 0"
  shows "kinv (s\<lparr>thread_table := (thread_table s)(t \<mapsto> e\<lparr>state := THREAD_DYING\<rparr>)\<rparr>) rq sq"
proof (rule kinv_butD)
  have te: "thread_ok (runs_on (scheduler_current_thread s) t) (t \<in> set rq) (\<lambda>h. t \<in> set (sq h)) e"
    using kinv_thread_ok [OF k e] .
  then have off: "t \<notin> set rq" "\<And>h. t \<notin> set (sq h)" "runs_on (scheduler_current_thread s) t"
    using st by (auto simp: thread_ok_def)
  have "0 < t" using kinv_thread_range [OF k e(1)] e(2) by simp
  then show "kinv_but t (s\<lparr>thread_table := (thread_table s)(t \<mapsto> e\<lparr>state := THREAD_DYING\<rparr>)\<rparr>) rq sq"
    using kinv_to_but [OF k _ e(1)] off by blast
  show "thread_ok (runs_on (scheduler_current_thread
      (s\<lparr>thread_table := (thread_table s)(t \<mapsto> e\<lparr>state := THREAD_DYING\<rparr>)\<rparr>)) t) False (\<lambda>h. False)
      (e\<lparr>state := THREAD_DYING\<rparr>)"
    using off(3) st by (simp add: thread_ok_def)
qed simp

lemma thread_finish_spec:
  assumes k: "kinv s rq sq" and cur: "scheduler_current_thread s cpu = Some t" "t \<noteq> 0"
    and e: "thread_table s t = Some e" "state e = THREAD_RUNNING" "sleeps_on e = 0" "pagetable e = 0"
    and l: "slocks s Thread_table_slock = 0"
  shows "\<exists>s'. thread_finish cpu s = Inr s' \<and> kinv s' rq sq \<and>
    s' = s\<lparr>thread_table := (thread_table s)(t \<mapsto> e\<lparr>state := THREAD_DYING\<rparr>),
      intr_enabled := (intr_enabled s)(cpu := True)\<rparr>"
  using kinv_dying [OF k e(1) cur(2) e(2,3)] cur e l
  by (simp add: thread_finish_def interrupt_defs spinlock_defs fun_upd_idem)

section \<open>The first stack frame of a thread\<close>

lemma and_15_word: "(x :: u64) AND 0xF = take_bit 4 x"
  by (simp add: take_bit_eq_mask mask_eq_exp_minus_1)

lemma align_stack_up:
  fixes c :: "u64"
  assumes "take_bit 4 c = 0"
  shows "align_stack (c - 4) = c"
proof -
  let ?b = "c - 16"
  have "16 dvd ?b" using assms by (intro dvd_diff) (simp_all add: take_bit_eq_0_iff)
  then have b0: "take_bit 4 ?b = 0" by (simp add: take_bit_eq_0_iff)
  have "\<not> bit ?b n \<or> \<not> bit (12 :: u64) n" for n
  proof (cases "n < 4")
    case True
    then show ?thesis using b0 by (metis bit_0_eq bit_take_bit_iff bot_apply bot_bool_def)
  next
    case False
    have "(12 :: u64) = take_bit 4 12" by simp
    then show ?thesis using False by (metis bit_take_bit_iff)
  qed
  then have "?b + 12 = ?b OR 12" by (rule disjunctive_add)
  then have e: "c - 4 = ?b OR 12" by (simp add: algebra_simps)
  have "(c - 4) AND 0xF = 12"
    unfolding and_15_word e take_bit_or b0 by simp
  moreover have "(c - 4) AND 0xFFFFFFFFFFFFFFF0 = ?b"
  proof -
    have n: "(0xFFFFFFFFFFFFFFF0 :: u64) = NOT (mask 4)" by (simp add: mask_eq_exp_minus_1 not_eq_complement)
    have "?b AND NOT (mask 4) = ?b"
      using b0 by (simp add: take_bit_eq_mask bit_eq_iff bit_and_iff bit_not_iff bit_mask_iff) blast
    moreover have "(12 :: u64) AND NOT (mask 4) = 0" by (simp add: mask_eq_exp_minus_1 not_eq_complement)
    ultimately show ?thesis unfolding e n by (simp add: and.commute bit.conj_disj_distrib)
  qed
  ultimately show ?thesis by (simp add: align_stack_def)
qed

lemma context_of_aligned:
  assumes "16 dvd thread_stack_areas l"
  shows "align_stack (context_of l t - 4) = context_of l t"
proof (rule align_stack_up)
  have "16 dvd (4096 :: u64) * word_of_int t" by (rule dvd_mult2) (rule dvdI [of _ _ 256], simp)
  moreover have "16 dvd (4048 :: u64)" by (rule dvdI [of _ _ 253]) simp
  ultimately have "16 dvd thread_stack_areas l + (4096 * word_of_int t + 4048)"
    using assms by (intro dvd_add)
  moreover have "context_of l t = thread_stack_areas l + (4096 * word_of_int t + 4048)"
    by (simp add: context_of_def)
  ultimately show "take_bit 4 (context_of l t) = 0" by (simp add: take_bit_eq_0_iff)
qed

text \<open>
  The frame \<open>context_init\<close> builds on an aligned stack: the saved stack pointer is 168 bytes below
  the context, the word the return instruction will fetch the entry point from holds it.
\<close>

lemma context_init_frame:
  assumes "align_stack stack = cxt"
  shows "context_init cxt entry endentry stack args pml4 m cxt = cxt - 168"
    and "context_init cxt entry endentry stack args pml4 m (cxt - 40) = entry"
    and "context_init cxt entry endentry stack args pml4 m (cxt - 16) = cxt"
    and "context_init cxt entry endentry stack args pml4 m (cxt - 112) = ucast args"
    and "context_init cxt entry endentry stack args pml4 m (cxt + 24) = pml4"
  using assms by (simp_all add: context_init_def push_def)

section \<open>Start-up\<close>

definition no_queues :: "int \<Rightarrow> tid list" where
  "no_queues h = []"

text \<open>The static initialisers of the scheduler, and the bounds of the arrays.\<close>

definition boot_ok :: "kstate \<Rightarrow> bool" where
  "boot_ok s \<longleftrightarrow> ready_head s = - 1 \<and> ready_tail s = - 1 \<and> next_tid s = 0 \<and>
     dom (thread_table s) \<subseteq> {0..<CONFIG_MAX_THREADS} \<and>
     dom (scheduler_current_thread s) \<subseteq> {0..<CONFIG_MAX_CPUS} \<and>
     dom (sleepq_hashtable s) \<subseteq> {0..<SLEEPQ_HASHTABLE_SIZE}"

lemma kinv_start:
  assumes "boot_ok s"
  shows "kinv (scheduler_init (sleepq_init (thread_table_init s))) [] no_queues"
proof -
  let ?s = "scheduler_init (sleepq_init (thread_table_init s))"
  have tt: "thread_table ?s i = (if 0 \<le> i \<and> i < 32 then Some
      \<lparr>kcontext = context_of (link s) i, user_context = 0, state = (if i = 0 then THREAD_READY else THREAD_FREE),
       sleeps_on = 0, pagetable = 0, process_id = - 1, nxt = - 1, attribs = 0\<rparr> else None)" for i
    using assms
    by (auto simp: scheduler_init_def sleepq_init_def thread_table_init_def spinlock_defs Let_def boot_ok_def)
  have hd: "ready_head ?s = - 1" "ready_tail ?s = - 1"
    using assms by (simp_all add: scheduler_init_def sleepq_init_def thread_table_init_def spinlock_defs
        Let_def boot_ok_def)
  have ct: "scheduler_current_thread ?s c = (if 0 \<le> c \<and> c < 4 then Some 0 else None)" for c
    using assms by (auto simp: scheduler_init_def sleepq_init_def thread_table_init_def spinlock_defs
        Let_def boot_ok_def afill_def)
  have ht: "sleepq_hashtable ?s h = (if 0 \<le> h \<and> h < 127 then Some (- 1) else None)" for h
    using assms by (auto simp: scheduler_init_def sleepq_init_def thread_table_init_def spinlock_defs
        Let_def boot_ok_def afill_def)
  have "tables_ok ?s" by (auto simp: tables_ok_def dom_def tt ct ht)
  moreover have "ready_ok ?s []" using hd by (simp add: ready_ok_def)
  moreover have "queues_ok ?s no_queues" by (auto simp: queues_ok_def no_queues_def ht split: if_splits)
  moreover have "current_ok ?s" by (auto simp: current_ok_def ct tt split: if_splits)
  moreover have "threads_ok ?s [] no_queues"
    by (auto simp: threads_ok_def tt ct idle_ok_def thread_ok_def runs_on_def no_queues_def split: if_splits)
  ultimately show ?thesis by (simp add: kinv_def)
qed

end
