(* ===== verification/Semaphore.thy ===== *)
theory Semaphore
  imports Thread
begin

text \<open>
  Semaphores (\<^verbatim>\<open>src/kudos/kernel/semaphore.c\<close>) on top of the sleep queues. A semaphore is named
  by its index in \<open>semaphore_table\<close>; threads sleep on its address. \<open>semaphore_P\<close> that has to
  wait ends at its call of \<open>thread_switch\<close> (\<open>Sleeps\<close>, with the interrupt state it will restore).
  The refinement: a semaphore with its waiters behaves as an abstract counting semaphore with a
  first-in first-out queue.
\<close>

section \<open>Operations\<close>

definition sem_addr :: "layout \<Rightarrow> int \<Rightarrow> u64" where
  "sem_addr l i = semaphore_table_addr l + word_of_int (12 * i)"

definition semaphore_init :: "kstate \<Rightarrow> kstate" where
  "semaphore_init s =
     (let s = spinlock_reset Semaphore_table_slock s
      in s\<lparr>semaphore_table := (\<lambda>i. if 0 \<le> i \<and> i < CONFIG_MAX_SEMAPHORES
           then map_option (\<lambda>m. m\<lparr>sem_creator := - 1\<rparr>) (semaphore_table s i) else semaphore_table s i)\<rparr>)"

text \<open>The search in \<open>semaphore_create\<close>; \<open>None\<close> when the loop ends with \<open>i = CONFIG_MAX_SEMAPHORES\<close>.\<close>

fun semaphore_find :: "nat \<Rightarrow> int \<Rightarrow> kstate \<Rightarrow> (int option \<times> kstate) res" where
  "semaphore_find 0 cpu s = Inr (None, s)"
| "semaphore_find (Suc n) cpu s =
     (let sem_id = sem_next s;
          s = s\<lparr>sem_next := c_mod (sem_next s + 1) CONFIG_MAX_SEMAPHORES\<rparr> in
      rbind (aget (semaphore_table s) sem_id) (\<lambda>m.
      if sem_creator m = - 1 then
        rbind (thread_get_current_thread cpu s) (\<lambda>(t, s).
        Inr (Some sem_id, s\<lparr>semaphore_table := (semaphore_table s)(sem_id \<mapsto> m\<lparr>sem_creator := t\<rparr>)\<rparr>))
      else semaphore_find n cpu s))"

definition semaphore_create :: "int \<Rightarrow> int \<Rightarrow> kstate \<Rightarrow> (int option \<times> kstate) res" where
  "semaphore_create cpu val s =
     rbind (kassert (val \<ge> 0)) (\<lambda>_.
     let (intr_status, s) = interrupt_disable cpu s in
     rbind (spinlock_acquire Semaphore_table_slock s) (\<lambda>s.
     rbind (semaphore_find 128 cpu s) (\<lambda>(found, s).
     let s = interrupt_set_state cpu intr_status (spinlock_release Semaphore_table_slock s) in
     case found of
       None \<Rightarrow> Inr (None, s)
     | Some sem_id \<Rightarrow>
         rbind (aget (semaphore_table s) sem_id) (\<lambda>m.
         Inr (Some sem_id, spinlock_reset (Sem_slock sem_id)
           (s\<lparr>semaphore_table := (semaphore_table s)(sem_id \<mapsto> m\<lparr>sem_value := val\<rparr>)\<rparr>))))))"

definition semaphore_destroy :: "int \<Rightarrow> kstate \<Rightarrow> kstate res" where
  "semaphore_destroy i s =
     rbind (aget (semaphore_table s) i) (\<lambda>m.
     Inr (s\<lparr>semaphore_table := (semaphore_table s)(i \<mapsto> m\<lparr>sem_creator := - 1\<rparr>)\<rparr>))"

datatype sem_wait = Acquired | Sleeps bool

definition semaphore_P :: "int \<Rightarrow> int \<Rightarrow> kstate \<Rightarrow> (sem_wait \<times> kstate) res" where
  "semaphore_P cpu i s =
     (let (intr_status, s) = interrupt_disable cpu s in
      rbind (spinlock_acquire (Sem_slock i) s) (\<lambda>s.
      rbind (aget (semaphore_table s) i) (\<lambda>m.
      let v = c_int (sem_value m - 1);
          s = s\<lparr>semaphore_table := (semaphore_table s)(i \<mapsto> m\<lparr>sem_value := v\<rparr>)\<rparr> in
      if v < 0 then
        rbind (sleepq_add cpu (sem_addr (link s) i) s) (\<lambda>s.
        Inr (Sleeps intr_status, spinlock_release (Sem_slock i) s))
      else
        Inr (Acquired, interrupt_set_state cpu intr_status (spinlock_release (Sem_slock i) s)))))"

text \<open>The rest of \<open>semaphore_P\<close> when the thread runs again.\<close>

definition semaphore_P_resume :: "int \<Rightarrow> bool \<Rightarrow> kstate \<Rightarrow> kstate" where
  "semaphore_P_resume cpu intr_status s = interrupt_set_state cpu intr_status s"

definition semaphore_V :: "int \<Rightarrow> int \<Rightarrow> kstate \<Rightarrow> kstate res" where
  "semaphore_V cpu i s =
     (let (intr_status, s) = interrupt_disable cpu s in
      rbind (spinlock_acquire (Sem_slock i) s) (\<lambda>s.
      rbind (aget (semaphore_table s) i) (\<lambda>m.
      let v = c_int (sem_value m + 1);
          s = s\<lparr>semaphore_table := (semaphore_table s)(i \<mapsto> m\<lparr>sem_value := v\<rparr>)\<rparr> in
      rbind (if v \<le> 0 then sleepq_wake cpu (sem_addr (link s) i) s else Inr s) (\<lambda>s.
      Inr (interrupt_set_state cpu intr_status (spinlock_release (Sem_slock i) s))))))"

section \<open>Semaphore addresses\<close>

definition layout_ok :: "layout \<Rightarrow> bool" where
  "layout_ok l \<longleftrightarrow> 0 < uint (semaphore_table_addr l) \<and> uint (semaphore_table_addr l) + 12 * 128 \<le> 2 ^ 32"

lemma uint_sem_addr:
  assumes "layout_ok l" and "0 \<le> i" and "i < 128"
  shows "uint (sem_addr l i) = uint (semaphore_table_addr l) + 12 * i"
proof -
  let ?b = "uint (semaphore_table_addr l)"
  have "0 \<le> ?b + 12 * i" "?b + 12 * i < 2 ^ 64" using assms by (auto simp: layout_ok_def)
  moreover have "sem_addr l i = word_of_int (?b + 12 * i)" by (simp add: sem_addr_def)
  ultimately show ?thesis by (simp only: uint_word_of_int) simp
qed

lemma sem_addr_ok:
  assumes "layout_ok l" and "0 \<le> i" and "i < 128"
  shows "sem_addr l i \<noteq> 0" and "uint (sem_addr l i) < 2 ^ 32"
proof -
  have "uint (sem_addr l i) = uint (semaphore_table_addr l) + 12 * i" using uint_sem_addr [OF assms] .
  moreover have "0 < uint (semaphore_table_addr l)" using assms(1) by (simp add: layout_ok_def)
  ultimately have "0 < uint (sem_addr l i)" "uint (sem_addr l i) < 2 ^ 32"
    using assms by (auto simp: layout_ok_def)
  then show "sem_addr l i \<noteq> 0" "uint (sem_addr l i) < 2 ^ 32" by auto
qed

lemma sem_addr_inj:
  assumes "layout_ok l" and "0 \<le> i" "i < 128" and "0 \<le> j" "j < 128" and "sem_addr l i = sem_addr l j"
  shows "i = j"
proof -
  have "uint (semaphore_table_addr l) + 12 * i = uint (semaphore_table_addr l) + 12 * j"
    by (simp only: uint_sem_addr [OF assms(1-3), symmetric] uint_sem_addr [OF assms(1,4,5), symmetric] assms(6))
  then show ?thesis by simp
qed

section \<open>The abstract semaphore\<close>

type_synonym asem = "int \<times> tid list"

definition asem_P :: "tid \<Rightarrow> asem \<Rightarrow> asem" where
  "asem_P t a = (case a of (v, q) \<Rightarrow> if v > 0 then (v - 1, q) else (v, q @ [t]))"

definition asem_V :: "asem \<Rightarrow> asem" where
  "asem_V a = (case a of (v, q) \<Rightarrow> (case q of [] \<Rightarrow> (v + 1, []) | _ # q' \<Rightarrow> (v, q')))"

text \<open>The threads waiting for semaphore \<open>i\<close>, in queue order, and the abstraction.\<close>

definition sem_waiters :: "kstate \<Rightarrow> (int \<Rightarrow> tid list) \<Rightarrow> int \<Rightarrow> tid list" where
  "sem_waiters s sq i =
     filter (waits_for s (sem_addr (link s) i)) (sq (sleepq_hash (sem_addr (link s) i)))"

definition abs_sem :: "kstate \<Rightarrow> (int \<Rightarrow> tid list) \<Rightarrow> int \<Rightarrow> asem" where
  "abs_sem s sq i =
     (case semaphore_table s i of
        Some m \<Rightarrow> (max 0 (sem_value m), sem_waiters s sq i) | None \<Rightarrow> (0, []))"

text \<open>A negative value counts the waiters.\<close>

definition sem_ok :: "kstate \<Rightarrow> (int \<Rightarrow> tid list) \<Rightarrow> int \<Rightarrow> bool" where
  "sem_ok s sq i \<longleftrightarrow>
     (\<forall>m. semaphore_table s i = Some m \<longrightarrow> int (length (sem_waiters s sq i)) = max 0 (- sem_value m))"

text \<open>How the waiters of every semaphore change when one thread joins or leaves.\<close>

lemma waits_for_Some: "thread_table s t = Some e \<Longrightarrow> waits_for s r t \<longleftrightarrow> (ucast (sleeps_on e) :: u64) = r"
  by (simp add: waits_for_def)

lemma waits_for_relinked:
  assumes "relinked U tt (thread_table s')" and "tt u = Some e"
  shows "waits_for s' r u \<longleftrightarrow> (ucast (sleeps_on e) :: u64) = r"
  using relinked_Some [OF assms] by (auto simp: waits_for_def)

lemma waits_for_other:
  assumes "relinked U ((thread_table s)(t \<mapsto> e)) (thread_table s')" and "u \<noteq> t"
  shows "waits_for s' r u = waits_for s r u"
proof -
  have "rel_option (\<lambda>e e'. \<exists>n. e' = e\<lparr>nxt := n\<rparr>) (thread_table s u) (thread_table s' u)"
    using assms by (auto simp: relinked_def dest: spec [of _ u])
  then show ?thesis
    by (auto simp: waits_for_def elim: option.rel_cases split: option.splits)
qed

lemma sem_waiters_join:
  assumes rel: "relinked U ((thread_table s)(t \<mapsto> e\<lparr>sleeps_on := ucast r\<rparr>)) (thread_table s')"
    and r: "r \<noteq> 0" "uint r < 2 ^ 32" and off: "\<And>h. t \<notin> set (sq h)" and l: "link s' = link s"
  shows "sem_waiters s' (sq(sleepq_hash r := sq (sleepq_hash r) @ [t])) j =
    (if sem_addr (link s) j = r then sem_waiters s sq j @ [t] else sem_waiters s sq j)"
proof -
  have t: "waits_for s' r' t \<longleftrightarrow> r = r'" for r'
    using waits_for_relinked [OF rel, of t "e\<lparr>sleeps_on := ucast r\<rparr>" r'] resource_cast(3) [OF r] by simp
  have "filter (waits_for s' r') (sq h) = filter (waits_for s r') (sq h)" for r' h
    using waits_for_other [OF rel] off by (metis filter_cong)
  then show ?thesis using t l by (auto simp: sem_waiters_def)
qed

lemma sem_waiters_leave:
  assumes rel: "relinked U ((thread_table s)(t \<mapsto> woken e)) (thread_table s')"
    and sq: "sq (sleepq_hash r) = pre @ t # post" and d: "t \<notin> set pre" "t \<notin> set post"
    and off: "\<And>h. h \<noteq> sleepq_hash r \<Longrightarrow> t \<notin> set (sq h)"
    and w: "waits_for s r t" "\<forall>u \<in> set pre. \<not> waits_for s r u" and l: "link s' = link s"
  shows "sem_waiters s' (sq(sleepq_hash r := pre @ post)) j =
    (if sem_addr (link s) j = r then tl (sem_waiters s sq j) else sem_waiters s sq j)"
    and "sem_addr (link s) j = r \<Longrightarrow> sem_waiters s sq j \<noteq> []"
proof -
  have f: "filter (waits_for s' r') xs = filter (waits_for s r') xs" if "t \<notin> set xs" for r' xs
    using waits_for_other [OF rel] that by (metis filter_cong)
  have nt: "\<not> waits_for s r' t" if "r' \<noteq> r" for r'
    using w(1) that by (auto simp: waits_for_def split: option.splits)
  have p: "filter (waits_for s r) pre = []" using w(2) by (simp add: filter_empty_conv)
  show "sem_waiters s' (sq(sleepq_hash r := pre @ post)) j =
      (if sem_addr (link s) j = r then tl (sem_waiters s sq j) else sem_waiters s sq j)"
    using f [OF d(1)] f [OF d(2)] f [OF off] nt p w(1) l sq
    by (auto simp: sem_waiters_def)
  show "sem_addr (link s) j = r \<Longrightarrow> sem_waiters s sq j \<noteq> []"
    using sq w(1) by (auto simp: sem_waiters_def)
qed

definition sems_ok :: "kstate \<Rightarrow> (int \<Rightarrow> tid list) \<Rightarrow> bool" where
  "sems_ok s sq \<longleftrightarrow> layout_ok (link s) \<and> dom (semaphore_table s) = {0..<CONFIG_MAX_SEMAPHORES} \<and>
     (\<forall>i. sem_ok s sq i)"

lemma sems_ok_Some: "sems_ok s sq \<Longrightarrow> 0 \<le> i \<Longrightarrow> i < 128 \<Longrightarrow> \<exists>m. semaphore_table s i = Some m"
  by (auto simp: sems_ok_def dom_def set_eq_iff)

lemma sem_count:
  "sems_ok s sq \<Longrightarrow> semaphore_table s i = Some m \<Longrightarrow>
   int (length (sem_waiters s sq i)) = max 0 (- sem_value m)"
  by (simp add: sems_ok_def sem_ok_def)

text \<open>The invariant of all semaphores after semaphore \<open>i\<close> and its waiters have changed.\<close>

lemma sems_ok_upd:
  assumes ok: "sems_ok s sq" and i: "0 \<le> i" "i < 128" and l: "link s' = link s"
    and st: "semaphore_table s' = (semaphore_table s)(i \<mapsto> m)"
    and wi: "int (length (sem_waiters s' sq' i)) = max 0 (- sem_value m)"
    and wj: "\<And>j. 0 \<le> j \<Longrightarrow> j < 128 \<Longrightarrow> j \<noteq> i \<Longrightarrow> sem_waiters s' sq' j = sem_waiters s sq j"
  shows "sems_ok s' sq'"
proof -
  have dom: "dom (semaphore_table s) = {0..<128}" using ok by (simp add: sems_ok_def)
  have "sem_ok s' sq' j" for j
  proof (cases "j = i")
    case False
    then have "semaphore_table s' j = semaphore_table s j" using st by simp
    moreover have "sem_ok s sq j" using ok by (simp add: sems_ok_def)
    moreover have "0 \<le> j \<and> j < 128" if "semaphore_table s j = Some n" for n
      using dom that by (auto simp: dom_def set_eq_iff)
    ultimately show ?thesis using wj [of j] False by (auto simp: sem_ok_def)
  qed (use wi st in \<open>simp add: sem_ok_def\<close>)
  then show ?thesis using ok dom i l st by (auto simp: sems_ok_def)
qed

lemma sem_waiters_frame:
  "thread_table s' = thread_table s \<Longrightarrow> link s' = link s \<Longrightarrow> sem_waiters s' sq j = sem_waiters s sq j"
  by (simp add: sem_waiters_def waits_for_def [abs_def])

section \<open>\<open>semaphore_P\<close> and \<open>semaphore_V\<close> refine the abstract operations\<close>

text \<open>What a caller of a semaphore operation may assume: it runs, it is not waiting, no lock is held.\<close>

definition caller_ok :: "int \<Rightarrow> tid \<Rightarrow> kstate \<Rightarrow> bool" where
  "caller_ok cpu t s \<longleftrightarrow> scheduler_current_thread s cpu = Some t \<and> t \<noteq> IDLE_THREAD_TID \<and>
     (case thread_table s t of Some e \<Rightarrow> state e = THREAD_RUNNING \<and> sleeps_on e = 0 | None \<Rightarrow> False)"

definition locks_free :: "kstate \<Rightarrow> bool" where
  "locks_free s \<longleftrightarrow> slocks s = (\<lambda>_. 0)"

lemma semaphore_P_acquires:
  assumes k: "kinv s rq sq" and ok: "sems_ok s sq" and i: "0 \<le> i" "i < 128"
    and m: "semaphore_table s i = Some m" "0 < sem_value m" "sem_value m < 2 ^ 31"
    and l: "locks_free s"
  defines "s' \<equiv> s\<lparr>semaphore_table := (semaphore_table s)(i \<mapsto> m\<lparr>sem_value := sem_value m - 1\<rparr>)\<rparr>"
  shows "semaphore_P cpu i s = Inr (Acquired, s')" and "kinv s' rq sq" and "sems_ok s' sq"
    and "abs_sem s' sq i = asem_P t (abs_sem s sq i)"
proof -
  have "c_int (sem_value m - 1) = sem_value m - 1" using m by (intro c_int_id) auto
  then show "semaphore_P cpu i s = Inr (Acquired, s')"
    using m l
    by (simp add: s'_def semaphore_P_def interrupt_defs spinlock_defs locks_free_def fun_upd_idem Let_def)
  show "kinv s' rq sq" using k by (simp add: s'_def)
  have w: "sem_waiters s' sq j = sem_waiters s sq j" for j
    by (rule sem_waiters_frame) (simp_all add: s'_def)
  have nw: "sem_waiters s sq i = []" using sem_count [OF ok m(1)] m by simp
  show "sems_ok s' sq"
    by (rule sems_ok_upd [OF ok i, of _ "m\<lparr>sem_value := sem_value m - 1\<rparr>"])
      (use w nw m in \<open>simp_all add: s'_def\<close>)
  show "abs_sem s' sq i = asem_P t (abs_sem s sq i)"
    using m w nw by (simp add: abs_sem_def asem_P_def s'_def)
qed

lemma semaphore_P_sleeps:
  assumes k: "kinv s rq sq" and ok: "sems_ok s sq" and i: "0 \<le> i" "i < 128"
    and m: "semaphore_table s i = Some m" "sem_value m \<le> 0" "- (2 ^ 31) < sem_value m"
    and l: "locks_free s" and c: "caller_ok cpu t s"
  defines "h \<equiv> sleepq_hash (sem_addr (link s) i)"
  shows "\<exists>s'. semaphore_P cpu i s = Inr (Sleeps (intr_enabled s cpu), s') \<and>
    kinv s' rq (sq(h := sq h @ [t])) \<and> sems_ok s' (sq(h := sq h @ [t])) \<and>
    abs_sem s' (sq(h := sq h @ [t])) i = asem_P t (abs_sem s sq i) \<and>
    (\<forall>j. 0 \<le> j \<and> j < 128 \<and> j \<noteq> i \<longrightarrow> abs_sem s' (sq(h := sq h @ [t])) j = abs_sem s sq j) \<and>
    locks_free s' \<and> intr_enabled s' = (intr_enabled s)(cpu := False) \<and>
    scheduler_current_thread s' = scheduler_current_thread s \<and> link s' = link s \<and>
    semaphore_table s' = (semaphore_table s)(i \<mapsto> m\<lparr>sem_value := sem_value m - 1\<rparr>) \<and>
    sem_next s' = sem_next s \<and> next_tid s' = next_tid s"
proof -
  let ?r = "sem_addr (link s) i" and ?m = "m\<lparr>sem_value := sem_value m - 1\<rparr>"
  let ?s1 = "s\<lparr>intr_enabled := (intr_enabled s)(cpu := False), slocks := (slocks s)(Sem_slock i := 1),
      semaphore_table := (semaphore_table s)(i \<mapsto> ?m)\<rparr>"
  have lay: "layout_ok (link s)" using ok by (simp add: sems_ok_def)
  note r = sem_addr_ok [OF lay i]
  obtain e where e: "scheduler_current_thread s cpu = Some t" "t \<noteq> 0" "thread_table s t = Some e"
      "state e = THREAD_RUNNING" "sleeps_on e = 0"
    using c by (auto simp: caller_ok_def split: option.splits)
  have cv: "c_int (sem_value m - 1) = sem_value m - 1" using m by (intro c_int_id) auto
  have off: "t \<notin> set (sq h')" for h' using kinv_sleep_member [OF k, of t h'] e by auto
  have k1: "kinv ?s1 rq sq" using k by simp
  obtain tt ht where a: "sleepq_add cpu ?r ?s1 = Inr (?s1\<lparr>thread_table := tt, sleepq_hashtable := ht\<rparr>)"
      "kinv (?s1\<lparr>thread_table := tt, sleepq_hashtable := ht\<rparr>) rq (sq(h := sq h @ [t]))"
      "relinked (insert t (set (sq h))) ((thread_table ?s1)(t \<mapsto> e\<lparr>sleeps_on := ucast ?r\<rparr>)) tt"
    using sleepq_add_spec [OF k1, of cpu t e ?r] e l r by (auto simp: h_def locks_free_def)
  let ?s = "s\<lparr>intr_enabled := (intr_enabled s)(cpu := False), semaphore_table := (semaphore_table s)(i \<mapsto> ?m),
      thread_table := tt, sleepq_hashtable := ht\<rparr>"
  let ?sq = "sq(h := sq h @ [t])"
  have P: "semaphore_P cpu i s = Inr (Sleeps (intr_enabled s cpu), ?s)"
    using a(1) m l cv
    by (simp add: semaphore_P_def interrupt_defs spinlock_defs locks_free_def fun_upd_idem Let_def)
  have k2: "kinv ?s rq ?sq" using a(2) by (rule kinv_frameI) simp_all
  have w: "sem_waiters ?s ?sq j = (if sem_addr (link s) j = ?r then sem_waiters s sq j @ [t] else sem_waiters s sq j)" for j
    unfolding h_def
    by (rule sem_waiters_join [where U = "insert t (set (sq h))" and e = e, OF _ r off])
      (use a(3) in simp_all)
  have wj: "sem_waiters ?s ?sq j = sem_waiters s sq j" if "0 \<le> j" "j < 128" "j \<noteq> i" for j
    using w [of j] sem_addr_inj [OF lay i that(1,2)] that(3) by auto
  have wi: "sem_waiters ?s ?sq i = sem_waiters s sq i @ [t]" using w [of i] by simp
  have li: "int (length (sem_waiters s sq i)) = - sem_value m" using ok m by (simp add: sems_ok_def sem_ok_def)
  have "sems_ok ?s ?sq"
    by (rule sems_ok_upd [OF ok i, of _ ?m]) (use wi wj li m in simp_all)
  moreover have "abs_sem ?s ?sq i = asem_P t (abs_sem s sq i)"
    using m wi by (simp add: abs_sem_def asem_P_def)
  moreover have "abs_sem ?s ?sq j = abs_sem s sq j" if "0 \<le> j" "j < 128" "j \<noteq> i" for j
    using wj [OF that] that(3) by (simp add: abs_sem_def split: option.split)
  ultimately show ?thesis using P k2 l by (intro exI [of _ ?s]) (simp add: locks_free_def)
qed

lemma semaphore_V_no_waiter:
  assumes k: "kinv s rq sq" and ok: "sems_ok s sq" and i: "0 \<le> i" "i < 128"
    and m: "semaphore_table s i = Some m" "0 \<le> sem_value m" "sem_value m < 2 ^ 31 - 1"
    and l: "locks_free s"
  defines "s' \<equiv> s\<lparr>semaphore_table := (semaphore_table s)(i \<mapsto> m\<lparr>sem_value := sem_value m + 1\<rparr>)\<rparr>"
  shows "semaphore_V cpu i s = Inr s'" and "kinv s' rq sq" and "sems_ok s' sq"
    and "abs_sem s' sq i = asem_V (abs_sem s sq i)"
proof -
  have "c_int (sem_value m + 1) = sem_value m + 1" using m by (intro c_int_id) auto
  then show "semaphore_V cpu i s = Inr s'"
    using m l
    by (simp add: s'_def semaphore_V_def interrupt_defs spinlock_defs locks_free_def fun_upd_idem Let_def)
  show "kinv s' rq sq" using k by (simp add: s'_def)
  have w: "sem_waiters s' sq j = sem_waiters s sq j" for j
    by (rule sem_waiters_frame) (simp_all add: s'_def)
  have nw: "sem_waiters s sq i = []" using sem_count [OF ok m(1)] m by simp
  show "sems_ok s' sq"
    by (rule sems_ok_upd [OF ok i, of _ "m\<lparr>sem_value := sem_value m + 1\<rparr>"])
      (use w nw m in \<open>simp_all add: s'_def\<close>)
  show "abs_sem s' sq i = asem_V (abs_sem s sq i)"
    using m w nw by (simp add: abs_sem_def asem_V_def s'_def)
qed

text \<open>With waiters, the first of them leaves the sleep queue and becomes ready if it is asleep.\<close>

lemma semaphore_V_wakes:
  assumes k: "kinv s rq sq" and ok: "sems_ok s sq" and i: "0 \<le> i" "i < 128"
    and m: "semaphore_table s i = Some m" "sem_value m < 0" "- (2 ^ 31) \<le> sem_value m"
    and l: "locks_free s"
  shows "\<exists>s' sq' t e. semaphore_V cpu i s = Inr s' \<and> kinv s' (put_ready e t rq) sq' \<and> sems_ok s' sq' \<and>
    thread_table s t = Some e \<and> t = hd (sem_waiters s sq i) \<and>
    (\<exists>e'. thread_table s' t = Some e' \<and> sleeps_on e' = 0) \<and>
    abs_sem s' sq' i = asem_V (abs_sem s sq i) \<and>
    (\<forall>j. 0 \<le> j \<and> j < 128 \<and> j \<noteq> i \<longrightarrow> abs_sem s' sq' j = abs_sem s sq j) \<and>
    locks_free s' \<and> intr_enabled s' = intr_enabled s \<and>
    scheduler_current_thread s' = scheduler_current_thread s \<and> link s' = link s \<and>
    semaphore_table s' = (semaphore_table s)(i \<mapsto> m\<lparr>sem_value := sem_value m + 1\<rparr>) \<and>
    sem_next s' = sem_next s \<and> next_tid s' = next_tid s"
proof -
  let ?r = "sem_addr (link s) i" and ?m = "m\<lparr>sem_value := sem_value m + 1\<rparr>"
  let ?h = "sleepq_hash ?r"
  let ?s1 = "s\<lparr>intr_enabled := (intr_enabled s)(cpu := False), slocks := (slocks s)(Sem_slock i := 1),
      semaphore_table := (semaphore_table s)(i \<mapsto> ?m)\<rparr>"
  have lay: "layout_ok (link s)" using ok by (simp add: sems_ok_def)
  have cv: "c_int (sem_value m + 1) = sem_value m + 1" using m by (intro c_int_id) auto
  have cnt: "int (length (sem_waiters s sq i)) = - sem_value m" using sem_count [OF ok m(1)] m by simp
  then have "sem_waiters s sq i \<noteq> []" using m by auto
  then obtain pre t post where sq: "sq ?h = pre @ t # post" and w: "\<forall>u \<in> set pre. \<not> waits_for s ?r u" "waits_for s ?r t"
    unfolding sem_waiters_def filter_empty_conv by (metis split_list_first_prop)
  have hd: "t = hd (sem_waiters s sq i)"
    using sq w filter_False [of pre "waits_for s ?r"] by (simp add: sem_waiters_def)
  have inh: "t \<in> set (sq ?h)" using sq by simp
  obtain e where e: "thread_table s t = Some e" using kinv_sleep_member [OF k inh] by auto
  obtain x where "chain (thread_table s) x (sq ?h)" using kinv_slot [OF k, of ?h] by auto
  then have d: "t \<notin> set pre" "t \<notin> set post" using chain_distinct sq by fastforce+
  have k1: "kinv ?s1 rq sq" and e1: "thread_table ?s1 t = Some e" using k e by simp_all
  have w1: "\<forall>u \<in> set pre. \<not> waits_for ?s1 ?r u" "waits_for ?s1 ?r t" using w by (simp_all add: waits_for_def)
  have l1: "slocks ?s1 Sleepq_slock = 0" "slocks ?s1 Thread_table_slock = 0" using l by (simp_all add: locks_free_def)
  obtain tt h0 tl0 ht U where a: "sleepq_wake cpu ?r ?s1 =
        Inr (?s1\<lparr>thread_table := tt, ready_head := h0, ready_tail := tl0, sleepq_hashtable := ht\<rparr>)"
      "kinv (?s1\<lparr>thread_table := tt, ready_head := h0, ready_tail := tl0, sleepq_hashtable := ht\<rparr>)
        (put_ready e t rq) (sq(?h := pre @ post))"
      "relinked U ((thread_table ?s1)(t \<mapsto> woken e)) tt"
    using sleepq_wake_first [OF k1 l1 sq w1 e1, of cpu] by blast
  let ?s = "s\<lparr>semaphore_table := (semaphore_table s)(i \<mapsto> ?m),
      thread_table := tt, ready_head := h0, ready_tail := tl0, sleepq_hashtable := ht\<rparr>"
  let ?sq = "sq(?h := pre @ post)"
  have V: "semaphore_V cpu i s = Inr ?s"
    using a(1) m l cv
    by (simp add: semaphore_V_def interrupt_defs spinlock_defs locks_free_def fun_upd_idem Let_def)
  have k2: "kinv ?s (put_ready e t rq) ?sq" using a(2) by (rule kinv_frameI) simp_all
  have rel: "relinked U ((thread_table s)(t \<mapsto> woken e)) (thread_table ?s)" using a(3) by simp
  obtain n where n: "tt t = Some ((woken e)\<lparr>nxt := n\<rparr>)" using relinked_Some [OF rel, of t] by auto
  have off: "t \<notin> set (sq h)" if "h \<noteq> ?h" for h using kinv_sleep_unique [OF k inh] that by blast
  have lnk: "link ?s = link s" by simp
  note leave = sem_waiters_leave [where r = ?r and sq = sq, OF rel sq d off w(2,1) lnk]
  have wj: "sem_waiters ?s ?sq j = sem_waiters s sq j" if "0 \<le> j" "j < 128" "j \<noteq> i" for j
    using leave(1) [of j] sem_addr_inj [OF lay i that(1,2)] that(3) by auto
  have wi: "sem_waiters ?s ?sq i = tl (sem_waiters s sq i)" using leave(1) [of i] by simp
  have "sems_ok ?s ?sq"
    by (rule sems_ok_upd [OF ok i, of _ ?m]) (use wi wj cnt m in \<open>simp_all add: of_nat_diff\<close>)
  moreover have "abs_sem ?s ?sq i = asem_V (abs_sem s sq i)"
    using m wi leave(2) [of i] by (simp add: abs_sem_def asem_V_def split: list.split)
  moreover have "abs_sem ?s ?sq j = abs_sem s sq j" if "0 \<le> j" "j < 128" "j \<noteq> i" for j
    using wj [OF that] that(3) by (simp add: abs_sem_def split: option.split)
  ultimately show ?thesis
    using V k2 l e n hd
    by (intro exI [of _ ?s] exI [of _ ?sq] exI [of _ t] exI [of _ e]) (simp add: locks_free_def woken_def)
qed

section \<open>Creating semaphores\<close>

definition sem_free :: "kstate \<Rightarrow> int \<Rightarrow> bool" where
  "sem_free s i = (case semaphore_table s i of Some m \<Rightarrow> sem_creator m = - 1 | None \<Rightarrow> False)"

lemma semaphore_find_spec:
  "dom (semaphore_table s) = {0..<128} \<Longrightarrow> 0 \<le> sem_next s \<Longrightarrow> sem_next s < 128 \<Longrightarrow>
   scheduler_current_thread s cpu = Some t \<Longrightarrow>
   (semaphore_find n cpu s = Inr (None, s\<lparr>sem_next := (sem_next s + int n) mod 128\<rparr>) \<and>
     (\<forall>k. 0 \<le> k \<and> k < int n \<longrightarrow> \<not> sem_free s ((sem_next s + k) mod 128))) \<or>
   (\<exists>i m. semaphore_table s i = Some m \<and> sem_creator m = - 1 \<and>
     semaphore_find n cpu s = Inr (Some i, s\<lparr>sem_next := (i + 1) mod 128,
       semaphore_table := (semaphore_table s)(i \<mapsto> m\<lparr>sem_creator := t\<rparr>)\<rparr>))"
proof (induction n arbitrary: s)
  case (Suc n)
  let ?i = "sem_next s" and ?s = "s\<lparr>sem_next := (sem_next s + 1) mod 128\<rparr>"
  have "?i \<in> dom (semaphore_table s)" using Suc.prems by simp
  then obtain m where m: "semaphore_table s ?i = Some m" by blast
  have md: "c_mod (?i + 1) 128 = (?i + 1) mod 128" using Suc.prems by simp
  show ?case
  proof (cases "sem_creator m = - 1")
    case True
    then have "semaphore_find (Suc n) cpu s = Inr (Some ?i, s\<lparr>sem_next := (?i + 1) mod 128,
        semaphore_table := (semaphore_table s)(?i \<mapsto> m\<lparr>sem_creator := t\<rparr>)\<rparr>)"
      using m md Suc.prems(4) by (simp add: Let_def)
    then show ?thesis using m True by blast
  next
    case False
    have step: "semaphore_find (Suc n) cpu s = semaphore_find n cpu ?s"
      using False m md by simp
    have sf: "sem_free ?s j = sem_free s j" for j by (simp add: sem_free_def)
    have nf: "\<not> sem_free s ?i" using False m by (simp add: sem_free_def)
    have shift: "\<not> sem_free s ((?i + k) mod 128)"
      if "\<forall>k. 0 \<le> k \<and> k < int n \<longrightarrow> \<not> sem_free s (((?i + 1) mod 128 + k) mod 128)"
        "0 \<le> k" "k < int (Suc n)" for k
    proof (cases "k = 0")
      case True
      then show ?thesis using nf Suc.prems by simp
    next
      case False
      then have "\<not> sem_free s (((?i + 1) mod 128 + (k - 1)) mod 128)" using that by auto
      then show ?thesis by (simp add: mod_simps)
    qed
    have wrap: "((?i + 1) mod 128 + int n) mod 128 = (?i + int (Suc n)) mod 128"
      by (simp add: mod_simps algebra_simps)
    show ?thesis
      using Suc.IH [of ?s] Suc.prems shift wrap unfolding step by (auto simp: sf)
  qed
qed auto

lemma semaphore_create_full:
  assumes "dom (semaphore_table s) = {0..<128}" and "0 \<le> sem_next s" "sem_next s < 128"
    and "scheduler_current_thread s cpu = Some t" and "locks_free s" and "0 \<le> v" and "\<forall>i. \<not> sem_free s i"
  shows "semaphore_create cpu v s = Inr (None, s)"
proof -
  let ?s = "s\<lparr>intr_enabled := (intr_enabled s)(cpu := False), slocks := (slocks s)(Semaphore_table_slock := 1)\<rparr>"
  have nf: "\<not> (semaphore_table s i = Some m \<and> sem_creator m = - 1)" for i m
    using assms(7) by (auto simp: sem_free_def dest: spec [of _ i])
  have "semaphore_find 128 cpu ?s = Inr (None, ?s\<lparr>sem_next := (sem_next ?s + int 128) mod 128\<rparr>)"
    using semaphore_find_spec [of ?s cpu t 128] assms(1-4) nf by auto
  then show ?thesis
    using assms by (simp add: semaphore_create_def interrupt_defs spinlock_defs locks_free_def fun_upd_idem)
qed

lemma semaphore_create_some:
  assumes "dom (semaphore_table s) = {0..<128}" and "0 \<le> sem_next s" "sem_next s < 128"
    and "scheduler_current_thread s cpu = Some t" and "locks_free s" and "0 \<le> v" and free: "sem_free s j"
  shows "\<exists>i m. semaphore_table s i = Some m \<and> sem_creator m = - 1 \<and>
    semaphore_create cpu v s = Inr (Some i, s\<lparr>sem_next := (i + 1) mod 128,
      semaphore_table := (semaphore_table s)(i \<mapsto> m\<lparr>sem_creator := t, sem_value := v\<rparr>)\<rparr>)"
proof -
  let ?s = "s\<lparr>intr_enabled := (intr_enabled s)(cpu := False), slocks := (slocks s)(Semaphore_table_slock := 1)\<rparr>"
  have j: "0 \<le> j" "j < 128" using free assms(1) by (auto simp: sem_free_def dom_def set_eq_iff split: option.splits)
  have "\<not> (\<forall>k. 0 \<le> k \<and> k < int 128 \<longrightarrow> \<not> sem_free ?s ((sem_next ?s + k) mod 128))"
  proof -
    have "(sem_next ?s + (j - sem_next s) mod 128) mod 128 = j" using j by (simp add: mod_simps)
    moreover have "0 \<le> (j - sem_next s) mod 128" "(j - sem_next s) mod 128 < int 128" by simp_all
    moreover have "sem_free ?s j" using free by (simp add: sem_free_def)
    ultimately show ?thesis by metis
  qed
  then obtain i m where "semaphore_table s i = Some m" "sem_creator m = - 1"
      "semaphore_find 128 cpu ?s = Inr (Some i, ?s\<lparr>sem_next := (i + 1) mod 128,
        semaphore_table := (semaphore_table ?s)(i \<mapsto> m\<lparr>sem_creator := t\<rparr>)\<rparr>)"
    using semaphore_find_spec [of ?s cpu t 128] assms(1-4) by auto
  then show ?thesis
    using assms by (intro exI [of _ i] exI [of _ m])
      (simp add: semaphore_create_def interrupt_defs spinlock_defs locks_free_def fun_upd_idem Let_def)
qed

end
