(* ===== verification/Kernel_Steps.thy ===== *)
theory Kernel_Steps
  imports Semaphore
begin

text \<open>
  The thread subsystem as a transition system: every kernel entry point that changes threads,
  queues or semaphores is a step, taken by any CPU, in any order. Each operation runs with
  interrupts off and under its spinlock, so a step is the whole operation. The theory shows that
  the invariant holds in every state reachable from start-up, and that in such a state no
  operation panics, leaves an array, follows a cycle or spins on a lock.
\<close>

section \<open>What scheduling leaves alone\<close>

definition sem_view ::
  "kstate \<Rightarrow> (int \<Rightarrow> u32 option) \<times> layout \<times> (int \<rightharpoonup> semaphore) \<times> int \<times> tid" where
  "sem_view s = ((\<lambda>t. map_option sleeps_on (thread_table s t)), link s, semaphore_table s, sem_next s, next_tid s)"

lemma sem_view_frame [simp]:
  "sem_view (s\<lparr>slocks := l\<rparr>) = sem_view s" "sem_view (s\<lparr>intr_enabled := i\<rparr>) = sem_view s"
  "sem_view (s\<lparr>timer := ti\<rparr>) = sem_view s" "sem_view (s\<lparr>kmem := m\<rparr>) = sem_view s"
  "sem_view (s\<lparr>ready_head := t\<rparr>) = sem_view s" "sem_view (s\<lparr>ready_tail := t\<rparr>) = sem_view s"
  "sem_view (s\<lparr>scheduler_current_thread := c\<rparr>) = sem_view s"
  by (simp_all add: sem_view_def)

lemma sem_view_upd_thread:
  assumes "upd_thread t f s = Inr s'" and "\<And>e. sleeps_on (f e) = sleeps_on e"
  shows "sem_view s' = sem_view s"
  using assms by (auto simp: upd_thread_def rbind_eq_Inr aget_eq_Inr sem_view_def)

lemma sem_view_locks [simp]:
  "spinlock_acquire l s = Inr s' \<Longrightarrow> sem_view s' = sem_view s"
  "sem_view (spinlock_release l s) = sem_view s"
  "sem_view (interrupt_set_state cpu b s) = sem_view s"
  "sem_view (timer_set_ticks cpu n s) = sem_view s"
  by (auto simp: spinlock_defs interrupt_defs timer_set_ticks_eq split: if_splits)

lemma sem_view_add_to_ready_list:
  assumes "scheduler_add_to_ready_list t s = Inr s'"
  shows "sem_view s' = sem_view s"
proof (cases "ready_tail s < 0")
  case True
  then have "upd_thread t (\<lambda>e. e\<lparr>nxt := - 1\<rparr>) (s\<lparr>ready_head := t, ready_tail := t\<rparr>) = Inr s'"
    using assms by (simp add: scheduler_add_to_ready_list_def rbind_eq_Inr)
  then show ?thesis by (auto dest: sem_view_upd_thread)
next
  case False
  then obtain s1 s2 where "upd_thread (ready_tail s) (\<lambda>e. e\<lparr>nxt := t\<rparr>) s = Inr s1"
      "upd_thread t (\<lambda>e. e\<lparr>nxt := - 1\<rparr>) s1 = Inr s2" "s' = s2\<lparr>ready_tail := t\<rparr>"
    using assms by (auto simp: scheduler_add_to_ready_list_def rbind_eq_Inr)
  then show ?thesis by (auto dest!: sem_view_upd_thread)
qed

lemma sem_view_retire:
  assumes "schedule_retire cur s = Inr s'"
  shows "sem_view s' = sem_view s"
proof -
  obtain e where r: "get_thread cur s = Inr e" using assms by (auto simp: schedule_retire_def rbind_eq_Inr)
  show ?thesis
    using assms r
    by (auto simp: schedule_retire_def rbind_eq_Inr split: if_splits
        dest!: sem_view_upd_thread sem_view_add_to_ready_list)
qed

lemma sem_view_remove_first:
  "scheduler_remove_first_ready s = Inr (t, s') \<Longrightarrow> sem_view s' = sem_view s"
  by (auto simp: scheduler_remove_first_ready_def rbind_eq_Inr Let_def split: if_splits)

lemma sem_view_schedule:
  assumes "scheduler_schedule cpu rnd s = Inr s'"
  shows "sem_view s' = sem_view s"
  using assms
  by (auto simp: scheduler_schedule_def rbind_eq_Inr Let_def
      dest!: sem_view_upd_thread sem_view_retire sem_view_remove_first)

lemma sem_view_add_ready:
  assumes "scheduler_add_ready cpu t s = Inr s'"
  shows "sem_view s' = sem_view s"
  using assms
  by (auto simp: scheduler_add_ready_def rbind_eq_Inr interrupt_disable_def
      dest!: sem_view_upd_thread sem_view_add_to_ready_list)

lemma sem_waiters_view:
  assumes "sem_view s' = sem_view s"
  shows "sem_waiters s' sq i = sem_waiters s sq i"
proof -
  have v: "map_option sleeps_on (thread_table s' t) = map_option sleeps_on (thread_table s t)" for t
    using assms by (simp add: sem_view_def fun_eq_iff)
  have "waits_for s' r t = waits_for s r t" for r t
    using v [of t] by (auto simp: waits_for_def split: option.splits)
  then have "waits_for s' = waits_for s" by blast
  moreover have "link s' = link s" using assms by (simp add: sem_view_def)
  ultimately show ?thesis by (simp add: sem_waiters_def)
qed

lemma sems_ok_view:
  assumes "sem_view s' = sem_view s" and "sems_ok s sq"
  shows "sems_ok s' sq"
proof -
  have "semaphore_table s' = semaphore_table s" "link s' = link s" using assms(1) by (simp_all add: sem_view_def)
  then show ?thesis
    using assms(2) sem_waiters_view [OF assms(1)] by (simp add: sems_ok_def sem_ok_def)
qed

section \<open>Steps\<close>

definition cpu_ok :: "int \<Rightarrow> bool" where
  "cpu_ok cpu \<longleftrightarrow> 0 \<le> cpu \<and> cpu < CONFIG_MAX_CPUS"

definition sem_id :: "int \<Rightarrow> bool" where
  "sem_id i \<longleftrightarrow> 0 \<le> i \<and> i < CONFIG_MAX_SEMAPHORES"

text \<open>A resource of a driver: an address below 4 GB that is not a semaphore.\<close>

definition dev_resource :: "kstate \<Rightarrow> u64 \<Rightarrow> bool" where
  "dev_resource s r \<longleftrightarrow> r \<noteq> 0 \<and> uint r < 2 ^ 32 \<and> (\<forall>i. sem_id i \<longrightarrow> sem_addr (link s) i \<noteq> r)"

definition thread_in :: "kstate \<Rightarrow> tid \<Rightarrow> (thread_entry \<Rightarrow> bool) \<Rightarrow> bool" where
  "thread_in s t P = (case thread_table s t of Some e \<Rightarrow> P e | None \<Rightarrow> False)"

definition sem_in :: "kstate \<Rightarrow> int \<Rightarrow> (semaphore \<Rightarrow> bool) \<Rightarrow> bool" where
  "sem_in s i P = (case semaphore_table s i of Some m \<Rightarrow> P m | None \<Rightarrow> False)"

datatype kop =
  Create int u64 u32
| Run int tid
| Schedule int u32
| Finish int tid
| Sem_create int int
| Sem_destroy int
| Sem_P int tid int
| Sem_V int int
| Dev_sleep int tid u64
| Dev_wake int u64
| Intr "int \<Rightarrow> bool"

text \<open>The use the kernel makes of each operation, and the state after it.\<close>

definition kguard :: "kop \<Rightarrow> kstate \<Rightarrow> bool" where
  "kguard p s = (case p of
     Create cpu func arg \<Rightarrow> cpu_ok cpu
   | Run cpu t \<Rightarrow> cpu_ok cpu \<and> t \<noteq> IDLE_THREAD_TID \<and> thread_in s t (\<lambda>e. state e = THREAD_NONREADY)
   | Schedule cpu rnd \<Rightarrow> cpu_ok cpu
   | Finish cpu t \<Rightarrow> cpu_ok cpu \<and> caller_ok cpu t s \<and> thread_in s t (\<lambda>e. pagetable e = 0)
   | Sem_create cpu v \<Rightarrow> cpu_ok cpu \<and> 0 \<le> v \<and> v < 2 ^ 31
   | Sem_destroy i \<Rightarrow> sem_id i \<and> sem_in s i (\<lambda>m. sem_value m \<ge> 0)
   | Sem_P cpu t i \<Rightarrow> cpu_ok cpu \<and> sem_id i \<and> caller_ok cpu t s \<and> sem_in s i (\<lambda>m. sem_creator m \<noteq> - 1)
   | Sem_V cpu i \<Rightarrow> cpu_ok cpu \<and> sem_id i \<and> sem_in s i (\<lambda>m. sem_value m < 2 ^ 31 - 1)
   | Dev_sleep cpu t r \<Rightarrow> cpu_ok cpu \<and> caller_ok cpu t s \<and> \<not> intr_enabled s cpu \<and> dev_resource s r
   | Dev_wake cpu r \<Rightarrow> cpu_ok cpu \<and> dev_resource s r
   | Intr f \<Rightarrow> True)"

definition kdo :: "kop \<Rightarrow> kstate \<Rightarrow> kstate res" where
  "kdo p s = (case p of
     Create cpu func arg \<Rightarrow> rbind (thread_create cpu func arg s) (\<lambda>(_, s). Inr s)
   | Run cpu t \<Rightarrow> thread_run cpu t s
   | Schedule cpu rnd \<Rightarrow> scheduler_schedule cpu rnd s
   | Finish cpu t \<Rightarrow> thread_finish cpu s
   | Sem_create cpu v \<Rightarrow> rbind (semaphore_create cpu v s) (\<lambda>(_, s). Inr s)
   | Sem_destroy i \<Rightarrow> semaphore_destroy i s
   | Sem_P cpu t i \<Rightarrow> rbind (semaphore_P cpu i s) (\<lambda>(_, s). Inr s)
   | Sem_V cpu i \<Rightarrow> semaphore_V cpu i s
   | Dev_sleep cpu t r \<Rightarrow> sleepq_add cpu r s
   | Dev_wake cpu r \<Rightarrow> sleepq_wake_all cpu r s
   | Intr f \<Rightarrow> Inr (s\<lparr>intr_enabled := f\<rparr>))"

inductive kstep :: "kstate \<Rightarrow> kstate \<Rightarrow> bool" where
  kstep: "kguard p s \<Longrightarrow> kdo p s = Inr s' \<Longrightarrow> kstep s s'"

inductive_cases kstepE: "kstep s s'"

text \<open>Start-up, in the order of \<^verbatim>\<open>src/kudos/init/x86_64/main.c\<close>.\<close>

definition kernel_start :: "kstate \<Rightarrow> kstate" where
  "kernel_start s = scheduler_init (semaphore_init (sleepq_init (thread_table_init s)))"

inductive reachable :: "kstate \<Rightarrow> kstate \<Rightarrow> bool" for s0 where
  reach_start: "reachable s0 (kernel_start s0)"
| reach_step: "reachable s0 s \<Longrightarrow> kstep s s' \<Longrightarrow> reachable s0 s'"

section \<open>The invariant of the whole subsystem\<close>

definition kgood :: "kstate \<Rightarrow> tid list \<Rightarrow> (int \<Rightarrow> tid list) \<Rightarrow> bool" where
  "kgood s rq sq \<longleftrightarrow> kinv s rq sq \<and> sems_ok s sq \<and> locks_free s \<and> 0 \<le> next_tid s \<and>
     0 \<le> sem_next s \<and> sem_next s < CONFIG_MAX_SEMAPHORES \<and>
     (\<forall>i m. semaphore_table s i = Some m \<longrightarrow>
        sem_value m < 2 ^ 31 \<and> (sem_creator m = - 1 \<longrightarrow> sem_value m \<ge> 0))"

lemma kgood_view:
  assumes "kgood s rq sq" and "sem_view s' = sem_view s" and "kinv s' rq' sq" and "locks_free s'"
  shows "kgood s' rq' sq"
proof -
  have "semaphore_table s' = semaphore_table s" "sem_next s' = sem_next s" "next_tid s' = next_tid s"
    using assms(2) by (simp_all add: sem_view_def)
  then show ?thesis
    using assms(1,3,4) sems_ok_view [OF assms(2)] unfolding kgood_def by auto
qed

lemma kgoodD:
  assumes "kgood s rq sq"
  shows "kinv s rq sq" "sems_ok s sq" "locks_free s" "0 \<le> next_tid s"
    and "slocks s l = 0" "layout_ok (link s)" "dom (semaphore_table s) = {0..<128}"
  using assms by (auto simp: kgood_def locks_free_def sems_ok_def)

lemma sem_value_lower:
  assumes "kgood s rq sq" and m: "semaphore_table s i = Some m"
  shows "- 31 \<le> sem_value m"
proof -
  note k = kgoodD [OF assms(1)]
  let ?r = "sem_addr (link s) i"
  obtain x where "chain (thread_table s) x (sq (sleepq_hash ?r))"
    using kinv_slot [OF k(1), of "sleepq_hash ?r"] by auto
  then have "length (sq (sleepq_hash ?r)) \<le> 31" using chain_length [OF k(1)] by blast
  then have "length (sem_waiters s sq i) \<le> 31"
    unfolding sem_waiters_def using length_filter_le le_trans by blast
  then show ?thesis using sem_count [OF k(2) m] by simp
qed

lemma callerD:
  assumes "caller_ok cpu t s"
  shows "\<exists>e. scheduler_current_thread s cpu = Some t \<and> t \<noteq> 0 \<and> thread_table s t = Some e \<and>
    state e = THREAD_RUNNING \<and> sleeps_on e = 0"
  using assms by (auto simp: caller_ok_def split: option.splits)

lemma step_create:
  assumes g: "kgood s rq sq"
  shows "\<exists>s'. kdo (Create cpu func arg) s = Inr s' \<and> kgood s' rq sq"
proof (cases "\<exists>u. is_free s u")
  case False
  then show ?thesis
    using thread_create_none [OF kgoodD(1,4,5) [OF g]] g by (simp add: kdo_def)
next
  case True
  then obtain u where "is_free s u" by blast
  then obtain t e e' m where t: "is_free s t" "thread_table s t = Some e" "0 < t" "sleeps_on e' = 0"
      "thread_create cpu func arg s = Inr (t, s\<lparr>next_tid := (t + 1) mod 32,
        thread_table := (thread_table s)(t \<mapsto> e'), kmem := m\<rparr>)"
      "kinv (s\<lparr>next_tid := (t + 1) mod 32, thread_table := (thread_table s)(t \<mapsto> e'), kmem := m\<rparr>) rq sq"
    using thread_create_some [OF kgoodD(1,4,5) [OF g], of u cpu func arg] by blast
  let ?s1 = "s\<lparr>thread_table := (thread_table s)(t \<mapsto> e'), kmem := m\<rparr>"
  have e: "state e = THREAD_FREE" using t(1,2) by (simp add: is_free_def)
  have "sleeps_on e = 0" using kinv_parked(4) [OF kgoodD(1) [OF g] t(2)] t(3) e by simp
  then have "sem_view ?s1 = sem_view s" using t(2,4) by (auto simp: sem_view_def)
  moreover have "kinv ?s1 rq sq" using t(6) by (rule kinv_frameI) simp_all
  moreover have "locks_free ?s1" using g by (simp add: kgood_def locks_free_def)
  ultimately have "kgood ?s1 rq sq" using kgood_view [OF g] by blast
  then have "kgood (?s1\<lparr>next_tid := (t + 1) mod 32\<rparr>) rq sq"
    using t(3) by (simp add: kgood_def locks_free_def sems_ok_def sem_ok_def sem_waiters_def waits_for_def [abs_def])
  moreover have "?s1\<lparr>next_tid := (t + 1) mod 32\<rparr> =
      s\<lparr>next_tid := (t + 1) mod 32, thread_table := (thread_table s)(t \<mapsto> e'), kmem := m\<rparr>" by simp
  ultimately have "kgood (s\<lparr>next_tid := (t + 1) mod 32, thread_table := (thread_table s)(t \<mapsto> e'),
      kmem := m\<rparr>) rq sq" by (simp only:)
  then show ?thesis using t(5) by (simp add: kdo_def)
qed

lemma step_run:
  assumes g: "kgood s rq sq" and p: "kguard (Run cpu t) s"
  shows "\<exists>s'. kdo (Run cpu t) s = Inr s' \<and> kgood s' (rq @ [t]) sq"
proof -
  obtain e where e: "thread_table s t = Some e" "t \<noteq> 0" "state e = THREAD_NONREADY"
    using p by (auto simp: kguard_def thread_in_def split: option.splits)
  obtain tt h0 where a: "scheduler_add_ready cpu t s = Inr (s\<lparr>thread_table := tt, ready_head := h0, ready_tail := t\<rparr>)"
      "kinv (s\<lparr>thread_table := tt, ready_head := h0, ready_tail := t\<rparr>) (rq @ [t]) sq"
    using add_ready_spec [OF kgoodD(1) [OF g] e kgoodD(5) [OF g]] by blast
  then show ?thesis
    using kgood_view [OF g sem_view_add_ready [OF a(1)] a(2)] kgoodD(3) [OF g]
    by (simp add: kdo_def thread_run_def locks_free_def)
qed

lemma step_schedule:
  assumes g: "kgood s rq sq" and p: "kguard (Schedule cpu rnd) s"
  shows "\<exists>s' cur e. kdo (Schedule cpu rnd) s = Inr s' \<and>
    scheduler_current_thread s cpu = Some cur \<and> thread_table s cur = Some e \<and>
    kgood s' (tl (retired_queue cur e rq)) sq"
proof -
  have c: "0 \<le> cpu" "cpu < 4" using p by (simp_all add: kguard_def cpu_ok_def)
  obtain cur e where ce: "scheduler_current_thread s cpu = Some cur" "thread_table s cur = Some e"
    using kinv_current_ex [OF kgoodD(1) [OF g] c] by blast
  obtain s' where s': "scheduler_schedule cpu rnd s = Inr s'"
      "kinv s' (tl (retired_queue cur e rq)) sq" "slocks s' = slocks s"
    using schedule_spec [OF kgoodD(1) [OF g] c kgoodD(5) [OF g] ce] by blast
  have "locks_free s'" using kgoodD(3) [OF g] s'(3) by (simp add: locks_free_def)
  then show ?thesis
    using kgood_view [OF g sem_view_schedule [OF s'(1)] s'(2)] s'(1) ce by (simp add: kdo_def)
qed

lemma step_finish:
  assumes g: "kgood s rq sq" and p: "kguard (Finish cpu t) s"
  shows "\<exists>s'. kdo (Finish cpu t) s = Inr s' \<and> kgood s' rq sq"
proof -
  obtain e where e: "scheduler_current_thread s cpu = Some t" "t \<noteq> 0" "thread_table s t = Some e"
      "state e = THREAD_RUNNING" "sleeps_on e = 0" "pagetable e = 0"
    using p callerD [of cpu t s] by (auto simp: kguard_def thread_in_def)
  obtain s' where s': "thread_finish cpu s = Inr s'" "kinv s' rq sq"
      "s' = s\<lparr>thread_table := (thread_table s)(t \<mapsto> e\<lparr>state := THREAD_DYING\<rparr>),
        intr_enabled := (intr_enabled s)(cpu := True)\<rparr>"
    using thread_finish_spec [OF kgoodD(1) [OF g] e kgoodD(5) [OF g]] by blast
  have "sem_view s' = sem_view s" unfolding s'(3) using e(3) by (auto simp: sem_view_def)
  then show ?thesis
    using kgood_view [OF g _ s'(2)] kgoodD(3) [OF g] s'(1,3) by (simp add: kdo_def locks_free_def)
qed

lemma step_sem_create:
  assumes g: "kgood s rq sq" and p: "kguard (Sem_create cpu v) s"
  shows "\<exists>s'. kdo (Sem_create cpu v) s = Inr s' \<and> kgood s' rq sq"
proof -
  have c: "0 \<le> cpu" "cpu < 4" "0 \<le> v" "v < 2 ^ 31" using p by (simp_all add: kguard_def cpu_ok_def)
  obtain t where t: "scheduler_current_thread s cpu = Some t"
    using kinv_current_ex [OF kgoodD(1) [OF g] c(1,2)] by blast
  have n: "0 \<le> sem_next s" "sem_next s < 128" using g by (simp_all add: kgood_def)
  note pre = kgoodD(7) [OF g] n t kgoodD(3) [OF g] c(3)
  show ?thesis
  proof (cases "\<exists>j. sem_free s j")
    case False
    then show ?thesis using semaphore_create_full [OF pre] g by (simp add: kdo_def)
  next
    case True
    then obtain i m where i: "semaphore_table s i = Some m" "sem_creator m = - 1"
        "semaphore_create cpu v s = Inr (Some i, s\<lparr>sem_next := (i + 1) mod 128,
          semaphore_table := (semaphore_table s)(i \<mapsto> m\<lparr>sem_creator := t, sem_value := v\<rparr>)\<rparr>)"
      using semaphore_create_some [OF pre] by blast
    let ?m = "m\<lparr>sem_creator := t, sem_value := v\<rparr>"
    let ?s = "s\<lparr>sem_next := (i + 1) mod 128, semaphore_table := (semaphore_table s)(i \<mapsto> ?m)\<rparr>"
    have ir: "0 \<le> i" "i < 128" using kgoodD(7) [OF g] i(1) by (auto simp: dom_def set_eq_iff)
    have w: "sem_waiters ?s sq j = sem_waiters s sq j" for j by (rule sem_waiters_frame) simp_all
    have "sem_waiters s sq i = []" using sem_count [OF kgoodD(2) [OF g] i(1)] i(1,2) g by (auto simp: kgood_def)
    then have "sems_ok ?s sq"
      by (intro sems_ok_upd [OF kgoodD(2) [OF g] ir, of _ ?m]) (use w c in simp_all)
    moreover have "kinv ?s rq sq" using kgoodD(1) [OF g] by simp
    ultimately have "kgood ?s rq sq" using g c by (auto simp: kgood_def locks_free_def)
    then show ?thesis using i(3) by (simp add: kdo_def)
  qed
qed

lemma step_sem_destroy:
  assumes g: "kgood s rq sq" and p: "kguard (Sem_destroy i) s"
  shows "\<exists>s'. kdo (Sem_destroy i) s = Inr s' \<and> kgood s' rq sq"
proof -
  obtain m where m: "semaphore_table s i = Some m" "0 \<le> sem_value m" and i: "0 \<le> i" "i < 128"
    using p by (auto simp: kguard_def sem_in_def sem_id_def split: option.splits)
  let ?m = "m\<lparr>sem_creator := - 1\<rparr>"
  let ?s = "s\<lparr>semaphore_table := (semaphore_table s)(i \<mapsto> ?m)\<rparr>"
  have w: "sem_waiters ?s sq j = sem_waiters s sq j" for j by (rule sem_waiters_frame) simp_all
  have "sems_ok ?s sq"
    by (rule sems_ok_upd [OF kgoodD(2) [OF g] i, of _ ?m])
      (use w m sem_count [OF kgoodD(2) [OF g] m(1)] in simp_all)
  moreover have "kinv ?s rq sq" using kgoodD(1) [OF g] by simp
  ultimately have "kgood ?s rq sq" using g m by (auto simp: kgood_def locks_free_def)
  then show ?thesis using m by (simp add: kdo_def semaphore_destroy_def)
qed

lemma kgood_sem_upd:
  assumes g: "kgood s rq sq" and m: "semaphore_table s' = (semaphore_table s)(i \<mapsto> m')"
    and b: "sem_value m' < 2 ^ 31" "sem_creator m' = - 1 \<Longrightarrow> 0 \<le> sem_value m'"
    and f: "sem_next s' = sem_next s" "next_tid s' = next_tid s"
    and i: "kinv s' rq' sq'" "sems_ok s' sq'" "locks_free s'"
  shows "kgood s' rq' sq'"
  using g b f i unfolding kgood_def m by auto

lemma step_sem_P:
  assumes g: "kgood s rq sq" and p: "kguard (Sem_P cpu t i) s"
  shows "\<exists>s' sq'. kdo (Sem_P cpu t i) s = Inr s' \<and> kgood s' rq sq'"
proof -
  have i: "0 \<le> i" "i < 128" and c: "caller_ok cpu t s"
    using p by (simp_all add: kguard_def sem_id_def)
  obtain m where m: "semaphore_table s i = Some m" "sem_creator m \<noteq> - 1"
    using p by (auto simp: kguard_def sem_in_def split: option.splits)
  have v: "sem_value m < 2 ^ 31" "- 31 \<le> sem_value m"
    using g m(1) sem_value_lower [OF g m(1)] by (auto simp: kgood_def)
  note k = kgoodD [OF g]
  show ?thesis
  proof (cases "0 < sem_value m")
    case True
    let ?m = "m\<lparr>sem_value := sem_value m - 1\<rparr>"
    let ?s = "s\<lparr>semaphore_table := (semaphore_table s)(i \<mapsto> ?m)\<rparr>"
    have "kgood ?s rq sq"
      by (rule kgood_sem_upd [OF g, of _ i ?m])
        (use semaphore_P_acquires(2,3) [OF k(1,2) i m(1) True v(1) k(3)] v m k(3) in
          \<open>simp_all add: locks_free_def\<close>)
    then show ?thesis
      using semaphore_P_acquires(1) [OF k(1,2) i m(1) True v(1) k(3), of cpu] by (simp add: kdo_def) blast
  next
    case False
    then have z: "sem_value m \<le> 0" "- (2 ^ 31) < sem_value m" using v by simp_all
    obtain s' sq' where s': "semaphore_P cpu i s = Inr (Sleeps (intr_enabled s cpu), s')"
        "kinv s' rq sq'" "sems_ok s' sq'" "locks_free s'"
        "semaphore_table s' = (semaphore_table s)(i \<mapsto> m\<lparr>sem_value := sem_value m - 1\<rparr>)"
        "sem_next s' = sem_next s" "next_tid s' = next_tid s"
      using semaphore_P_sleeps [OF k(1,2) i m(1) z k(3) c] by blast
    have "kgood s' rq sq'"
      by (rule kgood_sem_upd [OF g s'(5) _ _ s'(6,7) s'(2,3,4)]) (use z m in simp_all)
    then show ?thesis using s'(1) by (simp add: kdo_def) blast
  qed
qed

lemma step_sem_V:
  assumes g: "kgood s rq sq" and p: "kguard (Sem_V cpu i) s"
  shows "\<exists>s' rq' sq'. kdo (Sem_V cpu i) s = Inr s' \<and> kgood s' rq' sq'"
proof -
  have i: "0 \<le> i" "i < 128" using p by (simp_all add: kguard_def sem_id_def)
  obtain m where m: "semaphore_table s i = Some m" "sem_value m < 2 ^ 31 - 1"
    using p by (auto simp: kguard_def sem_in_def split: option.splits)
  have v: "- 31 \<le> sem_value m" using sem_value_lower [OF g m(1)] .
  have fr: "sem_creator m = - 1 \<Longrightarrow> 0 \<le> sem_value m" using g m(1) by (auto simp: kgood_def)
  note k = kgoodD [OF g]
  show ?thesis
  proof (cases "0 \<le> sem_value m")
    case True
    let ?m = "m\<lparr>sem_value := sem_value m + 1\<rparr>"
    let ?s = "s\<lparr>semaphore_table := (semaphore_table s)(i \<mapsto> ?m)\<rparr>"
    have "kgood ?s rq sq"
      by (rule kgood_sem_upd [OF g, of _ i ?m])
        (use semaphore_V_no_waiter(2,3) [OF k(1,2) i m(1) True m(2) k(3)] m True k(3) in
          \<open>simp_all add: locks_free_def\<close>)
    then show ?thesis
      using semaphore_V_no_waiter(1) [OF k(1,2) i m(1) True m(2) k(3), of cpu] by (simp add: kdo_def) blast
  next
    case False
    then have z: "sem_value m < 0" "- (2 ^ 31) \<le> sem_value m" using v by simp_all
    obtain s' sq' rq' where s': "semaphore_V cpu i s = Inr s'"
        "kinv s' rq' sq'" "sems_ok s' sq'" "locks_free s'"
        "semaphore_table s' = (semaphore_table s)(i \<mapsto> m\<lparr>sem_value := sem_value m + 1\<rparr>)"
        "sem_next s' = sem_next s" "next_tid s' = next_tid s"
      using semaphore_V_wakes [OF k(1,2) i m(1) z k(3), of cpu] by blast
    have "kgood s' rq' sq'"
      by (rule kgood_sem_upd [OF g s'(5) _ _ s'(6,7) s'(2,3,4)]) (use z m fr in simp_all)
    then show ?thesis using s'(1) by (simp add: kdo_def) blast
  qed
qed

text \<open>A driver's resource is no semaphore, so its sleepers change no semaphore's waiters.\<close>

lemma kgood_device:
  assumes g: "kgood s rq sq" and k: "kinv s' rq' sq'" and l: "slocks s' = slocks s"
    and f: "link s' = link s" "semaphore_table s' = semaphore_table s" "sem_next s' = sem_next s"
      "next_tid s' = next_tid s"
    and w: "\<And>j. sem_id j \<Longrightarrow> sem_waiters s' sq' j = sem_waiters s sq j"
  shows "kgood s' rq' sq'"
proof -
  have "sem_ok s' sq' j" for j
  proof (cases "sem_id j")
    case True
    then show ?thesis using kgoodD(2) [OF g] w f by (simp add: sems_ok_def sem_ok_def)
  next
    case False
    then have "semaphore_table s j = None"
      using kgoodD(7) [OF g] by (auto simp: sem_id_def dom_def set_eq_iff)
    then show ?thesis using f by (simp add: sem_ok_def)
  qed
  then have "sems_ok s' sq'" using kgoodD(2) [OF g] f by (simp add: sems_ok_def)
  then show ?thesis using g k l f by (auto simp: kgood_def locks_free_def)
qed

lemma step_dev_sleep:
  assumes g: "kgood s rq sq" and p: "kguard (Dev_sleep cpu t r) s"
  shows "\<exists>s' sq'. kdo (Dev_sleep cpu t r) s = Inr s' \<and> kgood s' rq sq'"
proof -
  have r: "r \<noteq> 0" "uint r < 2 ^ 32" and ns: "\<And>j. sem_id j \<Longrightarrow> sem_addr (link s) j \<noteq> r"
    and i: "\<not> intr_enabled s cpu"
    using p by (simp_all add: kguard_def dev_resource_def)
  obtain e where e: "scheduler_current_thread s cpu = Some t" "t \<noteq> 0" "thread_table s t = Some e"
      "state e = THREAD_RUNNING" "sleeps_on e = 0"
    using p callerD [of cpu t s] by (auto simp: kguard_def)
  note k = kgoodD [OF g]
  let ?h = "sleepq_hash r"
  obtain tt ht where a: "sleepq_add cpu r s = Inr (s\<lparr>thread_table := tt, sleepq_hashtable := ht\<rparr>)"
      "kinv (s\<lparr>thread_table := tt, sleepq_hashtable := ht\<rparr>) rq (sq(?h := sq ?h @ [t]))"
      "relinked (insert t (set (sq ?h))) ((thread_table s)(t \<mapsto> e\<lparr>sleeps_on := ucast r\<rparr>)) tt"
    using sleepq_add_spec [OF k(1) i k(5) e r] by blast
  let ?s = "s\<lparr>thread_table := tt, sleepq_hashtable := ht\<rparr>"
  have rel: "relinked (insert t (set (sq ?h))) ((thread_table s)(t \<mapsto> e\<lparr>sleeps_on := ucast r\<rparr>)) (thread_table ?s)"
    using a(3) by simp
  have off: "t \<notin> set (sq h')" for h' using kinv_sleep_member [OF k(1), of t h'] e by auto
  have lnk: "link ?s = link s" by simp
  have "sem_waiters ?s (sq(?h := sq ?h @ [t])) j = sem_waiters s sq j" if "sem_id j" for j
    using sem_waiters_join [where sq = sq and j = j, OF rel r off lnk] ns [OF that] by simp
  then have "kgood ?s rq (sq(?h := sq ?h @ [t]))" by (intro kgood_device [OF g a(2)]) simp_all
  then show ?thesis using a(1) by (auto simp: kdo_def)
qed

lemma step_dev_wake:
  assumes g: "kgood s rq sq" and p: "kguard (Dev_wake cpu r) s"
  shows "\<exists>s' rq' sq'. kdo (Dev_wake cpu r) s = Inr s' \<and> kgood s' rq' sq'"
proof -
  have ns: "\<And>j. sem_id j \<Longrightarrow> sem_addr (link s) j \<noteq> r" using p by (simp add: kguard_def dev_resource_def)
  note k = kgoodD [OF g]
  let ?h = "sleepq_hash r"
  let ?sq = "sq(?h := filter (\<lambda>t. \<not> waits_for s r t) (sq ?h))"
  obtain tt h0 tl0 ht where a: "sleepq_wake_all cpu r s =
        Inr (s\<lparr>thread_table := tt, ready_head := h0, ready_tail := tl0, sleepq_hashtable := ht\<rparr>)"
      "kinv (s\<lparr>thread_table := tt, ready_head := h0, ready_tail := tl0, sleepq_hashtable := ht\<rparr>)
        (rq @ filter (\<lambda>t. waits_for s r t \<and> asleep s t) (sq ?h)) ?sq"
      "\<forall>r'. r' \<noteq> r \<longrightarrow> r' \<noteq> 0 \<longrightarrow> waits_for (s\<lparr>thread_table := tt\<rparr>) r' = waits_for s r'"
    using sleepq_wake_all_spec [OF k(1) k(5) k(5), of cpu r] by blast
  let ?s = "s\<lparr>thread_table := tt, ready_head := h0, ready_tail := tl0, sleepq_hashtable := ht\<rparr>"
  have "sem_waiters ?s ?sq j = sem_waiters s sq j" if j: "sem_id j" for j
  proof -
    let ?r = "sem_addr (link s) j"
    have r: "?r \<noteq> r" "?r \<noteq> 0" using ns [OF j] sem_addr_ok(1) [OF k(6)] j by (simp_all add: sem_id_def)
    then have v: "waits_for ?s ?r = waits_for s ?r" using a(3) by (simp add: waits_for_def [abs_def])
    have "\<not> waits_for s r t" if "waits_for s ?r t" for t
      using that r(1) by (auto simp: waits_for_def split: option.splits)
    then have "filter (\<lambda>t. \<not> waits_for s r t \<and> waits_for s ?r t) xs = filter (waits_for s ?r) xs" for xs
      by (intro filter_cong) auto
    then show ?thesis using v by (simp add: sem_waiters_def)
  qed
  then have "kgood ?s (rq @ filter (\<lambda>t. waits_for s r t \<and> asleep s t) (sq ?h)) ?sq"
    by (intro kgood_device [OF g a(2)]) simp_all
  then show ?thesis using a(1) by (auto simp: kdo_def)
qed

section \<open>Every step succeeds and keeps the invariant\<close>

lemma kdo_ok:
  assumes g: "kgood s rq sq" and p: "kguard p s"
  shows "\<exists>s' rq' sq'. kdo p s = Inr s' \<and> kgood s' rq' sq'"
proof (cases p)
  case (Intr f)
  have "kgood (s\<lparr>intr_enabled := f\<rparr>) rq sq"
    using kgood_view [OF g, of "s\<lparr>intr_enabled := f\<rparr>"] kgoodD(1,3) [OF g] by (simp add: locks_free_def)
  then show ?thesis using Intr by (auto simp: kdo_def)
next
  case (Create cpu func arg)
  then show ?thesis using step_create [OF g] by blast
next
  case (Schedule cpu rnd)
  then show ?thesis using step_schedule [OF g] p by metis
next
  case (Run cpu t)
  then show ?thesis using step_run [OF g] p by blast
next
  case (Finish cpu t)
  then show ?thesis using step_finish [OF g] p by blast
next
  case (Sem_create cpu v)
  then show ?thesis using step_sem_create [OF g] p by blast
next
  case (Sem_destroy i)
  then show ?thesis using step_sem_destroy [OF g] p by blast
next
  case (Sem_P cpu t i)
  then show ?thesis using step_sem_P [OF g] p by blast
next
  case (Sem_V cpu i)
  then show ?thesis using step_sem_V [OF g] p by blast
next
  case (Dev_sleep cpu t r)
  then show ?thesis using step_dev_sleep [OF g] p by blast
next
  case (Dev_wake cpu r)
  then show ?thesis using step_dev_wake [OF g] p by blast
qed

definition start_ok :: "kstate \<Rightarrow> bool" where
  "start_ok s \<longleftrightarrow> boot_ok s \<and> layout_ok (link s) \<and> sem_next s = 0 \<and> slocks s = (\<lambda>_. 0) \<and>
     dom (semaphore_table s) = {0..<CONFIG_MAX_SEMAPHORES} \<and>
     (\<forall>i m. semaphore_table s i = Some m \<longrightarrow> sem_value m = 0)"

lemma kgood_start:
  assumes s: "start_ok s"
  shows "kgood (kernel_start s) [] no_queues"
proof -
  have b: "boot_ok s" using s by (simp add: start_ok_def)
  have "kinv (kernel_start s) [] no_queues"
    by (rule kinv_frameI [OF kinv_start [OF b]])
      (simp_all add: kernel_start_def scheduler_init_def semaphore_init_def spinlock_defs Let_def)
  moreover have f: "link (kernel_start s) = link s" "slocks (kernel_start s) = (\<lambda>_. 0)"
      "next_tid (kernel_start s) = 0" "sem_next (kernel_start s) = 0"
    using s by (auto simp: kernel_start_def scheduler_init_def semaphore_init_def sleepq_init_def
        thread_table_init_def spinlock_defs Let_def start_ok_def boot_ok_def)
  moreover have st: "semaphore_table (kernel_start s) i =
      (if 0 \<le> i \<and> i < 128 then map_option (\<lambda>m. m\<lparr>sem_creator := - 1\<rparr>) (semaphore_table s i) else semaphore_table s i)" for i
    by (simp add: kernel_start_def scheduler_init_def semaphore_init_def sleepq_init_def
        thread_table_init_def spinlock_defs Let_def)
  have z: "sem_value m = 0" if "semaphore_table (kernel_start s) i = Some m" for i m
    using that s st [of i] by (auto simp: start_ok_def split: if_splits)
  moreover have "dom (semaphore_table (kernel_start s)) = {0..<128}"
    using s st by (auto simp: start_ok_def dom_def set_eq_iff)
  ultimately show ?thesis
    using s z by (auto simp: kgood_def sems_ok_def sem_ok_def sem_waiters_def no_queues_def locks_free_def start_ok_def)
qed

lemma reachable_kgood:
  assumes "reachable s0 s" and "start_ok s0"
  shows "\<exists>rq sq. kgood s rq sq"
  using assms
proof (induction rule: reachable.induct)
  case reach_start
  then show ?case using kgood_start by blast
next
  case (reach_step s s')
  then obtain rq sq where "kgood s rq sq" by blast
  then show ?case using reach_step(2) kdo_ok by (metis kstepE Inr_inject)
qed

end
