(* ===== verification/Kernel_Properties.thy ===== *)
theory Kernel_Properties
  imports Kernel_Steps
begin

text \<open>
  The theorems about threads, scheduling, sleeping and semaphores, each with an instance at a
  concrete kernel state: \<open>ex_boot\<close> is memory before \<open>kernel_start\<close>, \<open>ex_state\<close> a running kernel in
  which thread 1 runs on CPU 0, thread 2 is ready and thread 3 waits for semaphore 5.
\<close>

section \<open>Two concrete states\<close>

definition ex_link :: layout where
  "ex_link = \<lparr>thread_stack_areas = 0x200000, thread_finish_addr = 0x3000, idle_loop_addr = 0x4000,
     semaphore_table_addr = 0x100000, kernel_pml4_addr = 0x5000\<rparr>"

definition ex_boot :: kstate where
  "ex_boot = \<lparr>thread_table = Map.empty, next_tid = 0, scheduler_current_thread = Map.empty,
     ready_head = - 1, ready_tail = - 1, sleepq_hashtable = Map.empty,
     semaphore_table = (\<lambda>i. if 0 \<le> i \<and> i < 128 then Some \<lparr>sem_value = 0, sem_creator = 0\<rparr> else None),
     sem_next = 0, slocks = (\<lambda>_. 0), intr_enabled = (\<lambda>_. False), timer = 0, kmem = (\<lambda>_. 0),
     tss_rsp0 = Map.empty, link = ex_link\<rparr>"

definition ex_entry :: "thread_state \<Rightarrow> u32 \<Rightarrow> thread_entry" where
  "ex_entry st r = \<lparr>kcontext = 0, user_context = 0, state = st, sleeps_on = r, pagetable = 0,
     process_id = - 1, nxt = - 1, attribs = 0\<rparr>"

definition ex_state :: kstate where
  "ex_state = ex_boot\<lparr>
     thread_table := (\<lambda>t. if 0 \<le> t \<and> t < 32 then Some (
         if t = 0 then ex_entry THREAD_READY 0 else if t = 1 then ex_entry THREAD_RUNNING 0
         else if t = 2 then ex_entry THREAD_READY 0 else if t = 3 then ex_entry THREAD_SLEEPING 1048636
         else ex_entry THREAD_FREE 0) else None),
     scheduler_current_thread := (\<lambda>c. if 0 \<le> c \<and> c < 4 then Some (if c = 0 then 1 else 0) else None),
     ready_head := 2, ready_tail := 2,
     sleepq_hashtable := (\<lambda>h. if 0 \<le> h \<and> h < 127 then Some (if h = 124 then 3 else - 1) else None),
     semaphore_table := (\<lambda>i. if 0 \<le> i \<and> i < 128 then Some (
         if i = 5 then \<lparr>sem_value = - 1, sem_creator = 1\<rparr>
         else if i = 4 then \<lparr>sem_value = 1, sem_creator = 1\<rparr>
         else \<lparr>sem_value = 0, sem_creator = - 1\<rparr>) else None)\<rparr>"

definition ex_queues :: "int \<Rightarrow> tid list" where
  "ex_queues h = (if h = 124 then [3] else [])"

lemma ex_start_ok: "start_ok ex_boot"
  by (auto simp: start_ok_def boot_ok_def ex_boot_def layout_ok_def ex_link_def split: if_splits)

lemma ex_fields [simp]:
  "thread_table ex_state 1 = Some (ex_entry THREAD_RUNNING 0)"
  "thread_table ex_state 2 = Some (ex_entry THREAD_READY 0)"
  "thread_table ex_state 3 = Some (ex_entry THREAD_SLEEPING 1048636)"
  "thread_table ex_state 4 = Some (ex_entry THREAD_FREE 0)"
  "scheduler_current_thread ex_state 0 = Some 1"
  "slocks ex_state = (\<lambda>_. 0)" "intr_enabled ex_state = (\<lambda>_. False)" "link ex_state = ex_link"
  "semaphore_table ex_state 4 = Some \<lparr>sem_value = 1, sem_creator = 1\<rparr>"
  "semaphore_table ex_state 5 = Some \<lparr>sem_value = - 1, sem_creator = 1\<rparr>"
  "next_tid ex_state = 0"
  by (simp_all add: ex_state_def ex_boot_def)

lemma ex_entry_simps [simp]:
  "state (ex_entry st r) = st" "sleeps_on (ex_entry st r) = r" "nxt (ex_entry st r) = - 1"
  "pagetable (ex_entry st r) = 0"
  by (simp_all add: ex_entry_def)

lemma ex_kinv: "kinv ex_state [2] ex_queues"
proof -
  have "tables_ok ex_state" by (auto simp: tables_ok_def ex_state_def split: if_splits)
  moreover have "ready_ok ex_state [2]" by (simp add: ready_ok_def ex_state_def)
  moreover have "queues_ok ex_state ex_queues"
    by (auto simp: queues_ok_def ex_state_def ex_queues_def split: if_splits)
  moreover have "current_ok ex_state"
    by (auto simp: current_ok_def ex_state_def split: if_splits)
  moreover have "threads_ok ex_state [2] ex_queues"
  proof -
    have r: "runs_on (scheduler_current_thread ex_state) t \<longleftrightarrow> t = 0 \<or> t = 1" for t
      by (auto simp: runs_on_def ex_state_def split: if_splits intro: exI [of _ 0] exI [of _ 1])
    show ?thesis unfolding threads_ok_def r
      by (auto simp: ex_state_def ex_queues_def thread_ok_def idle_ok_def split: if_splits)
  qed
  ultimately show ?thesis by (simp add: kinv_def)
qed

lemma ex_sem_addr: "0 \<le> i \<Longrightarrow> i < 128 \<Longrightarrow> uint (sem_addr ex_link i) = 1048576 + 12 * i"
  by (simp add: sem_addr_def ex_link_def uint_word_ariths uint_word_of_int)

lemma ex_sems_ok: "sems_ok ex_state ex_queues"
proof -
  have l: "layout_ok (link ex_state)" by (simp add: layout_ok_def ex_link_def)
  have d: "dom (semaphore_table ex_state) = {0..<128}" by (auto simp: ex_state_def split: if_splits)
  have w: "sem_waiters ex_state ex_queues i = (if i = 5 then [3] else [])" if "0 \<le> i" "i < 128" for i
  proof -
    have "(1048636 :: u64) = sem_addr ex_link i \<longleftrightarrow> i = 5"
      using ex_sem_addr [OF that] by (simp add: word_uint_eq_iff)
    moreover have "sleepq_hash (sem_addr ex_link 5) = 124" using ex_sem_addr [of 5] by (simp add: sleepq_hash_def)
    ultimately show ?thesis by (auto simp: sem_waiters_def ex_queues_def waits_for_def)
  qed
  have "sem_ok ex_state ex_queues i" for i
    using w [of i] by (auto simp: sem_ok_def ex_state_def split: if_splits)
  then show ?thesis using l d by (simp add: sems_ok_def)
qed

lemma ex_locks_free: "locks_free ex_state"
  by (simp add: locks_free_def)

lemma ex_caller: "caller_ok 0 1 ex_state"
  by (simp add: caller_ok_def)

section \<open>Every reachable state\<close>

text \<open>
  C1. In every state the kernel can reach from a sound memory image by any sequence of thread,
  scheduler, semaphore and device operations on any CPUs, the thread invariant holds: the ready
  list and every sleep queue are well-formed lists of exactly the threads that are ready and that
  sleep on a resource of that bucket, every semaphore has as many waiters as its value is below
  zero, and no spinlock is held.
\<close>

theorem reachable_invariant:
  "reachable s0 s \<Longrightarrow> start_ok s0 \<Longrightarrow> \<exists>rq sq. kinv s rq sq \<and> sems_ok s sq \<and> locks_free s"
  using reachable_kgood kgoodD(1-3) by blast

theorem reachable_invariant_witness:
  "\<exists>rq sq. kinv (kernel_start ex_boot) rq sq \<and> sems_ok (kernel_start ex_boot) sq \<and>
    locks_free (kernel_start ex_boot)"
  by (rule reachable_invariant [OF reach_start ex_start_ok])

text \<open>
  C2. The kernel never gets stuck: in every reachable state, every operation whose caller respects
  the documented preconditions runs to its end without a failed KERNEL_ASSERT, an access outside a
  table, a NULL dereference or a wait for a spinlock it holds itself, and leaves a reachable state.
\<close>

theorem reachable_no_panic:
  "reachable s0 s \<Longrightarrow> start_ok s0 \<Longrightarrow> kguard p s \<Longrightarrow> \<exists>s'. kdo p s = Inr s' \<and> reachable s0 s'"
  using reachable_kgood [of s0 s] kdo_ok [of s _ _ p] by (meson kstep reach_step)

theorem reachable_no_panic_witness:
  "\<exists>s'. kdo (Schedule 0 0) (kernel_start ex_boot) = Inr s' \<and> reachable ex_boot s'"
  by (rule reachable_no_panic [OF reach_start ex_start_ok]) (simp add: kguard_def cpu_ok_def)



section \<open>Scheduling\<close>

text \<open>
  C23. One run of the scheduler: the interrupted thread goes to the end of the ready list unless it
  is dying, going to sleep or the idle thread; the CPU gets the first thread of the list, or the
  idle thread when there is none; the timer is set to half a time slice more than the number drawn; and
  the invariant holds again.
\<close>

theorem scheduler_round_robin:
  assumes "kinv s rq sq" and "0 \<le> cpu" and "cpu < CONFIG_MAX_CPUS" and "slocks s Thread_table_slock = 0"
    and "scheduler_current_thread s cpu = Some cur" and "thread_table s cur = Some e"
  shows "\<exists>s'. scheduler_schedule cpu rnd s = Inr s' \<and>
    kinv s' (tl (retired_queue cur e rq)) sq \<and>
    scheduler_current_thread s' = (scheduler_current_thread s)(cpu \<mapsto> next_thread (retired_queue cur e rq)) \<and>
    slocks s' = slocks s \<and> intr_enabled s' = intr_enabled s \<and> timer s' = rnd + 375"
  using schedule_spec [OF assms, of rnd] by blast

theorem scheduler_round_robin_witness:
  "\<exists>s'. scheduler_schedule 0 7 ex_state = Inr s' \<and> kinv s' [1] ex_queues \<and>
    scheduler_current_thread s' 0 = Some 2 \<and> timer s' = 382"
  using scheduler_round_robin [OF ex_kinv, of 0 1 "ex_entry THREAD_RUNNING 0" 7]
  by (auto simp: retired_queue_def next_thread_def)

text \<open>Repeated runs of the scheduler on one CPU, with the random numbers it draws.\<close>

fun schedule_seq :: "int \<Rightarrow> u32 list \<Rightarrow> kstate \<Rightarrow> kstate res" where
  "schedule_seq cpu [] s = Inr s"
| "schedule_seq cpu (r # rs) s = rbind (scheduler_schedule cpu r s) (schedule_seq cpu rs)"

text \<open>
  C24. No ready thread starves: a thread with \<open>length pre\<close> threads before it in the ready list is the
  CPU's current thread after \<open>length pre + 1\<close> runs of the scheduler on that CPU.
\<close>

theorem ready_thread_runs:
  assumes "kinv s (pre @ t # post) sq" and "0 \<le> cpu" and "cpu < CONFIG_MAX_CPUS"
    and "slocks s Thread_table_slock = 0" and "length rnds = Suc (length pre)"
  shows "\<exists>s' rq'. schedule_seq cpu rnds s = Inr s' \<and> kinv s' rq' sq \<and> scheduler_current_thread s' cpu = Some t"
  using assms
proof (induction pre arbitrary: s post rnds)
  case Nil
  obtain r where r: "rnds = [r]" using Nil.prems(5) by (auto simp: length_Suc_conv)
  obtain cur e where c: "scheduler_current_thread s cpu = Some cur" "thread_table s cur = Some e"
    using kinv_current_ex [OF Nil.prems(1-3)] by blast
  show ?case
    using schedule_spec [OF Nil.prems(1-4) c, of r] unfolding r
    by (auto simp: retired_queue_def next_thread_def split: if_splits)
next
  case (Cons p pre)
  obtain r rs where r: "rnds = r # rs" "length rs = Suc (length pre)"
    using Cons.prems(5) by (auto simp: length_Suc_conv)
  obtain cur e where c: "scheduler_current_thread s cpu = Some cur" "thread_table s cur = Some e"
    using kinv_current_ex [OF Cons.prems(1-3)] by blast
  obtain post' where q: "tl (retired_queue cur e ((p # pre) @ t # post)) = pre @ t # post'"
    by (cases "retired_queue cur e ((p # pre) @ t # post) = (p # pre) @ t # post")
      (auto simp: retired_queue_def split: if_splits)
  obtain s1 where s1: "scheduler_schedule cpu r s = Inr s1" "kinv s1 (pre @ t # post') sq" "slocks s1 = slocks s"
    using schedule_spec [OF Cons.prems(1-4) c, of r] unfolding q by blast
  then show ?case using Cons.IH [OF s1(2) Cons.prems(2,3) _ r(2)] Cons.prems(4) r by simp
qed

theorem ready_thread_runs_witness:
  "\<exists>s' rq'. schedule_seq 0 [7] ex_state = Inr s' \<and> kinv s' rq' ex_queues \<and> scheduler_current_thread s' 0 = Some 2"
  using ready_thread_runs [of ex_state "[]" 2 "[]" ex_queues 0 "[7]"] ex_kinv by simp

section \<open>Sleeping and waking\<close>

text \<open>
  C25. Waking: \<open>sleepq_wake\<close> removes from the queue the thread that has waited longest for the
  resource, and no other. If the thread is asleep it becomes ready, at the end of the ready list.
  If it has only announced that it will sleep and still runs, its wait is cancelled, so that the
  wakeup is not lost.
\<close>

theorem wake_longest_waiter:
  assumes "kinv s rq sq" and "slocks s Sleepq_slock = 0" and "slocks s Thread_table_slock = 0"
    and "sq (sleepq_hash r) = pre @ t # post"
    and "\<forall>u \<in> set pre. \<not> waits_for s r u" and "waits_for s r t" and "thread_table s t = Some e"
  shows "\<exists>s' e'. sleepq_wake cpu r s = Inr s' \<and>
    kinv s' (if state e = THREAD_SLEEPING then rq @ [t] else rq) (sq(sleepq_hash r := pre @ post)) \<and>
    thread_table s' t = Some e' \<and> sleeps_on e' = 0 \<and>
    (state e \<noteq> THREAD_SLEEPING \<longrightarrow> state e' = state e) \<and> intr_enabled s' = intr_enabled s"
proof -
  obtain tt h0 tl0 ht U where w: "sleepq_wake cpu r s =
      Inr (s\<lparr>thread_table := tt, ready_head := h0, ready_tail := tl0, sleepq_hashtable := ht\<rparr>)"
    "kinv (s\<lparr>thread_table := tt, ready_head := h0, ready_tail := tl0, sleepq_hashtable := ht\<rparr>)
      (put_ready e t rq) (sq(sleepq_hash r := pre @ post))"
    "relinked U ((thread_table s)(t \<mapsto> woken e)) tt"
    using sleepq_wake_first [OF assms] by blast
  obtain n where "tt t = Some ((woken e)\<lparr>nxt := n\<rparr>)" using relinked_Some [OF w(3), of t] by auto
  then show ?thesis using w(1,2) by (auto simp: put_ready_def woken_def)
qed

theorem wake_longest_waiter_witness:
  "\<exists>s' e'. sleepq_wake 0 1048636 ex_state = Inr s' \<and>
    kinv s' [2, 3] (ex_queues(sleepq_hash 1048636 := [])) \<and> thread_table s' 3 = Some e' \<and> sleeps_on e' = 0"
  using wake_longest_waiter [OF ex_kinv, of 1048636 "[]" 3 "[]" "ex_entry THREAD_SLEEPING 1048636" 0]
  by (auto simp: ex_queues_def sleepq_hash_def waits_for_def)

text \<open>
  \<open>sleepq_wake_all\<close> empties the resource's part of its bucket: every thread that slept on the
  resource becomes ready, in the order of arrival behind the threads already ready, no thread waits
  for the resource any more, and the other waiters of the bucket stay in their order.
\<close>

lemma wake_all_waiters:
  assumes "kinv s rq sq" and "slocks s Sleepq_slock = 0" and "slocks s Thread_table_slock = 0"
  shows "\<exists>s'. sleepq_wake_all cpu r s = Inr s' \<and>
    kinv s' (rq @ filter (\<lambda>t. waits_for s r t \<and> asleep s t) (sq (sleepq_hash r)))
      (sq(sleepq_hash r := filter (\<lambda>t. \<not> waits_for s r t) (sq (sleepq_hash r)))) \<and>
    (\<forall>r'. r' \<noteq> r \<longrightarrow> r' \<noteq> 0 \<longrightarrow> waits_for s' r' = waits_for s r')"
proof -
  obtain tt h0 tl0 ht where w: "sleepq_wake_all cpu r s =
      Inr (s\<lparr>thread_table := tt, ready_head := h0, ready_tail := tl0, sleepq_hashtable := ht\<rparr>)"
    "kinv (s\<lparr>thread_table := tt, ready_head := h0, ready_tail := tl0, sleepq_hashtable := ht\<rparr>)
      (rq @ filter (\<lambda>t. waits_for s r t \<and> asleep s t) (sq (sleepq_hash r)))
      (sq(sleepq_hash r := filter (\<lambda>t. \<not> waits_for s r t) (sq (sleepq_hash r))))"
    "\<forall>r'. r' \<noteq> r \<longrightarrow> r' \<noteq> 0 \<longrightarrow> waits_for (s\<lparr>thread_table := tt\<rparr>) r' = waits_for s r'"
    using sleepq_wake_all_spec [OF assms, of cpu r] by blast
  then show ?thesis
    by (intro exI [of _ "s\<lparr>thread_table := tt, ready_head := h0, ready_tail := tl0, sleepq_hashtable := ht\<rparr>"])
      (simp add: waits_for_def fun_eq_iff)
qed

text \<open>
  A resource address of 2 to the 32 or more is never woken: the thread table keeps the low 32
  bits of the address while the search compares them with all 64, so \<open>sleepq_wake\<close> finds nobody.
\<close>

lemma wide_resource_not_woken:
  assumes "kinv s rq sq" and "slocks s Sleepq_slock = 0" and "2 ^ 32 \<le> uint r"
  shows "sleepq_wake cpu r s = Inr s"
proof -
  have "\<not> waits_for s r t" for t
  proof -
    have "uint (ucast (x :: u32) :: u64) < 2 ^ 32" for x
      using uint_bounded [of x] by (simp add: uint_up_ucast is_up)
    then have "(ucast (x :: u32) :: u64) \<noteq> r" for x using assms(3) by (metis not_le)
    then show ?thesis by (simp add: waits_for_def split: option.splits)
  qed
  then show ?thesis using sleepq_wake_none [OF assms(1,2)] by blast
qed

section \<open>Semaphores\<close>

lemma abs_sem_other:
  assumes "j \<noteq> i"
  shows "abs_sem (s\<lparr>semaphore_table := (semaphore_table s)(i \<mapsto> m)\<rparr>) sq j = abs_sem s sq j"
proof -
  have "waits_for (s\<lparr>semaphore_table := x\<rparr>) r = waits_for s r" for x r
    by (simp add: fun_eq_iff waits_for_def)
  then show ?thesis using assms by (cases "semaphore_table s j") (simp_all add: abs_sem_def sem_waiters_def)
qed

text \<open>
  C9. \<open>semaphore_P\<close> implements the P operation of a counting semaphore with a queue: a positive
  count goes down and the caller goes on; otherwise the caller joins the end of the queue of this
  semaphore. It says which of the two, keeps the invariants and touches no other semaphore.
\<close>

theorem semaphore_P_refines:
  assumes k: "kinv s rq sq" and ok: "sems_ok s sq" and i: "0 \<le> i" "i < CONFIG_MAX_SEMAPHORES"
    and m: "semaphore_table s i = Some m" "- (2 ^ 31) < sem_value m" "sem_value m < 2 ^ 31"
    and l: "locks_free s" and c: "caller_ok cpu t s"
  shows "\<exists>r s' sq'. semaphore_P cpu i s = Inr (r, s') \<and> kinv s' rq sq' \<and> sems_ok s' sq' \<and> locks_free s' \<and>
    abs_sem s' sq' i = asem_P t (abs_sem s sq i) \<and> (r = Acquired \<longleftrightarrow> 0 < fst (abs_sem s sq i)) \<and>
    (\<forall>j. 0 \<le> j \<and> j < CONFIG_MAX_SEMAPHORES \<and> j \<noteq> i \<longrightarrow> abs_sem s' sq' j = abs_sem s sq j)"
proof (cases "0 < sem_value m")
  case True
  let ?s = "s\<lparr>semaphore_table := (semaphore_table s)(i \<mapsto> m\<lparr>sem_value := sem_value m - 1\<rparr>)\<rparr>"
  have "abs_sem ?s sq j = abs_sem s sq j" if "j \<noteq> i" for j using that by (rule abs_sem_other)
  then show ?thesis
    using semaphore_P_acquires [OF k ok i m(1) True m(3) l] True m(1) l
    by (intro exI [of _ Acquired] exI [of _ ?s] exI [of _ sq]) (simp add: abs_sem_def locks_free_def)
next
  case False
  then show ?thesis
    using semaphore_P_sleeps [OF k ok i m(1) _ m(2) l c] m(1) by (fastforce simp: abs_sem_def)
qed

theorem semaphore_P_refines_witness:
  "\<exists>r s' sq'. semaphore_P 0 5 ex_state = Inr (r, s') \<and> kinv s' [2] sq' \<and> sems_ok s' sq' \<and>
    abs_sem s' sq' 5 = asem_P 1 (abs_sem ex_state ex_queues 5)"
  using semaphore_P_refines [OF ex_kinv ex_sems_ok, of 5 _ 0 1] ex_locks_free ex_caller by fastforce

text \<open>
  C10. \<open>semaphore_V\<close> implements the V operation: with nobody waiting the count goes up; otherwise
  the first waiter of this semaphore leaves the queue and no longer sleeps.
\<close>

theorem semaphore_V_refines:
  assumes k: "kinv s rq sq" and ok: "sems_ok s sq" and i: "0 \<le> i" "i < CONFIG_MAX_SEMAPHORES"
    and m: "semaphore_table s i = Some m" "- (2 ^ 31) \<le> sem_value m" "sem_value m < 2 ^ 31 - 1"
    and l: "locks_free s"
  shows "\<exists>s' rq' sq'. semaphore_V cpu i s = Inr s' \<and> kinv s' rq' sq' \<and> sems_ok s' sq' \<and> locks_free s' \<and>
    abs_sem s' sq' i = asem_V (abs_sem s sq i) \<and>
    (\<forall>t q. snd (abs_sem s sq i) = t # q \<longrightarrow> (\<exists>e'. thread_table s' t = Some e' \<and> sleeps_on e' = 0)) \<and>
    (\<forall>j. 0 \<le> j \<and> j < CONFIG_MAX_SEMAPHORES \<and> j \<noteq> i \<longrightarrow> abs_sem s' sq' j = abs_sem s sq j)"
proof (cases "0 \<le> sem_value m")
  case True
  let ?s = "s\<lparr>semaphore_table := (semaphore_table s)(i \<mapsto> m\<lparr>sem_value := sem_value m + 1\<rparr>)\<rparr>"
  have "abs_sem ?s sq j = abs_sem s sq j" if "j \<noteq> i" for j using that by (rule abs_sem_other)
  moreover have "snd (abs_sem s sq i) = []"
  proof -
    have "int (length (sem_waiters s sq i)) = max 0 (- sem_value m)" using ok m(1) by (simp add: sems_ok_def sem_ok_def)
    then show ?thesis using m(1) True by (simp add: abs_sem_def)
  qed
  ultimately show ?thesis
    using semaphore_V_no_waiter [OF k ok i m(1) True m(3) l] l
    by (intro exI [of _ ?s] exI [of _ rq] exI [of _ sq]) (simp add: locks_free_def)
next
  case False
  then have neg: "sem_value m < 0" by simp
  obtain s' sq' t e where s': "semaphore_V cpu i s = Inr s'" "kinv s' (put_ready e t rq) sq'" "sems_ok s' sq'"
    "t = hd (sem_waiters s sq i)" "\<exists>e'. thread_table s' t = Some e' \<and> sleeps_on e' = 0"
    "abs_sem s' sq' i = asem_V (abs_sem s sq i)" "locks_free s'"
    "\<forall>j. 0 \<le> j \<and> j < CONFIG_MAX_SEMAPHORES \<and> j \<noteq> i \<longrightarrow> abs_sem s' sq' j = abs_sem s sq j"
    using semaphore_V_wakes [OF k ok i m(1) neg m(2) l, of cpu] by blast
  then show ?thesis using m(1)
    by (intro exI [of _ s'] exI [of _ "put_ready e t rq"] exI [of _ sq']) (auto simp: abs_sem_def)
qed

theorem semaphore_V_refines_witness:
  "\<exists>s' rq' sq'. semaphore_V 0 5 ex_state = Inr s' \<and> kinv s' rq' sq' \<and> sems_ok s' sq' \<and>
    abs_sem s' sq' 5 = asem_V (abs_sem ex_state ex_queues 5)"
  using semaphore_V_refines [OF ex_kinv ex_sems_ok, of 5 _ 0] ex_locks_free by fastforce

section \<open>Threads\<close>

text \<open>
  \<open>thread_create\<close> takes a free entry of the thread table when there is one and leaves it
  non-ready, with its own stack and no page table; with a full table it changes nothing and returns
  a negative number. The invariant holds in both cases.
\<close>

lemma thread_create_correct:
  assumes k: "kinv s rq sq" and n: "0 \<le> next_tid s" and l: "slocks s Thread_table_slock = 0"
  shows "\<exists>t s'. thread_create cpu func arg s = Inr (t, s') \<and> kinv s' rq sq \<and>
    (if \<exists>u. is_free s u
     then is_free s t \<and> (\<exists>e. thread_table s' t = Some e \<and> state e = THREAD_NONREADY \<and> sleeps_on e = 0 \<and>
            kcontext e = context_of (link s) t \<and> pagetable e = 0) \<and>
          (\<forall>u. u \<noteq> t \<longrightarrow> thread_table s' u = thread_table s u)
     else t < 0 \<and> s' = s)"
proof (cases "\<exists>u. is_free s u")
  case True
  then show ?thesis using thread_create_some [OF k n l, of _ cpu func arg] by fastforce
next
  case False
  then show ?thesis using thread_create_none [OF k n l, of cpu func arg] k by auto
qed

lemma schedule_dying:
  assumes "scheduler_schedule cpu rnd s = Inr s'" and "scheduler_current_thread s cpu = Some cur"
    and "thread_table s cur = Some e" and "state e = THREAD_DYING" and "scheduler_current_thread s' cpu \<noteq> Some cur"
  shows "thread_table s' cur = Some (e\<lparr>state := THREAD_FREE\<rparr>)"
  using assms
  by (auto simp: scheduler_schedule_def spinlock_defs schedule_retire_def scheduler_remove_first_ready_def
      upd_thread_def get_thread_def aget_eq_Inr rbind_eq_Inr timer_set_ticks_eq aset_def Let_def split: if_splits)

text \<open>
  The end of a thread: after \<open>thread_finish\<close> the entry is dying and still the current one of its
  CPU, and the next run of the scheduler there frees it and gives the CPU to another thread.
\<close>

lemma thread_finish_frees:
  assumes "kinv s rq sq" and "0 \<le> cpu" and "cpu < CONFIG_MAX_CPUS" and "locks_free s"
    and "scheduler_current_thread s cpu = Some t" and "t \<noteq> IDLE_THREAD_TID" and "thread_table s t = Some e"
    and "state e = THREAD_RUNNING" and "sleeps_on e = 0" and "pagetable e = 0"
  shows "\<exists>s1 s2 e2. thread_finish cpu s = Inr s1 \<and> scheduler_schedule cpu rnd s1 = Inr s2 \<and>
    kinv s2 (tl rq) sq \<and> thread_table s2 t = Some e2 \<and> state e2 = THREAD_FREE \<and>
    scheduler_current_thread s2 cpu = Some (next_thread rq) \<and> t \<noteq> next_thread rq"
proof -
  let ?e = "e\<lparr>state := THREAD_DYING\<rparr>"
  let ?s = "s\<lparr>thread_table := (thread_table s)(t \<mapsto> ?e), intr_enabled := (intr_enabled s)(cpu := True)\<rparr>"
  have l: "slocks s Thread_table_slock = 0" using assms(4) by (simp add: locks_free_def)
  have f: "thread_finish cpu s = Inr ?s" "kinv ?s rq sq"
    using thread_finish_spec [OF assms(1,5-10) l] by auto
  have q: "retired_queue t ?e rq = rq" by (simp add: retired_queue_def)
  obtain s2 where s2: "scheduler_schedule cpu rnd ?s = Inr s2" "kinv s2 (tl rq) sq"
      "scheduler_current_thread s2 = (scheduler_current_thread s)(cpu \<mapsto> next_thread rq)"
    using schedule_spec [OF f(2) assms(2,3), of t ?e rnd] l assms(5) unfolding q by auto
  have nrq: "t \<notin> set rq" using kinv_ready_member [OF assms(1), of t] assms(7,8) by auto
  then have nt: "t \<noteq> next_thread rq" using assms(6) by (auto simp: next_thread_def split: list.splits)
  have "\<exists>e2. thread_table s2 t = Some e2 \<and> state e2 = THREAD_FREE"
    using schedule_dying [OF s2(1), of t ?e] assms(5) s2(3) nt by auto
  then show ?thesis using f(1) s2 nt by auto
qed

text \<open>
  The frame \<open>thread_create\<close> builds on the x86_64 stack: with the stack areas aligned to 16
  bytes, as the linker places them, the thread starts at the given function with the given argument,
  but the slot above the frame, where the address of \<open>thread_finish\<close> was pushed as return address,
  holds the saved stack pointer of the context. A thread function that returns does not reach
  \<open>thread_finish\<close>.
\<close>

lemma thread_return_address_lost:
  assumes "16 dvd thread_stack_areas (link s)" and "thread_table s t = Some e"
  shows "\<exists>s'. thread_setup t func arg s = Inr s' \<and>
    (let cxt = context_of (link s) t in
     kmem s' (cxt - 40) = func \<and> kmem s' (cxt - 112) = ucast arg \<and>
     kmem s' (cxt - 16) = cxt \<and> kmem s' cxt = cxt - 168)"
proof -
  have "align_stack (context_of (link s) t - 4) = context_of (link s) t"
    using assms(1) by (rule context_of_aligned)
  then have "align_stack (thread_stack_areas (link s) + word_of_int (4096 * t) + word_of_int 4096 - 4 - sizeof_context) =
      context_of (link s) t" by (simp add: context_of_def algebra_simps)
  then show ?thesis using assms(2)
    by (simp add: thread_setup_def Let_def context_init_frame)
qed

end
