(* ===== verification/Libc.thy ===== *)
theory Libc
  imports Kudos_Prelude
begin

text \<open>
  The kernel's library routines (\<^verbatim>\<open>src/kudos/lib/libc.c\<close>): string comparison and copy on
  byte buffers, memory copy and fill on a byte-addressed memory, \<open>atoi\<close>, \<open>strlen\<close>, the byte
  order conversions, \<open>wordpad\<close>, and the random numbers of x86_64. A string argument is the buffer from the pointer on;
  running off its end is \<open>OutOfBounds\<close>.
\<close>

section \<open>Strings\<close>

text \<open>\<open>char\<close> is signed on both targets, so the difference is taken on \<open>sint\<close>.\<close>

fun stringcmp :: "byte list \<Rightarrow> byte list \<Rightarrow> int res" where
  "stringcmp (a # as) (b # bs) =
     (if a = 0 \<and> b = 0 then Inr 0
      else if a = 0 \<or> b = 0 \<or> a \<noteq> b then Inr (sint a - sint b)
      else stringcmp as bs)"
| "stringcmp _ _ = Inl OutOfBounds"

text \<open>
  \<open>stringcopy\<close>. The pointers \<open>target\<close> and \<open>source\<close> advance with \<open>i\<close>, so both are at offset
  \<open>i\<close> in the outer loop. The inner loop counts \<open>i\<close> up but leaves \<open>target\<close> at offset \<open>p\<close>.
\<close>

function stringcopy_pad :: "int \<Rightarrow> int \<Rightarrow> int \<Rightarrow> byte list \<Rightarrow> byte list res" where
  "stringcopy_pad i buflen p tgt =
     (if i < buflen then rbind (lset tgt p 0) (\<lambda>tgt'. stringcopy_pad (i + 1) buflen p tgt')
      else Inr tgt)"
  by pat_completeness auto
termination
  by (relation "measure (\<lambda>(i, buflen, p, tgt). nat (buflen - i))") auto

function stringcopy_loop :: "int \<Rightarrow> byte list \<Rightarrow> byte list \<Rightarrow> int \<Rightarrow> byte list res" where
  "stringcopy_loop i tgt src buflen =
     (if i < buflen - 1 then
        rbind (lget src i) (\<lambda>c.
        rbind (lset tgt i c) (\<lambda>tgt'.
        if c = 0 then stringcopy_pad (i + 1) buflen i tgt'
        else stringcopy_loop (i + 1) tgt' src buflen))
      else lset tgt i 0)"
  by pat_completeness auto
termination
  by (relation "measure (\<lambda>(i, tgt, src, buflen). nat (buflen - i))") auto

definition stringcopy :: "byte list \<Rightarrow> byte list \<Rightarrow> int \<Rightarrow> byte list res" where
  "stringcopy target source buflen = stringcopy_loop 0 target source buflen"

declare stringcopy_pad.simps [simp del] stringcopy_loop.simps [simp del]

fun strlen :: "byte list \<Rightarrow> int res" where
  "strlen [] = Inl OutOfBounds"
| "strlen (b # bs) = (if b = 0 then Inr 0 else rbind (strlen bs) (\<lambda>l. Inr (l + 1)))"

text \<open>\<open>atoi\<close>: the three parts of its body, whitespace, sign and digits.\<close>

definition is_space :: "byte \<Rightarrow> bool" where
  "is_space c \<longleftrightarrow> c = 32 \<or> c = 9 \<or> c = 13 \<or> c = 10"

definition is_digit :: "byte \<Rightarrow> bool" where
  "is_digit c \<longleftrightarrow> sint c \<ge> 48 \<and> sint c \<le> 57"

fun atoi_skip :: "byte list \<Rightarrow> byte list" where
  "atoi_skip [] = []"
| "atoi_skip (c # s) = (if c \<noteq> 0 \<and> is_space c then atoi_skip s else c # s)"

fun atoi_digits :: "int \<Rightarrow> int \<Rightarrow> byte list \<Rightarrow> int res" where
  "atoi_digits sign value [] = Inl OutOfBounds"
| "atoi_digits sign value (c # s) =
     (if is_digit c then atoi_digits sign (c_int (10 * value + sign * (sint c - 48))) s
      else Inr value)"

definition atoi :: "byte list \<Rightarrow> int res" where
  "atoi s =
     (case atoi_skip s of
        [] \<Rightarrow> Inl OutOfBounds
      | c # rest \<Rightarrow>
          if c = 0 then Inr 0
          else if c = 45 then atoi_digits (-1) 0 rest
          else if c = 43 then atoi_digits 1 0 rest
          else atoi_digits 1 0 (c # rest))"

section \<open>Memory\<close>

text \<open>
  A memory is a total function from addresses to bytes. A 32-bit access moves the four bytes
  of an aligned word at once: all are read before any is written.
\<close>

type_synonym mem = "int \<Rightarrow> byte"

definition copy_word :: "int \<Rightarrow> int \<Rightarrow> mem \<Rightarrow> mem" where
  "copy_word tgt src m =
     m(tgt := m src, tgt + 1 := m (src + 1), tgt + 2 := m (src + 2), tgt + 3 := m (src + 3))"

fun memcopy_bytes :: "nat \<Rightarrow> int \<Rightarrow> int \<Rightarrow> mem \<Rightarrow> mem" where
  "memcopy_bytes 0 t s m = m"
| "memcopy_bytes (Suc n) t s m = memcopy_bytes n (t + 1) (s + 1) (m(t := m s))"

fun memcopy_words :: "nat \<Rightarrow> int \<Rightarrow> int \<Rightarrow> mem \<Rightarrow> mem" where
  "memcopy_words 0 t s m = m"
| "memcopy_words (Suc n) t s m = memcopy_words n (t + 4) (s + 4) (copy_word t s m)"

definition memcopy :: "int \<Rightarrow> int \<Rightarrow> int \<Rightarrow> mem \<Rightarrow> mem" where
  "memcopy buflen target source m =
     (if target mod 4 \<noteq> 0 \<or> source mod 4 \<noteq> 0
      then memcopy_bytes (nat buflen) target source m
      else let n = nat buflen div 4
           in memcopy_bytes (nat buflen mod 4) (target + 4 * int n) (source + 4 * int n)
                (memcopy_words n target source m))"

fun memoryset_loop :: "nat \<Rightarrow> int \<Rightarrow> byte \<Rightarrow> mem \<Rightarrow> mem" where
  "memoryset_loop 0 t v m = m"
| "memoryset_loop (Suc n) t v m = memoryset_loop n (t + 1) v (m(t := v))"

definition memoryset :: "int \<Rightarrow> byte \<Rightarrow> int \<Rightarrow> mem \<Rightarrow> mem" where
  "memoryset target value sz m = memoryset_loop (nat sz) target value m"

section \<open>Byte order\<close>

text \<open>The bytes of a 32-bit object at increasing addresses, in each byte order.\<close>

definition bytes32 :: "endian \<Rightarrow> u32 \<Rightarrow> byte list" where
  "bytes32 e x =
     (let bs = [ucast x, ucast (drop_bit 8 x), ucast (drop_bit 16 x), ucast (drop_bit 24 x)]
      in case e of Little \<Rightarrow> bs | Big \<Rightarrow> rev bs)"

definition word32_le :: "byte \<Rightarrow> byte \<Rightarrow> byte \<Rightarrow> byte \<Rightarrow> u32" where
  "word32_le b0 b1 b2 b3 =
     ucast b0 OR push_bit 8 (ucast b1) OR push_bit 16 (ucast b2) OR push_bit 24 (ucast b3)"

fun word32 :: "endian \<Rightarrow> byte list \<Rightarrow> u32" where
  "word32 Little [b0, b1, b2, b3] = word32_le b0 b1 b2 b3"
| "word32 Big [b0, b1, b2, b3] = word32_le b3 b2 b1 b0"
| "word32 e bs = 0"

definition swap16 :: "u16 \<Rightarrow> u16" where
  "swap16 x = push_bit 8 (x AND 0xFF) OR drop_bit 8 (x AND 0xFF00)"

text \<open>\<open>swap32\<close> copies the object representation byte by byte, in reverse.\<close>

definition swap32 :: "u32 \<Rightarrow> u32" where
  "swap32 x = word32 Little (rev (bytes32 Little x))"

definition from_big_endian16 :: "endian \<Rightarrow> u16 \<Rightarrow> u16" where
  "from_big_endian16 e x = (case e of Little \<Rightarrow> swap16 x | Big \<Rightarrow> x)"

definition from_big_endian32 :: "endian \<Rightarrow> u32 \<Rightarrow> u32" where
  "from_big_endian32 e x = (case e of Little \<Rightarrow> swap32 x | Big \<Rightarrow> x)"

text \<open>In the SMALL_ENDIAN build \<open>to_big_endian16\<close> calls \<open>swap32\<close>, and its result is narrowed.\<close>

definition to_big_endian16 :: "endian \<Rightarrow> u16 \<Rightarrow> u16" where
  "to_big_endian16 e x = (case e of Little \<Rightarrow> ucast (swap32 (ucast x)) | Big \<Rightarrow> x)"

definition to_big_endian32 :: "endian \<Rightarrow> u32 \<Rightarrow> u32" where
  "to_big_endian32 e x = (case e of Little \<Rightarrow> swap32 x | Big \<Rightarrow> x)"

definition wordpad :: "u32 \<Rightarrow> u32" where
  "wordpad x = (if x mod 4 \<noteq> 0 then x + (4 - x mod 4) else x)"

section \<open>Random numbers\<close>

text \<open>
  The generator of the x86_64 build (\<^verbatim>\<open>src/kudos/lib/x86_64/srand.c\<close>): \<open>next\<close> is multiplied as a \<open>long\<close>, and the number returned is the new
  value of \<open>next\<close>. The range that \<^verbatim>\<open>libc.h\<close> declares as an argument is not used.
\<close>

definition set_rand_seed :: "int \<Rightarrow> int" where
  "set_rand_seed seed = seed"

definition get_rand :: "int \<Rightarrow> int" where
  "get_rand next = (next * 214013 + 2531011) div 65536 mod 32768"

section \<open>String lemmas\<close>

lemma stringcmp_total: "terminated as \<Longrightarrow> terminated bs \<Longrightarrow> \<exists>r. stringcmp as bs = Inr r"
  by (induction as bs rule: stringcmp.induct) auto

lemma stringcmp_zero_iff:
  "terminated as \<Longrightarrow> terminated bs \<Longrightarrow> stringcmp as bs = Inr 0 \<longleftrightarrow> cstr as = cstr bs"
  by (induction as bs rule: stringcmp.induct) (auto simp: signed_eq_0_iff dest: signed_word_eqI)

lemma stringcopy_pad_zero:
  "0 \<le> p \<Longrightarrow> p < int (length tgt) \<Longrightarrow> tgt ! nat p = 0 \<Longrightarrow> stringcopy_pad i buflen p tgt = Inr tgt"
proof (induction i buflen p tgt rule: stringcopy_pad.induct)
  case (1 i buflen p tgt)
  then have same: "tgt[nat p := 0] = tgt"
    by (metis list_update_id)
  show ?case
    using 1 same by (simp add: stringcopy_pad.simps [of i])
qed

text \<open>What the loop leaves in the buffer, from offset \<open>i\<close> on: a prefix of the string and a zero.\<close>

lemma stringcopy_loop_eq:
  assumes "0 \<le> i" and "i < buflen" and "buflen \<le> int (length tgt)"
    and "terminated src" and "i \<le> int (length (cstr src))"
    and "take (nat i) tgt = take (nat i) (cstr src)"
  shows "stringcopy_loop i tgt src buflen =
    Inr (take (nat buflen - 1) (cstr src) @ 0 #
         drop (Suc (min (nat buflen - 1) (length (cstr src)))) tgt)"
  using assms
proof (induction i tgt src buflen rule: stringcopy_loop.induct)
  case (1 i tgt src buflen)
  let ?n = "nat i" and ?s = "cstr src"
  have n: "?n < length tgt" "?n \<le> length ?s" "?n < length src"
    using "1.prems" cstr_length_less [of src] by auto
  have split: "tgt = take ?n ?s @ tgt ! ?n # drop (Suc ?n) tgt"
    using "1.prems"(6) n(1) id_take_nth_drop [of ?n tgt] by metis
  have len: "length (take ?n ?s) = ?n" using n by simp
  have upd: "tgt[?n := c] = take ?n ?s @ c # drop (Suc ?n) tgt" for c
    using split len by (metis list_update_length)
  show ?case
  proof (cases "i < buflen - 1")
    case False
    then have i: "i = buflen - 1" using "1.prems" by simp
    then have "?n = nat buflen - 1" by auto
    moreover have "min (nat buflen - 1) (length ?s) = ?n"
      using calculation n by simp
    ultimately show ?thesis
      using False upd "1.prems" n by (simp add: stringcopy_loop.simps [of i])
  next
    case True
    note lt = True
    have src: "lget src i = Inr (src ! ?n)" using n "1.prems" by simp
    show ?thesis
    proof (cases "?n = length ?s")
      case True
      have z: "src ! ?n = 0" using True cstr_nth_end [OF "1.prems"(4)] by simp
      have p: "stringcopy_pad (i + 1) buflen i (tgt[?n := 0]) = Inr (tgt[?n := 0])"
        using "1.prems" n by (intro stringcopy_pad_zero) auto
      have "min (nat buflen - 1) (length ?s) = ?n" using True lt by simp
      moreover have "take (nat buflen - 1) ?s = take ?n ?s" using True lt by simp
      ultimately show ?thesis
        using lt src z p upd "1.prems" n by (simp add: stringcopy_loop.simps [of i])
    next
      case False
      then have m: "?n < length ?s" using n by simp
      have c: "src ! ?n = ?s ! ?n" "src ! ?n \<noteq> 0"
        using cstr_nth [OF m] cstr_nonzero nth_mem [OF m] by auto
      have n1: "nat (i + 1) = Suc ?n" using "1.prems" by simp
      have tk: "take (nat (i + 1)) (tgt[?n := src ! ?n]) = take (nat (i + 1)) ?s"
        unfolding n1 using upd len m c by (simp add: take_Suc_conv_app_nth)
      have step: "stringcopy_loop i tgt src buflen
          = stringcopy_loop (i + 1) (tgt[?n := src ! ?n]) src buflen"
        using lt src c "1.prems" n by (simp add: stringcopy_loop.simps [of i])
      have ih: "stringcopy_loop (i + 1) (tgt[?n := src ! ?n]) src buflen =
        Inr (take (nat buflen - 1) ?s @ 0 #
          drop (Suc (min (nat buflen - 1) (length ?s))) (tgt[?n := src ! ?n]))"
        using "1.IH" [OF lt src _ c(2), of "tgt[?n := src ! ?n]"] tk m lt "1.prems" n by simp
      have "drop (Suc (min (nat buflen - 1) (length ?s))) (tgt[?n := src ! ?n])
        = drop (Suc (min (nat buflen - 1) (length ?s))) tgt"
        using m lt by (intro drop_update_cancel) auto
      with step ih show ?thesis by simp
    qed
  qed
qed

lemma stringcopy_eq:
  assumes "0 < buflen" and "buflen \<le> int (length tgt)" and "terminated src"
  shows "stringcopy tgt src buflen =
    Inr (take (nat buflen - 1) (cstr src) @ 0 #
         drop (Suc (min (nat buflen - 1) (length (cstr src)))) tgt)"
  using assms by (simp add: stringcopy_def stringcopy_loop_eq)

text \<open>A source without a terminator is copied the same way when it is at least as long as the buffer.\<close>

lemma stringcopy_loop_append:
  "0 \<le> i \<Longrightarrow> buflen - 1 \<le> int (length src) \<Longrightarrow>
   stringcopy_loop i tgt (src @ ys) buflen = stringcopy_loop i tgt src buflen"
proof (induction i tgt src buflen rule: stringcopy_loop.induct)
  case (1 i tgt src buflen)
  have "lget (src @ ys) i = lget src i" if "i < buflen - 1"
    using "1.prems" that by (simp add: lget_def nth_append nat_less_iff)
  then show ?case
    using 1 by (auto simp: stringcopy_loop.simps [of i] intro!: rbind_cong)
qed

lemma stringcopy_append: "buflen - 1 \<le> int (length src) \<Longrightarrow> stringcopy tgt (src @ ys) buflen = stringcopy tgt src buflen"
  by (simp add: stringcopy_def stringcopy_loop_append)

lemma stringcopy_ends:
  assumes "0 < buflen" and "buflen \<le> int (length tgt)" and "buflen \<le> int (length src)"
  shows "\<exists>tgt'. stringcopy tgt src buflen = Inr tgt' \<and> length tgt' = length tgt"
  using stringcopy_eq [OF assms(1,2), of "src @ [0]"] stringcopy_append [of buflen src tgt "[0]"] assms
  by auto

lemma zero_notin_cstr: "0 \<notin> set (cstr src)"
  using cstr_nonzero by blast

lemma cstr_stringcopy:
  assumes "0 < buflen" and "buflen \<le> int (length tgt)" and "terminated src"
    and "stringcopy tgt src buflen = Inr tgt'"
  shows "cstr tgt' = take (nat buflen - 1) (cstr src)" and "length tgt' = length tgt"
    and "terminated tgt'"
proof -
  have eq: "tgt' = take (nat buflen - 1) (cstr src) @ 0 #
         drop (Suc (min (nat buflen - 1) (length (cstr src)))) tgt"
    using assms by (simp add: stringcopy_eq)
  have "0 \<notin> set (take (nat buflen - 1) (cstr src))"
    using zero_notin_cstr in_set_takeD by fast
  then show "cstr tgt' = take (nat buflen - 1) (cstr src)"
    by (simp add: eq cstr_append_zero)
  show "terminated tgt'" by (simp add: eq)
  show "length tgt' = length tgt"
    using assms(1,2) by (auto simp: eq min_def)
qed

lemma strlen_eq: "terminated s \<Longrightarrow> strlen s = Inr (int (length (cstr s)))"
  by (induction s) auto

section \<open>Memory lemmas\<close>

text \<open>The reference: the target range holds what the source range held, the rest is unchanged.\<close>

definition copied :: "int \<Rightarrow> int \<Rightarrow> int \<Rightarrow> mem \<Rightarrow> mem" where
  "copied n t s m = (\<lambda>a. if t \<le> a \<and> a < t + n then m (s + (a - t)) else m a)"

lemma copied_0 [simp]: "copied 0 t s m = m"
  by (rule ext) (auto simp: copied_def)

text \<open>
  A copy towards lower addresses, or between ranges that do not meet, reads every byte before
  it is overwritten.
\<close>

definition copy_safe :: "int \<Rightarrow> int \<Rightarrow> int \<Rightarrow> bool" where
  "copy_safe n t s \<longleftrightarrow> t \<le> s \<or> s + n \<le> t"

lemma memcopy_bytes_eq: "copy_safe (int n) t s \<Longrightarrow> memcopy_bytes n t s m = copied (int n) t s m"
proof (induction n arbitrary: t s m)
  case 0
  then show ?case by simp
next
  case (Suc n)
  have "copy_safe (int n) (t + 1) (s + 1)"
    using Suc.prems by (auto simp: copy_safe_def)
  then have "memcopy_bytes (Suc n) t s m = copied (int n) (t + 1) (s + 1) (m(t := m s))"
    by (simp only: memcopy_bytes.simps Suc.IH)
  also have "\<dots> = copied (int (Suc n)) t s m"
    using Suc.prems by (auto simp: copied_def copy_safe_def fun_eq_iff)
  finally show ?case .
qed

lemma copy_word_eq: "copy_word t s m = copied 4 t s m"
  by (rule ext) (auto simp: copy_word_def copied_def fun_upd_def)

lemma copied_copied:
  "0 \<le> n \<Longrightarrow> 0 \<le> k \<Longrightarrow> t \<le> s \<or> s + n + k \<le> t \<Longrightarrow>
   copied k (t + n) (s + n) (copied n t s m) = copied (n + k) t s m"
  by (rule ext) (auto simp: copied_def)

lemma memcopy_words_eq:
  "copy_safe (4 * int n) t s \<Longrightarrow> memcopy_words n t s m = copied (4 * int n) t s m"
proof (induction n arbitrary: t s m)
  case 0
  then show ?case by simp
next
  case (Suc n)
  have "copy_safe (4 * int n) (t + 4) (s + 4)"
    using Suc.prems by (auto simp: copy_safe_def)
  then have "memcopy_words (Suc n) t s m = copied (4 * int n) (t + 4) (s + 4) (copied 4 t s m)"
    by (simp add: Suc.IH copy_word_eq)
  also have "\<dots> = copied (4 + 4 * int n) t s m"
    using Suc.prems by (intro copied_copied) (auto simp: copy_safe_def)
  finally show ?case by (simp add: algebra_simps)
qed

lemma memcopy_eq:
  assumes "0 \<le> n" and "copy_safe n t s"
  shows "memcopy n t s m = copied n t s m"
proof (cases "t mod 4 \<noteq> 0 \<or> s mod 4 \<noteq> 0")
  case True
  then show ?thesis
    using assms by (simp add: memcopy_def memcopy_bytes_eq)
next
  case False
  define w where "w = nat n div 4"
  define r where "r = nat n mod 4"
  have n: "n = 4 * int w + int r"
    using assms(1) by (simp add: w_def r_def zdiv_int zmod_int)
  have safe: "copy_safe (4 * int w) t s" "copy_safe (int r) (t + 4 * int w) (s + 4 * int w)"
    using assms(2) n by (auto simp: copy_safe_def)
  have "memcopy n t s m =
      copied (int r) (t + 4 * int w) (s + 4 * int w) (copied (4 * int w) t s m)"
    using False safe by (simp add: memcopy_def Let_def w_def r_def memcopy_bytes_eq memcopy_words_eq)
  also have "\<dots> = copied (4 * int w + int r) t s m"
    using assms(2) n by (intro copied_copied) (auto simp: copy_safe_def)
  finally show ?thesis by (simp add: n)
qed

lemma memoryset_loop_eq:
  "memoryset_loop n t v m = (\<lambda>a. if t \<le> a \<and> a < t + int n then v else m a)"
  by (induction n arbitrary: t m) (auto simp: fun_eq_iff)

lemma memoryset_eq:
  "memoryset t v n m = (\<lambda>a. if t \<le> a \<and> a < t + n then v else m a)"
  by (rule ext) (auto simp: memoryset_def memoryset_loop_eq)

section \<open>Byte order lemmas\<close>

lemma length_bytes32 [simp]: "length (bytes32 e x) = 4"
  by (cases e) (simp_all add: bytes32_def Let_def)

lemma word32_le_bytes:
  "word32_le (ucast x) (ucast (drop_bit 8 x)) (ucast (drop_bit 16 x)) (ucast (drop_bit 24 x)) = x"
proof (rule bit_word_eqI)
  fix n
  assume "n < LENGTH(32)"
  then consider "n < 8" | "8 \<le> n" "n < 16" | "16 \<le> n" "n < 24" | "24 \<le> n" "n < 32"
    by fastforce
  then show "bit (word32_le (ucast x) (ucast (drop_bit 8 x)) (ucast (drop_bit 16 x))
      (ucast (drop_bit 24 x))) n = bit x n"
    by cases (auto simp: word32_le_def bit_simps)
qed

lemma bytes32_word32_le:
  "bytes32 Little (word32_le b0 b1 b2 b3) = [b0, b1, b2, b3]"
proof -
  have high: "\<not> bit b (k + n)" if "8 \<le> k" for b :: byte and k n
    using that bit_imp_le_length [of b "k + n"] by auto
  show ?thesis
    by (auto simp: bytes32_def word32_le_def bit_simps high intro!: bit_word_eqI)
qed

lemma word32_bytes32 [simp]: "word32 e (bytes32 e x) = x"
  by (cases e) (simp_all add: bytes32_def Let_def word32_le_bytes)

lemma bytes32_Big: "bytes32 Big x = rev (bytes32 Little x)"
  by (simp add: bytes32_def Let_def)

lemma bytes32_word32 [simp]: "length bs = 4 \<Longrightarrow> bytes32 e (word32 e bs) = bs"
  by (cases e) (auto simp: length_Suc_conv numeral_eq_Suc bytes32_Big bytes32_word32_le)

lemma word32_Big: "length bs = 4 \<Longrightarrow> word32 Big bs = word32 Little (rev bs)"
  by (auto simp: length_Suc_conv numeral_eq_Suc)

lemma swap32_swap32 [simp]: "swap32 (swap32 x) = x"
  by (simp add: swap32_def)

lemma bytes32_swap32: "bytes32 Little (swap32 x) = bytes32 Big x"
  by (simp add: swap32_def bytes32_Big)

lemma swap32_eq_iff: "swap32 x = swap32 y \<longleftrightarrow> x = y"
  by (metis swap32_swap32)

text \<open>A field stored in big-endian order is read back right on both builds.\<close>

lemma from_big_endian32_word32:
  "length bs = 4 \<Longrightarrow> from_big_endian32 e (word32 e bs) = word32 Big bs"
  by (cases e) (auto simp: from_big_endian32_def swap32_def word32_Big)

lemma from_big_endian32_involutive [simp]:
  "from_big_endian32 e (from_big_endian32 e x) = x"
  by (cases e) (simp_all add: from_big_endian32_def)

lemma bytes32_from_big_endian32: "bytes32 e (from_big_endian32 e x) = bytes32 Big x"
  by (cases e) (simp_all add: from_big_endian32_def bytes32_swap32)

lemma ucast_minus_1_byte:
  "(ucast (mask 8 :: u32) :: byte) = - 1" "(ucast (mask 16 :: u32) :: byte) = - 1"
  "(ucast (mask 24 :: u32) :: byte) = - 1" "(ucast (- 1 :: u32) :: byte) = - 1"
  by (auto intro!: bit_word_eqI simp: bit_simps)

lemma swap32_0 [simp]: "swap32 0 = 0"
  by (simp add: swap32_def bytes32_def word32_le_def)

lemma swap32_minus_1 [simp]: "swap32 (- 1) = - 1"
  using word32_bytes32 [of Little "- 1"]
  by (simp add: swap32_def bytes32_def word32_le_def ucast_minus_1_byte)

lemma from_big_endian32_0 [simp]: "from_big_endian32 e 0 = 0"
  by (cases e) (simp_all add: from_big_endian32_def)

lemma from_big_endian32_minus_1 [simp]: "from_big_endian32 e (- 1) = - 1"
  by (cases e) (simp_all add: from_big_endian32_def)

lemma from_big_endian32_eq_0_iff [simp]: "from_big_endian32 e x = 0 \<longleftrightarrow> x = 0"
  by (metis from_big_endian32_0 from_big_endian32_involutive)

section \<open>Numbers\<close>

fun digits_value :: "int \<Rightarrow> byte list \<Rightarrow> int" where
  "digits_value acc [] = acc"
| "digits_value acc (d # ds) = digits_value (10 * acc + (sint d - 48)) ds"

lemma digits_value_ge: "\<forall>d \<in> set ds. is_digit d \<Longrightarrow> 0 \<le> acc \<Longrightarrow> acc \<le> digits_value acc ds"
proof (induction ds arbitrary: acc)
  case (Cons d ds)
  then have "0 \<le> sint d - 48" by (simp add: is_digit_def)
  moreover from this Cons have "10 * acc + (sint d - 48) \<le> digits_value (10 * acc + (sint d - 48)) ds"
    by simp
  ultimately show ?case using Cons.prems by simp
qed simp

lemma atoi_digits_pos:
  "\<forall>d \<in> set ds. is_digit d \<Longrightarrow> \<not> is_digit c \<Longrightarrow> 0 \<le> acc \<Longrightarrow> digits_value acc ds < 2 ^ 31 \<Longrightarrow>
   atoi_digits 1 acc (ds @ c # rest) = Inr (digits_value acc ds)"
proof (induction ds arbitrary: acc)
  case (Cons d ds)
  let ?v = "10 * acc + (sint d - 48)"
  have v: "0 \<le> ?v" using Cons.prems by (simp add: is_digit_def)
  have "?v \<le> digits_value ?v ds" using Cons.prems v digits_value_ge [of ds ?v] by simp
  then have "c_int ?v = ?v" using v Cons.prems by (intro c_int_id) auto
  then show ?case using Cons v by simp
qed simp

lemma atoi_digits_neg:
  "\<forall>d \<in> set ds. is_digit d \<Longrightarrow> \<not> is_digit c \<Longrightarrow> 0 \<le> acc \<Longrightarrow> digits_value acc ds \<le> 2 ^ 31 \<Longrightarrow>
   atoi_digits (- 1) (- acc) (ds @ c # rest) = Inr (- digits_value acc ds)"
proof (induction ds arbitrary: acc)
  case (Cons d ds)
  let ?v = "10 * acc + (sint d - 48)"
  have v: "0 \<le> ?v" using Cons.prems by (simp add: is_digit_def)
  have "?v \<le> digits_value ?v ds" using Cons.prems v digits_value_ge [of ds ?v] by simp
  then have "c_int (- ?v) = - ?v" using v Cons.prems by (intro c_int_id) auto
  moreover have "10 * (- acc) + (- 1) * (sint d - 48) = - ?v" by simp
  ultimately have "c_int (10 * (- acc) + (- 1) * (sint d - 48)) = - ?v" by metis
  then have "atoi_digits (- 1) (- acc) ((d # ds) @ c # rest) =
      atoi_digits (- 1) (- ?v) (ds @ c # rest)"
    using Cons.prems by (simp only: append_Cons atoi_digits.simps) simp
  also have "\<dots> = Inr (- digits_value ?v ds)"
    using Cons.prems v by (intro Cons.IH) auto
  finally show ?case by simp
qed simp

lemma atoi_skip_spaces:
  "\<forall>c \<in> set ws. is_space c \<Longrightarrow> \<not> is_space c \<or> c = 0 \<Longrightarrow> atoi_skip (ws @ c # s) = c # s"
  by (induction ws) (auto simp: is_space_def)

lemma is_digit_not_special: "is_digit c \<Longrightarrow> \<not> is_space c \<and> c \<noteq> 0 \<and> c \<noteq> 45 \<and> c \<noteq> 43"
  by (auto simp: is_digit_def is_space_def)

lemma wordpad_eq:
  assumes "unat x \<le> 2 ^ 32 - 4"
  shows "unat (wordpad x) = 4 * ((unat x + 3) div 4)"
proof -
  have m: "unat (x mod 4) = unat x mod 4" by (simp add: unat_mod)
  show ?thesis
  proof (cases "x mod 4 = 0")
    case True
    then have "unat x mod 4 = 0" using m by simp
    then show ?thesis using True by (auto simp: wordpad_def)
  next
    case False
    then have nz: "unat x mod 4 \<noteq> 0" using m by (metis unat_eq_zero)
    have "x mod 4 \<le> 4" by (simp add: word_le_nat_alt m)
    then have "unat (4 - x mod 4) = 4 - unat x mod 4"
      using m by (simp add: unat_sub)
    moreover have "unat x + (4 - unat x mod 4) < 2 ^ 32"
      using assms nz by presburger
    ultimately have "unat (wordpad x) = unat x + (4 - unat x mod 4)"
      using False by (simp add: wordpad_def unat_word_ariths)
    then show ?thesis using nz by presburger
  qed
qed

section \<open>The random numbers of x86_64\<close>

lemma get_rand_range: "0 \<le> get_rand n \<and> get_rand n < 32768"
  by (simp add: get_rand_def)

text \<open>The numbers repeat after 135: of the 32768 values only so many are drawn after the initial value of \<open>next\<close>.\<close>

lemma get_rand_cycle: "(get_rand ^^ 135) 1 = 1"
  by code_simp

text \<open>The scheduler asks for a number below its time slice of 750 ticks; the fourth is already larger.\<close>

lemma get_rand_fourth: "(get_rand ^^ 4) 1 = 1997"
  by code_simp

end
