(* ===== verification/Bitmap.thy ===== *)
theory Bitmap
  imports Kudos_Prelude
begin

text \<open>
  Bitmaps (\<^verbatim>\<open>src/kudos/lib/bitmap.c\<close>): arrays of 32-bit words in which a position is one bit.
  The interface \<open>bit_allocator\<close> says what a client may rely on: reading and writing one
  position, and allocating the lowest free position below a limit. The kernel's bitmap is an
  instance at the end of the theory; the disk tool's own copy of the routines is another
  (theory \<open>Tfstool\<close>).
\<close>

section \<open>The kernel's bitmap\<close>

type_synonym bitmap = "u32 list"

definition bitmap_sizeof :: "int \<Rightarrow> int" where
  "bitmap_sizeof num_bits = c_div (num_bits + 31) 32 * 4"

function bitmap_init_loop :: "int \<Rightarrow> int \<Rightarrow> bitmap \<Rightarrow> bitmap res" where
  "bitmap_init_loop i n bm =
     (if i < n then rbind (lset bm i 0) (\<lambda>bm'. bitmap_init_loop (i + 1) n bm') else Inr bm)"
  by pat_completeness auto
termination
  by (relation "measure (\<lambda>(i, n, bm). nat (n - i))") auto

definition bitmap_init :: "bitmap \<Rightarrow> int \<Rightarrow> bitmap res" where
  "bitmap_init bm sz =
     rbind (kassert (sz \<ge> 0)) (\<lambda>_. bitmap_init_loop 0 (c_div (sz + 31) 32) bm)"

definition bitmap_get :: "bitmap \<Rightarrow> int \<Rightarrow> int res" where
  "bitmap_get bm pos =
     rbind (kassert (pos \<ge> 0)) (\<lambda>_.
     rbind (lget bm (c_div pos 32)) (\<lambda>w.
     Inr (uint (drop_bit (nat (c_mod pos 32)) w AND 1))))"

definition bitmap_set :: "bitmap \<Rightarrow> int \<Rightarrow> int \<Rightarrow> bitmap res" where
  "bitmap_set bm pos value =
     rbind (kassert (pos \<ge> 0)) (\<lambda>_.
     let i = c_div pos 32; j = nat (c_mod pos 32) in
     if value = 0 then rbind (lget bm i) (\<lambda>w. lset bm i (w AND NOT (push_bit j 1)))
     else if value = 1 then rbind (lget bm i) (\<lambda>w. lset bm i (w OR push_bit j 1))
     else Inl Panic)"

text \<open>
  \<open>bitmap_findnset\<close>: the scan of the bits of one word (\<open>None\<close>: the loop ran to its end) and
  the scan of the words.
\<close>

function findnset_bits :: "bitmap \<Rightarrow> int \<Rightarrow> int \<Rightarrow> int \<Rightarrow> (int \<times> bitmap) option res" where
  "findnset_bits bm l basepos j =
     (if j < 32 then
        rbind (bitmap_get bm (basepos + j)) (\<lambda>b.
        if b = 0 then
          (if basepos + j \<ge> l then Inr (Some (- 1, bm))
           else rbind (bitmap_set bm (basepos + j) 1) (\<lambda>bm'. Inr (Some (basepos + j, bm'))))
        else findnset_bits bm l basepos (j + 1))
      else Inr None)"
  by pat_completeness auto
termination
  by (relation "measure (\<lambda>(bm, l, basepos, j). nat (32 - j))") auto

function findnset_words :: "bitmap \<Rightarrow> int \<Rightarrow> int \<Rightarrow> (int \<times> bitmap) res" where
  "findnset_words bm l i =
     (if i < c_div (bitmap_sizeof l) 4 then
        rbind (lget bm i) (\<lambda>w.
        if w \<noteq> 0xffffffff then
          rbind (findnset_bits bm l (i * 32) 0) (\<lambda>r.
          case r of Some res \<Rightarrow> Inr res | None \<Rightarrow> findnset_words bm l (i + 1))
        else findnset_words bm l (i + 1))
      else Inr (- 1, bm))"
  by pat_completeness auto
termination
  by (relation "measure (\<lambda>(bm, l, i). nat (c_div (bitmap_sizeof l) 4 - i))") auto

definition bitmap_findnset :: "bitmap \<Rightarrow> int \<Rightarrow> (int \<times> bitmap) res" where
  "bitmap_findnset bm l = rbind (kassert (l \<ge> 0)) (\<lambda>_. findnset_words bm l 0)"

declare bitmap_init_loop.simps [simp del] findnset_bits.simps [simp del]
  findnset_words.simps [simp del]

section \<open>The set a bitmap stands for\<close>

text \<open>
  \<open>v\<close> is how a stored word is read: as it is by the kernel, converted from network order by
  the disk tool.
\<close>

definition used_bits :: "(u32 \<Rightarrow> u32) \<Rightarrow> bitmap \<Rightarrow> nat set" where
  "used_bits v bm = {p. p < 32 * length bm \<and> bit (v (bm ! (p div 32))) (p mod 32)}"

abbreviation kbits :: "bitmap \<Rightarrow> nat set" where
  "kbits \<equiv> used_bits (\<lambda>w. w)"

lemma used_bits_finite [simp]: "finite (used_bits v bm)"
  by (rule finite_subset [of _ "{..<32 * length bm}"]) (auto simp: used_bits_def)

lemma used_bits_iff:
  "p < 32 * length bm \<Longrightarrow> p \<in> used_bits v bm \<longleftrightarrow> bit (v (bm ! (p div 32))) (p mod 32)"
  by (simp add: used_bits_def)

lemma bit_test_eq: "uint (drop_bit j (w :: u32) AND 1) = (if bit w j then 1 else 0)"
proof -
  have "drop_bit j w AND 1 = (if bit w j then 1 else 0)"
    by (rule bit_word_eqI) (auto simp: bit_simps intro: gr0I)
  then show ?thesis by simp
qed

lemma bitmap_get_eq:
  "p < 32 * length bm \<Longrightarrow> bitmap_get bm (int p) = Inr (if p \<in> kbits bm then 1 else 0)"
  by (simp add: bitmap_get_def bit_test_eq used_bits_iff nat_div_distrib nat_mod_distrib
      less_mult_imp_div_less zdiv_int [symmetric] zmod_int [symmetric] mult.commute)

text \<open>Changing one bit of one word, whatever the reading.\<close>

lemma used_bits_update:
  assumes p: "p < 32 * length bm" and w: "\<And>k. k < 32 \<Longrightarrow>
      bit (v w') k = (if k = p mod 32 then b else bit (v (bm ! (p div 32))) k)"
  shows "used_bits v (bm[p div 32 := w']) =
      (if b then insert p (used_bits v bm) else used_bits v bm - {p})"
proof -
  have i: "p div 32 < length bm" using p by (simp add: less_mult_imp_div_less mult.commute)
  have "q \<in> used_bits v (bm[p div 32 := w']) \<longleftrightarrow>
      q < 32 * length bm \<and> (if q = p then b else q \<in> used_bits v bm)" for q
  proof (cases "q div 32 = p div 32")
    case True
    then have "q = p \<longleftrightarrow> q mod 32 = p mod 32" by (metis div_mult_mod_eq)
    then show ?thesis using True i w [of "q mod 32"] by (auto simp: used_bits_def)
  next
    case False
    then show ?thesis using i by (auto simp: used_bits_def)
  qed
  then show ?thesis using p by (auto simp: used_bits_def)
qed

lemma bitmap_set_eq:
  assumes p: "p < 32 * length bm" and b: "value \<in> {0, 1}"
  shows "\<exists>bm'. bitmap_set bm (int p) value = Inr bm' \<and> length bm' = length bm \<and>
    kbits bm' = (if value = 1 then insert p (kbits bm) else kbits bm - {p})"
proof -
  have i: "p div 32 < length bm" using p by (simp add: less_mult_imp_div_less mult.commute)
  let ?w = "bm ! (p div 32)"
  let ?w' = "if value = 1 then ?w OR push_bit (p mod 32) 1 else ?w AND NOT (push_bit (p mod 32) 1)"
  have "bitmap_set bm (int p) value = Inr (bm[p div 32 := ?w'])"
    using b i by (auto simp: bitmap_set_def Let_def nat_div_distrib nat_mod_distrib
        zdiv_int [symmetric] zmod_int [symmetric])
  moreover have "kbits (bm[p div 32 := ?w']) =
      (if value = 1 then insert p (kbits bm) else kbits bm - {p})"
    using b by (intro used_bits_update [OF p]) (auto simp: bit_simps)
  ultimately show ?thesis by auto
qed

section \<open>The search for a free position\<close>

text \<open>What \<open>bitmap_findnset\<close> has to return: the lowest free position below \<open>l\<close>, now taken.\<close>

definition first_free :: "nat set \<Rightarrow> nat \<Rightarrow> nat option" where
  "first_free used l = (if \<forall>p < l. p \<in> used then None else Some (LEAST p. p \<notin> used))"

lemma first_free_SomeI: "p \<notin> used \<Longrightarrow> p < l \<Longrightarrow> \<forall>q < p. q \<in> used \<Longrightarrow> first_free used l = Some p"
  unfolding first_free_def using not_less_Least
  by (auto intro!: Least_equality simp: not_less [symmetric])

lemma first_free_SomeD:
  assumes "first_free used l = Some p"
  shows "p < l" and "p \<notin> used" and "q < p \<Longrightarrow> q \<in> used"
proof -
  from assms obtain r where r: "r < l" "r \<notin> used" and p: "p = (LEAST p. p \<notin> used)"
    by (auto simp: first_free_def split: if_splits)
  show "p < l" using r Least_le [of "\<lambda>p. p \<notin> used" r] by (simp add: p)
  show "p \<notin> used" using r LeastI [of "\<lambda>p. p \<notin> used" r] by (simp add: p)
  show "q < p \<Longrightarrow> q \<in> used" using not_less_Least [of q "\<lambda>p. p \<notin> used"] by (auto simp: p)
qed

lemma first_free_None_iff: "first_free used l = None \<longleftrightarrow> (\<forall>p < l. p \<in> used)"
  by (simp add: first_free_def)

text \<open>What is returned for a found position, or for none.\<close>

definition take_free :: "bitmap \<Rightarrow> nat option \<Rightarrow> (int \<times> bitmap) res" where
  "take_free bm r =
     (case r of None \<Rightarrow> Inr (- 1, bm)
      | Some p \<Rightarrow> rbind (bitmap_set bm (int p) 1) (\<lambda>bm'. Inr (int p, bm')))"

text \<open>One word, when everything below bit \<open>j\<close> of word \<open>i\<close> is taken.\<close>

lemma findnset_bits_eq:
  assumes "i < length bm" and "j \<le> 32" and "\<forall>q < 32 * i + j. q \<in> kbits bm"
  shows "findnset_bits bm (int l) (int (32 * i)) (int j) =
    (if \<forall>q < 32 * Suc i. q \<in> kbits bm then Inr None
     else rbind (take_free bm (first_free (kbits bm) l)) (\<lambda>r. Inr (Some r)))"
  using assms(2,3)
proof (induction "32 - j" arbitrary: j)
  case 0
  then show ?case by (simp add: findnset_bits.simps)
next
  case (Suc d)
  then have j: "j < 32" by simp
  let ?p = "32 * i + j"
  have get: "bitmap_get bm (int (32 * i) + int j) = Inr (if ?p \<in> kbits bm then 1 else 0)"
    using bitmap_get_eq [of ?p bm] assms(1) j by simp
  show ?case
  proof (cases "?p \<in> kbits bm")
    case True
    then have "\<forall>q < 32 * i + Suc j. q \<in> kbits bm"
      using Suc.prems by (auto simp: less_Suc_eq)
    then have ih: "findnset_bits bm (int l) (int (32 * i)) (int (Suc j)) =
        (if \<forall>q < 32 * Suc i. q \<in> kbits bm then Inr None
         else rbind (take_free bm (first_free (kbits bm) l)) (\<lambda>r. Inr (Some r)))"
      using Suc.hyps(2) j by (intro Suc.hyps(1)) auto
    have "findnset_bits bm (int l) (int (32 * i)) (int j) =
        findnset_bits bm (int l) (int (32 * i)) (int (Suc j))"
      using True j get by (subst findnset_bits.simps) (simp add: add.commute)
    with ih show ?thesis by simp
  next
    case False
    then have notall: "\<not> (\<forall>q < 32 * Suc i. q \<in> kbits bm)"
      using j by (auto intro!: exI [of _ ?p])
    have ff: "first_free (kbits bm) l = (if ?p < l then Some ?p else None)"
      using False Suc.prems by (auto simp: first_free_None_iff intro: first_free_SomeI)
    show ?thesis
      using False j get notall
      by (subst findnset_bits.simps) (auto simp: ff take_free_def rbind_assoc)
  qed
qed

lemma word_full_bits: "(w :: u32) = 0xffffffff \<Longrightarrow> k < 32 \<Longrightarrow> bit w k"
proof -
  have "(0xffffffff :: u32) = - 1" by simp
  then show "w = 0xffffffff \<Longrightarrow> k < 32 \<Longrightarrow> bit w k" by (simp only: bit_minus_1_iff) simp
qed

lemma word_count_eq: "c_div (bitmap_sizeof (int l)) 4 = int ((l + 31) div 32)"
  by (simp add: bitmap_sizeof_def zdiv_int)

lemma findnset_words_eq:
  assumes "i \<le> (l + 31) div 32" and "(l + 31) div 32 \<le> length bm"
    and "\<forall>q < 32 * i. q \<in> kbits bm"
  shows "findnset_words bm (int l) (int i) = take_free bm (first_free (kbits bm) l)"
  using assms(1,3)
proof (induction "(l + 31) div 32 - i" arbitrary: i)
  case 0
  then have "l \<le> 32 * i" by simp
  then have "first_free (kbits bm) l = None" using 0 by (auto simp: first_free_None_iff)
  then show ?case
    using 0 by (simp add: findnset_words.simps [of bm _ "int i"] word_count_eq take_free_def)
next
  case (Suc d)
  have i: "i < (l + 31) div 32" "i < length bm" using Suc.hyps assms(2) by auto
  have unfold: "findnset_words bm (int l) (int i) =
      (if bm ! i \<noteq> 0xffffffff then
         rbind (findnset_bits bm (int l) (int (32 * i)) (int 0)) (\<lambda>r.
         case r of Some res \<Rightarrow> Inr res | None \<Rightarrow> findnset_words bm (int l) (int i + 1))
       else findnset_words bm (int l) (int i + 1))"
    using i by (subst findnset_words.simps) (simp add: word_count_eq mult.commute)
  have next_word: "findnset_words bm (int l) (int i + 1) = take_free bm (first_free (kbits bm) l)"
    if "\<forall>q < 32 * Suc i. q \<in> kbits bm"
  proof -
    have "findnset_words bm (int l) (int (Suc i)) = take_free bm (first_free (kbits bm) l)"
      using that Suc.hyps i by (intro Suc.hyps(1)) auto
    then show ?thesis by (simp add: add.commute)
  qed
  show ?case
  proof (cases "\<forall>q < 32 * Suc i. q \<in> kbits bm")
    case True
    then show ?thesis
      using unfold next_word findnset_bits_eq [of i bm 0 l] i Suc.prems by simp
  next
    case False
    then obtain q where q: "q < 32 * Suc i" "q \<notin> kbits bm" by blast
    then have "32 * i \<le> q" using Suc.prems(2) by (meson not_le)
    then have "q div 32 = i" "q mod 32 < 32" using q(1) by auto
    then have "\<not> bit (bm ! i) (q mod 32)" using q i by (auto simp: used_bits_def)
    then have "bm ! i \<noteq> 0xffffffff" using word_full_bits [of "bm ! i" "q mod 32"] by auto
    then show ?thesis
      using unfold findnset_bits_eq [of i bm 0 l] i Suc.prems False
      by (auto simp: take_free_def rbind_def split: option.split sum.split)
  qed
qed

lemma bitmap_findnset_eq:
  "l \<le> 32 * length bm \<Longrightarrow>
   bitmap_findnset bm (int l) = take_free bm (first_free (kbits bm) l)"
  using findnset_words_eq [of 0 l bm] by (simp add: bitmap_findnset_def)

section \<open>The interface clients rely on\<close>

text \<open>
  A client's loops over an allocator: taking \<open>n\<close> positions (giving up at the first \<open>-1\<close>),
  releasing a list of positions, and adding up the bits of a range.
\<close>

fun alloc_many :: "('b \<Rightarrow> int \<Rightarrow> (int \<times> 'b) res) \<Rightarrow> nat \<Rightarrow> 'b \<Rightarrow> int \<Rightarrow> (int list \<times> 'b) option res" where
  "alloc_many findnset 0 b l = Inr (Some ([], b))"
| "alloc_many findnset (Suc n) b l =
     rbind (findnset b l) (\<lambda>(p, b').
     if p = - 1 then Inr None
     else rbind (alloc_many findnset n b' l) (\<lambda>r.
          Inr (map_option (\<lambda>(ps, b''). (p # ps, b'')) r)))"

fun free_many :: "('b \<Rightarrow> int \<Rightarrow> int \<Rightarrow> 'b res) \<Rightarrow> int list \<Rightarrow> 'b \<Rightarrow> 'b res" where
  "free_many setb [] b = Inr b"
| "free_many setb (p # ps) b = rbind (setb b p 0) (\<lambda>b'. free_many setb ps b')"

fun count_range :: "('b \<Rightarrow> int \<Rightarrow> int res) \<Rightarrow> 'b \<Rightarrow> nat \<Rightarrow> nat \<Rightarrow> int res" where
  "count_range getb b i 0 = Inr 0"
| "count_range getb b i (Suc n) =
     rbind (getb b (int i)) (\<lambda>x. rbind (count_range getb b (Suc i) n) (\<lambda>y. Inr (x + y)))"

locale bit_allocator =
  fixes getb :: "'b \<Rightarrow> int \<Rightarrow> int res"
    and setb :: "'b \<Rightarrow> int \<Rightarrow> int \<Rightarrow> 'b res"
    and findnset :: "'b \<Rightarrow> int \<Rightarrow> (int \<times> 'b) res"
    and used :: "'b \<Rightarrow> nat set"
    and cap :: "'b \<Rightarrow> nat"
  assumes get_law: "p < cap b \<Longrightarrow> getb b (int p) = Inr (if p \<in> used b then 1 else 0)"
    and set_law: "p < cap b \<Longrightarrow> x \<in> {0, 1} \<Longrightarrow>
      \<exists>b'. setb b (int p) x = Inr b' \<and> cap b' = cap b \<and>
           used b' = (if x = 1 then insert p (used b) else used b - {p})"
    and findnset_some: "l \<le> cap b \<Longrightarrow> first_free (used b) l = Some p \<Longrightarrow>
      \<exists>b'. findnset b (int l) = Inr (int p, b') \<and> cap b' = cap b \<and> used b' = insert p (used b)"
    and findnset_none: "l \<le> cap b \<Longrightarrow> first_free (used b) l = None \<Longrightarrow>
      findnset b (int l) = Inr (- 1, b)"
begin

lemma alloc_many_ok:
  assumes "l \<le> cap b" and "n \<le> card ({..<l} - used b)"
  shows "\<exists>ps b'. alloc_many findnset n b (int l) = Inr (Some (map int ps, b')) \<and>
    length ps = n \<and> distinct ps \<and> set ps \<subseteq> {..<l} - used b \<and>
    cap b' = cap b \<and> used b' = used b \<union> set ps"
  using assms
proof (induction n arbitrary: b)
  case 0
  then show ?case by auto
next
  case (Suc n)
  have "{..<l} - used b \<noteq> {}" using Suc.prems(2) by force
  then obtain p where p: "first_free (used b) l = Some p"
    using first_free_None_iff [of "used b" l] by (cases "first_free (used b) l") auto
  note pD = first_free_SomeD [OF p]
  obtain b' where b': "findnset b (int l) = Inr (int p, b')" "cap b' = cap b"
      "used b' = insert p (used b)"
    using findnset_some [OF Suc.prems(1) p] by blast
  have "{..<l} - used b' = ({..<l} - used b) - {p}" using b'(3) by auto
  then have "card ({..<l} - used b') = card ({..<l} - used b) - 1"
    using pD by (simp add: card_Diff_singleton)
  then have "n \<le> card ({..<l} - used b')" using Suc.prems(2) by simp
  then obtain ps b'' where ps: "alloc_many findnset n b' (int l) = Inr (Some (map int ps, b''))"
      "length ps = n" "distinct ps" "set ps \<subseteq> {..<l} - used b'" "cap b'' = cap b'"
      "used b'' = used b' \<union> set ps"
    using Suc.IH [of b'] Suc.prems(1) b'(2) by auto
  have "alloc_many findnset (Suc n) b (int l) = Inr (Some (map int (p # ps), b''))"
    using b'(1) ps(1) by simp
  moreover have "length (p # ps) = Suc n" "distinct (p # ps)" "set (p # ps) \<subseteq> {..<l} - used b"
      "cap b'' = cap b" "used b'' = used b \<union> set (p # ps)"
    using ps b' pD by auto
  ultimately show ?case by blast
qed

lemma alloc_many_fail:
  assumes "l \<le> cap b" and "card ({..<l} - used b) < n"
  shows "alloc_many findnset n b (int l) = Inr None"
  using assms
proof (induction n arbitrary: b)
  case 0
  then show ?case by simp
next
  case (Suc n)
  show ?case
  proof (cases "first_free (used b) l")
    case None
    then show ?thesis using findnset_none [OF Suc.prems(1)] by simp
  next
    case (Some p)
    note pD = first_free_SomeD [OF Some]
    obtain b' where b': "findnset b (int l) = Inr (int p, b')" "cap b' = cap b"
        "used b' = insert p (used b)"
      using findnset_some [OF Suc.prems(1) Some] by blast
    have "{..<l} - used b' \<subset> {..<l} - used b" using b'(3) pD by auto
    then have "card ({..<l} - used b') < card ({..<l} - used b)"
      by (intro psubset_card_mono) auto
    then have "alloc_many findnset n b' (int l) = Inr None"
      using Suc.IH [of b'] Suc.prems b'(2) by simp
    then show ?thesis using b'(1) by simp
  qed
qed

lemma free_many_ok:
  "\<forall>p \<in> set ps. p < cap b \<Longrightarrow>
   \<exists>b'. free_many setb (map int ps) b = Inr b' \<and> cap b' = cap b \<and> used b' = used b - set ps"
proof (induction ps arbitrary: b)
  case Nil
  then show ?case by simp
next
  case (Cons p ps)
  obtain b' where b': "setb b (int p) 0 = Inr b'" "cap b' = cap b" "used b' = used b - {p}"
    using set_law [of p b 0] Cons.prems by auto
  obtain b'' where "free_many setb (map int ps) b' = Inr b''" "cap b'' = cap b'"
      "used b'' = used b' - set ps"
    using Cons.IH [of b'] Cons.prems b'(2) by auto
  then show ?case using b' by auto
qed

lemma count_range_eq:
  "i + n \<le> cap b \<Longrightarrow> count_range getb b i n = Inr (int (card (used b \<inter> {i..<i + n})))"
proof (induction n arbitrary: i)
  case 0
  then show ?case by simp
next
  case (Suc n)
  have parts: "used b \<inter> {i..<i + Suc n} =
      (if i \<in> used b then insert i (used b \<inter> {Suc i..<Suc i + n})
       else used b \<inter> {Suc i..<Suc i + n})"
    by (auto simp: not_less_eq_eq Suc_le_eq le_less)
  have "card (used b \<inter> {i..<i + Suc n}) =
      (if i \<in> used b then 1 else 0) + card (used b \<inter> {Suc i..<Suc i + n})"
    unfolding parts by simp
  then show ?case
    using Suc.IH [of "Suc i"] Suc.prems get_law [of i b] by simp
qed

end

interpretation kb: bit_allocator bitmap_get bitmap_set bitmap_findnset kbits
    "\<lambda>bm. 32 * length bm"
proof (unfold_locales, goal_cases)
  case (1 p b)
  then show ?case by (rule bitmap_get_eq)
next
  case (2 p b x)
  then show ?case using bitmap_set_eq [of p b x] by auto
next
  case (3 l b p)
  then have "p < 32 * length b" using first_free_SomeD(1) [OF 3(2)] by simp
  then show ?case
    using bitmap_findnset_eq [OF 3(1)] bitmap_set_eq [of p b 1] 3(2) by (auto simp: take_free_def)
next
  case (4 l b)
  then show ?case by (simp add: bitmap_findnset_eq take_free_def)
qed

lemma bitmap_init_loop_eq:
  "i \<le> n \<Longrightarrow> n \<le> length bm \<Longrightarrow>
   bitmap_init_loop (int i) (int n) bm = Inr (take i bm @ replicate (n - i) 0 @ drop n bm)"
proof (induction "n - i" arbitrary: i bm)
  case 0
  then show ?case by (subst bitmap_init_loop.simps) simp
next
  case (Suc d)
  then have i: "i < n" "i < length bm" by auto
  have "bitmap_init_loop (int i) (int n) bm = bitmap_init_loop (int (Suc i)) (int n) (bm[i := 0])"
    using i by (subst bitmap_init_loop.simps) (simp add: add.commute)
  also have "\<dots> = Inr (take (Suc i) (bm[i := 0]) @ replicate (n - Suc i) 0 @ drop n (bm[i := 0]))"
    using Suc i by (intro Suc.hyps(1)) auto
  also have "\<dots> = Inr (take i bm @ replicate (n - i) 0 @ drop n bm)"
  proof -
    have "replicate (n - i) (0 :: u32) = 0 # replicate (n - Suc i) 0"
      using i by (metis Suc_diff_Suc replicate_Suc)
    then show ?thesis using i by (simp add: take_Suc_conv_app_nth)
  qed
  finally show ?case .
qed

lemma bitmap_init_eq:
  assumes "l \<le> 32 * length bm"
  shows "\<exists>bm'. bitmap_init bm (int l) = Inr bm' \<and> length bm' = length bm \<and>
    (\<forall>p < l. p \<notin> kbits bm')"
proof -
  let ?n = "(l + 31) div 32"
  let ?bm = "replicate ?n 0 @ drop ?n bm"
  have n: "?n \<le> length bm" using assms by simp
  have "bitmap_init bm (int l) = Inr ?bm"
    using bitmap_init_loop_eq [of 0 ?n bm] n by (simp add: bitmap_init_def zdiv_int)
  moreover have "p \<notin> kbits ?bm" if "p < l" for p
  proof -
    have "(p + 32) div 32 \<le> ?n" using that by (intro div_le_mono) simp
    then have "p div 32 < ?n" by simp
    then show ?thesis by (simp add: used_bits_def nth_append)
  qed
  ultimately show ?thesis using n by auto
qed

end
