(* ===== verification/Tfs.thy ===== *)
theory Tfs
  imports Libc Bitmap
begin

text \<open>
  The Trivial File System (\<^verbatim>\<open>src/kudos/fs/tfs.c\<close>, \<^verbatim>\<open>tfs_constants.h\<close>). The block device under it
  is reached through function pointers (\<^verbatim>\<open>src/kudos/drivers/gbd.h\<close>), so it is a parameter \<open>g\<close>
  of every operation, over any device state. The three block buffers of \<open>tfs_t\<close> are byte lists;
  their 32-bit fields are read and written in the byte order \<open>en\<close> of the build. The lock is the
  value of the file system's semaphore. A new file system has zeros in its block buffers, which the source leaves as the page was:
  every operation reads a block into a buffer, or fills it, before it uses the buffer.
\<close>

section \<open>Data\<close>

abbreviation (input) VFS_OK :: int where "VFS_OK \<equiv> 0"
abbreviation (input) VFS_NOT_SUPPORTED :: int where "VFS_NOT_SUPPORTED \<equiv> - 1"
abbreviation (input) VFS_ERROR :: int where "VFS_ERROR \<equiv> - 2"
abbreviation (input) VFS_INVALID_PARAMS :: int where "VFS_INVALID_PARAMS \<equiv> - 3"
abbreviation (input) VFS_NOT_OPEN :: int where "VFS_NOT_OPEN \<equiv> - 4"
abbreviation (input) VFS_NOT_FOUND :: int where "VFS_NOT_FOUND \<equiv> - 5"
abbreviation (input) VFS_NO_SUCH_FS :: int where "VFS_NO_SUCH_FS \<equiv> - 6"
abbreviation (input) VFS_LIMIT :: int where "VFS_LIMIT \<equiv> - 7"
abbreviation (input) VFS_IN_USE :: int where "VFS_IN_USE \<equiv> - 8"
abbreviation (input) VFS_UNUSABLE :: int where "VFS_UNUSABLE \<equiv> - 9"

abbreviation (input) TFS_BLOCK_SIZE :: int where "TFS_BLOCK_SIZE \<equiv> 512"
abbreviation (input) TFS_ALLOCATION_BLOCK :: u32 where "TFS_ALLOCATION_BLOCK \<equiv> 1"
abbreviation (input) TFS_DIRECTORY_BLOCK :: u32 where "TFS_DIRECTORY_BLOCK \<equiv> 2"
abbreviation (input) TFS_FILENAME_MAX :: int where "TFS_FILENAME_MAX \<equiv> 16"
abbreviation (input) TFS_MAX_FILES :: nat where "TFS_MAX_FILES \<equiv> 25"
abbreviation (input) TFS_BLOCKS_MAX :: int where "TFS_BLOCKS_MAX \<equiv> 127"

text \<open>A generic block device. A read gives the block, or \<open>None\<close> when the driver returns 0.\<close>

record 'd gbd =
  gbd_block_size :: "'d \<Rightarrow> u32"
  gbd_total_blocks :: "'d \<Rightarrow> u32"
  gbd_read_block :: "'d \<Rightarrow> u32 \<Rightarrow> byte list option \<times> 'd"
  gbd_write_block :: "'d \<Rightarrow> u32 \<Rightarrow> byte list \<Rightarrow> bool \<times> 'd"

record 'd tfs =
  startblock :: u32
  totalblocks :: u32
  disk :: 'd
  lock :: int
  buffer_inode :: "byte list"
  buffer_bat :: "byte list"
  buffer_md :: "byte list"

type_synonym ('a, 'd) tfs_m = "'d tfs \<Rightarrow> ('a \<times> 'd tfs) res"

section \<open>Fields of a buffer\<close>

definition wget :: "endian \<Rightarrow> byte list \<Rightarrow> int \<Rightarrow> u32 res" where
  "wget en buf k = (if 0 \<le> k \<and> 4 * k + 4 \<le> int (length buf)
     then Inr (word32 en (take 4 (drop (4 * nat k) buf))) else Inl OutOfBounds)"

definition wset :: "endian \<Rightarrow> byte list \<Rightarrow> int \<Rightarrow> u32 \<Rightarrow> byte list res" where
  "wset en buf k w = (if 0 \<le> k \<and> 4 * k + 4 \<le> int (length buf)
     then Inr (take (4 * nat k) buf @ bytes32 en w @ drop (4 * nat k + 4) buf) else Inl OutOfBounds)"

text \<open>A buffer as an array of words, for the bitmap routines.\<close>

fun words :: "endian \<Rightarrow> byte list \<Rightarrow> u32 list" where
  "words en (a # b # c # d # bs) = word32 en [a, b, c, d] # words en bs"
| "words en _ = []"

definition unwords :: "endian \<Rightarrow> u32 list \<Rightarrow> byte list" where
  "unwords en ws = concat (map (bytes32 en) ws)"

text \<open>\<open>memcopy\<close> between two buffers that do not overlap, from offset \<open>soff\<close> to offset \<open>doff\<close>.\<close>

definition buf_copy :: "int \<Rightarrow> byte list \<Rightarrow> int \<Rightarrow> byte list \<Rightarrow> int \<Rightarrow> byte list res" where
  "buf_copy n dst doff src soff =
     (if n \<le> 0 then Inr dst
      else if 0 \<le> doff \<and> doff + n \<le> int (length dst) \<and> 0 \<le> soff \<and> soff + n \<le> int (length src)
      then Inr (take (nat doff) dst @ take (nat n) (drop (nat soff) src) @ drop (nat (doff + n)) dst)
      else Inl OutOfBounds)"

text \<open>Directory entry \<open>i\<close>: its inode field and the bytes from its name on.\<close>

definition md_inode :: "endian \<Rightarrow> byte list \<Rightarrow> nat \<Rightarrow> u32 res" where
  "md_inode en md i = wget en md (5 * int i)"

definition md_name :: "byte list \<Rightarrow> nat \<Rightarrow> byte list" where
  "md_name md i = drop (20 * i + 4) md"

section \<open>Lock and disk access\<close>

definition sem_P :: "(unit, 'd) tfs_m" where
  "sem_P st = (if lock st > 0 then Inr ((), st\<lparr>lock := lock st - 1\<rparr>) else Inl Blocked)"

definition sem_V_ret :: "'a \<Rightarrow> ('a, 'd) tfs_m" where
  "sem_V_ret v st = Inr (v, st\<lparr>lock := lock st + 1\<rparr>)"

definition read_to :: "'d gbd \<Rightarrow> u32 \<Rightarrow> (byte list \<Rightarrow> 'd tfs \<Rightarrow> 'd tfs) \<Rightarrow> 'd tfs \<Rightarrow> bool \<times> 'd tfs" where
  "read_to g b put st =
     (case gbd_read_block g (disk st) (startblock st + b) of
        (None, d) \<Rightarrow> (False, st\<lparr>disk := d\<rparr>)
      | (Some buf, d) \<Rightarrow> (True, put buf (st\<lparr>disk := d\<rparr>)))"

definition write_from :: "'d gbd \<Rightarrow> u32 \<Rightarrow> byte list \<Rightarrow> 'd tfs \<Rightarrow> bool \<times> 'd tfs" where
  "write_from g b buf st =
     (case gbd_write_block g (disk st) (startblock st + b) buf of (ok, d) \<Rightarrow> (ok, st\<lparr>disk := d\<rparr>))"

definition put_inode :: "byte list \<Rightarrow> 'd tfs \<Rightarrow> 'd tfs" where "put_inode b st = st\<lparr>buffer_inode := b\<rparr>"
definition put_bat :: "byte list \<Rightarrow> 'd tfs \<Rightarrow> 'd tfs" where "put_bat b st = st\<lparr>buffer_bat := b\<rparr>"
definition put_md :: "byte list \<Rightarrow> 'd tfs \<Rightarrow> 'd tfs" where "put_md b st = st\<lparr>buffer_md := b\<rparr>"

text \<open>\<open>guard (ok, st) k\<close>: on a disk error the lock is released and VFS_ERROR returned.\<close>

definition on_disk_ok :: "bool \<times> 'd tfs \<Rightarrow> 'a \<Rightarrow> ('a, 'd) tfs_m \<Rightarrow> ('a \<times> 'd tfs) res" where
  "on_disk_ok r err k = (case r of (ok, st) \<Rightarrow> if ok then k st else sem_V_ret err st)"

section \<open>Operations\<close>

text \<open>
  \<open>tfs_init\<close>: \<open>have_sem\<close> and \<open>have_page\<close> say whether \<open>semaphore_create\<close> and \<open>kmalloc\<close> succeed. The
  magic number is a 32-bit field, of which the 16-bit variable \<open>magic\<close> keeps the low half. The
  result is the file system with its volume name, \<open>None\<close> for NULL.
\<close>

definition tfs_init :: "'d gbd \<Rightarrow> endian \<Rightarrow> bool \<Rightarrow> bool \<Rightarrow> u32 \<Rightarrow> 'd \<Rightarrow> (('d tfs \<times> byte list) option \<times> 'd) res" where
  "tfs_init g en have_sem have_page sector d =
     (if gbd_block_size g d \<noteq> 512 \<or> \<not> have_sem \<or> \<not> have_page then Inr (None, d) else
      case gbd_read_block g d sector of
        (None, d) \<Rightarrow> Inr (None, d)
      | (Some header, d) \<Rightarrow>
          rbind (wget en header 0) (\<lambda>w.
          if (ucast (from_big_endian32 en w) :: u16) \<noteq> 3745 then Inr (None, d) else
          rbind (stringcopy (replicate 16 0) (drop 4 header) 16) (\<lambda>name.
          rbind (stringcopy (replicate 16 0) name 16) (\<lambda>volume_name.
          Inr (Some (\<lparr>startblock = sector, totalblocks = min (gbd_total_blocks g d) (8 * 512), disk = d,
              lock = 1, buffer_inode = replicate 512 0, buffer_bat = replicate 512 0,
              buffer_md = replicate 512 0\<rparr>, volume_name), d)))))"

definition tfs_unmount :: "(int, 'd) tfs_m" where
  "tfs_unmount st = rbind (sem_P st) (\<lambda>(_, st). Inr (VFS_OK, st))"

text \<open>The search of the directory by name, from entry \<open>i\<close>, \<open>n\<close> entries left.\<close>

fun md_find :: "nat \<Rightarrow> nat \<Rightarrow> byte list \<Rightarrow> byte list \<Rightarrow> nat option res" where
  "md_find 0 i md filename = Inr None"
| "md_find (Suc n) i md filename =
     rbind (stringcmp (md_name md i) filename) (\<lambda>c.
     if c = 0 then Inr (Some i) else md_find n (Suc i) md filename)"

definition tfs_open :: "'d gbd \<Rightarrow> endian \<Rightarrow> byte list \<Rightarrow> (int, 'd) tfs_m" where
  "tfs_open g en filename st =
     rbind (sem_P st) (\<lambda>(_, st).
     on_disk_ok (read_to g TFS_DIRECTORY_BLOCK put_md st) VFS_ERROR (\<lambda>st.
     rbind (md_find TFS_MAX_FILES 0 (buffer_md st) filename) (\<lambda>r.
     case r of
       Some i \<Rightarrow> rbind (md_inode en (buffer_md st) i) (\<lambda>w. sem_V_ret (sint (from_big_endian32 en w)) st)
     | None \<Rightarrow> sem_V_ret VFS_NOT_FOUND st)))"

definition tfs_close :: "int \<Rightarrow> (int, 'd) tfs_m" where
  "tfs_close fileid st = Inr (VFS_OK, st)"

text \<open>
  \<open>tfs_create\<close>. The directory scan stops at an entry of the same name (\<open>None\<close>) and otherwise
  yields the last free entry, \<open>-1\<close> if there is none.
\<close>

fun md_scan :: "nat \<Rightarrow> nat \<Rightarrow> endian \<Rightarrow> byte list \<Rightarrow> byte list \<Rightarrow> int \<Rightarrow> int option res" where
  "md_scan 0 i en md filename index = Inr (Some index)"
| "md_scan (Suc n) i en md filename index =
     rbind (stringcmp (md_name md i) filename) (\<lambda>c.
     if c = 0 then Inr None
     else rbind (md_inode en md i) (\<lambda>w.
       md_scan n (Suc i) en md filename (if from_big_endian32 en w = 0 then int i else index)))"

text \<open>Reserving the data blocks: \<open>False\<close> when the bitmap has no free bit left.\<close>

fun alloc_blocks :: "nat \<Rightarrow> nat \<Rightarrow> endian \<Rightarrow> int \<Rightarrow> byte list \<Rightarrow> byte list \<Rightarrow> (bool \<times> byte list \<times> byte list) res" where
  "alloc_blocks 0 i en l bat ino = Inr (True, bat, ino)"
| "alloc_blocks (Suc n) i en l bat ino =
     rbind (bitmap_findnset (words en bat) l) (\<lambda>(p, ws).
     rbind (wset en ino (int i + 1) (from_big_endian32 en (word_of_int p))) (\<lambda>ino.
     rbind (wget en ino (int i + 1)) (\<lambda>w.
     if sint (from_big_endian32 en w) = - 1 then Inr (False, unwords en ws, ino)
     else alloc_blocks n (Suc i) en l (unwords en ws) ino)))"

fun clear_rest :: "nat \<Rightarrow> nat \<Rightarrow> endian \<Rightarrow> byte list \<Rightarrow> byte list res" where
  "clear_rest 0 i en ino = Inr ino"
| "clear_rest (Suc n) i en ino =
     rbind (wset en ino (int i + 1) 0) (\<lambda>ino. clear_rest n (Suc i) en ino)"

text \<open>Writing zeros to the reserved blocks.\<close>

fun zero_blocks :: "nat \<Rightarrow> nat \<Rightarrow> 'd gbd \<Rightarrow> endian \<Rightarrow> (int, 'd) tfs_m" where
  "zero_blocks 0 i g en st = sem_V_ret VFS_OK st"
| "zero_blocks (Suc n) i g en st =
     rbind (wget en (buffer_inode st) (int i + 1)) (\<lambda>w.
     on_disk_ok (write_from g (from_big_endian32 en w) (buffer_bat st) st) VFS_ERROR
       (zero_blocks n (Suc i) g en))"

definition tfs_create_write :: "'d gbd \<Rightarrow> endian \<Rightarrow> nat \<Rightarrow> nat \<Rightarrow> (int, 'd) tfs_m" where
  "tfs_create_write g en numblocks index st =
     on_disk_ok (write_from g TFS_ALLOCATION_BLOCK (buffer_bat st) st) VFS_ERROR (\<lambda>st.
     on_disk_ok (write_from g TFS_DIRECTORY_BLOCK (buffer_md st) st) VFS_ERROR (\<lambda>st.
     rbind (md_inode en (buffer_md st) index) (\<lambda>w.
     on_disk_ok (write_from g (from_big_endian32 en w) (buffer_inode st) st) VFS_ERROR (\<lambda>st.
     zero_blocks numblocks 0 g en (st\<lparr>buffer_bat := replicate 512 0\<rparr>)))))"

text \<open>The part after the directory scan, for the free entry \<open>idx\<close>.\<close>

definition tfs_create_at :: "'d gbd \<Rightarrow> endian \<Rightarrow> byte list \<Rightarrow> int \<Rightarrow> nat \<Rightarrow> nat \<Rightarrow> (int, 'd) tfs_m" where
  "tfs_create_at g en filename sz numblocks idx st =
     rbind (stringcopy (md_name (buffer_md st) idx) filename TFS_FILENAME_MAX) (\<lambda>nm.
     let st = st\<lparr>buffer_md := take (20 * idx + 4) (buffer_md st) @ nm\<rparr> in
     on_disk_ok (read_to g TFS_ALLOCATION_BLOCK put_bat st) VFS_ERROR (\<lambda>st.
     rbind (bitmap_findnset (words en (buffer_bat st)) (sint (totalblocks st))) (\<lambda>(p, ws).
     rbind (wset en (buffer_md st) (5 * int idx) (word_of_int p)) (\<lambda>md.
     let st = st\<lparr>buffer_bat := unwords en ws, buffer_md := md\<rparr> in
     rbind (md_inode en md idx) (\<lambda>w.
     if sint (from_big_endian32 en w) = - 1 then sem_V_ret VFS_ERROR st else
     rbind (wset en (buffer_inode st) 0 (from_big_endian32 en (word_of_int sz))) (\<lambda>ino.
     rbind (alloc_blocks numblocks 0 en (sint (totalblocks st)) (buffer_bat st) ino) (\<lambda>(ok, bat, ino).
     if \<not> ok then sem_V_ret VFS_ERROR (st\<lparr>buffer_bat := bat, buffer_inode := ino\<rparr>) else
     rbind (clear_rest (127 - numblocks) numblocks en ino) (\<lambda>ino.
     tfs_create_write g en numblocks idx (st\<lparr>buffer_bat := bat, buffer_inode := ino\<rparr>)))))))))"

definition file_blocks :: "int \<Rightarrow> int" where
  "file_blocks sz = uint (word_of_int (c_div (c_int (sz + TFS_BLOCK_SIZE - 1)) TFS_BLOCK_SIZE) :: u32)"

definition tfs_create :: "'d gbd \<Rightarrow> endian \<Rightarrow> byte list \<Rightarrow> int \<Rightarrow> (int, 'd) tfs_m" where
  "tfs_create g en filename sz st =
     rbind (sem_P st) (\<lambda>(_, st).
     if file_blocks sz > TFS_BLOCKS_MAX then sem_V_ret VFS_ERROR st else
     on_disk_ok (read_to g TFS_DIRECTORY_BLOCK put_md st) VFS_ERROR (\<lambda>st.
     rbind (md_scan TFS_MAX_FILES 0 en (buffer_md st) filename (- 1)) (\<lambda>r.
     case r of None \<Rightarrow> sem_V_ret VFS_ERROR st
     | Some index \<Rightarrow>
         if index = - 1 then sem_V_ret VFS_ERROR st
         else tfs_create_at g en filename sz (nat (file_blocks sz)) (nat index) st)))"

text \<open>
  \<open>tfs_remove\<close>. The loop that frees the blocks of the inode reads \<open>block[i]\<close> before it checks
  \<open>i\<close>, so with all 127 pointers in use it reads one word past the inode: the first word of
  \<open>buffer_bat\<close>, which \<open>tfs_init\<close> places right behind \<open>buffer_inode\<close>.
\<close>

function free_blocks :: "nat \<Rightarrow> endian \<Rightarrow> byte list \<Rightarrow> byte list \<Rightarrow> byte list res" where
  "free_blocks i en ino bat =
     rbind (if i < 127 then wget en ino (int i + 1) else wget en bat 0) (\<lambda>w.
     if from_big_endian32 en w \<noteq> 0 \<and> i < 127 then
       rbind (bitmap_set (words en bat) (sint (from_big_endian32 en w)) 0) (\<lambda>ws.
       free_blocks (Suc i) en ino (unwords en ws))
     else Inr bat)"
  by pat_completeness auto
termination
  by (relation "measure (\<lambda>(i, en, ino, bat). 127 - i)") auto

declare free_blocks.simps [simp del]

definition tfs_remove_at :: "'d gbd \<Rightarrow> endian \<Rightarrow> nat \<Rightarrow> (int, 'd) tfs_m" where
  "tfs_remove_at g en idx st =
     on_disk_ok (read_to g TFS_ALLOCATION_BLOCK put_bat st) VFS_ERROR (\<lambda>st.
     rbind (md_inode en (buffer_md st) idx) (\<lambda>w.
     on_disk_ok (read_to g (from_big_endian32 en w) put_inode st) VFS_ERROR (\<lambda>st.
     rbind (bitmap_set (words en (buffer_bat st)) (sint (from_big_endian32 en w)) 0) (\<lambda>ws.
     rbind (free_blocks 0 en (buffer_inode st) (unwords en ws)) (\<lambda>bat.
     rbind (wset en (buffer_md st) (5 * int idx) 0) (\<lambda>md.
     rbind (lset md (20 * int idx + 4) 0) (\<lambda>md.
     let st = st\<lparr>buffer_bat := bat, buffer_md := md\<rparr> in
     on_disk_ok (write_from g TFS_ALLOCATION_BLOCK (buffer_bat st) st) VFS_ERROR (\<lambda>st.
     on_disk_ok (write_from g TFS_DIRECTORY_BLOCK (buffer_md st) st) VFS_ERROR (\<lambda>st.
     sem_V_ret VFS_OK st)))))))))"

definition tfs_remove :: "'d gbd \<Rightarrow> endian \<Rightarrow> byte list \<Rightarrow> (int, 'd) tfs_m" where
  "tfs_remove g en filename st =
     rbind (sem_P st) (\<lambda>(_, st).
     on_disk_ok (read_to g TFS_DIRECTORY_BLOCK put_md st) VFS_ERROR (\<lambda>st.
     rbind (md_find TFS_MAX_FILES 0 (buffer_md st) filename) (\<lambda>r.
     case r of None \<Rightarrow> sem_V_ret VFS_NOT_FOUND st
     | Some idx \<Rightarrow> tfs_remove_at g en idx st)))"

text \<open>\<open>tfs_read\<close>: the blocks after the first; \<open>bp\<close> is the offset of \<open>buffer\<close> in the caller's buffer.\<close>

type_synonym 'd io_m = "(int \<times> byte list, 'd) tfs_m"

function tfs_read_loop ::
  "'d gbd \<Rightarrow> endian \<Rightarrow> int \<Rightarrow> int \<Rightarrow> int \<Rightarrow> int \<Rightarrow> int \<Rightarrow> byte list \<Rightarrow> 'd io_m" where
  "tfs_read_loop g en bufsize b1 b2 nread bp buffer st =
     (if b1 \<le> b2 then
        rbind (wget en (buffer_inode st) (b1 + 1)) (\<lambda>w.
        on_disk_ok (read_to g (from_big_endian32 en w) put_bat st) (VFS_ERROR, buffer) (\<lambda>st.
        if b1 = b2 then
          rbind (buf_copy (bufsize - nread) buffer bp (buffer_bat st) 0) (\<lambda>buffer.
          tfs_read_loop g en bufsize (b1 + 1) b2 (nread + (bufsize - nread)) bp buffer st)
        else
          rbind (buf_copy TFS_BLOCK_SIZE buffer bp (buffer_bat st) 0) (\<lambda>buffer.
          tfs_read_loop g en bufsize (b1 + 1) b2 (nread + TFS_BLOCK_SIZE) (bp + TFS_BLOCK_SIZE) buffer st)))
      else sem_V_ret (nread, buffer) st)"
  by pat_completeness auto
termination
  by (relation "measure (\<lambda>(g, en, bufsize, b1, b2, nread, bp, buffer, st). nat (b2 + 1 - b1))") auto

declare tfs_read_loop.simps [simp del]

definition tfs_read :: "'d gbd \<Rightarrow> endian \<Rightarrow> int \<Rightarrow> byte list \<Rightarrow> int \<Rightarrow> int \<Rightarrow> 'd io_m" where
  "tfs_read g en fileid buffer bufsize offset st =
     rbind (sem_P st) (\<lambda>(_, st).
     if fileid < 2 \<or> fileid > sint (totalblocks st) then sem_V_ret (VFS_ERROR, buffer) st else
     on_disk_ok (read_to g (word_of_int fileid) put_inode st) (VFS_ERROR, buffer) (\<lambda>st.
     rbind (wget en (buffer_inode st) 0) (\<lambda>fs.
     let filesize = sint (from_big_endian32 en fs) in
     if offset < 0 \<or> offset > filesize then sem_V_ret (VFS_ERROR, buffer) st else
     let bufsize = min bufsize (filesize - offset) in
     if bufsize = 0 then sem_V_ret (0, buffer) st else
     let b1 = c_div offset TFS_BLOCK_SIZE;
         b2 = c_div (offset + bufsize - 1) TFS_BLOCK_SIZE in
     rbind (wget en (buffer_inode st) (b1 + 1)) (\<lambda>w.
     on_disk_ok (read_to g (from_big_endian32 en w) put_bat st) (VFS_ERROR, buffer) (\<lambda>st.
     let nread = min (TFS_BLOCK_SIZE - c_mod offset TFS_BLOCK_SIZE) bufsize in
     rbind (buf_copy nread buffer 0 (buffer_bat st) (c_mod offset TFS_BLOCK_SIZE)) (\<lambda>buffer.
     tfs_read_loop g en bufsize (b1 + 1) b2 nread nread buffer st))))))"

text \<open>\<open>tfs_write\<close>. A block that is only partly overwritten is read first.\<close>

definition fetch_part :: "'d gbd \<Rightarrow> bool \<Rightarrow> u32 \<Rightarrow> 'd tfs \<Rightarrow> bool \<times> 'd tfs" where
  "fetch_part g partial b st = (if partial then read_to g b put_bat st else (True, st))"

function tfs_write_loop ::
  "'d gbd \<Rightarrow> endian \<Rightarrow> int \<Rightarrow> int \<Rightarrow> int \<Rightarrow> int \<Rightarrow> int \<Rightarrow> byte list \<Rightarrow> (int, 'd) tfs_m" where
  "tfs_write_loop g en datasize b1 b2 written bp buffer st =
     (if b1 \<le> b2 then
        rbind (wget en (buffer_inode st) (b1 + 1)) (\<lambda>w.
        let blk = from_big_endian32 en w in
        if b1 = b2 then
          on_disk_ok (fetch_part g (datasize - written < TFS_BLOCK_SIZE) blk st) VFS_ERROR (\<lambda>st.
          rbind (buf_copy (datasize - written) (buffer_bat st) 0 buffer bp) (\<lambda>bat.
          on_disk_ok (write_from g blk bat (st\<lparr>buffer_bat := bat\<rparr>)) VFS_ERROR
            (tfs_write_loop g en datasize (b1 + 1) b2 datasize bp buffer)))
        else
          rbind (buf_copy TFS_BLOCK_SIZE (buffer_bat st) 0 buffer bp) (\<lambda>bat.
          on_disk_ok (write_from g blk bat (st\<lparr>buffer_bat := bat\<rparr>)) VFS_ERROR
            (tfs_write_loop g en datasize (b1 + 1) b2 (written + TFS_BLOCK_SIZE) (bp + TFS_BLOCK_SIZE) buffer)))
      else sem_V_ret written st)"
  by pat_completeness auto
termination
  by (relation "measure (\<lambda>(g, en, datasize, b1, b2, written, bp, buffer, st). nat (b2 + 1 - b1))") auto

declare tfs_write_loop.simps [simp del]

definition tfs_write :: "'d gbd \<Rightarrow> endian \<Rightarrow> int \<Rightarrow> byte list \<Rightarrow> int \<Rightarrow> int \<Rightarrow> (int, 'd) tfs_m" where
  "tfs_write g en fileid buffer datasize offset st =
     rbind (sem_P st) (\<lambda>(_, st).
     if fileid < 2 \<or> fileid > sint (totalblocks st) then sem_V_ret VFS_ERROR st else
     on_disk_ok (read_to g (word_of_int fileid) put_inode st) VFS_ERROR (\<lambda>st.
     rbind (wget en (buffer_inode st) 0) (\<lambda>fs.
     let filesize = sint (from_big_endian32 en fs) in
     if offset < 0 \<or> offset > filesize then sem_V_ret VFS_ERROR st else
     let datasize = min datasize (filesize - offset) in
     if datasize = 0 then sem_V_ret 0 st else
     let b1 = c_div offset TFS_BLOCK_SIZE;
         b2 = c_div (offset + datasize - 1) TFS_BLOCK_SIZE;
         written = min (TFS_BLOCK_SIZE - c_mod offset TFS_BLOCK_SIZE) datasize in
     rbind (wget en (buffer_inode st) (b1 + 1)) (\<lambda>w.
     let blk = from_big_endian32 en w in
     on_disk_ok (fetch_part g (written < TFS_BLOCK_SIZE) blk st) VFS_ERROR (\<lambda>st.
     rbind (buf_copy written (buffer_bat st) (c_mod offset TFS_BLOCK_SIZE) buffer 0) (\<lambda>bat.
     on_disk_ok (write_from g blk bat (st\<lparr>buffer_bat := bat\<rparr>)) VFS_ERROR
       (tfs_write_loop g en datasize (b1 + 1) b2 written written buffer)))))))"

definition tfs_getfree :: "'d gbd \<Rightarrow> endian \<Rightarrow> (int, 'd) tfs_m" where
  "tfs_getfree g en st =
     rbind (sem_P st) (\<lambda>(_, st).
     on_disk_ok (read_to g TFS_ALLOCATION_BLOCK put_bat st) VFS_ERROR (\<lambda>st.
     rbind (count_range bitmap_get (words en (buffer_bat st)) 0 (unat (totalblocks st))) (\<lambda>allocated.
     sem_V_ret (sint ((totalblocks st - word_of_int allocated) * 512)) st)))"

fun md_count :: "nat \<Rightarrow> nat \<Rightarrow> endian \<Rightarrow> byte list \<Rightarrow> int \<Rightarrow> int res" where
  "md_count 0 i en md count = Inr count"
| "md_count (Suc n) i en md count =
     rbind (md_inode en md i) (\<lambda>w. md_count n (Suc i) en md (if w \<noteq> 0 then count + 1 else count))"

definition root_dir :: "byte list" where "root_dir = [47, 0]"

definition tfs_filecount :: "'d gbd \<Rightarrow> endian \<Rightarrow> byte list \<Rightarrow> (int, 'd) tfs_m" where
  "tfs_filecount g en dirname st =
     rbind (stringcmp dirname root_dir) (\<lambda>c.
     if c \<noteq> 0 then Inr (VFS_NOT_FOUND, st) else
     rbind (sem_P st) (\<lambda>(_, st).
     on_disk_ok (read_to g TFS_DIRECTORY_BLOCK put_md st) VFS_ERROR (\<lambda>st.
     rbind (md_count TFS_MAX_FILES 0 en (buffer_md st) 0) (\<lambda>count. sem_V_ret count st))))"

fun md_index :: "nat \<Rightarrow> nat \<Rightarrow> endian \<Rightarrow> byte list \<Rightarrow> int \<Rightarrow> int \<Rightarrow> nat option res" where
  "md_index 0 i en md count idx = Inr None"
| "md_index (Suc n) i en md count idx =
     rbind (md_inode en md i) (\<lambda>w.
     if w \<noteq> 0 then (if count = idx then Inr (Some i) else md_index n (Suc i) en md (count + 1) idx)
     else md_index n (Suc i) en md count idx)"

definition tfs_file :: "'d gbd \<Rightarrow> endian \<Rightarrow> byte list \<Rightarrow> int \<Rightarrow> byte list \<Rightarrow> 'd io_m" where
  "tfs_file g en dirname idx buffer st =
     rbind (stringcmp dirname root_dir) (\<lambda>c.
     if c \<noteq> 0 \<or> idx < 0 then Inr ((VFS_ERROR, buffer), st) else
     rbind (sem_P st) (\<lambda>(_, st).
     on_disk_ok (read_to g TFS_DIRECTORY_BLOCK put_md st) (VFS_ERROR, buffer) (\<lambda>st.
     rbind (md_index TFS_MAX_FILES 0 en (buffer_md st) 0 idx) (\<lambda>r.
     case r of
       Some i \<Rightarrow> rbind (stringcopy buffer (md_name (buffer_md st) i) TFS_FILENAME_MAX) (\<lambda>buffer.
         sem_V_ret (VFS_OK, buffer) st)
     | None \<Rightarrow> sem_V_ret (VFS_ERROR, buffer) st))))"

section \<open>The lock is released on every path\<close>

text \<open>\<open>releases l r\<close>: if the code returns, the lock has gone up by one from \<open>l\<close>.\<close>

definition releases :: "int \<Rightarrow> ('a \<times> 'd tfs) res \<Rightarrow> bool" where
  "releases l r \<longleftrightarrow> (\<forall>v st. r = Inr (v, st) \<longrightarrow> lock st = l + 1)"

lemma releases_ret: "lock st = l \<Longrightarrow> releases l (sem_V_ret v st)"
  by (simp add: releases_def sem_V_ret_def)

lemma releases_rbind: "(\<And>x. releases l (f x)) \<Longrightarrow> releases l (rbind m f)"
  unfolding releases_def by (auto simp: rbind_eq_Inr)

lemma releases_disk:
  "lock (snd r) = l \<Longrightarrow> (\<And>st. lock st = l \<Longrightarrow> releases l (k st)) \<Longrightarrow> releases l (on_disk_ok r e k)"
  by (cases r) (auto simp: on_disk_ok_def releases_ret)

lemma releases_if: "(b \<Longrightarrow> releases l x) \<Longrightarrow> (\<not> b \<Longrightarrow> releases l y) \<Longrightarrow> releases l (if b then x else y)"
  by simp

lemma releases_opt:
  "(r = None \<Longrightarrow> releases l x) \<Longrightarrow> (\<And>i. r = Some i \<Longrightarrow> releases l (y i)) \<Longrightarrow>
   releases l (case r of None \<Rightarrow> x | Some i \<Rightarrow> y i)"
  by (cases r) auto

lemma releases_prod: "(\<And>a b. releases l (f a b)) \<Longrightarrow> releases l (case p of (a, b) \<Rightarrow> f a b)"
  by (cases p) simp

lemmas releases_rules = releases_ret releases_rbind releases_disk releases_if releases_opt releases_prod

lemma lock_put [simp]:
  "lock (put_inode b st) = lock st" "lock (put_bat b st) = lock st" "lock (put_md b st) = lock st"
  by (simp_all add: put_inode_def put_bat_def put_md_def)

lemma lock_write_from [simp]: "lock (snd (write_from g b buf st)) = lock st"
  by (simp add: write_from_def split: prod.split)

lemma lock_read_to [simp]:
  "lock (snd (read_to g b put_inode st)) = lock st" "lock (snd (read_to g b put_bat st)) = lock st"
  "lock (snd (read_to g b put_md st)) = lock st"
  by (simp_all add: read_to_def split: prod.split option.split)

lemma lock_fetch_part [simp]: "lock (snd (fetch_part g p b st)) = lock st"
  by (simp add: fetch_part_def)

lemma releases_zero_blocks: "lock st = l \<Longrightarrow> releases l (zero_blocks n i g en st)"
  by (induction n arbitrary: i st) (simp_all, (intro releases_rules; simp)+)

lemma releases_read_loop:
  "lock st = l \<Longrightarrow> releases l (tfs_read_loop g en n b1 b2 r bp buf st)"
proof (induction "nat (b2 + 1 - b1)" arbitrary: b1 r bp buf st)
  case 0
  then show ?case by (subst tfs_read_loop.simps) (simp add: releases_ret)
next
  case (Suc k)
  have "k = nat (b2 + 1 - (b1 + 1))" using Suc.hyps(2) by simp
  note IH = Suc.hyps(1) [OF this]
  show ?case
    using Suc.prems by (subst tfs_read_loop.simps) (intro releases_rules IH; simp)
qed

lemma releases_write_loop:
  "lock st = l \<Longrightarrow> releases l (tfs_write_loop g en n b1 b2 w bp buf st)"
proof (induction "nat (b2 + 1 - b1)" arbitrary: b1 w bp st)
  case 0
  then show ?case by (subst tfs_write_loop.simps) (simp add: releases_ret)
next
  case (Suc k)
  have "k = nat (b2 + 1 - (b1 + 1))" using Suc.hyps(2) by simp
  note IH = Suc.hyps(1) [OF this]
  show ?case
    using Suc.prems by (subst tfs_write_loop.simps) (unfold Let_def, intro releases_rules IH; simp)
qed

text \<open>An operation that takes the lock first leaves it as it was.\<close>

lemma lock_P:
  assumes "rbind (sem_P st) (\<lambda>(_, st). k st) = Inr (v, st')" and "\<And>st. releases (lock st) (k st)"
  shows "lock st' = lock st"
proof -
  have "k (st\<lparr>lock := lock st - 1\<rparr>) = Inr (v, st')"
    using assms(1) by (auto simp: rbind_eq_Inr sem_P_def split: if_splits)
  then show ?thesis
    using assms(2) [of "st\<lparr>lock := lock st - 1\<rparr>"] by (auto simp: releases_def)
qed

lemma lock_open: "tfs_open g en f st = Inr (v, st') \<Longrightarrow> lock st' = lock st"
  unfolding tfs_open_def by (erule lock_P) (intro releases_rules; simp)

lemma lock_create: "tfs_create g en f n st = Inr (v, st') \<Longrightarrow> lock st' = lock st"
  unfolding tfs_create_def tfs_create_at_def tfs_create_write_def Let_def
  by (erule lock_P) (intro releases_rules releases_zero_blocks; simp)

lemma lock_remove: "tfs_remove g en f st = Inr (v, st') \<Longrightarrow> lock st' = lock st"
  unfolding tfs_remove_def tfs_remove_at_def Let_def by (erule lock_P) (intro releases_rules; simp)

lemma lock_read: "tfs_read g en f buf n off st = Inr (v, st') \<Longrightarrow> lock st' = lock st"
  unfolding tfs_read_def Let_def by (erule lock_P) (intro releases_rules releases_read_loop; simp)

lemma lock_write: "tfs_write g en f buf n off st = Inr (v, st') \<Longrightarrow> lock st' = lock st"
  unfolding tfs_write_def Let_def by (erule lock_P) (intro releases_rules releases_write_loop; simp)

lemma lock_getfree: "tfs_getfree g en st = Inr (v, st') \<Longrightarrow> lock st' = lock st"
  unfolding tfs_getfree_def by (erule lock_P) (intro releases_rules; simp)

lemma lock_filecount: "tfs_filecount g en dir st = Inr (v, st') \<Longrightarrow> lock st' = lock st"
proof (cases "stringcmp dir root_dir")
  case (Inr c)
  assume r: "tfs_filecount g en dir st = Inr (v, st')"
  show ?thesis
  proof (cases "c = 0")
    case True
    then show ?thesis using r unfolding tfs_filecount_def Inr rbind_Inr
      by simp (erule lock_P, (intro releases_rules; simp))
  qed (use r Inr in \<open>simp add: tfs_filecount_def\<close>)
qed (simp add: tfs_filecount_def)

lemma lock_file: "tfs_file g en dir i buf st = Inr (v, st') \<Longrightarrow> lock st' = lock st"
proof (cases "stringcmp dir root_dir")
  case (Inr c)
  assume r: "tfs_file g en dir i buf st = Inr (v, st')"
  show ?thesis
  proof (cases "c \<noteq> 0 \<or> i < 0")
    case False
    then show ?thesis using r unfolding tfs_file_def Inr rbind_Inr
      by simp (erule lock_P, (intro releases_rules; simp))
  qed (use r Inr in \<open>auto simp: tfs_file_def\<close>)
qed (simp add: tfs_file_def)

end
