(* ===== verification/Tfs_Files.thy ===== *)
theory Tfs_Files
  imports Tfs
begin

text \<open>
  What TFS promises on a disk that works. The locale \<open>block_store\<close> is the contract of a block
  device: a block read gives the block last written. Inside it, \<open>tfs_read\<close> is shown to return
  the addressed part of the file, and \<open>tfs_write\<close> to change that part of the file and nothing
  else. The contract is met by the disk images of the host tool (theory \<open>Tfstool\<close>).
\<close>

section \<open>Buffers as words\<close>

lemma length_wset: "wset en buf k w = Inr buf' \<Longrightarrow> length buf' = length buf"
  by (auto simp: wset_def split: if_splits)

lemma wget_wset_same: "wset en buf k w = Inr buf' \<Longrightarrow> wget en buf' k = Inr w"
  by (auto simp: wset_def wget_def split: if_splits)

lemma drop_take_above:
  "m + 4 \<le> n \<Longrightarrow> n + 4 \<le> length buf \<Longrightarrow>
   take 4 (drop n (take m buf @ xs @ drop (m + 4) buf)) = take 4 (drop n buf)" if "length xs = 4"
  using that by (simp add: min_def)

lemma drop_take_below:
  "n + 4 \<le> m \<Longrightarrow> m + 4 \<le> length buf \<Longrightarrow>
   take 4 (drop n (take m buf @ xs @ drop (m + 4) buf)) = take 4 (drop n buf)"
  by (rule nth_equalityI) (auto simp: nth_append)

lemma wget_wset_other:
  assumes "wset en buf k w = Inr buf'" and "j \<noteq> k"
  shows "wget en buf' j = wget en buf j"
proof -
  have k: "0 \<le> k" "4 * k + 4 \<le> int (length buf)"
    and b: "buf' = take (4 * nat k) buf @ bytes32 en w @ drop (4 * nat k + 4) buf"
    using assms(1) by (auto simp: wset_def split: if_splits)
  have len: "length buf' = length buf" using length_wset [OF assms(1)] .
  show ?thesis
  proof (cases "0 \<le> j \<and> 4 * j + 4 \<le> int (length buf)")
    case True
    have "take 4 (drop (4 * nat j) buf') = take 4 (drop (4 * nat j) buf)"
    proof (cases "j < k")
      case True
      then have "nat j < nat k" using k \<open>0 \<le> j \<and> 4 * j + 4 \<le> int (length buf)\<close> by simp
      then show ?thesis unfolding b using k by (intro drop_take_below) auto
    next
      case False
      then show ?thesis
        unfolding b using k assms(2) \<open>0 \<le> j \<and> 4 * j + 4 \<le> int (length buf)\<close>
        by (intro drop_take_above) auto
    qed
    then show ?thesis using len by (simp add: wget_def)
  qed (use len in \<open>auto simp: wget_def\<close>)
qed

lemma wset_ok:
  "0 \<le> k \<Longrightarrow> 4 * k + 4 \<le> int (length buf) \<Longrightarrow> \<exists>buf'. wset en buf k w = Inr buf' \<and> length buf' = length buf"
  by (simp add: wset_def)

lemma wget_ok: "0 \<le> k \<Longrightarrow> 4 * k + 4 \<le> int (length buf) \<Longrightarrow> \<exists>w. wget en buf k = Inr w"
  by (simp add: wget_def)

lemma length_words: "length (words en bs) = length bs div 4"
  by (induction en bs rule: words.induct) (simp_all add: div_if)

lemma unwords_words: "4 dvd length bs \<Longrightarrow> unwords en (words en bs) = bs"
proof (induction en bs rule: words.induct)
  case (1 en a b c d bs)
  then have "4 dvd length bs" by (simp add: dvd_def) presburger
  then show ?case using 1 by (simp add: unwords_def)
qed (auto simp: unwords_def dest: dvd_imp_le)

lemma words_unwords [simp]: "words en (unwords en ws) = ws"
proof (induction ws)
  case (Cons w ws)
  obtain a b c d where b: "bytes32 en w = [a, b, c, d]"
    using length_bytes32 [of en w] by (auto simp: length_Suc_conv numeral_eq_Suc simp del: length_bytes32)
  have "word32 en [a, b, c, d] = w" using word32_bytes32 [of en w] b by simp
  then show ?case using Cons b by (simp add: unwords_def)
qed (simp add: unwords_def)

lemma length_unwords [simp]: "length (unwords en ws) = 4 * length ws"
  by (induction ws) (auto simp: unwords_def)

lemma buf_copy_ok:
  "0 < n \<Longrightarrow> 0 \<le> doff \<Longrightarrow> doff + n \<le> int (length dst) \<Longrightarrow> 0 \<le> soff \<Longrightarrow> soff + n \<le> int (length src) \<Longrightarrow>
   buf_copy n dst doff src soff =
     Inr (take (nat doff) dst @ take (nat n) (drop (nat soff) src) @ drop (nat (doff + n)) dst)"
  by (simp add: buf_copy_def)

text \<open>
  \<open>buf_copy\<close> is what \<open>memcopy\<close> does to a memory that holds the two buffers at addresses \<open>a\<close> and
  \<open>b\<close>, apart from each other.
\<close>

definition holds :: "mem \<Rightarrow> int \<Rightarrow> byte list \<Rightarrow> bool" where
  "holds m a xs \<longleftrightarrow> (\<forall>i < length xs. m (a + int i) = xs ! i)"

lemma memcopy_buf_copy:
  assumes d: "holds m a dst" and s: "holds m b src"
    and apart: "a + int (length dst) \<le> b \<or> b + int (length src) \<le> a"
    and n: "0 \<le> n" and c: "buf_copy n dst doff src soff = Inr dst'" and o: "0 \<le> doff" "0 \<le> soff"
  shows "holds (memcopy n (a + doff) (b + soff) m) a dst'"
proof (cases "n = 0")
  case True
  then show ?thesis using d c by (simp add: buf_copy_def memcopy_def)
next
  case False
  then have r: "doff + n \<le> int (length dst)" "soff + n \<le> int (length src)"
    and e: "dst' = take (nat doff) dst @ take (nat n) (drop (nat soff) src) @ drop (nat (doff + n)) dst"
    using n c by (auto simp: buf_copy_def split: if_splits)
  have safe: "copy_safe n (a + doff) (b + soff)" using apart r o n by (auto simp: copy_safe_def)
  have len: "length dst' = length dst" using r o n by (simp add: e)
  have "copied n (a + doff) (b + soff) m (a + int i) = dst' ! i" if i: "i < length dst" for i
  proof -
    consider "int i < doff" | "doff \<le> int i" "int i < doff + n" | "doff + n \<le> int i" by linarith
    then show ?thesis
    proof cases
      case 1
      then show ?thesis using d i r o n by (auto simp: copied_def holds_def e nth_append)
    next
      case 2
      then have "soff + (int i - doff) < int (length src)" using r by simp
      then have "m (b + soff + (int i - doff)) = src ! nat (soff + (int i - doff))"
        using s o 2 by (auto simp: holds_def dest!: spec [of _ "nat (soff + (int i - doff))"] simp: algebra_simps)
      moreover have "dst' ! i = src ! (nat soff + (i - nat doff))"
        using 2 r o n i by (auto simp: e nth_append min_def nat_add_distrib)
      moreover have "nat soff + (i - nat doff) = nat (soff + (int i - doff))" using 2 o by linarith
      ultimately show ?thesis using 2 by (simp add: copied_def algebra_simps)
    next
      case 3
      have l: "length (take (nat doff) dst) = nat doff"
          "length (take (nat n) (drop (nat soff) src)) = nat n" using r o n by auto
      have j: "\<not> i < nat doff" "\<not> i - nat doff < nat n" "nat (doff + n) = nat doff + nat n"
        using 3 o n by auto
      have "dst' ! i = dst ! i"
        unfolding e nth_append l using j i by (simp add: nth_drop)
      then show ?thesis using d i 3 by (auto simp: copied_def holds_def)
    qed
  qed
  then show ?thesis using len by (simp add: holds_def memcopy_eq [OF n safe])
qed

section \<open>Files\<close>

text \<open>The block pointers, the size and the data of the file with inode block \<open>ino\<close>.\<close>

definition file_block :: "endian \<Rightarrow> u32 \<Rightarrow> byte list \<Rightarrow> nat \<Rightarrow> u32" where
  "file_block en start ino i = start + from_big_endian32 en (word32 en (take 4 (drop (4 * Suc i) ino)))"

definition file_size :: "endian \<Rightarrow> byte list \<Rightarrow> int" where
  "file_size en ino = sint (from_big_endian32 en (word32 en (take 4 ino)))"

definition file_data :: "(u32 \<Rightarrow> byte list) \<Rightarrow> endian \<Rightarrow> u32 \<Rightarrow> byte list \<Rightarrow> nat \<Rightarrow> byte list" where
  "file_data B en start ino nb = concat (map (\<lambda>i. B (file_block en start ino i)) [0..<nb])"

definition num_blocks :: "int \<Rightarrow> nat" where
  "num_blocks sz = nat ((sz + 511) div 512)"

definition file_content :: "(u32 \<Rightarrow> byte list) \<Rightarrow> endian \<Rightarrow> u32 \<Rightarrow> byte list \<Rightarrow> byte list" where
  "file_content B en start ino =
     take (nat (file_size en ino)) (file_data B en start ino (num_blocks (file_size en ino)))"

text \<open>A file whose inode makes sense on a device with blocks \<open>V\<close>.\<close>

definition file_ok :: "(u32 \<Rightarrow> bool) \<Rightarrow> endian \<Rightarrow> u32 \<Rightarrow> byte list \<Rightarrow> bool" where
  "file_ok V en start ino \<longleftrightarrow> length ino = 512 \<and> 0 \<le> file_size en ino \<and> file_size en ino \<le> 65024 \<and>
     (\<forall>i < num_blocks (file_size en ino). V (file_block en start ino i)) \<and>
     inj_on (file_block en start ino) {..<num_blocks (file_size en ino)}"

lemma wget_block:
  "length ino = 512 \<Longrightarrow> i < 127 \<Longrightarrow>
   \<exists>w. wget en ino (int i + 1) = Inr w \<and> start + from_big_endian32 en w = file_block en start ino i"
  by (simp add: wget_def file_block_def nat_add_distrib)

lemma length_file_data:
  "(\<And>i. i < nb \<Longrightarrow> length (B (file_block en start ino i)) = 512) \<Longrightarrow>
   length (file_data B en start ino nb) = 512 * nb"
  by (induction nb) (auto simp: file_data_def)

lemma file_data_Suc:
  "file_data B en start ino (Suc nb) = file_data B en start ino nb @ B (file_block en start ino nb)"
  by (simp add: file_data_def)

text \<open>Block \<open>i\<close> of the data, and the data from block \<open>i\<close> on.\<close>

lemma file_data_drop:
  assumes "\<And>j. j < nb \<Longrightarrow> length (B (file_block en start ino j)) = 512" and "i < nb"
  shows "drop (512 * i) (file_data B en start ino nb) =
    B (file_block en start ino i) @ drop (512 * Suc i) (file_data B en start ino nb)"
  using assms
proof (induction nb)
  case (Suc nb)
  have len: "length (file_data B en start ino nb) = 512 * nb"
    using Suc.prems(1) by (intro length_file_data) simp
  show ?case
  proof (cases "i = nb")
    case True
    have "length (B (file_block en start ino nb)) = 512" using Suc.prems(1) by simp
    then show ?thesis using True len by (simp add: file_data_Suc)
  next
    case False
    then have i: "i < nb" using Suc.prems(2) by simp
    then have "512 * Suc i \<le> length (file_data B en start ino nb)" using len by simp
    moreover have "512 * i \<le> length (file_data B en start ino nb)" using len i by simp
    ultimately show ?thesis using Suc.IH Suc.prems(1) i by (simp add: file_data_Suc del: mult_Suc_right)
  qed
qed simp

lemma file_data_prefix:
  assumes "\<And>j. j < nb \<Longrightarrow> length (B (file_block en start ino j)) = 512" and "a \<le> nb"
  shows "file_data B en start ino a = take (512 * a) (file_data B en start ino nb)"
  using assms
proof (induction nb)
  case (Suc nb)
  have len: "length (file_data B en start ino nb) = 512 * nb"
    using Suc.prems(1) by (intro length_file_data) simp
  show ?case
  proof (cases "a = Suc nb")
    case True
    have "length (B (file_block en start ino nb)) = 512" using Suc.prems(1) by simp
    then show ?thesis using True len by (simp add: file_data_Suc)
  next
    case False
    then show ?thesis using Suc len by (simp add: file_data_Suc)
  qed
qed (simp add: file_data_def)

text \<open>The bytes \<open>off\<close> to \<open>off + m\<close> of the data: the end of the first block, then the following blocks.\<close>

lemma file_data_part:
  assumes len: "\<And>j. j < nb \<Longrightarrow> length (B (file_block en start ino j)) = 512"
    and m: "0 < m" "off + m \<le> 512 * nb"
  defines "r \<equiv> min (512 - off mod 512) m" and "b1 \<equiv> off div 512" and "b2 \<equiv> (off + m - 1) div 512"
  shows "take r (drop (off mod 512) (B (file_block en start ino b1))) @
      take (m - r) (drop (512 * Suc b1) (file_data B en start ino (Suc b2))) =
    take m (drop off (file_data B en start ino nb))"
    and "b1 \<le> b2" "b2 < nb" "r \<le> m" "0 < r"
    and "if Suc b1 \<le> b2 then 512 * (b2 - Suc b1) < m - r \<and> m - r \<le> 512 * (Suc b2 - Suc b1) else m = r"
proof -
  have od: "off = 512 * b1 + off mod 512" by (simp add: b1_def)
  show b: "b1 \<le> b2" unfolding b1_def b2_def using m by (intro div_le_mono) simp
  have "off + m - 1 < 512 * nb" using m by simp
  then show b2: "b2 < nb" unfolding b2_def by (simp add: less_mult_imp_div_less mult.commute)
  show r: "r \<le> m" "0 < r" using m by (auto simp: r_def)
  have e2: "512 * b2 \<le> off + m - 1" "off + m - 1 < 512 * Suc b2"
    unfolding b2_def using div_mult_mod_eq [of "off + m - 1" 512] by (auto simp: algebra_simps)
  show "if Suc b1 \<le> b2 then 512 * (b2 - Suc b1) < m - r \<and> m - r \<le> 512 * (Suc b2 - Suc b1) else m = r"
  proof (cases "Suc b1 \<le> b2")
    case True
    then have "512 * Suc b1 \<le> 512 * b2" by (intro mult_le_mono2)
    moreover have "512 * Suc b1 = off - off mod 512 + 512" using od by simp
    ultimately have "512 - off mod 512 < m" using e2(1) m(1) by simp
    then have "r = 512 - off mod 512" by (simp add: r_def)
    then have "off + r = 512 * Suc b1" using od mod_less_divisor [of 512 off] by simp
    then have eq: "m - r = off + m - 512 * Suc b1" by simp
    obtain d where d: "b2 = Suc b1 + d" using True le_Suc_ex by blast
    have "512 * b2 = 512 * d + 512 * Suc b1" by (simp add: d)
    then have "512 * d + 512 * Suc b1 < off + m" "off + m \<le> 512 * Suc d + 512 * Suc b1"
      using e2 m(1) by auto
    then have "512 * d < m - r" "m - r \<le> 512 * Suc d" unfolding eq by (auto simp: less_diff_conv le_diff_conv)
    moreover have "b2 - Suc b1 = d" "Suc b2 - Suc b1 = Suc d" by (simp_all add: d)
    ultimately show ?thesis using True by simp
  next
    case False
    then have "off + m - 1 < 512 * Suc b1" using e2(2) b by auto
    then have "m \<le> 512 - off mod 512" using od m(1) by simp
    then show ?thesis using False by (simp add: r_def)
  qed
  let ?D = "file_data B en start ino nb"
  have b1nb: "b1 < nb" using b b2 by simp
  have "drop off ?D = drop (off mod 512) (drop (512 * b1) ?D)" using od by (simp add: add.commute)
  also have "drop (512 * b1) ?D = B (file_block en start ino b1) @ drop (512 * Suc b1) ?D"
    using len b1nb by (rule file_data_drop)
  finally have D: "drop off ?D = drop (off mod 512) (B (file_block en start ino b1)) @ drop (512 * Suc b1) ?D"
    using len [OF b1nb] by simp
  have lb: "length (drop (off mod 512) (B (file_block en start ino b1))) = 512 - off mod 512"
    using len [OF b1nb] by simp
  have "take m (drop off ?D) = take m (drop (off mod 512) (B (file_block en start ino b1))) @
      take (m - (512 - off mod 512)) (drop (512 * Suc b1) ?D)"
    unfolding D by (simp only: take_append lb)
  moreover have "take m (drop (off mod 512) (B (file_block en start ino b1))) =
      take r (drop (off mod 512) (B (file_block en start ino b1)))"
    using lb by (simp add: r_def min_def)
  moreover have "m - (512 - off mod 512) = m - r" by (auto simp: r_def)
  moreover have "take (m - r) (drop (512 * Suc b1) (file_data B en start ino (Suc b2))) =
      take (m - r) (drop (512 * Suc b1) ?D)"
  proof -
    have p: "file_data B en start ino (Suc b2) = take (512 * Suc b2) ?D"
      using len b2 by (intro file_data_prefix) auto
    have "m - r \<le> 512 * Suc b2 - 512 * Suc b1"
      using \<open>if Suc b1 \<le> b2 then _ else _\<close> by (auto simp: diff_mult_distrib2 split: if_splits)
    then show ?thesis unfolding p drop_take by (simp add: min_def)
  qed
  ultimately show "take r (drop (off mod 512) (B (file_block en start ino b1))) @
      take (m - r) (drop (512 * Suc b1) (file_data B en start ino (Suc b2))) = take m (drop off ?D)"
    by simp
qed

text \<open>One block of a file replaced.\<close>

lemma file_data_upd:
  assumes "\<And>j. j < nb \<Longrightarrow> length (B (file_block en start ino j)) = 512" and "i < nb"
    and "inj_on (file_block en start ino) {..<nb}" and "length x = 512"
  shows "file_data (B(file_block en start ino i := x)) en start ino nb =
    take (512 * i) (file_data B en start ino nb) @ x @ drop (512 * Suc i) (file_data B en start ino nb)"
  using assms
proof (induction nb)
  case (Suc nb)
  have len: "length (file_data B en start ino nb) = 512 * nb"
    using Suc.prems(1) by (intro length_file_data) simp
  have inj: "inj_on (file_block en start ino) {..<nb}"
    using Suc.prems(3) by (auto simp: inj_on_def)
  show ?case
  proof (cases "i = nb")
    case True
    have "file_data (B(file_block en start ino nb := x)) en start ino nb = file_data B en start ino nb"
    proof -
      have "file_block en start ino j \<noteq> file_block en start ino nb" if "j < nb" for j
        using Suc.prems(3) that by (auto simp: inj_on_def)
      then show ?thesis unfolding file_data_def by (intro arg_cong [of _ _ concat] map_cong) auto
    qed
    then show ?thesis using True len Suc.prems(1) by (simp add: file_data_Suc del: fun_upd_apply) simp
  next
    case False
    then have i: "i < nb" using Suc.prems(2) by simp
    have "file_block en start ino nb \<noteq> file_block en start ino i"
      using Suc.prems(2,3) False by (auto simp: inj_on_def)
    moreover have "512 * i \<le> 512 * nb" "512 * Suc i \<le> 512 * nb" using i by auto
    ultimately show ?thesis
      using Suc.IH Suc.prems(1,4) i inj len by (simp add: file_data_Suc del: mult_Suc_right)
  qed
qed simp

text \<open>A part of a byte list replaced.\<close>

definition patch :: "nat \<Rightarrow> byte list \<Rightarrow> byte list \<Rightarrow> byte list" where
  "patch off xs ys = take off ys @ xs @ drop (off + length xs) ys"

lemma length_patch: "off + length xs \<le> length ys \<Longrightarrow> length (patch off xs ys) = length ys"
  by (simp add: patch_def)

lemma nth_patch:
  "off + length xs \<le> length ys \<Longrightarrow> i < length ys \<Longrightarrow>
   patch off xs ys ! i = (if off \<le> i \<and> i < off + length xs then xs ! (i - off) else ys ! i)"
  by (auto simp: patch_def nth_append)

lemma patch_append:
  "off + length xs + length zs \<le> length ys \<Longrightarrow>
   patch (off + length xs) zs (patch off xs ys) = patch off (xs @ zs) ys"
  by (intro nth_equalityI) (auto simp: nth_patch length_patch nth_append)

lemma patch_take:
  assumes "r \<le> m" and "m \<le> length xs" and "off + m \<le> length ys" and "k = off + r"
  shows "patch k (take (m - r) (drop r xs)) (patch off (take r xs) ys) = patch off (take m xs) ys"
proof -
  have "take r xs @ take (m - r) (drop r xs) = take m xs" using assms(1) take_add [of r "m - r" xs] by simp
  then show ?thesis using patch_append [of off "take r xs" "take (m - r) (drop r xs)" ys] assms by simp
qed

lemma patch_Nil [simp]: "patch off [] ys = ys"
  by (simp add: patch_def)

lemma take_patch: "off + length xs \<le> k \<Longrightarrow> k \<le> length ys \<Longrightarrow> take k (patch off xs ys) = patch off xs (take k ys)"
  by (intro nth_equalityI) (auto simp: nth_patch length_patch)

lemma part_of_patch: "off + length xs \<le> length ys \<Longrightarrow> take (length xs) (drop off (patch off xs ys)) = xs"
  by (simp add: patch_def)

text \<open>Replacing part of one block replaces that part of the data.\<close>

lemma file_data_patch:
  assumes len: "\<And>j. j < nb \<Longrightarrow> length (B (file_block en start ino j)) = 512" and i: "i < nb"
    and inj: "inj_on (file_block en start ino) {..<nb}" and p: "p + length xs \<le> 512"
  shows "file_data (B(file_block en start ino i := patch p xs (B (file_block en start ino i)))) en start ino nb =
    patch (512 * i + p) xs (file_data B en start ino nb)"
proof -
  let ?b = "B (file_block en start ino i)" and ?D = "file_data B en start ino nb"
  have lD: "length ?D = 512 * nb" using len by (rule length_file_data)
  have "512 * Suc i \<le> 512 * nb" using i by auto
  then have li: "512 * i + 512 \<le> length ?D" using lD by simp
  have D: "drop (512 * i) ?D = ?b @ drop (512 * Suc i) ?D" using len i by (rule file_data_drop)
  have "file_data (B(file_block en start ino i := patch p xs ?b)) en start ino nb =
      take (512 * i) ?D @ patch p xs ?b @ drop (512 * Suc i) ?D"
    using len [OF i] p by (intro file_data_upd [where B = B and en = en and start = start and ino = ino and nb = nb and i = i] len i inj) (simp_all add: length_patch)
  also have "\<dots> = take (512 * i) ?D @ take p ?b @ xs @ drop (p + length xs) ?b @ drop (512 * Suc i) ?D"
    by (simp add: patch_def)
  also have "drop (p + length xs) ?b @ drop (512 * Suc i) ?D = drop (512 * i + p + length xs) ?D"
    using len [OF i] p drop_drop [of "p + length xs" "512 * i" ?D] unfolding D by (simp add: ac_simps)
  also have "take (512 * i) ?D @ take p ?b @ xs @ drop (512 * i + p + length xs) ?D =
      patch (512 * i + p) xs ?D"
  proof -
    have "take p ?b = take p (drop (512 * i) ?D)" unfolding D using len [OF i] p by simp
    then have "take (512 * i) ?D @ take p ?b = take (512 * i + p) ?D" by (simp add: take_add)
    then show ?thesis by (simp add: patch_def)
  qed
  finally show ?thesis .
qed

section \<open>A working block device\<close>

locale block_store =
  fixes g :: "'d gbd"
    and blk :: "'d \<Rightarrow> u32 \<Rightarrow> byte list"
    and valid :: "'d \<Rightarrow> u32 \<Rightarrow> bool"
  assumes read_law: "valid d b \<Longrightarrow>
      \<exists>d'. gbd_read_block g d b = (Some (blk d b), d') \<and> blk d' = blk d \<and> valid d' = valid d"
    and write_law: "valid d b \<Longrightarrow> length buf = 512 \<Longrightarrow>
      \<exists>d'. gbd_write_block g d b buf = (True, d') \<and> blk d' = (blk d)(b := buf) \<and> valid d' = valid d"
    and blk_length: "valid d b \<Longrightarrow> length (blk d b) = 512"
begin

text \<open>The same file system over the same disk contents, whatever is in the buffers.\<close>

definition same_fs :: "'d tfs \<Rightarrow> 'd tfs \<Rightarrow> bool" where
  "same_fs st st' \<longleftrightarrow> blk (disk st') = blk (disk st) \<and> valid (disk st') = valid (disk st) \<and>
     startblock st' = startblock st \<and> totalblocks st' = totalblocks st \<and>
     (length (buffer_bat st) = 512 \<longrightarrow> length (buffer_bat st') = 512)"

lemma read_bat_ok:
  assumes "valid (disk st) (startblock st + b)"
  shows "\<exists>st'. read_to g b put_bat st = (True, st') \<and> same_fs st st' \<and> lock st' = lock st \<and>
    buffer_bat st' = blk (disk st) (startblock st + b) \<and> buffer_inode st' = buffer_inode st"
  using read_law [OF assms] blk_length [OF assms] by (auto simp: read_to_def put_bat_def same_fs_def)

lemma read_inode_ok:
  assumes "valid (disk st) (startblock st + b)"
  shows "\<exists>st'. read_to g b put_inode st = (True, st') \<and> same_fs st st' \<and> lock st' = lock st \<and>
    buffer_inode st' = blk (disk st) (startblock st + b) \<and> buffer_bat st' = buffer_bat st"
  using read_law [OF assms] by (auto simp: read_to_def put_inode_def same_fs_def)

lemma read_md_ok:
  assumes "valid (disk st) (startblock st + b)"
  shows "\<exists>st'. read_to g b put_md st = (True, st') \<and> same_fs st st' \<and> lock st' = lock st \<and>
    buffer_md st' = blk (disk st) (startblock st + b) \<and> buffer_inode st' = buffer_inode st"
  using read_law [OF assms] by (auto simp: read_to_def put_md_def same_fs_def)

lemma read_loop_spec:
  assumes "length (buffer_inode st) = 512" and "b2 < 127"
    and "\<forall>i. b1 \<le> i \<and> i \<le> b2 \<longrightarrow> valid (disk st) (file_block en (startblock st) (buffer_inode st) i)"
    and "\<forall>i \<le> b2. length (blk (disk st) (file_block en (startblock st) (buffer_inode st) i)) = 512"
    and "if b1 \<le> b2 then 512 * (b2 - b1) < n - r \<and> n - r \<le> 512 * (Suc b2 - b1) else n = r"
    and "r \<le> n" and "n \<le> length buf"
  shows "\<exists>st'. tfs_read_loop g en (int n) (int b1) (int b2) (int r) (int r) buf st =
      Inr ((int n, take r buf @ take (n - r) (drop (512 * b1)
        (file_data (blk (disk st)) en (startblock st) (buffer_inode st) (Suc b2))) @ drop n buf), st') \<and>
    same_fs st st' \<and> lock st' = lock st + 1"
  using assms
proof (induction "Suc b2 - b1" arbitrary: b1 r buf st)
  case 0
  then show ?case
    by (subst tfs_read_loop.simps) (auto simp: sem_V_ret_def same_fs_def)
next
  case (Suc k)
  let ?p = "file_block en (startblock st) (buffer_inode st) b1"
  let ?B = "blk (disk st)"
  let ?D = "file_data ?B en (startblock st) (buffer_inode st) (Suc b2)"
  have b: "b1 \<le> b2" "k = Suc b2 - Suc b1" using Suc.hyps(2) by auto
  have v: "valid (disk st) ?p" and lp: "length (?B ?p) = 512" using Suc.prems(3,4) b by auto
  obtain w where w: "wget en (buffer_inode st) (int b1 + 1) = Inr w" "startblock st + from_big_endian32 en w = ?p"
    using wget_block [OF Suc.prems(1), of b1 en "startblock st"] b Suc.prems(2) by auto
  obtain st1 where s1: "read_to g (from_big_endian32 en w) put_bat st = (True, st1)" "same_fs st st1"
      "lock st1 = lock st" "buffer_bat st1 = ?B ?p" "buffer_inode st1 = buffer_inode st"
    using read_bat_ok [of st "from_big_endian32 en w"] v w(2) by auto
  have len: "length (file_data ?B en (startblock st) (buffer_inode st) (Suc b2)) = 512 * Suc b2"
    using Suc.prems(4) by (intro length_file_data) simp
  have D: "drop (512 * b1) ?D = ?B ?p @ drop (512 * Suc b1) ?D"
    using Suc.prems(4) b by (intro file_data_drop) auto
  have f1: "file_data (blk (disk st1)) en (startblock st1) (buffer_inode st1) (Suc b2) = ?D"
    using s1 by (simp add: same_fs_def)
  have unf: "tfs_read_loop g en (int n) (int b1) (int b2) (int r) (int r) buf st =
     (if b1 = b2 then
        rbind (buf_copy (int n - int r) buf (int r) (?B ?p) 0) (\<lambda>buf.
        tfs_read_loop g en (int n) (int (Suc b1)) (int b2) (int n) (int r) buf st1)
      else
        rbind (buf_copy 512 buf (int r) (?B ?p) 0) (\<lambda>buf.
        tfs_read_loop g en (int n) (int (Suc b1)) (int b2) (int (r + 512)) (int (r + 512)) buf st1))"
    using b w(1) s1
    by (subst tfs_read_loop.simps) (simp add: on_disk_ok_def algebra_simps)
  show ?case
  proof (cases "b1 = b2")
    case True
    let ?buf = "take r buf @ take (n - r) (?B ?p) @ drop n buf"
    have nr: "r < n" "n - r \<le> 512" using Suc.prems(5) True by auto
    have "buf_copy (int n - int r) buf (int r) (?B ?p) 0 = Inr ?buf"
      using nr Suc.prems(7) lp by (subst buf_copy_ok) (auto simp: nat_diff_distrib)
    moreover have "tfs_read_loop g en (int n) (int (Suc b1)) (int b2) (int n) (int r) ?buf st1 =
        Inr ((int n, ?buf), st1\<lparr>lock := lock st1 + 1\<rparr>)"
      using True by (subst tfs_read_loop.simps) (simp add: sem_V_ret_def)
    moreover have "take (n - r) (drop (512 * b1) ?D) = take (n - r) (?B ?p)"
      unfolding D using nr lp by simp
    ultimately show ?thesis
      using True unf s1 by (auto simp: same_fs_def)
  next
    case False
    let ?buf = "take r buf @ ?B ?p @ drop (r + 512) buf"
    have "512 * (b2 - b1) \<ge> 512" using False b by simp
    then have nr: "r + 512 < n" using Suc.prems(5) b False by auto
    have cp: "buf_copy 512 buf (int r) (?B ?p) 0 = Inr ?buf"
      using nr Suc.prems(7) lp by (subst buf_copy_ok) (auto simp: nat_add_distrib)
    have range: "if Suc b1 \<le> b2 then 512 * (b2 - Suc b1) < n - (r + 512) \<and> n - (r + 512) \<le> 512 * (Suc b2 - Suc b1)
        else n = r + 512"
      using Suc.prems(5) b False nr by (auto simp: algebra_simps Suc_diff_le)
    have lb: "n \<le> length ?buf" using Suc.prems(7) lp nr by simp
    obtain st' where st': "tfs_read_loop g en (int n) (int (Suc b1)) (int b2) (int (r + 512)) (int (r + 512)) ?buf st1 =
        Inr ((int n, take (r + 512) ?buf @ take (n - (r + 512)) (drop (512 * Suc b1) ?D) @ drop n ?buf), st')"
        "same_fs st1 st'" "lock st' = lock st1 + 1"
      using Suc.hyps(1) [of "Suc b1" st1 "r + 512" ?buf] b Suc.prems(1-4,7) s1 range lb nr f1
      by (auto simp: same_fs_def)
    have "take (r + 512) ?buf = take r buf @ ?B ?p" "drop n ?buf = drop n buf"
      using nr lp Suc.prems(7) by (auto simp: min_def)
    moreover have "take (n - r) (drop (512 * b1) ?D) = ?B ?p @ take (n - (r + 512)) (drop (512 * Suc b1) ?D)"
      unfolding D using nr lp by simp
    ultimately show ?thesis
      using False unf cp st' s1 by (auto simp: same_fs_def)
  qed
qed

text \<open>
  \<open>tfs_read\<close> returns the part of the file's content from \<open>off\<close> on, at most \<open>n\<close> bytes, in the
  first bytes of the buffer. The disk does not change.
\<close>

lemma read_spec:
  assumes l: "0 < lock st" and f: "2 \<le> fid" "fid \<le> sint (totalblocks st)"
    and v: "valid (disk st) (startblock st + word_of_int fid)"
    and ok: "file_ok (valid (disk st)) en (startblock st) (blk (disk st) (startblock st + word_of_int fid))"
    and sz: "file_size en (blk (disk st) (startblock st + word_of_int fid)) = int fsz"
    and off: "off \<le> fsz" and n: "n \<le> length buf"
  defines "ino \<equiv> blk (disk st) (startblock st + word_of_int fid)"
  shows "\<exists>st'. tfs_read g en fid buf (int n) (int off) st =
      Inr ((int (min n (fsz - off)),
        take (min n (fsz - off)) (drop off (file_content (blk (disk st)) en (startblock st) ino)) @
        drop (min n (fsz - off)) buf), st') \<and>
    same_fs st st' \<and> lock st' = lock st"
proof -
  let ?st = "st\<lparr>lock := lock st - 1\<rparr>"
  define m where "m = min n (fsz - off)"
  obtain st1 where s1: "read_to g (word_of_int fid) put_inode ?st = (True, st1)" "same_fs st st1"
      "lock st1 = lock st - 1" "buffer_inode st1 = ino"
    using read_inode_ok [of ?st "word_of_int fid"] v by (auto simp: same_fs_def ino_def)
  have li: "length ino = 512" using ok by (simp add: file_ok_def ino_def)
  have fs: "wget en ino 0 = Inr (word32 en (take 4 ino))" "sint (from_big_endian32 en (word32 en (take 4 ino))) = int fsz"
    using li sz by (simp_all add: wget_def file_size_def ino_def)
  have unf: "tfs_read g en fid buf (int n) (int off) st =
     (if m = 0 then sem_V_ret (0, buf) st1 else
      rbind (wget en ino (int (off div 512) + 1)) (\<lambda>w.
      on_disk_ok (read_to g (from_big_endian32 en w) put_bat st1) (- 2, buf) (\<lambda>st.
      let r = min (512 - off mod 512) m in
      rbind (buf_copy (int r) buf 0 (buffer_bat st) (int (off mod 512))) (\<lambda>buffer.
      tfs_read_loop g en (int m) (int (off div 512) + 1) (int ((off + m - 1) div 512)) (int r) (int r) buffer st))))"
  proof -
    have mi: "min (int n) (int fsz - int off) = int m" 
      using off by (auto simp: m_def of_nat_diff min_def)
    have dv: "c_div (int off) 512 = int (off div 512)" "c_mod (int off) 512 = int (off mod 512)"
      by (simp_all add: zdiv_int zmod_int)
    have dv2: "c_div (int off + int m - 1) 512 = int ((off + m - 1) div 512)" if "0 < m"
      using that by (simp add: zdiv_int of_nat_diff)
    have mn: "min (512 - int (off mod 512)) (int m) = int (min (512 - off mod 512) m)"
      using mod_less_divisor [of 512 off] by (simp add: of_nat_min of_nat_diff less_imp_le)
    show ?thesis
      using l f off s1 fs mi dv dv2 mn
      by (auto simp: tfs_read_def sem_P_def on_disk_ok_def Let_def)
  qed
  let ?nb = "num_blocks (int fsz)" and ?B = "blk (disk st)" and ?s = "startblock st"
  have nb: "?nb \<le> 127" "fsz \<le> 512 * ?nb"
    using ok sz by (auto simp: file_ok_def num_blocks_def ino_def)
  have vb: "valid (disk st) (file_block en ?s ino i)" if "i < ?nb" for i
    using ok sz that by (simp add: file_ok_def ino_def)
  have lenb: "length (?B (file_block en ?s ino i)) = 512" if "i < ?nb" for i
    using blk_length vb that by blast
  have cont: "take m (drop off (file_content ?B en ?s ino)) = take m (drop off (file_data ?B en ?s ino ?nb))"
    using sz off by (simp add: file_content_def ino_def m_def drop_take min_def)
  show ?thesis
  proof (cases "m = 0")
    case True
    then show ?thesis using unf s1 unfolding m_def [symmetric] by (auto simp: sem_V_ret_def same_fs_def)
  next
    case False
    define r b1 b2 where "r = min (512 - off mod 512) m" and "b1 = off div 512" and "b2 = (off + m - 1) div 512"
    have mm: "0 < m" "off + m \<le> 512 * ?nb" using False off nb by (auto simp: m_def)
    note part = file_data_part [where B = ?B and en = en and start = ?s and ino = ino, OF lenb mm, folded r_def b1_def b2_def]
    obtain w where w: "wget en ino (int b1 + 1) = Inr w" "?s + from_big_endian32 en w = file_block en ?s ino b1"
      using wget_block [OF li, of b1 en ?s] part(2,3) nb by auto
    have st1: "disk st1 = disk st1 \<and> blk (disk st1) = ?B" "valid (disk st1) = valid (disk st)" "startblock st1 = ?s"
      using s1(2) by (simp_all add: same_fs_def)
    have "valid (disk st1) (startblock st1 + from_big_endian32 en w)"
      using vb part(2,3) st1 w(2) by auto
    then obtain st2 where s2: "read_to g (from_big_endian32 en w) put_bat st1 = (True, st2)" "same_fs st1 st2"
        "lock st2 = lock st1" "buffer_bat st2 = ?B (file_block en ?s ino b1)" "buffer_inode st2 = ino"
      using read_bat_ok [of st1 "from_big_endian32 en w"] st1 w(2) s1(4) by auto
    let ?p = "take r (drop (off mod 512) (?B (file_block en ?s ino b1)))"
    let ?buf = "?p @ drop r buf"
    have b1: "b1 < ?nb" using part(2,3) by simp
    have rl: "r \<le> length buf" using n part(4) by (simp add: m_def)
    have lp: "length ?p = r" using lenb [OF b1] by (simp add: r_def)
    have cp: "buf_copy (int r) buf 0 (buffer_bat st2) (int (off mod 512)) = Inr ?buf"
      using part(5) rl lenb [OF b1] s2(4) by (subst buf_copy_ok) (auto simp: r_def)
    have fd: "blk (disk st2) = ?B" "startblock st2 = ?s" "valid (disk st2) = valid (disk st)"
      using s2(2) st1 by (simp_all add: same_fs_def)
    obtain st' where st': "tfs_read_loop g en (int m) (int b1 + 1) (int b2) (int r) (int r) ?buf st2 =
        Inr ((int m, take r ?buf @ take (m - r) (drop (512 * Suc b1) (file_data ?B en ?s ino (Suc b2))) @ drop m ?buf), st')"
        "same_fs st2 st'" "lock st' = lock st2 + 1"
    proof -
      have "\<exists>st'. tfs_read_loop g en (int m) (int (Suc b1)) (int b2) (int r) (int r) ?buf st2 =
        Inr ((int m, take r ?buf @ take (m - r) (drop (512 * Suc b1)
          (file_data (blk (disk st2)) en (startblock st2) (buffer_inode st2) (Suc b2))) @ drop m ?buf), st') \<and>
        same_fs st2 st' \<and> lock st' = lock st2 + 1"
        using li part(3,4,6) nb vb lenb n rl lp
        by (intro read_loop_spec) (auto simp: fd s2(5) m_def)
      then show ?thesis using that fd s2(5) by (auto simp: add.commute)
    qed
    have tk: "take r ?buf = ?p" "drop m ?buf = drop m buf" using lp part(4) by simp_all
    have "tfs_read g en fid buf (int n) (int off) st =
        tfs_read_loop g en (int m) (int b1 + 1) (int b2) (int r) (int r) ?buf st2"
      using unf False w(1) s2(1) cp by (simp add: on_disk_ok_def Let_def r_def b1_def b2_def)
    moreover have "take r ?buf @ take (m - r) (drop (512 * Suc b1) (file_data ?B en ?s ino (Suc b2))) @ drop m ?buf =
        take m (drop off (file_content ?B en ?s ino)) @ drop m buf"
      unfolding tk cont using arg_cong [OF part(1), of "\<lambda>xs. xs @ drop m buf"] by (simp only: append_assoc)
    ultimately have "tfs_read g en fid buf (int n) (int off) st =
        Inr ((int m, take m (drop off (file_content ?B en ?s ino)) @ drop m buf), st')"
      using st'(1) by (simp only:)
    moreover have "same_fs st st'" "lock st' = lock st"
      using s1 s2 st' by (simp_all add: same_fs_def)
    ultimately show ?thesis unfolding m_def by blast
  qed
qed

text \<open>The same file system over a disk with the blocks \<open>B\<close>.\<close>

definition same_but :: "'d tfs \<Rightarrow> 'd tfs \<Rightarrow> (u32 \<Rightarrow> byte list) \<Rightarrow> bool" where
  "same_but st st' B \<longleftrightarrow> blk (disk st') = B \<and> valid (disk st') = valid (disk st) \<and>
     startblock st' = startblock st \<and> totalblocks st' = totalblocks st \<and> lock st' = lock st \<and>
     buffer_inode st' = buffer_inode st \<and> length (buffer_bat st') = 512"

text \<open>One round of writing: the block is fetched when only part of it is new, patched and stored.\<close>

lemma put_part:
  assumes v: "valid (disk st) (startblock st + b)" and lb: "length (buffer_bat st) = 512"
    and r: "0 < r" "p + r \<le> 512" and q: "q + r \<le> length buf"
  shows "\<exists>st1 bat st2. fetch_part g (r < 512) b st = (True, st1) \<and>
    buf_copy (int r) (buffer_bat st1) (int p) buf (int q) = Inr bat \<and>
    write_from g b bat (st1\<lparr>buffer_bat := bat\<rparr>) = (True, st2) \<and>
    same_but st st2 ((blk (disk st))(startblock st + b :=
      patch p (take r (drop q buf)) (blk (disk st) (startblock st + b))))"
proof -
  let ?p = "startblock st + b"
  let ?x = "patch p (take r (drop q buf)) (blk (disk st) ?p)"
  have lx: "length ?x = 512" using blk_length [OF v] r q by (simp add: patch_def)
  obtain st1 where f: "fetch_part g (r < 512) b st = (True, st1)" and s1: "same_but st st1 (blk (disk st))"
    and bat: "patch p (take r (drop q buf)) (buffer_bat st1) = ?x"
  proof (cases "r < 512")
    case True
    then show ?thesis
      using that read_bat_ok [OF v] blk_length [OF v] read_law [OF v]
      by (auto simp: fetch_part_def same_but_def read_to_def put_bat_def)
  next
    case False
    then have "p = 0" "r = 512" using r by auto
    then have "patch p (take r (drop q buf)) (buffer_bat st) = ?x"
      using q lb blk_length [OF v] by (simp add: patch_def)
    then show ?thesis using that [of st] False lb by (simp add: fetch_part_def same_but_def)
  qed
  have "buf_copy (int r) (buffer_bat st1) (int p) buf (int q) = Inr ?x"
  proof -
    have "length (take r (drop q buf)) = r" using q by simp
    then show ?thesis
      using arg_cong [OF bat, of Inr] r q s1
      by (subst buf_copy_ok) (auto simp: same_but_def nat_add_distrib patch_def simp del: length_take)
  qed
  moreover have "valid (disk st1) ?p" using v s1 by (simp add: same_but_def)
  then obtain d' where "gbd_write_block g (disk st1) ?p ?x = (True, d')"
      "blk d' = (blk (disk st1))(?p := ?x)" "valid d' = valid (disk st1)"
    using write_law lx by blast
  ultimately show ?thesis
    using f s1 lx by (auto simp: write_from_def same_but_def)
qed

lemma write_loop_spec:
  assumes "length (buffer_inode st) = 512" and "b2 < nb" and "nb \<le> 127"
    and "\<forall>i < nb. valid (disk st) (file_block en (startblock st) (buffer_inode st) i)"
    and "inj_on (file_block en (startblock st) (buffer_inode st)) {..<nb}"
    and "length (buffer_bat st) = 512"
    and "if b1 \<le> b2 then 512 * (b2 - b1) < n - r \<and> n - r \<le> 512 * (Suc b2 - b1) else n = r"
    and "r \<le> n" and "n \<le> length buf"
  shows "\<exists>st'. tfs_write_loop g en (int n) (int b1) (int b2) (int r) (int r) buf st = Inr (int n, st') \<and>
    valid (disk st') = valid (disk st) \<and> startblock st' = startblock st \<and> totalblocks st' = totalblocks st \<and>
    lock st' = lock st + 1 \<and> length (buffer_bat st') = 512 \<and>
    file_data (blk (disk st')) en (startblock st) (buffer_inode st) nb =
      patch (512 * b1) (take (n - r) (drop r buf)) (file_data (blk (disk st)) en (startblock st) (buffer_inode st) nb) \<and>
    (\<forall>b. b \<notin> file_block en (startblock st) (buffer_inode st) ` {..<nb} \<longrightarrow> blk (disk st') b = blk (disk st) b)"
  using assms
proof (induction "Suc b2 - b1" arbitrary: b1 r st)
  case 0
  then show ?case by (subst tfs_write_loop.simps) (auto simp: sem_V_ret_def)
next
  case (Suc k)
  let ?p = "file_block en (startblock st) (buffer_inode st) b1" and ?fb = "file_block en (startblock st) (buffer_inode st)"
  let ?B = "blk (disk st)"
  let ?D = "file_data ?B en (startblock st) (buffer_inode st) nb"
  have b: "b1 \<le> b2" "k = Suc b2 - Suc b1" "b1 < nb" using Suc.hyps(2) Suc.prems(2) by auto
  have lenb: "length (?B (?fb i)) = 512" if "i < nb" for i using Suc.prems(4) blk_length that by blast
  have lD: "length ?D = 512 * nb" using lenb by (rule length_file_data)
  obtain w where w: "wget en (buffer_inode st) (int b1 + 1) = Inr w" "startblock st + from_big_endian32 en w = ?p"
    using wget_block [OF Suc.prems(1), of b1 en "startblock st"] b Suc.prems(3) by auto
  define c where "c = min 512 (n - r)"
  have c: "0 < c" "c \<le> 512" "r + c \<le> length buf" "r + c \<le> n"
    "b1 = b2 \<Longrightarrow> c = n - r" "b1 \<noteq> b2 \<Longrightarrow> c = 512 \<and> 512 < n - r"
    using Suc.prems(7-9) b by (auto simp: c_def min_def)
  have v: "valid (disk st) (startblock st + from_big_endian32 en w)" using Suc.prems(4) b w by simp
  obtain st1 bat st2 where s: "fetch_part g (c < 512) (from_big_endian32 en w) st = (True, st1)"
      "buf_copy (int c) (buffer_bat st1) 0 buf (int r) = Inr bat"
      "write_from g (from_big_endian32 en w) bat (st1\<lparr>buffer_bat := bat\<rparr>) = (True, st2)"
    and s2: "same_but st st2 (?B(?p := patch 0 (take c (drop r buf)) (?B ?p)))"
    using put_part [OF v Suc.prems(6) c(1), of 0 r buf] c w by auto
  have d2: "file_data (blk (disk st2)) en (startblock st) (buffer_inode st) nb =
      patch (512 * b1) (take c (drop r buf)) ?D"
    using s2 file_data_patch [of nb ?B en "startblock st" "buffer_inode st" b1 0 "take c (drop r buf)"]
      lenb b Suc.prems(5) c by (simp add: same_but_def del: fun_upd_apply)
  have o2: "\<forall>b. b \<notin> ?fb ` {..<nb} \<longrightarrow> blk (disk st2) b = ?B b" using s2 b by (auto simp: same_but_def)
  show ?case
  proof (cases "b1 = b2")
    case True
    have lt: "(int n - int r < 512) = (c < 512)" "int n - int r = int c"
      using c True Suc.prems(8) by auto
    have "tfs_write_loop g en (int n) (int b1) (int b2) (int r) (int r) buf st =
        tfs_write_loop g en (int n) (int b2 + 1) (int b2) (int n) (int r) buf st2"
      using True w(1) s
      by (subst tfs_write_loop.simps) (simp add: on_disk_ok_def lt Let_def)
    also have "\<dots> = Inr (int n, st2\<lparr>lock := lock st2 + 1\<rparr>)"
      by (subst tfs_write_loop.simps) (simp add: sem_V_ret_def)
    finally show ?thesis using d2 o2 s2 c True by (auto simp: same_but_def)
  next
    case False
    have c5: "c = 512" "512 < n - r" using c(6) False by auto
    have st1: "st1 = st" using s(1) c5 by (simp add: fetch_part_def)
    have unf: "tfs_write_loop g en (int n) (int b1) (int b2) (int r) (int r) buf st =
        tfs_write_loop g en (int n) (int (Suc b1)) (int b2) (int (r + 512)) (int (r + 512)) buf st2"
      using False b w(1) s c5 st1
      by (subst tfs_write_loop.simps) (simp add: on_disk_ok_def Let_def algebra_simps)
    have range: "if Suc b1 \<le> b2 then 512 * (b2 - Suc b1) < n - (r + 512) \<and> n - (r + 512) \<le> 512 * (Suc b2 - Suc b1)
        else n = r + 512"
      using Suc.prems(7) b False c5 by (auto simp: algebra_simps Suc_diff_le)
    have rn: "r + 512 \<le> n" using c c5 by simp
    have sf: "buffer_inode st2 = buffer_inode st" "startblock st2 = startblock st" "valid (disk st2) = valid (disk st)"
        "totalblocks st2 = totalblocks st" "lock st2 = lock st" "length (buffer_bat st2) = 512"
      using s2 by (simp_all add: same_but_def)
    obtain st' where st': "tfs_write_loop g en (int n) (int (Suc b1)) (int b2) (int (r + 512)) (int (r + 512)) buf st2 =
          Inr (int n, st')" "valid (disk st') = valid (disk st)" "startblock st' = startblock st"
        "totalblocks st' = totalblocks st" "lock st' = lock st + 1" "length (buffer_bat st') = 512"
        "file_data (blk (disk st')) en (startblock st) (buffer_inode st) nb =
          patch (512 * Suc b1) (take (n - (r + 512)) (drop (r + 512) buf))
            (file_data (blk (disk st2)) en (startblock st) (buffer_inode st) nb)"
        "\<forall>b. b \<notin> ?fb ` {..<nb} \<longrightarrow> blk (disk st') b = blk (disk st2) b"
      using Suc.hyps(1) [of "Suc b1" st2 "r + 512"] Suc.prems(1-5,9) b(2) range rn by (auto simp: sf)
    have "512 * b1 + (n - r) \<le> 512 * nb"
    proof -
      have "n - r \<le> 512 * (Suc b2 - b1)" using Suc.prems(7) b by simp
      then have "512 * b1 + (n - r) \<le> 512 * (b1 + (Suc b2 - b1))" by simp
      also have "\<dots> \<le> 512 * nb" using b Suc.prems(2) by (intro mult_le_mono2) simp
      finally show ?thesis .
    qed
    then have "patch (512 * Suc b1) (take (n - (r + 512)) (drop (r + 512) buf)) (patch (512 * b1) (take 512 (drop r buf)) ?D) =
        patch (512 * b1) (take (n - r) (drop r buf)) ?D"
      using patch_take [of 512 "n - r" "drop r buf" "512 * b1" ?D "512 * Suc b1"] lD c5 c(4) Suc.prems(9)
      by (simp add: add.commute)
    then show ?thesis using unf st' d2 o2 c5 by auto
  qed
qed

text \<open>
  \<open>tfs_write\<close> replaces the part of the file's content from \<open>off\<close> on by the first bytes of the
  buffer, never past the end of the file. No block outside the file's data changes.
\<close>

lemma write_spec:
  assumes l: "0 < lock st" and f: "2 \<le> fid" "fid \<le> sint (totalblocks st)"
    and v: "valid (disk st) (startblock st + word_of_int fid)"
    and ok: "file_ok (valid (disk st)) en (startblock st) (blk (disk st) (startblock st + word_of_int fid))"
    and sz: "file_size en (blk (disk st) (startblock st + word_of_int fid)) = int fsz"
    and off: "off \<le> fsz" and n: "n \<le> length buf" and lb: "length (buffer_bat st) = 512"
  defines "ino \<equiv> blk (disk st) (startblock st + word_of_int fid)" and "m \<equiv> min n (fsz - off)"
  shows "\<exists>st'. tfs_write g en fid buf (int n) (int off) st = Inr (int m, st') \<and>
    valid (disk st') = valid (disk st) \<and> startblock st' = startblock st \<and> totalblocks st' = totalblocks st \<and>
    lock st' = lock st \<and> length (buffer_bat st') = 512 \<and>
    file_content (blk (disk st')) en (startblock st) ino =
      patch off (take m buf) (file_content (blk (disk st)) en (startblock st) ino) \<and>
    (\<forall>b. b \<notin> file_block en (startblock st) ino ` {..<num_blocks (int fsz)} \<longrightarrow> blk (disk st') b = blk (disk st) b)"
proof -
  let ?st = "st\<lparr>lock := lock st - 1\<rparr>"
  have "\<exists>st1. read_to g (word_of_int fid) put_inode ?st = (True, st1) \<and> same_fs st st1 \<and>
      lock st1 = lock st - 1 \<and> buffer_inode st1 = ino \<and> buffer_bat st1 = buffer_bat st"
    using read_inode_ok [of ?st "word_of_int fid"] v by (auto simp: same_fs_def ino_def)
  then obtain st1 where s1: "read_to g (word_of_int fid) put_inode ?st = (True, st1)" "same_fs st st1"
      "lock st1 = lock st - 1" "buffer_inode st1 = ino" "length (buffer_bat st1) = 512" using lb by auto
  have li: "length ino = 512" using ok by (simp add: file_ok_def ino_def)
  have fs: "wget en ino 0 = Inr (word32 en (take 4 ino))" "sint (from_big_endian32 en (word32 en (take 4 ino))) = int fsz"
    using li sz by (simp_all add: wget_def file_size_def ino_def)
  define r b1 b2 where "r = min (512 - off mod 512) m" and "b1 = off div 512" and "b2 = (off + m - 1) div 512"
  have unf: "tfs_write g en fid buf (int n) (int off) st =
     (if m = 0 then sem_V_ret 0 st1 else
      rbind (wget en ino (int b1 + 1)) (\<lambda>w.
      on_disk_ok (fetch_part g (r < 512) (from_big_endian32 en w) st1) (- 2) (\<lambda>st.
      rbind (buf_copy (int r) (buffer_bat st) (int (off mod 512)) buf 0) (\<lambda>bat.
      on_disk_ok (write_from g (from_big_endian32 en w) bat (st\<lparr>buffer_bat := bat\<rparr>)) (- 2)
        (tfs_write_loop g en (int m) (int b1 + 1) (int b2) (int r) (int r) buf)))))"
  proof -
    have mi: "min (int n) (int fsz - int off) = int m" 
      using off by (auto simp: m_def of_nat_diff min_def)
    have dv: "c_div (int off) 512 = int b1" "c_mod (int off) 512 = int (off mod 512)"
      by (simp_all add: zdiv_int zmod_int b1_def)
    have dv2: "c_div (int off + int m - 1) 512 = int b2" if "0 < m"
      using that by (simp add: zdiv_int of_nat_diff b2_def)
    have mn: "min (512 - int (off mod 512)) (int m) = int r" 
      using mod_less_divisor [of 512 off] by (simp add: of_nat_min of_nat_diff less_imp_le r_def)
    show ?thesis
      using l f off s1 fs mi dv dv2 mn
      by (auto simp: tfs_write_def sem_P_def on_disk_ok_def Let_def)
  qed
  let ?nb = "num_blocks (int fsz)" and ?B = "blk (disk st)" and ?s = "startblock st"
  have nb: "?nb \<le> 127" "fsz \<le> 512 * ?nb"
    using ok sz by (auto simp: file_ok_def num_blocks_def ino_def)
  have vb: "valid (disk st) (file_block en ?s ino i)" if "i < ?nb" for i
    using ok sz that by (simp add: file_ok_def ino_def)
  have inj: "inj_on (file_block en ?s ino) {..<?nb}" using ok sz by (simp add: file_ok_def ino_def)
  have lenb: "length (?B (file_block en ?s ino i)) = 512" if "i < ?nb" for i
    using blk_length vb that by blast
  have lD: "length (file_data ?B en ?s ino ?nb) = 512 * ?nb" using lenb by (rule length_file_data)
  have cont: "file_content C en ?s ino = take fsz (file_data C en ?s ino ?nb)" for C
    using sz by (simp add: file_content_def ino_def)
  show ?thesis
  proof (cases "m = 0")
    case True
    then show ?thesis using unf s1 lb by (auto simp: sem_V_ret_def same_fs_def)
  next
    case False
    have mm: "0 < m" "off + m \<le> 512 * ?nb" using False off nb by (auto simp: m_def)
    note part = file_data_part [where B = ?B and en = en and start = ?s and ino = ino, OF lenb mm, folded r_def b1_def b2_def]
    have b1: "b1 < ?nb" using part(2,3) by simp
    obtain w where w: "wget en ino (int b1 + 1) = Inr w" "?s + from_big_endian32 en w = file_block en ?s ino b1"
      using wget_block [OF li, of b1 en ?s] b1 nb by auto
    have e1: "blk (disk st1) = ?B" "valid (disk st1) = valid (disk st)" "startblock st1 = ?s" "totalblocks st1 = totalblocks st"
      using s1(2) by (simp_all add: same_fs_def)
    have ml: "m \<le> length buf" using n by (simp add: m_def)
    have v1: "valid (disk st1) (startblock st1 + from_big_endian32 en w)" using vb [OF b1] e1 w(2) by simp
    have r: "off mod 512 + r \<le> 512" by (simp add: r_def)
    obtain st2 bat st3 where s: "fetch_part g (r < 512) (from_big_endian32 en w) st1 = (True, st2)"
        "buf_copy (int r) (buffer_bat st2) (int (off mod 512)) buf 0 = Inr bat"
        "write_from g (from_big_endian32 en w) bat (st2\<lparr>buffer_bat := bat\<rparr>) = (True, st3)"
      and s3: "same_but st1 st3 (?B(file_block en ?s ino b1 := patch (off mod 512) (take r buf) (?B (file_block en ?s ino b1))))"
      using put_part [OF v1 s1(5) part(5) r, of 0 buf] part(4) ml w(2) e1 by auto
    have e3: "buffer_inode st3 = ino" "startblock st3 = ?s" "valid (disk st3) = valid (disk st)"
        "totalblocks st3 = totalblocks st" "lock st3 = lock st - 1" "length (buffer_bat st3) = 512"
      using s3 s1 e1 by (simp_all add: same_but_def)
    have d3: "file_data (blk (disk st3)) en ?s ino ?nb = patch off (take r buf) (file_data ?B en ?s ino ?nb)"
      using s3 file_data_patch [of ?nb ?B en ?s ino b1 "off mod 512" "take r buf"] lenb b1 inj r part(4) ml
      by (simp add: same_but_def b1_def del: fun_upd_apply)
    have "\<exists>st'. tfs_write_loop g en (int m) (int (Suc b1)) (int b2) (int r) (int r) buf st3 = Inr (int m, st') \<and>
        valid (disk st') = valid (disk st3) \<and> startblock st' = startblock st3 \<and> totalblocks st' = totalblocks st3 \<and>
        lock st' = lock st3 + 1 \<and> length (buffer_bat st') = 512 \<and>
        file_data (blk (disk st')) en (startblock st3) (buffer_inode st3) ?nb =
          patch (512 * Suc b1) (take (m - r) (drop r buf)) (file_data (blk (disk st3)) en (startblock st3) (buffer_inode st3) ?nb) \<and>
        (\<forall>b. b \<notin> file_block en (startblock st3) (buffer_inode st3) ` {..<?nb} \<longrightarrow> blk (disk st') b = blk (disk st3) b)"
      using li part(3,4,6) nb(1) vb inj ml e3(6) by (intro write_loop_spec) (auto simp: e3(1-3))
    then obtain st' where st': "tfs_write_loop g en (int m) (int b1 + 1) (int b2) (int r) (int r) buf st3 = Inr (int m, st')"
        "valid (disk st') = valid (disk st)" "startblock st' = ?s" "totalblocks st' = totalblocks st" "lock st' = lock st" "length (buffer_bat st') = 512"
        "file_data (blk (disk st')) en ?s ino ?nb =
          patch (512 * Suc b1) (take (m - r) (drop r buf)) (patch off (take r buf) (file_data ?B en ?s ino ?nb))"
        "\<forall>b. b \<notin> file_block en ?s ino ` {..<?nb} \<longrightarrow> blk (disk st') b = blk (disk st3) b"
      using d3 by (auto simp: e3 add.commute)
    have "patch (512 * Suc b1) (take (m - r) (drop r buf)) (patch off (take r buf) (file_data ?B en ?s ino ?nb)) =
        patch off (take m buf) (file_data ?B en ?s ino ?nb)"
    proof (cases "m = r")
      case False
      then have "r = 512 - off mod 512" by (auto simp: r_def min_def split: if_splits)
      moreover have "512 * b1 + off mod 512 = off" by (simp add: b1_def)
      ultimately have "512 * Suc b1 = off + r" using mod_less_divisor [of 512 off] by simp
      then show ?thesis using lD mm(2) ml part(4) by (intro patch_take) simp_all
    qed simp
    then have "file_content (blk (disk st')) en ?s ino = patch off (take m buf) (file_content ?B en ?s ino)"
      using st'(7) lD ml off nb(2) by (simp add: cont take_patch m_def)
    moreover have "blk (disk st') b = ?B b" if "b \<notin> file_block en ?s ino ` {..<?nb}" for b
      using st'(8) that s3 b1 by (auto simp: same_but_def)
    moreover have "tfs_write g en fid buf (int n) (int off) st = Inr (int m, st')"
      using unf False w(1) s st'(1) by (simp add: on_disk_ok_def)
    ultimately show ?thesis using st'(2-6) by blast
  qed
qed

text \<open>What was written is read back, and every other file keeps its content.\<close>

lemma write_read:
  assumes l: "0 < lock st" and f: "2 \<le> fid" "fid \<le> sint (totalblocks st)"
    and v: "valid (disk st) (startblock st + word_of_int fid)"
    and ok: "file_ok (valid (disk st)) en (startblock st) (blk (disk st) (startblock st + word_of_int fid))"
    and sz: "file_size en (blk (disk st) (startblock st + word_of_int fid)) = int fsz"
    and sep: "startblock st + word_of_int fid \<notin>
      file_block en (startblock st) (blk (disk st) (startblock st + word_of_int fid)) ` {..<num_blocks (int fsz)}"
    and off: "off + n \<le> fsz" and n: "n \<le> length buf" "n \<le> length buf2" and lb: "length (buffer_bat st) = 512"
  shows "\<exists>st' st''. tfs_write g en fid buf (int n) (int off) st = Inr (int n, st') \<and>
    tfs_read g en fid buf2 (int n) (int off) st' = Inr ((int n, take n buf @ drop n buf2), st'') \<and>
    same_fs st' st'' \<and> lock st'' = lock st"
proof -
  let ?b = "startblock st + word_of_int fid"
  let ?ino = "blk (disk st) ?b"
  have m: "min n (fsz - off) = n" "off \<le> fsz" using off by auto
  obtain st' where w: "tfs_write g en fid buf (int n) (int off) st = Inr (int n, st')"
      "valid (disk st') = valid (disk st)" "startblock st' = startblock st" "totalblocks st' = totalblocks st"
      "lock st' = lock st"
      "file_content (blk (disk st')) en (startblock st) ?ino =
        patch off (take n buf) (file_content (blk (disk st)) en (startblock st) ?ino)"
      "blk (disk st') ?b = ?ino"
    using write_spec [OF l f v ok sz m(2) n(1) lb] sep unfolding m by auto
  have "\<exists>st''. tfs_read g en fid buf2 (int n) (int off) st' =
      Inr ((int (min n (fsz - off)),
        take (min n (fsz - off)) (drop off (file_content (blk (disk st')) en (startblock st') (blk (disk st') (startblock st' + word_of_int fid)))) @
        drop (min n (fsz - off)) buf2), st'') \<and>
    same_fs st' st'' \<and> lock st'' = lock st'"
    using l f v ok sz m n w by (intro read_spec) auto
  then obtain st'' where r: "tfs_read g en fid buf2 (int n) (int off) st' =
      Inr ((int n, take n (drop off (file_content (blk (disk st')) en (startblock st) ?ino)) @ drop n buf2), st'')"
      "same_fs st' st''" "lock st'' = lock st'"
    unfolding m w(3,7) by auto
  have "length (file_content (blk (disk st)) en (startblock st) ?ino) = fsz"
  proof -
    have vb: "valid (disk st) (file_block en (startblock st) ?ino i)" if "i < num_blocks (int fsz)" for i
      using ok sz that by (simp add: file_ok_def)
    then have "length (file_data (blk (disk st)) en (startblock st) ?ino (num_blocks (int fsz))) = 512 * num_blocks (int fsz)"
      by (intro length_file_data blk_length)
    then show ?thesis using sz by (auto simp: file_content_def num_blocks_def)
  qed
  then have "take n (drop off (file_content (blk (disk st')) en (startblock st) ?ino)) = take n buf"
    using part_of_patch [of off "take n buf"] off n w(6) by simp
  then show ?thesis using w r by auto
qed

end

end
