(* ===== verification/Vfs.thy ===== *)
theory Vfs
  imports Tfs_Files
begin

text \<open>
  The Virtual File System (\<^verbatim>\<open>src/kudos/fs/vfs.c\<close>, \<^verbatim>\<open>vfs.h\<close>): the table of mounted file systems, the
  table of open files, and the operations that find the driver for a path or an open file and call
  it. File systems are pointers, \<open>0\<close> for NULL; the driver functions act on \<open>world\<close>, the state of all
  file systems. The locale \<open>file_driver\<close> is the contract of the drivers' read and write functions;
  the sequential access through \<open>vfs_seek\<close>, \<open>vfs_read\<close> and \<open>vfs_write\<close> is proved from it.
  The semaphores are their values, 0 for a caller that has to wait; the creation of the two in \<open>vfs_init\<close> is taken to succeed.
\<close>

section \<open>Data\<close>

abbreviation (input) CONFIG_MAX_FILESYSTEMS :: nat where "CONFIG_MAX_FILESYSTEMS \<equiv> 8"
abbreviation (input) CONFIG_MAX_OPEN_FILES :: nat where "CONFIG_MAX_OPEN_FILES \<equiv> 512"
abbreviation (input) VFS_NAME_LENGTH :: nat where "VFS_NAME_LENGTH \<equiv> 16"

text \<open>The function pointers of \<open>fs_t\<close>; the first argument is the file system.\<close>

record 'w fs_driver =
  fs_unmount :: "int \<Rightarrow> 'w \<Rightarrow> (int \<times> 'w) res"
  fs_open :: "int \<Rightarrow> byte list \<Rightarrow> 'w \<Rightarrow> (int \<times> 'w) res"
  fs_close :: "int \<Rightarrow> int \<Rightarrow> 'w \<Rightarrow> (int \<times> 'w) res"
  fs_read :: "int \<Rightarrow> int \<Rightarrow> byte list \<Rightarrow> int \<Rightarrow> int \<Rightarrow> 'w \<Rightarrow> ((int \<times> byte list) \<times> 'w) res"
  fs_write :: "int \<Rightarrow> int \<Rightarrow> byte list \<Rightarrow> int \<Rightarrow> int \<Rightarrow> 'w \<Rightarrow> (int \<times> 'w) res"
  fs_create :: "int \<Rightarrow> byte list \<Rightarrow> int \<Rightarrow> 'w \<Rightarrow> (int \<times> 'w) res"
  fs_remove :: "int \<Rightarrow> byte list \<Rightarrow> 'w \<Rightarrow> (int \<times> 'w) res"
  fs_getfree :: "int \<Rightarrow> 'w \<Rightarrow> (int \<times> 'w) res"
  fs_filecount :: "int \<Rightarrow> byte list \<Rightarrow> 'w \<Rightarrow> (int \<times> 'w) res"
  fs_file :: "int \<Rightarrow> byte list \<Rightarrow> int \<Rightarrow> byte list \<Rightarrow> 'w \<Rightarrow> ((int \<times> byte list) \<times> 'w) res"

record vfs_entry =
  mounted :: int
  mountpoint :: "byte list"

record openfile_entry =
  filesystem :: int
  fileid :: int
  seek_position :: int

datatype vfs_sem = Vfs_table_sem | Openfile_table_sem | Vfs_op_sem | Vfs_unmount_sem

record 'w vfs =
  filesystems :: "vfs_entry list"
  files :: "openfile_entry list"
  vsem :: "vfs_sem \<Rightarrow> int"
  vfs_ops :: int
  vfs_usable :: bool
  world :: 'w

type_synonym ('a, 'w) vfs_m = "'w vfs \<Rightarrow> ('a \<times> 'w vfs) res"

section \<open>Semaphores, driver calls, operation count\<close>

definition vfs_P :: "vfs_sem \<Rightarrow> 'w vfs \<Rightarrow> 'w vfs res" where
  "vfs_P x s = (if vsem s x > 0 then Inr (s\<lparr>vsem := (vsem s)(x := vsem s x - 1)\<rparr>) else Inl Blocked)"

definition vfs_V :: "vfs_sem \<Rightarrow> 'w vfs \<Rightarrow> 'w vfs" where
  "vfs_V x s = s\<lparr>vsem := (vsem s)(x := vsem s x + 1)\<rparr>"

definition call_fs :: "('w \<Rightarrow> ('a \<times> 'w) res) \<Rightarrow> ('a, 'w) vfs_m" where
  "call_fs op s = rbind (op (world s)) (\<lambda>(r, w). Inr (r, s\<lparr>world := w\<rparr>))"

definition vfs_start_op :: "(int, 'w) vfs_m" where
  "vfs_start_op s =
     rbind (vfs_P Vfs_op_sem s) (\<lambda>s.
     if vfs_usable s then Inr (VFS_OK, vfs_V Vfs_op_sem (s\<lparr>vfs_ops := vfs_ops s + 1\<rparr>))
     else Inr (VFS_UNUSABLE, vfs_V Vfs_op_sem s))"

definition vfs_end_op :: "'w vfs \<Rightarrow> 'w vfs res" where
  "vfs_end_op s =
     rbind (vfs_P Vfs_op_sem s) (\<lambda>s.
     let s = s\<lparr>vfs_ops := vfs_ops s - 1\<rparr> in
     rbind (kassert (vfs_ops s \<ge> 0)) (\<lambda>_.
     let s = (if \<not> vfs_usable s \<and> vfs_ops s = 0 then vfs_V Vfs_unmount_sem s else s) in
     Inr (vfs_V Vfs_op_sem s)))"

text \<open>The first lines of every operation, and its last two.\<close>

definition in_op :: "'a \<Rightarrow> ('a, 'w) vfs_m \<Rightarrow> ('a, 'w) vfs_m" where
  "in_op unusable k s = rbind (vfs_start_op s) (\<lambda>(r, s). if r \<noteq> VFS_OK then Inr (unusable, s) else k s)"

definition end_op :: "'a \<Rightarrow> ('a, 'w) vfs_m" where
  "end_op v s = rbind (vfs_end_op s) (\<lambda>s. Inr (v, s))"

section \<open>Initialisation and shutdown\<close>

definition vfs_init :: "'w vfs \<Rightarrow> 'w vfs" where
  "vfs_init s =
     s\<lparr>filesystems := map (\<lambda>e. e\<lparr>mounted := 0\<rparr>) (filesystems s),
       files := map (\<lambda>e. e\<lparr>filesystem := 0\<rparr>) (files s),
       vsem := (\<lambda>x. if x = Vfs_unmount_sem then 0 else 1), vfs_ops := 0, vfs_usable := True\<rparr>"

fun unmount_rows :: "'w fs_driver \<Rightarrow> nat \<Rightarrow> nat \<Rightarrow> 'w vfs \<Rightarrow> 'w vfs res" where
  "unmount_rows g 0 row s = Inr s"
| "unmount_rows g (Suc n) row s =
     rbind (lget (filesystems s) (int row)) (\<lambda>e.
     if mounted e \<noteq> 0 then
       rbind (call_fs (fs_unmount g (mounted e)) s) (\<lambda>(_, s).
       rbind (lset (filesystems s) (int row) (e\<lparr>mounted := 0\<rparr>)) (\<lambda>fs.
       unmount_rows g n (Suc row) (s\<lparr>filesystems := fs\<rparr>)))
     else unmount_rows g n (Suc row) s)"

definition vfs_unmount_all :: "'w fs_driver \<Rightarrow> 'w vfs \<Rightarrow> 'w vfs res" where
  "vfs_unmount_all g s =
     rbind (vfs_P Vfs_table_sem s) (\<lambda>s.
     rbind (vfs_P Openfile_table_sem s) (\<lambda>s.
     rbind (unmount_rows g CONFIG_MAX_FILESYSTEMS 0 s) (\<lambda>s.
     Inr (vfs_V Vfs_op_sem (vfs_V Vfs_table_sem (vfs_V Openfile_table_sem s))))))"

text \<open>
  \<open>vfs_deinit\<close> waits for the pending operations; \<open>None\<close> is that wait, from which
  \<open>vfs_deinit_resume\<close> continues when an operation has raised \<open>vfs_unmount_sem\<close>.
\<close>

definition vfs_deinit :: "'w fs_driver \<Rightarrow> (unit option, 'w) vfs_m" where
  "vfs_deinit g s =
     rbind (vfs_P Vfs_op_sem s) (\<lambda>s.
     let s = s\<lparr>vfs_usable := False\<rparr> in
     if vfs_ops s > 0 then Inr (None, vfs_V Vfs_op_sem s)
     else rbind (vfs_unmount_all g s) (\<lambda>s. Inr (Some (), s)))"

definition vfs_deinit_resume :: "'w fs_driver \<Rightarrow> 'w vfs \<Rightarrow> 'w vfs res" where
  "vfs_deinit_resume g s =
     rbind (vfs_P Vfs_unmount_sem s) (\<lambda>s.
     rbind (vfs_P Vfs_op_sem s) (\<lambda>s.
     rbind (kassert (vfs_ops s = 0)) (\<lambda>_. vfs_unmount_all g s)))"

section \<open>Paths and mount points\<close>

text \<open>The volume name up to the closing bracket; \<open>None\<close> is VFS_ERROR.\<close>

fun parse_volume :: "nat \<Rightarrow> byte list \<Rightarrow> byte list \<Rightarrow> (byte list \<times> byte list) option res" where
  "parse_volume 0 path vol = Inr None"
| "parse_volume (Suc n) [] vol = Inl OutOfBounds"
| "parse_volume (Suc n) (c # path) vol =
     (if c = 0 then Inr None else if c = 93 then Inr (Some (vol, path))
      else parse_volume n path (vol @ [c]))"

fun parse_filename :: "nat \<Rightarrow> byte list \<Rightarrow> byte list \<Rightarrow> byte list option res" where
  "parse_filename 0 path name = Inr None"
| "parse_filename (Suc n) [] name = Inl OutOfBounds"
| "parse_filename (Suc n) (c # path) name =
     (if c = 0 then Inr (if name = [] then None else Some (name @ [0]))
      else parse_filename n path (name @ [c]))"

definition vfs_parse_pathname :: "byte list \<Rightarrow> (byte list \<times> byte list) option res" where
  "vfs_parse_pathname path =
     rbind (lget path 0) (\<lambda>c.
     rbind (if c = 91 then parse_volume (VFS_NAME_LENGTH - 1) (drop 1 path) [] else Inr (Some ([], path))) (\<lambda>r.
     case r of None \<Rightarrow> Inr None
     | Some (vol, path) \<Rightarrow>
         rbind (parse_filename VFS_NAME_LENGTH path []) (\<lambda>r.
         case r of None \<Rightarrow> Inr None | Some name \<Rightarrow> Inr (Some (vol @ [0], name)))))"

text \<open>The first row with the given mount point name, and its file system.\<close>

fun find_row :: "vfs_entry list \<Rightarrow> byte list \<Rightarrow> nat \<Rightarrow> nat option res" where
  "find_row [] name row = Inr None"
| "find_row (e # es) name row =
     rbind (stringcmp (mountpoint e) name) (\<lambda>c. if c = 0 then Inr (Some row) else find_row es name (Suc row))"

definition vfs_get_filesystem :: "byte list \<Rightarrow> 'w vfs \<Rightarrow> int res" where
  "vfs_get_filesystem name s =
     rbind (find_row (filesystems s) name 0) (\<lambda>r.
     case r of None \<Rightarrow> Inr 0 | Some row \<Rightarrow> Inr (mounted (filesystems s ! row)))"

definition free_row :: "'w vfs \<Rightarrow> nat" where
  "free_row s = length (takeWhile (\<lambda>e. mounted e \<noteq> 0) (filesystems s))"

definition vfs_mount :: "int \<Rightarrow> byte list \<Rightarrow> (int, 'w) vfs_m" where
  "vfs_mount fs name s =
     rbind (lget name 0) (\<lambda>c.
     rbind (kassert (c \<noteq> 0)) (\<lambda>_.
     in_op VFS_UNUSABLE (\<lambda>s.
     rbind (vfs_P Vfs_table_sem s) (\<lambda>s.
     let row = free_row s in
     if row \<ge> CONFIG_MAX_FILESYSTEMS then end_op VFS_LIMIT (vfs_V Vfs_table_sem s) else
     rbind (find_row (filesystems s) name 0) (\<lambda>r.
     if r \<noteq> None then end_op VFS_ERROR (vfs_V Vfs_table_sem s) else
     rbind (lget (filesystems s) (int row)) (\<lambda>e.
     rbind (stringcopy (mountpoint e) name (int VFS_NAME_LENGTH)) (\<lambda>mp.
     rbind (lset (filesystems s) (int row) \<lparr>mounted = fs, mountpoint = mp\<rparr>) (\<lambda>fss.
     end_op VFS_OK (vfs_V Vfs_table_sem (s\<lparr>filesystems := fss\<rparr>)))))))) s))"

definition vfs_unmount :: "'w fs_driver \<Rightarrow> byte list \<Rightarrow> (int, 'w) vfs_m" where
  "vfs_unmount g name =
     in_op VFS_UNUSABLE (\<lambda>s.
     rbind (vfs_P Vfs_table_sem s) (\<lambda>s.
     rbind (find_row (filesystems s) name 0) (\<lambda>r.
     let fs = (case r of None \<Rightarrow> 0 | Some row \<Rightarrow> mounted (filesystems s ! row)) in
     if fs = 0 then end_op VFS_NOT_FOUND (vfs_V Vfs_table_sem s) else
     rbind (vfs_P Openfile_table_sem s) (\<lambda>s.
     if \<exists>e \<in> set (files s). filesystem e = fs
     then end_op VFS_IN_USE (vfs_V Vfs_table_sem (vfs_V Openfile_table_sem s))
     else
       rbind (call_fs (fs_unmount g fs) s) (\<lambda>(_, s).
       rbind (lget (filesystems s) (int (the r))) (\<lambda>e.
       rbind (lset (filesystems s) (int (the r)) (e\<lparr>mounted := 0\<rparr>)) (\<lambda>fss.
       end_op VFS_OK (vfs_V Vfs_table_sem (vfs_V Openfile_table_sem (s\<lparr>filesystems := fss\<rparr>))))))))))"

section \<open>Open files\<close>

definition free_file :: "'w vfs \<Rightarrow> nat" where
  "free_file s = length (takeWhile (\<lambda>e. filesystem e \<noteq> 0) (files s))"

definition set_file :: "int \<Rightarrow> (openfile_entry \<Rightarrow> openfile_entry) \<Rightarrow> 'w vfs \<Rightarrow> 'w vfs res" where
  "set_file file f s =
     rbind (lget (files s) file) (\<lambda>e. rbind (lset (files s) file (f e)) (\<lambda>fs. Inr (s\<lparr>files := fs\<rparr>)))"

definition vfs_open :: "'w fs_driver \<Rightarrow> byte list \<Rightarrow> (int, 'w) vfs_m" where
  "vfs_open g pathname =
     in_op VFS_UNUSABLE (\<lambda>s.
     rbind (vfs_parse_pathname pathname) (\<lambda>p.
     case p of None \<Rightarrow> end_op VFS_ERROR s
     | Some (volumename, filename) \<Rightarrow>
         rbind (vfs_P Vfs_table_sem s) (\<lambda>s.
         rbind (vfs_P Openfile_table_sem s) (\<lambda>s.
         let file = free_file s in
         if file \<ge> CONFIG_MAX_OPEN_FILES
         then end_op VFS_LIMIT (vfs_V Vfs_table_sem (vfs_V Openfile_table_sem s)) else
         rbind (vfs_get_filesystem volumename s) (\<lambda>fs.
         if fs = 0 then end_op VFS_NO_SUCH_FS (vfs_V Vfs_table_sem (vfs_V Openfile_table_sem s)) else
         rbind (set_file (int file) (\<lambda>e. e\<lparr>filesystem := fs\<rparr>) s) (\<lambda>s.
         rbind (call_fs (fs_open g fs filename) (vfs_V Vfs_table_sem (vfs_V Openfile_table_sem s))) (\<lambda>(fid, s).
         if fid < 0 then
           rbind (vfs_P Openfile_table_sem s) (\<lambda>s.
           rbind (set_file (int file) (\<lambda>e. e\<lparr>filesystem := 0\<rparr>) s) (\<lambda>s.
           end_op fid (vfs_V Openfile_table_sem s)))
         else
           rbind (set_file (int file) (\<lambda>e. e\<lparr>fileid := fid, seek_position := 0\<rparr>) s) (\<lambda>s.
           end_op (int file) s))))))))"

text \<open>
  The test \<open>file < 0 && file >= CONFIG_MAX_OPEN_FILES\<close> is never true: a file number outside the
  table is an access outside it.
\<close>

definition vfs_verify_open :: "int \<Rightarrow> 'w vfs \<Rightarrow> openfile_entry option res" where
  "vfs_verify_open file s =
     (if file < 0 \<and> file \<ge> int CONFIG_MAX_OPEN_FILES then Inr None else
      rbind (lget (files s) file) (\<lambda>e. Inr (if filesystem e = 0 then None else Some e)))"

definition vfs_close :: "'w fs_driver \<Rightarrow> int \<Rightarrow> (int, 'w) vfs_m" where
  "vfs_close g file =
     in_op VFS_UNUSABLE (\<lambda>s.
     rbind (vfs_P Openfile_table_sem s) (\<lambda>s.
     rbind (vfs_verify_open file s) (\<lambda>r.
     case r of None \<Rightarrow> Inr (VFS_INVALID_PARAMS, vfs_V Openfile_table_sem s)
     | Some e \<Rightarrow>
         rbind (call_fs (fs_close g (filesystem e) (fileid e)) s) (\<lambda>(ret, s).
         rbind (set_file file (\<lambda>e. e\<lparr>filesystem := 0\<rparr>) s) (\<lambda>s.
         end_op ret (vfs_V Openfile_table_sem s))))))"

definition vfs_seek :: "int \<Rightarrow> int \<Rightarrow> (int, 'w) vfs_m" where
  "vfs_seek file pos =
     in_op VFS_UNUSABLE (\<lambda>s.
     if pos < 0 then Inr (VFS_INVALID_PARAMS, s) else
     rbind (vfs_P Openfile_table_sem s) (\<lambda>s.
     rbind (vfs_verify_open file s) (\<lambda>r.
     case r of None \<Rightarrow> Inr (VFS_INVALID_PARAMS, vfs_V Openfile_table_sem s)
     | Some e \<Rightarrow>
         rbind (set_file file (\<lambda>e. e\<lparr>seek_position := pos\<rparr>) s) (\<lambda>s.
         end_op VFS_OK (vfs_V Openfile_table_sem s)))))"

text \<open>The update of the seek position after a transfer of \<open>ret\<close> bytes.\<close>

definition advance :: "int \<Rightarrow> int \<Rightarrow> 'w vfs \<Rightarrow> 'w vfs res" where
  "advance file ret s =
     (if ret > 0 then
        rbind (vfs_P Openfile_table_sem s) (\<lambda>s.
        rbind (set_file file (\<lambda>e. e\<lparr>seek_position := c_int (seek_position e + ret)\<rparr>) s) (\<lambda>s.
        Inr (vfs_V Openfile_table_sem s)))
      else Inr s)"

definition vfs_read :: "'w fs_driver \<Rightarrow> int \<Rightarrow> byte list \<Rightarrow> int \<Rightarrow> (int \<times> byte list, 'w) vfs_m" where
  "vfs_read g file buffer bufsize =
     in_op (VFS_UNUSABLE, buffer) (\<lambda>s.
     rbind (vfs_verify_open file s) (\<lambda>r.
     case r of None \<Rightarrow> Inr ((VFS_INVALID_PARAMS, buffer), s)
     | Some e \<Rightarrow>
         rbind (kassert (bufsize \<ge> 0)) (\<lambda>_.
         rbind (call_fs (fs_read g (filesystem e) (fileid e) buffer bufsize (seek_position e)) s) (\<lambda>((ret, buffer), s).
         rbind (advance file ret s) (\<lambda>s. end_op (ret, buffer) s)))))"

definition vfs_write :: "'w fs_driver \<Rightarrow> int \<Rightarrow> byte list \<Rightarrow> int \<Rightarrow> (int, 'w) vfs_m" where
  "vfs_write g file buffer datasize =
     in_op VFS_UNUSABLE (\<lambda>s.
     rbind (vfs_verify_open file s) (\<lambda>r.
     case r of None \<Rightarrow> Inr (VFS_INVALID_PARAMS, s)
     | Some e \<Rightarrow>
         rbind (kassert (datasize \<ge> 0)) (\<lambda>_.
         rbind (call_fs (fs_write g (filesystem e) (fileid e) buffer datasize (seek_position e)) s) (\<lambda>(ret, s).
         rbind (advance file ret s) (\<lambda>s. end_op ret s)))))"

section \<open>Operations on paths\<close>

text \<open>The part the operations on paths share: the driver is called with the mount table locked.\<close>

definition on_volume :: "'a \<Rightarrow> byte list \<Rightarrow> (int \<Rightarrow> 'w \<Rightarrow> ('a \<times> 'w) res) \<Rightarrow> ('a, 'w) vfs_m" where
  "on_volume no_fs volumename op s =
     rbind (vfs_P Vfs_table_sem s) (\<lambda>s.
     rbind (vfs_get_filesystem volumename s) (\<lambda>fs.
     if fs = 0 then end_op no_fs (vfs_V Vfs_table_sem s) else
     rbind (call_fs (op fs) s) (\<lambda>(ret, s). end_op ret (vfs_V Vfs_table_sem s))))"

definition vfs_create :: "'w fs_driver \<Rightarrow> byte list \<Rightarrow> int \<Rightarrow> (int, 'w) vfs_m" where
  "vfs_create g pathname sz s =
     (if sz < 0 then Inr (VFS_INVALID_PARAMS, s) else
      in_op VFS_UNUSABLE (\<lambda>s.
      rbind (vfs_parse_pathname pathname) (\<lambda>p.
      case p of None \<Rightarrow> end_op VFS_ERROR s
      | Some (volumename, filename) \<Rightarrow>
          on_volume VFS_NO_SUCH_FS volumename (\<lambda>fs. fs_create g fs filename sz) s)) s)"

definition vfs_remove :: "'w fs_driver \<Rightarrow> byte list \<Rightarrow> (int, 'w) vfs_m" where
  "vfs_remove g pathname =
     in_op VFS_UNUSABLE (\<lambda>s.
     rbind (vfs_parse_pathname pathname) (\<lambda>p.
     case p of None \<Rightarrow> end_op VFS_ERROR s
     | Some (volumename, filename) \<Rightarrow>
         on_volume VFS_NO_SUCH_FS volumename (\<lambda>fs. fs_remove g fs filename) s))"

definition vfs_getfree :: "'w fs_driver \<Rightarrow> byte list \<Rightarrow> (int, 'w) vfs_m" where
  "vfs_getfree g volumename =
     in_op VFS_UNUSABLE (\<lambda>s. on_volume VFS_NO_SUCH_FS volumename (fs_getfree g) s)"

definition vfs_filecount :: "'w fs_driver \<Rightarrow> byte list option \<Rightarrow> (int, 'w) vfs_m" where
  "vfs_filecount g pathname =
     in_op VFS_UNUSABLE (\<lambda>s.
     case pathname of
       None \<Rightarrow> rbind (vfs_P Vfs_table_sem s) (\<lambda>s. end_op (int (free_row s)) (vfs_V Vfs_table_sem s))
     | Some path \<Rightarrow>
         rbind (vfs_parse_pathname path) (\<lambda>p.
         case p of None \<Rightarrow> end_op VFS_ERROR s
         | Some (volumename, dirname) \<Rightarrow>
             on_volume VFS_NO_SUCH_FS volumename (\<lambda>fs. fs_filecount g fs dirname) s))"

text \<open>The count down over the rows of the mount table: the row the loop stops at, and the rest of \<open>idx\<close>.\<close>

fun nth_mounted :: "vfs_entry list \<Rightarrow> nat \<Rightarrow> int \<Rightarrow> nat \<times> int" where
  "nth_mounted [] row idx = (row, idx)"
| "nth_mounted (e # es) row idx =
     (if idx = 0 then (row, idx)
      else nth_mounted es (Suc row) (if mounted e \<noteq> 0 then idx - 1 else idx))"

definition vfs_file :: "'w fs_driver \<Rightarrow> byte list option \<Rightarrow> int \<Rightarrow> byte list \<Rightarrow> (int \<times> byte list, 'w) vfs_m" where
  "vfs_file g pathname idx buffer =
     in_op (VFS_UNUSABLE, buffer) (\<lambda>s.
     case pathname of
       None \<Rightarrow>
         rbind (vfs_P Vfs_table_sem s) (\<lambda>s.
         case nth_mounted (filesystems s) 0 idx of (row, idx) \<Rightarrow>
         if idx \<noteq> 0 then end_op (VFS_ERROR, buffer) (vfs_V Vfs_table_sem s) else
         rbind (lget (filesystems s) (int row)) (\<lambda>e.
         rbind (stringcopy buffer (mountpoint e) (int VFS_NAME_LENGTH)) (\<lambda>buffer.
         end_op (VFS_OK, buffer) (vfs_V Vfs_table_sem s))))
     | Some path \<Rightarrow>
         rbind (vfs_parse_pathname path) (\<lambda>p.
         case p of None \<Rightarrow> end_op (VFS_ERROR, buffer) s
         | Some (volumename, dirname) \<Rightarrow>
             on_volume (VFS_NO_SUCH_FS, buffer) volumename (\<lambda>fs. fs_file g fs dirname idx buffer) s))"

section \<open>Semaphores and the operation count are balanced\<close>

text \<open>
  \<open>inside L n s0 s\<close>: since \<open>s0\<close> the semaphores in \<open>L\<close> have been taken and \<open>n\<close> operations started.
  \<open>ends s0 r\<close>: if the code returns, everything has been given back.
\<close>

definition inside :: "vfs_sem set \<Rightarrow> int \<Rightarrow> 'w vfs \<Rightarrow> 'w vfs \<Rightarrow> bool" where
  "inside L n s0 s \<longleftrightarrow> (\<forall>x. vsem s x = vsem s0 x - (if x \<in> L then 1 else 0)) \<and>
     vfs_ops s = vfs_ops s0 + n \<and> vfs_usable s = vfs_usable s0"

definition ends :: "'w vfs \<Rightarrow> ('a \<times> 'w vfs) res \<Rightarrow> bool" where
  "ends s0 r \<longleftrightarrow> (\<forall>v s. r = Inr (v, s) \<longrightarrow> inside {} 0 s0 s)"

lemma ends_rbind: "(\<And>x. m = Inr x \<Longrightarrow> ends s0 (k x)) \<Longrightarrow> ends s0 (rbind m k)"
  by (auto simp: ends_def rbind_eq_Inr)

lemma ends_Inl [simp]: "ends s0 (Inl e)"
  by (simp add: ends_def)

lemma ends_P:
  assumes "inside L n s0 s" and "x \<notin> L" and "\<And>s. inside (insert x L) n s0 s \<Longrightarrow> ends s0 (k s)"
  shows "ends s0 (rbind (vfs_P x s) k)"
proof (cases "vsem s x > 0")
  case True
  have "inside (insert x L) n s0 (s\<lparr>vsem := (vsem s)(x := vsem s x - 1)\<rparr>)"
    using assms(1,2) by (auto simp: inside_def)
  then show ?thesis using True assms(3) by (simp add: vfs_P_def)
qed (simp add: vfs_P_def)

lemma inside_frame [simp]:
  "inside L n s0 (s\<lparr>world := w\<rparr>) = inside L n s0 s"
  "inside L n s0 (s\<lparr>files := f\<rparr>) = inside L n s0 s"
  "inside L n s0 (s\<lparr>filesystems := fs\<rparr>) = inside L n s0 s"
  by (simp_all add: inside_def)

lemma ends_call:
  assumes "inside L n s0 s" and "\<And>v s. inside L n s0 s \<Longrightarrow> ends s0 (k (v, s))"
  shows "ends s0 (rbind (call_fs op s) k)"
  using assms by (cases "op (world s)") (auto simp: call_fs_def)

lemma ends_set_file:
  assumes "inside L n s0 s" and "\<And>s. inside L n s0 s \<Longrightarrow> ends s0 (k s)"
  shows "ends s0 (rbind (set_file file f s) k)"
  using assms by (auto simp: set_file_def rbind_assoc intro!: ends_rbind)

lemma ends_if: "(b \<Longrightarrow> ends s0 x) \<Longrightarrow> (\<not> b \<Longrightarrow> ends s0 y) \<Longrightarrow> ends s0 (if b then x else y)"
  by simp

lemma ends_option:
  "(r = None \<Longrightarrow> ends s0 x) \<Longrightarrow> (\<And>v. r = Some v \<Longrightarrow> ends s0 (y v)) \<Longrightarrow>
   ends s0 (case r of None \<Rightarrow> x | Some v \<Rightarrow> y v)"
  by (cases r) auto

lemma ends_prod: "(\<And>a b. p = (a, b) \<Longrightarrow> ends s0 (f a b)) \<Longrightarrow> ends s0 (case p of (a, b) \<Rightarrow> f a b)"
  by (cases p) auto

lemma inside_V: "inside L n s0 s \<Longrightarrow> x \<in> L \<Longrightarrow> inside (L - {x}) n s0 (vfs_V x s)"
  by (auto simp: inside_def vfs_V_def)

lemma inside_V1: "inside {x} n s0 s \<Longrightarrow> inside {} n s0 (vfs_V x s)"
  using inside_V [of "{x}" n s0 s x] by simp

lemma inside_V2: "inside {y, x} n s0 s \<Longrightarrow> x \<noteq> y \<Longrightarrow> inside {} n s0 (vfs_V x (vfs_V y s))"
  using inside_V [of "{y, x}" n s0 s y] by (intro inside_V1) (auto simp: insert_Diff_if)

lemma ends_end_op:
  assumes "vfs_usable s0" and "inside {} 1 s0 s"
  shows "ends s0 (end_op v s)"
proof (cases "vsem s Vfs_op_sem > 0 \<and> vfs_ops s \<ge> 1")
  case True
  moreover have "vfs_usable s" using assms by (simp add: inside_def)
  ultimately have "end_op v s = Inr (v, s\<lparr>vfs_ops := vfs_ops s - 1\<rparr>)"
    by (simp add: end_op_def vfs_end_op_def vfs_P_def vfs_V_def Let_def)
  then show ?thesis using assms(2) by (simp add: ends_def inside_def)
qed (auto simp: end_op_def vfs_end_op_def vfs_P_def Let_def kassert_def)

lemma ends_in_op:
  assumes "vfs_usable s0" and "\<And>s. inside {} 1 s0 s \<Longrightarrow> ends s0 (k s)"
  shows "ends s0 (in_op u k s0)"
proof (cases "vsem s0 Vfs_op_sem > 0")
  case True
  have "inside {} 1 s0 (vfs_V Vfs_op_sem (s0\<lparr>vsem := (vsem s0)(Vfs_op_sem := vsem s0 Vfs_op_sem - 1), vfs_ops := vfs_ops s0 + 1\<rparr>))"
    by (simp add: inside_def vfs_V_def)
  then show ?thesis using True assms by (simp add: in_op_def vfs_start_op_def vfs_P_def)
qed (simp add: in_op_def vfs_start_op_def vfs_P_def ends_def)

lemmas ends_rules = ends_P ends_call ends_set_file ends_if ends_option ends_prod ends_end_op
  inside_V2 inside_V1

lemma ends_on_volume:
  "vfs_usable s0 \<Longrightarrow> inside {} 1 s0 s \<Longrightarrow> ends s0 (on_volume v name op s)"
  unfolding on_volume_def by (rule ends_rules | rule ends_rbind | assumption | (simp; fail))+

lemma ends_ops:
  assumes "vfs_usable s"
  shows "ends s (vfs_open g path s)" and "ends s (vfs_create g path sz s)" and "ends s (vfs_remove g path s)"
    and "ends s (vfs_getfree g path s)" and "ends s (vfs_filecount g opath s)"
    and "ends s (vfs_file g opath idx buf s)" and "ends s (vfs_mount fs path s)" and "ends s (vfs_unmount g path s)"
  unfolding vfs_open_def vfs_create_def vfs_remove_def vfs_getfree_def vfs_filecount_def vfs_file_def
    vfs_mount_def vfs_unmount_def Let_def
  by (rule assms ends_in_op ends_on_volume ends_rules | rule ends_rbind | assumption |
      (simp add: ends_def inside_def; fail))+

section \<open>Operations on open files\<close>

text \<open>A VFS in use whose semaphores are free, and the entry of an open file.\<close>

definition vfs_ready :: "'w vfs \<Rightarrow> bool" where
  "vfs_ready s \<longleftrightarrow> vfs_usable s \<and> 0 \<le> vfs_ops s \<and>
     0 < vsem s Vfs_op_sem \<and> 0 < vsem s Openfile_table_sem \<and> 0 < vsem s Vfs_table_sem \<and>
     length (filesystems s) = CONFIG_MAX_FILESYSTEMS \<and> length (files s) = CONFIG_MAX_OPEN_FILES"

definition open_file :: "'w vfs \<Rightarrow> nat \<Rightarrow> bool" where
  "open_file s file \<longleftrightarrow> file < CONFIG_MAX_OPEN_FILES \<and> filesystem (files s ! file) \<noteq> 0"

lemma in_op_eq: "vfs_ready s \<Longrightarrow> in_op u k s = k (s\<lparr>vfs_ops := vfs_ops s + 1\<rparr>)"
  by (simp add: vfs_ready_def in_op_def vfs_start_op_def vfs_P_def vfs_V_def)

lemma end_op_eq:
  "vfs_ready s \<Longrightarrow> 1 \<le> vfs_ops s \<Longrightarrow> end_op v s = Inr (v, s\<lparr>vfs_ops := vfs_ops s - 1\<rparr>)"
  by (simp add: vfs_ready_def end_op_def vfs_end_op_def vfs_P_def vfs_V_def Let_def)

lemma P_eq: "0 < vsem s x \<Longrightarrow> rbind (vfs_P x s) k = k (s\<lparr>vsem := (vsem s)(x := vsem s x - 1)\<rparr>)"
  by (simp add: vfs_P_def)

lemma verify_open_eq:
  "vfs_ready s \<Longrightarrow> file < CONFIG_MAX_OPEN_FILES \<Longrightarrow>
   vfs_verify_open (int file) s = Inr (if filesystem (files s ! file) = 0 then None else Some (files s ! file))"
  by (simp add: vfs_verify_open_def vfs_ready_def)

lemma set_file_eq:
  "file < length (files s) \<Longrightarrow> set_file (int file) f s = Inr (s\<lparr>files := (files s)[file := f (files s ! file)]\<rparr>)"
  by (simp add: set_file_def)

lemma vfs_ready_frame [simp]:
  "vfs_ready (s\<lparr>world := w\<rparr>) = vfs_ready s"
  "0 \<le> n \<Longrightarrow> vfs_ready s \<Longrightarrow> vfs_ready (s\<lparr>vfs_ops := n\<rparr>)"
  "length fs = length (files s) \<Longrightarrow> vfs_ready (s\<lparr>files := fs\<rparr>) = vfs_ready s"
  by (simp_all add: vfs_ready_def)

lemma vfs_readyD:
  assumes "vfs_ready s"
  shows "0 < vsem s Openfile_table_sem" "0 < vsem s Vfs_table_sem" "length (files s) = CONFIG_MAX_OPEN_FILES"
    "length (filesystems s) = CONFIG_MAX_FILESYSTEMS" "0 \<le> vfs_ops s"
  using assms by (simp_all add: vfs_ready_def)

lemma advance_eq:
  "vfs_ready s \<Longrightarrow> file < CONFIG_MAX_OPEN_FILES \<Longrightarrow>
   advance (int file) ret s = Inr (s\<lparr>files := (if ret > 0 then (files s)[file := (files s ! file)
     \<lparr>seek_position := c_int (seek_position (files s ! file) + ret)\<rparr>] else files s)\<rparr>)"
  by (simp add: advance_def P_eq set_file_eq vfs_readyD vfs_V_def)

lemma vfs_read_eq:
  assumes "vfs_ready s" and "open_file s file" and "0 \<le> n"
    and "fs_read g (filesystem (files s ! file)) (fileid (files s ! file)) buf n
      (seek_position (files s ! file)) (world s) = Inr ((ret, buf'), w)"
  shows "vfs_read g (int file) buf n s = Inr ((ret, buf'), s\<lparr>world := w,
     files := (if ret > 0 then (files s)[file := (files s ! file)
       \<lparr>seek_position := c_int (seek_position (files s ! file) + ret)\<rparr>] else files s)\<rparr>)"
  using assms vfs_readyD(3,5) [OF assms(1)]
  by (simp add: vfs_read_def in_op_eq verify_open_eq open_file_def call_fs_def advance_eq end_op_eq)

lemma vfs_write_eq:
  assumes "vfs_ready s" and "open_file s file" and "0 \<le> n"
    and "fs_write g (filesystem (files s ! file)) (fileid (files s ! file)) buf n
      (seek_position (files s ! file)) (world s) = Inr (ret, w)"
  shows "vfs_write g (int file) buf n s = Inr (ret, s\<lparr>world := w,
     files := (if ret > 0 then (files s)[file := (files s ! file)
       \<lparr>seek_position := c_int (seek_position (files s ! file) + ret)\<rparr>] else files s)\<rparr>)"
  using assms vfs_readyD(3,5) [OF assms(1)]
  by (simp add: vfs_write_def in_op_eq verify_open_eq open_file_def call_fs_def advance_eq end_op_eq)

lemma vfs_seek_eq:
  assumes "vfs_ready s" and "open_file s file" and "0 \<le> pos"
  shows "vfs_seek (int file) pos s =
    Inr (VFS_OK, s\<lparr>files := (files s)[file := (files s ! file)\<lparr>seek_position := pos\<rparr>]\<rparr>)"
proof -
  let ?s = "s\<lparr>vfs_ops := vfs_ops s + 1, vsem := (vsem s)(Openfile_table_sem := vsem s Openfile_table_sem - 1)\<rparr>"
  have "vfs_verify_open (int file) ?s = Inr (Some (files s ! file))"
    using assms by (simp add: vfs_verify_open_def open_file_def vfs_ready_def)
  then show ?thesis using assms vfs_readyD [OF assms(1)]
    by (simp add: vfs_seek_def in_op_eq P_eq set_file_eq open_file_def vfs_V_def end_op_eq)
qed

lemma vfs_close_eq:
  assumes "vfs_ready s" and "open_file s file"
    and "fs_close g (filesystem (files s ! file)) (fileid (files s ! file)) (world s) = Inr (ret, w)"
  shows "vfs_close g (int file) s =
    Inr (ret, s\<lparr>world := w, files := (files s)[file := (files s ! file)\<lparr>filesystem := 0\<rparr>]\<rparr>)"
proof -
  let ?s = "s\<lparr>vfs_ops := vfs_ops s + 1, vsem := (vsem s)(Openfile_table_sem := vsem s Openfile_table_sem - 1)\<rparr>"
  have "vfs_verify_open (int file) ?s = Inr (Some (files s ! file))"
    using assms by (simp add: vfs_verify_open_def open_file_def vfs_ready_def)
  then show ?thesis using assms vfs_readyD [OF assms(1)]
    by (simp add: vfs_close_def in_op_eq P_eq set_file_eq open_file_def call_fs_def vfs_V_def end_op_eq)
qed

text \<open>On a file that is not open the four operations fail and leave the count of operations raised.\<close>

lemma not_open_leaks:
  assumes "vfs_ready s" and "file < CONFIG_MAX_OPEN_FILES" and "\<not> open_file s file"
  shows "vfs_close g (int file) s = Inr (VFS_INVALID_PARAMS, s\<lparr>vfs_ops := vfs_ops s + 1\<rparr>)"
    and "vfs_seek (int file) pos s = Inr (VFS_INVALID_PARAMS, s\<lparr>vfs_ops := vfs_ops s + 1\<rparr>)"
    and "vfs_read g (int file) buf n s = Inr ((VFS_INVALID_PARAMS, buf), s\<lparr>vfs_ops := vfs_ops s + 1\<rparr>)"
    and "vfs_write g (int file) buf n s = Inr (VFS_INVALID_PARAMS, s\<lparr>vfs_ops := vfs_ops s + 1\<rparr>)"
  using assms vfs_readyD [OF assms(1)]
  by (simp_all add: vfs_close_def vfs_seek_def vfs_read_def vfs_write_def in_op_eq P_eq vfs_verify_open_def
      open_file_def vfs_V_def)

section \<open>Paths\<close>

lemma parse_volume_eq:
  "0 \<notin> set vol \<Longrightarrow> 93 \<notin> set vol \<Longrightarrow> length vol < n \<Longrightarrow>
   parse_volume n (vol @ 93 # rest) acc = Inr (Some (acc @ vol, rest))"
proof (induction vol arbitrary: n acc)
  case Nil
  then show ?case by (cases n) auto
next
  case (Cons c vol)
  then show ?case by (cases n) auto
qed

lemma parse_filename_eq:
  "0 \<notin> set nm \<Longrightarrow> length nm < n \<Longrightarrow> acc @ nm \<noteq> [] \<Longrightarrow>
   parse_filename n (nm @ 0 # rest) acc = Inr (Some (acc @ nm @ [0]))"
proof (induction nm arbitrary: n acc)
  case Nil
  then show ?case by (cases n) auto
next
  case (Cons c nm)
  then show ?case by (cases n) auto
qed

lemma parse_volume_bounds:
  "parse_volume n path acc = Inr (Some (vol, rest)) \<Longrightarrow> length vol < length acc + n"
  by (induction n path acc rule: parse_volume.induct) (fastforce split: if_splits)+

lemma parse_filename_bounds:
  "parse_filename n path acc = Inr (Some nm) \<Longrightarrow> length nm \<le> length acc + n \<and> terminated nm"
  by (induction n path acc rule: parse_filename.induct) (fastforce split: if_splits)+

section \<open>The mount table\<close>

definition rows_ok :: "'w vfs \<Rightarrow> bool" where
  "rows_ok s \<longleftrightarrow> (\<forall>e \<in> set (filesystems s). length (mountpoint e) = VFS_NAME_LENGTH \<and> terminated (mountpoint e))"

lemma find_row_eq:
  "\<forall>e \<in> set es. terminated (mountpoint e) \<Longrightarrow> terminated name \<Longrightarrow>
   find_row es name r = Inr (if \<exists>e \<in> set es. cstr (mountpoint e) = cstr name
     then Some (r + length (takeWhile (\<lambda>e. cstr (mountpoint e) \<noteq> cstr name) es)) else None)"
proof (induction es arbitrary: r)
  case (Cons e es)
  obtain c where c: "stringcmp (mountpoint e) name = Inr c" using stringcmp_total Cons.prems by fastforce
  moreover have "c = 0 \<longleftrightarrow> cstr (mountpoint e) = cstr name"
    using stringcmp_zero_iff [of "mountpoint e" name] Cons.prems c by auto
  ultimately show ?case using Cons by auto
qed simp

lemma find_row_None:
  "rows_ok s \<Longrightarrow> terminated name \<Longrightarrow> \<forall>e \<in> set (filesystems s). cstr (mountpoint e) \<noteq> cstr name \<Longrightarrow>
   find_row (filesystems s) name r = Inr None"
  by (subst find_row_eq) (auto simp: rows_ok_def)

lemma find_row_Some:
  assumes "rows_ok s" and "terminated name" and "row < length (filesystems s)"
    and "cstr (mountpoint (filesystems s ! row)) = cstr name"
    and "\<forall>i < row. cstr (mountpoint (filesystems s ! i)) \<noteq> cstr name"
  shows "find_row (filesystems s) name 0 = Inr (Some row)"
proof -
  have "takeWhile (\<lambda>e. cstr (mountpoint e) \<noteq> cstr name) (filesystems s) = take row (filesystems s)"
    using assms(3-5) by (intro takeWhile_eq_take_P_nth) auto
  then have "length (takeWhile (\<lambda>e. cstr (mountpoint e) \<noteq> cstr name) (filesystems s)) = row"
    using assms(3) by simp
  moreover have "filesystems s ! row \<in> set (filesystems s)" using assms(3) by simp
  ultimately show ?thesis using assms(1,2,4) by (subst find_row_eq) (auto simp: rows_ok_def)
qed

lemma string_head: "cstr name \<noteq> [] \<Longrightarrow> lget name 0 = Inr (name ! 0) \<and> name ! 0 \<noteq> 0"
  by (cases name) (auto split: if_splits)

text \<open>A mount under a new name takes the first free row, and the name then leads to the file system.\<close>

lemma vfs_mount_new:
  assumes s: "vfs_ready s" "rows_ok s" and nm: "terminated name" "cstr name \<noteq> []" "length (cstr name) < VFS_NAME_LENGTH"
    and row: "free_row s < CONFIG_MAX_FILESYSTEMS"
    and new: "\<forall>e \<in> set (filesystems s). cstr (mountpoint e) \<noteq> cstr name"
  shows "\<exists>mp. vfs_mount fs name s =
      Inr (VFS_OK, s\<lparr>filesystems := (filesystems s)[free_row s := \<lparr>mounted = fs, mountpoint = mp\<rparr>]\<rparr>) \<and>
    length mp = VFS_NAME_LENGTH \<and> terminated mp \<and> cstr mp = cstr name"
proof -
  let ?r = "free_row s" and ?t = "s\<lparr>vfs_ops := vfs_ops s + 1, vsem := (vsem s)(Vfs_table_sem := vsem s Vfs_table_sem - 1)\<rparr>"
  have len: "length (filesystems s) = 8" using s(1) by (simp add: vfs_ready_def)
  have e: "filesystems s ! ?r \<in> set (filesystems s)" using row len by simp
  obtain mp where mp: "stringcopy (mountpoint (filesystems s ! ?r)) name 16 = Inr mp"
    using stringcopy_eq [of 16 _ name] s(2) nm(1) e by (auto simp: rows_ok_def)
  have l16: "length (mountpoint (filesystems s ! ?r)) = 16" using s(2) e by (simp add: rows_ok_def)
  note c = cstr_stringcopy [of 16 "mountpoint (filesystems s ! ?r)" name mp]
  have fr: "free_row ?t = ?r" by (simp add: free_row_def)
  have "lget name 0 = Inr (name ! 0)" "name ! 0 \<noteq> 0"
    using string_head [OF nm(2)] by auto
  moreover have "find_row (filesystems s) name 0 = Inr None" using find_row_None [OF s(2) nm(1) new] .
  ultimately have "vfs_mount fs name s = Inr (VFS_OK, s\<lparr>filesystems := (filesystems s)[?r := \<lparr>mounted = fs, mountpoint = mp\<rparr>]\<rparr>)"
    using s(1) row len mp vfs_readyD [OF s(1)]
    by (simp add: vfs_mount_def in_op_eq P_eq fr Let_def vfs_V_def end_op_def vfs_end_op_def vfs_P_def vfs_ready_def)
  then show ?thesis using c mp l16 nm by auto
qed

lemma vfs_mount_get:
  assumes "vfs_ready s" and "rows_ok s" and "terminated name" and "cstr name \<noteq> []"
    and "length (cstr name) < VFS_NAME_LENGTH" and "free_row s < CONFIG_MAX_FILESYSTEMS"
    and "\<forall>e \<in> set (filesystems s). cstr (mountpoint e) \<noteq> cstr name"
  shows "\<exists>s'. vfs_mount fs name s = Inr (VFS_OK, s') \<and> world s' = world s \<and>
    (\<forall>n. terminated n \<and> cstr n = cstr name \<longrightarrow> vfs_get_filesystem n s' = Inr fs) \<and>
    (\<forall>i. i \<noteq> free_row s \<longrightarrow> filesystems s' ! i = filesystems s ! i)"
proof -
  let ?r = "free_row s"
  obtain mp where mp: "vfs_mount fs name s =
      Inr (VFS_OK, s\<lparr>filesystems := (filesystems s)[?r := \<lparr>mounted = fs, mountpoint = mp\<rparr>]\<rparr>)"
      "length mp = 16" "terminated mp" "cstr mp = cstr name"
    using vfs_mount_new [OF assms] by blast
  let ?s = "s\<lparr>filesystems := (filesystems s)[?r := \<lparr>mounted = fs, mountpoint = mp\<rparr>]\<rparr>"
  have len: "?r < length (filesystems s)" using assms(6) vfs_readyD(4) [OF assms(1)] by simp
  have "rows_ok ?s" using assms(2) mp(2,3) by (auto simp: rows_ok_def dest!: set_update_subset_insert [THEN subsetD])
  then have "find_row (filesystems ?s) n 0 = Inr (Some ?r)" if "terminated n" "cstr n = cstr name" for n
    using that assms(7) mp(4) len by (intro find_row_Some) (auto simp: nth_list_update)
  then have "vfs_get_filesystem n ?s = Inr fs" if "terminated n" "cstr n = cstr name" for n
    using that len by (simp add: vfs_get_filesystem_def)
  then show ?thesis using mp(1) by auto
qed

lemma vfs_mount_taken:
  assumes s: "vfs_ready s" "rows_ok s" and nm: "terminated name" "cstr name \<noteq> []"
    and row: "free_row s < CONFIG_MAX_FILESYSTEMS"
    and old: "\<exists>e \<in> set (filesystems s). cstr (mountpoint e) = cstr name"
  shows "vfs_mount fs name s = Inr (VFS_ERROR, s)"
proof -
  let ?t = "s\<lparr>vfs_ops := vfs_ops s + 1, vsem := (vsem s)(Vfs_table_sem := vsem s Vfs_table_sem - 1)\<rparr>"
  have fr: "free_row ?t = free_row s" by (simp add: free_row_def)
  have "lget name 0 = Inr (name ! 0)" "name ! 0 \<noteq> 0"
    using string_head [OF nm(2)] by auto
  moreover have "\<exists>k. find_row (filesystems s) name 0 = Inr (Some k)"
    using old s(2) nm(1) by (subst find_row_eq) (auto simp: rows_ok_def)
  ultimately show ?thesis using s(1) row vfs_readyD [OF s(1)]
    by (auto simp: vfs_mount_def in_op_eq P_eq fr Let_def vfs_V_def end_op_def vfs_end_op_def vfs_P_def vfs_ready_def)
qed

lemma vfs_unmount_eq:
  assumes s: "vfs_ready s" "rows_ok s" and nm: "terminated name" and row: "row < CONFIG_MAX_FILESYSTEMS"
    and at: "cstr (mountpoint (filesystems s ! row)) = cstr name"
    and first: "\<forall>i < row. cstr (mountpoint (filesystems s ! i)) \<noteq> cstr name"
    and m: "mounted (filesystems s ! row) \<noteq> 0"
    and unused: "\<forall>e \<in> set (files s). filesystem e \<noteq> mounted (filesystems s ! row)"
    and u: "fs_unmount g (mounted (filesystems s ! row)) (world s) = Inr (ret, w)"
  shows "vfs_unmount g name s = Inr (VFS_OK, s\<lparr>world := w,
    filesystems := (filesystems s)[row := (filesystems s ! row)\<lparr>mounted := 0\<rparr>]\<rparr>)"
proof -
  have len: "length (filesystems s) = 8" using s(1) by (simp add: vfs_ready_def)
  have "find_row (filesystems s) name 0 = Inr (Some row)"
    using find_row_Some [OF s(2) nm _ at first] row len by simp
  moreover have "\<not> (\<exists>e \<in> set (files s). filesystem e = mounted (filesystems s ! row))" using unused by blast
  ultimately show ?thesis using s(1) row len m u vfs_readyD [OF s(1)]
    by (simp add: vfs_unmount_def in_op_eq P_eq Let_def vfs_V_def call_fs_def end_op_def vfs_end_op_def
        vfs_P_def vfs_ready_def)
qed

section \<open>Shutdown\<close>

lemma deinit_waits:
  "vfs_ready s \<Longrightarrow> 0 < vfs_ops s \<Longrightarrow> vfs_deinit g s = Inr (None, s\<lparr>vfs_usable := False\<rparr>)"
  by (simp add: vfs_ready_def vfs_deinit_def vfs_P_def vfs_V_def Let_def)

lemma unusable_op: "\<not> vfs_usable s \<Longrightarrow> 0 < vsem s Vfs_op_sem \<Longrightarrow> in_op u k s = Inr (u, s)"
  by (simp add: in_op_def vfs_start_op_def vfs_P_def vfs_V_def)

text \<open>The operations pending at shutdown end one by one; the last one raises \<open>vfs_unmount_sem\<close>.\<close>

fun end_ops :: "nat \<Rightarrow> 'w vfs \<Rightarrow> 'w vfs res" where
  "end_ops 0 s = Inr s"
| "end_ops (Suc n) s = rbind (vfs_end_op s) (end_ops n)"

lemma end_ops_eq:
  "\<not> vfs_usable s \<Longrightarrow> 0 < vsem s Vfs_op_sem \<Longrightarrow> int n \<le> vfs_ops s \<Longrightarrow> 0 < n \<Longrightarrow>
   end_ops n s = Inr (s\<lparr>vfs_ops := vfs_ops s - int n, vsem := (vsem s)(Vfs_unmount_sem :=
     vsem s Vfs_unmount_sem + (if int n = vfs_ops s then 1 else 0))\<rparr>)"
proof (induction n arbitrary: s)
  case (Suc n)
  have one: "vfs_end_op s = Inr (s\<lparr>vfs_ops := vfs_ops s - 1, vsem := (vsem s)(Vfs_unmount_sem :=
      vsem s Vfs_unmount_sem + (if vfs_ops s = 1 then 1 else 0))\<rparr>)"
    using Suc.prems by (simp add: vfs_end_op_def vfs_P_def vfs_V_def Let_def fun_upd_twist fun_upd_idem)
  show ?case
  proof (cases "n = 0")
    case True
    then show ?thesis using one by (cases "vfs_ops s = 1") (simp_all del: fun_upd_apply)
  next
    case False
    then have "vfs_ops s \<noteq> 1" using Suc.prems(3) by simp
    then have one': "vfs_end_op s = Inr (s\<lparr>vfs_ops := vfs_ops s - 1\<rparr>)" using one by simp
    show ?thesis using Suc.IH [of "s\<lparr>vfs_ops := vfs_ops s - 1\<rparr>"] Suc.prems False
      by (simp add: one' algebra_simps)
  qed
qed simp

lemma unmount_rows_all:
  assumes "length (filesystems s) = row + n" and "\<And>fs w. \<exists>r w'. fs_unmount g fs w = Inr (r, w')"
  shows "\<exists>w fss. unmount_rows g n row s = Inr (s\<lparr>world := w, filesystems := fss\<rparr>) \<and>
    length fss = length (filesystems s) \<and>
    (\<forall>i < length fss. i \<ge> row \<longrightarrow> mounted (fss ! i) = 0) \<and> (\<forall>i < row. fss ! i = filesystems s ! i)"
  using assms(1)
proof (induction n arbitrary: row s)
  case 0
  then show ?case by (intro exI [of _ "world s"] exI [of _ "filesystems s"]) simp
next
  case (Suc n)
  let ?e = "filesystems s ! row"
  show ?case
  proof (cases "mounted ?e = 0")
    case True
    obtain w fss where "unmount_rows g n (Suc row) s = Inr (s\<lparr>world := w, filesystems := fss\<rparr>)"
        "length fss = length (filesystems s)" "\<forall>i < length fss. i \<ge> Suc row \<longrightarrow> mounted (fss ! i) = 0"
        "\<forall>i < Suc row. fss ! i = filesystems s ! i"
      using Suc.IH [of s "Suc row"] Suc.prems by auto
    then show ?thesis using True Suc.prems by (intro exI [of _ w] exI [of _ fss]) (auto simp: le_eq_less_or_eq)
  next
    case False
    obtain r w1 where u: "fs_unmount g (mounted ?e) (world s) = Inr (r, w1)" using assms(2) by blast
    let ?s = "s\<lparr>world := w1, filesystems := (filesystems s)[row := ?e\<lparr>mounted := 0\<rparr>]\<rparr>"
    obtain w fss where f: "unmount_rows g n (Suc row) ?s = Inr (?s\<lparr>world := w, filesystems := fss\<rparr>)"
        "length fss = length (filesystems s)" "\<forall>i < length fss. i \<ge> Suc row \<longrightarrow> mounted (fss ! i) = 0"
        "\<forall>i < Suc row. fss ! i = filesystems ?s ! i"
      using Suc.IH [of ?s "Suc row"] Suc.prems by auto
    then have "unmount_rows g (Suc n) row s = Inr (s\<lparr>world := w, filesystems := fss\<rparr>)"
      using False u Suc.prems by (simp add: call_fs_def)
    moreover have "mounted (fss ! row) = 0" using f(4) Suc.prems by simp
    ultimately show ?thesis using f(2-4) by (intro exI [of _ w] exI [of _ fss]) (auto simp: le_eq_less_or_eq)
  qed
qed

lemma deinit_resume_eq:
  assumes "0 < vsem s Vfs_unmount_sem" "0 < vsem s Vfs_op_sem" "0 < vsem s Vfs_table_sem" "0 < vsem s Openfile_table_sem"
    and "vfs_ops s = 0" and "length (filesystems s) = CONFIG_MAX_FILESYSTEMS"
    and "\<And>fs w. \<exists>r w'. fs_unmount g fs w = Inr (r, w')"
  shows "\<exists>s'. vfs_deinit_resume g s = Inr s' \<and> (\<forall>e \<in> set (filesystems s'). mounted e = 0) \<and>
    vfs_usable s' = vfs_usable s"
proof -
  let ?s = "s\<lparr>vsem := (vsem s)(Vfs_unmount_sem := vsem s Vfs_unmount_sem - 1, Vfs_op_sem := vsem s Vfs_op_sem - 1,
      Vfs_table_sem := vsem s Vfs_table_sem - 1, Openfile_table_sem := vsem s Openfile_table_sem - 1)\<rparr>"
  obtain w fss where u: "unmount_rows g 8 0 ?s = Inr (?s\<lparr>world := w, filesystems := fss\<rparr>)"
      "length fss = 8" "\<forall>i < length fss. mounted (fss ! i) = 0"
    using unmount_rows_all [of ?s 0 8 g] assms(6,7) by auto
  then show ?thesis using assms(1-5)
    by (auto simp: vfs_deinit_resume_def vfs_unmount_all_def vfs_P_def vfs_V_def in_set_conv_nth)
qed

section \<open>Sequential access\<close>

text \<open>Calls of \<open>vfs_read\<close> with buffers of the given sizes, and all the bytes they return.\<close>

fun read_chunks :: "'w fs_driver \<Rightarrow> nat list \<Rightarrow> int \<Rightarrow> 'w vfs \<Rightarrow> (byte list \<times> 'w vfs) res" where
  "read_chunks g [] file s = Inr ([], s)"
| "read_chunks g (n # ns) file s =
     rbind (vfs_read g file (replicate n 0) (int n) s) (\<lambda>((r, buf), s).
     rbind (read_chunks g ns file s) (\<lambda>(rest, s). Inr (take (nat r) buf @ rest, s)))"

text \<open>
  The contract of a driver for the files \<open>okf\<close> with the contents \<open>content\<close>: reading and writing at
  a position inside the file, never past its end.
\<close>

locale file_driver =
  fixes g :: "'w fs_driver"
    and content :: "'w \<Rightarrow> int \<Rightarrow> int \<Rightarrow> byte list"
    and okf :: "'w \<Rightarrow> int \<Rightarrow> int \<Rightarrow> bool"
  assumes fs_read_law: "okf w fs f \<Longrightarrow> off \<le> length (content w fs f) \<Longrightarrow> n \<le> length buf \<Longrightarrow>
      m = min n (length (content w fs f) - off) \<Longrightarrow>
      \<exists>w'. fs_read g fs f buf (int n) (int off) w =
          Inr ((int m, take m (drop off (content w fs f)) @ drop m buf), w') \<and>
        okf w' fs f \<and> content w' fs f = content w fs f"
    and fs_write_law: "okf w fs f \<Longrightarrow> off \<le> length (content w fs f) \<Longrightarrow> n \<le> length buf \<Longrightarrow>
      m = min n (length (content w fs f) - off) \<Longrightarrow>
      \<exists>w'. fs_write g fs f buf (int n) (int off) w = Inr (int m, w') \<and>
        okf w' fs f \<and> content w' fs f = patch off (take m buf) (content w fs f)"
    and content_length: "okf w fs f \<Longrightarrow> length (content w fs f) < 2 ^ 31"
begin

text \<open>An open file with a content and a position.\<close>

definition at_pos :: "'w vfs \<Rightarrow> nat \<Rightarrow> byte list \<Rightarrow> nat \<Rightarrow> bool" where
  "at_pos s file C pos \<longleftrightarrow> vfs_ready s \<and> open_file s file \<and> pos \<le> length C \<and>
     okf (world s) (filesystem (files s ! file)) (fileid (files s ! file)) \<and>
     content (world s) (filesystem (files s ! file)) (fileid (files s ! file)) = C \<and>
     seek_position (files s ! file) = int pos"

lemma at_pos_moved:
  assumes "at_pos s file C pos" and "m \<le> length C - pos" and "length D = length C"
    and "okf w (filesystem (files s ! file)) (fileid (files s ! file))"
    and "content w (filesystem (files s ! file)) (fileid (files s ! file)) = D"
  shows "at_pos (s\<lparr>world := w, files := (if int m > 0 then (files s)[file := (files s ! file)
       \<lparr>seek_position := c_int (seek_position (files s ! file) + int m)\<rparr>] else files s)\<rparr>) file D (pos + m)"
proof -
  have "length C < 2 ^ 31" using content_length assms(1) by (auto simp: at_pos_def)
  then have b: "int (length C) < 2 ^ 31" by (metis of_nat_less_iff of_nat_numeral of_nat_power)
  have "c_int (int pos + int m) = int (pos + m)"
    using assms(1,2) b by (subst c_int_id) (auto simp: at_pos_def)
  then show ?thesis using assms vfs_readyD(3) [of s]
    by (auto simp: at_pos_def open_file_def)
qed

lemma vfs_read_seq:
  assumes a: "at_pos s file C pos" and n: "n \<le> length buf"
  defines "m \<equiv> min n (length C - pos)"
  shows "\<exists>s'. vfs_read g (int file) buf (int n) s =
      Inr ((int m, take m (drop pos C) @ drop m buf), s') \<and> at_pos s' file C (pos + m)"
proof -
  let ?e = "files s ! file"
  have k: "vfs_ready s" "open_file s file" "pos \<le> length C" "okf (world s) (filesystem ?e) (fileid ?e)"
      "content (world s) (filesystem ?e) (fileid ?e) = C" "seek_position ?e = int pos"
    using a by (simp_all add: at_pos_def)
  obtain w where w: "fs_read g (filesystem ?e) (fileid ?e) buf (int n) (int pos) (world s) =
      Inr ((int m, take m (drop pos C) @ drop m buf), w)"
      "okf w (filesystem ?e) (fileid ?e)" "content w (filesystem ?e) (fileid ?e) = C"
    using fs_read_law [OF k(4), of pos n buf m] k n by (auto simp: m_def)
  have "m \<le> length C - pos" by (simp add: m_def)
  from at_pos_moved [OF a this refl w(2,3)] show ?thesis
    using vfs_read_eq [OF k(1,2), of "int n" g buf "int m" _ w] w(1) k(6) by auto
qed

lemma vfs_write_seq:
  assumes a: "at_pos s file C pos" and n: "n \<le> length buf"
  defines "m \<equiv> min n (length C - pos)"
  shows "\<exists>s'. vfs_write g (int file) buf (int n) s = Inr (int m, s') \<and>
    at_pos s' file (patch pos (take m buf) C) (pos + m)"
proof -
  let ?e = "files s ! file" and ?D = "patch pos (take m buf) C"
  have k: "vfs_ready s" "open_file s file" "pos \<le> length C" "okf (world s) (filesystem ?e) (fileid ?e)"
      "content (world s) (filesystem ?e) (fileid ?e) = C" "seek_position ?e = int pos"
    using a by (simp_all add: at_pos_def)
  obtain w where w: "fs_write g (filesystem ?e) (fileid ?e) buf (int n) (int pos) (world s) = Inr (int m, w)"
      "okf w (filesystem ?e) (fileid ?e)" "content w (filesystem ?e) (fileid ?e) = ?D"
    using fs_write_law [OF k(4), of pos n buf m] k n by (auto simp: m_def)
  have "m \<le> length C - pos" "length ?D = length C" using k(3) n by (auto simp: m_def length_patch)
  from at_pos_moved [OF a this w(2,3)] show ?thesis
    using vfs_write_eq [OF k(1,2), of "int n" g buf "int m" w] w(1) k(6) by auto
qed

lemma vfs_seek_seq:
  assumes a: "at_pos s file C pos" and p: "q \<le> length C"
  shows "\<exists>s'. vfs_seek (int file) (int q) s = Inr (VFS_OK, s') \<and> at_pos s' file C q"
proof -
  have k: "vfs_ready s" "open_file s file" using a by (simp_all add: at_pos_def)
  show ?thesis using vfs_seek_eq [OF k, of "int q"] a p vfs_readyD(3) [OF k(1)]
    by (auto simp: at_pos_def open_file_def)
qed

text \<open>Writing, seeking back and reading gives the written bytes.\<close>

lemma write_seek_read:
  assumes a: "at_pos s file C pos" and n: "n \<le> length buf" "n \<le> length buf2" and fit: "pos + n \<le> length C"
  shows "\<exists>s1 s2 s3. vfs_write g (int file) buf (int n) s = Inr (int n, s1) \<and>
    vfs_seek (int file) (int pos) s1 = Inr (VFS_OK, s2) \<and>
    vfs_read g (int file) buf2 (int n) s2 = Inr ((int n, take n buf @ drop n buf2), s3) \<and>
    at_pos s3 file (patch pos (take n buf) C) (pos + n)"
proof -
  let ?D = "patch pos (take n buf) C"
  have m: "min n (length C - pos) = n" "pos \<le> length C" using fit by auto
  have lD: "length ?D = length C" using n fit by (simp add: length_patch)
  obtain s1 where s1: "vfs_write g (int file) buf (int n) s = Inr (int n, s1)" "at_pos s1 file ?D (pos + n)"
    using vfs_write_seq [OF a n(1)] m by auto
  obtain s2 where s2: "vfs_seek (int file) (int pos) s1 = Inr (VFS_OK, s2)" "at_pos s2 file ?D pos"
    using vfs_seek_seq [OF s1(2), of pos] m(2) lD by auto
  have "take n (drop pos ?D) = take n buf"
    using part_of_patch [of pos "take n buf" C] n fit by simp
  then show ?thesis using vfs_read_seq [OF s2(2) n(2)] s1(1) s2(1) lD m by auto
qed

text \<open>Reading in chunks of any sizes gives the file piece by piece, in order.\<close>

lemma read_chunks_content:
  "at_pos s file C pos \<Longrightarrow>
   \<exists>s'. read_chunks g ns (int file) s = Inr (take (sum_list ns) (drop pos C), s') \<and>
     at_pos s' file C (pos + min (sum_list ns) (length C - pos))"
proof (induction ns arbitrary: s pos)
  case (Cons n ns)
  define m where "m = min n (length C - pos)"
  obtain s1 where s1: "vfs_read g (int file) (replicate n 0) (int n) s =
      Inr ((int m, take m (drop pos C) @ drop m (replicate n 0)), s1)" "at_pos s1 file C (pos + m)"
    using vfs_read_seq [OF Cons.prems, of n "replicate n 0"] by (auto simp: m_def)
  obtain s2 where s2: "read_chunks g ns (int file) s1 = Inr (take (sum_list ns) (drop (pos + m) C), s2)"
      "at_pos s2 file C (pos + m + min (sum_list ns) (length C - (pos + m)))"
    using Cons.IH [OF s1(2)] by blast
  have "take m (drop pos C) @ take (sum_list ns) (drop (pos + m) C) = take (n + sum_list ns) (drop pos C)"
    by (cases "n \<le> length C - pos") (auto simp: m_def take_add add.commute)
  moreover have at: "at_pos s2 file C (pos + min (n + sum_list ns) (length C - pos))"
  proof -
    have "pos + m + min (sum_list ns) (length C - (pos + m)) = pos + min (n + sum_list ns) (length C - pos)"
      by (auto simp: m_def)
    then show ?thesis using s2(2) by (simp only:)
  qed
  moreover have "take m (take m (drop pos C) @ drop m (replicate n 0)) = take m (drop pos C)"
    by (auto simp: m_def)
  ultimately show ?case using s1(1) s2(1) by auto
qed simp

end

end
