(* ===== verification/Tfstool.thy ===== *)
theory Tfstool
  imports Tfs_Files
begin

text \<open>
  The host tool that makes and edits disk images (\<^verbatim>\<open>src/kudos/util/tfstool.c\<close>). An image is the
  byte list of the file; the local files the tool reads and writes are byte lists too. The tool
  keeps every word of the image in network order, whatever the byte order \<open>en\<close> of the host. Its
  block routines make an image a block device in the sense of \<open>block_store\<close>, and its own copy of
  the bitmap routines is a second \<open>bit_allocator\<close>.
\<close>

section \<open>Blocks of an image\<close>

type_synonym image = "byte list"

text \<open>
  \<open>None\<close> is the exit of the program: \<open>fseek\<close> refuses a negative position. A read past the end
  of the file leaves the rest of the buffer as it was; a write past the end extends the file, with
  zeros between.
\<close>

definition read_block :: "image \<Rightarrow> byte list \<Rightarrow> int \<Rightarrow> byte list option" where
  "read_block img data block =
     (let pos = c_int (block * TFS_BLOCK_SIZE) in
      if pos < 0 then None
      else let got = take 512 (drop (nat pos) img) in Some (got @ drop (length got) data))"

definition write_at :: "image \<Rightarrow> nat \<Rightarrow> byte list \<Rightarrow> image" where
  "write_at img pos data = take pos (img @ replicate (pos - length img) 0) @ data @ drop (pos + length data) img"

definition write_block :: "byte list option \<Rightarrow> int \<Rightarrow> image \<Rightarrow> image option" where
  "write_block data block img =
     (let pos = c_int (block * TFS_BLOCK_SIZE);
          data = (case data of None \<Rightarrow> replicate 512 0 | Some d \<Rightarrow> d) in
      if pos < 0 then None else Some (write_at img (nat pos) data))"

definition tfstool_numblocks :: "image \<Rightarrow> int" where
  "tfstool_numblocks img = int (length img) div TFS_BLOCK_SIZE"

section \<open>The tool's bitmap routines\<close>

text \<open>A negative position would shift by a negative amount: the routines have no result there.\<close>

definition tool_bitmap_get :: "endian \<Rightarrow> bitmap \<Rightarrow> int \<Rightarrow> int res" where
  "tool_bitmap_get en bm pos =
     (if pos < 0 then Inl OutOfBounds else
      rbind (lget bm (c_div pos 32)) (\<lambda>w.
      Inr (uint (drop_bit (nat (c_mod pos 32)) (from_big_endian32 en w) AND 1))))"

definition tool_bitmap_set :: "endian \<Rightarrow> bitmap \<Rightarrow> int \<Rightarrow> int \<Rightarrow> bitmap res" where
  "tool_bitmap_set en bm pos value =
     (let i = c_div pos 32; j = nat (c_mod pos 32) in
      if pos < 0 then Inl OutOfBounds
      else if value = 0 then rbind (lget bm i) (\<lambda>w.
        lset bm i (from_big_endian32 en (from_big_endian32 en w AND NOT (push_bit j 1))))
      else if value = 1 then rbind (lget bm i) (\<lambda>w.
        lset bm i (from_big_endian32 en (from_big_endian32 en w OR push_bit j 1)))
      else Inl Panic)"

function tool_findnset_loop :: "endian \<Rightarrow> bitmap \<Rightarrow> int \<Rightarrow> int \<Rightarrow> (int \<times> bitmap) res" where
  "tool_findnset_loop en bm l i =
     (if i < l then
        rbind (tool_bitmap_get en bm i) (\<lambda>b.
        if b = 0 then rbind (tool_bitmap_set en bm i 1) (\<lambda>bm. Inr (i, bm))
        else tool_findnset_loop en bm l (i + 1))
      else Inr (- 1, bm))"
  by pat_completeness auto
termination
  by (relation "measure (\<lambda>(en, bm, l, i). nat (l - i))") auto

declare tool_findnset_loop.simps [simp del]

definition tool_bitmap_findnset :: "endian \<Rightarrow> bitmap \<Rightarrow> int \<Rightarrow> (int \<times> bitmap) res" where
  "tool_bitmap_findnset en bm l = tool_findnset_loop en bm l 0"

definition tool_bitmap_init :: "bitmap \<Rightarrow> int \<Rightarrow> bitmap res" where
  "tool_bitmap_init bm sz = bitmap_init_loop 0 (c_div (sz + 31) 32) bm"

section \<open>Strings of the C library\<close>

text \<open>\<open>strncmp(a, b, n) == 0\<close>, and \<open>strncpy\<close>: at most \<open>n\<close> bytes, the rest filled with zeros.\<close>

fun strncmp_eq :: "nat \<Rightarrow> byte list \<Rightarrow> byte list \<Rightarrow> bool res" where
  "strncmp_eq 0 as bs = Inr True"
| "strncmp_eq (Suc n) (a # as) (b # bs) =
     (if a \<noteq> b then Inr False else if a = 0 then Inr True else strncmp_eq n as bs)"
| "strncmp_eq (Suc n) _ _ = Inl OutOfBounds"

definition strncpy :: "nat \<Rightarrow> byte list \<Rightarrow> byte list" where
  "strncpy n src = take n (cstr src @ replicate n 0)"

section \<open>The commands\<close>

text \<open>
  Every command gives whether it ends with success, and the image it leaves: an error found late
  leaves data blocks already written.
\<close>

definition done_or :: "'a option \<Rightarrow> image \<Rightarrow> ('a \<Rightarrow> (bool \<times> image) res) \<Rightarrow> (bool \<times> image) res" where
  "done_or x img k = (case x of None \<Rightarrow> Inr (False, img) | Some y \<Rightarrow> k y)"

fun clear_from :: "nat \<Rightarrow> int \<Rightarrow> image \<Rightarrow> image option" where
  "clear_from 0 i img = Some img"
| "clear_from (Suc n) i img = Option.bind (write_block None i img) (clear_from n (i + 1))"

text \<open>\<open>tfstool_createvol\<close>, for a file that does not exist yet.\<close>

definition tfs_header :: "byte list \<Rightarrow> byte list" where
  "tfs_header volname = bytes32 Big 3745 @ take 16 volname @ replicate 492 0"

definition tfstool_createvol :: "endian \<Rightarrow> int \<Rightarrow> byte list \<Rightarrow> (bool \<times> image) res" where
  "tfstool_createvol en sz volname =
     rbind (tool_bitmap_init (replicate 128 0) (8 * TFS_BLOCK_SIZE)) (\<lambda>allocation.
     if sz < 3 then Inr (False, []) else
     done_or (write_block (Some (tfs_header volname)) 0 []) [] (\<lambda>img.
     rbind (tool_bitmap_set en allocation 0 1) (\<lambda>allocation.
     rbind (tool_bitmap_set en allocation 1 1) (\<lambda>allocation.
     rbind (tool_bitmap_set en allocation 2 1) (\<lambda>allocation.
     done_or (write_block (Some (unwords en allocation)) 1 img) img (\<lambda>img.
     done_or (write_block None 2 img) img (\<lambda>img.
     done_or (clear_from (nat (sz - 3)) 3 img) img (\<lambda>img. Inr (True, img)))))))))"

text \<open>
  The directory scan of \<open>tfstool_write\<close>: \<open>None\<close> when a file has the name, else the first free
  entry. The scan of the other commands: the first entry with the name.
\<close>

fun dir_scan :: "nat \<Rightarrow> nat \<Rightarrow> endian \<Rightarrow> byte list \<Rightarrow> byte list \<Rightarrow> int \<Rightarrow> int option res" where
  "dir_scan 0 i en md target index = Inr (Some index)"
| "dir_scan (Suc n) i en md target index =
     rbind (md_inode en md i) (\<lambda>w.
     let index = (if w = 0 \<and> index = - 1 then int i else index) in
     rbind (strncmp_eq 16 (md_name md i) target) (\<lambda>eq.
     if eq then Inr None else dir_scan n (Suc i) en md target index))"

fun dir_find :: "nat \<Rightarrow> nat \<Rightarrow> byte list \<Rightarrow> byte list \<Rightarrow> nat option res" where
  "dir_find 0 i md name = Inr None"
| "dir_find (Suc n) i md name =
     rbind (strncmp_eq 16 (md_name md i) name) (\<lambda>eq.
     if eq then Inr (Some i) else dir_find n (Suc i) md name)"

text \<open>
  The loop of \<open>tfstool_write\<close>: \<open>n\<close> rounds are left of \<open>num_blocks\<close>, \<open>src\<close> is what is left of the
  local file. The results are \<open>writeok\<close>, \<open>filesize\<close>, the bitmap, the inode and the image.
\<close>

fun store_blocks :: "nat \<Rightarrow> endian \<Rightarrow> int \<Rightarrow> nat \<Rightarrow> int \<Rightarrow> byte list \<Rightarrow> byte list \<Rightarrow> bitmap \<Rightarrow> byte list \<Rightarrow> image \<Rightarrow>
    (bool \<times> int \<times> bitmap \<times> byte list \<times> image) option res" where
  "store_blocks 0 en nb i filesize data src bat ino img = Inr (Some (True, filesize, bat, ino, img))"
| "store_blocks (Suc n) en nb i filesize data src bat ino img =
     (if filesize \<ge> 65024 then Inr (Some (True, filesize, bat, ino, img)) else
      rbind (tool_bitmap_findnset en bat nb) (\<lambda>(bnum, bat).
      if bnum > 2 \<and> bnum < nb then
        let got = take 512 src; data = got @ drop (length got) data; filesize = filesize + int (length got) in
        case write_block (Some data) bnum img of None \<Rightarrow> Inr None | Some img \<Rightarrow>
        rbind (wset en ino (int i + 1) (from_big_endian32 en (word_of_int bnum))) (\<lambda>ino.
        if length got < 512 then Inr (Some (True, filesize, bat, ino, img))
        else store_blocks n en nb (Suc i) filesize data (drop 512 src) bat ino img)
      else Inr (Some (False, filesize, bat, ino, img))))"

definition tfstool_write :: "endian \<Rightarrow> byte list \<Rightarrow> byte list \<Rightarrow> byte list \<Rightarrow> image \<Rightarrow> (bool \<times> image) res" where
  "tfstool_write en junk source target img =
     done_or (read_block img junk 2) img (\<lambda>md.
     rbind (dir_scan TFS_MAX_FILES 0 en md target (- 1)) (\<lambda>r.
     case r of None \<Rightarrow> Inr (False, img) | Some index \<Rightarrow>
     if index < 0 then Inr (False, img) else
     done_or (read_block img junk 1) img (\<lambda>ab.
     let nb = tfstool_numblocks img in
     rbind (tool_bitmap_findnset en (words en ab) nb) (\<lambda>(inode_bnum, bat).
     if inode_bnum > 2 \<and> inode_bnum < nb then
       rbind (store_blocks (nat nb) en nb 0 0 junk source bat (replicate 512 0) img) (\<lambda>r.
       case r of None \<Rightarrow> Inr (False, img) | Some (writeok, filesize, bat, ino, img) \<Rightarrow>
       if filesize \<noteq> int (length source) then Inr (False, img)
       else if writeok then
         rbind (wset en ino 0 (from_big_endian32 en (word_of_int filesize))) (\<lambda>ino.
         done_or (write_block (Some ino) inode_bnum img) img (\<lambda>img.
         rbind (wset en md (5 * index) (from_big_endian32 en (word_of_int inode_bnum))) (\<lambda>md.
         let md = take (20 * nat index + 4) md @ strncpy 16 target @ drop (20 * nat index + 20) md in
         done_or (write_block (Some md) 2 img) img (\<lambda>img.
         done_or (write_block (Some (unwords en bat)) 1 img) img (\<lambda>img. Inr (True, img))))))
       else Inr (False, img))
     else Inr (False, img)))))"

text \<open>
  \<open>tfstool_read\<close>: the loop over the block pointers, with the bytes written so far; the block
  buffer keeps what the last read left. The command gives the local file it writes, \<open>None\<close> if
  it ends with an error.
\<close>

fun fetch_blocks :: "nat \<Rightarrow> nat \<Rightarrow> endian \<Rightarrow> u32 \<Rightarrow> byte list \<Rightarrow> byte list \<Rightarrow> byte list \<Rightarrow> image \<Rightarrow> byte list option res" where
  "fetch_blocks 0 i en filesize ino data out img = Inr (Some out)"
| "fetch_blocks (Suc n) i en filesize ino data out img =
     rbind (wget en ino (int i + 1)) (\<lambda>w.
     let bnum = from_big_endian32 en w in
     if bnum = 0 then Inr (Some out) else
     case read_block img data (sint bnum) of None \<Rightarrow> Inr None | Some data \<Rightarrow>
     let sz = filesize - word_of_nat (length out);
         sz = (if sz > 512 then 512 else sz) in
     fetch_blocks n (Suc i) en filesize ino data (out @ take (unat sz) data) img)"

definition tfstool_read :: "endian \<Rightarrow> byte list \<Rightarrow> byte list \<Rightarrow> image \<Rightarrow> byte list option res" where
  "tfstool_read en junk source img =
     (case read_block img junk 2 of None \<Rightarrow> Inr None | Some md \<Rightarrow>
      rbind (dir_find TFS_MAX_FILES 0 md source) (\<lambda>r.
      case r of None \<Rightarrow> Inr None | Some index \<Rightarrow>
      rbind (md_inode en md index) (\<lambda>w.
      case read_block img junk (sint (from_big_endian32 en w)) of None \<Rightarrow> Inr None | Some ino \<Rightarrow>
      rbind (wget en ino 0) (\<lambda>fs.
      fetch_blocks 127 0 en (from_big_endian32 en fs) ino junk [] img))))"

text \<open>\<open>tfstool_delete\<close>.\<close>

fun release_blocks :: "nat \<Rightarrow> nat \<Rightarrow> endian \<Rightarrow> byte list \<Rightarrow> bitmap \<Rightarrow> bitmap res" where
  "release_blocks 0 i en ino bat = Inr bat"
| "release_blocks (Suc n) i en ino bat =
     rbind (wget en ino (int i + 1)) (\<lambda>w.
     if from_big_endian32 en w = 0 then Inr bat else
     rbind (tool_bitmap_set en bat (sint (from_big_endian32 en w)) 0) (\<lambda>bat.
     release_blocks n (Suc i) en ino bat))"

definition tfstool_delete :: "endian \<Rightarrow> byte list \<Rightarrow> image \<Rightarrow> (bool \<times> image) res" where
  "tfstool_delete en filename img =
     done_or (read_block img (replicate 512 0) 2) img (\<lambda>md.
     rbind (dir_find TFS_MAX_FILES 0 md filename) (\<lambda>r.
     case r of None \<Rightarrow> Inr (False, img) | Some index \<Rightarrow>
     done_or (read_block img (replicate 512 0) 1) img (\<lambda>ab.
     rbind (md_inode en md index) (\<lambda>w.
     let inode_bn = sint (from_big_endian32 en w) in
     done_or (read_block img (replicate 512 0) inode_bn) img (\<lambda>ino.
     rbind (release_blocks 127 0 en ino (words en ab)) (\<lambda>bat.
     rbind (tool_bitmap_set en bat inode_bn 0) (\<lambda>bat.
     rbind (wset en md (5 * int index) 0) (\<lambda>md.
     rbind (lset md (20 * int index + 4) 0) (\<lambda>md.
     done_or (write_block (Some (unwords en bat)) 1 img) img (\<lambda>img.
     done_or (write_block (Some md) 2 img) img (\<lambda>img. Inr (True, img))))))))))))"

section \<open>An image is a block device\<close>

definition image_block :: "image \<Rightarrow> u32 \<Rightarrow> byte list" where
  "image_block img b = take 512 (drop (512 * unat b) img)"

definition image_valid :: "image \<Rightarrow> u32 \<Rightarrow> bool" where
  "image_valid img b \<longleftrightarrow> unat b < 4194304 \<and> 512 * unat b + 512 \<le> length img"

definition image_gbd :: "image gbd" where
  "image_gbd = \<lparr>gbd_block_size = (\<lambda>_. 512), gbd_total_blocks = (\<lambda>img. word_of_int (tfstool_numblocks img)),
     gbd_read_block = (\<lambda>img b. (read_block img (replicate 512 0) (sint b), img)),
     gbd_write_block = (\<lambda>img b data. (case write_block (Some data) (sint b) img of
        None \<Rightarrow> (False, img) | Some img \<Rightarrow> (True, img)))\<rparr>"

lemma uint_less_of_unat: "unat (b :: u32) < n \<Longrightarrow> 0 \<le> uint b \<and> uint b < int n"
proof -
  assume "unat b < n"
  then have "int (unat b) < int n" by (simp only: of_nat_less_iff)
  then show ?thesis by simp
qed

lemma sint_small: "unat (b :: u32) < 2147483648 \<Longrightarrow> sint b = int (unat b)"
proof -
  assume "unat b < 2147483648"
  then have u: "0 \<le> uint b \<and> uint b < 2147483648" using uint_less_of_unat [of b 2147483648] by simp
  have "signed_take_bit 31 (uint b) = uint b"
  proof (rule signed_take_bit_int_eq_self)
    have "- (2 ^ 31) \<le> (0 :: int)" by simp
    then show "- (2 ^ 31) \<le> uint b" using u by linarith
    have "(2 :: int) ^ 31 = 2147483648" by simp
    then show "uint b < 2 ^ 31" using u by linarith
  qed
  then show ?thesis by (simp add: sint_uint)
qed

lemma block_pos: "unat (b :: u32) < 4194304 \<Longrightarrow> c_int (sint b * 512) = int (512 * unat b)"
proof -
  assume b: "unat b < 4194304"
  then have u: "0 \<le> uint b \<and> uint b < 4194304" using uint_less_of_unat [of b 4194304] by simp
  have "c_int (uint b * 512) = uint b * 512"
  proof (rule c_int_id)
    have e: "(2 :: int) ^ 31 = 2147483648" by simp
    show "- (2 ^ 31) \<le> uint b * 512" using u unfolding e by linarith
    show "uint b * 512 < 2 ^ 31" using u unfolding e by linarith
  qed
  then show ?thesis using b by (simp add: sint_small)
qed

lemma block_posD: "image_valid img b \<Longrightarrow>
    c_int (sint b * 512) = int (512 * unat b) \<and> 512 * unat b + 512 \<le> length img"
  by (simp add: image_valid_def block_pos del: of_nat_mult)

lemma read_block_valid: "image_valid img b \<Longrightarrow> read_block img data (sint b) = Some (image_block img b)"
  if "length data = 512"
  using that block_posD [of img b] by (auto simp: read_block_def image_block_def simp del: of_nat_mult)

lemma write_block_valid:
  "image_valid img b \<Longrightarrow> length data = 512 \<Longrightarrow>
   write_block (Some data) (sint b) img = Some (write_at img (512 * unat b) data)"
  using block_posD [of img b] by (simp add: write_block_def del: of_nat_mult)

lemma write_at_in: "pos + length data \<le> length img \<Longrightarrow> write_at img pos data = patch pos data img"
  by (simp add: write_at_def patch_def)

lemma image_valid_patch:
  "pos + length data \<le> length img \<Longrightarrow> image_valid (patch pos data img) = image_valid img"
  by (simp add: image_valid_def fun_eq_iff length_patch)

lemma image_block_patch:
  assumes "image_valid img b" and "length data = 512"
  shows "image_block (patch (512 * unat b) data img) = (image_block img)(b := data)"
proof
  fix c
  have v: "512 * unat b + length data \<le> length img" using assms by (simp add: image_valid_def)
  show "image_block (patch (512 * unat b) data img) c = ((image_block img)(b := data)) c"
  proof (cases "c = b")
    case True
    then show ?thesis using part_of_patch [OF v] assms(2) by (simp add: image_block_def)
  next
    case False
    then have ne: "unat c \<noteq> unat b" by (metis word_unat_eq_iff)
    have "take 512 (drop (512 * unat c) (patch (512 * unat b) data img)) = take 512 (drop (512 * unat c) img)"
    proof (rule nth_equalityI)
      fix i assume "i < length (take 512 (drop (512 * unat c) (patch (512 * unat b) data img)))"
      then have i: "i < 512" "512 * unat c + i < length img" using length_patch [OF v] by auto
      moreover have "\<not> (512 * unat b \<le> 512 * unat c + i \<and> 512 * unat c + i < 512 * unat b + 512)"
        using ne i(1) by linarith
      ultimately show "take 512 (drop (512 * unat c) (patch (512 * unat b) data img)) ! i =
          take 512 (drop (512 * unat c) img) ! i"
        using nth_patch [OF v, of "512 * unat c + i"] assms(2) length_patch [OF v] by auto
    qed (simp add: length_patch [OF v])
    then show ?thesis using False by (simp add: image_block_def)
  qed
qed

interpretation ib: block_store image_gbd image_block image_valid
proof (unfold_locales, goal_cases)
  case (1 d b)
  then show ?case by (simp add: image_gbd_def read_block_valid)
next
  case (2 d b buf)
  then have "512 * unat b + length buf \<le> length d" by (simp add: image_valid_def)
  then show ?case using 2
    by (simp add: image_gbd_def write_block_valid write_at_in image_valid_patch image_block_patch)
next
  case (3 d b)
  then show ?case by (auto simp: image_valid_def image_block_def)
qed

section \<open>The tool's bitmap is an allocator\<close>

abbreviation tbits :: "endian \<Rightarrow> bitmap \<Rightarrow> nat set" where
  "tbits en \<equiv> used_bits (from_big_endian32 en)"

lemma tool_bitmap_get_eq:
  assumes "p < 32 * length bm"
  shows "tool_bitmap_get en bm (int p) = Inr (if p \<in> tbits en bm then 1 else 0)"
  using assms by (simp add: tool_bitmap_get_def bit_test_eq used_bits_iff nat_div_distrib nat_mod_distrib
      less_mult_imp_div_less zdiv_int [symmetric] zmod_int [symmetric] mult.commute)

lemma tool_bitmap_set_eq:
  assumes p: "p < 32 * length bm" and b: "value \<in> {0, 1}"
  shows "\<exists>bm'. tool_bitmap_set en bm (int p) value = Inr bm' \<and> length bm' = length bm \<and>
    tbits en bm' = (if value = 1 then insert p (tbits en bm) else tbits en bm - {p})"
proof -
  have i: "p div 32 < length bm" using p by (simp add: less_mult_imp_div_less mult.commute)
  let ?w = "from_big_endian32 en (bm ! (p div 32))"
  let ?w' = "from_big_endian32 en (if value = 1 then ?w OR push_bit (p mod 32) 1 else ?w AND NOT (push_bit (p mod 32) 1))"
  have "tool_bitmap_set en bm (int p) value = Inr (bm[p div 32 := ?w'])"
    using b i by (auto simp: tool_bitmap_set_def Let_def nat_div_distrib nat_mod_distrib
        zdiv_int [symmetric] zmod_int [symmetric])
  moreover have "tbits en (bm[p div 32 := ?w']) =
      (if value = 1 then insert p (tbits en bm) else tbits en bm - {p})"
    using b by (intro used_bits_update [OF p]) (auto simp: bit_simps)
  ultimately show ?thesis by auto
qed

lemma tool_findnset_loop_eq:
  assumes "l \<le> 32 * length bm" and "i \<le> l" and "\<forall>q < i. q \<in> tbits en bm"
  shows "tool_findnset_loop en bm (int l) (int i) =
    (case first_free (tbits en bm) l of None \<Rightarrow> Inr (- 1, bm)
     | Some p \<Rightarrow> rbind (tool_bitmap_set en bm (int p) 1) (\<lambda>bm. Inr (int p, bm)))"
  using assms(2,3)
proof (induction "l - i" arbitrary: i)
  case 0
  then have "first_free (tbits en bm) l = None" by (simp add: first_free_None_iff)
  then show ?case using 0 by (simp add: tool_findnset_loop.simps)
next
  case (Suc k)
  then have i: "i < l" "i < 32 * length bm" using assms(1) by auto
  show ?case
  proof (cases "i \<in> tbits en bm")
    case True
    have u: "tool_findnset_loop en bm (int l) (int i) = tool_findnset_loop en bm (int l) (int (Suc i))"
      using i True by (subst tool_findnset_loop.simps) (simp add: tool_bitmap_get_eq add.commute)
    show ?thesis unfolding u using Suc True i less_Suc_eq by (intro Suc.hyps(1)) auto
  next
    case False
    then have "first_free (tbits en bm) l = Some i" using Suc.prems i by (intro first_free_SomeI) auto
    then show ?thesis using i False
      by (subst tool_findnset_loop.simps) (simp add: tool_bitmap_get_eq)
  qed
qed

interpretation tb: bit_allocator "tool_bitmap_get en" "tool_bitmap_set en" "tool_bitmap_findnset en" "tbits en"
    "\<lambda>bm. 32 * length bm" for en
proof (unfold_locales, goal_cases)
  case (1 p b)
  then show ?case by (rule tool_bitmap_get_eq)
next
  case (2 p b x)
  then show ?case using tool_bitmap_set_eq [of p b x en] by auto
next
  case (3 l b p)
  then have "p < 32 * length b" using first_free_SomeD(1) [OF 3(2)] by simp
  then show ?case
    using tool_findnset_loop_eq [OF 3(1), of 0 en] tool_bitmap_set_eq [of p b 1 en] 3(2)
    by (auto simp: tool_bitmap_findnset_def)
next
  case (4 l b)
  then show ?case using tool_findnset_loop_eq [OF 4(1), of 0 en] by (simp add: tool_bitmap_findnset_def)
qed

end
