(* ===== verification/Tfs_Driver.thy ===== *)
theory Tfs_Driver
  imports Vfs Tfstool
begin

text \<open>
  TFS as a driver of the VFS: \<open>tfs_driver\<close> is the table of function pointers that \<open>tfs_init\<close> stores
  in its \<open>fs_t\<close>. The world of the drivers gives the TFS instance of every file system pointer. On disk
  images it meets the contract \<open>file_driver\<close>.
\<close>

definition on_fs :: "('a, 'd) tfs_m \<Rightarrow> int \<Rightarrow> (int \<Rightarrow> 'd tfs) \<Rightarrow> ('a \<times> (int \<Rightarrow> 'd tfs)) res" where
  "on_fs op fs w = rbind (op (w fs)) (\<lambda>(r, st). Inr (r, w(fs := st)))"

definition tfs_driver :: "'d gbd \<Rightarrow> endian \<Rightarrow> (int \<Rightarrow> 'd tfs) fs_driver" where
  "tfs_driver g en = \<lparr>
     fs_unmount = on_fs tfs_unmount,
     fs_open = (\<lambda>fs name. on_fs (tfs_open g en name) fs),
     fs_close = (\<lambda>fs fid. on_fs (tfs_close fid) fs),
     fs_read = (\<lambda>fs fid buf n off. on_fs (tfs_read g en fid buf n off) fs),
     fs_write = (\<lambda>fs fid buf n off. on_fs (tfs_write g en fid buf n off) fs),
     fs_create = (\<lambda>fs name sz. on_fs (tfs_create g en name sz) fs),
     fs_remove = (\<lambda>fs name. on_fs (tfs_remove g en name) fs),
     fs_getfree = on_fs (tfs_getfree g en),
     fs_filecount = (\<lambda>fs name. on_fs (tfs_filecount g en name) fs),
     fs_file = (\<lambda>fs name idx buf. on_fs (tfs_file g en name idx buf) fs)\<rparr>"

text \<open>A file of a TFS volume on an image, and its content.\<close>

definition tfs_inode :: "image tfs \<Rightarrow> int \<Rightarrow> byte list" where
  "tfs_inode st fid = image_block (disk st) (startblock st + word_of_int fid)"

definition tfs_content :: "endian \<Rightarrow> image tfs \<Rightarrow> int \<Rightarrow> byte list" where
  "tfs_content en st fid = file_content (image_block (disk st)) en (startblock st) (tfs_inode st fid)"

definition tfs_file_ok :: "endian \<Rightarrow> image tfs \<Rightarrow> int \<Rightarrow> bool" where
  "tfs_file_ok en st fid \<longleftrightarrow> 0 < lock st \<and> 2 \<le> fid \<and> fid \<le> sint (totalblocks st) \<and>
     image_valid (disk st) (startblock st + word_of_int fid) \<and>
     file_ok (image_valid (disk st)) en (startblock st) (tfs_inode st fid) \<and>
     startblock st + word_of_int fid \<notin>
       file_block en (startblock st) (tfs_inode st fid) ` {..<num_blocks (file_size en (tfs_inode st fid))} \<and>
     length (buffer_bat st) = 512"

lemma tfs_content_length:
  assumes "tfs_file_ok en st fid"
  shows "int (length (tfs_content en st fid)) = file_size en (tfs_inode st fid)"
proof -
  let ?ino = "tfs_inode st fid"
  have ok: "file_ok (image_valid (disk st)) en (startblock st) ?ino" using assms by (simp add: tfs_file_ok_def)
  have "image_valid (disk st) (file_block en (startblock st) ?ino i)" if "i < num_blocks (file_size en ?ino)" for i
    using ok that by (simp add: file_ok_def)
  then have "length (file_data (image_block (disk st)) en (startblock st) ?ino (num_blocks (file_size en ?ino))) =
      512 * num_blocks (file_size en ?ino)" by (intro length_file_data ib.blk_length)
  then show ?thesis using ok by (auto simp: tfs_content_def file_content_def num_blocks_def file_ok_def)
qed

lemma tfs_driver_read:
  assumes ok: "tfs_file_ok en st fid" and off: "off \<le> length (tfs_content en st fid)" and n: "n \<le> length buf"
    and m: "m = min n (length (tfs_content en st fid) - off)"
  shows "\<exists>st'. tfs_read image_gbd en fid buf (int n) (int off) st =
      Inr ((int m, take m (drop off (tfs_content en st fid)) @ drop m buf), st') \<and>
    tfs_file_ok en st' fid \<and> tfs_content en st' fid = tfs_content en st fid"
proof -
  let ?sz = "length (tfs_content en st fid)"
  have "\<exists>st'. tfs_read image_gbd en fid buf (int n) (int off) st =
      Inr ((int (min n (?sz - off)),
        take (min n (?sz - off)) (drop off (file_content (image_block (disk st)) en (startblock st)
          (image_block (disk st) (startblock st + word_of_int fid)))) @ drop (min n (?sz - off)) buf), st') \<and>
    ib.same_fs st st' \<and> lock st' = lock st"
    using ok off n tfs_content_length [OF ok] by (intro ib.read_spec) (simp_all add: tfs_file_ok_def tfs_inode_def)
  then show ?thesis using ok m
    by (auto simp: ib.same_fs_def tfs_file_ok_def tfs_content_def tfs_inode_def)
qed

lemma tfs_driver_write:
  assumes ok: "tfs_file_ok en st fid" and off: "off \<le> length (tfs_content en st fid)" and n: "n \<le> length buf"
    and m: "m = min n (length (tfs_content en st fid) - off)"
  shows "\<exists>st'. tfs_write image_gbd en fid buf (int n) (int off) st = Inr (int m, st') \<and>
    tfs_file_ok en st' fid \<and> tfs_content en st' fid = patch off (take m buf) (tfs_content en st fid)"
proof -
  let ?sz = "length (tfs_content en st fid)" and ?b = "startblock st + word_of_int fid"
  have "\<exists>st'. tfs_write image_gbd en fid buf (int n) (int off) st = Inr (int (min n (?sz - off)), st') \<and>
    image_valid (disk st') = image_valid (disk st) \<and> startblock st' = startblock st \<and>
    totalblocks st' = totalblocks st \<and> lock st' = lock st \<and> length (buffer_bat st') = 512 \<and>
    file_content (image_block (disk st')) en (startblock st) (image_block (disk st) ?b) =
      patch off (take (min n (?sz - off)) buf) (file_content (image_block (disk st)) en (startblock st) (image_block (disk st) ?b)) \<and>
    (\<forall>b. b \<notin> file_block en (startblock st) (image_block (disk st) ?b) ` {..<num_blocks (int ?sz)} \<longrightarrow>
      image_block (disk st') b = image_block (disk st) b)"
    using ok off n tfs_content_length [OF ok] by (intro ib.write_spec) (simp_all add: tfs_file_ok_def tfs_inode_def)
  then obtain st' where st': "tfs_write image_gbd en fid buf (int n) (int off) st = Inr (int m, st')"
    "image_valid (disk st') = image_valid (disk st)" "startblock st' = startblock st"
    "totalblocks st' = totalblocks st" "lock st' = lock st" "length (buffer_bat st') = 512"
    "file_content (image_block (disk st')) en (startblock st) (image_block (disk st) ?b) =
      patch off (take m buf) (tfs_content en st fid)"
    "\<forall>b. b \<notin> file_block en (startblock st) (image_block (disk st) ?b) ` {..<num_blocks (int ?sz)} \<longrightarrow>
      image_block (disk st') b = image_block (disk st) b"
    unfolding m by (auto simp: tfs_content_def tfs_inode_def)
  have "?b \<notin> file_block en (startblock st) (image_block (disk st) ?b) ` {..<num_blocks (int ?sz)}"
    using ok unfolding tfs_content_length [OF ok] by (simp add: tfs_file_ok_def tfs_inode_def)
  then have i: "tfs_inode st' fid = tfs_inode st fid" using st'(3,8) by (simp add: tfs_inode_def)
  then have "tfs_file_ok en st' fid" using ok st' by (simp add: tfs_file_ok_def)
  moreover have "tfs_content en st' fid = patch off (take m buf) (tfs_content en st fid)"
    using st'(3,7) i by (simp add: tfs_content_def tfs_inode_def)
  ultimately show ?thesis using st'(1) by blast
qed

interpretation tf: file_driver "tfs_driver image_gbd en" "\<lambda>w fs. tfs_content en (w fs)" "\<lambda>w fs. tfs_file_ok en (w fs)" for en
proof (unfold_locales, goal_cases)
  case (1 w fs f off n buf m)
  then show ?case using tfs_driver_read [of en "w fs" f off n buf m] by (auto simp: tfs_driver_def on_fs_def)
next
  case (2 w fs f off n buf m)
  then show ?case using tfs_driver_write [of en "w fs" f off n buf m] by (auto simp: tfs_driver_def on_fs_def)
next
  case (3 w fs f)
  then have "int (length (tfs_content en (w fs) f)) \<le> 65024"
    using tfs_content_length [OF 3] by (simp add: tfs_file_ok_def file_ok_def)
  then show ?case by simp
qed

end
