(* ===== verification/Storage_Properties.thy ===== *)
theory Storage_Properties
  imports Tfs_Driver
begin

text \<open>
  The theorems about the C library routines, the bitmap and the file system, each with an instance
  at a concrete input. \<open>ex_image\<close> is a disk image of five blocks with one file of five bytes.
\<close>

section \<open>Strings, memory and byte order\<close>

text \<open>
  \<open>memcopy\<close> moves \<open>n\<close> bytes exactly and changes nothing else, whatever the alignment, when the
  areas do not overlap or the target starts before the source.
\<close>

lemma memcopy_exact:
  assumes "0 \<le> n" and "t \<le> s \<or> s + n \<le> t"
  shows "memcopy n t s m = (\<lambda>a. if t \<le> a \<and> a < t + n then m (s + (a - t)) else m a)"
  using memcopy_eq [of n t s m] assms by (simp add: copy_safe_def copied_def)

text \<open>
  \<open>stringcopy\<close> into a buffer of \<open>buflen\<close> bytes leaves there a terminated string, the source cut
  to \<open>buflen - 1\<close> characters, and never writes past \<open>buflen\<close> bytes.
\<close>

lemma stringcopy_truncates:
  assumes "0 < buflen" and "buflen \<le> int (length tgt)" and "terminated src"
  shows "\<exists>tgt'. stringcopy tgt src buflen = Inr tgt' \<and> terminated tgt' \<and> length tgt' = length tgt \<and>
    cstr tgt' = take (nat buflen - 1) (cstr src) \<and> drop (nat buflen) tgt' = drop (nat buflen) tgt"
proof -
  let ?t = "take (nat buflen - 1) (cstr src) @ 0 # drop (Suc (min (nat buflen - 1) (length (cstr src)))) tgt"
  have e: "stringcopy tgt src buflen = Inr ?t" using stringcopy_eq [OF assms] .
  have "drop (nat buflen) ?t = drop (nat buflen) tgt"
    using assms(1) by (cases "nat buflen") (auto simp: min_def Suc_diff_le)
  then show ?thesis using e cstr_stringcopy [OF assms e] by blast
qed

text \<open>
  Despite its documentation, \<open>stringcopy\<close> does not fill the rest of the target with zeros: the
  padding loop counts the positions but writes every zero to the same one.
\<close>

lemma stringcopy_no_padding: "stringcopy [1, 1, 1, 1] [65, 0] 4 = Inr [65, 0, 1, 1]"
  using stringcopy_eq [of 4 "[1, 1, 1, 1]" "[65, 0]"] by simp

text \<open>
  On a little-endian build \<open>to_big_endian16\<close> swaps 32 bits and keeps the low half: the result is
  0 for every argument.
\<close>

lemma to_big_endian16_zero: "to_big_endian16 Little x = 0"
  by (rule bit_word_eqI) (auto simp: to_big_endian16_def swap32_def bytes32_def word32_le_def bit_simps dest!: bit_imp_le_length)

section \<open>The block allocator\<close>

text \<open>
  \<open>bitmap_findnset\<close> takes the lowest free position below \<open>l\<close> and changes no other position; if
  there is none it returns \<open>-1\<close> and changes nothing.
\<close>

lemma bitmap_findnset_lowest:
  assumes "l \<le> 32 * length bm"
  shows "\<exists>p bm'. bitmap_findnset bm (int l) = Inr (p, bm') \<and> length bm' = length bm \<and>
    (if \<exists>q < l. q \<notin> kbits bm
     then \<exists>q < l. p = int q \<and> q \<notin> kbits bm \<and> (\<forall>r < q. r \<in> kbits bm) \<and> kbits bm' = insert q (kbits bm)
     else p = - 1 \<and> bm' = bm)"
proof (cases "first_free (kbits bm) l")
  case None
  then show ?thesis using kb.findnset_none [OF assms None] by (auto simp: first_free_None_iff)
next
  case (Some q)
  have "q < l" "q \<notin> kbits bm" "\<forall>r < q. r \<in> kbits bm" using first_free_SomeD [OF Some] by blast+
  moreover obtain bm' where "bitmap_findnset bm (int l) = Inr (int q, bm')" "32 * length bm' = 32 * length bm"
      "kbits bm' = insert q (kbits bm)" using kb.findnset_some [OF assms Some] by blast
  ultimately show ?thesis by (intro exI [of _ "int q"] exI [of _ bm']) auto
qed

section \<open>The file system\<close>

definition ex_inode :: "byte list" where
  "ex_inode = bytes32 Big 5 @ bytes32 Big 4 @ replicate 504 0"

definition ex_image :: image where
  "ex_image = replicate 1536 0 @ ex_inode @ [104, 101, 108, 108, 111] @ replicate 507 0"

definition ex_tfs :: "image tfs" where
  "ex_tfs = \<lparr>startblock = 0, totalblocks = 5, disk = ex_image, lock = 1, buffer_inode = replicate 512 0,
     buffer_bat = replicate 512 0, buffer_md = replicate 512 0\<rparr>"

lemma ex_length [simp]: "length ex_inode = 512" "length ex_image = 2560"
  by (simp_all add: ex_inode_def ex_image_def)

lemma ex_blocks [simp]: "image_block ex_image 3 = ex_inode"
    "image_block ex_image 4 = [104, 101, 108, 108, 111] @ replicate 507 0"
  by (simp_all add: image_block_def ex_image_def)

lemma ex_inode_fields: "file_size en ex_inode = 5" "file_block en 0 ex_inode 0 = 4"
  by (simp_all add: file_size_def file_block_def ex_inode_def from_big_endian32_word32)

lemma ex_file_ok: "file_ok (image_valid ex_image) en 0 ex_inode"
  by (simp add: file_ok_def ex_inode_fields num_blocks_def image_valid_def inj_on_def)

lemma ex_content: "file_content (image_block ex_image) en 0 ex_inode = [104, 101, 108, 108, 111]"
  by (simp add: file_content_def file_data_def ex_inode_fields num_blocks_def)

text \<open>
  \<open>tfs_read\<close> on a disk image: for an existing file and an offset inside it, the call returns the
  number of bytes from the offset to the end of the file, at most \<open>n\<close>, and the buffer starts with
  those bytes of the file; the rest of the buffer and the disk are unchanged and the lock is free
  again.
\<close>

lemma tfs_read_returns_content:
  assumes "0 < lock st" and "2 \<le> fid" and "fid \<le> sint (totalblocks st)"
    and "ino = image_block (disk st) (startblock st + word_of_int fid)"
    and "image_valid (disk st) (startblock st + word_of_int fid)"
    and "file_ok (image_valid (disk st)) en (startblock st) ino"
    and "file_size en ino = int fsz" and "off \<le> fsz" and "n \<le> length buf"
  shows "\<exists>st'. tfs_read image_gbd en fid buf (int n) (int off) st =
      Inr ((int (min n (fsz - off)),
        take (min n (fsz - off)) (drop off (file_content (image_block (disk st)) en (startblock st) ino)) @
        drop (min n (fsz - off)) buf), st') \<and>
    image_block (disk st') = image_block (disk st) \<and> lock st' = lock st"
  using ib.read_spec [of st fid en fsz off n buf] assms by (auto simp: ib.same_fs_def)

text \<open>
  C32. \<open>tfs_write\<close> on a disk image: the bytes of the file from the offset on are replaced by those of
  the buffer, as far as the file goes, the call returns their number, the rest of the file and every
  block that holds none of its data stay as they were, and the lock is free again.
\<close>

theorem tfs_write_changes_content:
  assumes "0 < lock st" and "2 \<le> fid" and "fid \<le> sint (totalblocks st)"
    and "ino = image_block (disk st) (startblock st + word_of_int fid)"
    and "image_valid (disk st) (startblock st + word_of_int fid)"
    and "file_ok (image_valid (disk st)) en (startblock st) ino"
    and "file_size en ino = int fsz" and "off \<le> fsz" and "n \<le> length buf" and "length (buffer_bat st) = 512"
  shows "\<exists>st'. tfs_write image_gbd en fid buf (int n) (int off) st = Inr (int (min n (fsz - off)), st') \<and>
    file_content (image_block (disk st')) en (startblock st) ino =
      patch off (take (min n (fsz - off)) buf) (file_content (image_block (disk st)) en (startblock st) ino) \<and>
    (\<forall>b. b \<notin> file_block en (startblock st) ino ` {..<num_blocks (int fsz)} \<longrightarrow>
      image_block (disk st') b = image_block (disk st) b) \<and> lock st' = lock st"
  using ib.write_spec [of st fid en fsz off n buf] assms by auto

theorem tfs_write_changes_content_witness:
  "\<exists>st'. tfs_write image_gbd Little 3 [97, 98] 2 1 ex_tfs = Inr (2, st') \<and>
    file_content (image_block (disk st')) Little 0 ex_inode = [104, 97, 98, 108, 111]"
  using tfs_write_changes_content [of ex_tfs 3 ex_inode Little 5 1 2 "[97, 98]"] ex_file_ok ex_inode_fields
  by (auto simp: ex_tfs_def image_valid_def ex_content patch_def)

text \<open>
  C11. What \<open>tfs_write\<close> stored is what \<open>tfs_read\<close> returns, for any part of a file, across block
  boundaries, as long as the inode block is not one of the file's own data blocks.
\<close>

theorem tfs_write_read_roundtrip:
  assumes "0 < lock st" and "2 \<le> fid" and "fid \<le> sint (totalblocks st)"
    and "ino = image_block (disk st) (startblock st + word_of_int fid)"
    and "image_valid (disk st) (startblock st + word_of_int fid)"
    and "file_ok (image_valid (disk st)) en (startblock st) ino"
    and "file_size en ino = int fsz"
    and "startblock st + word_of_int fid \<notin> file_block en (startblock st) ino ` {..<num_blocks (int fsz)}"
    and "off + n \<le> fsz" and "n \<le> length buf" and "n \<le> length buf2" and "length (buffer_bat st) = 512"
  shows "\<exists>st' st''. tfs_write image_gbd en fid buf (int n) (int off) st = Inr (int n, st') \<and>
    tfs_read image_gbd en fid buf2 (int n) (int off) st' = Inr ((int n, take n buf @ drop n buf2), st'')"
  using ib.write_read [of st fid en fsz off n buf buf2] assms by blast

theorem tfs_write_read_roundtrip_witness:
  "\<exists>st' st''. tfs_write image_gbd Big 3 [97, 98] 2 1 ex_tfs = Inr (2, st') \<and>
    tfs_read image_gbd Big 3 [0, 0] 2 1 st' = Inr ((2, [97, 98]), st'')"
  using tfs_write_read_roundtrip [of ex_tfs 3 ex_inode Big 5 1 2 "[97, 98]" "[0, 0]"] ex_file_ok ex_inode_fields
  by (auto simp: ex_tfs_def image_valid_def num_blocks_def lessThan_Suc)

text \<open>
  Every operation of the file system that returns has released the lock it took: whatever the
  disk does, also on every error path, the semaphore has its old value.
\<close>

lemma tfs_releases_lock:
  "(\<forall>v st'. tfs_open g en name st = Inr (v, st') \<longrightarrow> lock st' = lock st) \<and>
   (\<forall>v st'. tfs_create g en name sz st = Inr (v, st') \<longrightarrow> lock st' = lock st) \<and>
   (\<forall>v st'. tfs_remove g en name st = Inr (v, st') \<longrightarrow> lock st' = lock st) \<and>
   (\<forall>v st'. tfs_read g en fid buf sz off st = Inr (v, st') \<longrightarrow> lock st' = lock st) \<and>
   (\<forall>v st'. tfs_write g en fid buf sz off st = Inr (v, st') \<longrightarrow> lock st' = lock st) \<and>
   (\<forall>v st'. tfs_getfree g en st = Inr (v, st') \<longrightarrow> lock st' = lock st) \<and>
   (\<forall>v st'. tfs_filecount g en name st = Inr (v, st') \<longrightarrow> lock st' = lock st) \<and>
   (\<forall>v st'. tfs_file g en name idx buf st = Inr (v, st') \<longrightarrow> lock st' = lock st)"
  by (intro conjI allI impI)
    (erule lock_open lock_create lock_remove lock_read lock_write lock_getfree lock_filecount lock_file)+

end
