(* ===== verification/Filesystems.thy ===== *)
theory Filesystems
  imports Tfs_Driver
begin

text \<open>
  Finding file systems on disks (\<^verbatim>\<open>src/kudos/fs/filesystems.c\<close>) and mounting them
  (\<open>vfs_mount_fs\<close>, \<open>vfs_mount_all\<close> of \<^verbatim>\<open>src/kudos/fs/vfs.c\<close>). The partition tables are read through the
  block device \<open>g\<close>; \<open>drivers\<close> is the table of the known file systems' init functions. The table of an
  extended partition can lead to further tables, without a check that the chain ends:
  \<open>read_extended_partition_table\<close> takes the number of calls that may still be nested, and gives
  \<open>Diverges\<close> when it is used up. The page of the disk buffer is taken as given.
\<close>

section \<open>Partition tables\<close>

record partition =
  active :: byte
  ptype :: byte
  start_sector :: u32
  psize :: u32

type_synonym ('f, 'd) fs_init = "u32 \<Rightarrow> 'd \<Rightarrow> ('f option \<times> 'd) res"

text \<open>Entry \<open>i\<close> of the table in a boot sector: 16 bytes each, from byte 0x1BE.\<close>

definition table_entry :: "endian \<Rightarrow> byte list \<Rightarrow> nat \<Rightarrow> partition res" where
  "table_entry en buf i =
     (let e = take 16 (drop (446 + 16 * i) buf) in
      if length e < 16 then Inl OutOfBounds
      else Inr \<lparr>active = e ! 0, ptype = e ! 4, start_sector = word32 en (take 4 (drop 8 e)),
        psize = word32 en (drop 12 e)\<rparr>)"

text \<open>\<open>None\<close> is the return value 0xFFFFFFFF of a failed read, which leaves the other results alone.\<close>

definition get_partition :: "'d gbd \<Rightarrow> endian \<Rightarrow> nat \<Rightarrow> u64 \<Rightarrow> 'd \<Rightarrow> (partition option \<times> 'd) res" where
  "get_partition g en part_num mbr_sector d =
     (if part_num > 3 then Inr (None, d) else
      case gbd_read_block g d (ucast mbr_sector) of
        (None, d) \<Rightarrow> Inr (None, d)
      | (Some buf, d) \<Rightarrow> rbind (table_entry en buf part_num) (\<lambda>p. Inr (Some p, d)))"

text \<open>All drivers in order, on one start sector.\<close>

fun try_drivers :: "('f, 'd) fs_init list \<Rightarrow> ('f, 'd) fs_init" where
  "try_drivers [] sector d = Inr (None, d)"
| "try_drivers (init # drivers) sector d =
     rbind (init sector d) (\<lambda>(r, d).
     case r of Some fs \<Rightarrow> Inr (Some fs, d) | None \<Rightarrow> try_drivers drivers sector d)"

text \<open>
  The loop over the entries of the table in sector \<open>base\<close>, from entry \<open>i\<close>, \<open>n\<close> entries left; \<open>ext\<close> is the
  call for an entry that is another partition table.
\<close>

fun table_loop :: "'d gbd \<Rightarrow> endian \<Rightarrow> ('f, 'd) fs_init list \<Rightarrow> ('f, 'd) fs_init \<Rightarrow> u32 \<Rightarrow> nat \<Rightarrow> nat \<Rightarrow>
    'd \<Rightarrow> ('f option \<times> 'd) res" where
  "table_loop g en drivers ext base 0 i d = Inr (None, d)"
| "table_loop g en drivers ext base (Suc n) i d =
     rbind (get_partition g en i (ucast base) d) (\<lambda>(p, d).
     case p of None \<Rightarrow> table_loop g en drivers ext base n (Suc i) d
     | Some p \<Rightarrow>
         if start_sector p = 0xFFFFFFFF \<or> active p \<noteq> 0x80 \<and> active p \<noteq> 0
         then table_loop g en drivers ext base n (Suc i) d
         else if ptype p = 0 then Inr (None, d)
         else if ptype p = 0x05 \<or> ptype p = 0x0F then ext (start_sector p) d
         else
           rbind (try_drivers drivers (base + start_sector p) d) (\<lambda>(fs, d).
           case fs of Some fs \<Rightarrow> Inr (Some fs, d) | None \<Rightarrow> table_loop g en drivers ext base n (Suc i) d))"

fun read_extended_partition_table :: "nat \<Rightarrow> 'd gbd \<Rightarrow> endian \<Rightarrow> ('f, 'd) fs_init list \<Rightarrow> u32 \<Rightarrow> u32 \<Rightarrow>
    'd \<Rightarrow> ('f option \<times> 'd) res" where
  "read_extended_partition_table 0 g en drivers start sector d = Inl Diverges"
| "read_extended_partition_table (Suc fuel) g en drivers start sector d =
     table_loop g en drivers (read_extended_partition_table fuel g en drivers start) (start + sector) 4 0 d"

definition filesystems_try_all :: "nat \<Rightarrow> 'd gbd \<Rightarrow> endian \<Rightarrow> ('f, 'd) fs_init list \<Rightarrow> 'd \<Rightarrow> ('f option \<times> 'd) res" where
  "filesystems_try_all fuel g en drivers d =
     rbind (table_loop g en drivers (\<lambda>pstart. read_extended_partition_table fuel g en drivers pstart 0) 0 4 0 d) (\<lambda>(fs, d).
     case fs of Some fs \<Rightarrow> Inr (Some fs, d) | None \<Rightarrow> try_drivers drivers 0 d)"

text \<open>The table of the kernel: TFS, with a semaphore and a page at hand.\<close>

definition filesystems_table :: "'d gbd \<Rightarrow> endian \<Rightarrow> ('d tfs \<times> byte list, 'd) fs_init list" where
  "filesystems_table g en = [tfs_init g en True True]"

section \<open>Mounting\<close>

text \<open>
  \<open>probe\<close> is \<open>filesystems_try_all\<close> on the disk: the pointer and the volume name of the file system it
  finds, which is then part of the world of the drivers.
\<close>

type_synonym 'w probe = "'w \<Rightarrow> ((int \<times> byte list) option \<times> 'w) res"

definition vfs_mount_fs :: "'w fs_driver \<Rightarrow> 'w probe \<Rightarrow> byte list option \<Rightarrow> (int, 'w) vfs_m" where
  "vfs_mount_fs g probe volumename s =
     rbind (call_fs probe s) (\<lambda>(r, s).
     case r of None \<Rightarrow> Inr (VFS_NO_SUCH_FS, s)
     | Some (fs, name) \<Rightarrow>
         let volumename = (case volumename of None \<Rightarrow> name | Some v \<Rightarrow> v) in
         rbind (lget volumename 0) (\<lambda>c.
         if c = 0 then rbind (call_fs (fs_unmount g fs) s) (\<lambda>(_, s). Inr (VFS_INVALID_PARAMS, s)) else
         rbind (vfs_mount fs volumename s) (\<lambda>(ret, s).
         if ret = VFS_OK then Inr (ret, s)
         else rbind (call_fs (fs_unmount g fs) s) (\<lambda>(_, s). Inr (ret, s)))))"

text \<open>\<open>devs\<close>: the disks that \<open>device_get\<close> finds, in order; \<open>None\<close> has no generic device.\<close>

fun vfs_mount_disks :: "'w fs_driver \<Rightarrow> nat \<Rightarrow> 'w probe option list \<Rightarrow> 'w vfs \<Rightarrow> 'w vfs res" where
  "vfs_mount_disks g 0 devs s = Inr s"
| "vfs_mount_disks g (Suc n) [] s = Inr s"
| "vfs_mount_disks g (Suc n) (None # devs) s = vfs_mount_disks g n devs s"
| "vfs_mount_disks g (Suc n) (Some probe # devs) s =
     rbind (vfs_mount_fs g probe None s) (\<lambda>(_, s). vfs_mount_disks g n devs s)"

definition vfs_mount_all :: "'w fs_driver \<Rightarrow> 'w probe option list \<Rightarrow> 'w vfs \<Rightarrow> 'w vfs res" where
  "vfs_mount_all g devs s = vfs_mount_disks g CONFIG_MAX_FILESYSTEMS devs s"

text \<open>The probe of a disk by the kernel's table, for a file system created at address \<open>fs\<close>.\<close>

definition tfs_probe :: "nat \<Rightarrow> 'd gbd \<Rightarrow> endian \<Rightarrow> int \<Rightarrow> 'd \<Rightarrow> (int \<Rightarrow> 'd tfs) probe" where
  "tfs_probe fuel g en fs d w =
     rbind (filesystems_try_all fuel g en (filesystems_table g en) d) (\<lambda>(r, d).
     case r of None \<Rightarrow> Inr (None, w) | Some (st, name) \<Rightarrow> Inr (Some (fs, name), w(fs := st)))"

section \<open>Chains of extended tables\<close>

text \<open>
  \<open>links_end\<close>: every chain of links from the table in \<open>start + sector\<close> has fewer than \<open>k\<close> tables. A
  chain that ends needs no more than \<open>k\<close> nested calls; the contract of the drivers that this relies on
  is documented in \<^verbatim>\<open>filesystems.h\<close>: a failed mount leaves the disk unmodified.
\<close>

definition is_table :: "partition \<Rightarrow> bool" where
  "is_table p \<longleftrightarrow> ptype p = 0x05 \<or> ptype p = 0x0F"

fun links_end :: "'d gbd \<Rightarrow> endian \<Rightarrow> 'd \<Rightarrow> u32 \<Rightarrow> nat \<Rightarrow> u32 \<Rightarrow> bool" where
  "links_end g en d start 0 sector = False"
| "links_end g en d start (Suc k) sector =
     list_all (\<lambda>i. case get_partition g en i (ucast (start + sector)) d of
       Inr (Some p, _) \<Rightarrow> is_table p \<longrightarrow> links_end g en d start k (start_sector p)
     | _ \<Rightarrow> True) [0, 1, 2, 3]"

locale fs_drivers =
  fixes g :: "'d gbd" and drivers :: "('f, 'd) fs_init list"
  assumes read_keeps: "gbd_read_block g d b = (r, d') \<Longrightarrow> d' = d"
    and read_whole: "gbd_read_block g d b = (Some buf, d') \<Longrightarrow> length buf = 512"
    and init_ends: "init \<in> set drivers \<Longrightarrow> \<exists>r. init s d = Inr (r, d)"
begin

lemma try_drivers_ends: "set ds \<subseteq> set drivers \<Longrightarrow> \<exists>r. try_drivers ds s d = Inr (r, d)"
proof (induction ds)
  case (Cons init ds)
  then obtain r where "init s d = Inr (r, d)" using init_ends [of init s d] by auto
  then show ?case using Cons by (cases r) auto
qed simp

lemma get_partition_ends: "i \<le> 3 \<Longrightarrow> \<exists>p. get_partition g en i sector d = Inr (p, d)"
proof -
  assume i: "i \<le> 3"
  obtain r d' where r: "gbd_read_block g d (ucast sector) = (r, d')" by fastforce
  show ?thesis
  proof (cases r)
    case (Some buf)
    then have "length buf = 512" using read_whole r by blast
    then show ?thesis using i r Some read_keeps [OF r]
      by (auto simp: get_partition_def table_entry_def Let_def)
  qed (use i r read_keeps [OF r] in \<open>simp add: get_partition_def\<close>)
qed

lemma table_loop_ends:
  assumes "i + n \<le> 4"
    and "\<And>j p. i \<le> j \<Longrightarrow> j < 4 \<Longrightarrow> get_partition g en j (ucast base) d = Inr (Some p, d) \<Longrightarrow> is_table p \<Longrightarrow>
      ext' (start_sector p) d = ext (start_sector p) d \<and> (\<exists>r. ext (start_sector p) d = Inr (r, d))"
  shows "table_loop g en drivers ext' base n i d = table_loop g en drivers ext base n i d \<and>
    (\<exists>r. table_loop g en drivers ext base n i d = Inr (r, d))"
  using assms
proof (induction n arbitrary: i)
  case (Suc n)
  obtain p where p: "get_partition g en i (ucast base) d = Inr (p, d)"
    using get_partition_ends [of i en "ucast base" d] Suc.prems(1) by auto
  have rest: "table_loop g en drivers ext' base n (Suc i) d = table_loop g en drivers ext base n (Suc i) d \<and>
    (\<exists>r. table_loop g en drivers ext base n (Suc i) d = Inr (r, d))"
  proof (rule Suc.IH)
    show "Suc i + n \<le> 4" using Suc.prems(1) by simp
  qed (rule Suc.prems(2); simp)
  show ?case
  proof (cases p)
    case None
    then show ?thesis using p rest by simp
  next
    case (Some q)
    have x: "is_table q \<Longrightarrow>
      ext' (start_sector q) d = ext (start_sector q) d \<and> (\<exists>r. ext (start_sector q) d = Inr (r, d))"
      using Suc.prems(2) [of i q] p Some Suc.prems(1) by simp
    obtain r where "try_drivers drivers (base + start_sector q) d = Inr (r, d)"
      using try_drivers_ends [of drivers] by blast
    then show ?thesis using p Some rest x by (cases r) (auto simp: is_table_def)
  qed
qed simp

lemma chain_ends:
  "links_end g en d start k sector \<Longrightarrow> k \<le> fuel \<Longrightarrow>
   read_extended_partition_table fuel g en drivers start sector d =
     read_extended_partition_table k g en drivers start sector d \<and>
   (\<exists>r. read_extended_partition_table k g en drivers start sector d = Inr (r, d))"
proof (induction k arbitrary: sector fuel)
  case (Suc k)
  then obtain fuel' where f: "fuel = Suc fuel'" "k \<le> fuel'" by (cases fuel) auto
  have "links_end g en d start k (start_sector p)"
    if "j < 4" "get_partition g en j (ucast (start + sector)) d = Inr (Some p, d)" "is_table p" for j p
  proof -
    have "j = 0 \<or> j = 1 \<or> j = 2 \<or> j = 3" using that(1) by auto
    then show ?thesis using Suc.prems(1) that(2,3) by auto
  qed
  then show ?case unfolding f(1) read_extended_partition_table.simps
    by (intro table_loop_ends) (use Suc.IH [OF _ f(2)] in auto)
qed simp

end

lemma tfs_init_ends: "\<exists>r. tfs_init image_gbd en have_sem have_page s img = Inr (r, img)"
proof (cases "read_block img (replicate 512 0) (sint s)")
  case (Some buf)
  then have l: "length buf = 512" by (auto simp: read_block_def Let_def split: if_splits)
  obtain w where "wget en buf 0 = Inr w" using wget_ok [of 0 buf en] l by auto
  moreover obtain nm where "stringcopy (replicate 16 0) (drop 4 buf) 16 = Inr nm" "length nm = 16"
    using stringcopy_ends [of 16 "replicate 16 0" "drop 4 buf"] l by auto
  moreover obtain v where "stringcopy (replicate 16 0) nm 16 = Inr v"
    using stringcopy_ends [of 16 "replicate 16 0" nm] calculation(3) by auto
  ultimately show ?thesis using Some by (simp add: tfs_init_def image_gbd_def)
qed (simp add: tfs_init_def image_gbd_def)

interpretation pd: fs_drivers image_gbd "filesystems_table image_gbd en" for en
proof (unfold_locales, goal_cases)
  case (1 d b r d')
  then show ?case by (simp add: image_gbd_def)
next
  case (2 d b buf d')
  then show ?case by (auto simp: image_gbd_def read_block_def Let_def split: if_splits)
next
  case (3 init s d)
  then show ?case using tfs_init_ends by (simp add: filesystems_table_def)
qed

section \<open>Volumes made by the host tool\<close>

lemma write_block_end:
  assumes "length img = 512 * b" and "b < 4194304" and "length data = 512"
  shows "write_block (Some data) (int b) img = Some (img @ data)"
proof -
  have "c_int (int b * 512) = int (512 * b)" using assms(2) by (subst c_int_id) auto
  then have "write_block (Some data) (int b) img = Some (write_at img (512 * b) data)"
    by (simp add: write_block_def Let_def del: of_nat_mult)
  then show ?thesis using assms(1,3) by (simp add: write_at_def)
qed

lemma write_block_zeros: "write_block None b img = write_block (Some (replicate 512 0)) b img"
  by (simp add: write_block_def)

lemma clear_from_end:
  "length img = 512 * b \<Longrightarrow> b + n \<le> 4194304 \<Longrightarrow> clear_from n (int b) img = Some (img @ replicate (512 * n) 0)"
proof (induction n arbitrary: b img)
  case (Suc n)
  have "clear_from n (int (Suc b)) (img @ replicate 512 0) = Some ((img @ replicate 512 0) @ replicate (512 * n) 0)"
    using Suc.prems by (intro Suc.IH) auto
  then show ?case using Suc.prems write_block_end [of img b "replicate 512 0"]
    by (simp add: write_block_zeros replicate_add [symmetric] add.commute)
qed simp

text \<open>The allocation bitmap of a new volume has the blocks 0, 1 and 2 in use, in the order of the tool.\<close>

definition new_bat :: "byte list" where
  "new_bat = [0, 0, 0, 7] @ replicate 508 0"

lemma tool_bitmap_set_first:
  "j < 32 \<Longrightarrow> tool_bitmap_set en (from_big_endian32 en w # bm) (int j) 1 =
     Inr (from_big_endian32 en (w OR push_bit j 1) # bm)"
  by (simp add: tool_bitmap_set_def Let_def)

lemma unwords_new_bat: "unwords en (from_big_endian32 en 7 # replicate 127 0) = new_bat"
proof -
  have z: "bytes32 en 0 = [0, 0, 0, 0]" by (cases en) (simp_all add: bytes32_def)
  have "concat (replicate n (bytes32 en 0)) = replicate (4 * n) 0" for n
    by (induction n) (simp_all add: z replicate_add [symmetric] numeral_eq_Suc)
  from this [of 127] show ?thesis
    by (simp add: unwords_def new_bat_def bytes32_from_big_endian32) (simp add: bytes32_def)
qed

lemma createvol_image:
  assumes "3 \<le> sz" and "sz \<le> 4194304" and "16 \<le> length volname"
  shows "tfstool_createvol en (int sz) volname =
    Inr (True, tfs_header volname @ new_bat @ replicate (512 * (sz - 2)) 0)"
proof -
  let ?h = "tfs_header volname"
  have h: "length ?h = 512" using assms(3) by (simp add: tfs_header_def)
  have b: "length new_bat = 512" by (simp add: new_bat_def)
  have i: "tool_bitmap_init (replicate 128 0) (8 * 512) = Inr (from_big_endian32 en 0 # replicate 127 0)"
    using bitmap_init_loop_eq [of 0 128 "replicate 128 0"] replicate_Suc [of 127 "0 :: u32"]
    by (cases en) (simp_all add: tool_bitmap_init_def from_big_endian32_def)
  have s: "tool_bitmap_set en (from_big_endian32 en 0 # replicate 127 0) 0 1 = Inr (from_big_endian32 en 1 # replicate 127 0)"
    "tool_bitmap_set en (from_big_endian32 en 1 # replicate 127 0) 1 1 = Inr (from_big_endian32 en 3 # replicate 127 0)"
    "tool_bitmap_set en (from_big_endian32 en 3 # replicate 127 0) 2 1 = Inr (from_big_endian32 en 7 # replicate 127 0)"
    using tool_bitmap_set_first [of 0 en 0 "replicate 127 0"] tool_bitmap_set_first [of 1 en 1 "replicate 127 0"]
      tool_bitmap_set_first [of 2 en 3 "replicate 127 0"] by simp_all
  have w: "write_block (Some ?h) 0 [] = Some ?h" "write_block (Some new_bat) 1 ?h = Some (?h @ new_bat)"
    "write_block None 2 (?h @ new_bat) = Some (?h @ new_bat @ replicate 512 0)"
    "clear_from (nat (int sz - 3)) 3 (?h @ new_bat @ replicate 512 0) =
      Some (?h @ new_bat @ replicate (512 * (sz - 2)) 0)"
    using write_block_end [of "[]" 0 ?h] write_block_end [of ?h 1 new_bat]
      write_block_end [of "?h @ new_bat" 2 "replicate 512 0"]
      clear_from_end [of "?h @ new_bat @ replicate 512 0" 3 "sz - 3"] h b assms(1,2)
    by (simp_all add: write_block_zeros nat_diff_distrib' replicate_add [symmetric] algebra_simps)
  show ?thesis using assms(1) i s w by (simp add: tfstool_createvol_def done_or_def unwords_new_bat)
qed

lemma zero_entry:
  assumes "take 16 (drop (446 + 16 * i) buf) = replicate 16 0"
  shows "table_entry en buf i = Inr \<lparr>active = 0, ptype = 0, start_sector = 0, psize = 0\<rparr>"
proof -
  have "replicate 4 (0 :: byte) = [0, 0, 0, 0]" by (simp add: numeral_eq_Suc)
  moreover have "word32 en [0, 0, 0, 0] = 0" by (cases en) (simp_all add: word32_le_def)
  ultimately show ?thesis using assms by (simp add: table_entry_def Let_def)
qed

lemma found_volume:
  assumes "16 \<le> length volname" and "terminated (take 16 volname)" and "take 512 img = tfs_header volname"
  shows "\<exists>st name. filesystems_try_all fuel image_gbd en (filesystems_table image_gbd en) img =
      Inr (Some (st, name), img) \<and> startblock st = 0 \<and> disk st = img \<and> lock st = 1 \<and>
    totalblocks st = min (word_of_int (tfstool_numblocks img)) 4096 \<and>
    length name = 16 \<and> terminated name \<and> cstr name = cstr (take 16 volname)"
proof -
  let ?h = "tfs_header volname" and ?n = "take 16 volname"
  have h: "length ?h = 512" using assms(1) by (simp add: tfs_header_def)
  have rd: "gbd_read_block image_gbd img 0 = (Some ?h, img)"
    using assms(3) h by (simp add: image_gbd_def read_block_def c_int_def)
  have "take 16 (drop 446 ?h) = replicate 16 0"
    using assms(1) by (simp add: tfs_header_def bytes32_def Let_def drop_Cons')
  then have "table_entry en ?h 0 = Inr \<lparr>active = 0, ptype = 0, start_sector = 0, psize = 0\<rparr>"
    using zero_entry [of 0 ?h en] by simp
  then have gp: "get_partition image_gbd en 0 0 img =
      Inr (Some \<lparr>active = 0, ptype = 0, start_sector = 0, psize = 0\<rparr>, img)"
    using rd by (simp add: get_partition_def)
  have none: "table_loop image_gbd en (filesystems_table image_gbd en) ext 0 4 0 img = Inr (None, img)" for ext
  proof -
    have four: "(4 :: nat) = Suc 3" by simp
    show ?thesis using gp unfolding four table_loop.simps(2) by simp
  qed
  have m: "wget en ?h 0 = Inr (word32 en (bytes32 Big 3745))"
    using h by (simp add: wget_def tfs_header_def)
  have d: "drop 4 ?h = ?n @ replicate 492 0" by (simp add: tfs_header_def)
  have t: "terminated (drop 4 ?h)" "cstr (drop 4 ?h) = cstr ?n" unfolding d using assms(2)
    by (simp_all add: cstr_append)
  obtain nm where nm: "stringcopy (replicate 16 0) (drop 4 ?h) 16 = Inr nm"
    using stringcopy_eq [of 16 "replicate 16 0" "drop 4 ?h"] t(1) by auto
  note c = cstr_stringcopy [OF _ _ t(1) nm, simplified]
  obtain v where v: "stringcopy (replicate 16 0) nm 16 = Inr v"
    using stringcopy_eq [of 16 "replicate 16 0" nm] c(3) by auto
  note c' = cstr_stringcopy [OF _ _ c(3) v, simplified]
  have "length (cstr ?n) < 16" using cstr_length_less [OF assms(2)] by simp
  then have "cstr v = cstr ?n" using c(1) c'(1) t(2) by simp
  moreover have "(ucast (from_big_endian32 en (word32 en (bytes32 Big 3745))) :: u16) = 3745"
    by (simp add: from_big_endian32_word32)
  ultimately show ?thesis using none rd m nm v c'(2,3)
    by (simp add: filesystems_try_all_def filesystems_table_def tfs_init_def) (simp add: image_gbd_def)
qed

text \<open>How a kernel of byte order \<open>en\<close> reads the bitmap of a new volume.\<close>

lemma words_new_bat: "words en new_bat = (case en of Big \<Rightarrow> 7 | Little \<Rightarrow> 0x07000000) # replicate 127 0"
proof -
  have w: "word32 en [0, 0, 0, 7] = (case en of Big \<Rightarrow> 7 | Little \<Rightarrow> 0x07000000)" "word32 en [0, 0, 0, 0] = 0"
    by (cases en; simp add: word32_le_def)+
  have z: "words en (replicate (4 * n) 0) = replicate n 0" for n
    by (induction n) (simp_all add: w(2) numeral_eq_Suc)
  then have "words en (replicate 508 0) = replicate 127 0" using z [of 127] by simp
  then show ?thesis by (simp add: new_bat_def w(1))
qed

lemma first_free_new_bat:
  assumes "4 \<le> l"
  shows "first_free (kbits (words en new_bat)) l = Some (if en = Big then 3 else 0)"
proof (cases en)
  case Big
  have k: "p \<in> kbits (words en new_bat) \<longleftrightarrow> bit (7 :: u32) p" if "p < 32" for p
    using Big that by (simp add: words_new_bat used_bits_iff)
  have "q \<in> kbits (words en new_bat)" if "q < 3" for q
  proof -
    consider "q = 0" | "q = 1" | "q = 2" using \<open>q < 3\<close> by linarith
    then show ?thesis by cases (simp_all add: k)
  qed
  moreover have "3 \<notin> kbits (words en new_bat)" using k [of 3] by simp
  ultimately show ?thesis using assms Big by (intro first_free_SomeI) auto
next
  case Little
  have "0 \<notin> kbits (words en new_bat)" using Little by (simp add: words_new_bat used_bits_iff)
  then show ?thesis using assms Little by (intro first_free_SomeI) auto
qed

end
