(* ===== verification/Vfs_Properties.thy ===== *)
theory Vfs_Properties
  imports Storage_Properties Filesystems
begin

text \<open>
  The theorems about the virtual file system, alone and over TFS on a disk image. \<open>ex_vfs\<close> has the
  volume of \<open>ex_tfs\<close> mounted as \<open>disk\<close> and its file open at position 1.
\<close>

section \<open>A concrete VFS\<close>

definition ex_row :: vfs_entry where
  "ex_row = \<lparr>mounted = 1, mountpoint = [100, 105, 115, 107] @ replicate 12 0\<rparr>"

definition ex_vfs :: "(int \<Rightarrow> image tfs) vfs" where
  "ex_vfs = \<lparr>filesystems = ex_row # replicate 7 \<lparr>mounted = 0, mountpoint = replicate 16 0\<rparr>,
     files = \<lparr>filesystem = 1, fileid = 3, seek_position = 1\<rparr> #
       replicate 511 \<lparr>filesystem = 0, fileid = 0, seek_position = 0\<rparr>,
     vsem = (\<lambda>x. if x = Vfs_unmount_sem then 0 else 1), vfs_ops = 0, vfs_usable = True, world = (\<lambda>_. ex_tfs)\<rparr>"

lemma cstr_zeros [simp]: "cstr (replicate n 0) = []"
  by (cases n) auto

lemma ex_vfs_ready: "vfs_ready ex_vfs"
  by (simp add: vfs_ready_def ex_vfs_def)

lemma ex_vfs_file [simp]: "files ex_vfs ! 0 = \<lparr>filesystem = 1, fileid = 3, seek_position = 1\<rparr>"
  by (simp add: ex_vfs_def)

lemma ex_vfs_closed: "\<not> open_file ex_vfs 7"
  by (simp add: open_file_def ex_vfs_def)

lemma ex_open: "open_file ex_vfs 0"
  by (simp add: open_file_def)

lemma ex_rows_ok: "rows_ok ex_vfs"
  by (auto simp: rows_ok_def ex_vfs_def ex_row_def terminated_def)

lemma ex_tfs_file:
  "tfs_file_ok en (world ex_vfs fs) 3" "tfs_content en (world ex_vfs fs) 3 = [104, 101, 108, 108, 111]"
  using ex_file_ok ex_inode_fields ex_content
  by (auto simp: ex_vfs_def ex_tfs_def tfs_file_ok_def tfs_content_def tfs_inode_def image_valid_def
      num_blocks_def lessThan_Suc)

section \<open>Files through the VFS\<close>

text \<open>
  C3. The stack of VFS, TFS and disk image: bytes written to an open file with \<open>vfs_write\<close> are, after
  \<open>vfs_seek\<close> back to the old position, what \<open>vfs_read\<close> returns; all three calls succeed.
\<close>

theorem vfs_write_seek_read:
  assumes "vfs_ready s" and "open_file s file" and "e = files s ! file" and "st = world s (filesystem e)"
    and "tfs_file_ok en st (fileid e)" and "seek_position e = int pos"
    and "pos + n \<le> length (tfs_content en st (fileid e))" and "n \<le> length buf" and "n \<le> length buf2"
  shows "\<exists>s1 s2 s3. vfs_write (tfs_driver image_gbd en) (int file) buf (int n) s = Inr (int n, s1) \<and>
    vfs_seek (int file) (int pos) s1 = Inr (VFS_OK, s2) \<and>
    vfs_read (tfs_driver image_gbd en) (int file) buf2 (int n) s2 = Inr ((int n, take n buf @ drop n buf2), s3)"
proof -
  have "tf.at_pos en s file (tfs_content en st (fileid e)) pos"
    using assms by (simp add: tf.at_pos_def)
  from tf.write_seek_read [OF this assms(8,9,7)] show ?thesis by blast
qed

theorem vfs_write_seek_read_witness:
  "\<exists>s1 s2 s3. vfs_write (tfs_driver image_gbd Little) 0 [97, 98] 2 ex_vfs = Inr (2, s1) \<and>
    vfs_seek 0 1 s1 = Inr (0, s2) \<and> vfs_read (tfs_driver image_gbd Little) 0 [0, 0] 2 s2 = Inr ((2, [97, 98]), s3)"
  using vfs_write_seek_read [OF ex_vfs_ready ex_open refl refl, of Little 1 2 "[97, 98]" "[0, 0]"] ex_tfs_file
  by simp

text \<open>
  Reading an open file of TFS in pieces of any sizes gives the content from the seek position on,
  without gaps or repetitions, and nothing after the end of the file.
\<close>

lemma vfs_read_sequential:
  assumes "vfs_ready s" and "open_file s file" and "e = files s ! file" and "st = world s (filesystem e)"
    and "tfs_file_ok en st (fileid e)" and "seek_position e = int pos"
    and "pos \<le> length (tfs_content en st (fileid e))"
  shows "\<exists>s'. read_chunks (tfs_driver image_gbd en) ns (int file) s =
    Inr (take (sum_list ns) (drop pos (tfs_content en st (fileid e))), s')"
proof -
  have "tf.at_pos en s file (tfs_content en st (fileid e)) pos"
    using assms by (simp add: tf.at_pos_def)
  from tf.read_chunks_content [OF this, of ns] show ?thesis by blast
qed

section \<open>Locks and operation count\<close>



text \<open>
  C40. Closing, seeking, reading or writing a file that is not open fails with VFS_INVALID_PARAMS but
  never ends the operation it started: the count of operations stays one too high, and a later
  shutdown waits for it although nothing is running.
\<close>

theorem vfs_failed_op_blocks_shutdown:
  assumes "vfs_ready s" and "file < CONFIG_MAX_OPEN_FILES" and "\<not> open_file s file"
  shows "\<exists>s1. vfs_close g (int file) s = Inr (VFS_INVALID_PARAMS, s1) \<and> vfs_ops s1 = vfs_ops s + 1 \<and>
    vfs_read g (int file) buf n s = Inr ((VFS_INVALID_PARAMS, buf), s1) \<and>
    vfs_write g (int file) buf n s = Inr (VFS_INVALID_PARAMS, s1) \<and>
    vfs_seek (int file) pos s = Inr (VFS_INVALID_PARAMS, s1) \<and>
    vfs_deinit g s1 = Inr (None, s1\<lparr>vfs_usable := False\<rparr>)"
proof -
  have "vfs_ready (s\<lparr>vfs_ops := vfs_ops s + 1\<rparr>)" using assms(1) vfs_readyD(5) [OF assms(1)] by simp
  from deinit_waits [OF this, of g] show ?thesis
    using not_open_leaks [OF assms] vfs_readyD(5) [OF assms(1)] by simp
qed

theorem vfs_failed_op_blocks_shutdown_witness:
  "\<exists>s1. vfs_close (tfs_driver image_gbd Little) 7 ex_vfs = Inr (- 3, s1) \<and>
    vfs_deinit (tfs_driver image_gbd Little) s1 = Inr (None, s1\<lparr>vfs_usable := False\<rparr>)"
  using vfs_failed_op_blocks_shutdown [OF ex_vfs_ready _ ex_vfs_closed, of "tfs_driver image_gbd Little" "[]" 0 0]
  by auto



section \<open>Paths and mount points\<close>

text \<open>
  A path \<open>[volume]name\<close> is split into its two parts: for a volume name of at most 14 characters
  and a non-empty file name of at most 15, \<open>vfs_parse_pathname\<close> returns exactly these.
\<close>

lemma vfs_parse_pathname_splits:
  assumes "0 \<notin> set vol" and "93 \<notin> set vol" and "length vol \<le> 14"
    and "0 \<notin> set nm" and "nm \<noteq> []" and "length nm \<le> 15"
  shows "vfs_parse_pathname (91 # vol @ 93 # nm @ 0 # rest) = Inr (Some (vol @ [0], nm @ [0]))"
  using assms parse_volume_eq [of vol 15 "nm @ 0 # rest" "[]"] parse_filename_eq [of nm 16 "[]" rest]
  by (simp add: vfs_parse_pathname_def)

text \<open>
  Whatever the path, \<open>vfs_parse_pathname\<close> never writes more than VFS_NAME_LENGTH bytes into either
  buffer, and on success both hold terminated strings.
\<close>

lemma vfs_parse_pathname_bounds:
  assumes "vfs_parse_pathname path = Inr (Some (vol, nm))"
  shows "length vol \<le> VFS_NAME_LENGTH \<and> length nm \<le> VFS_NAME_LENGTH \<and> terminated vol \<and> terminated nm"
proof -
  obtain v rest where v: "vol = v @ [0]" "parse_filename 16 rest [] = Inr (Some nm)"
      "v = [] \<or> parse_volume 15 (drop 1 path) [] = Inr (Some (v, rest))"
    using assms by (auto simp: vfs_parse_pathname_def rbind_eq_Inr split: option.splits if_splits prod.splits)
  then have "length v < 15 \<or> v = []" using parse_volume_bounds by fastforce
  then show ?thesis using v(1) parse_filename_bounds [OF v(2)] by auto
qed

text \<open>
  Mounting a file system under a name that no row of the table has succeeds when a row is free;
  afterwards the name leads to this file system, and every other mount point is unchanged.
\<close>

lemma vfs_mount_lookup:
  assumes "vfs_ready s" and "rows_ok s" and "terminated name" and "cstr name \<noteq> []"
    and "length (cstr name) < VFS_NAME_LENGTH" and "free_row s < CONFIG_MAX_FILESYSTEMS"
    and "\<forall>e \<in> set (filesystems s). cstr (mountpoint e) \<noteq> cstr name"
  shows "\<exists>s'. vfs_mount fs name s = Inr (VFS_OK, s') \<and> vfs_get_filesystem name s' = Inr fs \<and>
    (\<forall>i. i \<noteq> free_row s \<longrightarrow> filesystems s' ! i = filesystems s ! i)"
  using vfs_mount_get [OF assms, of fs] assms(3) by auto

text \<open>
  A name that was unmounted can not be mounted again: \<open>vfs_unmount\<close> leaves the name in its row, so
  the next \<open>vfs_mount\<close> under the same name fails with VFS_ERROR, for any file system.
\<close>

lemma vfs_remount_refused:
  assumes s: "vfs_ready s" "rows_ok s" and nm: "terminated name" "cstr name \<noteq> []" and row: "row < CONFIG_MAX_FILESYSTEMS"
    and at: "cstr (mountpoint (filesystems s ! row)) = cstr name"
    and first: "\<forall>i < row. cstr (mountpoint (filesystems s ! i)) \<noteq> cstr name"
    and m: "mounted (filesystems s ! row) \<noteq> 0"
    and unused: "\<forall>e \<in> set (files s). filesystem e \<noteq> mounted (filesystems s ! row)"
    and u: "fs_unmount g (mounted (filesystems s ! row)) (world s) = Inr (ret, w)"
  shows "\<exists>s'. vfs_unmount g name s = Inr (VFS_OK, s') \<and> vfs_mount fs name s' = Inr (VFS_ERROR, s')"
proof -
  let ?e = "(filesystems s ! row)\<lparr>mounted := 0\<rparr>"
  let ?s = "s\<lparr>world := w, filesystems := (filesystems s)[row := ?e]\<rparr>"
  have len: "row < length (filesystems s)" using row vfs_readyD(4) [OF s(1)] by simp
  have e: "?e \<in> set (filesystems ?s)" using len by (auto simp: in_set_conv_nth intro!: exI [of _ row])
  have "vfs_ready ?s" using s(1) by (simp add: vfs_ready_def)
  moreover have "rows_ok ?s"
    using s(2) len by (simp add: rows_ok_def all_set_conv_all_nth nth_list_update)
  moreover have "free_row ?s < 8"
  proof -
    have "length (takeWhile (\<lambda>e. mounted e \<noteq> 0) (filesystems ?s)) < length (filesystems ?s)"
      by (rule takeWhile_shorter [OF e]) simp
    then show ?thesis using vfs_readyD(4) [OF s(1)] by (simp add: free_row_def)
  qed
  moreover have "\<exists>e \<in> set (filesystems ?s). cstr (mountpoint e) = cstr name"
    by (rule bexI [OF _ e]) (simp add: at)
  ultimately have "vfs_mount fs name ?s = Inr (VFS_ERROR, ?s)" using vfs_mount_taken [of ?s name fs] nm by simp
  then show ?thesis using vfs_unmount_eq [OF s nm(1) row at first m unused u] by blast
qed

text \<open>
  The range check of \<open>vfs_verify_open\<close> never fails: a file number that is negative or at least
  CONFIG_MAX_OPEN_FILES makes \<open>vfs_read\<close>, \<open>vfs_write\<close>, \<open>vfs_seek\<close> and \<open>vfs_close\<close> access the open file
  table outside its bounds.
\<close>

lemma vfs_file_number_unchecked:
  assumes "vfs_ready s" and "file < 0 \<or> int CONFIG_MAX_OPEN_FILES \<le> file" and "0 \<le> pos"
  shows "vfs_read g file buf n s = Inl OutOfBounds \<and> vfs_write g file buf n s = Inl OutOfBounds \<and>
    vfs_seek file pos s = Inl OutOfBounds \<and> vfs_close g file s = Inl OutOfBounds"
  using assms vfs_readyD [OF assms(1)]
  by (auto simp: vfs_read_def vfs_write_def vfs_seek_def vfs_close_def in_op_eq P_eq vfs_verify_open_def lget_def)

section \<open>Finding and mounting volumes\<close>

text \<open>
  C30. From the host tool to the mounted volume: \<open>tfstool_createvol\<close> with a size of 3 to 4194304 blocks
  and a name of 1 to 15 characters succeeds, and when \<open>vfs_mount_fs\<close> is then given this disk it finds
  TFS at block 0 and mounts it under the name the tool wrote; afterwards \<open>vfs_get_filesystem\<close>
  resolves the name to it. Tool and kernel may have different byte orders.
\<close>

theorem mount_created_volume:
  assumes s: "vfs_ready s" "rows_ok s" and sz: "3 \<le> sz" "sz \<le> 4194304" and nm: "16 \<le> length name" "terminated (take 16 name)" "cstr name \<noteq> []"
    and row: "free_row s < CONFIG_MAX_FILESYSTEMS"
    and new: "\<forall>e \<in> set (filesystems s). cstr (mountpoint e) \<noteq> cstr name"
  shows "\<exists>img s'. tfstool_createvol en (int sz) name = Inr (True, img) \<and>
    vfs_mount_fs (tfs_driver image_gbd ken) (tfs_probe fuel image_gbd ken fs img) None s = Inr (VFS_OK, s') \<and>
    vfs_get_filesystem name s' = Inr fs \<and> startblock (world s' fs) = 0 \<and> disk (world s' fs) = img"
proof -
  let ?img = "tfs_header name @ new_bat @ replicate (512 * (sz - 2)) 0"
  have "take 512 ?img = tfs_header name" using nm(1) by (simp add: tfs_header_def)
  then obtain st v where f: "filesystems_try_all fuel image_gbd ken (filesystems_table image_gbd ken) ?img =
      Inr (Some (st, v), ?img)" "startblock st = 0" "disk st = ?img" "terminated v" "cstr v = cstr (take 16 name)"
    using found_volume [OF nm(1,2), of ?img fuel ken] by blast
  have c: "cstr (take 16 name) = cstr name" using cstr_append [OF nm(2), of "drop 16 name"] by simp
  have t: "terminated name" using nm(2) by (auto simp: terminated_def dest: in_set_takeD)
  let ?s = "s\<lparr>world := (world s)(fs := st)\<rparr>"
  have p: "call_fs (tfs_probe fuel image_gbd ken fs ?img) s = Inr (Some (fs, v), ?s)"
    using f(1) by (simp add: call_fs_def tfs_probe_def)
  have "length (cstr v) < 16" using f(5) cstr_length_less [OF nm(2)] nm(1) by simp
  moreover have "vfs_ready ?s" "rows_ok ?s" "free_row ?s < 8" using s row by (simp_all add: vfs_ready_def rows_ok_def free_row_def)
  ultimately obtain s' where s': "vfs_mount fs v ?s = Inr (VFS_OK, s')" "vfs_get_filesystem name s' = Inr fs" "world s' = world ?s"
    using vfs_mount_get [of ?s v fs] f(4,5) c t nm(3) new by auto
  have "lget v 0 = Inr (v ! 0)" "v ! 0 \<noteq> 0" using string_head [of v] f(5) c nm(3) by auto
  then have "vfs_mount_fs (tfs_driver image_gbd ken) (tfs_probe fuel image_gbd ken fs ?img) None s = Inr (VFS_OK, s')"
    using p s'(1) by (simp add: vfs_mount_fs_def)
  then show ?thesis using s'(2) createvol_image [OF sz nm(1)] s'(3) f(2,3) by auto
qed

theorem mount_created_volume_witness:
  "\<exists>img s'. tfstool_createvol Big 3 ([97] @ replicate 15 0) = Inr (True, img) \<and>
    vfs_mount_fs (tfs_driver image_gbd Little) (tfs_probe 1 image_gbd Little 5 img) None ex_vfs = Inr (VFS_OK, s') \<and>
    vfs_get_filesystem ([97] @ replicate 15 0) s' = Inr 5"
proof -
  have "free_row ex_vfs = 1" by (simp add: free_row_def ex_vfs_def ex_row_def takeWhile_replicate)
  moreover have "\<forall>e \<in> set (filesystems ex_vfs). cstr (mountpoint e) \<noteq> cstr ([97] @ replicate 15 0)"
    by (auto simp: ex_vfs_def ex_row_def)
  moreover have "terminated (take 16 ([97] @ replicate 15 0))" by (simp add: terminated_def)
  ultimately show ?thesis
    using mount_created_volume [OF ex_vfs_ready ex_rows_ok, of 3 "[97] @ replicate 15 0" Big Little 1 5] by auto
qed

text \<open>
  Which block of a volume made by the tool the kernel allocates first. The tool keeps the words of
  the allocation bitmap in network order, the kernel in the byte order of the machine: a big-endian
  kernel takes block 3, the first free one, but a little-endian kernel (x86_64) takes block 0, the
  header of the volume.
\<close>

lemma new_volume_first_block:
  assumes "3 \<le> sz" and "sz \<le> 4194304" and "16 \<le> length name" and "4 \<le> l" and "l \<le> 4096"
  shows "\<exists>img bat. tfstool_createvol en (int sz) name = Inr (True, img) \<and>
    bitmap_findnset (words ken (image_block img 1)) (int l) = Inr (if ken = Big then 3 else 0, bat)"
proof -
  let ?img = "tfs_header name @ new_bat @ replicate (512 * (sz - 2)) 0"
  have b: "image_block ?img 1 = new_bat" using assms(3) by (simp add: image_block_def tfs_header_def new_bat_def)
  have "length (words ken new_bat) = 128" by (simp add: words_new_bat)
  then have "\<exists>bat. bitmap_findnset (words ken new_bat) (int l) = Inr (int (if ken = Big then 3 else 0), bat)"
    using kb.findnset_some [OF _ first_free_new_bat [OF assms(4)], of ken] assms(5) by fastforce
  then show ?thesis using createvol_image [OF assms(1-3), of en] b by (cases ken) auto
qed

text \<open>
  A chain of extended partition tables that ends is searched to its end: with as many nested calls
  as the chain has tables, or more, \<open>read_extended_partition_table\<close> returns, with the same result, and
  the disk is unchanged.
\<close>

lemma extended_tables_end:
  assumes "links_end image_gbd en img start k sector" and "k \<le> fuel"
  shows "\<exists>r. read_extended_partition_table fuel image_gbd en (filesystems_table image_gbd en) start sector img =
      Inr (r, img) \<and>
    read_extended_partition_table k image_gbd en (filesystems_table image_gbd en) start sector img = Inr (r, img)"
  using pd.chain_ends [OF assms, of en] by auto

definition ex_table :: "byte \<Rightarrow> byte list" where
  "ex_table sector = replicate 450 0 @ [5, 0, 0, 0, sector, 0, 0, 0] @ replicate 54 0"

lemma ex_table_read: "gbd_read_block image_gbd (ex_table sector @ rest) 0 = (Some (ex_table sector), ex_table sector @ rest)"
  by (simp add: image_gbd_def read_block_def c_int_def ex_table_def)

lemma ex_table_entry:
  "get_partition image_gbd Little 0 0 (ex_table sector @ rest) =
     Inr (Some \<lparr>active = 0, ptype = 5, start_sector = ucast sector, psize = 0\<rparr>, ex_table sector @ rest)"
proof -
  have r: "replicate 4 (0 :: byte) = [0, 0, 0, 0]" by (simp add: numeral_eq_Suc)
  have "take 16 (drop 446 (ex_table sector)) = [0, 0, 0, 0, 5, 0, 0, 0, sector, 0, 0, 0, 0, 0, 0, 0]"
    by (simp add: ex_table_def r)
  then show ?thesis using ex_table_read [of sector rest]
    by (simp add: get_partition_def table_entry_def word32_le_def)
qed

lemma ex_table_other:
  "i \<in> {1, 2, 3} \<Longrightarrow> get_partition image_gbd Little i 0 (ex_table sector @ rest) =
     Inr (Some \<lparr>active = 0, ptype = 0, start_sector = 0, psize = 0\<rparr>, ex_table sector @ rest)"
proof -
  assume i: "i \<in> {1, 2, 3}"
  then have "take 16 (drop (446 + 16 * i) (ex_table sector)) = replicate 16 0" by (auto simp: ex_table_def)
  then show ?thesis using i ex_table_read [of sector rest] zero_entry [of i "ex_table sector" Little]
    by (auto simp: get_partition_def)
qed

lemma ex_table_end:
  "i \<le> 3 \<Longrightarrow> get_partition image_gbd Little i 1 (ex_table sector @ replicate 512 0) =
     Inr (Some \<lparr>active = 0, ptype = 0, start_sector = 0, psize = 0\<rparr>, ex_table sector @ replicate 512 0)"
proof -
  assume i: "i \<le> 3"
  have "gbd_read_block image_gbd (ex_table sector @ replicate 512 0) 1 =
      (Some (replicate 512 0), ex_table sector @ replicate 512 0)"
    by (simp add: image_gbd_def read_block_def c_int_def ex_table_def)
  moreover have "take 16 (drop (446 + 16 * i) (replicate 512 0)) = replicate 16 (0 :: byte)" using i by simp
  ultimately show ?thesis using i zero_entry [of i "replicate 512 0" Little] by (simp add: get_partition_def)
qed

text \<open>
  Nothing checks that the chain ends: when the first entry of an extended table is a link to the
  same table, the recursion never returns, whatever the number of nested calls.
\<close>

lemma extended_table_loop_never_ends:
  assumes "get_partition image_gbd en 0 (ucast (start + sector)) img = Inr (Some p, img)"
    and "active p = 0" and "ptype p = 0x05" and "start_sector p = sector" and "sector \<noteq> 0xFFFFFFFF"
  shows "read_extended_partition_table fuel image_gbd en drivers start sector img = Inl Diverges"
proof (induction fuel)
  case (Suc fuel)
  have "table_loop image_gbd en drivers ext (start + sector) (Suc 3) 0 img = ext sector img" for ext
    using assms unfolding table_loop.simps(2) by simp
  from this [of "read_extended_partition_table fuel image_gbd en drivers start"] Suc show ?case by simp
qed simp

end
