(* ===== verification/Userland_Heap.thy ===== *)
theory Userland_Heap
  imports Libc
begin

text \<open>
  The heap allocator of the user library (\<^verbatim>\<open>src/userland/lib.c\<close>: \<open>heap_init\<close>, \<open>malloc\<close>, \<open>free\<close>, \<open>calloc\<close>,
  \<open>realloc\<close>), for x86_64: \<open>size_t\<close> and pointers have 64 bits. The state is the process's memory and the
  variable \<open>free_list\<close>; the headers of the blocks are read from and written to the bytes of the
  memory, so a header and the data of a program share the same bytes. \<open>H\<close> is the address of the
  array \<open>heap\<close>. The abstract heap is a list of tiles, used and free, that covers the array; \<open>malloc\<close>
  and \<open>free\<close> are shown to implement first fit with splitting, and release with merging, on it.
\<close>

section \<open>Memory words\<close>

definition load32 :: "mem \<Rightarrow> int \<Rightarrow> u32" where
  "load32 m a = word32_le (m a) (m (a + 1)) (m (a + 2)) (m (a + 3))"

definition store32 :: "mem \<Rightarrow> int \<Rightarrow> u32 \<Rightarrow> mem" where
  "store32 m a w = m(a := ucast w, a + 1 := ucast (drop_bit 8 w), a + 2 := ucast (drop_bit 16 w),
     a + 3 := ucast (drop_bit 24 w))"

definition load64 :: "mem \<Rightarrow> int \<Rightarrow> u64" where
  "load64 m a = ucast (load32 m a) OR push_bit 32 (ucast (load32 m (a + 4)))"

definition store64 :: "mem \<Rightarrow> int \<Rightarrow> u64 \<Rightarrow> mem" where
  "store64 m a w = store32 (store32 m a (ucast w)) (a + 4) (ucast (drop_bit 32 w))"

section \<open>Data\<close>

abbreviation (input) HEAP_SIZE :: int where "HEAP_SIZE \<equiv> 256"
abbreviation (input) MIN_ALLOC_SIZE :: u64 where "MIN_ALLOC_SIZE \<equiv> 16"
abbreviation (input) sizeof_size_t :: u64 where "sizeof_size_t \<equiv> 8"

record heap_state =
  free_list :: int
  hmem :: mem

text \<open>The fields of a \<open>free_block_t\<close> at address \<open>b\<close>.\<close>

definition block_size :: "heap_state \<Rightarrow> int \<Rightarrow> u64" where
  "block_size st b = load64 (hmem st) b"

definition block_next :: "heap_state \<Rightarrow> int \<Rightarrow> int" where
  "block_next st b = uint (load64 (hmem st) (b + 8))"

definition set_block_size :: "int \<Rightarrow> u64 \<Rightarrow> heap_state \<Rightarrow> heap_state" where
  "set_block_size b w st = st\<lparr>hmem := store64 (hmem st) b w\<rparr>"

definition set_block_next :: "int \<Rightarrow> int \<Rightarrow> heap_state \<Rightarrow> heap_state" where
  "set_block_next b p st = st\<lparr>hmem := store64 (hmem st) (b + 8) (word_of_int p)\<rparr>"

section \<open>Operations\<close>

definition heap_init :: "int \<Rightarrow> heap_state \<Rightarrow> heap_state" where
  "heap_init H st = set_block_next H 0 (set_block_size H (word_of_int HEAP_SIZE) (st\<lparr>free_list := H\<rparr>))"

text \<open>\<open>prev_p\<close> is a link: \<open>None\<close> for \<open>&free_list\<close>, \<open>Some b\<close> for \<open>&(b->next)\<close>.\<close>

definition set_link :: "int option \<Rightarrow> int \<Rightarrow> heap_state \<Rightarrow> heap_state" where
  "set_link prev_p p st = (case prev_p of None \<Rightarrow> st\<lparr>free_list := p\<rparr> | Some b \<Rightarrow> set_block_next b p st)"

text \<open>
  The loops follow the free list; a list of blocks inside the heap has fewer than 256 of them, and
  \<open>Diverges\<close> stands for a list that is longer.
\<close>

fun malloc_loop :: "nat \<Rightarrow> u64 \<Rightarrow> int \<Rightarrow> int option \<Rightarrow> heap_state \<Rightarrow> (int \<times> heap_state) res" where
  "malloc_loop 0 sz block prev_p st = Inl Diverges"
| "malloc_loop (Suc n) sz block prev_p st =
     (if block = 0 then Inr (0, st)
      else if sint (ucast (block_size st block - sz - sizeof_size_t) :: u32) \<ge>
          sint (ucast (MIN_ALLOC_SIZE + sizeof_size_t) :: u32) then
        let st = set_block_size block (block_size st block - (sz + sizeof_size_t)) st;
            new_block = block + uint (block_size st block);
            st = set_block_size new_block (sz + sizeof_size_t) st in
        Inr (new_block + 8, st)
      else if block_size st block \<ge> sz + sizeof_size_t then
        Inr (block + 8, set_link prev_p (block_next st block) st)
      else malloc_loop n sz (block_next st block) (Some block) st)"

definition malloc_size :: "u64 \<Rightarrow> u64" where
  "malloc_size sz =
     (let sz = max MIN_ALLOC_SIZE sz in
      if sz mod 4 \<noteq> 0 then (sz AND NOT 3) + 4 else sz)"

definition malloc :: "u64 \<Rightarrow> heap_state \<Rightarrow> (int \<times> heap_state) res" where
  "malloc sz st =
     (if sz = 0 then Inr (0, st) else malloc_loop 256 (malloc_size sz) (free_list st) None st)"

text \<open>The two merges of \<open>free\<close>, and the insertion between \<open>prev_block\<close> and \<open>cur_block\<close>.\<close>

definition merge_prev :: "int \<Rightarrow> int \<Rightarrow> int \<Rightarrow> heap_state \<Rightarrow> int \<times> heap_state" where
  "merge_prev block cur_block prev_block st =
     (if prev_block \<noteq> 0 \<and> word_of_int (block - prev_block) = block_size st prev_block then
        (prev_block, set_block_next prev_block cur_block
           (set_block_size prev_block (block_size st prev_block + block_size st block) st))
      else (block, st))"

definition merge_next :: "int \<Rightarrow> int \<Rightarrow> heap_state \<Rightarrow> heap_state" where
  "merge_next block cur_block st =
     (if cur_block \<noteq> 0 \<and> word_of_int (cur_block - block) = block_size st block then
        let st = set_block_size block (block_size st block + block_size st cur_block) st in
        set_block_next block (block_next st cur_block) st
      else st)"

definition free_insert :: "int \<Rightarrow> int \<Rightarrow> int \<Rightarrow> heap_state \<Rightarrow> heap_state" where
  "free_insert block cur_block prev_block st =
     (let st = (if prev_block = 0 then st\<lparr>free_list := block\<rparr> else set_block_next prev_block block st);
          st = set_block_next block cur_block st in
      case merge_prev block cur_block prev_block st of (block, st) \<Rightarrow> merge_next block cur_block st)"

fun free_loop :: "nat \<Rightarrow> int \<Rightarrow> int \<Rightarrow> int \<Rightarrow> heap_state \<Rightarrow> heap_state res" where
  "free_loop 0 block cur_block prev_block st = Inl Diverges"
| "free_loop (Suc n) block cur_block prev_block st =
     (if cur_block > block \<or> cur_block = 0 then Inr (free_insert block cur_block prev_block st)
      else free_loop n block (block_next st cur_block) cur_block st)"

definition free :: "int \<Rightarrow> heap_state \<Rightarrow> heap_state res" where
  "free ptr st = (if ptr \<noteq> 0 then free_loop 256 (ptr - 8) (free_list st) 0 st else Inr st)"

text \<open>The byte loops of \<open>calloc\<close> and \<open>realloc\<close>, from index \<open>i\<close>, \<open>n\<close> bytes left.\<close>

fun clear_bytes :: "nat \<Rightarrow> int \<Rightarrow> mem \<Rightarrow> mem" where
  "clear_bytes 0 p m = m"
| "clear_bytes (Suc n) p m = clear_bytes n (p + 1) (m(p := 0))"

definition calloc :: "u64 \<Rightarrow> u64 \<Rightarrow> heap_state \<Rightarrow> (int \<times> heap_state) res" where
  "calloc nmemb sz st =
     rbind (malloc (nmemb * sz) st) (\<lambda>(ptr, st).
     Inr (ptr, if ptr \<noteq> 0 then st\<lparr>hmem := clear_bytes (unat (nmemb * sz)) ptr (hmem st)\<rparr> else st))"

fun copy_bytes :: "nat \<Rightarrow> int \<Rightarrow> int \<Rightarrow> mem \<Rightarrow> mem" where
  "copy_bytes 0 dst src m = m"
| "copy_bytes (Suc n) dst src m = copy_bytes n (dst + 1) (src + 1) (m(dst := m src))"

definition realloc :: "int \<Rightarrow> u64 \<Rightarrow> heap_state \<Rightarrow> (int \<times> heap_state) res" where
  "realloc ptr sz st =
     (if ptr = 0 then malloc sz st
      else if sz = 0 then rbind (free ptr st) (\<lambda>st. Inr (0, st))
      else rbind (malloc sz st) (\<lambda>(new_ptr, st).
        if new_ptr \<noteq> 0 then
          rbind (free ptr (st\<lparr>hmem := copy_bytes (unat sz) new_ptr ptr (hmem st)\<rparr>)) (\<lambda>st. Inr (new_ptr, st))
        else Inr (0, st)))"

section \<open>Words in memory\<close>

lemma load32_store32: "load32 (store32 m a w) a = w"
  by (simp add: load32_def store32_def word32_le_bytes)

lemma load32_store32_other: "a + 4 \<le> b \<or> b + 4 \<le> a \<Longrightarrow> load32 (store32 m a w) b = load32 m b"
  by (auto simp: load32_def store32_def)

lemma store32_other: "z < a \<or> a + 4 \<le> z \<Longrightarrow> store32 m a w z = m z"
  by (auto simp: store32_def)

lemma word64_halves: "ucast (ucast (w :: u64) :: u32) OR push_bit 32 (ucast (ucast (drop_bit 32 w) :: u32)) = w"
  by (rule bit_word_eqI) (auto simp: bit_simps)

lemma load64_store64 [simp]: "load64 (store64 m a w) a = w"
  by (simp add: load64_def store64_def load32_store32 load32_store32_other word64_halves)

lemma load64_store64_other [simp]: "a + 8 \<le> b \<or> b + 8 \<le> a \<Longrightarrow> load64 (store64 m a w) b = load64 m b"
  by (auto simp: load64_def store64_def load32_store32_other)

lemma store64_other [simp]: "z < a \<or> a + 8 \<le> z \<Longrightarrow> store64 m a w z = m z"
  by (auto simp: store64_def store32_other)

section \<open>The heap as a list of tiles\<close>

text \<open>A tile: address, size with the header, whether it is free. A tiling covers an interval.\<close>

type_synonym tile = "int \<times> nat \<times> bool"

fun tiling :: "int \<Rightarrow> tile list \<Rightarrow> int \<Rightarrow> bool" where
  "tiling a [] b \<longleftrightarrow> a = b"
| "tiling a ((x, n, f) # ts) b \<longleftrightarrow> x = a \<and> 24 \<le> n \<and> tiling (a + int n) ts b"

fun frees :: "tile list \<Rightarrow> int list" where
  "frees [] = []"
| "frees ((x, n, f) # ts) = (if f then x # frees ts else frees ts)"

text \<open>A segment of the free list through the blocks \<open>xs\<close>, from \<open>p\<close> to \<open>q\<close>.\<close>

fun linked :: "mem \<Rightarrow> int \<Rightarrow> int list \<Rightarrow> int \<Rightarrow> bool" where
  "linked m p [] q \<longleftrightarrow> p = q"
| "linked m p (x # xs) q \<longleftrightarrow> p = x \<and> linked m (uint (load64 m (x + 8))) xs q"

text \<open>No two neighbours are both free.\<close>

fun coalesced :: "tile list \<Rightarrow> bool" where
  "coalesced ((x, n, f) # (y, k, g) # ts) \<longleftrightarrow> \<not> (f \<and> g) \<and> coalesced ((y, k, g) # ts)"
| "coalesced _ \<longleftrightarrow> True"

definition headers :: "mem \<Rightarrow> tile list \<Rightarrow> bool" where
  "headers m ts \<longleftrightarrow> (\<forall>(x, n, f) \<in> set ts. load64 m x = of_nat n)"

definition heap_tiles :: "int \<Rightarrow> heap_state \<Rightarrow> tile list \<Rightarrow> bool" where
  "heap_tiles H st ts \<longleftrightarrow> 0 < H \<and> H + HEAP_SIZE < 2 ^ 64 \<and> tiling H ts (H + HEAP_SIZE) \<and>
     headers (hmem st) ts \<and> linked (hmem st) (free_list st) (frees ts) 0"

definition heap_rep :: "int \<Rightarrow> heap_state \<Rightarrow> tile list \<Rightarrow> bool" where
  "heap_rep H st ts \<longleftrightarrow> heap_tiles H st ts \<and> coalesced ts"

subsection \<open>Tilings\<close>

lemma tiling_append: "tiling a (ts @ us) c \<longleftrightarrow> (\<exists>b. tiling a ts b \<and> tiling b us c)"
  by (induction a ts c rule: tiling.induct) auto

lemma tiling_length: "tiling a ts b \<Longrightarrow> a + 24 * int (length ts) \<le> b"
  by (induction a ts b rule: tiling.induct) auto

lemma tiling_mem: "tiling a ts b \<Longrightarrow> (x, n, f) \<in> set ts \<Longrightarrow> a \<le> x \<and> 24 \<le> n \<and> x + int n \<le> b"
proof (induction a ts b rule: tiling.induct)
  case (2 a y k g ts b)
  then show ?case using tiling_length [of "a + int k" ts b] by auto
qed simp

lemma tiling_apart:
  assumes "tiling a (ts @ (x, n, f) # us) b" and "(y, k, g) \<in> set ts \<union> set us"
  shows "y + int k \<le> x \<or> x + int n \<le> y"
proof -
  have "tiling a ts x" "tiling (x + int n) us b" using assms(1) by (auto simp: tiling_append)
  then show ?thesis using assms(2) tiling_mem by auto
qed

lemma frees_append [simp]: "frees (ts @ us) = frees ts @ frees us"
  by (induction ts rule: frees.induct) auto

lemma frees_mem: "x \<in> set (frees ts) \<longleftrightarrow> (\<exists>n. (x, n, True) \<in> set ts)"
  by (induction ts rule: frees.induct) auto

lemma length_frees: "length (frees ts) \<le> length ts"
  by (induction ts rule: frees.induct) auto

lemma frees_sorted: "tiling a ts b \<Longrightarrow> sorted_wrt (\<lambda>x y. x + 24 \<le> y) (frees ts)"
proof (induction a ts b rule: tiling.induct)
  case (2 a x n f ts b)
  then show ?case using tiling_mem [of "a + int n" ts b] by (fastforce simp: frees_mem)
qed simp

subsection \<open>Links\<close>

lemma linked_append: "linked m p (xs @ ys) q \<longleftrightarrow> (\<exists>r. linked m p xs r \<and> linked m r ys q)"
  by (induction xs arbitrary: p) auto

lemma linked_frame:
  "\<forall>x \<in> set xs. load64 m' (x + 8) = load64 m (x + 8) \<Longrightarrow> linked m' p xs q = linked m p xs q"
  by (induction xs arbitrary: p) auto

text \<open>The link out of the last block of a segment.\<close>

lemma linked_set_last:
  assumes "linked m p xs q" and "xs \<noteq> []" and "sorted_wrt (\<lambda>x y. x + 24 \<le> y) xs" and "0 \<le> r" and "r < 2 ^ 64"
  shows "linked (store64 m (last xs + 8) (word_of_int r)) p xs r"
  using assms
proof (induction xs arbitrary: p)
  case (Cons x xs)
  have r: "uint (word_of_int r :: u64) = r"
    using Cons.prems(4,5) by (simp add: uint_word_of_int)
  show ?case
  proof (cases "xs = []")
    case False
    then have "x + 24 \<le> last xs" using Cons.prems(3) by simp
    then have "load64 (store64 m (last xs + 8) (word_of_int r)) (x + 8) = load64 m (x + 8)" by simp
    then show ?thesis using Cons False by simp
  qed (use Cons.prems r in simp)
qed simp

lemma coalesced_append:
  "coalesced (ts @ us) \<longleftrightarrow> coalesced ts \<and> coalesced us \<and>
    (ts \<noteq> [] \<and> us \<noteq> [] \<longrightarrow> \<not> (snd (snd (last ts)) \<and> snd (snd (hd us))))"
proof (induction ts)
  case (Cons a ts)
  then show ?case by (cases a; cases ts; cases us rule: coalesced.cases) auto
qed simp

section \<open>Allocation\<close>

text \<open>
  First fit: \<open>r\<close> is the rounded size. A free tile with at least 24 bytes left over is split and the
  upper part taken.
\<close>

fun tile_malloc :: "nat \<Rightarrow> tile list \<Rightarrow> (int \<times> tile list) option" where
  "tile_malloc r [] = None"
| "tile_malloc r ((x, n, f) # ts) =
     (if f \<and> r + 32 \<le> n then
        let y = x + int (n - (r + 8)) in Some (y + 8, (x, n - (r + 8), True) # (y, r + 8, False) # ts)
      else if f \<and> r + 8 \<le> n then Some (x + 8, (x, n, False) # ts)
      else map_option (\<lambda>(p, us). (p, (x, n, f) # us)) (tile_malloc r ts))"

definition round_size :: "nat \<Rightarrow> nat" where
  "round_size n = 4 * ((max 16 n + 3) div 4)"

lemma unat_and_not_3: "unat ((s :: u64) AND NOT 3) = unat s - unat s mod 4"
proof -
  have e: "Suc (Suc (n - 2)) = n" if "2 \<le> n" for n using that by simp
  have "s AND NOT (mask 2) = push_bit 2 (drop_bit 2 s)" 
    by (rule bit_word_eqI) (auto simp: bit_simps e not_less)
  then have "s AND NOT 3 = s - s mod 4"
    using bits_ident [of 2 s] by (simp add: mask_eq_exp_minus_1 take_bit_eq_mod algebra_simps)
  then show ?thesis by (simp add: unat_sub word_le_nat_alt unat_mod_distrib)
qed

lemma round_word:
  assumes b: "unat (s :: u64) < 2 ^ 63"
  shows "unat (if s mod 4 \<noteq> 0 then (s AND NOT 3) + 4 else s) = 4 * ((unat s + 3) div 4)"
proof -
  have z: "s mod 4 = 0 \<longleftrightarrow> unat s mod 4 = 0"
    using unat_eq_zero [of "s mod 4"] by (simp add: unat_mod_distrib)
  show ?thesis
  proof (cases "s mod 4 = 0")
    case True
    then have "unat s = 4 * ((unat s + 3) div 4)" unfolding z by presburger
    then show ?thesis using True by simp
  next
    case False
    have "unat (s AND NOT 3) + unat (4 :: u64) < 2 ^ 64" unfolding unat_and_not_3 using b by simp
    then have "unat ((s AND NOT 3) + 4) = unat s - unat s mod 4 + 4"
      using unat_add_lem [of "s AND NOT 3" 4] unfolding unat_and_not_3 by simp
    moreover have "unat s - unat s mod 4 + 4 = 4 * ((unat s + 3) div 4)" using False unfolding z by presburger
    ultimately show ?thesis using False by simp
  qed
qed

lemma malloc_size_eq:
  assumes "unat sz < 2 ^ 63"
  shows "unat (malloc_size sz) = round_size (unat sz)"
proof -
  have s: "unat (max 16 sz) = max 16 (unat sz)" by (simp add: max_def word_le_nat_alt)
  show ?thesis using round_word [of "max 16 sz"] assms unfolding s malloc_size_def round_size_def Let_def by simp
qed

lemma ucast_word_of_int: "(ucast (word_of_int x :: u64) :: u32) = word_of_int x"
  by (rule bit_word_eqI) (simp add: bit_simps)

lemma split_test:
  assumes "n \<le> 256" and "unat s \<le> 2147480000"
  shows "sint (ucast (of_nat n - s - 8 :: u64) :: u32) \<ge> sint (ucast (16 + 8 :: u64) :: u32) \<longleftrightarrow> unat s + 32 \<le> n"
proof -
  have "of_nat n - s - 8 = (word_of_int (int n - int (unat s) - 8) :: u64)"
    by simp
  then have "ucast (of_nat n - s - 8 :: u64) = (word_of_int (int n - int (unat s) - 8) :: u32)"
    by (simp only: ucast_word_of_int)
  moreover have "sint (word_of_int (int n - int (unat s) - 8) :: u32) = int n - int (unat s) - 8"
  proof -
    have "int n \<le> 256" "int (unat s) \<le> 2147480000" "(2 :: int) ^ 31 = 2147483648"
      using assms(1) of_nat_mono [OF assms(2), where 'a = int] by (simp_all only: of_nat_numeral) simp_all
    then have "- (2 ^ 31) \<le> int n - int (unat s) - 8" "int n - int (unat s) - 8 < 2 ^ 31" by linarith+
    from c_int_id [OF this] show ?thesis by (simp only: c_int_def)
  qed
  ultimately have e: "sint (ucast (of_nat n - s - 8 :: u64) :: u32) = int n - int (unat s) - 8" by (simp only:)
  have f: "sint (ucast (16 + 8 :: u64) :: u32) = 24" by simp
  show ?thesis unfolding e f by linarith
qed

lemma fit_test: "n \<le> 256 \<Longrightarrow> unat s \<le> 2147480000 \<Longrightarrow> s + 8 \<le> (of_nat n :: u64) \<longleftrightarrow> unat s + 8 \<le> n"
proof -
  assume n: "n \<le> 256" "unat s \<le> 2147480000"
  have u: "unat (s + 8) = unat s + 8"
    using n(2) by (subst unat_add_lem [THEN iffD1]) auto
  have v: "unat (of_nat n :: u64) = n" using n(1) by (simp add: unat_of_nat)
  show ?thesis unfolding word_le_nat_alt u v ..
qed

text \<open>Blocks that are too small are passed over.\<close>

lemma malloc_loop_skip:
  assumes "linked (hmem st) p xs q" and "0 \<notin> set xs" and "unat s \<le> 2147480000"
    and "\<forall>x \<in> set xs. \<exists>n. block_size st x = of_nat n \<and> n < unat s + 8 \<and> n \<le> 256"
  shows "malloc_loop (length xs + k) s p prev st = malloc_loop k s q (if xs = [] then prev else Some (last xs)) st"
  using assms
proof (induction xs arbitrary: p prev)
  case (Cons x xs)
  then obtain n where n: "block_size st x = of_nat n" "n < unat s + 8" "n \<le> 256" by auto
  have "malloc_loop (length xs + k) s (block_next st x) (Some x) st =
      malloc_loop k s q (if xs = [] then Some x else Some (last xs)) st"
    using Cons by (intro Cons.IH) (auto simp: block_next_def)
  then show ?case using Cons.prems n split_test [OF n(3) Cons.prems(3)] fit_test [OF n(3) Cons.prems(3)]
    by (auto simp: block_next_def)
qed simp

text \<open>What taking a tile does to the memory: a split, and the removal from the list.\<close>

lemma heap_tilesD:
  assumes "heap_tiles H st (pre @ (x, n, f) # post)"
  shows "tiling H pre x" and "24 \<le> n" and "tiling (x + int n) post (H + 256)" and "block_size st x = of_nat n"
    and "0 < x" and "n \<le> 256" and "x + int n < 2 ^ 64"
proof -
  have c: "tiling H (pre @ (x, n, f) # post) (H + 256)" and H: "0 < H" "H + 256 < 2 ^ 64"
    using assms by (simp_all add: heap_tiles_def)
  then show "tiling H pre x" "24 \<le> n" "tiling (x + int n) post (H + 256)" by (auto simp: tiling_append)
  have "H \<le> x" "x + int n \<le> H + 256" using tiling_mem [OF c, of x n f] by auto
  then show "0 < x" "n \<le> 256" "x + int n < 2 ^ 64" using H by linarith+
  show "block_size st x = of_nat n" using assms by (simp add: heap_tiles_def headers_def block_size_def)
qed

text \<open>A write inside one tile leaves the headers and the links of the other tiles alone.\<close>

lemma tile_apart:
  assumes "tiling a (pre @ (x, n, f) # post) b" and "(z, j, g) \<in> set (pre @ post)" and "x \<le> w" and "w + 8 \<le> x + int n"
  shows "w + 8 \<le> z \<or> z + 24 \<le> w"
  using tiling_apart [OF assms(1), of z j g] tiling_mem [OF assms(1), of z j g] assms(2-4) by auto

lemma headers_write:
  assumes "tiling a (pre @ (x, n, f) # post) b" and "x \<le> w" and "w + 8 \<le> x + int n" and "headers m (pre @ post)"
  shows "headers (store64 m w v) (pre @ post)"
  using assms(4) tile_apart [OF assms(1) _ assms(2,3)] by (fastforce simp: headers_def)

lemma linked_write:
  assumes "tiling a (pre @ (x, n, f) # post) b" and "x \<le> w" and "w + 8 \<le> x + int n"
    and "set xs \<subseteq> insert x (set (frees (pre @ post)))" and "x \<in> set xs \<Longrightarrow> w \<le> x \<or> x + 16 \<le> w" and "linked m p xs q"
  shows "linked (store64 m w v) p xs q"
proof -
  have "w + 8 \<le> y + 8 \<or> y + 8 + 8 \<le> w" if "y \<in> set xs" for y
  proof (cases "y = x")
    case False
    then have "y \<in> set (frees (pre @ post))" using that assms(4) by blast
    then obtain j where "(y, j, True) \<in> set (pre @ post)" unfolding frees_mem by blast
    from tile_apart [OF assms(1) this assms(2,3)] show ?thesis by auto
  qed (use assms(5) that in auto)
  then show ?thesis using assms(6) linked_frame [of xs "store64 m w v" m p q] by auto
qed

lemma split_tile:
  assumes rep: "heap_tiles H st (pre @ (x, n, True) # post)" and n': "24 \<le> n'" and k: "24 \<le> k" and n: "n = n' + k"
  shows "heap_tiles H (set_block_size (x + int n') (of_nat k) (set_block_size x (of_nat n') st))
    (pre @ (x, n', True) # (x + int n', k, False) # post)"
proof -
  let ?ts = "pre @ (x, n, True) # post" and ?y = "x + int n'"
  let ?m = "store64 (store64 (hmem st) x (of_nat n')) ?y (of_nat k)"
  have c: "tiling H ?ts (H + 256)" and h: "headers (hmem st) (pre @ post)" and l: "linked (hmem st) (free_list st) (frees ?ts) 0"
    using rep by (auto simp: heap_tiles_def headers_def)
  have b: "x \<le> ?y" "x + 8 \<le> x + int n" "?y + 8 \<le> x + int n" using n' k n by auto
  have "headers ?m (pre @ post)" by (intro headers_write [OF c] h) (use b in auto)
  moreover have "load64 ?m x = of_nat n'" "load64 ?m ?y = of_nat k" using n' by simp_all
  ultimately have "headers ?m (pre @ (x, n', True) # (?y, k, False) # post)" by (auto simp: headers_def)
  moreover have "linked ?m (free_list st) (frees ?ts) 0"
    by (intro linked_write [OF c] l) (use b n' in auto)
  ultimately show ?thesis using rep n' k n
    by (auto simp: heap_tiles_def tiling_append set_block_size_def add.assoc)
qed

text \<open>Taking a whole block out of the list. \<open>last_link as\<close> is the link that leads to the next block.\<close>

definition last_link :: "int list \<Rightarrow> int option" where
  "last_link as = (if as = [] then None else Some (last as))"

lemma set_link_linked:
  assumes "linked (hmem st) (free_list st) as r" and "sorted_wrt (\<lambda>x y. x + 24 \<le> y) as" and "0 \<le> q" and "q < 2 ^ 64"
  shows "linked (hmem (set_link (last_link as) q st)) (free_list (set_link (last_link as) q st)) as q"
  using linked_set_last [OF assms(1) _ assms(2-4)] assms(1)
  by (auto simp: set_link_def last_link_def set_block_next_def)

lemma last_free_tile: "frees pre \<noteq> [] \<Longrightarrow> \<exists>p1 n p2. pre = p1 @ (last (frees pre), n, True) # p2 \<and> frees p2 = []"
proof (induction pre rule: rev_induct)
  case (snoc t pre)
  obtain x n f where t: "t = (x, n, f)" by (cases t)
  show ?case
  proof (cases f)
    case True
    then show ?thesis using t by (intro exI [of _ pre] exI [of _ n] exI [of _ "[]"]) simp
  next
    case False
    then have "frees pre \<noteq> []" using snoc.prems t by simp
    then obtain p1 k p2 where "pre = p1 @ (last (frees pre), k, True) # p2" "frees p2 = []" using snoc.IH by blast
    then show ?thesis using t False by (intro exI [of _ p1] exI [of _ k] exI [of _ "p2 @ [t]"]) simp
  qed
qed simp

lemma set_link_frame_all:
  assumes "tiling a (pre @ us) b"
  shows "(headers (hmem st) (pre @ us) \<longrightarrow> headers (hmem (set_link (last_link (frees pre)) q st)) (pre @ us)) \<and>
    (linked (hmem st) p (frees us) r \<longrightarrow> linked (hmem (set_link (last_link (frees pre)) q st)) p (frees us) r) \<and>
    ((\<forall>(x, n, f) \<in> set pre. f \<longrightarrow> z < x \<or> x + int n \<le> z) \<longrightarrow>
      hmem (set_link (last_link (frees pre)) q st) z = hmem st z)"
proof (cases "frees pre = []")
  case False
  define x where "x = last (frees pre)"
  then have x: "last (frees pre) = x" by simp
  obtain p1 n p2 where p: "pre = p1 @ (x, n, True) # p2" using last_free_tile [OF False] x by auto
  have c: "tiling a (p1 @ (x, n, True) # (p2 @ us)) b" using assms by (simp add: p)
  have n: "24 \<le> n" using c by (auto simp: tiling_append)
  have m: "hmem (set_link (last_link (frees pre)) q st) = store64 (hmem st) (x + 8) (word_of_int q)"
    using False x by (simp add: set_link_def last_link_def set_block_next_def)
  have "headers (store64 (hmem st) (x + 8) (word_of_int q)) (pre @ us)" if "headers (hmem st) (pre @ us)"
  proof -
    have "headers (hmem st) (p1 @ p2 @ us)" "load64 (hmem st) x = of_nat n" using that p by (auto simp: headers_def)
    then have "headers (store64 (hmem st) (x + 8) (word_of_int q)) (p1 @ p2 @ us)"
      "load64 (store64 (hmem st) (x + 8) (word_of_int q)) x = of_nat n"
      using n by (auto intro!: headers_write [OF c])
    then show ?thesis by (simp add: p headers_def)
  qed
  moreover have "x \<notin> set (frees us)"
  proof
    assume "x \<in> set (frees us)"
    moreover have "x \<in> set (frees pre)" by (simp add: p)
    ultimately show False using frees_sorted [OF assms] by (fastforce simp: sorted_wrt_append)
  qed
  then have "linked (store64 (hmem st) (x + 8) (word_of_int q)) p (frees us) r" if "linked (hmem st) p (frees us) r"
    using that n by (intro linked_write [OF c]) auto
  moreover have "store64 (hmem st) (x + 8) (word_of_int q) z = hmem st z"
    if "\<forall>(x, n, f) \<in> set pre. f \<longrightarrow> z < x \<or> x + int n \<le> z"
  proof -
    have "(x, n, True) \<in> set pre" by (simp add: p)
    then have "z < x \<or> x + int n \<le> z" using that by fastforce
    then show ?thesis using n by auto
  qed
  ultimately show ?thesis unfolding m by blast
qed (simp add: set_link_def last_link_def)

lemmas set_link_frame = set_link_frame_all [THEN conjunct1, rule_format]
  set_link_frame_all [THEN conjunct2, THEN conjunct1, rule_format]
  set_link_frame_all [THEN conjunct2, THEN conjunct2, rule_format]

lemma take_tile:
  assumes rep: "heap_tiles H st (pre @ (x, n, True) # post)"
  shows "heap_tiles H (set_link (last_link (frees pre)) (block_next st x) st) (pre @ (x, n, False) # post)"
proof -
  let ?st = "set_link (last_link (frees pre)) (block_next st x) st" and ?us = "(x, n, False) # post"
  have c: "tiling H (pre @ ?us) (H + 256)" and h: "headers (hmem st) (pre @ ?us)"
    and l: "linked (hmem st) (free_list st) (frees pre) x" "linked (hmem st) (block_next st x) (frees ?us) 0"
    using rep by (auto simp: heap_tiles_def tiling_append headers_def linked_append block_next_def)
  have "sorted_wrt (\<lambda>x y. x + 24 \<le> y) (frees pre)" using frees_sorted [OF c] by (simp add: sorted_wrt_append)
  then have "linked (hmem ?st) (free_list ?st) (frees pre) (block_next st x)"
    by (intro set_link_linked [OF l(1)]) (simp_all add: block_next_def uint_lt2p [where 'a = 64, simplified])
  then have "linked (hmem ?st) (free_list ?st) (frees (pre @ ?us)) 0"
    using set_link_frame(2) [OF c l(2)] by (simp add: linked_append) blast
  then show ?thesis using rep c set_link_frame(1) [OF c h] by (simp add: heap_tiles_def)
qed

lemma tile_malloc_None: "tile_malloc r ts = None \<Longrightarrow> (x, n, True) \<in> set ts \<Longrightarrow> n < r + 8"
  by (induction r ts rule: tile_malloc.induct) (auto simp: Let_def split: if_splits)

text \<open>The split or the whole tile, and what is left in its place.\<close>

definition taken :: "nat \<Rightarrow> int \<Rightarrow> nat \<Rightarrow> tile list \<times> int" where
  "taken r x n =
     (if r + 32 \<le> n then let y = x + int (n - (r + 8)) in ([(x, n - (r + 8), True), (y, r + 8, False)], y + 8)
      else ([(x, n, False)], x + 8))"

lemma tile_malloc_Some:
  assumes "tile_malloc r ts = Some (q, us)"
  shows "\<exists>pre x n post. ts = pre @ (x, n, True) # post \<and> (\<forall>y k. (y, k, True) \<in> set pre \<longrightarrow> k < r + 8) \<and> r + 8 \<le> n \<and>
    us = pre @ fst (taken r x n) @ post \<and> q = snd (taken r x n)"
  using assms
proof (induction r ts arbitrary: us rule: tile_malloc.induct)
  case (2 r x n f ts)
  show ?case
  proof (cases "f \<and> r + 8 \<le> n")
    case True
    then show ?thesis using "2.prems"
      by (intro exI [of _ "[]"] exI [of _ x] exI [of _ n] exI [of _ ts]) (auto simp: taken_def Let_def split: if_splits)
  next
    case False
    then obtain us' where us': "tile_malloc r ts = Some (q, us')" "us = (x, n, f) # us'"
      using "2.prems" by (auto split: if_splits)
    then obtain pre y k post where "ts = pre @ (y, k, True) # post" "\<forall>z j. (z, j, True) \<in> set pre \<longrightarrow> j < r + 8"
        "r + 8 \<le> k" "us' = pre @ fst (taken r y k) @ post" "q = snd (taken r y k)"
      using 2 False by (auto split: if_splits)
    then show ?thesis using us'(2) False
      by (intro exI [of _ "(x, n, f) # pre"] exI [of _ y] exI [of _ k] exI [of _ post]) auto
  qed
qed simp

lemma coalesced_taken:
  "coalesced (pre @ (x, n, True) # post) \<Longrightarrow> coalesced (pre @ fst (taken r x n) @ post)"
  by (cases post) (auto simp: coalesced_append taken_def Let_def)

definition free_area :: "tile list \<Rightarrow> int set" where
  "free_area ts = (\<Union>(x, n, f) \<in> set ts. if f then {x..<x + int n} else {})"

lemma round_size_bounds: "16 \<le> round_size n" "n \<le> round_size n" "round_size n \<le> max 16 n + 3"
  by (auto simp: round_size_def)

lemma heap_tiles_list:
  assumes "heap_tiles H st ts"
  shows "0 \<notin> set (frees ts)" and "length (frees ts) \<le> 10"
    and "\<And>x. x \<in> set (frees ts) \<Longrightarrow> \<exists>n. (x, n, True) \<in> set ts \<and> block_size st x = of_nat n \<and> n \<le> 256"
proof -
  have c: "tiling H ts (H + 256)" "0 < H" using assms by (simp_all add: heap_tiles_def)
  show "0 \<notin> set (frees ts)" using tiling_mem [OF c(1)] c(2) by (fastforce simp: frees_mem)
  show "length (frees ts) \<le> 10" using tiling_length [OF c(1)] length_frees [of ts] by linarith
  fix x assume "x \<in> set (frees ts)"
  then obtain n where n: "(x, n, True) \<in> set ts" by (auto simp: frees_mem)
  moreover have "block_size st x = of_nat n" using assms n by (fastforce simp: heap_tiles_def headers_def block_size_def)
  moreover have "n \<le> 256" using tiling_mem [OF c(1) n] by auto
  ultimately show "\<exists>n. (x, n, True) \<in> set ts \<and> block_size st x = of_nat n \<and> n \<le> 256" by blast
qed

lemma small_blocks:
  assumes "heap_tiles H st (pre @ us)" and "\<And>y k. (y, k, True) \<in> set pre \<Longrightarrow> k < b"
  shows "\<forall>x \<in> set (frees pre). \<exists>n. block_size st x = of_nat n \<and> n < b \<and> n \<le> 256"
proof
  fix x assume "x \<in> set (frees pre)"
  then obtain n where n: "(x, n, True) \<in> set pre" by (auto simp: frees_mem)
  then have "block_size st x = of_nat n" using assms(1) by (fastforce simp: heap_tiles_def headers_def block_size_def)
  moreover have "n \<le> 256" using assms(1) n tiling_mem [of H "pre @ us" "H + 256" x n True] by (auto simp: heap_tiles_def)
  ultimately show "\<exists>n. block_size st x = of_nat n \<and> n < b \<and> n \<le> 256" using assms(2) [OF n] by blast
qed

text \<open>The loop on a list whose first block of sufficient size is \<open>x\<close>, and on one that has none.\<close>

lemma malloc_loop_none:
  assumes rep: "heap_tiles H st ts" and s: "unat s \<le> 2147480000" and none: "\<And>x n. (x, n, True) \<in> set ts \<Longrightarrow> n < unat s + 8"
  shows "malloc_loop 256 s (free_list st) None st = Inr (0, st)"
proof -
  note L = heap_tiles_list [OF rep]
  have "malloc_loop (length (frees ts) + Suc (255 - length (frees ts))) s (free_list st) None st = Inr (0, st)"
    using rep L(1) small_blocks [of H st ts "[]" "unat s + 8"] none
    by (subst malloc_loop_skip [OF _ _ s, where q = 0]) (auto simp: heap_tiles_def)
  then show ?thesis using L(2) by simp
qed

lemma malloc_loop_found:
  assumes rep: "heap_tiles H st (pre @ (x, n, True) # post)" and s: "unat s \<le> 2147480000" "unat s + 8 \<le> n"
    and small: "\<And>y k. (y, k, True) \<in> set pre \<Longrightarrow> k < unat s + 8"
  shows "malloc_loop 256 s (free_list st) None st =
    (if unat s + 32 \<le> n then
       let n' = n - (unat s + 8) in
       Inr (x + int n' + 8, set_block_size (x + int n') (of_nat (unat s + 8)) (set_block_size x (of_nat n') st))
     else Inr (x + 8, set_link (last_link (frees pre)) (block_next st x) st))"
proof -
  note L = heap_tiles_list [OF rep] and D = heap_tilesD [OF rep]
  let ?l = "length (frees pre)"
  have l: "linked (hmem st) (free_list st) (frees pre) x" using rep by (auto simp: heap_tiles_def linked_append)
  have "malloc_loop (?l + Suc (255 - ?l)) s (free_list st) None st =
      malloc_loop (Suc (255 - ?l)) s x (if frees pre = [] then None else Some (last (frees pre))) st"
    using L(1) small_blocks [OF rep small] by (intro malloc_loop_skip [OF l _ s(1)]) auto
  moreover have "?l + Suc (255 - ?l) = 256" using L(2) by simp
  ultimately have e: "malloc_loop 256 s (free_list st) None st = malloc_loop (Suc (255 - ?l)) s x (last_link (frees pre)) st"
    by (simp add: last_link_def)
  have sub: "of_nat n - (s + 8) = (of_nat (n - (unat s + 8)) :: u64)" using s(2) by (simp add: of_nat_diff)
  have u: "uint (of_nat (n - (unat s + 8)) :: u64) = int (n - (unat s + 8))"
    using D(6) by (simp add: uint_word_of_int unsigned_of_nat take_bit_nat_eq_self)
  have k: "s + 8 = of_nat (unat s + 8)" by simp
  have t1: "sint (ucast (block_size st x - s - 8) :: u32) \<ge> sint (ucast (16 + 8 :: u64) :: u32) \<longleftrightarrow> unat s + 32 \<le> n"
    unfolding D(4) by (rule split_test [OF D(6) s(1)])
  have t2: "s + 8 \<le> block_size st x" unfolding D(4) using fit_test [OF D(6) s(1)] s(2) by blast
  have x: "x \<noteq> 0" using D(5) by simp
  have b: "block_size (set_block_size x w st) x = w" for w by (simp add: block_size_def set_block_size_def)
  show ?thesis unfolding e malloc_loop.simps t1 Let_def b unfolding D(4) sub u k [symmetric] using t2 x D(4) by simp
qed

lemma free_area_simps [simp]:
  "free_area [] = {}" "free_area ((x, n, f) # ts) = (if f then {x..<x + int n} else {}) \<union> free_area ts"
  "free_area (ts @ us) = free_area ts \<union> free_area us"
  by (simp_all add: free_area_def)

lemma free_area_iff: "z \<notin> free_area ts \<longleftrightarrow> (\<forall>(x, n, f) \<in> set ts. f \<longrightarrow> z < x \<or> x + int n \<le> z)"
  by (induction ts rule: frees.induct) auto

lemma malloc_rep:
  assumes rep: "heap_rep H st ts" and sz: "sz \<noteq> 0" "unat sz \<le> 2147479000"
  shows "case tile_malloc (round_size (unat sz)) ts of
      None \<Rightarrow> malloc sz st = Inr (0, st)
    | Some (q, us) \<Rightarrow> \<exists>st'. malloc sz st = Inr (q, st') \<and> heap_rep H st' us \<and> (\<forall>z. z \<notin> free_area ts \<longrightarrow> hmem st' z = hmem st z)"
proof -
  define r where "r = round_size (unat sz)"
  define s where "s = malloc_size sz"
  have s: "unat s = r" "unat s \<le> 2147480000"
    using malloc_size_eq [of sz] sz(2) round_size_bounds(3) [of "unat sz"] by (simp_all add: r_def s_def)
  have m: "malloc sz st = malloc_loop 256 s (free_list st) None st" using sz(1) by (simp add: malloc_def s_def)
  have t: "heap_tiles H st ts" "coalesced ts" using rep by (simp_all add: heap_rep_def)
  show ?thesis
  proof (cases "tile_malloc r ts")
    case None
    then show ?thesis using malloc_loop_none [OF t(1) s(2)] tile_malloc_None [OF None] s(1) m r_def by auto
  next
    case (Some pair)
    obtain q us where qu: "tile_malloc r ts = Some (q, us)" using Some by (cases pair) auto
    obtain pre x n post where p: "ts = pre @ (x, n, True) # post" "\<And>y k. (y, k, True) \<in> set pre \<Longrightarrow> k < r + 8"
        "r + 8 \<le> n" "us = pre @ fst (taken r x n) @ post" "q = snd (taken r x n)"
      using tile_malloc_Some [OF qu] by blast
    have rp: "heap_tiles H st (pre @ (x, n, True) # post)" using t(1) p(1) by simp
    note found = malloc_loop_found [OF rp s(2)] and c = coalesced_taken [of pre x n post r]
    show ?thesis
    proof (cases "r + 32 \<le> n")
      case True
      let ?n = "n - (r + 8)"
      let ?st = "set_block_size (x + int ?n) (of_nat (r + 8)) (set_block_size x (of_nat ?n) st)"
      have "malloc sz st = Inr (q, ?st)" using found p(2,3,5) s(1) m True by (simp add: taken_def Let_def)
      moreover have "heap_tiles H ?st us" using split_tile [OF rp, of ?n "r + 8"] p(4) True round_size_bounds(1) [of "unat sz"]
        by (simp add: taken_def Let_def r_def)
      moreover have "hmem ?st z = hmem st z" if "z \<notin> free_area ts" for z
      proof -
        have "z < x \<or> x + int n \<le> z" using that p(1) by (auto simp: free_area_iff)
        then show ?thesis using True by (auto simp: set_block_size_def)
      qed
      ultimately show ?thesis using c t(2) p(1,4) qu r_def by (auto simp: heap_rep_def)
    next
      case False
      let ?st = "set_link (last_link (frees pre)) (block_next st x) st"
      have "malloc sz st = Inr (q, ?st)" using found p(2,3,5) s(1) m False by (simp add: taken_def)
      moreover have "heap_tiles H ?st us" using take_tile [OF rp] p(4) False by (simp add: taken_def)
      moreover have "hmem ?st z = hmem st z" if "z \<notin> free_area ts" for z
        using that rp p(1) by (intro set_link_frame(3) [where us = "(x, n, True) # post"]) (auto simp: heap_tiles_def free_area_iff)
      ultimately show ?thesis using c t(2) p(1,4) qu r_def by (auto simp: heap_rep_def)
    qed
  qed
qed

section \<open>Release\<close>

text \<open>The block becomes free, and neighbouring free blocks become one.\<close>

fun coalesce :: "tile list \<Rightarrow> tile list" where
  "coalesce ((x, n, True) # (y, k, True) # ts) = coalesce ((x, n + k, True) # ts)"
| "coalesce (t # ts) = t # coalesce ts"
| "coalesce [] = []"

definition tile_free :: "int \<Rightarrow> tile list \<Rightarrow> tile list" where
  "tile_free x ts = coalesce (map (\<lambda>(y, n, f). (y, n, f \<or> y = x)) ts)"

lemma coalesced_Cons:
  "coalesced (t # ts) \<longleftrightarrow> (ts \<noteq> [] \<longrightarrow> \<not> (snd (snd t) \<and> snd (snd (hd ts)))) \<and> coalesced ts"
  by (cases t; cases ts) auto

lemma coalesce_Cons: "ts \<noteq> [] \<longrightarrow> \<not> (snd (snd t) \<and> snd (snd (hd ts))) \<Longrightarrow> coalesce (t # ts) = t # coalesce ts"
  by (cases t; cases ts) auto

lemma coalesce_id: "coalesced ts \<Longrightarrow> coalesce ts = ts"
  by (induction ts) (simp_all add: coalesced_Cons coalesce_Cons)

lemma coalesce_append: "coalesced (p @ [t]) \<Longrightarrow> coalesce (p @ t # us) = p @ coalesce (t # us)"
proof (induction p)
  case (Cons a p)
  moreover have "hd (p @ [t]) = hd (p @ t # us)" by (cases p) auto
  ultimately show ?case by (simp add: coalesced_Cons coalesce_Cons)
qed simp

lemma free_loop_skip:
  assumes "linked (hmem st) p xs q" and "0 \<notin> set xs" and "\<forall>x \<in> set xs. x \<le> block"
  shows "free_loop (length xs + k) block p prev st = free_loop k block q (if xs = [] then prev else last xs) st"
  using assms
proof (induction xs arbitrary: p prev)
  case (Cons x xs)
  then have "free_loop (length xs + k) block (block_next st x) x st =
      free_loop k block q (if xs = [] then x else last xs) st"
    by (intro Cons.IH) (auto simp: block_next_def)
  then show ?case using Cons.prems by (auto simp: block_next_def)
qed simp

lemma insert_tile:
  assumes rep: "heap_tiles H st (pre @ (x, n, False) # post)" and q: "linked (hmem st) (free_list st) (frees pre) q"
    and q': "linked (hmem st) q (frees post) 0" and b: "0 \<le> q" "q < 2 ^ 64"
  shows "heap_tiles H (set_block_next x q (set_link (last_link (frees pre)) x st)) (pre @ (x, n, True) # post)"
proof -
  let ?st = "set_link (last_link (frees pre)) x st" and ?us = "(x, n, False) # post"
  note D = heap_tilesD [OF rep]
  have c: "tiling H (pre @ ?us) (H + 256)" and h: "headers (hmem st) (pre @ ?us)"
    using rep by (simp_all add: heap_tiles_def)
  have "sorted_wrt (\<lambda>x y. x + 24 \<le> y) (frees pre)" using frees_sorted [OF c] by (simp add: sorted_wrt_append)
  then have l: "linked (hmem ?st) (free_list ?st) (frees pre) x"
    using D(5,7) by (intro set_link_linked [OF q]) auto
  have l': "linked (hmem ?st) q (frees post) 0" using set_link_frame(2) [OF c, of st q 0 x] q' by simp
  have h': "headers (hmem ?st) (pre @ ?us)" by (rule set_link_frame(1) [OF c h])
  let ?m = "store64 (hmem ?st) (x + 8) (word_of_int q)"
  have x: "x \<notin> set (frees (pre @ post))"
  proof
    assume "x \<in> set (frees (pre @ post))"
    then obtain j where "(x, j, True) \<in> set (pre @ post)" unfolding frees_mem by blast
    then show False using tiling_apart [OF c, of x j True] tiling_mem [OF c, of x j True] D(2) by auto
  qed
  have "linked ?m (free_list ?st) (frees pre) x" "linked ?m q (frees post) 0"
    using x D(2) by (auto intro!: linked_write [OF c] l l')
  moreover have "uint (load64 ?m (x + 8)) = q" using b by (simp add: uint_word_of_int)
  ultimately have "linked ?m (free_list ?st) (frees (pre @ (x, n, True) # post)) 0" by (auto simp: linked_append)
  moreover have "headers ?m (pre @ (x, n, True) # post)"
  proof -
    have "headers ?m (pre @ post)" using h' D(2) by (intro headers_write [OF c]) (auto simp: headers_def)
    moreover have "load64 ?m x = of_nat n" using h' by (auto simp: headers_def)
    ultimately show ?thesis by (auto simp: headers_def)
  qed
  ultimately show ?thesis using rep by (auto simp: heap_tiles_def tiling_append set_block_next_def)
qed

lemma merge_tiles:
  assumes rep: "heap_tiles H st (pre @ (y, k, True) # (x, n, True) # post)"
  shows "heap_tiles H (set_block_next y (block_next st x) (set_block_size y (of_nat (k + n)) st)) (pre @ (y, k + n, True) # post)"
proof -
  have c: "tiling H (pre @ (y, k + n, True) # post) (H + 256)" and b: "24 \<le> k" "24 \<le> n"
    using rep by (auto simp: heap_tiles_def tiling_append add.assoc)
  have h: "headers (hmem st) (pre @ post)" and l: "linked (hmem st) (free_list st) (frees pre) y"
      "linked (hmem st) (block_next st x) (frees post) 0"
    using rep by (auto simp: heap_tiles_def headers_def linked_append block_next_def)
  let ?m = "store64 (store64 (hmem st) y (of_nat (k + n))) (y + 8) (word_of_int (block_next st x))"
  have y: "y \<notin> set (frees (pre @ post))"
  proof
    assume "y \<in> set (frees (pre @ post))"
    then obtain j where "(y, j, True) \<in> set (pre @ post)" unfolding frees_mem by blast
    then show False using tiling_apart [OF c, of y j True] tiling_mem [OF c, of y j True] b by auto
  qed
  have "headers ?m (pre @ post)" using b by (intro headers_write [OF c] h) auto
  then have "headers ?m (pre @ (y, k + n, True) # post)" by (auto simp: headers_def)
  moreover have "linked ?m (free_list st) (frees pre) y" "linked ?m (block_next st x) (frees post) 0"
    using y b by (auto intro!: linked_write [OF c] l)
  moreover have "uint (load64 ?m (y + 8)) = block_next st x" by (simp add: block_next_def)
  ultimately show ?thesis using rep c
    by (auto simp: heap_tiles_def linked_append set_block_next_def set_block_size_def)
qed

lemma word_eq_nat: "0 \<le> a \<Longrightarrow> a < 2 ^ 64 \<Longrightarrow> b < 2 ^ 64 \<Longrightarrow> (word_of_int a :: u64) = of_nat b \<longleftrightarrow> a = int b"
proof -
  assume "0 \<le> a" "a < 2 ^ 64" "b < 2 ^ 64"
  then have "uint (word_of_int a :: u64) = a" "uint (of_nat b :: u64) = int b"
    by (simp_all add: uint_word_of_int unsigned_of_nat take_bit_nat_eq_self)
  then show ?thesis by (metis word_of_int_uint word_uint_eq_iff)
qed

lemma merge_prev_rep:
  assumes rep: "heap_tiles H st (pre @ (x, n, True) # post)" and prev: "prev = (if frees pre = [] then 0 else last (frees pre))"
    and cur: "cur = block_next st x" and ok: "coalesced pre"
  shows "\<exists>b st' p k. merge_prev x cur prev st = (b, st') \<and> heap_tiles H st' (p @ (b, k, True) # post) \<and>
    block_next st' b = cur \<and> coalesced (p @ [(b, k, True)]) \<and>
    coalesce (pre @ (x, n, True) # post) = p @ coalesce ((b, k, True) # post) \<and>
    (\<forall>z. z \<notin> free_area (pre @ (x, n, True) # post) \<longrightarrow> hmem st' z = hmem st z) \<and>
    free_area (pre @ (x, n, True) # post) = free_area (p @ (b, k, True) # post)"
proof (cases "\<exists>p y k. pre = p @ [(y, k, True)]")
  case True
  then obtain p y k where p: "pre = p @ [(y, k, True)]" by blast
  have rep': "heap_tiles H st (p @ (y, k, True) # (x, n, True) # post)" using rep p by simp
  note D = heap_tilesD [OF rep'] and E = heap_tilesD [OF rep]
  let ?st = "set_block_next y cur (set_block_size y (of_nat (k + n)) st)"
  have y: "prev = y" "x = y + int k" "y \<noteq> 0" using p prev D(3,5) by auto
  have "merge_prev x cur prev st = (y, ?st)"
    using y D(4) E(4) by (simp add: merge_prev_def add.commute)
  moreover have "heap_tiles H ?st (p @ (y, k + n, True) # post)" using merge_tiles [OF rep'] cur by simp
  moreover have "block_next ?st y = cur" using cur by (simp add: block_next_def set_block_next_def)
  moreover have "coalesced (p @ [(y, k + n, True)])" using ok p by (auto simp: coalesced_append)
  moreover have "coalesce (pre @ (x, n, True) # post) = p @ coalesce ((y, k + n, True) # post)"
    using ok p coalesce_append [of p "(y, k, True)" "(x, n, True) # post"] by simp
  moreover have "hmem ?st z = hmem st z" if "z \<notin> free_area (pre @ (x, n, True) # post)" for z
    using that p D(2) by (auto simp: set_block_next_def set_block_size_def)
  moreover have "free_area (pre @ (x, n, True) # post) = free_area (p @ (y, k + n, True) # post)"
    unfolding p using y(2) by auto
  ultimately show ?thesis by blast
next
  case False
  have "merge_prev x cur prev st = (x, st)"
  proof (cases "frees pre = []")
    case True
    then show ?thesis using prev by (simp add: merge_prev_def)
  next
    case nonempty: False
    have c: "tiling H pre x" "x < 2 ^ 64" "0 < H" using heap_tilesD [OF rep] rep by (auto simp: heap_tiles_def)
    obtain p y k where p: "pre = p @ [(y, k, False)]" using False nonempty by (cases pre rule: rev_cases) auto
    then have y: "tiling H p y" "x = y + int k" "24 \<le> k" using c(1) by (auto simp: tiling_append)
    have "prev \<in> set (frees p)" using prev nonempty p by simp
    then obtain j where j: "(prev, j, True) \<in> set p" by (auto simp: frees_mem)
    have m: "H \<le> prev" "prev + int j \<le> y" using tiling_mem [OF y(1) j] by auto
    then have lt: "int j < x - prev" "x - prev < 2 ^ 64" using y(2,3) c(2,3) by linarith+
    have "block_size st prev = of_nat j" using rep j p by (fastforce simp: heap_tiles_def headers_def block_size_def)
    moreover have "(word_of_int (x - prev) :: u64) \<noteq> of_nat j"
      using word_eq_nat [of "x - prev" j] lt by (simp add: nat_less_iff [symmetric])
    ultimately show ?thesis by (simp add: merge_prev_def)
  qed
  moreover have "coalesced (pre @ [(x, n, True)])" using ok False
    by (cases pre rule: rev_cases) (auto simp: coalesced_append)
  ultimately show ?thesis using rep cur coalesce_append [of pre "(x, n, True)" post] by blast
qed

lemma merge_next_rep:
  assumes rep: "heap_tiles H st (p @ (b, k, True) # post)" and cur: "cur = block_next st b" and ok: "coalesced (p @ [(b, k, True)])" "coalesced post"
  shows "heap_tiles H (merge_next b cur st) (p @ coalesce ((b, k, True) # post)) \<and>
    coalesced (p @ coalesce ((b, k, True) # post)) \<and>
    (\<forall>z. z \<notin> free_area (p @ (b, k, True) # post) \<longrightarrow> hmem (merge_next b cur st) z = hmem st z)"
proof -
  note D = heap_tilesD [OF rep]
  have l: "linked (hmem st) cur (frees post) 0" using rep cur by (auto simp: heap_tiles_def linked_append block_next_def)
  show ?thesis
  proof (cases "\<exists>c j us. post = (c, j, True) # us")
    case True
    then obtain c j us where post: "post = (c, j, True) # us" by blast
    have rep': "heap_tiles H st (p @ (b, k, True) # (c, j, True) # us)" using rep post by simp
    have "heap_tiles H st ((p @ [(b, k, True)]) @ (c, j, True) # us)" using rep' by simp
    note E = heap_tilesD [OF this]
    have c: "cur = c" "c = b + int k" "c \<noteq> 0" using l post D(3) E(5) by auto
    let ?st = "set_block_next b (block_next st c) (set_block_size b (of_nat (k + j)) st)"
    have nx: "block_next (set_block_size b w st) (b + int k) = block_next st (b + int k)" for w
      using D(2) by (simp add: block_next_def set_block_size_def)
    have "merge_next b cur st = ?st" using c D(4) E(4) by (simp add: merge_next_def Let_def nx)
    moreover have "heap_tiles H ?st (p @ (b, k + j, True) # us)" by (rule merge_tiles [OF rep'])
    moreover have "coalesced ((b, k + j, True) # us)" using ok(2) post by (auto simp: coalesced_Cons)
    moreover have "hmem ?st z = hmem st z" if "z \<notin> free_area (p @ (b, k, True) # post)" for z
      using that D(2) by (auto simp: set_block_next_def set_block_size_def)
    ultimately show ?thesis using ok(1) post coalesce_id [of "(b, k + j, True) # us"] by (auto simp: coalesced_append)
  next
    case False
    have "merge_next b cur st = st"
    proof (cases "frees post = []")
      case True
      then show ?thesis using l by (simp add: merge_next_def)
    next
      case nonempty: False
      obtain c j us where post: "post = (c, j, False) # us" using False nonempty by (cases post) auto
      then have y: "c = b + int k" "tiling (c + int j) us (H + 256)" "24 \<le> j" using D(3) by auto
      have "cur \<in> set (frees us)" using l nonempty post by (cases "frees us") auto
      then obtain i where i: "(cur, i, True) \<in> set us" by (auto simp: frees_mem)
      have m: "c + int j \<le> cur" "cur + int i \<le> H + 256" using tiling_mem [OF y(2) i] by auto
      have "H + 256 < 2 ^ 64" using rep by (simp add: heap_tiles_def)
      then have "int k < cur - b" "cur - b < 2 ^ 64" using m y(1,3) D(5) by linarith+
      then have "(word_of_int (cur - b) :: u64) \<noteq> of_nat k"
        using word_eq_nat [of "cur - b" k] by (simp add: nat_less_iff [symmetric])
      then show ?thesis using D(4) by (simp add: merge_next_def)
    qed
    moreover have "coalesced ((b, k, True) # post)" using ok(2) False
      by (cases post) (auto simp: coalesced_Cons)
    ultimately show ?thesis using rep ok coalesce_id [of "(b, k, True) # post"] by (auto simp: coalesced_append)
  qed
qed

lemma free_rep:
  assumes rep: "heap_rep H st ts" and x: "(x, n, False) \<in> set ts"
  shows "\<exists>st'. free (x + 8) st = Inr st' \<and> heap_rep H st' (tile_free x ts) \<and>
    (\<forall>z. z \<notin> free_area ts \<and> (z < x \<or> x + int n \<le> z) \<longrightarrow> hmem st' z = hmem st z)"
proof -
  obtain pre post where ts: "ts = pre @ (x, n, False) # post" using x by (meson split_list)
  have t: "heap_tiles H st (pre @ (x, n, False) # post)" and co: "coalesced pre" "coalesced post"
    using rep ts by (auto simp: heap_rep_def coalesced_append coalesced_Cons)
  note D = heap_tilesD [OF t] and L = heap_tiles_list [OF t]
  have l: "linked (hmem st) (free_list st) (frees pre @ frees post) 0" using t by (simp add: heap_tiles_def)
  then obtain q where q: "linked (hmem st) (free_list st) (frees pre) q" "linked (hmem st) q (frees post) 0"
    by (auto simp: linked_append)
  have q': "q = 0 \<or> q > x" "0 \<le> q" "q < 2 ^ 64"
  proof -
    have "q = 0 \<or> x + int n \<le> q \<and> q \<le> H + 256"
    proof (cases "frees post")
      case (Cons y ys)
      then obtain j where "(q, j, True) \<in> set post" using q(2) frees_mem [of q post] by auto
      from tiling_mem [OF D(3) this] show ?thesis by auto
    qed (use q(2) in simp)
    then show "q = 0 \<or> q > x" "0 \<le> q" "q < 2 ^ 64" using D(2,5) t by (auto simp: heap_tiles_def)
  qed
  have before: "y < x" if "(y, j, g) \<in> set pre" for y j g using tiling_mem [OF D(1) that] by auto
  have after: "x < y" if "(y, j, g) \<in> set post" for y j g using tiling_mem [OF D(3) that] D(2) by auto
  let ?p = "if frees pre = [] then 0 else last (frees pre)" and ?l = "length (frees pre)"
  have "free_loop (?l + Suc (255 - ?l)) x (free_list st) 0 st = free_loop (Suc (255 - ?l)) x q ?p st"
    using L(1) before by (intro free_loop_skip [OF q(1)]) (fastforce simp: frees_mem)+
  moreover have "?l + Suc (255 - ?l) = 256" using L(2) by simp
  moreover have "free_loop (Suc (255 - ?l)) x q ?p st = Inr (free_insert x q ?p st)" using q'(1) by auto
  ultimately have fr: "free (x + 8) st = Inr (free_insert x q ?p st)" using D(5) by (simp add: free_def)
  let ?st = "set_block_next x q (set_link (last_link (frees pre)) x st)"
  have "last (frees pre) \<in> set (frees (pre @ (x, n, False) # post))" if "frees pre \<noteq> []" using that by simp
  then have p0: "?p = 0 \<longleftrightarrow> frees pre = []" using L(1) by metis
  have ins: "heap_tiles H ?st (pre @ (x, n, True) # post)" by (rule insert_tile [OF t q q'(2,3)])
  have nx: "q = block_next ?st x" using q'(2,3) by (simp add: block_next_def set_block_next_def uint_word_of_int)
  obtain b st' p k where m: "merge_prev x q ?p ?st = (b, st')" "heap_tiles H st' (p @ (b, k, True) # post)"
      "block_next st' b = q" "coalesced (p @ [(b, k, True)])"
      "coalesce (pre @ (x, n, True) # post) = p @ coalesce ((b, k, True) # post)"
      "\<forall>z. z \<notin> free_area (pre @ (x, n, True) # post) \<longrightarrow> hmem st' z = hmem ?st z"
      "free_area (pre @ (x, n, True) # post) = free_area (p @ (b, k, True) # post)"
    using merge_prev_rep [OF ins refl nx co(1)] by blast
  note N = merge_next_rep [OF m(2) m(3) [symmetric] m(4) co(2)]
  have "free_insert x q ?p st = merge_next b q st'"
    using m(1) p0 by (auto simp: free_insert_def Let_def set_link_def last_link_def split: if_splits)
  moreover have "tile_free x ts = coalesce (pre @ (x, n, True) # post)"
  proof -
    have "map (\<lambda>(y, n, f). (y, n, f \<or> y = x)) pre = pre" "map (\<lambda>(y, n, f). (y, n, f \<or> y = x)) post = post"
      using before after by (force intro!: map_idI)+
    then show ?thesis by (simp add: tile_free_def ts)
  qed
  moreover have "hmem (merge_next b q st') z = hmem st z" if "z \<notin> free_area ts" "z < x \<or> x + int n \<le> z" for z
  proof -
    have out: "z \<notin> free_area (pre @ (x, n, True) # post)" "\<forall>(y, k, g) \<in> set pre. g \<longrightarrow> z < y \<or> y + int k \<le> z"
      using that ts by (auto simp: free_area_iff [symmetric])
    have "hmem (merge_next b q st') z = hmem st' z" using N out(1) unfolding m(7) by blast
    also have "\<dots> = hmem ?st z" using m(6) out(1) by blast
    finally have "hmem (merge_next b q st') z = hmem ?st z" .
    also have "\<dots> = hmem (set_link (last_link (frees pre)) x st) z"
      using that(2) D(2) by (auto simp: set_block_next_def)
    also have "\<dots> = hmem st z"
      using t out(2) by (intro set_link_frame(3) [where us = "(x, n, False) # post" and a = H and b = "H + 256"]) (simp_all add: heap_tiles_def)
    finally show ?thesis .
  qed
  ultimately show ?thesis using N m(5) fr by (simp add: heap_rep_def)
qed

section \<open>Blocks in use\<close>

definition used :: "tile list \<Rightarrow> (int \<times> nat) set" where
  "used ts = {(x, n). (x, n, False) \<in> set ts}"

lemma used_simps [simp]:
  "used [] = {}" "used ((x, n, f) # ts) = (if f then used ts else insert (x, n) (used ts))"
  "used (ts @ us) = used ts \<union> used us"
  by (auto simp: used_def)

lemma used_coalesce [simp]: "used (coalesce ts) = used ts"
  by (induction ts rule: coalesce.induct) auto

lemma tiling_unique:
  assumes "tiling a ts b" and "(x, n, f) \<in> set ts" and "(y, k, g) \<in> set ts" and "x = y"
  shows "n = k \<and> f = g"
proof -
  obtain p q where ts: "ts = p @ (x, n, f) # q" using assms(2) by (meson split_list)
  then show ?thesis using assms tiling_apart [of a p x n f q b y k g] tiling_mem [OF assms(1,2)] tiling_mem [OF assms(1,3)] by auto
qed

lemma used_tile_free:
  assumes "tiling a ts b" and "(x, n, False) \<in> set ts"
  shows "used (tile_free x ts) = used ts - {(x, n)}"
proof -
  have "(y, k, False) \<in> set (map (\<lambda>(y, n, f). (y, n, f \<or> y = x)) ts) \<longleftrightarrow> (y, k, False) \<in> set ts \<and> y \<noteq> x" for y k
    by force
  then have "used (tile_free x ts) = {(y, k). (y, k, False) \<in> set ts \<and> y \<noteq> x}"
    unfolding tile_free_def used_coalesce by (simp only: used_def)
  then show ?thesis using tiling_unique [OF assms] by (auto simp: used_def)
qed

lemma tile_malloc_used:
  assumes "tile_malloc r ts = Some (q, us)" and "tiling a ts b"
  shows "\<exists>k. used us = insert (q - 8, k) (used ts) \<and> r + 8 \<le> k \<and> {q - 8..<q - 8 + int k} \<subseteq> free_area ts \<and> a + 8 \<le> q"
proof -
  obtain pre x n post where p: "ts = pre @ (x, n, True) # post" "r + 8 \<le> n"
      "us = pre @ fst (taken r x n) @ post" "q = snd (taken r x n)"
    using tile_malloc_Some [OF assms(1)] by blast
  have "a \<le> x" using tiling_mem [OF assms(2), of x n True] p(1) by auto
  then show ?thesis using p
    by (intro exI [of _ "if r + 32 \<le> n then r + 8 else n"]) (auto simp: taken_def Let_def)
qed

text \<open>Used and free areas of a tiling do not meet.\<close>

lemma used_free_disjoint:
  assumes "tiling a ts b" and "(x, n) \<in> used ts" and "x \<le> z" and "z < x + int n"
  shows "z \<notin> free_area ts"
proof -
  have x: "(x, n, False) \<in> set ts" using assms(2) by (simp add: used_def)
  obtain p q where ts: "ts = p @ (x, n, False) # q" using x by (meson split_list)
  show ?thesis
  proof
    assume "z \<in> free_area ts"
    then obtain y k where "(y, k, True) \<in> set ts" "y \<le> z" "z < y + int k"
      by (auto simp: free_area_def split: if_splits)
    then show False using tiling_apart [of a p x n False q b y k True] assms ts by auto
  qed
qed

lemma used_apart:
  assumes "tiling a ts b" and "(x, n) \<in> used ts" and "(y, k) \<in> used ts" and "(x, n) \<noteq> (y, k)"
  shows "x + int n \<le> y \<or> y + int k \<le> x"
proof -
  have x: "(x, n, False) \<in> set ts" "(y, k, False) \<in> set ts" using assms(2,3) by (simp_all add: used_def)
  obtain p q where ts: "ts = p @ (x, n, False) # q" using x by (meson split_list)
  then show ?thesis using tiling_apart [of a p x n False q b y k False] assms(1,4) x(2) by auto
qed

text \<open>Writes to the data part of used blocks keep the heap.\<close>

lemma load64_cong:
  assumes "\<And>i. 0 \<le> i \<Longrightarrow> i < 8 \<Longrightarrow> m' (a + i) = m (a + i)"
  shows "load64 m' a = load64 m a"
  using assms [of 0] assms [of 1] assms [of 2] assms [of 3] assms [of 4] assms [of 5] assms [of 6] assms [of 7]
  by (simp add: load64_def load32_def add.commute)

lemma heap_rep_data:
  assumes rep: "heap_rep H st ts" and same: "\<And>z. (\<nexists>x n. (x, n) \<in> used ts \<and> x + 8 \<le> z \<and> z < x + int n) \<Longrightarrow> m z = hmem st z"
  shows "heap_rep H (st\<lparr>hmem := m\<rparr>) ts"
proof -
  have c: "tiling H ts (H + 256)" using rep by (simp add: heap_rep_def heap_tiles_def)
  have eq: "load64 m (x + d) = load64 (hmem st) (x + d)"
    if x: "(x, n, f) \<in> set ts" and d: "d = 0 \<or> d = 8 \<and> f" for x n f d
  proof (rule load64_cong, rule same, clarify)
    fix i y k assume i: "0 \<le> i" "i < 8" and y: "(y, k) \<in> used ts" "y + 8 \<le> x + d + i" "x + d + i < y + int k"
    have n: "24 \<le> n" using tiling_mem [OF c x] by simp
    show False
    proof (cases f)
      case True
      then have "x + d + i \<in> free_area ts" unfolding free_area_def using x n d i by (intro UN_I [OF x]) auto
      then show ?thesis using used_free_disjoint [OF c y(1)] y(2,3) by auto
    next
      case False
      then have "(x, n) \<in> used ts" using x by (simp add: used_def)
      then show ?thesis using used_apart [OF c _ y(1), of x n] y(2,3) i n d False by (cases "(x, n) = (y, k)") auto
    qed
  qed
  have "headers m ts" using rep eq [of _ _ _ 0] by (fastforce simp: heap_rep_def heap_tiles_def headers_def)
  moreover have "linked m (free_list st) (frees ts) 0"
  proof -
    have "linked m (free_list st) (frees ts) 0 = linked (hmem st) (free_list st) (frees ts) 0"
      using eq [of _ _ True 8] by (intro linked_frame) (auto simp: frees_mem)
    then show ?thesis using rep by (simp add: heap_rep_def heap_tiles_def)
  qed
  ultimately show ?thesis using rep by (simp add: heap_rep_def heap_tiles_def)
qed

section \<open>Clearing and copying\<close>

lemma clear_bytes_eq: "clear_bytes n p m z = (if p \<le> z \<and> z < p + int n then 0 else m z)"
  by (induction n arbitrary: p m) auto

lemma copy_bytes_outside: "z < dst \<or> dst + int n \<le> z \<Longrightarrow> copy_bytes n dst src m z = m z"
  by (induction n arbitrary: dst src m) auto

lemma copy_bytes_inside:
  assumes "i < n" and "src + int i < dst \<or> dst + int n \<le> src + int i"
  shows "copy_bytes n dst src m (dst + int i) = m (src + int i)"
  using assms
proof (induction n arbitrary: i dst src m)
  case (Suc n)
  show ?case
  proof (cases i)
    case 0
    then show ?thesis using Suc.prems copy_bytes_outside [of dst "dst + 1" n "src + 1" "m(dst := m src)"] by simp
  next
    case (Suc j)
    have "copy_bytes n (dst + 1) (src + 1) (m(dst := m src)) ((dst + 1) + int j) = (m(dst := m src)) ((src + 1) + int j)"
      using Suc.prems Suc by (intro Suc.IH) auto
    then show ?thesis using Suc.prems Suc by (auto simp: algebra_simps)
  qed
qed simp

text \<open>\<open>malloc\<close> in terms of the blocks in use.\<close>

lemma malloc_used:
  assumes rep: "heap_rep H st ts" and sz: "unat sz \<le> 2147479000"
  shows "\<exists>p st'. malloc sz st = Inr (p, st') \<and>
    (if p = 0 then st' = st \<and> (sz \<noteq> 0 \<longrightarrow> (\<forall>x n. (x, n, True) \<in> set ts \<longrightarrow> n < round_size (unat sz) + 8))
     else \<exists>us k. heap_rep H st' us \<and> used us = insert (p - 8, k) (used ts) \<and> unat sz + 8 \<le> k \<and>
       {p - 8..<p - 8 + int k} \<subseteq> free_area ts \<and> (\<forall>z. z \<notin> free_area ts \<longrightarrow> hmem st' z = hmem st z))"
proof (cases "sz = 0")
  case False
  note R = malloc_rep [OF rep False sz]
  have c: "tiling H ts (H + 256)" "0 < H" using rep by (simp_all add: heap_rep_def heap_tiles_def)
  show ?thesis
  proof (cases "tile_malloc (round_size (unat sz)) ts")
    case None
    then show ?thesis using R tile_malloc_None [OF None] by auto
  next
    case (Some pair)
    obtain q us where qu: "tile_malloc (round_size (unat sz)) ts = Some (q, us)" using Some by (cases pair) auto
    obtain k where k: "used us = insert (q - 8, k) (used ts)" "round_size (unat sz) + 8 \<le> k"
        "{q - 8..<q - 8 + int k} \<subseteq> free_area ts" "H + 8 \<le> q" using tile_malloc_used [OF qu c(1)] by blast
    obtain st' where st': "malloc sz st = Inr (q, st')" "heap_rep H st' us" "\<forall>z. z \<notin> free_area ts \<longrightarrow> hmem st' z = hmem st z"
      using R qu by auto
    have "unat sz + 8 \<le> k" "q \<noteq> 0" using k(2,4) c(2) round_size_bounds(2) [of "unat sz"] by auto
    then show ?thesis using st' k(1,3) by auto
  qed
qed (simp add: malloc_def)

lemma free_used:
  assumes rep: "heap_rep H st ts" and x: "(p - 8, n) \<in> used ts"
  shows "\<exists>st' us. free p st = Inr st' \<and> heap_rep H st' us \<and> used us = used ts - {(p - 8, n)} \<and>
    (\<forall>z. z \<notin> free_area ts \<and> (z < p - 8 \<or> p - 8 + int n \<le> z) \<longrightarrow> hmem st' z = hmem st z)"
proof -
  have c: "tiling H ts (H + 256)" and x': "(p - 8, n, False) \<in> set ts"
    using rep x by (simp_all add: heap_rep_def heap_tiles_def used_def)
  show ?thesis using free_rep [OF rep x'] used_tile_free [OF c x'] by auto
qed

section \<open>A program and its heap\<close>

text \<open>
  \<open>heap_run H st B\<close>: the program has called \<open>heap_init\<close> and then \<open>malloc\<close>, \<open>free\<close> and stored bytes, in
  any order; \<open>B\<close> is the set of its blocks, with the sizes it asked for. It frees only blocks it has
  and stores only inside them.
\<close>

inductive heap_run :: "int \<Rightarrow> heap_state \<Rightarrow> (int \<times> nat) set \<Rightarrow> bool" where
  run_init: "0 < H \<Longrightarrow> H + HEAP_SIZE < 2 ^ 64 \<Longrightarrow> heap_run H (heap_init H st) {}"
| run_malloc: "heap_run H st B \<Longrightarrow> unat sz \<le> 2147479000 \<Longrightarrow> malloc sz st = Inr (p, st') \<Longrightarrow>
    heap_run H st' (if p = 0 then B else insert (p, unat sz) B)"
| run_free: "heap_run H st B \<Longrightarrow> (p, n) \<in> B \<Longrightarrow> free p st = Inr st' \<Longrightarrow> heap_run H st' (B - {(p, n)})"
| run_store: "heap_run H st B \<Longrightarrow> (p, n) \<in> B \<Longrightarrow> p \<le> a \<Longrightarrow> a < p + int n \<Longrightarrow>
    heap_run H (st\<lparr>hmem := (hmem st)(a := v)\<rparr>) B"

text \<open>Every block of the program is the data part of a used tile of its own.\<close>

definition owns :: "(int \<times> nat) set \<Rightarrow> (int \<times> nat) set \<Rightarrow> bool" where
  "owns B U \<longleftrightarrow> inj_on fst B \<and> (\<forall>p. (\<exists>n. (p, n) \<in> B) \<longleftrightarrow> (\<exists>k. (p - 8, k) \<in> U)) \<and>
     (\<forall>p n k. (p, n) \<in> B \<and> (p - 8, k) \<in> U \<longrightarrow> n + 8 \<le> k)"

lemma heap_init_rep: "0 < H \<Longrightarrow> H + 256 < 2 ^ 64 \<Longrightarrow> heap_rep H (heap_init H st) [(H, 256, True)]"
  by (simp add: heap_rep_def heap_tiles_def headers_def heap_init_def set_block_next_def set_block_size_def)

lemma used_fun: "tiling a ts b \<Longrightarrow> (x, n) \<in> used ts \<Longrightarrow> (x, k) \<in> used ts \<Longrightarrow> n = k"
  using tiling_unique by (fastforce simp: used_def)

lemma ownsD: "owns B U \<Longrightarrow> (p, n) \<in> B \<Longrightarrow> \<exists>k. (p - 8, k) \<in> U \<and> n + 8 \<le> k"
  unfolding owns_def by blast

lemma owns_malloc:
  assumes o: "owns B (used ts)" and c: "tiling a ts b" and f: "{p - 8..<p - 8 + int k} \<subseteq> free_area ts" and k: "n + 8 \<le> k"
  shows "owns (insert (p, n) B) (insert (p - 8, k) (used ts))"
proof -
  have "(p - 8, j) \<notin> used ts" for j
  proof
    assume u: "(p - 8, j) \<in> used ts"
    then have "24 \<le> j" using tiling_mem [OF c, of "p - 8" j False] by (simp add: used_def)
    moreover have "p - 8 \<in> free_area ts" using f k by auto
    ultimately show False using used_free_disjoint [OF c u, of "p - 8"] by auto
  qed
  then show ?thesis using o k by (fastforce simp: owns_def)
qed

lemma owns_free:
  assumes o: "owns B (used ts)" and c: "tiling a ts b" and p: "(p, n) \<in> B" "(p - 8, k) \<in> used ts"
  shows "owns (B - {(p, n)}) (used ts - {(p - 8, k)})"
proof -
  have i: "inj_on fst B" using o by (simp add: owns_def)
  have B: "n' = n" if "(p, n') \<in> B" for n' using inj_onD [OF i _ that p(1)] by simp
  have U: "j = k" if "(p - 8, j) \<in> used ts" for j using used_fun [OF c that p(2)] .
  show ?thesis using o B U inj_on_diff [OF i] by (fastforce simp: owns_def)
qed

lemma heap_run_rep: "heap_run H st B \<Longrightarrow> \<exists>ts. heap_rep H st ts \<and> owns B (used ts)"
proof (induction rule: heap_run.induct)
  case (run_init H st)
  then show ?case using heap_init_rep [of H st] by (auto simp: owns_def)
next
  case (run_malloc H st B sz p st')
  then obtain ts where ts: "heap_rep H st ts" "owns B (used ts)" by blast
  have c: "tiling H ts (H + 256)" using ts(1) by (simp add: heap_rep_def heap_tiles_def)
  show ?case
  proof (cases "p = 0")
    case True
    then show ?thesis using ts malloc_used [OF ts(1) run_malloc(2)] run_malloc(3) by auto
  next
    case False
    then obtain us k where us: "heap_rep H st' us" "used us = insert (p - 8, k) (used ts)" "unat sz + 8 \<le> k"
        "{p - 8..<p - 8 + int k} \<subseteq> free_area ts"
      using malloc_used [OF ts(1) run_malloc(2)] run_malloc(3) by auto
    then show ?thesis using owns_malloc [OF ts(2) c us(4,3)] False by auto
  qed
next
  case (run_free H st B p n st')
  then obtain ts where ts: "heap_rep H st ts" "owns B (used ts)" by blast
  have c: "tiling H ts (H + 256)" using ts(1) by (simp add: heap_rep_def heap_tiles_def)
  obtain k where k: "(p - 8, k) \<in> used ts" using ownsD [OF ts(2) run_free(2)] by blast
  show ?case using free_used [OF ts(1) k] run_free(3) owns_free [OF ts(2) c run_free(2) k] by auto
next
  case (run_store H st B p n a v)
  then obtain ts where ts: "heap_rep H st ts" "owns B (used ts)" by blast
  obtain k where k: "(p - 8, k) \<in> used ts" "n + 8 \<le> k" using ownsD [OF ts(2) run_store(2)] by blast
  have "heap_rep H (st\<lparr>hmem := (hmem st)(a := v)\<rparr>) ts"
  proof (rule heap_rep_data [OF ts(1)])
    fix z assume "\<nexists>x n. (x, n) \<in> used ts \<and> x + 8 \<le> z \<and> z < x + int n"
    moreover have "p - 8 + 8 \<le> a" "a < p - 8 + int k" using k(2) run_store(3,4) by auto
    ultimately have "z \<noteq> a" using k(1) by blast
    then show "((hmem st)(a := v)) z = hmem st z" by simp
  qed
  then show ?case using ts(2) by blast
qed

lemma heap_run_blocks:
  assumes "heap_rep H st ts" and "owns B (used ts)" and "(p, n) \<in> B"
  shows "H + 8 \<le> p" and "p + int n \<le> H + 256" and "\<And>z. p \<le> z \<Longrightarrow> z < p + int n \<Longrightarrow> z \<notin> free_area ts"
proof -
  have c: "tiling H ts (H + 256)" using assms(1) by (simp add: heap_rep_def heap_tiles_def)
  obtain k where k: "(p - 8, k) \<in> used ts" "n + 8 \<le> k" using ownsD [OF assms(2,3)] by blast
  then show "H + 8 \<le> p" "p + int n \<le> H + 256" using tiling_mem [OF c, of "p - 8" k False] by (auto simp: used_def)
  show "z \<notin> free_area ts" if "p \<le> z" "z < p + int n" for z using used_free_disjoint [OF c k(1), of z] k(2) that by auto
qed

lemma owns_apart:
  assumes "owns B (used ts)" and "tiling a ts b" and "(p, n) \<in> B" and "(q, m) \<in> B" and "(p, n) \<noteq> (q, m)"
  shows "\<exists>k j. (p - 8, k) \<in> used ts \<and> (q - 8, j) \<in> used ts \<and> n + 8 \<le> k \<and> m + 8 \<le> j \<and>
    (p - 8 + int k \<le> q - 8 \<or> q - 8 + int j \<le> p - 8)"
proof -
  obtain k j where k: "(p - 8, k) \<in> used ts" "n + 8 \<le> k" and j: "(q - 8, j) \<in> used ts" "m + 8 \<le> j"
    using ownsD [OF assms(1)] assms(3,4) by blast
  have "inj_on fst B" using assms(1) by (simp add: owns_def)
  then have "p \<noteq> q" using inj_onD [of fst B "(p, n)" "(q, m)"] assms(3-5) by auto
  then show ?thesis using used_apart [OF assms(2) k(1) j(1)] k j by auto
qed

lemma owns_new_apart:
  assumes "owns B (used ts)" and "tiling a ts b" and "{p - 8..<p - 8 + int k} \<subseteq> free_area ts" and "n + 8 \<le> k" and "(q, m) \<in> B"
  shows "p + int n \<le> q \<or> q + int m \<le> p"
proof -
  obtain j where j: "(q - 8, j) \<in> used ts" "m + 8 \<le> j" using ownsD [OF assms(1,5)] by blast
  have "p - 8 \<in> free_area ts" "q - 8 \<notin> free_area ts"
    using assms(3,4) used_free_disjoint [OF assms(2) j(1), of "q - 8"] j(2) by auto
  then have "\<not> (q - 8 \<le> p - 8 \<and> p - 8 < q - 8 + int j)" "q - 8 \<notin> {p - 8..<p - 8 + int k}"
    using used_free_disjoint [OF assms(2) j(1), of "p - 8"] assms(3) by blast+
  then show ?thesis using assms(4) j(2) by auto
qed

text \<open>When nothing is in use, merging has left a single free block.\<close>

lemma all_free_single:
  assumes "tiling a ts b" and "coalesced ts" and "used ts = {}" and "a < b"
  shows "ts = [(a, nat (b - a), True)]"
proof (cases ts)
  case (Cons t us)
  obtain x n f where t: "t = (x, n, f)" by (cases t)
  have f: "f" "x = a" using assms(1,3) Cons t by (auto split: if_splits)
  show ?thesis
  proof (cases us)
    case Nil
    then show ?thesis using assms(1) Cons t f by auto
  next
    case (Cons u vs)
    obtain y k g where u: "u = (y, k, g)" by (cases u)
    then show ?thesis using assms(2,3) \<open>ts = t # us\<close> Cons t f by (auto split: if_splits)
  qed
qed (use assms in simp)

text \<open>The calls in terms of the blocks of the program.\<close>

lemma run_malloc_ok:
  assumes "heap_run H st B" and "unat sz \<le> 2147479000"
  shows "\<exists>p st'. malloc sz st = Inr (p, st') \<and>
    (\<forall>q m a. (q, m) \<in> B \<and> q \<le> a \<and> a < q + int m \<longrightarrow> hmem st' a = hmem st a) \<and>
    (p = 0 \<longrightarrow> st' = st) \<and>
    (p \<noteq> 0 \<longrightarrow> heap_run H st' (insert (p, unat sz) B) \<and> (\<forall>q m. (q, m) \<in> B \<longrightarrow> p + int (unat sz) \<le> q \<or> q + int m \<le> p))"
proof -
  obtain ts where ts: "heap_rep H st ts" "owns B (used ts)" using heap_run_rep [OF assms(1)] by blast
  obtain p st' where m: "malloc sz st = Inr (p, st')" "if p = 0 then st' = st
     else \<exists>us k. heap_rep H st' us \<and> used us = insert (p - 8, k) (used ts) \<and> unat sz + 8 \<le> k \<and>
       {p - 8..<p - 8 + int k} \<subseteq> free_area ts \<and> (\<forall>z. z \<notin> free_area ts \<longrightarrow> hmem st' z = hmem st z)"
    using malloc_used [OF ts(1) assms(2)] by (smt (verit))
  have keep: "hmem st' a = hmem st a" if "(q, m) \<in> B" "q \<le> a" "a < q + int m" for q m a
    using m(2) heap_run_blocks(3) [OF ts that] by (auto split: if_splits)
  have c: "tiling H ts (H + 256)" using ts(1) by (simp add: heap_rep_def heap_tiles_def)
  have "p + int (unat sz) \<le> q \<or> q + int m \<le> p" if pq: "p \<noteq> 0" "(q, m) \<in> B" for q m
  proof -
    obtain k where k: "{p - 8..<p - 8 + int k} \<subseteq> free_area ts" "unat sz + 8 \<le> k" using m(2) pq(1) by auto
    show ?thesis by (rule owns_new_apart [OF ts(2) c k pq(2)])
  qed
  moreover have "heap_run H st' (insert (p, unat sz) B)" if "p \<noteq> 0" using run_malloc [OF assms m(1)] that by simp
  ultimately show ?thesis using m keep by auto
qed

lemma run_free_ok:
  assumes "heap_run H st B" and "(p, n) \<in> B"
  shows "\<exists>st'. free p st = Inr st' \<and> heap_run H st' (B - {(p, n)}) \<and>
    (\<forall>q m a. (q, m) \<in> B - {(p, n)} \<and> q \<le> a \<and> a < q + int m \<longrightarrow> hmem st' a = hmem st a)"
proof -
  obtain ts where ts: "heap_rep H st ts" "owns B (used ts)" using heap_run_rep [OF assms(1)] by blast
  have c: "tiling H ts (H + 256)" using ts(1) by (simp add: heap_rep_def heap_tiles_def)
  obtain k where k: "(p - 8, k) \<in> used ts" using ownsD [OF ts(2) assms(2)] by blast
  obtain st' where st': "free p st = Inr st'"
      "\<forall>z. z \<notin> free_area ts \<and> (z < p - 8 \<or> p - 8 + int k \<le> z) \<longrightarrow> hmem st' z = hmem st z"
    using free_used [OF ts(1) k] by blast
  have "hmem st' a = hmem st a" if q: "(q, m) \<in> B - {(p, n)}" "q \<le> a" "a < q + int m" for q m a
  proof -
    obtain k' j where "(p - 8, k') \<in> used ts" "m + 8 \<le> j" "p - 8 + int k' \<le> q - 8 \<or> q - 8 + int j \<le> p - 8"
      using owns_apart [OF ts(2) c assms(2), of q m] q(1) by auto
    then have "a < p - 8 \<or> p - 8 + int k \<le> a" using used_fun [OF c k, of k'] q(2,3) by auto
    then show ?thesis using st'(2) heap_run_blocks(3) [OF ts, of q m a] q by auto
  qed
  then show ?thesis using st'(1) run_free [OF assms st'(1)] by blast
qed

lemma run_block_bounds: "heap_run H st B \<Longrightarrow> (p, n) \<in> B \<Longrightarrow> 0 < p"
proof -
  assume r: "heap_run H st B" and p: "(p, n) \<in> B"
  obtain ts where ts: "heap_rep H st ts" "owns B (used ts)" using heap_run_rep [OF r] by blast
  then have "0 < H" by (simp add: heap_rep_def heap_tiles_def)
  then show ?thesis using heap_run_blocks(1) [OF ts p] by simp
qed

lemma run_copy:
  assumes "heap_run H st B" and "(p, n) \<in> B" and "p \<le> dst" and "dst + int k \<le> p + int n"
  shows "heap_run H (st\<lparr>hmem := copy_bytes k dst src (hmem st)\<rparr>) B"
  using assms
proof (induction k arbitrary: dst src st)
  case (Suc k)
  have "heap_run H (st\<lparr>hmem := (hmem st)(dst := hmem st src)\<rparr>) B"
    using Suc.prems by (intro run_store [where p = p and n = n]) auto
  from Suc.IH [OF this Suc.prems(2), of "dst + 1" "src + 1"] show ?case using Suc.prems by (simp del: fun_upd_apply)
qed simp

lemma run_realloc_ok:
  assumes "heap_run H st B" and "(p, n) \<in> B" and "sz \<noteq> 0" and "unat sz \<le> 2147479000"
  shows "\<exists>q st'. realloc p sz st = Inr (q, st') \<and> (q = 0 \<longrightarrow> st' = st) \<and>
    (q \<noteq> 0 \<longrightarrow> heap_run H st' (insert (q, unat sz) B - {(p, n)}) \<and> (q, unat sz) \<notin> B \<and>
      (\<forall>i < min n (unat sz). hmem st' (q + int i) = hmem st (p + int i)))"
proof -
  have p0: "p \<noteq> 0" using run_block_bounds [OF assms(1,2)] by simp
  obtain q st1 where m: "malloc sz st = Inr (q, st1)" "q = 0 \<longrightarrow> st1 = st"
      "\<And>r k a. (r, k) \<in> B \<Longrightarrow> r \<le> a \<Longrightarrow> a < r + int k \<Longrightarrow> hmem st1 a = hmem st a"
      "q \<noteq> 0 \<Longrightarrow> heap_run H st1 (insert (q, unat sz) B)"
      "\<And>r k. q \<noteq> 0 \<Longrightarrow> (r, k) \<in> B \<Longrightarrow> q + int (unat sz) \<le> r \<or> r + int k \<le> q"
    using run_malloc_ok [OF assms(1,4)] by (smt (verit))
  show ?thesis
  proof (cases "q = 0")
    case True
    then show ?thesis using m(1,2) p0 assms(3) by (simp add: realloc_def)
  next
    case False
    let ?m = "copy_bytes (unat sz) q p (hmem st1)" and ?B = "insert (q, unat sz) B"
    have r2: "heap_run H (st1\<lparr>hmem := ?m\<rparr>) ?B" using run_copy [OF m(4) [OF False], of q "unat sz" q "unat sz" p] by simp
    have apart: "q + int (unat sz) \<le> p \<or> p + int n \<le> q" by (rule m(5) [OF False assms(2)])
    obtain st' where f: "free p (st1\<lparr>hmem := ?m\<rparr>) = Inr st'" "heap_run H st' (?B - {(p, n)})"
        "\<forall>r k a. (r, k) \<in> ?B - {(p, n)} \<and> r \<le> a \<and> a < r + int k \<longrightarrow> hmem st' a = ?m a"
      using run_free_ok [OF r2, of p n] assms(2) by auto
    have "0 < int (unat sz)" using assms(3) by (simp only: of_nat_0_less_iff unat_gt_0 simp_thms)
    then have "(q, unat sz) \<noteq> (p, n)" and new: "(q, unat sz) \<notin> B" using apart m(5) [OF False, of q "unat sz"] by auto
    have "hmem st' (q + int i) = hmem st (p + int i)" if "i < min n (unat sz)" for i
    proof -
      have "(q, unat sz) \<in> ?B - {(p, n)}" "q \<le> q + int i" "q + int i < q + int (unat sz)"
        using \<open>(q, unat sz) \<noteq> (p, n)\<close> that by (auto simp only: add_less_cancel_left of_nat_less_iff min_less_iff_conj)
      then have "hmem st' (q + int i) = ?m (q + int i)" using f(3) by blast
      also have "\<dots> = hmem st1 (p + int i)" using apart that by (intro copy_bytes_inside) auto
      also have "\<dots> = hmem st (p + int i)" using m(3) [OF assms(2)] that by simp
      finally show ?thesis .
    qed
    then show ?thesis using m(1) f(1,2) False p0 assms(3) new by (simp add: realloc_def)
  qed
qed

end
