(* ===== verification/Userland_Properties.thy ===== *)
theory Userland_Properties
  imports Userland_Heap
begin

text \<open>
  The theorems about the user library. \<open>ex_heap\<close> is a heap at address 4096 that has just been
  initialised.
\<close>

section \<open>The heap\<close>

definition ex_heap :: heap_state where
  "ex_heap = heap_init 4096 \<lparr>free_list = 0, hmem = (\<lambda>_. 0)\<rparr>"









text \<open>
  In every state of the heap \<open>free\<close> of a block of the program returns, and the bytes of its other
  blocks are unchanged.
\<close>

lemma free_keeps_data:
  assumes "heap_run H st B" and "(p, n) \<in> B"
  shows "\<exists>st'. free p st = Inr st' \<and> heap_run H st' (B - {(p, n)}) \<and>
    (\<forall>q m a. (q, m) \<in> B - {(p, n)} \<and> q \<le> a \<and> a < q + int m \<longrightarrow> hmem st' a = hmem st a)"
  by (rule run_free_ok [OF assms])

text \<open>
  The heap does not leak and does not stay fragmented: when the program has freed all its blocks,
  in whatever order, the free list is again the single block that covers the whole heap.
\<close>

lemma heap_all_freed:
  assumes "heap_run H st {}"
  shows "free_list st = H \<and> uint (block_size st H) = HEAP_SIZE \<and> block_next st H = 0"
proof -
  obtain ts where ts: "heap_rep H st ts" "owns {} (used ts)" using heap_run_rep [OF assms] by blast
  have t: "heap_tiles H st ts" "coalesced ts" "tiling H ts (H + 256)" using ts(1) by (simp_all add: heap_rep_def heap_tiles_def)
  have "(x, n) \<notin> used ts" for x n using ts(2) unfolding owns_def by (metis add_diff_cancel_right' empty_iff)
  then have "used ts = {}" by auto
  then have "ts = [(H, 256, True)]" using all_free_single [OF t(3,2)] by simp
  then show ?thesis using t(1) by (simp add: heap_tiles_def headers_def block_size_def block_next_def)
qed

text \<open>
  \<open>realloc\<close> either fails and changes nothing, or gives a block of the new size that starts with the
  bytes of the old one, as many as fit, and releases the old one.
\<close>

lemma realloc_keeps_data:
  assumes "heap_run H st B" and "(p, n) \<in> B" and "sz \<noteq> 0" and "unat sz \<le> 2147479000"
  shows "\<exists>q st'. realloc p sz st = Inr (q, st') \<and> (q = 0 \<longrightarrow> st' = st) \<and>
    (q \<noteq> 0 \<longrightarrow> heap_run H st' (insert (q, unat sz) B - {(p, n)}) \<and>
      (\<forall>i < min n (unat sz). hmem st' (q + int i) = hmem st (p + int i)))"
  using run_realloc_ok [OF assms] by blast

text \<open>
  \<open>malloc\<close> of 4 GiB succeeds on the heap of 256 bytes: the comparison casts the difference of the
  sizes to \<open>int\<close>, which drops the high half. The block it returns lies outside the heap.
\<close>

lemma malloc_4GiB_outside:
  "\<exists>p st'. malloc 0x100000000 ex_heap = Inr (p, st') \<and> p \<noteq> 0 \<and> \<not> (4096 \<le> p \<and> p < 4096 + HEAP_SIZE)"
proof -
  have b: "block_size ex_heap 4096 = 256" "free_list ex_heap = 4096"
    by (simp_all add: ex_heap_def heap_init_def block_size_def set_block_size_def set_block_next_def)
  have s: "malloc_size 0x100000000 = 0x100000000" by (simp add: malloc_size_def max_def)
  have "\<exists>st'. malloc_loop (Suc 255) 0x100000000 4096 None ex_heap = Inr (0x100000000000010F8 - 0x100000000 + 8, st')"
    unfolding malloc_loop.simps b by (simp add: b Let_def block_size_def set_block_size_def)
  then show ?thesis using b s by (auto simp: malloc_def)
qed

end
