(* ===== verification/Physmem.thy ===== *)
theory Physmem
  imports Bitmap
begin

text \<open>
  Kernel memory on mips32: permanent allocation before the virtual memory is up
  (\<^verbatim>\<open>src/kudos/kernel/stalloc.c\<close>) and the pool of physical pages (\<^verbatim>\<open>src/kudos/vm/mips32/mm_phys.c\<close>), which
  is a bitmap of pages with a count of the free ones. The invariant relates the two; the pool is a
  client of the interface \<open>bit_allocator\<close>, through its interpretation for the kernel's bitmap.
\<close>

section \<open>State\<close>

abbreviation (input) PAGE_SIZE :: int where "PAGE_SIZE \<equiv> 4096"
abbreviation (input) YAMS_MAX_DEVICES :: nat where "YAMS_MAX_DEVICES \<equiv> 128"

text \<open>\<open>kernel_end\<close> is the address of KERNEL_ENDS_HERE; \<open>pm_intr\<close> the interrupt flag of the CPU.\<close>

record physmem =
  kernel_end :: u32
  free_area_start :: u32
  stalloced_total :: u32
  physmem_free_pages :: bitmap
  physmem_num_pages :: int
  physmem_num_free_pages :: int
  physmem_static_end :: int
  physmem_slock :: int
  pm_intr :: bool

section \<open>Permanent allocation\<close>

definition align4 :: "u32 \<Rightarrow> u32" where
  "align4 a = (if a AND 0x03 \<noteq> 0 then (a + 4) AND 0xfffffffc else a)"

definition stalloc_init :: "physmem \<Rightarrow> physmem" where
  "stalloc_init st = st\<lparr>free_area_start := align4 (kernel_end st), stalloced_total := 0\<rparr>"

definition stalloc_disable :: "physmem \<Rightarrow> physmem" where
  "stalloc_disable st = st\<lparr>stalloced_total := free_area_start st - kernel_end st, free_area_start := 0xffffffff\<rparr>"

definition stalloc :: "int \<Rightarrow> physmem \<Rightarrow> (u32 \<times> physmem) res" where
  "stalloc bytes st =
     (if free_area_start st = 0xffffffff then Inl Panic
      else if free_area_start st = 0 then Inl Panic
      else if bytes < 0 then Inl Panic
      else Inr (free_area_start st, st\<lparr>free_area_start := align4 (free_area_start st + word_of_int bytes)\<rparr>))"

section \<open>The page pool\<close>

text \<open>The device descriptors: type and first word of the I/O area of each, in the order of the table.\<close>

definition physmem_get_size :: "(u32 \<times> u32) list \<Rightarrow> int res" where
  "physmem_get_size devs =
     (case find (\<lambda>(type, _). type = 0x101) (take YAMS_MAX_DEVICES devs) of
        Some (_, num_pages) \<Rightarrow> if num_pages = 0 then Inl Panic else Inr (sint num_pages)
      | None \<Rightarrow> Inl Panic)"

definition physmem_get_reserved_size :: "(u32 \<times> u32) list \<Rightarrow> physmem \<Rightarrow> (int \<times> physmem) res" where
  "physmem_get_reserved_size devs st =
     rbind (stalloc 1 st) (\<lambda>(free_start, st).
     rbind (physmem_get_size devs) (\<lambda>_.
     let used = free_start - 0x80000000;
         num_res_pages = uint (used div 4096) in
     Inr (if used mod 4096 \<noteq> 0 then num_res_pages + 1 else num_res_pages, st)))"

function reserve_pages :: "int \<Rightarrow> int \<Rightarrow> bitmap \<Rightarrow> bitmap res" where
  "reserve_pages i n bm = (if i < n then rbind (bitmap_set bm i 1) (reserve_pages (i + 1) n) else Inr bm)"
  by pat_completeness auto
termination
  by (relation "measure (\<lambda>(i, n, bm). nat (n - i))") auto

declare reserve_pages.simps [simp del]

text \<open>\<open>junk\<close> is what the memory that \<open>stalloc\<close> gives for the bitmap holds.\<close>

definition physmem_init :: "(u32 \<times> u32) list \<Rightarrow> bitmap \<Rightarrow> physmem \<Rightarrow> physmem res" where
  "physmem_init devs junk st =
     rbind (physmem_get_size devs) (\<lambda>num_pages.
     rbind (stalloc (bitmap_sizeof num_pages) st) (\<lambda>(_, st).
     rbind (bitmap_init junk num_pages) (\<lambda>bm.
     rbind (physmem_get_reserved_size devs st) (\<lambda>(num_res_pages, st).
     rbind (reserve_pages 0 num_res_pages bm) (\<lambda>bm.
     Inr (st\<lparr>physmem_num_pages := num_pages, physmem_free_pages := bm,
       physmem_num_free_pages := num_pages - num_res_pages, physmem_static_end := num_res_pages,
       physmem_slock := 0\<rparr>))))))"

definition physmem_lock :: "physmem \<Rightarrow> (bool \<times> physmem) res" where
  "physmem_lock st =
     (if physmem_slock st = 0 then Inr (pm_intr st, st\<lparr>pm_intr := False, physmem_slock := 1\<rparr>) else Inl Spin)"

definition physmem_unlock :: "bool \<Rightarrow> physmem \<Rightarrow> physmem" where
  "physmem_unlock intr_status st = st\<lparr>physmem_slock := 0, pm_intr := intr_status\<rparr>"

definition physmem_allocblock :: "physmem \<Rightarrow> (u32 \<times> physmem) res" where
  "physmem_allocblock st =
     rbind (physmem_lock st) (\<lambda>(intr_status, st).
     rbind (if physmem_num_free_pages st > 0 then
              rbind (bitmap_findnset (physmem_free_pages st) (physmem_num_pages st)) (\<lambda>(i, bm).
              let st = st\<lparr>physmem_free_pages := bm, physmem_num_free_pages := physmem_num_free_pages st - 1\<rparr> in
              rbind (kassert (i \<ge> 0 \<and> physmem_num_free_pages st \<ge> 0)) (\<lambda>_. Inr (i, st)))
            else Inr (0, st)) (\<lambda>(i, st).
     Inr (word_of_int (i * PAGE_SIZE), physmem_unlock intr_status st)))"

definition physmem_freeblock :: "u32 \<Rightarrow> physmem \<Rightarrow> physmem res" where
  "physmem_freeblock phys_addr st =
     (let i = uint (phys_addr div 4096) in
      rbind (kassert (i \<ge> physmem_static_end st)) (\<lambda>_.
      rbind (physmem_lock st) (\<lambda>(intr_status, st).
      rbind (bitmap_get (physmem_free_pages st) i) (\<lambda>b.
      rbind (kassert (b = 1)) (\<lambda>_.
      rbind (bitmap_set (physmem_free_pages st) i 0) (\<lambda>bm.
      Inr (physmem_unlock intr_status
        (st\<lparr>physmem_free_pages := bm, physmem_num_free_pages := physmem_num_free_pages st + 1\<rparr>))))))))"

section \<open>The invariant\<close>

text \<open>
  \<open>pool_ok A st\<close>: exactly the pages reserved for the kernel and the pages \<open>A\<close> handed out are marked, and
  the count is the number of the others.
\<close>

definition pool_ok :: "nat set \<Rightarrow> physmem \<Rightarrow> bool" where
  "pool_ok A st \<longleftrightarrow> physmem_slock st = 0 \<and>
     (\<exists>n r. physmem_num_pages st = int n \<and> physmem_static_end st = int r \<and> 0 < r \<and> r \<le> n \<and> n < 2 ^ 20 \<and>
        n \<le> 32 * length (physmem_free_pages st) \<and>
        {p. p < n \<and> p \<in> kbits (physmem_free_pages st)} = {..<r} \<union> A \<and> A \<subseteq> {r..<n} \<and>
        physmem_num_free_pages st = int (card ({r..<n} - A)))"

inductive pool_run :: "nat set \<Rightarrow> physmem \<Rightarrow> bool" where
  pool_start: "pool_ok {} st \<Longrightarrow> pool_run {} st"
| pool_alloc: "pool_run A st \<Longrightarrow> physmem_allocblock st = Inr (a, st') \<Longrightarrow>
    pool_run (if a = 0 then A else insert (unat (a div 4096)) A) st'"
| pool_free: "pool_run A st \<Longrightarrow> p \<in> A \<Longrightarrow> physmem_freeblock (of_nat (p * 4096)) st = Inr st' \<Longrightarrow> pool_run (A - {p}) st'"

lemma page_word:
  assumes "p < 2 ^ 20"
  shows "unat (of_nat (p * 4096) div 4096 :: u32) = p" and "uint (of_nat (p * 4096) div 4096 :: u32) = int p"
    and "0 < p \<Longrightarrow> of_nat (p * 4096) \<noteq> (0 :: u32)"
proof -
  have u: "unat (of_nat (p * 4096) :: u32) = p * 4096" using assms by (simp add: unat_of_nat del: of_nat_mult)
  then show d: "unat (of_nat (p * 4096) div 4096 :: u32) = p" by (simp add: unat_div_distrib del: of_nat_mult)
  then show "uint (of_nat (p * 4096) div 4096 :: u32) = int p" by (metis uint_nat)
  show "of_nat (p * 4096) \<noteq> (0 :: u32)" if "0 < p" using u that by (metis mult_eq_0_iff not_gr_zero unat_0 zero_neq_numeral)
qed

lemma pool_okD:
  assumes "pool_ok A st"
  obtains n r where "physmem_num_pages st = int n" "physmem_static_end st = int r" "0 < r" "r \<le> n" "n < 2 ^ 20"
    "n \<le> 32 * length (physmem_free_pages st)" "\<And>p. p < n \<Longrightarrow> p \<in> kbits (physmem_free_pages st) \<longleftrightarrow> p < r \<or> p \<in> A"
    "A \<subseteq> {r..<n}" "physmem_num_free_pages st = int (card ({r..<n} - A))" "physmem_slock st = 0"
proof -
  obtain n r where nr: "physmem_num_pages st = int n" "physmem_static_end st = int r" "0 < r" "r \<le> n" "n < 2 ^ 20"
    "n \<le> 32 * length (physmem_free_pages st)" "{p. p < n \<and> p \<in> kbits (physmem_free_pages st)} = {..<r} \<union> A"
    "A \<subseteq> {r..<n}" "physmem_num_free_pages st = int (card ({r..<n} - A))" "physmem_slock st = 0"
    using assms by (auto simp: pool_ok_def)
  have "p \<in> kbits (physmem_free_pages st) \<longleftrightarrow> p < r \<or> p \<in> A" if "p < n" for p
    using nr(7) that by (auto simp: set_eq_iff)
  then show thesis using nr that by blast
qed

lemma pool_okI:
  assumes "physmem_num_pages st = int n" and "physmem_static_end st = int r" and "0 < r" and "r \<le> n" and "n < 2 ^ 20"
    and "n \<le> 32 * length (physmem_free_pages st)" and "\<And>p. p < n \<Longrightarrow> p \<in> kbits (physmem_free_pages st) \<longleftrightarrow> p < r \<or> p \<in> A"
    and "A \<subseteq> {r..<n}" and "physmem_num_free_pages st = int (card ({r..<n} - A))" and "physmem_slock st = 0"
  shows "pool_ok A st"
  unfolding pool_ok_def using assms by (intro conjI exI [of _ n] exI [of _ r]) auto

lemma alloc_ok:
  assumes ok: "pool_ok A st"
  shows "if physmem_num_free_pages st = 0 then physmem_allocblock st = Inr (0, st)
    else \<exists>p st'. physmem_allocblock st = Inr (of_nat (p * 4096), st') \<and> p \<notin> A \<and>
      physmem_static_end st \<le> int p \<and> int p < physmem_num_pages st \<and> p < 2 ^ 20 \<and>
      (\<forall>q < p. q \<in> kbits (physmem_free_pages st)) \<and>
      pool_ok (insert p A) st' \<and> physmem_num_free_pages st' = physmem_num_free_pages st - 1 \<and> pm_intr st' = pm_intr st"
proof -
  obtain n r where D: "physmem_num_pages st = int n" "physmem_static_end st = int r" "0 < r" "r \<le> n" "n < 2 ^ 20"
    "n \<le> 32 * length (physmem_free_pages st)" "\<And>p. p < n \<Longrightarrow> p \<in> kbits (physmem_free_pages st) \<longleftrightarrow> p < r \<or> p \<in> A"
    "A \<subseteq> {r..<n}" "physmem_num_free_pages st = int (card ({r..<n} - A))" "physmem_slock st = 0"
    using pool_okD [OF ok] by blast
  show ?thesis
  proof (cases "physmem_num_free_pages st = 0")
    case True
    then show ?thesis using D(10) by (simp add: physmem_allocblock_def physmem_lock_def physmem_unlock_def)
  next
    case False
    then have pos: "0 < card ({r..<n} - A)" using D(9) by linarith
    then have "{r..<n} - A \<noteq> {}" by (metis card.empty less_irrefl)
    then obtain q where "q \<in> {r..<n} - A" by blast
    then obtain p where p: "first_free (kbits (physmem_free_pages st)) n = Some p"
      using first_free_None_iff [of _ n] D(7) [of q] by (cases "first_free (kbits (physmem_free_pages st)) n") auto
    note F = first_free_SomeD [OF p]
    obtain bm where bm: "bitmap_findnset (physmem_free_pages st) (int n) = Inr (int p, bm)"
        "length bm = length (physmem_free_pages st)" "kbits bm = insert p (kbits (physmem_free_pages st))"
      using kb.findnset_some [OF D(6) p] by auto
    let ?st = "st\<lparr>physmem_free_pages := bm, physmem_num_free_pages := physmem_num_free_pages st - 1\<rparr>"
    have pA: "p \<notin> A" "r \<le> p" "p < n" using D(7) [OF F(1)] F(1,2) by auto
    have "({r..<n} - insert p A) = ({r..<n} - A) - {p}" by auto
    then have card: "card ({r..<n} - A) = Suc (card ({r..<n} - insert p A))"
      using pA card_Suc_Diff1 [of "{r..<n} - A" p] by simp
    have "pool_ok (insert p A) ?st"
    proof (rule pool_okI [where n = n and r = r])
      show "physmem_num_free_pages ?st = int (card ({r..<n} - insert p A))" using D(9) card by simp
      show "q \<in> kbits (physmem_free_pages ?st) \<longleftrightarrow> q < r \<or> q \<in> insert p A" if "q < n" for q
        using D(7) [OF that] bm(3) by auto
    qed (use D(1-6,8,10) pA bm(2) in simp_all)
    moreover have "physmem_allocblock st = Inr (of_nat (p * 4096), ?st)"
      using D(1,9,10) bm(1) pos card
      by (simp add: physmem_allocblock_def physmem_lock_def physmem_unlock_def)
    ultimately show ?thesis using False pA D(1,2,5) F(3) by (intro if_not_P [THEN iffD2]) auto
  qed
qed

lemma free_ok:
  assumes ok: "pool_ok A st" and p: "p \<in> A"
  shows "\<exists>st'. physmem_freeblock (of_nat (p * 4096)) st = Inr st' \<and> pool_ok (A - {p}) st' \<and>
    physmem_num_free_pages st' = physmem_num_free_pages st + 1 \<and> pm_intr st' = pm_intr st"
proof -
  obtain n r where D: "physmem_num_pages st = int n" "physmem_static_end st = int r" "0 < r" "r \<le> n" "n < 2 ^ 20"
    "n \<le> 32 * length (physmem_free_pages st)" "\<And>p. p < n \<Longrightarrow> p \<in> kbits (physmem_free_pages st) \<longleftrightarrow> p < r \<or> p \<in> A"
    "A \<subseteq> {r..<n}" "physmem_num_free_pages st = int (card ({r..<n} - A))" "physmem_slock st = 0"
    using pool_okD [OF ok] by blast
  have pn: "r \<le> p" "p < n" "p < 32 * length (physmem_free_pages st)" "p \<in> kbits (physmem_free_pages st)"
    using D(6,7,8) p by force+
  have get: "bitmap_get (physmem_free_pages st) (int p) = Inr 1" using kb.get_law [OF pn(3)] pn(4) by simp
  obtain bm where bm: "bitmap_set (physmem_free_pages st) (int p) 0 = Inr bm" "length bm = length (physmem_free_pages st)"
      "kbits bm = kbits (physmem_free_pages st) - {p}"
    using kb.set_law [OF pn(3), of 0] by auto
  let ?st = "st\<lparr>physmem_free_pages := bm, physmem_num_free_pages := physmem_num_free_pages st + 1\<rparr>"
  have "{r..<n} - (A - {p}) = insert p ({r..<n} - A)" using pn by auto
  then have "card ({r..<n} - (A - {p})) = Suc (card ({r..<n} - A))" using p by simp
  then have card: "physmem_num_free_pages ?st = int (card ({r..<n} - (A - {p})))" using D(9) by simp
  have "pool_ok (A - {p}) ?st"
  proof (rule pool_okI [where n = n and r = r])
    show "q \<in> kbits (physmem_free_pages ?st) \<longleftrightarrow> q < r \<or> q \<in> A - {p}" if "q < n" for q
      using D(7) [OF that] pn(1) by (cases "q = p") (simp_all add: bm(3))
    show "A - {p} \<subseteq> {r..<n}" using D(8) by blast
  qed (use D(1-6,10) card bm(2) in simp_all)
  moreover have "physmem_freeblock (of_nat (p * 4096)) st = Inr ?st"
    using D(2,10) get bm(1) pn(1,2) page_word(2) [of p] D(5)
    by (simp add: physmem_freeblock_def physmem_lock_def physmem_unlock_def Let_def del: of_nat_mult)
  ultimately show ?thesis by auto
qed

lemma pool_run_ok: "pool_run A st \<Longrightarrow> pool_ok A st"
proof (induction rule: pool_run.induct)
  case (pool_alloc A st a st')
  show ?case
  proof (cases "physmem_num_free_pages st = 0")
    case True
    then show ?thesis using alloc_ok [OF pool_alloc(3)] pool_alloc(2,3) by simp
  next
    case False
    then obtain p where p: "a = of_nat (p * 4096)" "physmem_static_end st \<le> int p" "p < 2 ^ 20" "pool_ok (insert p A) st'"
      using alloc_ok [OF pool_alloc(3)] pool_alloc(2) by auto
    have "0 < p" using p(2) pool_alloc(3) by (auto simp: pool_ok_def)
    then show ?thesis using p page_word [OF p(3)] by simp
  qed
next
  case (pool_free A st p st')
  then show ?case using free_ok [of A st p] by auto
qed simp

section \<open>Permanent allocation is aligned and goes upwards\<close>

lemma and_fffffffc: "unat ((a :: u32) AND 0xfffffffc) = unat a - unat a mod 4"
proof -
  have e: "Suc (Suc (n - 2)) = n" if "2 \<le> n" for n using that by simp
  have "a AND NOT (mask 2) = push_bit 2 (drop_bit 2 a)"
    by (rule bit_word_eqI) (auto simp: bit_simps e not_less)
  moreover have "NOT (mask 2) = (0xfffffffc :: u32)" by (simp add: mask_eq_exp_minus_1)
  ultimately have "a AND 0xfffffffc = a - a mod 4"
    using bits_ident [of 2 a] by (simp add: take_bit_eq_mod algebra_simps)
  then show ?thesis by (simp add: unat_sub word_le_nat_alt unat_mod_distrib)
qed

lemma align4_eq:
  assumes "unat a < 2 ^ 32 - 4"
  shows "unat (align4 a) = 4 * ((unat a + 3) div 4)"
proof -
  have m: "a AND 0x03 = a mod 4" using take_bit_eq_mask [of 2 a] by (simp add: take_bit_eq_mod mask_eq_exp_minus_1)
  have z: "a AND 0x03 = 0 \<longleftrightarrow> unat a mod 4 = 0" unfolding m using unat_eq_zero [of "a mod 4"] by (simp add: unat_mod_distrib)
  show ?thesis
  proof (cases "unat a mod 4 = 0")
    case True
    then have "unat a = 4 * ((unat a + 3) div 4)" by presburger
    then show ?thesis using True z by (simp add: align4_def)
  next
    case False
    have "unat (a + 4) = unat a + 4" using unat_add_lem [of a 4] assms by simp
    then have "unat (align4 a) = unat a + 4 - (unat a + 4) mod 4" using False z by (simp add: align4_def and_fffffffc)
    also have "\<dots> = 4 * ((unat a + 3) div 4)" using False by presburger
    finally show ?thesis .
  qed
qed

lemma stalloc_eq:
  assumes "free_area_start st \<noteq> 0" and b: "unat (free_area_start st) + n < 2 ^ 32 - 4"
  shows "\<exists>st'. stalloc (int n) st = Inr (free_area_start st, st') \<and>
    unat (free_area_start st') = 4 * ((unat (free_area_start st) + n + 3) div 4) \<and>
    st' = st\<lparr>free_area_start := free_area_start st'\<rparr>"
proof -
  let ?a = "free_area_start st"
  have "?a \<noteq> 0xffffffff"
  proof
    assume "?a = 0xffffffff"
    then have "unat ?a = 4294967295" by simp
    then show False using b by simp
  qed
  moreover have "unat (?a + of_nat n) = unat ?a + n"
  proof -
    have "unat (of_nat n :: u32) = n" using b by (simp add: unat_of_nat)
    then show ?thesis using unat_add_lem [of ?a "of_nat n"] b by simp
  qed
  ultimately show ?thesis using assms align4_eq [of "?a + of_nat n"] by (auto simp: stalloc_def)
qed

section \<open>Initialisation of the pool\<close>

lemma reserve_pages_eq:
  assumes "i \<le> r" and "r \<le> 32 * length bm"
  shows "\<exists>bm'. reserve_pages (int i) (int r) bm = Inr bm' \<and> length bm' = length bm \<and> kbits bm' = kbits bm \<union> {i..<r}"
  using assms
proof (induction "r - i" arbitrary: i bm)
  case 0
  then show ?case by (subst reserve_pages.simps) auto
next
  case (Suc d)
  then have i: "i < r" "i < 32 * length bm" by auto
  obtain b1 where b1: "bitmap_set bm (int i) 1 = Inr b1" "length b1 = length bm" "kbits b1 = insert i (kbits bm)"
    using kb.set_law [OF i(2), of 1] by auto
  obtain b2 where b2: "reserve_pages (int (Suc i)) (int r) b1 = Inr b2" "length b2 = length b1" "kbits b2 = kbits b1 \<union> {Suc i..<r}"
    using Suc.hyps(1) [of "Suc i" b1] Suc.hyps(2) Suc.prems b1(2) i by fastforce
  have "insert i (kbits bm) \<union> {Suc i..<r} = kbits bm \<union> {i..<r}" using i(1) by auto
  then show ?case using i(1) b1 b2 by (subst reserve_pages.simps) (auto simp: add.commute)
qed

text \<open>The end of the bitmap behind the kernel, and the number of pages up to there.\<close>

definition bitmap_end :: "nat \<Rightarrow> physmem \<Rightarrow> nat" where
  "bitmap_end n st = 4 * ((unat (free_area_start st) + 4 * ((n + 31) div 32) + 3) div 4)"

definition reserved_pages :: "nat \<Rightarrow> physmem \<Rightarrow> nat" where
  "reserved_pages n st = (bitmap_end n st - 0x80000000 + 4095) div 4096"

lemma physmem_init_ok:
  assumes n: "physmem_get_size devs = Inr (int n)" "n < 2 ^ 20" and a: "free_area_start st \<noteq> 0"
    and junk: "n \<le> 32 * length junk" and e: "0x80000000 < bitmap_end n st" "bitmap_end n st < 2 ^ 32 - 8"
    and r: "reserved_pages n st \<le> n"
  shows "\<exists>st'. physmem_init devs junk st = Inr st' \<and> pool_ok {} st' \<and> physmem_num_pages st' = int n \<and>
    physmem_static_end st' = int (reserved_pages n st)"
proof -
  let ?w = "(n + 31) div 32" and ?b = "bitmap_end n st" and ?r = "reserved_pages n st"
  have sz: "bitmap_sizeof (int n) = int (4 * ?w)" by (simp add: bitmap_sizeof_def zdiv_int)
  have "unat (free_area_start st) + 4 * ?w \<le> ?b" unfolding bitmap_end_def by simp
  then obtain st1 where s1: "stalloc (bitmap_sizeof (int n)) st = Inr (free_area_start st, st1)"
      "unat (free_area_start st1) = ?b"
    unfolding sz using stalloc_eq [OF a, of "4 * ?w"] e(2) unfolding bitmap_end_def by auto
  have "free_area_start st1 \<noteq> 0" using s1(2) e(1) by auto
  then obtain st2 where s2: "stalloc 1 st1 = Inr (free_area_start st1, st2)"
    using stalloc_eq [of st1 1] s1(2) e(2) by auto
  let ?u = "free_area_start st1 - 0x80000000"
  have u: "unat ?u = ?b - 0x80000000"
    using s1(2) e(1) unat_sub [of "0x80000000" "free_area_start st1"] by (simp add: word_le_nat_alt)
  have ud: "unat (?u div 4096) = (?b - 0x80000000) div 4096" "unat (?u mod 4096) = (?b - 0x80000000) mod 4096"
    by (simp_all add: u unat_div_distrib unat_mod_distrib)
  have res: "physmem_get_reserved_size devs st1 = Inr (int ?r, st2)"
  proof -
    have m: "?u mod 4096 = 0 \<longleftrightarrow> (?b - 0x80000000) mod 4096 = 0" using unat_eq_zero [of "?u mod 4096"] ud(2) by argo
    have d: "uint (?u div 4096) = int ((?b - 0x80000000) div 4096)" unfolding ud(1) [symmetric] by simp
    have "?r = (?b - 0x80000000) div 4096 + (if (?b - 0x80000000) mod 4096 = 0 then 0 else 1)"
      unfolding reserved_pages_def by (rule ceil_div_page)
    then show ?thesis unfolding physmem_get_reserved_size_def using n(1) s2 m d by simp
  qed
  obtain b1 where b1: "bitmap_init junk (int n) = Inr b1" "length b1 = length junk" "\<forall>p < n. p \<notin> kbits b1"
    using bitmap_init_eq [OF junk] by blast
  obtain b2 where b2: "reserve_pages 0 (int ?r) b1 = Inr b2" "length b2 = length b1" "kbits b2 = kbits b1 \<union> {0..<?r}"
    using reserve_pages_eq [of 0 ?r b1] r junk b1(2) by auto
  let ?st = "st2\<lparr>physmem_num_pages := int n, physmem_free_pages := b2,
    physmem_num_free_pages := int n - int ?r, physmem_static_end := int ?r, physmem_slock := 0\<rparr>"
  have "physmem_init devs junk st = Inr ?st" using n(1) s1(1) b1(1) res b2(1) by (simp add: physmem_init_def)
  moreover have "pool_ok {} ?st"
  proof (rule pool_okI [where n = n and r = ?r])
    show "p \<in> kbits (physmem_free_pages ?st) \<longleftrightarrow> p < ?r \<or> p \<in> {}" if "p < n" for p
      using b1(3) that by (simp add: b2(3))
    show "0 < ?r" using e(1) by (simp add: reserved_pages_def)
    show "n \<le> 32 * length (physmem_free_pages ?st)" using junk b1(2) b2(2) by simp
  qed (use r n(2) in simp_all)
  ultimately show ?thesis by auto
qed

end
