(* ===== verification/Vm.thy ===== *)
theory Vm
  imports Physmem
begin

text \<open>
  Page tables on mips32 (\<^verbatim>\<open>src/kudos/vm/mips32/mm_virt.c\<close>, \<^verbatim>\<open>pagetable.h\<close>, \<^verbatim>\<open>tlb.h\<close>). An entry maps a pair of
  pages, as the hardware's TLB does; its bit fields have the width of the source, one-bit fields are
  booleans, and the padding fields are left out. The reference is a partial map from page numbers to frame numbers.
\<close>

section \<open>Data\<close>

abbreviation (input) PAGETABLE_ENTRIES :: nat where "PAGETABLE_ENTRIES \<equiv> 340"

record tlb_entry =
  VPN2 :: "19 word"
  ASID :: "8 word"
  PFN0 :: "20 word"
  C0 :: "3 word"
  D0 :: bool
  V0 :: bool
  G0 :: bool
  PFN1 :: "20 word"
  C1 :: "3 word"
  D1 :: bool
  V1 :: bool
  G1 :: bool

record pagetable =
  pt_ASID :: u32
  valid_count :: nat
  entries :: "tlb_entry list"

definition ADDR_IS_ON_EVEN_PAGE :: "u32 \<Rightarrow> bool" where
  "ADDR_IS_ON_EVEN_PAGE addr \<longleftrightarrow> addr AND 0x1000 = 0"

section \<open>Operations\<close>

definition vm_init :: "(u32 \<times> u32) list \<Rightarrow> bitmap \<Rightarrow> physmem \<Rightarrow> physmem res" where
  "vm_init devs junk st = rbind (physmem_init devs junk st) (\<lambda>st. Inr (stalloc_disable st))"

text \<open>
  The new table lies in the page that \<open>physmem_allocblock\<close> returns; \<open>junk\<close> is what the page holds. The
  result is the kernel's address of the page and the table, \<open>None\<close> for NULL.
\<close>

definition vm_create_pagetable :: "u32 \<Rightarrow> tlb_entry list \<Rightarrow> physmem \<Rightarrow> ((u32 \<times> pagetable) option \<times> physmem) res" where
  "vm_create_pagetable asid junk st =
     rbind (physmem_allocblock st) (\<lambda>(addr, st).
     if addr = 0 then Inr (None, st)
     else Inr (Some (addr OR 0x80000000, \<lparr>pt_ASID = asid, valid_count = 0, entries = junk\<rparr>), st))"

definition vm_destroy_pagetable :: "u32 \<Rightarrow> physmem \<Rightarrow> physmem res" where
  "vm_destroy_pagetable addr st = physmem_freeblock (addr AND 0x7fffffff) st"

text \<open>The first of the \<open>n\<close> entries from \<open>i\<close> for the page pair.\<close>

fun find_pair :: "nat \<Rightarrow> nat \<Rightarrow> u32 \<Rightarrow> tlb_entry list \<Rightarrow> nat option res" where
  "find_pair 0 i vpn2 es = Inr None"
| "find_pair (Suc n) i vpn2 es =
     rbind (lget es (int i)) (\<lambda>e. if ucast (VPN2 e) = vpn2 then Inr (Some i) else find_pair n (Suc i) vpn2 es)"

definition vm_map :: "u32 \<Rightarrow> u32 \<Rightarrow> int \<Rightarrow> pagetable option \<Rightarrow> pagetable option res" where
  "vm_map physaddr vaddr flags table =
     (case table of None \<Rightarrow> Inr None | Some pt \<Rightarrow>
      rbind (kassert (flags = 0 \<or> flags = 1)) (\<lambda>_.
      rbind (find_pair (valid_count pt) 0 (drop_bit 13 vaddr) (entries pt)) (\<lambda>r.
      case r of
        Some i \<Rightarrow>
          rbind (lget (entries pt) (int i)) (\<lambda>e.
          if ADDR_IS_ON_EVEN_PAGE vaddr then
            if V0 e then Inl Panic
            else rbind (lset (entries pt) (int i) (e\<lparr>PFN0 := ucast (drop_bit 12 physaddr), V0 := True, G0 := False, D0 := flags = 1\<rparr>))
              (\<lambda>es. Inr (Some (pt\<lparr>entries := es\<rparr>)))
          else
            if V1 e then Inl Panic
            else rbind (lset (entries pt) (int i) (e\<lparr>PFN1 := ucast (drop_bit 12 physaddr), V1 := True, G1 := False, D1 := flags = 1\<rparr>))
              (\<lambda>es. Inr (Some (pt\<lparr>entries := es\<rparr>))))
      | None \<Rightarrow>
          if valid_count pt \<ge> PAGETABLE_ENTRIES then Inl Panic
          else
            rbind (lget (entries pt) (int (valid_count pt))) (\<lambda>e.
            let e = e\<lparr>VPN2 := ucast (drop_bit 13 vaddr), ASID := ucast (pt_ASID pt)\<rparr>;
                e = (if ADDR_IS_ON_EVEN_PAGE vaddr
                     then e\<lparr>PFN0 := ucast (drop_bit 12 physaddr), D0 := flags = 1, V0 := True, G0 := False, V1 := False\<rparr>
                     else e\<lparr>PFN1 := ucast (drop_bit 12 physaddr), D1 := flags = 1, V1 := True, G1 := False, V0 := False\<rparr>) in
            rbind (lset (entries pt) (int (valid_count pt)) e) (\<lambda>es.
            Inr (Some (pt\<lparr>entries := es, valid_count := Suc (valid_count pt)\<rparr>)))))))"

definition vm_unmap :: "u32 \<Rightarrow> pagetable \<Rightarrow> pagetable" where
  "vm_unmap vaddr pt = pt"

fun getmap_loop :: "nat \<Rightarrow> nat \<Rightarrow> u32 \<Rightarrow> tlb_entry list \<Rightarrow> u32 res" where
  "getmap_loop 0 i vaddr es = Inr 0"
| "getmap_loop (Suc n) i vaddr es =
     rbind (lget es (int i)) (\<lambda>e.
     if ucast (VPN2 e) = drop_bit 1 (drop_bit 12 vaddr) then
       if ADDR_IS_ON_EVEN_PAGE vaddr \<and> V0 e then Inr (push_bit 12 (ucast (PFN0 e)))
       else if V1 e then Inr (push_bit 12 (ucast (PFN1 e)))
       else getmap_loop n (Suc i) vaddr es
     else getmap_loop n (Suc i) vaddr es)"

definition vm_getmap :: "u32 \<Rightarrow> pagetable \<Rightarrow> u32 res" where
  "vm_getmap vaddr pt = getmap_loop (valid_count pt) 0 vaddr (entries pt)"

definition vm_set_dirty :: "u32 \<Rightarrow> int \<Rightarrow> pagetable \<Rightarrow> pagetable res" where
  "vm_set_dirty vaddr dirty pt =
     rbind (kassert (dirty = 0 \<or> dirty = 1)) (\<lambda>_.
     rbind (find_pair (valid_count pt) 0 (drop_bit 13 vaddr) (entries pt)) (\<lambda>r.
     case r of None \<Rightarrow> Inl Panic
     | Some i \<Rightarrow>
         rbind (lget (entries pt) (int i)) (\<lambda>e.
         if ADDR_IS_ON_EVEN_PAGE vaddr then
           if \<not> V0 e then Inl Panic
           else rbind (lset (entries pt) (int i) (e\<lparr>D0 := dirty = 1\<rparr>)) (\<lambda>es. Inr (pt\<lparr>entries := es\<rparr>))
         else
           if \<not> V1 e then Inl Panic
           else rbind (lset (entries pt) (int i) (e\<lparr>D1 := dirty = 1\<rparr>)) (\<lambda>es. Inr (pt\<lparr>entries := es\<rparr>)))))"

section \<open>The table as a map from pages to frames\<close>

text \<open>
  The abstract page table: the page of an address is its number, \<open>drop_bit 12\<close>. \<open>pair\<close> is the entry of a
  page pair, if there is one.
\<close>

definition valid_entries :: "pagetable \<Rightarrow> tlb_entry list" where
  "valid_entries pt = take (valid_count pt) (entries pt)"

definition pt_ok :: "pagetable \<Rightarrow> bool" where
  "pt_ok pt \<longleftrightarrow> length (entries pt) = PAGETABLE_ENTRIES \<and> valid_count pt \<le> PAGETABLE_ENTRIES \<and>
     distinct (map VPN2 (valid_entries pt))"

definition pair :: "pagetable \<Rightarrow> 19 word \<Rightarrow> tlb_entry option" where
  "pair pt = map_of (map (\<lambda>e. (VPN2 e, e)) (valid_entries pt))"

definition frame_of :: "pagetable \<Rightarrow> u32 \<Rightarrow> 20 word option" where
  "frame_of pt vaddr =
     (case pair pt (ucast (drop_bit 13 vaddr)) of None \<Rightarrow> None
      | Some e \<Rightarrow> if ADDR_IS_ON_EVEN_PAGE vaddr then if V0 e then Some (PFN0 e) else None
                 else if V1 e then Some (PFN1 e) else None)"

subsection \<open>Addresses and pages\<close>

lemma and_single_bit: "(v :: u32) AND push_bit k 1 = (if bit v k then push_bit k 1 else 0)"
  by (auto intro!: bit_word_eqI simp: bit_simps)

lemma even_bit: "ADDR_IS_ON_EVEN_PAGE v \<longleftrightarrow> \<not> bit v 12"
proof -
  have n: "0x1000 = (push_bit 12 1 :: u32)" by (simp add: push_bit_eq_mult)
  have z: "(push_bit 12 1 :: u32) \<noteq> 0" by (simp add: push_bit_eq_mult)
  show ?thesis unfolding ADDR_IS_ON_EVEN_PAGE_def n and_single_bit using z by (cases "bit v 12") simp_all
qed

lemma pair_number: "ucast (w :: 19 word) = drop_bit 13 (v :: u32) \<longleftrightarrow> w = ucast (drop_bit 13 v)"
proof
  assume "ucast w = drop_bit 13 v"
  moreover have "ucast (ucast w :: u32) = w" by (rule bit_word_eqI) (simp add: bit_simps)
  ultimately show "w = ucast (drop_bit 13 v)" by simp
next
  assume "w = ucast (drop_bit 13 v)"
  moreover have "n < 19" if "bit v (13 + n)" for n using bit_imp_le_length [OF that] by simp
  ultimately show "ucast w = drop_bit 13 v" by (auto intro!: bit_word_eqI simp: bit_simps)
qed

lemma same_page:
  "drop_bit 12 (v :: u32) = drop_bit 12 w \<longleftrightarrow> (ucast (drop_bit 13 v) :: 19 word) = ucast (drop_bit 13 w) \<and> bit v 12 = bit w 12"
proof
  assume "drop_bit 12 v = drop_bit 12 w"
  then have b: "bit v (12 + n) = bit w (12 + n)" for n by (metis bit_drop_bit_eq comp_apply)
  then show "(ucast (drop_bit 13 v) :: 19 word) = ucast (drop_bit 13 w) \<and> bit v 12 = bit w 12"
    using b [of "Suc _"] b [of 0] by (auto intro!: bit_word_eqI simp: bit_simps)
next
  assume a: "(ucast (drop_bit 13 v) :: 19 word) = ucast (drop_bit 13 w) \<and> bit v 12 = bit w 12"
  then have "bit (ucast (drop_bit 13 v) :: 19 word) n = bit (ucast (drop_bit 13 w) :: 19 word) n" for n by simp
  then have b: "bit v (13 + n) = bit w (13 + n)" if "n < 19" for n using that by (auto simp: bit_simps)
  show "drop_bit 12 v = drop_bit 12 w"
  proof (rule bit_word_eqI)
    fix n assume "n < LENGTH(32)"
    show "bit (drop_bit 12 v) n = bit (drop_bit 12 w) n"
    proof (cases n)
      case (Suc m)
      then show ?thesis using b [of m] bit_imp_le_length [of v "13 + m"] bit_imp_le_length [of w "13 + m"]
        by (cases "m < 19") (auto simp: bit_simps)
    qed (use a in \<open>simp add: bit_simps\<close>)
  qed
qed

lemma frame_address: "push_bit 12 (ucast (ucast (drop_bit 12 (a :: u32)) :: 20 word) :: u32) = a AND 0xfffff000"
proof -
  have n: "0xfffff000 = NOT (mask 12 :: u32)" by (simp add: mask_eq_exp_minus_1)
  have "12 + (n - 12) = n" if "12 \<le> n" for n :: nat using that by simp
  then show ?thesis unfolding n by (auto intro!: bit_word_eqI simp: bit_simps dest: bit_imp_le_length)
qed

subsection \<open>The entries as a map\<close>

lemma find_pair_step:
  "find_pair (length es2) (length es1) (drop_bit 13 v) (es1 @ es2 @ es3) =
     (case map_of (map (\<lambda>e. (VPN2 e, e)) es2) (ucast (drop_bit 13 v)) of None \<Rightarrow> Inr None
      | Some e \<Rightarrow> Inr (Some (length es1 + length (takeWhile (\<lambda>e. VPN2 e \<noteq> ucast (drop_bit 13 v)) es2))))"
proof (induction es2 arbitrary: es1)
  case (Cons e es2)
  show ?case using Cons.IH [of "es1 @ [e]"]
    by (auto simp: pair_number lget_def nth_append split: option.splits)
qed simp

lemma map_of_first:
  assumes "map_of (map (\<lambda>e. (VPN2 e, e)) es) w = Some e"
  shows "length (takeWhile (\<lambda>e. VPN2 e \<noteq> w) es) < length es \<and> es ! length (takeWhile (\<lambda>e. VPN2 e \<noteq> w) es) = e \<and> VPN2 e = w"
  using assms by (induction es) (auto split: if_splits)

lemma find_pair_eq:
  assumes "pt_ok pt"
  shows "pair pt (ucast (drop_bit 13 v)) = None \<Longrightarrow> find_pair (valid_count pt) 0 (drop_bit 13 v) (entries pt) = Inr None"
    and "pair pt (ucast (drop_bit 13 v)) = Some e \<Longrightarrow>
      \<exists>i < valid_count pt. find_pair (valid_count pt) 0 (drop_bit 13 v) (entries pt) = Inr (Some i) \<and>
        entries pt ! i = e \<and> VPN2 e = ucast (drop_bit 13 v)"
proof -
  let ?es = "valid_entries pt"
  have l: "length ?es = valid_count pt" using assms by (simp add: pt_ok_def valid_entries_def)
  have e: "entries pt = ?es @ drop (valid_count pt) (entries pt)" by (simp add: valid_entries_def)
  note S = find_pair_step [of ?es "[]" v "drop (valid_count pt) (entries pt)", unfolded append_Nil e [symmetric] l list.size]
  show "find_pair (valid_count pt) 0 (drop_bit 13 v) (entries pt) = Inr None" if "pair pt (ucast (drop_bit 13 v)) = None"
    using S that by (simp add: pair_def)
  show "\<exists>i < valid_count pt. find_pair (valid_count pt) 0 (drop_bit 13 v) (entries pt) = Inr (Some i) \<and>
        entries pt ! i = e \<and> VPN2 e = ucast (drop_bit 13 v)" if p: "pair pt (ucast (drop_bit 13 v)) = Some e"
  proof -
    have "map_of (map (\<lambda>e. (VPN2 e, e)) ?es) (ucast (drop_bit 13 v)) = Some e" using p by (simp add: pair_def)
    from map_of_first [OF this] show ?thesis using S p l by (auto simp: pair_def valid_entries_def)
  qed
qed

lemma map_of_update:
  "distinct (map VPN2 es) \<Longrightarrow> i < length es \<Longrightarrow> VPN2 e = VPN2 (es ! i) \<Longrightarrow>
   map_of (map (\<lambda>e. (VPN2 e, e)) (es[i := e])) = (map_of (map (\<lambda>e. (VPN2 e, e)) es))(VPN2 e \<mapsto> e)"
proof (induction es arbitrary: i)
  case (Cons a es)
  show ?case
  proof (cases i)
    case (Suc j)
    then have "VPN2 a \<noteq> VPN2 e" using Cons.prems by auto
    moreover have "map_of (map (\<lambda>e. (VPN2 e, e)) (es[j := e])) = (map_of (map (\<lambda>e. (VPN2 e, e)) es))(VPN2 e \<mapsto> e)"
      using Cons.prems Suc by (intro Cons.IH) auto
    ultimately show ?thesis using Suc by (simp add: fun_upd_twist del: fun_upd_apply)
  qed (use Cons.prems in \<open>auto simp: fun_eq_iff\<close>)
qed simp

lemma pair_update:
  assumes "pt_ok pt" and "i < valid_count pt" and "VPN2 e = VPN2 (entries pt ! i)"
  shows "pt_ok (pt\<lparr>entries := (entries pt)[i := e]\<rparr>)"
    and "pair (pt\<lparr>entries := (entries pt)[i := e]\<rparr>) = (pair pt)(VPN2 e \<mapsto> e)"
proof -
  let ?es = "valid_entries pt"
  have l: "length ?es = valid_count pt" using assms(1) by (simp add: pt_ok_def valid_entries_def)
  have v: "valid_entries (pt\<lparr>entries := (entries pt)[i := e]\<rparr>) = ?es[i := e]"
    by (simp add: valid_entries_def take_update_swap)
  have n: "VPN2 e = VPN2 (?es ! i)" using assms(2,3) by (simp add: valid_entries_def)
  have "map VPN2 (?es[i := e]) = map VPN2 ?es" using n assms(2) l by (simp add: map_update list_update_same_conv)
  then show "pt_ok (pt\<lparr>entries := (entries pt)[i := e]\<rparr>)" using assms(1) v by (simp add: pt_ok_def)
  show "pair (pt\<lparr>entries := (entries pt)[i := e]\<rparr>) = (pair pt)(VPN2 e \<mapsto> e)"
    unfolding pair_def v using map_of_update [OF _ _ n] assms(1,2) l by (simp add: pt_ok_def)
qed

lemma pair_add:
  assumes "pt_ok pt" and "valid_count pt < 340" and "pair pt (VPN2 e) = None"
  shows "pt_ok (pt\<lparr>entries := (entries pt)[valid_count pt := e], valid_count := Suc (valid_count pt)\<rparr>)"
    and "pair (pt\<lparr>entries := (entries pt)[valid_count pt := e], valid_count := Suc (valid_count pt)\<rparr>) = (pair pt)(VPN2 e \<mapsto> e)"
proof -
  have v: "valid_entries (pt\<lparr>entries := (entries pt)[valid_count pt := e], valid_count := Suc (valid_count pt)\<rparr>) =
      valid_entries pt @ [e]"
    using assms(1,2) by (simp add: valid_entries_def pt_ok_def take_Suc_conv_app_nth)
  have "VPN2 e \<notin> set (map VPN2 (valid_entries pt))" using assms(3) by (simp add: pair_def map_of_eq_None_iff image_image)
  then show "pt_ok (pt\<lparr>entries := (entries pt)[valid_count pt := e], valid_count := Suc (valid_count pt)\<rparr>)"
    using assms(1,2) v by (simp add: pt_ok_def)
  show "pair (pt\<lparr>entries := (entries pt)[valid_count pt := e], valid_count := Suc (valid_count pt)\<rparr>) = (pair pt)(VPN2 e \<mapsto> e)"
    unfolding pair_def v using assms(3) by (auto simp: pair_def map_add_def fun_eq_iff split: option.splits)
qed

subsection \<open>Mapping and looking up\<close>

lemma frame_of_bit:
  "frame_of pt v = (case pair pt (ucast (drop_bit 13 v)) of None \<Rightarrow> None
     | Some e \<Rightarrow> if bit v 12 then (if V1 e then Some (PFN1 e) else None) else (if V0 e then Some (PFN0 e) else None))"
  by (simp add: frame_of_def even_bit split: option.split)

lemma frame_of_set:
  assumes "pair pt' = (pair pt)(ucast (drop_bit 13 v) \<mapsto> e')"
    and "if bit v 12 then V1 e' \<and> PFN1 e' = f else V0 e' \<and> PFN0 e' = f"
    and "case pair pt (ucast (drop_bit 13 v)) of Some e \<Rightarrow> (if bit v 12 then V0 e' = V0 e \<and> PFN0 e' = PFN0 e else V1 e' = V1 e \<and> PFN1 e' = PFN1 e)
      | None \<Rightarrow> if bit v 12 then \<not> V0 e' else \<not> V1 e'"
  shows "frame_of pt' w = (if drop_bit 12 w = drop_bit 12 v then Some f else frame_of pt w)"
proof -
  note s = same_page [of w v]
  show ?thesis using assms
    by (cases "bit v 12"; cases "bit w 12"; cases "(ucast (drop_bit 13 w) :: 19 word) = ucast (drop_bit 13 v)")
      (auto simp: frame_of_bit s split: option.splits)
qed

lemma vm_map_frame:
  assumes ok: "pt_ok pt" and free: "frame_of pt v = None" and f: "flags = 0 \<or> flags = 1"
    and room: "pair pt (ucast (drop_bit 13 v)) \<noteq> None \<or> valid_count pt < PAGETABLE_ENTRIES"
  shows "\<exists>pt'. vm_map phys v flags (Some pt) = Inr (Some pt') \<and> pt_ok pt' \<and>
    (\<forall>w. frame_of pt' w = (if drop_bit 12 w = drop_bit 12 v then Some (ucast (drop_bit 12 phys)) else frame_of pt w))"
proof (cases "pair pt (ucast (drop_bit 13 v))")
  case None
  define e0 where "e0 = entries pt ! valid_count pt"
  define e' where "e' = (if bit v 12
      then e0\<lparr>VPN2 := ucast (drop_bit 13 v), ASID := ucast (pt_ASID pt), PFN1 := ucast (drop_bit 12 phys), D1 := flags = 1, V1 := True, G1 := False, V0 := False\<rparr>
      else e0\<lparr>VPN2 := ucast (drop_bit 13 v), ASID := ucast (pt_ASID pt), PFN0 := ucast (drop_bit 12 phys), D0 := flags = 1, V0 := True, G0 := False, V1 := False\<rparr>)"
  let ?pt = "pt\<lparr>entries := (entries pt)[valid_count pt := e'], valid_count := Suc (valid_count pt)\<rparr>"
  have room': "valid_count pt < 340" "valid_count pt < length (entries pt)" using room None ok by (simp_all add: pt_ok_def)
  have vpn: "VPN2 e' = ucast (drop_bit 13 v)" by (simp add: e'_def)
  have "vm_map phys v flags (Some pt) = Inr (Some ?pt)"
    using find_pair_eq(1) [OF ok None] room' f
    by (simp add: vm_map_def even_bit e'_def e0_def Let_def)
  moreover have "pt_ok ?pt" "pair ?pt = (pair pt)(ucast (drop_bit 13 v) \<mapsto> e')"
    using pair_add [OF ok room'(1), of e'] None vpn by simp_all
  moreover have "frame_of ?pt w = (if drop_bit 12 w = drop_bit 12 v then Some (ucast (drop_bit 12 phys)) else frame_of pt w)" for w
    by (rule frame_of_set [where e' = e']) (use None calculation(3) in \<open>simp_all add: e'_def\<close>)
  ultimately show ?thesis by blast
next
  case (Some e)
  obtain i where i: "i < valid_count pt" "find_pair (valid_count pt) 0 (drop_bit 13 v) (entries pt) = Inr (Some i)"
      "entries pt ! i = e" "VPN2 e = ucast (drop_bit 13 v)"
    using find_pair_eq(2) [OF ok Some] by blast
  define e' where "e' = (if bit v 12
      then e\<lparr>PFN1 := ucast (drop_bit 12 phys), V1 := True, G1 := False, D1 := flags = 1\<rparr>
      else e\<lparr>PFN0 := ucast (drop_bit 12 phys), V0 := True, G0 := False, D0 := flags = 1\<rparr>)"
  let ?pt = "pt\<lparr>entries := (entries pt)[i := e']\<rparr>"
  have len: "i < length (entries pt)" using i(1) ok by (simp add: pt_ok_def)
  have nv: "if bit v 12 then \<not> V1 e else \<not> V0 e" using free Some by (auto simp: frame_of_bit split: if_splits)
  have "vm_map phys v flags (Some pt) = Inr (Some ?pt)"
    using i(2,3) len nv f by (simp add: vm_map_def even_bit e'_def split: if_splits)
  moreover have "pt_ok ?pt" "pair ?pt = (pair pt)(ucast (drop_bit 13 v) \<mapsto> e')"
    using pair_update [OF ok i(1), of e'] i(3,4) by (simp_all add: e'_def split: if_splits)
  moreover have "frame_of ?pt w = (if drop_bit 12 w = drop_bit 12 v then Some (ucast (drop_bit 12 phys)) else frame_of pt w)" for w
    by (rule frame_of_set [where e' = e']) (use Some calculation(3) in \<open>simp_all add: e'_def\<close>)
  ultimately show ?thesis by blast
qed

lemma getmap_loop_eq:
  assumes "distinct (map VPN2 es2)"
  shows "getmap_loop (length es2) (length es1) v (es1 @ es2 @ es3) =
    Inr (case map_of (map (\<lambda>e. (VPN2 e, e)) es2) (ucast (drop_bit 13 v)) of None \<Rightarrow> 0
      | Some e \<Rightarrow> if \<not> bit v 12 \<and> V0 e then push_bit 12 (ucast (PFN0 e)) else if V1 e then push_bit 12 (ucast (PFN1 e)) else 0)"
  using assms
proof (induction es2 arbitrary: es1)
  case (Cons e es2)
  have "map_of (map (\<lambda>e. (VPN2 e, e)) es2) (VPN2 e) = None" using Cons.prems by (simp add: map_of_eq_None_iff image_image)
  then show ?case using Cons.IH [of "es1 @ [e]"] Cons.prems
    by (auto simp: pair_number drop_bit_drop_bit even_bit lget_def nth_append)
qed simp

lemma vm_getmap_eq:
  assumes "pt_ok pt"
  shows "vm_getmap v pt = Inr (case pair pt (ucast (drop_bit 13 v)) of None \<Rightarrow> 0
    | Some e \<Rightarrow> if \<not> bit v 12 \<and> V0 e then push_bit 12 (ucast (PFN0 e)) else if V1 e then push_bit 12 (ucast (PFN1 e)) else 0)"
proof -
  let ?es = "valid_entries pt"
  have l: "length ?es = valid_count pt" using assms by (simp add: pt_ok_def valid_entries_def)
  have e: "entries pt = ?es @ drop (valid_count pt) (entries pt)" by (simp add: valid_entries_def)
  show ?thesis unfolding vm_getmap_def pair_def
    using getmap_loop_eq [of ?es "[]" v "drop (valid_count pt) (entries pt)", unfolded append_Nil e [symmetric] l list.size] assms
    by (simp add: pt_ok_def)
qed

lemma getmap_frame:
  assumes "pt_ok pt" and "frame_of pt v = Some f"
  shows "vm_getmap v pt = Inr (push_bit 12 (ucast f))"
  using assms(2) unfolding vm_getmap_eq [OF assms(1)] by (auto simp: frame_of_bit split: option.splits if_splits)

lemma frame_of_page: "drop_bit 12 v = drop_bit 12 w \<Longrightarrow> frame_of pt v = frame_of pt w"
  unfolding same_page by (simp add: frame_of_bit split: option.split)

end
