(* ===== verification/Memory_Properties.thy ===== *)
theory Memory_Properties
  imports Vm
begin

text \<open>
  The theorems about kernel memory on mips32: the page pool and the page tables. \<open>ex_pool\<close> is a pool of
  three pages of which the kernel occupies the first, \<open>ex_pt\<close> an empty page table.
\<close>

section \<open>Physical pages\<close>

definition ex_pool :: physmem where
  "ex_pool = \<lparr>kernel_end = 0x80000500, free_area_start = 0x80000600, stalloced_total = 0, physmem_free_pages = [1],
     physmem_num_pages = 3, physmem_num_free_pages = 2, physmem_static_end = 1, physmem_slock = 0, pm_intr = True\<rparr>"

lemma ex_pool_run: "pool_run {} ex_pool"
proof (rule pool_start, rule pool_okI [where n = 3 and r = 1])
  show "p \<in> kbits (physmem_free_pages ex_pool) \<longleftrightarrow> p < 1 \<or> p \<in> {}" if "p < 3" for p
    using that by (auto simp: ex_pool_def used_bits_def bit_1_iff)
qed (simp_all add: ex_pool_def)

text \<open>
  However pages are allocated and freed, \<open>physmem_allocblock\<close> returns a page that is neither the
  kernel's nor handed out already, inside the memory, and the count of free pages goes down by one; with
  no page left it returns 0 and changes nothing.
\<close>

lemma physmem_allocblock_fresh:
  assumes "pool_run A st"
  shows "if physmem_num_free_pages st = 0 then physmem_allocblock st = Inr (0, st)
    else \<exists>p st'. physmem_allocblock st = Inr (of_nat (p * 4096), st') \<and> p \<notin> A \<and>
      physmem_static_end st \<le> int p \<and> int p < physmem_num_pages st \<and> pool_run (insert p A) st' \<and>
      physmem_num_free_pages st' = physmem_num_free_pages st - 1"
proof (cases "physmem_num_free_pages st = 0")
  case False
  obtain p st' where p: "physmem_allocblock st = Inr (of_nat (p * 4096), st')" "p \<notin> A" "physmem_static_end st \<le> int p"
      "int p < physmem_num_pages st" "p < 2 ^ 20" "physmem_num_free_pages st' = physmem_num_free_pages st - 1"
    using alloc_ok [OF pool_run_ok [OF assms]] False by auto
  have "0 < p" using p(3) pool_run_ok [OF assms] by (auto simp: pool_ok_def)
  then have "pool_run (insert p A) st'"
    using pool_alloc [OF assms p(1)] page_word [OF p(5)] by (simp del: of_nat_mult)
  then show ?thesis using False p by auto
qed (use alloc_ok [OF pool_run_ok [OF assms]] in simp)

text \<open>
  The count of free pages is always the number of pages that are neither the kernel's nor handed
  out, and freeing a page that was handed out never fails an assertion and makes it free again.
\<close>

lemma physmem_accounting:
  assumes "pool_run A st"
  shows "finite A \<and> physmem_num_free_pages st = physmem_num_pages st - physmem_static_end st - int (card A) \<and>
    (\<forall>p \<in> A. \<exists>st'. physmem_freeblock (of_nat (p * 4096)) st = Inr st' \<and> pool_run (A - {p}) st' \<and>
      physmem_num_free_pages st' = physmem_num_free_pages st + 1)"
proof (intro conjI ballI)
  note ok = pool_run_ok [OF assms]
  obtain n r where D: "physmem_num_pages st = int n" "physmem_static_end st = int r" "r \<le> n"
      "A \<subseteq> {r..<n}" "physmem_num_free_pages st = int (card ({r..<n} - A))"
    using pool_okD [OF ok] by metis
  show fin: "finite A" using D(4) finite_subset by blast
  have "card ({r..<n} - A) = (n - r) - card A" "card A \<le> n - r"
    using card_Diff_subset [OF fin D(4)] card_mono [OF _ D(4)] by simp_all
  then show "physmem_num_free_pages st = physmem_num_pages st - physmem_static_end st - int (card A)"
    using D(1,2,3,5) by simp
  fix p assume p: "p \<in> A"
  obtain st' where "physmem_freeblock (of_nat (p * 4096)) st = Inr st'" "physmem_num_free_pages st' = physmem_num_free_pages st + 1"
    using free_ok [OF ok p] by blast
  then show "\<exists>st'. physmem_freeblock (of_nat (p * 4096)) st = Inr st' \<and> pool_run (A - {p}) st' \<and>
      physmem_num_free_pages st' = physmem_num_free_pages st + 1"
    using pool_free [OF assms p] by blast
qed

definition ex_mem :: physmem where
  "ex_mem = \<lparr>kernel_end = 0x80000500, free_area_start = 0x80000600, stalloced_total = 0, physmem_free_pages = [],
     physmem_num_pages = 0, physmem_num_free_pages = 0, physmem_static_end = 0, physmem_slock = 0, pm_intr = True\<rparr>"

text \<open>
  \<open>vm_init\<close> sets up a pool in which exactly the pages up to the end of the kernel, the permanently
  allocated memory and the pool's own bitmap are taken; every later permanent allocation panics.
\<close>

lemma vm_init_pool:
  assumes "physmem_get_size devs = Inr (int n)" and "n < 2 ^ 20" and "free_area_start st \<noteq> 0"
    and "n \<le> 32 * length junk" and "0x80000000 < bitmap_end n st" and "bitmap_end n st < 2 ^ 32 - 8"
    and "reserved_pages n st \<le> n"
  shows "\<exists>st'. vm_init devs junk st = Inr st' \<and> pool_run {} st' \<and> physmem_num_pages st' = int n \<and>
    physmem_static_end st' = int (reserved_pages n st) \<and> stalloc bytes st' = Inl Panic"
proof -
  obtain st' where st': "physmem_init devs junk st = Inr st'" "pool_ok {} st'" "physmem_num_pages st' = int n"
      "physmem_static_end st' = int (reserved_pages n st)"
    using physmem_init_ok [OF assms] by blast
  have "pool_ok {} (stalloc_disable st')" using st'(2) by (simp add: pool_ok_def stalloc_disable_def)
  moreover have "stalloc bytes (stalloc_disable st') = Inl Panic" by (simp add: stalloc_def stalloc_disable_def)
  ultimately show ?thesis using st' pool_start by (auto simp: vm_init_def stalloc_disable_def)
qed

section \<open>Page tables\<close>

definition ex_tlb :: tlb_entry where
  "ex_tlb = \<lparr>VPN2 = 3, ASID = 0, PFN0 = 9, C0 = 2, D0 = True, V0 = True, G0 = True, PFN1 = 9, C1 = 2, D1 = True, V1 = True, G1 = True\<rparr>"

definition ex_pt :: pagetable where
  "ex_pt = \<lparr>pt_ASID = 1, valid_count = 0, entries = replicate 340 ex_tlb\<rparr>"

lemma ex_pt_ok: "pt_ok ex_pt" "frame_of ex_pt v = None" "pair ex_pt w = None"
  by (simp_all add: ex_pt_def pt_ok_def valid_entries_def pair_def frame_of_def)

text \<open>
  C12. A page table is a partial map from pages to frames: \<open>vm_map\<close> of an unmapped page adds exactly this
  page to the map, whatever the other page of the pair and the old contents of the entry are, as long
  as there is an entry left.
\<close>

theorem vm_map_refines:
  assumes "pt_ok pt" and "frame_of pt v = None" and "flags = 0 \<or> flags = 1"
    and "pair pt (ucast (drop_bit 13 v)) \<noteq> None \<or> valid_count pt < PAGETABLE_ENTRIES"
  shows "\<exists>pt'. vm_map phys v flags (Some pt) = Inr (Some pt') \<and> pt_ok pt' \<and>
    (\<forall>w. frame_of pt' w = (if drop_bit 12 w = drop_bit 12 v then Some (ucast (drop_bit 12 phys)) else frame_of pt w))"
  by (rule vm_map_frame [OF assms])

theorem vm_map_refines_witness:
  "\<exists>pt'. vm_map 0x5000 0x3008 1 (Some ex_pt) = Inr (Some pt') \<and> frame_of pt' 0x3ff0 = Some 5 \<and> frame_of pt' 0x2000 = None"
proof -
  have "drop_bit 12 (0x3ff0 :: u32) = drop_bit 12 0x3008" "drop_bit 12 (0x2000 :: u32) \<noteq> drop_bit 12 0x3008"
    "(ucast (drop_bit 12 (0x5000 :: u32)) :: 20 word) = 5" by (simp_all add: drop_bit_eq_div)
  then show ?thesis using vm_map_refines [where pt = ex_pt and v = "0x3008" and flags = 1 and phys = "0x5000"] ex_pt_ok by (fastforce simp: ex_pt_def)
qed

text \<open>
  After \<open>vm_map\<close> every address of the page is translated by \<open>vm_getmap\<close> to the frame given, and
  the translation of every other mapped page is as before.
\<close>

lemma vm_map_getmap:
  assumes "pt_ok pt" and "frame_of pt v = None" and "flags = 0 \<or> flags = 1"
    and "pair pt (ucast (drop_bit 13 v)) \<noteq> None \<or> valid_count pt < PAGETABLE_ENTRIES"
  shows "\<exists>pt'. vm_map phys v flags (Some pt) = Inr (Some pt') \<and>
    (\<forall>w. drop_bit 12 w = drop_bit 12 v \<longrightarrow> vm_getmap w pt' = Inr (phys AND 0xfffff000)) \<and>
    (\<forall>w. frame_of pt w \<noteq> None \<longrightarrow> vm_getmap w pt' = vm_getmap w pt)"
proof -
  obtain pt' where pt': "vm_map phys v flags (Some pt) = Inr (Some pt')" "pt_ok pt'"
      "\<And>w. frame_of pt' w = (if drop_bit 12 w = drop_bit 12 v then Some (ucast (drop_bit 12 phys)) else frame_of pt w)"
    using vm_map_frame [OF assms] by blast
  have "vm_getmap w pt' = Inr (phys AND 0xfffff000)" if "drop_bit 12 w = drop_bit 12 v" for w
    using getmap_frame [OF pt'(2), of w] pt'(3) [of w] that frame_address [of phys] by simp
  moreover have "vm_getmap w pt' = vm_getmap w pt" if w: "frame_of pt w \<noteq> None" for w
  proof -
    obtain f where f: "frame_of pt w = Some f" using w by blast
    have "drop_bit 12 w \<noteq> drop_bit 12 v" using f assms(2) frame_of_page [of w v pt] by auto
    then show ?thesis using f pt'(3) [of w] getmap_frame [OF pt'(2)] getmap_frame [OF assms(1)] by simp
  qed
  ultimately show ?thesis using pt'(1) by blast
qed

text \<open>
  For an even page that is not mapped while the odd page of its pair is, \<open>vm_getmap\<close> returns the
  frame of the odd page instead of 0: the test of the second branch does not ask which page was meant.
\<close>

lemma vm_getmap_wrong_page:
  assumes "pt_ok pt" and "ADDR_IS_ON_EVEN_PAGE v" and "frame_of pt v = None" and "frame_of pt (v OR 0x1000) = Some f"
  shows "vm_getmap v pt = Inr (push_bit 12 (ucast f))"
proof -
  have n: "0x1000 = (push_bit 12 1 :: u32)" by (simp add: push_bit_eq_mult)
  have b: "bit (v OR 0x1000) 12" "(ucast (drop_bit 13 (v OR 0x1000)) :: 19 word) = ucast (drop_bit 13 v)"
    unfolding n by (auto intro!: bit_word_eqI simp: bit_simps)
  show ?thesis using assms(2-4) b unfolding vm_getmap_eq [OF assms(1)]
    by (auto simp: frame_of_bit even_bit split: option.splits if_splits)
qed

end
