(* ===== verification/Elf.thy ===== *)
theory Elf
  imports Tfs_Driver
begin

text \<open>
  The ELF loader's header parser (\<^verbatim>\<open>src/kudos/proc/elf.c\<close>, \<^verbatim>\<open>elf.h\<close>), for the x86_64 build: the fields of the
  headers are read in little-endian order and \<^verbatim>\<open>elf_info_t\<close> has 64-bit fields. It reads the file through
  \<open>vfs_read\<close> and \<open>vfs_seek\<close>. The reference is a function of the content of the file.
\<close>

section \<open>Header fields\<close>

definition field16 :: "byte list \<Rightarrow> nat \<Rightarrow> u16" where
  "field16 bs i = ucast (bs ! i) OR push_bit 8 (ucast (bs ! Suc i))"

definition field32 :: "byte list \<Rightarrow> nat \<Rightarrow> u32" where
  "field32 bs i = word32 Little (take 4 (drop i bs))"

definition field64 :: "byte list \<Rightarrow> nat \<Rightarrow> u64" where
  "field64 bs i = ucast (field32 bs i) OR push_bit 32 (ucast (field32 bs (i + 4)))"

text \<open>The fields of the file header at the offsets of \<^verbatim>\<open>Elf32_Ehdr\<close> and \<^verbatim>\<open>Elf64_Ehdr\<close>.\<close>

abbreviation (input) EI_CLASS :: nat where "EI_CLASS \<equiv> 4"
abbreviation (input) ELF_MAGIC :: u32 where "ELF_MAGIC \<equiv> 0x7f454c46"
abbreviation (input) ET_EXEC :: u16 where "ET_EXEC \<equiv> 2"
abbreviation (input) ELFCLASS64 :: byte where "ELFCLASS64 \<equiv> 2"
abbreviation (input) sizeof_Ehdr64 :: nat where "sizeof_Ehdr64 \<equiv> 64"
abbreviation (input) sizeof_Ehdr32 :: nat where "sizeof_Ehdr32 \<equiv> 52"
abbreviation (input) sizeof_Phdr64 :: nat where "sizeof_Phdr64 \<equiv> 56"
abbreviation (input) sizeof_Phdr32 :: nat where "sizeof_Phdr32 \<equiv> 32"

definition e_type :: "byte list \<Rightarrow> u16" where "e_type hdr = field16 hdr 16"
definition e_entry32 :: "byte list \<Rightarrow> u32" where "e_entry32 hdr = field32 hdr 24"
definition e_phoff32 :: "byte list \<Rightarrow> u32" where "e_phoff32 hdr = field32 hdr 28"
definition e_phnum32 :: "byte list \<Rightarrow> u16" where "e_phnum32 hdr = field16 hdr 44"
definition e_entry64 :: "byte list \<Rightarrow> u64" where "e_entry64 hdr = field64 hdr 24"
definition e_phoff64 :: "byte list \<Rightarrow> u64" where "e_phoff64 hdr = field64 hdr 32"
definition e_phnum64 :: "byte list \<Rightarrow> u16" where "e_phnum64 hdr = field16 hdr 56"

text \<open>
  What the parser uses of a program header. \<open>p_pages\<close> is the expression on \<^verbatim>\<open>p_memsz\<close>, in the width of the
  header: memory size rounded up to the page boundary, in pages.
\<close>

record phdr =
  p_type :: u32
  p_flags :: u32
  p_offset :: u64
  p_vaddr :: u64
  p_filesz :: u64
  p_pages :: u64

definition phdr64 :: "byte list \<Rightarrow> phdr" where
  "phdr64 b = \<lparr>p_type = field32 b 0, p_flags = field32 b 4, p_offset = field64 b 8, p_vaddr = field64 b 16,
     p_filesz = field64 b 32, p_pages = (field64 b 40 + 4096 - 1) div 4096\<rparr>"

definition phdr32 :: "byte list \<Rightarrow> phdr" where
  "phdr32 b = \<lparr>p_type = field32 b 0, p_flags = field32 b 24, p_offset = ucast (field32 b 4), p_vaddr = ucast (field32 b 8),
     p_filesz = ucast (field32 b 16), p_pages = ucast ((field32 b 20 + 4096 - 1) div 4096)\<rparr>"

record elf_info =
  entry_point :: u64
  ro_location :: u64
  ro_size :: u64
  ro_pages :: u64
  ro_vaddr :: u64
  rw_location :: u64
  rw_size :: u64
  rw_pages :: u64
  rw_vaddr :: u64

section \<open>The parser\<close>

abbreviation (input) PT_LOAD :: u32 where "PT_LOAD \<equiv> 1"
abbreviation (input) PF_W :: u32 where "PF_W \<equiv> 2"
abbreviation (input) SEG_RO :: int where "SEG_RO \<equiv> 1"
abbreviation (input) SEG_RW :: int where "SEG_RW \<equiv> 2"

text \<open>One program header: an error code, or the new \<open>segs\<close> and information.\<close>

definition elf_segment :: "phdr \<Rightarrow> int \<Rightarrow> elf_info \<Rightarrow> int + int \<times> elf_info" where
  "elf_segment h segs elf =
     (if p_type h = PT_LOAD then
        if p_flags h AND PF_W \<noteq> 0 then
          if segs AND SEG_RW \<noteq> 0 then Inl (- 7)
          else Inr (segs OR SEG_RW, elf\<lparr>rw_location := p_offset h, rw_size := p_filesz h, rw_vaddr := p_vaddr h, rw_pages := p_pages h\<rparr>)
        else
          if segs AND SEG_RO \<noteq> 0 then Inl (- 8)
          else Inr (segs OR SEG_RO, elf\<lparr>ro_location := p_offset h, ro_size := p_filesz h, ro_vaddr := p_vaddr h, ro_pages := p_pages h\<rparr>)
      else Inr (segs, elf))"

text \<open>
  The loop over the program headers, for headers of \<open>psize\<close> bytes that \<open>dec\<close> reads: an error code or
  \<open>segs\<close>, with the information so far. \<open>buf\<close> is the header variable.
\<close>

fun phdr_loop :: "nat \<Rightarrow> (byte list \<Rightarrow> phdr) \<Rightarrow> 'w fs_driver \<Rightarrow> int \<Rightarrow> nat \<Rightarrow> int \<Rightarrow> byte list \<Rightarrow> int \<Rightarrow> elf_info \<Rightarrow>
    ((int + int) \<times> elf_info, 'w) vfs_m" where
  "phdr_loop psize dec g file 0 current_position buf segs elf s = Inr ((Inr segs, elf), s)"
| "phdr_loop psize dec g file (Suc n) current_position buf segs elf s =
     rbind (vfs_read g file buf (int psize) s) (\<lambda>((r, buf), s).
     if r \<noteq> int psize then Inr ((Inl (- 6), elf), s)
     else case elf_segment (dec buf) segs elf of
       Inl e \<Rightarrow> Inr ((Inl e, elf), s)
     | Inr (segs, elf) \<Rightarrow>
         let current_position = c_int (current_position + int psize) in
         rbind (vfs_seek file current_position s) (\<lambda>(_, s).
         phdr_loop psize dec g file n current_position buf segs elf s))"

definition phdr_loop64 :: "'w fs_driver \<Rightarrow> int \<Rightarrow> nat \<Rightarrow> int \<Rightarrow> byte list \<Rightarrow> int \<Rightarrow> elf_info \<Rightarrow> ((int + int) \<times> elf_info, 'w) vfs_m" where
  "phdr_loop64 = phdr_loop sizeof_Phdr64 phdr64"

definition phdr_loop32 :: "'w fs_driver \<Rightarrow> int \<Rightarrow> nat \<Rightarrow> int \<Rightarrow> byte list \<Rightarrow> int \<Rightarrow> elf_info \<Rightarrow> ((int + int) \<times> elf_info, 'w) vfs_m" where
  "phdr_loop32 = phdr_loop sizeof_Phdr32 phdr32"

definition elf_zero :: elf_info where
  "elf_zero = \<lparr>entry_point = 0, ro_location = 0, ro_size = 0, ro_pages = 0, ro_vaddr = 0,
     rw_location = 0, rw_size = 0, rw_pages = 0, rw_vaddr = 0\<rparr>"

text \<open>
  \<open>hbuf\<close> and \<open>pbuf\<close> are what the variables for the headers hold at first. The 32-bit header is the first
  part of the 64-bit one.
\<close>

definition elf_parse_header ::
  "'w fs_driver \<Rightarrow> byte list \<Rightarrow> byte list \<Rightarrow> byte list \<Rightarrow> elf_info \<Rightarrow> int \<Rightarrow> (int \<times> elf_info, 'w) vfs_m" where
  "elf_parse_header g hbuf pbuf32 pbuf64 elf file s =
     rbind (vfs_read g file hbuf (int sizeof_Ehdr64) s) (\<lambda>((r, elf_hdr64), s).
     if r \<noteq> int sizeof_Ehdr64 then Inr ((- 1, elf), s) else
     let elf_hdr = take sizeof_Ehdr32 elf_hdr64 in
     if from_big_endian32 Little (field32 elf_hdr 0) \<noteq> ELF_MAGIC then Inr ((- 2, elf), s)
     else if e_type elf_hdr \<noteq> ET_EXEC then Inr ((- 3, elf), s)
     else
       let use64 = (elf_hdr ! EI_CLASS AND ELFCLASS64 \<noteq> 0) in
       if (if use64 then e_phnum64 elf_hdr64 else e_phnum32 elf_hdr) = 0 then Inr ((- 4, elf), s)
       else
         let elf = elf_zero\<lparr>entry_point := if use64 then e_entry64 elf_hdr64 else ucast (e_entry32 elf_hdr)\<rparr>;
             current_position = (if use64 then c_int (uint (e_phoff64 elf_hdr64)) else c_int (uint (e_phoff32 elf_hdr))) in
         rbind (vfs_seek file current_position s) (\<lambda>(_, s).
         rbind (if use64 then phdr_loop64 g file (unat (e_phnum64 elf_hdr64)) current_position pbuf64 0 elf s
                else phdr_loop32 g file (unat (e_phnum32 elf_hdr)) current_position pbuf32 0 elf s) (\<lambda>((r, elf), s).
         Inr ((case r of Inl e \<Rightarrow> e | Inr segs \<Rightarrow> if segs > 0 then 1 else 0, elf), s))))"

section \<open>The reference: a function of the content\<close>

text \<open>
  The loop as a function of the content \<open>C\<close>: a header that does not lie inside the file ends it with
  code \<open>-6\<close>.
\<close>

fun read_segments :: "nat \<Rightarrow> (byte list \<Rightarrow> phdr) \<Rightarrow> byte list \<Rightarrow> nat \<Rightarrow> nat \<Rightarrow> int \<Rightarrow> elf_info \<Rightarrow> (int + int) \<times> elf_info" where
  "read_segments psize dec C pos 0 segs elf = (Inr segs, elf)"
| "read_segments psize dec C pos (Suc n) segs elf =
     (if length C < pos + psize then (Inl (- 6), elf)
      else case elf_segment (dec (take psize (drop pos C))) segs elf of
        Inl e \<Rightarrow> (Inl e, elf)
      | Inr (segs, elf) \<Rightarrow> read_segments psize dec C (pos + psize) n segs elf)"

definition uses64 :: "byte list \<Rightarrow> bool" where
  "uses64 C \<longleftrightarrow> C ! EI_CLASS AND ELFCLASS64 \<noteq> 0"

definition table_pos :: "byte list \<Rightarrow> nat" where
  "table_pos C = (if uses64 C then unat (e_phoff64 C) else unat (e_phoff32 C))"

definition table_length :: "byte list \<Rightarrow> nat" where
  "table_length C = (if uses64 C then unat (e_phnum64 C) else unat (e_phnum32 C))"

definition start_info :: "byte list \<Rightarrow> elf_info" where
  "start_info C = elf_zero\<lparr>entry_point := if uses64 C then e_entry64 C else ucast (e_entry32 C)\<rparr>"

definition elf_ref :: "byte list \<Rightarrow> elf_info \<Rightarrow> int \<times> elf_info" where
  "elf_ref C elf =
     (if length C < 64 then (- 1, elf)
      else if take 4 C \<noteq> [0x7f, 0x45, 0x4c, 0x46] then (- 2, elf)
      else if e_type C \<noteq> ET_EXEC then (- 3, elf)
      else if table_length C = 0 then (- 4, elf)
      else case (if uses64 C then read_segments sizeof_Phdr64 phdr64 else read_segments sizeof_Phdr32 phdr32)
          C (table_pos C) (table_length C) 0 (start_info C) of
        (Inl e, elf) \<Rightarrow> (e, elf)
      | (Inr segs, elf) \<Rightarrow> (if segs > 0 then 1 else 0, elf))"

text \<open>The program headers of \<open>psize\<close> bytes from \<open>pos\<close> on.\<close>

definition phdrs :: "nat \<Rightarrow> (byte list \<Rightarrow> phdr) \<Rightarrow> byte list \<Rightarrow> nat \<Rightarrow> nat \<Rightarrow> phdr list" where
  "phdrs psize dec C pos n = map (\<lambda>i. dec (take psize (drop (pos + i * psize) C))) [0..<n]"

fun segments :: "phdr list \<Rightarrow> int \<Rightarrow> elf_info \<Rightarrow> (int + int) \<times> elf_info" where
  "segments [] segs elf = (Inr segs, elf)"
| "segments (h # hs) segs elf =
     (case elf_segment h segs elf of Inl e \<Rightarrow> (Inl e, elf) | Inr (segs, elf) \<Rightarrow> segments hs segs elf)"

definition is_rw :: "phdr \<Rightarrow> bool" where
  "is_rw h \<longleftrightarrow> p_type h = PT_LOAD \<and> p_flags h AND PF_W \<noteq> 0"

definition is_ro :: "phdr \<Rightarrow> bool" where
  "is_ro h \<longleftrightarrow> p_type h = PT_LOAD \<and> p_flags h AND PF_W = 0"

text \<open>The information about at most one segment of each kind.\<close>

definition upd_rw :: "phdr \<Rightarrow> elf_info \<Rightarrow> elf_info" where
  "upd_rw h elf = elf\<lparr>rw_location := p_offset h, rw_size := p_filesz h, rw_vaddr := p_vaddr h, rw_pages := p_pages h\<rparr>"

definition upd_ro :: "phdr \<Rightarrow> elf_info \<Rightarrow> elf_info" where
  "upd_ro h elf = elf\<lparr>ro_location := p_offset h, ro_size := p_filesz h, ro_vaddr := p_vaddr h, ro_pages := p_pages h\<rparr>"

definition set_rw :: "phdr list \<Rightarrow> elf_info \<Rightarrow> elf_info" where
  "set_rw hs = (case filter is_rw hs of [] \<Rightarrow> id | h # _ \<Rightarrow> upd_rw h)"

definition set_ro :: "phdr list \<Rightarrow> elf_info \<Rightarrow> elf_info" where
  "set_ro hs = (case filter is_ro hs of [] \<Rightarrow> id | h # _ \<Rightarrow> upd_ro h)"

text \<open>At most one segment of each kind, and none of a kind already seen.\<close>

definition one_each :: "bool \<Rightarrow> bool \<Rightarrow> phdr list \<Rightarrow> bool" where
  "one_each ro rw hs \<longleftrightarrow> length (filter is_ro hs) \<le> (if ro then 0 else 1) \<and> length (filter is_rw hs) \<le> (if rw then 0 else 1)"

definition seg_bits :: "bool \<Rightarrow> bool \<Rightarrow> int" where
  "seg_bits ro rw = (if ro then 1 else 0) + (if rw then 2 else 0)"

lemma rw_not_ro: "is_rw h \<Longrightarrow> \<not> is_ro h"
  by (simp add: is_rw_def is_ro_def)

lemma one_each_simps [simp]:
  "one_each ro rw []"
  "one_each ro rw (h # hs) \<longleftrightarrow> (if is_rw h then \<not> rw \<and> one_each ro True hs else if is_ro h then \<not> ro \<and> one_each True rw hs else one_each ro rw hs)"
  by (auto simp: one_each_def rw_not_ro)

lemma set_seen [simp]: "one_each ro True hs \<Longrightarrow> set_rw hs = id" "one_each True rw hs \<Longrightarrow> set_ro hs = id"
  by (simp_all add: one_each_def set_rw_def set_ro_def)

lemma set_simps [simp]:
  "set_rw [] = id" "set_rw (h # hs) = (if is_rw h then upd_rw h else set_rw hs)"
  "set_ro [] = id" "set_ro (h # hs) = (if is_ro h then upd_ro h else set_ro hs)"
  by (simp_all add: set_rw_def set_ro_def)

lemma upd_commute: "set_rw hs (upd_ro h elf) = upd_ro h (set_rw hs elf)"
  by (simp add: set_rw_def upd_rw_def upd_ro_def split: list.split)

lemma elf_segment_eq:
  "elf_segment h (seg_bits ro rw) elf =
     (if is_rw h then if rw then Inl (- 7) else Inr (seg_bits ro True, upd_rw h elf)
      else if is_ro h then if ro then Inl (- 8) else Inr (seg_bits True rw, upd_ro h elf)
      else Inr (seg_bits ro rw, elf))"
  by (auto simp: elf_segment_def is_rw_def is_ro_def seg_bits_def upd_rw_def upd_ro_def)

lemma segments_eq:
  "one_each ro rw hs \<Longrightarrow> segments hs (seg_bits ro rw) elf =
     (Inr (seg_bits (ro \<or> (\<exists>h \<in> set hs. is_ro h)) (rw \<or> (\<exists>h \<in> set hs. is_rw h))), set_ro hs (set_rw hs elf))"
proof (induction hs arbitrary: ro rw elf)
  case (Cons h hs)
  consider "is_rw h" "\<not> is_ro h" | "\<not> is_rw h" "is_ro h" | "\<not> is_rw h" "\<not> is_ro h"
    using rw_not_ro by blast
  then show ?case
  proof cases
    case 1
    then show ?thesis using Cons.IH [of ro True "upd_rw h elf"] Cons.prems by (simp add: elf_segment_eq)
  next
    case 2
    then show ?thesis using Cons.IH [of True rw "upd_ro h elf"] Cons.prems by (simp add: elf_segment_eq upd_commute)
  next
    case 3
    then show ?thesis using Cons.IH [of ro rw elf] Cons.prems by (simp add: elf_segment_eq)
  qed
qed simp

lemma segments_duplicate:
  "\<not> one_each ro rw hs \<Longrightarrow> fst (segments hs (seg_bits ro rw) elf) \<in> {Inl (- 7), Inl (- 8)}"
proof (induction hs arbitrary: ro rw elf)
  case (Cons h hs)
  then show ?case by (cases "is_rw h"; cases "is_ro h"; cases rw; cases ro) (simp_all add: elf_segment_eq)
qed simp

section \<open>The parser over a file\<close>

lemma phdrs_0 [simp]: "phdrs psize dec C pos 0 = []"
  by (simp add: phdrs_def)

lemma phdrs_Suc [simp]: "phdrs psize dec C pos (Suc n) = dec (take psize (drop pos C)) # phdrs psize dec C (pos + psize) n"
proof -
  have "[0..<Suc n] = 0 # map Suc [0..<n]" by (simp add: upt_conv_Cons map_Suc_upt del: upt_Suc)
  then show ?thesis by (simp add: phdrs_def comp_def add.assoc del: upt_Suc)
qed

lemma read_segments_eq:
  "pos + n * psize \<le> length C \<Longrightarrow> read_segments psize dec C pos n segs elf = segments (phdrs psize dec C pos n) segs elf"
  by (induction n arbitrary: pos segs elf) (auto split: sum.split)

lemma field16_take [simp]: "i + 1 < n \<Longrightarrow> field16 (take n C) i = field16 C i"
  by (simp add: field16_def)

lemma field32_take [simp]: "i + 4 \<le> n \<Longrightarrow> field32 (take n C) i = field32 C i"
  by (simp add: field32_def drop_take min_absorb1)

lemma field64_take [simp]: "i + 8 \<le> n \<Longrightarrow> field64 (take n C) i = field64 C i"
  by (simp add: field64_def)

lemma length_magic: "length [0x7f, 0x45, 0x4c, 0x46 :: byte] = 4"
  by simp

lemma magic_bytes:
  assumes "4 \<le> length C"
  shows "from_big_endian32 Little (field32 C 0) = ELF_MAGIC \<longleftrightarrow> take 4 C = [0x7f, 0x45, 0x4c, 0x46]"
proof -
  have l: "length (take 4 C) = 4" using assms by simp
  have "from_big_endian32 Little (field32 C 0) = word32 Big (take 4 C)"
    using l by (simp add: field32_def from_big_endian32_def swap32_def word32_Big)
  moreover have "ELF_MAGIC = word32 Big [0x7f, 0x45, 0x4c, 0x46]"
    by (simp add: word32_le_def push_bit_eq_mult)
  ultimately show ?thesis using l bytes32_word32 [of "take 4 C" Big] bytes32_word32 [of "[0x7f, 0x45, 0x4c, 0x46]" Big]
    by (metis length_magic)
qed

text \<open>The codes the loop ends with, whatever the driver does.\<close>

lemma phdr_loop_codes:
  "phdr_loop psize dec g file n pos buf segs elf s = Inr ((Inl e, elf'), s') \<Longrightarrow> e \<in> {- 6, - 7, - 8}"
proof (induction n arbitrary: pos buf segs elf s)
  case (Suc n)
  then show ?case by (auto simp: rbind_eq_Inr Let_def elf_segment_def split: if_splits sum.splits prod.splits)
qed simp

lemma phdr_loop_result:
  "phdr_loop psize dec g file n pos buf segs elf s = Inr ((x, elf'), s') \<Longrightarrow>
   (case x of Inl e \<Rightarrow> e | Inr segs \<Rightarrow> if segs > 0 then 1 else 0) \<in> {- 8, - 7, - 6, 0, 1}"
  by (cases x) (auto dest: phdr_loop_codes)

context file_driver
begin

lemma phdr_loop_eq:
  assumes "at_pos s file C pos" and "length buf = psize"
  shows "\<exists>s'. phdr_loop psize dec g (int file) n (int pos) buf segs elf s =
    Inr (read_segments psize dec C pos n segs elf, s') \<and> (\<exists>pos'. at_pos s' file C pos')"
  using assms
proof (induction n arbitrary: s pos buf segs elf)
  case 0
  then show ?case by auto
next
  case (Suc n)
  define m where "m = min psize (length C - pos)"
  obtain s1 where s1: "vfs_read g (int file) buf (int psize) s = Inr ((int m, take m (drop pos C) @ drop m buf), s1)"
      "at_pos s1 file C (pos + m)"
    using vfs_read_seq [OF Suc.prems(1), of psize buf] Suc.prems(2) by (auto simp: m_def)
  show ?case
  proof (cases "length C < pos + psize")
    case True
    moreover have "pos \<le> length C" using Suc.prems(1) by (simp add: at_pos_def)
    ultimately have "int m \<noteq> int psize" by (simp add: m_def)
    then show ?thesis using True s1 by auto
  next
    case False
    have pos: "pos \<le> length C" and l: "length C < 2 ^ 31" using content_length Suc.prems(1) by (auto simp: at_pos_def)
    have m: "m = psize" "pos + psize \<le> length C" using False pos by (auto simp: m_def)
    obtain s2 where s2: "vfs_seek (int file) (int (pos + psize)) s1 = Inr (VFS_OK, s2)" "at_pos s2 file C (pos + psize)"
      using vfs_seek_seq [OF s1(2) m(2)] by blast
    have c: "c_int (int pos + int psize) = int (pos + psize)" using l m by (subst c_int_id) auto
    show ?thesis
    proof (cases "elf_segment (dec (take psize (drop pos C))) segs elf")
      case (Inl e)
      then show ?thesis using s1 m False Suc.prems(2) by auto
    next
      case (Inr r)
      obtain segs' elf' where r: "r = (segs', elf')" by (cases r)
      have "length (take psize (drop pos C)) = psize" using m by simp
      from Suc.IH [OF s2(2) this, of segs' elf'] show ?thesis
        using s1(1) s2(1) c Inr r m False Suc.prems(2) by (auto simp: Let_def)
    qed
  qed
qed

lemma parse_header_eq:
  assumes a: "at_pos s file C 0" and buf: "length hbuf = 64" "length pbuf32 = 32" "length pbuf64 = 56"
    and t: "length C < 64 \<or> table_pos C \<le> length C"
  shows "\<exists>s'. elf_parse_header g hbuf pbuf32 pbuf64 elf (int file) s = Inr (elf_ref C elf, s') \<and> (\<exists>pos. at_pos s' file C pos)"
proof -
  define m where "m = min 64 (length C)"
  obtain s1 where s1: "vfs_read g (int file) hbuf 64 s = Inr ((int m, take m C @ drop m hbuf), s1)" "at_pos s1 file C m"
    using vfs_read_seq [OF a, of 64 hbuf] buf(1) by (auto simp: m_def)
  show ?thesis
  proof (cases "length C < 64")
    case True
    then show ?thesis using s1 by (auto simp: elf_parse_header_def elf_ref_def m_def)
  next
    case False
    then have m: "m = 64" "table_pos C \<le> length C" and l: "length C < 2 ^ 31"
      using t content_length a by (auto simp: m_def at_pos_def)
    obtain s2 where s2: "vfs_seek (int file) (int (table_pos C)) s1 = Inr (VFS_OK, s2)" "at_pos s2 file C (table_pos C)"
      using vfs_seek_seq [OF s1(2) m(2)] by blast
    have cp: "(if uses64 C then c_int (uint (e_phoff64 C)) else c_int (uint (e_phoff32 C))) = int (table_pos C)"
    proof -
      have "c_int (int (table_pos C)) = int (table_pos C)" using m(2) l by (intro c_int_id) auto
      then show ?thesis by (auto simp: table_pos_def)
    qed
    have f: "field32 (take 52 C) 0 = field32 C 0" "e_type (take 52 C) = e_type C" "take 52 C ! 4 = C ! 4"
        "e_phnum32 (take 52 C) = e_phnum32 C" "e_entry32 (take 52 C) = e_entry32 C" "e_phoff32 (take 52 C) = e_phoff32 C"
        "e_phnum64 (take 64 C) = e_phnum64 C" "e_entry64 (take 64 C) = e_entry64 C" "e_phoff64 (take 64 C) = e_phoff64 C"
      by (simp_all add: e_type_def e_phnum32_def e_entry32_def e_phoff32_def e_phnum64_def e_entry64_def e_phoff64_def)
    have rd: "vfs_read g (int file) hbuf 64 s = Inr ((64, take 64 C), s1)" using s1(1) m(1) buf(1) by simp
    have mg: "from_big_endian32 Little (field32 C 0) = ELF_MAGIC \<longleftrightarrow> take 4 C = [0x7f, 0x45, 0x4c, 0x46]"
      using False by (intro magic_bytes) simp
    show ?thesis
    proof (cases "uses64 C")
      case True
      obtain s3 where s3: "phdr_loop64 g (int file) (unat (e_phnum64 C)) (int (table_pos C)) pbuf64 0 (start_info C) s2 =
          Inr (read_segments 56 phdr64 C (table_pos C) (table_length C) 0 (start_info C), s3)" "\<exists>pos. at_pos s3 file C pos"
        using phdr_loop_eq [OF s2(2) buf(3), of phdr64 "unat (e_phnum64 C)" 0 "start_info C"] True by (auto simp: phdr_loop64_def table_length_def)
      have c: "c_int (uint (e_phoff64 C)) = int (table_pos C)" "elf_zero\<lparr>entry_point := e_entry64 C\<rparr> = start_info C"
        "table_length C = unat (e_phnum64 C)" using cp True by (simp_all add: start_info_def table_length_def)
      have u: "C ! 4 AND 2 \<noteq> 0" using True by (simp add: uses64_def)
      show ?thesis using s1(2) s2(1) s3 c u False True
        by (auto simp: elf_parse_header_def elf_ref_def rd f mg Let_def unat_eq_zero split: prod.split sum.split)
    next
      case False64: False
      obtain s3 where s3: "phdr_loop32 g (int file) (unat (e_phnum32 C)) (int (table_pos C)) pbuf32 0 (start_info C) s2 =
          Inr (read_segments 32 phdr32 C (table_pos C) (table_length C) 0 (start_info C), s3)" "\<exists>pos. at_pos s3 file C pos"
        using phdr_loop_eq [OF s2(2) buf(2), of phdr32 "unat (e_phnum32 C)" 0 "start_info C"] False64 by (auto simp: phdr_loop32_def table_length_def)
      have c: "c_int (uint (e_phoff32 C)) = int (table_pos C)" "elf_zero\<lparr>entry_point := ucast (e_entry32 C)\<rparr> = start_info C"
        "table_length C = unat (e_phnum32 C)" using cp False64 by (simp_all add: start_info_def table_length_def)
      have u: "C ! 4 AND 2 = 0" using False64 by (simp add: uses64_def)
      show ?thesis using s1(2) s2(1) s3 c u False False64
        by (auto simp: elf_parse_header_def elf_ref_def rd f mg Let_def unat_eq_zero split: prod.split sum.split)
    qed
  qed
qed

end

end
