(* ===== verification/Physmem64.thy ===== *)
theory Physmem64
  imports Kudos_Prelude
begin

text \<open>
  Physical memory on x86_64 (\<^verbatim>\<open>src/kudos/vm/x86_64/mm_phys.c\<close>): a bitmap of frames in 64-bit words. Its helpers
  compute the mask of a frame with \<^verbatim>\<open>1 << (bit % 64)\<close>, an \<open>int\<close>: the model has the value the x86 shift
  instruction gives, which uses the count modulo 32, sign-extended to 64 bits. So frames \<open>k\<close> and \<open>k + 32\<close>
  of a word share a mask, and the mask of frame 31 is the upper half of the word with bit 31. What is
  left is a map of 32 slots per word, and the frame numbers below are those of the slots.
\<close>

section \<open>Bitmaps of 64-bit words\<close>

definition int_bit :: "int \<Rightarrow> u64" where
  "int_bit k = scast (push_bit (nat (k mod 32)) 1 :: u32)"

definition map64_set :: "int \<Rightarrow> u64 list \<Rightarrow> u64 list res" where
  "map64_set k bm = rbind (lget bm (k div 64)) (\<lambda>w. lset bm (k div 64) (w OR int_bit (k mod 64)))"

definition map64_unset :: "int \<Rightarrow> u64 list \<Rightarrow> u64 list res" where
  "map64_unset k bm = rbind (lget bm (k div 64)) (\<lambda>w. lset bm (k div 64) (w AND NOT (int_bit (k mod 64))))"

definition map64_test :: "int \<Rightarrow> u64 list \<Rightarrow> u64 res" where
  "map64_test k bm = rbind (lget bm (k div 64)) (\<lambda>w. Inr (w AND int_bit (k mod 64)))"

text \<open>The slots in use, and the slot of a frame number.\<close>

definition slots :: "u64 list \<Rightarrow> nat set" where
  "slots bm = {f. f div 64 < length bm \<and> f mod 64 < 32 \<and> bm ! (f div 64) AND int_bit (int (f mod 64)) \<noteq> 0}"

definition slot :: "nat \<Rightarrow> nat" where
  "slot f = 64 * (f div 64) + f mod 32"

lemma bit_int_bit: "bit (int_bit k) n \<longleftrightarrow> n < 64 \<and> (if k mod 32 = 31 then 31 \<le> n else n = nat (k mod 32))"
proof -
  define j where "j = nat (k mod 32)"
  have j: "j < 32" "k mod 32 = int j" by (auto simp: j_def)
  have "bit (scast (push_bit j 1 :: u32) :: u64) n \<longleftrightarrow> n < 64 \<and> (if j = 31 then 31 \<le> n else n = j)"
    using j(1) by (auto simp: bit_signed_iff bit_simps min_def)
  then show ?thesis using j by (simp add: int_bit_def)
qed

lemma masks_disjoint: "s < 32 \<Longrightarrow> s' < 32 \<Longrightarrow> bit (int_bit (int s)) n \<Longrightarrow> bit (int_bit (int s')) n \<Longrightarrow> s = s'"
  by (auto simp: bit_int_bit split: if_splits)

lemma and_nonzero: "(w :: u64) AND v \<noteq> 0 \<longleftrightarrow> (\<exists>n. bit w n \<and> bit v n)"
  by (auto simp: bit_eq_iff bit_simps intro: bit_imp_le_length [where 'a = 64, simplified])

lemma mask_bit: "s < 32 \<Longrightarrow> bit (int_bit (int s)) s"
  by (simp add: bit_int_bit)

lemma used_set: "s < 32 \<Longrightarrow> s' < 32 \<Longrightarrow> (w OR int_bit (int s)) AND int_bit (int s') \<noteq> 0 \<longleftrightarrow> s' = s \<or> w AND int_bit (int s') \<noteq> 0"
  unfolding and_nonzero by (auto simp: bit_or_iff dest: masks_disjoint [of s s'] intro: mask_bit)

lemma used_unset: "s < 32 \<Longrightarrow> s' < 32 \<Longrightarrow> (w AND NOT (int_bit (int s))) AND int_bit (int s') \<noteq> 0 \<longleftrightarrow> s' \<noteq> s \<and> w AND int_bit (int s') \<noteq> 0"
proof -
  assume s: "s < 32" "s' < 32"
  have n: "n < 64" if "bit w n" for n using bit_imp_le_length [OF that] by simp
  show ?thesis unfolding and_nonzero bit_and_iff bit_not_iff using masks_disjoint [OF s] n by (auto simp: possible_bit_def)
qed

lemma int_bit_slot: "int_bit (int f mod 64) = int_bit (int (slot f mod 64))"
proof -
  have "int f mod 64 mod 32 = int (slot f mod 64) mod 32" by (simp add: slot_def mod_mod_cancel zmod_int)
  then show ?thesis by (simp add: int_bit_def)
qed

lemma word_index: "int f div 64 = int (f div 64)"
  by (simp add: zdiv_int)

lemma slot_simps [simp]: "slot f div 64 = f div 64" "slot f mod 64 = f mod 32" "slot f mod 64 < 32"
  by (simp_all add: slot_def div_add1_eq)

lemma slot_id: "f mod 64 < 32 \<Longrightarrow> slot f = f"
proof -
  assume "f mod 64 < 32"
  then have "f mod 32 = f mod 64" by (metis dvd_triv_left mod_less mod_mod_cancel mult_2 numeral_Bit0 mult_numeral_1_right mult.commute)
  then show ?thesis by (simp add: slot_def)
qed

lemma map64_test_eq:
  assumes "f div 64 < length bm"
  shows "\<exists>x. map64_test (int f) bm = Inr x \<and> (x \<noteq> 0 \<longleftrightarrow> slot f \<in> slots bm)"
  using assms int_bit_slot [of f] by (auto simp: map64_test_def lget_def slots_def word_index)

lemma map64_set_eq:
  assumes "f div 64 < length bm"
  shows "\<exists>bm'. map64_set (int f) bm = Inr bm' \<and> length bm' = length bm \<and> slots bm' = insert (slot f) (slots bm)"
proof -
  let ?i = "f div 64" let ?w = "bm ! ?i OR int_bit (int (slot f mod 64))"
  have "map64_set (int f) bm = Inr (bm[?i := ?w])"
    using assms int_bit_slot [of f] by (simp add: map64_set_def lget_def lset_def word_index)
  moreover have "g \<in> slots (bm[?i := ?w]) \<longleftrightarrow> g \<in> insert (slot f) (slots bm)" for g
  proof (cases "g div 64 = ?i")
    case True
    then have "g = slot f \<longleftrightarrow> g mod 64 = slot f mod 64" by (metis mult_div_mod_eq slot_simps(1))
    then show ?thesis using True assms used_set [of "slot f mod 64" "g mod 64" "bm ! ?i"] by (auto simp: slots_def)
  next
    case False
    then show ?thesis by (auto simp: slots_def)
  qed
  ultimately show ?thesis by (intro exI [of _ "bm[?i := ?w]"]) auto
qed

lemma map64_unset_eq:
  assumes "f div 64 < length bm"
  shows "\<exists>bm'. map64_unset (int f) bm = Inr bm' \<and> length bm' = length bm \<and> slots bm' = slots bm - {slot f}"
proof -
  let ?i = "f div 64" let ?w = "bm ! ?i AND NOT (int_bit (int (slot f mod 64)))"
  have "map64_unset (int f) bm = Inr (bm[?i := ?w])"
    using assms int_bit_slot [of f] by (simp add: map64_unset_def lget_def lset_def word_index)
  moreover have "g \<in> slots (bm[?i := ?w]) \<longleftrightarrow> g \<in> slots bm - {slot f}" for g
  proof (cases "g div 64 = ?i")
    case True
    then have "g = slot f \<longleftrightarrow> g mod 64 = slot f mod 64" by (metis mult_div_mod_eq slot_simps(1))
    then show ?thesis using True assms used_unset [of "slot f mod 64" "g mod 64" "bm ! ?i"] by (auto simp: slots_def)
  next
    case False
    then show ?thesis by (auto simp: slots_def)
  qed
  ultimately show ?thesis by (intro exI [of _ "bm[?i := ?w]"]) auto
qed

section \<open>Operations\<close>

abbreviation (input) PMM_BLOCK_SIZE :: int where "PMM_BLOCK_SIZE \<equiv> 4096"

text \<open>
  \<open>free_start\<close>, \<open>stalloced\<close> and \<open>kernel_ends\<close> are the variables of the permanent allocator in this build
  (\<^verbatim>\<open>src/kudos/kernel/stalloc.c\<close> with 64-bit addresses), \<open>phys_intr\<close> the interrupt flag of the CPU.
\<close>

record phys64 =
  mem_bitmap :: "u64 list"
  total_blocks :: u64
  used_blocks :: u64
  highest_page :: u64
  phys_slock :: int
  phys_intr :: bool
  free_start :: u64
  stalloced :: u64
  kernel_ends :: u64

definition stalloc64 :: "int \<Rightarrow> phys64 \<Rightarrow> (u64 \<times> phys64) res" where
  "stalloc64 bytes st =
     (if free_start st = 0xffffffff then Inl Panic
      else if free_start st = 0 then Inl Panic
      else if bytes < 0 then Inl Panic
      else
        let a = free_start st + word_of_int bytes in
        Inr (free_start st, st\<lparr>free_start := if a AND 0x03 \<noteq> 0 then (a + 4) AND 0xfffffffc else a\<rparr>))"

definition memmap_setbit :: "int \<Rightarrow> phys64 \<Rightarrow> phys64 res" where
  "memmap_setbit b st = rbind (map64_set b (mem_bitmap st)) (\<lambda>bm. Inr (st\<lparr>mem_bitmap := bm\<rparr>))"

definition memmap_unsetbit :: "int \<Rightarrow> phys64 \<Rightarrow> phys64 res" where
  "memmap_unsetbit b st = rbind (map64_unset b (mem_bitmap st)) (\<lambda>bm. Inr (st\<lparr>mem_bitmap := bm\<rparr>))"

definition memmap_testbit :: "int \<Rightarrow> phys64 \<Rightarrow> u64 res" where
  "memmap_testbit b st = map64_test b (mem_bitmap st)"

fun freeregion_loop :: "nat \<Rightarrow> int \<Rightarrow> u64 \<Rightarrow> phys64 \<Rightarrow> phys64 res" where
  "freeregion_loop 0 align i st = Inr st"
| "freeregion_loop (Suc blocks) align i st =
     rbind (memmap_unsetbit align st) (\<lambda>st.
     freeregion_loop blocks (align + 1) (i + 4096)
       (st\<lparr>used_blocks := used_blocks st - 1, highest_page := if i > highest_page st then i else highest_page st\<rparr>))"

definition physmem_freeregion :: "u64 \<Rightarrow> u64 \<Rightarrow> phys64 \<Rightarrow> phys64 res" where
  "physmem_freeregion start_address len st =
     rbind (freeregion_loop (unat (len div 4096)) (uint (start_address div 4096)) start_address st) (memmap_setbit 0)"

text \<open>The loop over the bits of a word of the bitmap.\<close>

fun free_bit :: "nat \<Rightarrow> nat \<Rightarrow> u64 \<Rightarrow> nat option" where
  "free_bit 0 j w = None"
| "free_bit (Suc n) j w = (if w AND int_bit (int j) = 0 then Some j else free_bit n (Suc j) w)"

function getframe_loop :: "int \<Rightarrow> int \<Rightarrow> u64 list \<Rightarrow> int res" where
  "getframe_loop i nblocks bm =
     (if i < nblocks then
        rbind (lget bm i) (\<lambda>w.
        case (if w \<noteq> 0xFFFFFFFFFFFFFFFF then free_bit 64 0 w else None) of
          Some j \<Rightarrow> Inr (i * 8 * 8 + int j)
        | None \<Rightarrow> getframe_loop (i + 1) nblocks bm)
      else Inr (- 1))"
  by pat_completeness auto
termination
  by (relation "measure (\<lambda>(i, nblocks, bm). nat (nblocks - i))") auto

declare getframe_loop.simps [simp del]

definition physmem_getframe :: "phys64 \<Rightarrow> int res" where
  "physmem_getframe st = getframe_loop 0 (uint (total_blocks st)) (mem_bitmap st)"

text \<open>The test of \<open>count\<close> frames from \<open>starting_bit\<close>, of which \<open>k\<close> are done and \<open>fr\<close> were free.\<close>

fun frames_free :: "nat \<Rightarrow> nat \<Rightarrow> nat \<Rightarrow> nat \<Rightarrow> u64 list \<Rightarrow> bool res" where
  "frames_free 0 count fr starting_bit bm = Inr False"
| "frames_free (Suc n) count fr starting_bit bm =
     rbind (map64_test (int (starting_bit + (count - Suc n))) bm) (\<lambda>x.
     let fr = (if x = 0 then Suc fr else fr) in
     if fr = count then Inr True else frames_free n count fr starting_bit bm)"

fun getframes_bits :: "nat \<Rightarrow> nat \<Rightarrow> nat \<Rightarrow> nat \<Rightarrow> u64 \<Rightarrow> u64 list \<Rightarrow> nat option res" where
  "getframes_bits 0 j i count w bm = Inr None"
| "getframes_bits (Suc n) j i count w bm =
     (if w AND int_bit (int j) = 0 then
        rbind (frames_free count count 0 (i * 64 + j) bm) (\<lambda>b.
        if b then Inr (Some (i * 64 + j)) else getframes_bits n (Suc j) i count w bm)
      else getframes_bits n (Suc j) i count w bm)"

function getframes_loop :: "int \<Rightarrow> int \<Rightarrow> nat \<Rightarrow> u64 list \<Rightarrow> int res" where
  "getframes_loop i nblocks count bm =
     (if i < nblocks then
        rbind (lget bm i) (\<lambda>w.
        rbind (if w \<noteq> 0xFFFFFFFFFFFFFFFF then getframes_bits 64 0 (nat i) count w bm else Inr None) (\<lambda>r.
        case r of Some f \<Rightarrow> Inr (int f) | None \<Rightarrow> getframes_loop (i + 1) nblocks count bm))
      else Inr (- 1))"
  by pat_completeness auto
termination
  by (relation "measure (\<lambda>(i, nblocks, count, bm). nat (nblocks - i))") auto

declare getframes_loop.simps [simp del]

definition physmem_getframes :: "nat \<Rightarrow> phys64 \<Rightarrow> int res" where
  "physmem_getframes count st =
     (if count = 0 then Inr (- 1)
      else if count = 1 then physmem_getframe st
      else getframes_loop 0 (uint (total_blocks st)) count (mem_bitmap st))"

definition phys_lock :: "phys64 \<Rightarrow> (bool \<times> phys64) res" where
  "phys_lock st = (if phys_slock st = 0 then Inr (phys_intr st, st\<lparr>phys_intr := False, phys_slock := 1\<rparr>) else Inl Spin)"

definition phys_unlock :: "bool \<Rightarrow> phys64 \<Rightarrow> phys64" where
  "phys_unlock intr_status st = st\<lparr>phys_slock := 0, phys_intr := intr_status\<rparr>"

definition physmem_allocblock64 :: "phys64 \<Rightarrow> (u64 \<times> phys64) res" where
  "physmem_allocblock64 st =
     rbind (phys_lock st) (\<lambda>(intr_status, st).
     if used_blocks st \<ge> total_blocks st then Inl Panic else
     rbind (physmem_getframe st) (\<lambda>frame.
     if frame = - 1 then Inl Panic else
     rbind (memmap_setbit frame st) (\<lambda>st.
     let st = phys_unlock intr_status st in
     Inr (word_of_int (frame * PMM_BLOCK_SIZE), st\<lparr>used_blocks := used_blocks st + 1\<rparr>))))"

definition physmem_freeblock64 :: "u64 \<Rightarrow> phys64 \<Rightarrow> phys64 res" where
  "physmem_freeblock64 addr st =
     rbind (phys_lock st) (\<lambda>(intr_status, st).
     rbind (memmap_unsetbit (uint (addr div 4096)) st) (\<lambda>st.
     let st = phys_unlock intr_status st in
     Inr (st\<lparr>used_blocks := used_blocks st - 1\<rparr>)))"

fun setbits :: "nat \<Rightarrow> int \<Rightarrow> phys64 \<Rightarrow> phys64 res" where
  "setbits 0 f st = Inr st"
| "setbits (Suc n) f st = rbind (memmap_setbit f st) (setbits n (f + 1))"

fun unsetbits :: "nat \<Rightarrow> int \<Rightarrow> phys64 \<Rightarrow> phys64 res" where
  "unsetbits 0 f st = Inr st"
| "unsetbits (Suc n) f st = rbind (memmap_unsetbit f st) (unsetbits n (f + 1))"

definition physmem_allocblocks :: "u32 \<Rightarrow> phys64 \<Rightarrow> (u64 \<times> phys64) res" where
  "physmem_allocblocks count st =
     rbind (phys_lock st) (\<lambda>(intr_status, st).
     if used_blocks st \<ge> total_blocks st then Inl Panic else
     rbind (physmem_getframes (unat count) st) (\<lambda>frame.
     if frame = - 1 then Inl Panic else
     rbind (setbits (unat count) frame st) (\<lambda>st.
     let st = phys_unlock intr_status st in
     Inr (word_of_int (frame * PMM_BLOCK_SIZE), st\<lparr>used_blocks := used_blocks st + ucast count\<rparr>))))"

definition physmem_freeblocks :: "u64 \<Rightarrow> u32 \<Rightarrow> phys64 \<Rightarrow> phys64 res" where
  "physmem_freeblocks addr count st =
     rbind (phys_lock st) (\<lambda>(intr_status, st).
     rbind (unsetbits (unat count) (uint (addr div 4096)) st) (\<lambda>st.
     let st = phys_unlock intr_status st in
     Inr (st\<lparr>used_blocks := used_blocks st - ucast count\<rparr>)))"

text \<open>
  Initialisation from the boot loader's memory map, a list of regions with base, length and type. The
  last loop is bounded by the number of bits of the bitmap, since every call takes one.
\<close>

record mem_region =
  base_address :: u64
  region_length :: u64
  region_type :: u32

fun free_regions :: "mem_region list \<Rightarrow> phys64 \<Rightarrow> phys64 res" where
  "free_regions [] st = Inr st"
| "free_regions (r # rs) st =
     rbind (if region_type r = 1 then physmem_freeregion (base_address r) (region_length r) st else Inr st) (free_regions rs)"

fun reserve_static :: "nat \<Rightarrow> u64 \<Rightarrow> phys64 \<Rightarrow> phys64 res" where
  "reserve_static 0 last_address st = Inl Diverges"
| "reserve_static (Suc n) last_address st =
     rbind (physmem_allocblock64 st) (\<lambda>(itr, st). if itr < last_address then reserve_static n last_address st else Inr st)"

definition physmem_init64 :: "u32 \<Rightarrow> u32 \<Rightarrow> mem_region list \<Rightarrow> phys64 \<Rightarrow> phys64 res" where
  "physmem_init64 memory_high memory_low regions st =
     (let memory_size = ucast memory_high + ucast memory_low :: u64;
          nblocks = (memory_size * 1024) div 4096;
          bitmap_size = nblocks div 8 in
      rbind (stalloc64 (sint (ucast bitmap_size :: u32)) st) (\<lambda>(_, st).
      rbind (stalloc64 4 st) (\<lambda>(_, st).
      let st = st\<lparr>highest_page := 0, total_blocks := nblocks, used_blocks := nblocks, phys_slock := 0,
            mem_bitmap := replicate (unat (bitmap_size div 8)) 0x0F0F0F0F0F0F0F0F\<rparr> in
      rbind (free_regions regions st) (\<lambda>st.
      rbind (stalloc64 1 st) (\<lambda>(last_address, st).
      let st = st\<lparr>stalloced := free_start st - kernel_ends st, free_start := 0xffffffff\<rparr> in
      reserve_static (64 * length (mem_bitmap st) + 1) last_address st)))))"

section \<open>The search for a free frame\<close>

definition free_slots :: "u64 list \<Rightarrow> nat set" where
  "free_slots bm = {f. f div 64 < length bm \<and> f mod 64 < 32} - slots bm"

lemma free_bit_Some:
  "free_bit n j w = Some k \<Longrightarrow> w AND int_bit (int k) = 0 \<and> j \<le> k \<and> k < j + n \<and> (\<forall>i. j \<le> i \<and> i < k \<longrightarrow> w AND int_bit (int i) \<noteq> 0)"
proof (induction n arbitrary: j)
  case (Suc n)
  show ?case
  proof (cases "w AND int_bit (int j) = 0")
    case False
    then have "free_bit n (Suc j) w = Some k" using Suc.prems by simp
    note I = Suc.IH [OF this]
    have "w AND int_bit (int i) \<noteq> 0" if "j \<le> i" "i < k" for i using I False that by (cases "i = j") auto
    then show ?thesis using I by auto
  qed (use Suc.prems in auto)
qed simp

lemma free_bit_None:
  "free_bit n j w = None \<Longrightarrow> j \<le> i \<Longrightarrow> i < j + n \<Longrightarrow> w AND int_bit (int i) \<noteq> 0"
proof (induction n arbitrary: j)
  case (Suc n)
  then show ?case by (cases "i = j") (auto split: if_splits)
qed simp

lemma int_bit_32: "32 \<le> k \<Longrightarrow> int_bit (int k) = int_bit (int (k - 32))"
proof -
  assume "32 \<le> k"
  then have "int k mod 32 = int (k - 32) mod 32" by (simp add: of_nat_diff minus_mod_self2)
  then show ?thesis by (simp add: int_bit_def)
qed

lemma int_bit_nonzero: "int_bit (int k) \<noteq> 0"
proof
  assume z: "int_bit (int k) = 0"
  have "bit (int_bit (int k)) (k mod 32)"
    using mask_bit [of "k mod 32"] by (simp add: bit_int_bit zmod_int)
  then show False using z by simp
qed

lemma word_slots:
  assumes "i < length bm"
  shows "case (if bm ! i \<noteq> 0xFFFFFFFFFFFFFFFF then free_bit 64 0 (bm ! i) else None) of
    Some j \<Rightarrow> 64 * i + j \<in> free_slots bm \<and> (\<forall>g \<in> free_slots bm. 64 * i \<le> g \<longrightarrow> 64 * i + j \<le> g)
  | None \<Rightarrow> \<forall>g \<in> free_slots bm. 64 * i \<le> g \<longrightarrow> 64 * Suc i \<le> g"
proof -
  let ?w = "bm ! i"
  have g: "?w AND int_bit (int (g - 64 * i)) = 0" "g - 64 * i < 32"
    if "g \<in> free_slots bm" "64 * i \<le> g" "g < 64 * Suc i" for g
  proof -
    have "g div 64 = i" "g mod 64 = g - 64 * i" using that(2,3) by (auto simp: div_nat_eqI mod_nat_eqI)
    then show "?w AND int_bit (int (g - 64 * i)) = 0" "g - 64 * i < 32" using that(1) by (auto simp: free_slots_def slots_def)
  qed
  show ?thesis
  proof (cases "?w \<noteq> 0xFFFFFFFFFFFFFFFF")
    case False
    then have "?w = - 1" by simp
    then have w: "?w AND v = v" for v by simp
    have "64 * Suc i \<le> h" if "h \<in> free_slots bm" "64 * i \<le> h" for h
    proof (rule ccontr)
      assume "\<not> 64 * Suc i \<le> h"
      then show False using g(1) [OF that] int_bit_nonzero [of "h - 64 * i"] w by simp
    qed
    then show ?thesis using False by auto
  next
    case True
    show ?thesis
    proof (cases "free_bit 64 0 ?w")
      case None
      have "64 * Suc i \<le> h" if "h \<in> free_slots bm" "64 * i \<le> h" for h
      proof (rule ccontr)
        assume "\<not> 64 * Suc i \<le> h"
        then show False using g [OF that] free_bit_None [OF None, of "h - 64 * i"] by simp
      qed
      then show ?thesis using True None by auto
    next
      case (Some j)
      note S = free_bit_Some [OF Some, simplified]
      have j: "j < 32"
      proof (rule ccontr)
        assume "\<not> j < 32"
        then have "32 \<le> j" "j - 32 < j" by auto
        then show False using S int_bit_32 [of j] by metis
      qed
      then have "64 * i + j \<in> free_slots bm" using assms S by (simp add: free_slots_def slots_def)
      moreover have "64 * i + j \<le> h" if "h \<in> free_slots bm" "64 * i \<le> h" for h
      proof (cases "h < 64 * Suc i")
        case True
        then have "\<not> h - 64 * i < j" using g [OF that True] S by blast
        then show ?thesis using that(2) by simp
      qed (use j in simp)
      ultimately show ?thesis using True Some by simp
    qed
  qed
qed

lemma getframe_loop_spec:
  assumes "i \<le> length bm" and "int (length bm) < n"
  shows "if \<exists>g \<in> free_slots bm. 64 * i \<le> g
    then \<exists>f. getframe_loop (int i) n bm = Inr (int f) \<and> f \<in> free_slots bm \<and> (\<forall>g \<in> free_slots bm. 64 * i \<le> g \<longrightarrow> f \<le> g)
    else getframe_loop (int i) n bm = Inl OutOfBounds"
  using assms(1)
proof (induction "length bm - i" arbitrary: i)
  case 0
  then have i: "i = length bm" by simp
  have "\<not> 64 * i \<le> g" if "g \<in> free_slots bm" for g
  proof -
    have "g div 64 < i" using that i by (simp add: free_slots_def)
    then show ?thesis by (simp add: div_less_iff_less_mult not_le mult.commute)
  qed
  then show ?case using i assms(2) by (subst getframe_loop.simps) (auto simp: lget_def)
next
  case (Suc d)
  then have i: "i < length bm" by simp
  let ?r = "if bm ! i \<noteq> 0xFFFFFFFFFFFFFFFF then free_bit 64 0 (bm ! i) else None"
  have e: "getframe_loop (int i) n bm = (case ?r of Some j \<Rightarrow> Inr (int (64 * i + j)) | None \<Rightarrow> getframe_loop (int (Suc i)) n bm)"
    using i assms(2) by (subst getframe_loop.simps) (auto simp: add.commute split: option.split)
  show ?case
  proof (cases ?r)
    case None
    then have n: "\<forall>g \<in> free_slots bm. 64 * i \<le> g \<longleftrightarrow> 64 * Suc i \<le> g" using word_slots [OF i] unfolding None by auto
    have "if \<exists>g \<in> free_slots bm. 64 * Suc i \<le> g
      then \<exists>f. getframe_loop (int (Suc i)) n bm = Inr (int f) \<and> f \<in> free_slots bm \<and> (\<forall>g \<in> free_slots bm. 64 * Suc i \<le> g \<longrightarrow> f \<le> g)
      else getframe_loop (int (Suc i)) n bm = Inl OutOfBounds"
      using Suc.hyps i by (intro Suc.hyps(1)) auto
    then show ?thesis using e None n by (auto split: if_splits)
  next
    case (Some j)
    then have "64 * i + j \<in> free_slots bm" "\<forall>g \<in> free_slots bm. 64 * i \<le> g \<longrightarrow> 64 * i + j \<le> g" using word_slots [OF i] unfolding Some by auto
    then show ?thesis using e Some by (auto intro!: exI [of _ "64 * i + j"] bexI [of _ "64 * i + j"])
  qed
qed

section \<open>Allocation\<close>

lemma alloc64_spec:
  assumes "phys_slock st = 0" and "used_blocks st < total_blocks st" and len: "int (length (mem_bitmap st)) < uint (total_blocks st)"
  shows "if free_slots (mem_bitmap st) = {} then physmem_allocblock64 st = Inl OutOfBounds
    else \<exists>f bm. physmem_allocblock64 st = Inr (of_nat (f * 4096), st\<lparr>mem_bitmap := bm, used_blocks := used_blocks st + 1\<rparr>) \<and>
      f \<in> free_slots (mem_bitmap st) \<and> (\<forall>g \<in> free_slots (mem_bitmap st). f \<le> g) \<and>
      length bm = length (mem_bitmap st) \<and> slots bm = insert f (slots (mem_bitmap st))"
proof -
  note G = getframe_loop_spec [of 0, simplified, OF len]
  show ?thesis
  proof (cases "free_slots (mem_bitmap st) = {}")
    case True
    then have "physmem_getframe (st\<lparr>phys_intr := False, phys_slock := 1\<rparr>) = Inl OutOfBounds" using G by (simp add: physmem_getframe_def)
    then show ?thesis using True assms(1,2) by (simp add: physmem_allocblock64_def phys_lock_def not_le)
  next
    case False
    then obtain f where f: "getframe_loop 0 (uint (total_blocks st)) (mem_bitmap st) = Inr (int f)" "f \<in> free_slots (mem_bitmap st)"
        "\<forall>g \<in> free_slots (mem_bitmap st). f \<le> g" using G by (auto split: if_splits)
    then have "f div 64 < length (mem_bitmap st)" "slot f = f" by (auto simp: free_slots_def slot_id)
    then obtain bm where bm: "map64_set (int f) (mem_bitmap st) = Inr bm" "length bm = length (mem_bitmap st)" "slots bm = insert f (slots (mem_bitmap st))"
      using map64_set_eq [of f "mem_bitmap st"] by auto
    have "physmem_allocblock64 st = Inr (of_nat (f * 4096), st\<lparr>mem_bitmap := bm, used_blocks := used_blocks st + 1\<rparr>)"
      using assms(1,2) f(1) bm(1)
      by (simp add: physmem_allocblock64_def phys_lock_def phys_unlock_def physmem_getframe_def memmap_setbit_def not_le Let_def)
    then show ?thesis using False f bm by auto
  qed
qed

text \<open>\<open>pool64_ok A st\<close>: frame 0 and the frames \<open>A\<close> handed out are marked.\<close>

definition pool64_ok :: "nat set \<Rightarrow> phys64 \<Rightarrow> bool" where
  "pool64_ok A st \<longleftrightarrow> phys_slock st = 0 \<and> 0 \<in> slots (mem_bitmap st) \<and> A \<subseteq> slots (mem_bitmap st) - {0} \<and>
     length (mem_bitmap st) < 2 ^ 40 \<and> int (length (mem_bitmap st)) < uint (total_blocks st)"

inductive pool64_run :: "nat set \<Rightarrow> phys64 \<Rightarrow> bool" where
  pool64_start: "pool64_ok {} st \<Longrightarrow> pool64_run {} st"
| pool64_alloc: "pool64_run A st \<Longrightarrow> physmem_allocblock64 st = Inr (a, st') \<Longrightarrow> pool64_run (insert (unat (a div 4096)) A) st'"
| pool64_free: "pool64_run A st \<Longrightarrow> f \<in> A \<Longrightarrow> physmem_freeblock64 (of_nat (f * 4096)) st = Inr st' \<Longrightarrow> pool64_run (A - {f}) st'"

lemma frame64_address:
  assumes "f div 64 < 2 ^ 40"
  shows "unat (of_nat (f * 4096) div 4096 :: u64) = f" and "uint (of_nat (f * 4096) div 4096 :: u64) = int f"
proof -
  have "f < 64 * 2 ^ 40" using assms by (simp add: div_less_iff_less_mult mult.commute)
  then have "unat (of_nat (f * 4096) :: u64) = f * 4096" by (simp add: unat_of_nat del: of_nat_mult)
  then show d: "unat (of_nat (f * 4096) div 4096 :: u64) = f" by (simp add: unat_div_distrib del: of_nat_mult)
  then show "uint (of_nat (f * 4096) div 4096 :: u64) = int f" by (metis uint_nat)
qed

lemma alloc64_ok:
  assumes ok: "pool64_ok A st" and r: "physmem_allocblock64 st = Inr (a, st')"
  shows "\<exists>f. a = of_nat (f * 4096) \<and> unat (a div 4096) = f \<and> f \<in> free_slots (mem_bitmap st) \<and> f \<noteq> 0 \<and> f \<notin> A \<and>
    (\<forall>g \<in> free_slots (mem_bitmap st). f \<le> g) \<and> pool64_ok (insert f A) st'"
proof -
  have st: "phys_slock st = 0" "int (length (mem_bitmap st)) < uint (total_blocks st)" "0 \<in> slots (mem_bitmap st)"
      "A \<subseteq> slots (mem_bitmap st) - {0}" "length (mem_bitmap st) < 2 ^ 40"
    using ok by (simp_all add: pool64_ok_def)
  have u: "used_blocks st < total_blocks st" using r st(1) by (simp add: physmem_allocblock64_def phys_lock_def not_le split: if_splits)
  obtain f bm where f: "a = of_nat (f * 4096)" "st' = st\<lparr>mem_bitmap := bm, used_blocks := used_blocks st + 1\<rparr>"
      "f \<in> free_slots (mem_bitmap st)" "\<forall>g \<in> free_slots (mem_bitmap st). f \<le> g"
      "length bm = length (mem_bitmap st)" "slots bm = insert f (slots (mem_bitmap st))"
    using alloc64_spec [OF st(1) u st(2)] r by (auto split: if_splits)
  have "f \<notin> slots (mem_bitmap st)" using f(3) by (simp add: free_slots_def)
  then have n: "f \<noteq> 0" "f \<notin> A" using st(3,4) by (metis, blast)
  have "f div 64 < 2 ^ 40" using f(3) st(5) by (simp add: free_slots_def)
  from frame64_address(1) [OF this] have "unat (a div 4096) = f" using f(1) by (simp only:)
  moreover have "pool64_ok (insert f A) st'" using ok f n st by (auto simp: pool64_ok_def)
  ultimately show ?thesis using f n by blast
qed

lemma free64_ok:
  assumes ok: "pool64_ok A st" and f: "f \<in> A"
  shows "\<exists>st'. physmem_freeblock64 (of_nat (f * 4096)) st = Inr st' \<and> pool64_ok (A - {f}) st' \<and>
    slots (mem_bitmap st') = slots (mem_bitmap st) - {f}"
proof -
  have st: "phys_slock st = 0" "f \<in> slots (mem_bitmap st)" "length (mem_bitmap st) < 2 ^ 40" using ok f by (auto simp: pool64_ok_def)
  then have d: "f div 64 < length (mem_bitmap st)" "slot f = f" "f div 64 < 2 ^ 40" by (auto simp: slots_def slot_id)
  obtain bm where bm: "map64_unset (int f) (mem_bitmap st) = Inr bm" "length bm = length (mem_bitmap st)" "slots bm = slots (mem_bitmap st) - {f}"
    using map64_unset_eq [OF d(1)] d(2) by auto
  have "physmem_freeblock64 (of_nat (f * 4096)) st = Inr (st\<lparr>mem_bitmap := bm, used_blocks := used_blocks st - 1\<rparr>)"
    using st(1) bm(1) frame64_address(2) [OF d(3)]
    by (simp add: physmem_freeblock64_def phys_lock_def phys_unlock_def memmap_unsetbit_def Let_def del: of_nat_mult)
  then show ?thesis using ok f bm by (auto simp: pool64_ok_def)
qed

lemma pool64_run_ok: "pool64_run A st \<Longrightarrow> pool64_ok A st"
proof (induction rule: pool64_run.induct)
  case (pool64_alloc A st a st')
  then show ?case using alloc64_ok [OF pool64_alloc(3,2)] by auto
next
  case (pool64_free A st f st')
  then show ?case using free64_ok [of A st f] by auto
qed simp

section \<open>The memory map\<close>

lemma freeregion_loop_slots:
  "freeregion_loop n align i st = Inr st' \<Longrightarrow> 0 \<le> align \<Longrightarrow>
   slots (mem_bitmap st') \<subseteq> slots (mem_bitmap st) \<and> length (mem_bitmap st') = length (mem_bitmap st)"
proof (induction n arbitrary: align i st)
  case (Suc n)
  define k where "k = nat align"
  have k: "align = int k" using Suc.prems(2) by (simp add: k_def)
  obtain bm where bm: "map64_unset align (mem_bitmap st) = Inr bm"
      "freeregion_loop n (align + 1) (i + 4096) (st\<lparr>mem_bitmap := bm, used_blocks := used_blocks st - 1,
        highest_page := if i > highest_page st then i else highest_page st\<rparr>) = Inr st'"
    using Suc.prems(1) by (auto simp: memmap_unsetbit_def rbind_eq_Inr cong: if_cong)
  have "k div 64 < length (mem_bitmap st)"
    using bm(1) k by (auto simp: map64_unset_def rbind_eq_Inr lget_def word_index split: if_splits)
  then have "slots bm \<subseteq> slots (mem_bitmap st)" "length bm = length (mem_bitmap st)" using map64_unset_eq [of k "mem_bitmap st"] bm(1) k by auto
  then show ?case using Suc.IH [OF bm(2)] Suc.prems(2) by auto
qed simp

lemma setbit0_slots:
  assumes "memmap_setbit 0 st = Inr st'"
  shows "slots (mem_bitmap st') = insert 0 (slots (mem_bitmap st)) \<and> length (mem_bitmap st') = length (mem_bitmap st)"
proof -
  obtain bm where bm: "map64_set 0 (mem_bitmap st) = Inr bm" "st' = st\<lparr>mem_bitmap := bm\<rparr>"
    using assms by (auto simp: memmap_setbit_def rbind_eq_Inr)
  have "0 < length (mem_bitmap st)" using bm(1) by (auto simp: map64_set_def rbind_eq_Inr lget_def split: if_splits)
  then show ?thesis using map64_set_eq [of 0 "mem_bitmap st"] bm by (auto simp: slot_def)
qed

lemma free_regions_slots:
  "free_regions rs st = Inr st' \<Longrightarrow>
   slots (mem_bitmap st') \<subseteq> insert 0 (slots (mem_bitmap st)) \<and> length (mem_bitmap st') = length (mem_bitmap st)"
proof (induction rs arbitrary: st)
  case (Cons r rs)
  obtain st1 where s1: "(if region_type r = 1 then physmem_freeregion (base_address r) (region_length r) st else Inr st) = Inr st1"
      "free_regions rs st1 = Inr st'"
    using Cons.prems by (auto simp: rbind_eq_Inr simp del: if_split split: if_splits)
  have "slots (mem_bitmap st1) \<subseteq> insert 0 (slots (mem_bitmap st)) \<and> length (mem_bitmap st1) = length (mem_bitmap st)"
    using s1(1) freeregion_loop_slots setbit0_slots
    by (fastforce simp: physmem_freeregion_def rbind_eq_Inr split: if_splits)
  then show ?case using Cons.IH [OF s1(2)] by auto
qed auto

lemma initial_bitmap_slots:
  assumes "f \<in> slots (replicate n 0x0F0F0F0F0F0F0F0F)" and "f mod 64 < 31"
  shows "f mod 8 < 4"
proof -
  let ?s = "f mod 64"
  have d: "f div 64 < n" "(0x0F0F0F0F0F0F0F0F :: u64) AND int_bit (int ?s) \<noteq> 0" using assms(1) by (auto simp: slots_def)
  then have "bit (0x0F0F0F0F0F0F0F0F :: u64) ?s" using assms(2) unfolding and_nonzero by (auto simp: bit_int_bit)
  moreover have "list_all (\<lambda>s. bit (0x0F0F0F0F0F0F0F0F :: u64) s \<longrightarrow> s mod 8 < 4) [0..<31]" by code_simp
  ultimately have "?s mod 8 < 4" using assms(2) by (simp add: list_all_iff)
  then show ?thesis by (simp add: mod_mod_cancel)
qed

text \<open>The loop of \<open>physmem_init64\<close> is bounded by the number of free frames.\<close>

lemma free_slots_bound: "free_slots bm \<subseteq> {..<64 * length bm}"
proof
  fix f assume "f \<in> free_slots bm"
  then have "f div 64 < length bm" by (simp add: free_slots_def)
  then have "f < length bm * 64" by (simp only: div_less_iff_less_mult zero_less_numeral)
  then show "f \<in> {..<64 * length bm}" by (simp only: lessThan_iff mult.commute)
qed

lemma finite_free_slots [simp]: "finite (free_slots bm)"
  by (rule finite_subset [OF free_slots_bound]) simp

lemma reserve_static_ends:
  assumes "phys_slock st = 0" and "int (length (mem_bitmap st)) < uint (total_blocks st)" and "card (free_slots (mem_bitmap st)) < n"
  shows "reserve_static n last_address st \<noteq> Inl Diverges"
  using assms
proof (induction n arbitrary: st)
  case (Suc n)
  show ?case
  proof (cases "used_blocks st < total_blocks st \<and> free_slots (mem_bitmap st) \<noteq> {}")
    case True
    then obtain f bm where f: "physmem_allocblock64 st = Inr (of_nat (f * 4096), st\<lparr>mem_bitmap := bm, used_blocks := used_blocks st + 1\<rparr>)"
        "f \<in> free_slots (mem_bitmap st)" "length bm = length (mem_bitmap st)" "slots bm = insert f (slots (mem_bitmap st))"
      using alloc64_spec [OF Suc.prems(1) _ Suc.prems(2)] by auto
    have "free_slots bm = free_slots (mem_bitmap st) - {f}" using f by (auto simp: free_slots_def)
    then have "Suc (card (free_slots bm)) = card (free_slots (mem_bitmap st))" using card_Suc_Diff1 [OF finite_free_slots f(2)] by simp
    then have "reserve_static n last_address (st\<lparr>mem_bitmap := bm, used_blocks := used_blocks st + 1\<rparr>) \<noteq> Inl Diverges"
      using Suc.prems f(3) by (intro Suc.IH) simp_all
    then show ?thesis using f(1) by simp
  next
    case False
    then have "physmem_allocblock64 st \<in> {Inl Panic, Inl OutOfBounds}"
      using alloc64_spec [OF Suc.prems(1) _ Suc.prems(2)] Suc.prems(1)
      by (cases "used_blocks st < total_blocks st") (auto simp: physmem_allocblock64_def phys_lock_def not_le)
    then show ?thesis by auto
  qed
qed simp

end
