(* ===== verification/Paging.thy ===== *)
theory Paging
  imports Physmem64
begin

text \<open>
  Virtual memory on x86_64 (\<^verbatim>\<open>src/kudos/vm/x86_64/mm_virt.c\<close>): page tables of four levels in a pool of 1024
  tables. The reference is the walk the processor makes from the top table, \<open>translate\<close>. The invariant
  \<open>pt_tree\<close> says that the tables below a top table form a tree.
\<close>

section \<open>State\<close>

text \<open>
  \<open>pt_base\<close> is the address of the pool \<^verbatim>\<open>pt_pool\<close>; a table is addressed by its pointer, and \<open>table_index\<close>
  is the table a pointer leads to. \<open>pt_pool st t i\<close> is entry \<open>i\<close> of table \<open>t\<close>.
\<close>

record paging =
  pt_base :: u64
  pt_pool :: "nat \<Rightarrow> nat \<Rightarrow> u64"
  pt_bitmap :: "u64 list"
  kernel_pml4 :: u64
  kmalloc_addr :: u64
  vm_slock :: int
  vm_intr :: bool
  cr3 :: u64

abbreviation (input) VM_PTP_SIZE :: nat where "VM_PTP_SIZE \<equiv> 1024"
abbreviation (input) PAGE_MASK :: u64 where "PAGE_MASK \<equiv> 0xFFFFFFFFFFFFF000"
abbreviation (input) PAGE_PRESENT :: u64 where "PAGE_PRESENT \<equiv> 1"
abbreviation (input) PAGE_WRITE :: u64 where "PAGE_WRITE \<equiv> 2"
abbreviation (input) VMM_KERNEL_SPACE :: u64 where "VMM_KERNEL_SPACE \<equiv> 0x00007FFFFFFFFFFF"

definition table_addr :: "nat \<Rightarrow> paging \<Rightarrow> u64" where
  "table_addr t st = pt_base st + of_nat (4096 * t)"

definition table_index :: "u64 \<Rightarrow> paging \<Rightarrow> nat res" where
  "table_index p st =
     (let d = p - pt_base st in
      if d mod 4096 = 0 \<and> unat (d div 4096) < VM_PTP_SIZE then Inr (unat (d div 4096)) else Inl OutOfBounds)"

definition VMM_INDEX_PML4 :: "u64 \<Rightarrow> nat" where "VMM_INDEX_PML4 x = unat (drop_bit 39 x AND 0x1FF)"
definition VMM_INDEX_PDP :: "u64 \<Rightarrow> nat" where "VMM_INDEX_PDP x = unat (drop_bit 30 x AND 0x1FF)"
definition VMM_INDEX_PDIR :: "u64 \<Rightarrow> nat" where "VMM_INDEX_PDIR x = unat (drop_bit 21 x AND 0x1FF)"
definition VMM_INDEX_PTABLE :: "u64 \<Rightarrow> nat" where "VMM_INDEX_PTABLE x = unat (drop_bit 12 x AND 0x1FF)"

section \<open>Operations\<close>

definition ptmap_setbit :: "int \<Rightarrow> paging \<Rightarrow> paging res" where
  "ptmap_setbit b st = rbind (map64_set b (pt_bitmap st)) (\<lambda>bm. Inr (st\<lparr>pt_bitmap := bm\<rparr>))"

definition ptmap_unsetbit :: "int \<Rightarrow> paging \<Rightarrow> paging res" where
  "ptmap_unsetbit b st = rbind (map64_unset b (pt_bitmap st)) (\<lambda>bm. Inr (st\<lparr>pt_bitmap := bm\<rparr>))"

definition ptmap_testbit :: "int \<Rightarrow> paging \<Rightarrow> u64 res" where
  "ptmap_testbit b st = map64_test b (pt_bitmap st)"

definition vmm_cleartable :: "u64 \<Rightarrow> paging \<Rightarrow> paging res" where
  "vmm_cleartable p_table st =
     (if p_table \<noteq> 0 then rbind (table_index p_table st) (\<lambda>t. Inr (st\<lparr>pt_pool := (pt_pool st)(t := (\<lambda>_. 0))\<rparr>)) else Inr st)"

definition vmm_setattribute :: "u64 \<Rightarrow> u64 \<Rightarrow> u64" where
  "vmm_setattribute p attrib = p OR attrib"

definition vmm_setframe :: "u64 \<Rightarrow> u64 \<Rightarrow> u64" where
  "vmm_setframe p frame = (p AND NOT PAGE_MASK) OR frame"

definition vmm_get_kernel_pml4 :: "paging \<Rightarrow> u64" where
  "vmm_get_kernel_pml4 st = kernel_pml4 st"

fun new_table_loop :: "nat \<Rightarrow> nat \<Rightarrow> paging \<Rightarrow> (nat \<times> paging) res" where
  "new_table_loop 0 i st = Inl Panic"
| "new_table_loop (Suc n) i st =
     rbind (ptmap_testbit (int i) st) (\<lambda>x.
     if x = 0 then rbind (ptmap_setbit (int i) st) (\<lambda>st. Inr (i, st)) else new_table_loop n (Suc i) st)"

definition vmm_new_pagetable :: "paging \<Rightarrow> (u64 \<times> paging) res" where
  "vmm_new_pagetable st = rbind (new_table_loop VM_PTP_SIZE 0 st) (\<lambda>(i, st). Inr (table_addr i st, st))"

definition set_entry :: "nat \<Rightarrow> nat \<Rightarrow> u64 \<Rightarrow> paging \<Rightarrow> paging" where
  "set_entry t i e st = st\<lparr>pt_pool := (pt_pool st)(t := (pt_pool st t)(i := e))\<rparr>"

definition vmm_install_ptable :: "u64 \<Rightarrow> nat \<Rightarrow> u64 \<Rightarrow> u64 \<Rightarrow> paging \<Rightarrow> paging res" where
  "vmm_install_ptable target pt_index phys flags st =
     rbind (table_index target st) (\<lambda>t. Inr (set_entry t pt_index (phys OR flags) st))"

definition vmm_setcr3 :: "u64 \<Rightarrow> paging \<Rightarrow> paging" where
  "vmm_setcr3 pdbr st = st\<lparr>cr3 := pdbr\<rparr>"

definition vmm_getptable :: "u64 \<Rightarrow> u64 \<Rightarrow> paging \<Rightarrow> u64 res" where
  "vmm_getptable pdir vaddr st =
     rbind (table_index pdir st) (\<lambda>t.
     let ptr = pt_pool st t (VMM_INDEX_PDIR vaddr) in
     Inr (if ptr AND PAGE_PRESENT \<noteq> 0 then ptr AND PAGE_MASK else 0))"

definition vmm_getpdir :: "u64 \<Rightarrow> u64 \<Rightarrow> paging \<Rightarrow> u64 res" where
  "vmm_getpdir pdp vaddr st =
     rbind (table_index pdp st) (\<lambda>t.
     let ptr = pt_pool st t (VMM_INDEX_PDP vaddr) in
     Inr (if ptr AND PAGE_PRESENT \<noteq> 0 then ptr AND PAGE_MASK else 0))"

definition vmm_getpdp :: "u64 \<Rightarrow> u64 \<Rightarrow> paging \<Rightarrow> u64 res" where
  "vmm_getpdp pml4 vaddr st =
     rbind (table_index pml4 st) (\<lambda>t.
     let ptr = pt_pool st t (VMM_INDEX_PML4 vaddr) in
     Inr (if ptr AND PAGE_PRESENT \<noteq> 0 then ptr AND PAGE_MASK else 0))"

text \<open>One level of \<open>vm_map\<close>: the table of the next level, a new one when there is none yet.\<close>

definition next_table :: "(u64 \<Rightarrow> u64 \<Rightarrow> paging \<Rightarrow> u64 res) \<Rightarrow> (u64 \<Rightarrow> nat) \<Rightarrow> u64 \<Rightarrow> u64 \<Rightarrow> u64 \<Rightarrow> paging \<Rightarrow> (u64 \<times> paging) res" where
  "next_table get index table vaddr flags st =
     rbind (get table vaddr st) (\<lambda>p.
     if p = 0 then
       rbind (vmm_new_pagetable st) (\<lambda>(p, st).
       rbind (vmm_cleartable p st) (\<lambda>st.
       rbind (vmm_install_ptable table (index vaddr) p (PAGE_PRESENT OR PAGE_WRITE OR flags) st) (\<lambda>st.
       Inr (p, st))))
     else Inr (p, st))"

definition vm_map64 :: "u64 \<Rightarrow> u64 \<Rightarrow> u64 \<Rightarrow> int \<Rightarrow> paging \<Rightarrow> paging res" where
  "vm_map64 pml4 physaddr vaddr flags st =
     (let fl = word_of_int flags; intr_status = vm_intr st; st = st\<lparr>vm_intr := False\<rparr> in
      if vm_slock st \<noteq> 0 then Inl Spin else
      let st = st\<lparr>vm_slock := 1\<rparr> in
      rbind (next_table vmm_getpdp VMM_INDEX_PML4 pml4 vaddr fl st) (\<lambda>(pdp, st).
      rbind (next_table vmm_getpdir VMM_INDEX_PDP pdp vaddr fl st) (\<lambda>(pdir, st).
      rbind (next_table vmm_getptable VMM_INDEX_PDIR pdir vaddr fl st) (\<lambda>(pt, st).
      rbind (table_index pt st) (\<lambda>t.
      let st = set_entry t (VMM_INDEX_PTABLE vaddr) (physaddr OR PAGE_PRESENT OR PAGE_WRITE OR fl) st in
      Inr (st\<lparr>vm_slock := 0, vm_intr := intr_status\<rparr>))))))"

definition vm_unmap64 :: "u64 \<Rightarrow> u64 \<Rightarrow> paging \<Rightarrow> paging" where
  "vm_unmap64 pagetable vaddr st = st"

definition vm_create_pagetable64 :: "u32 \<Rightarrow> paging \<Rightarrow> (u64 \<times> paging) res" where
  "vm_create_pagetable64 asid st =
     rbind (vmm_new_pagetable st) (\<lambda>(pml4, st).
     rbind (table_index pml4 st) (\<lambda>t.
     rbind (table_index (kernel_pml4 st) st) (\<lambda>k.
     Inr (pml4, st\<lparr>pt_pool := (pt_pool st)(t := pt_pool st k)\<rparr>))))"

definition vm_destroy_pagetable64 :: "u64 \<Rightarrow> paging \<Rightarrow> paging res" where
  "vm_destroy_pagetable64 table st =
     (if table < pt_base st then Inl Panic
      else
        let pt_index = (table - pt_base st) div 4096 in
        if pt_index \<ge> 1024 then Inl Panic else ptmap_unsetbit (uint pt_index) st)"

fun clear_ptmap :: "nat \<Rightarrow> int \<Rightarrow> paging \<Rightarrow> paging res" where
  "clear_ptmap 0 i st = Inr st"
| "clear_ptmap (Suc n) i st = rbind (ptmap_unsetbit i st) (clear_ptmap n (i + 1))"

function identity_map :: "u64 \<Rightarrow> nat \<Rightarrow> nat \<Rightarrow> paging \<Rightarrow> paging res" where
  "identity_map pml4 phys bound st =
     (if phys < bound then rbind (vm_map64 pml4 (of_nat phys) (of_nat phys) 0 st) (identity_map pml4 (phys + 0x1000) bound)
      else Inr st)"
  by pat_completeness auto
termination
  by (relation "measure (\<lambda>(pml4, phys, bound, st). bound - phys)") auto

declare identity_map.simps [simp del]

definition vm_init64 :: "phys64 \<Rightarrow> paging \<Rightarrow> paging res" where
  "vm_init64 ph st =
     (let st = st\<lparr>vm_slock := 0\<rparr>;
          b = kernel_ends ph + stalloced ph;
          b = (if b mod 4096 > 0 then b + (4096 - b mod 4096) else b);
          st = st\<lparr>kmalloc_addr := b\<rparr> in
      rbind (clear_ptmap VM_PTP_SIZE 0 st) (\<lambda>st.
      rbind (vmm_new_pagetable st) (\<lambda>(pml4, st).
      rbind (vmm_cleartable pml4 st) (\<lambda>st.
      rbind (identity_map pml4 0x1000 (unat b) st) (\<lambda>st.
      Inr (vmm_setcr3 pml4 (st\<lparr>kernel_pml4 := pml4\<rparr>)))))))"

fun kmalloc_map :: "nat \<Rightarrow> u64 \<Rightarrow> u64 \<Rightarrow> paging \<Rightarrow> paging res" where
  "kmalloc_map 0 frames i st = Inr st"
| "kmalloc_map (Suc n) frames i st =
     rbind (vm_map64 (kernel_pml4 st) (frames + i * 4096) (kmalloc_addr st + 0x1000 * i) 0 st) (kmalloc_map n frames (i + 1))"

definition kmalloc :: "u64 \<Rightarrow> phys64 \<Rightarrow> paging \<Rightarrow> (u64 \<times> paging) res" where
  "kmalloc sz ph st =
     (if sz + kmalloc_addr st > VMM_KERNEL_SPACE then Inl Panic
      else
        let ret_addr = kmalloc_addr st;
            n_frames = (if sz mod 4096 \<noteq> 0 then sz div 4096 + 1 else sz div 4096) in
        rbind (physmem_getframes (unat n_frames) ph) (\<lambda>frames.
        rbind (kmalloc_map (unat n_frames) (word_of_int frames) 0 st) (\<lambda>st.
        Inr (ret_addr, st\<lparr>kmalloc_addr := kmalloc_addr st + 0x1000 * n_frames\<rparr>))))"

section \<open>The walk\<close>

definition sub_table :: "paging \<Rightarrow> nat \<Rightarrow> nat \<Rightarrow> nat option" where
  "sub_table st t i =
     (if i < 512 \<and> bit (pt_pool st t i) 0
      then case table_index (pt_pool st t i AND PAGE_MASK) st of Inr t' \<Rightarrow> Some t' | Inl _ \<Rightarrow> None
      else None)"

fun node :: "paging \<Rightarrow> nat \<Rightarrow> nat list \<Rightarrow> nat option" where
  "node st t [] = Some t"
| "node st t (i # p) = (case sub_table st t i of None \<Rightarrow> None | Some t' \<Rightarrow> node st t' p)"

definition table_path :: "u64 \<Rightarrow> nat list" where
  "table_path v = [VMM_INDEX_PML4 v, VMM_INDEX_PDP v, VMM_INDEX_PDIR v]"

text \<open>The entry the processor uses for an address, with the frame and the attributes.\<close>

definition translate :: "paging \<Rightarrow> nat \<Rightarrow> u64 \<Rightarrow> u64 option" where
  "translate st r v =
     (case node st r (table_path v) of None \<Rightarrow> None
      | Some t \<Rightarrow> if bit (pt_pool st t (VMM_INDEX_PTABLE v)) 0 then Some (pt_pool st t (VMM_INDEX_PTABLE v)) else None)"

definition pool_ok64 :: "paging \<Rightarrow> bool" where
  "pool_ok64 st \<longleftrightarrow> length (pt_bitmap st) = 16 \<and> pt_base st AND 0xFFF = 0 \<and> 0 < unat (pt_base st) \<and> unat (pt_base st) + 4096 * 1024 \<le> 2 ^ 64"

definition pt_tree :: "paging \<Rightarrow> nat \<Rightarrow> bool" where
  "pt_tree st r \<longleftrightarrow>
     (\<forall>p t. length p \<le> 3 \<and> node st r p = Some t \<longrightarrow> t \<in> slots (pt_bitmap st) \<and> t < VM_PTP_SIZE) \<and>
     (\<forall>p t i. length p \<le> 2 \<and> node st r p = Some t \<and> i < 512 \<and> bit (pt_pool st t i) 0 \<longrightarrow> sub_table st t i \<noteq> None) \<and>
     (\<forall>p q t. length p \<le> 3 \<and> length q \<le> 3 \<and> node st r p = Some t \<and> node st r q = Some t \<longrightarrow> p = q)"

section \<open>Tables and pointers\<close>

lemma index_less [simp]: "VMM_INDEX_PML4 v < 512" "VMM_INDEX_PDP v < 512" "VMM_INDEX_PDIR v < 512" "VMM_INDEX_PTABLE v < 512"
proof -
  have "unat (w AND 0x1FF) < 512" for w :: u64
  proof -
    have "w AND mask 9 = w mod 512" using take_bit_eq_mask [of 9 w] by (simp add: take_bit_eq_mod)
    then show ?thesis by (simp add: mask_eq_exp_minus_1 unat_mod_distrib)
  qed
  then show "VMM_INDEX_PML4 v < 512" "VMM_INDEX_PDP v < 512" "VMM_INDEX_PDIR v < 512" "VMM_INDEX_PTABLE v < 512"
    by (simp_all add: VMM_INDEX_PML4_def VMM_INDEX_PDP_def VMM_INDEX_PDIR_def VMM_INDEX_PTABLE_def)
qed

lemma present_bit: "(e :: u64) AND 1 \<noteq> 0 \<longleftrightarrow> bit e 0"
  by (simp add: and_one_eq bit_0 mod2_eq_if)

lemma table_index_addr:
  assumes "t < 1024"
  shows "table_index (table_addr t st) st = Inr t"
proof -
  have u: "unat (of_nat (4096 * t) :: u64) = 4096 * t" using assms by (simp add: unat_of_nat del: of_nat_mult)
  have m: "(of_nat (4096 * t) :: u64) mod 4096 = 0"
  proof -
    have "unat ((of_nat (4096 * t) :: u64) mod 4096) = 0" by (simp add: unat_mod_distrib u del: of_nat_mult)
    then show ?thesis by (simp only: unat_eq_zero)
  qed
  have "unat ((of_nat (4096 * t) :: u64) div 4096) = t" by (simp add: unat_div_distrib u del: of_nat_mult)
  then show ?thesis using assms m by (simp add: table_index_def table_addr_def Let_def del: of_nat_mult)
qed

lemma table_indexD:
  assumes "table_index p st = Inr t"
  shows "t < 1024" and "p = table_addr t st"
proof -
  let ?d = "p - pt_base st"
  have d: "?d mod 4096 = 0" "unat (?d div 4096) = t" "t < 1024"
    using assms by (auto simp: table_index_def Let_def split: if_splits)
  show "t < 1024" by (fact d(3))
  have "unat ?d = 4096 * t"
  proof -
    have "unat (?d mod 4096) = 0" using d(1) by simp
    then have "unat ?d mod 4096 = 0" by (simp add: unat_mod_distrib)
    moreover have "unat ?d div 4096 = t" using d(2) by (simp add: unat_div_distrib)
    ultimately show ?thesis by (metis add.right_neutral mult_div_mod_eq)
  qed
  moreover have "of_nat (unat ?d) = ?d" by simp
  ultimately have "?d = of_nat (4096 * t)" by metis
  then show "p = table_addr t st" by (simp add: table_addr_def algebra_simps)
qed

lemma unat_table_addr: "pool_ok64 st \<Longrightarrow> t < 1024 \<Longrightarrow> unat (table_addr t st) = unat (pt_base st) + 4096 * t"
proof -
  assume ok: "pool_ok64 st" and t: "t < 1024"
  have u: "unat (of_nat (4096 * t) :: u64) = 4096 * t" using t by (simp add: unat_of_nat del: of_nat_mult)
  then show ?thesis
    using ok t unat_add_lem [of "pt_base st" "of_nat (4096 * t)"] by (simp add: table_addr_def pool_ok64_def del: of_nat_mult)
qed

lemma table_addr_nonzero: "pool_ok64 st \<Longrightarrow> t < 1024 \<Longrightarrow> table_addr t st \<noteq> 0"
  using unat_table_addr [of st t] by (auto simp: pool_ok64_def)

text \<open>Attributes below 4096 do not reach the pointer of an entry.\<close>

lemma entry_pointer:
  assumes "pool_ok64 st" and "t < 1024" and "unat fl < 4096"
  shows "(table_addr t st OR fl) AND PAGE_MASK = table_addr t st"
proof -
  have n: "PAGE_MASK = NOT (mask 12 :: u64)" "0xFFF = (mask 12 :: u64)" by (simp_all add: mask_eq_exp_minus_1)
  have fl: "fl AND NOT (mask 12) = 0"
  proof -
    have "unat (take_bit 12 fl) = unat fl" using assms(3) by (simp add: take_bit_eq_mod unat_mod_distrib)
    then have "take_bit 12 fl = fl" by (simp only: word_unat_eq_iff)
    then show ?thesis by (metis take_bit_eq_mask and.assoc bit.conj_cancel_right bit.conj_zero_right)
  qed
  have low: "take_bit 12 (table_addr t st) = 0"
  proof -
    have "unat (take_bit 12 (pt_base st)) = 0" using assms(1) n(2) by (simp add: pool_ok64_def take_bit_eq_mask)
    then have "unat (pt_base st) mod 4096 = 0" by (simp add: take_bit_eq_mod unat_mod_distrib)
    then have "unat (table_addr t st) mod 4096 = 0" using unat_table_addr [OF assms(1,2)] by simp
    then have "unat (take_bit 12 (table_addr t st)) = 0" by (simp add: take_bit_eq_mod unat_mod_distrib)
    then show ?thesis by (simp only: unat_eq_zero)
  qed
  have nb: "\<not> bit (table_addr t st) n" if "n < 12" for n
    using low that by (metis bit_take_bit_iff bit_0_eq bot_apply bot_bool_def)
  have "table_addr t st AND NOT (mask 12) = table_addr t st"
    by (rule bit_word_eqI) (use nb in \<open>auto simp: bit_simps not_less [symmetric]\<close>)
  then show ?thesis unfolding n(1) using fl by (simp add: bit.conj_disj_distrib2)
qed

section \<open>New tables\<close>

text \<open>The first table whose test is 0 is the lowest free slot; it is in the lower half of a group of 64.\<close>

lemma new_table_loop_spec:
  assumes "length (pt_bitmap st) = 16" and "n + i = 1024" and "\<forall>g \<in> free_slots (pt_bitmap st). i \<le> g" and "free_slots (pt_bitmap st) \<noteq> {}"
  shows "\<exists>f bm. new_table_loop n i st = Inr (f, st\<lparr>pt_bitmap := bm\<rparr>) \<and> f \<in> free_slots (pt_bitmap st) \<and>
    (\<forall>g \<in> free_slots (pt_bitmap st). f \<le> g) \<and> length bm = 16 \<and> slots bm = insert f (slots (pt_bitmap st))"
  using assms(2,3)
proof (induction n arbitrary: i)
  case 0
  obtain g where g: "g \<in> free_slots (pt_bitmap st)" using assms(4) by blast
  then have "g < 1024" using free_slots_bound [of "pt_bitmap st"] assms(1) by auto
  then show ?case using 0 g by fastforce
next
  case (Suc n)
  have d: "i div 64 < length (pt_bitmap st)" using Suc.prems(1) assms(1) by (simp add: div_less_iff_less_mult)
  obtain x where x: "map64_test (int i) (pt_bitmap st) = Inr x" "x \<noteq> 0 \<longleftrightarrow> slot i \<in> slots (pt_bitmap st)"
    using map64_test_eq [OF d] by blast
  show ?case
  proof (cases "x = 0")
    case True
    have "slot i \<in> free_slots (pt_bitmap st)" using True x(2) d by (simp add: free_slots_def)
    then have "i \<le> slot i" using Suc.prems(2) by blast
    moreover have "slot i \<le> i"
    proof -
      have "i mod 64 mod 32 = i mod 32" by (simp add: mod_mod_cancel)
      then have "i mod 32 \<le> i mod 64" using mod_less_eq_dividend [of "i mod 64" 32] by simp
      then show ?thesis using mult_div_mod_eq [of 64 i] unfolding slot_def by linarith
    qed
    ultimately have i: "slot i = i" by simp
    then show ?thesis using True x(1) map64_set_eq [OF d] \<open>slot i \<in> free_slots (pt_bitmap st)\<close> Suc.prems(2) assms(1)
      by (auto simp: ptmap_testbit_def ptmap_setbit_def)
  next
    case False
    then have "i \<notin> free_slots (pt_bitmap st)" using x(2) by (auto simp: free_slots_def slot_id)
    then have "\<forall>g \<in> free_slots (pt_bitmap st). Suc i \<le> g" using Suc.prems(2) by (metis Suc_leI le_neq_implies_less)
    from Suc.IH [OF _ this] show ?thesis using False x(1) Suc.prems(1) by (simp add: ptmap_testbit_def)
  qed
qed

lemma new_pagetable_spec:
  assumes "pool_ok64 st" and "free_slots (pt_bitmap st) \<noteq> {}"
  shows "\<exists>f bm. vmm_new_pagetable st = Inr (table_addr f st, st\<lparr>pt_bitmap := bm\<rparr>) \<and> f \<in> free_slots (pt_bitmap st) \<and> f < 1024 \<and>
    (\<forall>g \<in> free_slots (pt_bitmap st). f \<le> g) \<and> length bm = 16 \<and> slots bm = insert f (slots (pt_bitmap st)) \<and>
    free_slots bm = free_slots (pt_bitmap st) - {f}"
proof -
  have l: "length (pt_bitmap st) = 16" using assms(1) by (simp add: pool_ok64_def)
  obtain f bm where f: "new_table_loop 1024 0 st = Inr (f, st\<lparr>pt_bitmap := bm\<rparr>)" "f \<in> free_slots (pt_bitmap st)"
      "\<forall>g \<in> free_slots (pt_bitmap st). f \<le> g" "length bm = 16" "slots bm = insert f (slots (pt_bitmap st))"
    using new_table_loop_spec [OF l, of 1024 0] assms(2) by auto
  have "f < 1024" using f(2) free_slots_bound [of "pt_bitmap st"] l by auto
  moreover have "free_slots bm = free_slots (pt_bitmap st) - {f}" using f l by (auto simp: free_slots_def)
  ultimately show ?thesis using f by (auto simp: vmm_new_pagetable_def table_addr_def)
qed

lemma new_table_loop_full:
  assumes "length (pt_bitmap st) = 16" and "free_slots (pt_bitmap st) = {}"
  shows "n + i \<le> 1024 \<Longrightarrow> new_table_loop n i st = Inl Panic"
proof (induction n arbitrary: i)
  case (Suc n)
  have d: "i div 64 < length (pt_bitmap st)" using Suc.prems assms(1) by (simp add: div_less_iff_less_mult)
  have "slot i \<in> slots (pt_bitmap st)" using assms(2) d by (auto simp: free_slots_def)
  then obtain x where "map64_test (int i) (pt_bitmap st) = Inr x" "x \<noteq> 0" using map64_test_eq [OF d] by blast
  then show ?case using Suc by (simp add: ptmap_testbit_def)
qed simp

section \<open>The tree of tables\<close>

lemma vm_cong:
  assumes "pt_base st' = pt_base st" and "pt_pool st' = pt_pool st" and "pt_bitmap st' = pt_bitmap st"
  shows "node st' = node st" and "translate st' = translate st" and "pt_tree st' = pt_tree st" and "pool_ok64 st' = pool_ok64 st"
    and "table_addr u st' = table_addr u st" and "table_index a st' = table_index a st"
proof -
  have s: "sub_table st' = sub_table st" using assms by (intro ext) (simp add: sub_table_def table_index_def)
  have "node st' u q = node st u q" for u q by (induction q arbitrary: u) (simp_all add: s split: option.split)
  then show n: "node st' = node st" by (intro ext) simp
  show "translate st' = translate st" using assms n by (intro ext) (simp add: translate_def split: option.split)
  show "pt_tree st' = pt_tree st" using assms n s by (intro ext) (simp add: pt_tree_def)
  show "pool_ok64 st' = pool_ok64 st" using assms by (simp add: pool_ok64_def)
  show "table_addr u st' = table_addr u st" using assms by (simp add: table_addr_def)
  show "table_index a st' = table_index a st" using assms by (simp add: table_index_def)
qed

lemma pt_treeD:
  assumes "pt_tree st r"
  shows "length p \<le> 3 \<Longrightarrow> node st r p = Some t \<Longrightarrow> t \<in> slots (pt_bitmap st)"
    and "length p \<le> 3 \<Longrightarrow> node st r p = Some t \<Longrightarrow> t < 1024"
    and "length p \<le> 2 \<Longrightarrow> node st r p = Some t \<Longrightarrow> i < 512 \<Longrightarrow> bit (pt_pool st t i) 0 \<Longrightarrow> sub_table st t i \<noteq> None"
    and "length p \<le> 3 \<Longrightarrow> length q \<le> 3 \<Longrightarrow> node st r p = Some t \<Longrightarrow> node st r q = Some t \<Longrightarrow> p = q"
  using assms unfolding pt_tree_def by blast+

lemma node_append: "node st t (p @ q) = (case node st t p of None \<Rightarrow> None | Some u \<Rightarrow> node st u q)"
  by (induction p arbitrary: t) (auto split: option.split)

lemma node_snoc: "node st t (p @ [i]) = (case node st t p of None \<Rightarrow> None | Some u \<Rightarrow> sub_table st u i)"
  by (simp add: node_append split: option.split)

lemma node_cong:
  assumes "\<And>p t i. length p < n \<Longrightarrow> node st r p = Some t \<Longrightarrow> sub_table st' t i = sub_table st t i" and "length q \<le> n"
  shows "node st' r q = node st r q"
  using assms(2)
proof (induction q rule: rev_induct)
  case (snoc i q)
  then show ?case using assms(1) [of q] by (auto simp: node_snoc split: option.split)
qed simp

text \<open>A new table below table \<open>t\<close> of the tree, in place of a missing one.\<close>

definition grow :: "nat \<Rightarrow> nat \<Rightarrow> nat \<Rightarrow> u64 \<Rightarrow> u64 list \<Rightarrow> paging \<Rightarrow> paging" where
  "grow t i f fl bm st = set_entry t i (table_addr f st OR fl) (st\<lparr>pt_bitmap := bm, pt_pool := (pt_pool st)(f := (\<lambda>_. 0))\<rparr>)"

lemma grow_fields [simp]: "pt_bitmap (grow t i f fl bm st) = bm" "pt_base (grow t i f fl bm st) = pt_base st"
  "table_addr u (grow t i f fl bm st) = table_addr u st" "table_index p (grow t i f fl bm st) = table_index p st"
  by (simp_all add: grow_def set_entry_def table_addr_def table_index_def)

lemma grow_pool: "pt_pool (grow t i f fl bm st) u = (if u = t then ((if t = f then (\<lambda>_. 0) else pt_pool st t))(i := table_addr f st OR fl)
    else if u = f then (\<lambda>_. 0) else pt_pool st u)"
  by (simp add: grow_def set_entry_def table_addr_def)

lemma sub_table_index: "sub_table st t i = Some t' \<Longrightarrow> pt_pool st t i AND PAGE_MASK = table_addr t' st \<and> t' < 1024 \<and> i < 512 \<and> bit (pt_pool st t i) 0"
  by (auto simp: sub_table_def split: if_splits sum.splits dest: table_indexD)

text \<open>The situation in which \<open>next_table\<close> makes a table.\<close>

definition growing :: "paging \<Rightarrow> nat \<Rightarrow> nat list \<Rightarrow> nat \<Rightarrow> nat \<Rightarrow> nat \<Rightarrow> u64 \<Rightarrow> u64 list \<Rightarrow> bool" where
  "growing st r p t i f fl bm \<longleftrightarrow> pool_ok64 st \<and> pt_tree st r \<and> node st r p = Some t \<and> length p \<le> 2 \<and> i < 512 \<and>
     sub_table st t i = None \<and> f \<in> free_slots (pt_bitmap st) \<and> f < 1024 \<and> slots bm = insert f (slots (pt_bitmap st)) \<and>
     unat fl < 4096 \<and> bit fl 0"

lemma grow_sub:
  assumes "growing st r p t i f fl bm"
  shows "f \<noteq> t" and "sub_table (grow t i f fl bm st) t i = Some f" and "sub_table (grow t i f fl bm st) f j = None"
    and "u \<noteq> f \<Longrightarrow> (u, j) \<noteq> (t, i) \<Longrightarrow> sub_table (grow t i f fl bm st) u j = sub_table st u j"
proof -
  have g: "pool_ok64 st" "pt_tree st r" "node st r p = Some t" "length p \<le> 2" "i < 512" "f \<in> free_slots (pt_bitmap st)" "f < 1024"
      "unat fl < 4096" "bit fl 0" using assms by (auto simp: growing_def)
  have "t \<in> slots (pt_bitmap st)" using pt_treeD(1) [OF g(2)] g(3,4) by force
  then show ft: "f \<noteq> t" using g(6) by (auto simp: free_slots_def)
  show "sub_table (grow t i f fl bm st) t i = Some f"
    using g(5,9) entry_pointer [OF g(1,7,8)] table_index_addr [OF g(7)] ft
    by (simp add: sub_table_def grow_pool bit_or_iff)
  show "sub_table (grow t i f fl bm st) f j = None" using ft by (simp add: sub_table_def grow_pool)
  show "sub_table (grow t i f fl bm st) u j = sub_table st u j" if "u \<noteq> f" "(u, j) \<noteq> (t, i)"
    using that ft by (auto simp: sub_table_def grow_pool)
qed

lemma grow_node:
  assumes g: "growing st r p t i f fl bm" and l: "length q \<le> 3"
  shows "node (grow t i f fl bm st) r q = Some u \<longleftrightarrow> node st r q = Some u \<or> u = f \<and> q = p @ [i]"
  using l
proof (induction q arbitrary: u rule: rev_induct)
  case Nil
  then show ?case by simp
next
  case (snoc j q)
  have D: "pt_tree st r" "node st r p = Some t" "length p \<le> 2" "sub_table st t i = None" "f \<in> free_slots (pt_bitmap st)"
    using g by (auto simp: growing_def)
  have l: "length q \<le> 2" "length q \<le> 3" using snoc.prems by simp_all
  have IH: "node (grow t i f fl bm st) r q = Some v \<longleftrightarrow> node st r q = Some v \<or> v = f \<and> q = p @ [i]" for v
    using snoc.IH l by blast
  have nf: "node st r q \<noteq> Some f" using pt_treeD(1) [OF D(1) l(2), of f] D(5) by (auto simp: free_slots_def)
  show ?case
  proof (cases "node (grow t i f fl bm st) r q")
    case None
    then have "node st r q = None" using IH by (cases "node st r q") auto
    moreover have "q \<noteq> p" using calculation D(2) by auto
    ultimately show ?thesis using None by (simp add: node_snoc)
  next
    case (Some v)
    then consider "v = f" "q = p @ [i]" "node st r q = None" | "v \<noteq> f" "node st r q = Some v"
      using IH [of v] nf D(2,4) by (auto simp: node_snoc)
    then show ?thesis
    proof cases
      case 1
      have "node (grow t i f fl bm st) r (q @ [j]) = None" "node st r (q @ [j]) = None" "q \<noteq> p"
        using 1 Some grow_sub(3) [OF g] by (simp_all only: node_snoc option.case) auto
      then show ?thesis by simp
    next
      case 2
      show ?thesis
      proof (cases "(v, j) = (t, i)")
        case True
        then have "q = p" using pt_treeD(4) [OF D(1) l(2) _ 2(2), of p] D(2,3) by simp
        then show ?thesis using True Some 2 D(4) grow_sub(2) [OF g] by (auto simp: node_snoc)
      next
        case False
        have "\<not> (q = p \<and> j = i)" using False 2(2) D(2) by auto
        then show ?thesis using Some 2 grow_sub(4) [OF g 2(1) False] by (auto simp: node_snoc)
      qed
    qed
  qed
qed

lemma grow_tree:
  assumes g: "growing st r p t i f fl bm"
  shows "pt_tree (grow t i f fl bm st) r"
proof -
  let ?st = "grow t i f fl bm st"
  have D: "pt_tree st r" "f \<in> free_slots (pt_bitmap st)" "f < 1024" "slots bm = insert f (slots (pt_bitmap st))"
    using g by (auto simp: growing_def)
  have nf: "node st r q \<noteq> Some f" if "length q \<le> 3" for q using pt_treeD(1) [OF D(1) that, of f] D(2) by (auto simp: free_slots_def)
  show ?thesis unfolding pt_tree_def
  proof (intro conjI allI impI; elim conjE)
    fix q u assume q: "length q \<le> 3" "node ?st r q = Some u"
    then show "u \<in> slots (pt_bitmap ?st)" "u < 1024" using grow_node [OF g q(1), of u] pt_treeD(1,2) [OF D(1) q(1), of u] D(3,4) by auto
  next
    fix q u j assume q: "length q \<le> 2" "node ?st r q = Some u" "j < 512" "bit (pt_pool ?st u j) 0"
    show "sub_table ?st u j \<noteq> None"
    proof (cases "u = f")
      case True
      then show ?thesis using q(4) grow_sub(1) [OF g] by (simp add: grow_pool)
    next
      case False
      then have n: "node st r q = Some u" using grow_node [OF g, of q u] q by auto
      show ?thesis
      proof (cases "(u, j) = (t, i)")
        case True
        then show ?thesis using grow_sub(2) [OF g] by simp
      next
        case F: False
        have "pt_pool ?st u j = pt_pool st u j" using False F by (auto simp: grow_pool)
        then show ?thesis using grow_sub(4) [OF g False F] pt_treeD(3) [OF D(1) q(1) n q(3)] q(4) by simp
      qed
    qed
  next
    fix q s u assume q: "length q \<le> 3" "length s \<le> 3" "node ?st r q = Some u" "node ?st r s = Some u"
    show "q = s"
      using grow_node [OF g q(1), of u] grow_node [OF g q(2), of u] q nf pt_treeD(4) [OF D(1) q(1,2), of u] by auto
  qed
qed

lemma grow_translate:
  assumes g: "growing st r p t i f fl bm"
  shows "translate (grow t i f fl bm st) r v = translate st r v"
proof -
  have D: "pt_tree st r" "node st r p = Some t" "length p \<le> 2" "f \<in> free_slots (pt_bitmap st)" using g by (auto simp: growing_def)
  have l: "length (table_path v) = 3" by (simp add: table_path_def)
  note N = grow_node [OF g, of "table_path v", unfolded l]
  have ff: "f \<noteq> t" by (rule grow_sub(1) [OF g])
  show ?thesis
  proof (cases "node st r (table_path v)")
    case None
    then show ?thesis using N ff
      by (cases "node (grow t i f fl bm st) r (table_path v)") (auto simp: translate_def grow_pool)
  next
    case (Some u)
    have "u \<noteq> t" using pt_treeD(4) [OF D(1) _ _ Some, of p] D(2,3) l by auto
    moreover have "u \<noteq> f" using pt_treeD(1) [OF D(1) _ Some] l D(4) by (auto simp: free_slots_def)
    moreover have "node (grow t i f fl bm st) r (table_path v) = Some u" using N [of u] Some by simp
    ultimately show ?thesis using Some by (simp add: translate_def grow_pool)
  qed
qed

section \<open>Mapping a page\<close>

text \<open>
  What a step of \<open>vm_map64\<close> below \<open>r\<close> keeps: the tree only grows by tables that were free, translations
  are as before, and tables that are neither new nor in \<open>T\<close> are unchanged.
\<close>

definition same_vm :: "paging \<Rightarrow> paging \<Rightarrow> bool" where
  "same_vm st st' \<longleftrightarrow> pt_base st' = pt_base st \<and> kernel_pml4 st' = kernel_pml4 st \<and> kmalloc_addr st' = kmalloc_addr st \<and>
     vm_slock st' = vm_slock st \<and> vm_intr st' = vm_intr st \<and> cr3 st' = cr3 st"

definition extends :: "nat \<Rightarrow> nat set \<Rightarrow> paging \<Rightarrow> paging \<Rightarrow> bool" where
  "extends r T st st' \<longleftrightarrow> pool_ok64 st' \<and> pt_tree st' r \<and> same_vm st st' \<and>
     (\<forall>v. translate st' r v = translate st r v) \<and>
     (\<forall>q u. length q \<le> 3 \<longrightarrow> node st r q = Some u \<longrightarrow> node st' r q = Some u) \<and>
     (\<forall>q u. length q \<le> 3 \<longrightarrow> node st' r q = Some u \<longrightarrow> node st r q = Some u \<or> u \<in> free_slots (pt_bitmap st)) \<and>
     slots (pt_bitmap st) \<subseteq> slots (pt_bitmap st') \<and> free_slots (pt_bitmap st') \<subseteq> free_slots (pt_bitmap st) \<and>
     (\<forall>u. u \<notin> free_slots (pt_bitmap st) \<longrightarrow> u \<notin> T \<longrightarrow> pt_pool st' u = pt_pool st u)"

lemma next_table_spec:
  assumes ok: "pool_ok64 st" "pt_tree st r" and at: "node st r p = Some t" "length p \<le> 2"
    and get: "\<And>st. get (table_addr t st) v st = Inr (if bit (pt_pool st t (index v)) 0 then pt_pool st t (index v) AND PAGE_MASK else 0)"
    and i: "index v < 512" and fl: "unat fl < 4096"
    and free: "sub_table st t (index v) = None \<Longrightarrow> free_slots (pt_bitmap st) \<noteq> {}"
  shows "\<exists>t' st'. next_table get index (table_addr t st) v fl st = Inr (table_addr t' st, st') \<and>
    extends r {t} st st' \<and> node st' r (p @ [index v]) = Some t' \<and>
    (if sub_table st t (index v) = None then card (free_slots (pt_bitmap st)) \<le> card (free_slots (pt_bitmap st')) + 1
     else st' = st)"
proof (cases "sub_table st t (index v)")
  case (Some t')
  note S = sub_table_index [OF Some]
  have "get (table_addr t st) v st = Inr (table_addr t' st)" "table_addr t' st \<noteq> 0"
    using get [of st] S table_addr_nonzero [OF ok(1)] by simp_all
  then show ?thesis using Some at ok by (auto simp: next_table_def node_snoc extends_def same_vm_def)
next
  case None
  have t: "t < 1024" using pt_treeD(2) [OF ok(2) _ at(1)] at(2) by simp
  have "\<not> bit (pt_pool st t (index v)) 0" using pt_treeD(3) [OF ok(2) at(2,1) i] None by blast
  then have z: "get (table_addr t st) v st = Inr 0" using get by simp
  obtain f bm where f: "vmm_new_pagetable st = Inr (table_addr f st, st\<lparr>pt_bitmap := bm\<rparr>)" "f \<in> free_slots (pt_bitmap st)" "f < 1024"
      "length bm = 16" "slots bm = insert f (slots (pt_bitmap st))" "free_slots bm = free_slots (pt_bitmap st) - {f}"
    using new_pagetable_spec [OF ok(1) free [OF None]] by blast
  let ?fl = "PAGE_PRESENT OR PAGE_WRITE OR fl" and ?i = "index v"
  have flags: "unat ?fl < 4096" "bit ?fl 0"
  proof -
    have "unat fl < 2 ^ 12" using fl by simp
    then have "take_bit 12 fl = fl" by (simp add: take_bit_eq_mod word_unat_eq_iff unat_mod_distrib)
    then have "take_bit 12 ?fl = ?fl" by (simp add: take_bit_or take_bit_numeral_numeral)
    then have "unat ?fl = unat (take_bit 12 ?fl)" by simp
    also have "\<dots> < 4096" by (simp add: take_bit_eq_mod unat_mod_distrib)
    finally show "unat ?fl < 4096" .
  qed (simp add: bit_or_iff)
  have g: "growing st r p t ?i f ?fl bm" using ok at i None f flags by (simp add: growing_def)
  let ?st = "grow t ?i f ?fl bm st"
  have "next_table get index (table_addr t st) v fl st = Inr (table_addr f st, ?st)"
    using z f(1) table_addr_nonzero [OF ok(1) f(3)] table_index_addr [OF f(3)] table_index_addr [OF t]
    by (simp add: next_table_def vmm_cleartable_def vmm_install_ptable_def grow_def table_index_def table_addr_def set_entry_def)
  moreover have "extends r {t} st ?st"
  proof -
    have "same_vm st ?st" by (simp add: grow_def set_entry_def same_vm_def)
    then show ?thesis unfolding extends_def using grow_tree [OF g] grow_translate [OF g] grow_node [OF g] ok(1) f
      by (auto simp: pool_ok64_def grow_pool)
  qed
  moreover have "node ?st r (p @ [?i]) = Some f" using grow_node [OF g, of "p @ [?i]" f] at(2) by simp
  moreover have "card (free_slots (pt_bitmap st)) \<le> card (free_slots bm) + 1"
    using card_Suc_Diff1 [OF finite_free_slots f(2)] f(6) by simp
  ultimately show ?thesis using None by auto
qed

lemma get_entry:
  assumes "t < 1024"
  shows "vmm_getpdp (table_addr t st) v st = Inr (if bit (pt_pool st t (VMM_INDEX_PML4 v)) 0 then pt_pool st t (VMM_INDEX_PML4 v) AND PAGE_MASK else 0)"
    and "vmm_getpdir (table_addr t st) v st = Inr (if bit (pt_pool st t (VMM_INDEX_PDP v)) 0 then pt_pool st t (VMM_INDEX_PDP v) AND PAGE_MASK else 0)"
    and "vmm_getptable (table_addr t st) v st = Inr (if bit (pt_pool st t (VMM_INDEX_PDIR v)) 0 then pt_pool st t (VMM_INDEX_PDIR v) AND PAGE_MASK else 0)"
  using table_index_addr [OF assms, of st]
  by (simp_all add: vmm_getpdp_def vmm_getpdir_def vmm_getptable_def Let_def present_bit)

text \<open>Two addresses are on one page when their low 48 bits agree but for the last 12.\<close>

definition same_page64 :: "u64 \<Rightarrow> u64 \<Rightarrow> bool" where
  "same_page64 v w \<longleftrightarrow> (\<forall>n. 12 \<le> n \<and> n < 48 \<longrightarrow> bit v n = bit w n)"

lemma same_page64_iff: "same_page64 v w \<longleftrightarrow> take_bit 36 (drop_bit 12 v) = take_bit 36 (drop_bit 12 w)"
proof -
  have "bit v n = bit w n" if "\<forall>k < 36. bit v (12 + k) = bit w (12 + k)" "12 \<le> n" "n < 48" for n
    using that(1) [rule_format, of "n - 12"] that(2,3) by simp
  then have "(\<forall>n. 12 \<le> n \<and> n < 48 \<longrightarrow> bit v n = bit w n) \<longleftrightarrow> (\<forall>k < 36. bit v (12 + k) = bit w (12 + k))" by auto
  moreover have "take_bit 36 (drop_bit 12 v) = take_bit 36 (drop_bit 12 w) \<longleftrightarrow> (\<forall>k < 36. bit v (12 + k) = bit w (12 + k))"
  proof -
    have "bit v (12 + k) = bit w (12 + k)" if "\<forall>n < 64. (n < 36 \<and> bit v (12 + n)) = (n < 36 \<and> bit w (12 + n))" "k < 36" for k
      using that(1) [rule_format, of k] that(2) by simp
    then have "(\<forall>n < 64. (n < 36 \<and> bit v (12 + n)) = (n < 36 \<and> bit w (12 + n))) \<longleftrightarrow> (\<forall>k < 36. bit v (12 + k) = bit w (12 + k))"
      by auto
    then show ?thesis unfolding bit_eq_iff by (simp add: bit_simps)
  qed
  ultimately show ?thesis by (simp only: same_page64_def)
qed

lemma index_bits: "unat (drop_bit k (v :: u64) AND 0x1FF) = unat (drop_bit k (w :: u64) AND 0x1FF) \<longleftrightarrow> (\<forall>n. k \<le> n \<and> n < k + 9 \<longrightarrow> bit v n = bit w n)"
proof -
  have m: "0x1FF = (mask 9 :: u64)" by (simp add: mask_eq_exp_minus_1)
  have lt: "j < 64" if "j < 9" for j :: nat using that by simp
  have "drop_bit k v AND mask 9 = drop_bit k w AND mask 9 \<longleftrightarrow> (\<forall>j < 9. bit v (k + j) = bit w (k + j))"
    by (auto simp: bit_eq_iff bit_simps) (metis lt)+
  also have "\<dots> \<longleftrightarrow> (\<forall>n. k \<le> n \<and> n < k + 9 \<longrightarrow> bit v n = bit w n)"
    by (metis add_less_cancel_left le_add1 le_add_diff_inverse)
  finally show ?thesis unfolding m by (simp add: word_unat_eq_iff [symmetric])
qed

lemma same_page_index: "same_page64 v w \<longleftrightarrow> table_path v = table_path w \<and> VMM_INDEX_PTABLE v = VMM_INDEX_PTABLE w"
proof -
  have "same_page64 v w \<longleftrightarrow> (\<forall>n. 39 \<le> n \<and> n < 48 \<longrightarrow> bit v n = bit w n) \<and> (\<forall>n. 30 \<le> n \<and> n < 39 \<longrightarrow> bit v n = bit w n) \<and>
      (\<forall>n. 21 \<le> n \<and> n < 30 \<longrightarrow> bit v n = bit w n) \<and> (\<forall>n. 12 \<le> n \<and> n < 21 \<longrightarrow> bit v n = bit w n)"
    (is "_ \<longleftrightarrow> ?A \<and> ?B \<and> ?C \<and> ?D")
  proof
    assume "?A \<and> ?B \<and> ?C \<and> ?D"
    then have abcd: ?A ?B ?C ?D by blast+
    show "same_page64 v w" unfolding same_page64_def
    proof (intro allI impI)
      fix n :: nat assume "12 \<le> n \<and> n < 48"
      then consider "39 \<le> n \<and> n < 48" | "30 \<le> n \<and> n < 39" | "21 \<le> n \<and> n < 30" | "12 \<le> n \<and> n < 21" by linarith
      then show "bit v n = bit w n" using abcd by cases blast+
    qed
  qed (simp add: same_page64_def)
  then show ?thesis
    using index_bits [of 39 v w] index_bits [of 30 v w] index_bits [of 21 v w] index_bits [of 12 v w]
    by (simp add: table_path_def VMM_INDEX_PML4_def VMM_INDEX_PDP_def VMM_INDEX_PDIR_def VMM_INDEX_PTABLE_def)
qed

lemma set_leaf:
  assumes ok: "pool_ok64 st" "pt_tree st r" and at: "node st r (table_path v) = Some t" and e: "bit e 0"
  defines "st' \<equiv> set_entry t (VMM_INDEX_PTABLE v) e st"
  shows "pool_ok64 st'" and "length q \<le> 3 \<Longrightarrow> node st' r q = node st r q" and "pt_tree st' r"
    and "translate st' r w = (if same_page64 v w then Some e else translate st r w)"
proof -
  have l: "length (table_path x) = 3" for x by (simp add: table_path_def)
  show "pool_ok64 st'" using ok(1) by (simp add: st'_def set_entry_def pool_ok64_def)
  have b: "pt_base st' = pt_base st" "pt_bitmap st' = pt_bitmap st" by (simp_all add: st'_def set_entry_def)
  have pool: "pt_pool st' u = (if u = t then (pt_pool st t)(VMM_INDEX_PTABLE v := e) else pt_pool st u)" for u
    by (simp add: st'_def set_entry_def)
  have sub: "sub_table st' u j = sub_table st u j" if "u \<noteq> t" for u j
    using that b by (simp add: sub_table_def pool table_index_def)
  have inner: "u \<noteq> t" if "length q < 3" "node st r q = Some u" for q u
    using pt_treeD(4) [OF ok(2) _ _ that(2), of "table_path v"] at that(1) l by auto
  show N: "node st' r q = node st r q" if "length q \<le> 3" for q
    using sub inner that by (intro node_cong [of 3]) auto
  show "pt_tree st' r" unfolding pt_tree_def
  proof (intro conjI allI impI; elim conjE)
    fix q u assume q: "length q \<le> 3" "node st' r q = Some u"
    then show "u \<in> slots (pt_bitmap st')" "u < 1024" using N pt_treeD(1,2) [OF ok(2) q(1)] b by auto
  next
    fix q u j assume q: "length q \<le> 2" "node st' r q = Some u" "j < 512" "bit (pt_pool st' u j) 0"
    then have n: "node st r q = Some u" "u \<noteq> t" using N [of q] inner [of q u] by auto
    then show "sub_table st' u j \<noteq> None" using pt_treeD(3) [OF ok(2) q(1) n(1) q(3)] q(4) sub pool by simp
  next
    fix q s u assume "length q \<le> 3" "length s \<le> 3" "node st' r q = Some u" "node st' r s = Some u"
    then show "q = s" using N pt_treeD(4) [OF ok(2)] by metis
  qed
  have "node st r (table_path w) = Some t \<longleftrightarrow> table_path w = table_path v"
    using pt_treeD(4) [OF ok(2) _ _ _ at] at l by (metis order_refl)
  note path = this
  have n: "node st' r (table_path w) = node st r (table_path w)" using N l by simp
  show "translate st' r w = (if same_page64 v w then Some e else translate st r w)"
  proof (cases "table_path w = table_path v")
    case True
    then show ?thesis using n at e by (simp add: translate_def same_page_index pool)
  next
    case False
    then show ?thesis using n path by (cases "node st r (table_path w)") (auto simp: translate_def same_page_index pool)
  qed
qed

text \<open>The tables \<open>vm_map64\<close> has to make for an address.\<close>

definition missing :: "paging \<Rightarrow> nat \<Rightarrow> u64 \<Rightarrow> nat" where
  "missing st r v = (if node st r (take 1 (table_path v)) = None then 3 else if node st r (take 2 (table_path v)) = None then 2
     else if node st r (table_path v) = None then 1 else 0)"

lemma extends_trans:
  assumes "extends r T st st1" and "extends r U st1 st2"
    and "\<And>u. u \<in> U \<Longrightarrow> u \<in> T \<or> u \<in> free_slots (pt_bitmap st)"
  shows "extends r T st st2"
proof -
  have "same_vm st st2" using assms(1,2) by (simp add: extends_def same_vm_def)
  moreover have "pt_pool st2 u = pt_pool st u" if "u \<notin> free_slots (pt_bitmap st)" "u \<notin> T" for u
    using assms that unfolding extends_def by (metis subsetD)
  ultimately show ?thesis using assms(1,2) unfolding extends_def by (simp, blast)
qed

lemma next_table_chain:
  assumes E: "extends r T st0 st" and at: "node st r p = Some t" "length p \<le> 2" and T: "node st0 r p = Some t \<Longrightarrow> t \<in> T"
    and get: "\<And>st. get (table_addr t st) v st = Inr (if bit (pt_pool st t (index v)) 0 then pt_pool st t (index v) AND PAGE_MASK else 0)"
    and i: "index v < 512" and fl: "unat fl < 4096"
    and free: "node st r (p @ [index v]) = None \<Longrightarrow> free_slots (pt_bitmap st) \<noteq> {}"
  shows "\<exists>t' st'. next_table get index (table_addr t st) v fl st = Inr (table_addr t' st, st') \<and>
    extends r T st0 st' \<and> node st' r (p @ [index v]) = Some t' \<and> t' < 1024 \<and> table_addr t' st' = table_addr t' st \<and>
    (if node st r (p @ [index v]) = None then card (free_slots (pt_bitmap st)) \<le> card (free_slots (pt_bitmap st')) + 1 else st' = st)"
proof -
  have ok: "pool_ok64 st" "pt_tree st r" using E by (simp_all add: extends_def)
  have n: "node st r (p @ [index v]) = sub_table st t (index v)" using at(1) by (simp add: node_snoc)
  obtain t' st' where s: "next_table get index (table_addr t st) v fl st = Inr (table_addr t' st, st')" "extends r {t} st st'"
      "node st' r (p @ [index v]) = Some t'"
      "if sub_table st t (index v) = None then card (free_slots (pt_bitmap st)) \<le> card (free_slots (pt_bitmap st')) + 1 else st' = st"
    using next_table_spec [where get = get and index = index and v = v and fl = fl, OF ok at get i fl] free n by auto
  have "length p \<le> 3" using at(2) by simp
  then have "t \<in> T \<or> t \<in> free_slots (pt_bitmap st0)" using E at(1) T unfolding extends_def by blast
  then have "extends r T st0 st'" using extends_trans [OF E s(2)] by blast
  moreover have "t' < 1024" using pt_treeD(2) [of st' r "p @ [index v]" t'] s(2,3) at(2) by (simp add: extends_def)
  moreover have "table_addr t' st' = table_addr t' st" using s(2) by (simp add: extends_def same_vm_def table_addr_def)
  ultimately show ?thesis using s n by auto
qed

lemma extends_refl: "pool_ok64 st \<Longrightarrow> pt_tree st r \<Longrightarrow> extends r T st st"
  by (simp add: extends_def same_vm_def)

text \<open>The three levels of tables.\<close>

lemma map_tables:
  assumes ok: "pool_ok64 st" "pt_tree st r" and fl: "unat fl < 4096" and room: "missing st r v \<le> card (free_slots (pt_bitmap st))"
  defines "P \<equiv> {u. \<exists>n. node st r (take n (table_path v)) = Some u}"
  shows "\<exists>t1 s1 t2 s2 t3 s3. next_table vmm_getpdp VMM_INDEX_PML4 (table_addr r st) v fl st = Inr (table_addr t1 s1, s1) \<and>
    next_table vmm_getpdir VMM_INDEX_PDP (table_addr t1 s1) v fl s1 = Inr (table_addr t2 s2, s2) \<and>
    next_table vmm_getptable VMM_INDEX_PDIR (table_addr t2 s2) v fl s2 = Inr (table_addr t3 s3, s3) \<and>
    extends r P st s3 \<and> node s3 r (table_path v) = Some t3 \<and> t3 < 1024 \<and>
    card (free_slots (pt_bitmap st)) \<le> card (free_slots (pt_bitmap s3)) + missing st r v"
proof -
  let ?a = "VMM_INDEX_PML4 v" and ?b = "VMM_INDEX_PDP v" and ?c = "VMM_INDEX_PDIR v"
  let ?n = "\<lambda>s. card (free_slots (pt_bitmap s))"
  have path: "take 1 (table_path v) = [?a]" "take 2 (table_path v) = [?a, ?b]" "table_path v = [?a, ?b, ?c]"
    by (simp_all add: table_path_def numeral_eq_Suc)
  have inP: "u \<in> P" if "node st r q = Some u" "q \<in> {[], [?a], [?a, ?b]}" for q u
  proof -
    have "q = take 0 (table_path v) \<or> q = take 1 (table_path v) \<or> q = take 2 (table_path v)" using that(2) path by auto
    then show ?thesis using that(1) unfolding P_def mem_Collect_eq by metis
  qed
  have pos: "free_slots (pt_bitmap s) \<noteq> {}" if "0 < ?n s" for s using that by auto
  have r: "r < 1024" using pt_treeD(2) [OF ok(2), of "[]"] by simp
  have m: "missing st r v = (if node st r [?a] = None then 3 else if node st r [?a, ?b] = None then 2 else if node st r [?a, ?b, ?c] = None then 1 else 0)"
    by (simp only: missing_def path(1,2)) (simp only: path(3))
  have f0: "node st r ([] @ [?a]) = None \<Longrightarrow> free_slots (pt_bitmap st) \<noteq> {}" using room m by (intro pos) (simp split: if_splits)
  obtain t1 s1 where s1: "next_table vmm_getpdp VMM_INDEX_PML4 (table_addr r st) v fl st = Inr (table_addr t1 st, s1)"
      "extends r P st s1" "node s1 r [?a] = Some t1" "t1 < 1024" "table_addr t1 s1 = table_addr t1 st"
      "if node st r [?a] = None then ?n st \<le> ?n s1 + 1 else s1 = st"
    using next_table_chain [where get = vmm_getpdp and index = VMM_INDEX_PML4 and p = "[]" and v = v and fl = fl and T = P and t = r,
        OF extends_refl [OF ok] _ _ _ get_entry(1) [OF r] index_less(1) fl f0] inP [of "[]" r] by auto
  have mono1: "node s1 r q = Some u" if "length q \<le> 3" "node st r q = Some u" for q u using s1(2) that unfolding extends_def by blast
  have f1: "node s1 r ([?a] @ [?b]) = None \<Longrightarrow> free_slots (pt_bitmap s1) \<noteq> {}"
  proof (rule pos)
    assume n: "node s1 r ([?a] @ [?b]) = None"
    then have "node st r [?a, ?b] = None" using mono1 [of "[?a, ?b]"] by (cases "node st r [?a, ?b]") auto
    then show "0 < ?n s1" using room m s1(6) by (auto split: if_splits)
  qed
  obtain t2 s2 where s2: "next_table vmm_getpdir VMM_INDEX_PDP (table_addr t1 s1) v fl s1 = Inr (table_addr t2 s1, s2)"
      "extends r P st s2" "node s2 r [?a, ?b] = Some t2" "t2 < 1024" "table_addr t2 s2 = table_addr t2 s1"
      "if node s1 r [?a, ?b] = None then ?n s1 \<le> ?n s2 + 1 else s2 = s1"
    using next_table_chain [where get = vmm_getpdir and index = VMM_INDEX_PDP and p = "[?a]" and v = v and fl = fl and T = P and t = t1,
        OF s1(2,3) _ _ get_entry(2) [OF s1(4)] index_less(2) fl f1] inP [of "[?a]" t1] by auto
  have mono2: "node s2 r q = Some u" if "length q \<le> 3" "node st r q = Some u" for q u using s2(2) that unfolding extends_def by blast
  have n12: "node s1 r [?a, ?b] = None \<Longrightarrow> node st r [?a, ?b] = None" using mono1 [of "[?a, ?b]"] by (cases "node st r [?a, ?b]") auto
  have f2: "node s2 r ([?a, ?b] @ [?c]) = None \<Longrightarrow> free_slots (pt_bitmap s2) \<noteq> {}"
  proof (rule pos)
    assume n: "node s2 r ([?a, ?b] @ [?c]) = None"
    then have "node st r [?a, ?b, ?c] = None" using mono2 [of "[?a, ?b, ?c]"] by (cases "node st r [?a, ?b, ?c]") auto
    then show "0 < ?n s2" using room m s1(6) s2(6) n12 by (auto split: if_splits)
  qed
  obtain t3 s3 where s3: "next_table vmm_getptable VMM_INDEX_PDIR (table_addr t2 s2) v fl s2 = Inr (table_addr t3 s2, s3)"
      "extends r P st s3" "node s3 r [?a, ?b, ?c] = Some t3" "t3 < 1024" "table_addr t3 s3 = table_addr t3 s2"
      "if node s2 r [?a, ?b, ?c] = None then ?n s2 \<le> ?n s3 + 1 else s3 = s2"
    using next_table_chain [where get = vmm_getptable and index = VMM_INDEX_PDIR and p = "[?a, ?b]" and v = v and fl = fl and T = P and t = t2,
        OF s2(2,3) _ _ get_entry(3) [OF s2(4)] index_less(3) fl f2] inP [of "[?a, ?b]" t2] by auto
  have n23: "node s2 r [?a, ?b, ?c] = None \<Longrightarrow> node st r [?a, ?b, ?c] = None"
    using mono2 [of "[?a, ?b, ?c]"] by (cases "node st r [?a, ?b, ?c]") auto
  have "?n st \<le> ?n s3 + missing st r v" using m s1(6) s2(6) s3(6) n12 n23 by (auto split: if_splits)
  then show ?thesis using s1(1,5) s2(1,5) s3(1,2,3,4,5) path(3)
    by (intro exI [of _ t1] exI [of _ s1] exI [of _ t2] exI [of _ s2] exI [of _ t3] exI [of _ s3]) (simp only: simp_thms)
qed

lemma vm_map64_spec:
  assumes ok: "pool_ok64 st" "pt_tree st r" and lock: "vm_slock st = 0" and flags: "0 \<le> flags" "flags < 4096"
    and room: "missing st r v \<le> card (free_slots (pt_bitmap st))"
  shows "\<exists>st'. vm_map64 (table_addr r st) phys v flags st = Inr st' \<and> pool_ok64 st' \<and> pt_tree st' r \<and> same_vm st st' \<and>
    (\<forall>w. translate st' r w = (if same_page64 v w then Some (phys OR PAGE_PRESENT OR PAGE_WRITE OR word_of_int flags) else translate st r w)) \<and>
    card (free_slots (pt_bitmap st)) \<le> card (free_slots (pt_bitmap st')) + missing st r v \<and>
    slots (pt_bitmap st) \<subseteq> slots (pt_bitmap st') \<and>
    (\<forall>q u. length q \<le> 3 \<longrightarrow> node st r q = Some u \<longrightarrow> node st' r q = Some u) \<and> node st' r (table_path v) \<noteq> None \<and>
    (\<forall>u \<in> slots (pt_bitmap st). (\<forall>n. node st r (take n (table_path v)) \<noteq> Some u) \<longrightarrow> pt_pool st' u = pt_pool st u) \<and>
    (\<forall>q u. length q \<le> 3 \<longrightarrow> node st' r q = Some u \<longrightarrow> node st r q = Some u \<or> u \<in> free_slots (pt_bitmap st))"
proof -
  let ?fl = "word_of_int flags :: u64" and ?e = "phys OR PAGE_PRESENT OR PAGE_WRITE OR word_of_int flags" and ?st = "st\<lparr>vm_intr := False, vm_slock := 1\<rparr>"
  note C = vm_cong [of ?st st, simplified]
  have fl: "unat ?fl < 4096"
  proof -
    have "unat ?fl = nat flags" using flags by (simp add: unsigned_of_int take_bit_int_eq_self)
    then show ?thesis using flags by simp
  qed
  have m: "missing ?st r v = missing st r v" by (simp add: missing_def C)
  obtain t1 s1 t2 s2 t3 s3 where s: "next_table vmm_getpdp VMM_INDEX_PML4 (table_addr r ?st) v ?fl ?st = Inr (table_addr t1 s1, s1)"
      "next_table vmm_getpdir VMM_INDEX_PDP (table_addr t1 s1) v ?fl s1 = Inr (table_addr t2 s2, s2)"
      "next_table vmm_getptable VMM_INDEX_PDIR (table_addr t2 s2) v ?fl s2 = Inr (table_addr t3 s3, s3)"
    and E: "extends r {u. \<exists>n. node ?st r (take n (table_path v)) = Some u} ?st s3" and n3: "node s3 r (table_path v) = Some t3" "t3 < 1024"
    and c: "card (free_slots (pt_bitmap st)) \<le> card (free_slots (pt_bitmap s3)) + missing st r v"
    using map_tables [of ?st r ?fl v] ok fl room m by (auto simp: C)
  let ?s4 = "set_entry t3 (VMM_INDEX_PTABLE v) ?e s3"
  let ?st' = "?s4\<lparr>vm_slock := 0, vm_intr := vm_intr st\<rparr>"
  have ok3: "pool_ok64 s3" "pt_tree s3 r" using E by (simp_all add: extends_def)
  have e: "bit ?e 0" by (simp add: bit_or_iff)
  note L = set_leaf [OF ok3 n3(1) e]
  note C4 = vm_cong [of ?st' ?s4, simplified]
  have "vm_map64 (table_addr r st) phys v flags st = Inr ?st'"
    using s lock table_index_addr [OF n3(2), of s3] C(5) by (simp add: vm_map64_def Let_def)
  moreover have "same_vm st ?st'" using E lock by (simp add: extends_def same_vm_def set_entry_def)
  moreover have "translate ?st' r w = (if same_page64 v w then Some ?e else translate st r w)" for w
    using L(4) [of w] E by (simp add: C4 C extends_def)
  moreover have bm: "pt_bitmap ?st' = pt_bitmap s3" by (simp add: set_entry_def)
  moreover have "node ?st' r q = Some u" if "length q \<le> 3" "node st r q = Some u" for q u
    using E that L(2) [OF that(1)] by (simp add: C4 C extends_def)
  moreover have "node ?st' r (table_path v) \<noteq> None" using L(2) [of "table_path v"] n3 by (simp add: C4 table_path_def)
  moreover have "pt_pool ?st' u = pt_pool st u" if "u \<in> slots (pt_bitmap st)" "\<forall>n. node st r (take n (table_path v)) \<noteq> Some u" for u
  proof -
    have f: "u \<notin> free_slots (pt_bitmap st)" using that(1) by (simp add: free_slots_def)
    then have "pt_pool s3 u = pt_pool st u" using E that(2) by (simp add: extends_def C)
    moreover have "u \<noteq> t3"
    proof
      assume "u = t3"
      moreover have "length (table_path v) \<le> 3" by (simp add: table_path_def)
      ultimately have "node st r (table_path v) = Some u" using E n3(1) f unfolding extends_def C by simp blast
      then show False using that(2) [rule_format, of 3] by (simp add: table_path_def)
    qed
    ultimately show ?thesis by (simp add: set_entry_def)
  qed
  moreover have "node st r q = Some u \<or> u \<in> free_slots (pt_bitmap st)" if "length q \<le> 3" "node ?st' r q = Some u" for q u
    using E that L(2) [OF that(1)] by (simp add: C4 C extends_def)
  ultimately show ?thesis using L(1,3) c E by (intro exI [of _ ?st']) (simp add: C4 extends_def)
qed

lemma translate_same_page: "same_page64 v w \<Longrightarrow> translate st r v = translate st r w"
  unfolding translate_def same_page_index by (elim conjE) (simp only:)

section \<open>Several top tables\<close>

text \<open>A translation depends only on the tables of its tree.\<close>

lemma translate_frame:
  assumes "pt_base st' = pt_base st" and "\<And>q u. length q \<le> 3 \<Longrightarrow> node st k q = Some u \<Longrightarrow> pt_pool st' u = pt_pool st u"
  shows "length q \<le> 3 \<Longrightarrow> node st' k q = node st k q" and "translate st' k w = translate st k w"
proof -
  have s: "sub_table st' u j = sub_table st u j" if "length q < 3" "node st k q = Some u" for q u j
    using assms(2) [of q u] that assms(1) by (simp add: sub_table_def table_index_def)
  show n: "node st' k q = node st k q" if "length q \<le> 3" for q using s that by (intro node_cong [of 3]) auto
  have "length (table_path w) \<le> 3" by (simp add: table_path_def)
  then show "translate st' k w = translate st k w"
    using n [of "table_path w"] assms(2) [of "table_path w"] by (simp add: translate_def split: option.split)
qed

text \<open>
  \<open>apart st r k\<close>: the trees of \<open>r\<close> and \<open>k\<close> have tables in common only below the lower half of \<open>r\<close>, the
  kernel's part of the address space. A mapping in the upper half keeps it, and changes no translation of \<open>k\<close>.
\<close>

definition apart :: "paging \<Rightarrow> nat \<Rightarrow> nat \<Rightarrow> bool" where
  "apart st r k \<longleftrightarrow> (\<forall>q u. length q \<le> 3 \<and> node st k q = Some u \<longrightarrow> u \<in> slots (pt_bitmap st)) \<and>
     (\<forall>p q u. length p \<le> 3 \<and> length q \<le> 3 \<and> node st r p = Some u \<and> node st k q = Some u \<longrightarrow> p \<noteq> [] \<and> hd p < 256)"

lemma apart_map:
  assumes ap: "apart st r k" and v: "256 \<le> VMM_INDEX_PML4 v" and b: "pt_base st' = pt_base st"
    and pool: "\<forall>u \<in> slots (pt_bitmap st). (\<forall>n. node st r (take n (table_path v)) \<noteq> Some u) \<longrightarrow> pt_pool st' u = pt_pool st u"
    and sl: "slots (pt_bitmap st) \<subseteq> slots (pt_bitmap st')"
    and new: "\<forall>q u. length q \<le> 3 \<longrightarrow> node st' r q = Some u \<longrightarrow> node st r q = Some u \<or> u \<in> free_slots (pt_bitmap st)"
  shows "apart st' r k" and "translate st' k w = translate st k w"
proof -
  have kp: "pt_pool st' u = pt_pool st u" if q: "length q \<le> 3" "node st k q = Some u" for q u
  proof -
    have "node st r (take n (table_path v)) \<noteq> Some u" for n
    proof
      assume "node st r (take n (table_path v)) = Some u"
      then have "take n (table_path v) \<noteq> []" "hd (take n (table_path v)) < 256"
        using ap q unfolding apart_def by (metis (no_types, lifting) length_take min.coboundedI1 table_path_def length_Cons list.size(3) numeral_3_eq_3 order_refl)+
      then show False using v by (cases n) (simp_all add: table_path_def)
    qed
    then show ?thesis using pool ap q unfolding apart_def by blast
  qed
  have kn: "node st' k q = node st k q" if "length q \<le> 3" for q by (rule translate_frame(1) [OF b _ that]) (rule kp)
  show "translate st' k w = translate st k w" by (rule translate_frame(2) [OF b]) (rule kp)
  show "apart st' r k" unfolding apart_def
  proof (intro conjI allI impI; elim conjE)
    fix q u assume q: "length q \<le> 3" "node st' k q = Some u"
    then show "u \<in> slots (pt_bitmap st')" using ap kn sl unfolding apart_def by auto
  next
    fix p q u assume q: "length p \<le> 3" "length q \<le> 3" "node st' r p = Some u" "node st' k q = Some u"
    have k: "node st k q = Some u" using kn q by simp
    then have "u \<notin> free_slots (pt_bitmap st)" using ap q(2) unfolding apart_def free_slots_def by blast
    then have "node st r p = Some u" using new q(1,3) by blast
    then show "p \<noteq> []" "hd p < 256" using ap k q(1,2) unfolding apart_def by blast+
  qed
qed

lemma create_pagetable64_spec:
  assumes ok: "pool_ok64 st" "pt_tree st k" and kernel: "kernel_pml4 st = table_addr k st" and free: "free_slots (pt_bitmap st) \<noteq> {}"
  shows "\<exists>r s1. vm_create_pagetable64 asid st = Inr (table_addr r s1, s1) \<and> pool_ok64 s1 \<and> pt_tree s1 r \<and> same_vm st s1 \<and>
    r \<in> free_slots (pt_bitmap st) \<and> free_slots (pt_bitmap s1) = free_slots (pt_bitmap st) - {r} \<and>
    slots (pt_bitmap s1) = insert r (slots (pt_bitmap st)) \<and>
    (\<forall>j p. node s1 r (j # p) = (if length p \<le> 2 then node st k (j # p) else node s1 r (j # p))) \<and>
    (\<forall>q. length q \<le> 3 \<longrightarrow> node s1 k q = node st k q) \<and>
    (\<forall>w. translate s1 r w = translate st k w \<and> translate s1 k w = translate st k w)"
proof -
  obtain r bm where r: "vmm_new_pagetable st = Inr (table_addr r st, st\<lparr>pt_bitmap := bm\<rparr>)" "r \<in> free_slots (pt_bitmap st)" "r < 1024"
      "length bm = 16" "slots bm = insert r (slots (pt_bitmap st))" "free_slots bm = free_slots (pt_bitmap st) - {r}"
    using new_pagetable_spec [OF ok(1) free] by blast
  let ?s = "st\<lparr>pt_bitmap := bm, pt_pool := (pt_pool st)(r := pt_pool st k)\<rparr>"
  have k: "k < 1024" using pt_treeD(2) [OF ok(2), of "[]"] by simp
  have a: "table_addr u ?s = table_addr u st" for u by (simp add: table_addr_def)
  have e: "vm_create_pagetable64 asid st = Inr (table_addr r ?s, ?s)"
    using r(1) kernel table_index_addr [OF r(3)] table_index_addr [OF k]
    by (simp add: vm_create_pagetable64_def table_addr_def table_index_def)
  have inuse: "u \<noteq> r" if "length q \<le> 3" "node st k q = Some u" for q u
    using pt_treeD(1) [OF ok(2) that] r(2) by (auto simp: free_slots_def)
  have pool: "pt_pool ?s u = pt_pool st u" if "length q \<le> 3" "node st k q = Some u" for q u using inuse [OF that] by simp
  have nk: "node ?s k q = node st k q" if "length q \<le> 3" for q
    using translate_frame(1) [of ?s st k, OF _ pool] that by simp
  have tk: "translate ?s k w = translate st k w" for w using translate_frame(2) [of ?s st k, OF _ pool] by simp
  have "k \<noteq> r" using inuse [of "[]" k] by simp
  then have "sub_table ?s r j = sub_table ?s k j" for j by (simp add: sub_table_def)
  then have top: "node ?s r (j # p) = node ?s k (j # p)" for j p by simp
  have tr: "translate ?s r w = translate ?s k w" for w by (simp only: translate_def table_path_def top)
  have nr: "node ?s r q = Some u \<longleftrightarrow> (if q = [] then u = r else node st k q = Some u)" if "length q \<le> 3" for q u
    using nk [OF that] top by (cases q) auto
  have tree: "pt_tree ?s r" unfolding pt_tree_def
  proof (intro conjI allI impI; elim conjE)
    fix q u assume q: "length q \<le> 3" "node ?s r q = Some u"
    then show "u \<in> slots (pt_bitmap ?s)" "u < 1024" using nr [OF q(1), of u] pt_treeD(1,2) [OF ok(2) q(1), of u] r(3,5) by (auto split: if_splits)
  next
    fix q u j assume q: "length q \<le> 2" "node ?s r q = Some u" "j < 512" "bit (pt_pool ?s u j) 0"
    show "sub_table ?s u j \<noteq> None"
    proof (cases "q = []")
      case True
      then have u: "u = r" using q(2) by simp
      then have "sub_table st k j \<noteq> None" using pt_treeD(3) [OF ok(2), of "[]" k j] q(3,4) by simp
      then show ?thesis using u by (simp add: sub_table_def table_index_def split: if_splits)
    next
      case False
      then have n: "node st k q = Some u" "u \<noteq> r" using nr [of q u] q(1,2) inuse [of q u] by auto
      then have "sub_table st u j \<noteq> None" using pt_treeD(3) [OF ok(2) q(1) n(1) q(3)] q(4) by simp
      then show ?thesis using n(2) by (simp add: sub_table_def table_index_def split: if_splits)
    qed
  next
    fix q s u assume q: "length q \<le> 3" "length s \<le> 3" "node ?s r q = Some u" "node ?s r s = Some u"
    then show "q = s"
      using nr [OF q(1), of u] nr [OF q(2), of u] inuse [OF q(1), of u] inuse [OF q(2), of u] pt_treeD(4) [OF ok(2) q(1,2), of u]
      by (auto split: if_splits)
  qed
  have "pool_ok64 ?s" using ok(1) r(4) by (simp add: pool_ok64_def)
  moreover have "same_vm st ?s" by (simp add: same_vm_def)
  moreover have "node ?s r (j # p) = (if length p \<le> 2 then node st k (j # p) else node ?s r (j # p))" for j p
    using top nk [of "j # p"] by simp
  ultimately show ?thesis using e tree r(2,5,6) nk tk tr by (intro exI [of _ r] exI [of _ ?s]) simp
qed

section \<open>Initialisation\<close>

lemma clear_ptmap_spec:
  assumes "length (pt_bitmap st) = 16" and "i + n \<le> 1024"
  shows "\<exists>bm. clear_ptmap n (int i) st = Inr (st\<lparr>pt_bitmap := bm\<rparr>) \<and> length bm = 16 \<and> slots bm = slots (pt_bitmap st) - slot ` {i..<i + n}"
  using assms
proof (induction n arbitrary: i st)
  case (Suc n)
  have d: "i div 64 < length (pt_bitmap st)" using Suc.prems by (simp add: div_less_iff_less_mult)
  obtain b1 where b1: "map64_unset (int i) (pt_bitmap st) = Inr b1" "length b1 = 16" "slots b1 = slots (pt_bitmap st) - {slot i}"
    using map64_unset_eq [OF d] Suc.prems(1) by auto
  obtain b2 where b2: "clear_ptmap n (int (Suc i)) (st\<lparr>pt_bitmap := b1\<rparr>) = Inr (st\<lparr>pt_bitmap := b2\<rparr>)" "length b2 = 16"
      "slots b2 = slots b1 - slot ` {Suc i..<Suc i + n}"
    using Suc.IH [of "st\<lparr>pt_bitmap := b1\<rparr>" "Suc i"] b1(2) Suc.prems(2) by auto
  have "{i..<i + Suc n} = insert i {Suc i..<Suc i + n}" by auto
  then have "slots b2 = slots (pt_bitmap st) - slot ` {i..<i + Suc n}" using b1(3) b2(3) by auto
  moreover have "clear_ptmap (Suc n) (int i) st = Inr (st\<lparr>pt_bitmap := b2\<rparr>)" using b1(1) b2(1) by (simp add: ptmap_unsetbit_def add.commute)
  ultimately show ?case using b2(2) by blast
next
  case 0
  then show ?case by (intro exI [of _ "pt_bitmap st"]) simp
qed

lemma empty_map: "length bm = 16 \<Longrightarrow> slots bm = {} \<Longrightarrow> free_slots bm = {f. f < 1024 \<and> f mod 64 < 32}"
  by (auto simp: free_slots_def div_less_iff_less_mult)

lemma card_half: "card {f :: nat. f < 1024 \<and> f mod 64 < 32} = 512"
proof -
  let ?h = "\<lambda>(a, b). 64 * a + b :: nat"
  have "f \<in> ?h ` ({..<16} \<times> {..<32})" if "f < 1024" "f mod 64 < 32" for f :: nat
  proof (rule image_eqI [of _ _ "(f div 64, f mod 64)"])
    have "f div 64 < 16" using that(1) by (simp add: div_less_iff_less_mult)
    then show "(f div 64, f mod 64) \<in> {..<16} \<times> {..<32}" using that(2) by simp
  qed simp
  moreover have "64 * a + b < 1024 \<and> (64 * a + b) mod 64 < 32" if "a < 16" "b < 32" for a b :: nat using that by simp
  then have "?h ` ({..<16} \<times> {..<32}) \<subseteq> {f. f < 1024 \<and> f mod 64 < 32}" by auto
  ultimately have "{f :: nat. f < 1024 \<and> f mod 64 < 32} = ?h ` ({..<16} \<times> {..<32})" by (intro subset_antisym) auto
  moreover have "inj_on ?h ({..<16} \<times> {..<32})" 
  proof (rule inj_onI, clarify)
    fix a b c d :: nat assume bd: "b < 32" "d < 32" and e: "64 * a + b = 64 * c + d"
    have "b = (64 * a + b) mod 64" using bd by simp
    also have "\<dots> = d" unfolding e using bd by simp
    finally have "b = d" .
    then show "a = c \<and> b = d" using e by simp
  qed
  ultimately show ?thesis by (simp add: card_image)
qed

text \<open>The indices of the pages of the first gigabyte.\<close>

lemma index_page:
  assumes "j < 2 ^ 18"
  shows "VMM_INDEX_PML4 (of_nat (4096 * j)) = 0" "VMM_INDEX_PDP (of_nat (4096 * j)) = 0" "VMM_INDEX_PDIR (of_nat (4096 * j)) = j div 512"
    and "table_path (of_nat (4096 * j)) = [0, 0, j div 512]"
proof -
  have u: "unat (of_nat (4096 * j) :: u64) = 4096 * j" using assms by (simp add: unat_of_nat del: of_nat_mult)
  have x: "unat (drop_bit k w AND 0x1FF) = unat w div 2 ^ k mod 512" for k and w :: u64
  proof -
    have "drop_bit k w AND mask 9 = take_bit 9 (drop_bit k w)" by (simp add: take_bit_eq_mask)
    then have "unat (drop_bit k w AND 0x1FF) = unat (drop_bit k w) mod 512" by (simp add: mask_eq_exp_minus_1 take_bit_eq_mod unat_mod_distrib)
    moreover have "unat (drop_bit k w) = unat w div 2 ^ k" by (simp add: unat_drop_bit_eq drop_bit_nat_def)
    ultimately show ?thesis by simp
  qed
  have "4096 * j div 2 ^ 39 = 0" "4096 * j div 2 ^ 30 = 0" "4096 * j div 2 ^ 21 = j div 512" "j div 512 < 512"
    using assms by (simp_all add: div_less_iff_less_mult)
  then show i: "VMM_INDEX_PML4 (of_nat (4096 * j)) = 0" "VMM_INDEX_PDP (of_nat (4096 * j)) = 0" "VMM_INDEX_PDIR (of_nat (4096 * j)) = j div 512"
    unfolding VMM_INDEX_PML4_def VMM_INDEX_PDP_def VMM_INDEX_PDIR_def x u by simp_all
  show "table_path (of_nat (4096 * j)) = [0, 0, j div 512]" unfolding table_path_def i by simp
qed

lemma node_prefix: "node st r (p @ q) \<noteq> None \<Longrightarrow> node st r p \<noteq> None"
  by (cases "node st r p") (simp_all add: node_append)

text \<open>The tables still to be made before the pages from \<open>j\<close> to \<open>N\<close> are mapped.\<close>

definition tables_needed :: "nat \<Rightarrow> nat \<Rightarrow> nat" where
  "tables_needed j N = (if j = 1 then 3 + (N - 1) div 512 else (N - 1) div 512 - (j - 1) div 512)"

lemma identity_map_spec:
  assumes "pool_ok64 st" "pt_tree st r" "vm_slock st = 0" and "1 \<le> j" "j \<le> N" "N \<le> 2 ^ 18"
    and "j \<noteq> 1 \<Longrightarrow> node st r [0, 0, (j - 1) div 512] \<noteq> None"
    and "tables_needed j N \<le> card (free_slots (pt_bitmap st))"
  shows "\<exists>st'. identity_map (table_addr r st) (4096 * j) (4096 * N) st = Inr st' \<and> pool_ok64 st' \<and> pt_tree st' r \<and> same_vm st st' \<and>
    (\<forall>w. translate st' r w = (case find (\<lambda>i. same_page64 (of_nat (4096 * i)) w) (rev [j..<N]) of
       Some i \<Rightarrow> Some (of_nat (4096 * i) OR PAGE_PRESENT OR PAGE_WRITE) | None \<Rightarrow> translate st r w))"
  using assms
proof (induction "N - j" arbitrary: j st)
  case 0
  then show ?case by (subst identity_map.simps) (auto simp: same_vm_def)
next
  case (Suc d)
  then have j: "j < N" "j < 2 ^ 18" by auto
  let ?v = "of_nat (4096 * j) :: u64"
  note P = index_page [OF j(2)]
  have path: "take 1 (table_path ?v) = [0]" "take 2 (table_path ?v) = [0, 0]" unfolding P(4) by simp_all
  have miss: "missing st r ?v \<le> (if j = 1 then 3 else j div 512 - (j - 1) div 512)"
  proof (cases "j = 1")
    case False
    have n: "node st r ([0, 0] @ [(j - 1) div 512]) \<noteq> None" using Suc.prems(7) False by simp
    have n2: "node st r ([0] @ [0]) \<noteq> None" using node_prefix [OF n] by simp
    have m: "missing st r ?v = (if node st r (table_path ?v) = None then 1 else 0)"
      unfolding missing_def path using n2 node_prefix [OF n2] by (simp only: append.simps if_False)
    have le: "(j - 1) div 512 \<le> j div 512" by (simp add: div_le_mono)
    have "node st r (table_path ?v) \<noteq> None" if "j div 512 = (j - 1) div 512" using n that by (simp only: P(4)) simp
    then have "(j - 1) div 512 < j div 512" if "node st r (table_path ?v) = None" using le that by (metis le_neq_implies_less)
    then show ?thesis using m False by (cases "node st r (table_path ?v)") (simp_all only: if_True if_False option.distinct, simp)
  qed (simp add: missing_def)
  have mono: "j div 512 \<le> (N - 1) div 512" "(j - 1) div 512 \<le> j div 512" using j(1) by (simp_all add: div_le_mono)
  have need: "tables_needed (j + 1) N + (if j = 1 then 3 else j div 512 - (j - 1) div 512) \<le> tables_needed j N"
    using mono Suc.prems(4) by (auto simp: tables_needed_def)
  have room: "missing st r ?v \<le> card (free_slots (pt_bitmap st))" using miss need Suc.prems(8) by linarith
  obtain s1 where s1: "vm_map64 (table_addr r st) ?v ?v 0 st = Inr s1" "pool_ok64 s1" "pt_tree s1 r" "same_vm st s1"
      "\<forall>w. translate s1 r w = (if same_page64 ?v w then Some (?v OR PAGE_PRESENT OR PAGE_WRITE OR word_of_int 0) else translate st r w)"
      "card (free_slots (pt_bitmap st)) \<le> card (free_slots (pt_bitmap s1)) + missing st r ?v" "node s1 r (table_path ?v) \<noteq> None"
    using vm_map64_spec [OF Suc.prems(1,2,3) _ _ room, of 0 ?v] by auto
  have addr: "table_addr r s1 = table_addr r st" using s1(4) by (simp add: table_addr_def same_vm_def)
  have "node s1 r [0, 0, (j + 1 - 1) div 512] \<noteq> None" using s1(7) unfolding P(4) by simp
  moreover have "tables_needed (j + 1) N \<le> card (free_slots (pt_bitmap s1))" using s1(6) miss need Suc.prems(8) by linarith
  moreover have "vm_slock s1 = 0" using s1(4) Suc.prems(3) by (simp add: same_vm_def)
  ultimately obtain st' where st': "identity_map (table_addr r s1) (4096 * (j + 1)) (4096 * N) s1 = Inr st'" "pool_ok64 st'" "pt_tree st' r" "same_vm s1 st'"
      "\<forall>w. translate st' r w = (case find (\<lambda>i. same_page64 (of_nat (4096 * i)) w) (rev [j + 1..<N]) of
         Some i \<Rightarrow> Some (of_nat (4096 * i) OR PAGE_PRESENT OR PAGE_WRITE) | None \<Rightarrow> translate s1 r w)"
    using Suc.hyps(1) [of "j + 1" s1] Suc.hyps(2) s1(2,3) j Suc.prems(6) by fastforce
  have "rev [j..<N] = rev [j + 1..<N] @ [j]" using j(1) by (simp add: upt_conv_Cons)
  moreover have "identity_map (table_addr r st) (4096 * j) (4096 * N) st = Inr st'"
    using j(1) s1(1) st'(1) addr by (subst identity_map.simps) (simp add: add.commute)
  moreover have "same_vm st st'" using s1(4) st'(4) by (simp add: same_vm_def)
  moreover have "find f (xs @ [x]) = (case find f xs of Some y \<Rightarrow> Some y | None \<Rightarrow> if f x then Some x else None)" for f :: "nat \<Rightarrow> bool" and xs x
    by (induction xs) auto
  ultimately show ?case using st'(2,3,5) s1(5) by (intro exI [of _ st']) (auto split: option.split)
qed

lemma empty_tree:
  assumes "pt_pool st r = (\<lambda>_. 0)" and "r \<in> slots (pt_bitmap st)" and "r < 1024"
  shows "pt_tree st r" and "translate st r w = None"
proof -
  have s: "sub_table st r i = None" for i using assms(1) by (simp add: sub_table_def)
  then have n: "node st r q = Some u \<longleftrightarrow> q = [] \<and> u = r" for q u by (cases q) auto
  show "pt_tree st r" using n s assms by (auto simp: pt_tree_def)
  show "translate st r w = None" using s by (simp add: translate_def table_path_def)
qed

lemma vm_init64_spec:
  assumes ok: "pool_ok64 st" and x: "x = unat (kernel_ends ph) + unat (stalloced ph)" "0 < x" "x \<le> 2 ^ 29"
  defines "N \<equiv> (x + 4095) div 4096"
  shows "\<exists>st' r. vm_init64 ph st = Inr st' \<and> pool_ok64 st' \<and> pt_tree st' r \<and> vm_slock st' = 0 \<and> pt_base st' = pt_base st \<and>
    kernel_pml4 st' = table_addr r st' \<and> cr3 st' = table_addr r st' \<and> kmalloc_addr st' = of_nat (4096 * N) \<and>
    (\<forall>w. translate st' r w = (case find (\<lambda>i. same_page64 (of_nat (4096 * i)) w) (rev [1..<N]) of
       Some i \<Rightarrow> Some (of_nat (4096 * i) OR PAGE_PRESENT OR PAGE_WRITE) | None \<Rightarrow> None))"
proof -
  let ?k = "kernel_ends ph + stalloced ph"
  let ?b = "if ?k mod 4096 > 0 then ?k + (4096 - ?k mod 4096) else ?k"
  have uk: "unat ?k = x" using x unat_add_lem [of "kernel_ends ph" "stalloced ph"] by simp
  have ub: "unat ?b = 4096 * N"
  proof (cases "x mod 4096 = 0")
    case True
    then have "unat (?k mod 4096) = 0" by (simp add: unat_mod_distrib uk)
    then have "\<not> ?k mod 4096 > 0" by (simp add: word_greater_zero_iff unat_eq_zero)
    moreover have "(x + 4095) div 4096 = x div 4096" using True ceil_div_page [of x] by simp
    moreover have "4096 * (x div 4096) = x" using True by auto
    ultimately show ?thesis using uk by (simp add: N_def)
  next
    case False
    have um: "unat (?k mod 4096) = x mod 4096" by (simp add: unat_mod_distrib uk)
    then have m: "?k mod 4096 > 0" using False by (metis unat_0 word_neq_0_conv)
    have le: "?k mod 4096 \<le> 4096" using um by (simp add: word_le_nat_alt less_imp_le)
    have u4: "unat (4096 - ?k mod 4096) = 4096 - x mod 4096" using unat_sub [OF le] um by simp
    have "x + (4096 - x mod 4096) \<le> x + 4096" by simp
    also have "\<dots> < 2 ^ 64" using x(3) by simp
    finally have "unat (?k + (4096 - ?k mod 4096)) = x + (4096 - x mod 4096)"
      using unat_add_lem [of ?k "4096 - ?k mod 4096"] uk u4 by simp
    moreover have "(x + 4095) div 4096 = x div 4096 + 1" using False ceil_div_page [of x] by simp
    moreover have "x + (4096 - x mod 4096) = 4096 * (x div 4096 + 1)"
    proof -
      have round: "a + (4096 - m) = 4096 * (q + 1)" if "a = 4096 * q + m" "m \<le> 4096" for a q m :: nat using that by simp
      show ?thesis by (rule round) simp_all
    qed
    ultimately show ?thesis using m by (simp add: N_def)
  qed
  have N: "1 \<le> N" "N \<le> 2 ^ 17 + 1"
  proof -
    have "(1 + 4095) div 4096 \<le> N" "N \<le> (2 ^ 29 + 4095) div 4096" unfolding N_def using x(2,3) by (intro div_le_mono; simp)+
    then show "1 \<le> N" "N \<le> 2 ^ 17 + 1" by simp_all
  qed
  let ?s0 = "st\<lparr>vm_slock := 0, kmalloc_addr := ?b\<rparr>"
  obtain b1 where b1: "clear_ptmap 1024 0 ?s0 = Inr (?s0\<lparr>pt_bitmap := b1\<rparr>)" "length b1 = 16" "slots b1 = slots (pt_bitmap st) - slot ` {0..<1024}"
    using clear_ptmap_spec [of ?s0 0 1024] ok by (auto simp: pool_ok64_def)
  have e1: "slots b1 = {}"
  proof -
    have "f \<in> slot ` {0..<1024}" if "f \<in> slots (pt_bitmap st)" for f
    proof -
      have "f div 64 < 16" "slot f = f" using that ok by (auto simp: slots_def pool_ok64_def slot_id)
      then have "f < 1024" "slot f = f" by (simp_all add: div_less_iff_less_mult)
      then show ?thesis by (metis atLeastLessThan_iff image_eqI zero_le)
    qed
    then show ?thesis using b1(3) by auto
  qed
  let ?s1 = "?s0\<lparr>pt_bitmap := b1\<rparr>"
  have ok1: "pool_ok64 ?s1" using ok b1(2) by (simp add: pool_ok64_def)
  have fr: "free_slots b1 = {f. f < 1024 \<and> f mod 64 < 32}" using empty_map [OF b1(2) e1] .
  then have "(0 :: nat) \<in> free_slots b1" by simp
  then have ne: "free_slots (pt_bitmap ?s1) \<noteq> {}" by auto
  obtain r b2 where r: "vmm_new_pagetable ?s1 = Inr (table_addr r ?s1, ?s1\<lparr>pt_bitmap := b2\<rparr>)" "r \<in> free_slots b1" "r < 1024"
      "length b2 = 16" "slots b2 = insert r (slots b1)" "free_slots b2 = free_slots b1 - {r}"
    using new_pagetable_spec [OF ok1 ne] by auto
  let ?s2 = "?s1\<lparr>pt_bitmap := b2, pt_pool := (pt_pool st)(r := (\<lambda>_. 0))\<rparr>"
  have a: "table_addr r ?s1 = table_addr r st" "table_addr r ?s2 = table_addr r st" by (simp_all add: table_addr_def)
  have clear: "vmm_cleartable (table_addr r ?s1) (?s1\<lparr>pt_bitmap := b2\<rparr>) = Inr ?s2"
    using table_index_addr [OF r(3)] table_addr_nonzero [OF ok1 r(3)] by (simp add: vmm_cleartable_def table_index_def table_addr_def)
  have ok2: "pool_ok64 ?s2" using ok r(4) by (simp add: pool_ok64_def)
  note T = empty_tree [of ?s2 r, simplified, OF _ r(3)]
  have t0: "translate ?s2 r w = None" for w by (rule empty_tree(2) [OF _ _ r(3)]) (simp_all add: r(5))
  have c2: "card (free_slots (pt_bitmap ?s2)) = 511" using r(2,6) fr card_half card_Suc_Diff1 [OF finite_free_slots r(2)] by simp
  have need: "tables_needed 1 N \<le> 511"
  proof -
    have "(N - 1) div 512 \<le> 2 ^ 17 div 512" using N(2) by (intro div_le_mono) simp
    then show ?thesis by (simp add: tables_needed_def)
  qed
  obtain s3 where s3: "identity_map (table_addr r ?s2) (4096 * 1) (4096 * N) ?s2 = Inr s3" "pool_ok64 s3" "pt_tree s3 r" "same_vm ?s2 s3"
      "\<forall>w. translate s3 r w = (case find (\<lambda>i. same_page64 (of_nat (4096 * i)) w) (rev [1..<N]) of
         Some i \<Rightarrow> Some (of_nat (4096 * i) OR PAGE_PRESENT OR PAGE_WRITE) | None \<Rightarrow> translate ?s2 r w)"
    using identity_map_spec [OF ok2, of r 1 N] T r(5) N c2 need by auto
  let ?st = "vmm_setcr3 (table_addr r st) (s3\<lparr>kernel_pml4 := table_addr r st\<rparr>)"
  have f: "pt_base ?st = pt_base s3" "pt_pool ?st = pt_pool s3" "pt_bitmap ?st = pt_bitmap s3" by (simp_all add: vmm_setcr3_def)
  note C = vm_cong [OF f]
  have "vm_init64 ph st = Inr ?st"
    using b1(1) r(1) clear s3(1) a ub by (simp add: vm_init64_def Let_def)
  moreover have "table_addr r ?st = table_addr r st" using s3(4) by (simp add: table_addr_def same_vm_def vmm_setcr3_def)
  moreover have "kmalloc_addr ?st = of_nat (4096 * N)"
  proof -
    have "kmalloc_addr ?st = ?b" using s3(4) by (simp add: same_vm_def vmm_setcr3_def)
    moreover have "of_nat (unat ?b) = ?b" by simp
    ultimately show ?thesis using ub by metis
  qed
  moreover have "translate ?st r w = (case find (\<lambda>i. same_page64 (of_nat (4096 * i)) w) (rev [1..<N]) of
      Some i \<Rightarrow> Some (of_nat (4096 * i) OR PAGE_PRESENT OR PAGE_WRITE) | None \<Rightarrow> None)" for w
    using s3(5) t0 unfolding C by (simp only:)
  moreover have "pool_ok64 ?st" "pt_tree ?st r" using s3(2,3) by (simp_all add: C)
  moreover have "vm_slock ?st = 0" "pt_base ?st = pt_base st" "kernel_pml4 ?st = table_addr r st" "cr3 ?st = table_addr r st"
    using s3(4) by (simp_all add: same_vm_def vmm_setcr3_def)
  ultimately show ?thesis by (intro exI [of _ ?st] exI [of _ r]) simp
qed

section \<open>Kernel allocation\<close>

text \<open>A request of at most a page: the new page is mapped to the number of a free frame, which stays free.\<close>

lemma kmalloc_page:
  assumes ok: "pool_ok64 st" "pt_tree st k" "vm_slock st = 0" "kernel_pml4 st = table_addr k st" "3 \<le> card (free_slots (pt_bitmap st))"
    and sz: "0 < unat sz" "unat sz \<le> 4096" and a: "unat (kmalloc_addr st) + 4096 \<le> 0x7FFFFFFFFFFF"
    and ph: "int (length (mem_bitmap ph)) < uint (total_blocks ph)" and f: "f \<in> free_slots (mem_bitmap ph)" "\<forall>g \<in> free_slots (mem_bitmap ph). f \<le> g"
  shows "\<exists>st'. kmalloc sz ph st = Inr (kmalloc_addr st, st') \<and> pool_ok64 st' \<and> pt_tree st' k \<and> vm_slock st' = 0 \<and>
    kernel_pml4 st' = table_addr k st' \<and> card (free_slots (pt_bitmap st)) \<le> card (free_slots (pt_bitmap st')) + 3 \<and>
    kmalloc_addr st' = kmalloc_addr st + 4096 \<and>
    (\<forall>w. translate st' k w = (if same_page64 (kmalloc_addr st) w then Some (of_nat f OR PAGE_PRESENT OR PAGE_WRITE) else translate st k w))"
proof -
  have frame: "physmem_getframe ph = Inr (int f)"
  proof -
    have "free_slots (mem_bitmap ph) \<noteq> {}" using f(1) by auto
    then obtain f' where f': "getframe_loop 0 (uint (total_blocks ph)) (mem_bitmap ph) = Inr (int f')" "f' \<in> free_slots (mem_bitmap ph)"
        "\<forall>g \<in> free_slots (mem_bitmap ph). f' \<le> g" using getframe_loop_spec [of 0, simplified, OF ph] by (auto split: if_splits)
    then have "f' = f" using f by (blast intro: antisym)
    then show ?thesis using f'(1) by (simp add: physmem_getframe_def)
  qed
  have n: "(if sz mod 4096 \<noteq> 0 then sz div 4096 + 1 else sz div 4096) = 1"
  proof (cases "unat sz = 4096")
    case True
    then have "sz = 4096" by (simp add: word_unat_eq_iff)
    then show ?thesis by simp
  next
    case False
    then have s: "unat sz < 4096" using sz(2) by simp
    then have "unat (sz mod 4096) = unat sz" "unat (sz div 4096) = 0" by (simp_all add: unat_mod_distrib unat_div_distrib)
    then have "sz mod 4096 \<noteq> 0" "sz div 4096 = 0" using sz(1) by (metis unat_0 less_irrefl, simp add: unat_eq_zero)
    then show ?thesis by simp
  qed
  have fit: "\<not> sz + kmalloc_addr st > VMM_KERNEL_SPACE"
  proof -
    have "unat (sz + kmalloc_addr st) = unat sz + unat (kmalloc_addr st)" using unat_add_lem [of sz "kmalloc_addr st"] sz(2) a by simp
    then show ?thesis using sz(2) a by (simp add: word_less_nat_alt)
  qed
  have m: "missing st k v \<le> 3" for v by (simp add: missing_def)
  have room: "missing st k (kmalloc_addr st) \<le> card (free_slots (pt_bitmap st))" using m ok(5) le_trans by blast
  obtain s1 where s1: "vm_map64 (table_addr k st) (of_nat f) (kmalloc_addr st) 0 st = Inr s1" "pool_ok64 s1" "pt_tree s1 k" "same_vm st s1"
      "\<forall>w. translate s1 k w = (if same_page64 (kmalloc_addr st) w then Some (of_nat f OR PAGE_PRESENT OR PAGE_WRITE OR word_of_int 0) else translate st k w)"
      "card (free_slots (pt_bitmap st)) \<le> card (free_slots (pt_bitmap s1)) + missing st k (kmalloc_addr st)"
    using vm_map64_spec [OF ok(1,2,3) _ _ room, of 0 "of_nat f"] by auto
  let ?st = "s1\<lparr>kmalloc_addr := kmalloc_addr st + 4096\<rparr>"
  note C = vm_cong [of ?st s1, simplified]
  have "kmalloc sz ph st = Inr (kmalloc_addr st, ?st)"
    using fit frame s1(1,4) ok(4) by (simp add: kmalloc_def n Let_def physmem_getframes_def same_vm_def)
  moreover have "kernel_pml4 ?st = table_addr k ?st" using s1(4) ok(4) by (simp add: same_vm_def table_addr_def)
  moreover have "card (free_slots (pt_bitmap st)) \<le> card (free_slots (pt_bitmap s1)) + 3" using s1(6) m [of "kmalloc_addr st"] by linarith
  ultimately show ?thesis using s1(2,3,4,5) ok(3) by (intro exI [of _ ?st]) (simp add: C same_vm_def)
qed

end
