(* ===== verification/Process.thy ===== *)
theory Process
  imports Elf Paging Thread
begin

text \<open>
  Loading and starting programs on x86_64 (\<^verbatim>\<open>src/kudos/proc/process.c\<close>, \<^verbatim>\<open>src/kudos/proc/x86_64/_proc.c\<close> and the entry to
  user mode of \<^verbatim>\<open>src/kudos/kernel/x86_64/cswitch.c\<close>): the composition of the file system, the ELF parser, the frames, the
  page tables and the thread table. The processor reaches memory through the table in CR3. The locale
  \<open>program_file\<close> is what the loader needs of the driver of the executable.
\<close>

section \<open>The machine\<close>

text \<open>
  \<open>ram\<close> is physical memory by bytes, as far as it is handed out in frames; the thread table, the contexts and the page
  tables are in \<open>kern\<close> and \<open>vmem\<close>. \<open>frames\<close> and \<open>vmem\<close> have their own copy of the interrupt flag.
\<close>

record 'w machine =
  kern :: kstate
  frames :: phys64
  vmem :: paging
  ram :: "u64 \<Rightarrow> byte"
  fsys :: "'w vfs"

abbreviation (input) PAGE_USER :: int where "PAGE_USER \<equiv> 4"
abbreviation (input) PAGE_WRITABLE :: int where "PAGE_WRITABLE \<equiv> 2"
abbreviation (input) USERLAND_STACK_TOP :: u64 where "USERLAND_STACK_TOP \<equiv> 0xFFFFFFFFFFFFFFFF"
abbreviation (input) CONFIG_USERLAND_STACK_SIZE :: nat where "CONFIG_USERLAND_STACK_SIZE \<equiv> 1"

definition intr_disable :: "int \<Rightarrow> 'w machine \<Rightarrow> bool \<times> 'w machine" where
  "intr_disable cpu m =
     (let (b, k) = interrupt_disable cpu (kern m) in
      (b, m\<lparr>kern := k, frames := (frames m)\<lparr>phys_intr := False\<rparr>, vmem := (vmem m)\<lparr>vm_intr := False\<rparr>\<rparr>))"

definition intr_set_state :: "int \<Rightarrow> bool \<Rightarrow> 'w machine \<Rightarrow> 'w machine" where
  "intr_set_state cpu b m =
     m\<lparr>kern := interrupt_set_state cpu b (kern m), frames := (frames m)\<lparr>phys_intr := b\<rparr>, vmem := (vmem m)\<lparr>vm_intr := b\<rparr>\<rparr>"

text \<open>The physical address of a virtual one in a table, bits 12 to 51 of the entry with the offset in the page, and through CR3.\<close>

definition entry_frame :: "u64 \<Rightarrow> nat" where
  "entry_frame e = unat (take_bit 40 (drop_bit 12 e))"

definition phys_of :: "paging \<Rightarrow> nat \<Rightarrow> u64 \<Rightarrow> u64 option" where
  "phys_of vm r v = map_option (\<lambda>e. of_nat (4096 * entry_frame e) + v mod 4096) (translate vm r v)"

definition vaddr_phys :: "'w machine \<Rightarrow> u64 \<Rightarrow> u64 res" where
  "vaddr_phys m v =
     rbind (table_index (cr3 (vmem m)) (vmem m)) (\<lambda>r.
     case phys_of (vmem m) r v of None \<Rightarrow> Inl OutOfBounds | Some p \<Rightarrow> Inr p)"

fun vstore :: "u64 \<Rightarrow> byte list \<Rightarrow> 'w machine \<Rightarrow> 'w machine res" where
  "vstore v [] m = Inr m"
| "vstore v (b # bs) m = rbind (vaddr_phys m v) (\<lambda>p. vstore (v + 1) bs (m\<lparr>ram := (ram m)(p := b)\<rparr>))"

fun vload :: "u64 \<Rightarrow> nat \<Rightarrow> 'w machine \<Rightarrow> byte list res" where
  "vload v 0 m = Inr []"
| "vload v (Suc n) m = rbind (vaddr_phys m v) (\<lambda>p. rbind (vload (v + 1) n m) (\<lambda>bs. Inr (ram m p # bs)))"

section \<open>Loading\<close>

definition process_set_pagetable :: "int \<Rightarrow> u64 \<Rightarrow> 'w machine \<Rightarrow> 'w machine res" where
  "process_set_pagetable cpu pml4 m =
     (let (intr_status, m) = intr_disable cpu m;
          m = m\<lparr>vmem := vmm_setcr3 pml4 (vmem m)\<rparr> in
      rbind (thread_get_current_thread_entry cpu (kern m)) (\<lambda>(e, k).
      let k = k\<lparr>kmem := (kmem k)(kcontext e + 24 := pml4)\<rparr> in
      rbind (thread_get_current_thread_entry cpu k) (\<lambda>(e, k).
      let k = k\<lparr>kmem := (kmem k)(kcontext e + 32 := pml4)\<rparr> in
      Inr (intr_set_state cpu intr_status (m\<lparr>kern := k\<rparr>)))))"

text \<open>A new page at \<open>virt_page\<close>, cleared; the result is its physical address.\<close>

definition new_page :: "u64 \<Rightarrow> u64 \<Rightarrow> 'w machine \<Rightarrow> (u64 \<times> 'w machine) res" where
  "new_page pt virt_page m =
     rbind (physmem_allocblock64 (frames m)) (\<lambda>(phys_page, ph).
     let m = m\<lparr>frames := ph\<rparr> in
     rbind (kassert (phys_page \<noteq> 0)) (\<lambda>_.
     rbind (vm_map64 pt phys_page virt_page (PAGE_USER OR PAGE_WRITABLE) (vmem m)) (\<lambda>vm.
     rbind (vstore virt_page (replicate 4096 0) (m\<lparr>vmem := vm\<rparr>)) (\<lambda>m.
     Inr (phys_page, m)))))"

text \<open>Filling a page from the file at \<open>pos\<close>.\<close>

definition fill_page :: "'w fs_driver \<Rightarrow> int \<Rightarrow> u64 \<Rightarrow> u64 \<Rightarrow> int \<Rightarrow> 'w machine \<Rightarrow> 'w machine res" where
  "fill_page g file virt_page pos left_to_read m =
     (if left_to_read > 0 then
        rbind (vfs_seek file (c_int (uint pos)) (fsys m)) (\<lambda>(r, s).
        rbind (kassert (r = VFS_OK)) (\<lambda>_.
        let m = m\<lparr>fsys := s\<rparr>; n = min 4096 left_to_read in
        rbind (vload virt_page (nat n) m) (\<lambda>buf.
        rbind (vfs_read g file buf n (fsys m)) (\<lambda>((r, buf), s).
        rbind (vstore virt_page buf (m\<lparr>fsys := s\<rparr>)) (\<lambda>m.
        rbind (kassert (r = n)) (\<lambda>_. Inr m))))))
      else Inr m)"

fun map_stack :: "nat \<Rightarrow> int \<Rightarrow> u64 \<Rightarrow> 'w machine \<Rightarrow> 'w machine res" where
  "map_stack 0 i pt m = Inr m"
| "map_stack (Suc n) i pt m =
     rbind (new_page pt ((USERLAND_STACK_TOP AND PAGE_MASK) - word_of_int (i * 4096)) m) (\<lambda>(_, m).
     map_stack n (i + 1) pt m)"

fun map_ro :: "'w fs_driver \<Rightarrow> int \<Rightarrow> nat \<Rightarrow> int \<Rightarrow> u64 \<Rightarrow> elf_info \<Rightarrow> 'w machine \<Rightarrow> 'w machine res" where
  "map_ro g file 0 i pt elf m = Inr m"
| "map_ro g file (Suc n) i pt elf m =
     (let left_to_read = c_int (uint (ro_size elf - word_of_int (i * 4096)));
          virt_page = ro_vaddr elf + word_of_int (i * 4096) in
      rbind (new_page pt virt_page m) (\<lambda>(phys_page, m).
      rbind (fill_page g file virt_page (ro_location elf + word_of_int (i * 4096)) left_to_read m) (\<lambda>m.
      rbind (vm_map64 pt phys_page virt_page PAGE_USER (vmem m)) (\<lambda>vm.
      map_ro g file n (i + 1) pt elf (m\<lparr>vmem := vm\<rparr>)))))"

fun map_rw :: "'w fs_driver \<Rightarrow> int \<Rightarrow> nat \<Rightarrow> int \<Rightarrow> u64 \<Rightarrow> elf_info \<Rightarrow> 'w machine \<Rightarrow> 'w machine res" where
  "map_rw g file 0 i pt elf m = Inr m"
| "map_rw g file (Suc n) i pt elf m =
     (let left_to_read = c_int (uint (rw_size elf - word_of_int (i * 4096)));
          virt_page = rw_vaddr elf + word_of_int (i * 4096) in
      rbind (new_page pt virt_page m) (\<lambda>(phys_page, m).
      rbind (fill_page g file virt_page (rw_location elf + word_of_int (i * 4096)) left_to_read m) (\<lambda>m.
      map_rw g file n (i + 1) pt elf m)))"

text \<open>
  \<open>setup_new_process\<close>: the result, the entry point and the stack pointer (\<open>None\<close> while they are not assigned).
  The first arguments are the CPU, the driver and what the header variables hold at first; \<^verbatim>\<open>argv_src\<close> is not used.
\<close>

definition setup_new_process ::
  "int \<Rightarrow> 'w fs_driver \<Rightarrow> byte list \<Rightarrow> byte list \<Rightarrow> byte list \<Rightarrow> elf_info \<Rightarrow> tid \<Rightarrow> byte list \<Rightarrow> 'w machine \<Rightarrow>
   ((int \<times> (u64 \<times> u64) option) \<times> 'w machine) res" where
  "setup_new_process cpu g hbuf pbuf32 pbuf64 elf thread executable m =
     rbind (thread_get_current_thread cpu (kern m)) (\<lambda>(current_thread, k).
     let m = m\<lparr>kern := k\<rparr> in
     rbind (get_thread thread k) (\<lambda>thread_entry.
     rbind (get_thread current_thread k) (\<lambda>ce.
     let current_pml4 = kmem k (kcontext ce + 32) in
     rbind (vfs_open g executable (fsys m)) (\<lambda>(file, s).
     let m = m\<lparr>fsys := s\<rparr> in
     if file < 0 then Inr ((- 1, None), m) else
     rbind (elf_parse_header g hbuf pbuf32 pbuf64 elf file (fsys m)) (\<lambda>((res, elf), s).
     let m = m\<lparr>fsys := s\<rparr> in
     if res < 0 then Inr ((- 1, None), m) else
     if entry_point elf \<le> VMM_KERNEL_SPACE then Inr ((- 1, None), m) else
     rbind (vm_create_pagetable64 (word_of_int thread) (vmem m)) (\<lambda>(pt, vm).
     let (intr_status, m) = intr_disable cpu (m\<lparr>vmem := vm\<rparr>) in
     rbind (process_set_pagetable cpu pt m) (\<lambda>m.
     rbind (upd_thread thread (\<lambda>e. e\<lparr>pagetable := pt\<rparr>) (kern m)) (\<lambda>k.
     rbind (map_stack CONFIG_USERLAND_STACK_SIZE 0 pt (m\<lparr>kern := k\<rparr>)) (\<lambda>m.
     rbind (map_ro g file (nat (c_int (uint (ro_pages elf)))) 0 pt elf m) (\<lambda>m.
     rbind (map_rw g file (nat (c_int (uint (rw_pages elf)))) 0 pt elf m) (\<lambda>m.
     rbind (vfs_close g file (fsys m)) (\<lambda>(_, s).
     rbind (process_set_pagetable cpu current_pml4 (m\<lparr>fsys := s\<rparr>)) (\<lambda>m.
     rbind (get_thread thread (kern m)) (\<lambda>thread_entry.
     let k = kern m;
         k = k\<lparr>kmem := (kmem k)(kcontext thread_entry + 24 := pt, kcontext thread_entry + 32 := pt)\<rparr> in
     Inr ((0, Some (entry_point elf, USERLAND_STACK_TOP)), intr_set_state cpu intr_status (m\<lparr>kern := k\<rparr>))))))))))))))))"

section \<open>Entering user mode\<close>

definition bytes64 :: "u64 \<Rightarrow> byte list" where
  "bytes64 x = map (\<lambda>i. ucast (drop_bit (8 * i) x)) [0..<8]"

text \<open>\<open>*(rsp--) = v\<close> for every value, on the stack of the process.\<close>

fun push_user :: "u64 \<Rightarrow> u64 list \<Rightarrow> 'w machine \<Rightarrow> (u64 \<times> 'w machine) res" where
  "push_user rsp [] m = Inr (rsp, m)"
| "push_user rsp (v # vs) m = rbind (vstore rsp (bytes64 v) m) (\<lambda>m. push_user (rsp - 8) vs m)"

text \<open>\<open>_context_enter_userland\<close> up to its \<open>thread_switch\<close>, from which it does not return.\<close>

definition context_enter_userland :: "int \<Rightarrow> u64 \<Rightarrow> 'w machine \<Rightarrow> 'w machine res" where
  "context_enter_userland cpu cxt m =
     (let stack = kmem (kern m) cxt - 0x10;
          stack = (if stack AND 0xF \<noteq> 0 then (stack AND 0xFFFFFFFFFFFFFFF0) + 0x10 else stack) in
      rbind (push_user stack [0, 0x10, stack, 0x200202, 0x8, kmem (kern m) (cxt + 8)] m) (\<lambda>(rbp, m).
      rbind (push_user rbp [0, 0, 0, 0, 0, 0, 0, 0, 0, 0, rbp, 0, 0, 0, 0] m) (\<lambda>(rsp, m).
      rbind (vstore rsp (bytes64 0) m) (\<lambda>m.
      let k = (kern m)\<lparr>kmem := (kmem (kern m))(cxt := rsp)\<rparr> in
      rbind (thread_get_current_thread cpu k) (\<lambda>(t, k).
      rbind (upd_thread t (\<lambda>e. e\<lparr>user_context := cxt\<rparr>) k) (\<lambda>k.
      rbind (thread_get_current_thread cpu k) (\<lambda>(t, k).
      rbind (upd_thread t (\<lambda>e. e\<lparr>attribs := attribs e OR 2\<rparr>) k) (\<lambda>k.
      Inr (m\<lparr>kern := k\<rparr>)))))))))"

text \<open>
  \<open>process_start\<close>: whether the process was started; \<open>user_cxt\<close> is the address of its variable \<^verbatim>\<open>user_context\<close>.
\<close>

definition process_start ::
  "int \<Rightarrow> 'w fs_driver \<Rightarrow> byte list \<Rightarrow> byte list \<Rightarrow> byte list \<Rightarrow> elf_info \<Rightarrow> u64 \<Rightarrow> byte list \<Rightarrow> 'w machine \<Rightarrow> (bool \<times> 'w machine) res" where
  "process_start cpu g hbuf pbuf32 pbuf64 elf user_cxt executable m =
     rbind (thread_get_current_thread cpu (kern m)) (\<lambda>(my_thread, k).
     rbind (setup_new_process cpu g hbuf pbuf32 pbuf64 elf my_thread executable (m\<lparr>kern := k\<rparr>)) (\<lambda>((ret, out), m).
     case out of None \<Rightarrow> Inr (False, m)
     | Some (entry, stack_top) \<Rightarrow>
         if ret \<noteq> 0 then Inr (False, m) else
         let k = kern m;
             k = k\<lparr>kmem := context_set_sp user_cxt stack_top (context_set_ip user_cxt entry (zero_words 6 user_cxt (kmem k)))\<rparr> in
         rbind (get_thread my_thread k) (\<lambda>e.
         let m = m\<lparr>kern := k, vmem := vmm_setcr3 (kmem k (kcontext e + 24)) (vmem m)\<rparr> in
         rbind (context_enter_userland cpu user_cxt m) (\<lambda>m. Inr (True, m)))))"

text \<open>
  System calls (\<^verbatim>\<open>src/kudos/proc/syscall.c\<close>): the only one halts the machine (\<^verbatim>\<open>src/kudos/kernel/halt.c\<close>), \<open>Some ()\<close> when the power is off
  and \<open>None\<close> while \<open>vfs_deinit\<close> waits.
\<close>

definition halt_kernel :: "'w fs_driver \<Rightarrow> (unit option, 'w) vfs_m" where
  "halt_kernel g s = rbind (vfs_deinit g s) (\<lambda>(r, s). case r of None \<Rightarrow> Inr (None, s) | Some _ \<Rightarrow> Inr (Some (), s))"

definition syscall_entry :: "'w fs_driver \<Rightarrow> u64 \<Rightarrow> u64 \<Rightarrow> u64 \<Rightarrow> u64 \<Rightarrow> (unit option, 'w) vfs_m" where
  "syscall_entry g syscall arg0 arg1 arg2 s = (if syscall = 1 then halt_kernel g s else Inl Panic)"

section \<open>Pages and offsets\<close>

lemma same_page_unat: "same_page64 v w \<longleftrightarrow> unat v div 4096 mod 2 ^ 36 = unat w div 4096 mod 2 ^ 36"
proof -
  have "unat (take_bit 36 (drop_bit 12 x)) = unat x div 4096 mod 2 ^ 36" for x :: u64
    by (simp add: take_bit_eq_mod drop_bit_eq_div unat_mod_distrib unat_div_distrib)
  then show ?thesis unfolding same_page64_iff word_unat_eq_iff by metis
qed

lemma unat_offset: "unat (w mod 4096 :: u64) = unat w mod 4096" "unat (w mod 4096 :: u64) < 4096"
  by (simp_all add: unat_mod_distrib)

lemma page_offset:
  assumes "unat v mod 4096 = 0" and "k < 4096"
  shows "unat (v + of_nat k) = unat v + k" and "same_page64 v (v + of_nat k)" and "(v + of_nat k :: u64) mod 4096 = of_nat k"
proof -
  have k: "unat (of_nat k :: u64) = k" using assms(2) by (simp add: unat_of_nat)
  have "unat v + k < 2 ^ 64"
  proof -
    have "unat v div 4096 < 2 ^ 52" using unsigned_less [of v] by (simp add: div_less_iff_less_mult)
    then have "4096 * (unat v div 4096) + k < 2 ^ 64" using assms(2) by simp
    moreover have "unat v = 4096 * (unat v div 4096)" using assms(1) by auto
    ultimately show ?thesis by metis
  qed
  then show u: "unat (v + of_nat k) = unat v + k" using unat_add_lem [of v "of_nat k"] k by simp
  have "(unat v + k) div 4096 = unat v div 4096" "(unat v + k) mod 4096 = k" using assms by (auto simp: div_add1_eq mod_add_eq [symmetric])
  then show "same_page64 v (v + of_nat k)" "(v + of_nat k :: u64) mod 4096 = of_nat k"
    using u k by (simp_all add: same_page_unat word_unat_eq_iff unat_offset)
qed

lemma entry_frame_less: "entry_frame e < 2 ^ 40"
  by (simp add: entry_frame_def take_bit_eq_mod unat_mod_distrib)

lemma unat_frame: "f < 2 ^ 40 \<Longrightarrow> unat (of_nat (4096 * f) :: u64) = 4096 * f"
  by (simp add: unat_of_nat del: of_nat_mult)

lemma entry_frame_of:
  assumes "f < 2 ^ 40" and "unat fl < 4096"
  shows "entry_frame (of_nat (4096 * f) OR fl) = f"
proof -
  have d: "drop_bit 12 fl = 0" using assms(2) by (simp add: drop_bit_eq_div word_unat_eq_iff unat_div_distrib)
  have "unat (take_bit 40 (drop_bit 12 (of_nat (4096 * f) :: u64))) = f"
    using assms(1) unat_frame [OF assms(1)] by (simp add: take_bit_eq_mod drop_bit_eq_div unat_mod_distrib unat_div_distrib del: of_nat_mult)
  then show ?thesis by (simp add: entry_frame_def drop_bit_or take_bit_or d del: of_nat_mult)
qed

text \<open>Different frames are apart in physical memory.\<close>

lemma phys_offset:
  assumes "F < 2 ^ 40" and "G < 2 ^ 40" and "j < 4096" and "k + n \<le> 4096"
  shows "unat (of_nat (4096 * G) + of_nat j - (of_nat (4096 * F) + of_nat k) :: u64) < n \<longleftrightarrow> G = F \<and> k \<le> j \<and> j < k + n"
    and "k \<le> j \<Longrightarrow> k < 4096 \<Longrightarrow> unat (of_nat (4096 * F) + of_nat j - (of_nat (4096 * F) + of_nat k) :: u64) = j - k"
proof -
  have u: "unat (of_nat (4096 * H) + of_nat i :: u64) = 4096 * H + i" if "H < 2 ^ 40" "i < 4096" for H i
  proof -
    have "unat (of_nat i :: u64) = i" using that(2) by (simp add: unat_of_nat)
    then show ?thesis using unat_add_lem [of "of_nat (4096 * H)" "of_nat i :: u64"] unat_frame [OF that(1)] that by simp
  qed
  show "unat (of_nat (4096 * F) + of_nat j - (of_nat (4096 * F) + of_nat k) :: u64) = j - k" if "k \<le> j" "k < 4096"
    unfolding unat_sub_if' u [OF assms(1,3)] u [OF assms(1) that(2)] using that by simp
  have e: "k < 4096 \<Longrightarrow> unat (of_nat (4096 * G) + of_nat j - (of_nat (4096 * F) + of_nat k) :: u64) =
      (if 4096 * F + k \<le> 4096 * G + j then 4096 * G + j - (4096 * F + k) else 4096 * G + j + 2 ^ 64 - (4096 * F + k))"
    unfolding unat_sub_if' u [OF assms(2,3)] by (simp only: u [OF assms(1)]) simp
  show "unat (of_nat (4096 * G) + of_nat j - (of_nat (4096 * F) + of_nat k) :: u64) < n \<longleftrightarrow> G = F \<and> k \<le> j \<and> j < k + n"
  proof (cases "n = 0"; cases "4096 * F + k \<le> 4096 * G + j")
    assume n: "n \<noteq> 0" and True: "4096 * F + k \<le> 4096 * G + j"
    have "4096 * G + j - (4096 * F + k) < n \<longleftrightarrow> 4096 * G + j < 4096 * F + k + n" using True by linarith
    also have "\<dots> \<longleftrightarrow> G = F \<and> k \<le> j \<and> j < k + n"
    proof
      assume "4096 * G + j < 4096 * F + k + n"
      then have "G < F + 1" "F < G + 1" using True assms(3,4) by linarith+
      then show "G = F \<and> k \<le> j \<and> j < k + n" using True \<open>4096 * G + j < 4096 * F + k + n\<close> by simp
    qed simp
    finally show ?thesis using e True n assms(4) by simp
  next
    assume n: "n \<noteq> 0" and "\<not> 4096 * F + k \<le> 4096 * G + j"
    then show ?thesis using e assms(1,4) by auto
  qed simp_all
qed

section \<open>Access to memory\<close>

text \<open>What the processor sees of memory through a table.\<close>

definition view :: "'w machine \<Rightarrow> nat \<Rightarrow> u64 \<Rightarrow> byte option" where
  "view m r w = map_option (ram m) (phys_of (vmem m) r w)"

definition put_bytes :: "u64 \<Rightarrow> byte list \<Rightarrow> (u64 \<Rightarrow> byte) \<Rightarrow> u64 \<Rightarrow> byte" where
  "put_bytes a bs R = (\<lambda>p. if unat (p - a) < length bs then bs ! unat (p - a) else R p)"

lemma put_bytes_Cons: "length bs \<le> 4096 \<Longrightarrow> put_bytes (a + 1) bs (R(a := b)) = put_bytes a (b # bs) R"
proof
  fix x assume l: "length bs \<le> 4096"
  show "put_bytes (a + 1) bs (R(a := b)) x = put_bytes a (b # bs) R x"
  proof (cases "x = a")
    case True
    then have "x - (a + 1) = - 1" by simp
    moreover have "unat (- 1 :: u64) = 2 ^ 64 - 1" by (simp add: unsigned_minus_1_eq_mask mask_eq_exp_minus_1)
    ultimately have "\<not> unat (x - (a + 1)) < length bs" using l by simp
    then show ?thesis using True by (simp add: put_bytes_def)
  next
    case False
    then have "0 < unat (x - a)" by (simp add: unat_gt_0)
    then have "unat (x - (a + 1)) = unat (x - a) - 1" using unat_sub [of 1 "x - a"] by (simp add: word_le_nat_alt diff_diff_eq)
    then show ?thesis using False \<open>0 < unat (x - a)\<close> by (auto simp: put_bytes_def nth_Cons')
  qed
qed

text \<open>A page at \<open>v\<close> that is mapped by the table in CR3.\<close>

definition mapped :: "'w machine \<Rightarrow> nat \<Rightarrow> u64 \<Rightarrow> u64 \<Rightarrow> bool" where
  "mapped m r v e \<longleftrightarrow> r < 1024 \<and> cr3 (vmem m) = table_addr r (vmem m) \<and> unat v mod 4096 = 0 \<and> translate (vmem m) r v = Some e"

lemma vaddr_phys_page:
  assumes "mapped m r v e" and "k < 4096"
  shows "vaddr_phys m (v + of_nat k) = Inr (of_nat (4096 * entry_frame e) + of_nat k)"
proof -
  have v: "unat v mod 4096 = 0" using assms(1) by (simp add: mapped_def)
  have "translate (vmem m) r (v + of_nat k) = Some e"
    using assms(1) translate_same_page [OF page_offset(2) [OF v assms(2)]] by (simp add: mapped_def)
  then show ?thesis using assms(1) page_offset(3) [OF v assms(2)] table_index_addr
    by (simp add: vaddr_phys_def phys_of_def mapped_def del: of_nat_mult)
qed

lemma vstore_page:
  "mapped m r v e \<Longrightarrow> k + length bs \<le> 4096 \<Longrightarrow>
   vstore (v + of_nat k) bs m = Inr (m\<lparr>ram := put_bytes (of_nat (4096 * entry_frame e) + of_nat k) bs (ram m)\<rparr>)"
proof (induction bs arbitrary: k m)
  case (Cons b bs)
  let ?a = "of_nat (4096 * entry_frame e) + of_nat k :: u64"
  have "mapped (m\<lparr>ram := (ram m)(?a := b)\<rparr>) r v e" using Cons.prems(1) by (simp add: mapped_def)
  note IH = Cons.IH [OF this, of "Suc k"]
  have n: "v + of_nat (Suc k) = v + of_nat k + 1" "of_nat (4096 * entry_frame e) + of_nat (Suc k) = ?a + 1" by simp_all
  have "put_bytes (?a + 1) bs ((ram m)(?a := b)) = put_bytes ?a (b # bs) (ram m)" using Cons.prems(2) by (intro put_bytes_Cons) simp
  then show ?case using IH Cons.prems(2) vaddr_phys_page [OF Cons.prems(1), of k] unfolding n by (simp del: of_nat_mult fun_upd_apply)
qed (simp add: put_bytes_def)

lemma vload_page: "mapped m r v e \<Longrightarrow> k + n \<le> 4096 \<Longrightarrow> \<exists>bs. vload (v + of_nat k) n m = Inr bs \<and> length bs = n"
proof (induction n arbitrary: k)
  case (Suc n)
  obtain bs where "vload (v + of_nat (Suc k)) n m = Inr bs" "length bs = n" using Suc.IH [of "Suc k"] Suc.prems by auto
  moreover have "v + of_nat (Suc k) = v + of_nat k + 1" by simp
  ultimately show ?case using vaddr_phys_page [OF Suc.prems(1), of k] Suc.prems(2) by (simp del: of_nat_mult of_nat_Suc)
qed simp

lemma view_put:
  assumes e: "mapped m r v e" and own: "\<And>w e'. translate (vmem m) r w = Some e' \<Longrightarrow> \<not> same_page64 v w \<Longrightarrow> entry_frame e' \<noteq> entry_frame e"
    and l: "k + length bs \<le> 4096"
  shows "view (m\<lparr>ram := put_bytes (of_nat (4096 * entry_frame e) + of_nat k) bs (ram m)\<rparr>) r w =
    (if same_page64 v w \<and> k \<le> unat (w mod 4096) \<and> unat (w mod 4096) < k + length bs then Some (bs ! (unat (w mod 4096) - k)) else view m r w)"
proof (cases "translate (vmem m) r w")
  case None
  then have "\<not> same_page64 v w" using e translate_same_page [of v w "vmem m" r] by (auto simp: mapped_def)
  then show ?thesis using None by (simp add: view_def phys_of_def)
next
  case (Some e')
  have j: "w mod 4096 = of_nat (unat (w mod 4096))" "unat (w mod 4096) < 4096" by (simp, rule unat_offset(2))
  have same: "same_page64 v w \<longleftrightarrow> entry_frame e' = entry_frame e"
    using e Some own [OF Some] translate_same_page [of v w "vmem m" r] by (auto simp: mapped_def)
  have p: "phys_of (vmem m) r w = Some (of_nat (4096 * entry_frame e') + of_nat (unat (w mod 4096)))"
    using Some j(1) by (simp add: phys_of_def del: of_nat_mult)
  note O = phys_offset [OF entry_frame_less [of e] entry_frame_less [of e'] j(2) l]
  show ?thesis
  proof (cases "entry_frame e' = entry_frame e \<and> k \<le> unat (w mod 4096)")
    case True
    then have "k < 4096" using j(2) by simp
    then show ?thesis using True same O by (simp add: view_def p put_bytes_def del: of_nat_mult)
  next
    case False
    then show ?thesis using same O(1) by (auto simp: view_def p put_bytes_def simp del: of_nat_mult)
  qed
qed

lemma view_other:
  assumes "\<And>w e'. translate (vmem m) k w = Some e' \<Longrightarrow> entry_frame e' \<noteq> F" and "F < 2 ^ 40" and "length bs \<le> 4096"
  shows "view (m\<lparr>ram := put_bytes (of_nat (4096 * F)) bs (ram m)\<rparr>) k w = view m k w"
proof (cases "translate (vmem m) k w")
  case (Some e')
  have k: "w mod 4096 = of_nat (unat (w mod 4096))" "unat (w mod 4096) < 4096" by (simp, rule unat_offset(2))
  have p: "phys_of (vmem m) k w = Some (of_nat (4096 * entry_frame e') + of_nat (unat (w mod 4096)))"
    using Some k(1) by (simp add: phys_of_def del: of_nat_mult)
  show ?thesis using phys_offset(1) [of F "entry_frame e'" "unat (w mod 4096)" 0 "length bs"] assms entry_frame_less k(2) Some
    by (simp add: view_def p put_bytes_def del: of_nat_mult)
qed (simp add: view_def phys_of_def)

section \<open>One page\<close>

text \<open>
  The state while a program is loaded into table \<open>r\<close>, with the kernel's table \<open>k\<close>: the processor uses \<open>r\<close>, no frame that is
  mapped in one of the tables is free, and the frame of a page of the upper half is mapped at this page only.
\<close>

definition private_frames :: "paging \<Rightarrow> nat \<Rightarrow> nat \<Rightarrow> bool" where
  "private_frames vm r k \<longleftrightarrow> (\<forall>w e. translate vm r w = Some e \<and> 256 \<le> VMM_INDEX_PML4 w \<longrightarrow>
     (\<forall>w' e'. translate vm r w' = Some e' \<and> entry_frame e' = entry_frame e \<longrightarrow> same_page64 w w') \<and>
     (\<forall>w' e'. translate vm k w' = Some e' \<longrightarrow> entry_frame e' \<noteq> entry_frame e))"

definition loader_ok :: "'w machine \<Rightarrow> nat \<Rightarrow> nat \<Rightarrow> bool" where
  "loader_ok m r k \<longleftrightarrow> pool_ok64 (vmem m) \<and> pt_tree (vmem m) r \<and> apart (vmem m) r k \<and> private_frames (vmem m) r k \<and> vm_slock (vmem m) = 0 \<and>
     cr3 (vmem m) = table_addr r (vmem m) \<and> phys_slock (frames m) = 0 \<and> 0 \<in> slots (mem_bitmap (frames m)) \<and>
     length (mem_bitmap (frames m)) < 2 ^ 34 \<and> int (length (mem_bitmap (frames m))) < uint (total_blocks (frames m)) \<and>
     (\<forall>w e. translate (vmem m) r w = Some e \<or> translate (vmem m) k w = Some e \<longrightarrow> entry_frame e \<notin> free_slots (mem_bitmap (frames m)))"

text \<open>Page tables and frames for \<open>n\<close> more pages.\<close>

definition room :: "nat \<Rightarrow> 'w machine \<Rightarrow> bool" where
  "room n m \<longleftrightarrow> 3 * n \<le> card (free_slots (pt_bitmap (vmem m))) \<and> n \<le> card (free_slots (mem_bitmap (frames m))) \<and>
     uint (used_blocks (frames m)) + int n \<le> uint (total_blocks (frames m))"

text \<open>What loading leaves alone: the kernel, its mappings and its memory.\<close>

definition keeps :: "nat \<Rightarrow> 'w machine \<Rightarrow> 'w machine \<Rightarrow> bool" where
  "keeps k m m' \<longleftrightarrow> kern m' = kern m \<and> same_vm (vmem m) (vmem m') \<and> phys_intr (frames m') = phys_intr (frames m) \<and>
     (\<forall>w. translate (vmem m') k w = translate (vmem m) k w) \<and> view m' k = view m k"

lemma keeps_refl [simp]: "keeps k m m"
  by (simp add: keeps_def same_vm_def)

lemma keeps_trans: "keeps k m m' \<Longrightarrow> keeps k m' m'' \<Longrightarrow> keeps k m m''"
  by (simp add: keeps_def same_vm_def)

definition load_page :: "byte list \<Rightarrow> u64 \<Rightarrow> (u64 \<Rightarrow> byte option) \<Rightarrow> u64 \<Rightarrow> byte option" where
  "load_page bs v M = (\<lambda>w. if same_page64 v w then Some (bs ! unat (w mod 4096)) else M w)"

text \<open>The table maps no other page to the frame of the entry.\<close>

definition own_frame :: "'w machine \<Rightarrow> nat \<Rightarrow> nat \<Rightarrow> u64 \<Rightarrow> nat \<Rightarrow> bool" where
  "own_frame m r k v F \<longleftrightarrow> (\<forall>w e. translate (vmem m) r w = Some e \<longrightarrow> \<not> same_page64 v w \<longrightarrow> entry_frame e \<noteq> F) \<and>
     (\<forall>w e. translate (vmem m) k w = Some e \<longrightarrow> entry_frame e \<noteq> F)"

lemma private_map:
  assumes "private_frames vm r k" and "own_frame m r k v (entry_frame e)" and "vmem m = vm"
    and "\<forall>w. translate vm' r w = (if same_page64 v w then Some e else translate vm r w)" and "\<forall>w. translate vm' k w = translate vm k w"
  shows "private_frames vm' r k"
  unfolding private_frames_def
proof (intro allI impI; elim conjE)
  fix w d assume w: "translate vm' r w = Some d" "256 \<le> VMM_INDEX_PML4 w"
  show "(\<forall>w' e'. translate vm' r w' = Some e' \<and> entry_frame e' = entry_frame d \<longrightarrow> same_page64 w w') \<and>
     (\<forall>w' e'. translate vm' k w' = Some e' \<longrightarrow> entry_frame e' \<noteq> entry_frame d)"
  proof (cases "same_page64 v w")
    case True
    then have d: "d = e" and s: "same_page64 w w' = same_page64 v w'" for w' using w(1) assms(4) by (simp_all add: same_page64_iff)
    have "same_page64 w w'" if "translate vm' r w' = Some e'" "entry_frame e' = entry_frame d" for w' e'
      using that d s [of w'] assms(2,3,4) unfolding own_frame_def by (cases "same_page64 v w'") auto
    moreover have "entry_frame e' \<noteq> entry_frame d" if "translate vm' k w' = Some e'" for w' e'
      using that d assms(2,3,5) unfolding own_frame_def by simp
    ultimately show ?thesis by blast
  next
    case False
    then have d: "translate vm r w = Some d" "entry_frame d \<noteq> entry_frame e" using w(1) assms(2-4) unfolding own_frame_def by auto
    have "same_page64 w w'" if "translate vm' r w' = Some e'" "entry_frame e' = entry_frame d" for w' e'
      using that d w(2) assms(1,4) unfolding private_frames_def by (cases "same_page64 v w'") auto
    moreover have "entry_frame e' \<noteq> entry_frame d" if "translate vm' k w' = Some e'" for w' e'
      using that d(1) w(2) assms(1,5) unfolding private_frames_def by simp
    ultimately show ?thesis by blast
  qed
qed

lemma map_page:
  assumes ok: "loader_ok m r k" and v: "256 \<le> VMM_INDEX_PML4 v" and room: "missing (vmem m) r v \<le> card (free_slots (pt_bitmap (vmem m)))"
    and f: "f < 2 ^ 40" "f \<notin> free_slots (mem_bitmap (frames m))" and own: "own_frame m r k v f" and fl: "0 \<le> flags" "flags < 4096"
  shows "\<exists>vm. vm_map64 (table_addr r (vmem m)) (of_nat (4096 * f)) v flags (vmem m) = Inr vm \<and> loader_ok (m\<lparr>vmem := vm\<rparr>) r k \<and>
    same_vm (vmem m) vm \<and> card (free_slots (pt_bitmap (vmem m))) \<le> card (free_slots (pt_bitmap vm)) + missing (vmem m) r v \<and>
    (\<forall>w. translate vm k w = translate (vmem m) k w) \<and>
    (\<forall>w. translate vm r w = (if same_page64 v w then Some (of_nat (4096 * f) OR PAGE_PRESENT OR PAGE_WRITE OR word_of_int flags) else translate (vmem m) r w)) \<and>
    entry_frame (of_nat (4096 * f) OR PAGE_PRESENT OR PAGE_WRITE OR word_of_int flags) = f \<and> node vm r (table_path v) \<noteq> None"
proof -
  let ?e = "of_nat (4096 * f) OR PAGE_PRESENT OR PAGE_WRITE OR word_of_int flags"
  have P: "pool_ok64 (vmem m)" "pt_tree (vmem m) r" "vm_slock (vmem m) = 0" "apart (vmem m) r k" using ok by (simp_all add: loader_ok_def)
  obtain vm where vm: "vm_map64 (table_addr r (vmem m)) (of_nat (4096 * f)) v flags (vmem m) = Inr vm" "pool_ok64 vm" "pt_tree vm r" "same_vm (vmem m) vm"
      "\<forall>w. translate vm r w = (if same_page64 v w then Some ?e else translate (vmem m) r w)"
      "card (free_slots (pt_bitmap (vmem m))) \<le> card (free_slots (pt_bitmap vm)) + missing (vmem m) r v" "slots (pt_bitmap (vmem m)) \<subseteq> slots (pt_bitmap vm)"
      "node vm r (table_path v) \<noteq> None"
      "\<forall>u \<in> slots (pt_bitmap (vmem m)). (\<forall>n. node (vmem m) r (take n (table_path v)) \<noteq> Some u) \<longrightarrow> pt_pool vm u = pt_pool (vmem m) u"
      "\<forall>q u. length q \<le> 3 \<longrightarrow> node vm r q = Some u \<longrightarrow> node (vmem m) r q = Some u \<or> u \<in> free_slots (pt_bitmap (vmem m))"
    using vm_map64_spec [OF P(1,2,3) fl room, of "of_nat (4096 * f)"] by blast
  have "pt_base vm = pt_base (vmem m)" using vm(4) by (simp add: same_vm_def)
  note A = apart_map [OF P(4) v this vm(9,7,10)]
  have fw: "unat (PAGE_PRESENT OR PAGE_WRITE OR word_of_int flags) < 4096"
  proof -
    have m12: "x = take_bit 12 x \<longleftrightarrow> unat x < 4096" for x :: u64
      by (simp add: word_unat_eq_iff take_bit_eq_mod unat_mod_distrib) (metis mod_less mod_less_divisor zero_less_numeral)
    have "unat (word_of_int flags :: u64) = nat flags" using fl by (simp add: unsigned_of_int take_bit_int_eq_self)
    then have "(word_of_int flags :: u64) = take_bit 12 (word_of_int flags)" unfolding m12 using fl by simp
    moreover have "PAGE_PRESENT = take_bit 12 PAGE_PRESENT" "PAGE_WRITE = take_bit 12 PAGE_WRITE" by simp_all
    ultimately show ?thesis unfolding m12 [symmetric] take_bit_or by (metis or.assoc)
  qed
  have ef: "entry_frame ?e = f" using entry_frame_of [OF f(1) fw] by (simp only:)
  have pf: "private_frames (vmem m) r k" using ok by (simp add: loader_ok_def)
  have own': "own_frame m r k v (entry_frame ?e)" using own ef by (simp only:)
  have ak: "\<forall>w. translate vm k w = translate (vmem m) k w" using A(2) by blast
  have "private_frames vm r k" by (rule private_map [OF pf own' refl vm(5) ak])
  then have "loader_ok (m\<lparr>vmem := vm\<rparr>) r k"
    using ok vm(2,3,4,5) A f(2) ef by (auto simp: loader_ok_def same_vm_def table_addr_def split: if_splits)
  then show ?thesis using vm A(2) ef by blast
qed

lemma new_page_spec:
  assumes ok: "loader_ok m r k" and rm: "room (Suc n) m" and v: "unat v mod 4096 = 0" "256 \<le> VMM_INDEX_PML4 v"
  shows "\<exists>f m'. new_page (table_addr r (vmem m)) v m = Inr (of_nat (4096 * f), m') \<and> loader_ok m' r k \<and> room n m' \<and> keeps k m m' \<and>
    fsys m' = fsys m \<and> f < 2 ^ 40 \<and> f \<notin> free_slots (mem_bitmap (frames m')) \<and> mapped m' r v (of_nat (4096 * f) OR 7) \<and>
    entry_frame (of_nat (4096 * f) OR 7) = f \<and>
    own_frame m' r k v f \<and> node (vmem m') r (table_path v) \<noteq> None \<and> view m' r = load_page (replicate 4096 0) v (view m r)"
proof -
  let ?ph = "frames m"
  have P: "phys_slock ?ph = 0" "0 \<in> slots (mem_bitmap ?ph)" "length (mem_bitmap ?ph) < 2 ^ 34" "int (length (mem_bitmap ?ph)) < uint (total_blocks ?ph)"
      "cr3 (vmem m) = table_addr r (vmem m)" "pt_tree (vmem m) r" using ok by (simp_all add: loader_ok_def)
  have R: "3 * Suc n \<le> card (free_slots (pt_bitmap (vmem m)))" "Suc n \<le> card (free_slots (mem_bitmap ?ph))"
      "uint (used_blocks ?ph) + int (Suc n) \<le> uint (total_blocks ?ph)" using rm by (simp_all add: room_def)
  have ne: "free_slots (mem_bitmap ?ph) \<noteq> {}" and u: "used_blocks ?ph < total_blocks ?ph" using R(2,3) by (auto simp: word_less_def)
  obtain f bm where f: "physmem_allocblock64 ?ph = Inr (of_nat (f * 4096), ?ph\<lparr>mem_bitmap := bm, used_blocks := used_blocks ?ph + 1\<rparr>)"
      "f \<in> free_slots (mem_bitmap ?ph)" "length bm = length (mem_bitmap ?ph)" "slots bm = insert f (slots (mem_bitmap ?ph))"
    using alloc64_spec [OF P(1) u P(4)] ne by auto
  let ?m1 = "m\<lparr>frames := ?ph\<lparr>mem_bitmap := bm, used_blocks := used_blocks ?ph + 1\<rparr>\<rparr>"
  have fs: "free_slots bm = free_slots (mem_bitmap ?ph) - {f}" using f(3,4) by (auto simp: free_slots_def)
  have "f div 64 < 2 ^ 34" "f \<noteq> 0" using f(2) P(2,3) by (auto simp: free_slots_def intro: gr0I)
  then have f40: "f < 2 ^ 40" and f0: "(of_nat (4096 * f) :: u64) \<noteq> 0"
  proof -
    show f40: "f < 2 ^ 40" using \<open>f div 64 < 2 ^ 34\<close> by (simp add: div_less_iff_less_mult)
    show "(of_nat (4096 * f) :: u64) \<noteq> 0" using unat_frame [OF f40] \<open>f \<noteq> 0\<close> by (metis mult_eq_0_iff unat_0 zero_neq_numeral)
  qed
  have ok1: "loader_ok ?m1 r k" using ok f(3,4) fs by (auto simp: loader_ok_def)
  have used1: "uint (used_blocks ?ph + 1) = uint (used_blocks ?ph) + 1"
    using R(3) uint_lt2p [of "total_blocks ?ph"] by (simp add: uint_word_ariths mod_pos_pos_trivial)
  have t1: "missing (vmem ?m1) r v \<le> card (free_slots (pt_bitmap (vmem ?m1)))" "f \<notin> free_slots (mem_bitmap (frames ?m1))"
    using R(1) fs by (simp_all add: missing_def)
  have flags: "(0 :: int) \<le> 6" "(6 :: int) < 4096" by simp_all
  have old: "entry_frame e \<noteq> f" if "translate (vmem m) r w = Some e \<or> translate (vmem m) k w = Some e" for w e
    using ok f(2) that unfolding loader_ok_def by blast
  then have own1: "own_frame ?m1 r k v f" by (auto simp: own_frame_def)
  obtain vm where vm: "vm_map64 (table_addr r (vmem m)) (of_nat (4096 * f)) v 6 (vmem m) = Inr vm" "loader_ok (?m1\<lparr>vmem := vm\<rparr>) r k"
      "same_vm (vmem m) vm" "card (free_slots (pt_bitmap (vmem m))) \<le> card (free_slots (pt_bitmap vm)) + missing (vmem m) r v"
      "\<forall>w. translate vm k w = translate (vmem m) k w"
      "\<forall>w. translate vm r w = (if same_page64 v w then Some (of_nat (4096 * f) OR PAGE_PRESENT OR PAGE_WRITE OR word_of_int 6) else translate (vmem m) r w)"
      "entry_frame (of_nat (4096 * f) OR PAGE_PRESENT OR PAGE_WRITE OR word_of_int 6) = f" "node vm r (table_path v) \<noteq> None"
    using map_page [OF ok1 v(2) t1(1) f40 t1(2) own1 flags] by auto
  have e7: "(of_nat (4096 * f) OR PAGE_PRESENT OR PAGE_WRITE OR word_of_int 6 :: u64) = of_nat (4096 * f) OR 7"
    by (simp add: or.assoc del: of_nat_mult)
  let ?m2 = "?m1\<lparr>vmem := vm\<rparr>" and ?z = "replicate 4096 0 :: byte list"
  let ?m3 = "?m2\<lparr>ram := put_bytes (of_nat (4096 * f)) ?z (ram m)\<rparr>"
  have r: "r < 1024" using pt_treeD(2) [OF P(6), of "[]"] by simp
  have mp: "mapped ?m2 r v (of_nat (4096 * f) OR 7)" using r v(1) P(5) vm(3,6) e7 by (simp add: mapped_def same_vm_def table_addr_def same_page64_iff del: of_nat_mult)
  have ef: "entry_frame (of_nat (4096 * f) OR 7) = f" using vm(7) e7 by simp
  have own: "own_frame ?m2 r k v f" using old vm(5,6) by (auto simp: own_frame_def split: if_splits)
  have "vstore v ?z ?m2 = Inr ?m3" using vstore_page [OF mp, of 0 ?z] ef by (simp del: of_nat_mult)
  then have "new_page (table_addr r (vmem m)) v m = Inr (of_nat (4096 * f), ?m3)"
    using f(1) f0 vm(1) by (simp add: new_page_def mult.commute [of f] Let_def del: of_nat_mult)
  moreover have v3: "view ?m3 r w = load_page ?z v (view m r) w" for w
  proof -
    have a: "translate (vmem ?m2) r w = Some e' \<Longrightarrow> \<not> same_page64 v w \<Longrightarrow> entry_frame e' \<noteq> entry_frame (of_nat (4096 * f) OR 7)" for w e'
      using own unfolding own_frame_def ef by blast
    have "view ?m3 r w = (if same_page64 v w \<and> unat (w mod 4096) < length ?z then Some (?z ! unat (w mod 4096)) else view ?m2 r w)"
      using view_put [where bs = ?z and w = w and k = 0, OF mp a] ef by (simp del: of_nat_mult)
    moreover have "view ?m2 r w = view m r w" if "\<not> same_page64 v w" using that vm(6) by (simp add: view_def phys_of_def)
    ultimately show ?thesis using unat_offset(2) [of w] by (simp add: load_page_def del:)
  qed
  moreover have "view ?m3 k = view m k"
  proof
    fix w
    have "view ?m3 k w = view ?m2 k w" using view_other [of ?m2 k f ?z w] own f40 by (simp add: own_frame_def del: of_nat_mult)
    then show "view ?m3 k w = view m k w" using vm(5) by (simp add: view_def phys_of_def)
  qed
  then have "keeps k m ?m3" using vm(3,5) by (simp add: keeps_def)
  moreover have "loader_ok ?m3 r k" using vm(2) by (simp add: loader_ok_def)
  moreover have "room n ?m3"
  proof -
    have "Suc (card (free_slots bm)) = card (free_slots (mem_bitmap ?ph))" using card_Suc_Diff1 [OF finite_free_slots f(2)] fs by simp
    moreover have "missing (vmem m) r v \<le> 3" by (simp add: missing_def)
    ultimately show ?thesis using R vm(4) used1 by (simp add: room_def)
  qed
  moreover have "mapped ?m3 r v (of_nat (4096 * f) OR 7)" using mp by (simp add: mapped_def)
  moreover have "own_frame ?m3 r k v f" using own by (simp add: own_frame_def)
  ultimately show ?thesis using f40 fs ef vm(8) v3 by (intro exI [of _ f] exI [of _ ?m3]) (simp add: fun_eq_iff del: of_nat_mult)
qed

lemma missing_0: "node st r (table_path v) \<noteq> None \<Longrightarrow> missing st r v = 0"
  by (auto simp: missing_def table_path_def numeral_eq_Suc split: option.splits)

text \<open>Mapping the page again with other attributes: the entry is the same, because \<open>vm_map\<close> always sets the write bit.\<close>

lemma map_again:
  assumes ok: "loader_ok m r k" and v: "256 \<le> VMM_INDEX_PML4 v" and f: "f < 2 ^ 40" "f \<notin> free_slots (mem_bitmap (frames m))"
    and own: "own_frame m r k v f" and e: "translate (vmem m) r v = Some (of_nat (4096 * f) OR 7)" and n: "node (vmem m) r (table_path v) \<noteq> None"
  shows "\<exists>vm. vm_map64 (table_addr r (vmem m)) (of_nat (4096 * f)) v PAGE_USER (vmem m) = Inr vm \<and> loader_ok (m\<lparr>vmem := vm\<rparr>) r k \<and>
    same_vm (vmem m) vm \<and> card (free_slots (pt_bitmap (vmem m))) \<le> card (free_slots (pt_bitmap vm)) \<and>
    (\<forall>w. translate vm k w = translate (vmem m) k w) \<and> (\<forall>w. translate vm r w = translate (vmem m) r w)"
proof -
  have room: "missing (vmem m) r v \<le> card (free_slots (pt_bitmap (vmem m)))" using missing_0 [OF n] by simp
  have fl: "(0 :: int) \<le> PAGE_USER" "PAGE_USER < 4096" by simp_all
  have e7: "(of_nat (4096 * f) OR PAGE_PRESENT OR PAGE_WRITE OR word_of_int PAGE_USER :: u64) = of_nat (4096 * f) OR 7"
    by (simp add: or.assoc del: of_nat_mult)
  have same: "translate (vmem m) r w = Some (of_nat (4096 * f) OR 7)" if "same_page64 v w" for w
    using translate_same_page [OF that, of "vmem m" r] e by simp
  obtain vm where vm: "vm_map64 (table_addr r (vmem m)) (of_nat (4096 * f)) v PAGE_USER (vmem m) = Inr vm" "loader_ok (m\<lparr>vmem := vm\<rparr>) r k"
      "same_vm (vmem m) vm" "card (free_slots (pt_bitmap (vmem m))) \<le> card (free_slots (pt_bitmap vm)) + missing (vmem m) r v"
      "\<forall>w. translate vm k w = translate (vmem m) k w"
      "\<forall>w. translate vm r w = (if same_page64 v w then Some (of_nat (4096 * f) OR 7) else translate (vmem m) r w)"
    using map_page [OF ok v room f own fl] unfolding e7 by blast
  have "translate vm r w = translate (vmem m) r w" for w using vm(6) same [of w] by (cases "same_page64 v w") simp_all
  then show ?thesis using vm(1-5) missing_0 [OF n] by auto
qed

section \<open>Segments\<close>

lemma c_int_diff: "c_int (uint (a - b :: u64)) = c_int (uint a - uint b)"
proof -
  have "take_bit 32 ((uint a - uint b) mod 2 ^ 64) = take_bit 32 (uint a - uint b)" by (simp add: take_bit_eq_mod mod_mod_cancel)
  then have "(word_of_int (uint (a - b)) :: u32) = word_of_int (uint a - uint b)" unfolding word_of_int_eq_iff uint_word_ariths by simp
  then show ?thesis by (simp only: c_int_def)
qed

lemma c_int_nat: "n < 2 ^ 31 \<Longrightarrow> c_int (int n) = int n"
  by (intro c_int_id) auto

lemma step_word: "(word_of_int (int i * 4096) :: u64) = of_nat (4096 * i)"
  by (simp add: mult.commute)

lemma left_to_read:
  assumes "unat sz < 2 ^ 31" and "4096 * i < 2 ^ 31"
  shows "c_int (uint (sz - word_of_int (int i * 4096) :: u64)) = int (unat sz) - int (4096 * i)"
proof -
  have "unat (of_nat (4096 * i) :: u64) = 4096 * i" using assms(2) by (simp add: unat_of_nat del: of_nat_mult)
  then have "uint (of_nat (4096 * i) :: u64) = int (4096 * i)" by (metis uint_nat)
  moreover have "uint sz = int (unat sz)" by simp
  moreover have "c_int (int x - int y) = int x - int y" if "x < 2 ^ 31" "y < 2 ^ 31" for x y using that by (intro c_int_id) auto
  ultimately show ?thesis unfolding c_int_diff step_word using assms by metis
qed

lemma file_pos:
  assumes "unat loc + 4096 * i < 2 ^ 31"
  shows "c_int (uint (loc + word_of_int (int i * 4096) :: u64)) = int (unat loc + 4096 * i)"
proof -
  have "unat (of_nat (4096 * i) :: u64) = 4096 * i" using assms by (simp add: unat_of_nat del: of_nat_mult)
  then have "unat (loc + of_nat (4096 * i)) = unat loc + 4096 * i" using unat_add_lem [of loc "of_nat (4096 * i)"] assms by simp
  then have "uint (loc + of_nat (4096 * i)) = int (unat loc + 4096 * i)" by (metis uint_nat)
  then show ?thesis unfolding step_word using c_int_nat [OF assms] by (simp only:)
qed

lemma page_aligned: "unat v mod 4096 = 0 \<Longrightarrow> unat (v + word_of_int (int i * 4096) :: u64) mod 4096 = 0"
proof -
  assume v: "unat v mod 4096 = 0"
  have "unat (v + of_nat (4096 * i)) mod 4096 = (unat v + 4096 * i mod 2 ^ 64) mod 4096"
    by (simp add: unat_word_ariths unat_of_nat mod_mod_cancel del: of_nat_mult)
  also have "\<dots> = (unat v mod 4096 + 4096 * i mod 2 ^ 64 mod 4096) mod 4096" by (simp only: mod_add_eq)
  also have "\<dots> = 0" using v by (simp add: mod_mod_cancel)
  finally show ?thesis unfolding step_word .
qed

text \<open>Page \<open>i\<close> of a segment of \<open>sz\<close> bytes at \<open>loc\<close> of the file, filled up with zeros, and the effect of a segment on memory.\<close>

definition page_bytes :: "byte list \<Rightarrow> nat \<Rightarrow> nat \<Rightarrow> nat \<Rightarrow> byte list" where
  "page_bytes C loc sz i = take (min 4096 (sz - 4096 * i)) (drop (loc + 4096 * i) C) @ replicate (4096 - min 4096 (sz - 4096 * i)) 0"

fun load_segment :: "byte list \<Rightarrow> nat \<Rightarrow> nat \<Rightarrow> u64 \<Rightarrow> nat \<Rightarrow> nat \<Rightarrow> (u64 \<Rightarrow> byte option) \<Rightarrow> u64 \<Rightarrow> byte option" where
  "load_segment C loc sz v 0 i M = M"
| "load_segment C loc sz v (Suc n) i M =
     load_segment C loc sz v n (Suc i) (load_page (page_bytes C loc sz i) (v + of_nat (4096 * i)) M)"

text \<open>A segment inside the file, at a page boundary and in the upper half of the address space.\<close>

definition segment_ok :: "byte list \<Rightarrow> u64 \<Rightarrow> u64 \<Rightarrow> u64 \<Rightarrow> nat \<Rightarrow> bool" where
  "segment_ok C loc sz v n \<longleftrightarrow> length C < 2 ^ 31 \<and> unat loc + unat sz \<le> length C \<and> 4096 * n < 2 ^ 31 \<and> unat v mod 4096 = 0 \<and>
     (\<forall>i < n. 256 \<le> VMM_INDEX_PML4 (v + of_nat (4096 * i)))"

locale program_file = file_driver +
  assumes fs_close_law: "okf w fs f \<Longrightarrow> \<exists>ret w'. fs_close g fs f w = Inr (ret, w')"
begin

lemma fill_page_spec:
  assumes at: "at_pos (fsys m) file C pos" and mp: "mapped m r v e" and own: "own_frame m r k v (entry_frame e)"
    and p: "0 < left \<Longrightarrow> c_int (uint q) = int p \<and> p + min 4096 (nat left) \<le> length C"
  shows "\<exists>m' pos'. fill_page g (int file) v q left m = Inr m' \<and> at_pos (fsys m') file C pos' \<and>
    kern m' = kern m \<and> frames m' = frames m \<and> vmem m' = vmem m \<and> view m' k = view m k \<and>
    (\<forall>w. view m' r w = (if same_page64 v w \<and> unat (w mod 4096) < min 4096 (nat left) then Some (C ! (p + unat (w mod 4096))) else view m r w))"
proof (cases "0 < left")
  case True
  define n where "n = min 4096 (nat left)"
  have n: "n \<le> 4096" "min 4096 left = int n" "p + n \<le> length C" "c_int (uint q) = int p" "p \<le> length C" using True p by (auto simp: n_def)
  obtain s1 where s1: "vfs_seek (int file) (int p) (fsys m) = Inr (VFS_OK, s1)" "at_pos s1 file C p" using vfs_seek_seq [OF at n(5)] by blast
  let ?m1 = "m\<lparr>fsys := s1\<rparr>"
  have mp1: "mapped ?m1 r v e" using mp by (simp add: mapped_def)
  obtain buf where buf: "vload v n ?m1 = Inr buf" "length buf = n" using vload_page [OF mp1, of 0 n] n(1) by auto
  let ?bs = "take n (drop p C)"
  have l: "length ?bs = n" "min n (length C - p) = n" using n(3) by simp_all
  obtain s2 where s2: "vfs_read g (int file) buf (int n) s1 = Inr ((int n, ?bs), s2)" "at_pos s2 file C (p + n)"
    using vfs_read_seq [OF s1(2), of n buf] buf(2) l by auto
  let ?m2 = "m\<lparr>fsys := s2\<rparr>" and ?a = "of_nat (4096 * entry_frame e) :: u64"
  let ?m3 = "?m2\<lparr>ram := put_bytes ?a ?bs (ram m)\<rparr>"
  have mp2: "mapped ?m2 r v e" using mp by (simp add: mapped_def)
  have "vstore v ?bs ?m2 = Inr ?m3" using vstore_page [OF mp2, of 0 ?bs] n(1) l(1) by (simp del: of_nat_mult)
  then have "fill_page g (int file) v q left m = Inr ?m3"
    using True n(2,4) s1(1) s2(1) buf(1) by (simp add: fill_page_def Let_def)
  moreover have "view ?m3 r w = (if same_page64 v w \<and> unat (w mod 4096) < n then Some (C ! (p + unat (w mod 4096))) else view m r w)" for w
  proof -
    have a: "translate (vmem ?m2) r w = Some e' \<Longrightarrow> \<not> same_page64 v w \<Longrightarrow> entry_frame e' \<noteq> entry_frame e" for w e'
      using own by (simp add: own_frame_def)
    have "view ?m2 r w = view m r w" by (simp add: view_def)
    then show ?thesis using view_put [where bs = ?bs and w = w and k = 0, OF mp2 a] l(1) n(1,3) by (simp del: of_nat_mult)
  qed
  moreover have "view ?m3 k w = view m k w" for w
  proof -
    have "view ?m2 k w = view m k w" by (simp add: view_def)
    then show ?thesis using view_other [of ?m2 k "entry_frame e" ?bs w] own entry_frame_less n(1) l(1) by (simp add: own_frame_def del: of_nat_mult)
  qed
  ultimately show ?thesis using s2(2) by (intro exI [of _ ?m3] exI [of _ "p + n"]) (simp add: n_def fun_eq_iff del: of_nat_mult)
next
  case False
  then show ?thesis using at by (auto simp: fill_page_def)
qed

lemma load_one:
  assumes ok: "loader_ok m r k" and rm: "room (Suc n) m" and at: "at_pos (fsys m) file C pos" and sg: "segment_ok C loc sz v N" and i: "i < N"
  defines "vp \<equiv> v + word_of_int (int i * 4096)"
  shows "\<exists>f m1 m2 pos'. new_page (table_addr r (vmem m)) vp m = Inr (of_nat (4096 * f), m1) \<and>
    fill_page g (int file) vp (loc + word_of_int (int i * 4096)) (c_int (uint (sz - word_of_int (int i * 4096)))) m1 = Inr m2 \<and>
    loader_ok m2 r k \<and> room n m2 \<and> keeps k m m2 \<and> at_pos (fsys m2) file C pos' \<and> f < 2 ^ 40 \<and> f \<notin> free_slots (mem_bitmap (frames m2)) \<and>
    own_frame m2 r k vp f \<and> translate (vmem m2) r vp = Some (of_nat (4096 * f) OR 7) \<and> node (vmem m2) r (table_path vp) \<noteq> None \<and>
    view m2 r = load_page (page_bytes C (unat loc) (unat sz) i) (v + of_nat (4096 * i)) (view m r)"
proof -
  have S: "length C < 2 ^ 31" "unat loc + unat sz \<le> length C" "4096 * N < 2 ^ 31" "unat v mod 4096 = 0" "256 \<le> VMM_INDEX_PML4 vp"
    using sg i unfolding segment_ok_def vp_def step_word by blast+
  have vp: "unat vp mod 4096 = 0" unfolding vp_def by (rule page_aligned [OF S(4)])
  have b: "unat sz < 2 ^ 31" "4096 * i < 2 ^ 31" using S(1,2,3) i by simp_all
  note L = left_to_read [OF b]
  obtain f m1 where m1: "new_page (table_addr r (vmem m)) vp m = Inr (of_nat (4096 * f), m1)" "loader_ok m1 r k" "room n m1" "keeps k m m1"
      "fsys m1 = fsys m" "f < 2 ^ 40" "f \<notin> free_slots (mem_bitmap (frames m1))" "mapped m1 r vp (of_nat (4096 * f) OR 7)"
      "entry_frame (of_nat (4096 * f) OR 7) = f" "own_frame m1 r k vp f" "node (vmem m1) r (table_path vp) \<noteq> None"
      "view m1 r = load_page (replicate 4096 0) vp (view m r)"
    using new_page_spec [OF ok rm vp S(5)] by blast
  let ?n = "min 4096 (unat sz - 4096 * i)" and ?left = "int (unat sz) - int (4096 * i)"
  have nl: "min 4096 (nat ?left) = ?n" by (simp add: nat_diff_distrib')
  have p: "c_int (uint (loc + word_of_int (int i * 4096))) = int (unat loc + 4096 * i) \<and> unat loc + 4096 * i + min 4096 (nat ?left) \<le> length C"
    if "0 < ?left"
  proof -
    have "4096 * i < unat sz" using that by linarith
    then have "unat loc + 4096 * i < 2 ^ 31" "unat loc + 4096 * i + ?n \<le> length C" using S(1,2) by auto
    then show ?thesis using file_pos nl by simp
  qed
  have at1: "at_pos (fsys m1) file C pos" using at m1(5) by simp
  have own1: "own_frame m1 r k vp (entry_frame (of_nat (4096 * f) OR 7))" using m1(9,10) by simp
  obtain m2 pos' where m2: "fill_page g (int file) vp (loc + word_of_int (int i * 4096)) ?left m1 = Inr m2" "at_pos (fsys m2) file C pos'"
      "kern m2 = kern m1" "frames m2 = frames m1" "vmem m2 = vmem m1" "view m2 k = view m1 k"
      "\<forall>w. view m2 r w = (if same_page64 vp w \<and> unat (w mod 4096) < min 4096 (nat ?left) then Some (C ! (unat loc + 4096 * i + unat (w mod 4096))) else view m1 r w)"
    using fill_page_spec [OF at1 m1(8) own1 p] by blast
  have "view m2 r w = load_page (page_bytes C (unat loc) (unat sz) i) vp (view m r) w" for w
  proof -
    let ?o = "unat (w mod 4096)"
    have o: "?o < 4096" by (rule unat_offset(2))
    have l: "length (take ?n (drop (unat loc + 4096 * i) C)) = ?n" using S(2) by auto
    have "page_bytes C (unat loc) (unat sz) i ! ?o = (if ?o < ?n then C ! (unat loc + 4096 * i + ?o) else 0)"
      using o l S(2) by (auto simp: page_bytes_def nth_append)
    then show ?thesis using m2(7) m1(12) o unfolding nl by (simp add: load_page_def)
  qed
  moreover have "keeps k m m2" using m1(4) m2(3,4,5,6) by (simp add: keeps_def)
  moreover have "loader_ok m2 r k" "room n m2" using m1(2,3) m2(4,5) by (simp_all add: loader_ok_def room_def)
  moreover have "translate (vmem m2) r vp = Some (of_nat (4096 * f) OR 7)" using m1(8) m2(5) by (simp add: mapped_def)
  moreover have "own_frame m2 r k vp f" using m1(10) m2(5) by (simp add: own_frame_def)
  ultimately show ?thesis using m1(1,6,7,11) m2(1,2,4,5) L unfolding vp_def step_word
    by (intro exI [of _ f] exI [of _ m1] exI [of _ m2] exI [of _ pos']) (simp add: fun_eq_iff del: of_nat_mult)
qed

lemma map_rw_spec:
  assumes "loader_ok m r k" and "room (n + x) m" and "at_pos (fsys m) file C pos"
    and "segment_ok C (rw_location elf) (rw_size elf) (rw_vaddr elf) N" and "i + n = N"
  shows "\<exists>m' pos'. map_rw g (int file) n (int i) (table_addr r (vmem m)) elf m = Inr m' \<and> loader_ok m' r k \<and> room x m' \<and> keeps k m m' \<and>
    at_pos (fsys m') file C pos' \<and>
    view m' r = load_segment C (unat (rw_location elf)) (unat (rw_size elf)) (rw_vaddr elf) n i (view m r)"
  using assms
proof (induction n arbitrary: m i pos)
  case (Suc n)
  have rm: "room (Suc (n + x)) m" and i: "i < N" "Suc i + n = N" using Suc.prems by simp_all
  let ?v = "rw_vaddr elf + word_of_int (int i * 4096)"
  obtain f m1 m2 pos' where m2: "new_page (table_addr r (vmem m)) ?v m = Inr (of_nat (4096 * f), m1)"
      "fill_page g (int file) ?v (rw_location elf + word_of_int (int i * 4096)) (c_int (uint (rw_size elf - word_of_int (int i * 4096)))) m1 = Inr m2"
      "loader_ok m2 r k" "room (n + x) m2" "keeps k m m2" "at_pos (fsys m2) file C pos'"
      "view m2 r = load_page (page_bytes C (unat (rw_location elf)) (unat (rw_size elf)) i) (rw_vaddr elf + of_nat (4096 * i)) (view m r)"
    using load_one [OF Suc.prems(1) rm Suc.prems(3,4) i(1)] by blast
  obtain m' pos'' where m': "map_rw g (int file) n (int (Suc i)) (table_addr r (vmem m2)) elf m2 = Inr m'" "loader_ok m' r k" "room x m'" "keeps k m2 m'"
      "at_pos (fsys m') file C pos''"
      "view m' r = load_segment C (unat (rw_location elf)) (unat (rw_size elf)) (rw_vaddr elf) n (Suc i) (view m2 r)"
    using Suc.IH [OF m2(3,4,6) Suc.prems(4) i(2)] by blast
  have a: "table_addr r (vmem m2) = table_addr r (vmem m)" using m2(5) by (simp add: keeps_def same_vm_def table_addr_def)
  have "map_rw g (int file) (Suc n) (int i) (table_addr r (vmem m)) elf m = Inr m'"
    using m2(1,2) m'(1) a by (simp add: Let_def add.commute)
  then show ?case using m'(2-6) m2(7) keeps_trans [OF m2(5) m'(4)] by auto
qed auto

lemma map_ro_spec:
  assumes "loader_ok m r k" and "room (n + x) m" and "at_pos (fsys m) file C pos"
    and "segment_ok C (ro_location elf) (ro_size elf) (ro_vaddr elf) N" and "i + n = N"
  shows "\<exists>m' pos'. map_ro g (int file) n (int i) (table_addr r (vmem m)) elf m = Inr m' \<and> loader_ok m' r k \<and> room x m' \<and> keeps k m m' \<and>
    at_pos (fsys m') file C pos' \<and>
    view m' r = load_segment C (unat (ro_location elf)) (unat (ro_size elf)) (ro_vaddr elf) n i (view m r)"
  using assms
proof (induction n arbitrary: m i pos)
  case (Suc n)
  have rm: "room (Suc (n + x)) m" and i: "i < N" "Suc i + n = N" using Suc.prems by simp_all
  let ?v = "ro_vaddr elf + word_of_int (int i * 4096)"
  obtain f m1 m2 pos' where m2: "new_page (table_addr r (vmem m)) ?v m = Inr (of_nat (4096 * f), m1)"
      "fill_page g (int file) ?v (ro_location elf + word_of_int (int i * 4096)) (c_int (uint (ro_size elf - word_of_int (int i * 4096)))) m1 = Inr m2"
      "loader_ok m2 r k" "room (n + x) m2" "keeps k m m2" "at_pos (fsys m2) file C pos'" "f < 2 ^ 40" "f \<notin> free_slots (mem_bitmap (frames m2))" "own_frame m2 r k ?v f"
      "translate (vmem m2) r ?v = Some (of_nat (4096 * f) OR 7)" "node (vmem m2) r (table_path ?v) \<noteq> None"
      "view m2 r = load_page (page_bytes C (unat (ro_location elf)) (unat (ro_size elf)) i) (ro_vaddr elf + of_nat (4096 * i)) (view m r)"
    using load_one [OF Suc.prems(1) rm Suc.prems(3,4) i(1)] by blast
  have up: "256 \<le> VMM_INDEX_PML4 ?v" using Suc.prems(4) i(1) unfolding segment_ok_def step_word by blast
  have a: "table_addr r (vmem m2) = table_addr r (vmem m)" using m2(5) by (simp add: keeps_def same_vm_def table_addr_def)
  obtain vm where vm: "vm_map64 (table_addr r (vmem m)) (of_nat (4096 * f)) ?v PAGE_USER (vmem m2) = Inr vm" "loader_ok (m2\<lparr>vmem := vm\<rparr>) r k"
      "same_vm (vmem m2) vm" "card (free_slots (pt_bitmap (vmem m2))) \<le> card (free_slots (pt_bitmap vm))"
      "\<forall>w. translate vm k w = translate (vmem m2) k w" "\<forall>w. translate vm r w = translate (vmem m2) r w"
    using map_again [OF m2(3) up m2(7,8,9,10,11)] a by auto
  let ?m3 = "m2\<lparr>vmem := vm\<rparr>"
  have v3: "view ?m3 r = view m2 r" "view ?m3 k = view m2 k" using vm(5,6) by (simp_all add: view_def phys_of_def fun_eq_iff)
  have k3: "keeps k m2 ?m3" using vm(3,5) v3(2) by (simp add: keeps_def)
  have r3: "room (n + x) ?m3" using m2(4) vm(4) by (simp add: room_def)
  have at3: "at_pos (fsys ?m3) file C pos'" using m2(6) by simp
  obtain m' pos'' where m': "map_ro g (int file) n (int (Suc i)) (table_addr r (vmem ?m3)) elf ?m3 = Inr m'" "loader_ok m' r k" "room x m'" "keeps k ?m3 m'"
      "at_pos (fsys m') file C pos''"
      "view m' r = load_segment C (unat (ro_location elf)) (unat (ro_size elf)) (ro_vaddr elf) n (Suc i) (view ?m3 r)"
    using Suc.IH [OF vm(2) r3 at3 Suc.prems(4) i(2)] by blast
  have a3: "table_addr r (vmem ?m3) = table_addr r (vmem m)" using vm(3) a by (simp add: same_vm_def table_addr_def)
  have "map_ro g (int file) (Suc n) (int i) (table_addr r (vmem m)) elf m = Inr m'"
    using m2(1,2) vm(1) m'(1) a3 by (simp add: Let_def add.commute)
  then show ?case using m'(2-6) m2(12) v3(1) keeps_trans [OF m2(5) keeps_trans [OF k3 m'(4)]] by auto
qed auto

end

text \<open>The stack has one page, the last of the address space.\<close>

abbreviation (input) STACK_PAGE :: u64 where "STACK_PAGE \<equiv> 0xFFFFFFFFFFFFF000"

lemma map_stack_spec:
  assumes "loader_ok m r k" and "room (Suc n) m"
  shows "\<exists>m'. map_stack CONFIG_USERLAND_STACK_SIZE 0 (table_addr r (vmem m)) m = Inr m' \<and> loader_ok m' r k \<and> room n m' \<and> keeps k m m' \<and>
    fsys m' = fsys m \<and> view m' r = load_page (replicate 4096 0) STACK_PAGE (view m r)"
proof -
  have v: "unat STACK_PAGE mod 4096 = 0" "256 \<le> VMM_INDEX_PML4 STACK_PAGE" by (simp_all add: VMM_INDEX_PML4_def drop_bit_eq_div)
  have p: "(USERLAND_STACK_TOP AND PAGE_MASK) - word_of_int (0 * 4096) = STACK_PAGE" by simp
  show ?thesis using new_page_spec [OF assms v] by (auto simp: One_nat_def p simp del: of_nat_mult)
qed

section \<open>Switching tables\<close>

lemma set_pagetable_eq:
  assumes "scheduler_current_thread (kern m) cpu = Some t" and "thread_table (kern m) t = Some e" and "b = intr_enabled (kern m) cpu"
  shows "process_set_pagetable cpu p m =
    Inr (m\<lparr>kern := (kern m)\<lparr>kmem := (kmem (kern m))(kcontext e + 24 := p, kcontext e + 32 := p)\<rparr>,
       frames := (frames m)\<lparr>phys_intr := b\<rparr>, vmem := (vmem m)\<lparr>cr3 := p, vm_intr := b\<rparr>\<rparr>)"
  using assms by (simp add: process_set_pagetable_def intr_disable_def intr_set_state_def interrupt_disable_def vmm_setcr3_def
      thread_get_current_thread_entry_def Let_def fun_upd_idem interrupt_defs)

section \<open>The new process\<close>

text \<open>
  The machine before a program is loaded, with table \<open>k\<close> as the kernel's, which uses the lower half of the address space, and
  with page tables and frames for \<open>n\<close> pages.
\<close>

definition ready_to_load :: "'w machine \<Rightarrow> nat \<Rightarrow> nat \<Rightarrow> bool" where
  "ready_to_load m k n \<longleftrightarrow> pool_ok64 (vmem m) \<and> pt_tree (vmem m) k \<and> kernel_pml4 (vmem m) = table_addr k (vmem m) \<and> vm_slock (vmem m) = 0 \<and>
     (\<forall>i. 256 \<le> i \<longrightarrow> sub_table (vmem m) k i = None) \<and> phys_slock (frames m) = 0 \<and> 0 \<in> slots (mem_bitmap (frames m)) \<and>
     length (mem_bitmap (frames m)) < 2 ^ 34 \<and> int (length (mem_bitmap (frames m))) < uint (total_blocks (frames m)) \<and>
     (\<forall>w e. translate (vmem m) k w = Some e \<longrightarrow> entry_frame e \<notin> free_slots (mem_bitmap (frames m))) \<and>
     3 * n < card (free_slots (pt_bitmap (vmem m))) \<and> n \<le> card (free_slots (mem_bitmap (frames m))) \<and>
     uint (used_blocks (frames m)) + int n \<le> uint (total_blocks (frames m))"

lemma create_apart:
  assumes "pool_ok64 st" and k: "pt_tree st k" "kernel_pml4 st = table_addr k st" and up: "\<forall>i. 256 \<le> i \<longrightarrow> sub_table st k i = None"
    and c: "n < card (free_slots (pt_bitmap st))"
  shows "\<exists>r s1. vm_create_pagetable64 asid st = Inr (table_addr r s1, s1) \<and> pool_ok64 s1 \<and> pt_tree s1 r \<and> same_vm st s1 \<and> apart s1 r k \<and>
    n \<le> card (free_slots (pt_bitmap s1)) \<and> (\<forall>w. translate s1 r w = translate st k w \<and> translate s1 k w = translate st k w)"
proof -
  have ne: "free_slots (pt_bitmap st) \<noteq> {}" using c by auto
  obtain r s1 where s1: "vm_create_pagetable64 asid st = Inr (table_addr r s1, s1)" "pool_ok64 s1" "pt_tree s1 r" "same_vm st s1"
      "r \<in> free_slots (pt_bitmap st)" "free_slots (pt_bitmap s1) = free_slots (pt_bitmap st) - {r}"
      "slots (pt_bitmap s1) = insert r (slots (pt_bitmap st))"
      "\<forall>j p. node s1 r (j # p) = (if length p \<le> 2 then node st k (j # p) else node s1 r (j # p))"
      "\<forall>q. length q \<le> 3 \<longrightarrow> node s1 k q = node st k q"
      "\<forall>w. translate s1 r w = translate st k w \<and> translate s1 k w = translate st k w"
    using create_pagetable64_spec [OF assms(1) k ne] by blast
  have ks: "u \<in> slots (pt_bitmap st)" if "length q \<le> 3" "node s1 k q = Some u" for q u using pt_treeD(1) [OF k(1) that(1)] s1(9) that by simp
  have "p \<noteq> [] \<and> hd p < 256" if pq: "length p \<le> 3" "length q \<le> 3" "node s1 r p = Some u" "node s1 k q = Some u" for p q u
  proof (cases p)
    case Nil
    then have "u = r" using pq(3) by simp
    then show ?thesis using ks [OF pq(2,4)] s1(5) by (auto simp: free_slots_def)
  next
    case (Cons j p')
    have "length p' \<le> 2" using pq(1) Cons by simp
    then have "node s1 r (j # p') = node st k (j # p')" using s1(8) by presburger
    then have "node st k (j # p') = Some u" using pq(3) Cons by (simp only:)
    then have "sub_table st k j \<noteq> None" by (cases "sub_table st k j") simp_all
    then have "\<not> 256 \<le> j" using up by metis
    then show ?thesis using Cons by simp
  qed
  then have "apart s1 r k" using ks s1(7) unfolding apart_def by blast
  moreover have "Suc (card (free_slots (pt_bitmap s1))) = card (free_slots (pt_bitmap st))" using card_Suc_Diff1 [OF finite_free_slots s1(5)] s1(6) by simp
  ultimately show ?thesis using s1(1,2,3,4,10) c by (intro exI [of _ r] exI [of _ s1]) simp
qed

lemma view_cong: "pt_base (vmem m') = pt_base (vmem m) \<Longrightarrow> pt_pool (vmem m') = pt_pool (vmem m) \<Longrightarrow> pt_bitmap (vmem m') = pt_bitmap (vmem m) \<Longrightarrow>
    ram m' = ram m \<Longrightarrow> view m' = view m"
  using vm_cong(2) [of "vmem m'" "vmem m"] by (intro ext) (simp only: view_def phys_of_def)

text \<open>The memory image of an executable with content \<open>C\<close> on top of the memory \<open>M\<close>: stack, read-only and writable segment.\<close>

definition segment_pages :: "u64 \<Rightarrow> nat" where
  "segment_pages x = nat (c_int (uint x))"

definition load_image :: "byte list \<Rightarrow> elf_info \<Rightarrow> (u64 \<Rightarrow> byte option) \<Rightarrow> u64 \<Rightarrow> byte option" where
  "load_image C elf M =
     load_segment C (unat (rw_location elf)) (unat (rw_size elf)) (rw_vaddr elf) (segment_pages (rw_pages elf)) 0
       (load_segment C (unat (ro_location elf)) (unat (ro_size elf)) (ro_vaddr elf) (segment_pages (ro_pages elf)) 0
         (load_page (replicate 4096 0) STACK_PAGE M))"

definition image_ok :: "byte list \<Rightarrow> elf_info \<Rightarrow> bool" where
  "image_ok C elf \<longleftrightarrow> segment_ok C (ro_location elf) (ro_size elf) (ro_vaddr elf) (segment_pages (ro_pages elf)) \<and>
     segment_ok C (rw_location elf) (rw_size elf) (rw_vaddr elf) (segment_pages (rw_pages elf))"

definition image_pages :: "elf_info \<Rightarrow> nat" where
  "image_pages elf = Suc (segment_pages (ro_pages elf) + segment_pages (rw_pages elf))"

context program_file
begin

text \<open>The three loops one after the other.\<close>

lemma load_image_spec:
  assumes ok: "loader_ok m r k" and rm: "room (image_pages elf) m" and at: "at_pos (fsys m) file C pos" and im: "image_ok C elf"
  shows "\<exists>m1 m2 m3 pos'. map_stack CONFIG_USERLAND_STACK_SIZE 0 (table_addr r (vmem m)) m = Inr m1 \<and>
    map_ro g (int file) (segment_pages (ro_pages elf)) 0 (table_addr r (vmem m)) elf m1 = Inr m2 \<and>
    map_rw g (int file) (segment_pages (rw_pages elf)) 0 (table_addr r (vmem m)) elf m2 = Inr m3 \<and>
    loader_ok m3 r k \<and> keeps k m m3 \<and> at_pos (fsys m3) file C pos' \<and> view m3 r = load_image C elf (view m r)"
proof -
  obtain m1 where m1: "map_stack CONFIG_USERLAND_STACK_SIZE 0 (table_addr r (vmem m)) m = Inr m1" "loader_ok m1 r k"
      "room (segment_pages (ro_pages elf) + segment_pages (rw_pages elf)) m1" "keeps k m m1" "fsys m1 = fsys m"
      "view m1 r = load_page (replicate 4096 0) STACK_PAGE (view m r)"
    using map_stack_spec [OF ok rm [unfolded image_pages_def]] by blast
  have a: "table_addr r (vmem m') = table_addr r (vmem m)" if "keeps k m m'" for m' using that by (simp add: keeps_def same_vm_def table_addr_def)
  have at1: "at_pos (fsys m1) file C pos" using at m1(5) by simp
  have so: "segment_ok C (ro_location elf) (ro_size elf) (ro_vaddr elf) (segment_pages (ro_pages elf))"
      "segment_ok C (rw_location elf) (rw_size elf) (rw_vaddr elf) (segment_pages (rw_pages elf))" using im by (simp_all add: image_ok_def)
  obtain m2 pos2 where m2: "map_ro g (int file) (segment_pages (ro_pages elf)) (int 0) (table_addr r (vmem m1)) elf m1 = Inr m2" "loader_ok m2 r k"
      "room (segment_pages (rw_pages elf) + 0) m2" "keeps k m1 m2" "at_pos (fsys m2) file C pos2"
      "view m2 r = load_segment C (unat (ro_location elf)) (unat (ro_size elf)) (ro_vaddr elf) (segment_pages (ro_pages elf)) 0 (view m1 r)"
    using map_ro_spec [OF m1(2) _ at1 so(1), of "segment_pages (ro_pages elf)" "segment_pages (rw_pages elf)" 0] m1(3) by auto
  obtain m3 pos3 where m3: "map_rw g (int file) (segment_pages (rw_pages elf)) (int 0) (table_addr r (vmem m2)) elf m2 = Inr m3" "loader_ok m3 r k"
      "keeps k m2 m3" "at_pos (fsys m3) file C pos3"
      "view m3 r = load_segment C (unat (rw_location elf)) (unat (rw_size elf)) (rw_vaddr elf) (segment_pages (rw_pages elf)) 0 (view m2 r)"
    using map_rw_spec [OF m2(2) m2(3) m2(5) so(2), of 0] by auto
  have k2: "keeps k m m2" and k3: "keeps k m m3" using m1(4) m2(4) m3(3) keeps_trans by blast+
  show ?thesis using m1(1) m2(1) m3 k3 a [OF m1(4)] a [OF k2] m1(6) m2(6)
    by (intro exI [of _ m1] exI [of _ m2] exI [of _ m3] exI [of _ pos3]) (simp add: load_image_def)
qed

lemma setup_process_spec:
  assumes rd: "ready_to_load m k (image_pages elf)"
    and th: "scheduler_current_thread (kern m) cpu = Some ct" "thread_table (kern m) ct = Some ce" "thread_table (kern m) thread = Some te"
    and op: "vfs_open g path (fsys m) = Inr (int file, s1)" "at_pos s1 file C 0"
    and hdr: "length hbuf = 64" "length pbuf32 = 32" "length pbuf64 = 56" "length C < 64 \<or> table_pos C \<le> length C"
    and elf: "elf_ref C elf0 = (res, elf)" "0 \<le> res" "VMM_KERNEL_SPACE < entry_point elf" "image_ok C elf"
  defines "old \<equiv> kmem (kern m) (kcontext ce + 32)"
  shows "\<exists>m' r. setup_new_process cpu g hbuf pbuf32 pbuf64 elf0 thread path m = Inr ((0, Some (entry_point elf, USERLAND_STACK_TOP)), m') \<and>
    view m' r = load_image C elf (view m k) \<and> view m' k = view m k \<and> (\<forall>w. translate (vmem m') k w = translate (vmem m) k w) \<and>
    pt_tree (vmem m') r \<and> apart (vmem m') r k \<and> private_frames (vmem m') r k \<and> cr3 (vmem m') = old \<and>
    kern m' = (kern m)\<lparr>thread_table := (thread_table (kern m))(thread \<mapsto> te\<lparr>pagetable := table_addr r (vmem m')\<rparr>),
      kmem := (kmem (kern m))(kcontext ce + 24 := old, kcontext ce + 32 := old,
        kcontext te + 24 := table_addr r (vmem m'), kcontext te + 32 := table_addr r (vmem m'))\<rparr>"
proof -
  let ?k = "kern m" and ?b = "intr_enabled (kern m) cpu"
  obtain s2 pos where s2: "elf_parse_header g hbuf pbuf32 pbuf64 elf0 (int file) s1 = Inr ((res, elf), s2)" "at_pos s2 file C pos"
    using parse_header_eq [OF op(2) hdr] elf(1) by metis
  have R: "pool_ok64 (vmem m)" "pt_tree (vmem m) k" "kernel_pml4 (vmem m) = table_addr k (vmem m)" "\<forall>i. 256 \<le> i \<longrightarrow> sub_table (vmem m) k i = None"
      "3 * image_pages elf < card (free_slots (pt_bitmap (vmem m)))" "vm_slock (vmem m) = 0" using rd unfolding ready_to_load_def by blast+
  obtain r vm where vm: "vm_create_pagetable64 (word_of_int thread) (vmem m) = Inr (table_addr r vm, vm)" "pool_ok64 vm" "pt_tree vm r" "same_vm (vmem m) vm"
      "apart vm r k" "3 * image_pages elf \<le> card (free_slots (pt_bitmap vm))"
      "\<forall>w. translate vm r w = translate (vmem m) k w \<and> translate vm k w = translate (vmem m) k w"
    using create_apart [OF R(1-5)] by blast
  let ?p = "table_addr r vm"
  let ?k1 = "?k\<lparr>intr_enabled := (intr_enabled ?k)(cpu := False), kmem := (kmem ?k)(kcontext ce + 24 := ?p, kcontext ce + 32 := ?p)\<rparr>"
  let ?k2 = "?k1\<lparr>thread_table := (thread_table ?k)(thread \<mapsto> te\<lparr>pagetable := ?p\<rparr>)\<rparr>"
  let ?vm = "vm\<lparr>cr3 := ?p, vm_intr := False\<rparr>"
  let ?m = "m\<lparr>fsys := s2, frames := (frames m)\<lparr>phys_intr := False\<rparr>, vmem := ?vm, kern := ?k2\<rparr>"
  note C = vm_cong [of ?vm vm, simplified]
  have low: "translate vm r w = None" if "256 \<le> VMM_INDEX_PML4 w" for w
    using vm(7) R(4) that by (simp add: translate_def table_path_def)
  then have "private_frames ?vm r k" by (auto simp: private_frames_def C)
  then have ok: "loader_ok ?m r k" using rd vm(2-5,7) by (simp add: loader_ok_def ready_to_load_def same_vm_def C apart_def)
  have rm: "room (image_pages elf) ?m" using rd vm(6) by (simp add: room_def ready_to_load_def)
  have at: "at_pos (fsys ?m) file C pos" using s2(2) by simp
  have a: "table_addr r (vmem ?m) = ?p" by (simp add: C)
  obtain m1 m2 m3 pos' where L: "map_stack CONFIG_USERLAND_STACK_SIZE 0 ?p ?m = Inr m1"
      "map_ro g (int file) (segment_pages (ro_pages elf)) 0 ?p elf m1 = Inr m2" "map_rw g (int file) (segment_pages (rw_pages elf)) 0 ?p elf m2 = Inr m3"
      "loader_ok m3 r k" "keeps k ?m m3" "at_pos (fsys m3) file C pos'" "view m3 r = load_image C elf (view ?m r)"
    using load_image_spec [OF ok rm at elf(4)] unfolding a by blast
  have K: "kern m3 = ?k2" "same_vm ?vm (vmem m3)" "\<forall>w. translate (vmem m3) k w = translate ?vm k w" "view m3 k = view ?m k" "phys_intr (frames m3) = False"
    using L(5) by (simp_all add: keeps_def)
  have pe: "table_addr r (vmem m3) = ?p" using K(2) by (simp add: same_vm_def table_addr_def)
  have vw: "view ?m r = view m k" "view ?m k = view m k" using vm(7) by (simp_all add: view_def phys_of_def C fun_eq_iff)
  obtain ret w where cl: "fs_close g (filesystem (files (fsys m3) ! file)) (fileid (files (fsys m3) ! file)) (world (fsys m3)) = Inr (ret, w)"
    using fs_close_law L(6) unfolding at_pos_def by blast
  obtain s4 where s4: "vfs_close g (int file) (fsys m3) = Inr (ret, s4)" using vfs_close_eq [OF _ _ cl] L(6) unfolding at_pos_def by blast
  have e2: "\<exists>e. thread_table ?k2 ct = Some e \<and> kcontext e = kcontext ce" using th by (cases "ct = thread") auto
  obtain e where e: "thread_table ?k2 ct = Some e" "kcontext e = kcontext ce" using e2 by blast
  let ?m4 = "m3\<lparr>fsys := s4\<rparr>"
  have set1: "process_set_pagetable cpu ?p (m\<lparr>fsys := s2, kern := ?k\<lparr>intr_enabled := (intr_enabled ?k)(cpu := False)\<rparr>,
      frames := (frames m)\<lparr>phys_intr := False\<rparr>, vmem := vm\<lparr>vm_intr := False\<rparr>\<rparr>) = Inr (?m\<lparr>kern := ?k1\<rparr>)"
    using th by (subst set_pagetable_eq [where t = ct and e = ce and b = False]) simp_all
  let ?k5 = "?k2\<lparr>kmem := (kmem ?k)(kcontext ce + 24 := old, kcontext ce + 32 := old)\<rparr>"
  let ?m5 = "?m4\<lparr>kern := ?k5, frames := (frames m3)\<lparr>phys_intr := False\<rparr>, vmem := (vmem m3)\<lparr>cr3 := old, vm_intr := False\<rparr>\<rparr>"
  have upd: "(f(x := p, y := p))(x := q, y := q) = f(x := q, y := q)" for f :: "u64 \<Rightarrow> u64" and x y p q by auto
  have set2: "process_set_pagetable cpu old ?m4 = Inr ?m5"
    using K(1) th(1) e by (subst set_pagetable_eq [where t = ct and e = e and b = False]) (simp_all add: upd)
  let ?k6 = "?k5\<lparr>kmem := (kmem ?k5)(kcontext te + 24 := ?p, kcontext te + 32 := ?p)\<rparr>"
  let ?m6 = "intr_set_state cpu ?b (?m5\<lparr>kern := ?k6\<rparr>)"
  have "setup_new_process cpu g hbuf pbuf32 pbuf64 elf0 thread path m = Inr ((0, Some (entry_point elf, USERLAND_STACK_TOP)), ?m6)"
    using th op(1) s2(1) elf(2,3) vm(1) set1 L(1,2,3) s4 set2
    by (simp add: setup_new_process_def intr_disable_def interrupt_disable_def Let_def segment_pages_def old_def not_le)
  moreover have v6: "view ?m6 = view m3" by (rule view_cong) (simp_all add: intr_set_state_def)
  moreover have t6: "translate (vmem ?m6) = translate (vmem m3)" "pt_tree (vmem ?m6) = pt_tree (vmem m3)" "node (vmem ?m6) = node (vmem m3)"
    "table_addr r (vmem ?m6) = table_addr r (vmem m3)"
    using vm_cong [of "vmem ?m6" "vmem m3"] by (simp_all add: intr_set_state_def)
  moreover have "kern ?m6 = ?k\<lparr>thread_table := (thread_table ?k)(thread \<mapsto> te\<lparr>pagetable := ?p\<rparr>),
      kmem := (kmem ?k)(kcontext ce + 24 := old, kcontext ce + 32 := old, kcontext te + 24 := ?p, kcontext te + 32 := ?p)\<rparr>"
    by (simp add: intr_set_state_def interrupt_defs fun_upd_idem)
  moreover have "apart (vmem ?m6) r k" "private_frames (vmem ?m6) r k" using L(4) t6(1,3) by (simp_all add: loader_ok_def apart_def private_frames_def intr_set_state_def)
  moreover have "cr3 (vmem ?m6) = old" by (simp add: intr_set_state_def)
  ultimately show ?thesis using L(4,7) K(3,4) vw pe vm(7)
    by (intro exI [of _ ?m6] exI [of _ r]) (simp add: loader_ok_def C)
qed

end

section \<open>The first stack frame\<close>

lemma put_bytes_append:
  assumes "length xs + length ys \<le> 4096"
  shows "put_bytes a xs (put_bytes (a + of_nat (length xs)) ys R) = put_bytes a (xs @ ys) R"
proof
  fix p
  show "put_bytes a xs (put_bytes (a + of_nat (length xs)) ys R) p = put_bytes a (xs @ ys) R p"
  proof (cases "unat (p - a) < length xs")
    case False
    have n: "unat (of_nat (length xs) :: u64) = length xs" using assms by (simp add: unat_of_nat)
    then have "(of_nat (length xs) :: u64) \<le> p - a" using False by (simp add: word_le_nat_alt)
    from unat_sub [OF this] have "unat (p - (a + of_nat (length xs))) = unat (p - a) - length xs" using n by (simp add: diff_diff_eq)
    then show ?thesis using False by (auto simp: put_bytes_def nth_append)
  qed (simp add: put_bytes_def nth_append)
qed

lemma length_bytes64 [simp]: "length (bytes64 x) = 8"
  by (simp add: bytes64_def)

definition stack_bytes :: "u64 list \<Rightarrow> byte list" where
  "stack_bytes vs = concat (map bytes64 (rev vs))"

lemma length_stack_bytes [simp]: "length (stack_bytes vs) = 8 * length vs"
  by (induction vs) (simp_all add: stack_bytes_def)

lemma stack_bytes_Cons: "stack_bytes (x # vs) = stack_bytes vs @ bytes64 x"
  by (simp add: stack_bytes_def)

lemma stack_bytes_append: "stack_bytes (xs @ ys) = stack_bytes ys @ stack_bytes xs"
  by (simp add: stack_bytes_def)

lemma push_user_page:
  "mapped m r v e \<Longrightarrow> 8 * length vs \<le> n + 8 \<Longrightarrow> n + 8 \<le> 4096 \<Longrightarrow>
   push_user (v + of_nat n) vs m = Inr (v + of_nat n - of_nat (8 * length vs),
     m\<lparr>ram := put_bytes (of_nat (4096 * entry_frame e) + of_nat (n + 8 - 8 * length vs)) (stack_bytes vs) (ram m)\<rparr>)"
proof (induction vs arbitrary: n m)
  case Nil
  then show ?case by (simp add: stack_bytes_def put_bytes_def)
next
  case (Cons x vs)
  let ?b = "of_nat (4096 * entry_frame e) :: u64"
  let ?m = "m\<lparr>ram := put_bytes (?b + of_nat n) (bytes64 x) (ram m)\<rparr>"
  have st: "vstore (v + of_nat n) (bytes64 x) m = Inr ?m" using vstore_page [OF Cons.prems(1), of n "bytes64 x"] Cons.prems(3) by (simp del: of_nat_mult)
  have mp: "mapped ?m r v e" using Cons.prems(1) by (simp add: mapped_def)
  show ?case
  proof (cases "vs = []")
    case True
    then show ?thesis using st by (simp add: stack_bytes_def del: of_nat_mult)
  next
    case False
    then have n8: "8 \<le> n" using Cons.prems(2) by (cases vs) simp_all
    have d: "v + of_nat n - 8 = v + of_nat (n - 8)" using n8 by (simp add: of_nat_diff)
    have le: "8 * length vs \<le> n - 8 + 8" "n - 8 + 8 \<le> 4096" using Cons.prems(2,3) n8 by simp_all
    let ?c = "?b + of_nat (n - 8 * length vs)"
    have c: "?b + of_nat n = ?c + of_nat (length (stack_bytes vs))" "n - 8 + 8 - 8 * length vs = n - 8 * length vs"
      using Cons.prems(2) n8 by (simp_all add: of_nat_diff del: of_nat_mult)
    have r: "v + of_nat (n - 8) - of_nat (8 * length vs) = v + of_nat n - of_nat (8 * length (x # vs))" using n8 by (simp add: of_nat_diff)
    have "put_bytes ?c (stack_bytes vs) (put_bytes (?b + of_nat n) (bytes64 x) (ram m)) = put_bytes ?c (stack_bytes (x # vs)) (ram m)"
      using put_bytes_append [of "stack_bytes vs" "bytes64 x" ?c "ram m"] Cons.prems(2,3) unfolding c(1) stack_bytes_Cons by simp
    then show ?thesis using st Cons.IH [OF mp le] unfolding c(2) r by (simp add: d del: of_nat_mult)
  qed
qed

text \<open>
  The first frame of a process on its stack, from the lowest address: the registers and what the return from an
  interrupt takes, with the entry point and the stack pointer.
\<close>

definition start_frame :: "u64 \<Rightarrow> byte list" where
  "start_frame entry = stack_bytes ([0, 0x10, 0xFFFFFFFFFFFFFFF0, 0x200202, 0x8, entry] @
     [0, 0, 0, 0, 0, 0, 0, 0, 0, 0, 0xFFFFFFFFFFFFFFC0, 0, 0, 0, 0] @ [0])"

definition with_frame :: "u64 \<Rightarrow> (u64 \<Rightarrow> byte option) \<Rightarrow> u64 \<Rightarrow> byte option" where
  "with_frame entry M w =
     (if same_page64 STACK_PAGE w \<and> 0xF48 \<le> unat (w mod 4096) \<and> unat (w mod 4096) < 0xFF8
      then Some (start_frame entry ! (unat (w mod 4096) - 0xF48)) else M w)"

lemma enter_userland_spec:
  assumes mp: "mapped m r STACK_PAGE e" and own: "\<forall>w e'. translate (vmem m) r w = Some e' \<and> \<not> same_page64 STACK_PAGE w \<longrightarrow> entry_frame e' \<noteq> entry_frame e"
    and cxt: "kmem (kern m) cxt = USERLAND_STACK_TOP" "kmem (kern m) (cxt + 8) = entry"
    and th: "scheduler_current_thread (kern m) cpu = Some t" "thread_table (kern m) t = Some te"
  shows "\<exists>m'. context_enter_userland cpu cxt m = Inr m' \<and> view m' r = with_frame entry (view m r) \<and> vmem m' = vmem m \<and>
    kern m' = (kern m)\<lparr>kmem := (kmem (kern m))(cxt := 0xFFFFFFFFFFFFFF48),
      thread_table := (thread_table (kern m))(t \<mapsto> te\<lparr>user_context := cxt, attribs := attribs te OR 2\<rparr>)\<rparr>"
proof -
  let ?b = "of_nat (4096 * entry_frame e) :: u64"
  let ?v1 = "[0, 0x10, 0xFFFFFFFFFFFFFFF0, 0x200202, 0x8, entry] :: u64 list"
  let ?v2 = "[0, 0, 0, 0, 0, 0, 0, 0, 0, 0, 0xFFFFFFFFFFFFFFC0, 0, 0, 0, 0] :: u64 list"
  let ?m1 = "m\<lparr>ram := put_bytes (?b + of_nat 0xFC8) (stack_bytes ?v1) (ram m)\<rparr>"
  let ?m2 = "m\<lparr>ram := put_bytes (?b + of_nat 0xF50) (stack_bytes ?v2) (ram ?m1)\<rparr>"
  let ?m3 = "m\<lparr>ram := put_bytes (?b + of_nat 0xF48) (bytes64 0) (ram ?m2)\<rparr>"
  have mp1: "mapped ?m1 r STACK_PAGE e" and mp2: "mapped ?m2 r STACK_PAGE e" using mp by (simp_all add: mapped_def)
  have p1: "push_user 0xFFFFFFFFFFFFFFF0 ?v1 m = Inr (0xFFFFFFFFFFFFFFC0, ?m1)"
    using push_user_page [OF mp, of ?v1 "0xFF0"] by (simp del: of_nat_mult)
  have p2: "push_user 0xFFFFFFFFFFFFFFC0 ?v2 ?m1 = Inr (0xFFFFFFFFFFFFFF48, ?m2)"
    using push_user_page [OF mp1, of ?v2 "0xFC0"] by (simp del: of_nat_mult)
  have p3: "vstore 0xFFFFFFFFFFFFFF48 (bytes64 0) ?m2 = Inr ?m3"
    using vstore_page [OF mp2, of "0xF48" "bytes64 0"] by (simp del: of_nat_mult)
  have al: "(if (USERLAND_STACK_TOP - 0x10) AND 0xF \<noteq> 0 then ((USERLAND_STACK_TOP - 0x10) AND 0xFFFFFFFFFFFFFFF0) + 0x10 else USERLAND_STACK_TOP - 0x10)
      = 0xFFFFFFFFFFFFFFF0" by simp
  have ad: "?b + of_nat 0xF50 + of_nat (length (stack_bytes ?v2)) = ?b + of_nat 0xFC8" "?b + of_nat 0xF48 + of_nat (length (bytes64 0)) = ?b + of_nat 0xF50"
    by (simp_all add: add.assoc del: of_nat_mult)
  have a2: "put_bytes (?b + of_nat 0xF50) (stack_bytes ?v2) (put_bytes (?b + of_nat 0xFC8) (stack_bytes ?v1) (ram m)) =
      put_bytes (?b + of_nat 0xF50) (stack_bytes (?v1 @ ?v2)) (ram m)"
    using put_bytes_append [of "stack_bytes ?v2" "stack_bytes ?v1" "?b + of_nat 0xF50" "ram m"] unfolding ad(1) stack_bytes_append by simp
  have a3: "put_bytes (?b + of_nat 0xF48) (bytes64 0) (put_bytes (?b + of_nat 0xF50) (stack_bytes (?v1 @ ?v2)) (ram m)) =
      put_bytes (?b + of_nat 0xF48) (start_frame entry) (ram m)"
    using put_bytes_append [of "bytes64 0" "stack_bytes (?v1 @ ?v2)" "?b + of_nat 0xF48" "ram m"] unfolding ad(2) start_frame_def append_assoc [symmetric] stack_bytes_append [of _ "[0]"]
    by (simp add: stack_bytes_def [of "[0]"])
  have m3: "?m3 = m\<lparr>ram := put_bytes (?b + of_nat 0xF48) (start_frame entry) (ram m)\<rparr>" using a2 a3 by simp
  have l: "length (start_frame entry) = 176" by (simp add: start_frame_def)
  have "view ?m3 r w = (if same_page64 STACK_PAGE w \<and> 0xF48 \<le> unat (w mod 4096) \<and> unat (w mod 4096) < 0xF48 + length (start_frame entry)
      then Some (start_frame entry ! (unat (w mod 4096) - 0xF48)) else view m r w)" for w
    unfolding m3 by (rule view_put [OF mp]) (use own l in auto)
  then have "view ?m3 r w = with_frame entry (view m r) w" for w using l by (simp add: with_frame_def)
  moreover have "context_enter_userland cpu cxt m = Inr (?m3\<lparr>kern := (kern m)\<lparr>kmem := (kmem (kern m))(cxt := 0xFFFFFFFFFFFFFF48),
      thread_table := (thread_table (kern m))(t \<mapsto> te\<lparr>user_context := cxt, attribs := attribs te OR 2\<rparr>)\<rparr>\<rparr>)"
    using p1 p2 p3 th by (simp add: context_enter_userland_def cxt al Let_def del: push_user.simps vstore.simps of_nat_mult)
  moreover have "view (?m3\<lparr>kern := k\<rparr>) r = view ?m3 r" for k by (simp add: view_def fun_eq_iff)
  ultimately show ?thesis by (simp add: fun_eq_iff)
qed

lemma zero_words_other: "(\<And>i. i < n \<Longrightarrow> x \<noteq> a + 8 * of_nat i) \<Longrightarrow> zero_words n a f x = f x"
proof (induction n arbitrary: a f)
  case (Suc n)
  have x: "x \<noteq> a" using Suc.prems [of 0] by simp
  have "x \<noteq> a + 8 + 8 * of_nat i" if "i < n" for i using Suc.prems [of "Suc i"] that by (simp add: algebra_simps)
  then have "zero_words n (a + 8) (f(a := 0)) x = (f(a := 0)) x" by (rule Suc.IH)
  then show ?case using fun_upd_other [OF x] by (simp only: zero_words.simps)
qed simp

lemma load_segment_Some: "M w \<noteq> None \<Longrightarrow> load_segment C loc sz v n i M w \<noteq> None"
  by (induction n arbitrary: i M) (simp_all add: load_page_def)

section \<open>The bytes of a segment\<close>

lemma page_of_segment:
  assumes "unat v mod 4096 = 0"
  shows "unat (v + of_nat (4096 * i) :: u64) div 4096 mod 2 ^ 36 = (unat v div 4096 + i) mod 2 ^ 36"
proof -
  have "unat (v + of_nat (4096 * i)) = (unat v + 4096 * i) mod 2 ^ 64"
    by (simp add: unat_word_ariths unat_of_nat mod_add_right_eq del: of_nat_mult)
  also have "\<dots> = (4096 * (unat v div 4096 + i)) mod (4096 * 2 ^ 52)"
  proof -
    have "unat v = 4096 * (unat v div 4096)" using assms by auto
    then have "unat v + 4096 * i = 4096 * (unat v div 4096 + i)" by (metis distrib_left)
    then show ?thesis by simp
  qed
  also have "\<dots> = 4096 * ((unat v div 4096 + i) mod 2 ^ 52)" by (simp only: mult_mod_right)
  finally show ?thesis by (simp add: mod_mod_cancel)
qed

lemma segment_page_unique:
  assumes "unat v mod 4096 = 0" and "same_page64 (v + of_nat (4096 * i)) (v + of_nat (4096 * j))" and "i < 2 ^ 36" and "j < 2 ^ 36"
  shows "i = j"
proof -
  have "(unat v div 4096 + i) mod 2 ^ 36 = (unat v div 4096 + j) mod 2 ^ 36"
    using assms(2) unfolding same_page_unat page_of_segment [OF assms(1)] .
  moreover have "x = y" if "(a + x) mod n = (a + y) mod n" "x \<le> y" "y < n" for a x y n :: nat
  proof -
    have "n dvd (a + y) - (a + x)" using that by (subst mod_eq_dvd_iff_nat [symmetric]) auto
    then show ?thesis using that(2,3) by (auto dest: dvd_imp_le)
  qed
  ultimately show ?thesis using assms(3,4) by (metis nat_le_linear)
qed

lemma load_segment_skip:
  "(\<And>i'. i \<le> i' \<Longrightarrow> i' < i + n \<Longrightarrow> \<not> same_page64 (v + of_nat (4096 * i')) w) \<Longrightarrow> load_segment C loc sz v n i M w = M w"
proof (induction n arbitrary: i M)
  case (Suc n)
  have "load_segment C loc sz v n (Suc i) (load_page (page_bytes C loc sz i) (v + of_nat (4096 * i)) M) w =
      load_page (page_bytes C loc sz i) (v + of_nat (4096 * i)) M w"
    by (rule Suc.IH) (use Suc.prems in auto)
  then show ?case using Suc.prems [of i] by (simp add: load_page_def del: of_nat_mult)
qed simp

lemma load_segment_page:
  assumes "unat v mod 4096 = 0" and "same_page64 (v + of_nat (4096 * p)) w"
  shows "i \<le> p \<Longrightarrow> p < i + n \<Longrightarrow> i + n < 2 ^ 36 \<Longrightarrow> load_segment C loc sz v n i M w = Some (page_bytes C loc sz p ! unat (w mod 4096))"
proof (induction n arbitrary: i M)
  case (Suc n)
  show ?case
  proof (cases "p = i")
    case True
    have "\<not> same_page64 (v + of_nat (4096 * i')) w" if "Suc i \<le> i'" "i' < Suc i + n" for i'
    proof
      assume "same_page64 (v + of_nat (4096 * i')) w"
      then have "same_page64 (v + of_nat (4096 * i')) (v + of_nat (4096 * p))" using assms(2) by (simp add: same_page64_iff del: of_nat_mult)
      then have "i' = p" using segment_page_unique [OF assms(1)] that True Suc.prems by auto
      then show False using that(1) True by simp
    qed
    then show ?thesis using load_segment_skip [of "Suc i" n v w] assms(2) True by (simp add: load_page_def del: of_nat_mult)
  next
    case False
    then show ?thesis using Suc.IH [of "Suc i"] Suc.prems by (simp del: of_nat_mult)
  qed
qed simp

lemma load_segment_byte:
  assumes sg: "segment_ok C loc sz v n" and j: "j < 4096 * n"
  shows "load_segment C (unat loc) (unat sz) v n 0 M (v + of_nat j) = Some (if j < unat sz then C ! (unat loc + j) else 0)"
proof -
  let ?p = "j div 4096" and ?o = "j mod 4096"
  have S: "unat loc + unat sz \<le> length C" "4096 * n < 2 ^ 31" "unat v mod 4096 = 0" using sg by (simp_all add: segment_ok_def)
  have w: "v + of_nat j = v + of_nat (4096 * ?p) + of_nat ?o"
  proof -
    have "of_nat j = (of_nat (4096 * ?p + ?o) :: u64)" by simp
    then show ?thesis by (simp only: of_nat_add add.assoc)
  qed
  have a: "unat (v + of_nat (4096 * ?p) :: u64) mod 4096 = 0" using page_aligned [OF S(3), of ?p] unfolding step_word .
  have o: "?o < 4096" by simp
  have same: "same_page64 (v + of_nat (4096 * ?p)) (v + of_nat j)" "unat ((v + of_nat j) mod 4096) = ?o"
    unfolding w using page_offset(2,3) [OF a o] o by (simp_all add: unat_of_nat)
  have "?p < 0 + n" using j by (simp add: div_less_iff_less_mult mult.commute)
  then have "load_segment C (unat loc) (unat sz) v n 0 M (v + of_nat j) = Some (page_bytes C (unat loc) (unat sz) ?p ! ?o)"
    using load_segment_page [OF S(3) same(1), of 0 n C "unat loc" "unat sz" M] S(2) same(2) by simp
  moreover have "page_bytes C (unat loc) (unat sz) ?p ! ?o = (if j < unat sz then C ! (unat loc + j) else 0)"
  proof -
    let ?n = "min 4096 (unat sz - 4096 * ?p)"
    have l: "length (take ?n (drop (unat loc + 4096 * ?p) C)) = ?n" using S(1) by auto
    have "?o < ?n \<longleftrightarrow> j < unat sz" "unat loc + 4096 * ?p + ?o = unat loc + j" using mult_div_mod_eq [of 4096 j] o by linarith+
    then show ?thesis using l S(1) o by (auto simp: page_bytes_def nth_append add.commute)
  qed
  ultimately show ?thesis by simp
qed

lemma image_stack: "load_image C elf M STACK_PAGE \<noteq> None"
  unfolding load_image_def by (intro load_segment_Some) (simp add: load_page_def same_page64_iff)

context program_file
begin

lemma process_start_spec:
  assumes rd: "ready_to_load m k (image_pages elf)"
    and th: "scheduler_current_thread (kern m) cpu = Some t" "thread_table (kern m) t = Some te"
    and op: "vfs_open g path (fsys m) = Inr (int file, s1)" "at_pos s1 file C 0"
    and hdr: "length hbuf = 64" "length pbuf32 = 32" "length pbuf64 = 56" "length C < 64 \<or> table_pos C \<le> length C"
    and elf: "elf_ref C elf0 = (res, elf)" "0 \<le> res" "VMM_KERNEL_SPACE < entry_point elf" "image_ok C elf"
    and cxt: "\<And>i. i < 6 \<Longrightarrow> kcontext te + 24 \<noteq> user_cxt + 8 * of_nat i"
  shows "\<exists>m' r. process_start cpu g hbuf pbuf32 pbuf64 elf0 user_cxt path m = Inr (True, m') \<and>
    view m' r = with_frame (entry_point elf) (load_image C elf (view m k)) \<and> cr3 (vmem m') = table_addr r (vmem m') \<and>
    kmem (kern m') user_cxt = 0xFFFFFFFFFFFFFF48 \<and>
    thread_table (kern m') t = Some (te\<lparr>pagetable := table_addr r (vmem m'), user_context := user_cxt, attribs := attribs te OR 2\<rparr>)"
proof -
  obtain m1 r where m1: "setup_new_process cpu g hbuf pbuf32 pbuf64 elf0 t path m = Inr ((0, Some (entry_point elf, USERLAND_STACK_TOP)), m1)"
      "view m1 r = load_image C elf (view m k)" "pt_tree (vmem m1) r" "private_frames (vmem m1) r k"
      "kern m1 = (kern m)\<lparr>thread_table := (thread_table (kern m))(t \<mapsto> te\<lparr>pagetable := table_addr r (vmem m1)\<rparr>),
        kmem := (kmem (kern m))(kcontext te + 24 := kmem (kern m) (kcontext te + 32), kcontext te + 32 := kmem (kern m) (kcontext te + 32),
          kcontext te + 24 := table_addr r (vmem m1), kcontext te + 32 := table_addr r (vmem m1))\<rparr>"
    using setup_process_spec [OF rd th th(2) op hdr elf] by blast
  let ?te = "te\<lparr>pagetable := table_addr r (vmem m1)\<rparr>" and ?p = "table_addr r (vmem m1)"
  let ?mem = "context_set_sp user_cxt USERLAND_STACK_TOP (context_set_ip user_cxt (entry_point elf) (zero_words 6 user_cxt (kmem (kern m1))))"
  let ?m2 = "m1\<lparr>kern := (kern m1)\<lparr>kmem := ?mem\<rparr>, vmem := vmm_setcr3 ?p (vmem m1)\<rparr>"
  have th1: "scheduler_current_thread (kern m1) cpu = Some t" "thread_table (kern m1) t = Some ?te" using th m1(5) by simp_all
  have km: "kmem (kern m1) (kcontext te + 24) = ?p" unfolding m1(5) by simp
  have "?mem (kcontext te + 24) = ?p"
    using zero_words_other [of 6 "kcontext te + 24" user_cxt "kmem (kern m1)"] cxt [of 0] cxt [of 1] cxt km by (simp add: context_set_sp_def context_set_ip_def)
  then have start: "process_start cpu g hbuf pbuf32 pbuf64 elf0 user_cxt path m = rbind (context_enter_userland cpu user_cxt ?m2) (\<lambda>m. Inr (True, m))"
    using th(1) m1(1) th1(2) by (simp add: process_start_def Let_def)
  note C = vm_cong [of "vmem ?m2" "vmem m1", simplified vmm_setcr3_def, simplified]
  have v2: "view ?m2 = view m1" by (rule view_cong) (simp_all add: vmm_setcr3_def)
  obtain e where e: "translate (vmem m1) r STACK_PAGE = Some e"
  proof -
    have "view m1 r STACK_PAGE \<noteq> None" using image_stack [of C elf "view m k"] m1(2) by simp
    then show ?thesis using that by (auto simp: view_def phys_of_def)
  qed
  have r: "r < 1024" using pt_treeD(2) [OF m1(3), of "[]"] by simp
  have mp: "mapped ?m2 r STACK_PAGE e" using e r C(2,5) by (simp add: mapped_def vmm_setcr3_def)
  have own: "entry_frame e' \<noteq> entry_frame e" if "translate (vmem ?m2) r w = Some e'" "\<not> same_page64 STACK_PAGE w" for w e'
  proof -
    have "256 \<le> VMM_INDEX_PML4 STACK_PAGE" by (simp add: VMM_INDEX_PML4_def drop_bit_eq_div)
    moreover have "translate (vmem m1) r w = Some e'" using that(1) C(2) by (simp add: vmm_setcr3_def)
    ultimately show ?thesis using m1(4) e that(2) unfolding private_frames_def by blast
  qed
  have cx: "kmem (kern ?m2) user_cxt = USERLAND_STACK_TOP" "kmem (kern ?m2) (user_cxt + 8) = entry_point elf" by (simp_all add: context_set_sp_def context_set_ip_def)
  have th2: "scheduler_current_thread (kern ?m2) cpu = Some t" "thread_table (kern ?m2) t = Some ?te" using th1 by simp_all
  obtain m' where m': "context_enter_userland cpu user_cxt ?m2 = Inr m'" "view m' r = with_frame (entry_point elf) (view ?m2 r)" "vmem m' = vmem ?m2"
      "kern m' = (kern ?m2)\<lparr>kmem := (kmem (kern ?m2))(user_cxt := 0xFFFFFFFFFFFFFF48),
        thread_table := (thread_table (kern ?m2))(t \<mapsto> ?te\<lparr>user_context := user_cxt, attribs := attribs ?te OR 2\<rparr>)\<rparr>"
    using enter_userland_spec [OF mp _ cx th2] own by blast
  have "table_addr r (vmem m') = ?p" "cr3 (vmem m') = ?p" using m'(3) C(5) by (simp_all add: vmm_setcr3_def)
  then show ?thesis using start m'(1,2,4) v2 m1(2) by (intro exI [of _ m'] exI [of _ r]) simp
qed

end

text \<open>TFS as the file system of executables.\<close>

interpretation tp: program_file "tfs_driver image_gbd en" "\<lambda>w fs. tfs_content en (w fs)" "\<lambda>w fs. tfs_file_ok en (w fs)" for en
  by unfold_locales (simp add: tfs_driver_def on_fs_def tfs_close_def)

end
