(* ===== verification/Memory64_Properties.thy ===== *)
theory Memory64_Properties
  imports Paging
begin

text \<open>
  The theorems about kernel memory on x86_64: frames, page tables and kernel allocation. \<open>ex_vm\<close> is a pool
  of page tables in which table 0 is the empty top table of the kernel, \<open>ex_frames\<close> a memory of 256
  frames of which frame 0 is marked.
\<close>

section \<open>Page tables\<close>

definition ex_vm :: paging where
  "ex_vm = \<lparr>pt_base = 0x400000, pt_pool = (\<lambda>_ _. 0), pt_bitmap = 1 # replicate 15 0, kernel_pml4 = 0x400000, kmalloc_addr = 0x900000,
     vm_slock = 0, vm_intr = True, cr3 = 0x400000\<rparr>"

lemma slots_first: "f \<in> slots (1 # replicate n 0) \<longleftrightarrow> f = 0"
proof -
  have z: "(1 :: u64) AND int_bit (int (f mod 64)) \<noteq> 0 \<longleftrightarrow> f mod 64 = 0" if "f mod 64 < 32"
    using that unfolding and_nonzero by (auto simp: bit_int_bit bit_1_iff)
  show ?thesis
  proof (cases "f div 64 = 0")
    case True
    then show ?thesis using z by (auto simp: slots_def)
  next
    case False
    then show ?thesis by (auto simp: slots_def nth_Cons split: nat.splits)
  qed
qed

lemma free_first: "0 < f \<Longrightarrow> f < 32 \<Longrightarrow> f \<in> free_slots (1 # replicate n 0)"
  by (simp add: free_slots_def slots_first)

lemma ex_vm_ok: "pool_ok64 ex_vm" "pt_tree ex_vm 0" "vm_slock ex_vm = 0" "table_addr 0 ex_vm = 0x400000"
    "translate ex_vm 0 w = None" "sub_table ex_vm t i = None" "4 \<le> card (free_slots (pt_bitmap ex_vm))" "kernel_pml4 ex_vm = 0x400000"
proof -
  have p: "pt_pool ex_vm 0 = (\<lambda>_. 0)" "0 \<in> slots (pt_bitmap ex_vm)" "(0 :: nat) < 1024" by (simp_all add: ex_vm_def slots_first [of _ 15, simplified])
  show "pool_ok64 ex_vm" "vm_slock ex_vm = 0" "table_addr 0 ex_vm = 0x400000" "sub_table ex_vm t i = None" "kernel_pml4 ex_vm = 0x400000"
    by (simp_all add: ex_vm_def pool_ok64_def table_addr_def sub_table_def)
  show "pt_tree ex_vm 0" "translate ex_vm 0 w = None" using empty_tree [OF p] by simp_all
  have "{1 ..< 5} \<subseteq> free_slots (pt_bitmap ex_vm)" using free_first [of _ 15] by (auto simp: ex_vm_def)
  from card_mono [OF finite_free_slots this] show "4 \<le> card (free_slots (pt_bitmap ex_vm))" by simp
qed

text \<open>
  C6. The four levels of tables implement a map from pages to entries: \<open>vm_map\<close> sets the entry of one page,
  whatever tables exist already, and leaves every other page as it was; the tables stay a tree and the
  lock is released.
\<close>

theorem vm_map64_refines:
  assumes "pool_ok64 st" and "pt_tree st r" and "vm_slock st = 0" and "0 \<le> flags" and "flags < 4096"
    and "3 \<le> card (free_slots (pt_bitmap st))"
  shows "\<exists>st'. vm_map64 (table_addr r st) phys v flags st = Inr st' \<and> pool_ok64 st' \<and> pt_tree st' r \<and> vm_slock st' = 0 \<and> vm_intr st' = vm_intr st \<and>
    (\<forall>w. translate st' r w = (if same_page64 v w then Some (phys OR PAGE_PRESENT OR PAGE_WRITE OR word_of_int flags) else translate st r w))"
proof -
  have "missing st r v \<le> card (free_slots (pt_bitmap st))" using assms(6) by (simp add: missing_def)
  from vm_map64_spec [OF assms(1-5) this, of phys] show ?thesis using assms(3) unfolding same_vm_def by auto
qed

theorem vm_map64_refines_witness:
  "\<exists>st'. vm_map64 0x400000 0x7000 0xFFFF800000001000 4 ex_vm = Inr st' \<and> translate st' 0 0xFFFF800000001234 = Some 0x7007 \<and>
     translate st' 0 0x1000 = None"
proof -
  have "same_page64 0xFFFF800000001000 0xFFFF800000001234" "\<not> same_page64 0xFFFF800000001000 0x1000"
    unfolding same_page64_iff by simp_all
  moreover have "(0x7000 :: u64) OR PAGE_PRESENT OR PAGE_WRITE OR word_of_int 4 = 0x7007" by simp
  ultimately show ?thesis using vm_map64_refines [OF ex_vm_ok(1,2,3), of 4 "0x7000" "0xFFFF800000001000"] ex_vm_ok(4,5,7) by auto
qed

text \<open>
  C7. A new process starts with the mappings of the kernel, and mapping a page of its own, at an address whose
  top entry the kernel does not use, adds this page to its table only: no translation of the kernel changes.
\<close>

theorem process_table_isolated:
  assumes "pool_ok64 st" and "pt_tree st k" and "kernel_pml4 st = table_addr k st" and "vm_slock st = 0"
    and "4 \<le> card (free_slots (pt_bitmap st))" and "sub_table st k (VMM_INDEX_PML4 v) = None" and "0 \<le> flags" and "flags < 4096"
  shows "\<exists>r s1 s2. vm_create_pagetable64 asid st = Inr (table_addr r s1, s1) \<and> (\<forall>w. translate s1 r w = translate st k w) \<and>
    vm_map64 (table_addr r s1) phys v flags s1 = Inr s2 \<and> (\<forall>w. translate s2 k w = translate st k w) \<and>
    (\<forall>w. translate s2 r w = (if same_page64 v w then Some (phys OR PAGE_PRESENT OR PAGE_WRITE OR word_of_int flags) else translate st k w))"
proof -
  have ne: "free_slots (pt_bitmap st) \<noteq> {}" using assms(5) by auto
  obtain r s1 where s1: "vm_create_pagetable64 asid st = Inr (table_addr r s1, s1)" "pool_ok64 s1" "pt_tree s1 r" "same_vm st s1"
      "r \<in> free_slots (pt_bitmap st)" "free_slots (pt_bitmap s1) = free_slots (pt_bitmap st) - {r}"
      "slots (pt_bitmap s1) = insert r (slots (pt_bitmap st))"
      "\<forall>j p. node s1 r (j # p) = (if length p \<le> 2 then node st k (j # p) else node s1 r (j # p))"
      "\<forall>q. length q \<le> 3 \<longrightarrow> node s1 k q = node st k q"
      "\<forall>w. translate s1 r w = translate st k w \<and> translate s1 k w = translate st k w"
    using create_pagetable64_spec [OF assms(1,2,3) ne] by blast
  have lock: "vm_slock s1 = 0" using s1(4) assms(4) by (simp add: same_vm_def)
  have "Suc (card (free_slots (pt_bitmap s1))) = card (free_slots (pt_bitmap st))"
    using card_Suc_Diff1 [OF finite_free_slots s1(5)] s1(6) by simp
  then have room: "missing s1 r v \<le> card (free_slots (pt_bitmap s1))" using assms(5) by (simp add: missing_def)
  obtain s2 where s2: "vm_map64 (table_addr r s1) phys v flags s1 = Inr s2" "same_vm s1 s2"
      "\<forall>w. translate s2 r w = (if same_page64 v w then Some (phys OR PAGE_PRESENT OR PAGE_WRITE OR word_of_int flags) else translate s1 r w)"
      "\<forall>u \<in> slots (pt_bitmap s1). (\<forall>n. node s1 r (take n (table_path v)) \<noteq> Some u) \<longrightarrow> pt_pool s2 u = pt_pool s1 u"
    using vm_map64_spec [OF s1(2,3) lock assms(7,8) room, of phys] by blast
  have pool: "pt_pool s2 u = pt_pool s1 u" if q: "length q \<le> 3" "node s1 k q = Some u" for q u
  proof -
    have u: "u \<in> slots (pt_bitmap st)" using pt_treeD(1) [OF assms(2) q(1)] q s1(9) by simp
    then have "u \<noteq> r" using s1(5) by (auto simp: free_slots_def)
    moreover have "node s1 r (take n (table_path v)) = None" if "0 < n" for n
    proof -
      let ?p = "take (n - 1) [VMM_INDEX_PDP v, VMM_INDEX_PDIR v]"
      have "take n (table_path v) = VMM_INDEX_PML4 v # ?p" using that by (cases n) (simp_all add: table_path_def)
      moreover have "length ?p \<le> 2" by simp
      then have "node s1 r (VMM_INDEX_PML4 v # ?p) = node st k (VMM_INDEX_PML4 v # ?p)" using s1(8) by presburger
      ultimately show ?thesis using assms(6) by simp
    qed
    ultimately have "node s1 r (take n (table_path v)) \<noteq> Some u" for n by (cases "n = 0") auto
    then show ?thesis using s2(4) u s1(7) by blast
  qed
  have "pt_base s2 = pt_base s1" using s2(2) by (simp add: same_vm_def)
  then have "translate s2 k w = translate st k w" for w using translate_frame(2) [OF _ pool] s1(10) by simp
  then show ?thesis using s1(1,10) s2(1,3) by (intro exI [of _ r] exI [of _ s1] exI [of _ s2]) simp
qed

theorem process_table_isolated_witness:
  "\<exists>r s1 s2. vm_create_pagetable64 5 ex_vm = Inr (table_addr r s1, s1) \<and>
    vm_map64 (table_addr r s1) 0x7000 0xFFFF800000001000 4 s1 = Inr s2 \<and>
    translate s2 0 0xFFFF800000001000 = None \<and> translate s2 r 0xFFFF800000001000 = Some 0x7007"
proof -
  have "(0x7000 :: u64) OR PAGE_PRESENT OR PAGE_WRITE OR word_of_int 4 = 0x7007" "kernel_pml4 ex_vm = table_addr 0 ex_vm"
    "same_page64 0xFFFF800000001000 0xFFFF800000001000" using ex_vm_ok(4,8) by (simp_all add: same_page64_iff)
  then show ?thesis using process_table_isolated [OF ex_vm_ok(1,2) _ ex_vm_ok(3,7,6), of 4 5 "0x7000" "0xFFFF800000001000"] ex_vm_ok(5)
    by fastforce
qed

text \<open>
  C37. The pool has 1024 tables and only half of them are ever used, because the mask of a table is computed in
  32 bits: a new table is a free one in the lower half of its group of 64, and with 512 tables in use
  the kernel panics.
\<close>

theorem pagetable_pool_half:
  assumes "pool_ok64 st"
  shows "case vmm_new_pagetable st of
      Inr (a, st') \<Rightarrow> \<exists>t < 1024. a = table_addr t st \<and> t mod 64 < 32 \<and> t \<notin> slots (pt_bitmap st) \<and> slots (pt_bitmap st') = insert t (slots (pt_bitmap st))
    | Inl e \<Rightarrow> e = Panic \<and> card (slots (pt_bitmap st)) = 512"
proof (cases "free_slots (pt_bitmap st) = {}")
  case True
  have l: "length (pt_bitmap st) = 16" using assms by (simp add: pool_ok64_def)
  have all: "{f. f < 1024 \<and> f mod 64 < 32} = slots (pt_bitmap st)"
    using True l by (auto simp: free_slots_def slots_def div_less_iff_less_mult)
  have "vmm_new_pagetable st = Inl Panic" using new_table_loop_full [OF l True, of 1024 0] by (simp add: vmm_new_pagetable_def)
  then show ?thesis using card_half all by simp
next
  case False
  obtain f bm where f: "vmm_new_pagetable st = Inr (table_addr f st, st\<lparr>pt_bitmap := bm\<rparr>)" "f \<in> free_slots (pt_bitmap st)" "f < 1024"
      "slots bm = insert f (slots (pt_bitmap st))"
    using new_pagetable_spec [OF assms False] by blast
  then show ?thesis by (auto simp: free_slots_def intro!: exI [of _ f])
qed

theorem pagetable_pool_half_witness: "\<exists>t < 1024. t mod 64 < 32 \<and> fst (projr (vmm_new_pagetable ex_vm)) = table_addr t ex_vm"
proof -
  have "free_slots (pt_bitmap ex_vm) \<noteq> {}" using ex_vm_ok(7) by auto
  then obtain a st' where "vmm_new_pagetable ex_vm = Inr (a, st')" using new_pagetable_spec [OF ex_vm_ok(1)] by blast
  then show ?thesis using pagetable_pool_half [OF ex_vm_ok(1)] by auto
qed

lemma page_number: "i < 2 ^ 36 \<Longrightarrow> take_bit 36 (drop_bit 12 (of_nat (4096 * i) :: u64)) = of_nat i"
proof -
  assume i: "i < 2 ^ 36"
  then have "unat (of_nat (4096 * i) :: u64) = 4096 * i" "unat (of_nat i :: u64) = i" by (simp_all add: unat_of_nat del: of_nat_mult)
  then have "unat (take_bit 36 (drop_bit 12 (of_nat (4096 * i) :: u64))) = unat (of_nat i :: u64)"
    using i by (simp add: take_bit_eq_mod drop_bit_eq_div unat_mod_distrib unat_div_distrib del: of_nat_mult)
  then show ?thesis by (simp only: word_unat_eq_iff)
qed

lemma page_unique:
  assumes "same_page64 (of_nat (4096 * i)) w" and "same_page64 (of_nat (4096 * j)) w" and "i < 2 ^ 36" and "j < 2 ^ 36"
  shows "i = j"
proof -
  have "(of_nat i :: u64) = of_nat j" using assms unfolding same_page64_iff by (simp add: page_number del: of_nat_mult)
  then have "unat (of_nat i :: u64) = unat (of_nat j :: u64)" by simp
  then show ?thesis using assms(3,4) by (simp add: unat_of_nat)
qed

text \<open>
  \<open>vm_init\<close> sets up a kernel table that maps every page from page 1 to the end of the static memory to itself,
  present and writable, and no other page; page 0 is not mapped. The processor uses this table.
\<close>

lemma vm_init64_identity:
  assumes "pool_ok64 st" and "x = unat (kernel_ends ph) + unat (stalloced ph)" and "0 < x" and "x \<le> 2 ^ 29" and "N = (x + 4095) div 4096"
  shows "\<exists>st' r. vm_init64 ph st = Inr st' \<and> pt_tree st' r \<and> cr3 st' = table_addr r st' \<and> kernel_pml4 st' = table_addr r st' \<and>
    kmalloc_addr st' = of_nat (4096 * N) \<and>
    (\<forall>i w. 1 \<le> i \<and> i < N \<and> same_page64 (of_nat (4096 * i)) w \<longrightarrow> translate st' r w = Some (of_nat (4096 * i) OR PAGE_PRESENT OR PAGE_WRITE)) \<and>
    (\<forall>w. (\<forall>i. 1 \<le> i \<and> i < N \<longrightarrow> \<not> same_page64 (of_nat (4096 * i)) w) \<longrightarrow> translate st' r w = None)"
proof -
  let ?f = "\<lambda>w. find (\<lambda>i. same_page64 (of_nat (4096 * i)) w) (rev [1..<N])"
  obtain st' r where st: "vm_init64 ph st = Inr st'" "pt_tree st' r" "cr3 st' = table_addr r st'" "kernel_pml4 st' = table_addr r st'"
      "kmalloc_addr st' = of_nat (4096 * N)"
      "\<forall>w. translate st' r w = (case ?f w of Some i \<Rightarrow> Some (of_nat (4096 * i) OR PAGE_PRESENT OR PAGE_WRITE) | None \<Rightarrow> None)"
    using vm_init64_spec [OF assms(1-4)] assms(5) by blast
  have "N \<le> (2 ^ 29 + 4095) div 4096" unfolding assms(5) by (rule div_le_mono) (use assms(4) in simp)
  then have N: "i < 2 ^ 36" if "i < N" for i using that by simp
  have some: "?f w = Some i" if "1 \<le> i" "i < N" "same_page64 (of_nat (4096 * i)) w" for i w
  proof (cases "?f w")
    case None
    then show ?thesis using that by (auto simp: find_None_iff)
  next
    case (Some j)
    then have "same_page64 (of_nat (4096 * j)) w" "j < N" by (auto simp: find_Some_iff) (metis atLeastLessThan_iff nth_mem set_rev set_upt length_rev length_upt)
    then show ?thesis using Some page_unique that N by blast
  qed
  have none: "?f w = None" if "\<forall>i. 1 \<le> i \<and> i < N \<longrightarrow> \<not> same_page64 (of_nat (4096 * i)) w" for w
    using that by (auto simp: find_None_iff)
  have "translate st' r w = Some (of_nat (4096 * i) OR PAGE_PRESENT OR PAGE_WRITE)" if "1 \<le> i" "i < N" "same_page64 (of_nat (4096 * i)) w" for i w
    using st(6) some [OF that] by (simp only: option.case)
  moreover have "translate st' r w = None" if "\<forall>i. 1 \<le> i \<and> i < N \<longrightarrow> \<not> same_page64 (of_nat (4096 * i)) w" for w
    using st(6) none [OF that] by (simp only: option.case)
  ultimately show ?thesis using st(1-5) by blast
qed

definition ex_frames :: phys64 where
  "ex_frames = \<lparr>mem_bitmap = 1 # replicate 3 0, total_blocks = 256, used_blocks = 1, highest_page = 0xFF000, phys_slock = 0,
     phys_intr = True, free_start = 0xffffffff, stalloced = 0x1800, kernel_ends = 0x1000\<rparr>"

section \<open>Frames\<close>

lemma ex_frames_ok: "pool64_ok {} ex_frames" "free_slots (mem_bitmap ex_frames) \<noteq> {}" "1 \<in> free_slots (mem_bitmap ex_frames)"
    "\<forall>g \<in> free_slots (mem_bitmap ex_frames). 1 \<le> g"
proof -
  note F = slots_first [of _ 3, simplified]
  show one: "1 \<in> free_slots (mem_bitmap ex_frames)" by (simp add: ex_frames_def free_slots_def F)
  then show "free_slots (mem_bitmap ex_frames) \<noteq> {}" by auto
  have "0 \<in> slots (mem_bitmap ex_frames)" by (simp add: ex_frames_def F)
  then show "\<forall>g \<in> free_slots (mem_bitmap ex_frames). 1 \<le> g" by (auto simp: free_slots_def Suc_le_eq intro: gr0I)
  show "pool64_ok {} ex_frames" by (simp add: pool64_ok_def ex_frames_def F)
qed

text \<open>
  C26. However frames are allocated and freed, \<open>physmem_allocblock\<close> returns the address of a frame that is not
  handed out already and never frame 0, as long as one is free; freeing a frame that was handed out succeeds.
\<close>

theorem physmem64_fresh:
  assumes "pool64_run A st" and "used_blocks st < total_blocks st" and "free_slots (mem_bitmap st) \<noteq> {}"
  shows "\<exists>f st'. physmem_allocblock64 st = Inr (of_nat (f * 4096), st') \<and> f \<notin> A \<and> f \<noteq> 0 \<and> f mod 64 < 32 \<and>
    pool64_run (insert f A) st' \<and>
    (\<forall>g \<in> insert f A. \<exists>st''. physmem_freeblock64 (of_nat (g * 4096)) st' = Inr st'' \<and> pool64_run (insert f A - {g}) st'')"
proof -
  note ok = pool64_run_ok [OF assms(1)]
  obtain a st' where a: "physmem_allocblock64 st = Inr (a, st')"
    using alloc64_spec [of st] assms(2,3) ok by (auto simp: pool64_ok_def)
  obtain f where f: "a = of_nat (f * 4096)" "unat (a div 4096) = f" "f \<in> free_slots (mem_bitmap st)" "f \<noteq> 0" "f \<notin> A"
    using alloc64_ok [OF ok a] by blast
  have run: "pool64_run (insert f A) st'" using pool64_alloc [OF assms(1) a] f(2) by simp
  have "\<exists>st''. physmem_freeblock64 (of_nat (g * 4096)) st' = Inr st'' \<and> pool64_run (insert f A - {g}) st''" if "g \<in> insert f A" for g
    using free64_ok [OF pool64_run_ok [OF run] that] pool64_free [OF run that] by blast
  moreover have "f mod 64 < 32" using f(3) by (simp add: free_slots_def)
  ultimately show ?thesis using a f run by blast
qed

theorem physmem64_fresh_witness: "\<exists>f st'. physmem_allocblock64 ex_frames = Inr (of_nat (f * 4096), st') \<and> f \<noteq> 0 \<and> pool64_run {f} st'"
proof -
  have "used_blocks ex_frames < total_blocks ex_frames" by (simp add: ex_frames_def)
  then show ?thesis using physmem64_fresh [OF pool64_start [OF ex_frames_ok(1)] _ ex_frames_ok(2)] by blast
qed

text \<open>
  Whatever the memory map says, half of the frames start out free: the bitmap is filled with bytes \<open>0x0F\<close> and
  not \<open>0xFF\<close>, so a frame whose bit is in the upper half of its byte can be allocated even where the map
  has reserved memory or no memory at all.
\<close>

lemma reserved_frames_free:
  assumes "free_regions regions (st\<lparr>mem_bitmap := replicate n 0x0F0F0F0F0F0F0F0F\<rparr>) = Inr st'"
    and "f div 64 < n" and "f mod 64 < 31" and "4 \<le> f mod 8"
  shows "f \<in> free_slots (mem_bitmap st')"
proof -
  have "f \<noteq> 0" using assms(4) by auto
  moreover have "f \<notin> slots (replicate n 0x0F0F0F0F0F0F0F0F)" using initial_bitmap_slots [of f n] assms(3,4) by auto
  ultimately show ?thesis using free_regions_slots [OF assms(1)] assms(2,3) by (auto simp: free_slots_def)
qed

text \<open>
  \<open>kmalloc\<close> does not mark the frames it takes and uses the number of the frame as its address: two requests of
  at most a page each return two different pages that are mapped to the same physical address.
\<close>

lemma kmalloc_aliases:
  assumes "pool_ok64 st" and "pt_tree st k" and "vm_slock st = 0" and "kernel_pml4 st = table_addr k st" and "6 \<le> card (free_slots (pt_bitmap st))"
    and "0 < unat s1" and "unat s1 \<le> 4096" and "0 < unat s2" and "unat s2 \<le> 4096" and a: "unat (kmalloc_addr st) + 8192 \<le> 0x7FFFFFFFFFFF"
    and ph: "int (length (mem_bitmap ph)) < uint (total_blocks ph)" and f: "f \<in> free_slots (mem_bitmap ph)" "\<forall>g \<in> free_slots (mem_bitmap ph). f \<le> g"
  shows "\<exists>t u. kmalloc s1 ph st = Inr (kmalloc_addr st, t) \<and> kmalloc s2 ph t = Inr (kmalloc_addr st + 4096, u) \<and>
    \<not> same_page64 (kmalloc_addr st) (kmalloc_addr st + 4096) \<and> translate u k (kmalloc_addr st) = Some (of_nat f OR PAGE_PRESENT OR PAGE_WRITE) \<and>
    translate u k (kmalloc_addr st + 4096) = Some (of_nat f OR PAGE_PRESENT OR PAGE_WRITE)"
proof -
  let ?a = "kmalloc_addr st" and ?e = "of_nat f OR PAGE_PRESENT OR PAGE_WRITE"
  have u: "unat (?a + 4096) = unat ?a + 4096" using a unat_add_lem [of ?a 4096] by simp
  have c: "3 \<le> card (free_slots (pt_bitmap st))" "unat ?a + 4096 \<le> 0x7FFFFFFFFFFF" "unat (?a + 4096) + 4096 \<le> 0x7FFFFFFFFFFF"
    using assms(5) a u by simp_all
  obtain t where t: "kmalloc s1 ph st = Inr (?a, t)" "pool_ok64 t" "pt_tree t k" "vm_slock t = 0" "kernel_pml4 t = table_addr k t"
      "card (free_slots (pt_bitmap st)) \<le> card (free_slots (pt_bitmap t)) + 3" "kmalloc_addr t = ?a + 4096"
      "\<forall>w. translate t k w = (if same_page64 ?a w then Some ?e else translate st k w)"
    using kmalloc_page [OF assms(1-4) c(1) assms(6,7) c(2) ph f] by blast
  have c2: "3 \<le> card (free_slots (pt_bitmap t))" "unat (kmalloc_addr t) + 4096 \<le> 0x7FFFFFFFFFFF" using t(6,7) assms(5) c(3) by simp_all
  obtain v where v: "kmalloc s2 ph t = Inr (kmalloc_addr t, v)"
      "\<forall>w. translate v k w = (if same_page64 (kmalloc_addr t) w then Some ?e else translate t k w)"
    using kmalloc_page [OF t(2,3,4,5) c2(1) assms(8,9) c2(2) ph f] by blast
  have "\<not> same_page64 ?a (?a + 4096)"
  proof
    assume "same_page64 ?a (?a + 4096)"
    then have "unat (take_bit 36 (drop_bit 12 ?a)) = unat (take_bit 36 (drop_bit 12 (?a + 4096)))" by (simp only: same_page64_iff)
    then have "unat ?a div 4096 mod 2 ^ 36 = (unat ?a + 4096) div 4096 mod 2 ^ 36"
      using u by (simp add: take_bit_eq_mod drop_bit_eq_div unat_mod_distrib unat_div_distrib)
    moreover have "(unat ?a + 4096) div 4096 < 2 ^ 36" using a by (simp add: div_less_iff_less_mult)
    ultimately show False by simp
  qed
  then show ?thesis using t(1,7,8) v by (intro exI [of _ t] exI [of _ v]) (auto simp: same_page64_iff)
qed

end
