(* ===== verification/Process_Properties.thy ===== *)
theory Process_Properties
  imports Process Storage_Properties Memory64_Properties Kernel_Properties
begin

text \<open>
  The theorems about loading and starting programs. \<open>ex_elf\<close> is an executable of one program header for a
  read-only segment, the file \<^verbatim>\<open>[disk]init\<close> of a TFS volume on which \<^verbatim>\<open>[disk]bad\<close> is empty; \<open>ex_machine\<close> is a machine that can start it.
\<close>

section \<open>ELF headers\<close>

definition ex_elf :: "byte list" where
  "ex_elf = [0x7f, 0x45, 0x4c, 0x46, 2] @ replicate 11 0 @ [2, 0] @ replicate 6 0 @ [0, 0x10, 0, 0, 0, 0x80, 0, 0] @
     [64, 0, 0, 0, 0, 0, 0, 0] @ replicate 16 0 @ [1, 0] @ replicate 6 0 @
     [1, 0, 0, 0, 5, 0, 0, 0] @ [120, 0, 0, 0, 0, 0, 0, 0] @ [0, 0x10, 0, 0, 0, 0x80, 0, 0] @ replicate 8 0 @
     [10, 0, 0, 0, 0, 0, 0, 0] @ [1, 16, 0, 0, 0, 0, 0, 0] @ replicate 8 0 @
     [0xb8, 1, 0, 0, 0, 0xcd, 0x80, 0xeb, 0xfe, 0x90]"

definition ex_elf_directory :: "byte list" where
  "ex_elf_directory = bytes32 Big 3 @ [105, 110, 105, 116] @ replicate 12 0 @ bytes32 Big 5 @ [98, 97, 100] @ replicate 485 0"

definition ex_elf_image :: image where
  "ex_elf_image = replicate 1024 0 @ ex_elf_directory @ (bytes32 Big 130 @ bytes32 Big 4 @ replicate 504 0) @ ex_elf @ replicate 382 0 @ replicate 512 0"

definition ex_elf_vfs :: "(int \<Rightarrow> image tfs) vfs" where
  "ex_elf_vfs = \<lparr>filesystems = \<lparr>mounted = 1, mountpoint = [100, 105, 115, 107] @ replicate 12 0\<rparr> #
       replicate 7 \<lparr>mounted = 0, mountpoint = replicate 16 0\<rparr>,
     files = \<lparr>filesystem = 1, fileid = 3, seek_position = 0\<rparr> #
       replicate 511 \<lparr>filesystem = 0, fileid = 0, seek_position = 0\<rparr>,
     vsem = (\<lambda>x. if x = Vfs_unmount_sem then 0 else 1), vfs_ops = 0, vfs_usable = True,
     world = (\<lambda>_. ex_tfs\<lparr>disk := ex_elf_image\<rparr>)\<rparr>"

lemma ex_elf_length: "length ex_elf = 130"
  by (simp add: ex_elf_def)

lemma ex_elf_blocks:
  "image_block ex_elf_image 2 = ex_elf_directory" "image_block ex_elf_image 3 = bytes32 Big 130 @ bytes32 Big 4 @ replicate 504 0"
  "image_block ex_elf_image 4 = ex_elf @ replicate 382 0" "image_block ex_elf_image 5 = replicate 512 0" "length ex_elf_image = 3072"
  by (simp_all add: image_block_def ex_elf_image_def ex_elf_length ex_elf_directory_def)

lemma ex_elf_inode:
  "file_size en (bytes32 Big 130 @ bytes32 Big 4 @ replicate 504 0) = 130"
  "file_block en 0 (bytes32 Big 130 @ bytes32 Big 4 @ replicate 504 0) 0 = 4"
  by (simp_all add: file_size_def file_block_def from_big_endian32_word32)

lemma ex_elf_file:
  "tfs_file_ok en (world ex_elf_vfs fs) 3" "tfs_content en (world ex_elf_vfs fs) 3 = ex_elf"
  by (simp_all add: ex_elf_vfs_def ex_tfs_def tfs_file_ok_def tfs_content_def tfs_inode_def ex_elf_blocks image_valid_def
      num_blocks_def lessThan_Suc ex_elf_inode file_ok_def file_content_def file_data_def ex_elf_length)

lemma ex_elf_ready: "vfs_ready ex_elf_vfs" "open_file ex_elf_vfs 0" "seek_position (files ex_elf_vfs ! 0) = 0"
  "fileid (files ex_elf_vfs ! 0) = 3"
  by (simp_all add: vfs_ready_def ex_elf_vfs_def open_file_def)






text \<open>
  An executable whose program header table lies inside the file and has at most one writable and
  one read-only segment to load is accepted, and the information is exactly that of these segments;
  with a second segment of a kind it is rejected.
\<close>

lemma elf_parse_segments:
  assumes "vfs_ready s" and "open_file s file" and "e = files s ! file" and "st = world s (filesystem e)"
    and "tfs_file_ok Little st (fileid e)" and "seek_position e = 0" and "C = tfs_content Little st (fileid e)"
    and "length hbuf = 64" and "length pbuf32 = 32" and "length pbuf64 = 56"
    and "64 \<le> length C" and "take 4 C = [0x7f, 0x45, 0x4c, 0x46]" and "e_type C = ET_EXEC" and "0 < table_length C"
    and "table_pos C + table_length C * (if uses64 C then 56 else 32) \<le> length C"
    and "hs = (if uses64 C then phdrs 56 phdr64 else phdrs 32 phdr32) C (table_pos C) (table_length C)"
  shows "\<exists>r elf' s'. elf_parse_header (tfs_driver image_gbd Little) hbuf pbuf32 pbuf64 elf (int file) s = Inr ((r, elf'), s') \<and>
    (if one_each False False hs
     then r = (if \<exists>h \<in> set hs. p_type h = PT_LOAD then 1 else 0) \<and> elf' = set_ro hs (set_rw hs (start_info C))
     else r = - 7 \<or> r = - 8)"
proof -
  have at: "tf.at_pos Little s file C 0" using assms(1-7) by (simp add: tf.at_pos_def)
  have pos: "length C < 64 \<or> table_pos C \<le> length C" using assms(15) by simp
  obtain s' where s': "elf_parse_header (tfs_driver image_gbd Little) hbuf pbuf32 pbuf64 elf (int file) s = Inr (elf_ref C elf, s')"
    using tf.parse_header_eq [OF at assms(8-10) pos] by blast
  have rs: "(if uses64 C then read_segments 56 phdr64 else read_segments 32 phdr32) C (table_pos C) (table_length C) 0 (start_info C) =
      segments hs (seg_bits False False) (start_info C)"
    using assms(15,16) by (cases "uses64 C") (simp_all add: seg_bits_def read_segments_eq)
  have ref: "elf_ref C elf = (case segments hs (seg_bits False False) (start_info C) of
      (Inl e, elf) \<Rightarrow> (e, elf) | (Inr segs, elf) \<Rightarrow> (if segs > 0 then 1 else 0, elf))"
    using assms(11-14) unfolding elf_ref_def rs by simp
  have load: "(\<exists>h \<in> set hs. p_type h = PT_LOAD) \<longleftrightarrow> (\<exists>h \<in> set hs. is_ro h) \<or> (\<exists>h \<in> set hs. is_rw h)"
    by (auto simp: is_ro_def is_rw_def)
  show ?thesis
  proof (cases "one_each False False hs")
    case True
    then show ?thesis using s' ref segments_eq [OF True, of "start_info C"] load by (auto simp: seg_bits_def)
  next
    case False
    then show ?thesis using s' ref segments_duplicate [OF False, of "start_info C"]
      by (cases "segments hs (seg_bits False False) (start_info C)") auto
  qed
qed

section \<open>Starting a program\<close>


text \<open>The program of \<open>ex_elf\<close>, before it is open, and a machine.\<close>

definition ex_machine :: "(int \<Rightarrow> image tfs) machine" where
  "ex_machine = \<lparr>kern = ex_state, frames = ex_frames, vmem = ex_vm, ram = (\<lambda>_. 0xAA),
     fsys = ex_elf_vfs\<lparr>files := replicate 512 \<lparr>filesystem = 0, fileid = 0, seek_position = 0\<rparr>\<rparr>\<rparr>"


definition ex_opened :: "int \<Rightarrow> (int \<Rightarrow> image tfs) vfs" where
  "ex_opened fid = ex_elf_vfs\<lparr>world := (world ex_elf_vfs)(1 := (world ex_elf_vfs 1)\<lparr>buffer_md := ex_elf_directory\<rparr>),
     files := \<lparr>filesystem = 1, fileid = fid, seek_position = 0\<rparr> # replicate 511 \<lparr>filesystem = 0, fileid = 0, seek_position = 0\<rparr>\<rparr>"

lemma ex_open_file:
  assumes p: "vfs_parse_pathname path = Inr (Some ([100, 105, 115, 107, 0], name))"
    and d: "md_find TFS_MAX_FILES 0 ex_elf_directory name = Inr (Some i)" "md_inode Little ex_elf_directory i = Inr w"
    and fid: "fid = sint (from_big_endian32 Little w)" "0 \<le> fid"
  shows "vfs_open (tfs_driver image_gbd Little) path (fsys ex_machine) = Inr (0, ex_opened fid)"
proof -
  let ?s = "fsys ex_machine"
  have f: "find_row (filesystems ex_elf_vfs) [100, 105, 115, 107, 0] 0 = Inr (Some 0)" unfolding ex_elf_vfs_def by code_simp
  have "gbd_read_block image_gbd ex_elf_image 2 = (Some ex_elf_directory, ex_elf_image)"
    using read_block_valid [of "replicate 512 0" ex_elf_image 2] by (simp add: image_gbd_def image_valid_def ex_elf_blocks)
  then have o: "on_fs (tfs_open image_gbd Little name) 1 (world ex_elf_vfs) = Inr (fid, world (ex_opened fid))" using d fid(1)
    by (simp add: on_fs_def tfs_open_def sem_P_def sem_V_ret_def on_disk_ok_def read_to_def put_md_def ex_elf_vfs_def ex_tfs_def ex_opened_def)
  have v: "vsem ex_elf_vfs Vfs_op_sem = 1" "vsem ex_elf_vfs Vfs_table_sem = 1" "vsem ex_elf_vfs Openfile_table_sem = 1"
    "vfs_ops ex_elf_vfs = 0" "vfs_usable ex_elf_vfs" "mounted (filesystems ex_elf_vfs ! 0) = 1" by (simp_all add: ex_elf_vfs_def)
  have r: "replicate 512 x = x # replicate 511 x" for x :: openfile_entry by (simp add: numeral_eq_Suc)
  have "ex_elf_vfs\<lparr>world := world (ex_opened fid), files := \<lparr>filesystem = 1, fileid = fid, seek_position = 0\<rparr> #
        replicate 511 \<lparr>filesystem = 0, fileid = 0, seek_position = 0\<rparr>, vfs_ops := 0,
      vsem := (vsem ex_elf_vfs)(Openfile_table_sem := 1, Vfs_table_sem := 1, Vfs_op_sem := 1)\<rparr> = ex_opened fid"
    by (simp add: ex_opened_def ex_elf_vfs_def fun_eq_iff)
  then show ?thesis
    using p f o v fid(2)
    by (simp add: vfs_open_def in_op_def end_op_def vfs_start_op_def vfs_end_op_def call_fs_def set_file_def lget_def lset_def vfs_P_def vfs_V_def
      tfs_driver_def vfs_get_filesystem_def free_file_def ex_machine_def r)
qed


lemma ex_opened_ok: "vfs_ready (ex_opened fid)" "open_file (ex_opened fid) 0" "seek_position (files (ex_opened fid) ! 0) = 0"
    "fileid (files (ex_opened fid) ! 0) = fid"
    "tfs_file_ok Little (world (ex_opened fid) fs) 3" "tfs_content Little (world (ex_opened fid) fs) 3 = ex_elf"
  using ex_elf_ready ex_elf_file [of Little]
  by (simp_all add: ex_opened_def vfs_ready_def open_file_def tfs_file_ok_def tfs_content_def tfs_inode_def)

lemma ex_current: "scheduler_current_thread (kern ex_machine) 0 = Some 1" "thread_table (kern ex_machine) 1 = Some (ex_entry THREAD_RUNNING 0)"
  by (simp_all add: ex_machine_def)







text \<open>
  C38. An executable that the parser rejects, or whose entry point is in kernel space, is refused before anything
  is allocated: only the file system changes. The file stays open, an entry of the table of open files is lost with
  every attempt.
\<close>

theorem process_refused:
  assumes "scheduler_current_thread (kern m) cpu = Some ct" and "thread_table (kern m) ct = Some ce" and "thread_table (kern m) thread = Some te"
    and "vfs_open (tfs_driver image_gbd Little) path (fsys m) = Inr (int file, s)"
    and "vfs_ready s" and "open_file s file" and "e = files s ! file" and "st = world s (filesystem e)"
    and "tfs_file_ok Little st (fileid e)" and "seek_position e = 0" and "C = tfs_content Little st (fileid e)"
    and "length hbuf = 64" and "length pbuf32 = 32" and "length pbuf64 = 56" and "length C < 64 \<or> table_pos C \<le> length C"
    and "elf_ref C elf0 = (res, elf)" and "res < 0 \<or> entry_point elf \<le> VMM_KERNEL_SPACE"
  shows "\<exists>s'. setup_new_process cpu (tfs_driver image_gbd Little) hbuf pbuf32 pbuf64 elf0 thread path m = Inr ((- 1, None), m\<lparr>fsys := s'\<rparr>) \<and>
    open_file s' file"
proof -
  have at: "tf.at_pos Little s file C 0" using assms(5-11) by (simp add: tf.at_pos_def)
  obtain s' pos where s': "elf_parse_header (tfs_driver image_gbd Little) hbuf pbuf32 pbuf64 elf0 (int file) s = Inr ((res, elf), s')"
      "tf.at_pos Little s' file C pos"
    using tf.parse_header_eq [OF at assms(12-15)] assms(16) by metis
  then show ?thesis using assms(1-4,17) by (auto simp: setup_new_process_def Let_def tf.at_pos_def)
qed

theorem process_refused_witness:
  "\<exists>s'. setup_new_process 0 (tfs_driver image_gbd Little) (replicate 64 0) (replicate 32 0) (replicate 56 0) elf_zero 1
      [91, 100, 105, 115, 107, 93, 98, 97, 100, 0] ex_machine = Inr ((- 1, None), ex_machine\<lparr>fsys := s'\<rparr>) \<and> open_file s' 0"
proof -
  have o: "vfs_open (tfs_driver image_gbd Little) [91, 100, 105, 115, 107, 93, 98, 97, 100, 0] (fsys ex_machine) = Inr (int 0, ex_opened 5)"
  proof -
    have d: "vfs_parse_pathname [91, 100, 105, 115, 107, 93, 98, 97, 100, 0] = Inr (Some ([100, 105, 115, 107, 0], [98, 97, 100, 0]))"
      "md_find TFS_MAX_FILES 0 ex_elf_directory [98, 97, 100, 0] = Inr (Some 1)"
      "md_inode Little ex_elf_directory 1 = Inr 0x5000000" "5 = sint (from_big_endian32 Little 0x5000000)" by code_simp+
    from ex_open_file [OF d] show ?thesis by simp
  qed
  have f: "file_size Little (replicate 512 0) = 0" by code_simp
  have t: "tfs_file_ok Little (world (ex_opened 5) fs) 5" "tfs_content Little (world (ex_opened 5) fs) 5 = []" for fs
    by (simp_all add: ex_opened_def ex_elf_vfs_def ex_tfs_def tfs_file_ok_def tfs_content_def tfs_inode_def ex_elf_blocks image_valid_def
        num_blocks_def f file_ok_def file_content_def)
  have "fst (elf_ref [] elf_zero) = - 1" by code_simp
  then obtain elf where "elf_ref [] elf_zero = (- 1, elf)" by (metis prod.collapse)
  then show ?thesis
    using process_refused [OF ex_current ex_current(2) o ex_opened_ok(1,2) refl refl, of "[]" "replicate 64 0" "replicate 32 0" "replicate 56 0" elf_zero "- 1" elf]
      ex_opened_ok(3,4) t by simp
qed

end
