(* ===== verification/Xprintf.thy ===== *)
theory Xprintf
  imports Libc
begin

text \<open>
  Formatted output: \<^verbatim>\<open>src/kudos/lib/xprintf.c\<close>, and the copy of it in \<^verbatim>\<open>src/userland/lib.c\<close>. The two differ in the size of the digit
  buffer, in the width of the integers and in the modifier \<open>L\<close>, which are the fields of the record \<open>pcfg\<close>. A call is related to the
  text that it stands for (\<open>render\<close>): the text cut to the size, or the whole text on the terminal.
\<close>

section \<open>Output\<close>

text \<open>
  The target of a call: the array of \<open>snprintf\<close>, or what has been given to \<^verbatim>\<open>polltty_putchar\<close> (to \<open>putc\<close> in user programs), and the
  lock of the terminal.
\<close>

record sink =
  buffer :: "byte list"
  tty :: "byte list"
  kprintf_slock :: int
  con_intr :: bool

record pcfg =
  rev_size :: nat
  arg_bits :: nat
  long_mod :: bool

abbreviation (input) FLAG_TTY :: int where "FLAG_TTY \<equiv> 0x8000"
abbreviation (input) FLAG_SMALLS :: int where "FLAG_SMALLS \<equiv> 0x01"
abbreviation (input) FLAG_ALT :: int where "FLAG_ALT \<equiv> 0x02"
abbreviation (input) FLAG_ZEROPAD :: int where "FLAG_ZEROPAD \<equiv> 0x04"
abbreviation (input) FLAG_LEFT :: int where "FLAG_LEFT \<equiv> 0x08"
abbreviation (input) FLAG_SPACE :: int where "FLAG_SPACE \<equiv> 0x10"
abbreviation (input) FLAG_SIGN :: int where "FLAG_SIGN \<equiv> 0x20"

definition printc :: "int \<Rightarrow> byte \<Rightarrow> int \<Rightarrow> sink \<Rightarrow> sink res" where
  "printc buf c flags st =
     (if flags AND FLAG_TTY \<noteq> 0 then Inr (if c \<noteq> 0 then st\<lparr>tty := tty st @ [c]\<rparr> else st)
      else rbind (lset (buffer st) buf c) (\<lambda>b. Inr (st\<lparr>buffer := b\<rparr>)))"

section \<open>Numbers\<close>

definition digits :: "byte list" where
  "digits = [48, 49, 50, 51, 52, 53, 54, 55, 56, 57, 65, 66, 67, 68, 69, 70,
     48, 49, 50, 51, 52, 53, 54, 55, 56, 57, 97, 98, 99, 100, 101, 102]"

text \<open>The digits in reverse order; the first argument is the room left in the array \<open>rev\<close>.\<close>

fun rev_digits :: "nat \<Rightarrow> nat \<Rightarrow> nat \<Rightarrow> int \<Rightarrow> byte list res" where
  "rev_digits 0 n base flags = Inl OutOfBounds"
| "rev_digits (Suc room) n base flags =
     rbind (lget digits ((if flags AND FLAG_SMALLS \<noteq> 0 then 16 else 0) + int (n mod base))) (\<lambda>d.
     if n div base \<noteq> 0 then rbind (rev_digits room (n div base) base flags) (\<lambda>ds. Inr (d # ds)) else Inr [d])"

fun put_chars :: "byte list \<Rightarrow> int \<Rightarrow> int \<Rightarrow> int \<Rightarrow> int \<Rightarrow> sink \<Rightarrow> (int \<times> sink) res" where
  "put_chars [] buf written sz flags st = Inr (written, st)"
| "put_chars (c # cs) buf written sz flags st =
     (if written < sz
      then rbind (printc buf c flags st) (\<lambda>st. put_chars cs (buf + 1) (written + 1) sz flags st)
      else Inr (written, st))"

definition print_uint :: "pcfg \<Rightarrow> int \<Rightarrow> int \<Rightarrow> nat \<Rightarrow> nat \<Rightarrow> int \<Rightarrow> int \<Rightarrow> int \<Rightarrow> sink \<Rightarrow> (int \<times> sink) res" where
  "print_uint cfg buf sz n base flags prec width st =
     (if sz \<le> 0 then Inr (0, st) else
      rbind (rev_digits (rev_size cfg) n base flags) (\<lambda>ds.
      let prec = min prec (int (rev_size cfg)); width = min width (int (rev_size cfg));
          ds = ds @ replicate (nat prec - length ds) 48;
          ds = ds @ replicate (nat width - length ds) 32 in
      put_chars (rev ds) buf 0 sz flags st))"

section \<open>The format\<close>

text \<open>Only the digits 1 to 8 are accepted.\<close>

fun scan_int :: "int \<Rightarrow> byte list \<Rightarrow> (int \<times> byte list) res" where
  "scan_int value [] = Inl OutOfBounds"
| "scan_int value (c # s) =
     (if c > 48 \<and> c < 57 then scan_int (c_int (10 * value + (uint c - 48))) s else Inr (value, c # s))"

text \<open>
  The loop over flags, width and precision. A width starts with the character just read, so the digit 9 is read
  again and again: the number of rounds is bounded by the first argument.
\<close>

fun scan_mods :: "nat \<Rightarrow> byte \<Rightarrow> byte list \<Rightarrow> int \<Rightarrow> int \<Rightarrow> int \<Rightarrow> (byte \<times> byte list \<times> int \<times> int \<times> int) res" where
  "scan_mods 0 ch fmt flags width prec = Inl Diverges"
| "scan_mods (Suc n) ch fmt flags width prec =
     (let more = (\<lambda>fmt flags width prec. case fmt of [] \<Rightarrow> Inl OutOfBounds
        | ch # fmt \<Rightarrow> if ch \<noteq> 0 then scan_mods n ch fmt flags width prec else Inr (ch, fmt, flags, width, prec)) in
      if ch = 35 then more fmt (flags OR FLAG_ALT) width prec
      else if ch = 48 then more fmt (flags OR FLAG_ZEROPAD) width prec
      else if ch = 32 then more fmt (flags OR FLAG_SPACE) width prec
      else if ch = 43 then more fmt (flags OR FLAG_SIGN) width prec
      else if ch = 45 then more fmt (flags OR FLAG_LEFT) width prec
      else if ch = 46 then rbind (scan_int 0 fmt) (\<lambda>(prec, fmt). more fmt flags width prec)
      else if 49 \<le> ch \<and> ch \<le> 57 then rbind (scan_int 0 (ch # fmt)) (\<lambda>(width, fmt). more fmt flags width prec)
      else Inr (ch, fmt, flags, width, prec))"

text \<open>The variable arguments; an argument that is missing or of the wrong kind is not defined.\<close>

datatype va = Va_word u64 | Va_str "byte list"

fun va_word :: "va list \<Rightarrow> (u64 \<times> va list) res" where
  "va_word (Va_word x # ap) = Inr (x, ap)"
| "va_word _ = Inl OutOfBounds"

fun va_str :: "va list \<Rightarrow> (byte list \<times> va list) res" where
  "va_str (Va_str s # ap) = Inr (s, ap)"
| "va_str _ = Inl OutOfBounds"

text \<open>An unsigned argument, with the rest of the format: \<open>L\<close> after the type makes it a 64-bit one.\<close>

definition va_unsigned :: "pcfg \<Rightarrow> byte list \<Rightarrow> byte list \<Rightarrow> va list \<Rightarrow> (nat \<times> byte list \<times> va list) res" where
  "va_unsigned cfg p fmt ap =
     (if long_mod cfg then
        rbind (lget p 0) (\<lambda>c.
        rbind (va_word ap) (\<lambda>(x, ap).
        if c = 76 \<or> c = 108 then Inr (unat x, drop 1 fmt, ap) else Inr (unat (ucast x :: u32), fmt, ap)))
      else rbind (va_word ap) (\<lambda>(x, ap). Inr (unat (ucast x :: u32), fmt, ap)))"

fun put_string :: "byte list \<Rightarrow> int \<Rightarrow> int \<Rightarrow> int \<Rightarrow> sink \<Rightarrow> (int \<times> sink) res" where
  "put_string [] written w flags st = (if written < w then Inl OutOfBounds else Inr (written, st))"
| "put_string (c # s) written w flags st =
     (if written < w \<and> c \<noteq> 0
      then rbind (printc written c flags st) (\<lambda>st. put_string s (written + 1) w flags st)
      else Inr (written, st))"

text \<open>
  The conversion \<open>ch\<close>; \<open>p\<close> is the format after the first character of the field. The pointer \<^verbatim>\<open>buf\<close> is always \<open>written\<close>
  characters from the start of the array.
\<close>

definition print_field ::
  "pcfg \<Rightarrow> byte \<Rightarrow> byte list \<Rightarrow> byte list \<Rightarrow> va list \<Rightarrow> int \<Rightarrow> int \<Rightarrow> int \<Rightarrow> int \<Rightarrow> int \<Rightarrow> sink \<Rightarrow> (byte list \<times> va list \<times> int \<times> int \<times> sink) res" where
  "print_field cfg ch p fmt ap written sz flags width prec st =
     (if ch = 105 \<or> ch = 100 then
        rbind (va_word ap) (\<lambda>(x, ap).
        let arg = sint (ucast x :: u32) in
        rbind (if arg < 0 then rbind (printc written 45 flags st) (\<lambda>st. Inr (- arg, written + 1, st))
               else Inr (arg, written, st)) (\<lambda>(arg, written, st).
        rbind (if flags AND FLAG_SIGN \<noteq> 0 then rbind (printc written 43 flags st) (\<lambda>st. Inr (written + 1, st))
               else if flags AND FLAG_SPACE \<noteq> 0 then rbind (printc written 32 flags st) (\<lambda>st. Inr (written + 1, st))
               else Inr (written, st)) (\<lambda>(written, st).
        rbind (print_uint cfg written (sz - written) (nat (arg mod 2 ^ arg_bits cfg)) 10 flags 0 0 st) (\<lambda>(w, st).
        Inr (fmt, ap, written + w, flags, st)))))
      else if ch = 111 then
        (let prec = (if prec < width \<and> flags AND FLAG_ZEROPAD \<noteq> 0 then width else prec) in
         rbind (va_word ap) (\<lambda>(x, ap).
         rbind (print_uint cfg written (sz - written) (unat (ucast x :: u32)) 8 flags prec width st) (\<lambda>(w, st).
         Inr (fmt, ap, written + w, flags, st))))
      else if ch = 117 then
        (let prec = (if prec < width \<and> flags AND FLAG_ZEROPAD \<noteq> 0 then width else prec) in
         rbind (va_unsigned cfg p fmt ap) (\<lambda>(n, fmt, ap).
         rbind (print_uint cfg written (sz - written) n 10 flags prec width st) (\<lambda>(w, st).
         Inr (fmt, ap, written + w, flags, st))))
      else if ch = 112 \<or> ch = 120 \<or> ch = 88 then
        (let flags = (if ch = 112 then flags OR FLAG_ALT else flags);
             flags = (if ch = 112 \<or> ch = 120 then flags OR FLAG_SMALLS else flags) in
         rbind (if flags AND FLAG_ALT \<noteq> 0 then
                  rbind (printc written 48 flags st) (\<lambda>st.
                  if written + 1 < sz then rbind (printc (written + 1) 120 flags st) (\<lambda>st. Inr (written + 2, c_int (width - 2), st))
                  else Inr (written + 1, c_int (width - 2), st))
                else Inr (written, width, st)) (\<lambda>(written, width, st).
         let prec = (if prec < width \<and> flags AND FLAG_ZEROPAD \<noteq> 0 then width else prec) in
         rbind (va_unsigned cfg p fmt ap) (\<lambda>(n, fmt, ap).
         rbind (print_uint cfg written (sz - written) n 16 flags prec width st) (\<lambda>(w, st).
         Inr (fmt, ap, written + w, flags, st)))))
      else if ch = 99 then
        rbind (va_word ap) (\<lambda>(x, ap).
        rbind (printc written (ucast x) flags st) (\<lambda>st. Inr (fmt, ap, written + 1, flags, st)))
      else if ch = 115 then
        rbind (va_str ap) (\<lambda>(s, ap).
        let w = (if prec \<noteq> - 1 \<and> written + prec < sz then written + prec else sz) in
        rbind (put_string s written w flags st) (\<lambda>(written, st). Inr (fmt, ap, written, flags, st)))
      else rbind (printc written ch flags st) (\<lambda>st. Inr (fmt, ap, written + 1, flags, st)))"

fun vxn_loop :: "pcfg \<Rightarrow> nat \<Rightarrow> byte list \<Rightarrow> va list \<Rightarrow> int \<Rightarrow> int \<Rightarrow> int \<Rightarrow> sink \<Rightarrow> (int \<times> int \<times> sink) res" where
  "vxn_loop cfg 0 fmt ap written sz flags st = Inl Diverges"
| "vxn_loop cfg (Suc n) fmt ap written sz flags st =
     (if written \<ge> sz then Inr (written, flags, st) else
      case fmt of [] \<Rightarrow> Inl OutOfBounds | ch # fmt \<Rightarrow>
      if ch = 0 then Inr (written, flags, st)
      else if ch \<noteq> 37 then rbind (printc written ch flags st) (\<lambda>st. vxn_loop cfg n fmt ap (written + 1) sz flags st)
      else case fmt of [] \<Rightarrow> Inl OutOfBounds | ch # p \<Rightarrow>
      if ch = 0 then Inr (written, flags, st) else
      rbind (scan_mods (Suc (length p)) ch p (flags AND FLAG_TTY) (- 1) (- 1)) (\<lambda>(ch, fmt, flags, width, prec).
      if ch = 0 then Inr (written, flags, st) else
      rbind (print_field cfg ch p fmt ap written sz flags width prec st) (\<lambda>(fmt, ap, written, flags, st).
      vxn_loop cfg n fmt ap written sz flags st)))"

definition vxnprintf :: "pcfg \<Rightarrow> int \<Rightarrow> byte list \<Rightarrow> va list \<Rightarrow> int \<Rightarrow> sink \<Rightarrow> (int \<times> sink) res" where
  "vxnprintf cfg sz fmt ap flags st =
     (if sz \<le> 0 then Inr (0, st) else
      rbind (vxn_loop cfg (Suc (length fmt)) fmt ap 0 sz flags st) (\<lambda>(written, flags, st).
      let (buf, written) = (if written = sz then (written - 1, - 1) else (written, written)) in
      rbind (printc buf 0 flags st) (\<lambda>st. Inr (written, st))))"

text \<open>The calls of the kernel.\<close>

definition kernel_cfg :: pcfg where
  "kernel_cfg = \<lparr>rev_size = 22, arg_bits = 64, long_mod = True\<rparr>"

definition kvprintf :: "byte list \<Rightarrow> va list \<Rightarrow> sink \<Rightarrow> (int \<times> sink) res" where
  "kvprintf fmt ap st =
     (let intr_state = con_intr st; st = st\<lparr>con_intr := False\<rparr> in
      if kprintf_slock st \<noteq> 0 then Inl Spin else
      rbind (vxnprintf kernel_cfg 0x7fffffff fmt ap FLAG_TTY (st\<lparr>kprintf_slock := 1\<rparr>)) (\<lambda>(written, st).
      Inr (written, st\<lparr>kprintf_slock := 0, con_intr := intr_state\<rparr>)))"

definition kprintf :: "byte list \<Rightarrow> va list \<Rightarrow> sink \<Rightarrow> (int \<times> sink) res" where
  "kprintf fmt ap st =
     (let intr_state = con_intr st; st = st\<lparr>con_intr := False\<rparr> in
      if kprintf_slock st \<noteq> 0 then Inl Spin else
      rbind (vxnprintf kernel_cfg 0x7fffffff fmt ap FLAG_TTY (st\<lparr>kprintf_slock := 1\<rparr>)) (\<lambda>(written, st).
      Inr (written, st\<lparr>kprintf_slock := 0, con_intr := intr_state\<rparr>)))"

definition vsnprintf :: "int \<Rightarrow> byte list \<Rightarrow> va list \<Rightarrow> sink \<Rightarrow> (int \<times> sink) res" where
  "vsnprintf sz fmt ap st = vxnprintf kernel_cfg sz fmt ap 0 st"

definition snprintf :: "int \<Rightarrow> byte list \<Rightarrow> va list \<Rightarrow> sink \<Rightarrow> (int \<times> sink) res" where
  "snprintf sz fmt ap st = vxnprintf kernel_cfg sz fmt ap 0 st"

text \<open>The same calls of user programs.\<close>

definition user_cfg :: pcfg where
  "user_cfg = \<lparr>rev_size = 11, arg_bits = 32, long_mod = False\<rparr>"

definition user_vxnprintf :: "int \<Rightarrow> byte list \<Rightarrow> va list \<Rightarrow> int \<Rightarrow> sink \<Rightarrow> (int \<times> sink) res" where
  "user_vxnprintf sz fmt ap flags st = vxnprintf user_cfg sz fmt ap flags st"

definition user_printf :: "byte list \<Rightarrow> va list \<Rightarrow> sink \<Rightarrow> (int \<times> sink) res" where
  "user_printf fmt ap st = user_vxnprintf 0x7fffffff fmt ap FLAG_TTY st"

definition user_snprintf :: "int \<Rightarrow> byte list \<Rightarrow> va list \<Rightarrow> sink \<Rightarrow> (int \<times> sink) res" where
  "user_snprintf sz fmt ap st = user_vxnprintf sz fmt ap 0 st"

section \<open>Text in a sink\<close>

text \<open>\<open>t\<close> at position \<open>i\<close> of an array, and at the end of the output of the terminal, which takes no zeros.\<close>

definition put_at :: "nat \<Rightarrow> 'a list \<Rightarrow> 'a list \<Rightarrow> 'a list" where
  "put_at i t b = take i b @ t @ drop (i + length t) b"

definition emit :: "int \<Rightarrow> nat \<Rightarrow> byte list \<Rightarrow> sink \<Rightarrow> sink" where
  "emit flags i t st =
     (if bit flags 15 then st\<lparr>tty := tty st @ filter (\<lambda>c. c \<noteq> 0) t\<rparr> else st\<lparr>buffer := put_at i t (buffer st)\<rparr>)"

definition fits :: "int \<Rightarrow> nat \<Rightarrow> sink \<Rightarrow> bool" where
  "fits flags N st \<longleftrightarrow> bit flags 15 \<or> N \<le> length (buffer st)"

lemma put_at_Nil [simp]: "put_at i [] b = b"
  by (simp add: put_at_def)

lemma length_put_at: "i + length t \<le> length b \<Longrightarrow> length (put_at i t b) = length b"
  by (simp add: put_at_def)

lemma put_at_put_at: "i + length s \<le> length b \<Longrightarrow> put_at (i + length s) t (put_at i s b) = put_at i (s @ t) b"
  by (simp add: put_at_def ac_simps)

lemma put_at_single: "i < length b \<Longrightarrow> put_at i [c] b = b[i := c]"
  by (simp add: put_at_def upd_conv_take_nth_drop)

lemma flag_bit: "(flags :: int) AND FLAG_TTY \<noteq> 0 \<longleftrightarrow> bit flags 15" "(flags :: int) AND FLAG_SMALLS \<noteq> 0 \<longleftrightarrow> bit flags 0"
  "(flags :: int) AND FLAG_ALT \<noteq> 0 \<longleftrightarrow> bit flags 1" "(flags :: int) AND FLAG_ZEROPAD \<noteq> 0 \<longleftrightarrow> bit flags 2"
  "(flags :: int) AND FLAG_SPACE \<noteq> 0 \<longleftrightarrow> bit flags 4" "(flags :: int) AND FLAG_SIGN \<noteq> 0 \<longleftrightarrow> bit flags 5"
proof -
  have b: "flags AND 2 ^ k \<noteq> 0 \<longleftrightarrow> bit flags k" for k :: nat
    by (simp add: and_exp_eq_0_iff_not_bit)
  show "flags AND FLAG_TTY \<noteq> 0 \<longleftrightarrow> bit flags 15" "flags AND FLAG_SMALLS \<noteq> 0 \<longleftrightarrow> bit flags 0"
    "flags AND FLAG_ALT \<noteq> 0 \<longleftrightarrow> bit flags 1" "flags AND FLAG_ZEROPAD \<noteq> 0 \<longleftrightarrow> bit flags 2"
    "flags AND FLAG_SPACE \<noteq> 0 \<longleftrightarrow> bit flags 4" "flags AND FLAG_SIGN \<noteq> 0 \<longleftrightarrow> bit flags 5"
    using b [of 15] b [of 0] b [of 1] b [of 2] b [of 4] b [of 5] by simp_all
qed

lemma emit_Nil [simp]: "emit flags i [] st = st"
  by (simp add: emit_def)

lemma emit_emit: "fits flags N st \<Longrightarrow> i + length s \<le> N \<Longrightarrow> emit flags (i + length s) t (emit flags i s st) = emit flags i (s @ t) st"
  by (auto simp: emit_def fits_def put_at_put_at)

lemma fits_emit: "fits flags N st \<Longrightarrow> i + length t \<le> N \<Longrightarrow> fits flags N (emit flags i t st)"
  by (auto simp: emit_def fits_def length_put_at)

lemma emit_cong: "bit flags 15 = bit flags' 15 \<Longrightarrow> emit flags i t st = emit flags' i t st"
  by (simp add: emit_def)

lemma fits_cong: "bit flags 15 = bit flags' 15 \<Longrightarrow> fits flags N st = fits flags' N st"
  by (simp add: fits_def)

lemma printc_emit: "fits flags N st \<Longrightarrow> i < N \<Longrightarrow> printc (int i) c flags st = Inr (emit flags i [c] st)"
  by (auto simp: printc_def flag_bit emit_def fits_def put_at_single)

lemma put_chars_emit:
  "fits flags (i + (N - w)) st \<Longrightarrow>
   put_chars cs (int i) (int w) (int N) flags st = Inr (int (w + min (length cs) (N - w)), emit flags i (take (N - w) cs) st)"
proof (induction cs arbitrary: i w st)
  case (Cons c cs)
  show ?case
  proof (cases "w < N")
    case True
    have p: "printc (int i) c flags st = Inr (emit flags i [c] st)" by (rule printc_emit [OF Cons.prems]) (use True in simp)
    have f: "fits flags (Suc i + (N - Suc w)) (emit flags i [c] st)"
    proof -
      have "Suc i + (N - Suc w) = i + (N - w)" using True by arith
      then show ?thesis using fits_emit [OF Cons.prems, of i "[c]"] True by simp
    qed
    have t: "take (N - w) (c # cs) = [c] @ take (N - Suc w) cs" "min (Suc (length cs)) (N - w) = Suc (min (length cs) (N - Suc w))"
      using True by (simp_all add: Suc_diff_Suc [symmetric] del: diff_Suc_Suc)
    show ?thesis using True p Cons.IH [OF f] emit_emit [OF Cons.prems, of i "[c]" "take (N - Suc w) cs"]
      by (simp add: t add.commute)
  qed simp
qed simp

lemma put_string_emit:
  assumes "terminated s" and "fits flags N st" and "w' \<le> N"
  shows "put_string s (int w) (int w') flags st = Inr (int (w + min (length (cstr s)) (w' - w)), emit flags w (take (w' - w) (cstr s)) st)"
  using assms
proof (induction s arbitrary: w st)
  case (Cons c s)
  show ?case
  proof (cases "w < w' \<and> c \<noteq> 0")
    case True
    have p: "printc (int w) c flags st = Inr (emit flags w [c] st)" by (rule printc_emit [OF Cons.prems(2)]) (use True Cons.prems in simp)
    have f: "fits flags N (emit flags w [c] st)" using fits_emit [OF Cons.prems(2), of w "[c]"] True Cons.prems by simp
    have t: "take (w' - w) (c # cstr s) = [c] @ take (w' - Suc w) (cstr s)" "min (Suc (length (cstr s))) (w' - w) = Suc (min (length (cstr s)) (w' - Suc w))"
      using True by (simp_all add: Suc_diff_Suc [symmetric] del: diff_Suc_Suc)
    show ?thesis using True p Cons.IH [OF _ f, of "Suc w"] Cons.prems emit_emit [OF Cons.prems(2), of w "[c]" "take (w' - Suc w) (cstr s)"]
      by (simp add: t add.commute)
  qed (use Cons.prems in auto)
qed simp

section \<open>The text of a call\<close>

definition digit :: "bool \<Rightarrow> nat \<Rightarrow> byte" where
  "digit small k = of_nat (if k < 10 then 48 + k else if small then 87 + k else 55 + k)"

fun base_digits :: "nat \<Rightarrow> bool \<Rightarrow> nat \<Rightarrow> byte list" where
  "base_digits base small n =
     (if base < 2 \<or> n < base then [digit small n] else base_digits base small (n div base) @ [digit small (n mod base)])"

declare base_digits.simps [simp del]

definition pad_left :: "byte \<Rightarrow> int \<Rightarrow> byte list \<Rightarrow> byte list" where
  "pad_left c w t = replicate (nat w - length t) c @ t"

definition number_text :: "pcfg \<Rightarrow> nat \<Rightarrow> bool \<Rightarrow> nat \<Rightarrow> int \<Rightarrow> int \<Rightarrow> byte list" where
  "number_text cfg base small n prec width =
     pad_left 32 (min width (int (rev_size cfg))) (pad_left 48 (min prec (int (rev_size cfg))) (base_digits base small n))"

text \<open>The digits of every argument fit into the array \<open>rev\<close>.\<close>

definition cfg_ok :: "pcfg \<Rightarrow> bool" where
  "cfg_ok cfg \<longleftrightarrow> 2 ^ 32 \<le> (8 :: nat) ^ rev_size cfg \<and> (long_mod cfg \<longrightarrow> 2 ^ 64 \<le> (8 :: nat) ^ rev_size cfg) \<and> 32 \<le> arg_bits cfg"

lemma cfg_ok_kernel: "cfg_ok kernel_cfg" and cfg_ok_user: "cfg_ok user_cfg"
  by (simp_all add: cfg_ok_def kernel_cfg_def user_cfg_def)

lemma digits_table: "list_all (\<lambda>k. digits ! k = digit False k \<and> digits ! (16 + k) = digit True k) [0..<16]"
  by code_simp

lemma digits_eq: "k < 16 \<Longrightarrow> lget digits ((if small then 16 else 0) + int k) = Inr (digit small k)"
proof -
  assume k: "k < 16"
  then have "digits ! k = digit False k" "digits ! (16 + k) = digit True k" using digits_table by (auto simp: list_all_iff)
  moreover have "length digits = 32" "nat (16 + int k) = 16 + k" by (simp_all add: digits_def nat_add_distrib)
  ultimately show ?thesis using k by (simp add: lget_def)
qed

lemma rev_digits_eq:
  "2 \<le> base \<Longrightarrow> base \<le> 16 \<Longrightarrow> n < base ^ room \<Longrightarrow> 0 < room \<Longrightarrow>
   rev_digits room n base flags = Inr (rev (base_digits base (bit flags 0) n))"
proof (induction room arbitrary: n)
  case (Suc room)
  have "n mod base < base" using Suc.prems by simp
  then have d: "n mod base < 16" using Suc.prems by linarith
  show ?case
  proof (cases "n < base")
    case True
    then show ?thesis using digits_eq [OF d, of "bit flags 0"] Suc.prems by (simp add: flag_bit base_digits.simps [of base _ n])
  next
    case False
    have "n div base < base ^ room" using Suc.prems by (simp add: div_less_iff_less_mult mult.commute)
    moreover have "n div base \<noteq> 0" using False Suc.prems by (simp add: div_eq_0_iff)
    moreover have "0 < room" using calculation by (cases room) auto
    ultimately show ?thesis using digits_eq [OF d, of "bit flags 0"] Suc.IH [of "n div base"] Suc.prems False
      by (simp add: flag_bit base_digits.simps [of base _ n])
  qed
qed simp

lemma print_uint_emit:
  assumes "2 \<le> base" and "base \<le> 16" and "n < base ^ rev_size cfg" and "0 < rev_size cfg" and "fits flags N st"
  shows "print_uint cfg (int w) (int N - int w) n base flags prec width st =
    Inr (int (min (length (number_text cfg base (bit flags 0) n prec width)) (N - w)),
      emit flags w (take (N - w) (number_text cfg base (bit flags 0) n prec width)) st)"
proof (cases "w < N")
  case True
  let ?t = "number_text cfg base (bit flags 0) n prec width"
  have f: "fits flags (w + (N - w - 0)) st" using assms(5) True by simp
  have e: "int N - int w = int (N - w)" using True by simp
  have "put_chars ?t (int w) 0 (int N - int w) flags st = Inr (int (min (length ?t) (N - w)), emit flags w (take (N - w) ?t) st)"
    using put_chars_emit [OF f, of ?t] unfolding e by simp
  moreover have "print_uint cfg (int w) (int N - int w) n base flags prec width st = put_chars ?t (int w) 0 (int N - int w) flags st"
    using True rev_digits_eq [OF assms(1-4), of flags] by (simp add: print_uint_def number_text_def pad_left_def Let_def add.commute)
  ultimately show ?thesis by simp
qed (simp add: print_uint_def)

text \<open>
  The text of a field, with what is left of the format and of the arguments; \<open>None\<close> for a missing argument, a string
  that does not end, and a negative number with a flag for the sign (two signs are printed then).
\<close>

definition unsigned_arg :: "pcfg \<Rightarrow> byte list \<Rightarrow> byte list \<Rightarrow> va list \<Rightarrow> (nat \<times> byte list \<times> va list) option" where
  "unsigned_arg cfg p fmt ap = (case ap of Va_word x # ap \<Rightarrow>
       if p = [] then None
       else if long_mod cfg \<and> (hd p = 76 \<or> hd p = 108) then Some (unat x, drop 1 fmt, ap) else Some (unat (ucast x :: u32), fmt, ap)
     | _ \<Rightarrow> None)"

definition field_text :: "pcfg \<Rightarrow> byte \<Rightarrow> byte list \<Rightarrow> byte list \<Rightarrow> va list \<Rightarrow> int \<Rightarrow> int \<Rightarrow> int \<Rightarrow> (byte list \<times> byte list \<times> va list) option" where
  "field_text cfg ch p fmt ap flags width prec =
     (let small = (ch = 112 \<or> ch = 120); alt = (ch = 112 \<or> bit flags 1); zero = bit flags 2 in
      if ch = 105 \<or> ch = 100 then
        (case ap of Va_word x # ap \<Rightarrow>
           let arg = sint (ucast x :: u32); sign = (if bit flags 5 then [43] else if bit flags 4 then [32] else []) in
           if arg < 0 \<and> sign \<noteq> [] then None
           else Some ((if arg < 0 then [45] else sign) @ base_digits 10 False (nat \<bar>arg\<bar>), fmt, ap)
         | _ \<Rightarrow> None)
      else if ch = 111 then
        (case ap of Va_word x # ap \<Rightarrow>
           Some (number_text cfg 8 False (unat (ucast x :: u32)) (if zero then max prec width else prec) width, fmt, ap)
         | _ \<Rightarrow> None)
      else if ch = 117 then
        map_option (\<lambda>(n, fmt, ap). (number_text cfg 10 False n (if zero then max prec width else prec) width, fmt, ap)) (unsigned_arg cfg p fmt ap)
      else if ch = 112 \<or> ch = 120 \<or> ch = 88 then
        (let width = (if alt then c_int (width - 2) else width) in
         map_option (\<lambda>(n, fmt, ap). ((if alt then [48, 120] else []) @ number_text cfg 16 small n (if zero then max prec width else prec) width, fmt, ap))
           (unsigned_arg cfg p fmt ap))
      else if ch = 99 then (case ap of Va_word x # ap \<Rightarrow> Some ([ucast x], fmt, ap) | _ \<Rightarrow> None)
      else if ch = 115 then
        (case ap of Va_str s # ap \<Rightarrow>
           if terminated s then Some (if prec = - 1 then cstr s else take (nat prec) (cstr s), fmt, ap) else None
         | _ \<Rightarrow> None)
      else Some ([ch], fmt, ap))"

lemma number_fits:
  assumes "cfg_ok cfg" and "8 \<le> (base :: nat)" and "n < 2 ^ 32 \<or> long_mod cfg \<and> n < 2 ^ 64"
  shows "n < base ^ rev_size cfg" and "0 < rev_size cfg"
proof -
  have "(8 :: nat) ^ rev_size cfg \<le> base ^ rev_size cfg" by (rule power_mono) (use assms(2) in simp_all)
  then show "n < base ^ rev_size cfg" using assms by (auto simp: cfg_ok_def)
  show "0 < rev_size cfg" using assms(1) by (cases "rev_size cfg") (simp_all add: cfg_ok_def)
qed

lemma unsigned_arg_eq:
  assumes "unsigned_arg cfg p fmt ap = Some (n, fmt', ap')"
  shows "va_unsigned cfg p fmt ap = Inr (n, fmt', ap')" and "n < 2 ^ 32 \<or> long_mod cfg \<and> n < 2 ^ 64"
proof -
  obtain x ap1 where ap: "ap = Va_word x # ap1" "p \<noteq> []" using assms by (auto simp: unsigned_arg_def split: list.splits va.splits if_splits)
  have u: "unat x < 2 ^ 64" "unat (ucast x :: u32) < 2 ^ 32" using unsigned_less [of x] unsigned_less [of "ucast x :: u32"] by simp_all
  obtain c q where "p = c # q" using ap(2) by (cases p) auto
  then show "va_unsigned cfg p fmt ap = Inr (n, fmt', ap')" "n < 2 ^ 32 \<or> long_mod cfg \<and> n < 2 ^ 64"
    using assms ap u by (auto simp: unsigned_arg_def va_unsigned_def split: if_splits)
qed

lemma field_sign:
  assumes "fits flags N st" and "w < N"
  shows "printc (int w) c flags st = Inr (emit flags w [c] st)" and "fits flags N (emit flags w [c] st)"
  using printc_emit [OF assms] fits_emit [OF assms(1), of w "[c]"] assms(2) by simp_all

lemma emit_more:
  assumes "fits flags N st" and "w + length s \<le> N"
  shows "emit flags (w + length s) (take (N - (w + length s)) t) (emit flags w s st) = emit flags w (take (N - w) (s @ t)) st"
    and "w + length s + min (length t) (N - (w + length s)) = w + min (length (s @ t)) (N - w)"
  using assms emit_emit [OF assms, of "take (N - (w + length s)) t"] by simp_all

lemma signed_number:
  assumes "cfg_ok cfg" and "- (2 ^ 31) \<le> a" and "a < 2 ^ 31"
  shows "nat (\<bar>a\<bar> mod 2 ^ arg_bits cfg) = nat \<bar>a\<bar>" and "nat \<bar>a\<bar> < 2 ^ 32"
proof -
  have "(2 :: int) ^ 32 \<le> 2 ^ arg_bits cfg" using assms(1) by (intro power_increasing) (simp_all add: cfg_ok_def)
  then have "\<bar>a\<bar> < 2 ^ arg_bits cfg" using assms(2,3) by simp
  then show "nat (\<bar>a\<bar> mod 2 ^ arg_bits cfg) = nat \<bar>a\<bar>" by simp
  show "nat \<bar>a\<bar> < 2 ^ 32" using assms(2,3) by simp
qed

lemma print_signed:
  assumes "cfg_ok cfg" and "fits flags N st" and "w < N" and "\<not> bit flags 0"
    and "field_text cfg ch p fmt ap flags width prec = Some (t, fmt', ap')" and "ch = 105 \<or> ch = 100"
  shows "print_field cfg ch p fmt ap (int w) (int N) flags width prec st =
    Inr (fmt', ap', int (w + min (length t) (N - w)), flags, emit flags w (take (N - w) t) st)"
proof -
  obtain x where ap: "ap = Va_word x # ap'" "fmt' = fmt" using assms(5,6) by (auto simp: field_text_def Let_def split: list.splits va.splits if_splits)
  let ?a = "sint (ucast x :: u32)"
  have r: "- (2 ^ 31) \<le> ?a" "?a < 2 ^ 31" using sint_range_size [of "ucast x :: u32"] by (simp_all add: word_size)
  note n = signed_number [OF assms(1) r]
  have nt: "number_text cfg 10 False m 0 0 = base_digits 10 False m" for m by (simp add: number_text_def pad_left_def)
  have num: "print_uint cfg (int v) (int N - int v) (nat \<bar>?a\<bar>) 10 flags 0 0 s =
      Inr (int (min (length (base_digits 10 False (nat \<bar>?a\<bar>))) (N - v)), emit flags v (take (N - v) (base_digits 10 False (nat \<bar>?a\<bar>))) s)"
    if "fits flags N s" for v s
    using print_uint_emit [OF _ _ number_fits [OF assms(1), of 10 "nat \<bar>?a\<bar>"] that, of v 0 0] n(2) assms(4) by (simp add: nt)
  note one = field_sign [OF assms(2,3)]
  note more = emit_more [OF assms(2), of w "[c]" "base_digits 10 False (nat \<bar>?a\<bar>)" for c, simplified]
  have i: "int w + 1 = int (Suc w)" by simp
  have l: "int (Suc w) + int (min k (N - Suc w)) = int w + int (min (Suc k) (N - w))" for k using assms(3) by linarith
  show ?thesis
  proof (cases "?a < 0")
    case True
    then have t: "t = 45 # base_digits 10 False (nat \<bar>?a\<bar>)" "\<not> bit flags 5" "\<not> bit flags 4" and m: "nat ((- ?a) mod 2 ^ arg_bits cfg) = nat \<bar>?a\<bar>"
      using assms(5,6) ap n(1) by (auto simp: field_text_def Let_def split: if_splits)
    show ?thesis using True assms(3,6) ap t m one(1) num [OF one(2), of "Suc w"] more(1) [of 45]
      by (simp add: print_field_def flag_bit i l Let_def del: of_nat_Suc)
  next
    case False
    let ?s = "if bit flags 5 then [43] else if bit flags 4 then [32] else [] :: byte list"
    have t: "t = ?s @ base_digits 10 False (nat \<bar>?a\<bar>)" and m: "nat (?a mod 2 ^ arg_bits cfg) = nat \<bar>?a\<bar>"
      using False assms(5,6) ap n(1) by (auto simp: field_text_def Let_def)
    consider "bit flags 5" | "\<not> bit flags 5" "bit flags 4" | "\<not> bit flags 5" "\<not> bit flags 4" by blast
    then show ?thesis
    proof cases
      case 1
      then show ?thesis using False assms(3,6) ap t m one(1) num [OF one(2), of "Suc w"] more(1) [of 43]
        by (simp add: print_field_def flag_bit i l Let_def del: of_nat_Suc)
    next
      case 2
      then show ?thesis using False assms(3,6) ap t m one(1) num [OF one(2), of "Suc w"] more(1) [of 32]
        by (simp add: print_field_def flag_bit i l Let_def del: of_nat_Suc)
    next
      case 3
      then show ?thesis using False assms(3,6) ap t m num [OF assms(2), of w] by (simp add: print_field_def flag_bit Let_def)
    qed
  qed
qed

lemma print_hex:
  assumes "cfg_ok cfg" and "fits flags N st" and "w < N" and "\<not> bit flags 0"
    and "field_text cfg ch p fmt ap flags width prec = Some (t, fmt', ap')" and "ch = 112 \<or> ch = 120 \<or> ch = 88"
  shows "\<exists>flags'. print_field cfg ch p fmt ap (int w) (int N) flags width prec st =
    Inr (fmt', ap', int (w + min (length t) (N - w)), flags', emit flags w (take (N - w) t) st) \<and> bit flags' 15 = bit flags 15"
proof -
  define fl where "fl = (if ch = 112 then flags OR FLAG_ALT else flags)"
  define fl' where "fl' = (if ch = 112 \<or> ch = 120 then fl OR FLAG_SMALLS else fl)"
  have b: "bit fl' 15 = bit flags 15" "bit fl' 0 \<longleftrightarrow> ch = 112 \<or> ch = 120" "bit fl' 1 \<longleftrightarrow> ch = 112 \<or> bit flags 1" "bit fl' 2 = bit flags 2"
    using assms(4) by (auto simp: fl_def fl'_def bit_or_iff bit_numeral_rec)
  let ?alt = "ch = 112 \<or> bit flags 1"
  define wi where "wi = (if ?alt then c_int (width - 2) else width)"
  define pr where "pr = (if prec < wi \<and> bit flags 2 then wi else prec)"
  have pr: "pr = (if bit flags 2 then max prec wi else prec)" by (auto simp: pr_def)
  obtain n where n: "unsigned_arg cfg p fmt ap = Some (n, fmt', ap')"
      "t = (if ?alt then [48, 120] else []) @ number_text cfg 16 (ch = 112 \<or> ch = 120) n pr wi"
    using assms(5,6) unfolding pr wi_def by (auto simp: field_text_def Let_def)
  let ?t = "number_text cfg 16 (bit fl' 0) n pr wi"
  have t: "t = (if ?alt then [48, 120] else []) @ ?t" using n(2) b(2) by simp
  note arg = unsigned_arg_eq [OF n(1)]
  have fits: "fits fl' N st" using assms(2) fits_cong [OF b(1)] by simp
  have em: "emit fl' = emit flags" using b(1) by (intro ext emit_cong) simp
  have num: "print_uint cfg (int v) (int N - int v) n 16 fl' pr wi s = Inr (int (min (length ?t) (N - v)), emit flags v (take (N - v) ?t) s)"
    if "fits fl' N s" for v s
    using print_uint_emit [OF _ _ number_fits [OF assms(1) _ arg(2), of 16] that, of v pr wi] by (simp add: em)
  note one = field_sign [OF fits assms(3), unfolded em]
  have ch: "\<not> (ch = 105 \<or> ch = 100)" "ch \<noteq> 111" "ch \<noteq> 117" using assms(6) by auto
  have pf: "print_field cfg ch p fmt ap (int w) (int N) flags width prec st =
      rbind (if ?alt then rbind (printc (int w) 48 fl' st) (\<lambda>st.
               if int w + 1 < int N then rbind (printc (int w + 1) 120 fl' st) (\<lambda>st. Inr (int w + 2, wi, st)) else Inr (int w + 1, wi, st))
             else Inr (int w, wi, st)) (\<lambda>(v, wi, st).
      rbind (print_uint cfg v (int N - v) n 16 fl' (if prec < wi \<and> bit flags 2 then wi else prec) wi st) (\<lambda>(k, st). Inr (fmt', ap', v + k, fl', st)))"
  proof (cases ?alt)
    case True
    then have w: "c_int (width - 2) = wi" by (simp add: wi_def)
    show ?thesis unfolding print_field_def Let_def fl_def [symmetric] fl'_def [symmetric] flag_bit b w using ch assms(6) arg(1) True by simp
  next
    case False
    then have w: "wi = width" by (simp add: wi_def)
    show ?thesis unfolding print_field_def Let_def fl_def [symmetric] fl'_def [symmetric] flag_bit b w using ch assms(6) arg(1) False by simp
  qed
  show ?thesis
  proof (cases ?alt)
    case False
    then show ?thesis using pf num [OF fits, of w] t b(1) by (intro exI [of _ fl']) (simp add: pr_def)
  next
    case alt: True
    show ?thesis
    proof (cases "Suc w < N")
      case True
      have i: "int w + 1 = int (Suc w)" "int w + 2 = int (w + 2)" by simp_all
      have x: "printc (int (Suc w)) 120 fl' (emit flags w [48] st) = Inr (emit flags w [48, 120] st)" "fits fl' N (emit flags w [48, 120] st)"
        using field_sign [OF one(2) True, of 120 48] emit_emit [OF fits, of w "[48]" "[120]"] True unfolding em by simp_all
      have "emit flags (w + 2) (take (N - (w + 2)) ?t) (emit flags w [48, 120] st) = emit flags w (take (N - w) t) st"
          "w + 2 + min (length ?t) (N - (w + 2)) = w + min (length t) (N - w)"
        using emit_more [OF fits, of w "[48, 120]" ?t] True alt t unfolding em by simp_all
      then show ?thesis using pf alt True one(1) x(1) num [OF x(2), of "w + 2"] b(1) unfolding i
        by (intro exI [of _ fl']) (simp add: pr_def)
    next
      case False
      then have N: "N = Suc w" using assms(3) by simp
      have "emit flags w (take (N - w) t) st = emit flags w [48] st" "min (length t) (N - w) = 1" using N alt t by simp_all
      then show ?thesis using pf alt N one(1) b(1) by (intro exI [of _ fl']) (simp add: print_uint_def)
    qed
  qed
qed

lemma print_unsigned:
  assumes "cfg_ok cfg" and "fits flags N st" and "w < N" and "\<not> bit flags 0"
    and "field_text cfg ch p fmt ap flags width prec = Some (t, fmt', ap')" and "ch = 111 \<or> ch = 117"
  shows "print_field cfg ch p fmt ap (int w) (int N) flags width prec st =
    Inr (fmt', ap', int (w + min (length t) (N - w)), flags, emit flags w (take (N - w) t) st)"
proof -
  define pr where "pr = (if prec < width \<and> bit flags 2 then width else prec)"
  have pr: "pr = (if bit flags 2 then max prec width else prec)" by (auto simp: pr_def)
  define base where "base = (if ch = 111 then 8 else 10 :: nat)"
  have b: "8 \<le> base" "base \<le> 16" "2 \<le> base" by (simp_all add: base_def)
  obtain n where n: "t = number_text cfg base False n pr width" "n < 2 ^ 32 \<or> long_mod cfg \<and> n < 2 ^ 64"
      "print_field cfg ch p fmt ap (int w) (int N) flags width prec st =
        rbind (print_uint cfg (int w) (int N - int w) n base flags pr width st) (\<lambda>(k, st). Inr (fmt', ap', int w + k, flags, st))"
  proof (cases "ch = 111")
    case True
    then obtain x where x: "ap = Va_word x # ap'" "fmt' = fmt" "t = number_text cfg 8 False (unat (ucast x :: u32)) pr width"
      using assms(5) unfolding pr by (auto simp: field_text_def Let_def split: list.splits va.splits)
    show ?thesis
    proof (rule that [of "unat (ucast x :: u32)"])
      show "unat (ucast x :: u32) < 2 ^ 32 \<or> long_mod cfg \<and> unat (ucast x :: u32) < 2 ^ 64" 
        by (rule disjI1) (rule order_less_le_trans [OF unsigned_less], simp)
    qed (use True x in \<open>simp_all add: base_def print_field_def flag_bit pr_def Let_def\<close>)
  next
    case False
    then obtain n where x: "unsigned_arg cfg p fmt ap = Some (n, fmt', ap')" "t = number_text cfg 10 False n pr width"
      using assms(5,6) unfolding pr by (auto simp: field_text_def Let_def)
    show ?thesis
      by (rule that [of n]) (use False assms(6) x unsigned_arg_eq [OF x(1)] in \<open>simp_all add: base_def print_field_def flag_bit pr_def Let_def\<close>)
  qed
  show ?thesis using n(1,3) print_uint_emit [OF b(3,2) number_fits [OF assms(1) b(1) n(2)] assms(2), of w pr width] assms(4) by simp
qed

lemma print_string:
  assumes "fits flags N st" and "w < N" and "field_text cfg 115 p fmt ap flags width prec = Some (t, fmt', ap')"
  shows "print_field cfg 115 p fmt ap (int w) (int N) flags width prec st =
    Inr (fmt', ap', int (w + min (length t) (N - w)), flags, emit flags w (take (N - w) t) st)"
proof -
  obtain s where s: "ap = Va_str s # ap'" "fmt' = fmt" "terminated s" "t = (if prec = - 1 then cstr s else take (nat prec) (cstr s))"
    using assms(3) by (auto simp: field_text_def Let_def split: list.splits va.splits if_splits)
  define w' where "w' = (if prec \<noteq> - 1 \<and> int w + prec < int N then nat (int w + prec) else N)"
  have "w' \<le> N" using assms(2) by (auto simp: w'_def)
  note ps = put_string_emit [OF s(3) assms(1) this, of w]
  show ?thesis
  proof (cases "prec \<noteq> - 1 \<and> int w + prec < 0")
    case True
    have "put_string s (int w) (int w + prec) flags st = Inr (int w, st)"
    proof (cases s)
      case (Cons c s')
      then show ?thesis using True by simp
    qed (use s(3) in simp)
    then show ?thesis using True s assms(2) by (simp add: print_field_def Let_def)
  next
    case False
    have "(if prec \<noteq> - 1 \<and> int w + prec < int N then int w + prec else int N) = int w'" using False by (auto simp: w'_def)
    then have pf: "print_field cfg 115 p fmt ap (int w) (int N) flags width prec st =
        Inr (fmt, ap', int (w + min (length (cstr s)) (w' - w)), flags, emit flags w (take (w' - w) (cstr s)) st)"
      using ps s(1) by (simp add: print_field_def Let_def)
    have "w' - w = (if prec = - 1 then N - w else min (N - w) (nat prec))" using False by (auto simp: w'_def)
    then have "take (w' - w) (cstr s) = take (N - w) t" "min (length (cstr s)) (w' - w) = min (length t) (N - w)"
      using s(4) by (auto simp: ac_simps)
    then show ?thesis using pf s(2) by simp
  qed
qed

lemma print_field_emit:
  assumes "cfg_ok cfg" and "fits flags N st" and "w < N" and "\<not> bit flags 0"
    and "field_text cfg ch p fmt ap flags width prec = Some (t, fmt', ap')"
  shows "\<exists>flags'. print_field cfg ch p fmt ap (int w) (int N) flags width prec st =
    Inr (fmt', ap', int (w + min (length t) (N - w)), flags', emit flags w (take (N - w) t) st) \<and> bit flags' 15 = bit flags 15"
proof -
  consider "ch = 105 \<or> ch = 100" | "ch = 111 \<or> ch = 117" | "ch = 112 \<or> ch = 120 \<or> ch = 88" | "ch = 115"
    | "ch \<notin> {105, 100, 111, 117, 112, 120, 88, 115}" by blast
  then show ?thesis
  proof cases
    case 1
    then show ?thesis using print_signed [OF assms] by blast
  next
    case 2
    then show ?thesis using print_unsigned [OF assms] by blast
  next
    case 3
    then show ?thesis using print_hex [OF assms] by blast
  next
    case 4
    then show ?thesis using print_string [OF assms(2,3)] assms(5) by blast
  next
    case 5
    have "take (N - w) [c] = [c]" "min 1 (N - w) = 1" for c :: byte using assms(3) by simp_all
    then show ?thesis using 5 assms(5) field_sign(1) [OF assms(2,3)]
      by (cases "ch = 99") (auto simp: field_text_def print_field_def Let_def split: list.splits va.splits)
  qed
qed

text \<open>The scanner adds flags to those given and never the one for small letters.\<close>

lemma scan_mods_or:
  "scan_mods n ch fmt (g OR f) width prec =
   rbind (scan_mods n ch fmt f width prec) (\<lambda>(ch, fmt, f, r). Inr (ch, fmt, g OR f, r))"
proof (induction n arbitrary: ch fmt f width prec)
  case (Suc n)
  define more where "more = (\<lambda>fmt f width prec. case fmt of [] \<Rightarrow> Inl OutOfBounds
      | ch # fmt \<Rightarrow> if ch \<noteq> 0 then scan_mods n ch fmt f width prec else Inr (ch, fmt, f, width, prec))"
  have m: "more fmt (g OR f) width prec = rbind (more fmt f width prec) (\<lambda>(ch, fmt, f, r). Inr (ch, fmt, g OR f, r))"
    for fmt f width prec using Suc.IH by (simp add: more_def split: list.split)
  have r: "rbind (case q of (a, b) \<Rightarrow> F a b) k = (case q of (a, b) \<Rightarrow> rbind (F a b) k)" for q :: "int \<times> byte list" and F and k :: "_ \<Rightarrow> 'z res"
    by (simp split: prod.split)
  show ?case unfolding scan_mods.simps Let_def more_def [symmetric]
    by (simp add: m [symmetric] or.assoc rbind_assoc r cong: prod.case_cong)
qed simp

lemma scan_mods_small: "scan_mods n ch fmt f width prec = Inr (ch', fmt', f', width', prec') \<Longrightarrow> bit f' 0 = bit f 0 \<and> bit f' 15 = bit f 15"
proof (induction n arbitrary: ch fmt f width prec)
  case (Suc n)
  define more where "more = (\<lambda>fmt f width prec. case fmt of [] \<Rightarrow> Inl OutOfBounds
      | ch # fmt \<Rightarrow> if ch \<noteq> 0 then scan_mods n ch fmt f width prec else Inr (ch, fmt, f, width, prec))"
  have m: "bit f' 0 = bit f 0 \<and> bit f' 15 = bit f 15" if "more fmt f width prec = Inr (ch', fmt', f', width', prec')" for fmt f width prec
    using that Suc.IH by (auto simp: more_def split: list.splits if_splits)
  show ?case using Suc.prems unfolding scan_mods.simps Let_def more_def [symmetric]
    by (auto simp: rbind_eq_Inr bit_or_iff bit_numeral_rec dest!: m split: if_splits)
qed simp

text \<open>The text of a format with its arguments.\<close>

fun render :: "pcfg \<Rightarrow> nat \<Rightarrow> byte list \<Rightarrow> va list \<Rightarrow> byte list option" where
  "render cfg 0 fmt ap = None"
| "render cfg (Suc n) fmt ap =
     (case fmt of [] \<Rightarrow> None | ch # fmt \<Rightarrow>
      if ch = 0 then Some []
      else if ch \<noteq> 37 then map_option (\<lambda>t. ch # t) (render cfg n fmt ap)
      else case fmt of [] \<Rightarrow> None | ch # p \<Rightarrow>
      if ch = 0 then Some [] else
      case scan_mods (Suc (length p)) ch p 0 (- 1) (- 1) of Inl e \<Rightarrow> None | Inr (ch, fmt, flags, width, prec) \<Rightarrow>
      if ch = 0 then Some [] else
      case field_text cfg ch p fmt ap flags width prec of None \<Rightarrow> None
      | Some (t, fmt, ap) \<Rightarrow> map_option (\<lambda>u. t @ u) (render cfg n fmt ap))"

definition printed :: "pcfg \<Rightarrow> byte list \<Rightarrow> va list \<Rightarrow> byte list option" where
  "printed cfg fmt ap = render cfg (Suc (length fmt)) fmt ap"

lemma field_text_flags:
  "\<not> bit g 1 \<Longrightarrow> \<not> bit g 2 \<Longrightarrow> \<not> bit g 4 \<Longrightarrow> \<not> bit g 5 \<Longrightarrow>
   field_text cfg ch p fmt ap (g OR f) width prec = field_text cfg ch p fmt ap f width prec"
  by (simp add: field_text_def bit_or_iff)

lemma tty_flag: "bit ((flags :: int) AND FLAG_TTY) k \<longleftrightarrow> k = 15 \<and> bit flags 15"
proof -
  have "bit (FLAG_TTY) k \<longleftrightarrow> k = 15" using bit_exp_iff [where ?'a = int, of 15 k] by simp
  then show ?thesis by (auto simp: bit_and_iff)
qed

lemma emit_chunk:
  assumes "fits flags N st" and "w \<le> N"
  shows "emit flags (w + min (length s) (N - w)) (take (N - (w + min (length s) (N - w))) t) (emit flags w (take (N - w) s) st) =
      emit flags w (take (N - w) (s @ t)) st"
    and "w + min (length s) (N - w) + min (length t) (N - (w + min (length s) (N - w))) = w + min (length (s @ t)) (N - w)"
proof -
  let ?s = "take (N - w) s"
  have l: "length ?s = min (length s) (N - w)" "w + length ?s \<le> N" using assms(2) by auto
  have "N - (w + min (length s) (N - w)) = N - (w + length s)" by simp
  then have "take (N - w) (?s @ t) = take (N - w) (s @ t)" by (simp del: diff_is_0_eq')
  then show "emit flags (w + min (length s) (N - w)) (take (N - (w + min (length s) (N - w))) t) (emit flags w ?s st) =
      emit flags w (take (N - w) (s @ t)) st"
    using emit_more(1) [OF assms(1) l(2), of t] unfolding l(1) by simp
  show "w + min (length s) (N - w) + min (length t) (N - (w + min (length s) (N - w))) = w + min (length (s @ t)) (N - w)" by simp
qed

lemma vxn_loop_emit:
  assumes "cfg_ok cfg"
  shows "render cfg n fmt ap = Some t \<Longrightarrow> fits flags N st \<Longrightarrow> w \<le> N \<Longrightarrow>
    \<exists>flags'. vxn_loop cfg n fmt ap (int w) (int N) flags st = Inr (int (w + min (length t) (N - w)), flags', emit flags w (take (N - w) t) st) \<and>
      bit flags' 15 = bit flags 15"
proof (induction n arbitrary: fmt ap t w flags st)
  case (Suc n)
  show ?case
  proof (cases "w < N")
    case False
    then show ?thesis using Suc.prems by simp
  next
    case True
    have step: "\<exists>fl. vxn_loop cfg n fmt' ap' (int (w + min (length s) (N - w))) (int N) flags1 (emit flags w (take (N - w) s) st) =
        Inr (int (w + min (length (s @ u)) (N - w)), fl, emit flags w (take (N - w) (s @ u)) st) \<and> bit fl 15 = bit flags 15"
      if u: "render cfg n fmt' ap' = Some u" "bit flags1 15 = bit flags 15" for fmt' ap' u s flags1
    proof -
      have f: "fits flags1 N (emit flags w (take (N - w) s) st)"
        using fits_emit [OF Suc.prems(2), of w "take (N - w) s"] Suc.prems(3) fits_cong [OF u(2)] by simp
      have e: "emit flags1 = emit flags" using u(2) by (intro ext emit_cong) simp
      have le: "w + min (length s) (N - w) \<le> N" using Suc.prems(3) by linarith
      show ?thesis using Suc.IH [OF u(1) f le] emit_chunk [OF Suc.prems(2,3), of s u] u(2) Suc.prems(3) unfolding e by simp
    qed
    obtain ch fmt1 where fmt: "fmt = ch # fmt1" using Suc.prems(1) by (cases fmt) auto
    consider "ch = 0" | "ch \<noteq> 0" "ch \<noteq> 37" | "ch = 37" by blast
    then show ?thesis
    proof cases
      case 1
      then show ?thesis using Suc.prems fmt True by simp
    next
      case 2
      obtain u where u: "render cfg n fmt1 ap = Some u" "t = [ch] @ u" using Suc.prems(1) 2 fmt by auto
      have m: "min (length [ch]) (N - w) = 1" "take (N - w) [ch] = [ch]" using True by simp_all
      show ?thesis using 2 fmt True field_sign(1) [OF Suc.prems(2) True, of ch] step [OF u(1) refl, of "[ch]"] unfolding m u(2) by (simp add: add.commute)
    next
      case 3
      obtain c p where p: "fmt1 = c # p" using Suc.prems(1) fmt 3 by (cases fmt1) auto
      let ?g = "flags AND FLAG_TTY"
      show ?thesis
      proof (cases "c = 0")
        case True
        then show ?thesis using Suc.prems fmt 3 p \<open>w < N\<close> by simp
      next
        case False
        obtain c1 r f wi pr where sc: "scan_mods (Suc (length p)) c p 0 (- 1) (- 1) = Inr (c1, r, f, wi, pr)"
          using Suc.prems(1) fmt 3 p False by (auto simp del: scan_mods.simps split: sum.splits)
        then have sg: "scan_mods (Suc (length p)) c p ?g (- 1) (- 1) = Inr (c1, r, ?g OR f, wi, pr)"
          using scan_mods_or [of "Suc (length p)" c p ?g 0] by simp
        have g: "bit (?g OR f) 15 = bit flags 15" "\<not> bit (?g OR f) 0" using scan_mods_small [OF sc] by (simp_all add: bit_or_iff tty_flag)
        have ft: "field_text cfg ch p fmt ap (?g OR f) wi pr = field_text cfg ch p fmt ap f wi pr" for ch fmt ap
          by (rule field_text_flags) (simp_all add: tty_flag)
        show ?thesis
        proof (cases "c1 = 0")
          case True
          then show ?thesis using Suc.prems fmt 3 p False sc sg g(1) \<open>w < N\<close> by (auto simp del: scan_mods.simps)
        next
          case c1: False
          obtain s fmt2 ap2 u where s: "field_text cfg c1 p r ap f wi pr = Some (s, fmt2, ap2)" "render cfg n fmt2 ap2 = Some u" "t = s @ u"
            using Suc.prems(1) fmt 3 p False c1 sc by (auto simp del: scan_mods.simps split: option.splits)
          have fi: "fits (?g OR f) N st" using Suc.prems(2) fits_cong [OF g(1)] by simp
          have e: "emit (?g OR f) = emit flags" using g(1) by (intro ext emit_cong) simp
          obtain fl where fl: "print_field cfg c1 p r ap (int w) (int N) (?g OR f) wi pr st =
              Inr (fmt2, ap2, int (w + min (length s) (N - w)), fl, emit flags w (take (N - w) s) st)" "bit fl 15 = bit flags 15"
            using print_field_emit [OF assms fi \<open>w < N\<close> g(2)] s(1) ft g(1) unfolding e by metis
          show ?thesis using fmt 3 p False c1 sg fl(1) step [OF s(2) fl(2), of s] \<open>w < N\<close> unfolding s(3) by (simp del: scan_mods.simps of_nat_add)
        qed
      qed
    qed
  qed
qed simp

text \<open>
  The two ways of output: the text cut to the array, with a zero after it, and the text on the terminal.
\<close>

lemma vxnprintf_buffer:
  assumes "cfg_ok cfg" and "printed cfg fmt ap = Some t" and "0 < N" and "N \<le> length (buffer st)"
  shows "vxnprintf cfg (int N) fmt ap 0 st = Inr (if length t < N then int (length t) else - 1,
    st\<lparr>buffer := take (N - 1) t @ 0 # drop (Suc (min (length t) (N - 1))) (buffer st)\<rparr>)"
proof -
  have f: "fits 0 N st" using assms(4) by (simp add: fits_def)
  obtain fl where fl: "vxn_loop cfg (Suc (length fmt)) fmt ap 0 (int N) 0 st = Inr (int (min (length t) N), fl, emit 0 0 (take N t) st)" "\<not> bit fl 15"
    using vxn_loop_emit [OF assms(1) assms(2) [unfolded printed_def] f, of 0] by auto
  have f1: "fits fl N (emit 0 0 (take N t) st)" using fits_emit [OF f, of 0 "take N t"] fits_cong [of fl 0] fl(2) by simp
  have e: "emit fl = emit 0" using fl(2) by (intro ext emit_cong) simp
  have p: "printc (int i) 0 fl (emit 0 0 (take N t) st) = Inr (emit 0 i [0] (emit 0 0 (take N t) st))" if "i < N" for i
    using field_sign(1) [OF f1 that] unfolding e .
  show ?thesis
  proof (cases "length t < N")
    case True
    then have "emit 0 (length t) [0] (emit 0 0 (take N t) st) = st\<lparr>buffer := take (N - 1) t @ 0 # drop (Suc (min (length t) (N - 1))) (buffer st)\<rparr>"
      using emit_emit [OF f, of 0 t "[0]"] by (simp add: emit_def put_at_def min_absorb1)
    then show ?thesis using True fl(1) p [OF True] assms(3) by (simp add: vxnprintf_def del: vxn_loop.simps)
  next
    case False
    have i: "int N - 1 = int (N - 1)" using assms(3) by simp
    have "emit 0 (N - 1) [0] (emit 0 0 (take N t) st) = st\<lparr>buffer := take (N - 1) t @ 0 # drop (Suc (min (length t) (N - 1))) (buffer st)\<rparr>"
      using False assms(3,4) by (simp add: emit_def put_at_def)
    then show ?thesis using False fl(1) p [of "N - 1"] assms(3) i by (simp add: vxnprintf_def Let_def del: vxn_loop.simps of_nat_diff)
  qed
qed

lemma vxnprintf_tty:
  assumes "cfg_ok cfg" and "printed cfg fmt ap = Some t" and "length t < 0x7fffffff"
  shows "vxnprintf cfg 0x7fffffff fmt ap FLAG_TTY st = Inr (int (length t), st\<lparr>tty := tty st @ filter (\<lambda>c. c \<noteq> 0) t\<rparr>)"
proof -
  have b: "bit FLAG_TTY 15" using tty_flag [of FLAG_TTY 15] by simp
  then have f: "fits FLAG_TTY 0x7fffffff st" by (simp add: fits_def)
  obtain fl where fl: "vxn_loop cfg (Suc (length fmt)) fmt ap 0 0x7fffffff FLAG_TTY st = Inr (int (length t), fl, emit FLAG_TTY 0 t st)" "bit fl 15"
    using vxn_loop_emit [OF assms(1) assms(2) [unfolded printed_def] f, of 0] assms(3) b by (auto simp: min_absorb1 simp del: vxn_loop.simps)
  then show ?thesis using assms(3) b by (simp add: vxnprintf_def printc_def flag_bit emit_def del: vxn_loop.simps)
qed

section \<open>Numbers are read back\<close>

lemma digit_decimal: "k < 10 \<Longrightarrow> is_digit (digit False k) \<and> sint (digit False k) - 48 = int k"
proof -
  assume "k < 10"
  moreover have "list_all (\<lambda>k. is_digit (digit False k) \<and> sint (digit False k) - 48 = int k) [0..<10]" by code_simp
  ultimately show ?thesis by (auto simp: list_all_iff)
qed

lemma atoi_decimal:
  assumes "sign = 1 \<or> sign = - 1"
  shows "- (2 ^ 31) \<le> sign * int n \<Longrightarrow> sign * int n < 2 ^ 31 \<Longrightarrow>
    atoi_digits sign 0 (base_digits 10 False n @ ys) = atoi_digits sign (sign * int n) ys"
proof (induction n arbitrary: ys rule: less_induct)
  case (less n)
  show ?case
  proof (cases "n < 10")
    case True
    then show ?thesis using digit_decimal [OF True] less.prems by (simp add: base_digits.simps [of _ _ n] c_int_id)
  next
    case False
    have d: "n mod 10 < 10" "n div 10 < n" "int n = 10 * int (n div 10) + int (n mod 10)" using False mult_div_mod_eq [of 10 n] by linarith+
    have "- (2 ^ 31) \<le> sign * int (n div 10)" "sign * int (n div 10) < 2 ^ 31" using less.prems assms d(2,3) by auto
    then have "atoi_digits sign 0 (base_digits 10 False (n div 10) @ digit False (n mod 10) # ys) =
        atoi_digits sign (sign * int (n div 10)) (digit False (n mod 10) # ys)" by (rule less.IH [OF d(2)])
    also have "\<dots> = atoi_digits sign (c_int (10 * (sign * int (n div 10)) + sign * int (n mod 10))) ys" using digit_decimal [OF d(1)] by simp
    also have "10 * (sign * int (n div 10)) + sign * int (n mod 10) = sign * int n" unfolding d(3) by (simp add: algebra_simps)
    finally show ?thesis using False less.prems by (simp add: base_digits.simps [of _ _ n] c_int_id)
  qed
qed

lemma decimal_first: "\<exists>c cs. base_digits 10 False n = c # cs \<and> is_digit c"
proof (induction n rule: less_induct)
  case (less n)
  show ?case
  proof (cases "n < 10")
    case True
    then show ?thesis using digit_decimal by (simp add: base_digits.simps [of _ _ n])
  next
    case False
    then have "n div 10 < n" by simp
    then show ?thesis using less.IH [of "n div 10"] False by (auto simp: base_digits.simps [of _ _ n])
  qed
qed

lemma atoi_printed:
  assumes "- (2 ^ 31) \<le> a" and "a < 2 ^ 31"
  shows "atoi ((if a < 0 then [45] else []) @ base_digits 10 False (nat \<bar>a\<bar>) @ 0 # ys) = Inr a"
proof (cases "a < 0")
  case True
  then show ?thesis using atoi_decimal [of "- 1" "nat \<bar>a\<bar>" "0 # ys"] assms by (simp add: atoi_def is_space_def is_digit_def)
next
  case False
  let ?d = "base_digits 10 False (nat \<bar>a\<bar>)"
  obtain c cs where c: "?d = c # cs" "is_digit c" using decimal_first by blast
  then have "c \<noteq> 0" "c \<noteq> 45" "c \<noteq> 43" "\<not> is_space c" by (auto simp: is_digit_def is_space_def)
  then have "atoi (?d @ 0 # ys) = atoi_digits 1 0 (?d @ 0 # ys)" unfolding c(1) by (simp add: atoi_def)
  then show ?thesis using False atoi_decimal [of 1 "nat \<bar>a\<bar>" "0 # ys"] assms by (simp add: is_digit_def)
qed

lemma decimal_length: "n < 10 ^ k \<Longrightarrow> 0 < k \<Longrightarrow> length (base_digits 10 False n) \<le> k"
proof (induction k arbitrary: n)
  case (Suc k)
  show ?case
  proof (cases "n < 10")
    case False
    then have "n div 10 < 10 ^ k" "0 < k" using Suc.prems by (auto simp: div_less_iff_less_mult mult.commute intro: gr0I)
    then show ?thesis using Suc.IH [of "n div 10"] False by (simp add: base_digits.simps [of _ _ n])
  qed (simp add: base_digits.simps [of _ _ n])
qed simp

text \<open>A field width that starts with the digit 9 is never read to its end.\<close>

lemma scan_nine: "scan_mods n 57 fmt flags width prec = Inl Diverges"
  by (induction n arbitrary: width) simp_all

end
