(* ===== verification/Userland_Lib.thy ===== *)
theory Userland_Lib
  imports Xprintf
begin

text \<open>
  Strings, line input and system call stubs of the user library (\<^verbatim>\<open>src/userland/lib.c\<close>). Strings are byte arrays; the system calls are
  a parameter: \<open>io\<close> has reading and writing with the bytes of the caller's buffer, \<open>sys\<close> is \<^verbatim>\<open>_syscall\<close>; \<open>console_ok\<close> is what line input
  needs of them.
\<close>

section \<open>Strings\<close>

fun user_strlen :: "byte list \<Rightarrow> nat res" where
  "user_strlen [] = Inl OutOfBounds"
| "user_strlen (c # s) = (if c \<noteq> 0 then rbind (user_strlen s) (\<lambda>i. Inr (Suc i)) else Inr 0)"

text \<open>\<open>strcpy_at d dest src\<close>: \<open>strcpy\<close> to the address \<open>dest + d\<close>.\<close>

fun strcpy_at :: "nat \<Rightarrow> byte list \<Rightarrow> byte list \<Rightarrow> byte list res" where
  "strcpy_at d dest [] = Inl OutOfBounds"
| "strcpy_at d dest (c # src) =
     (if c \<noteq> 0 then rbind (lset dest (int d) c) (\<lambda>dest. strcpy_at (Suc d) dest src) else lset dest (int d) 0)"

definition strcpy :: "byte list \<Rightarrow> byte list \<Rightarrow> byte list res" where
  "strcpy dest src = strcpy_at 0 dest src"

fun strncpy_loop :: "nat \<Rightarrow> byte list \<Rightarrow> byte list \<Rightarrow> nat \<Rightarrow> byte list res" where
  "strncpy_loop 0 dest src i = Inr dest"
| "strncpy_loop (Suc n) dest [] i = Inl OutOfBounds"
| "strncpy_loop (Suc n) dest (c # src) i =
     (if c \<noteq> 0 then rbind (lset dest (int i) c) (\<lambda>dest. strncpy_loop n dest src (Suc i)) else lset dest (int i) 0)"

definition user_strncpy :: "byte list \<Rightarrow> byte list \<Rightarrow> nat \<Rightarrow> byte list res" where
  "user_strncpy dest src n = strncpy_loop n dest src 0"

text \<open>\<open>strcat\<close> returns the address it copies to, as an offset from \<open>dest\<close>.\<close>

definition strcat :: "byte list \<Rightarrow> byte list \<Rightarrow> (nat \<times> byte list) res" where
  "strcat dest src = rbind (user_strlen dest) (\<lambda>l. rbind (strcpy_at l dest src) (\<lambda>dest. Inr (l, dest)))"

fun strncat_loop :: "nat \<Rightarrow> byte list \<Rightarrow> byte list \<Rightarrow> nat \<Rightarrow> byte list res" where
  "strncat_loop 0 dest src i = lset dest (int i) 0"
| "strncat_loop (Suc n) dest [] i = Inl OutOfBounds"
| "strncat_loop (Suc n) dest (c # src) i =
     (if c \<noteq> 0 then rbind (lset dest (int i) c) (\<lambda>dest. strncat_loop n dest src (Suc i)) else lset dest (int i) 0)"

definition strncat :: "byte list \<Rightarrow> byte list \<Rightarrow> nat \<Rightarrow> byte list res" where
  "strncat dest src n = rbind (user_strlen dest) (\<lambda>l. strncat_loop n dest src l)"

text \<open>The characters are read before the count is tested; \<open>char\<close> is signed.\<close>

fun strncmp :: "byte list \<Rightarrow> byte list \<Rightarrow> nat \<Rightarrow> int res" where
  "strncmp [] s2 n = Inl OutOfBounds"
| "strncmp (a # s1) [] n = (if a \<noteq> 0 \<and> n = 0 then Inr 0 else Inl OutOfBounds)"
| "strncmp (a # s1) (b # s2) 0 = Inr 0"
| "strncmp (a # s1) (b # s2) (Suc n) =
     (if a = 0 \<and> b = 0 then Inr 0 else if sint a < sint b then Inr (- 1) else if sint a > sint b then Inr 1 else strncmp s1 s2 n)"

definition strcmp :: "byte list \<Rightarrow> byte list \<Rightarrow> int res" where
  "strcmp s1 s2 = strncmp s1 s2 0x7fffffff"

fun memcmp :: "byte list \<Rightarrow> byte list \<Rightarrow> nat \<Rightarrow> int res" where
  "memcmp s1 s2 0 = Inr 0"
| "memcmp (a # s1) (b # s2) (Suc n) = (if a \<noteq> b then Inr (uint a - uint b) else memcmp s1 s2 n)"
| "memcmp s1 s2 (Suc n) = Inl OutOfBounds"

text \<open>The offset of the result of \<open>strstr\<close>, \<open>None\<close> for NULL.\<close>

fun strstr_loop :: "byte list \<Rightarrow> byte list \<Rightarrow> nat \<Rightarrow> nat \<Rightarrow> nat option res" where
  "strstr_loop [] s2 n i = Inl OutOfBounds"
| "strstr_loop (c # s1) s2 n i =
     (if c \<noteq> 0 then rbind (memcmp (c # s1) s2 n) (\<lambda>r. if r = 0 then Inr (Some i) else strstr_loop s1 s2 n (Suc i)) else Inr None)"

definition strstr :: "byte list \<Rightarrow> byte list \<Rightarrow> nat option res" where
  "strstr s1 s2 = rbind (user_strlen s2) (\<lambda>n. strstr_loop s1 s2 n 0)"

fun memset :: "byte list \<Rightarrow> nat \<Rightarrow> int \<Rightarrow> nat \<Rightarrow> byte list res" where
  "memset s p c 0 = Inr s"
| "memset s p c (Suc n) = rbind (lset s (int p) (word_of_int c)) (\<lambda>s. memset s (Suc p) c n)"

fun memcpy :: "byte list \<Rightarrow> nat \<Rightarrow> byte list \<Rightarrow> nat \<Rightarrow> byte list res" where
  "memcpy d p s 0 = Inr d"
| "memcpy d p [] (Suc n) = Inl OutOfBounds"
| "memcpy d p (c # s) (Suc n) = rbind (lset d (int p) c) (\<lambda>d. memcpy d (Suc p) s n)"

section \<open>Input and output\<close>

text \<open>\<open>io_read fh buf n\<close> and \<open>io_write fh buf n\<close>: the result, with the buffer after a read.\<close>

record 'w io =
  io_read :: "int \<Rightarrow> byte list \<Rightarrow> int \<Rightarrow> 'w \<Rightarrow> (int \<times> byte list) \<times> 'w"
  io_write :: "int \<Rightarrow> byte list \<Rightarrow> int \<Rightarrow> 'w \<Rightarrow> int \<times> 'w"

abbreviation (input) FILEHANDLE_STDIN :: int where "FILEHANDLE_STDIN \<equiv> 0"
abbreviation (input) FILEHANDLE_STDOUT :: int where "FILEHANDLE_STDOUT \<equiv> 1"

definition putc :: "'w io \<Rightarrow> byte \<Rightarrow> 'w \<Rightarrow> int \<times> 'w" where
  "putc io c w = io_write io FILEHANDLE_STDOUT [c] 1 w"

definition puts :: "'w io \<Rightarrow> byte list \<Rightarrow> 'w \<Rightarrow> (int \<times> 'w) res" where
  "puts io s w = rbind (user_strlen s) (\<lambda>n. Inr (io_write io FILEHANDLE_STDOUT s (c_int (int n)) w))"

text \<open>\<open>c0\<close> is what the variable \<^verbatim>\<open>c\<close> holds before the system call.\<close>

definition getc_raw :: "'w io \<Rightarrow> byte \<Rightarrow> 'w \<Rightarrow> (int \<times> 'w) res" where
  "getc_raw io c0 w = (let ((_, buf), w) = io_read io FILEHANDLE_STDIN [c0] 1 w in rbind (lget buf 0) (\<lambda>c. Inr (sint c, w)))"

definition getc :: "'w io \<Rightarrow> byte \<Rightarrow> 'w \<Rightarrow> (int \<times> 'w) res" where
  "getc io c0 w =
     rbind (getc_raw io c0 w) (\<lambda>(c, w).
     let (_, w) = io_write io FILEHANDLE_STDOUT [word_of_int c] 1 w in Inr (c, w))"

fun gets_loop :: "nat \<Rightarrow> 'w io \<Rightarrow> byte \<Rightarrow> byte list \<Rightarrow> nat \<Rightarrow> 'w \<Rightarrow> (nat \<times> byte list \<times> 'w) res" where
  "gets_loop 0 io c0 s count w = Inr (count, s, w)"
| "gets_loop (Suc n) io c0 s count w =
     rbind (getc io c0 w) (\<lambda>(c, w).
     rbind (lset s (int count) (word_of_int c)) (\<lambda>s. gets_loop n io c0 s (Suc count) w))"

definition gets :: "'w io \<Rightarrow> byte \<Rightarrow> byte list \<Rightarrow> nat \<Rightarrow> 'w \<Rightarrow> (nat \<times> byte list \<times> 'w) res" where
  "gets io c0 s sz w =
     rbind (gets_loop (sz - 1) io c0 s 0 w) (\<lambda>(count, s, w).
     rbind (lset s (int (count + 1)) 0) (\<lambda>s. Inr (count, s, w)))"

text \<open>
  \<open>readline_static\<close> reads until a newline; the first argument bounds the number of characters read. With \<open>sz = 0\<close> the limit
  \<open>size - 1\<close> wraps around.
\<close>

fun readline_loop :: "nat \<Rightarrow> 'w io \<Rightarrow> byte \<Rightarrow> byte list \<Rightarrow> nat \<Rightarrow> nat \<Rightarrow> 'w \<Rightarrow> (nat \<times> byte list \<times> 'w) res" where
  "readline_loop 0 io c0 s sz count w = Inl Diverges"
| "readline_loop (Suc n) io c0 s sz count w =
     rbind (getc_raw io c0 w) (\<lambda>(c, w).
     if c = 13 \<or> c = 10 then let (_, w) = putc io 10 w in Inr (count, s, w)
     else if c = 127 then
       if count > 0 then
         (let (_, w) = putc io 8 w; (_, w) = putc io 32 w; (_, w) = putc io 8 w in readline_loop n io c0 s sz (count - 1) w)
       else readline_loop n io c0 s sz count w
     else if count < (if sz = 0 then 2 ^ 64 - 1 else sz - 1) then
       rbind (lset s (int count) (word_of_int c)) (\<lambda>s.
       let (_, w) = putc io (word_of_int c) w in readline_loop n io c0 s sz (Suc count) w)
     else readline_loop n io c0 s sz count w)"

definition readline_static :: "nat \<Rightarrow> 'w io \<Rightarrow> byte \<Rightarrow> byte list \<Rightarrow> nat \<Rightarrow> 'w \<Rightarrow> (nat \<times> byte list \<times> 'w) res" where
  "readline_static n io c0 s sz w =
     rbind (readline_loop n io c0 s sz 0 w) (\<lambda>(count, s, w).
     rbind (lset s (int count) 0) (\<lambda>s. Inr (count, s, w)))"

text \<open>\<open>atoi\<close>, with the position in the string.\<close>

fun user_atoi_loop :: "nat \<Rightarrow> byte list \<Rightarrow> int \<Rightarrow> int" where
  "user_atoi_loop 0 s retval = retval"
| "user_atoi_loop (Suc n) s retval =
     (if sint (hd s) < 48 \<or> sint (hd s) > 57 then retval else user_atoi_loop n (tl s) (c_int (retval * 10 + (sint (hd s) - 48))))"

definition user_atoi :: "byte list \<Rightarrow> int res" where
  "user_atoi nptr = rbind (user_strlen nptr) (\<lambda>n. Inr (user_atoi_loop n nptr 0))"

section \<open>System call stubs\<close>

text \<open>
  \<^verbatim>\<open>_syscall\<close> takes four 64-bit words and returns 32 bits. Arguments of type \<open>int\<close> are extended with their sign.
\<close>

type_synonym 'w sys = "u64 \<Rightarrow> u64 \<Rightarrow> u64 \<Rightarrow> u64 \<Rightarrow> 'w \<Rightarrow> (u32 \<times> 'w) res"

definition int_result :: "(u32 \<times> 'w) res \<Rightarrow> (int \<times> 'w) res" where
  "int_result r = rbind r (\<lambda>(x, w). Inr (sint x, w))"

definition syscall_halt :: "'w sys \<Rightarrow> 'w \<Rightarrow> (unit \<times> 'w) res" where
  "syscall_halt sys w = rbind (sys 0x001 0 0 0 w) (\<lambda>(_, w). Inr ((), w))"

definition syscall_spawn :: "'w sys \<Rightarrow> u64 \<Rightarrow> u64 \<Rightarrow> 'w \<Rightarrow> (int \<times> 'w) res" where
  "syscall_spawn sys pathname argv w = int_result (sys 0x101 pathname argv 0 w)"

definition syscall_exit :: "'w sys \<Rightarrow> int \<Rightarrow> 'w \<Rightarrow> (unit \<times> 'w) res" where
  "syscall_exit sys retval w = rbind (sys 0x102 (word_of_int retval) 0 0 w) (\<lambda>(_, w). Inr ((), w))"

definition syscall_join :: "'w sys \<Rightarrow> int \<Rightarrow> 'w \<Rightarrow> (int \<times> 'w) res" where
  "syscall_join sys pid w = int_result (sys 0x103 (word_of_int pid) 0 0 w)"

definition syscall_fork :: "'w sys \<Rightarrow> u64 \<Rightarrow> int \<Rightarrow> 'w \<Rightarrow> (int \<times> 'w) res" where
  "syscall_fork sys func arg w = int_result (sys 0x104 func (word_of_int arg) 0 w)"

definition syscall_memlimit :: "'w sys \<Rightarrow> u64 \<Rightarrow> 'w \<Rightarrow> (u64 \<times> 'w) res" where
  "syscall_memlimit sys heap_end w = rbind (sys 0x105 heap_end 0 0 w) (\<lambda>(x, w). Inr (ucast x, w))"

definition syscall_open :: "'w sys \<Rightarrow> u64 \<Rightarrow> 'w \<Rightarrow> (int \<times> 'w) res" where
  "syscall_open sys pathname w = int_result (sys 0x201 pathname 0 0 w)"

definition syscall_close :: "'w sys \<Rightarrow> int \<Rightarrow> 'w \<Rightarrow> (int \<times> 'w) res" where
  "syscall_close sys filehandle w = int_result (sys 0x202 (word_of_int filehandle) 0 0 w)"

definition syscall_read :: "'w sys \<Rightarrow> int \<Rightarrow> u64 \<Rightarrow> int \<Rightarrow> 'w \<Rightarrow> (int \<times> 'w) res" where
  "syscall_read sys filehandle buf len w = int_result (sys 0x204 (word_of_int filehandle) buf (word_of_int len) w)"

definition syscall_seek :: "'w sys \<Rightarrow> int \<Rightarrow> int \<Rightarrow> 'w \<Rightarrow> (int \<times> 'w) res" where
  "syscall_seek sys filehandle offset w = int_result (sys 0x203 (word_of_int filehandle) (word_of_int offset) 0 w)"

definition syscall_write :: "'w sys \<Rightarrow> int \<Rightarrow> u64 \<Rightarrow> int \<Rightarrow> 'w \<Rightarrow> (int \<times> 'w) res" where
  "syscall_write sys filehandle buf len w = int_result (sys 0x205 (word_of_int filehandle) buf (word_of_int len) w)"

definition syscall_create :: "'w sys \<Rightarrow> u64 \<Rightarrow> int \<Rightarrow> 'w \<Rightarrow> (int \<times> 'w) res" where
  "syscall_create sys pathname sz w = int_result (sys 0x206 pathname (word_of_int sz) 0 w)"

definition syscall_delete :: "'w sys \<Rightarrow> u64 \<Rightarrow> 'w \<Rightarrow> (int \<times> 'w) res" where
  "syscall_delete sys pathname w = int_result (sys 0x207 pathname 0 0 w)"

definition syscall_filecount :: "'w sys \<Rightarrow> u64 \<Rightarrow> 'w \<Rightarrow> (int \<times> 'w) res" where
  "syscall_filecount sys pathname w = int_result (sys 0x208 pathname 0 0 w)"

definition syscall_file :: "'w sys \<Rightarrow> u64 \<Rightarrow> int \<Rightarrow> u64 \<Rightarrow> 'w \<Rightarrow> (int \<times> 'w) res" where
  "syscall_file sys pathname idx buf w = int_result (sys 0x209 pathname (word_of_int idx) buf w)"

section \<open>String lemmas\<close>

lemma user_strlen_eq: "terminated s \<Longrightarrow> user_strlen s = Inr (length (cstr s))"
  by (induction s) auto

lemma strcpy_at_eq:
  "terminated src \<Longrightarrow> d + length (cstr src) < length dest \<Longrightarrow>
   strcpy_at d dest src = Inr (take d dest @ cstr src @ 0 # drop (Suc (d + length (cstr src))) dest)"
proof (induction src arbitrary: d dest)
  case (Cons c src)
  show ?case
  proof (cases "c = 0")
    case True
    then show ?thesis using Cons.prems by (simp add: upd_conv_take_nth_drop)
  next
    case False
    have "strcpy_at (Suc d) (dest[d := c]) src = Inr (take (Suc d) (dest[d := c]) @ cstr src @ 0 # drop (Suc (Suc d + length (cstr src))) (dest[d := c]))"
      by (rule Cons.IH) (use Cons.prems False in simp_all)
    then show ?thesis using False Cons.prems by (simp add: take_Suc_conv_app_nth)
  qed
qed simp

lemma strcat_eq:
  assumes "terminated dest" and "terminated src" and "length (cstr dest) + length (cstr src) < length dest"
  shows "strcat dest src = Inr (length (cstr dest), cstr dest @ cstr src @ 0 # drop (Suc (length (cstr dest) + length (cstr src))) dest)"
proof -
  obtain r where "dest = cstr dest @ 0 # r" using terminated_decomp [OF assms(1)] by blast
  then have "take (length (cstr dest)) dest = cstr dest" by (metis append_eq_conv_conj)
  then show ?thesis using assms by (simp add: strcat_def user_strlen_eq strcpy_at_eq)
qed

lemma strncmp_zero_iff:
  "terminated s1 \<Longrightarrow> terminated s2 \<Longrightarrow> \<exists>r. strncmp s1 s2 n = Inr r \<and> (r = 0 \<longleftrightarrow> take n (cstr s1) = take n (cstr s2))"
proof (induction s1 s2 n rule: strncmp.induct)
  case (4 a s1 b s2 n)
  have "a = b" if "\<not> sint a < sint b" "\<not> sint a > sint b" using that by (intro signed_word_eqI) simp
  then show ?case using 4 by auto
qed auto

lemma memcmp_prefix:
  "terminated s1 \<Longrightarrow> n \<le> length (cstr s2) \<Longrightarrow> \<exists>r. memcmp s1 s2 n = Inr r \<and> (r = 0 \<longleftrightarrow> take n (cstr s1) = take n (cstr s2))"
proof (induction s1 s2 n rule: memcmp.induct)
  case (2 a s1 b s2 n)
  then have b: "b \<noteq> 0" "n \<le> length (cstr s2)" by (auto split: if_splits)
  show ?case
  proof (cases "a = b")
    case True
    then show ?thesis using 2 b by auto
  next
    case False
    then have "uint a - uint b \<noteq> 0" by (simp add: word_uint_eq_iff)
    then show ?thesis using False b by auto
  qed
qed (auto split: if_splits)

fun first_match :: "byte list \<Rightarrow> byte list \<Rightarrow> nat option" where
  "first_match [] B = None"
| "first_match (a # A) B = (if take (length B) (a # A) = B then Some 0 else map_option Suc (first_match A B))"

lemma strstr_loop_eq:
  "terminated s1 \<Longrightarrow> strstr_loop s1 s2 (length (cstr s2)) i = Inr (map_option (\<lambda>k. i + k) (first_match (cstr s1) (cstr s2)))"
proof (induction s1 arbitrary: i)
  case (Cons c s1)
  show ?case
  proof (cases "c = 0")
    case False
    obtain r where "memcmp (c # s1) s2 (length (cstr s2)) = Inr r" "r = 0 \<longleftrightarrow> take (length (cstr s2)) (cstr (c # s1)) = cstr s2"
      using memcmp_prefix [OF Cons.prems, of "length (cstr s2)" s2] by auto
    then show ?thesis using False Cons.IH [of "Suc i"] Cons.prems by (auto simp: option.map_comp comp_def)
  qed simp
qed simp

lemma first_match_Some:
  "first_match A B = Some k \<longleftrightarrow> k < length A \<and> take (length B) (drop k A) = B \<and> (\<forall>j < k. take (length B) (drop j A) \<noteq> B)"
proof (induction A arbitrary: k)
  case (Cons a A)
  show ?case
  proof (cases "take (length B) (a # A) = B")
    case True
    then show ?thesis by (cases k) auto
  next
    case False
    then show ?thesis using Cons.IH by (cases k) (auto simp: less_Suc_eq_0_disj)
  qed
qed simp

lemma first_match_None: "first_match A B = None \<longleftrightarrow> (\<forall>k < length A. take (length B) (drop k A) \<noteq> B)"
proof (induction A)
  case (Cons a A)
  then show ?case by (auto simp: less_Suc_eq_0_disj)
qed simp

section \<open>Line editing\<close>

text \<open>
  A console: \<open>input\<close> is what will be typed, \<open>shown\<close> what has been written; a read takes the next character, a write shows
  its characters.
\<close>

definition console_ok :: "'w io \<Rightarrow> ('w \<Rightarrow> byte list) \<Rightarrow> ('w \<Rightarrow> byte list) \<Rightarrow> bool" where
  "console_ok io inp shown \<longleftrightarrow>
     (\<forall>w c cs b. inp w = c # cs \<longrightarrow> (\<exists>r w'. io_read io FILEHANDLE_STDIN [b] 1 w = ((r, [c]), w') \<and> inp w' = cs \<and> shown w' = shown w)) \<and>
     (\<forall>w s n. 0 \<le> n \<and> n \<le> int (length s) \<longrightarrow>
       (\<exists>r w'. io_write io FILEHANDLE_STDOUT s n w = (r, w') \<and> inp w' = inp w \<and> shown w' = shown w @ take (nat n) s))"

text \<open>The line that the keys give, at most \<open>lim\<close> characters, with what is echoed; \<open>None\<close> while no newline was typed.\<close>

fun edit_line :: "nat \<Rightarrow> byte list \<Rightarrow> byte list \<Rightarrow> (byte list \<times> byte list) option" where
  "edit_line lim line [] = None"
| "edit_line lim line (c # cs) =
     (if c = 13 \<or> c = 10 then Some (line, [10])
      else if c = 127 then
        (if line = [] then edit_line lim line cs
         else map_option (\<lambda>(l, e). (l, [8, 32, 8] @ e)) (edit_line lim (butlast line) cs))
      else if length line < lim then map_option (\<lambda>(l, e). (l, c # e)) (edit_line lim (line @ [c]) cs)
      else edit_line lim line cs)"

lemma putc_shows: "console_ok io inp shown \<Longrightarrow> \<exists>r w'. putc io c w = (r, w') \<and> inp w' = inp w \<and> shown w' = shown w @ [c]"
proof -
  assume "console_ok io inp shown"
  then have "0 \<le> (1 :: int) \<and> 1 \<le> int (length [c]) \<longrightarrow> (\<exists>r w'. io_write io FILEHANDLE_STDOUT [c] 1 w = (r, w') \<and> inp w' = inp w \<and> shown w' = shown w @ take (nat 1) [c])"
    unfolding console_ok_def by blast
  then show ?thesis by (simp add: putc_def)
qed

lemma puts_shows:
  assumes "console_ok io inp shown" and "terminated s" and "length (cstr s) < 2 ^ 31"
  shows "\<exists>r w'. puts io s w = Inr (r, w') \<and> inp w' = inp w \<and> shown w' = shown w @ cstr s"
proof -
  let ?n = "int (length (cstr s))"
  have "0 \<le> ?n \<and> ?n \<le> int (length s)" using cstr_length_less [OF assms(2)] by simp
  then obtain r w' where "io_write io FILEHANDLE_STDOUT s ?n w = (r, w')" "inp w' = inp w" "shown w' = shown w @ take (nat ?n) s"
    using assms(1) unfolding console_ok_def by blast
  moreover have "take (length (cstr s)) s = cstr s" using terminated_decomp [OF assms(2)] by (metis append_eq_conv_conj)
  moreover have "c_int ?n = ?n" using assms(3) by (intro c_int_id) simp_all
  ultimately show ?thesis using user_strlen_eq [OF assms(2)] by (simp add: puts_def)
qed

lemma getc_raw_reads:
  assumes "console_ok io inp shown" and "inp w = c # cs"
  shows "\<exists>w'. getc_raw io b w = Inr (sint c, w') \<and> inp w' = cs \<and> shown w' = shown w"
proof -
  obtain r w' where "io_read io FILEHANDLE_STDIN [b] 1 w = ((r, [c]), w')" "inp w' = cs" "shown w' = shown w"
    using assms unfolding console_ok_def by blast
  then show ?thesis by (simp add: getc_raw_def)
qed

lemma signed_char: "sint (c :: byte) = 13 \<longleftrightarrow> c = 13" "sint (c :: byte) = 10 \<longleftrightarrow> c = 10" "sint (c :: byte) = 127 \<longleftrightarrow> c = 127"
proof -
  have "sint c = sint d \<longleftrightarrow> c = d" for d :: byte by (auto intro: signed_word_eqI)
  from this [of 13] this [of 10] this [of 127]
  show "sint c = 13 \<longleftrightarrow> c = 13" "sint c = 10 \<longleftrightarrow> c = 10" "sint c = 127 \<longleftrightarrow> c = 127" by simp_all
qed

lemma readline_loop_edit:
  assumes con: "console_ok io inp shown"
  shows "edit_line (sz - 1) (take count s) (inp w) = Some (line, echo) \<Longrightarrow> count \<le> sz - 1 \<Longrightarrow> 0 < sz \<Longrightarrow> sz \<le> length s \<Longrightarrow> length (inp w) \<le> n \<Longrightarrow>
    \<exists>s' w'. readline_loop n io b s sz count w = Inr (length line, s', w') \<and> take (length line) s' = line \<and> length line \<le> sz - 1 \<and> length s' = length s \<and>
      drop (sz - 1) s' = drop (sz - 1) s \<and> shown w' = shown w @ echo"
proof (induction n arbitrary: count s w echo)
  case 0
  then show ?case by simp
next
  case (Suc n)
  obtain c cs where c: "inp w = c # cs" using Suc.prems(1) by (cases "inp w") auto
  obtain w1 where w1: "getc_raw io b w = Inr (sint c, w1)" "inp w1 = cs" "shown w1 = shown w" using getc_raw_reads [OF con c] by blast
  have len: "length cs \<le> n" using Suc.prems(5) c by simp
  have tk: "length (take count s) = count" using Suc.prems by simp
  consider "c = 13 \<or> c = 10" | "c = 127" "count = 0" | "c = 127" "0 < count" | "c \<notin> {13, 10, 127}" "count < sz - 1" | "c \<notin> {13, 10, 127}" "\<not> count < sz - 1" by auto
  then show ?case
  proof cases
    case 1
    obtain r w2 where "putc io 10 w1 = (r, w2)" "shown w2 = shown w1 @ [10]" using putc_shows [OF con, of 10 w1] by auto
    then show ?thesis using 1 c w1 Suc.prems by (auto simp: signed_char)
  next
    case 2
    then show ?thesis using c w1 Suc.prems len Suc.IH [of 0 s w1 echo] by (simp add: signed_char)
  next
    case 3
    obtain e where e: "edit_line (sz - 1) (butlast (take count s)) cs = Some (line, e)" "echo = [8, 32, 8] @ e" using 3 c Suc.prems by (auto split: if_splits)
    have "butlast (take count s) = take (count - 1) s" using 3 Suc.prems by (simp add: butlast_take)
    obtain r1 w2 r2 w3 r3 w4 where p: "putc io 8 w1 = (r1, w2)" "putc io 32 w2 = (r2, w3)" "putc io 8 w3 = (r3, w4)"
        "inp w4 = cs" "shown w4 = shown w @ [8, 32, 8]"
      using putc_shows [OF con] w1(2,3) by (metis append.assoc append_Cons append_Nil)
    show ?thesis using 3 c w1 p e Suc.prems len Suc.IH [of "count - 1" s w4 e] \<open>butlast _ = _\<close> by (simp add: signed_char)
  next
    case 4
    obtain e where e: "edit_line (sz - 1) (take count s @ [c]) cs = Some (line, e)" "echo = c # e" using 4 c Suc.prems tk by auto
    obtain r w2 where p: "putc io c w1 = (r, w2)" "inp w2 = cs" "shown w2 = shown w @ [c]" using putc_shows [OF con, of c w1] w1 by auto
    have t: "take (Suc count) (s[count := c]) = take count s @ [c]" using 4 Suc.prems by (simp add: take_Suc_conv_app_nth)
    have d: "drop (sz - 1) (s[count := c]) = drop (sz - 1) s" using 4 by simp
    show ?thesis using 4 c w1 p e t d Suc.prems len Suc.IH [of "Suc count" "s[count := c]" w2 e] by (simp add: signed_char)
  next
    case 5
    then show ?thesis using c w1 Suc.prems len tk Suc.IH [of count s w1 echo] by (simp add: signed_char)
  qed
qed

lemma readline_static_edit:
  assumes "console_ok io inp shown" and "edit_line (sz - 1) [] (inp w) = Some (line, echo)" and "0 < sz" and "sz \<le> length s" and "length (inp w) \<le> n"
  shows "\<exists>s' w'. readline_static n io b s sz w = Inr (length line, s', w') \<and> take (Suc (length line)) s' = line @ [0] \<and> length s' = length s \<and>
    drop sz s' = drop sz s \<and> shown w' = shown w @ echo"
proof -
  obtain s' w' where s': "readline_loop n io b s sz 0 w = Inr (length line, s', w')" "take (length line) s' = line" "length line \<le> sz - 1" "length s' = length s"
      "drop (sz - 1) s' = drop (sz - 1) s" "shown w' = shown w @ echo"
    using readline_loop_edit [OF assms(1), of sz 0 s w line echo n b] assms(2-5) by auto
  have "drop sz xs = drop 1 (drop (sz - 1) xs)" for xs :: "byte list" using assms(3) by simp
  then have "drop sz s' = drop sz s" using s'(5) by presburger
  moreover have "length line < sz" "length line < length s'" using s'(3,4) assms(3,4) by auto
  ultimately show ?thesis using s' by (intro exI [of _ "s'[length line := 0]"] exI [of _ w']) (simp add: readline_static_def take_Suc_conv_app_nth)
qed

end
