(* ===== verification/Userland_Readline.thy ===== *)
theory Userland_Readline
  imports Userland_Lib Userland_Heap
begin

text \<open>
  \<open>readline\<close> of the user library (\<^verbatim>\<open>src/userland/lib.c\<close>): line input into a buffer of the heap that grows with the line. It puts the
  heap and the line input together.
\<close>

section \<open>The code\<close>

text \<open>\<open>buf[i] = v\<close>.\<close>

definition poke :: "int \<Rightarrow> nat \<Rightarrow> byte \<Rightarrow> heap_state \<Rightarrow> heap_state res" where
  "poke buf i v st = (if buf = 0 then Inl NullDeref else Inr (st\<lparr>hmem := (hmem st)(buf + int i := v)\<rparr>))"

text \<open>Room for one more character: \<open>None\<close> when \<open>realloc\<close> fails.\<close>

definition grow_buffer :: "int \<Rightarrow> nat \<Rightarrow> nat \<Rightarrow> heap_state \<Rightarrow> ((int \<times> nat) option \<times> heap_state) res" where
  "grow_buffer buf bufsize count st =
     (if count \<ge> bufsize - 1 then
        rbind (realloc buf (of_nat (bufsize * 2)) st) (\<lambda>(newbuf, st).
        Inr (if newbuf = 0 then None else Some (newbuf, bufsize * 2), st))
      else Inr (Some (buf, bufsize), st))"

fun readline_chars :: "nat \<Rightarrow> 'w io \<Rightarrow> byte \<Rightarrow> int \<Rightarrow> nat \<Rightarrow> nat \<Rightarrow> heap_state \<Rightarrow> 'w \<Rightarrow> (int \<times> nat \<times> heap_state \<times> 'w) res" where
  "readline_chars 0 io c0 buf bufsize count st w = Inl Diverges"
| "readline_chars (Suc n) io c0 buf bufsize count st w =
     rbind (getc_raw io c0 w) (\<lambda>(c, w).
     if c = 13 \<or> c = 10 then let (_, w) = putc io 10 w in Inr (buf, count, st, w)
     else if c = 127 then
       if count > 0 then
         (let (_, w) = putc io 8 w; (_, w) = putc io 32 w; (_, w) = putc io 8 w in readline_chars n io c0 buf bufsize (count - 1) st w)
       else readline_chars n io c0 buf bufsize count st w
     else
       rbind (grow_buffer buf bufsize count st) (\<lambda>(r, st).
       case r of None \<Rightarrow> Inr (buf, count, st, w)
       | Some (buf, bufsize) \<Rightarrow>
           rbind (poke buf count (word_of_int c) st) (\<lambda>st.
           let (_, w) = putc io (word_of_int c) w in readline_chars n io c0 buf bufsize (Suc count) st w)))"

definition readline :: "nat \<Rightarrow> 'w io \<Rightarrow> byte \<Rightarrow> byte list \<Rightarrow> heap_state \<Rightarrow> 'w \<Rightarrow> (int \<times> heap_state \<times> 'w) res" where
  "readline n io c0 prompt st w =
     rbind (malloc 64 st) (\<lambda>(buf, st).
     rbind (puts io prompt w) (\<lambda>(_, w).
     rbind (readline_chars n io c0 buf 64 0 st w) (\<lambda>(buf, count, st, w).
     rbind (poke buf count 0 st) (\<lambda>st.
     rbind (realloc buf (of_nat (count + 1)) st) (\<lambda>(newbuf, st).
     Inr (if newbuf = 0 then buf else newbuf, st, w))))))"

section \<open>The line in the heap\<close>

text \<open>The line that keys give, without a limit.\<close>

definition typed :: "byte list \<Rightarrow> byte list \<Rightarrow> byte list" where
  "typed = foldl (\<lambda>line c. if c = 127 then butlast line else line @ [c])"

lemma typed_simps [simp]: "typed line [] = line" "typed line (c # cs) = typed (if c = 127 then butlast line else line @ [c]) cs"
  by (simp_all add: typed_def)

definition holds :: "heap_state \<Rightarrow> int \<Rightarrow> byte list \<Rightarrow> bool" where
  "holds st buf line \<longleftrightarrow> (\<forall>i < length line. hmem st (buf + int i) = line ! i)"

lemma holds_butlast: "holds st buf line \<Longrightarrow> holds st buf (butlast line)"
  by (simp add: holds_def nth_butlast)

lemma holds_snoc:
  "holds st buf line \<Longrightarrow> holds (st\<lparr>hmem := (hmem st)(buf + int (length line) := c)\<rparr>) buf (line @ [c])"
  by (auto simp: holds_def nth_append less_Suc_eq)

lemma block_size_small: "heap_run H st B \<Longrightarrow> (p, n) \<in> B \<Longrightarrow> n \<le> 256"
proof -
  assume r: "heap_run H st B" and p: "(p, n) \<in> B"
  obtain ts where ts: "heap_rep H st ts" "owns B (used ts)" using heap_run_rep [OF r] by blast
  then show ?thesis using heap_run_blocks(1,2) [OF ts p] by simp
qed

lemma grow_buffer_ok:
  assumes "heap_run H st (insert (buf, sz) B)" and "holds st buf line" and "length line < sz" and "2 \<le> sz" and "(buf, sz) \<notin> B"
  shows "grow_buffer buf sz (length line) st = Inr (None, st) \<and> length line = sz - 1 \<or>
    (\<exists>buf' sz' st'. grow_buffer buf sz (length line) st = Inr (Some (buf', sz'), st') \<and> heap_run H st' (insert (buf', sz') B) \<and> holds st' buf' line \<and>
      Suc (length line) < sz' \<and> 2 \<le> sz' \<and> buf' \<noteq> 0 \<and> (buf', sz') \<notin> B \<and> sz \<le> sz')"
proof (cases "length line \<ge> sz - 1")
  case False
  then show ?thesis using assms run_block_bounds [OF assms(1), of buf sz] by (simp add: grow_buffer_def)
next
  case True
  have sz: "sz \<le> 256" by (rule block_size_small [OF assms(1), of buf]) simp
  then have u: "unat (of_nat (sz * 2) :: u64) = sz * 2" by (simp add: unat_of_nat del: of_nat_mult)
  have nz: "(of_nat (sz * 2) :: u64) \<noteq> 0" "unat (of_nat (sz * 2) :: u64) \<le> 2147479000"
    using u assms(4) sz by (auto simp: unat_eq_0 [symmetric] simp del: of_nat_mult)
  obtain q st' where q: "realloc buf (of_nat (sz * 2)) st = Inr (q, st')" "q = 0 \<longrightarrow> st' = st"
      "q \<noteq> 0 \<longrightarrow> heap_run H st' (insert (q, sz * 2) (insert (buf, sz) B) - {(buf, sz)}) \<and> (q, sz * 2) \<notin> insert (buf, sz) B \<and>
        (\<forall>i < min sz (sz * 2). hmem st' (q + int i) = hmem st (buf + int i))"
    using run_realloc_ok [OF assms(1) _ nz, of buf sz] u by auto
  have "insert (q, sz * 2) (insert (buf, sz) B) - {(buf, sz)} = insert (q, sz * 2) B" using assms(4,5) by auto
  then show ?thesis using True q assms(2-4) by (auto simp: grow_buffer_def holds_def)
qed

lemma readline_chars_ok:
  assumes con: "console_ok io inp shown"
  shows "heap_run H st (insert (buf, sz) B) \<Longrightarrow> (buf, sz) \<notin> B \<Longrightarrow> holds st buf line \<Longrightarrow> length line < sz \<Longrightarrow> 2 \<le> sz \<Longrightarrow>
    inp w = keys @ nl # rest \<Longrightarrow> nl \<in> {13, 10} \<Longrightarrow> set keys \<inter> {13, 10} = {} \<Longrightarrow> length keys < n \<Longrightarrow>
    \<exists>buf' sz' st' w' k l. readline_chars n io c0 buf sz (length line) st w = Inr (buf', length l, st', w') \<and>
      l = typed line (take k keys) \<and> (k = length keys \<or> k < length keys \<and> sz - 1 \<le> length l) \<and>
      heap_run H st' (insert (buf', sz') B) \<and> (buf', sz') \<notin> B \<and> holds st' buf' l \<and> length l < sz' \<and> sz \<le> sz'"
proof (induction n arbitrary: buf sz line st w keys)
  case (Suc n)
  show ?case
  proof (cases keys)
    case Nil
    obtain w1 where w1: "getc_raw io c0 w = Inr (sint nl, w1)" using getc_raw_reads [OF con, of w nl rest] Suc.prems(6) Nil by auto
    obtain r w2 where "putc io 10 w1 = (r, w2)" by (metis surj_pair)
    then have "readline_chars (Suc n) io c0 buf sz (length line) st w = Inr (buf, length line, st, w2)"
      using w1 Suc.prems(7) by (auto simp: signed_char)
    then show ?thesis using Suc.prems Nil by (intro exI [of _ buf] exI [of _ sz] exI [of _ st] exI [of _ w2] exI [of _ 0] exI [of _ line]) simp
  next
    case (Cons c cs)
    obtain w1 where w1: "getc_raw io c0 w = Inr (sint c, w1)" "inp w1 = cs @ nl # rest" using getc_raw_reads [OF con, of w c "cs @ nl # rest"] Suc.prems(6) Cons by auto
    have c: "c \<noteq> 13" "c \<noteq> 10" "set cs \<inter> {13, 10} = {}" "length cs < n" using Suc.prems(8,9) Cons by auto
    have IH: "\<exists>buf' sz' st' w' k l. readline_chars n io c0 buf1 sz1 (length line1) st1 w2 = Inr (buf', length l, st', w') \<and>
        l = typed line (take k keys) \<and> (k = length keys \<or> k < length keys \<and> sz1 - 1 \<le> length l) \<and>
        heap_run H st' (insert (buf', sz') B) \<and> (buf', sz') \<notin> B \<and> holds st' buf' l \<and> length l < sz' \<and> sz1 \<le> sz'"
      if prem: "heap_run H st1 (insert (buf1, sz1) B)" "(buf1, sz1) \<notin> B" "holds st1 buf1 line1" "length line1 < sz1" "2 \<le> sz1" "inp w2 = cs @ nl # rest"
        "line1 = (if c = 127 then butlast line else line @ [c])" for buf1 sz1 line1 st1 w2
    proof -
      obtain buf' sz' st' w' k l where R: "readline_chars n io c0 buf1 sz1 (length line1) st1 w2 = Inr (buf', length l, st', w')"
          "l = typed line1 (take k cs)" "k = length cs \<or> k < length cs \<and> sz1 - 1 \<le> length l"
          "heap_run H st' (insert (buf', sz') B)" "(buf', sz') \<notin> B" "holds st' buf' l" "length l < sz'" "sz1 \<le> sz'"
        using Suc.IH [OF prem(1-6) Suc.prems(7) c(3,4)] by blast
      show ?thesis using R prem(7) Cons
        by (intro exI [of _ buf'] exI [of _ sz'] exI [of _ st'] exI [of _ w'] exI [of _ "Suc k"] exI [of _ l]) auto
    qed
    consider "c = 127" "line = []" | "c = 127" "line \<noteq> []" | "c \<noteq> 127" by blast
    then show ?thesis
    proof cases
      case 1
      then show ?thesis using w1 IH [of st buf sz line w1] Suc.prems(1-5) by (simp add: signed_char)
    next
      case 2
      obtain r1 w2 r2 w3 r3 w4 where p: "putc io 8 w1 = (r1, w2)" "putc io 32 w2 = (r2, w3)" "putc io 8 w3 = (r3, w4)" "inp w4 = cs @ nl # rest"
        using putc_shows [OF con] w1(2) by metis
      show ?thesis using 2 w1 p IH [of st buf sz "butlast line" w4] Suc.prems(1-5) holds_butlast [OF Suc.prems(3)] by (simp add: signed_char)
    next
      case 3
      have rl: "readline_chars (Suc n) io c0 buf sz (length line) st w = rbind (grow_buffer buf sz (length line) st) (\<lambda>(r, st).
          case r of None \<Rightarrow> Inr (buf, length line, st, w1)
          | Some (buf, sz) \<Rightarrow> rbind (poke buf (length line) (word_of_int (sint c)) st) (\<lambda>st.
              let (_, w) = putc io (word_of_int (sint c)) w1 in readline_chars n io c0 buf sz (Suc (length line)) st w))"
        using 3 c(1,2) w1(1) by (simp add: signed_char)
      consider "grow_buffer buf sz (length line) st = Inr (None, st)" "length line = sz - 1"
        | buf1 sz1 st1 where "grow_buffer buf sz (length line) st = Inr (Some (buf1, sz1), st1)" "heap_run H st1 (insert (buf1, sz1) B)" "holds st1 buf1 line"
          "Suc (length line) < sz1" "2 \<le> sz1" "buf1 \<noteq> 0" "(buf1, sz1) \<notin> B" "sz \<le> sz1"
        using grow_buffer_ok [OF Suc.prems(1,3,4,5,2)] by blast
      then show ?thesis
      proof cases
        case 1
        then have "readline_chars (Suc n) io c0 buf sz (length line) st w = Inr (buf, length line, st, w1)" using rl by simp
        then show ?thesis using Suc.prems(1-4) 1 Cons by (intro exI [of _ buf] exI [of _ sz] exI [of _ st] exI [of _ w1] exI [of _ 0] exI [of _ line]) simp
      next
        case g: 2
        obtain r w2 where p: "putc io c w1 = (r, w2)" "inp w2 = cs @ nl # rest" using putc_shows [OF con, of c w1] w1(2) by auto
        let ?st = "st1\<lparr>hmem := (hmem st1)(buf1 + int (length line) := c)\<rparr>"
        have h: "heap_run H ?st (insert (buf1, sz1) B)" by (rule run_store [OF g(2), of buf1 sz1]) (use g(4) in auto)
        have e: "readline_chars (Suc n) io c0 buf sz (length line) st w = readline_chars n io c0 buf1 sz1 (length (line @ [c])) ?st w2"
          unfolding rl using g(1,6) p(1) by (simp add: poke_def)
        have l: "length (line @ [c]) < sz1" "line @ [c] = (if c = 127 then butlast line else line @ [c])" using g(4) 3 by simp_all
        obtain buf' sz' st' w' k l where "readline_chars n io c0 buf1 sz1 (length (line @ [c])) ?st w2 = Inr (buf', length l, st', w')"
            "l = typed line (take k keys)" "k = length keys \<or> k < length keys \<and> sz1 - 1 \<le> length l"
            "heap_run H st' (insert (buf', sz') B)" "(buf', sz') \<notin> B" "holds st' buf' l" "length l < sz'" "sz1 \<le> sz'"
          using IH [OF h g(7) holds_snoc [OF g(3)] l(1) g(5) p(2) l(2)] by blast
        then show ?thesis unfolding e using g(8)
          by (intro exI [of _ buf'] exI [of _ sz'] exI [of _ st'] exI [of _ w'] exI [of _ k] exI [of _ l]) auto
      qed
    qed
  qed
qed simp

lemma readline_ok:
  assumes con: "console_ok io inp shown" and run: "heap_run H st B" and mal: "malloc 64 st = Inr (p, st0)" "p \<noteq> 0"
    and prompt: "terminated prompt" "length (cstr prompt) < 2 ^ 31"
    and keys: "inp w = keys @ nl # rest" "nl \<in> {13, 10}" "set keys \<inter> {13, 10} = {}" "length keys < n"
  shows "\<exists>q m st' w' k l. readline n io c0 prompt st w = Inr (q, st', w') \<and> l = typed [] (take k keys) \<and>
    (k = length keys \<or> k < length keys \<and> 63 \<le> length l) \<and> heap_run H st' (insert (q, m) B) \<and> length l < m \<and> holds st' q (l @ [0])"
proof -
  have m: "heap_run H st0 (insert (p, 64) B)" "(p, 64) \<notin> B" using run_malloc_ok [OF run, of 64] mal by fastforce+
  obtain r w1 where w1: "puts io prompt w = Inr (r, w1)" "inp w1 = inp w" using puts_shows [OF con prompt] by blast
  have h0: "holds st0 p []" and i1: "inp w1 = keys @ nl # rest" using w1(2) keys(1) by (simp_all add: holds_def)
  have n: "length ([] :: byte list) < 64" "2 \<le> (64 :: nat)" "64 - 1 = (63 :: nat)" by simp_all
  obtain buf sz st1 w' k l where R: "readline_chars n io c0 p 64 0 st0 w1 = Inr (buf, length l, st1, w')" "l = typed [] (take k keys)"
      "k = length keys \<or> k < length keys \<and> 63 \<le> length l" "heap_run H st1 (insert (buf, sz) B)" "(buf, sz) \<notin> B" "holds st1 buf l" "length l < sz"
    using readline_chars_ok [OF con m h0 n(1,2) i1 keys(2-4), of c0] unfolding n(3) list.size by blast
  have b: "buf \<noteq> 0" "sz \<le> 256" using run_block_bounds [OF R(4), of buf sz] block_size_small [OF R(4), of buf sz] by auto
  let ?st = "st1\<lparr>hmem := (hmem st1)(buf + int (length l) := 0)\<rparr>" and ?n = "length l + 1"
  have h: "heap_run H ?st (insert (buf, sz) B)" "holds ?st buf (l @ [0])"
    using run_store [OF R(4), of buf sz "buf + int (length l)" 0] R(7) holds_snoc [OF R(6)] by auto
  have u: "unat (of_nat ?n :: u64) = ?n" using R(7) b(2) by (simp add: unat_of_nat del: of_nat_add of_nat_Suc)
  have nz: "(of_nat ?n :: u64) \<noteq> 0" "unat (of_nat ?n :: u64) \<le> 2147479000"
    using u R(7) b(2) by (auto simp: unat_eq_0 [symmetric] simp del: of_nat_add of_nat_Suc)
  obtain q st' where q: "realloc buf (of_nat ?n) ?st = Inr (q, st')" "q = 0 \<longrightarrow> st' = ?st"
      "q \<noteq> 0 \<longrightarrow> heap_run H st' (insert (q, ?n) (insert (buf, sz) B) - {(buf, sz)}) \<and> (q, ?n) \<notin> insert (buf, sz) B \<and>
        (\<forall>i < min sz ?n. hmem st' (q + int i) = hmem ?st (buf + int i))"
    using run_realloc_ok [OF h(1) _ nz, of buf sz] u by auto
  have rl: "readline n io c0 prompt st w = Inr (if q = 0 then buf else q, st', w')"
    using mal(1) w1(1) R(1) b(1) q(1) by (simp add: readline_def poke_def del: of_nat_add of_nat_Suc)
  show ?thesis
  proof (cases "q = 0")
    case True
    then show ?thesis using rl q(2) R h by auto
  next
    case False
    then have "insert (q, ?n) (insert (buf, sz) B) - {(buf, sz)} = insert (q, ?n) B" using q(3) R(5) by auto
    moreover have "holds st' q (l @ [0])" using False q(3) h(2) R(7) unfolding holds_def by auto
    ultimately show ?thesis using False rl q(3) R(2,3) by (intro exI [of _ q] exI [of _ ?n]) auto
  qed
qed

end
