(* ===== verification/Library_Properties.thy ===== *)
theory Library_Properties
  imports Userland_Readline Userland_Properties
begin

text \<open>
  The theorems about formatted output, strings and line input. \<open>ex_console\<close> is a console with the characters that will be typed and
  those shown.
\<close>

section \<open>Formatted output\<close>


definition ex_sink :: sink where
  "ex_sink = \<lparr>buffer = replicate 8 255, tty = [], kprintf_slock = 0, con_intr = True\<rparr>"



text \<open>
  C36. A number printed with \<^verbatim>\<open>%d\<close> is read back by \<open>atoi\<close>: every 32-bit integer, through an array of twelve bytes.
\<close>

theorem printf_atoi:
  assumes "12 \<le> length (buffer st)"
  shows "\<exists>n st'. snprintf 12 [37, 100, 0] [Va_word x] st = Inr (n, st') \<and> atoi (buffer st') = Inr (sint (ucast x :: u32))"
proof -
  let ?a = "sint (ucast x :: u32)"
  let ?t = "(if ?a < 0 then [45] else []) @ base_digits 10 False (nat \<bar>?a\<bar>)"
  have r: "- (2 ^ 31) \<le> ?a" "?a < 2 ^ 31" using sint_range_size [of "ucast x :: u32"] by (simp_all add: word_size)
  have p: "printed kernel_cfg [37, 100, 0] [Va_word x] = Some ?t"
    by (simp add: printed_def field_text_def Let_def)
  have "length (base_digits 10 False (nat \<bar>?a\<bar>)) \<le> 10" by (rule decimal_length) (use r in simp_all)
  moreover have "length (if ?a < 0 then [45 :: byte] else []) \<le> 1" by simp
  ultimately have l: "length ?t < 12" unfolding length_append by linarith
  have "snprintf (int 12) [37, 100, 0] [Va_word x] st = Inr (int (length ?t), st\<lparr>buffer := ?t @ 0 # drop (Suc (length ?t)) (buffer st)\<rparr>)"
    using vxnprintf_buffer [OF cfg_ok_kernel p _ assms] l by (simp add: snprintf_def min_absorb1)
  then show ?thesis using atoi_printed [OF r] by simp
qed

theorem printf_atoi_witness:
  "\<exists>n st'. snprintf 12 [37, 100, 0] [Va_word (- 2147483648)] (ex_sink\<lparr>buffer := replicate 16 0\<rparr>) = Inr (n, st') \<and> atoi (buffer st') = Inr (- 2147483648)"
  using printf_atoi [of "ex_sink\<lparr>buffer := replicate 16 0\<rparr>" "- 2147483648"] by simp

text \<open>
  A field width that starts with the digit 9 hangs the kernel and every user program: \<open>scan_int\<close> does not take the digit, so the
  loop over the modifiers reads it for ever, whatever the bound.
\<close>

lemma width_nine_hangs:
  "scan_mods n 57 fmt flags width prec = Inl Diverges \<and>
   (kprintf_slock st = 0 \<longrightarrow> kprintf (37 # 57 # fmt) ap st = Inl Diverges) \<and> user_printf (37 # 57 # fmt) ap st = Inl Diverges"
  by (simp add: scan_nine kprintf_def user_printf_def user_vxnprintf_def vxnprintf_def Let_def del: scan_mods.simps)

text \<open>A negative number with the flag \<open>+\<close> is printed with two signs, and the second may be written behind the array.\<close>

lemma snprintf_overruns:
  "snprintf 4 [37, 43, 100, 0] [Va_word (- 1)] ex_sink = Inr (3, ex_sink\<lparr>buffer := [45, 43, 49, 0] @ replicate 4 255\<rparr>)"
  "snprintf 1 [37, 43, 100, 0] [Va_word (- 1)] (ex_sink\<lparr>buffer := [255]\<rparr>) = Inl OutOfBounds"
  by code_simp+

section \<open>Strings\<close>

text \<open>\<open>strstr\<close> finds the first occurrence of the second string in the first, if there is one.\<close>

lemma strstr_first:
  assumes "terminated s1" and "terminated s2"
  shows "case strstr s1 s2 of Inl e \<Rightarrow> False
    | Inr None \<Rightarrow> \<forall>k < length (cstr s1). take (length (cstr s2)) (drop k (cstr s1)) \<noteq> cstr s2
    | Inr (Some k) \<Rightarrow> k < length (cstr s1) \<and> take (length (cstr s2)) (drop k (cstr s1)) = cstr s2 \<and>
        (\<forall>j < k. take (length (cstr s2)) (drop j (cstr s1)) \<noteq> cstr s2)"
proof -
  have "strstr s1 s2 = Inr (first_match (cstr s1) (cstr s2))"
    using strstr_loop_eq [OF assms(1), of s2 0] user_strlen_eq [OF assms(2)] by (simp add: strstr_def option.map_ident)
  then show ?thesis using first_match_Some [of "cstr s1" "cstr s2"] first_match_None [of "cstr s1" "cstr s2"]
    by (cases "first_match (cstr s1) (cstr s2)") auto
qed

section \<open>Line input\<close>






text \<open>
  \<open>gets\<close> always writes behind its buffer: the terminating zero goes one position too far.
\<close>

lemma gets_overruns:
  assumes "\<forall>b w. length (snd (fst (io_read io FILEHANDLE_STDIN [b] 1 w))) = 1" and "0 < sz" and "length s = sz"
  shows "gets io c0 s sz w = Inl OutOfBounds"
proof -
  have g: "\<exists>c w'. getc io c0 w = Inr (c, w')" for w
  proof -
    obtain r buf w1 where b: "io_read io FILEHANDLE_STDIN [c0] 1 w = ((r, buf), w1)" by (metis prod.exhaust)
    then have "length buf = 1" using assms(1) by (metis fst_conv snd_conv)
    then show ?thesis using b by (auto simp: getc_def getc_raw_def lget_def split: prod.split)
  qed
  have "\<exists>s' w'. gets_loop n io c0 s count w = Inr (count + n, s', w') \<and> length s' = length s" if "count + n \<le> length s" for n count s w
    using that
  proof (induction n arbitrary: count s w)
    case (Suc n)
    obtain c w' where "getc io c0 w = Inr (c, w')" using g by blast
    then show ?case using Suc.IH [of "Suc count" "s[count := word_of_int c]" w'] Suc.prems by simp
  qed simp
  from this [of 0 "sz - 1" s w] obtain s' w' where "gets_loop (sz - 1) io c0 s 0 w = Inr (sz - 1, s', w')" "length s' = sz" using assms(3) by auto
  then show ?thesis using assms(2) by (simp add: gets_def lset_def)
qed

end
