(* ===== verification/Disk_Driver.thy ===== *)
theory Disk_Driver
  imports Kudos_Prelude
begin

text \<open>
  The interrupt-driven disk driver of the mips32 build (\<^verbatim>\<open>src/kudos/drivers/mips32/disk.c\<close>) with the disk scheduler
  (\<^verbatim>\<open>src/kudos/drivers/disksched.c\<close>). Requests are structures at addresses (0 is NULL), linked into a queue. What the driver reads from the
  device is an argument, \<open>st i\<close> is what the status register holds at the \<open>i\<close>-th place where a call reads it; what it writes to the device is
  recorded. Semaphores are their values, and a synchronous call is split where it waits.
\<close>

section \<open>Data\<close>

record gbd_request =
  req_block :: u32
  req_buf :: u32
  req_sem :: int
  req_operation :: int
  req_internal :: int
  req_next :: int
  req_return :: int

datatype disk_reg = Command | Tsector | Dmaaddr

record disk_dev =
  disk_slock :: int
  request_queue :: int
  request_served :: int
  requests :: "int \<rightharpoonup> gbd_request"
  disk_sems :: "int \<rightharpoonup> int"
  disk_io :: "(disk_reg \<times> u32) list"
  disk_intr :: bool

abbreviation (input) GBD_OPERATION_READ :: int where "GBD_OPERATION_READ \<equiv> 0"
abbreviation (input) GBD_OPERATION_WRITE :: int where "GBD_OPERATION_WRITE \<equiv> 1"
abbreviation (input) DISK_COMMAND_READ :: u32 where "DISK_COMMAND_READ \<equiv> 0x1"
abbreviation (input) DISK_COMMAND_WRITE :: u32 where "DISK_COMMAND_WRITE \<equiv> 0x2"
abbreviation (input) DISK_COMMAND_RIRQ :: u32 where "DISK_COMMAND_RIRQ \<equiv> 0x3"
abbreviation (input) DISK_COMMAND_WIRQ :: u32 where "DISK_COMMAND_WIRQ \<equiv> 0x4"
abbreviation (input) DISK_COMMAND_BLOCKS :: u32 where "DISK_COMMAND_BLOCKS \<equiv> 0x5"
abbreviation (input) DISK_COMMAND_BLOCKSIZE :: u32 where "DISK_COMMAND_BLOCKSIZE \<equiv> 0x6"

definition DISK_STATUS_RBUSY :: "u32 \<Rightarrow> bool" where "DISK_STATUS_RBUSY s \<longleftrightarrow> s AND 0x00000001 \<noteq> 0"
definition DISK_STATUS_WBUSY :: "u32 \<Rightarrow> bool" where "DISK_STATUS_WBUSY s \<longleftrightarrow> s AND 0x00000002 \<noteq> 0"
definition DISK_STATUS_RIRQ :: "u32 \<Rightarrow> bool" where "DISK_STATUS_RIRQ s \<longleftrightarrow> s AND 0x00000004 \<noteq> 0"
definition DISK_STATUS_WIRQ :: "u32 \<Rightarrow> bool" where "DISK_STATUS_WIRQ s \<longleftrightarrow> s AND 0x00000008 \<noteq> 0"
definition DISK_STATUS_ERRORS :: "u32 \<Rightarrow> bool" where "DISK_STATUS_ERRORS s \<longleftrightarrow> s AND 0xf8000000 \<noteq> 0"

definition upd_request :: "int \<Rightarrow> (gbd_request \<Rightarrow> gbd_request) \<Rightarrow> disk_dev \<Rightarrow> disk_dev res" where
  "upd_request r f s = rbind (aget (requests s) r) (\<lambda>e. Inr (s\<lparr>requests := (requests s)(r \<mapsto> f e)\<rparr>))"

definition io_out :: "disk_reg \<Rightarrow> u32 \<Rightarrow> disk_dev \<Rightarrow> disk_dev" where
  "io_out reg v s = s\<lparr>disk_io := disk_io s @ [(reg, v)]\<rparr>"

definition disk_lock :: "disk_dev \<Rightarrow> disk_dev res" where
  "disk_lock s = (if disk_slock s \<noteq> 0 then Inl Spin else Inr (s\<lparr>disk_slock := 1\<rparr>))"

definition disk_unlock :: "disk_dev \<Rightarrow> disk_dev" where
  "disk_unlock s = s\<lparr>disk_slock := 0\<rparr>"

section \<open>Operations\<close>

text \<open>The driver's part of \<open>disk_init\<close>: the lock and the queue.\<close>

definition disk_init :: "disk_dev \<Rightarrow> disk_dev" where
  "disk_init s = s\<lparr>disk_slock := 0, request_queue := 0, request_served := 0\<rparr>"

text \<open>The last request of the queue that starts at \<open>q\<close>; the first argument bounds the number of steps.\<close>

fun queue_end :: "nat \<Rightarrow> int \<Rightarrow> disk_dev \<Rightarrow> int res" where
  "queue_end 0 q s = Inl Diverges"
| "queue_end (Suc n) q s =
     rbind (aget (requests s) q) (\<lambda>e. if req_next e \<noteq> 0 then queue_end n (req_next e) s else Inr q)"

definition disksched_schedule :: "nat \<Rightarrow> int \<Rightarrow> disk_dev \<Rightarrow> disk_dev res" where
  "disksched_schedule n request s =
     (if request_queue s \<noteq> 0 then
        rbind (queue_end n (request_queue s) s) (\<lambda>q. upd_request q (\<lambda>e. e\<lparr>req_next := request\<rparr>) s)
      else Inr (s\<lparr>request_queue := request\<rparr>))"

definition disk_next_request :: "(nat \<Rightarrow> u32) \<Rightarrow> disk_dev \<Rightarrow> disk_dev res" where
  "disk_next_request st s =
     rbind (kassert (\<not> (DISK_STATUS_RBUSY (st 0) \<or> DISK_STATUS_WBUSY (st 1)))) (\<lambda>_.
     rbind (kassert (request_served s = 0)) (\<lambda>_.
     let req = request_queue s in
     if req = 0 then Inr s else
     rbind (aget (requests s) req) (\<lambda>e.
     let s = s\<lparr>request_queue := req_next e\<rparr> in
     rbind (upd_request req (\<lambda>e. e\<lparr>req_next := 0\<rparr>) s) (\<lambda>s.
     let s = io_out Dmaaddr (req_buf e) (io_out Tsector (req_block e) (s\<lparr>request_served := req\<rparr>)) in
     rbind (if req_operation e = GBD_OPERATION_READ then Inr (io_out Command DISK_COMMAND_READ s)
            else if req_operation e = GBD_OPERATION_WRITE then Inr (io_out Command DISK_COMMAND_WRITE s)
            else Inl Panic) (\<lambda>s.
     if DISK_STATUS_ERRORS (st 2) then Inl Panic else Inr s)))))"

definition disk_interrupt_handle :: "(nat \<Rightarrow> u32) \<Rightarrow> disk_dev \<Rightarrow> disk_dev res" where
  "disk_interrupt_handle st s =
     rbind (disk_lock s) (\<lambda>s.
     if \<not> (DISK_STATUS_RIRQ (st 0) \<or> DISK_STATUS_WIRQ (st 1)) then Inr (disk_unlock s) else
     let s = io_out Command DISK_COMMAND_RIRQ (io_out Command DISK_COMMAND_WIRQ s) in
     rbind (kassert (request_served s \<noteq> 0)) (\<lambda>_.
     rbind (upd_request (request_served s) (\<lambda>e. e\<lparr>req_return := 0\<rparr>) s) (\<lambda>s.
     rbind (aget (requests s) (request_served s)) (\<lambda>e.
     rbind (aget (disk_sems s) (req_sem e)) (\<lambda>v.
     let s = s\<lparr>disk_sems := (disk_sems s)(req_sem e \<mapsto> v + 1), request_served := 0\<rparr> in
     rbind (disk_next_request (\<lambda>i. st (i + 2)) s) (\<lambda>s. Inr (disk_unlock s)))))))"

text \<open>
  \<open>disk_submit_request\<close> up to \<open>semaphore_P\<close>: \<open>Some v\<close> is the result, \<open>None\<close> means that a synchronous call waits for its semaphore. \<open>newsem\<close>
  is what \<open>semaphore_create\<close> returns.
\<close>

definition disk_submit_request :: "nat \<Rightarrow> int \<Rightarrow> (nat \<Rightarrow> u32) \<Rightarrow> int \<Rightarrow> disk_dev \<Rightarrow> (int option \<times> disk_dev) res" where
  "disk_submit_request n newsem st request s =
     rbind (upd_request request (\<lambda>e. e\<lparr>req_internal := 0, req_next := 0, req_return := - 1\<rparr>) s) (\<lambda>s.
     rbind (aget (requests s) request) (\<lambda>e.
     let sem_null = (req_sem e = 0) in
     rbind (if sem_null then upd_request request (\<lambda>e. e\<lparr>req_sem := newsem\<rparr>) s else Inr s) (\<lambda>s.
     if sem_null \<and> newsem = 0 then Inr (Some 0, s) else
     let s = (if sem_null then s\<lparr>disk_sems := (disk_sems s)(newsem \<mapsto> 0)\<rparr> else s);
         intr_status = disk_intr s in
     rbind (disk_lock (s\<lparr>disk_intr := False\<rparr>)) (\<lambda>s.
     rbind (disksched_schedule n request s) (\<lambda>s.
     rbind (if request_served s = 0 then disk_next_request st s else Inr s) (\<lambda>s.
     let s = (disk_unlock s)\<lparr>disk_intr := intr_status\<rparr> in
     Inr (if sem_null then None else Some 1, s)))))))"

text \<open>The rest of a synchronous call, when its semaphore has been raised.\<close>

definition disk_submit_resume :: "int \<Rightarrow> disk_dev \<Rightarrow> (int \<times> disk_dev) res" where
  "disk_submit_resume request s =
     rbind (aget (requests s) request) (\<lambda>e.
     rbind (aget (disk_sems s) (req_sem e)) (\<lambda>v.
     if v \<le> 0 then Inl Blocked else
     let s = s\<lparr>disk_sems := (disk_sems s)(req_sem e := None)\<rparr> in
     rbind (upd_request request (\<lambda>e. e\<lparr>req_sem := 0\<rparr>) s) (\<lambda>s.
     Inr (if req_return e = 0 then 1 else 0, s))))"

definition disk_read_block :: "nat \<Rightarrow> int \<Rightarrow> (nat \<Rightarrow> u32) \<Rightarrow> int \<Rightarrow> disk_dev \<Rightarrow> (int option \<times> disk_dev) res" where
  "disk_read_block n newsem st request s =
     rbind (upd_request request (\<lambda>e. e\<lparr>req_operation := GBD_OPERATION_READ\<rparr>) s) (\<lambda>s. disk_submit_request n newsem st request s)"

definition disk_write_block :: "nat \<Rightarrow> int \<Rightarrow> (nat \<Rightarrow> u32) \<Rightarrow> int \<Rightarrow> disk_dev \<Rightarrow> (int option \<times> disk_dev) res" where
  "disk_write_block n newsem st request s =
     rbind (upd_request request (\<lambda>e. e\<lparr>req_operation := GBD_OPERATION_WRITE\<rparr>) s) (\<lambda>s. disk_submit_request n newsem st request s)"

text \<open>The queries; \<open>data\<close> is what the data register holds after the command.\<close>

definition disk_query :: "u32 \<Rightarrow> u32 \<Rightarrow> disk_dev \<Rightarrow> (u32 \<times> disk_dev) res" where
  "disk_query cmd data s =
     (let intr_status = disk_intr s in
      rbind (disk_lock (s\<lparr>disk_intr := False\<rparr>)) (\<lambda>s.
      Inr (data, (disk_unlock (io_out Command cmd s))\<lparr>disk_intr := intr_status\<rparr>)))"

definition disk_block_size :: "u32 \<Rightarrow> disk_dev \<Rightarrow> (u32 \<times> disk_dev) res" where
  "disk_block_size data s = disk_query DISK_COMMAND_BLOCKSIZE data s"

definition disk_total_blocks :: "u32 \<Rightarrow> disk_dev \<Rightarrow> (u32 \<times> disk_dev) res" where
  "disk_total_blocks data s = disk_query DISK_COMMAND_BLOCKS data s"

section \<open>The queue\<close>

fun queued :: "(int \<rightharpoonup> gbd_request) \<Rightarrow> int \<Rightarrow> int list \<Rightarrow> bool" where
  "queued R q [] \<longleftrightarrow> q = 0"
| "queued R q (r # rs) \<longleftrightarrow> q = r \<and> r \<noteq> 0 \<and> (\<exists>e. R r = Some e \<and> queued R (req_next e) rs)"

lemma queued_cong: "(\<And>r. r \<in> set rs \<Longrightarrow> map_option req_next (R' r) = map_option req_next (R r)) \<Longrightarrow> queued R' q rs = queued R q rs"
proof (induction rs arbitrary: q)
  case (Cons r rs)
  have "map_option req_next (R' r) = map_option req_next (R r)" using Cons.prems by simp
  moreover have "queued R' p rs = queued R p rs" for p using Cons by simp
  ultimately show ?case by (auto simp: map_option_case split: option.splits)
qed simp

lemma queued_upd: "x \<notin> set rs \<Longrightarrow> queued (R(x \<mapsto> e)) q rs = queued R q rs"
  by (rule queued_cong) auto

lemma queued_in: "queued R q rs \<Longrightarrow> r \<in> set rs \<Longrightarrow> r \<noteq> 0 \<and> (\<exists>e. R r = Some e)"
  by (induction rs arbitrary: q) auto

lemma queue_end_last:
  "queued (requests s) q (rs @ [r]) \<Longrightarrow> length rs < n \<Longrightarrow> queue_end n q s = Inr r"
proof (induction rs arbitrary: q n)
  case Nil
  then show ?case by (cases n) auto
next
  case (Cons x rs)
  then obtain k e where k: "n = Suc k" "requests s x = Some e" "queued (requests s) (req_next e) (rs @ [r])" "q = x" by (cases n) auto
  then have "req_next e \<noteq> 0" by (cases rs) auto
  then show ?case using k Cons.IH [OF k(3)] Cons.prems by simp
qed

lemma queued_snoc:
  assumes "queued R q (rs @ [x])" and "distinct (rs @ [x])" and "r \<notin> set (rs @ [x])" and "r \<noteq> 0" and "R r = Some e" and "req_next e = 0"
    and "R x = Some f"
  shows "queued (R(x \<mapsto> f\<lparr>req_next := r\<rparr>)) q (rs @ [x, r])"
  using assms
proof (induction rs arbitrary: q)
  case (Cons y rs)
  then show ?case by auto
qed auto

text \<open>The requests up to their links, which belong to the queue.\<close>

definition strip :: "(int \<rightharpoonup> gbd_request) \<Rightarrow> int \<rightharpoonup> gbd_request" where
  "strip R r = map_option (\<lambda>e. e\<lparr>req_next := 0\<rparr>) (R r)"

lemma strip_upd [simp]: "strip (R(r \<mapsto> e)) = (strip R)(r \<mapsto> e\<lparr>req_next := 0\<rparr>)"
  by (rule ext) (simp add: strip_def)

lemma strip_relink: "R r = Some e \<Longrightarrow> strip (R(r \<mapsto> e\<lparr>req_next := x\<rparr>)) = strip R"
  by (rule ext) (simp add: strip_def)

lemma strip_some: "strip R' = strip R \<Longrightarrow> R r = Some e \<Longrightarrow> \<exists>l. R' r = Some (e\<lparr>req_next := l\<rparr>)"
proof -
  assume eq: "strip R' = strip R" and e: "R r = Some e"
  have "map_option (\<lambda>e. e\<lparr>req_next := 0\<rparr>) (R' r) = Some (e\<lparr>req_next := 0\<rparr>)" using fun_cong [OF eq, of r] e by (simp add: strip_def)
  then obtain f where f: "R' r = Some f" "f\<lparr>req_next := 0\<rparr> = e\<lparr>req_next := 0\<rparr>" by auto
  have "f = e\<lparr>req_next := req_next f\<rparr>" using f(2) by (cases e, cases f) simp
  then show ?thesis using f(1) by metis
qed

section \<open>The driver's invariant\<close>

text \<open>\<open>xs\<close> are the requests the driver holds, the one under work first.\<close>

definition disk_ready :: "disk_dev \<Rightarrow> int \<Rightarrow> bool" where
  "disk_ready s r \<longleftrightarrow> r \<noteq> 0 \<and> (\<exists>e. strip (requests s) r = Some e \<and> req_operation e \<in> {0, 1} \<and> req_sem e \<noteq> 0 \<and> (\<exists>v. disk_sems s (req_sem e) = Some v))"

definition disk_holds :: "disk_dev \<Rightarrow> int list \<Rightarrow> bool" where
  "disk_holds s xs \<longleftrightarrow> disk_slock s = 0 \<and> distinct xs \<and> (\<forall>r\<in>set xs. disk_ready s r) \<and>
     (case xs of [] \<Rightarrow> request_served s = 0 \<and> request_queue s = 0
      | x # qs \<Rightarrow> request_served s = x \<and> queued (requests s) (request_queue s) qs)"

text \<open>What starts a request on the device.\<close>

definition disk_start :: "gbd_request \<Rightarrow> (disk_reg \<times> u32) list" where
  "disk_start e = [(Tsector, req_block e), (Dmaaddr, req_buf e),
     (Command, if req_operation e = GBD_OPERATION_READ then DISK_COMMAND_READ else DISK_COMMAND_WRITE)]"

definition disk_idle :: "(nat \<Rightarrow> u32) \<Rightarrow> bool" where
  "disk_idle st \<longleftrightarrow> \<not> DISK_STATUS_RBUSY (st 0) \<and> \<not> DISK_STATUS_WBUSY (st 1) \<and> \<not> DISK_STATUS_ERRORS (st 2)"

lemma disk_ready_cong:
  "strip (requests t) r = strip (requests s) r \<Longrightarrow> disk_sems t = disk_sems s \<Longrightarrow> disk_ready t r = disk_ready s r"
  by (simp add: disk_ready_def)

lemma disk_ready_mono:
  "disk_ready s r \<Longrightarrow> strip (requests t) r = strip (requests s) r \<Longrightarrow> dom (disk_sems s) \<subseteq> dom (disk_sems t) \<Longrightarrow> disk_ready t r"
  unfolding disk_ready_def by (metis domIff domI option.distinct(1) option.exhaust subsetD)

lemma disk_next_request_queued:
  assumes "queued (requests s) (request_queue s) qs" and "distinct qs" and "\<forall>r\<in>set qs. disk_ready s r"
    and "request_served s = 0" and "disk_idle st"
  obtains s' where "disk_next_request st s = Inr s'" and "disk_holds (s'\<lparr>disk_slock := 0\<rparr>) qs"
    and "strip (requests s') = strip (requests s)" and "disk_sems s' = disk_sems s" and "disk_intr s' = disk_intr s"
    and "disk_io s' = disk_io s @ (case qs of [] \<Rightarrow> [] | r # _ \<Rightarrow> disk_start (the (strip (requests s) r)))"
    and "disk_slock s' = disk_slock s"
proof (cases qs)
  case Nil
  then show ?thesis using assms by (intro that [of s]) (auto simp: disk_next_request_def disk_idle_def disk_holds_def)
next
  case (Cons r rs)
  then obtain e where e: "request_queue s = r" "r \<noteq> 0" "requests s r = Some e" "queued (requests s) (req_next e) rs" "req_operation e \<in> {0, 1}"
    using assms by (auto simp: disk_ready_def strip_def)
  define s' where "s' = s\<lparr>request_queue := req_next e, requests := (requests s)(r \<mapsto> e\<lparr>req_next := 0\<rparr>), request_served := r,
     disk_io := disk_io s @ disk_start e\<rparr>"
  have st: "strip (requests s') = strip (requests s)" using strip_relink [of "requests s" r e 0] e(3) by (simp add: s'_def del: strip_upd)
  have rs: "r \<notin> set rs" using assms(2) Cons by simp
  have "queued (requests s') (req_next e) rs" using e(4) rs by (simp add: s'_def queued_upd)
  moreover have "\<forall>r\<in>set qs. disk_ready (s'\<lparr>disk_slock := 0\<rparr>) r"
    using assms(3) st by (simp add: disk_ready_def) (simp add: s'_def)
  ultimately have "disk_holds (s'\<lparr>disk_slock := 0\<rparr>) qs"
    using assms(2) Cons by (auto simp: disk_holds_def s'_def)
  moreover have "disk_next_request st s = Inr s'"
    using assms(4,5) e by (auto simp: disk_next_request_def disk_idle_def upd_request_def io_out_def disk_start_def s'_def Let_def)
  moreover have "disk_start e = disk_start (the (strip (requests s) r))" using e(3) by (simp add: strip_def disk_start_def)
  ultimately show ?thesis using st Cons by (intro that [of s']) (simp_all add: s'_def)
qed

lemma disksched_schedule_queued:
  assumes "queued (requests s) (request_queue s) qs" and "distinct qs" and "r \<notin> set qs" and "r \<noteq> 0"
    and "requests s r = Some e" and "req_next e = 0" and "length qs \<le> n"
  obtains s' where "disksched_schedule n r s = Inr s'" and "queued (requests s') (request_queue s') (qs @ [r])"
    and "strip (requests s') = strip (requests s)" and "s' = s\<lparr>request_queue := request_queue s', requests := requests s'\<rparr>"
proof (cases qs rule: rev_cases)
  case Nil
  then show ?thesis using assms by (intro that [of "s\<lparr>request_queue := r\<rparr>"]) (auto simp: disksched_schedule_def)
next
  case (snoc rs x)
  then obtain f where f: "requests s x = Some f" "x \<noteq> 0" using queued_in [OF assms(1), of x] by auto
  define s' where "s' = s\<lparr>requests := (requests s)(x \<mapsto> f\<lparr>req_next := r\<rparr>)\<rparr>"
  have "request_queue s \<noteq> 0" using assms(1) snoc by (cases rs) auto
  moreover have "queue_end n (request_queue s) s = Inr x" using queue_end_last assms(1,7) snoc by simp
  ultimately have "disksched_schedule n r s = Inr s'" using f by (simp add: disksched_schedule_def upd_request_def s'_def)
  moreover have "queued (requests s') (request_queue s') (qs @ [r])" using queued_snoc [OF _ _ _ assms(4-6) f(1)] assms(1-3) snoc by (simp add: s'_def)
  moreover have "strip (requests s') = strip (requests s)" using strip_relink [of "requests s" x f r] f(1) by (simp add: s'_def del: strip_upd)
  ultimately show ?thesis by (intro that [of s']) (simp_all add: s'_def)
qed

text \<open>The requests and semaphores as \<open>disk_submit_request\<close> fills them in.\<close>

definition submitted_request :: "int \<Rightarrow> gbd_request \<Rightarrow> gbd_request" where
  "submitted_request newsem e = e\<lparr>req_internal := 0, req_next := 0, req_return := - 1, req_sem := (if req_sem e = 0 then newsem else req_sem e)\<rparr>"

definition submitted_sems :: "int \<Rightarrow> gbd_request \<Rightarrow> (int \<rightharpoonup> int) \<Rightarrow> int \<rightharpoonup> int" where
  "submitted_sems newsem e m = (if req_sem e = 0 then m(newsem \<mapsto> 0) else m)"

lemma disk_submit_request_prefix:
  assumes "requests s r = Some e" and "req_sem e = 0 \<longrightarrow> newsem \<noteq> 0" and "disk_slock s = 0"
  shows "disk_submit_request n newsem st r s =
    rbind (disksched_schedule n r (s\<lparr>requests := (requests s)(r \<mapsto> submitted_request newsem e),
             disk_sems := submitted_sems newsem e (disk_sems s), disk_intr := False, disk_slock := 1\<rparr>)) (\<lambda>s'.
    rbind (if request_served s' = 0 then disk_next_request st s' else Inr s') (\<lambda>s'.
    Inr (if req_sem e = 0 then None else Some 1, (disk_unlock s')\<lparr>disk_intr := disk_intr s\<rparr>)))"
  using assms by (auto simp: disk_submit_request_def upd_request_def disk_lock_def submitted_request_def submitted_sems_def Let_def)

lemma disk_submit_request_holds:
  assumes inv: "disk_holds s xs" and r: "r \<notin> set xs" "r \<noteq> 0" "requests s r = Some e" "req_operation e \<in> {0, 1}"
    and sem: "req_sem e = 0 \<longrightarrow> newsem \<noteq> 0" "req_sem e \<noteq> 0 \<longrightarrow> disk_sems s (req_sem e) \<noteq> None"
    and n: "length xs \<le> n" and st: "xs = [] \<longrightarrow> disk_idle st"
  obtains s' where "disk_submit_request n newsem st r s = Inr (if req_sem e = 0 then None else Some 1, s')" and "disk_holds s' (xs @ [r])"
    and "strip (requests s') = (strip (requests s))(r \<mapsto> submitted_request newsem e)" and "disk_sems s' = submitted_sems newsem e (disk_sems s)"
    and "disk_intr s' = disk_intr s" and "disk_io s' = disk_io s @ (if xs = [] then disk_start e else [])"
proof -
  let ?e = "submitted_request newsem e"
  let ?s = "s\<lparr>requests := (requests s)(r \<mapsto> ?e), disk_sems := submitted_sems newsem e (disk_sems s), disk_intr := False, disk_slock := 1\<rparr>"
  have e0: "?e\<lparr>req_next := 0\<rparr> = ?e" "req_next ?e = 0" by (simp_all add: submitted_request_def)
  have rr: "disk_ready ?s r" using r sem e0 by (cases "req_sem e = 0") (auto simp: disk_ready_def submitted_sems_def submitted_request_def)
  have rx: "\<forall>x\<in>set xs. disk_ready ?s x" 
  proof
    fix x assume "x \<in> set xs"
    then have "disk_ready s x" "x \<noteq> r" using inv r(1) by (auto simp: disk_holds_def)
    then show "disk_ready ?s x" by (elim disk_ready_mono) (auto simp: submitted_sems_def)
  qed
  define qs where "qs = tl xs"
  have sub: "distinct qs" "r \<notin> set qs" "length qs \<le> n"
    using inv r(1) n by (cases xs; simp add: disk_holds_def qs_def)+
  have "queued (requests s) (request_queue s) qs" using inv by (cases xs) (auto simp: disk_holds_def qs_def)
  then have q: "queued (requests ?s) (request_queue ?s) qs" using sub(2) by (simp add: queued_upd)
  obtain t where t: "disksched_schedule n r ?s = Inr t" "queued (requests t) (request_queue t) (qs @ [r])" "strip (requests t) = strip (requests ?s)"
    "t = ?s\<lparr>request_queue := request_queue t, requests := requests t\<rparr>"
    using disksched_schedule_queued [OF q sub(1,2) r(2), of ?e n] e0 sub(3) by auto
  have keep: "disk_sems t = disk_sems ?s" "disk_io t = disk_io s" "request_served t = request_served s" by (subst t(4), simp)+
  have rt: "disk_ready t x = disk_ready ?s x" for x using t(3) keep(1) by (intro disk_ready_cong) simp_all
  note pre = disk_submit_request_prefix [OF r(3) sem(1), of n st] and strip = t(3) [simplified e0 strip_upd, simplified]
  show thesis
  proof (cases "xs = []")
    case True
    have "queued (requests t) (request_queue t) [r]" "distinct [r]" "\<forall>r\<in>set [r]. disk_ready t r" "request_served t = 0" "disk_idle st"
      using True inv st t(2) qs_def rr rt keep(3) by (auto simp: disk_holds_def)
    then obtain u where u: "disk_next_request st t = Inr u" "disk_holds (u\<lparr>disk_slock := 0\<rparr>) [r]" "strip (requests u) = strip (requests t)"
      "disk_sems u = disk_sems t" "disk_io u = disk_io t @ disk_start (the (strip (requests t) r))"
      using disk_next_request_queued [of t "[r]" st] by auto
    let ?u = "(disk_unlock u)\<lparr>disk_intr := disk_intr s\<rparr>"
    have "disk_holds ?u [r]" using u(2) by (simp add: disk_holds_def disk_unlock_def disk_ready_def)
    moreover have "disk_start ?e = disk_start e" by (simp add: submitted_request_def disk_start_def)
    ultimately show ?thesis
      using pre inv t(1) u True keep strip e0 \<open>request_served t = 0\<close> by (intro that [of ?u]) (simp_all add: disk_unlock_def disk_holds_def)
  next
    case False
    let ?u = "(disk_unlock t)\<lparr>disk_intr := disk_intr s\<rparr>"
    have "request_served t \<noteq> 0" using False inv keep(3) by (cases xs) (auto simp: disk_holds_def disk_ready_def)
    moreover have "disk_holds ?u (xs @ [r])"
      using False inv r(1) rr rx rt t(2) qs_def keep(3) by (cases xs) (auto simp: disk_holds_def disk_unlock_def disk_ready_def)
    ultimately show ?thesis
      using pre inv t(1) False keep strip e0 by (intro that [of ?u]) (simp_all add: disk_unlock_def disk_holds_def)
  qed
qed

text \<open>An interrupt of the device finishes the request under work and starts the next one.\<close>

lemma disk_interrupt_handle_holds:
  assumes inv: "disk_holds s (x # qs)" and st: "DISK_STATUS_RIRQ (st 0) \<or> DISK_STATUS_WIRQ (st 1)" "disk_idle (\<lambda>i. st (i + 2))"
    and e: "strip (requests s) x = Some e" and v: "disk_sems s (req_sem e) = Some v"
  obtains s' where "disk_interrupt_handle st s = Inr s'" and "disk_holds s' qs"
    and "strip (requests s') = (strip (requests s))(x \<mapsto> e\<lparr>req_return := 0\<rparr>)" and "disk_sems s' = (disk_sems s)(req_sem e \<mapsto> v + 1)"
    and "disk_intr s' = disk_intr s"
    and "disk_io s' = disk_io s @ [(Command, DISK_COMMAND_WIRQ), (Command, DISK_COMMAND_RIRQ)] @
           (case qs of [] \<Rightarrow> [] | r # _ \<Rightarrow> disk_start (the (strip (requests s) r)))"
proof -
  obtain f where f: "requests s x = Some f" "e = f\<lparr>req_next := 0\<rparr>" using e by (auto simp: strip_def)
  define t where "t = s\<lparr>disk_slock := 1, disk_io := disk_io s @ [(Command, DISK_COMMAND_WIRQ), (Command, DISK_COMMAND_RIRQ)],
    requests := (requests s)(x \<mapsto> f\<lparr>req_return := 0\<rparr>), disk_sems := (disk_sems s)(req_sem e \<mapsto> v + 1), request_served := 0\<rparr>"
  have x: "x \<notin> set qs" "x \<noteq> 0" "request_served s = x" "disk_slock s = 0" using inv by (auto simp: disk_holds_def disk_ready_def)
  have strip: "strip (requests t) = (strip (requests s))(x \<mapsto> e\<lparr>req_return := 0\<rparr>)" using f(2) by (cases f) (simp add: t_def)
  have "queued (requests t) (request_queue t) qs" "distinct qs" "request_served t = 0"
    using inv x(1) by (simp_all add: disk_holds_def t_def queued_upd)
  moreover have "\<forall>r\<in>set qs. disk_ready t r"
  proof
    fix r assume "r \<in> set qs"
    then have "disk_ready s r" "r \<noteq> x" using inv by (auto simp: disk_holds_def)
    then show "disk_ready t r" using strip by (elim disk_ready_mono) (auto simp: t_def)
  qed
  ultimately obtain u where u: "disk_next_request (\<lambda>i. st (i + 2)) t = Inr u" "disk_holds (u\<lparr>disk_slock := 0\<rparr>) qs" "strip (requests u) = strip (requests t)"
    "disk_sems u = disk_sems t" "disk_intr u = disk_intr t" "disk_io u = disk_io t @ (case qs of [] \<Rightarrow> [] | r # _ \<Rightarrow> disk_start (the (strip (requests t) r)))"
    using disk_next_request_queued [OF _ _ _ _ st(2), of t qs] by metis
  have "disk_interrupt_handle st s = Inr (disk_unlock u)"
    using st(1) x f v u(1) by (auto simp: disk_interrupt_handle_def disk_lock_def upd_request_def io_out_def t_def Let_def)
  moreover have "(case qs of [] \<Rightarrow> [] | r # _ \<Rightarrow> disk_start (the (strip (requests t) r))) = (case qs of [] \<Rightarrow> [] | r # _ \<Rightarrow> disk_start (the (strip (requests s) r)))"
    using strip x(1) by (auto split: list.split)
  ultimately show thesis using u strip by (intro that [of "disk_unlock u"]) (simp_all add: disk_unlock_def t_def)
qed

text \<open>An interrupt that the device has not raised leaves the driver as it was.\<close>

lemma disk_interrupt_handle_other:
  "disk_slock s = 0 \<Longrightarrow> \<not> DISK_STATUS_RIRQ (st 0) \<Longrightarrow> \<not> DISK_STATUS_WIRQ (st 1) \<Longrightarrow> disk_interrupt_handle st s = Inr s"
  by (simp add: disk_interrupt_handle_def disk_lock_def disk_unlock_def)

lemma disk_submit_resume_done:
  "requests s r = Some e \<Longrightarrow> disk_sems s (req_sem e) = Some v \<Longrightarrow> 0 < v \<Longrightarrow> disk_submit_resume r s =
     Inr (if req_return e = 0 then 1 else 0, s\<lparr>disk_sems := (disk_sems s)(req_sem e := None), requests := (requests s)(r \<mapsto> e\<lparr>req_sem := 0\<rparr>)\<rparr>)"
  by (simp add: disk_submit_resume_def upd_request_def)

lemma disk_query_locked:
  "disk_slock s = 0 \<Longrightarrow> disk_query cmd data s = Inr (data, s\<lparr>disk_io := disk_io s @ [(Command, cmd)]\<rparr>)"
  by (simp add: disk_query_def disk_lock_def disk_unlock_def io_out_def)

end
