(* ===== verification/Disk_Run.thy ===== *)
theory Disk_Run
  imports Disk_Driver
begin

text \<open>
  The disk driver with its clients and its device: the calls, the interrupts and what clients do with their own requests, in any order, with
  the history of what was submitted. \<open>disk_sys_ok\<close> is the invariant of every run.
\<close>

section \<open>The transition system\<close>

text \<open>
  \<open>waiting\<close>: the requests whose synchronous call waits for its semaphore. \<open>submissions\<close>: every request in the order of submission, with its
  contents. \<open>finished\<close>: how many of them the device has finished.
\<close>

record disk_sys =
  disk :: disk_dev
  waiting :: "int set"
  submissions :: "(int \<times> gbd_request) list"
  finished :: nat

definition active :: "disk_sys \<Rightarrow> int list" where
  "active c = map fst (drop (finished c) (submissions c))"

definition disk_transfer :: "bool \<Rightarrow> nat \<Rightarrow> int \<Rightarrow> (nat \<Rightarrow> u32) \<Rightarrow> int \<Rightarrow> disk_dev \<Rightarrow> (int option \<times> disk_dev) res" where
  "disk_transfer write = (if write then disk_write_block else disk_read_block)"

definition transfer_of :: "bool \<Rightarrow> gbd_request \<Rightarrow> gbd_request" where
  "transfer_of write e = e\<lparr>req_operation := (if write then GBD_OPERATION_WRITE else GBD_OPERATION_READ)\<rparr>"

text \<open>A semaphore that belongs to a waiting call; clients have no access to it.\<close>

definition private_sem :: "disk_sys \<Rightarrow> int \<Rightarrow> bool" where
  "private_sem c m \<longleftrightarrow> (\<exists>r\<in>waiting c. \<exists>e. requests (disk c) r = Some e \<and> req_sem e = m)"

text \<open>A request a client may submit: not with the driver, with a semaphore of the client or none.\<close>

definition may_submit :: "disk_sys \<Rightarrow> int \<Rightarrow> gbd_request \<Rightarrow> bool" where
  "may_submit c r e \<longleftrightarrow> r \<noteq> 0 \<and> r \<notin> set (active c) \<and> r \<notin> waiting c \<and> requests (disk c) r = Some e"

inductive disk_step :: "disk_sys \<Rightarrow> disk_sys \<Rightarrow> bool" where
  submit: "may_submit c r e \<Longrightarrow> (req_sem e = 0 \<longrightarrow> newsem \<noteq> 0 \<and> disk_sems (disk c) newsem = None) \<Longrightarrow> (active c = [] \<longrightarrow> disk_idle st) \<Longrightarrow>
     length (active c) \<le> n \<Longrightarrow> disk_transfer write n newsem st r (disk c) = Inr (v, s) \<Longrightarrow>
     disk_step c (c\<lparr>disk := s, waiting := (if v = None then insert r (waiting c) else waiting c),
                    submissions := submissions c @ [(r, transfer_of write e)]\<rparr>)"
| submit_fails: "may_submit c r e \<Longrightarrow> req_sem e = 0 \<Longrightarrow> disk_transfer write n 0 st r (disk c) = Inr (v, s) \<Longrightarrow> disk_step c (c\<lparr>disk := s\<rparr>)"
| finish: "active c \<noteq> [] \<Longrightarrow> DISK_STATUS_RIRQ (st 0) \<or> DISK_STATUS_WIRQ (st 1) \<Longrightarrow> disk_idle (\<lambda>i. st (i + 2)) \<Longrightarrow>
     disk_interrupt_handle st (disk c) = Inr s \<Longrightarrow> disk_step c (c\<lparr>disk := s, finished := finished c + 1\<rparr>)"
| other_interrupt: "\<not> DISK_STATUS_RIRQ (st 0) \<Longrightarrow> \<not> DISK_STATUS_WIRQ (st 1) \<Longrightarrow> disk_interrupt_handle st (disk c) = Inr s \<Longrightarrow> disk_step c (c\<lparr>disk := s\<rparr>)"
| resume: "r \<in> waiting c \<Longrightarrow> disk_submit_resume r (disk c) = Inr (v, s) \<Longrightarrow> disk_step c (c\<lparr>disk := s, waiting := waiting c - {r}\<rparr>)"
| block_size: "disk_block_size data (disk c) = Inr (v, s) \<Longrightarrow> disk_step c (c\<lparr>disk := s\<rparr>)"
| total_blocks: "disk_total_blocks data (disk c) = Inr (v, s) \<Longrightarrow> disk_step c (c\<lparr>disk := s\<rparr>)"
| client_request: "r \<notin> set (active c) \<Longrightarrow> r \<notin> waiting c \<Longrightarrow> req_sem e = 0 \<or> disk_sems (disk c) (req_sem e) \<noteq> None \<and> \<not> private_sem c (req_sem e) \<Longrightarrow>
     disk_step c (c\<lparr>disk := (disk c)\<lparr>requests := (requests (disk c))(r \<mapsto> e)\<rparr>\<rparr>)"
| client_semaphore: "\<not> private_sem c m \<Longrightarrow> disk_step c (c\<lparr>disk := (disk c)\<lparr>disk_sems := (disk_sems (disk c))(m \<mapsto> v)\<rparr>\<rparr>)"

definition disk_boot :: "disk_dev \<Rightarrow> disk_sys" where
  "disk_boot s = \<lparr>disk = disk_init (s\<lparr>requests := Map.empty, disk_sems := Map.empty, disk_io := []\<rparr>), waiting = {}, submissions = [], finished = 0\<rparr>"

inductive disk_run :: "disk_sys \<Rightarrow> bool" where
  boot: "disk_run (disk_boot s)"
| step: "disk_run c \<Longrightarrow> disk_step c d \<Longrightarrow> disk_run d"

section \<open>Waiting calls\<close>

definition waits_ok :: "(int \<rightharpoonup> gbd_request) \<Rightarrow> (int \<rightharpoonup> int) \<Rightarrow> int list \<Rightarrow> int set \<Rightarrow> bool" where
  "waits_ok P m xs W \<longleftrightarrow> (\<forall>r e. P r = Some e \<longrightarrow> req_sem e \<noteq> 0 \<longrightarrow> m (req_sem e) \<noteq> None) \<and>
     (\<forall>r\<in>W. \<exists>e. P r = Some e \<and> req_sem e \<noteq> 0 \<and> m (req_sem e) = Some (if r \<in> set xs then 0 else 1) \<and>
        (r \<notin> set xs \<longrightarrow> req_return e = 0) \<and> (\<forall>q f. P q = Some f \<longrightarrow> req_sem f = req_sem e \<longrightarrow> q = r))"

lemma waits_ok_sem: "waits_ok P m xs W \<Longrightarrow> P r = Some e \<Longrightarrow> req_sem e \<noteq> 0 \<Longrightarrow> m (req_sem e) \<noteq> None"
  by (simp add: waits_ok_def)

lemma waits_ok_value: "waits_ok P m xs W \<Longrightarrow> r \<in> W \<Longrightarrow> P r = Some e \<Longrightarrow>
    req_sem e \<noteq> 0 \<and> m (req_sem e) = Some (if r \<in> set xs then 0 else 1) \<and> (r \<notin> set xs \<longrightarrow> req_return e = 0)"
  unfolding waits_ok_def by (metis option.inject)

lemma waits_ok_own:
  "waits_ok P m xs W \<Longrightarrow> r \<in> W \<Longrightarrow> P r = Some e \<Longrightarrow> P q = Some f \<Longrightarrow> req_sem f = req_sem e \<Longrightarrow> q = r"
  unfolding waits_ok_def by (metis option.inject)

lemma waits_okI:
  assumes "\<And>r e. P r = Some e \<Longrightarrow> req_sem e \<noteq> 0 \<Longrightarrow> m (req_sem e) \<noteq> None" and "W \<subseteq> dom P"
    and "\<And>r e. r \<in> W \<Longrightarrow> P r = Some e \<Longrightarrow> req_sem e \<noteq> 0 \<and> m (req_sem e) = Some (if r \<in> set xs then 0 else 1) \<and> (r \<notin> set xs \<longrightarrow> req_return e = 0)"
    and "\<And>r e q f. r \<in> W \<Longrightarrow> P r = Some e \<Longrightarrow> P q = Some f \<Longrightarrow> req_sem f = req_sem e \<Longrightarrow> q = r"
  shows "waits_ok P m xs W"
proof -
  have "\<exists>e. P r = Some e \<and> req_sem e \<noteq> 0 \<and> m (req_sem e) = Some (if r \<in> set xs then 0 else 1) \<and>
        (r \<notin> set xs \<longrightarrow> req_return e = 0) \<and> (\<forall>q f. P q = Some f \<longrightarrow> req_sem f = req_sem e \<longrightarrow> q = r)" if W: "r \<in> W" for r
  proof -
    obtain e where "P r = Some e" using assms(2) W by blast
    then show ?thesis using assms(3,4) W by blast
  qed
  then show ?thesis using assms(1) unfolding waits_ok_def by blast
qed

lemma waits_ok_dom: "waits_ok P m xs W \<Longrightarrow> W \<subseteq> dom P"
  unfolding waits_ok_def by blast

text \<open>What each step does to the requests, the semaphores, the held requests and the waiting calls.\<close>

lemma waits_ok_submit:
  assumes ok: "waits_ok P m xs W" and r: "r \<notin> set xs" "r \<notin> W" "P r = Some e"
    and sem: "req_sem e = 0 \<longrightarrow> newsem \<noteq> 0 \<and> m newsem = None" and e': "req_sem e' = (if req_sem e = 0 then newsem else req_sem e)"
  shows "waits_ok (P(r \<mapsto> e')) (if req_sem e = 0 then m(newsem \<mapsto> 0) else m) (xs @ [r]) (if req_sem e = 0 then insert r W else W)"
proof (cases "req_sem e = 0")
  case True
  have new: "req_sem f \<noteq> newsem" if "P q = Some f" for q f
    using waits_ok_sem [OF ok that] sem True by auto
  show ?thesis unfolding if_P [OF True]
  proof (rule waits_okI)
    fix q f assume q: "q \<in> insert r W" "(P(r \<mapsto> e')) q = Some f"
    show "req_sem f \<noteq> 0 \<and> (m(newsem \<mapsto> 0)) (req_sem f) = Some (if q \<in> set (xs @ [r]) then 0 else 1) \<and> (q \<notin> set (xs @ [r]) \<longrightarrow> req_return f = 0)"
    proof (cases "q = r")
      case True
      then show ?thesis using q(2) e' sem \<open>req_sem e = 0\<close> by simp
    next
      case False
      then have f: "q \<in> W" "P q = Some f" using q by simp_all
      show ?thesis using waits_ok_value [OF ok f] new [OF f(2)] False by simp
    qed
  next
    fix q f a b assume q: "q \<in> insert r W" "(P(r \<mapsto> e')) q = Some f" "(P(r \<mapsto> e')) a = Some b" "req_sem b = req_sem f"
    show "a = q"
    proof (cases "a = r")
      case a: True
      then have "req_sem f = newsem" using q(3,4) e' True by auto
      then show ?thesis using new [of q f] q(2) a by (cases "q = r") auto
    next
      case a: False
      then have b: "P a = Some b" using q(3) by simp
      show ?thesis
      proof (cases "q = r")
        case True
        then show ?thesis using new [OF b] q(2,4) e' \<open>req_sem e = 0\<close> by simp
      next
        case False
        then have "q \<in> W" "P q = Some f" using q(1,2) by simp_all
        then show ?thesis by (rule waits_ok_own [OF ok _ _ b q(4)])
      qed
    qed
  next
    fix q f assume "(P(r \<mapsto> e')) q = Some f" "req_sem f \<noteq> 0"
    then show "(m(newsem \<mapsto> 0)) (req_sem f) \<noteq> None" using waits_ok_sem [OF ok, of q f] e' True by (cases "q = r") auto
  next
    show "insert r W \<subseteq> dom (P(r \<mapsto> e'))" using waits_ok_dom [OF ok] by auto
  qed
next
  case False
  show ?thesis unfolding if_not_P [OF False]
  proof (rule waits_okI)
    fix q f assume "q \<in> W" "(P(r \<mapsto> e')) q = Some f"
    then show "req_sem f \<noteq> 0 \<and> m (req_sem f) = Some (if q \<in> set (xs @ [r]) then 0 else 1) \<and> (q \<notin> set (xs @ [r]) \<longrightarrow> req_return f = 0)"
      using waits_ok_value [OF ok, of q f] r(2) by (cases "q = r") auto
  next
    fix q f a b assume q: "q \<in> W" "(P(r \<mapsto> e')) q = Some f" "(P(r \<mapsto> e')) a = Some b" "req_sem b = req_sem f"
    then have "q \<noteq> r" using r(2) by auto
    then have "P a = Some b \<longrightarrow> a = q" "req_sem e = req_sem f \<longrightarrow> r = q"
      using waits_ok_own [OF ok, of q f a b] waits_ok_own [OF ok, of q f r e] q r(3) by auto
    then show "a = q" using q(3,4) e' False by (cases "a = r") auto
  next
    fix q f assume "(P(r \<mapsto> e')) q = Some f" "req_sem f \<noteq> 0"
    then show "m (req_sem f) \<noteq> None" using waits_ok_sem [OF ok, of q f] waits_ok_sem [OF ok r(3) False] e' False by (cases "q = r") auto
  next
    show "W \<subseteq> dom (P(r \<mapsto> e'))" using waits_ok_dom [OF ok] by auto
  qed
qed

lemma waits_ok_finish:
  assumes ok: "waits_ok P m (x # xs) W" and e: "P x = Some e" "req_sem e \<noteq> 0" "m (req_sem e) = Some v" and x: "x \<notin> set xs"
  shows "waits_ok (P(x \<mapsto> e\<lparr>req_return := 0\<rparr>)) (m(req_sem e \<mapsto> v + 1)) xs W"
proof (rule waits_okI)
  fix q f assume q: "q \<in> W" "(P(x \<mapsto> e\<lparr>req_return := 0\<rparr>)) q = Some f"
  show "req_sem f \<noteq> 0 \<and> (m(req_sem e \<mapsto> v + 1)) (req_sem f) = Some (if q \<in> set xs then 0 else 1) \<and> (q \<notin> set xs \<longrightarrow> req_return f = 0)"
  proof (cases "q = x")
    case True
    then show ?thesis using waits_ok_value [OF ok _ e(1)] q e x by auto
  next
    case False
    then have "P q = Some f" using q(2) by simp
    then show ?thesis using waits_ok_value [OF ok q(1), of f] waits_ok_own [OF ok q(1) _ e(1), of f] False by auto
  qed
next
  fix q f a b assume q: "q \<in> W" "(P(x \<mapsto> e\<lparr>req_return := 0\<rparr>)) q = Some f" "(P(x \<mapsto> e\<lparr>req_return := 0\<rparr>)) a = Some b" "req_sem b = req_sem f"
  obtain f' where f': "P q = Some f'" "req_sem f' = req_sem f" using q(2) e(1) by (cases "q = x") auto
  obtain b' where b': "P a = Some b'" "req_sem b' = req_sem b" using q(3) e(1) by (cases "a = x") auto
  show "a = q" using waits_ok_own [OF ok q(1) f'(1) b'(1)] f' b' q(4) by simp
next
  fix q f assume "(P(x \<mapsto> e\<lparr>req_return := 0\<rparr>)) q = Some f" "req_sem f \<noteq> 0"
  then show "(m(req_sem e \<mapsto> v + 1)) (req_sem f) \<noteq> None" using waits_ok_sem [OF ok, of q f] by (cases "q = x") auto
next
  show "W \<subseteq> dom (P(x \<mapsto> e\<lparr>req_return := 0\<rparr>))" using waits_ok_dom [OF ok] by auto
qed

lemma waits_ok_resume:
  assumes ok: "waits_ok P m xs W" and r: "r \<in> W" "P r = Some e"
  shows "waits_ok (P(r \<mapsto> e\<lparr>req_sem := 0\<rparr>)) (m(req_sem e := None)) xs (W - {r})"
proof -
  have own: "q = r" if "P q = Some f" "req_sem f = req_sem e" for q f using waits_ok_own [OF ok r that] .
  show ?thesis
  proof (rule waits_okI)
    fix q f assume "q \<in> W - {r}" "(P(r \<mapsto> e\<lparr>req_sem := 0\<rparr>)) q = Some f"
    then show "req_sem f \<noteq> 0 \<and> (m(req_sem e := None)) (req_sem f) = Some (if q \<in> set xs then 0 else 1) \<and> (q \<notin> set xs \<longrightarrow> req_return f = 0)"
      using waits_ok_value [OF ok, of q f] own [of q f] by auto
  next
    fix q f a b assume "q \<in> W - {r}" "(P(r \<mapsto> e\<lparr>req_sem := 0\<rparr>)) q = Some f" "(P(r \<mapsto> e\<lparr>req_sem := 0\<rparr>)) a = Some b" "req_sem b = req_sem f"
    then show "a = q" using waits_ok_value [OF ok, of q f] waits_ok_own [OF ok, of q f a b] by (cases "a = r") auto
  next
    fix q f assume "(P(r \<mapsto> e\<lparr>req_sem := 0\<rparr>)) q = Some f" "req_sem f \<noteq> 0"
    then show "(m(req_sem e := None)) (req_sem f) \<noteq> None" using waits_ok_sem [OF ok, of q f] own [of q f] by (cases "q = r") auto
  next
    show "W - {r} \<subseteq> dom (P(r \<mapsto> e\<lparr>req_sem := 0\<rparr>))" using waits_ok_dom [OF ok] by auto
  qed
qed

lemma waits_ok_client:
  assumes ok: "waits_ok P m xs W" and r: "r \<notin> W"
    and e: "req_sem e = 0 \<or> m (req_sem e) \<noteq> None \<and> (\<forall>q\<in>W. \<forall>f. P q = Some f \<longrightarrow> req_sem f \<noteq> req_sem e)"
  shows "waits_ok (P(r \<mapsto> e)) m xs W"
proof (rule waits_okI)
  fix q f assume "q \<in> W" "(P(r \<mapsto> e)) q = Some f"
  then show "req_sem f \<noteq> 0 \<and> m (req_sem f) = Some (if q \<in> set xs then 0 else 1) \<and> (q \<notin> set xs \<longrightarrow> req_return f = 0)"
    using waits_ok_value [OF ok, of q f] r by (cases "q = r") auto
next
  fix q f a b assume q: "q \<in> W" "(P(r \<mapsto> e)) q = Some f" "(P(r \<mapsto> e)) a = Some b" "req_sem b = req_sem f"
  then have "P q = Some f" using r by (cases "q = r") auto
  then show "a = q" using waits_ok_value [OF ok q(1), of f] waits_ok_own [OF ok q(1), of f a b] q e by (cases "a = r") auto
next
  fix q f assume "(P(r \<mapsto> e)) q = Some f" "req_sem f \<noteq> 0"
  then show "m (req_sem f) \<noteq> None" using waits_ok_sem [OF ok, of q f] e by (cases "q = r") auto
next
  show "W \<subseteq> dom (P(r \<mapsto> e))" using waits_ok_dom [OF ok] by auto
qed

lemma waits_ok_semaphore:
  assumes ok: "waits_ok P m xs W" and e: "\<forall>q\<in>W. \<forall>f. P q = Some f \<longrightarrow> req_sem f \<noteq> a"
  shows "waits_ok P (m(a \<mapsto> v)) xs W"
proof (rule waits_okI)
  fix q f assume "q \<in> W" "P q = Some f"
  then show "req_sem f \<noteq> 0 \<and> (m(a \<mapsto> v)) (req_sem f) = Some (if q \<in> set xs then 0 else 1) \<and> (q \<notin> set xs \<longrightarrow> req_return f = 0)"
    using waits_ok_value [OF ok, of q f] e by auto
next
  fix q f b c assume "q \<in> W" "P q = Some f" "P b = Some c" "req_sem c = req_sem f"
  then show "b = q" by (rule waits_ok_own [OF ok])
next
  fix q f assume "P q = Some f" "req_sem f \<noteq> 0"
  then show "(m(a \<mapsto> v)) (req_sem f) \<noteq> None" using waits_ok_sem [OF ok, of q f] by auto
next
  show "W \<subseteq> dom P" using waits_ok_dom [OF ok] .
qed

section \<open>The invariant of every run\<close>

text \<open>The part of the device log that concerns transfers.\<close>

definition transfers :: "(disk_reg \<times> u32) list \<Rightarrow> (disk_reg \<times> u32) list" where
  "transfers log = filter (\<lambda>(g, v). g \<noteq> Command \<or> v = DISK_COMMAND_READ \<or> v = DISK_COMMAND_WRITE) log"

definition started :: "disk_sys \<Rightarrow> nat" where
  "started c = finished c + (if active c = [] then 0 else 1)"

definition recorded :: "(int \<rightharpoonup> gbd_request) \<Rightarrow> (int \<times> gbd_request) list \<Rightarrow> bool" where
  "recorded P xs \<longleftrightarrow> list_all (\<lambda>(r, e). \<exists>f. P r = Some f \<and> disk_start f = disk_start e) xs"

definition disk_sys_ok :: "disk_sys \<Rightarrow> bool" where
  "disk_sys_ok c \<longleftrightarrow> finished c \<le> length (submissions c) \<and> disk_holds (disk c) (active c) \<and>
     waits_ok (strip (requests (disk c))) (disk_sems (disk c)) (active c) (waiting c) \<and>
     recorded (strip (requests (disk c))) (drop (finished c) (submissions c)) \<and>
     transfers (disk_io (disk c)) = concat (map (\<lambda>(r, e). disk_start e) (take (started c) (submissions c)))"

lemma transfers_append [simp]: "transfers (xs @ ys) = transfers xs @ transfers ys"
  by (simp add: transfers_def)

lemma transfers_Command [simp]:
  "transfers ((Command, v) # xs) = (if v = DISK_COMMAND_READ \<or> v = DISK_COMMAND_WRITE then (Command, v) # transfers xs else transfers xs)"
  "transfers [] = []"
  by (simp_all add: transfers_def)

lemma transfers_start [simp]: "transfers (disk_start e) = disk_start e"
  by (simp add: transfers_def disk_start_def)

lemma recorded_upd: "recorded P xs \<Longrightarrow> r \<notin> fst ` set xs \<Longrightarrow> recorded (P(r \<mapsto> e)) xs"
  by (induction xs) (auto simp: recorded_def)

lemma recorded_same: "recorded P xs \<Longrightarrow> P r = Some e \<Longrightarrow> disk_start f = disk_start e \<Longrightarrow> recorded (P(r \<mapsto> f)) xs"
  by (induction xs) (auto simp: recorded_def)

lemma disk_holds_other:
  "disk_holds s xs \<Longrightarrow> r \<notin> set xs \<Longrightarrow> disk_holds (s\<lparr>requests := (requests s)(r \<mapsto> e)\<rparr>) xs"
  by (cases xs) (auto simp: disk_holds_def disk_ready_def queued_upd)

lemma disk_holds_sems:
  assumes "disk_holds s xs" and "dom (disk_sems s) \<subseteq> dom m \<or> (\<forall>r\<in>set xs. \<forall>e. strip (requests s) r = Some e \<longrightarrow> m (req_sem e) = disk_sems s (req_sem e))"
  shows "disk_holds (s\<lparr>disk_sems := m\<rparr>) xs"
proof -
  have "disk_ready (s\<lparr>disk_sems := m\<rparr>) r" if "r \<in> set xs" for r
  proof -
    have "disk_ready s r" using assms(1) that by (simp add: disk_holds_def)
    then obtain e v where e: "r \<noteq> 0" "strip (requests s) r = Some e" "req_operation e \<in> {0, 1}" "req_sem e \<noteq> 0" "disk_sems s (req_sem e) = Some v"
      unfolding disk_ready_def by blast
    have "m (req_sem e) \<noteq> None" using assms(2)
    proof
      assume "dom (disk_sems s) \<subseteq> dom m"
      then have "req_sem e \<in> dom m" using e(5) by blast
      then show ?thesis by (simp add: domIff)
    next
      assume "\<forall>r\<in>set xs. \<forall>e. strip (requests s) r = Some e \<longrightarrow> m (req_sem e) = disk_sems s (req_sem e)"
      then show ?thesis using that e(2,5) by simp
    qed
    then show ?thesis using e unfolding disk_ready_def by auto
  qed
  then show ?thesis using assms(1) by (cases xs) (simp_all add: disk_holds_def)
qed

lemma disk_holds_io [simp]: "disk_holds (s\<lparr>disk_io := x\<rparr>) xs = disk_holds s xs"
  by (cases xs) (simp_all add: disk_holds_def disk_ready_def)

lemma disk_holds_lock: "disk_holds s xs \<Longrightarrow> disk_slock s = 0"
  by (simp add: disk_holds_def)

lemma disk_transfer_submit:
  "requests s r = Some e \<Longrightarrow> disk_transfer write n newsem st r s =
     disk_submit_request n newsem st r (s\<lparr>requests := (requests s)(r \<mapsto> transfer_of write e)\<rparr>)"
  by (simp add: disk_transfer_def disk_write_block_def disk_read_block_def upd_request_def transfer_of_def)

text \<open>What a submission does to a system in good order.\<close>

lemma disk_transfer_ok:
  assumes ok: "disk_sys_ok c" and r: "may_submit c r e" and sem: "req_sem e = 0 \<longrightarrow> newsem \<noteq> 0" and st: "active c = [] \<longrightarrow> disk_idle st"
    and n: "length (active c) \<le> n"
  obtains s where "disk_transfer write n newsem st r (disk c) = Inr (if req_sem e = 0 then None else Some 1, s)" and "disk_holds s (active c @ [r])"
    and "strip (requests s) = (strip (requests (disk c)))(r \<mapsto> submitted_request newsem (transfer_of write e))"
    and "disk_sems s = submitted_sems newsem e (disk_sems (disk c))"
    and "disk_io s = disk_io (disk c) @ (if active c = [] then disk_start (transfer_of write e) else [])"
proof -
  let ?s = "(disk c)\<lparr>requests := (requests (disk c))(r \<mapsto> transfer_of write e)\<rparr>" and ?e = "transfer_of write e"
  have c: "r \<notin> set (active c)" "r \<noteq> 0" "requests (disk c) r = Some e" using r by (simp_all add: may_submit_def)
  have "strip (requests (disk c)) r = Some (e\<lparr>req_next := 0\<rparr>)" using c(3) by (simp add: strip_def)
  then have v: "req_sem ?e \<noteq> 0 \<longrightarrow> disk_sems ?s (req_sem ?e) \<noteq> None"
    using waits_ok_sem [of _ _ _ _ r] ok by (fastforce simp: disk_sys_ok_def transfer_of_def)
  have h: "disk_holds ?s (active c)" using disk_holds_other ok c(1) by (simp add: disk_sys_ok_def)
  have "requests ?s r = Some ?e" "req_operation ?e \<in> {0, 1}" "req_sem ?e = 0 \<longrightarrow> newsem \<noteq> 0" using sem by (simp_all add: transfer_of_def)
  then obtain s where "disk_submit_request n newsem st r ?s = Inr (if req_sem ?e = 0 then None else Some 1, s)" "disk_holds s (active c @ [r])"
    "strip (requests s) = (strip (requests ?s))(r \<mapsto> submitted_request newsem ?e)" "disk_sems s = submitted_sems newsem ?e (disk_sems ?s)"
    "disk_io s = disk_io ?s @ (if active c = [] then disk_start ?e else [])"
    using disk_submit_request_holds [OF h c(1,2) _ _ _ v n st] by metis
  then show thesis using disk_transfer_submit [OF c(3)]
    by (intro that [of s]) (simp_all add: submitted_sems_def transfer_of_def)
qed

lemma disk_start_submitted [simp]: "disk_start (submitted_request m e) = disk_start e" "disk_start (e\<lparr>req_return := v\<rparr>) = disk_start e"
  by (simp_all add: disk_start_def submitted_request_def)

lemma submit_keeps_ok:
  assumes ok: "disk_sys_ok c" and r: "may_submit c r e" and sem: "req_sem e = 0 \<longrightarrow> newsem \<noteq> 0 \<and> disk_sems (disk c) newsem = None"
    and st: "active c = [] \<longrightarrow> disk_idle st" and n: "length (active c) \<le> n" and run: "disk_transfer write n newsem st r (disk c) = Inr (v, s)"
  shows "disk_sys_ok (c\<lparr>disk := s, waiting := (if v = None then insert r (waiting c) else waiting c),
           submissions := submissions c @ [(r, transfer_of write e)]\<rparr>)" (is "disk_sys_ok ?d")
proof -
  let ?e = "submitted_request newsem (transfer_of write e)" and ?P = "strip (requests (disk c))"
  have "req_sem e = 0 \<longrightarrow> newsem \<noteq> 0" using sem by simp
  then obtain t where "disk_transfer write n newsem st r (disk c) = Inr (if req_sem e = 0 then None else Some 1, t)" "disk_holds t (active c @ [r])"
    "strip (requests t) = ?P(r \<mapsto> ?e)" "disk_sems t = submitted_sems newsem e (disk_sems (disk c))"
    "disk_io t = disk_io (disk c) @ (if active c = [] then disk_start (transfer_of write e) else [])"
    by (rule disk_transfer_ok [OF ok r _ st n])
  then have s: "v = (if req_sem e = 0 then None else Some 1)" "disk_holds s (active c @ [r])" "strip (requests s) = ?P(r \<mapsto> ?e)"
    "disk_sems s = submitted_sems newsem e (disk_sems (disk c))"
    "disk_io s = disk_io (disk c) @ (if active c = [] then disk_start (transfer_of write e) else [])"
    using run by simp_all
  have c: "r \<notin> set (active c)" "r \<notin> waiting c" "?P r = Some (e\<lparr>req_next := 0\<rparr>)" using r by (simp_all add: may_submit_def strip_def)
  have f: "finished c \<le> length (submissions c)" using ok by (simp add: disk_sys_ok_def)
  then have act: "active ?d = active c @ [r]" by (simp add: active_def)
  have w: "waits_ok ?P (disk_sems (disk c)) (active c) (waiting c)" using ok by (simp add: disk_sys_ok_def)
  have se: "req_sem ?e = (if req_sem (e\<lparr>req_next := 0\<rparr>) = 0 then newsem else req_sem (e\<lparr>req_next := 0\<rparr>))"
    by (simp add: submitted_request_def transfer_of_def)
  have "req_sem (e\<lparr>req_next := 0\<rparr>) = 0 \<longrightarrow> newsem \<noteq> 0 \<and> disk_sems (disk c) newsem = None" using sem by simp
  note waits_ok_submit [of ?P "disk_sems (disk c)" "active c" "waiting c" r "e\<lparr>req_next := 0\<rparr>" newsem ?e, OF w c this se]
  then have "waits_ok (?P(r \<mapsto> ?e)) (disk_sems s) (active c @ [r]) (if v = None then insert r (waiting c) else waiting c)"
    using s(1,4) by (cases "req_sem e = 0") (simp_all add: submitted_sems_def)
  moreover have "recorded (?P(r \<mapsto> ?e)) (drop (finished c) (submissions c) @ [(r, transfer_of write e)])"
    using recorded_upd [of ?P _ r ?e] ok c(1) by (simp add: disk_sys_ok_def active_def recorded_def)
  moreover have "transfers (disk_io s) = concat (map (\<lambda>(r, e). disk_start e) (take (started ?d) (submissions ?d)))"
    using ok s(5) f unfolding disk_sys_ok_def started_def act by (auto simp: active_def)
  ultimately show ?thesis using f s(2,3) act by (simp add: disk_sys_ok_def)
qed

lemma drop_active:
  assumes "active c = x # xs"
  obtains e rest where "drop (finished c) (submissions c) = (x, e) # rest" and "map fst rest = xs"
    and "take (finished c + 1) (submissions c) = take (finished c) (submissions c) @ [(x, e)]"
    and "drop (finished c + 1) (submissions c) = rest" and "finished c < length (submissions c)"
proof -
  obtain y rest where y: "drop (finished c) (submissions c) = y # rest" "x = fst y" "xs = map fst rest"
    using assms by (auto simp: active_def)
  then have l: "finished c < length (submissions c)" by (metis drop_all list.distinct(1) not_le)
  have n: "submissions c ! finished c = y" "drop (finished c + 1) (submissions c) = rest"
    using y(1) Cons_nth_drop_Suc [OF l] by simp_all
  show thesis using y n l by (intro that [of "snd y" rest]) (simp_all add: take_Suc_conv_app_nth)
qed

lemma finish_runs:
  assumes ok: "disk_sys_ok c" and x: "active c = x # xs" and st: "DISK_STATUS_RIRQ (st 0) \<or> DISK_STATUS_WIRQ (st 1)" "disk_idle (\<lambda>i. st (i + 2))"
  obtains s where "disk_interrupt_handle st (disk c) = Inr s" and "disk_sys_ok (c\<lparr>disk := s, finished := finished c + 1\<rparr>)"
proof -
  let ?P = "strip (requests (disk c))"
  have h: "disk_holds (disk c) (x # xs)" and w: "waits_ok ?P (disk_sems (disk c)) (x # xs) (waiting c)"
    and rec: "recorded ?P (drop (finished c) (submissions c))"
    and log: "transfers (disk_io (disk c)) = concat (map (\<lambda>(r, e). disk_start e) (take (finished c + 1) (submissions c)))"
    using ok x by (simp_all add: disk_sys_ok_def started_def)
  obtain f rest where d: "drop (finished c) (submissions c) = (x, f) # rest" "map fst rest = xs"
    "drop (finished c + 1) (submissions c) = rest" "finished c < length (submissions c)" using drop_active [OF x] by metis
  have "disk_ready (disk c) x" and nd: "x \<notin> set xs" using h by (simp_all add: disk_holds_def)
  then obtain e v where e: "?P x = Some e" "req_sem e \<noteq> 0" "disk_sems (disk c) (req_sem e) = Some v" unfolding disk_ready_def by blast
  obtain s where s: "disk_interrupt_handle st (disk c) = Inr s" "disk_holds s xs" "strip (requests s) = ?P(x \<mapsto> e\<lparr>req_return := 0\<rparr>)"
    "disk_sems s = (disk_sems (disk c))(req_sem e \<mapsto> v + 1)"
    "disk_io s = disk_io (disk c) @ [(Command, DISK_COMMAND_WIRQ), (Command, DISK_COMMAND_RIRQ)] @ (case xs of [] \<Rightarrow> [] | r # _ \<Rightarrow> disk_start (the (?P r)))"
    using disk_interrupt_handle_holds [of "disk c" x xs st e v] h st e(1,3) by metis
  let ?d = "c\<lparr>disk := s, finished := finished c + 1\<rparr>"
  have act: "active ?d = xs" using d(2,3) by (simp add: active_def)
  have "recorded (strip (requests s)) rest"
    using recorded_same [of ?P rest x e "e\<lparr>req_return := 0\<rparr>"] e(1) rec d(1) s(3) by (simp add: recorded_def)
  moreover have "waits_ok (strip (requests s)) (disk_sems s) xs (waiting c)" using waits_ok_finish [OF w e nd] s(3,4) by simp
  moreover have "transfers (disk_io s) = concat (map (\<lambda>(r, e). disk_start e) (take (started ?d) (submissions c)))"
  proof (cases rest)
    case Nil
    then show ?thesis using d(2) log s(5) act by (simp add: started_def)
  next
    case (Cons y ys)
    then have "submissions c ! (finished c + 1) = y" "finished c + 1 < length (submissions c)"
      using d(3) by (metis hd_drop_conv_nth drop_all list.sel(1) list.distinct(1) not_le)+
    moreover obtain g where "?P (fst y) = Some g" "disk_start g = disk_start (snd y)"
      using rec d(1) Cons by (auto simp: recorded_def split: prod.splits)
    ultimately show ?thesis using d(2) log s(5) act Cons
      by (auto simp: started_def take_Suc_conv_app_nth case_prod_beta)
  qed
  ultimately have "disk_sys_ok ?d" using s(2) act d(3,4) by (simp add: disk_sys_ok_def)
  then show thesis using s(1) that by blast
qed

text \<open>Steps that leave the history alone.\<close>

lemma disk_sys_ok_frame:
  assumes "disk_sys_ok c" and "disk_holds s (active c)" and "waits_ok (strip (requests s)) (disk_sems s) (active c) W"
    and "\<And>r. r \<in> set (active c) \<Longrightarrow> strip (requests s) r = strip (requests (disk c)) r" and "transfers (disk_io s) = transfers (disk_io (disk c))"
  shows "disk_sys_ok (c\<lparr>disk := s, waiting := W\<rparr>)"
proof -
  have "recorded (strip (requests s)) (drop (finished c) (submissions c)) = recorded (strip (requests (disk c))) (drop (finished c) (submissions c))"
    unfolding recorded_def using assms(4) by (intro list.pred_cong refl) (force simp: active_def)
  then show ?thesis using assms(1-3,5) by (simp add: disk_sys_ok_def active_def started_def)
qed

lemma disk_sys_ok_same: "disk_sys_ok c \<Longrightarrow> disk_sys_ok (c\<lparr>disk := s\<rparr>)" if "disk_holds s (active c)"
    "waits_ok (strip (requests s)) (disk_sems s) (active c) (waiting c)"
    "\<And>r. r \<in> set (active c) \<Longrightarrow> strip (requests s) r = strip (requests (disk c)) r" "transfers (disk_io s) = transfers (disk_io (disk c))"
  using disk_sys_ok_frame [of c s "waiting c"] that by simp

lemma client_request_ok:
  assumes ok: "disk_sys_ok c" and r: "r \<notin> set (active c)" "r \<notin> waiting c"
    and e: "req_sem e = 0 \<or> disk_sems (disk c) (req_sem e) \<noteq> None \<and> \<not> private_sem c (req_sem e)"
  shows "disk_sys_ok (c\<lparr>disk := (disk c)\<lparr>requests := (requests (disk c))(r \<mapsto> e)\<rparr>\<rparr>)"
proof (rule disk_sys_ok_same [OF _ _ _ _ ok])
  show "disk_holds ((disk c)\<lparr>requests := (requests (disk c))(r \<mapsto> e)\<rparr>) (active c)" using disk_holds_other ok r(1) by (simp add: disk_sys_ok_def)
  have "\<not> private_sem c (req_sem e) \<longrightarrow> (\<forall>q\<in>waiting c. \<forall>f. strip (requests (disk c)) q = Some f \<longrightarrow> req_sem f \<noteq> req_sem e)"
    by (force simp: private_sem_def strip_def)
  then have "req_sem e = 0 \<or> disk_sems (disk c) (req_sem e) \<noteq> None \<and> (\<forall>q\<in>waiting c. \<forall>f. strip (requests (disk c)) q = Some f \<longrightarrow> req_sem f \<noteq> req_sem e)"
    using e by blast
  then show "waits_ok (strip (requests ((disk c)\<lparr>requests := (requests (disk c))(r \<mapsto> e)\<rparr>))) (disk_sems ((disk c)\<lparr>requests := (requests (disk c))(r \<mapsto> e)\<rparr>))
       (active c) (waiting c)"
    using waits_ok_client [OF _ r(2), of "strip (requests (disk c))" "disk_sems (disk c)" "active c" "e\<lparr>req_next := 0\<rparr>"] ok by (simp add: disk_sys_ok_def)
qed (use r in auto)

lemma client_semaphore_ok:
  assumes ok: "disk_sys_ok c" and m: "\<not> private_sem c m"
  shows "disk_sys_ok (c\<lparr>disk := (disk c)\<lparr>disk_sems := (disk_sems (disk c))(m \<mapsto> v)\<rparr>\<rparr>)"
proof (rule disk_sys_ok_same [OF _ _ _ _ ok])
  have "dom (disk_sems (disk c)) \<subseteq> dom ((disk_sems (disk c))(m \<mapsto> v))" by auto
  then show "disk_holds ((disk c)\<lparr>disk_sems := (disk_sems (disk c))(m \<mapsto> v)\<rparr>) (active c)"
    using disk_holds_sems ok by (simp add: disk_sys_ok_def)
  have "\<forall>q\<in>waiting c. \<forall>f. strip (requests (disk c)) q = Some f \<longrightarrow> req_sem f \<noteq> m" using m by (force simp: private_sem_def strip_def)
  then show "waits_ok (strip (requests ((disk c)\<lparr>disk_sems := (disk_sems (disk c))(m \<mapsto> v)\<rparr>))) (disk_sems ((disk c)\<lparr>disk_sems := (disk_sems (disk c))(m \<mapsto> v)\<rparr>))
       (active c) (waiting c)"
    using waits_ok_semaphore ok by (simp add: disk_sys_ok_def)
qed auto

text \<open>A waiting call goes on exactly when its request is finished, and then it reports success.\<close>

lemma resume_waiting:
  assumes ok: "disk_sys_ok c" and r: "r \<in> waiting c"
  obtains e where "requests (disk c) r = Some e" and "disk_submit_resume r (disk c) =
    (if r \<in> set (active c) then Inl Blocked
     else Inr (1, (disk c)\<lparr>disk_sems := (disk_sems (disk c))(req_sem e := None), requests := (requests (disk c))(r \<mapsto> e\<lparr>req_sem := 0\<rparr>)\<rparr>))"
proof -
  let ?P = "strip (requests (disk c))"
  have w: "waits_ok ?P (disk_sems (disk c)) (active c) (waiting c)" using ok by (simp add: disk_sys_ok_def)
  then have "r \<in> dom ?P" using waits_ok_dom r by blast
  then obtain e where e: "requests (disk c) r = Some e" "?P r = Some (e\<lparr>req_next := 0\<rparr>)" by (auto simp: strip_def)
  have v: "disk_sems (disk c) (req_sem e) = Some (if r \<in> set (active c) then 0 else 1)" "r \<notin> set (active c) \<longrightarrow> req_return e = 0"
    using waits_ok_value [OF w r e(2)] by simp_all
  show thesis
  proof (rule that [OF e(1)])
    show "disk_submit_resume r (disk c) = (if r \<in> set (active c) then Inl Blocked
     else Inr (1, (disk c)\<lparr>disk_sems := (disk_sems (disk c))(req_sem e := None), requests := (requests (disk c))(r \<mapsto> e\<lparr>req_sem := 0\<rparr>)\<rparr>))"
      using v e(1) by (cases "r \<in> set (active c)") (simp_all add: disk_submit_resume_def upd_request_def)
  qed
qed

lemma resume_ok:
  assumes ok: "disk_sys_ok c" and r: "r \<in> waiting c" and run: "disk_submit_resume r (disk c) = Inr (v, s)"
  shows "disk_sys_ok (c\<lparr>disk := s, waiting := waiting c - {r}\<rparr>)"
proof -
  let ?P = "strip (requests (disk c))"
  obtain e where e: "requests (disk c) r = Some e" and n: "r \<notin> set (active c)" and s: "s = (disk c)\<lparr>disk_sems := (disk_sems (disk c))(req_sem e := None), requests := (requests (disk c))(r \<mapsto> e\<lparr>req_sem := 0\<rparr>)\<rparr>"
    using resume_waiting [OF ok r] run by (metis Inl_Inr_False Inr_inject prod.inject)
  have w: "waits_ok ?P (disk_sems (disk c)) (active c) (waiting c)" and h: "disk_holds (disk c) (active c)" using ok by (simp_all add: disk_sys_ok_def)
  have P: "?P r = Some (e\<lparr>req_next := 0\<rparr>)" using e by (simp add: strip_def)
  have "q = r" if "?P q = Some f" "req_sem f = req_sem e" for q f using waits_ok_own [OF w r P that(1)] that(2) by simp
  then have "disk_holds ((disk c)\<lparr>disk_sems := (disk_sems (disk c))(req_sem e := None)\<rparr>) (active c)"
    using n by (intro disk_holds_sems [OF h] disjI2) (metis fun_upd_other)
  then have "disk_holds s (active c)" using disk_holds_other [OF _ n, of _ "e\<lparr>req_sem := 0\<rparr>"] s by force
  moreover have "waits_ok (strip (requests s)) (disk_sems s) (active c) (waiting c - {r})"
    using waits_ok_resume [OF w r P] s by (cases e) simp
  ultimately show ?thesis using n s by (intro disk_sys_ok_frame [OF ok]) auto
qed

lemma disk_step_ok: "disk_step c d \<Longrightarrow> disk_sys_ok c \<Longrightarrow> disk_sys_ok d"
proof (induction rule: disk_step.induct)
  case (submit c r e newsem st n "write" v s)
  then show ?case by (intro submit_keeps_ok)
next
  case (submit_fails c r e "write" n st v s)
  let ?f = "(transfer_of write e)\<lparr>req_internal := 0, req_next := 0, req_return := - 1, req_sem := 0\<rparr>"
  have "s = (disk c)\<lparr>requests := (requests (disk c))(r \<mapsto> ?f)\<rparr>" using submit_fails
    by (auto simp: may_submit_def disk_transfer_submit disk_submit_request_def upd_request_def transfer_of_def Let_def)
  then show ?case using submit_fails client_request_ok [of c r ?f] by (simp add: may_submit_def)
next
  case (finish c st s)
  obtain x xs where "active c = x # xs" using finish.hyps(1) by (cases "active c") auto
  then show ?case using finish_runs [OF finish.prems _ finish.hyps(2,3)] finish.hyps(4) by (metis Inr_inject)
next
  case (other_interrupt st c s)
  then have "s = disk c" using disk_interrupt_handle_other [of "disk c" st] by (simp add: disk_sys_ok_def disk_holds_def)
  then show ?case using other_interrupt by simp
next
  case (block_size data c v s)
  then show ?case by (intro disk_sys_ok_same) (auto simp: disk_sys_ok_def disk_holds_lock disk_block_size_def disk_query_locked)
next
  case (total_blocks data c v s)
  then show ?case by (intro disk_sys_ok_same) (auto simp: disk_sys_ok_def disk_holds_lock disk_total_blocks_def disk_query_locked)
next
  case (client_request r c e)
  then show ?case by (intro client_request_ok)
next
  case (client_semaphore c m v)
  then show ?case by (intro client_semaphore_ok)
qed (rule resume_ok)

lemma disk_run_ok: "disk_run c \<Longrightarrow> disk_sys_ok c"
proof (induction rule: disk_run.induct)
  case (boot s)
  show ?case by (simp add: disk_boot_def disk_init_def disk_sys_ok_def disk_holds_def waits_ok_def recorded_def active_def started_def strip_def)
next
  case (step c d)
  then show ?case by (simp add: disk_step_ok)
qed

text \<open>Interrupts that each finish a request.\<close>

definition finishing :: "(nat \<Rightarrow> u32) \<Rightarrow> bool" where
  "finishing st \<longleftrightarrow> (DISK_STATUS_RIRQ (st 0) \<or> DISK_STATUS_WIRQ (st 1)) \<and> disk_idle (\<lambda>i. st (i + 2))"

fun handle_all :: "(nat \<Rightarrow> u32) list \<Rightarrow> disk_dev \<Rightarrow> disk_dev res" where
  "handle_all [] s = Inr s"
| "handle_all (st # sts) s = rbind (disk_interrupt_handle st s) (handle_all sts)"

lemma handle_all_finishes:
  assumes "disk_sys_ok c" and "list_all finishing sts" and "length sts \<le> length (active c)"
  obtains s where "handle_all sts (disk c) = Inr s" and "disk_sys_ok (c\<lparr>disk := s, finished := finished c + length sts\<rparr>)"
  using assms
proof (induction sts arbitrary: c thesis)
  case Nil
  then show ?case by simp
next
  case (Cons st sts)
  obtain x xs where x: "active c = x # xs" using Cons.prems(4) by (cases "active c") auto
  obtain s where s: "disk_interrupt_handle st (disk c) = Inr s" "disk_sys_ok (c\<lparr>disk := s, finished := finished c + 1\<rparr>)"
    using finish_runs [OF Cons.prems(2) x] Cons.prems(3) by (auto simp: finishing_def)
  have "length sts \<le> length (active (c\<lparr>disk := s, finished := finished c + 1\<rparr>))" using Cons.prems(4) by (simp add: active_def)
  then show ?case using Cons.IH [OF _ s(2)] Cons.prems(1,3) s(1) by auto
qed

end
