(* ===== verification/Tty_Driver.thy ===== *)
theory Tty_Driver
  imports Kudos_Prelude
begin

text \<open>
  The interrupt-driven terminal driver of the mips32 build (\<^verbatim>\<open>src/kudos/drivers/mips32/tty.c\<close>, \<^verbatim>\<open>tty.h\<close>). Each direction has a ring buffer
  with a head and a count; \<open>ring_list\<close> is the queue it holds. What the driver reads from the status port is an argument (a value for
  each place in the order of reading), what it writes to the ports is recorded. A call that waits is split at \<open>thread_switch\<close>.
\<close>

section \<open>Data\<close>

datatype tty_reg = Tty_command | Tty_data

record ring =
  ring_buf :: "byte list"
  ring_head :: int
  ring_count :: int

text \<open>
  \<open>tty_real_device_t\<close> with its two rings (the fields \<open>read_buf\<close>, \<open>read_head\<close>, \<open>read_count\<close> and \<open>write_buf\<close>, \<open>write_head\<close>, \<open>write_count\<close>), the
  interrupt flag, the log of the ports and the threads that sleep on either buffer or were woken.
\<close>

record tty =
  tty_slock :: int
  read_ring :: ring
  write_ring :: ring
  tty_intr :: bool
  tty_port :: "(tty_reg \<times> u32) list"
  read_sleepers :: "int list"
  write_sleepers :: "int list"
  tty_woken :: "int list"

abbreviation (input) TTY_BUF_SIZE :: int where "TTY_BUF_SIZE \<equiv> 2048"
abbreviation (input) TTY_COMMAND_RIRQ :: u32 where "TTY_COMMAND_RIRQ \<equiv> 1"
abbreviation (input) TTY_COMMAND_WIRQ :: u32 where "TTY_COMMAND_WIRQ \<equiv> 2"
abbreviation (input) TTY_COMMAND_WIRQE :: u32 where "TTY_COMMAND_WIRQE \<equiv> 3"
abbreviation (input) TTY_COMMAND_WIRQD :: u32 where "TTY_COMMAND_WIRQD \<equiv> 4"

definition TTY_STATUS_WBUSY :: "u32 \<Rightarrow> bool" where "TTY_STATUS_WBUSY s \<longleftrightarrow> drop_bit 1 (s AND 2) \<noteq> 0"
definition TTY_STATUS_RIRQ :: "u32 \<Rightarrow> bool" where "TTY_STATUS_RIRQ s \<longleftrightarrow> drop_bit 2 (s AND 4) \<noteq> 0"
definition TTY_STATUS_WIRQ :: "u32 \<Rightarrow> bool" where "TTY_STATUS_WIRQ s \<longleftrightarrow> drop_bit 3 (s AND 8) \<noteq> 0"
definition TTY_STATUS_ERROR :: "u32 \<Rightarrow> bool" where "TTY_STATUS_ERROR s \<longleftrightarrow> drop_bit 31 (s AND 0x80000000) \<noteq> 0"

section \<open>Ring buffers\<close>

definition ring_put :: "byte \<Rightarrow> ring \<Rightarrow> ring res" where
  "ring_put c r = rbind (lset (ring_buf r) ((ring_head r + ring_count r) mod TTY_BUF_SIZE) c) (\<lambda>b.
     Inr (r\<lparr>ring_buf := b, ring_count := ring_count r + 1\<rparr>))"

definition ring_get :: "ring \<Rightarrow> (byte \<times> ring) res" where
  "ring_get r = rbind (lget (ring_buf r) (ring_head r)) (\<lambda>c.
     Inr (c, r\<lparr>ring_head := (ring_head r + 1) mod TTY_BUF_SIZE, ring_count := ring_count r - 1\<rparr>))"

section \<open>The driver\<close>

text \<open>The driver's part of \<open>tty_init\<close>; \<open>slock\<close> is the spinlock it shares or resets.\<close>

definition tty_init :: "tty \<Rightarrow> tty" where
  "tty_init s = s\<lparr>write_ring := (write_ring s)\<lparr>ring_head := 0, ring_count := 0\<rparr>, read_ring := (read_ring s)\<lparr>ring_head := 0, ring_count := 0\<rparr>\<rparr>"

definition tty_out :: "tty_reg \<Rightarrow> u32 \<Rightarrow> tty \<Rightarrow> tty" where
  "tty_out g v s = s\<lparr>tty_port := tty_port s @ [(g, v)]\<rparr>"

definition tty_acquire :: "tty \<Rightarrow> tty res" where
  "tty_acquire s = (if tty_slock s \<noteq> 0 then Inl Spin else Inr (s\<lparr>tty_slock := 1\<rparr>))"

definition tty_release :: "tty \<Rightarrow> tty" where
  "tty_release s = s\<lparr>tty_slock := 0\<rparr>"

definition wake_writers :: "tty \<Rightarrow> tty" where
  "wake_writers s = s\<lparr>tty_woken := tty_woken s @ write_sleepers s, write_sleepers := []\<rparr>"

definition wake_readers :: "tty \<Rightarrow> tty" where
  "wake_readers s = s\<lparr>tty_woken := tty_woken s @ read_sleepers s, read_sleepers := []\<rparr>"

text \<open>The character at the head of the write buffer goes to the data port; a \<open>char\<close> is signed.\<close>

definition send_one :: "tty \<Rightarrow> tty res" where
  "send_one s = rbind (ring_get (write_ring s)) (\<lambda>(c, r). Inr ((tty_out Tty_data (scast c) s)\<lparr>write_ring := r\<rparr>))"

text \<open>The loop of the interrupt handler over the write buffer; \<open>busy k\<close> is the status read before the \<open>k\<close>-th character.\<close>

function tty_drain :: "(nat \<Rightarrow> u32) \<Rightarrow> tty \<Rightarrow> tty res" where
  "tty_drain busy s =
     (if \<not> TTY_STATUS_WBUSY (busy 0) \<and> ring_count (write_ring s) > 0 then
        rbind (send_one (tty_out Tty_command TTY_COMMAND_WIRQ s)) (\<lambda>s. tty_drain (\<lambda>k. busy (k + 1)) s)
      else Inr s)"
  by pat_completeness auto
termination
  by (relation "measure (\<lambda>(b, s). nat (ring_count (write_ring s)))")
    (auto simp: send_one_def ring_get_def tty_out_def rbind_eq_Inr)

text \<open>The loop over the characters the device has; a full buffer is meant to drop them.\<close>

fun tty_receive :: "u32 list \<Rightarrow> tty \<Rightarrow> tty res" where
  "tty_receive [] s = Inr s"
| "tty_receive (d # ds) s =
     (if ring_count (read_ring s) > TTY_BUF_SIZE then tty_receive ds s
      else rbind (ring_put (ucast d) (read_ring s)) (\<lambda>r. tty_receive ds (s\<lparr>read_ring := r\<rparr>)))"

text \<open>
  \<open>st 0\<close>, \<open>st 1\<close> and \<open>st 2\<close> are the status at the tests for WIRQ, RIRQ and ERROR; \<open>input\<close> is what the data port gives until RAVAIL is clear.
\<close>

definition tty_interrupt_handle :: "(nat \<Rightarrow> u32) \<Rightarrow> (nat \<Rightarrow> u32) \<Rightarrow> u32 list \<Rightarrow> tty \<Rightarrow> tty res" where
  "tty_interrupt_handle st busy input s =
     rbind (if TTY_STATUS_WIRQ (st 0) then
              rbind (tty_acquire s) (\<lambda>s.
              let s = tty_out Tty_command TTY_COMMAND_WIRQ (tty_out Tty_command TTY_COMMAND_WIRQD s) in
              rbind (tty_drain busy s) (\<lambda>s.
              let s = tty_out Tty_command TTY_COMMAND_WIRQE s;
                  s = (if ring_count (write_ring s) = 0 then wake_writers s else s) in
              Inr (tty_release s)))
            else Inr s) (\<lambda>s.
     if TTY_STATUS_RIRQ (st 1) then
       rbind (tty_acquire s) (\<lambda>s.
       let s = tty_out Tty_command TTY_COMMAND_RIRQ s in
       if TTY_STATUS_ERROR (st 2) then Inl Panic else
       rbind (tty_receive input s) (\<lambda>s. Inr (wake_readers (tty_release s))))
     else Inr s)"

text \<open>The loop that fills the write buffer from position \<open>i\<close> of the caller's bytes.\<close>

function tty_fill :: "byte list \<Rightarrow> int \<Rightarrow> int \<Rightarrow> tty \<Rightarrow> (int \<times> tty) res" where
  "tty_fill buf len i s =
     (if ring_count (write_ring s) < TTY_BUF_SIZE \<and> i < len then
        rbind (lget buf i) (\<lambda>c. rbind (ring_put c (write_ring s)) (\<lambda>r. tty_fill buf len (i + 1) (s\<lparr>write_ring := r\<rparr>)))
      else Inr (i, s))"
  by pat_completeness auto
termination
  by (relation "measure (\<lambda>(b, len, i, s). nat (len - i))") auto

declare tty_drain.simps [simp del] tty_fill.simps [simp del]

text \<open>How far a call got: it returned a value, or it sleeps at a position.\<close>

datatype call = Returned int | Asleep int

lemma tty_fill_ge: "tty_fill buf len i s = Inr (j, t) \<Longrightarrow> i \<le> j"
proof (induction buf len i s rule: tty_fill.induct)
  case (1 buf len i s)
  show ?case
  proof (cases "ring_count (write_ring s) < TTY_BUF_SIZE \<and> i < len")
    case True
    then obtain c r where "lget buf i = Inr c" "ring_put c (write_ring s) = Inr r" "tty_fill buf len (i + 1) (s\<lparr>write_ring := r\<rparr>) = Inr (j, t)"
      using "1.prems" by (subst (asm) tty_fill.simps) (auto simp: rbind_eq_Inr)
    then have "i + 1 \<le> j" using "1.IH" [OF True] by blast
    then show ?thesis by simp
  next
    case False
    then show ?thesis using "1.prems" by (subst (asm) tty_fill.simps) auto
  qed
qed

lemma tty_fill_gt:
  assumes "tty_fill buf len i s = Inr (j, t)" and "ring_count (write_ring s) < TTY_BUF_SIZE" and "i < len"
  shows "i < j"
proof -
  obtain c r where "tty_fill buf len (i + 1) (s\<lparr>write_ring := r\<rparr>) = Inr (j, t)"
    using assms by (subst (asm) tty_fill.simps) (auto simp: rbind_eq_Inr)
  then show ?thesis using tty_fill_ge by fastforce
qed

text \<open>
  The outer loop of \<open>tty_write\<close>, with the spinlock held, by thread \<open>tid\<close>; \<open>st k\<close> is the status read in the \<open>k\<close>-th round.
\<close>

function tty_write_loop :: "(nat \<Rightarrow> u32) \<Rightarrow> int \<Rightarrow> byte list \<Rightarrow> int \<Rightarrow> int \<Rightarrow> tty \<Rightarrow> (call \<times> tty) res" where
  "tty_write_loop st tid buf len i s =
     (if i < len then
        if ring_count (write_ring s) > 0 then Inr (Asleep i, tty_release (s\<lparr>write_sleepers := write_sleepers s @ [tid]\<rparr>))
        else rbind (tty_fill buf len i s) (\<lambda>(i', s).
             rbind (if \<not> TTY_STATUS_WBUSY (st 0) then send_one s else Inr s) (\<lambda>s.
             tty_write_loop (\<lambda>k. st (k + 1)) tid buf len i' s))
      else Inr (Returned i, s))"
  by pat_completeness auto
termination
  by (relation "measure (\<lambda>(st, tid, b, len, i, s). nat (len - i))") (auto dest!: tty_fill_gt)

declare tty_write_loop.simps [simp del]

text \<open>The end of \<open>tty_write\<close>, and the whole call: first entry, and going on after the thread was woken at position \<open>i\<close>.\<close>

definition tty_write_end :: "bool \<Rightarrow> call \<times> tty \<Rightarrow> call \<times> tty" where
  "tty_write_end intr_status = (\<lambda>(v, s). case v of Returned n \<Rightarrow> (Returned n, (tty_release s)\<lparr>tty_intr := intr_status\<rparr>) | Asleep i \<Rightarrow> (Asleep i, s))"

definition tty_write_resume :: "bool \<Rightarrow> (nat \<Rightarrow> u32) \<Rightarrow> int \<Rightarrow> byte list \<Rightarrow> int \<Rightarrow> int \<Rightarrow> tty \<Rightarrow> (call \<times> tty) res" where
  "tty_write_resume intr_status st tid buf len i s =
     rbind (tty_acquire (s\<lparr>tty_intr := False\<rparr>)) (\<lambda>s. rbind (tty_write_loop st tid buf len i s) (\<lambda>r. Inr (tty_write_end intr_status r)))"

definition tty_write :: "(nat \<Rightarrow> u32) \<Rightarrow> int \<Rightarrow> byte list \<Rightarrow> int \<Rightarrow> tty \<Rightarrow> (call \<times> tty) res" where
  "tty_write st tid buf len s = tty_write_resume (tty_intr s) st tid buf len 0 s"

text \<open>The loop of \<open>tty_read\<close> that empties the read buffer: at most \<open>len - i\<close> characters.\<close>

function tty_take :: "int \<Rightarrow> int \<Rightarrow> tty \<Rightarrow> (byte list \<times> tty) res" where
  "tty_take len i s =
     (if ring_count (read_ring s) > 0 \<and> i < len then
        rbind (ring_get (read_ring s)) (\<lambda>(c, r). rbind (tty_take len (i + 1) (s\<lparr>read_ring := r\<rparr>)) (\<lambda>(cs, s). Inr (c # cs, s)))
      else Inr ([], s))"
  by pat_completeness auto
termination
  by (relation "measure (\<lambda>(len, i, s). nat (len - i))") auto

declare tty_take.simps [simp del]

text \<open>\<open>tty_read\<close>: the bytes stored in the caller's buffer and the result, or the thread sleeps; a woken thread goes on at the test.\<close>

definition tty_read_resume :: "bool \<Rightarrow> int \<Rightarrow> int \<Rightarrow> tty \<Rightarrow> ((byte list \<times> call) \<times> tty) res" where
  "tty_read_resume intr_status tid len s =
     rbind (tty_acquire (s\<lparr>tty_intr := False\<rparr>)) (\<lambda>s.
     if ring_count (read_ring s) = 0 then Inr (([], Asleep 0), tty_release (s\<lparr>read_sleepers := read_sleepers s @ [tid]\<rparr>))
     else rbind (tty_take len 0 s) (\<lambda>(cs, s). Inr ((cs, Returned (int (length cs))), (tty_release s)\<lparr>tty_intr := intr_status\<rparr>)))"

definition tty_read :: "int \<Rightarrow> int \<Rightarrow> tty \<Rightarrow> ((byte list \<times> call) \<times> tty) res" where
  "tty_read tid len s = tty_read_resume (tty_intr s) tid len s"

section \<open>The queue in a ring\<close>

definition ring_ok :: "ring \<Rightarrow> bool" where
  "ring_ok r \<longleftrightarrow> length (ring_buf r) = 2048 \<and> 0 \<le> ring_head r \<and> ring_head r < 2048 \<and> 0 \<le> ring_count r \<and> ring_count r \<le> 2048"

definition ring_list :: "ring \<Rightarrow> byte list" where
  "ring_list r = map (\<lambda>k. ring_buf r ! nat ((ring_head r + int k) mod TTY_BUF_SIZE)) [0..<nat (ring_count r)]"

lemma length_ring_list [simp]: "length (ring_list r) = nat (ring_count r)"
  by (simp add: ring_list_def)

lemma mod_ring_inj:
  assumes "0 \<le> i" "i < 2048" "0 \<le> j" "j < 2048" "(h + i) mod 2048 = (h + j) mod (2048 :: int)"
  shows "i = j"
proof -
  have "2048 dvd i - j" using assms(5) by (simp add: mod_eq_dvd_iff)
  then show ?thesis using assms(1-4) dvd_imp_le_int [of "i - j" 2048] by (cases "i - j = 0") auto
qed

lemma ring_put_list:
  assumes "ring_ok r" and "ring_count r < 2048"
  shows "\<exists>r'. ring_put c r = Inr r' \<and> ring_ok r' \<and> ring_list r' = ring_list r @ [c] \<and> ring_count r' = ring_count r + 1"
proof -
  let ?i = "(ring_head r + ring_count r) mod 2048"
  have i: "0 \<le> ?i" "?i < 2048" by simp_all
  define r' where "r' = r\<lparr>ring_buf := (ring_buf r)[nat ?i := c], ring_count := ring_count r + 1\<rparr>"
  have put: "ring_put c r = Inr r'" using assms i by (simp add: ring_put_def ring_ok_def lset_def r'_def)
  have ne: "nat ?i \<noteq> nat ((ring_head r + int k) mod 2048)" if "k < nat (ring_count r)" for k
  proof
    assume "nat ?i = nat ((ring_head r + int k) mod 2048)"
    then have "?i = (ring_head r + int k) mod 2048" by (simp add: nat_eq_iff)
    then have "ring_count r = int k" using assms that mod_ring_inj [of "ring_count r" "int k" "ring_head r"] by (simp add: ring_ok_def)
    then show False using that by simp
  qed
  have n: "nat (ring_count r + 1) = Suc (nat (ring_count r))" "int (nat (ring_count r)) = ring_count r" using assms(1) unfolding ring_ok_def by simp_all linarith+
  have "ring_list r' = ring_list r @ [c]"
    using assms i ne n by (simp add: ring_list_def r'_def ring_ok_def nth_list_update)
  then show ?thesis using put assms by (simp add: r'_def ring_ok_def)
qed

lemma ring_get_list:
  assumes "ring_ok r" and "0 < ring_count r"
  shows "\<exists>r'. ring_get r = Inr (hd (ring_list r), r') \<and> ring_ok r' \<and> ring_list r' = tl (ring_list r) \<and> ring_count r' = ring_count r - 1"
proof -
  define r' where "r' = r\<lparr>ring_head := (ring_head r + 1) mod 2048, ring_count := ring_count r - 1\<rparr>"
  obtain n where n: "nat (ring_count r) = Suc n" "nat (ring_count r - 1) = n" using assms(2) by (metis Suc_nat_eq_nat_zadd1 diff_add_cancel diff_ge_0_iff_ge int_one_le_iff_zero_less nat_eq_iff2 add.commute)
  have l: "ring_list r = ring_buf r ! nat (ring_head r) # map (\<lambda>k. ring_buf r ! nat ((ring_head r + int (Suc k)) mod 2048)) [0..<n]"
    using assms n by (simp add: ring_list_def ring_ok_def upt_conv_Cons map_Suc_upt [symmetric] comp_def del: upt_Suc)
  have "ring_list r' = map (\<lambda>k. ring_buf r ! nat ((ring_head r + int (Suc k)) mod 2048)) [0..<n]"
    using n by (simp add: ring_list_def r'_def mod_simps algebra_simps)
  then show ?thesis using assms l by (simp add: ring_get_def r'_def ring_ok_def)
qed

section \<open>What the loops do to the queues\<close>

text \<open>The characters the device was given.\<close>

definition sent :: "tty \<Rightarrow> byte list" where
  "sent s = map (\<lambda>(g, v). ucast v) (filter (\<lambda>(g, v). g = Tty_data) (tty_port s))"

lemma sent_command [simp]: "sent (tty_out Tty_command v s) = sent s"
  by (simp add: sent_def tty_out_def)

lemma send_one_list:
  assumes "ring_ok (write_ring s)" and "0 < ring_count (write_ring s)"
  shows "\<exists>r p. send_one s = Inr (s\<lparr>write_ring := r, tty_port := p\<rparr>) \<and> ring_ok r \<and> ring_count r = ring_count (write_ring s) - 1 \<and>
     ring_list (write_ring s) = hd (ring_list (write_ring s)) # ring_list r \<and> sent (s\<lparr>write_ring := r, tty_port := p\<rparr>) = sent s @ [hd (ring_list (write_ring s))]"
proof -
  obtain r where r: "ring_get (write_ring s) = Inr (hd (ring_list (write_ring s)), r)" "ring_ok r" "ring_list r = tl (ring_list (write_ring s))"
    "ring_count r = ring_count (write_ring s) - 1" using ring_get_list [OF assms] by blast
  let ?c = "hd (ring_list (write_ring s))"
  have "ring_list (write_ring s) = ?c # ring_list r" using r(3) assms(2) by (metis hd_Cons_tl length_ring_list list.size(3) not_less_iff_gr_or_eq zero_less_nat_eq)
  moreover have "send_one s = Inr (s\<lparr>write_ring := r, tty_port := tty_port s @ [(Tty_data, scast ?c)]\<rparr>)"
    using r(1) by (simp add: send_one_def tty_out_def)
  moreover have "(ucast (scast ?c :: u32) :: byte) = ?c" by (rule bit_word_eqI) (simp add: bit_simps)
  ultimately show ?thesis using r(2,4)
    by (intro exI [of _ r] exI [of _ "tty_port s @ [(Tty_data, scast ?c)]"]) (simp add: sent_def)
qed

lemma tty_drain_list:
  assumes "ring_ok (write_ring s)"
  shows "\<exists>r p k. tty_drain busy s = Inr (s\<lparr>write_ring := r, tty_port := p\<rparr>) \<and> ring_ok r \<and> k \<le> length (ring_list (write_ring s)) \<and>
     ring_list r = drop k (ring_list (write_ring s)) \<and> sent (s\<lparr>write_ring := r, tty_port := p\<rparr>) = sent s @ take k (ring_list (write_ring s)) \<and>
     ((\<forall>j. \<not> TTY_STATUS_WBUSY (busy j)) \<longrightarrow> k = length (ring_list (write_ring s)))"
  using assms
proof (induction busy s rule: tty_drain.induct)
  case (1 busy s)
  show ?case
  proof (cases "\<not> TTY_STATUS_WBUSY (busy 0) \<and> ring_count (write_ring s) > 0")
    case True
    let ?s = "tty_out Tty_command TTY_COMMAND_WIRQ s" and ?xs = "ring_list (write_ring s)"
    have "ring_ok (write_ring ?s)" "0 < ring_count (write_ring ?s)" using 1(2) True by (simp_all add: tty_out_def)
    then obtain r p where rp: "send_one ?s = Inr (?s\<lparr>write_ring := r, tty_port := p\<rparr>)" "ring_ok r" "?xs = hd ?xs # ring_list r"
      "sent (?s\<lparr>write_ring := r, tty_port := p\<rparr>) = sent s @ [hd ?xs]"
      using send_one_list [of ?s] by (auto simp: tty_out_def sent_def)
    let ?t = "?s\<lparr>write_ring := r, tty_port := p\<rparr>"
    obtain r' p' k where ih: "tty_drain (\<lambda>k. busy (k + 1)) ?t = Inr (?t\<lparr>write_ring := r', tty_port := p'\<rparr>)" "ring_ok r'"
      "k \<le> length (ring_list r)" "ring_list r' = drop k (ring_list r)" "sent (?t\<lparr>write_ring := r', tty_port := p'\<rparr>) = sent ?t @ take k (ring_list r)"
      "(\<forall>j. \<not> TTY_STATUS_WBUSY (busy (j + 1))) \<longrightarrow> k = length (ring_list r)"
      using 1(1) [OF True rp(1)] rp(2) by auto
    have t: "?t\<lparr>write_ring := r', tty_port := p'\<rparr> = s\<lparr>write_ring := r', tty_port := p'\<rparr>" by (simp add: tty_out_def)
    have "tty_drain busy s = Inr (s\<lparr>write_ring := r', tty_port := p'\<rparr>)"
      using True rp(1) ih(1) t by (subst tty_drain.simps) simp
    moreover have "sent (s\<lparr>write_ring := r', tty_port := p'\<rparr>) = sent s @ take (Suc k) ?xs"
      using ih(5) rp(4) t by (subst rp(3)) simp
    moreover have "ring_list r' = drop (Suc k) ?xs" "Suc k \<le> length ?xs" "(\<forall>j. \<not> TTY_STATUS_WBUSY (busy j)) \<longrightarrow> Suc k = length ?xs"
      using ih(3,4,6) by (subst rp(3), simp)+
    ultimately show ?thesis using ih(2) by blast
  next
    case False
    then have "tty_drain busy s = Inr s" by (subst tty_drain.simps) auto
    moreover have "(\<forall>j. \<not> TTY_STATUS_WBUSY (busy j)) \<longrightarrow> length (ring_list (write_ring s)) = 0" using False by auto
    ultimately show ?thesis using 1(2) by (intro exI [of _ "write_ring s"] exI [of _ "tty_port s"] exI [of _ 0]) simp
  qed
qed

lemma tty_receive_list:
  assumes "ring_ok (read_ring s)" and "ring_count (read_ring s) + int (length ds) \<le> 2048"
  shows "\<exists>r. tty_receive ds s = Inr (s\<lparr>read_ring := r\<rparr>) \<and> ring_ok r \<and> ring_list r = ring_list (read_ring s) @ map ucast ds"
  using assms
proof (induction ds arbitrary: s)
  case Nil
  then show ?case by (intro exI [of _ "read_ring s"]) simp
next
  case (Cons d ds)
  obtain r where r: "ring_put (ucast d) (read_ring s) = Inr r" "ring_ok r" "ring_list r = ring_list (read_ring s) @ [ucast d]"
    "ring_count r = ring_count (read_ring s) + 1" using ring_put_list [OF Cons.prems(1)] Cons.prems(2) by auto
  obtain r' where "tty_receive ds (s\<lparr>read_ring := r\<rparr>) = Inr (s\<lparr>read_ring := r'\<rparr>)" "ring_ok r'" "ring_list r' = ring_list r @ map ucast ds"
    using Cons.IH [of "s\<lparr>read_ring := r\<rparr>"] r(2,4) Cons.prems(2) by auto
  then show ?case using r Cons.prems(2) by auto
qed

lemma tty_fill_list:
  assumes "ring_ok (write_ring s)" and "0 \<le> i" and "i \<le> len" and "len \<le> int (length buf)"
  shows "\<exists>r. tty_fill buf len i s = Inr (min len (i + 2048 - ring_count (write_ring s)), s\<lparr>write_ring := r\<rparr>) \<and> ring_ok r \<and>
     ring_list r = ring_list (write_ring s) @ take (nat (min len (i + 2048 - ring_count (write_ring s)) - i)) (drop (nat i) buf)"
  using assms
proof (induction buf len i s rule: tty_fill.induct)
  case (1 buf len i s)
  show ?case
  proof (cases "ring_count (write_ring s) < TTY_BUF_SIZE \<and> i < len")
    case True
    have g: "lget buf i = Inr (buf ! nat i)" "nat i < length buf" using True 1(3-5) by (auto simp: lget_def)
    obtain r where r: "ring_put (buf ! nat i) (write_ring s) = Inr r" "ring_ok r" "ring_list r = ring_list (write_ring s) @ [buf ! nat i]"
      "ring_count r = ring_count (write_ring s) + 1" using ring_put_list [OF 1(2)] True by auto
    let ?m = "min len (i + 2048 - ring_count (write_ring s))"
    have m: "min len (i + 1 + 2048 - ring_count r) = ?m" "nat (?m - i) = Suc (nat (?m - (i + 1)))" using r(4) True by (simp, linarith)
    obtain r' where "tty_fill buf len (i + 1) (s\<lparr>write_ring := r\<rparr>) = Inr (?m, s\<lparr>write_ring := r'\<rparr>)" "ring_ok r'"
      "ring_list r' = ring_list r @ take (nat (?m - (i + 1))) (drop (nat (i + 1)) buf)"
      using 1(1) [OF True g(1) r(1)] r(2) True 1(3-5) m(1) by auto
    moreover have "drop (nat i) buf = buf ! nat i # drop (nat (i + 1)) buf" using g(2) 1(3) by (simp add: Cons_nth_drop_Suc nat_add_distrib)
    ultimately show ?thesis using True g(1) r(1,3) m(2) by (subst tty_fill.simps) auto
  next
    case False
    then have "tty_fill buf len i s = Inr (i, s)" by (subst tty_fill.simps) auto
    moreover have "min len (i + 2048 - ring_count (write_ring s)) = i" using False 1(2,4) by (auto simp: ring_ok_def)
    ultimately show ?thesis using 1(2) by (intro exI [of _ "write_ring s"]) simp
  qed
qed

lemma tty_take_list:
  assumes "ring_ok (read_ring s)"
  shows "\<exists>r. tty_take len i s = Inr (take (nat (len - i)) (ring_list (read_ring s)), s\<lparr>read_ring := r\<rparr>) \<and> ring_ok r \<and>
     ring_list r = drop (nat (len - i)) (ring_list (read_ring s))"
  using assms
proof (induction len i s rule: tty_take.induct)
  case (1 len i s)
  show ?case
  proof (cases "ring_count (read_ring s) > 0 \<and> i < len")
    case True
    let ?xs = "ring_list (read_ring s)"
    obtain r where r: "ring_get (read_ring s) = Inr (hd ?xs, r)" "ring_ok r" "ring_list r = tl ?xs" using ring_get_list [OF 1(2)] True by blast
    have xs: "?xs = hd ?xs # ring_list r" using r(3) True by (metis hd_Cons_tl length_ring_list list.size(3) not_less_iff_gr_or_eq zero_less_nat_eq)
    have n: "nat (len - i) = Suc (nat (len - (i + 1)))" using True by linarith
    obtain r' where "tty_take len (i + 1) (s\<lparr>read_ring := r\<rparr>) = Inr (take (nat (len - (i + 1))) (ring_list r), s\<lparr>read_ring := r'\<rparr>)" "ring_ok r'"
      "ring_list r' = drop (nat (len - (i + 1))) (ring_list r)" using 1(1) [OF True r(1)] r(2) by auto
    moreover have "take (nat (len - i)) ?xs = hd ?xs # take (nat (len - (i + 1))) (ring_list r)" "drop (nat (len - i)) ?xs = drop (nat (len - (i + 1))) (ring_list r)"
      unfolding n by (subst xs, simp)+
    ultimately show ?thesis using True r(1) by (subst tty_take.simps) auto
  next
    case False
    then have "tty_take len i s = Inr ([], s)" by (subst tty_take.simps) auto
    moreover have "take (nat (len - i)) (ring_list (read_ring s)) = []" "drop (nat (len - i)) (ring_list (read_ring s)) = ring_list (read_ring s)"
      using False by (auto simp: ring_list_def)
    ultimately show ?thesis using 1(2) by (intro exI [of _ "read_ring s"]) simp
  qed
qed

section \<open>What the calls and the handler do\<close>

definition tty_ok :: "tty \<Rightarrow> bool" where
  "tty_ok s \<longleftrightarrow> tty_slock s = 0 \<and> ring_ok (read_ring s) \<and> ring_ok (write_ring s)"

text \<open>How far a call got in the caller's bytes.\<close>

fun progress :: "call \<Rightarrow> int" where
  "progress (Returned n) = n"
| "progress (Asleep i) = i"

text \<open>Everything accepted for output: what the device was given and what waits in the buffer.\<close>

definition outgoing :: "tty \<Rightarrow> byte list" where
  "outgoing s = sent s @ ring_list (write_ring s)"

lemma send_or_keep:
  assumes "ring_ok (write_ring s)" and "0 < ring_count (write_ring s)"
  shows "\<exists>r p. (if \<not> busy then send_one s else Inr s) = Inr (s\<lparr>write_ring := r, tty_port := p\<rparr>) \<and> ring_ok r \<and>
     outgoing (s\<lparr>write_ring := r, tty_port := p\<rparr>) = outgoing s"
proof (cases busy)
  case True
  then show ?thesis using assms(1) by (intro exI [of _ "write_ring s"] exI [of _ "tty_port s"]) simp
next
  case False
  obtain r p where "send_one s = Inr (s\<lparr>write_ring := r, tty_port := p\<rparr>)" "ring_ok r" "ring_list (write_ring s) = hd (ring_list (write_ring s)) # ring_list r"
    "sent (s\<lparr>write_ring := r, tty_port := p\<rparr>) = sent s @ [hd (ring_list (write_ring s))]" using send_one_list [OF assms] by blast
  moreover from this have "outgoing (s\<lparr>write_ring := r, tty_port := p\<rparr>) = outgoing s" by (simp add: outgoing_def)
  ultimately show ?thesis using False by auto
qed

lemma take_drop_split:
  assumes "0 \<le> i" "i \<le> j" "j \<le> k"
  shows "take (nat (k - i)) (drop (nat i) xs) = take (nat (j - i)) (drop (nat i) xs) @ take (nat (k - j)) (drop (nat j) xs)"
proof -
  have "nat (k - i) = nat (j - i) + nat (k - j)" "nat j = nat i + nat (j - i)" using assms by linarith+
  then show ?thesis by (simp add: take_add drop_drop add.commute)
qed

text \<open>A call that returns has the lock and has written everything; one that sleeps has given the lock back and is in the queue of sleepers.\<close>

fun write_outcome :: "int \<Rightarrow> int \<Rightarrow> int list \<Rightarrow> call \<Rightarrow> tty \<Rightarrow> bool" where
  "write_outcome len tid ws (Returned n) t \<longleftrightarrow> n = len \<and> tty_slock t = 1 \<and> write_sleepers t = ws"
| "write_outcome len tid ws (Asleep j) t \<longleftrightarrow> j < len \<and> tty_slock t = 0 \<and> write_sleepers t = ws @ [tid] \<and> 0 < ring_count (write_ring t)"

lemma tty_write_loop_list:
  assumes "ring_ok (write_ring s)" and "tty_slock s = 1" and "0 \<le> i" and "i \<le> len" and "len \<le> int (length buf)"
  shows "\<exists>v t. tty_write_loop st tid buf len i s = Inr (v, t) \<and> ring_ok (write_ring t) \<and> read_ring t = read_ring s \<and> tty_intr t = tty_intr s \<and>
     i \<le> progress v \<and> progress v \<le> len \<and> outgoing t = outgoing s @ take (nat (progress v - i)) (drop (nat i) buf) \<and>
     (ring_count (write_ring s) = 0 \<longrightarrow> min len (i + 2048) \<le> progress v) \<and>
     write_outcome len tid (write_sleepers s) v t"
  using assms
proof (induction st tid buf len i s rule: tty_write_loop.induct)
  case (1 st tid buf len i s)
  consider "\<not> i < len" | "i < len" "0 < ring_count (write_ring s)" | "i < len" "ring_count (write_ring s) = 0" using 1(2) by (fastforce simp: ring_ok_def)
  then show ?case
  proof cases
    case 1
    then have "tty_write_loop st tid buf len i s = Inr (Returned i, s)" by (subst tty_write_loop.simps) simp
    then show ?thesis using 1 \<open>ring_ok (write_ring s)\<close> \<open>tty_slock s = 1\<close> \<open>i \<le> len\<close> by simp
  next
    case 2
    then have "tty_write_loop st tid buf len i s = Inr (Asleep i, tty_release (s\<lparr>write_sleepers := write_sleepers s @ [tid]\<rparr>))"
      by (subst tty_write_loop.simps) simp
    then show ?thesis using 2 1(2,5) by (simp add: tty_release_def outgoing_def sent_def)
  next
    case 3
    let ?m = "min len (i + 2048)"
    obtain r where r: "tty_fill buf len i s = Inr (?m, s\<lparr>write_ring := r\<rparr>)" "ring_ok r"
      "ring_list r = ring_list (write_ring s) @ take (nat (?m - i)) (drop (nat i) buf)"
      using tty_fill_list [OF 1(2) 1(4-6)] 3(2) by auto
    let ?s = "s\<lparr>write_ring := r\<rparr>"
    have "nat i < length buf" using 1(4,6) 3(1) by linarith
    then have "0 < ring_count r" using arg_cong [OF r(3), of length] 3 by auto
    then have "\<exists>r' p. (if \<not> TTY_STATUS_WBUSY (st 0) then send_one ?s else Inr ?s) = Inr (s\<lparr>write_ring := r', tty_port := p\<rparr>) \<and> ring_ok r' \<and>
      outgoing (s\<lparr>write_ring := r', tty_port := p\<rparr>) = outgoing ?s"
      using send_or_keep [of ?s "TTY_STATUS_WBUSY (st 0)"] r(2) by simp
    then obtain r' p where rp: "(if \<not> TTY_STATUS_WBUSY (st 0) then send_one ?s else Inr ?s) = Inr (s\<lparr>write_ring := r', tty_port := p\<rparr>)" "ring_ok r'"
      "outgoing (s\<lparr>write_ring := r', tty_port := p\<rparr>) = outgoing ?s"
      by blast
    let ?t = "s\<lparr>write_ring := r', tty_port := p\<rparr>"
    have o: "outgoing ?t = outgoing s @ take (nat (?m - i)) (drop (nat i) buf)" using rp(3) r(3) by (simp add: outgoing_def sent_def)
    obtain v t where v: "tty_write_loop (\<lambda>k. st (k + 1)) tid buf len ?m ?t = Inr (v, t)" "ring_ok (write_ring t)" "read_ring t = read_ring s" "tty_intr t = tty_intr s"
      "?m \<le> progress v" "progress v \<le> len" "outgoing t = outgoing ?t @ take (nat (progress v - ?m)) (drop (nat ?m) buf)"
      "write_outcome len tid (write_sleepers s) v t"
      using 1(1) [OF 3(1) _ r(1) refl, of ?t] rp(1,2) 1(3-6) 3 by auto
    have "tty_write_loop st tid buf len i s = Inr (v, t)" using 3 r(1) rp(1) v(1) by (subst tty_write_loop.simps) simp
    moreover have "outgoing t = outgoing s @ take (nat (progress v - i)) (drop (nat i) buf)"
      using v(5,7) o 1(4,5) take_drop_split [of i ?m "progress v" buf] by simp
    ultimately show ?thesis using v 3 1(5) by (intro exI [of _ v] exI [of _ t]) simp
  qed
qed

lemma outgoing_simps [simp]:
  "outgoing (s\<lparr>tty_slock := a\<rparr>) = outgoing s" "outgoing (s\<lparr>tty_intr := b\<rparr>) = outgoing s" "outgoing (s\<lparr>read_ring := r\<rparr>) = outgoing s"
  "outgoing (tty_out Tty_command v s) = outgoing s" "outgoing (tty_release s) = outgoing s" "outgoing (wake_writers s) = outgoing s"
  "outgoing (wake_readers s) = outgoing s" "outgoing (s\<lparr>read_sleepers := q\<rparr>) = outgoing s"
  by (simp_all add: outgoing_def sent_def tty_out_def tty_release_def wake_writers_def wake_readers_def)

text \<open>A call returned everything and has restored the interrupt flag, or it sleeps before the end.\<close>

fun written :: "int \<Rightarrow> bool \<Rightarrow> call \<Rightarrow> tty \<Rightarrow> bool" where
  "written len intr_status (Returned n) t \<longleftrightarrow> n = len \<and> tty_intr t = intr_status"
| "written len intr_status (Asleep j) t \<longleftrightarrow> j < len"

lemma tty_write_resume_list:
  assumes "tty_ok s" and "0 \<le> i" and "i \<le> len" and "len \<le> int (length buf)"
  shows "\<exists>v t. tty_write_resume intr_status st tid buf len i s = Inr (v, t) \<and> tty_ok t \<and> read_ring t = read_ring s \<and> i \<le> progress v \<and> progress v \<le> len \<and>
     outgoing t = outgoing s @ take (nat (progress v - i)) (drop (nat i) buf) \<and>
     (ring_count (write_ring s) = 0 \<longrightarrow> min len (i + 2048) \<le> progress v) \<and>
     written len intr_status v t \<and> (v = Returned len \<or> write_sleepers t = write_sleepers s @ [tid])"
proof -
  let ?s = "s\<lparr>tty_intr := False, tty_slock := 1\<rparr>"
  have "ring_ok (write_ring ?s)" "tty_slock ?s = 1" using assms(1) by (simp_all add: tty_ok_def)
  then obtain v t where v: "tty_write_loop st tid buf len i ?s = Inr (v, t)" "ring_ok (write_ring t)" "read_ring t = read_ring s"
    "i \<le> progress v" "progress v \<le> len" "outgoing t = outgoing s @ take (nat (progress v - i)) (drop (nat i) buf)"
    "ring_count (write_ring s) = 0 \<longrightarrow> min len (i + 2048) \<le> progress v" "write_outcome len tid (write_sleepers s) v t"
    using tty_write_loop_list [of ?s i len buf st tid] assms(2-4) by auto
  have run: "tty_write_resume intr_status st tid buf len i s = Inr (tty_write_end intr_status (v, t))"
    using assms(1) v(1) by (simp add: tty_write_resume_def tty_acquire_def tty_ok_def)
  show ?thesis
  proof (cases v)
    case (Returned n)
    then show ?thesis using run v assms(1) by (simp add: tty_write_end_def tty_release_def tty_ok_def)
  next
    case (Asleep j)
    then show ?thesis using run v assms(1) by (simp add: tty_write_end_def tty_ok_def)
  qed
qed

lemma tty_read_resume_list:
  assumes "tty_ok s"
  shows "\<exists>cs v t. tty_read_resume intr_status tid len s = Inr ((cs, v), t) \<and> tty_ok t \<and> outgoing t = outgoing s \<and> write_ring t = write_ring s \<and>
     ring_list (read_ring s) = cs @ ring_list (read_ring t) \<and>
     (if ring_list (read_ring s) = [] then v = Asleep 0 \<and> read_sleepers t = read_sleepers s @ [tid]
      else v = Returned (int (length cs)) \<and> length cs = min (nat len) (length (ring_list (read_ring s))) \<and> tty_intr t = intr_status)"
proof (cases "ring_count (read_ring s) = 0")
  case True
  then show ?thesis using assms by (simp add: tty_read_resume_def tty_acquire_def tty_ok_def tty_release_def ring_list_def)
next
  case False
  then have ne: "ring_list (read_ring s) \<noteq> []" using assms by (auto simp: tty_ok_def ring_ok_def ring_list_def)
  let ?s = "s\<lparr>tty_intr := False, tty_slock := 1\<rparr>" and ?cs = "take (nat len) (ring_list (read_ring s))"
  obtain r where r: "tty_take len 0 ?s = Inr (?cs, ?s\<lparr>read_ring := r\<rparr>)" "ring_ok r" "ring_list r = drop (nat len) (ring_list (read_ring s))"
    using tty_take_list [of ?s len 0] assms by (auto simp: tty_ok_def)
  then show ?thesis using assms False ne
    by (intro exI [of _ ?cs] exI [of _ "Returned (int (length ?cs))"] exI [of _ "s\<lparr>tty_slock := 0, read_ring := r, tty_intr := intr_status\<rparr>"])
      (simp add: tty_read_resume_def tty_acquire_def tty_ok_def tty_release_def)
qed

lemma tty_interrupt_write_list:
  assumes "tty_ok s"
  shows "\<exists>t. (if TTY_STATUS_WIRQ (st 0) then
              rbind (tty_acquire s) (\<lambda>s.
              let s = tty_out Tty_command TTY_COMMAND_WIRQ (tty_out Tty_command TTY_COMMAND_WIRQD s) in
              rbind (tty_drain busy s) (\<lambda>s.
              let s = tty_out Tty_command TTY_COMMAND_WIRQE s;
                  s = (if ring_count (write_ring s) = 0 then wake_writers s else s) in
              Inr (tty_release s)))
            else Inr s) = Inr t \<and> tty_ok t \<and> outgoing t = outgoing s \<and> read_ring t = read_ring s \<and> read_sleepers t = read_sleepers s \<and>
     (TTY_STATUS_WIRQ (st 0) \<and> (\<forall>j. \<not> TTY_STATUS_WBUSY (busy j)) \<longrightarrow> ring_count (write_ring t) = 0 \<and> tty_woken t = tty_woken s @ write_sleepers s)"
proof (cases "TTY_STATUS_WIRQ (st 0)")
  case True
  let ?s = "tty_out Tty_command TTY_COMMAND_WIRQ (tty_out Tty_command TTY_COMMAND_WIRQD (s\<lparr>tty_slock := 1\<rparr>))" and ?xs = "ring_list (write_ring s)"
  have w: "write_ring ?s = write_ring s" by (simp add: tty_out_def)
  then have "ring_ok (write_ring ?s)" using assms by (simp add: tty_ok_def)
  then obtain r p k where d: "tty_drain busy ?s = Inr (?s\<lparr>write_ring := r, tty_port := p\<rparr>)" "ring_ok r" "k \<le> length ?xs" "ring_list r = drop k ?xs"
    "sent (?s\<lparr>write_ring := r, tty_port := p\<rparr>) = sent ?s @ take k ?xs" "(\<forall>j. \<not> TTY_STATUS_WBUSY (busy j)) \<longrightarrow> k = length ?xs"
    using tty_drain_list [of ?s busy] unfolding w by blast
  let ?u = "tty_out Tty_command TTY_COMMAND_WIRQE (?s\<lparr>write_ring := r, tty_port := p\<rparr>)"
  let ?t = "tty_release (if ring_count r = 0 then wake_writers ?u else ?u)"
  have "outgoing (?s\<lparr>write_ring := r, tty_port := p\<rparr>) = sent ?s @ take k ?xs @ drop k ?xs"
    using d(4,5) unfolding outgoing_def by simp
  then have o: "outgoing ?t = outgoing s" by (simp add: outgoing_def [of s] sent_def [of "s\<lparr>tty_slock := 1\<rparr>"] sent_def [of s])
  have c: "(\<forall>j. \<not> TTY_STATUS_WBUSY (busy j)) \<longrightarrow> ring_count r = 0"
    using d(4,6) length_ring_list [of r] d(2) by (auto simp: ring_ok_def)
  show ?thesis
    using True assms d(1,2) o c by (intro exI [of _ ?t]) (auto simp: tty_acquire_def tty_ok_def Let_def tty_out_def tty_release_def wake_writers_def)
next
  case False
  then show ?thesis using assms by simp
qed

lemma tty_interrupt_list:
  assumes "tty_ok s" and "\<not> TTY_STATUS_ERROR (st 2)" and "TTY_STATUS_RIRQ (st 1) \<longrightarrow> ring_count (read_ring s) + int (length input) \<le> 2048"
  shows "\<exists>t. tty_interrupt_handle st busy input s = Inr t \<and> tty_ok t \<and> outgoing t = outgoing s \<and>
     ring_list (read_ring t) = ring_list (read_ring s) @ (if TTY_STATUS_RIRQ (st 1) then map ucast input else []) \<and>
     (TTY_STATUS_WIRQ (st 0) \<and> (\<forall>j. \<not> TTY_STATUS_WBUSY (busy j)) \<longrightarrow> ring_count (write_ring t) = 0 \<and> set (write_sleepers s) \<subseteq> set (tty_woken t))"
proof -
  obtain u where u: "tty_interrupt_handle st busy input s = (if TTY_STATUS_RIRQ (st 1) then
       rbind (tty_acquire u) (\<lambda>s.
       let s = tty_out Tty_command TTY_COMMAND_RIRQ s in
       if TTY_STATUS_ERROR (st 2) then Inl Panic else
       rbind (tty_receive input s) (\<lambda>s. Inr (wake_readers (tty_release s))))
     else Inr u)" "tty_ok u" "outgoing u = outgoing s" "read_ring u = read_ring s"
     "TTY_STATUS_WIRQ (st 0) \<and> (\<forall>j. \<not> TTY_STATUS_WBUSY (busy j)) \<longrightarrow> ring_count (write_ring u) = 0 \<and> tty_woken u = tty_woken s @ write_sleepers s"
    using tty_interrupt_write_list [OF assms(1), of st busy] unfolding tty_interrupt_handle_def by force
  show ?thesis
  proof (cases "TTY_STATUS_RIRQ (st 1)")
    case True
    let ?s = "tty_out Tty_command TTY_COMMAND_RIRQ (u\<lparr>tty_slock := 1\<rparr>)"
    obtain r where r: "tty_receive input ?s = Inr (?s\<lparr>read_ring := r\<rparr>)" "ring_ok r" "ring_list r = ring_list (read_ring s) @ map ucast input"
      using tty_receive_list [of ?s input] u(2,4) assms(3) True by (auto simp: tty_out_def tty_ok_def)
    then show ?thesis using True u assms(2)
      by (intro exI [of _ "wake_readers (tty_release (?s\<lparr>read_ring := r\<rparr>))"]) (auto simp: tty_acquire_def tty_ok_def Let_def tty_out_def tty_release_def wake_readers_def outgoing_def sent_def)
  next
    case False
    then show ?thesis using u by auto
  qed
qed

section \<open>Runs\<close>

text \<open>
  The terminal with the history of its streams: the bytes callers have handed over, the characters the device has delivered, the
  characters readers have got. The device delivers no more characters than the buffer has room for.
\<close>

record tty_sys =
  tty_of :: tty
  accepted :: "byte list"
  received :: "byte list"
  returned :: "byte list"

inductive tty_step :: "tty_sys \<Rightarrow> tty_sys \<Rightarrow> bool" where
  write_call: "0 \<le> len \<Longrightarrow> len \<le> int (length buf) \<Longrightarrow> tty_write st tid buf len (tty_of c) = Inr (v, s) \<Longrightarrow>
     tty_step c (c\<lparr>tty_of := s, accepted := accepted c @ take (nat (progress v)) buf\<rparr>)"
| write_on: "0 \<le> i \<Longrightarrow> i \<le> len \<Longrightarrow> len \<le> int (length buf) \<Longrightarrow> tty_write_resume intr_status st tid buf len i (tty_of c) = Inr (v, s) \<Longrightarrow>
     tty_step c (c\<lparr>tty_of := s, accepted := accepted c @ take (nat (progress v - i)) (drop (nat i) buf)\<rparr>)"
| read_call: "tty_read tid len (tty_of c) = Inr ((cs, v), s) \<Longrightarrow> tty_step c (c\<lparr>tty_of := s, returned := returned c @ cs\<rparr>)"
| read_on: "tty_read_resume intr_status tid len (tty_of c) = Inr ((cs, v), s) \<Longrightarrow> tty_step c (c\<lparr>tty_of := s, returned := returned c @ cs\<rparr>)"
| interrupt: "\<not> TTY_STATUS_ERROR (st 2) \<Longrightarrow> ring_count (read_ring (tty_of c)) + int (length input) \<le> TTY_BUF_SIZE \<Longrightarrow>
     tty_interrupt_handle st busy input (tty_of c) = Inr s \<Longrightarrow>
     tty_step c (c\<lparr>tty_of := s, received := received c @ (if TTY_STATUS_RIRQ (st 1) then map ucast input else [])\<rparr>)"

text \<open>A terminal after \<open>tty_init\<close>, with buffers of any content.\<close>

definition tty_boot :: "byte list \<Rightarrow> byte list \<Rightarrow> tty" where
  "tty_boot rb wb = tty_init \<lparr>tty_slock = 0, read_ring = \<lparr>ring_buf = rb, ring_head = 0, ring_count = 0\<rparr>, write_ring = \<lparr>ring_buf = wb, ring_head = 0, ring_count = 0\<rparr>,
     tty_intr = True, tty_port = [], read_sleepers = [], write_sleepers = [], tty_woken = []\<rparr>"

inductive tty_run :: "tty_sys \<Rightarrow> bool" where
  boot: "length rb = 2048 \<Longrightarrow> length wb = 2048 \<Longrightarrow> tty_run \<lparr>tty_of = tty_boot rb wb, accepted = [], received = [], returned = []\<rparr>"
| step: "tty_run c \<Longrightarrow> tty_step c d \<Longrightarrow> tty_run d"

definition tty_sys_ok :: "tty_sys \<Rightarrow> bool" where
  "tty_sys_ok c \<longleftrightarrow> tty_ok (tty_of c) \<and> outgoing (tty_of c) = accepted c \<and> returned c @ ring_list (read_ring (tty_of c)) = received c"

lemma tty_step_ok: "tty_step c d \<Longrightarrow> tty_sys_ok c \<Longrightarrow> tty_sys_ok d"
proof (induction rule: tty_step.induct)
  case (write_call len buf st tid c v s)
  then have "tty_write_resume (tty_intr (tty_of c)) st tid buf len 0 (tty_of c) = Inr (v, s)" by (simp add: tty_write_def)
  then show ?case using tty_write_resume_list [of "tty_of c" 0 len buf "tty_intr (tty_of c)" st tid] write_call by (auto simp: tty_sys_ok_def)
next
  case (write_on i len buf intr_status st tid c v s)
  then show ?case using tty_write_resume_list [of "tty_of c" i len buf intr_status st tid] by (auto simp: tty_sys_ok_def)
next
  case (read_call tid len c cs v s)
  then have "tty_read_resume (tty_intr (tty_of c)) tid len (tty_of c) = Inr ((cs, v), s)" by (simp add: tty_read_def)
  then show ?case using tty_read_resume_list [of "tty_of c" "tty_intr (tty_of c)" tid len] read_call.prems by (auto simp: tty_sys_ok_def)
next
  case (read_on intr_status tid len c cs v s)
  then show ?case using tty_read_resume_list [of "tty_of c" intr_status tid len] by (auto simp: tty_sys_ok_def)
next
  case (interrupt st c input busy s)
  then show ?case using tty_interrupt_list [of "tty_of c" st input busy] by (auto simp: tty_sys_ok_def)
qed

lemma tty_run_ok: "tty_run c \<Longrightarrow> tty_sys_ok c"
proof (induction rule: tty_run.induct)
  case (boot rb wb)
  then show ?case by (simp add: tty_sys_ok_def tty_ok_def tty_boot_def tty_init_def ring_ok_def outgoing_def sent_def ring_list_def)
next
  case (step c d)
  then show ?case by (simp add: tty_step_ok)
qed

text \<open>A writer with the interrupts that serve it: each finds the device ready for every character, and the writer goes on.\<close>

definition serving :: "(nat \<Rightarrow> u32) \<Rightarrow> (nat \<Rightarrow> u32) \<Rightarrow> bool" where
  "serving st busy \<longleftrightarrow> TTY_STATUS_WIRQ (st 0) \<and> \<not> TTY_STATUS_RIRQ (st 1) \<and> \<not> TTY_STATUS_ERROR (st 2) \<and> (\<forall>j. \<not> TTY_STATUS_WBUSY (busy j))"

fun write_served :: "((nat \<Rightarrow> u32) \<times> (nat \<Rightarrow> u32) \<times> (nat \<Rightarrow> u32)) list \<Rightarrow> bool \<Rightarrow> int \<Rightarrow> byte list \<Rightarrow> int \<Rightarrow> call \<Rightarrow> tty \<Rightarrow> (call \<times> tty) res" where
  "write_served rounds intr_status tid buf len (Returned n) s = Inr (Returned n, s)"
| "write_served [] intr_status tid buf len (Asleep i) s = Inr (Asleep i, s)"
| "write_served ((st, busy, st') # rounds) intr_status tid buf len (Asleep i) s =
     rbind (tty_interrupt_handle st busy [] s) (\<lambda>s.
     rbind (tty_write_resume intr_status st' tid buf len i s) (\<lambda>(v, s). write_served rounds intr_status tid buf len v s))"

text \<open>Each round moves at least a bufferful.\<close>

lemma write_served_done:
  assumes "tty_ok s" and "0 \<le> progress v" and "len \<le> int (length buf)" and "list_all (\<lambda>(st, busy, st'). serving st busy) rounds"
    and "len \<le> progress v + 2048 * int (length rounds)" and "written len intr_status v s"
  shows "\<exists>t. write_served rounds intr_status tid buf len v s = Inr (Returned len, t) \<and> tty_ok t \<and> tty_intr t = intr_status \<and>
     outgoing t = outgoing s @ take (nat (len - progress v)) (drop (nat (progress v)) buf)"
  using assms
proof (induction rounds intr_status tid buf len v s rule: write_served.induct)
  case (3 st busy st' rounds intr_status tid buf len i s)
  have sv: "serving st busy" using "3.prems"(4) by simp
  have "\<not> TTY_STATUS_ERROR (st 2)" "TTY_STATUS_RIRQ (st 1) \<longrightarrow> ring_count (read_ring s) + int (length ([] :: u32 list)) \<le> 2048"
    using sv by (simp_all add: serving_def)
  then obtain u where u: "tty_interrupt_handle st busy [] s = Inr u" "tty_ok u" "outgoing u = outgoing s" "ring_count (write_ring u) = 0"
    using tty_interrupt_list [OF "3.prems"(1), of st "[]" busy] sv by (auto simp: serving_def)
  have i: "0 \<le> i" "i < len" using "3.prems"(2,6) by simp_all
  then obtain v t where v: "tty_write_resume intr_status st' tid buf len i u = Inr (v, t)" "tty_ok t" "i \<le> progress v" "progress v \<le> len"
    "outgoing t = outgoing s @ take (nat (progress v - i)) (drop (nat i) buf)" "min len (i + 2048) \<le> progress v"
    "written len intr_status v t"
    using tty_write_resume_list [of u i len buf intr_status st' tid] u(2-4) "3.prems"(3) by auto
  have "len \<le> progress v + 2048 * int (length rounds)" using v(6) "3.prems"(5) i by (simp split: if_splits)
  then obtain w where w: "write_served rounds intr_status tid buf len v t = Inr (Returned len, w)" "tty_ok w" "tty_intr w = intr_status"
    "outgoing w = outgoing t @ take (nat (len - progress v)) (drop (nat (progress v)) buf)"
    using "3.IH" [OF u(1) v(1) refl v(2)] "3.prems"(3,4) v(3,7) i by auto
  then show ?case using u(1) v(1,3,4,5) i take_drop_split [of i "progress v" len buf] by simp
qed auto

text \<open>A character that arrives while the buffer is full takes the place of the oldest one.\<close>

lemma tty_receive_full:
  assumes "ring_ok (read_ring s)" and "ring_count (read_ring s) = 2048"
  shows "tty_receive [d] s = Inr (s\<lparr>read_ring := (read_ring s)\<lparr>ring_buf := (ring_buf (read_ring s))[nat (ring_head (read_ring s)) := ucast d], ring_count := 2049\<rparr>\<rparr>)"
  using assms by (simp add: ring_put_def ring_ok_def lset_def)

end
