(* ===== verification/Ide_Driver.thy ===== *)
theory Ide_Driver
  imports Kudos_Prelude Disk_Driver
begin

text \<open>
  The IDE disk driver of the x86_64 build (\<^verbatim>\<open>src/kudos/drivers/x86_64/disk.c\<close>, \<^verbatim>\<open>_disk.h\<close>). \<open>ide_in\<close> are the bytes that the next byte reads of ports give and \<open>ide_words\<close>
  the words that reads of the data port give, in order; a loop that waits for more is \<open>Blocked\<close>. Writes are recorded: \<open>ide_log\<close> the bytes with their
  ports, \<open>ide_wout\<close> the words.
\<close>

section \<open>Data\<close>

record ide_channel =
  base :: u16
  ctrl :: u16
  busm :: u16
  chan_irq :: byte
  irq_wait :: u32

record ide_device =
  present :: byte
  channel :: byte
  drive :: byte
  flags :: byte
  type :: u16
  signature :: u16
  capabilities :: u16
  commandset :: u32
  cylinders :: u16
  headspercylinder :: u16
  secsperhead :: u64
  totalsectors :: u64

record ide =
  ide_channels :: "ide_channel list"
  ide_devices :: "ide_device list"
  registered :: "nat list"
  ide_in :: "byte list"
  ide_words :: "u16 list"
  ide_log :: "(u16 \<times> byte) list"
  ide_wout :: "u16 list"

record pci_conf =
  prog_if :: byte
  bar0 :: u32
  bar1 :: u32
  bar2 :: u32
  bar3 :: u32
  bar4 :: u32

abbreviation (input) IDE_PRIMARY_CMD_BASE :: u16 where "IDE_PRIMARY_CMD_BASE \<equiv> 0x1F0"
abbreviation (input) IDE_PRIMARY_CTRL_BASE :: u16 where "IDE_PRIMARY_CTRL_BASE \<equiv> 0x3F6"
abbreviation (input) IDE_SECONDARY_CMD_BASE :: u16 where "IDE_SECONDARY_CMD_BASE \<equiv> 0x170"
abbreviation (input) IDE_SECONDARY_CTRL_BASE :: u16 where "IDE_SECONDARY_CTRL_BASE \<equiv> 0x376"
abbreviation (input) IDE_REGISTER_DATA :: byte where "IDE_REGISTER_DATA \<equiv> 0x00"
abbreviation (input) IDE_REGISTER_FEATURES :: byte where "IDE_REGISTER_FEATURES \<equiv> 0x01"
abbreviation (input) IDE_REGISTER_SECCOUNT0 :: byte where "IDE_REGISTER_SECCOUNT0 \<equiv> 0x02"
abbreviation (input) IDE_REGISTER_LBA0 :: byte where "IDE_REGISTER_LBA0 \<equiv> 0x03"
abbreviation (input) IDE_REGISTER_LBA1 :: byte where "IDE_REGISTER_LBA1 \<equiv> 0x04"
abbreviation (input) IDE_REGISTER_LBA2 :: byte where "IDE_REGISTER_LBA2 \<equiv> 0x05"
abbreviation (input) IDE_REGISTER_HDDSEL :: byte where "IDE_REGISTER_HDDSEL \<equiv> 0x06"
abbreviation (input) IDE_REGISTER_COMMAND :: byte where "IDE_REGISTER_COMMAND \<equiv> 0x07"
abbreviation (input) IDE_REGISTER_STATUS :: byte where "IDE_REGISTER_STATUS \<equiv> 0x07"
abbreviation (input) IDE_REGISTER_CTRL :: byte where "IDE_REGISTER_CTRL \<equiv> 0x0C"
abbreviation (input) IDE_COMMAND_PIO_READ :: byte where "IDE_COMMAND_PIO_READ \<equiv> 0x20"
abbreviation (input) IDE_COMMAND_PIO_WRITE :: byte where "IDE_COMMAND_PIO_WRITE \<equiv> 0x30"
abbreviation (input) IDE_COMMAND_PACKET :: byte where "IDE_COMMAND_PACKET \<equiv> 0xA1"
abbreviation (input) IDE_COMMAND_FLUSH :: byte where "IDE_COMMAND_FLUSH \<equiv> 0xE7"
abbreviation (input) IDE_COMMAND_IDENTIFY :: byte where "IDE_COMMAND_IDENTIFY \<equiv> 0xEC"
abbreviation (input) IDE_ERROR_GENERIC :: byte where "IDE_ERROR_GENERIC \<equiv> 0x01"
abbreviation (input) IDE_ERROR_DRQ :: byte where "IDE_ERROR_DRQ \<equiv> 0x08"
abbreviation (input) IDE_ERROR_FAULT :: byte where "IDE_ERROR_FAULT \<equiv> 0x20"
abbreviation (input) IDE_ATA_BUSY :: byte where "IDE_ATA_BUSY \<equiv> 0x80"
abbreviation (input) IDE_ATA_DRQ :: byte where "IDE_ATA_DRQ \<equiv> 0x08"
abbreviation (input) IDE_READ :: byte where "IDE_READ \<equiv> 0"
abbreviation (input) IDE_WRITE :: byte where "IDE_WRITE \<equiv> 1"

section \<open>Ports\<close>

definition outb :: "u16 \<Rightarrow> byte \<Rightarrow> ide \<Rightarrow> ide" where
  "outb port v s = s\<lparr>ide_log := ide_log s @ [(port, v)]\<rparr>"

definition inb :: "u16 \<Rightarrow> ide \<Rightarrow> (byte \<times> ide) res" where
  "inb port s = (case ide_in s of [] \<Rightarrow> Inl Blocked | x # xs \<Rightarrow> Inr (x, s\<lparr>ide_in := xs\<rparr>))"

definition insw :: "nat \<Rightarrow> ide \<Rightarrow> (u16 list \<times> ide) res" where
  "insw n s = (if length (ide_words s) < n then Inl Blocked else Inr (take n (ide_words s), s\<lparr>ide_words := drop n (ide_words s)\<rparr>))"

definition outsw :: "u16 list \<Rightarrow> ide \<Rightarrow> ide" where
  "outsw ws s = s\<lparr>ide_wout := ide_wout s @ ws\<rparr>"

definition get_channel :: "byte \<Rightarrow> ide \<Rightarrow> ide_channel res" where
  "get_channel c s = lget (ide_channels s) (int (unat c))"

text \<open>The port of a register: the chain of tests that \<open>ide_write\<close> and \<open>ide_read\<close> share.\<close>

definition ide_port :: "byte \<Rightarrow> ide_channel \<Rightarrow> u16 option" where
  "ide_port reg ch =
     (if reg < 0x08 then Some (base ch + ucast reg)
      else if reg < 0x0C then Some (base ch + ucast reg - 0x06)
      else if reg < 0x0E then Some (ctrl ch + ucast reg - 0x0A)
      else if reg < 0x16 then Some (busm ch + ucast reg - 0x0E)
      else None)"

definition ide_out :: "ide_channel \<Rightarrow> byte \<Rightarrow> byte \<Rightarrow> ide \<Rightarrow> ide" where
  "ide_out ch reg data s = (case ide_port reg ch of None \<Rightarrow> s | Some p \<Rightarrow> outb p data s)"

text \<open>A register of the second bank is reached with the top bit of the control register set; the nested calls of \<open>ide_write\<close> do not nest further.\<close>

definition ide_write :: "byte \<Rightarrow> byte \<Rightarrow> byte \<Rightarrow> ide \<Rightarrow> ide res" where
  "ide_write c reg data s =
     rbind (get_channel c s) (\<lambda>ch.
     let hob = (reg > 0x07 \<and> reg < 0x0C);
         s = (if hob then ide_out ch IDE_REGISTER_CTRL (0x80 OR chan_irq ch) s else s);
         s = ide_out ch reg data s;
         s = (if hob then ide_out ch IDE_REGISTER_CTRL (chan_irq ch) s else s) in
     Inr s)"

definition ide_read :: "byte \<Rightarrow> byte \<Rightarrow> ide \<Rightarrow> (byte \<times> ide) res" where
  "ide_read c reg s =
     rbind (get_channel c s) (\<lambda>ch.
     let hob = (reg > 0x07 \<and> reg < 0x0C);
         s = (if hob then ide_out ch IDE_REGISTER_CTRL (0x80 OR chan_irq ch) s else s) in
     rbind (case ide_port reg ch of None \<Rightarrow> Inr (0, s) | Some p \<Rightarrow> inb p s) (\<lambda>(data, s).
     Inr (data, if hob then ide_out ch IDE_REGISTER_CTRL (chan_irq ch) s else s)))"

definition ide_delay :: "byte \<Rightarrow> ide \<Rightarrow> ide res" where
  "ide_delay c s =
     rbind (ide_read c IDE_REGISTER_STATUS s) (\<lambda>(_, s).
     rbind (ide_read c IDE_REGISTER_STATUS s) (\<lambda>(_, s).
     rbind (ide_read c IDE_REGISTER_STATUS s) (\<lambda>(_, s).
     rbind (ide_read c IDE_REGISTER_STATUS s) (\<lambda>(_, s). Inr s))))"

lemma inb_shorter: "inb p s = Inr (x, t) \<Longrightarrow> length (ide_in t) < length (ide_in s)"
  by (auto simp: inb_def split: list.splits)

text \<open>The loop that waits for BUSY to clear.\<close>

function wait_busy :: "u16 \<Rightarrow> ide \<Rightarrow> ide res" where
  "wait_busy p s = rbind (inb p s) (\<lambda>(status, s). if status AND IDE_ATA_BUSY \<noteq> 0 then wait_busy p s else Inr s)"
  by pat_completeness auto
termination
  by (relation "measure (\<lambda>(p, s). length (ide_in s))") (auto dest: inb_shorter)

declare wait_busy.simps [simp del]

definition ide_wait :: "byte \<Rightarrow> bool \<Rightarrow> ide \<Rightarrow> (int \<times> ide) res" where
  "ide_wait c advanced s =
     rbind (ide_delay c s) (\<lambda>s.
     rbind (get_channel c s) (\<lambda>ch.
     rbind (wait_busy (base ch + ucast IDE_REGISTER_STATUS) s) (\<lambda>s.
     if advanced then
       rbind (inb (base ch + ucast IDE_REGISTER_STATUS) s) (\<lambda>(status, s).
       if status AND IDE_ERROR_FAULT \<noteq> 0 then Inr (- 1, s)
       else if status AND IDE_ERROR_GENERIC \<noteq> 0 then Inr (- 2, s)
       else if \<not> (status AND IDE_ERROR_DRQ \<noteq> 0) then Inr (- 3, s)
       else Inr (0, s))
     else Inr (0, s))))"

section \<open>Transfers\<close>

definition get_device :: "byte \<Rightarrow> ide \<Rightarrow> ide_device res" where
  "get_device d s = lget (ide_devices s) (int (unat d))"

text \<open>The command: everything between the first wait and the last.\<close>

definition ide_send :: "byte \<Rightarrow> ide_device \<Rightarrow> u64 \<Rightarrow> u32 \<Rightarrow> ide \<Rightarrow> ide res" where
  "ide_send rw dev addr numsectors s =
     (let c = channel dev;
          lba48 = (flags dev AND 1 \<noteq> 0);
          slave = push_bit 4 (drive dev);
          cmd = (if rw = IDE_READ then IDE_COMMAND_PIO_READ else IDE_COMMAND_PIO_WRITE);
          cmd = (if lba48 then cmd + 0x04 else cmd) in
      rbind (if lba48 then
               rbind (ide_write c IDE_REGISTER_HDDSEL (0x40 OR slave) s) (\<lambda>s.
               rbind (ide_wait c False s) (\<lambda>(_, s).
               rbind (ide_write c IDE_REGISTER_SECCOUNT0 0x00 s) (\<lambda>s.
               rbind (ide_write c IDE_REGISTER_LBA0 (ucast (drop_bit 24 addr AND 0xFF)) s) (\<lambda>s.
               rbind (ide_write c IDE_REGISTER_LBA1 (ucast (drop_bit 32 addr AND 0xFF)) s) (\<lambda>s.
               ide_write c IDE_REGISTER_LBA2 (ucast (drop_bit 40 addr AND 0xFF)) s)))))
             else
               rbind (ide_write c IDE_REGISTER_HDDSEL (ucast (0xE0 OR ucast slave OR drop_bit 24 (addr AND 0x0F000000) :: u64)) s) (\<lambda>s.
               rbind (ide_wait c False s) (\<lambda>(_, s).
               ide_write c IDE_REGISTER_FEATURES 0x00 s))) (\<lambda>s.
      rbind (ide_write c IDE_REGISTER_SECCOUNT0 (ucast numsectors) s) (\<lambda>s.
      rbind (ide_write c IDE_REGISTER_LBA0 (ucast (addr AND 0xFF)) s) (\<lambda>s.
      rbind (ide_write c IDE_REGISTER_LBA1 (ucast (drop_bit 8 addr AND 0xFF)) s) (\<lambda>s.
      rbind (ide_write c IDE_REGISTER_LBA2 (ucast (drop_bit 16 addr AND 0xFF)) s) (\<lambda>s.
      ide_write c IDE_REGISTER_COMMAND cmd s))))))"

text \<open>\<open>data\<close> are the words at \<open>buf\<close> when writing; the words read are returned.\<close>

definition ide_pio_readwrite :: "byte \<Rightarrow> byte \<Rightarrow> u64 \<Rightarrow> u64 \<Rightarrow> u16 list \<Rightarrow> u32 \<Rightarrow> ide \<Rightarrow> ((int \<times> u16 list) \<times> ide) res" where
  "ide_pio_readwrite rw d lba buf data numsectors s =
     (if rw > 1 \<or> buf = 0 then Inr ((0, []), s) else
      rbind (get_device d s) (\<lambda>dev.
      rbind (get_channel (channel dev) s) (\<lambda>ch.
      let words = (numsectors * 512) div 2;
          s = outb (base ch + ucast IDE_REGISTER_CTRL) 0x02 s in
      rbind (ide_wait (channel dev) False s) (\<lambda>(_, s).
      let s = s\<lparr>ide_channels := (ide_channels s)[unat (channel dev) := ch\<lparr>irq_wait := 0\<rparr>]\<rparr> in
      rbind (ide_send rw dev lba numsectors s) (\<lambda>s.
      rbind (ide_wait (channel dev) True s) (\<lambda>(r, s).
      if r \<noteq> 0 then Inr ((0, []), s) else
      rbind (if rw = IDE_READ then insw (unat (256 * numsectors)) s
             else Inr ([], outb (base ch + ucast IDE_REGISTER_COMMAND) IDE_COMMAND_FLUSH (outsw (take (unat (256 * numsectors)) data) s))) (\<lambda>(ws, s).
      rbind (ide_wait (channel dev) False s) (\<lambda>(_, s). Inr ((sint (words * 2), ws), s)))))))))"

text \<open>The entries of the block device; the driver does not use the other fields of the request.\<close>

definition ide_read_block :: "u64 \<Rightarrow> gbd_request \<Rightarrow> ide \<Rightarrow> ((int \<times> u16 list) \<times> ide) res" where
  "ide_read_block io_address request s =
     (let d = (ucast io_address :: byte); sector = (ucast (req_block request) :: u64) in
      if d > 3 then Inr ((- 6, []), s) else
      rbind (get_device d s) (\<lambda>dev.
      if present dev = 0 then Inr ((- 6, []), s)
      else if sector > totalsectors dev \<or> type dev \<noteq> 0 then Inr ((- 5, []), s)
      else ide_pio_readwrite IDE_READ d sector (ucast (req_buf request)) [] 1 s))"

definition ide_write_block :: "u64 \<Rightarrow> gbd_request \<Rightarrow> u16 list \<Rightarrow> ide \<Rightarrow> ((int \<times> u16 list) \<times> ide) res" where
  "ide_write_block io_address request data s =
     (let d = (ucast io_address :: byte); sector = (ucast (req_block request) :: u64) in
      if d > 3 then Inr ((- 1, []), s) else
      rbind (get_device d s) (\<lambda>dev.
      if present dev = 0 then Inr ((- 1, []), s)
      else if sector > totalsectors dev \<or> type dev \<noteq> 0 then Inr ((- 2, []), s)
      else ide_pio_readwrite IDE_WRITE d sector (ucast (req_buf request)) data 1 s))"

definition ide_get_sectorsize :: "u64 \<Rightarrow> ide \<Rightarrow> u32 res" where
  "ide_get_sectorsize io_address s = rbind (get_device (ucast io_address) s) (\<lambda>dev. Inr (if type dev = 0 then 512 else 2048))"

definition ide_get_sectorcount :: "u64 \<Rightarrow> ide \<Rightarrow> u32 res" where
  "ide_get_sectorcount io_address s = rbind (get_device (ucast io_address) s) (\<lambda>dev. Inr (ucast (totalsectors dev)))"

section \<open>Initialisation\<close>

text \<open>The base of a channel in native mode.\<close>

definition native_base :: "u32 \<Rightarrow> u16" where
  "native_base bar = (let b = (ucast bar :: u16) in if b AND 1 \<noteq> 0 then b - 1 else b)"

definition ide_setup :: "pci_conf \<Rightarrow> ide \<Rightarrow> ide" where
  "ide_setup pci s =
     (let native1 = (prog_if pci AND 0x1 \<noteq> 0); native2 = (prog_if pci AND 0x4 \<noteq> 0);
          iobase1 = (if native1 then native_base (bar0 pci) else IDE_PRIMARY_CMD_BASE);
          ctrlbase1 = (if native1 then native_base (bar1 pci) else IDE_PRIMARY_CTRL_BASE);
          iobase2 = (if native2 then native_base (bar2 pci) else IDE_SECONDARY_CMD_BASE);
          ctrlbase2 = (if native2 then native_base (bar3 pci) else IDE_SECONDARY_CTRL_BASE);
          busmaster = ucast (bar4 pci) in
      s\<lparr>ide_channels := [\<lparr>base = iobase1, ctrl = ctrlbase1, busm = busmaster, chan_irq = 14, irq_wait = 0\<rparr>,
                         \<lparr>base = iobase2, ctrl = ctrlbase2, busm = busmaster, chan_irq = 15, irq_wait = 0\<rparr>]\<rparr>)"

text \<open>The loop that waits for the answer to IDENTIFY; the result is the variable \<open>error\<close>.\<close>

function wait_identify :: "u16 \<Rightarrow> ide \<Rightarrow> (bool \<times> ide) res" where
  "wait_identify p s =
     rbind (inb p s) (\<lambda>(status, s).
     if status AND 0x1 \<noteq> 0 then Inr (True, s)
     else if \<not> (status AND IDE_ATA_BUSY \<noteq> 0) \<and> status AND IDE_ATA_DRQ \<noteq> 0 then Inr (False, s)
     else wait_identify p s)"
  by pat_completeness auto
termination
  by (relation "measure (\<lambda>(p, s). length (ide_in s))") (auto dest: inb_shorter)

declare wait_identify.simps [simp del]

definition ident32 :: "u16 list \<Rightarrow> nat \<Rightarrow> u32" where
  "ident32 w k = ucast (w ! k) OR push_bit 16 (ucast (w ! (k + 1)))"

definition ident64 :: "u16 list \<Rightarrow> nat \<Rightarrow> u64" where
  "ident64 w k = ucast (ident32 w k) OR push_bit 32 (ucast (ident32 w (k + 2)))"

text \<open>Steps 6 and 7: the device entry from the identification space.\<close>

definition identified :: "bool \<Rightarrow> byte \<Rightarrow> byte \<Rightarrow> u16 list \<Rightarrow> ide_device \<Rightarrow> ide_device" where
  "identified atapi i j buf dev =
     (let dev = dev\<lparr>present := 1, type := (if atapi then 1 else 0), channel := i, drive := j, signature := buf ! 0, capabilities := buf ! 49,
            commandset := ident32 buf 82\<rparr>;
          lba28 = ident32 buf 60; lba48 = ident64 buf 100;
          geometry = (\<lambda>d. d\<lparr>cylinders := buf ! 1, headspercylinder := buf ! 3, secsperhead := ident64 buf 6\<rparr>) in
      if lba48 \<noteq> 0 then geometry (dev\<lparr>totalsectors := lba48, flags := flags dev OR 1\<rparr>)
      else if lba28 \<noteq> 0 then geometry (dev\<lparr>totalsectors := ucast lba28\<rparr>)
      else dev\<lparr>totalsectors := 0, cylinders := 0, headspercylinder := 0, secsperhead := 0\<rparr>)"

definition upd_device :: "nat \<Rightarrow> (ide_device \<Rightarrow> ide_device) \<Rightarrow> ide \<Rightarrow> ide res" where
  "upd_device k f s = rbind (lget (ide_devices s) (int k)) (\<lambda>d. Inr (s\<lparr>ide_devices := (ide_devices s)[k := f d]\<rparr>))"

text \<open>Steps 1 and 2 of a round of the enumeration: select the drive and send IDENTIFY.\<close>

definition ide_identify :: "byte \<Rightarrow> byte \<Rightarrow> ide \<Rightarrow> ide res" where
  "ide_identify i j s =
     rbind (ide_write i IDE_REGISTER_HDDSEL (0xA0 OR push_bit 4 j) s) (\<lambda>s.
     rbind (ide_delay i s) (\<lambda>s.
     rbind (ide_write i IDE_REGISTER_SECCOUNT0 0 s) (\<lambda>s.
     rbind (ide_write i IDE_REGISTER_LBA0 0 s) (\<lambda>s.
     rbind (ide_write i IDE_REGISTER_LBA1 0 s) (\<lambda>s.
     rbind (ide_write i IDE_REGISTER_LBA2 0 s) (\<lambda>s.
     rbind (ide_write i IDE_REGISTER_LBA2 0 s) (\<lambda>s.
     rbind (ide_write i IDE_REGISTER_COMMAND IDE_COMMAND_IDENTIFY s) (\<lambda>s.
     ide_delay i s))))))))"

text \<open>Step 4: after an error, what kind of drive it is; \<open>None\<close> is an unknown type.\<close>

definition ide_atapi :: "byte \<Rightarrow> ide_channel \<Rightarrow> bool \<Rightarrow> ide \<Rightarrow> (bool option \<times> ide) res" where
  "ide_atapi i chan error s =
     (if error then
        rbind (inb (base chan + ucast IDE_REGISTER_LBA1) s) (\<lambda>(cl, s).
        rbind (inb (base chan + ucast IDE_REGISTER_LBA2) s) (\<lambda>(ch, s).
        if cl = 0x14 \<and> ch = 0xEB \<or> cl = 0x69 \<and> ch = 0x96 then
          rbind (ide_write i IDE_REGISTER_COMMAND IDE_COMMAND_PACKET s) (\<lambda>s. rbind (ide_delay i s) (\<lambda>s. Inr (Some True, s)))
        else Inr (None, s)))
      else Inr (Some False, s))"

text \<open>Steps 3 to 7 for a drive that is there, and its registration.\<close>

definition ide_found :: "byte \<Rightarrow> byte \<Rightarrow> nat \<Rightarrow> ide_channel \<Rightarrow> ide \<Rightarrow> ide res" where
  "ide_found i j k ch s =
     rbind (wait_identify (base ch + ucast IDE_REGISTER_STATUS) s) (\<lambda>(error, s).
     rbind (ide_atapi i ch error s) (\<lambda>(atapi, s).
     case atapi of None \<Rightarrow> Inr s
     | Some t \<Rightarrow> rbind (insw 256 s) (\<lambda>(buf, s).
         rbind (upd_device k (identified t i j buf) s) (\<lambda>s. Inr (s\<lparr>registered := registered s @ [k]\<rparr>)))))"

text \<open>One round of the enumeration, for drive \<open>j\<close> of channel \<open>i\<close>, at index \<open>k\<close>.\<close>

definition ide_probe :: "byte \<Rightarrow> byte \<Rightarrow> nat \<Rightarrow> ide \<Rightarrow> ide res" where
  "ide_probe i j k s =
     rbind (upd_device k (\<lambda>d. d\<lparr>present := 0\<rparr>) s) (\<lambda>s.
     rbind (ide_identify i j s) (\<lambda>s.
     rbind (get_channel i s) (\<lambda>ch.
     rbind (inb (base ch + ucast IDE_REGISTER_STATUS) s) (\<lambda>(status, s).
     if status = 0 \<or> status = 0x7F \<or> status = 0xFF then Inr s else ide_found i j k ch s))))"

definition disk_init64 :: "pci_conf \<Rightarrow> ide \<Rightarrow> ide res" where
  "disk_init64 pci s =
     (let s = ide_setup pci s in
      rbind (ide_write 0 IDE_REGISTER_CTRL 2 s) (\<lambda>s.
      rbind (ide_write 1 IDE_REGISTER_CTRL 2 s) (\<lambda>s.
      rbind (ide_probe 0 0 0 s) (\<lambda>s.
      rbind (ide_probe 0 1 1 s) (\<lambda>s.
      rbind (ide_probe 1 0 2 s) (\<lambda>s.
      ide_probe 1 1 3 s))))))"

section \<open>What the drive is told\<close>

text \<open>
  How an ATA drive reads the registers when the command register is written: it keeps the last two bytes written to each register; the
  address is in the last bytes and four bits of the select register, or, for the extended commands, in the last two bytes of each.
\<close>

definition ata_last :: "u16 \<Rightarrow> (u16 \<times> byte) list \<Rightarrow> byte list" where
  "ata_last p log = map snd (rev (filter (\<lambda>(q, v). q = p) log))"

definition byte_at :: "byte list \<Rightarrow> nat \<Rightarrow> u64" where
  "byte_at bs k = (if k < length bs then ucast (bs ! k) else 0)"

definition ata_lba28 :: "u16 \<Rightarrow> (u16 \<times> byte) list \<Rightarrow> u64" where
  "ata_lba28 b log = byte_at (ata_last (b + 3) log) 0 OR push_bit 8 (byte_at (ata_last (b + 4) log) 0) OR
     push_bit 16 (byte_at (ata_last (b + 5) log) 0) OR push_bit 24 (byte_at (ata_last (b + 6) log) 0 AND 0x0F)"

definition ata_lba48 :: "u16 \<Rightarrow> (u16 \<times> byte) list \<Rightarrow> u64" where
  "ata_lba48 b log = byte_at (ata_last (b + 3) log) 0 OR push_bit 8 (byte_at (ata_last (b + 4) log) 0) OR push_bit 16 (byte_at (ata_last (b + 5) log) 0) OR
     push_bit 24 (byte_at (ata_last (b + 3) log) 1) OR push_bit 32 (byte_at (ata_last (b + 4) log) 1) OR push_bit 40 (byte_at (ata_last (b + 5) log) 1)"

definition ata_count48 :: "u16 \<Rightarrow> (u16 \<times> byte) list \<Rightarrow> u64" where
  "ata_count48 b log = byte_at (ata_last (b + 2) log) 0 OR push_bit 8 (byte_at (ata_last (b + 2) log) 1)"

section \<open>Addresses in bytes\<close>

lemma and_low: "x AND 0xFF = take_bit 8 (x :: u64)" "x AND 0x0F = take_bit 4 x"
  by (simp_all add: take_bit_eq_mask mask_eq_exp_minus_1)

lemma ucast_low: "(ucast (ucast (x AND 0xFF :: u64) :: byte) :: u64) = take_bit 8 x"
  unfolding and_low by (rule bit_word_eqI) (auto simp: bit_simps)

lemma take_bit_split: "take_bit (m + k) x = take_bit m x OR push_bit m (take_bit k (drop_bit m (x :: u64)))"
proof (rule bit_word_eqI)
  fix n assume "n < LENGTH(64)"
  then show "bit (take_bit (m + k) x) n = bit (take_bit m x OR push_bit m (take_bit k (drop_bit m x))) n"
    by (cases "n < m") (auto simp: bit_simps)
qed

lemma join48:
  assumes "take_bit 48 addr = (addr :: u64)"
  shows "take_bit 8 addr OR push_bit 8 (take_bit 8 (drop_bit 8 addr)) OR push_bit 16 (take_bit 8 (drop_bit 16 addr)) OR
     push_bit 24 (take_bit 8 (drop_bit 24 addr)) OR push_bit 32 (take_bit 8 (drop_bit 32 addr)) OR push_bit 40 (take_bit 8 (drop_bit 40 addr)) = addr"
  using take_bit_split [of 8 8 addr] take_bit_split [of 16 8 addr] take_bit_split [of 24 8 addr] take_bit_split [of 32 8 addr] take_bit_split [of 40 8 addr] assms
  by (simp add: or.assoc)

lemma join28:
  assumes "take_bit 28 addr = (addr :: u64)"
  shows "take_bit 8 addr OR push_bit 8 (take_bit 8 (drop_bit 8 addr)) OR push_bit 16 (take_bit 8 (drop_bit 16 addr)) OR
     push_bit 24 (take_bit 4 (drop_bit 24 addr)) = addr"
  using take_bit_split [of 8 8 addr] take_bit_split [of 16 8 addr] take_bit_split [of 24 4 addr] assms by (simp add: or.assoc)

lemma mid_bits: "drop_bit 24 (addr AND 0x0F000000) = take_bit 4 (drop_bit 24 (addr :: u64))"
proof -
  have "drop_bit 24 (addr AND 0x0F000000) = drop_bit 24 addr AND drop_bit 24 0x0F000000" by (rule drop_bit_and)
  then show ?thesis using and_low(2) [of "drop_bit 24 addr"] by simp
qed

definition select_fact :: "byte \<Rightarrow> nat \<Rightarrow> bool" where
  "select_fact d k \<longleftrightarrow> (ucast (ucast (0xE0 OR ucast (push_bit 4 d) OR word_of_nat k :: u64) :: byte) :: u64) AND 0x0F = word_of_nat k \<and>
     (ucast (0xE0 OR ucast (push_bit 4 d) OR word_of_nat k :: u64) :: byte) AND 0x10 = push_bit 4 d"

lemma select_bits:
  assumes "d = 0 \<or> d = (1 :: byte)"
  shows "(ucast (ucast (0xE0 OR ucast (push_bit 4 d) OR drop_bit 24 (addr AND 0x0F000000) :: u64) :: byte) :: u64) AND 0x0F = take_bit 4 (drop_bit 24 addr)"
    "(ucast (0xE0 OR ucast (push_bit 4 d) OR drop_bit 24 (addr AND 0x0F000000) :: u64) :: byte) AND 0x10 = push_bit 4 d"
proof -
  let ?k = "unat (take_bit 4 (drop_bit 24 addr))"
  have "list_all (\<lambda>k. select_fact 0 k \<and> select_fact 1 k) [0..<16]" by code_simp
  moreover have "?k < 16" by (simp add: unsigned_take_bit_eq take_bit_eq_mod [where 'a = nat])
  ultimately have "select_fact d ?k" using assms by (auto simp: list_all_iff simp del: upt_rec_numeral)
  then show "(ucast (ucast (0xE0 OR ucast (push_bit 4 d) OR drop_bit 24 (addr AND 0x0F000000) :: u64) :: byte) :: u64) AND 0x0F = take_bit 4 (drop_bit 24 addr)"
    "(ucast (0xE0 OR ucast (push_bit 4 d) OR drop_bit 24 (addr AND 0x0F000000) :: u64) :: byte) AND 0x10 = push_bit 4 d"
    unfolding select_fact_def mid_bits by simp_all
qed

section \<open>What the operations do\<close>

definition chan_ok :: "byte \<Rightarrow> ide_channel \<Rightarrow> ide \<Rightarrow> bool" where
  "chan_ok c ch s \<longleftrightarrow> unat c < length (ide_channels s) \<and> ide_channels s ! unat c = ch"

lemma get_channel_ok [simp]: "chan_ok c ch s \<Longrightarrow> get_channel c s = Inr ch"
  unfolding chan_ok_def get_channel_def by (metis lget_nat)

lemma chan_ok_frame [simp]:
  "chan_ok c ch (outb p v s) = chan_ok c ch s" "chan_ok c ch (s\<lparr>ide_in := bs\<rparr>) = chan_ok c ch s" "chan_ok c ch (s\<lparr>ide_log := l\<rparr>) = chan_ok c ch s"
  "chan_ok c ch (s\<lparr>ide_words := ws\<rparr>) = chan_ok c ch s" "chan_ok c ch (s\<lparr>ide_wout := ws\<rparr>) = chan_ok c ch s"
  by (simp_all add: chan_ok_def outb_def)

lemma ide_write_low: "chan_ok c ch s \<Longrightarrow> reg < 8 \<Longrightarrow> ide_write c reg v s = Inr (outb (base ch + ucast reg) v s)"
proof -
  assume "chan_ok c ch s" and "reg < 8"
  moreover from this have "\<not> 7 < reg" by (simp add: word_less_nat_alt)
  ultimately show ?thesis by (simp add: ide_write_def ide_out_def ide_port_def Let_def)
qed

lemma ide_read_status: "chan_ok c ch s \<Longrightarrow> ide_in s = b # bs \<Longrightarrow> ide_read c IDE_REGISTER_STATUS s = Inr (b, s\<lparr>ide_in := bs\<rparr>)"
  by (simp add: ide_read_def ide_port_def inb_def Let_def)

text \<open>The status bytes of a drive that is not busy.\<close>

definition calm :: "byte list \<Rightarrow> bool" where
  "calm bs \<longleftrightarrow> list_all (\<lambda>b. b AND IDE_ATA_BUSY = 0) bs"

lemma ide_delay_calm: "chan_ok c ch s \<Longrightarrow> 4 \<le> length (ide_in s) \<Longrightarrow> ide_delay c s = Inr (s\<lparr>ide_in := drop 4 (ide_in s)\<rparr>)"
proof -
  assume c: "chan_ok c ch s" and l: "4 \<le> length (ide_in s)"
  obtain a b d e r where r: "ide_in s = a # b # d # e # r" using l by (auto simp: numeral_eq_Suc Suc_le_length_iff)
  have "drop 4 (ide_in s) = r" using r by (simp add: numeral_eq_Suc)
  then show ?thesis using c r by (simp add: ide_delay_def ide_read_status [OF c r] ide_read_status)
qed

lemma ide_wait_calm:
  assumes "chan_ok c ch s" and "5 \<le> length (ide_in s)" and "calm (ide_in s)"
  shows "ide_wait c False s = Inr (0, s\<lparr>ide_in := drop 5 (ide_in s)\<rparr>)"
proof -
  obtain b where b: "drop 4 (ide_in s) = b # drop 5 (ide_in s)" "b AND IDE_ATA_BUSY = 0"
    using assms(2,3) Cons_nth_drop_Suc [of 4 "ide_in s"] that [of "ide_in s ! 4"] by (simp add: calm_def list_all_length)
  then show ?thesis using assms ide_delay_calm [of c ch s] by (simp add: ide_wait_def wait_busy.simps inb_def)
qed

lemma ide_wait_advanced:
  assumes "chan_ok c ch s" and "6 \<le> length (ide_in s)" and "calm (ide_in s)"
  shows "\<exists>r. ide_wait c True s = Inr (r, s\<lparr>ide_in := drop 6 (ide_in s)\<rparr>) \<and> (r = 0 \<longleftrightarrow> ide_in s ! 5 AND 0x20 = 0 \<and> ide_in s ! 5 AND 1 = 0 \<and> ide_in s ! 5 AND 8 \<noteq> 0)"
proof -
  obtain b where b: "drop 4 (ide_in s) = b # drop 5 (ide_in s)" "b AND IDE_ATA_BUSY = 0"
    using assms(2,3) Cons_nth_drop_Suc [of 4 "ide_in s"] that [of "ide_in s ! 4"] by (simp add: calm_def list_all_length)
  have "drop 5 (ide_in s) = ide_in s ! 5 # drop 6 (ide_in s)" using assms(2) Cons_nth_drop_Suc [of 5 "ide_in s"] by simp
  then show ?thesis using assms ide_delay_calm [of c ch s] b by (simp add: ide_wait_def wait_busy.simps inb_def)
qed

text \<open>The bytes that a command writes, with their ports.\<close>

definition ide_request :: "byte \<Rightarrow> ide_device \<Rightarrow> u16 \<Rightarrow> u64 \<Rightarrow> u32 \<Rightarrow> (u16 \<times> byte) list" where
  "ide_request rw dev b addr n =
     (if flags dev AND 1 \<noteq> 0 then
        [(b + 6, 0x40 OR push_bit 4 (drive dev)), (b + 2, 0), (b + 3, ucast (drop_bit 24 addr AND 0xFF)), (b + 4, ucast (drop_bit 32 addr AND 0xFF)),
         (b + 5, ucast (drop_bit 40 addr AND 0xFF))]
      else [(b + 6, ucast (0xE0 OR ucast (push_bit 4 (drive dev)) OR drop_bit 24 (addr AND 0x0F000000) :: u64)), (b + 1, 0)]) @
     [(b + 2, ucast n), (b + 3, ucast (addr AND 0xFF)), (b + 4, ucast (drop_bit 8 addr AND 0xFF)), (b + 5, ucast (drop_bit 16 addr AND 0xFF)),
      (b + 7, (if rw = IDE_READ then 0x20 else 0x30) + (if flags dev AND 1 \<noteq> 0 then 4 else 0))]"

lemma ide_send_log:
  assumes "chan_ok (channel dev) ch s" and "5 \<le> length (ide_in s)" and "calm (ide_in s)"
  shows "ide_send rw dev addr n s = Inr (s\<lparr>ide_in := drop 5 (ide_in s), ide_log := ide_log s @ ide_request rw dev (base ch) addr n\<rparr>)"
proof -
  have w: "ide_wait (channel dev) False (outb p v s) = Inr (0, (outb p v s)\<lparr>ide_in := drop 5 (ide_in s)\<rparr>)" for p v
    using ide_wait_calm [of "channel dev" ch "outb p v s"] assms by (simp add: outb_def)
  show ?thesis
    by (cases "flags dev AND 1 = 0"; cases "rw = IDE_READ")
      (simp_all add: ide_send_def Let_def ide_write_low [of "channel dev" ch] assms(1) w ide_request_def, simp_all add: outb_def)
qed

lemma ata_last_append: "ata_last p (l @ m) = ata_last p m @ ata_last p l"
  by (simp add: ata_last_def)

lemma ata_last_Cons: "ata_last p ((q, v) # m) = ata_last p m @ (if q = p then [v] else [])"
  by (simp add: ata_last_def)

lemma ata_last_Nil: "ata_last p [] = []"
  by (simp add: ata_last_def)

lemma byte_at_simps [simp]: "byte_at (b # bs) 0 = ucast b" "byte_at (b # bs) (Suc k) = byte_at bs k"
  by (simp_all add: byte_at_def)

text \<open>The drive reads from the registers the address it was meant to get.\<close>

lemma request_lba48:
  assumes "flags dev AND 1 \<noteq> 0" and "take_bit 48 addr = addr"
  shows "ata_lba48 b (l @ ide_request rw dev b addr n) = addr" "ata_count48 b (l @ ide_request rw dev b addr 1) = 1"
  using assms join48 [OF assms(2)]
  by (simp_all add: ata_lba48_def ata_count48_def ide_request_def ata_last_append ata_last_Cons ata_last_Nil ucast_low)

lemma request_lba28:
  assumes "flags dev AND 1 = 0" and "take_bit 28 addr = addr" and "drive dev = 0 \<or> drive dev = 1"
  shows "ata_lba28 b (l @ ide_request rw dev b addr n) = addr" "byte_at (ata_last (b + 2) (l @ ide_request rw dev b addr 1)) 0 = 1"
  using assms join28 [OF assms(2)] select_bits(1) [OF assms(3)]
  by (simp_all add: ata_lba28_def ide_request_def ata_last_append ata_last_Cons ata_last_Nil ucast_low)

lemma request_select:
  assumes "drive dev = 0 \<or> drive dev = 1"
  shows "hd (ata_last (b + 6) (l @ ide_request rw dev b addr n)) AND 0x10 = push_bit 4 (drive dev)"
  using assms select_bits(2) [OF assms]
  by (cases "flags dev AND 1 = 0") (auto simp: ide_request_def ata_last_append ata_last_Cons ata_last_Nil)

text \<open>A flush after the data does not touch the address registers.\<close>

lemma flush_keeps: "p \<noteq> b + 7 \<Longrightarrow> ata_last p (l @ [(b + 7, v)]) = ata_last p l"
  by (simp add: ata_last_append ata_last_Cons ata_last_Nil)

section \<open>A block is transferred\<close>

lemma ide_pio_log:
  assumes dev: "get_device d s = Inr dev" and ch: "chan_ok (channel dev) ch s" and buf: "buf \<noteq> 0" and rw: "rw = IDE_READ \<or> rw = IDE_WRITE"
    and st: "calm (ide_in s)" "21 \<le> length (ide_in s)" "ide_in s ! 15 AND 0x20 = 0" "ide_in s ! 15 AND 1 = 0" "ide_in s ! 15 AND 8 \<noteq> 0"
    and words: "rw = IDE_READ \<longrightarrow> 256 \<le> length (ide_words s)"
  shows "\<exists>s'. ide_pio_readwrite rw d lba buf data 1 s = Inr ((512, if rw = IDE_READ then take 256 (ide_words s) else []), s') \<and>
     ide_log s' = ide_log s @ [(base ch + 12, 2)] @ ide_request rw dev (base ch) lba 1 @ (if rw = IDE_READ then [] else [(base ch + 7, IDE_COMMAND_FLUSH)]) \<and>
     ide_wout s' = ide_wout s @ (if rw = IDE_READ then [] else take 256 data) \<and> ide_devices s' = ide_devices s"
proof -
  let ?c = "channel dev" and ?l0 = "ide_log s @ [(base ch + 12, 2)]" and ?ch = "ch\<lparr>irq_wait := 0\<rparr>"
  have calm: "calm (drop k (ide_in s))" for k using st(1) by (auto simp: calm_def list_all_iff dest: in_set_dropD)
  have u: "unat ?c < length (ide_channels s)" using ch by (simp add: chan_ok_def)
  define s1 where "s1 = s\<lparr>ide_log := ?l0, ide_in := drop 5 (ide_in s), ide_channels := (ide_channels s)[unat ?c := ?ch]\<rparr>"
  have w1: "ide_wait ?c False (outb (base ch + 12) 2 s) = Inr (0, s\<lparr>ide_log := ?l0, ide_in := drop 5 (ide_in s)\<rparr>)"
    using ide_wait_calm [of ?c ch "outb (base ch + 12) 2 s"] ch st(1,2) by (simp add: outb_def)
  have c1: "chan_ok ?c ?ch s1" using u by (simp add: chan_ok_def s1_def)
  define s2 where "s2 = s1\<lparr>ide_in := drop 10 (ide_in s), ide_log := ?l0 @ ide_request rw dev (base ch) lba 1\<rparr>"
  have w2: "ide_send rw dev lba 1 s1 = Inr s2" using ide_send_log [OF c1, of rw lba 1] calm [of 5] st(2) by (simp add: s1_def s2_def)
  have c2: "chan_ok ?c ?ch s2" using c1 by (simp add: s2_def)
  define s3 where "s3 = s2\<lparr>ide_in := drop 16 (ide_in s)\<rparr>"
  have w3: "ide_wait ?c True s2 = Inr (0, s3)"
    using ide_wait_advanced [OF c2] calm [of 10] st(2-5) by (auto simp: s2_def s3_def)
  have c3: "chan_ok ?c ?ch s3" using c2 by (simp add: s3_def)
  define s4 where "s4 = (if rw = IDE_READ then s3\<lparr>ide_words := drop 256 (ide_words s)\<rparr> else outb (base ch + 7) IDE_COMMAND_FLUSH (outsw (take 256 data) s3))"
  have c4: "chan_ok ?c ?ch s4" "ide_in s4 = drop 16 (ide_in s)" using c3 by (simp_all add: s4_def s3_def outsw_def outb_def)
  have w4: "ide_wait ?c False s4 = Inr (0, s4\<lparr>ide_in := drop 21 (ide_in s)\<rparr>)"
    using ide_wait_calm [OF c4(1)] c4(2) calm [of 16] st(2) by simp
  have t: "(if rw = IDE_READ then insw 256 s3 else Inr ([], outb (base ch + 7) IDE_COMMAND_FLUSH (outsw (take 256 data) s3))) =
      Inr (if rw = IDE_READ then take 256 (ide_words s) else [], s4)"
    using words by (auto simp: s4_def s3_def s2_def s1_def insw_def)
  have r: "\<not> rw > 1" using rw by auto
  have "ide_pio_readwrite rw d lba buf data 1 s = Inr ((512, if rw = IDE_READ then take 256 (ide_words s) else []), s4\<lparr>ide_in := drop 21 (ide_in s)\<rparr>)"
    using dev ch buf r w1 w2 w3 t w4 by (cases "rw = IDE_READ") (simp_all add: ide_pio_readwrite_def Let_def s1_def)
  then show ?thesis by (auto simp: s4_def s3_def s2_def s1_def outb_def outsw_def)
qed

section \<open>The enumeration\<close>

lemma ide_out_devices [simp]: "ide_devices (ide_out ch reg v s) = ide_devices s" "ide_devices (outb p v s) = ide_devices s"
  by (simp_all add: ide_out_def outb_def split: option.split)

lemma inb_devices: "inb p s = Inr (b, t) \<Longrightarrow> ide_devices t = ide_devices s"
  by (auto simp: inb_def split: list.splits)

lemma ide_write_devices: "ide_write c reg v s = Inr t \<Longrightarrow> ide_devices t = ide_devices s"
  by (auto simp: ide_write_def rbind_eq_Inr Let_def split: if_splits)

lemma ide_read_devices: "ide_read c reg s = Inr (b, t) \<Longrightarrow> ide_devices t = ide_devices s"
  by (auto simp: ide_read_def rbind_eq_Inr Let_def split: if_splits option.splits dest!: inb_devices)

lemma ide_delay_devices: "ide_delay c s = Inr t \<Longrightarrow> ide_devices t = ide_devices s"
  by (auto simp: ide_delay_def rbind_eq_Inr dest!: ide_read_devices)

lemma insw_devices: "insw n s = Inr (ws, t) \<Longrightarrow> ide_devices t = ide_devices s"
  by (auto simp: insw_def split: if_splits)

lemma wait_identify_devices: "wait_identify p s = Inr (e, t) \<Longrightarrow> ide_devices t = ide_devices s"
proof (induction p s rule: wait_identify.induct)
  case (1 p s)
  obtain b u where u: "inb p s = Inr (b, u)" using 1(2) by (subst (asm) wait_identify.simps) (auto simp: rbind_eq_Inr)
  have "(if b AND 0x1 \<noteq> 0 then Inr (True, u) else if \<not> (b AND IDE_ATA_BUSY \<noteq> 0) \<and> b AND IDE_ATA_DRQ \<noteq> 0 then Inr (False, u) else wait_identify p u) = Inr (e, t)"
    using 1(2) u by (subst (asm) wait_identify.simps) simp
  then show ?case using 1(1) [OF u refl] inb_devices [OF u] by (auto split: if_splits)
qed

lemma ide_identify_devices: "ide_identify i j s = Inr t \<Longrightarrow> ide_devices t = ide_devices s"
  by (auto simp: ide_identify_def rbind_eq_Inr dest!: ide_write_devices ide_delay_devices)

lemma ide_atapi_devices: "ide_atapi i ch error s = Inr (a, t) \<Longrightarrow> ide_devices t = ide_devices s"
  by (auto simp: ide_atapi_def rbind_eq_Inr split: if_splits dest!: ide_write_devices ide_delay_devices inb_devices)

lemmas ide_frame = inb_devices ide_identify_devices ide_atapi_devices insw_devices wait_identify_devices

lemma identified_place: "channel (identified t i j buf d) = i" "drive (identified t i j buf d) = j"
  by (simp_all add: identified_def Let_def)

lemma ide_found_device:
  assumes "ide_found i j k ch s = Inr t"
  shows "ide_devices t = ide_devices s \<or> (\<exists>d. ide_devices t = (ide_devices s)[k := d] \<and> channel d = i \<and> drive d = j)"
proof -
  obtain e s1 where s1: "wait_identify (base ch + ucast IDE_REGISTER_STATUS) s = Inr (e, s1)" using assms by (auto simp: ide_found_def rbind_eq_Inr)
  obtain a s2 where s2: "ide_atapi i ch e s1 = Inr (a, s2)" using assms s1 by (auto simp: ide_found_def rbind_eq_Inr)
  have d: "ide_devices s2 = ide_devices s" using wait_identify_devices [OF s1] ide_atapi_devices [OF s2] by simp
  show ?thesis
  proof (cases a)
    case None
    then show ?thesis using assms s1 s2 d by (simp add: ide_found_def)
  next
    case (Some x)
    then obtain buf s3 where s3: "insw 256 s2 = Inr (buf, s3)" using assms s1 s2 by (auto simp: ide_found_def rbind_eq_Inr)
    then obtain d' where "ide_devices t = (ide_devices s)[k := identified x i j buf d']"
      using assms s1 s2 Some d insw_devices [OF s3] by (auto simp: ide_found_def rbind_eq_Inr upd_device_def)
    then show ?thesis using identified_place by blast
  qed
qed

text \<open>The entry of a drive that answered says on which channel it is and which of the two it is.\<close>

lemma ide_probe_device:
  assumes "ide_probe i j k s = Inr t"
  shows "\<exists>d. ide_devices t = (ide_devices s)[k := d] \<and> (present d \<noteq> 0 \<longrightarrow> channel d = i \<and> drive d = j)"
proof -
  obtain d0 where d0: "lget (ide_devices s) (int k) = Inr d0" using assms by (auto simp: ide_probe_def rbind_eq_Inr upd_device_def)
  let ?s = "s\<lparr>ide_devices := (ide_devices s)[k := d0\<lparr>present := 0\<rparr>]\<rparr>"
  obtain s1 where s1: "ide_identify i j ?s = Inr s1" using assms d0 by (auto simp: ide_probe_def rbind_eq_Inr upd_device_def)
  obtain ch where ch: "get_channel i s1 = Inr ch" using assms d0 s1 by (auto simp: ide_probe_def rbind_eq_Inr upd_device_def)
  obtain b s2 where s2: "inb (base ch + ucast IDE_REGISTER_STATUS) s1 = Inr (b, s2)"
    using assms d0 s1 ch by (auto simp: ide_probe_def rbind_eq_Inr upd_device_def)
  have d: "ide_devices s2 = (ide_devices s)[k := d0\<lparr>present := 0\<rparr>]" using ide_identify_devices [OF s1] inb_devices [OF s2] by simp
  have "t = s2 \<or> ide_found i j k ch s2 = Inr t"
    using assms d0 s1 ch s2 by (auto simp: ide_probe_def upd_device_def split: if_splits)
  then show ?thesis
  proof
    assume "t = s2"
    then show ?thesis using d by auto
  next
    assume "ide_found i j k ch s2 = Inr t"
    from ide_found_device [OF this] show ?thesis using d by auto
  qed
qed

section \<open>Blocks\<close>

text \<open>What the drive finds in its registers: the block, one sector, and the bit that selects it.\<close>

definition addressed :: "ide_device \<Rightarrow> u16 \<Rightarrow> u64 \<Rightarrow> (u16 \<times> byte) list \<Rightarrow> bool" where
  "addressed dev b addr log \<longleftrightarrow>
     (if flags dev AND 1 \<noteq> 0 then ata_lba48 b log = addr \<and> ata_count48 b log = 1
      else ata_lba28 b log = addr \<and> byte_at (ata_last (b + 2) log) 0 = 1) \<and>
     hd (ata_last (b + 6) log) AND 0x10 = push_bit 4 (drive dev)"

definition addressable :: "ide_device \<Rightarrow> u64 \<Rightarrow> bool" where
  "addressable dev addr \<longleftrightarrow> (drive dev = 0 \<or> drive dev = 1) \<and> (if flags dev AND 1 \<noteq> 0 then addr < 2 ^ 48 else addr < 2 ^ 28)"

lemma addressed_request: "addressable dev addr \<Longrightarrow> addressed dev b addr (l @ ide_request rw dev b addr 1)"
proof -
  assume a: "addressable dev addr"
  have t: "addr < 2 ^ 48 \<Longrightarrow> take_bit 48 addr = addr" "addr < 2 ^ 28 \<Longrightarrow> take_bit 28 addr = addr"
    by (simp_all add: word_less_nat_alt word_unat_eq_iff unsigned_take_bit_eq take_bit_nat_eq_self)
  show ?thesis using a t request_lba48(1) [of dev addr b l rw 1] request_lba48(2) [of dev addr b l rw] request_lba28(1) [of dev addr b l rw 1] request_lba28(2) [of dev addr b l rw] request_select [of dev b l rw addr 1]
    by (auto simp: addressed_def addressable_def split: if_splits)
qed

lemma addressed_flush: "addressed dev b addr log \<Longrightarrow> addressed dev b addr (log @ [(b + 7, v)])"
proof -
  have "ata_lba48 b (log @ [(b + 7, v)]) = ata_lba48 b log" "ata_lba28 b (log @ [(b + 7, v)]) = ata_lba28 b log"
    "ata_count48 b (log @ [(b + 7, v)]) = ata_count48 b log" by (simp_all add: ata_lba48_def ata_lba28_def ata_count48_def flush_keeps)
  then show "addressed dev b addr log \<Longrightarrow> addressed dev b addr (log @ [(b + 7, v)])" by (simp add: addressed_def flush_keeps)
qed

text \<open>What is refused, and what is not: a block number equal to the number of sectors passes the test.\<close>

lemma ide_refusals:
  assumes "a < 4" and "get_device (ucast a) s = Inr dev"
  shows "present dev = 0 \<Longrightarrow> ide_read_block a req s = Inr ((- 6, []), s)"
    and "present dev \<noteq> 0 \<Longrightarrow> ucast (req_block req) > totalsectors dev \<or> type dev \<noteq> 0 \<Longrightarrow> ide_read_block a req s = Inr ((- 5, []), s)"
    and "present dev \<noteq> 0 \<Longrightarrow> type dev = 0 \<Longrightarrow> ucast (req_block req) = totalsectors dev \<Longrightarrow>
      ide_read_block a req s = ide_pio_readwrite IDE_READ (ucast a) (totalsectors dev) (ucast (req_buf req)) [] 1 s"
proof -
  have "\<not> (ucast a :: byte) > 3" using assms(1) by (simp add: word_less_nat_alt unsigned_ucast_eq take_bit_eq_mod [where 'a = nat])
  then show "present dev = 0 \<Longrightarrow> ide_read_block a req s = Inr ((- 6, []), s)"
    "present dev \<noteq> 0 \<Longrightarrow> ucast (req_block req) > totalsectors dev \<or> type dev \<noteq> 0 \<Longrightarrow> ide_read_block a req s = Inr ((- 5, []), s)"
    "present dev \<noteq> 0 \<Longrightarrow> type dev = 0 \<Longrightarrow> ucast (req_block req) = totalsectors dev \<Longrightarrow>
      ide_read_block a req s = ide_pio_readwrite IDE_READ (ucast a) (totalsectors dev) (ucast (req_buf req)) [] 1 s"
    using assms(2) by (auto simp: ide_read_block_def Let_def)
qed

text \<open>With the default bases, a write to the control register goes to port 0x3F8, two behind it.\<close>

lemma control_port: "ide_port IDE_REGISTER_CTRL \<lparr>base = IDE_PRIMARY_CMD_BASE, ctrl = IDE_PRIMARY_CTRL_BASE, busm = m, chan_irq = i, irq_wait = w\<rparr> = Some 0x3F8"
  by (simp add: ide_port_def)

end
