(* ===== verification/Bootargs.thy ===== *)
theory Bootargs
  imports Physmem Libc Xprintf
begin

text \<open>
  Boot arguments (\<^verbatim>\<open>src/kudos/drivers/bootargs.c\<close>): the argument string of the boot loader is copied
  into a block of \<open>stalloc\<close> and cut up in place; a table of 32 entries has a pointer to the key and to the
  value of every argument. \<open>args_of\<close> says which arguments a string has, and the lemmas show that the table
  holds exactly those when there are at most 32, and that the parser leaves the table when there are more.
\<close>

section \<open>Model\<close>

definition CONFIG_BOOTARGS_MAX :: nat where
  "CONFIG_BOOTARGS_MAX = 32"

text \<open>The pointers in the table: null, the literal \<^verbatim>\<open>""\<close>, or an offset in \<open>value_area\<close>.\<close>

datatype arg_ptr = ArgNull | ArgEmpty | ArgAt nat

record bootargs_t =
  arg_key :: arg_ptr
  arg_value :: arg_ptr

record bootargs =
  value_area :: "byte list"
  bootargs_values :: "bootargs_t list"

text \<open>\<open>bmemcopy\<close>: \<open>i\<close> is how far both pointers have advanced.\<close>

fun bmemcopy :: "nat \<Rightarrow> nat \<Rightarrow> byte list \<Rightarrow> byte list \<Rightarrow> byte list res" where
  "bmemcopy i 0 target source = Inr target"
| "bmemcopy i (Suc len) target source =
     rbind (lget source (int i)) (\<lambda>c.
     rbind (lset target (int i) c) (\<lambda>target. bmemcopy (Suc i) len target source))"

definition put_arg :: "nat \<Rightarrow> bootargs_t \<Rightarrow> bootargs \<Rightarrow> bootargs res" where
  "put_arg i a b = rbind (lset (bootargs_values b) (int i) a) (\<lambda>vs. Inr (b\<lparr>bootargs_values := vs\<rparr>))"

definition put_nul :: "nat \<Rightarrow> bootargs \<Rightarrow> bootargs res" where
  "put_nul p b = rbind (lset (value_area b) (int p) 0) (\<lambda>area. Inr (b\<lparr>value_area := area\<rparr>))"

text \<open>The inner loop: \<open>start\<close> is the source's \<open>last\<close>, where the value starts. The new \<open>o\<close> and \<open>last\<close> are returned.\<close>

function bootargs_value :: "int \<Rightarrow> nat \<Rightarrow> nat \<Rightarrow> nat \<Rightarrow> bootargs \<Rightarrow> (nat \<times> nat \<times> bootargs) res" where
  "bootargs_value l i p start b =
     (if int p \<le> l then
        rbind (lget (value_area b) (int p)) (\<lambda>c.
        if c = 32 \<or> c = 0 then
          rbind (lget (bootargs_values b) (int i)) (\<lambda>a.
          rbind (put_arg i (a\<lparr>arg_value := ArgAt start\<rparr>) b) (\<lambda>b.
          rbind (put_nul p b) (\<lambda>b. Inr (p + 1, p + 1, b))))
        else bootargs_value l i (p + 1) start b)
      else Inr (p, start, b))"
  by pat_completeness auto
termination
  by (relation "measure (\<lambda>(l, i, p, start, b). nat (l + 1 - int p))") auto

declare bootargs_value.simps [simp del]

lemma bootargs_value_forward: "bootargs_value l i p start b = Inr (p', start', b') \<Longrightarrow> p \<le> p'"
proof (induction l i p start b rule: bootargs_value.induct)
  case (1 l i p start b)
  show ?case
    using "1.prems" "1.IH"
    by (subst (asm) bootargs_value.simps) (fastforce simp: rbind_eq_Inr split: if_splits)
qed

text \<open>The outer loop. \<open>p\<close> is the source's \<open>o\<close>.\<close>

function bootargs_parse :: "int \<Rightarrow> nat \<Rightarrow> nat \<Rightarrow> nat \<Rightarrow> bootargs \<Rightarrow> bootargs res" where
  "bootargs_parse l i p start b =
     (if int p \<le> l then
        rbind (lget (value_area b) (int p)) (\<lambda>c.
        if c = 32 \<or> c = 0 \<or> c = 61 then
          rbind (put_arg i \<lparr>arg_key = ArgAt start, arg_value = ArgEmpty\<rparr> b) (\<lambda>b.
          rbind (put_nul p b) (\<lambda>b.
          if c = 61 then
            rbind (bootargs_value l i (p + 1) (p + 1) b) (\<lambda>(p, start, b). bootargs_parse l (i + 1) p start b)
          else bootargs_parse l (i + 1) (p + 1) (p + 1) b))
        else bootargs_parse l i (p + 1) start b)
      else Inr b)"
  by pat_completeness auto
termination
  by (relation "measure (\<lambda>(l, i, p, start, b). nat (l + 1 - int p))") (auto dest!: bootargs_value_forward)

declare bootargs_parse.simps [simp del]

text \<open>
  \<open>bootargs\<close> is the buffer the loader's pointer points to (None for NULL), \<open>junk\<close> what the block from
  \<open>stalloc\<close> holds. The values in the table are not reset, only the keys.
\<close>

definition bootargs_init :: "byte list option \<Rightarrow> byte list \<Rightarrow> bootargs \<Rightarrow> physmem \<Rightarrow> (bootargs \<times> physmem) res" where
  "bootargs_init bootargs junk b st =
     (let b = b\<lparr>bootargs_values := map (arg_key_update (\<lambda>_. ArgNull)) (bootargs_values b)\<rparr> in
      case bootargs of
        None \<Rightarrow> Inr (b, st)
      | Some bootarg_area \<Rightarrow>
          rbind (strlen bootarg_area) (\<lambda>n.
          let l = c_int n in
          rbind (stalloc (c_int (l + 1)) st) (\<lambda>(_, st).
          rbind (bmemcopy 0 (nat (c_int (l + 1))) junk bootarg_area) (\<lambda>area.
          rbind (bootargs_parse l 0 0 0 (b\<lparr>value_area := area\<rparr>)) (\<lambda>b. Inr (b, st))))))"

text \<open>The buffer from a pointer on.\<close>

fun arg_buf :: "bootargs \<Rightarrow> arg_ptr \<Rightarrow> byte list" where
  "arg_buf b ArgNull = []"
| "arg_buf b ArgEmpty = [0]"
| "arg_buf b (ArgAt p) = drop p (value_area b)"

fun bootargs_same :: "byte list \<Rightarrow> byte list \<Rightarrow> bool res" where
  "bootargs_same (a # as) (k # ks) =
     (if a = k then if k = 0 then Inr True else bootargs_same as ks else Inr False)"
| "bootargs_same _ _ = Inl OutOfBounds"

fun bootargs_find :: "bootargs \<Rightarrow> byte list \<Rightarrow> bootargs_t list \<Rightarrow> arg_ptr res" where
  "bootargs_find b key [] = Inr ArgNull"
| "bootargs_find b key (a # as) =
     (if arg_key a = ArgNull then Inr ArgNull
      else rbind (bootargs_same (arg_buf b (arg_key a)) key) (\<lambda>same.
           if same then Inr (arg_value a) else bootargs_find b key as))"

definition bootargs_get :: "bootargs \<Rightarrow> byte list \<Rightarrow> arg_ptr res" where
  "bootargs_get b key = bootargs_find b key (bootargs_values b)"

text \<open>\<open>DEBUG\<close> (\<^verbatim>\<open>src/kudos/lib/debug.c\<close>) prints when its level is the key of a boot argument, whatever the value.\<close>

definition DEBUG :: "bootargs \<Rightarrow> byte list \<Rightarrow> byte list \<Rightarrow> va list \<Rightarrow> sink \<Rightarrow> sink res" where
  "DEBUG b debuglevelname format args st =
     rbind (bootargs_get b debuglevelname) (\<lambda>q.
     if q \<noteq> ArgNull then rbind (kvprintf format args st) (\<lambda>(_, st). Inr st) else Inr st)"

text \<open>
  How both builds seed the random number generator (\<^verbatim>\<open>src/kudos/init/x86_64/main.c\<close>): with the number in the argument
  \<^verbatim>\<open>randomseed\<close>, or with 0.
\<close>

definition randomseed :: "byte list" where
  "randomseed = [114, 97, 110, 100, 111, 109, 115, 101, 101, 100, 0]"

definition boot_seed :: "bootargs \<Rightarrow> int res" where
  "boot_seed b =
     rbind (bootargs_get b randomseed) (\<lambda>q. if q = ArgNull then Inr 0 else atoi (arg_buf b q))"

section \<open>Specification\<close>

text \<open>
  Arguments are separated by single spaces; the key of an argument is what comes before its first
  equals sign, the value what comes after it, empty when there is none.
\<close>

definition arg_of :: "byte list \<Rightarrow> byte list \<times> byte list" where
  "arg_of w = (takeWhile (\<lambda>c. c \<noteq> 61) w, drop 1 (dropWhile (\<lambda>c. c \<noteq> 61) w))"

function args_of :: "byte list \<Rightarrow> (byte list \<times> byte list) list" where
  "args_of s =
     arg_of (takeWhile (\<lambda>c. c \<noteq> 32) s) #
     (case dropWhile (\<lambda>c. c \<noteq> 32) s of [] \<Rightarrow> [] | _ # s' \<Rightarrow> args_of s')"
  by pat_completeness auto
termination
proof (relation "measure length")
  fix s :: "byte list" and c s'
  assume "dropWhile (\<lambda>c. c \<noteq> 32) s = c # s'"
  then show "(s', s) \<in> measure length"
    using length_dropWhile_le [of "\<lambda>c. c \<noteq> 32" s] by simp
qed simp

declare args_of.simps [simp del]

text \<open>What a client reads through a pointer: None for NULL.\<close>

definition arg_text :: "bootargs \<Rightarrow> arg_ptr \<Rightarrow> byte list option" where
  "arg_text b q = (if q = ArgNull then None else Some (cstr (arg_buf b q)))"

text \<open>The argument string that has given arguments.\<close>

fun args_string :: "(byte list \<times> byte list) list \<Rightarrow> byte list" where
  "args_string [] = []"
| "args_string [(k, v)] = k @ 61 # v"
| "args_string ((k, v) # kvs) = k @ 61 # v @ 32 # args_string kvs"

section \<open>The parser\<close>

lemma bmemcopy_eq:
  "i + n \<le> length src \<Longrightarrow> i + n \<le> length tgt \<Longrightarrow>
   bmemcopy i n tgt src = Inr (take i tgt @ take n (drop i src) @ drop (i + n) tgt)"
proof (induction n arbitrary: i tgt)
  case (Suc n)
  have "take (Suc i) (tgt[i := src ! i]) = take i tgt @ [src ! i]"
    using Suc.prems by (simp add: take_Suc_conv_app_nth)
  moreover have "take (Suc n) (drop i src) = src ! i # take n (drop (Suc i) src)"
    using Suc.prems by (simp add: Cons_nth_drop_Suc [symmetric])
  ultimately show ?case
    using Suc.prems Suc.IH [of "Suc i" "tgt[i := src ! i]"] by simp
qed simp

text \<open>Characters inside a key or a value are skipped.\<close>

lemma bootargs_parse_skip:
  "value_area b = pre @ u @ rest \<Longrightarrow> set u \<inter> {32, 0, 61} = {} \<Longrightarrow> int (length pre + length u) \<le> l \<Longrightarrow>
   bootargs_parse l i (length pre) start b = bootargs_parse l i (length pre + length u) start b"
proof (induction u arbitrary: pre)
  case (Cons c u)
  have "bootargs_parse l i (length pre) start b = bootargs_parse l i (length (pre @ [c])) start b"
    using Cons.prems by (subst bootargs_parse.simps) (auto simp: nth_append)
  then show ?case using Cons.IH [of "pre @ [c]"] Cons.prems by simp
qed simp

lemma bootargs_value_skip:
  "value_area b = pre @ u @ rest \<Longrightarrow> set u \<inter> {32, 0} = {} \<Longrightarrow> int (length pre + length u) \<le> l \<Longrightarrow>
   bootargs_value l i (length pre) start b = bootargs_value l i (length pre + length u) start b"
proof (induction u arbitrary: pre)
  case (Cons c u)
  have "bootargs_value l i (length pre) start b = bootargs_value l i (length (pre @ [c])) start b"
    using Cons.prems by (subst bootargs_value.simps) (auto simp: nth_append)
  then show ?case using Cons.IH [of "pre @ [c]"] Cons.prems by simp
qed simp

lemma bootargs_value_end:
  "int p \<le> l \<Longrightarrow> p < length area \<Longrightarrow> area ! p = 32 \<or> area ! p = 0 \<Longrightarrow> i < length vs \<Longrightarrow>
   bootargs_value l i p start \<lparr>value_area = area, bootargs_values = vs\<rparr> =
     Inr (p + 1, p + 1, \<lparr>value_area = area[p := 0], bootargs_values = vs[i := (vs ! i)\<lparr>arg_value := ArgAt start\<rparr>]\<rparr>)"
  by (subst bootargs_value.simps) (auto simp: put_arg_def put_nul_def)

lemma bootargs_parse_sep:
  "int p \<le> l \<Longrightarrow> p < length area \<Longrightarrow> area ! p = 32 \<or> area ! p = 0 \<or> area ! p = 61 \<Longrightarrow>
   bootargs_parse l i p start \<lparr>value_area = area, bootargs_values = vs\<rparr> =
     (let b = \<lparr>value_area = area[p := 0], bootargs_values = vs[i := \<lparr>arg_key = ArgAt start, arg_value = ArgEmpty\<rparr>]\<rparr> in
      if length vs \<le> i then Inl OutOfBounds
      else if area ! p = 61 then
        rbind (bootargs_value l i (p + 1) (p + 1) b) (\<lambda>(p, start, b). bootargs_parse l (i + 1) p start b)
      else bootargs_parse l (i + 1) (p + 1) (p + 1) b)"
  by (subst bootargs_parse.simps) (auto simp: put_arg_def put_nul_def lset_def)

text \<open>One argument without a value, one with a value, and no room in the table.\<close>

lemma bootargs_parse_key:
  assumes "set k \<inter> {32, 0, 61} = {}" "c = 32 \<or> c = 0" "int (length pre + length k) \<le> l" "i < length vs"
  shows "bootargs_parse l i (length pre) (length pre) \<lparr>value_area = pre @ k @ c # rest, bootargs_values = vs\<rparr> =
    bootargs_parse l (i + 1) (length pre + length k + 1) (length pre + length k + 1)
      \<lparr>value_area = (pre @ k @ [0]) @ rest,
       bootargs_values = vs[i := \<lparr>arg_key = ArgAt (length pre), arg_value = ArgEmpty\<rparr>]\<rparr>"
proof -
  have at: "(pre @ k @ c # rest) ! (length pre + length k) = c"
    by (simp add: nth_append)
  have put: "(pre @ k @ c # rest)[length pre + length k := 0] = (pre @ k @ [0]) @ rest"
    by (simp add: list_update_append)
  show ?thesis
    using assms(2-4)
    by (subst bootargs_parse_skip [OF _ assms(1, 3)], simp)
      (subst bootargs_parse_sep, simp_all only: at put, auto simp: Let_def)
qed

lemma bootargs_parse_pair:
  assumes "set k \<inter> {32, 0, 61} = {}" "set v \<inter> {32, 0} = {}" "c = 32 \<or> c = 0"
    and "int (length pre + length k + 1 + length v) \<le> l" "i < length vs"
  shows "bootargs_parse l i (length pre) (length pre) \<lparr>value_area = pre @ k @ 61 # v @ c # rest, bootargs_values = vs\<rparr> =
    bootargs_parse l (i + 1) (length pre + length k + length v + 2) (length pre + length k + length v + 2)
      \<lparr>value_area = (pre @ k @ 0 # v @ [0]) @ rest,
       bootargs_values = vs[i := \<lparr>arg_key = ArgAt (length pre), arg_value = ArgAt (length pre + length k + 1)\<rparr>]\<rparr>"
proof -
  let ?a = "\<lparr>arg_key = ArgAt (length pre), arg_value = ArgEmpty\<rparr>"
  let ?b = "\<lparr>value_area = (pre @ k @ [0]) @ v @ c # rest, bootargs_values = vs[i := ?a]\<rparr>"
  let ?o = "length (pre @ k @ [0])"
  have at: "(pre @ k @ 61 # v @ c # rest) ! (length pre + length k) = 61"
    by (simp add: nth_append)
  have put: "(pre @ k @ 61 # v @ c # rest)[length pre + length k := 0] = (pre @ k @ [0]) @ v @ c # rest"
    by (simp add: list_update_append)
  have at_v: "((pre @ k @ [0]) @ v @ c # rest) ! (?o + length v) = c"
    by (simp add: nth_append)
  have put_v: "((pre @ k @ [0]) @ v @ c # rest)[?o + length v := 0] = (pre @ k @ 0 # v @ [0]) @ rest"
    by (simp add: list_update_append)
  have "bootargs_value l i ?o ?o ?b = bootargs_value l i (?o + length v) ?o ?b"
    using assms(4) by (intro bootargs_value_skip [OF _ assms(2)]) simp_all
  also have "\<dots> = Inr (?o + length v + 1, ?o + length v + 1,
      \<lparr>value_area = (pre @ k @ 0 # v @ [0]) @ rest, bootargs_values = vs[i := ?a\<lparr>arg_value := ArgAt ?o\<rparr>]\<rparr>)"
    using assms(3-5) at_v by (subst bootargs_value_end) (simp_all only: put_v, simp_all)
  finally have v: "bootargs_value l i ?o ?o ?b = \<dots>" .
  have "bootargs_parse l i (length pre) (length pre) \<lparr>value_area = pre @ k @ 61 # v @ c # rest, bootargs_values = vs\<rparr> =
      rbind (bootargs_value l i ?o ?o ?b) (\<lambda>(p, start, b). bootargs_parse l (i + 1) p start b)"
    using assms(4, 5)
    by (subst bootargs_parse_skip [OF _ assms(1)], simp, simp)
      (subst bootargs_parse_sep, simp_all only: at put, auto simp: Let_def)
  then show ?thesis unfolding v by (simp add: numeral_2_eq_2)
qed

lemma bootargs_parse_full:
  assumes "set k \<inter> {32, 0, 61} = {}" "c = 32 \<or> c = 0 \<or> c = 61" "int (length pre + length k) \<le> l" "length vs \<le> i"
  shows "bootargs_parse l i (length pre) (length pre) \<lparr>value_area = pre @ k @ c # rest, bootargs_values = vs\<rparr> = Inl OutOfBounds"
proof -
  have at: "(pre @ k @ c # rest) ! (length pre + length k) = c"
    by (simp add: nth_append)
  show ?thesis
    using assms(2-4)
    by (subst bootargs_parse_skip [OF _ assms(1, 3)], simp)
      (subst bootargs_parse_sep, simp_all only: at, auto simp: Let_def)
qed

section \<open>The table after parsing\<close>

text \<open>A string at an offset of the area, an entry that holds an argument, a table that holds a list of arguments.\<close>

definition str_at :: "byte list \<Rightarrow> nat \<Rightarrow> byte list \<Rightarrow> bool" where
  "str_at area p s \<longleftrightarrow> terminated (drop p area) \<and> cstr (drop p area) = s"

definition arg_held :: "byte list \<Rightarrow> bootargs_t \<Rightarrow> byte list \<times> byte list \<Rightarrow> bool" where
  "arg_held area a kv \<longleftrightarrow>
     (\<exists>p. arg_key a = ArgAt p \<and> str_at area p (fst kv)) \<and>
     (arg_value a = ArgEmpty \<and> snd kv = [] \<or> (\<exists>q. arg_value a = ArgAt q \<and> str_at area q (snd kv)))"

definition args_table :: "bootargs \<Rightarrow> (byte list \<times> byte list) list \<Rightarrow> bool" where
  "args_table b kvs \<longleftrightarrow>
     (\<exists>as free. bootargs_values b = as @ free \<and> list_all2 (arg_held (value_area b)) as kvs \<and>
        (\<forall>a\<in>set free. arg_key a = ArgNull))"

lemma str_at_append: "str_at area p s \<Longrightarrow> str_at (area @ rest) p s"
  by (cases "p \<le> length area") (auto simp: str_at_def cstr_append)

lemma str_at_here: "0 \<notin> set s \<Longrightarrow> str_at (pre @ s @ 0 # rest) (length pre) s"
  by (simp add: str_at_def cstr_append_zero)

lemma arg_held_append: "arg_held area a kv \<Longrightarrow> arg_held (area @ rest) a kv"
  by (auto simp: arg_held_def intro: str_at_append)

lemma cut_at:
  assumes "d \<notin> set w"
  shows "takeWhile (\<lambda>c. c \<noteq> d) w = w" "dropWhile (\<lambda>c. c \<noteq> d) w = []"
    "takeWhile (\<lambda>c. c \<noteq> d) (w @ d # s) = w" "dropWhile (\<lambda>c. c \<noteq> d) (w @ d # s) = d # s"
  using assms by (induction w) auto

lemma arg_of_key:
  assumes "61 \<notin> set w"
  shows "arg_of w = (w, [])"
  unfolding arg_of_def cut_at [OF assms] by simp

lemma arg_of_pair: "61 \<notin> set k \<Longrightarrow> arg_of (k @ 61 # v) = (k, v)"
  by (simp add: arg_of_def cut_at)

lemma bootargs_parse_word:
  assumes "set w \<inter> {32, 0} = {}" "c = 32 \<or> c = 0" "int (length pre + length w) \<le> l"
  obtains area a where "length area = length pre + length w + 1" "\<exists>t. area = pre @ t" "arg_held area a (arg_of w)"
    "bootargs_parse l (length as) (length pre) (length pre) \<lparr>value_area = pre @ w @ c # rest, bootargs_values = as @ f # free\<rparr> =
     bootargs_parse l (length (as @ [a])) (length area) (length area) \<lparr>value_area = area @ rest, bootargs_values = (as @ [a]) @ free\<rparr>"
proof (cases "61 \<in> set w")
  case True
  then obtain k v where w: "w = k @ 61 # v" and k: "61 \<notin> set k"
    by (meson split_list_first)
  let ?area = "pre @ k @ 0 # v @ [0]"
  let ?a = "\<lparr>arg_key = ArgAt (length pre), arg_value = ArgAt (length pre + length k + 1)\<rparr>"
  have "str_at ?area (length pre + length k + 1) v"
    using assms(1) w str_at_here [of v "pre @ k @ [0]" "[]"] by simp
  moreover have "str_at ?area (length pre) k"
    using assms(1) w str_at_here [of k pre] by simp
  ultimately show thesis
    using assms w k bootargs_parse_pair [of k v c pre l "length as" "as @ f # free" rest]
    by (intro that [of ?area ?a]) (auto simp: arg_held_def arg_of_pair list_update_append add.assoc)
next
  case False
  let ?area = "pre @ w @ [0]"
  have "str_at ?area (length pre) w"
    using assms(1) str_at_here [of w pre] by simp
  then show thesis
    using assms False bootargs_parse_key [of w c pre l "length as" "as @ f # free" rest]
    by (intro that [of ?area "\<lparr>arg_key = ArgAt (length pre), arg_value = ArgEmpty\<rparr>"])
      (auto simp: arg_held_def arg_of_key list_update_append)
qed

lemma bootargs_parse_word_full:
  assumes "set w \<inter> {32, 0} = {}" "c = 32 \<or> c = 0" "int (length pre + length w) \<le> l" "length vs \<le> i"
  shows "bootargs_parse l i (length pre) (length pre) \<lparr>value_area = pre @ w @ c # rest, bootargs_values = vs\<rparr> = Inl OutOfBounds"
proof (cases "61 \<in> set w")
  case True
  then obtain k v where "w = k @ 61 # v" "61 \<notin> set k"
    by (meson split_list_first)
  then show ?thesis
    using assms bootargs_parse_full [of k 61 pre l vs i "v @ c # rest"] by auto
next
  case False
  then show ?thesis
    using assms bootargs_parse_full [of w c pre l vs i rest] by auto
qed

lemma bootargs_parse_done: "l < int p \<Longrightarrow> bootargs_parse l i p start b = Inr b"
  by (simp add: bootargs_parse.simps)

lemma list_all2_arg_held_snoc:
  "list_all2 (arg_held pre) as kvs \<Longrightarrow> \<exists>t. area = pre @ t \<Longrightarrow> arg_held area a kv \<Longrightarrow>
   list_all2 (arg_held area) (as @ [a]) (kvs @ [kv])"
  by (auto intro!: list_all2_appendI elim!: list_all2_mono intro: arg_held_append)

text \<open>The arguments of a string are parsed one word after the other; the table holds them if they fit.\<close>

definition parsed :: "bootargs res \<Rightarrow> nat \<Rightarrow> (byte list \<times> byte list) list \<Rightarrow> (byte list \<times> byte list) list \<Rightarrow> bool" where
  "parsed r n kvs new \<longleftrightarrow>
     (if length new \<le> n then \<exists>b. r = Inr b \<and> args_table b (kvs @ new) else r = Inl OutOfBounds)"

lemma parsed_Cons: "parsed r n (kvs @ [kv]) new \<Longrightarrow> parsed r (Suc n) kvs (kv # new)"
  by (simp add: parsed_def split: if_split_asm)

lemma bootargs_parse_args:
  "0 \<notin> set s \<Longrightarrow> list_all2 (arg_held pre) as kvs \<Longrightarrow> \<forall>a\<in>set free. arg_key a = ArgNull \<Longrightarrow>
   l = int (length pre + length s) \<Longrightarrow>
   parsed (bootargs_parse l (length as) (length pre) (length pre)
     \<lparr>value_area = pre @ s @ [0], bootargs_values = as @ free\<rparr>) (length free) kvs (args_of s)"
proof (induction s arbitrary: pre as kvs free rule: args_of.induct)
  case (1 s)
  let ?w = "takeWhile (\<lambda>c. c \<noteq> 32) s"
  have w: "set ?w \<inter> {32, 0} = {}"
    using "1.prems"(1) by (auto dest: set_takeWhileD)
  define c rest where "c = (case dropWhile (\<lambda>c. c \<noteq> 32) s of [] \<Rightarrow> 0 | c # _ \<Rightarrow> c)"
    and "rest = (case dropWhile (\<lambda>c. c \<noteq> 32) s of [] \<Rightarrow> [] | _ # s' \<Rightarrow> s' @ [0])"
  have split: "s @ [0] = ?w @ c # rest"
    unfolding c_def rest_def by (induction s) auto
  have c: "c = 32 \<or> c = 0"
    unfolding c_def by (induction s) auto
  have len: "int (length pre + length ?w) \<le> l"
    using "1.prems"(4) length_takeWhile_le [of "\<lambda>c. c \<noteq> 32" s] by simp
  show ?case
  proof (cases free)
    case Nil
    then show ?thesis
      using bootargs_parse_word_full [OF w c len, of as "length as" rest] by (simp add: split parsed_def args_of.simps [of s])
  next
    case (Cons f free')
    obtain area a where area: "length area = length pre + length ?w + 1" "\<exists>t. area = pre @ t" "arg_held area a (arg_of ?w)"
      and step: "bootargs_parse l (length as) (length pre) (length pre) \<lparr>value_area = pre @ s @ [0], bootargs_values = as @ free\<rparr> =
        bootargs_parse l (length (as @ [a])) (length area) (length area) \<lparr>value_area = area @ rest, bootargs_values = (as @ [a]) @ free'\<rparr>"
      unfolding split Cons by (rule bootargs_parse_word [OF w c len])
    have held: "list_all2 (arg_held area) (as @ [a]) (kvs @ [arg_of ?w])"
      using "1.prems"(2) area(2, 3) by (rule list_all2_arg_held_snoc)
    show ?thesis
    proof (cases "dropWhile (\<lambda>c. c \<noteq> 32) s")
      case Nil
      have end_s: "rest = []" "args_of s = [arg_of ?w]"
        unfolding rest_def args_of.simps [of s] Nil by simp_all
      have "?w = s"
        using Nil takeWhile_dropWhile_id [of "\<lambda>c. c \<noteq> 32" s] by (metis append_Nil2)
      then have "length area = length pre + length s + 1"
        using area(1) by argo
      then have "l < int (length area)"
        using "1.prems"(4) by simp
      moreover have "args_table \<lparr>value_area = area @ rest, bootargs_values = (as @ [a]) @ free'\<rparr> (kvs @ args_of s)"
        using held "1.prems"(3) Cons unfolding args_table_def end_s
        by (intro exI [of _ "as @ [a]"] exI [of _ free']) simp
      ultimately show ?thesis
        unfolding step parsed_def using Cons by (simp add: bootargs_parse_done end_s(2))
    next
      case (Cons d s')
      have args: "rest = s' @ [0]" "args_of s = arg_of ?w # args_of s'"
        unfolding rest_def args_of.simps [of s] Cons by simp_all
      have s: "?w @ d # s' = s"
        using takeWhile_dropWhile_id [of "\<lambda>c. c \<noteq> 32" s] unfolding Cons .
      have "0 \<notin> set s'"
        using "1.prems"(1) arg_cong [OF s, of set] by auto
      moreover have "l = int (length area + length s')"
        using "1.prems"(4) area(1) arg_cong [OF s, of length] by simp
      ultimately show ?thesis
        using parsed_Cons [OF "1.IH" [OF Cons _ held, of free']] "1.prems"(3) \<open>free = f # free'\<close>
        unfolding step args by simp
    qed
  qed
qed

section \<open>Looking up\<close>

lemma bootargs_same_eq:
  "terminated a \<Longrightarrow> terminated k \<Longrightarrow> bootargs_same a k = Inr (cstr a = cstr k)"
  by (induction a k rule: bootargs_same.induct) auto

lemma bootargs_find_eq:
  assumes "list_all2 (arg_held (value_area b)) as kvs" "\<forall>a\<in>set free. arg_key a = ArgNull" "terminated key"
  shows "\<exists>q. bootargs_find b key (as @ free) = Inr q \<and> arg_text b q = map_of kvs (cstr key)"
  using assms(1)
proof (induction rule: list_all2_induct)
  case Nil
  then show ?case using assms(2) by (cases free) (auto simp: arg_text_def)
next
  case (Cons a as kv kvs)
  from Cons.hyps(1) obtain p where p: "arg_key a = ArgAt p"
    and key: "terminated (drop p (value_area b))" "cstr (drop p (value_area b)) = fst kv"
    and val: "arg_text b (arg_value a) = Some (snd kv)"
    by (auto simp: arg_held_def str_at_def arg_text_def)
  show ?case
    using Cons.IH p val bootargs_same_eq [OF key(1) assms(3)] key(2) by (cases kv) auto
qed

lemma bootargs_get_eq:
  "args_table b kvs \<Longrightarrow> terminated key \<Longrightarrow> \<exists>q. bootargs_get b key = Inr q \<and> arg_text b q = map_of kvs (cstr key)"
  unfolding args_table_def bootargs_get_def by (auto intro: bootargs_find_eq)

lemma DEBUG_eq:
  assumes "args_table b kvs" "terminated level"
  shows "DEBUG b level fmt ap st =
    (if map_of kvs (cstr level) = None then Inr st else rbind (kvprintf fmt ap st) (\<lambda>(_, st). Inr st))"
proof -
  obtain q where "bootargs_get b level = Inr q" "arg_text b q = map_of kvs (cstr level)"
    using bootargs_get_eq [OF assms] by blast
  then show ?thesis by (auto simp: DEBUG_def arg_text_def split: if_splits)
qed

text \<open>The whole of \<open>bootargs_init\<close>.\<close>

lemma bootargs_init_eq:
  assumes "0 \<notin> set s" "length s + 1 < 2 ^ 31" "length junk = length s + 1" "stalloc (int (length s) + 1) st = Inr (adr, st')"
  shows "if length (args_of s) \<le> length (bootargs_values b)
    then \<exists>b'. bootargs_init (Some (s @ 0 # rest)) junk b st = Inr (b', st') \<and> args_table b' (args_of s)
    else bootargs_init (Some (s @ 0 # rest)) junk b st = Inl OutOfBounds"
proof -
  let ?free = "map (arg_key_update (\<lambda>_. ArgNull)) (bootargs_values b)"
  have len: "strlen (s @ 0 # rest) = Inr (int (length s))"
    using assms(1) by (simp add: strlen_eq cstr_append_zero)
  have id: "c_int (int (length s)) = int (length s)" "c_int (int (length s) + 1) = int (length s) + 1"
    using assms(2) by (simp_all add: c_int_id)
  have copy: "bmemcopy 0 (nat (int (length s) + 1)) junk (s @ 0 # rest) = Inr (s @ [0])"
    using assms(3) by (subst bmemcopy_eq) (simp_all add: nat_add_distrib)
  have "parsed (bootargs_parse (int (length s)) 0 0 0 \<lparr>value_area = s @ [0], bootargs_values = ?free\<rparr>)
      (length ?free) [] (args_of s)"
    using bootargs_parse_args [of s "[]" "[]" "[]" ?free] assms(1) by simp
  moreover have rec: "b\<lparr>bootargs_values := ?free, value_area := s @ [0]\<rparr> = \<lparr>value_area = s @ [0], bootargs_values = ?free\<rparr>"
    by (cases b) simp
  ultimately show ?thesis
    using assms(4) by (auto simp: bootargs_init_def len id copy rec parsed_def)
qed

text \<open>Arguments written as a string are the arguments the string has.\<close>

lemma args_of_word:
  assumes "32 \<notin> set w"
  shows "args_of w = [arg_of w]"
  unfolding args_of.simps [of w] cut_at [OF assms] by simp

lemma args_of_words:
  assumes "32 \<notin> set w"
  shows "args_of (w @ 32 # s) = arg_of w # args_of s"
  unfolding args_of.simps [of "w @ 32 # s"] cut_at [OF assms] by simp

lemma args_of_string:
  assumes "kvs \<noteq> []" "\<forall>(k, v)\<in>set kvs. 61 \<notin> set k \<and> 32 \<notin> set k \<and> 32 \<notin> set v"
  shows "args_of (args_string kvs) = kvs"
  using assms
proof (induction kvs rule: args_string.induct)
  case (2 k v)
  then show ?case by (simp add: args_of_word arg_of_pair)
next
  case (3 k v kv kvs)
  then show ?case using args_of_words [of "k @ 61 # v"] by (simp add: arg_of_pair)
qed simp

end
