(* ===== verification/Driver_Properties.thy ===== *)
theory Driver_Properties
  imports Disk_Run Tty_Driver Ide_Driver Bootargs
begin

text \<open>
  What the device drivers promise, over whole runs: the disk serves its requests in the order of submission and a synchronous call returns
  after its own transfer; terminals are first-in first-out streams; an IDE transfer addresses its block; boot arguments are found by their keys.
\<close>

section \<open>An example run\<close>

text \<open>Two synchronous calls, a read of sector 3 and a write of sector 9, on an idle device.\<close>

definition ex_request :: "u32 \<Rightarrow> gbd_request" where
  "ex_request b = \<lparr>req_block = b, req_buf = 0x4000, req_sem = 0, req_operation = 0, req_internal = 0, req_next = 0, req_return = 0\<rparr>"

definition ex_disk0 :: disk_sys where
  "ex_disk0 = disk_boot \<lparr>disk_slock = 0, request_queue = 0, request_served = 0, requests = Map.empty, disk_sems = Map.empty, disk_io = [], disk_intr = True\<rparr>"

definition ex_client :: "int \<Rightarrow> gbd_request \<Rightarrow> disk_sys \<Rightarrow> disk_sys" where
  "ex_client r e c = c\<lparr>disk := (disk c)\<lparr>requests := (requests (disk c))(r \<mapsto> e)\<rparr>\<rparr>"

definition ex_submit :: "bool \<Rightarrow> int \<Rightarrow> int \<Rightarrow> gbd_request \<Rightarrow> disk_sys \<Rightarrow> disk_sys" where
  "ex_submit wr r m e c = c\<lparr>disk := snd (projr (disk_transfer wr 5 m (\<lambda>_. 0) r (disk c))), waiting := insert r (waiting c),
     submissions := submissions c @ [(r, transfer_of wr e)]\<rparr>"

definition ex_disk2 :: disk_sys where
  "ex_disk2 = ex_client 200 (ex_request 9) (ex_client 100 (ex_request 3) ex_disk0)"

definition ex_disk4 :: disk_sys where
  "ex_disk4 = ex_submit True 200 8 (ex_request 9) (ex_submit False 100 7 (ex_request 3) ex_disk2)"

lemmas ex_disk_defs = ex_disk0_def ex_disk2_def ex_disk4_def ex_client_def ex_submit_def ex_request_def disk_boot_def disk_init_def
  disk_transfer_def disk_write_block_def disk_read_block_def disk_submit_request_def upd_request_def disk_lock_def disk_unlock_def
  disksched_schedule_def disk_next_request_def io_out_def transfer_of_def DISK_STATUS_RBUSY_def DISK_STATUS_WBUSY_def
  DISK_STATUS_ERRORS_def DISK_STATUS_RIRQ_def DISK_STATUS_WIRQ_def disk_idle_def may_submit_def active_def numeral_eq_Suc

lemma ex_submit_step:
  assumes "disk_run c" and "may_submit c r e" and "req_sem e = 0" and "m \<noteq> 0" and "disk_sems (disk c) m = None" and "length (active c) \<le> 5"
    and "disk_transfer wr 5 m (\<lambda>_. 0) r (disk c) = Inr (None, s)"
  shows "disk_run (ex_submit wr r m e c)"
proof -
  have "disk_idle (\<lambda>_. 0)" by (simp add: disk_idle_def DISK_STATUS_RBUSY_def DISK_STATUS_WBUSY_def DISK_STATUS_ERRORS_def)
  then have "disk_step c (c\<lparr>disk := s, waiting := (if (None :: int option) = None then insert r (waiting c) else waiting c),
     submissions := submissions c @ [(r, transfer_of wr e)]\<rparr>)" using assms by (intro disk_step.submit) simp_all
  then have "disk_step c (ex_submit wr r m e c)" using assms(7) by (simp add: ex_submit_def)
  then show ?thesis by (rule disk_run.step [OF assms(1)])
qed

lemma ex_client_step: "disk_run c \<Longrightarrow> r \<notin> set (active c) \<Longrightarrow> r \<notin> waiting c \<Longrightarrow> req_sem e = 0 \<Longrightarrow> disk_run (ex_client r e c)"
  unfolding ex_client_def by (rule disk_run.step, assumption) (simp add: disk_step.client_request)

lemma ex_disk4_run: "disk_run ex_disk4"
proof -
  have "disk_run ex_disk0" unfolding ex_disk0_def by (rule disk_run.boot)
  then have r2: "disk_run ex_disk2" unfolding ex_disk2_def
    by (intro ex_client_step) (simp_all add: ex_disk0_def ex_client_def disk_boot_def active_def ex_request_def)
  let ?c = "ex_submit False 100 7 (ex_request 3) ex_disk2"
  have "\<exists>s. disk_transfer False 5 7 (\<lambda>_. 0) 100 (disk ex_disk2) = Inr (None, s)"
    by (simp add: ex_disk_defs Let_def)
  then have r3: "disk_run ?c" using r2 by (auto intro!: ex_submit_step simp: ex_disk2_def ex_disk0_def ex_client_def disk_boot_def disk_init_def active_def may_submit_def ex_request_def)
  have "\<exists>s. disk_transfer True 5 8 (\<lambda>_. 0) 200 (disk ?c) = Inr (None, s)"
    by (simp add: ex_disk_defs Let_def)
  moreover have "may_submit ?c 200 (ex_request 9)" "disk_sems (disk ?c) 8 = None" "length (active ?c) \<le> 5"
    by (simp_all add: ex_disk_defs Let_def)
  ultimately show ?thesis unfolding ex_disk4_def using r3 by (auto intro!: ex_submit_step simp: ex_request_def)
qed

section \<open>Properties\<close>

text \<open>
  C13. In every run of the mips32 disk driver, whatever the order of submissions (synchronous or asynchronous), device interrupts, foreign
  interrupts, queries and client activity: the requests submitted and not yet finished are, in the order of submission, the request under work and
  then the queue from \<open>request_queue\<close> along the \<open>next\<close> links, each once; and the transfers that the device was given are exactly those of the
  finished requests and the one under work, each with its own sector, address and direction, once and in the order of submission.
\<close>

theorem disk_fifo:
  assumes "disk_run c"
  shows "(\<exists>qs. map fst (drop (finished c) (submissions c)) = (if request_served (disk c) = 0 then [] else [request_served (disk c)]) @ qs \<and>
      queued (requests (disk c)) (request_queue (disk c)) qs \<and> distinct (map fst (drop (finished c) (submissions c)))) \<and>
    transfers (disk_io (disk c)) = concat (map (\<lambda>(r, e). disk_start e)
           (take (finished c + (if request_served (disk c) = 0 then 0 else 1)) (submissions c)))" (is "(\<exists>qs. ?a qs) \<and> ?b")
proof
  have ok: "disk_sys_ok c" using assms by (rule disk_run_ok)
  then have h: "disk_holds (disk c) (active c)" by (simp add: disk_sys_ok_def)
  then have s: "request_served (disk c) = 0 \<longleftrightarrow> active c = []" by (cases "active c") (auto simp: disk_holds_def disk_ready_def)
  show "\<exists>qs. ?a qs" using h s by (cases "active c") (auto simp: disk_holds_def active_def)
  show ?b using ok s by (simp add: disk_sys_ok_def started_def)
qed

theorem disk_fifo_witness:
  "(\<exists>qs. [100, 200] = (if request_served (disk ex_disk4) = 0 then [] else [request_served (disk ex_disk4)]) @ qs \<and>
      queued (requests (disk ex_disk4)) (request_queue (disk ex_disk4)) qs) \<and>
    transfers (disk_io (disk ex_disk4)) = [(Tsector, 3), (Dmaaddr, 0x4000), (Command, 1)]"
proof -
  have m: "map fst (drop (finished ex_disk4) (submissions ex_disk4)) = [100, 200]" by (simp add: ex_disk4_def ex_submit_def ex_disk2_def ex_client_def ex_disk0_def disk_boot_def)
  have t: "concat (map (\<lambda>(r, e). disk_start e) (take (finished ex_disk4 + (if request_served (disk ex_disk4) = 0 then 0 else 1)) (submissions ex_disk4)))
      = [(Tsector, 3), (Dmaaddr, 0x4000), (Command, 1)]" by (simp add: ex_disk_defs Let_def disk_start_def)
  show ?thesis using disk_fifo [OF ex_disk4_run] unfolding m t by blast
qed

text \<open>
  C14. A synchronous disk call returns exactly when its own transfer is finished. In every run, when the call of request \<open>r\<close> waits and \<open>xs\<close> are the
  requests before it, the call stays blocked; the next interrupts of the device are handled without a panic and without waiting for the spinlock, and
  when as many have come as there are requests before \<open>r\<close>, plus one, the call goes on and reports success.
\<close>

theorem disk_sync_returns:
  assumes "disk_run c" and "r \<in> waiting c" and "map fst (drop (finished c) (submissions c)) = xs @ r # ys"
    and "list_all finishing sts" and "length sts = length xs + 1"
  shows "disk_submit_resume r (disk c) = Inl Blocked \<and> (\<exists>s t. handle_all sts (disk c) = Inr s \<and> disk_submit_resume r s = Inr (1, t))"
proof
  have ok: "disk_sys_ok c" using assms(1) by (rule disk_run_ok)
  have act: "active c = xs @ r # ys" using assms(3) by (simp add: active_def)
  show "disk_submit_resume r (disk c) = Inl Blocked" using resume_waiting [OF ok assms(2)] act by auto
  have "length sts \<le> length (active c)" using act assms(5) by simp
  then obtain s where s: "handle_all sts (disk c) = Inr s" "disk_sys_ok (c\<lparr>disk := s, finished := finished c + length sts\<rparr>)" (is "disk_sys_ok ?d")
    using handle_all_finishes [OF ok assms(4)] by blast
  have "active ?d = drop (length sts) (active c)" by (simp add: active_def drop_map add.commute)
  then have "active ?d = ys" using act assms(5) by simp
  moreover have "distinct (active c)" using ok by (simp add: disk_sys_ok_def disk_holds_def)
  ultimately have "r \<notin> set (active ?d)" using act by simp
  moreover have "r \<in> waiting ?d" using assms(2) by simp
  ultimately obtain t where "disk_submit_resume r (disk ?d) = Inr (1, t)" using resume_waiting [OF s(2)] by metis
  then show "\<exists>s t. handle_all sts (disk c) = Inr s \<and> disk_submit_resume r s = Inr (1, t)" using s(1) by auto
qed

theorem disk_sync_returns_witness:
  "disk_submit_resume 200 (disk ex_disk4) = Inl Blocked \<and>
   (\<exists>s t. handle_all [\<lambda>i. if i < 2 then 0xC else 0, \<lambda>i. if i < 2 then 0xC else 0] (disk ex_disk4) = Inr s \<and> disk_submit_resume 200 s = Inr (1, t))"
proof (rule disk_sync_returns [OF ex_disk4_run, where xs = "[100]" and ys = "[]"])
  show "200 \<in> waiting ex_disk4" by (simp add: ex_disk4_def ex_submit_def)
  show "map fst (drop (finished ex_disk4) (submissions ex_disk4)) = [100] @ 200 # []"
    by (simp add: ex_disk4_def ex_submit_def ex_disk2_def ex_client_def ex_disk0_def disk_boot_def)
  show "list_all finishing [\<lambda>i. if i < 2 then 0xC else 0, \<lambda>i. if i < 2 then 0xC else 0]"
    by (simp add: finishing_def disk_idle_def DISK_STATUS_RIRQ_def DISK_STATUS_WIRQ_def DISK_STATUS_RBUSY_def DISK_STATUS_WBUSY_def DISK_STATUS_ERRORS_def)
qed simp

section \<open>The terminal of the mips32 build\<close>

text \<open>An example run: a call that writes two characters to a ready device, an interrupt that sends the second and delivers two characters, and a read.\<close>

definition ex_tty_bufs :: "byte list" where
  "ex_tty_bufs = replicate 2048 0"

definition ex_tty0 :: tty_sys where
  "ex_tty0 = \<lparr>tty_of = tty_boot ex_tty_bufs ex_tty_bufs, accepted = [], received = [], returned = []\<rparr>"



text \<open>
  C16. A write to the terminal of the mips32 build completes. Whatever is still in the buffer, \<open>tty_write\<close> of \<open>len\<close> bytes, served by one interrupt
  of a device that takes every character for each 2048 bytes, returns \<open>len\<close> with the spinlock free and the interrupt flag as it was, and exactly its
  bytes were appended to the output.
\<close>

theorem tty_write_completes:
  assumes "tty_ok s" and "0 \<le> len" and "len \<le> int (length buf)" and "list_all (\<lambda>(st, busy, st'). serving st busy) rounds"
    and "len \<le> 2048 * int (length rounds)"
  shows "\<exists>t. rbind (tty_write st tid buf len s) (\<lambda>(v, s'). write_served rounds (tty_intr s) tid buf len v s') = Inr (Returned len, t) \<and>
    tty_ok t \<and> tty_intr t = tty_intr s \<and> sent t @ ring_list (write_ring t) = sent s @ ring_list (write_ring s) @ take (nat len) buf"
proof -
  obtain v u where v: "tty_write st tid buf len s = Inr (v, u)" "tty_ok u" "0 \<le> progress v" "progress v \<le> len"
    "outgoing u = outgoing s @ take (nat (progress v)) buf" "written len (tty_intr s) v u"
    using tty_write_resume_list [OF assms(1) order_refl assms(2,3), of "tty_intr s" st tid] by (auto simp: tty_write_def)
  have "len \<le> progress v + 2048 * int (length rounds)" using v(3) assms(5) by simp
  then obtain t where t: "write_served rounds (tty_intr s) tid buf len v u = Inr (Returned len, t)" "tty_ok t" "tty_intr t = tty_intr s"
    "outgoing t = outgoing u @ take (nat (len - progress v)) (drop (nat (progress v)) buf)"
    using write_served_done [OF v(2,3) assms(3,4) _ v(6)] by blast
  have "outgoing t = outgoing s @ take (nat len) buf" using t(4) v(3,4,5) take_drop_split [of 0 "progress v" len buf] by simp
  then show ?thesis using t v(1) by (simp add: outgoing_def)
qed

theorem tty_write_completes_witness:
  "\<exists>t. rbind (tty_write (\<lambda>_. 0) 1 [104, 105] 2 (tty_of ex_tty0)) (\<lambda>(v, s'). write_served [(\<lambda>i. if i = 0 then 8 else 0, \<lambda>_. 0, \<lambda>_. 0)] True 1 [104, 105] 2 v s')
     = Inr (Returned 2, t) \<and> sent t @ ring_list (write_ring t) = [104, 105]"
proof -
  have 1: "tty_ok (tty_of ex_tty0)" "tty_intr (tty_of ex_tty0)" "sent (tty_of ex_tty0) = []" "ring_list (write_ring (tty_of ex_tty0)) = []"
    by (simp_all add: ex_tty0_def ex_tty_bufs_def tty_boot_def tty_init_def tty_ok_def ring_ok_def sent_def ring_list_def)
  have 2: "list_all (\<lambda>(st, busy, st'). serving st busy) [(\<lambda>i :: nat. if i = 0 then 8 else 0, \<lambda>_. 0, \<lambda>_ :: nat. 0 :: u32)]"
    by (simp add: serving_def TTY_STATUS_WIRQ_def TTY_STATUS_RIRQ_def TTY_STATUS_ERROR_def TTY_STATUS_WBUSY_def)
  show ?thesis using tty_write_completes [OF 1(1) _ _ 2, of 2 "[104, 105]" "\<lambda>_. 0" 1] 1 by auto
qed

text \<open>
  The test of the handler for a full read buffer is off by one: when 2048 characters wait and one more arrives, it is stored over the
  oldest character and counted, so the next read returns the newest character first.
\<close>

lemma tty_full_overwrites:
  assumes "tty_ok s" and "length (ring_list (read_ring s)) = 2048" and "TTY_STATUS_RIRQ (st 1)" and "\<not> TTY_STATUS_WIRQ (st 0)" and "\<not> TTY_STATUS_ERROR (st 2)"
  shows "\<exists>t u. tty_interrupt_handle st busy [d] s = Inr t \<and> ring_count (read_ring t) = 2049 \<and> tty_read tid 1 t = Inr (([ucast d], Returned 1), u)"
proof -
  have c: "ring_count (read_ring s) = 2048" "ring_ok (read_ring s)" "tty_slock s = 0" using assms(1,2) by (simp_all add: tty_ok_def)
  have h: "nat (ring_head (read_ring s)) < 2048" "0 \<le> ring_head (read_ring s)" "length (ring_buf (read_ring s)) = 2048" using c(2) by (auto simp: ring_ok_def)
  show ?thesis
    using assms(3-5) c h tty_receive_full
    by (simp add: tty_interrupt_handle_def tty_acquire_def tty_out_def Let_def tty_receive_full [simplified] tty_release_def wake_readers_def
        tty_read_def tty_read_resume_def tty_take.simps ring_get_def lget_def del: tty_receive.simps)
qed

section \<open>The IDE disk of the x86_64 build\<close>

text \<open>
  C17. A block request to an IDE drive transfers that block. For a drive that is present, of a block that the drive can address, through a controller that does not
  stay busy and reports no error: \<open>ide_read_block\<close> returns 512 and the next 256 words of the data port; \<open>ide_write_block\<close> returns 512 and has written exactly the 256
  words of the buffer to it; and when the data moves, the registers of the drive hold, read the way an ATA drive reads them (28-bit or 48-bit
  addressing), the number of the block, a count of one and the selection of this drive.
\<close>

theorem ide_block_transfer:
  assumes "a < 4" and "get_device (ucast a) s = Inr dev" and "present dev \<noteq> 0" and "type dev = 0" and "chan_ok (channel dev) ch s"
    and "addressable dev (ucast (req_block req))" and "ucast (req_block req) \<le> totalsectors dev" and "req_buf req \<noteq> 0"
    and "calm (ide_in s)" and "21 \<le> length (ide_in s)" and "ide_in s ! 15 AND 0x20 = 0" and "ide_in s ! 15 AND 1 = 0" and "ide_in s ! 15 AND 8 \<noteq> 0"
    and "256 \<le> length (ide_words s)" and "length data = 256"
  shows "(\<exists>s'. ide_read_block a req s = Inr ((512, take 256 (ide_words s)), s') \<and> addressed dev (base ch) (ucast (req_block req)) (ide_log s') \<and>
       ide_wout s' = ide_wout s) \<and>
     (\<exists>s'. ide_write_block a req data s = Inr ((512, []), s') \<and> addressed dev (base ch) (ucast (req_block req)) (ide_log s') \<and>
       ide_wout s' = ide_wout s @ data)"
proof -
  let ?d = "ucast a :: byte" and ?l = "ide_log s @ [(base ch + 12, 2)]"
  have d: "\<not> ?d > 3" using assms(1) by (simp add: word_less_nat_alt unsigned_ucast_eq take_bit_eq_mod [where 'a = nat])
  have "unat (ucast (req_buf req) :: u64) = unat (req_buf req)" using unsigned_less [of "req_buf req", where ?'a = nat]
    by (simp add: unsigned_ucast_eq take_bit_eq_mod [where 'a = nat])
  then have buf: "(ucast (req_buf req) :: u64) \<noteq> 0" using assms(8) by (auto simp: word_unat_eq_iff)
  note pio = ide_pio_log [OF assms(2,5) buf _ assms(9-13)]
  obtain s1 where s1: "ide_pio_readwrite IDE_READ ?d (ucast (req_block req)) (ucast (req_buf req)) [] 1 s = Inr ((512, take 256 (ide_words s)), s1)"
    "ide_log s1 = ?l @ ide_request IDE_READ dev (base ch) (ucast (req_block req)) 1" "ide_wout s1 = ide_wout s"
    using pio [of IDE_READ "ucast (req_block req)" "[]"] assms(14) by auto
  obtain s2 where s2: "ide_pio_readwrite IDE_WRITE ?d (ucast (req_block req)) (ucast (req_buf req)) data 1 s = Inr ((512, []), s2)"
    "ide_log s2 = (?l @ ide_request IDE_WRITE dev (base ch) (ucast (req_block req)) 1) @ [(base ch + 7, IDE_COMMAND_FLUSH)]" "ide_wout s2 = ide_wout s @ data"
    using pio [of IDE_WRITE "ucast (req_block req)" data] assms(15) by auto
  have "ide_read_block a req s = Inr ((512, take 256 (ide_words s)), s1)" "ide_write_block a req data s = Inr ((512, []), s2)"
    using s1(1) s2(1) d assms(2-4,7) by (simp_all add: ide_read_block_def ide_write_block_def Let_def)
  moreover have "addressed dev (base ch) (ucast (req_block req)) (ide_log s1)" unfolding s1(2) by (rule addressed_request [OF assms(6)])
  moreover have "addressed dev (base ch) (ucast (req_block req)) (ide_log s2)" unfolding s2(2) by (rule addressed_flush, rule addressed_request [OF assms(6)])
  ultimately show ?thesis using s1(3) s2(3) by blast
qed

definition ex_drive :: ide_device where
  "ex_drive = \<lparr>present = 1, channel = 0, drive = 1, flags = 1, type = 0, signature = 0, capabilities = 0, commandset = 0, cylinders = 0, headspercylinder = 0,
     secsperhead = 0, totalsectors = 0x20000000\<rparr>"

definition ex_ide :: ide where
  "ex_ide = \<lparr>ide_channels = [\<lparr>base = 0x1F0, ctrl = 0x3F6, busm = 0, chan_irq = 14, irq_wait = 0\<rparr>], ide_devices = [ex_drive], registered = [0],
     ide_in = replicate 21 0x58, ide_words = replicate 256 7, ide_log = [], ide_wout = []\<rparr>"

definition ex_ide_request :: gbd_request where
  "ex_ide_request = \<lparr>req_block = 0x12345678, req_buf = 0x8000, req_sem = 0, req_operation = 0, req_internal = 0, req_next = 0, req_return = 0\<rparr>"

theorem ide_block_transfer_witness:
  "\<exists>s'. ide_read_block 0 ex_ide_request ex_ide = Inr ((512, replicate 256 7), s') \<and> ata_lba48 0x1F0 (ide_log s') = 0x12345678"
proof -
  let ?ch = "\<lparr>base = 0x1F0, ctrl = 0x3F6, busm = 0, chan_irq = 14, irq_wait = 0\<rparr>"
  have 1: "(0 :: u64) < 4" "get_device (ucast (0 :: u64)) ex_ide = Inr ex_drive" "present ex_drive \<noteq> 0" "type ex_drive = 0" "chan_ok (channel ex_drive) ?ch ex_ide"
    by (simp_all add: get_device_def ex_ide_def ex_drive_def chan_ok_def)
  have 2: "addressable ex_drive (ucast (req_block ex_ide_request))" "(ucast (req_block ex_ide_request) :: u64) \<le> totalsectors ex_drive" "req_buf ex_ide_request \<noteq> 0"
    by (simp_all add: addressable_def ex_drive_def ex_ide_request_def)
  have 3: "calm (ide_in ex_ide)" "21 \<le> length (ide_in ex_ide)" "ide_in ex_ide ! 15 AND 0x20 = 0" "ide_in ex_ide ! 15 AND 1 = 0" "ide_in ex_ide ! 15 AND 8 \<noteq> 0"
    "256 \<le> length (ide_words ex_ide)" "length (replicate 256 (0 :: u16)) = 256"
    by (simp_all add: ex_ide_def calm_def list_all_iff)
  have 4: "take 256 (ide_words ex_ide) = replicate 256 7" "flags ex_drive AND 1 \<noteq> 0" "(ucast (req_block ex_ide_request) :: u64) = 0x12345678"
    by (simp_all add: ex_ide_def ex_drive_def ex_ide_request_def)
  show ?thesis using ide_block_transfer [OF 1 2 3] unfolding 4(1,3) by (auto simp: addressed_def 4(2))
qed

section \<open>Boot arguments\<close>

text \<open>
  C18. The boot loader's string is parsed into its arguments. When it has at most 32 of them, \<open>bootargs_get\<close> returns for every key
  the value of the first argument with that key, as \<open>args_of\<close> reads it off the string (the empty string for a key without a value),
  and NULL for any other key. With more than 32 arguments the parser writes outside the table.
\<close>

theorem bootargs_lookup:
  assumes "0 \<notin> set s" "length s + 1 < 2 ^ 31" "length junk = length s + 1" "stalloc (int (length s) + 1) st = Inr (adr, st')"
    and "length (bootargs_values b) = CONFIG_BOOTARGS_MAX"
  shows "if length (args_of s) \<le> CONFIG_BOOTARGS_MAX
    then \<exists>b'. bootargs_init (Some (s @ 0 # rest)) junk b st = Inr (b', st') \<and>
      (\<forall>key. terminated key \<longrightarrow> (\<exists>q. bootargs_get b' key = Inr q \<and> arg_text b' q = map_of (args_of s) (cstr key)))
    else bootargs_init (Some (s @ 0 # rest)) junk b st = Inl OutOfBounds"
  using bootargs_init_eq [OF assms(1-4), of b rest] bootargs_get_eq unfolding assms(5) by (auto split: if_splits)

text \<open>The string \<^verbatim>\<open>a=b=c  d\<close>: the argument \<open>a\<close> has the value \<^verbatim>\<open>b=c\<close>, there is an argument with an empty key, and \<open>d\<close> has no value.\<close>

definition ex_args :: "byte list" where
  "ex_args = [97, 61, 98, 61, 99, 32, 32, 100]"

definition ex_table :: bootargs where
  "ex_table = \<lparr>value_area = [], bootargs_values = replicate 32 \<lparr>arg_key = ArgNull, arg_value = ArgNull\<rparr>\<rparr>"

definition ex_boot_mem :: physmem where
  "ex_boot_mem = \<lparr>kernel_end = 0x80010000, free_area_start = 0x80010000, stalloced_total = 0, physmem_free_pages = [], physmem_num_pages = 0,
     physmem_num_free_pages = 0, physmem_static_end = 0, physmem_slock = 0, pm_intr = True\<rparr>"

theorem bootargs_lookup_witness:
  "\<exists>b st q q'. bootargs_init (Some (ex_args @ [0])) (replicate 9 7) ex_table ex_boot_mem = Inr (b, st) \<and>
    bootargs_get b [97, 0] = Inr q \<and> arg_text b q = Some [98, 61, 99] \<and> bootargs_get b [101, 0] = Inr q' \<and> arg_text b q' = None"
proof -
  have args: "args_of ex_args = [([97], [98, 61, 99]), ([], []), ([100], [])]"
    by code_simp
  obtain adr st where mem: "stalloc (int (length ex_args) + 1) ex_boot_mem = Inr (adr, st)"
    by (simp add: stalloc_def ex_boot_mem_def ex_args_def)
  have "length (args_of ex_args) \<le> CONFIG_BOOTARGS_MAX"
    unfolding args by (simp add: CONFIG_BOOTARGS_MAX_def)
  moreover have "0 \<notin> set ex_args" "length ex_args + 1 < 2 ^ 31"
    "length (replicate 9 7 :: byte list) = length ex_args + 1" "length (bootargs_values ex_table) = CONFIG_BOOTARGS_MAX"
    by (simp_all add: CONFIG_BOOTARGS_MAX_def ex_args_def ex_table_def)
  ultimately obtain b where b: "bootargs_init (Some (ex_args @ [0])) (replicate 9 7) ex_table ex_boot_mem = Inr (b, st)"
    "\<And>key. terminated key \<Longrightarrow> \<exists>q. bootargs_get b key = Inr q \<and> arg_text b q = map_of (args_of ex_args) (cstr key)"
    using bootargs_lookup [OF _ _ _ mem, of "replicate 9 7" ex_table "[]"] by auto
  show ?thesis
    using b(1) b(2) [of "[97, 0]"] b(2) [of "[101, 0]"] unfolding args by auto
qed

end
