(* ===== verification/Console.thy ===== *)
theory Console
  imports Kudos_Prelude
begin

text \<open>
  The console of the x86_64 build: the screen (\<^verbatim>\<open>src/kudos/drivers/x86_64/tty.c\<close>, \<^verbatim>\<open>polltty.c\<close>). The video memory at
  VIDEO_MEMORY_BASE is a list of 2000 cells, an access outside it is \<open>OutOfBounds\<close>. \<open>terminal\<close> is what the user sees: 25 rows of 80
  cells and a cursor; \<open>term_char\<close> is the terminal's reaction to a character.
\<close>

section \<open>The screen\<close>

record console =
  cursor_x :: u64
  cursor_y :: u64
  textcolor :: u64
  con_slock :: int
  video :: "u16 list"
  crtc :: "(u16 \<times> byte) list"
  con_intr64 :: bool

abbreviation (input) VIDEO_MEMORY_COLUMNS :: u64 where "VIDEO_MEMORY_COLUMNS \<equiv> 80"
abbreviation (input) VIDEO_MEMORY_ROWS :: u64 where "VIDEO_MEMORY_ROWS \<equiv> 25"
abbreviation (input) COLOR_WHITE :: byte where "COLOR_WHITE \<equiv> 0x0F"

definition t_attrib :: u16 where
  "t_attrib = push_bit 8 (ucast COLOR_WHITE)"

text \<open>The device part of \<open>tty_init\<close>.\<close>

definition tty_init64 :: "console \<Rightarrow> console" where
  "tty_init64 s = s\<lparr>cursor_x := 0, cursor_y := 0, textcolor := ucast COLOR_WHITE, con_slock := 0\<rparr>"

definition video_set :: "int \<Rightarrow> u16 \<Rightarrow> console \<Rightarrow> console res" where
  "video_set i v s = rbind (lset (video s) i v) (\<lambda>m. Inr (s\<lparr>video := m\<rparr>))"

text \<open>The two loops of the scroll, over the indices they run through.\<close>

fun scroll_loop :: "nat list \<Rightarrow> u16 list \<Rightarrow> u16 list res" where
  "scroll_loop [] m = Inr m"
| "scroll_loop (i # is) m = rbind (lget m (int i + 80)) (\<lambda>v. rbind (lset m (int i) v) (scroll_loop is))"

fun clear_loop :: "nat list \<Rightarrow> u16 list \<Rightarrow> u16 list res" where
  "clear_loop [] m = Inr m"
| "clear_loop (i # is) m = rbind (lset m (int i) (0x20 OR t_attrib)) (clear_loop is)"

definition tty_scroll :: "console \<Rightarrow> console res" where
  "tty_scroll s = rbind (scroll_loop [0..<24 * 80] (video s)) (\<lambda>m. rbind (clear_loop [24 * 80..<25 * 80] m) (\<lambda>m.
     Inr (s\<lparr>video := m, cursor_y := cursor_y s - 1, cursor_x := 0\<rparr>)))"

text \<open>One round of the loop of \<open>tty_write\<close>.\<close>

definition tty_char64 :: "byte \<Rightarrow> console \<Rightarrow> console res" where
  "tty_char64 c s =
     (let offset = (cursor_y s * VIDEO_MEMORY_COLUMNS + cursor_x s) * 2;
          vptr = int (unat offset) div 2 in
      rbind (if c = 0x08 then
               if cursor_x s \<noteq> 0 then video_set (vptr - 1) (0x20 OR t_attrib) (s\<lparr>cursor_x := cursor_x s - 1\<rparr>) else Inr s
             else if c = 13 then Inr (s\<lparr>cursor_x := 0\<rparr>)
             else if c = 10 then Inr (s\<lparr>cursor_y := cursor_y s + 1, cursor_x := 0\<rparr>)
             else rbind (video_set vptr (t_attrib OR ucast c) s) (\<lambda>s. Inr (s\<lparr>cursor_x := cursor_x s + 1\<rparr>))) (\<lambda>s.
      let s = (if cursor_x s \<ge> VIDEO_MEMORY_COLUMNS then s\<lparr>cursor_y := cursor_y s + 1, cursor_x := 0\<rparr> else s) in
      if cursor_y s \<ge> VIDEO_MEMORY_ROWS then tty_scroll s else Inr s))"

text \<open>The loop: it ends when \<open>j\<close> is 0 or at a zero byte.\<close>

fun tty_chars64 :: "byte list \<Rightarrow> int \<Rightarrow> console \<Rightarrow> console res" where
  "tty_chars64 str j s =
     (if j = 0 then Inr s else
      case str of [] \<Rightarrow> Inl OutOfBounds
      | c # cs \<Rightarrow> if c = 0 then Inr s else rbind (tty_char64 c s) (\<lambda>s. tty_chars64 cs (j - 1) s))"

definition tty_cursor64 :: "console \<Rightarrow> console" where
  "tty_cursor64 s =
     (let cursor_loc = (ucast (cursor_y s * VIDEO_MEMORY_COLUMNS + cursor_x s) :: u16) in
      s\<lparr>crtc := crtc s @ [(0x3D4, 14), (0x3D5, ucast (drop_bit 8 cursor_loc)), (0x3D4, 15), (0x3D5, ucast cursor_loc)]\<rparr>)"

definition tty_write64 :: "byte list \<Rightarrow> int \<Rightarrow> console \<Rightarrow> (int \<times> console) res" where
  "tty_write64 buf len s =
     (let intr_status = con_intr64 s in
      if con_slock s \<noteq> 0 then Inl Spin else
      rbind (tty_chars64 buf len (s\<lparr>con_intr64 := False, con_slock := 1\<rparr>)) (\<lambda>s.
      Inr (len, (tty_cursor64 s)\<lparr>con_slock := 0, con_intr64 := intr_status\<rparr>)))"

definition polltty_putchar :: "byte \<Rightarrow> console \<Rightarrow> console res" where
  "polltty_putchar c s = rbind (tty_write64 [c] 1 s) (\<lambda>(_, s). Inr s)"

text \<open>\<open>kwrite\<close> (\<^verbatim>\<open>src/kudos/lib/libc.c\<close>).\<close>

fun kwrite :: "byte list \<Rightarrow> console \<Rightarrow> console res" where
  "kwrite [] s = Inl OutOfBounds"
| "kwrite (c # cs) s = (if c \<noteq> 0 then rbind (polltty_putchar c s) (kwrite cs) else Inr s)"

declare tty_chars64.simps [simp del]

section \<open>What the user sees\<close>

record terminal =
  rows :: "u16 list list"
  column :: nat
  line :: nat

definition blank :: u16 where "blank = 0x0F20"

text \<open>A new line below the last row moves all rows up and drops the first.\<close>

definition term_newline :: "terminal \<Rightarrow> terminal" where
  "term_newline t = (if line t + 1 < 25 then t\<lparr>line := line t + 1, column := 0\<rparr>
     else t\<lparr>rows := tl (rows t) @ [replicate 80 blank], column := 0\<rparr>)"

definition put_cell :: "nat \<Rightarrow> nat \<Rightarrow> u16 \<Rightarrow> u16 list list \<Rightarrow> u16 list list" where
  "put_cell y x v rs = rs[y := (rs ! y)[x := v]]"

definition term_char :: "byte \<Rightarrow> terminal \<Rightarrow> terminal" where
  "term_char c t =
     (if c = 8 then if column t = 0 then t else t\<lparr>rows := put_cell (line t) (column t - 1) blank (rows t), column := column t - 1\<rparr>
      else if c = 13 then t\<lparr>column := 0\<rparr>
      else if c = 10 then term_newline t
      else let t = t\<lparr>rows := put_cell (line t) (column t) (0x0F00 OR ucast c) (rows t)\<rparr> in
           if column t + 1 < 80 then t\<lparr>column := column t + 1\<rparr> else term_newline t)"

definition screen :: "u16 list \<Rightarrow> u16 list list" where
  "screen m = map (\<lambda>y. take 80 (drop (80 * y) m)) [0..<25]"

definition term_of :: "console \<Rightarrow> terminal" where
  "term_of s = \<lparr>rows = screen (video s), column = unat (cursor_x s), line = unat (cursor_y s)\<rparr>"

definition console_ok :: "console \<Rightarrow> bool" where
  "console_ok s \<longleftrightarrow> length (video s) = 2000 \<and> unat (cursor_x s) < 80 \<and> unat (cursor_y s) < 25"

section \<open>The screen behaves like the terminal\<close>

lemma attrib_blank [simp]: "0x20 OR t_attrib = blank"
  by (simp add: t_attrib_def blank_def)

lemma scroll_loop_upt:
  "length m = 2000 \<Longrightarrow> n \<le> 1920 \<Longrightarrow> scroll_loop [0..<n] m = Inr (take n (drop 80 m) @ drop n m)"
proof (induction n)
  case (Suc n)
  have app: "scroll_loop (xs @ ys) m = rbind (scroll_loop xs m) (scroll_loop ys)" for xs ys and m :: "u16 list"
    by (induction xs arbitrary: m) (simp_all add: rbind_assoc cong: rbind_cong)
  let ?m = "take n (drop 80 m) @ drop n m"
  have "length ?m = 2000" "?m ! (n + 80) = m ! (n + 80)" using Suc.prems by (simp_all add: nth_append)
  moreover have "?m[n := m ! (n + 80)] = take (Suc n) (drop 80 m) @ drop (Suc n) m"
    using Suc.prems by (intro nth_equalityI) (auto simp: nth_append nth_list_update less_Suc_eq add.commute)
  ultimately show ?case using Suc app [of "[0..<n]" "[n]" m] by (simp add: lget_def lset_def nat_add_distrib)
qed simp

lemma clear_loop_upt:
  "a \<le> n \<Longrightarrow> n \<le> length m \<Longrightarrow> clear_loop [a..<n] m = Inr (take a m @ replicate (n - a) blank @ drop n m)"
proof (induction "n - a" arbitrary: n)
  case (Suc k)
  then obtain p where p: "n = Suc p" "a \<le> p" by (metis Suc_diff_Suc Suc_le_D diff_is_0_eq le_Suc_eq nat.distinct(1) not_less_eq_eq)
  have app: "clear_loop (xs @ ys) m = rbind (clear_loop xs m) (clear_loop ys)" for xs ys and m :: "u16 list"
    by (induction xs arbitrary: m) (simp_all add: rbind_assoc cong: rbind_cong)
  let ?m = "take a m @ replicate (p - a) blank @ drop p m"
  have "?m[p := blank] = take a m @ replicate (Suc p - a) blank @ drop (Suc p) m"
  proof -
    have "replicate (Suc p - a) blank = replicate (p - a) blank @ [blank]" using p by (simp add: Suc_diff_le replicate_append_same)
    moreover have "drop p m = m ! p # drop (Suc p) m" using p Suc.prems by (simp add: Cons_nth_drop_Suc)
    ultimately show ?thesis using p Suc.prems by (simp add: list_update_append)
  qed
  moreover have "length ?m = length m" using p Suc.prems by simp
  ultimately show ?case using Suc.hyps(1) [of p] Suc.hyps(2) Suc.prems p app [of "[a..<p]" "[p]" m] by (simp add: lset_def)
qed simp

lemma screen_scroll:
  assumes "length m = 2000"
  shows "screen (take 1920 (drop 80 m) @ replicate 80 v) = tl (screen m) @ [replicate 80 v]"
proof -
  have "take 80 (drop (80 * y) (take 1920 (drop 80 m) @ replicate 80 v)) = take 80 (drop (80 * Suc y) m)" if "y < 24" for y
  proof -
    have "80 * y + 80 \<le> 1920" using that by simp
    then show ?thesis using assms by (simp add: drop_take take_take add.commute)
  qed
  moreover have "take 80 (drop (80 * 24) (take 1920 (drop 80 m) @ replicate 80 v)) = replicate 80 v" using assms by simp
  moreover have "[0..<25] = [0..<24] @ [24]" "[0..<25] = 0 # map Suc [0..<24]" by (simp_all add: upt_rec)
  ultimately show ?thesis unfolding screen_def by (metis (no_types, lifting) list.map_comp list.sel(3) list.simps(8,9) map_append map_cong atLeastLessThan_iff comp_def set_upt)
qed

lemma tty_scroll_screen:
  assumes "length (video s) = 2000"
  shows "\<exists>m. tty_scroll s = Inr (s\<lparr>video := m, cursor_y := cursor_y s - 1, cursor_x := 0\<rparr>) \<and> length m = 2000 \<and>
     screen m = tl (screen (video s)) @ [replicate 80 blank]"
proof -
  let ?m = "take 1920 (drop 80 (video s)) @ drop 1920 (video s)"
  have "scroll_loop [0..<1920] (video s) = Inr ?m" using scroll_loop_upt [OF assms, of 1920] by (simp del: upt_rec_numeral)
  moreover have "clear_loop [1920..<2000] ?m = Inr (take 1920 (drop 80 (video s)) @ replicate 80 blank)"
    using clear_loop_upt [of 1920 2000 ?m] assms by (simp del: upt_rec_numeral)
  ultimately have "tty_scroll s = Inr (s\<lparr>video := take 1920 (drop 80 (video s)) @ replicate 80 blank, cursor_y := cursor_y s - 1, cursor_x := 0\<rparr>)"
    by (simp add: tty_scroll_def del: upt_rec_numeral)
  then show ?thesis using screen_scroll [OF assms, of blank] assms
    by (intro exI [of _ "take 1920 (drop 80 (video s)) @ replicate 80 blank"]) (simp del: take_all take_all_iff)
qed

text \<open>Setting a cell of the video memory sets the cell of its row and column.\<close>

lemma cell_inj:
  assumes "x < 80" and "k < 80" and "80 * y + x = 80 * j + (k :: nat)"
  shows "j = y \<and> k = x"
proof -
  have "(80 * y + x) div 80 = y" "(80 * j + k) div 80 = j" using assms(1,2) by simp_all
  then show ?thesis using assms(3) by auto
qed

lemma screen_update:
  assumes "length m = 2000" and "x < 80" and "y < 25"
  shows "screen (m[80 * y + x := v]) = put_cell y x v (screen m)"
proof (rule nth_equalityI)
  show "length (screen (m[80 * y + x := v])) = length (put_cell y x v (screen m))" by (simp add: screen_def put_cell_def)
next
  fix j assume "j < length (screen (m[80 * y + x := v]))"
  then have j: "j < 25" by (simp add: screen_def)
  have "take 80 (drop (80 * j) (m[80 * y + x := v])) = (if j = y then (take 80 (drop (80 * y) m))[x := v] else take 80 (drop (80 * j) m))"
  proof (rule nth_equalityI)
    fix k assume "k < length (take 80 (drop (80 * j) (m[80 * y + x := v])))"
    then have "k < 80" "80 * j + k < 2000" using assms(1) j by auto
    moreover have "80 * y + x = 80 * j + k \<longleftrightarrow> j = y \<and> k = x" using cell_inj [OF assms(2) \<open>k < 80\<close>] by blast
    ultimately show "take 80 (drop (80 * j) (m[80 * y + x := v])) ! k = (if j = y then (take 80 (drop (80 * y) m))[x := v] else take 80 (drop (80 * j) m)) ! k"
      using assms by (auto simp: nth_list_update)
  qed simp
  then show "screen (m[80 * y + x := v]) ! j = put_cell y x v (screen m) ! j"
    using j assms(3) by (simp add: screen_def put_cell_def nth_list_update)
qed

lemma video_set_screen:
  assumes "console_ok s" and "x < 80" and "y < 25"
  shows "\<exists>m. video_set (int (80 * y + x)) v s = Inr (s\<lparr>video := m\<rparr>) \<and> length m = 2000 \<and> screen m = put_cell y x v (screen (video s))"
proof -
  have "lset (video s) (int (80 * y + x)) v = Inr ((video s)[80 * y + x := v])"
    using assms unfolding console_ok_def by (intro lset_nat) simp
  then show ?thesis using assms screen_update [of "video s" x y v] by (auto simp: video_set_def console_ok_def simp del: of_nat_add of_nat_mult)
qed

lemma cell_offset:
  assumes "unat cx < 80" and "unat cy < 25"
  shows "int (unat ((cy * VIDEO_MEMORY_COLUMNS + cx) * 2)) div 2 = int (80 * unat cy + unat cx)"
proof -
  have "unat (cy * 80 + cx) = 80 * unat cy + unat cx" using assms by (simp add: unat_word_ariths)
  then have "unat ((cy * 80 + cx) * 2) = (80 * unat cy + unat cx) * 2" using assms by (simp add: unat_word_ariths)
  then show ?thesis by simp
qed

text \<open>The steps after a character, over the abstract terminal: wrapping at the right margin, scrolling at the bottom.\<close>

lemma newline_screen:
  assumes "length (video s) = 2000" and "unat (cursor_y s) < 25"
  shows "\<exists>s'. (if cursor_y s + 1 \<ge> VIDEO_MEMORY_ROWS then tty_scroll (s\<lparr>cursor_y := cursor_y s + 1, cursor_x := 0\<rparr>)
       else Inr (s\<lparr>cursor_y := cursor_y s + 1, cursor_x := 0\<rparr>)) = Inr s' \<and>
     console_ok s' \<and> term_of s' = term_newline (term_of s) \<and> con_slock s' = con_slock s \<and> con_intr64 s' = con_intr64 s \<and> crtc s' = crtc s"
proof -
  have u: "unat (cursor_y s + 1) = unat (cursor_y s) + 1" using assms(2) by (simp add: unat_word_ariths)
  show ?thesis
  proof (cases "unat (cursor_y s) + 1 < 25")
    case True
    then have "\<not> cursor_y s + 1 \<ge> VIDEO_MEMORY_ROWS" using u by (simp add: word_le_nat_alt)
    then show ?thesis using assms True u by (simp add: console_ok_def term_of_def term_newline_def)
  next
    case False
    then have "cursor_y s + 1 \<ge> VIDEO_MEMORY_ROWS" using u by (simp add: word_le_nat_alt)
    moreover obtain m where "tty_scroll (s\<lparr>cursor_y := cursor_y s + 1, cursor_x := 0\<rparr>) = Inr (s\<lparr>video := m, cursor_x := 0\<rparr>)"
      "length m = 2000" "screen m = tl (screen (video s)) @ [replicate 80 blank]"
      using tty_scroll_screen [of "s\<lparr>cursor_y := cursor_y s + 1, cursor_x := 0\<rparr>"] assms(1) by auto
    ultimately show ?thesis using assms(2) False by (simp add: console_ok_def term_of_def term_newline_def)
  qed
qed

lemma tty_char64_term:
  assumes ok: "console_ok s"
  shows "\<exists>s'. tty_char64 c s = Inr s' \<and> console_ok s' \<and> term_of s' = term_char c (term_of s) \<and>
     con_slock s' = con_slock s \<and> con_intr64 s' = con_intr64 s \<and> crtc s' = crtc s"
proof -
  let ?x = "unat (cursor_x s)" and ?y = "unat (cursor_y s)"
  have xy: "?x < 80" "?y < 25" "length (video s) = 2000" using ok by (simp_all add: console_ok_def)
  have nw: "\<not> cursor_x s \<ge> VIDEO_MEMORY_COLUMNS" "\<not> cursor_y s \<ge> VIDEO_MEMORY_ROWS" using xy by (simp_all add: word_le_nat_alt)
  note off = cell_offset [OF xy(1,2)]
  consider "c = 8" "?x = 0" | "c = 8" "?x \<noteq> 0" | "c = 13" | "c = 10" | "c \<noteq> 8" "c \<noteq> 13" "c \<noteq> 10" by blast
  then show ?thesis
  proof cases
    case 1
    then have "cursor_x s = 0" by (simp add: unat_eq_0)
    then show ?thesis using 1 ok nw by (simp add: tty_char64_def Let_def term_char_def term_of_def)
  next
    case 2
    have x: "cursor_x s \<noteq> 0" "unat (cursor_x s - 1) = ?x - 1" using 2(2) by (auto simp: unat_eq_0 unat_minus_one)
    have e: "int (80 * ?y + ?x) - 1 = int (80 * ?y + (?x - 1))" using 2(2) by (simp add: of_nat_diff)
    have "console_ok (s\<lparr>cursor_x := cursor_x s - 1\<rparr>)" "?x - 1 < 80" using ok x(2) xy(1) by (auto simp: console_ok_def)
    then obtain m where m: "video_set (int (80 * ?y + ?x) - 1) blank (s\<lparr>cursor_x := cursor_x s - 1\<rparr>) = Inr (s\<lparr>cursor_x := cursor_x s - 1, video := m\<rparr>)"
      "length m = 2000" "screen m = put_cell ?y (?x - 1) blank (screen (video s))"
      using video_set_screen [of "s\<lparr>cursor_x := cursor_x s - 1\<rparr>" "?x - 1" ?y blank] xy(2) unfolding e by auto
    have "\<not> cursor_x s - 1 \<ge> VIDEO_MEMORY_COLUMNS" using x(2) xy(1) by (simp add: word_le_nat_alt)
    then show ?thesis using 2 x m off nw(2) xy
      by (simp add: tty_char64_def Let_def term_char_def term_of_def console_ok_def del: of_nat_add of_nat_mult)
  next
    case 3
    then show ?thesis using xy nw(2) by (simp add: tty_char64_def Let_def term_char_def term_of_def console_ok_def)
  next
    case 4
    then have "tty_char64 c s = (if cursor_y s + 1 \<ge> VIDEO_MEMORY_ROWS then tty_scroll (s\<lparr>cursor_y := cursor_y s + 1, cursor_x := 0\<rparr>)
       else Inr (s\<lparr>cursor_y := cursor_y s + 1, cursor_x := 0\<rparr>))" by (simp add: tty_char64_def Let_def)
    moreover have "term_char c (term_of s) = term_newline (term_of s)" using 4 by (simp add: term_char_def)
    ultimately show ?thesis using newline_screen [OF xy(3,2)] by metis
  next
    case 5
    let ?v = "t_attrib OR ucast c"
    obtain m where m: "video_set (int (80 * ?y + ?x)) ?v s = Inr (s\<lparr>video := m\<rparr>)" "length m = 2000" "screen m = put_cell ?y ?x ?v (screen (video s))"
      using video_set_screen [OF ok xy(1,2), of ?v] by auto
    have u: "unat (cursor_x s + 1) = ?x + 1" using xy(1) by (simp add: unat_word_ariths)
    have v: "?v = 0x0F00 OR ucast c" by (simp add: t_attrib_def)
    show ?thesis
    proof (cases "?x + 1 < 80")
      case True
      then have "\<not> cursor_x s + 1 \<ge> VIDEO_MEMORY_COLUMNS" using u by (simp add: word_le_nat_alt)
      then show ?thesis using True 5 m off u v nw(2) xy
        by (simp add: tty_char64_def Let_def term_char_def term_of_def console_ok_def del: of_nat_add of_nat_mult)
    next
      case False
      then have "cursor_x s + 1 \<ge> VIDEO_MEMORY_COLUMNS" using u by (simp add: word_le_nat_alt)
      moreover have "term_char c (term_of s) = term_newline (term_of (s\<lparr>video := m\<rparr>))"
        using 5 False m(3) v by (simp add: term_char_def term_of_def Let_def)
      moreover have "term_newline (term_of (s\<lparr>video := m, cursor_x := cursor_x s + 1\<rparr>)) = term_newline (term_of (s\<lparr>video := m\<rparr>))"
        by (simp add: term_of_def term_newline_def)
      moreover have "tty_char64 c s = (if cursor_y s + 1 \<ge> VIDEO_MEMORY_ROWS then tty_scroll (s\<lparr>video := m, cursor_x := cursor_x s + 1, cursor_y := cursor_y s + 1, cursor_x := 0\<rparr>)
         else Inr (s\<lparr>video := m, cursor_x := cursor_x s + 1, cursor_y := cursor_y s + 1, cursor_x := 0\<rparr>))"
        using 5 m(1) off calculation(1) by (simp add: tty_char64_def Let_def del: of_nat_add of_nat_mult)
      ultimately show ?thesis using newline_screen [of "s\<lparr>video := m, cursor_x := cursor_x s + 1\<rparr>"] m(2) xy(2) by (cases "25 \<le> cursor_y s + 1") simp_all
    qed
  qed
qed

lemma tty_chars64_term:
  assumes "console_ok s" and "0 \<le> len" and "len \<le> int (length buf)"
  shows "\<exists>s'. tty_chars64 buf len s = Inr s' \<and> console_ok s' \<and> term_of s' = fold term_char (takeWhile (\<lambda>c. c \<noteq> 0) (take (nat len) buf)) (term_of s) \<and>
     con_slock s' = con_slock s \<and> con_intr64 s' = con_intr64 s \<and> crtc s' = crtc s"
  using assms
proof (induction buf arbitrary: len s)
  case Nil
  then show ?case by (subst tty_chars64.simps) simp
next
  case (Cons c cs)
  show ?case
  proof (cases "len = 0 \<or> c = 0")
    case True
    then show ?thesis using Cons.prems by (subst tty_chars64.simps) (cases "nat len"; auto)
  next
    case False
    then have n: "nat len = Suc (nat (len - 1))" using Cons.prems(2) by linarith
    obtain t where t: "tty_char64 c s = Inr t" "console_ok t" "term_of t = term_char c (term_of s)" "con_slock t = con_slock s" "con_intr64 t = con_intr64 s" "crtc t = crtc s"
      using tty_char64_term [OF Cons.prems(1)] by blast
    show ?thesis using Cons.IH [OF t(2), of "len - 1"] Cons.prems(2,3) t False n by (subst tty_chars64.simps) auto
  qed
qed

text \<open>The position in the cursor registers.\<close>

lemma cursor_location:
  assumes "console_ok s"
  shows "unat (ucast (cursor_y s * VIDEO_MEMORY_COLUMNS + cursor_x s) :: u16) = 80 * unat (cursor_y s) + unat (cursor_x s)"
proof -
  have b: "unat (cursor_x s) < 80" "unat (cursor_y s) < 25" using assms by (simp_all add: console_ok_def)
  then have "unat (cursor_y s * 80 + cursor_x s) = 80 * unat (cursor_y s) + unat (cursor_x s)" by (simp add: unat_word_ariths)
  moreover have "80 * unat (cursor_y s) + unat (cursor_x s) < 65536" using b by simp
  ultimately show ?thesis by (simp add: unsigned_ucast_eq take_bit_eq_mod)
qed

lemma split_bytes: "256 * unat (ucast (drop_bit 8 (w :: u16)) :: byte) + unat (ucast w :: byte) = unat w"
proof -
  have "unat w < 2 ^ 16" using unsigned_less [of w] by simp
  then show ?thesis by (simp add: unsigned_ucast_eq take_bit_eq_mod unat_drop_bit_eq drop_bit_eq_div [where 'a = nat])
qed

text \<open>Where the cursor registers put the cursor.\<close>

fun crtc_position :: "(u16 \<times> byte) list \<Rightarrow> nat" where
  "crtc_position [(_, _), (_, hi), (_, _), (_, lo)] = 256 * unat hi + unat lo"
| "crtc_position (x # xs) = crtc_position xs"
| "crtc_position [] = 0"

lemma tty_write64_term:
  assumes "console_ok s" and "con_slock s = 0" and "0 \<le> len" and "len \<le> int (length buf)"
  shows "\<exists>s' ps. tty_write64 buf len s = Inr (len, s') \<and> console_ok s' \<and> con_slock s' = 0 \<and> con_intr64 s' = con_intr64 s \<and>
     term_of s' = fold term_char (takeWhile (\<lambda>c. c \<noteq> 0) (take (nat len) buf)) (term_of s) \<and>
     crtc s' = crtc s @ ps \<and> map fst ps = [0x3D4, 0x3D5, 0x3D4, 0x3D5] \<and> map snd ps ! 0 = 14 \<and> map snd ps ! 2 = 15 \<and>
     crtc_position ps = 80 * line (term_of s') + column (term_of s')"
proof -
  let ?s = "s\<lparr>con_intr64 := False, con_slock := 1\<rparr>"
  have "console_ok ?s" "term_of ?s = term_of s" using assms(1) by (simp_all add: console_ok_def term_of_def)
  then obtain t where t: "tty_chars64 buf len ?s = Inr t" "console_ok t" "term_of t = fold term_char (takeWhile (\<lambda>c. c \<noteq> 0) (take (nat len) buf)) (term_of s)"
    "crtc t = crtc s" using tty_chars64_term [of ?s len buf] assms(3,4) by auto
  let ?l = "ucast (cursor_y t * VIDEO_MEMORY_COLUMNS + cursor_x t) :: u16"
  let ?ps = "[(0x3D4, 14), (0x3D5, ucast (drop_bit 8 ?l)), (0x3D4, 15), (0x3D5, ucast ?l)]"
  let ?u = "(tty_cursor64 t)\<lparr>con_slock := 0, con_intr64 := con_intr64 s\<rparr>"
  have "tty_write64 buf len s = Inr (len, ?u)" using assms(2) t(1) by (simp add: tty_write64_def Let_def)
  moreover have "console_ok ?u" "term_of ?u = term_of t" "crtc ?u = crtc s @ ?ps" using t(2,4) by (simp_all add: tty_cursor64_def console_ok_def term_of_def Let_def)
  moreover have "crtc_position ?ps = 80 * unat (cursor_y t) + unat (cursor_x t)" using split_bytes [of ?l] cursor_location [OF t(2)] by simp
  moreover have "80 * unat (cursor_y t) + unat (cursor_x t) = 80 * line (term_of t) + column (term_of t)" by (simp add: term_of_def)
  ultimately show ?thesis using t(3) by (intro exI [of _ ?u] exI [of _ ?ps]) simp
qed

lemma polltty_putchar_term:
  assumes "console_ok s" and "con_slock s = 0"
  shows "\<exists>s'. polltty_putchar c s = Inr s' \<and> console_ok s' \<and> con_slock s' = 0 \<and> con_intr64 s' = con_intr64 s \<and>
     term_of s' = (if c = 0 then term_of s else term_char c (term_of s))"
  using tty_write64_term [OF assms, of 1 "[c]"] by (auto simp: polltty_putchar_def)

lemma kwrite_term:
  "terminated cs \<Longrightarrow> console_ok s \<Longrightarrow> con_slock s = 0 \<Longrightarrow>
   \<exists>s'. kwrite cs s = Inr s' \<and> console_ok s' \<and> con_slock s' = 0 \<and> con_intr64 s' = con_intr64 s \<and> term_of s' = fold term_char (cstr cs) (term_of s)"
proof (induction cs arbitrary: s)
  case (Cons c cs)
  show ?case
  proof (cases "c = 0")
    case False
    obtain t where t: "polltty_putchar c s = Inr t" "console_ok t" "con_slock t = 0" "con_intr64 t = con_intr64 s" "term_of t = term_char c (term_of s)"
      using polltty_putchar_term [OF Cons.prems(2, 3), of c] False by auto
    then show ?thesis using Cons.IH [of t] Cons.prems(1) False by auto
  qed (use Cons.prems in auto)
qed simp

end
