(* ===== verification/Keyboard.thy ===== *)
theory Keyboard
  imports Kudos_Prelude
begin

text \<open>
  The PS/2 keyboard of the x86_64 build (\<^verbatim>\<open>src/kudos/drivers/x86_64/keyboard.c\<close>) and reading from the console (\<^verbatim>\<open>tty_read\<close> of
  \<^verbatim>\<open>src/kudos/drivers/x86_64/tty.c\<close>, \<^verbatim>\<open>polltty_getchar\<close>). \<open>kb_in\<close> are the values that the next reads of the ports give, in order; when there are
  none left a waiting loop is \<open>Blocked\<close>. A reader that polls for a key takes the keyboard interrupts \<open>irqs\<close> that come meanwhile, each the values its handler reads.
\<close>

section \<open>Data\<close>

record kb =
  kb_shift :: byte
  kb_alt :: byte
  kb_ctrl :: byte
  kb_numlock :: byte
  kb_capslock :: byte
  kb_scrolllock :: byte
  kb_code :: int
  kb_in :: "byte list"
  kb_out :: "byte list"

definition kb_map :: "byte list" where
  "kb_map =
    [0, 0, 49, 50, 51, 52, 53, 54, 55, 56, 57, 48, 45, 61, 8, 9, 113, 119, 101, 114, 116,
     121, 117, 105, 111, 112, 91, 93, 10, 0, 97, 115, 100, 102, 103, 104, 106, 107, 108, 59, 39, 96,
     0, 92, 122, 120, 99, 118, 98, 110, 109, 44, 46, 47, 0, 42, 0, 32, 0, 0, 0, 0, 0,
     0, 0, 0, 0, 0, 0, 0, 0, 55, 56, 57, 45, 52, 53, 54, 43, 49, 50, 51, 48, 46]"

definition kb_map_shift :: "byte list" where
  "kb_map_shift =
    [0, 0, 33, 64, 35, 36, 37, 94, 38, 42, 40, 41, 95, 43, 8, 9, 81, 87, 69, 82, 84,
     89, 85, 73, 79, 80, 123, 125, 10, 0, 65, 83, 68, 70, 71, 72, 74, 75, 76, 58, 34, 126,
     0, 124, 90, 88, 67, 86, 98, 78, 77, 60, 62, 63, 0, 42, 0, 32, 0, 0, 0, 0, 0,
     0, 0, 0, 0, 0, 0, 0, 0, 55, 56, 57, 45, 52, 53, 54, 43, 49, 50, 51, 48, 46]"

abbreviation (input) INVALID_SCANCODE :: int where "INVALID_SCANCODE \<equiv> 0xFFFF"
abbreviation (input) PS2_KB_STATUS_OUTPUT_BUSY :: byte where "PS2_KB_STATUS_OUTPUT_BUSY \<equiv> 1"
abbreviation (input) PS2_KB_STATUS_INPUT_BUSY :: byte where "PS2_KB_STATUS_INPUT_BUSY \<equiv> 2"
abbreviation (input) PS2_KB_INTERFACETEST :: byte where "PS2_KB_INTERFACETEST \<equiv> 0xAB"
abbreviation (input) PS2_KB_SETLEDS :: byte where "PS2_KB_SETLEDS \<equiv> 0xED"
abbreviation (input) PS2_KB_IDENTIFY :: byte where "PS2_KB_IDENTIFY \<equiv> 0xF2"
abbreviation (input) PS2_KB_ENABLESCAN :: byte where "PS2_KB_ENABLESCAN \<equiv> 0xF4"
abbreviation (input) PS2_KB_RESETWAIT :: byte where "PS2_KB_RESETWAIT \<equiv> 0xF5"
abbreviation (input) PS2_KB_ACK :: byte where "PS2_KB_ACK \<equiv> 0xFA"

section \<open>Ports\<close>

definition kb_inb :: "kb \<Rightarrow> (byte \<times> kb) res" where
  "kb_inb s = (case kb_in s of [] \<Rightarrow> Inl Blocked | x # xs \<Rightarrow> Inr (x, s\<lparr>kb_in := xs\<rparr>))"

definition kb_outb :: "byte \<Rightarrow> kb \<Rightarrow> kb" where
  "kb_outb v s = s\<lparr>kb_out := kb_out s @ [v]\<rparr>"

definition keyboard_getstatus :: "kb \<Rightarrow> (byte \<times> kb) res" where
  "keyboard_getstatus s = kb_inb s"

lemma kb_inb_shorter: "kb_inb s = Inr (x, t) \<Longrightarrow> length (kb_in t) < length (kb_in s)"
  by (auto simp: kb_inb_def split: list.splits)

definition keyboard_test :: "kb \<Rightarrow> (byte \<times> kb) res" where
  "keyboard_test s = rbind (keyboard_getstatus s) (\<lambda>(st, s).
     if st AND PS2_KB_STATUS_OUTPUT_BUSY \<noteq> 0 then rbind (kb_inb s) (\<lambda>(_, s). Inr (1, s)) else Inr (0, s))"

text \<open>The loops that wait until the encoder takes input, and until it has output.\<close>

function kb_wait_input :: "kb \<Rightarrow> kb res" where
  "kb_wait_input s = rbind (keyboard_getstatus s) (\<lambda>(st, s). if st AND PS2_KB_STATUS_INPUT_BUSY \<noteq> 0 then kb_wait_input s else Inr s)"
  by pat_completeness auto
termination
  by (relation "measure (\<lambda>s. length (kb_in s))") (auto simp: keyboard_getstatus_def dest: kb_inb_shorter)

function kb_wait_output :: "kb \<Rightarrow> kb res" where
  "kb_wait_output s = rbind (keyboard_getstatus s) (\<lambda>(st, s). if \<not> (st AND PS2_KB_STATUS_OUTPUT_BUSY \<noteq> 0) then kb_wait_output s else Inr s)"
  by pat_completeness auto
termination
  by (relation "measure (\<lambda>s. length (kb_in s))") (auto simp: keyboard_getstatus_def dest: kb_inb_shorter)

function kb_flush :: "kb \<Rightarrow> kb res" where
  "kb_flush s = rbind (keyboard_test s) (\<lambda>(r, s). if r \<noteq> 0 then kb_flush s else Inr s)"
  by pat_completeness auto
termination
  by (relation "measure (\<lambda>s. length (kb_in s))")
    (auto simp: keyboard_getstatus_def keyboard_test_def rbind_eq_Inr split: if_splits dest!: kb_inb_shorter)

declare kb_wait_input.simps [simp del] kb_wait_output.simps [simp del] kb_flush.simps [simp del]

definition keyboard_readdata :: "kb \<Rightarrow> (byte \<times> kb) res" where
  "keyboard_readdata s = rbind (kb_wait_output s) kb_inb"

definition keyboard_sendencoder :: "byte \<Rightarrow> kb \<Rightarrow> (byte \<times> kb) res" where
  "keyboard_sendencoder command s =
     rbind (kb_wait_input s) (\<lambda>s. rbind (kb_wait_output (kb_outb command s)) kb_inb)"

section \<open>Operations\<close>

definition led_data :: "kb \<Rightarrow> byte" where
  "led_data s =
     (let led = 0;
          led = (if kb_scrolllock s = 1 then led OR 1 else led AND 1);
          led = (if kb_numlock s = 1 then led OR 2 else led AND 2);
          led = (if kb_capslock s = 1 then led OR 4 else led AND 4) in led)"

definition keyboard_updateLED :: "kb \<Rightarrow> kb res" where
  "keyboard_updateLED s =
     rbind (keyboard_sendencoder PS2_KB_SETLEDS s) (\<lambda>(_, t). rbind (keyboard_sendencoder (led_data s) t) (\<lambda>(_, t). Inr t))"

text \<open>The handler.\<close>

definition keyboard_key_int :: "kb \<Rightarrow> kb res" where
  "keyboard_key_int s =
     rbind (keyboard_getstatus s) (\<lambda>(st, s).
     if \<not> (st AND PS2_KB_STATUS_OUTPUT_BUSY \<noteq> 0) then Inr s else
     rbind (keyboard_readdata s) (\<lambda>(kcode, s).
     if kcode = 0xE0 \<or> kcode = 0xE1 then Inr s else
     let xt = (kcode AND 0x80 \<noteq> 0);
         kcode = (if xt then kcode - 0x80 else kcode) in
     if kcode = 0x2a \<or> kcode = 0x36 then Inr (s\<lparr>kb_shift := (if kb_shift s = 0 then 1 else 0)\<rparr>)
     else if kcode = 0x1d then Inr (s\<lparr>kb_ctrl := (if kb_ctrl s = 0 then 1 else 0)\<rparr>)
     else if kcode = 0x3a then Inr (s\<lparr>kb_capslock := (if xt then 1 else 0)\<rparr>)
     else if kcode = 0x45 then Inr (s\<lparr>kb_numlock := (if xt then 1 else 0)\<rparr>)
     else if kcode = 0x46 then Inr (s\<lparr>kb_scrolllock := (if xt then 1 else 0)\<rparr>)
     else if xt then Inr s
     else rbind (lget (if kb_shift s = 0 then kb_map else kb_map_shift) (int (unat kcode))) (\<lambda>c. Inr (s\<lparr>kb_code := int (unat c)\<rparr>))))"

definition keyboard_discardkey :: "kb \<Rightarrow> kb" where
  "keyboard_discardkey s = s\<lparr>kb_code := INVALID_SCANCODE\<rparr>"

definition keyboard_getlastkey :: "kb \<Rightarrow> int" where
  "keyboard_getlastkey s = kb_code s"

text \<open>\<open>keyboard_init\<close>; the first component says whether the handler was installed.\<close>

definition keyboard_init :: "kb \<Rightarrow> (bool \<times> kb) res" where
  "keyboard_init s =
     rbind (kb_flush s) (\<lambda>s.
     rbind (keyboard_sendencoder PS2_KB_RESETWAIT s) (\<lambda>(r, s). if r \<noteq> PS2_KB_ACK then Inr (False, s) else
     rbind (keyboard_sendencoder PS2_KB_IDENTIFY s) (\<lambda>(r, s). if r \<noteq> PS2_KB_ACK then Inr (False, s) else
     rbind (keyboard_readdata s) (\<lambda>(r, s). if r \<noteq> PS2_KB_INTERFACETEST then Inr (False, s) else
     rbind (keyboard_readdata s) (\<lambda>(_, s).
     rbind (keyboard_sendencoder PS2_KB_ENABLESCAN s) (\<lambda>(r, s). if r \<noteq> PS2_KB_ACK then Inr (False, s) else
     rbind (keyboard_updateLED s) (\<lambda>s.
     Inr (True, s\<lparr>kb_code := INVALID_SCANCODE, kb_shift := 0, kb_ctrl := 0\<rparr>))))))))"

text \<open>\<open>keyboard_getkey\<close> with the interrupts that come while it polls; those it did not need are left.\<close>

fun keyboard_getkey :: "byte list list \<Rightarrow> kb \<Rightarrow> ((byte \<times> byte list list) \<times> kb) res" where
  "keyboard_getkey irqs s =
     (if keyboard_getlastkey s \<noteq> INVALID_SCANCODE then Inr ((word_of_int (keyboard_getlastkey s), irqs), keyboard_discardkey s)
      else case irqs of [] \<Rightarrow> Inl Blocked
           | i # is \<Rightarrow> rbind (keyboard_key_int (s\<lparr>kb_in := i\<rparr>)) (\<lambda>s. keyboard_getkey is s))"

declare keyboard_getkey.simps [simp del]

definition polltty_getchar :: "byte list list \<Rightarrow> kb \<Rightarrow> ((int \<times> byte list list) \<times> kb) res" where
  "polltty_getchar irqs s = rbind (keyboard_getkey irqs s) (\<lambda>((c, is), s). Inr ((sint c, is), s))"

text \<open>How much is left to read: pending interrupts and a key that is there.\<close>

definition keys_left :: "byte list list \<Rightarrow> kb \<Rightarrow> nat" where
  "keys_left irqs s = length irqs + (if kb_code s = INVALID_SCANCODE then 0 else 1)"

lemma keyboard_getkey_less: "keyboard_getkey irqs s = Inr ((c, is), t) \<Longrightarrow> keys_left is t < keys_left irqs s"
proof (induction irqs arbitrary: s)
  case Nil
  then show ?case by (subst (asm) keyboard_getkey.simps) (auto simp: keys_left_def keyboard_discardkey_def keyboard_getlastkey_def split: if_splits)
next
  case (Cons i irqs)
  show ?case
  proof (cases "kb_code s = INVALID_SCANCODE")
    case True
    then obtain u where "keyboard_getkey irqs u = Inr ((c, is), t)"
      using Cons.prems by (subst (asm) keyboard_getkey.simps) (auto simp: keyboard_getlastkey_def rbind_eq_Inr)
    then have "keys_left is t < keys_left irqs u" by (rule Cons.IH)
    then show ?thesis using True by (simp add: keys_left_def split: if_splits)
  next
    case False
    then show ?thesis using Cons.prems by (subst (asm) keyboard_getkey.simps) (auto simp: keys_left_def keyboard_discardkey_def keyboard_getlastkey_def)
  qed
qed

text \<open>\<open>tty_read\<close>: the bytes it stores; \<open>j\<close> is counted down to 0.\<close>

function tty_read64_loop :: "int \<Rightarrow> byte list list \<Rightarrow> kb \<Rightarrow> ((byte list \<times> byte list list) \<times> kb) res" where
  "tty_read64_loop j irqs s =
     (if j = 0 then Inr (([], irqs), s) else
      rbind (keyboard_getkey irqs s) (\<lambda>r. let key = fst (fst r) in
      if key = 10 then Inr (([], snd (fst r)), snd r) else
      rbind (tty_read64_loop (j - 1) (snd (fst r)) (snd r)) (\<lambda>((cs, is), t). Inr ((key # cs, is), t))))"
  by pat_completeness auto
termination
  by (relation "measure (\<lambda>(j, irqs, s). keys_left irqs s)") (auto dest: keyboard_getkey_less)

declare tty_read64_loop.simps [simp del]

definition tty_read64 :: "int \<Rightarrow> byte list list \<Rightarrow> kb \<Rightarrow> ((int \<times> byte list \<times> byte list list) \<times> kb) res" where
  "tty_read64 len irqs s = rbind (tty_read64_loop len irqs s) (\<lambda>((cs, is), s). Inr ((int (length cs), cs, is), s))"

text \<open>\<open>kread\<close> (\<^verbatim>\<open>src/kudos/lib/libc.c\<close>): a line into a buffer, with the key that ends the loop read and dropped.\<close>

function kread_loop :: "int \<Rightarrow> nat \<Rightarrow> byte list \<Rightarrow> byte list list \<Rightarrow> kb \<Rightarrow> ((byte list \<times> byte list list) \<times> kb) res" where
  "kread_loop len count buf irqs s =
     rbind (polltty_getchar irqs s) (\<lambda>r. let ch = fst (fst r) in
     if ch \<noteq> 10 \<and> int count < len - 1 then
       rbind (lset buf (int count) (word_of_int ch)) (\<lambda>buf. kread_loop len (count + 1) buf (snd (fst r)) (snd r))
     else rbind (lset buf (int count) 0) (\<lambda>buf. Inr ((buf, snd (fst r)), snd r)))"
  by pat_completeness auto
termination
  by (relation "measure (\<lambda>(len, count, buf, irqs, s). keys_left irqs s)")
    (auto simp: polltty_getchar_def rbind_eq_Inr dest: keyboard_getkey_less)

declare kread_loop.simps [simp del]

definition kread :: "byte list \<Rightarrow> int \<Rightarrow> byte list list \<Rightarrow> kb \<Rightarrow> ((byte list \<times> byte list list) \<times> kb) res" where
  "kread buf len irqs s = kread_loop len 0 buf irqs s"

section \<open>What is typed\<close>

text \<open>
  A key goes down or up; its scan code is that of the key, with the top bit set when it goes up. \<open>next_key\<close> is the next character the
  user types and what follows it, when the shift key is held (\<open>sh\<close>) or not.
\<close>

datatype key_event = Press nat | Release nat

fun scancode :: "key_event \<Rightarrow> byte" where
  "scancode (Press k) = word_of_nat k"
| "scancode (Release k) = word_of_nat k OR 0x80"

definition irq :: "key_event \<Rightarrow> byte list" where
  "irq e = [1, 1, scancode e]"

abbreviation (input) shift_key :: "nat \<Rightarrow> bool" where "shift_key k \<equiv> k = 0x2a \<or> k = 0x36"
abbreviation (input) other_modifier :: "nat \<Rightarrow> bool" where "other_modifier k \<equiv> k = 0x1d \<or> k = 0x3a \<or> k = 0x45 \<or> k = 0x46"

fun next_key :: "bool \<Rightarrow> key_event list \<Rightarrow> (byte \<times> bool \<times> key_event list) option" where
  "next_key sh [] = None"
| "next_key sh (Press k # es) =
     (if shift_key k then next_key True es
      else if other_modifier k then next_key sh es
      else Some ((if sh then kb_map_shift else kb_map) ! k, sh, es))"
| "next_key sh (Release k # es) = next_key (if shift_key k then False else sh) es"

lemma next_key_shorter: "next_key sh es = Some (c, sh', es') \<Longrightarrow> length es' < length es"
  by (induction sh es rule: next_key.induct) (auto split: if_splits)

function typed :: "bool \<Rightarrow> key_event list \<Rightarrow> byte list" where
  "typed sh es = (case next_key sh es of None \<Rightarrow> [] | Some r \<Rightarrow> fst r # typed (fst (snd r)) (snd (snd r)))"
  by pat_completeness auto
termination
  by (relation "measure (\<lambda>(sh, es). length es)") (auto dest: next_key_shorter)

declare typed.simps [simp del]

text \<open>Every key is one of the table's, and a shift key goes down only when none is held and up only when one is.\<close>

fun well_typed :: "bool \<Rightarrow> key_event list \<Rightarrow> bool" where
  "well_typed sh [] \<longleftrightarrow> True"
| "well_typed sh (Press k # es) \<longleftrightarrow> k < 84 \<and> (if shift_key k then \<not> sh \<and> well_typed True es else well_typed sh es)"
| "well_typed sh (Release k # es) \<longleftrightarrow> k < 84 \<and> (if shift_key k then sh \<and> well_typed False es else well_typed sh es)"

lemma well_typed_next: "well_typed sh es \<Longrightarrow> next_key sh es = Some (c, sh', es') \<Longrightarrow> well_typed sh' es'"
  by (induction sh es rule: next_key.induct) (auto split: if_splits)

lemma length_maps [simp]: "length kb_map = 84" "length kb_map_shift = 84"
  by (simp_all add: kb_map_def kb_map_shift_def)

lemma readdata_ready: "kb_in s = [1, x] \<Longrightarrow> keyboard_readdata s = Inr (x, s\<lparr>kb_in := []\<rparr>)"
  by (simp add: keyboard_readdata_def kb_wait_output.simps keyboard_getstatus_def kb_inb_def)

text \<open>The handler on one event.\<close>

definition key_effect :: "key_event \<Rightarrow> kb \<Rightarrow> kb" where
  "key_effect e s = (case e of
     Press k \<Rightarrow> if shift_key k then s\<lparr>kb_shift := (if kb_shift s = 0 then 1 else 0)\<rparr>
       else if k = 0x1d then s\<lparr>kb_ctrl := (if kb_ctrl s = 0 then 1 else 0)\<rparr>
       else if k = 0x3a then s\<lparr>kb_capslock := 0\<rparr> else if k = 0x45 then s\<lparr>kb_numlock := 0\<rparr> else if k = 0x46 then s\<lparr>kb_scrolllock := 0\<rparr>
       else s\<lparr>kb_code := int (unat ((if kb_shift s = 0 then kb_map else kb_map_shift) ! k))\<rparr>
   | Release k \<Rightarrow> if shift_key k then s\<lparr>kb_shift := (if kb_shift s = 0 then 1 else 0)\<rparr>
       else if k = 0x1d then s\<lparr>kb_ctrl := (if kb_ctrl s = 0 then 1 else 0)\<rparr>
       else if k = 0x3a then s\<lparr>kb_capslock := 1\<rparr> else if k = 0x45 then s\<lparr>kb_numlock := 1\<rparr> else if k = 0x46 then s\<lparr>kb_scrolllock := 1\<rparr> else s)"

definition scan_facts :: "nat \<Rightarrow> bool" where
  "scan_facts k \<longleftrightarrow> (let w = word_of_nat k :: byte in w AND 0x80 = 0 \<and> (w OR 0x80) AND 0x80 \<noteq> 0 \<and> (w OR 0x80) - 0x80 = w \<and>
     w \<noteq> 0xE0 \<and> w \<noteq> 0xE1 \<and> w OR 0x80 \<noteq> 0xE0 \<and> w OR 0x80 \<noteq> 0xE1 \<and> unat w = k)"

lemma scan_facts_all: "k < 84 \<Longrightarrow> scan_facts k"
proof -
  have "list_all scan_facts [0..<84]" by code_simp
  then show "k < 84 \<Longrightarrow> scan_facts k" by (simp add: list_all_iff del: upt_rec_numeral)
qed

lemma scan_equal: "k < 84 \<Longrightarrow> m < 256 \<Longrightarrow> (word_of_nat k :: byte) = word_of_nat m \<longleftrightarrow> k = m"
  using scan_facts_all [of k] by (auto simp: scan_facts_def Let_def word_unat_eq_iff unat_of_nat take_bit_eq_mod)

lemma scan_codes:
  assumes "k < 84"
  shows "(word_of_nat k :: byte) = 0x2a \<longleftrightarrow> k = 0x2a" "(word_of_nat k :: byte) = 0x36 \<longleftrightarrow> k = 0x36" "(word_of_nat k :: byte) = 0x1d \<longleftrightarrow> k = 0x1d"
    "(word_of_nat k :: byte) = 0x3a \<longleftrightarrow> k = 0x3a" "(word_of_nat k :: byte) = 0x45 \<longleftrightarrow> k = 0x45" "(word_of_nat k :: byte) = 0x46 \<longleftrightarrow> k = 0x46"
  using scan_equal [OF assms, of "0x2a"] scan_equal [OF assms, of "0x36"] scan_equal [OF assms, of "0x1d"] scan_equal [OF assms, of "0x3a"]
    scan_equal [OF assms, of "0x45"] scan_equal [OF assms, of "0x46"] by simp_all

fun key_of :: "key_event \<Rightarrow> nat" where
  "key_of (Press k) = k"
| "key_of (Release k) = k"

lemma keyboard_key_int_event:
  assumes "key_of e < 84"
  shows "keyboard_key_int (s\<lparr>kb_in := irq e\<rparr>) = Inr ((key_effect e s)\<lparr>kb_in := []\<rparr>)"
proof (cases e)
  case (Press k)
  then have k: "k < 84" using assms by simp
  have f: "(word_of_nat k :: byte) AND 0x80 = 0" "(word_of_nat k :: byte) \<noteq> 0xE0" "(word_of_nat k :: byte) \<noteq> 0xE1" "unat (word_of_nat k :: byte) = k"
    using scan_facts_all [OF k] by (simp_all add: scan_facts_def Let_def)
  show ?thesis using Press k f scan_codes [OF k]
    by (simp add: keyboard_key_int_def irq_def keyboard_getstatus_def kb_inb_def readdata_ready key_effect_def lget_def Let_def)
next
  case (Release k)
  then have k: "k < 84" using assms by simp
  have f: "((word_of_nat k :: byte) OR 0x80) AND 0x80 \<noteq> 0" "((word_of_nat k :: byte) OR 0x80) - 0x80 = word_of_nat k"
    "(word_of_nat k :: byte) OR 0x80 \<noteq> 0xE0" "(word_of_nat k :: byte) OR 0x80 \<noteq> 0xE1"
    using scan_facts_all [OF k] by (simp_all add: scan_facts_def Let_def)
  show ?thesis using Release f scan_codes [OF k]
    by (simp add: keyboard_key_int_def irq_def keyboard_getstatus_def kb_inb_def readdata_ready key_effect_def Let_def)
qed

text \<open>The shift flag is right as long as the shift keys alternate.\<close>

definition shift_is :: "bool \<Rightarrow> kb \<Rightarrow> bool" where
  "shift_is sh s \<longleftrightarrow> kb_shift s = (if sh then 1 else 0)"

lemma byte_valid: "int (unat (c :: byte)) \<noteq> INVALID_SCANCODE"
proof -
  have "uint c < 256" using unsigned_less [of c, where ?'a = int] by simp
  then show ?thesis by simp
qed

lemma keyboard_getkey_typed:
  assumes "well_typed sh es" and "shift_is sh s" and "kb_code s = INVALID_SCANCODE"
  shows "(case next_key sh es of
     None \<Rightarrow> keyboard_getkey (map irq es) s = Inl Blocked
   | Some r \<Rightarrow> \<exists>t. keyboard_getkey (map irq es) s = Inr ((fst r, map irq (snd (snd r))), t) \<and> shift_is (fst (snd r)) t \<and> kb_code t = INVALID_SCANCODE)"
  using assms
proof (induction sh es arbitrary: s rule: next_key.induct)
  case (1 sh)
  then show ?case by (simp add: keyboard_getkey.simps keyboard_getlastkey_def)
next
  case (2 sh k es)
  let ?t = "(key_effect (Press k) s)\<lparr>kb_in := []\<rparr>"
  have k: "k < 84" using 2(3) by (simp split: if_splits)
  have run: "keyboard_getkey (map irq (Press k # es)) s = keyboard_getkey (map irq es) ?t"
    using keyboard_key_int_event [of "Press k" s] k 2(5) by (simp add: keyboard_getkey.simps [of "irq (Press k) # map irq es"] keyboard_getlastkey_def)
  consider "shift_key k" | "\<not> shift_key k" "other_modifier k" | "\<not> shift_key k" "\<not> other_modifier k" by blast
  then show ?case
  proof cases
    case 1
    then have "well_typed True es" "shift_is True ?t" "kb_code ?t = INVALID_SCANCODE"
      using 2(3-5) by (auto simp: key_effect_def shift_is_def)
    moreover have "next_key sh (Press k # es) = next_key True es" using 1 by simp
    ultimately show ?thesis unfolding run using 2(1) [OF 1, of ?t] by simp
  next
    case case_2: 2
    then have "well_typed sh es" "shift_is sh ?t" "kb_code ?t = INVALID_SCANCODE"
      using 2(3-5) by (auto simp: key_effect_def shift_is_def)
    moreover have "next_key sh (Press k # es) = next_key sh es" using case_2 by simp
    ultimately show ?thesis unfolding run using 2(2) [OF case_2, of ?t] by simp
  next
    case 3
    let ?c = "(if sh then kb_map_shift else kb_map) ! k"
    have t: "?t = s\<lparr>kb_code := int (unat ?c), kb_in := []\<rparr>" using 3 2(4) by (auto simp: key_effect_def shift_is_def)
    have "int (unat ?c) \<noteq> INVALID_SCANCODE" by (rule byte_valid)
    then show ?thesis using 3 run t 2(4)
      by (simp add: keyboard_getkey.simps [of "map irq es"] keyboard_getlastkey_def keyboard_discardkey_def shift_is_def)
  qed
next
  case (3 sh k es)
  let ?t = "(key_effect (Release k) s)\<lparr>kb_in := []\<rparr>"
  have k: "k < 84" using 3(2) by (simp split: if_splits)
  have run: "keyboard_getkey (map irq (Release k # es)) s = keyboard_getkey (map irq es) ?t"
    using keyboard_key_int_event [of "Release k" s] k 3(4) by (simp add: keyboard_getkey.simps [of "irq (Release k) # map irq es"] keyboard_getlastkey_def)
  have "well_typed (if shift_key k then False else sh) es" "shift_is (if shift_key k then False else sh) ?t" "kb_code ?t = INVALID_SCANCODE"
    using 3(2-4) by (auto simp: key_effect_def shift_is_def)
  then show ?case unfolding run using 3(1) [of ?t] by simp
qed

text \<open>Reading a line: the characters typed up to Enter, at most \<open>n\<close>.\<close>

lemma tty_read64_loop_typed:
  assumes "well_typed sh es" and "shift_is sh s" and "kb_code s = INVALID_SCANCODE" and "n \<le> length (typed sh es) \<or> 10 \<in> set (typed sh es)"
  shows "\<exists>is t. tty_read64_loop (int n) (map irq es) s = Inr ((takeWhile (\<lambda>c. c \<noteq> 10) (take n (typed sh es)), is), t)"
  using assms
proof (induction n arbitrary: sh es s)
  case 0
  then show ?case by (subst tty_read64_loop.simps) simp
next
  case (Suc n)
  obtain c sh' es' where r: "next_key sh es = Some (c, sh', es')" using Suc.prems(4) by (subst (asm) (1 2) typed.simps) (auto split: option.splits)
  then have ty: "typed sh es = c # typed sh' es'" by (subst typed.simps) simp
  obtain t where t: "keyboard_getkey (map irq es) s = Inr ((c, map irq es'), t)" "shift_is sh' t" "kb_code t = INVALID_SCANCODE"
    using keyboard_getkey_typed [OF Suc.prems(1-3)] r by auto
  show ?case
  proof (cases "c = 10")
    case True
    then show ?thesis using t(1) ty by (subst tty_read64_loop.simps) (simp add: Let_def)
  next
    case False
    then have "n \<le> length (typed sh' es') \<or> 10 \<in> set (typed sh' es')" using Suc.prems(4) ty by auto
    then obtain "is" u where "tty_read64_loop (int n) (map irq es') t = Inr ((takeWhile (\<lambda>c. c \<noteq> 10) (take n (typed sh' es')), is), u)"
      using Suc.IH [OF well_typed_next [OF Suc.prems(1) r] t(2,3)] by blast
    then show ?thesis using t(1) ty False by (subst tty_read64_loop.simps) (simp add: Let_def)
  qed
qed

text \<open>
  \<open>kread\<close> leaves the line in the buffer, ended by a zero byte. When the buffer is full it takes one more key.
\<close>

lemma getchar_typed:
  assumes "well_typed sh es" and "shift_is sh s" and "kb_code s = INVALID_SCANCODE" and "next_key sh es = Some (c, sh', es')"
  obtains t where "polltty_getchar (map irq es) s = Inr ((sint c, map irq es'), t)" "shift_is sh' t" "kb_code t = INVALID_SCANCODE"
  using keyboard_getkey_typed [OF assms(1-3)] assms(4) by (auto simp: polltty_getchar_def)

lemma sint_newline: "sint (c :: byte) = 10 \<longleftrightarrow> c = 10"
proof
  assume "sint c = 10"
  then have "(of_int (sint c) :: byte) = 10" by simp
  then show "c = 10" by simp
qed simp

lemma typed_next:
  assumes "typed sh es \<noteq> []"
  obtains c sh' es' where "next_key sh es = Some (c, sh', es')" "typed sh es = c # typed sh' es'"
  using assms typed.simps [of sh es] by (cases "next_key sh es") auto

lemma kread_loop_typed:
  assumes "well_typed sh es" and "shift_is sh s" and "kb_code s = INVALID_SCANCODE" and "n < length (typed sh es) \<or> 10 \<in> set (typed sh es)"
    and "length pre + n < length buf" "take (length pre) buf = pre"
  shows "\<exists>is t. kread_loop (int (length pre + n) + 1) (length pre) buf (map irq es) s =
    (let ln = pre @ takeWhile (\<lambda>c. c \<noteq> 10) (take n (typed sh es)) in Inr ((ln @ 0 # drop (Suc (length ln)) buf, is), t))"
  using assms
proof (induction n arbitrary: sh es s pre buf)
  case 0
  have "typed sh es \<noteq> []" using "0.prems"(4) by auto
  then obtain c sh' es' where "next_key sh es = Some (c, sh', es')" by (rule typed_next)
  then obtain t where "polltty_getchar (map irq es) s = Inr ((sint c, map irq es'), t)"
    by (rule getchar_typed [OF "0.prems"(1-3)])
  then show ?case
    using "0.prems"(5, 6) by (subst kread_loop.simps) (simp add: Let_def upd_conv_take_nth_drop)
next
  case (Suc n)
  have "typed sh es \<noteq> []" using Suc.prems(4) by auto
  then obtain c sh' es' where r: "next_key sh es = Some (c, sh', es')" and ty: "typed sh es = c # typed sh' es'" by (rule typed_next)
  obtain t where t: "polltty_getchar (map irq es) s = Inr ((sint c, map irq es'), t)" "shift_is sh' t" "kb_code t = INVALID_SCANCODE"
    by (rule getchar_typed [OF Suc.prems(1-3) r])
  show ?case
  proof (cases "c = 10")
    case True
    then show ?thesis
      using Suc.prems(5, 6) t(1) ty by (subst kread_loop.simps) (simp add: Let_def sint_newline upd_conv_take_nth_drop)
  next
    case False
    let ?buf = "buf[length pre := c]"
    have buf: "take (length (pre @ [c])) ?buf = pre @ [c]" "length (pre @ [c]) + n < length ?buf"
      using Suc.prems(5, 6) by (simp_all add: take_Suc_conv_app_nth)
    have more: "n < length (typed sh' es') \<or> 10 \<in> set (typed sh' es')"
      using Suc.prems(4) ty False by auto
    have step: "kread_loop (int (length pre + Suc n) + 1) (length pre) buf (map irq es) s =
        kread_loop (int (length (pre @ [c]) + n) + 1) (length (pre @ [c])) ?buf (map irq es') t"
      using Suc.prems(5) t(1) False by (subst kread_loop.simps) (simp add: Let_def sint_newline add_ac)
    show ?thesis
      unfolding step using Suc.IH [OF well_typed_next [OF Suc.prems(1) r] t(2, 3) more buf(2, 1)] ty False by (simp add: Let_def)
  qed
qed

lemma kread_typed:
  assumes "well_typed sh es" and "shift_is sh s" and "kb_code s = INVALID_SCANCODE" and "n < length (typed sh es) \<or> 10 \<in> set (typed sh es)"
    and "n < length buf"
  shows "\<exists>is t. kread buf (int n + 1) (map irq es) s =
    (let ln = takeWhile (\<lambda>c. c \<noteq> 10) (take n (typed sh es)) in Inr ((ln @ 0 # drop (Suc (length ln)) buf, is), t))"
  using kread_loop_typed [OF assms(1-4), of "[]" buf] assms(5) by (simp add: kread_def Let_def)

text \<open>A second press of a shift key before it is released, as key repeat sends it, switches the flag off again.\<close>

lemma shift_repeat_off:
  "kb_shift s = 0 \<Longrightarrow> rbind (keyboard_key_int (s\<lparr>kb_in := irq (Press 0x2a)\<rparr>)) (\<lambda>s. keyboard_key_int (s\<lparr>kb_in := irq (Press 0x2a)\<rparr>)) = Inr (s\<lparr>kb_in := []\<rparr>)"
  by (simp add: keyboard_key_int_event) (simp add: key_effect_def)

text \<open>A key beyond the tables, such as F11, reads outside them.\<close>

lemma function_key_outside: "keyboard_key_int (s\<lparr>kb_in := [1, 1, 0x57]\<rparr>) = Inl OutOfBounds"
  by (simp add: keyboard_key_int_def keyboard_getstatus_def kb_inb_def readdata_ready lget_def Let_def)

text \<open>While caps lock is off every light is off.\<close>

lemma led_data_off: "kb_capslock s \<noteq> 1 \<Longrightarrow> led_data s = 0"
  by (simp add: led_data_def Let_def)

end
