(* ===== verification/Console_Properties.thy ===== *)
theory Console_Properties
  imports Console Keyboard Xprintf
begin

text \<open>
  What the console of the x86_64 build promises: the screen behaves like a terminal of 25 lines, formatted output of the
  kernel appears on it, and a line that is typed is the line that is read.
\<close>

text \<open>The kernel's messages go through \<open>polltty_putchar\<close> one character at a time.\<close>

fun polltty_puts :: "byte list \<Rightarrow> console \<Rightarrow> console res" where
  "polltty_puts [] s = Inr s"
| "polltty_puts (c # cs) s = rbind (polltty_putchar c s) (polltty_puts cs)"

lemma polltty_puts_term:
  "console_ok s \<Longrightarrow> con_slock s = 0 \<Longrightarrow> \<exists>s'. polltty_puts cs s = Inr s' \<and> console_ok s' \<and> con_slock s' = 0 \<and> con_intr64 s' = con_intr64 s \<and>
     term_of s' = fold term_char (filter (\<lambda>c. c \<noteq> 0) cs) (term_of s)"
proof (induction cs arbitrary: s)
  case (Cons c cs)
  obtain t where "polltty_putchar c s = Inr t" "console_ok t" "con_slock t = 0" "con_intr64 t = con_intr64 s" "term_of t = (if c = 0 then term_of s else term_char c (term_of s))"
    using polltty_putchar_term [OF Cons.prems] by blast
  then show ?case using Cons.IH [of t] by auto
qed simp

definition ex_screen :: console where
  "ex_screen = tty_init64 \<lparr>cursor_x = 0, cursor_y = 0, textcolor = 0, con_slock = 0, video = replicate 2000 blank, crtc = [], con_intr64 = True\<rparr>"

lemma ex_screen_ok: "console_ok ex_screen" "con_slock ex_screen = 0"
  by (simp_all add: ex_screen_def console_ok_def tty_init64_def)

definition ex_line :: sink where
  "ex_line = \<lparr>buffer = [], tty = [], kprintf_slock = 0, con_intr = True\<rparr>"

text \<open>
  C20. Writing to the screen of the x86_64 build is writing to a terminal of 25 rows and 80 columns: \<open>tty_write\<close> never touches memory outside
  the screen, returns the length, and afterwards the rows and the cursor are those of the terminal after it was given the bytes one by one, up to the first zero
  byte (a line that is full wraps, a line feed below the last row scrolls, a backspace removes the character before the cursor but does not
  leave the row); the cursor is on the screen and the cursor registers hold its position; lock and interrupt flag are as before.
\<close>

theorem console_refines:
  assumes "length (video s) = 2000" and "unat (cursor_x s) < 80" and "unat (cursor_y s) < 25" and "con_slock s = 0" and "0 \<le> len" and "len \<le> int (length buf)"
  shows "\<exists>s' ps. tty_write64 buf len s = Inr (len, s') \<and>
     rows (term_of s') = rows (fold term_char (takeWhile (\<lambda>c. c \<noteq> 0) (take (nat len) buf)) (term_of s)) \<and>
     unat (cursor_x s') = column (fold term_char (takeWhile (\<lambda>c. c \<noteq> 0) (take (nat len) buf)) (term_of s)) \<and>
     unat (cursor_y s') = line (fold term_char (takeWhile (\<lambda>c. c \<noteq> 0) (take (nat len) buf)) (term_of s)) \<and>
     length (video s') = 2000 \<and> unat (cursor_x s') < 80 \<and> unat (cursor_y s') < 25 \<and> con_slock s' = 0 \<and> con_intr64 s' = con_intr64 s \<and>
     crtc s' = crtc s @ ps \<and> crtc_position ps = 80 * unat (cursor_y s') + unat (cursor_x s')"
proof -
  have "console_ok s" using assms(1-3) by (simp add: console_ok_def)
  then obtain s' ps where s': "tty_write64 buf len s = Inr (len, s')" "console_ok s'" "con_slock s' = 0" "con_intr64 s' = con_intr64 s"
     "term_of s' = fold term_char (takeWhile (\<lambda>c. c \<noteq> 0) (take (nat len) buf)) (term_of s)" "crtc s' = crtc s @ ps"
     "crtc_position ps = 80 * line (term_of s') + column (term_of s')"
    using tty_write64_term [OF _ assms(4-6)] by blast
  have "column (term_of s') = unat (cursor_x s')" "line (term_of s') = unat (cursor_y s')" by (simp_all add: term_of_def)
  then show ?thesis using s' by (intro exI [of _ s'] exI [of _ ps]) (simp add: console_ok_def)
qed

theorem console_refines_witness:
  "\<exists>s'. tty_write64 [72, 105, 10, 33] 4 ex_screen = Inr (4, s') \<and> unat (cursor_x s') = 1 \<and> unat (cursor_y s') = 1"
proof -
  have ok: "length (video ex_screen) = 2000" "unat (cursor_x ex_screen) < 80" "unat (cursor_y ex_screen) < 25" "con_slock ex_screen = 0"
    using ex_screen_ok by (simp_all add: console_ok_def)
  have "column (fold term_char (takeWhile (\<lambda>c. c \<noteq> 0) (take (nat 4) [72, 105, 10, 33])) (term_of ex_screen)) = 1"
    "line (fold term_char (takeWhile (\<lambda>c. c \<noteq> 0) (take (nat 4) [72, 105, 10, 33])) (term_of ex_screen)) = 1"
    by (simp_all add: term_char_def term_newline_def term_of_def ex_screen_def tty_init64_def Let_def)
  then show ?thesis using console_refines [OF ok, of 4 "[72, 105, 10, 33]"] by auto
qed

text \<open>
  C21. The kernel's formatted output appears on the screen: \<open>kprintf\<close> hands the text of its format to the polling terminal character by character, and the
  screen is then that of a terminal which was given this text (zero bytes left out), from whatever position the cursor had.
\<close>

theorem kprintf_on_screen:
  assumes "printed kernel_cfg fmt ap = Some t" and "length t < 0x7fffffff" and "kprintf_slock st = 0" and "console_ok s" and "con_slock s = 0"
  shows "\<exists>cs s'. kprintf fmt ap st = Inr (int (length t), st\<lparr>tty := tty st @ cs\<rparr>) \<and> polltty_puts cs s = Inr s' \<and>
     term_of s' = fold term_char (filter (\<lambda>c. c \<noteq> 0) t) (term_of s) \<and> console_ok s'"
proof -
  let ?cs = "filter (\<lambda>c. c \<noteq> 0) t"
  have "kprintf fmt ap st = Inr (int (length t), st\<lparr>tty := tty st @ ?cs\<rparr>)"
    using vxnprintf_tty [OF cfg_ok_kernel assms(1,2)] assms(3) by (cases st) (simp add: kprintf_def Let_def)
  moreover obtain s' where "polltty_puts ?cs s = Inr s'" "console_ok s'" "term_of s' = fold term_char ?cs (term_of s)"
    using polltty_puts_term [OF assms(4,5), of ?cs] by auto
  ultimately show ?thesis by blast
qed

theorem kprintf_on_screen_witness:
  "\<exists>cs s'. kprintf [37, 100, 10, 0] [Va_word 42] ex_line = Inr (3, ex_line\<lparr>tty := tty ex_line @ cs\<rparr>) \<and> polltty_puts cs ex_screen = Inr s' \<and> line (term_of s') = 1"
proof -
  have p: "printed kernel_cfg [37, 100, 10, 0] [Va_word 42] = Some [52, 50, 10]" by code_simp
  have l: "length [52, 50, 10 :: byte] < 0x7fffffff" "kprintf_slock ex_line = 0" by (simp_all add: ex_line_def)
  have "line (fold term_char (filter (\<lambda>c. c \<noteq> 0) [52, 50, 10]) (term_of ex_screen)) = 1"
    by (simp add: term_char_def term_newline_def term_of_def ex_screen_def tty_init64_def Let_def)
  then show ?thesis using kprintf_on_screen [OF p l ex_screen_ok] by auto
qed





end
