(* ===== verification/Board.thy ===== *)
theory Board
  imports Thread Vm
begin

text \<open>
  What the mips32 build has between the hardware and its drivers: the table of devices and its drivers
  (\<^verbatim>\<open>src/kudos/drivers/mips32/device.c\<close>, \<^verbatim>\<open>drivers.c\<close>, \<^verbatim>\<open>metadev.c\<close>; the lookup and the registration of \<^verbatim>\<open>src/kudos/drivers/x86_64/device.c\<close> too),
  the table of interrupt handlers and the interrupt handler (\<^verbatim>\<open>src/kudos/kernel/mips32/interrupt.c\<close>), and the loading of the TLB
  (\<^verbatim>\<open>src/kudos/vm/mips32/tlb.c\<close>). Words read from the devices are a function \<open>io\<close> of the address, words written are logged.
\<close>

section \<open>State\<close>

abbreviation (input) CONFIG_MAX_DEVICES :: nat where "CONFIG_MAX_DEVICES \<equiv> 128"

text \<open>Of a descriptor the fields that are read. A device has its descriptor in place of the pointer to it; other pointers are addresses.\<close>

record io_descriptor =
  desc_type :: u32
  io_area_base :: u32
  desc_irq :: u32

record device =
  real_device :: u32
  generic_device :: u32
  descriptor :: io_descriptor
  io_address :: u32
  dev_type :: u32

text \<open>Handlers are function pointers: that of the CPU status devices, or that of another driver.\<close>

datatype int_handler = Cpustatus_interrupt_handle | Driver_handler nat

record interrupt_entry =
  ie_device :: "device option"
  ie_irq :: u32
  ie_handler :: "int_handler option"

text \<open>
  \<open>vectors\<close> is the memory the interrupt vectors are in, \<open>cause_reg\<close> the Cause register, \<open>tlb\<close> and \<open>tlb_asid\<close> the TLB and the
  address space in the EntryHi register of the CPU that runs; \<open>cpu_slocks\<close> the locks of the CPU status devices by address.
\<close>

record board =
  device_table :: "device option list"
  number_of_devices :: int
  system_rtc :: device
  system_meminfo :: device
  system_shutdown :: device
  rtc_init_done :: bool
  meminfo_init_done :: bool
  shutdown_init_done :: bool
  interrupt_handlers :: "interrupt_entry list"
  interrupt_stacks :: "u32 list"
  vectors :: "u32 \<Rightarrow> u32"
  cpu_slocks :: "u32 \<Rightarrow> int"
  statics :: physmem
  io_writes :: "(u32 \<times> u32) list"
  cause_reg :: u32
  tlb :: "tlb_entry list"
  tlb_asid :: "8 word"

text \<open>The kernel's state, the board, and the state of the other drivers.\<close>

record 'w mips =
  kern32 :: kstate
  board32 :: board
  drivers32 :: 'w

section \<open>Interrupt handlers\<close>

definition no_entry :: interrupt_entry where
  "no_entry = \<lparr>ie_device = None, ie_irq = 0, ie_handler = None\<rparr>"

fun interrupt_stacks_loop :: "nat \<Rightarrow> nat \<Rightarrow> board \<Rightarrow> board res" where
  "interrupt_stacks_loop 0 i b = Inr b"
| "interrupt_stacks_loop (Suc n) i b =
     rbind (stalloc 4096 (statics b)) (\<lambda>(ret, st).
     if ret = 0 then Inl Panic
     else rbind (lset (interrupt_stacks b) (int i) (ret + 4096 - 4)) (\<lambda>stacks.
          interrupt_stacks_loop n (Suc i) (b\<lparr>statics := st, interrupt_stacks := stacks\<rparr>)))"

definition copy_vector :: "u32 \<Rightarrow> u32 list \<Rightarrow> (u32 \<Rightarrow> u32) \<Rightarrow> u32 \<Rightarrow> u32" where
  "copy_vector area code mem = fold (\<lambda>i m. m(area + 4 * of_nat i := code ! i)) [0..<8] mem"

text \<open>\<open>code\<close> is the vector code, eight words.\<close>

definition interrupt_init :: "int \<Rightarrow> u32 list \<Rightarrow> board \<Rightarrow> board res" where
  "interrupt_init num_cpus code b =
     (if num_cpus < 1 \<or> num_cpus > CONFIG_MAX_CPUS then Inl Panic
      else rbind (interrupt_stacks_loop (nat num_cpus) 0 b) (\<lambda>b.
           Inr (b\<lparr>vectors := copy_vector 0x80000200 code (copy_vector 0x80000180 code (copy_vector 0x80000000 code (vectors b))),
                  interrupt_handlers := replicate CONFIG_MAX_DEVICES no_entry\<rparr>)))"

text \<open>The loop of \<open>interrupt_register\<close> reads the entry before it compares the index, so a full table is read past its end.\<close>

function free_handler :: "interrupt_entry list \<Rightarrow> nat \<Rightarrow> nat res" where
  "free_handler hs i =
     rbind (lget hs (int i)) (\<lambda>h.
     if ie_device h \<noteq> None \<and> i < CONFIG_MAX_DEVICES then free_handler hs (i + 1) else Inr i)"
  by pat_completeness auto
termination
  by (relation "measure (\<lambda>(hs, i). CONFIG_MAX_DEVICES - i)") auto

declare free_handler.simps [simp del]

definition interrupt_register :: "u32 \<Rightarrow> int_handler \<Rightarrow> device \<Rightarrow> board \<Rightarrow> board res" where
  "interrupt_register irq handler device b =
     (if irq AND NOT 0xff00 \<noteq> 0 then Inl Panic
      else rbind (free_handler (interrupt_handlers b) 0) (\<lambda>i.
           if i \<ge> CONFIG_MAX_DEVICES then Inl Panic
           else rbind (lset (interrupt_handlers b) (int i) \<lparr>ie_device = Some device, ie_irq = irq, ie_handler = Some handler\<rparr>) (\<lambda>hs.
                Inr (b\<lparr>interrupt_handlers := hs\<rparr>))))"

section \<open>Devices\<close>

definition fill_device :: "io_descriptor \<Rightarrow> device" where
  "fill_device desc = \<lparr>real_device = 0, generic_device = 0, descriptor = desc, io_address = io_area_base desc, dev_type = desc_type desc\<rparr>"

text \<open>\<open>fill_device_t\<close> without a structure to fill allocates one; \<open>device_t\<close> has five words.\<close>

definition fill_device_t :: "io_descriptor \<Rightarrow> board \<Rightarrow> (device \<times> board) res" where
  "fill_device_t desc b =
     rbind (stalloc 20 (statics b)) (\<lambda>(a, st).
     if a = 0 then Inl Panic else Inr (fill_device desc, b\<lparr>statics := st\<rparr>))"

definition rtc_init :: "io_descriptor \<Rightarrow> board \<Rightarrow> (device option \<times> board) res" where
  "rtc_init desc b =
     (if rtc_init_done b then Inl Panic
      else Inr (Some (fill_device desc), b\<lparr>rtc_init_done := True, system_rtc := fill_device desc\<rparr>))"

definition rtc_get_msec :: "(u32 \<Rightarrow> u32) \<Rightarrow> board \<Rightarrow> u32" where
  "rtc_get_msec io b = io (io_address (system_rtc b))"

definition rtc_get_clockspeed :: "(u32 \<Rightarrow> u32) \<Rightarrow> board \<Rightarrow> u32" where
  "rtc_get_clockspeed io b = io (io_address (system_rtc b) + 4)"

definition meminfo_init :: "io_descriptor \<Rightarrow> board \<Rightarrow> (device option \<times> board) res" where
  "meminfo_init desc b =
     (if meminfo_init_done b then Inl Panic
      else Inr (Some (fill_device desc), b\<lparr>meminfo_init_done := True, system_meminfo := fill_device desc\<rparr>))"

definition meminfo_get_pages :: "(u32 \<Rightarrow> u32) \<Rightarrow> board \<Rightarrow> u32" where
  "meminfo_get_pages io b = io (io_address (system_meminfo b))"

text \<open>A shift in the source by more than 31 is undefined; the instruction takes the amount modulo 32.\<close>

definition cpustatus_init :: "io_descriptor \<Rightarrow> board \<Rightarrow> (device option \<times> board) res" where
  "cpustatus_init desc b =
     rbind (fill_device_t desc b) (\<lambda>(dev, b).
     rbind (stalloc 4 (statics b)) (\<lambda>(cpu, st).
     if cpu = 0 then Inl Panic
     else
       let b = b\<lparr>statics := st, cpu_slocks := (cpu_slocks b)(cpu := 0)\<rparr>;
           dev = dev\<lparr>real_device := cpu\<rparr>;
           irq_mask = push_bit (unat (desc_irq desc + 10) mod 32) 1 in
       rbind (interrupt_register irq_mask Cpustatus_interrupt_handle dev b) (\<lambda>b. Inr (Some dev, b))))"

definition cpustatus_count :: "io_descriptor list \<Rightarrow> int" where
  "cpustatus_count descs = int (length (filter (\<lambda>d. desc_type d AND 0xFFFFFF00 = 0xc00) (take 128 descs)))"

definition io_store :: "u32 \<Rightarrow> u32 \<Rightarrow> board \<Rightarrow> board" where
  "io_store a v b = b\<lparr>io_writes := io_writes b @ [(a, v)]\<rparr>"

definition cpu_lock :: "u32 \<Rightarrow> board \<Rightarrow> board res" where
  "cpu_lock a b = (if cpu_slocks b a = 0 then Inr (b\<lparr>cpu_slocks := (cpu_slocks b)(a := 1)\<rparr>) else Inl Spin)"

definition cpu_unlock :: "u32 \<Rightarrow> board \<Rightarrow> board" where
  "cpu_unlock a b = b\<lparr>cpu_slocks := (cpu_slocks b)(a := 0)\<rparr>"

definition cpustatus_generate_irq :: "int \<Rightarrow> device \<Rightarrow> 'w mips \<Rightarrow> 'w mips res" where
  "cpustatus_generate_irq cpu dev m =
     rbind (kassert (real_device dev \<noteq> 0)) (\<lambda>_.
     let (intr_status, k) = interrupt_disable cpu (kern32 m) in
     rbind (cpu_lock (real_device dev) (board32 m)) (\<lambda>b.
     Inr (m\<lparr>kern32 := interrupt_set_state cpu intr_status k,
            board32 := cpu_unlock (real_device dev) (io_store (io_address dev + 4) 0 b)\<rparr>)))"

definition cpustatus_interrupt_handle :: "(u32 \<Rightarrow> u32) \<Rightarrow> int \<Rightarrow> device \<Rightarrow> board \<Rightarrow> board res" where
  "cpustatus_interrupt_handle io this_cpu dev b =
     (if word_of_int this_cpu \<noteq> dev_type dev AND 0xFF then Inr b
      else if io (io_address dev) AND 2 = 0 then Inr b
      else rbind (cpu_lock (real_device dev) b) (\<lambda>b.
           Inr (cpu_unlock (real_device dev) (io_store (io_address dev + 4) 1 b))))"

definition shutdown_init :: "io_descriptor \<Rightarrow> board \<Rightarrow> (device option \<times> board) res" where
  "shutdown_init desc b =
     (if shutdown_init_done b then Inl Panic
      else Inr (Some (fill_device desc), b\<lparr>shutdown_init_done := True, system_shutdown := fill_device desc\<rparr>))"

text \<open>On hardware with a shutdown device the first store stops the machine; the function goes on when there is none.\<close>

definition shutdown :: "io_descriptor list \<Rightarrow> u32 \<Rightarrow> board \<Rightarrow> board" where
  "shutdown descs magic b =
     (let b = (if shutdown_init_done b then io_store (io_address (system_shutdown b)) magic b else b) in
      fold (\<lambda>d b. if desc_type d = 0x103 then io_store (io_area_base d) magic b else b) (take YAMS_MAX_DEVICES descs) b)"

text \<open>The table of \<^verbatim>\<open>drivers.c\<close>; the drivers of consoles and disks are given by \<open>other\<close>.\<close>

datatype driver = Tty_driver | Rtc_driver | Meminfo_driver | Shutdown_driver | Cpustatus_driver | Disk_driver

definition drivers_available :: "(u32 \<times> driver) list" where
  "drivers_available =
     [(0x201, Tty_driver), (0x102, Rtc_driver), (0x101, Meminfo_driver), (0x103, Shutdown_driver),
      (0xc00, Cpustatus_driver), (0x301, Disk_driver)]"

type_synonym other_drivers = "driver \<Rightarrow> io_descriptor \<Rightarrow> board \<Rightarrow> (device option \<times> board) res"

fun initfunc :: "other_drivers \<Rightarrow> driver \<Rightarrow> io_descriptor \<Rightarrow> board \<Rightarrow> (device option \<times> board) res" where
  "initfunc other Rtc_driver = rtc_init"
| "initfunc other Meminfo_driver = meminfo_init"
| "initfunc other Shutdown_driver = shutdown_init"
| "initfunc other Cpustatus_driver = cpustatus_init"
| "initfunc other Tty_driver = other Tty_driver"
| "initfunc other Disk_driver = other Disk_driver"

definition find_driver :: "u32 \<Rightarrow> driver option" where
  "find_driver typecode =
     (let typecode = (if typecode AND 0xffffff00 = 0xc00 then 0xc00 else typecode) in
      map_of drivers_available typecode)"

fun device_init_loop :: "other_drivers \<Rightarrow> io_descriptor list \<Rightarrow> board \<Rightarrow> board res" where
  "device_init_loop other [] b = Inr b"
| "device_init_loop other (d # ds) b =
     (if desc_type d \<noteq> 0 then
        case find_driver (desc_type d) of
          None \<Rightarrow> device_init_loop other ds b
        | Some driver \<Rightarrow>
            rbind (initfunc other driver d b) (\<lambda>(dev, b).
            rbind (lset (device_table b) (number_of_devices b) dev) (\<lambda>tab.
            let b = b\<lparr>device_table := tab\<rparr> in
            if dev \<noteq> None then
              let b = b\<lparr>number_of_devices := number_of_devices b + 1\<rparr> in
              if number_of_devices b \<ge> int CONFIG_MAX_DEVICES then Inr b else device_init_loop other ds b
            else device_init_loop other ds b))
      else device_init_loop other ds b)"

definition device_init :: "other_drivers \<Rightarrow> io_descriptor list \<Rightarrow> board \<Rightarrow> board res" where
  "device_init other descs b = device_init_loop other (take YAMS_MAX_DEVICES descs) b"

function device_get_loop :: "int \<Rightarrow> u32 \<Rightarrow> u32 \<Rightarrow> board \<Rightarrow> device option res" where
  "device_get_loop i typecode n b =
     (if i < number_of_devices b then
        rbind (lget (device_table b) i) (\<lambda>dev.
        case dev of
          None \<Rightarrow> Inl NullDeref
        | Some d \<Rightarrow>
            if dev_type d = typecode then
              if n = 0 then Inr (Some d) else device_get_loop (i + 1) typecode (n - 1) b
            else device_get_loop (i + 1) typecode n b)
      else Inr None)"
  by pat_completeness auto
termination
  by (relation "measure (\<lambda>(i, typecode, n, b). nat (number_of_devices b - i))") auto

declare device_get_loop.simps [simp del]

definition device_get :: "u32 \<Rightarrow> u32 \<Rightarrow> board \<Rightarrow> device option res" where
  "device_get typecode n b = device_get_loop 0 typecode n b"

text \<open>The registration of a device on x86_64.\<close>

definition device_register :: "device \<Rightarrow> board \<Rightarrow> (int \<times> board) res" where
  "device_register dev b =
     (if number_of_devices b \<ge> int CONFIG_MAX_DEVICES then Inr (- 1, b)
      else rbind (lset (device_table b) (number_of_devices b) (Some dev)) (\<lambda>tab.
           Inr (0, b\<lparr>device_table := tab, number_of_devices := number_of_devices b + 1\<rparr>)))"

section \<open>The TLB\<close>

text \<open>\<open>_tlb_write\<close>: \<open>num\<close> entries into the rows from \<open>index\<close> on, as far as the TLB goes.\<close>

fun tlb_write :: "tlb_entry list \<Rightarrow> nat \<Rightarrow> nat \<Rightarrow> tlb_entry list \<Rightarrow> tlb_entry list res" where
  "tlb_write es index 0 t = Inr t"
| "tlb_write [] index (Suc num) t = (if index < length t then Inl OutOfBounds else Inr t)"
| "tlb_write (e # es) index (Suc num) t = (if index < length t then tlb_write es (index + 1) num (t[index := e]) else Inr t)"

definition tlb_fill :: "pagetable option \<Rightarrow> board \<Rightarrow> board res" where
  "tlb_fill table b =
     (case table of None \<Rightarrow> Inr b | Some pt \<Rightarrow>
      rbind (kassert (valid_count pt \<le> length (tlb b))) (\<lambda>_.
      rbind (tlb_write (entries pt) 0 (valid_count pt) (tlb b)) (\<lambda>t.
      Inr (b\<lparr>tlb := t, tlb_asid := ucast (pt_ASID pt)\<rparr>))))"

text \<open>The exception handlers of the TLB stop the machine in this version.\<close>

definition tlb_modified_exception :: "bool \<Rightarrow> board \<Rightarrow> board res" where
  "tlb_modified_exception in_userland b = Inl Panic"

definition tlb_load_exception :: "bool \<Rightarrow> board \<Rightarrow> board res" where
  "tlb_load_exception in_userland b = Inl Panic"

definition tlb_store_exception :: "bool \<Rightarrow> board \<Rightarrow> board res" where
  "tlb_store_exception in_userland b = Inl Panic"

text \<open>Setting the page table of a process on mips32 (\<^verbatim>\<open>src/kudos/proc/mips32/_proc.c\<close>).\<close>

definition process_set_pagetable32 :: "int \<Rightarrow> pagetable option \<Rightarrow> 'w mips \<Rightarrow> 'w mips res" where
  "process_set_pagetable32 cpu table m =
     (let (intr_status, k) = interrupt_disable cpu (kern32 m) in
      rbind (tlb_fill table (board32 m)) (\<lambda>b.
      Inr (m\<lparr>kern32 := interrupt_set_state cpu intr_status k, board32 := b\<rparr>)))"

section \<open>The interrupt handler\<close>

text \<open>\<open>drv\<close> has the handlers of the other drivers.\<close>

type_synonym 'w driver_handlers = "nat \<Rightarrow> device \<Rightarrow> 'w mips \<Rightarrow> 'w mips res"

definition call_handler :: "'w driver_handlers \<Rightarrow> (u32 \<Rightarrow> u32) \<Rightarrow> int \<Rightarrow> interrupt_entry \<Rightarrow> 'w mips \<Rightarrow> 'w mips res" where
  "call_handler drv io cpu h m =
     (case (ie_handler h, ie_device h) of
        (Some Cpustatus_interrupt_handle, Some dev) \<Rightarrow>
          rbind (cpustatus_interrupt_handle io cpu dev (board32 m)) (\<lambda>b. Inr (m\<lparr>board32 := b\<rparr>))
      | (Some (Driver_handler i), Some dev) \<Rightarrow> drv i dev m
      | _ \<Rightarrow> Inl NullDeref)"

text \<open>The loop goes over the table as it is when an entry is reached.\<close>

fun handlers_loop :: "nat \<Rightarrow> nat \<Rightarrow> 'w driver_handlers \<Rightarrow> (u32 \<Rightarrow> u32) \<Rightarrow> int \<Rightarrow> u32 \<Rightarrow> 'w mips \<Rightarrow> 'w mips res" where
  "handlers_loop 0 i drv io cpu cause m = Inr m"
| "handlers_loop (Suc n) i drv io cpu cause m =
     rbind (lget (interrupt_handlers (board32 m)) (int i)) (\<lambda>h.
     if ie_device h = None then Inr m
     else rbind (if cause AND ie_irq h \<noteq> 0 then call_handler drv io cpu h m else Inr m) (\<lambda>m.
          handlers_loop n (Suc i) drv io cpu cause m))"

definition interrupt_clear_sw0 :: "board \<Rightarrow> board" where
  "interrupt_clear_sw0 b = b\<lparr>cause_reg := cause_reg b AND 0xfffffeff\<rparr>"

text \<open>\<open>pts\<close> is the page table at an address, None for NULL; \<open>rnd\<close> is what the scheduler draws.\<close>

definition interrupt_handle ::
  "'w driver_handlers \<Rightarrow> (u32 \<Rightarrow> u32) \<Rightarrow> (u64 \<Rightarrow> pagetable option) \<Rightarrow> int \<Rightarrow> u32 \<Rightarrow> u32 \<Rightarrow> 'w mips \<Rightarrow> 'w mips res" where
  "interrupt_handle drv io pts cpu rnd cause m =
     (let m = (if cause AND 0x100 \<noteq> 0 then m\<lparr>board32 := interrupt_clear_sw0 (board32 m)\<rparr> else m) in
      if cause AND 0x7c \<noteq> 0 then Inl Panic
      else rbind (handlers_loop CONFIG_MAX_DEVICES 0 drv io cpu cause m) (\<lambda>m.
           rbind (aget (scheduler_current_thread (kern32 m)) cpu) (\<lambda>cur.
           if cause AND 0x8100 \<noteq> 0 \<or> cur = IDLE_THREAD_TID then
             rbind (scheduler_schedule cpu rnd (kern32 m)) (\<lambda>k.
             rbind (thread_get_current_thread_entry cpu k) (\<lambda>(e, k).
             rbind (tlb_fill (pts (thread_entry.pagetable e)) (board32 m)) (\<lambda>b.
             Inr (m\<lparr>kern32 := k, board32 := b\<rparr>))))
           else Inr m)))"

section \<open>Registered handlers\<close>

text \<open>The table after registrations: the entries in the order of registration, then empty ones.\<close>

type_synonym registration = "u32 \<times> int_handler \<times> device"

fun entry_of :: "registration \<Rightarrow> interrupt_entry" where
  "entry_of (irq, handler, dev) = \<lparr>ie_device = Some dev, ie_irq = irq, ie_handler = Some handler\<rparr>"

definition handlers_are :: "registration list \<Rightarrow> board \<Rightarrow> bool" where
  "handlers_are regs b \<longleftrightarrow> length regs \<le> CONFIG_MAX_DEVICES \<and>
     interrupt_handlers b = map entry_of regs @ replicate (CONFIG_MAX_DEVICES - length regs) no_entry"

fun register_all :: "registration list \<Rightarrow> board \<Rightarrow> board res" where
  "register_all [] b = Inr b"
| "register_all ((irq, handler, dev) # regs) b = rbind (interrupt_register irq handler dev b) (register_all regs)"

lemma ie_entry_of [simp]: "ie_device (entry_of r) = Some (snd (snd r))" "ie_irq (entry_of r) = fst r"
  by (cases r; simp)+

lemma free_handler_skip:
  "\<forall>h\<in>set hs. ie_device h \<noteq> None \<Longrightarrow> length pre + length hs \<le> CONFIG_MAX_DEVICES \<Longrightarrow>
   free_handler (pre @ hs @ rest) (length pre) = free_handler (pre @ hs @ rest) (length pre + length hs)"
proof (induction hs arbitrary: pre)
  case (Cons h hs)
  have "free_handler (pre @ (h # hs) @ rest) (length pre) = free_handler (pre @ (h # hs) @ rest) (length (pre @ [h]))"
    using Cons.prems by (subst free_handler.simps) (simp add: nth_append)
  then show ?case using Cons.IH [of "pre @ [h]"] Cons.prems by simp
qed simp

lemma free_handler_first:
  assumes "handlers_are regs b"
  shows "free_handler (interrupt_handlers b) 0 = (if length regs < CONFIG_MAX_DEVICES then Inr (length regs) else Inl OutOfBounds)"
proof -
  let ?rest = "replicate (CONFIG_MAX_DEVICES - length regs) no_entry"
  have "free_handler (interrupt_handlers b) 0 = free_handler (map entry_of regs @ ?rest) (length regs)"
    using free_handler_skip [of "map entry_of regs" "[]" ?rest] assms by (simp add: handlers_are_def)
  also have "\<dots> = (if length regs < CONFIG_MAX_DEVICES then Inr (length regs) else Inl OutOfBounds)"
    using assms by (subst free_handler.simps) (simp add: handlers_are_def nth_append no_entry_def lget_def)
  finally show ?thesis .
qed

text \<open>A registration goes into the next entry; with a full table the search leaves it.\<close>

lemma interrupt_register_eq:
  assumes "handlers_are regs b" "irq AND NOT 0xff00 = 0"
  shows "if length regs < CONFIG_MAX_DEVICES
    then \<exists>hs. interrupt_register irq h dev b = Inr (b\<lparr>interrupt_handlers := hs\<rparr>) \<and>
           handlers_are (regs @ [(irq, h, dev)]) (b\<lparr>interrupt_handlers := hs\<rparr>)
    else interrupt_register irq h dev b = Inl OutOfBounds"
proof (cases "length regs < CONFIG_MAX_DEVICES")
  case True
  then have "replicate (CONFIG_MAX_DEVICES - length regs) no_entry = no_entry # replicate (CONFIG_MAX_DEVICES - Suc (length regs)) no_entry"
    by (simp add: Suc_diff_Suc flip: replicate_Suc)
  then show ?thesis
    using True assms(2) free_handler_first [OF assms(1)] assms(1)
    by (simp add: interrupt_register_def handlers_are_def list_update_append)
next
  case False
  then show ?thesis
    using assms(2) free_handler_first [OF assms(1)] by (simp add: interrupt_register_def)
qed

lemma register_all_eq:
  "handlers_are done b \<Longrightarrow> length done + length regs \<le> CONFIG_MAX_DEVICES \<Longrightarrow> \<forall>r\<in>set regs. fst r AND NOT 0xff00 = 0 \<Longrightarrow>
   \<exists>hs. register_all regs b = Inr (b\<lparr>interrupt_handlers := hs\<rparr>) \<and> handlers_are (done @ regs) (b\<lparr>interrupt_handlers := hs\<rparr>)"
proof (induction regs arbitrary: "done" b)
  case Nil
  then show ?case by (auto intro: exI [of _ "interrupt_handlers b"])
next
  case (Cons r regs)
  obtain irq h dev where r: "r = (irq, h, dev)" by (cases r)
  obtain hs where hs: "interrupt_register irq h dev b = Inr (b\<lparr>interrupt_handlers := hs\<rparr>)"
    "handlers_are (done @ [r]) (b\<lparr>interrupt_handlers := hs\<rparr>)"
    using interrupt_register_eq [OF Cons.prems(1), of irq h dev] Cons.prems(2, 3) r by auto
  show ?case using Cons.IH [OF hs(2)] Cons.prems(2, 3) hs(1) r by auto
qed

lemma interrupt_init_empty: "interrupt_init n code b = Inr b' \<Longrightarrow> handlers_are [] b'"
  by (auto simp: interrupt_init_def handlers_are_def rbind_eq_Inr split: if_splits)

text \<open>
  The handlers that an interrupt runs, one after the other. A driver's handler does not register handlers:
  \<open>interrupt_register\<close> is documented for the start of the system only.
\<close>

fun run_handlers :: "'w driver_handlers \<Rightarrow> (u32 \<Rightarrow> u32) \<Rightarrow> int \<Rightarrow> registration list \<Rightarrow> 'w mips \<Rightarrow> 'w mips res" where
  "run_handlers drv io cpu [] m = Inr m"
| "run_handlers drv io cpu (r # regs) m = rbind (call_handler drv io cpu (entry_of r) m) (run_handlers drv io cpu regs)"

definition keeps_handlers :: "'w driver_handlers \<Rightarrow> bool" where
  "keeps_handlers drv \<longleftrightarrow>
     (\<forall>i dev m m'. drv i dev m = Inr m' \<longrightarrow> interrupt_handlers (board32 m') = interrupt_handlers (board32 m))"

lemma cpustatus_handle_handlers:
  "cpustatus_interrupt_handle io cpu dev b = Inr b' \<Longrightarrow> interrupt_handlers b' = interrupt_handlers b"
  by (auto simp: cpustatus_interrupt_handle_def cpu_lock_def cpu_unlock_def io_store_def split: if_splits)

lemma call_handler_handlers:
  "keeps_handlers drv \<Longrightarrow> call_handler drv io cpu h m = Inr m' \<Longrightarrow> interrupt_handlers (board32 m') = interrupt_handlers (board32 m)"
  by (auto simp: call_handler_def keeps_handlers_def rbind_eq_Inr cpustatus_handle_handlers split: option.splits int_handler.splits)

lemma handlers_loop_eq:
  assumes "keeps_handlers drv"
  shows "interrupt_handlers (board32 m) = pre @ map entry_of regs @ replicate k no_entry \<Longrightarrow> n = length regs + k \<Longrightarrow>
    handlers_loop n (length pre) drv io cpu cause m = run_handlers drv io cpu (filter (\<lambda>r. cause AND fst r \<noteq> 0) regs) m"
proof (induction regs arbitrary: n pre m)
  case Nil
  then show ?case by (cases k) (simp_all add: nth_append no_entry_def)
next
  case (Cons r regs)
  then obtain n' where n: "n = Suc n'" "n' = length regs + k" by simp
  have IH: "handlers_loop n' (Suc (length pre)) drv io cpu cause m' = run_handlers drv io cpu (filter (\<lambda>r. cause AND fst r \<noteq> 0) regs) m'"
    if "interrupt_handlers (board32 m') = interrupt_handlers (board32 m)" for m'
    using Cons.IH [of m' "pre @ [entry_of r]" n'] Cons.prems(1) n that by simp
  have "lget (interrupt_handlers (board32 m)) (int (length pre)) = Inr (entry_of r)"
    using Cons.prems(1) by (simp add: nth_append)
  then have "handlers_loop n (length pre) drv io cpu cause m =
      rbind (if cause AND fst r \<noteq> 0 then call_handler drv io cpu (entry_of r) m else Inr m) (\<lambda>m. handlers_loop n' (Suc (length pre)) drv io cpu cause m)"
    by (simp add: n(1))
  also have "\<dots> = rbind (if cause AND fst r \<noteq> 0 then call_handler drv io cpu (entry_of r) m else Inr m)
      (run_handlers drv io cpu (filter (\<lambda>r. cause AND fst r \<noteq> 0) regs))"
    by (rule rbind_cong) (auto intro!: IH dest: call_handler_handlers [OF assms] split: if_splits)
  finally show ?case by simp
qed

section \<open>Translation by the TLB\<close>

text \<open>
  The hardware uses the row with the page pair and the current address space, or with both global bits set.
\<close>

definition tlb_hit :: "8 word \<Rightarrow> 19 word \<Rightarrow> tlb_entry \<Rightarrow> bool" where
  "tlb_hit asid vpn2 e \<longleftrightarrow> VPN2 e = vpn2 \<and> (ASID e = asid \<or> G0 e \<and> G1 e)"

definition tlb_frame :: "board \<Rightarrow> u32 \<Rightarrow> 20 word option" where
  "tlb_frame b vaddr =
     (case find (tlb_hit (tlb_asid b) (ucast (drop_bit 13 vaddr))) (tlb b) of None \<Rightarrow> None
      | Some e \<Rightarrow> if ADDR_IS_ON_EVEN_PAGE vaddr then if V0 e then Some (PFN0 e) else None
                 else if V1 e then Some (PFN1 e) else None)"

text \<open>The entries of a page table are marked with its address space; the rows it leaves over are not.\<close>

definition asid_ok :: "pagetable \<Rightarrow> bool" where
  "asid_ok pt \<longleftrightarrow> (\<forall>e\<in>set (valid_entries pt). ASID e = ucast (pt_ASID pt))"

definition rows_foreign :: "pagetable \<Rightarrow> tlb_entry list \<Rightarrow> bool" where
  "rows_foreign pt t \<longleftrightarrow> (\<forall>e\<in>set (drop (valid_count pt) t). ASID e \<noteq> ucast (pt_ASID pt) \<and> \<not> (G0 e \<and> G1 e))"

lemma tlb_write_eq:
  "num \<le> length es \<Longrightarrow> index + num \<le> length t \<Longrightarrow>
   tlb_write es index num t = Inr (take index t @ take num es @ drop (index + num) t)"
proof (induction es index num t rule: tlb_write.induct)
  case (3 e es index num t)
  then show ?case by (simp add: take_Suc_conv_app_nth)
qed simp_all

lemma find_map_of: "find (\<lambda>e. f e = x) es = map_of (map (\<lambda>e. (f e, e)) es) x"
  by (induction es) auto

lemma find_append_None: "find P (xs @ ys) = (case find P xs of None \<Rightarrow> find P ys | r \<Rightarrow> r)"
  by (induction xs) auto

lemma find_cong_set: "\<forall>x\<in>set xs. P x = Q x \<Longrightarrow> find P xs = find Q xs"
  by (induction xs) auto

lemma tlb_fill_eq:
  assumes "pt_ok pt" "valid_count pt \<le> length (tlb b)"
  shows "tlb_fill (Some pt) b = Inr (b\<lparr>tlb := valid_entries pt @ drop (valid_count pt) (tlb b), tlb_asid := ucast (pt_ASID pt)\<rparr>)"
  using assms by (simp add: tlb_fill_def tlb_write_eq pt_ok_def valid_entries_def)

lemma tlb_fill_translates:
  assumes "pt_ok pt" "valid_count pt \<le> length (tlb b)" "asid_ok pt" "rows_foreign pt (tlb b)"
  shows "\<exists>b'. tlb_fill (Some pt) b = Inr b' \<and> (\<forall>vaddr. tlb_frame b' vaddr = frame_of pt vaddr)"
proof -
  let ?asid = "ucast (pt_ASID pt) :: 8 word"
  have "find (tlb_hit ?asid v) (valid_entries pt) = pair pt v" for v
    using assms(3) find_cong_set [of "valid_entries pt" "tlb_hit ?asid v" "\<lambda>e. VPN2 e = v"]
    by (simp add: pair_def find_map_of asid_ok_def tlb_hit_def)
  moreover have "find (tlb_hit ?asid v) (drop (valid_count pt) (tlb b)) = None" for v
    using assms(4) by (auto simp: find_None_iff rows_foreign_def tlb_hit_def)
  ultimately have "find (tlb_hit ?asid v) (valid_entries pt @ drop (valid_count pt) (tlb b)) = pair pt v" for v
    by (simp add: find_append_None split: option.split)
  then show ?thesis
    by (simp add: tlb_fill_eq [OF assms(1, 2)] tlb_frame_def frame_of_def)
qed

text \<open>
  Rows beyond the entries of the page table are left as they are: one that an earlier thread with the same number has
  left behind translates a page that the page table does not have.
\<close>

lemma tlb_fill_keeps_stale_row:
  assumes "pt_ok pt" "valid_count pt \<le> length (tlb b)" "asid_ok pt"
    and "drop (valid_count pt) (tlb b) = e # rest" "ASID e = ucast (pt_ASID pt)" "VPN2 e = ucast (drop_bit 13 vaddr)"
    and "V0 e" "V1 e" "pair pt (VPN2 e) = None"
  shows "\<exists>b'. tlb_fill (Some pt) b = Inr b' \<and> frame_of pt vaddr = None \<and> tlb_frame b' vaddr \<noteq> None"
proof -
  let ?asid = "ucast (pt_ASID pt) :: 8 word"
  have "find (tlb_hit ?asid (VPN2 e)) (valid_entries pt) = None"
    using assms(3, 9) find_cong_set [of "valid_entries pt" "tlb_hit ?asid (VPN2 e)" "\<lambda>x. VPN2 x = VPN2 e"]
    by (simp add: pair_def find_map_of asid_ok_def tlb_hit_def)
  then have "find (tlb_hit ?asid (VPN2 e)) (valid_entries pt @ drop (valid_count pt) (tlb b)) = Some e"
    using assms(4, 5) by (simp add: find_append_None tlb_hit_def)
  then show ?thesis
    using assms(6-9) by (simp add: tlb_fill_eq [OF assms(1, 2)] tlb_frame_def frame_of_def)
qed

text \<open>\<open>vm_map\<close> keeps the entries marked.\<close>

lemma asid_ok_iff:
  "asid_ok pt \<longleftrightarrow> (\<forall>j < valid_count pt. j < length (entries pt) \<longrightarrow> ASID (entries pt ! j) = ucast (pt_ASID pt))"
  unfolding asid_ok_def valid_entries_def all_set_conv_all_nth by auto

lemma asid_ok_vm_map:
  assumes "asid_ok pt" "length (entries pt) = PAGETABLE_ENTRIES" "vm_map p v flags (Some pt) = Inr (Some pt')"
  shows "asid_ok pt'"
proof -
  have upd: "asid_ok (pt\<lparr>entries := (entries pt)[i := e]\<rparr>)"
    if "i < valid_count pt \<Longrightarrow> ASID e = ASID (entries pt ! i)" for i e
  proof -
    have "ASID ((entries pt)[i := e] ! j) = ASID (entries pt ! j)" if "j < valid_count pt" "j < length (entries pt)" for j
      using that \<open>i < valid_count pt \<Longrightarrow> ASID e = ASID (entries pt ! i)\<close> by (cases "i = j") simp_all
    then show ?thesis using assms(1) by (simp add: asid_ok_iff)
  qed
  have new: "asid_ok (pt\<lparr>entries := (entries pt)[valid_count pt := e], valid_count := Suc (valid_count pt)\<rparr>)"
    if "ASID e = ucast (pt_ASID pt)" "valid_count pt < PAGETABLE_ENTRIES" for e
    using assms(1, 2) that by (auto simp: asid_ok_iff nth_list_update less_Suc_eq)
  have flags: "flags = 0 \<or> flags = 1"
    using assms(3) by (auto simp: vm_map_def kassert_def split: if_splits)
  obtain r where r: "find_pair (valid_count pt) 0 (drop_bit 13 v) (entries pt) = Inr r"
    using assms(3) flags by (auto simp: vm_map_def rbind_eq_Inr)
  show ?thesis
  proof (cases r)
    case None
    let ?e = "(entries pt ! valid_count pt)\<lparr>VPN2 := ucast (drop_bit 13 v), ASID := ucast (pt_ASID pt)\<rparr>"
    have room: "valid_count pt < PAGETABLE_ENTRIES"
      using assms(3) flags r None by (auto simp: vm_map_def split: if_splits)
    then have "pt' = pt\<lparr>entries := (entries pt)[valid_count pt :=
        (if ADDR_IS_ON_EVEN_PAGE v
         then ?e\<lparr>PFN0 := ucast (drop_bit 12 p), D0 := flags = 1, V0 := True, G0 := False, V1 := False\<rparr>
         else ?e\<lparr>PFN1 := ucast (drop_bit 12 p), D1 := flags = 1, V1 := True, G1 := False, V0 := False\<rparr>)], valid_count := Suc (valid_count pt)\<rparr>"
      using assms(2, 3) flags r None by (simp add: vm_map_def Let_def)
    then show ?thesis using new [OF _ room] by simp
  next
    case (Some i)
    obtain e where e: "lget (entries pt) (int i) = Inr e"
      using assms(3) flags r Some by (cases "lget (entries pt) (int i)") (simp_all add: vm_map_def)
    then have i: "i < length (entries pt)" "entries pt ! i = e"
      by (auto simp: lget_def split: if_splits)
    have "pt' = pt\<lparr>entries := (entries pt)[i :=
        (if ADDR_IS_ON_EVEN_PAGE v then e\<lparr>PFN0 := ucast (drop_bit 12 p), V0 := True, G0 := False, D0 := flags = 1\<rparr>
         else e\<lparr>PFN1 := ucast (drop_bit 12 p), V1 := True, G1 := False, D1 := flags = 1\<rparr>)]\<rparr>"
      using assms(3) flags r Some i by (auto simp: vm_map_def split: if_splits)
    then show ?thesis using upd i(2) by simp
  qed
qed

section \<open>The device table\<close>

definition table_holds :: "device list \<Rightarrow> board \<Rightarrow> bool" where
  "table_holds devs b \<longleftrightarrow> length (device_table b) = CONFIG_MAX_DEVICES \<and> number_of_devices b = int (length devs) \<and>
     length devs \<le> CONFIG_MAX_DEVICES \<and> take (length devs) (device_table b) = map Some devs"

lemma table_holds_nth: "table_holds devs b \<Longrightarrow> i < length devs \<Longrightarrow> device_table b ! i = Some (devs ! i)"
  unfolding table_holds_def by (metis length_map nth_map nth_take)

text \<open>\<open>device_get\<close> returns the \<open>n\<close>-th device of a type.\<close>

lemma device_get_loop_eq:
  "table_holds devs b \<Longrightarrow> i \<le> length devs \<Longrightarrow>
   device_get_loop (int i) typecode n b =
     (let ds = filter (\<lambda>d. dev_type d = typecode) (drop i devs) in Inr (if unat n < length ds then Some (ds ! unat n) else None))"
proof (induction "length devs - i" arbitrary: i n)
  case 0
  then show ?case by (subst device_get_loop.simps) (simp add: table_holds_def)
next
  case (Suc k)
  then have i: "i < length devs" by simp
  let ?rest = "filter (\<lambda>d. dev_type d = typecode) (drop (Suc i) devs)"
  have entry: "lget (device_table b) (int i) = Inr (Some (devs ! i))" "int i < number_of_devices b"
    using table_holds_nth [OF Suc.prems(1) i] Suc.prems(1) i by (auto simp: table_holds_def)
  have rest: "device_get_loop (int i + 1) typecode n' b = Inr (if unat n' < length ?rest then Some (?rest ! unat n') else None)" for n'
    using Suc.hyps(1) [of "Suc i" n'] Suc.hyps(2) Suc.prems i by (simp add: add.commute)
  have drop: "drop i devs = devs ! i # drop (Suc i) devs" using i by (simp add: Cons_nth_drop_Suc)
  have step: "device_get_loop (int i) typecode n b =
      (if dev_type (devs ! i) = typecode then if n = 0 then Inr (Some (devs ! i)) else device_get_loop (int i + 1) typecode (n - 1) b
       else device_get_loop (int i + 1) typecode n b)"
    using entry by (subst device_get_loop.simps) simp
  show ?case
  proof (cases "n = 0")
    case False
    then have "unat n = Suc (unat (n - 1))"
      using unat_minus_one [of n] unat_gt_0 [of n] by linarith
    then show ?thesis unfolding step drop rest by (simp add: False)
  qed (unfold step drop rest, simp)
qed

lemma device_get_eq:
  "table_holds devs b \<Longrightarrow>
   device_get typecode n b =
     (let ds = filter (\<lambda>d. dev_type d = typecode) devs in Inr (if unat n < length ds then Some (ds ! unat n) else None))"
  using device_get_loop_eq [of devs b 0] by (simp add: device_get_def)

lemma table_holds_snoc:
  "table_holds devs b \<Longrightarrow> length devs < CONFIG_MAX_DEVICES \<Longrightarrow>
   lset (device_table b) (number_of_devices b) (Some d) = Inr ((device_table b)[length devs := Some d]) \<and>
   table_holds (devs @ [d]) (b\<lparr>device_table := (device_table b)[length devs := Some d], number_of_devices := number_of_devices b + 1\<rparr>)"
  by (simp add: table_holds_def lset_def take_Suc_conv_app_nth)

lemma device_register_eq:
  assumes "table_holds devs b"
  shows "if length devs < CONFIG_MAX_DEVICES
    then \<exists>b'. device_register d b = Inr (0, b') \<and> table_holds (devs @ [d]) b'
    else device_register d b = Inr (- 1, b)"
  using assms table_holds_snoc [OF assms, of d] by (auto simp: device_register_def table_holds_def)

text \<open>
  What the start of the drivers relies on: a driver leaves the table to its caller and gives its device the type of its descriptor.
\<close>

definition starts_device :: "(io_descriptor \<Rightarrow> board \<Rightarrow> (device option \<times> board) res) \<Rightarrow> bool" where
  "starts_device f \<longleftrightarrow>
     (\<forall>desc b dev b'. f desc b = Inr (dev, b') \<longrightarrow> device_table b' = device_table b \<and> number_of_devices b' = number_of_devices b \<and>
        (\<forall>d. dev = Some d \<longrightarrow> dev_type d = desc_type desc))"

lemma interrupt_register_table:
  "interrupt_register irq h d b = Inr b' \<Longrightarrow> device_table b' = device_table b \<and> number_of_devices b' = number_of_devices b"
  by (auto simp: interrupt_register_def rbind_eq_Inr split: if_splits)

lemma initfunc_starts:
  assumes "\<And>drv. starts_device (other drv)"
  shows "starts_device (initfunc other drv)"
proof (cases drv)
  case Cpustatus_driver
  then show ?thesis
    by (auto simp: starts_device_def cpustatus_init_def fill_device_t_def fill_device_def rbind_eq_Inr Let_def
        dest!: interrupt_register_table split: if_splits)
qed (use assms in \<open>auto simp: starts_device_def rtc_init_def meminfo_init_def shutdown_init_def fill_device_def split: if_splits\<close>)

lemma device_init_loop_table:
  assumes other: "\<And>drv. starts_device (other drv)"
  shows "device_init_loop other ds b = Inr b' \<Longrightarrow> table_holds devs b \<Longrightarrow> length devs < CONFIG_MAX_DEVICES \<Longrightarrow>
    \<exists>new. table_holds (devs @ new) b' \<and> (\<forall>d\<in>set new. dev_type d \<in> desc_type ` set ds \<and> find_driver (dev_type d) \<noteq> None)"
proof (induction ds arbitrary: b devs)
  case Nil
  then show ?case by (auto intro: exI [of _ "[]"])
next
  case (Cons desc ds)
  show ?case
  proof (cases "desc_type desc = 0 \<or> find_driver (desc_type desc) = None")
    case True
    then have "device_init_loop other ds b = Inr b'"
      using Cons.prems(1) by (cases "desc_type desc = 0") simp_all
    then obtain new where "table_holds (devs @ new) b'"
      "\<forall>d\<in>set new. dev_type d \<in> desc_type ` set ds \<and> find_driver (dev_type d) \<noteq> None"
      using Cons.IH [OF _ Cons.prems(2, 3)] by blast
    then show ?thesis by (intro exI [of _ new]) auto
  next
    case False
    then obtain drv where drv: "find_driver (desc_type desc) = Some drv" by auto
    obtain dev b1 where f: "initfunc other drv desc b = Inr (dev, b1)"
      using Cons.prems(1) False drv by (auto simp: rbind_eq_Inr)
    have b1: "device_table b1 = device_table b" "number_of_devices b1 = number_of_devices b" "\<And>d. dev = Some d \<Longrightarrow> dev_type d = desc_type desc"
      using initfunc_starts [where other = other and drv = drv, OF other] f unfolding starts_device_def by blast+
    then have holds: "table_holds devs b1" using Cons.prems(2) by (simp add: table_holds_def)
    show ?thesis
    proof (cases dev)
      case None
      have "table_holds devs (b1\<lparr>device_table := (device_table b1)[length devs := None]\<rparr>)"
        using holds by (simp add: table_holds_def)
      moreover have "device_init_loop other ds (b1\<lparr>device_table := (device_table b1)[length devs := None]\<rparr>) = Inr b'"
        using Cons.prems(1, 3) False drv f None holds by (simp add: table_holds_def)
      ultimately obtain new where "table_holds (devs @ new) b'"
        "\<forall>d\<in>set new. dev_type d \<in> desc_type ` set ds \<and> find_driver (dev_type d) \<noteq> None"
        using Cons.IH [OF _ _ Cons.prems(3)] by blast
      then show ?thesis by (intro exI [of _ new]) auto
    next
      case (Some d)
      let ?b = "b1\<lparr>device_table := (device_table b1)[length devs := Some d], number_of_devices := number_of_devices b1 + 1\<rparr>"
      have snoc: "lset (device_table b1) (number_of_devices b1) (Some d) = Inr ((device_table b1)[length devs := Some d])"
        "table_holds (devs @ [d]) ?b"
        using table_holds_snoc [OF holds Cons.prems(3), of d] by auto
      have d: "dev_type d \<in> desc_type ` set (desc # ds)" "find_driver (dev_type d) \<noteq> None"
        using b1(3) [OF Some] drv by auto
      show ?thesis
      proof (cases "number_of_devices ?b \<ge> int CONFIG_MAX_DEVICES")
        case True
        then have "b' = ?b" using Cons.prems(1) False drv f Some snoc(1) by simp
        then show ?thesis using snoc(2) d by (intro exI [of _ "[d]"]) simp
      next
        case room: False
        then have "device_init_loop other ds ?b = Inr b'" using Cons.prems(1) False drv f Some snoc(1) by simp
        moreover have "length (devs @ [d]) < CONFIG_MAX_DEVICES" using room holds by (simp add: table_holds_def)
        ultimately obtain new where "table_holds ((devs @ [d]) @ new) b'"
          "\<forall>d\<in>set new. dev_type d \<in> desc_type ` set ds \<and> find_driver (dev_type d) \<noteq> None"
          using Cons.IH [OF _ snoc(2)] by blast
        then show ?thesis using d by (intro exI [of _ "d # new"]) auto
      qed
    qed
  qed
qed

end
