(* ===== verification/Board_Properties.thy ===== *)
theory Board_Properties
  imports Board Kernel_Properties
begin

text \<open>
  What an interrupt does on mips32, from the registration of the handlers to the TLB of the thread that runs after it.
\<close>

section \<open>The scheduler keeps page tables\<close>

definition page_tables :: "kstate \<Rightarrow> tid \<Rightarrow> u64 option" where
  "page_tables s t = map_option thread_entry.pagetable (thread_table s t)"

lemma upd_thread_tables:
  "upd_thread t f s = Inr s' \<Longrightarrow> (\<And>e. thread_entry.pagetable (f e) = thread_entry.pagetable e) \<Longrightarrow> page_tables s' = page_tables s"
  by (auto simp: upd_thread_def rbind_eq_Inr aget_eq_Inr page_tables_def fun_eq_iff)

lemma page_tables_updates [simp]:
  "page_tables (s\<lparr>ready_head := h\<rparr>) = page_tables s" "page_tables (s\<lparr>ready_tail := h\<rparr>) = page_tables s"
  "page_tables (s\<lparr>slocks := l\<rparr>) = page_tables s" "page_tables (s\<lparr>timer := r\<rparr>) = page_tables s"
  "page_tables (s\<lparr>scheduler_current_thread := c\<rparr>) = page_tables s"
  by (simp_all add: page_tables_def fun_eq_iff)

lemma add_to_ready_list_tables: "scheduler_add_to_ready_list t s = Inr s' \<Longrightarrow> page_tables s' = page_tables s"
  unfolding scheduler_add_to_ready_list_def
  by (auto simp: rbind_eq_Inr dest!: upd_thread_tables split: if_splits)

lemma schedule_retire_tables: "schedule_retire cur s = Inr s' \<Longrightarrow> page_tables s' = page_tables s"
  unfolding schedule_retire_def
  by (auto simp: rbind_eq_Inr dest!: upd_thread_tables add_to_ready_list_tables split: if_splits)

lemma remove_first_ready_tables: "scheduler_remove_first_ready s = Inr (t, s') \<Longrightarrow> page_tables s' = page_tables s"
  unfolding scheduler_remove_first_ready_def by (auto simp: rbind_eq_Inr Let_def split: if_splits)

lemma schedule_tables: "scheduler_schedule cpu rnd s = Inr s' \<Longrightarrow> page_tables s' = page_tables s"
  unfolding scheduler_schedule_def timer_set_ticks_eq spinlock_defs
  by (auto simp: rbind_eq_Inr Let_def dest!: upd_thread_tables schedule_retire_tables remove_first_ready_tables split: if_splits)

section \<open>Interrupts\<close>

lemma register_all_table:
  "handlers_are done b \<Longrightarrow> register_all regs b = Inr b' \<Longrightarrow> handlers_are (done @ regs) b'"
proof (induction regs arbitrary: "done" b)
  case (Cons r regs)
  obtain irq h dev where r: "r = (irq, h, dev)" by (cases r)
  obtain b1 where b1: "interrupt_register irq h dev b = Inr b1" "register_all regs b1 = Inr b'"
    using Cons.prems(2) r by (auto simp: rbind_eq_Inr)
  have "irq AND NOT 0xff00 = 0" using b1(1) by (auto simp: interrupt_register_def split: if_splits)
  then have "handlers_are (done @ [r]) b1"
    using interrupt_register_eq [OF Cons.prems(1), of irq h dev] b1(1) r by (auto split: if_splits)
  from Cons.IH [OF this b1(2)] show ?case by simp
qed simp

lemma interrupt_reschedules:
  assumes "kinv k rq sq" "0 \<le> cpu" "cpu < CONFIG_MAX_CPUS" "slocks k Thread_table_slock = 0"
    and "scheduler_current_thread k cpu = Some cur" "thread_table k cur = Some e"
  obtains k' e0 e' where "scheduler_schedule cpu rnd k = Inr k'" "kinv k' (tl (retired_queue cur e rq)) sq"
    "scheduler_current_thread k' cpu = Some (next_thread (retired_queue cur e rq))"
    "thread_table k (next_thread (retired_queue cur e rq)) = Some e0"
    "thread_get_current_thread_entry cpu k' = Inr (e', k')" "thread_entry.pagetable e' = thread_entry.pagetable e0"
proof -
  let ?t = "next_thread (retired_queue cur e rq)"
  obtain k' where k': "scheduler_schedule cpu rnd k = Inr k'" "kinv k' (tl (retired_queue cur e rq)) sq"
    "scheduler_current_thread k' cpu = Some ?t"
    using schedule_spec [OF assms, of rnd] by auto
  obtain e' where e': "thread_table k' ?t = Some e'"
    using kinv_current_ex [OF k'(2) assms(2, 3)] k'(3) by auto
  obtain e0 where "thread_table k ?t = Some e0" "thread_entry.pagetable e' = thread_entry.pagetable e0"
    using fun_cong [OF schedule_tables [OF k'(1)], of ?t] e' by (cases "thread_table k ?t") (auto simp: page_tables_def)
  then show thesis
    using that k' e' by (simp add: thread_get_current_thread_entry_def get_thread_def)
qed

text \<open>The machine when the handlers are called: a request for a context switch is taken back.\<close>

definition acknowledged :: "u32 \<Rightarrow> 'w mips \<Rightarrow> 'w mips" where
  "acknowledged cause m = (if cause AND 0x100 \<noteq> 0 then m\<lparr>board32 := interrupt_clear_sw0 (board32 m)\<rparr> else m)"

definition tables_fit :: "(u64 \<Rightarrow> pagetable option) \<Rightarrow> tlb_entry list \<Rightarrow> bool" where
  "tables_fit pts t \<longleftrightarrow> (\<forall>a pt. pts a = Some pt \<longrightarrow> pt_ok pt \<and> asid_ok pt \<and> valid_count pt \<le> length t \<and> rows_foreign pt t)"

lemma tlb_fill_fits:
  assumes "tables_fit pts (tlb b)"
  shows "\<exists>b'. tlb_fill (pts a) b = Inr b' \<and>
    (case pts a of None \<Rightarrow> b' = b | Some pt \<Rightarrow> \<forall>vaddr. tlb_frame b' vaddr = frame_of pt vaddr)"
proof (cases "pts a")
  case (Some pt)
  then show ?thesis using tlb_fill_translates [of pt b] assms by (auto simp: tables_fit_def)
qed (simp add: tlb_fill_def)

text \<open>
  C19. An interrupt on mips32 calls exactly the registered handlers whose mask has one of the pending interrupts, in the order of registration.
  When they return, the thread goes on if it is not idle and neither the timer nor a request for a context switch is pending; otherwise
  the next thread of the round robin runs, the invariant of the thread subsystem holds again, and the TLB translates the pages of
  the new thread as its page table does, provided that page tables fit into the TLB and no row left over is marked with their address space.
\<close>

theorem interrupt_dispatch:
  assumes "interrupt_init n code b = Inr b0" "register_all regs b0 = Inr b1" "board32 m = b1" "keeps_handlers drv" "cause AND 0x7c = 0"
    and "run_handlers drv io cpu (filter (\<lambda>(irq, _). cause AND irq \<noteq> 0) regs) (acknowledged cause m) = Inr m1"
    and "kinv (kern32 m1) rq sq" "0 \<le> cpu" "cpu < CONFIG_MAX_CPUS" "slocks (kern32 m1) Thread_table_slock = 0"
    and "scheduler_current_thread (kern32 m1) cpu = Some cur" "thread_table (kern32 m1) cur = Some e"
    and "tables_fit pts (tlb (board32 m1))"
  shows "if cause AND 0x8100 = 0 \<and> cur \<noteq> IDLE_THREAD_TID then interrupt_handle drv io pts cpu rnd cause m = Inr m1
    else \<exists>k' b' e0. interrupt_handle drv io pts cpu rnd cause m = Inr (m1\<lparr>kern32 := k', board32 := b'\<rparr>) \<and>
      kinv k' (tl (retired_queue cur e rq)) sq \<and>
      scheduler_current_thread k' cpu = Some (next_thread (retired_queue cur e rq)) \<and>
      thread_table (kern32 m1) (next_thread (retired_queue cur e rq)) = Some e0 \<and>
      (case pts (thread_entry.pagetable e0) of None \<Rightarrow> b' = board32 m1 | Some pt \<Rightarrow> \<forall>vaddr. tlb_frame b' vaddr = frame_of pt vaddr)"
proof -
  have "handlers_are regs b1"
    using register_all_table [OF interrupt_init_empty [OF assms(1)] assms(2)] by simp
  then have table: "interrupt_handlers (board32 (acknowledged cause m)) = map entry_of regs @ replicate (CONFIG_MAX_DEVICES - length regs) no_entry"
    "length regs \<le> CONFIG_MAX_DEVICES"
    using assms(3) by (auto simp: handlers_are_def acknowledged_def interrupt_clear_sw0_def)
  have "filter (\<lambda>(irq, _). cause AND irq \<noteq> 0) regs = filter (\<lambda>r. cause AND fst r \<noteq> 0) regs"
    by (simp add: case_prod_unfold)
  then have loop: "handlers_loop CONFIG_MAX_DEVICES 0 drv io cpu cause (acknowledged cause m) = Inr m1"
    using handlers_loop_eq [OF assms(4), of "acknowledged cause m" "[]" regs "CONFIG_MAX_DEVICES - length regs" CONFIG_MAX_DEVICES io cpu cause]
      table assms(6) by simp
  have handle: "interrupt_handle drv io pts cpu rnd cause m =
      (if cause AND 0x8100 \<noteq> 0 \<or> cur = IDLE_THREAD_TID then
         rbind (scheduler_schedule cpu rnd (kern32 m1)) (\<lambda>k.
         rbind (thread_get_current_thread_entry cpu k) (\<lambda>(e, k).
         rbind (tlb_fill (pts (thread_entry.pagetable e)) (board32 m1)) (\<lambda>b. Inr (m1\<lparr>kern32 := k, board32 := b\<rparr>))))
       else Inr m1)"
    using assms(5, 11) loop by (simp add: interrupt_handle_def acknowledged_def Let_def)
  show ?thesis
  proof (cases "cause AND 0x8100 = 0 \<and> cur \<noteq> IDLE_THREAD_TID")
    case False
    obtain k' e0 e' where k': "scheduler_schedule cpu rnd (kern32 m1) = Inr k'" "kinv k' (tl (retired_queue cur e rq)) sq"
      "scheduler_current_thread k' cpu = Some (next_thread (retired_queue cur e rq))"
      "thread_table (kern32 m1) (next_thread (retired_queue cur e rq)) = Some e0"
      "thread_get_current_thread_entry cpu k' = Inr (e', k')" "thread_entry.pagetable e' = thread_entry.pagetable e0"
      by (rule interrupt_reschedules [OF assms(7-12)])
    obtain b' where b': "tlb_fill (pts (thread_entry.pagetable e0)) (board32 m1) = Inr b'"
      "case pts (thread_entry.pagetable e0) of None \<Rightarrow> b' = board32 m1 | Some pt \<Rightarrow> \<forall>vaddr. tlb_frame b' vaddr = frame_of pt vaddr"
      using tlb_fill_fits [OF assms(13)] by blast
    have "interrupt_handle drv io pts cpu rnd cause m = Inr (m1\<lparr>kern32 := k', board32 := b'\<rparr>)"
      using False handle k'(1, 5, 6) b'(1) by auto
    then show ?thesis using False k'(2-4) b'(2) by auto
  qed (use handle in simp)
qed

section \<open>An example\<close>

text \<open>
  A timer interrupt together with the interrupt of a CPU status device. The handler of the other driver is not called: it would stop the machine.
  Thread 2 is next; its page table maps the page pair of address 0x4000.
\<close>

definition ex_desc :: io_descriptor where
  "ex_desc = \<lparr>desc_type = 0xc00, io_area_base = 0xb0008000, desc_irq = 0\<rparr>"

definition ex_cpu_device :: device where
  "ex_cpu_device = (fill_device ex_desc)\<lparr>real_device := 0x80015000\<rparr>"

definition ex_regs :: "registration list" where
  "ex_regs = [(0x400, Cpustatus_interrupt_handle, ex_cpu_device), (0x800, Driver_handler 7, fill_device ex_desc)]"

definition ex_row :: "8 word \<Rightarrow> tlb_entry" where
  "ex_row asid = \<lparr>VPN2 = 2, ASID = asid, PFN0 = 0x123, C0 = 0, D0 = True, V0 = True, G0 = False,
     PFN1 = 0, C1 = 0, D1 = False, V1 = False, G1 = False\<rparr>"

definition ex_pagetable :: pagetable where
  "ex_pagetable = \<lparr>pt_ASID = 2, valid_count = 1, entries = replicate 340 (ex_row 2)\<rparr>"

definition ex_static :: physmem where
  "ex_static = \<lparr>kernel_end = 0x80010000, free_area_start = 0x80010000, stalloced_total = 0, physmem_free_pages = [], physmem_num_pages = 0,
     physmem_num_free_pages = 0, physmem_static_end = 0, physmem_slock = 0, pm_intr = True\<rparr>"

definition ex_board :: board where
  "ex_board = \<lparr>device_table = replicate 128 None, number_of_devices = 0, system_rtc = fill_device ex_desc, system_meminfo = fill_device ex_desc,
     system_shutdown = fill_device ex_desc, rtc_init_done = False, meminfo_init_done = False, shutdown_init_done = False,
     interrupt_handlers = [], interrupt_stacks = replicate 4 0, vectors = (\<lambda>_. 0), cpu_slocks = (\<lambda>_. 0), statics = ex_static, io_writes = [],
     cause_reg = 0, tlb = replicate 16 (ex_row 9), tlb_asid = 0\<rparr>"

definition ex_threads :: kstate where
  "ex_threads = ex_state\<lparr>thread_table := (thread_table ex_state)(2 \<mapsto> (ex_entry THREAD_READY 0)\<lparr>thread_entry.pagetable := 0x80020000\<rparr>)\<rparr>"

lemma ex_threads_fields [simp]:
  "slocks ex_threads = (\<lambda>_. 0)" "scheduler_current_thread ex_threads 0 = Some 1" "thread_table ex_threads 1 = Some (ex_entry THREAD_RUNNING 0)"
  "thread_table ex_threads 2 = Some ((ex_entry THREAD_READY 0)\<lparr>thread_entry.pagetable := 0x80020000\<rparr>)"
  by (simp_all add: ex_threads_def)

lemma ex_threads_kinv: "kinv ex_threads [2] ex_queues"
proof -
  have "tables_ok ex_threads" by (auto simp: tables_ok_def ex_threads_def ex_state_def split: if_splits)
  moreover have "ready_ok ex_threads [2]" by (simp add: ready_ok_def ex_threads_def ex_state_def)
  moreover have "queues_ok ex_threads ex_queues"
    by (auto simp: queues_ok_def ex_threads_def ex_state_def ex_queues_def split: if_splits)
  moreover have "current_ok ex_threads"
    by (auto simp: current_ok_def ex_threads_def ex_state_def split: if_splits)
  moreover have "threads_ok ex_threads [2] ex_queues"
  proof -
    have r: "runs_on (scheduler_current_thread ex_threads) t \<longleftrightarrow> t = 0 \<or> t = 1" for t
      by (auto simp: runs_on_def ex_threads_def ex_state_def split: if_splits intro: exI [of _ 0] exI [of _ 1])
    show ?thesis unfolding threads_ok_def r
      by (auto simp: ex_threads_def ex_state_def ex_queues_def thread_ok_def idle_ok_def split: if_splits)
  qed
  ultimately show ?thesis by (simp add: kinv_def)
qed

definition ex_pts :: "u64 \<Rightarrow> pagetable option" where
  "ex_pts a = (if a = 0x80020000 then Some ex_pagetable else None)"

lemma ex_pts_fit: "tables_fit ex_pts (replicate 16 (ex_row 9))"
  by (simp add: tables_fit_def ex_pts_def pt_ok_def asid_ok_def rows_foreign_def valid_entries_def ex_pagetable_def ex_row_def)

definition ex_mips :: "unit mips" where
  "ex_mips = \<lparr>kern32 = ex_threads, board32 = projr (rbind (interrupt_init 1 (replicate 8 0) ex_board) (register_all ex_regs)), drivers32 = ()\<rparr>"

theorem interrupt_dispatch_witness:
  "\<exists>m. interrupt_handle (\<lambda>_ _ _. Inl Panic) (\<lambda>_. 2) ex_pts 0 7 0x8400 ex_mips = Inr m \<and>
    scheduler_current_thread (kern32 m) 0 = Some 2 \<and> tlb_frame (board32 m) 0x4000 = Some 0x123"
proof -
  let ?drv = "\<lambda>_ _ _. Inl Panic :: unit mips res"
  obtain b0 where b0: "interrupt_init 1 (replicate 8 0) ex_board = Inr b0" "tlb b0 = tlb ex_board" "cpu_slocks b0 = cpu_slocks ex_board"
    by (simp add: interrupt_init_def ex_board_def ex_static_def stalloc_def)
  obtain hs where b1: "register_all ex_regs b0 = Inr (b0\<lparr>interrupt_handlers := hs\<rparr>)"
    using register_all_eq [OF interrupt_init_empty [OF b0(1)], of ex_regs] by (auto simp: ex_regs_def)
  have board: "board32 ex_mips = b0\<lparr>interrupt_handlers := hs\<rparr>" and kern: "kern32 ex_mips = ex_threads"
    using b0(1) b1 by (simp_all add: ex_mips_def)
  have "acknowledged 0x8400 ex_mips = ex_mips" by (simp add: acknowledged_def)
  moreover have "filter (\<lambda>(irq, _). 0x8400 AND irq \<noteq> 0) ex_regs = [(0x400, Cpustatus_interrupt_handle, ex_cpu_device)]"
    by (simp add: ex_regs_def)
  ultimately obtain m1 where m1: "run_handlers ?drv (\<lambda>_. 2) 0 (filter (\<lambda>(irq, _). 0x8400 AND irq \<noteq> 0) ex_regs) (acknowledged 0x8400 ex_mips) = Inr m1"
    "kern32 m1 = ex_threads" "tlb (board32 m1) = replicate 16 (ex_row 9)"
    using b0(2, 3) board kern
    by (simp add: call_handler_def cpustatus_interrupt_handle_def ex_cpu_device_def fill_device_def ex_desc_def cpu_lock_def cpu_unlock_def
        io_store_def ex_board_def)
  have "frame_of ex_pagetable 0x4000 = Some 0x123"
    by (simp add: frame_of_def pair_def valid_entries_def ex_pagetable_def ex_row_def ADDR_IS_ON_EVEN_PAGE_def)
  then show ?thesis
    using interrupt_dispatch [OF b0(1) b1 board _ _ m1(1), of "[2]" ex_queues 1 "ex_entry THREAD_RUNNING 0" ex_pts 7] ex_threads_kinv m1 ex_pts_fit
    by (auto simp: keeps_handlers_def retired_queue_def next_thread_def ex_pts_def)
qed

end
