(* ===== verification/Spec2Isabelle.thy ===== *)
theory Spec2Isabelle
  imports Kernel_Properties Vfs_Properties Userland_Properties Memory_Properties Process_Properties Memory64_Properties Library_Properties Driver_Properties Console_Properties Board_Properties
begin

text \<open>
  KUDOS is a small operating system kernel for teaching, written in C for x86_64 and mips32, with a
  user library and a host tool that makes disk images. This development models its core and proves
  what makes it correct. Definitions keep the names of the C functions; where two builds have a function
  of the same name, the x86_64 one has the suffix \<open>64\<close>.

  \<^bold>\<open>The parts and how they interact.\<close> Threads live in a table; the scheduler picks the next one from a ready list
  at every timer interrupt; a thread waits in a sleep queue keyed by the address of a resource, and
  semaphores are built on the sleep queues. File system calls go through the VFS, which finds the driver of a
  mounted volume; TFS is the driver there is, and it works on a block device. Volumes are made by the host
  tool and found at start-up by searching partition tables. Memory is handed out in page frames and
  mapped by page tables; a program is read from an ELF file. User programs have a heap of their own. Below the file system
  and the console are the drivers of disks, terminals, screen and keyboard, woken by interrupts; the boot loader hands over a string of arguments.

  \<^bold>\<open>Conventions\<close> (\<^theory_text>\<open>Kudos_Prelude\<close>). Machine integers are words, or integers passed through \<open>c_int\<close> where the source
  stores them in an \<open>int\<close>. An operation returns \<open>res\<close>: a value, or how it fails to return (\<open>Panic\<close> for a failed
  KERNEL_ASSERT or a KERNEL_PANIC, \<open>OutOfBounds\<close> for an access outside an object, \<open>Spin\<close> for a spinlock that is taken,
  \<open>Blocked\<close> for a caller that has to sleep, \<open>Diverges\<close> for a loop that does not end). The error codes of the source are values.
  State is a record that every operation takes and returns. What a device answers to reads of its ports is an argument or a script of
  inputs, what is written to it is appended to a log, and a driver call that waits is split at the wait into a call and its resumption.

  \<^bold>\<open>Threads, scheduling, synchronisation.\<close> \<^theory_text>\<open>Kernel_State\<close> has the state \<open>kstate\<close> (thread table, ready list, hash table of sleep
  queues, semaphores, spinlocks, the interrupt flag of each CPU) with interrupts and spinlocks
  (\<^verbatim>\<open>kernel/x86_64/interrupt.c\<close>, \<^verbatim>\<open>spinlock.S\<close>); \<^theory_text>\<open>Scheduler\<close>, \<^theory_text>\<open>Sleepq\<close>, \<^theory_text>\<open>Thread\<close>, \<^theory_text>\<open>Semaphore\<close> have \<^verbatim>\<open>kernel/scheduler.c\<close>, \<^verbatim>\<open>sleepq.c\<close>, \<^verbatim>\<open>thread.c\<close>
  with \<^verbatim>\<open>x86_64/cswitch.c\<close>, and \<^verbatim>\<open>semaphore.c\<close>. The queues are linked lists through the thread table, related to lists
  by \<open>chain\<close>; the invariant \<open>kinv\<close> says that every thread is in at most one place. \<^theory_text>\<open>Kernel_Steps\<close> has all entry
  points as steps of any CPU in any order and proves by rule induction that the invariant holds in every
  reachable state and that no operation panics, leaves a table or spins there. \<^theory_text>\<open>Kernel_Properties\<close>: the semaphore operations
  implement a counting semaphore with a first-come first-served queue; scheduling is round robin, and a thread with \<open>k\<close>
  threads before it runs after \<open>k + 1\<close> runs of the scheduler; a wake-up takes the longest waiter.

  \<^bold>\<open>Storage.\<close> \<^theory_text>\<open>Libc\<close> and \<^theory_text>\<open>Bitmap\<close> have \<^verbatim>\<open>lib/libc.c\<close> and \<^verbatim>\<open>lib/bitmap.c\<close>; \<^theory_text>\<open>Tfs\<close> has \<^verbatim>\<open>fs/tfs.c\<close> over an arbitrary block device (the record
  \<open>gbd\<close>), \<^theory_text>\<open>Tfs_Files\<close> what it promises over a working one, \<^theory_text>\<open>Tfstool\<close> has \<^verbatim>\<open>util/tfstool.c\<close>, \<^theory_text>\<open>Vfs\<close> has \<^verbatim>\<open>fs/vfs.c\<close> over an arbitrary driver,
  \<^theory_text>\<open>Tfs_Driver\<close> puts TFS under it, \<^theory_text>\<open>Filesystems\<close> has \<^verbatim>\<open>fs/filesystems.c\<close> and mounting. \<^theory_text>\<open>Storage_Properties\<close> and \<^theory_text>\<open>Vfs_Properties\<close>: reading and
  writing change exactly the bytes addressed, what was written is read back through all layers, every path
  gives back its locks, shutdown waits for pending operations, a volume made by the tool is mounted.

  \<^bold>\<open>Memory.\<close> On mips32, \<^theory_text>\<open>Physmem\<close> has \<^verbatim>\<open>kernel/stalloc.c\<close> and \<^verbatim>\<open>vm/mips32/mm_phys.c\<close>, \<^theory_text>\<open>Vm\<close> has \<^verbatim>\<open>vm/mips32/mm_virt.c\<close>; on x86_64, \<^theory_text>\<open>Physmem64\<close> and \<^theory_text>\<open>Paging\<close> have
  \<^verbatim>\<open>vm/x86_64/mm_phys.c\<close> and \<^verbatim>\<open>mm_virt.c\<close>. A page is never handed out twice (\<open>pool_run\<close>, \<open>pool64_run\<close>), and a page table is a map
  from pages to frames (\<open>frame_of\<close>, \<open>translate\<close>) that \<open>vm_map\<close> changes at one page; the tables of a process are apart from
  the kernel's. \<^theory_text>\<open>Memory_Properties\<close> and \<^theory_text>\<open>Memory64_Properties\<close> state this.

  \<^bold>\<open>Programs.\<close> \<^theory_text>\<open>Elf\<close> has \<^verbatim>\<open>proc/elf.c\<close>; \<^theory_text>\<open>Process_Properties\<close> shows that it computes a function of the file's content. \<^theory_text>\<open>Process\<close> has
  \<^verbatim>\<open>proc/process.c\<close>, \<^verbatim>\<open>proc/x86_64/_proc.c\<close>, \<^verbatim>\<open>proc/syscall.c\<close>, \<^verbatim>\<open>kernel/halt.c\<close> and the entry to user mode of \<^verbatim>\<open>cswitch.c\<close> over the record \<open>machine\<close> of the kernel state, the frames, the page
  tables, the memory behind them and the file system; the processor reaches memory through the table in CR3. A program in a
  file is loaded byte for byte into frames of its own and started, and the kernel's memory and mappings stay as they were. \<^theory_text>\<open>Userland_Heap\<close> has the
  allocator of \<^verbatim>\<open>userland/lib.c\<close> over a byte-addressed heap; \<^theory_text>\<open>Userland_Properties\<close>: blocks never overlap, no call changes the
  bytes of a block in use, freed neighbours are merged. \<^theory_text>\<open>Xprintf\<close> has \<^verbatim>\<open>lib/xprintf.c\<close> and its copy in the user library, \<^theory_text>\<open>Userland_Lib\<close> the strings, the line
  input and the system call stubs of \<^verbatim>\<open>userland/lib.c\<close>, \<^theory_text>\<open>Userland_Readline\<close> line input into the heap; \<^theory_text>\<open>Library_Properties\<close>: formatted output is
  the text that \<open>render\<close> gives, cut to the array, numbers are read back, a line typed is in the heap with its deletions carried out.

  \<^bold>\<open>Devices.\<close> \<^theory_text>\<open>Disk_Driver\<close> has \<^verbatim>\<open>drivers/mips32/disk.c\<close> and \<^verbatim>\<open>drivers/disksched.c\<close>, \<^theory_text>\<open>Disk_Run\<close> the runs of it with any clients, the device and its interrupts
  (\<open>disk_step\<close>, \<open>disk_run\<close>, with the invariant \<open>disk_holds\<close>); \<^theory_text>\<open>Tty_Driver\<close> has \<^verbatim>\<open>drivers/mips32/tty.c\<close> and its runs; \<^theory_text>\<open>Ide_Driver\<close> has \<^verbatim>\<open>drivers/x86_64/disk.c\<close>;
  \<^theory_text>\<open>Console\<close> has \<^verbatim>\<open>drivers/x86_64/tty.c\<close> and \<^verbatim>\<open>polltty.c\<close>, \<^theory_text>\<open>Keyboard\<close> has \<^verbatim>\<open>drivers/x86_64/keyboard.c\<close> and console input; \<^theory_text>\<open>Bootargs\<close> has \<^verbatim>\<open>drivers/bootargs.c\<close> and
  \<^verbatim>\<open>lib/debug.c\<close>; \<^theory_text>\<open>Board\<close> has the device table, the meta devices, the interrupt handler and the TLB of mips32 (\<^verbatim>\<open>drivers/mips32/device.c\<close>, \<^verbatim>\<open>metadev.c\<close>,
  \<^verbatim>\<open>kernel/mips32/interrupt.c\<close>, \<^verbatim>\<open>vm/mips32/tlb.c\<close>). \<^theory_text>\<open>Driver_Properties\<close>: the disk serves its requests in the order of submission and a synchronous call returns after its own
  transfer; terminal output and input are first-in first-out streams, and a write served by enough interrupts completes; an IDE transfer puts
  the number of its block into the registers in both addressing modes; every boot argument is found under its key. \<^theory_text>\<open>Console_Properties\<close>:
  the screen is a terminal of 25 rows and 80 columns (\<open>term_char\<close>), the text of \<open>kprintf\<close> appears on it, and a line typed is the line read. \<^theory_text>\<open>Board_Properties\<close>: an interrupt on mips32
  calls the handlers registered for it in their order and leaves the next thread running with its page table in the TLB.

  \<^bold>\<open>Interfaces.\<close> The locale \<open>bit_allocator\<close> is the contract of a bitmap, interpreted for the kernel's (\<open>kb\<close>) and the tool's (\<open>tb\<close>);
  \<open>block_store\<close> that of a working block device, interpreted for disk images (\<open>ib\<close>); \<open>file_driver\<close> that of a file system driver,
  interpreted for TFS (\<open>tf\<close>), and \<open>program_file\<close> extends it by what the loader needs (\<open>tp\<close>); \<open>fs_drivers\<close> that of the driver table, interpreted for the kernel's (\<open>pd\<close>).

  \<^bold>\<open>Bounds and fuel.\<close> Loops over the thread table and the sleep queues have 32 rounds, the size of the table; the loops of the heap
  have as many as there are blocks of the smallest size; in both, running out gives \<open>Diverges\<close>, and the theorems show that it does not
  happen. Extended partition tables are followed for a given number of links, and enough links give the result. The
  loop of \<open>physmem_init\<close> has one round for every bit of the bitmap. The
  loops of \<open>vxnprintf\<close> have a round for every character of the format; a width that starts with 9 uses up any number. Line input has as many rounds as
  characters are typed. The search for the end of the disk queue has a given number of rounds, and as many as there are requests
  are enough; the busy loops of the IDE driver end with the script of port inputs. A shift of an \<open>int\<close> by more than 31 is undefined in C; \<^theory_text>\<open>Physmem64\<close> has the
  value of the x86 instruction.

  \<^bold>\<open>Not modelled.\<close> Interrupt controllers, the descriptor tables and the assembly parts; the PCI bus and the interval timer of x86_64 (port access only); of the start of the kernel, what prints
  and what calls the drivers in turn; of the drivers' initialisation, the allocation and registration of their structures; the example programs, and the vendored 64-bit division. Contents of variables that C leaves unspecified are arguments, except the block buffers of a new TFS volume, which are zeros.
\<close>

end
